(* ===== verification/Prelude.thy ===== *)
theory Prelude
  imports Main "HOL-Library.Word"
begin

text \<open>
  The shared ground of the development: the machine types the C code uses, its return codes,
  the two memory operations every container is built on (reading a slice of a block and
  overwriting a slice of a block, i.e. \<open>memcpy\<close> and \<open>memmove\<close>), and the generic lemmas
  on lists and words that the component theories share.

  The collections \<open>mem_simps\<close> (length and indexing of memory blocks) and \<open>wf_intros\<close>
  (preservation of well-formedness invariants) are filled by the component theories.
\<close>

named_theorems mem_simps "lengths and elements of memory blocks"
named_theorems wf_intros "preservation of the components' invariants"

unbundle bit_operations_syntax

section \<open>Machine types and return codes\<close>

type_synonym u8 = "8 word"
type_synonym u16 = "16 word"
type_synonym u32 = "32 word"
type_synonym u64 = "64 word"
type_synonym bytes = "u8 list"

text \<open>\<open>UINT32_MAX\<close>, \<open>INT32_MAX\<close> and the \<open>SIZE_MAX\<close> of a 64-bit build.\<close>

abbreviation UINT32_MAX :: nat where "UINT32_MAX \<equiv> 4294967295"
abbreviation INT32_MAX :: nat where "INT32_MAX \<equiv> 2147483647"
abbreviation SIZE_MAX :: nat where "SIZE_MAX \<equiv> 18446744073709551615"

text \<open>
  \<open>ASSERTAB\<close> logs and calls \<open>abort\<close>: the rest of the function does not run. An operation
  that contains one returns an \<open>option\<close>, and \<open>None\<close> is the aborted process.
\<close>

definition assertab :: "bool \<Rightarrow> 'a option \<Rightarrow> 'a option" where
  "assertab c k = (if c then k else None)"

lemma assertab_True [simp]: "assertab True k = k"
  by (simp add: assertab_def)

lemma assertab_False [simp]: "assertab False k = None"
  by (simp add: assertab_def)

lemma assertab_eq_Some [simp]: "assertab c k = Some x \<longleftrightarrow> c \<and> k = Some x"
  by (simp add: assertab_def)

section \<open>Blocks of memory\<close>

text \<open>
  \<open>mem_get m i n\<close> reads \<open>n\<close> cells from offset \<open>i\<close>; \<open>mem_put m i ys\<close> is
  \<open>memcpy(m + i, ys, length ys)\<close>. Both are used inside the block only, which the
  components' invariants guarantee.
\<close>

definition mem_get :: "'a list \<Rightarrow> nat \<Rightarrow> nat \<Rightarrow> 'a list" where
  "mem_get m i n = take n (drop i m)"

definition mem_put :: "'a list \<Rightarrow> nat \<Rightarrow> 'a list \<Rightarrow> 'a list" where
  "mem_put m i ys = take i m @ ys @ drop (i + length ys) m"

lemma length_mem_get [simp, mem_simps]: "i + n \<le> length m \<Longrightarrow> length (mem_get m i n) = n"
  by (simp add: mem_get_def)

lemma length_mem_put [simp, mem_simps]: "i + length ys \<le> length m \<Longrightarrow> length (mem_put m i ys) = length m"
  by (simp add: mem_put_def)

lemma nth_mem_get [mem_simps]: "i + n \<le> length m \<Longrightarrow> k < n \<Longrightarrow> mem_get m i n ! k = m ! (i + k)"
  by (simp add: mem_get_def)

lemma nth_mem_put [mem_simps]:
  assumes "i + length ys \<le> length m" and "k < length m"
  shows "mem_put m i ys ! k = (if i \<le> k \<and> k < i + length ys then ys ! (k - i) else m ! k)"
  using assms by (auto simp: mem_put_def nth_append)

lemma mem_get_0 [simp]: "mem_get m i 0 = []"
  by (simp add: mem_get_def)

lemma mem_get_all [simp]: "mem_get m 0 (length m) = m"
  by (simp add: mem_get_def)

lemma mem_put_Nil [simp]: "mem_put m i [] = m"
  by (simp add: mem_put_def)

lemma mem_get_put_same [simp]:
  "i + length ys \<le> length m \<Longrightarrow> mem_get (mem_put m i ys) i (length ys) = ys"
  by (simp add: mem_get_def mem_put_def)

text \<open>Appending right behind a slice extends it: the shape of every "write into the free space".\<close>

lemma mem_get_put_behind:
  assumes "i + n + length ys \<le> length m"
  shows "mem_get (mem_put m (i + n) ys) i (n + length ys) = mem_get m i n @ ys"
  by (rule nth_equalityI) (use assms in \<open>auto simp: mem_simps nth_append\<close>)

lemma mem_get_append: "mem_get m i (n + k) = mem_get m i n @ mem_get m (i + n) k"
  by (simp add: mem_get_def take_add) (simp add: add.commute)

lemma mem_get_drop: "mem_get m (i + k) (n - k) = drop k (mem_get m i n)"
  by (simp add: mem_get_def drop_take add.commute)

lemma mem_get_take: "k \<le> n \<Longrightarrow> mem_get m i k = take k (mem_get m i n)"
  by (simp add: mem_get_def min_absorb1)

lemma mem_get_put_apart:
  assumes "j + length ys \<le> length m" and "i + n \<le> j \<or> j + length ys \<le> i" and "i + n \<le> length m"
  shows "mem_get (mem_put m j ys) i n = mem_get m i n"
  by (rule nth_equalityI) (use assms in \<open>auto simp: mem_simps\<close>)

section \<open>Words\<close>

text \<open>A power of two minus one is a modulus mask.\<close>

lemma and_mask_mod:
  fixes x :: "'a::len word"
  assumes "m = 2 ^ k" and "k < LENGTH('a)"
  shows "unat (x AND (m - 1)) = unat x mod 2 ^ k"
proof -
  have "x AND (m - 1) = take_bit k x"
    using assms(1) by (simp add: take_bit_eq_mask mask_eq_exp_minus_1)
  then show ?thesis by (simp add: unsigned_take_bit_eq flip: take_bit_eq_mod)
qed

lemma unat_pow2: "k < LENGTH('a) \<Longrightarrow> unat ((2 :: 'a::len word) ^ k) = 2 ^ k"
proof -
  assume k: "k < LENGTH('a)"
  then have "unat (word_of_nat (2 ^ k) :: 'a word) = 2 ^ k"
    by (subst unat_of_nat) (simp add: take_bit_eq_mod)
  then show ?thesis by simp
qed

lemma unat_plus_small:
  fixes x y :: "'a::len word"
  shows "unat x + unat y < 2 ^ LENGTH('a) \<Longrightarrow> unat (x + y) = unat x + unat y"
  by (simp add: unat_word_ariths)

lemma unat_minus_le:
  fixes x y :: "'a::len word"
  shows "y \<le> x \<Longrightarrow> unat (x - y) = unat x - unat y"
  by (rule unat_sub)

lemma unat_less: "unat (x :: 'a::len word) < 2 ^ LENGTH('a)"
  by (rule unsigned_less)

lemma unat_ucast_up:
  "LENGTH('a::len) \<le> LENGTH('b::len) \<Longrightarrow> unat (ucast (x :: 'a word) :: 'b word) = unat x"
  using less_le_trans [OF unat_less [of x] power_increasing [of "LENGTH('a)" "LENGTH('b)" "2 :: nat"]]
  by (simp add: unsigned_ucast_eq take_bit_nat_eq_self)

lemma unat_ucast_fits:
  "unat x < 2 ^ LENGTH('b) \<Longrightarrow> unat (ucast (x :: 'a::len word) :: 'b::len word) = unat x"
  by (simp add: unsigned_ucast_eq take_bit_nat_eq_self)

lemma unat_Suc_less:
  fixes d b :: "'a::len word"
  assumes "d < b"
  shows "unat (d + 1) = Suc (unat d)"
proof -
  have "unat d < unat b" using assms by (simp add: word_less_nat_alt)
  moreover have "unat b < 2 ^ LENGTH('a)" by (rule unsigned_less)
  ultimately have "unat d + 1 < 2 ^ LENGTH('a)" by linarith
  then show ?thesis using unat_plus_small [of d 1] by simp
qed

section \<open>Concrete inputs\<close>

text \<open>Unfolds a quantifier bounded by a literal, for the evaluation of invariants on literal states.\<close>

lemma All_less_numeral:
  "(\<forall>i<numeral k. P i) \<longleftrightarrow> (\<forall>i<pred_numeral k. P i) \<and> P (pred_numeral k)"
  by (auto simp: numeral_eq_Suc All_less_Suc)

section \<open>Lists\<close>

lemma length_concat_map: "length (concat (map f xs)) = sum_list (map (\<lambda>x. length (f x)) xs)"
  by (induction xs) auto

lemma sum_list_take_Suc:
  "i < length xs \<Longrightarrow> sum_list (take (Suc i) xs) = sum_list (take i xs) + (xs ! i :: nat)"
  by (simp add: take_Suc_conv_app_nth)

lemma sum_list_take_le: "sum_list (take i xs) \<le> (sum_list xs :: nat)"
  by (metis append_take_drop_id le_add1 sum_list.append)

end
