(* ===== verification/Bits.thy ===== *)
theory Bits
  imports Prelude
begin

text \<open>
  Models \<open>lib/base/bits.c\<close>: \<open>pow2_ceil\<close>, which rounds a \<open>uint32_t\<close> up to a power of two
  by smearing its highest bit downwards. Every power-of-two capacity of the containers goes
  through it. The main result is \<open>pow2_ceil_ok\<close>: the least power of two not below the argument.
\<close>

section \<open>The function\<close>

definition smear :: "nat \<Rightarrow> u32 \<Rightarrow> u32" where
  "smear k n = n OR drop_bit k n"

definition pow2_ceil :: "u32 \<Rightarrow> u32 option" where
  "pow2_ceil n =
     (if n = 0 \<or> n AND (n - 1) = 0 then Some n
      else assertab (n \<le> 0x80000000)
        (Some (smear 16 (smear 8 (smear 4 (smear 2 (smear 1 (n - 1))))) + 1)))"

section \<open>Smearing\<close>

lemma bit_smear:
  assumes "\<And>i. bit y i \<longleftrightarrow> (\<exists>j<m. bit x (i + j))"
  shows "bit (smear m y) i \<longleftrightarrow> (\<exists>j<2 * m. bit x (i + j))"
proof -
  have "bit (smear m y) i \<longleftrightarrow> (\<exists>j<m. bit x (i + j)) \<or> (\<exists>j<m. bit x (i + m + j))"
    by (simp add: smear_def bit_or_iff bit_drop_bit_eq assms add.commute add.left_commute)
  also have "\<dots> \<longleftrightarrow> (\<exists>j<2 * m. bit x (i + j))"
  proof
    assume "(\<exists>j<m. bit x (i + j)) \<or> (\<exists>j<m. bit x (i + m + j))"
    then show "\<exists>j<2 * m. bit x (i + j)"
    proof
      assume "\<exists>j<m. bit x (i + m + j)"
      then obtain j where "j < m" "bit x (i + (m + j))" by (auto simp: add.assoc)
      then show ?thesis by (intro exI [of _ "m + j"]) auto
    qed force
  next
    assume "\<exists>j<2 * m. bit x (i + j)"
    then obtain j where j: "j < 2 * m" "bit x (i + j)" by blast
    show "(\<exists>j<m. bit x (i + j)) \<or> (\<exists>j<m. bit x (i + m + j))"
    proof (cases "j < m")
      case False
      then have "j - m < m \<and> bit x (i + m + (j - m))" using j by simp
      then show ?thesis by blast
    qed (use j in blast)
  qed
  finally show ?thesis .
qed

lemma bit_smear_all:
  "bit (smear 16 (smear 8 (smear 4 (smear 2 (smear 1 x))))) i \<longleftrightarrow> (\<exists>j<32. bit x (i + j))"
proof -
  have 0: "bit x i \<longleftrightarrow> (\<exists>j<1. bit x (i + j))" for i by simp
  note 1 = bit_smear [OF 0, simplified mult_1_right]
  note 2 = bit_smear [OF 1]
  note 4 = bit_smear [OF 2]
  note 8 = bit_smear [OF 4]
  note 16 = bit_smear [OF 8]
  from 16 show ?thesis by simp
qed

lemma highest_bit:
  fixes x :: u32
  assumes "x \<noteq> 0"
  obtains h where "h < 32" "bit x h" "\<And>i. h < i \<Longrightarrow> \<not> bit x i"
proof -
  have fin: "finite {i. bit x i}"
    by (rule finite_subset [of _ "{..<32}"]) (auto dest: bit_imp_le_length)
  have ne: "{i. bit x i} \<noteq> {}"
    using assms by (auto simp: bit_eq_iff)
  let ?h = "Max {i. bit x i}"
  have "bit x ?h" using Max_in [OF fin ne] by simp
  moreover have "\<not> bit x i" if "?h < i" for i
  proof
    assume "bit x i"
    then have "i \<le> ?h" using fin by (intro Max_ge) auto
    with that show False by simp
  qed
  moreover from \<open>bit x ?h\<close> have "?h < 32"
    by (auto dest: bit_imp_le_length)
  ultimately show ?thesis by (rule that [rotated])
qed

lemma smear_all_mask:
  assumes "h < 32" "bit x h" "\<And>i. h < i \<Longrightarrow> \<not> bit x i"
  shows "smear 16 (smear 8 (smear 4 (smear 2 (smear 1 x)))) = mask (Suc h)"
proof (rule bit_word_eqI)
  fix i assume "i < LENGTH(32)"
  then have i: "i < 32" by simp
  have "(\<exists>j<32. bit x (i + j)) \<longleftrightarrow> i \<le> h"
  proof
    assume "\<exists>j<32. bit x (i + j)"
    then show "i \<le> h" using assms(3) by (meson le_add1 le_trans not_le)
  next
    assume "i \<le> h"
    then show "\<exists>j<32. bit x (i + j)"
      using assms(1,2) by (intro exI [of _ "h - i"]) auto
  qed
  then show "bit (smear 16 (smear 8 (smear 4 (smear 2 (smear 1 x))))) i = bit (mask (Suc h) :: u32) i"
    using i by (simp del: One_nat_def add: bit_smear_all bit_mask_iff less_Suc_eq_le)
qed

lemma highest_bit_bounds:
  fixes x :: u32
  assumes "h < 32" "bit x h" "\<And>i. h < i \<Longrightarrow> \<not> bit x i"
  shows "2 ^ h \<le> unat x" "unat x < 2 ^ Suc h"
proof -
  have "x = take_bit (Suc h) x"
    by (rule bit_word_eqI) (metis assms(3) bit_take_bit_iff not_less_eq)
  then have "unat x = unat x mod 2 ^ Suc h"
    by (metis take_bit_eq_mod unsigned_take_bit_eq)
  then show "unat x < 2 ^ Suc h" by (metis mod_less_divisor zero_less_numeral zero_less_power)
  have "bit (unat x) h" using assms(2) by (simp add: bit_unsigned_iff)
  then show "2 ^ h \<le> unat x"
    by (metis bit_iff_odd div_less even_zero linorder_not_le)
qed

section \<open>The result is the least power of two not below the argument\<close>

lemma pow2_and_pred:
  fixes n :: u32
  assumes "n \<noteq> 0" "n AND (n - 1) = 0"
  shows "\<exists>k<32. n = 2 ^ k"
proof -
  obtain h where h: "h < 32" "bit n h" "\<And>i. h < i \<Longrightarrow> \<not> bit n i"
    using highest_bit [OF assms(1)] by blast
  note bnd = highest_bit_bounds [OF h]
  have "unat n = 2 ^ h"
  proof (rule ccontr)
    assume "unat n \<noteq> 2 ^ h"
    with bnd(1) have lt: "2 ^ h < unat n" by simp
    have un1: "unat (n - 1) = unat n - 1"
      using assms(1) by (simp add: unat_minus_one)
    have "unat (n - 1) div 2 ^ h = 1"
      using lt bnd(2) un1 by (intro div_nat_eqI) auto
    then have "bit (unat (n - 1)) h" by (simp add: bit_iff_odd)
    then have "bit (n - 1) h" by (simp add: bit_unsigned_iff)
    with h(2) have "bit (n AND (n - 1)) h" by (simp add: bit_and_iff)
    with assms(2) show False by simp
  qed
  then have "n = 2 ^ h" using h(1) by (simp add: word_unat_eq_iff unat_pow2)
  with h(1) show ?thesis by blast
qed

lemma pow2_ceil_ok:
  assumes "0 < n" "unat n \<le> 2 ^ 31"
  shows "\<exists>k\<le>31. pow2_ceil n = Some (2 ^ k) \<and> unat n \<le> 2 ^ k \<and> 2 ^ k < 2 * unat n"
proof (cases "n AND (n - 1) = 0")
  case True
  then obtain k where k: "k < 32" "n = 2 ^ k"
    using pow2_and_pred assms(1) by (metis word_gt_0)
  then have "unat n = 2 ^ k" by (simp add: unat_pow2)
  with True k assms show ?thesis
    by (intro exI [of _ k]) (auto simp: pow2_ceil_def)
next
  case False
  from assms(1) have n0: "n \<noteq> 0" by auto
  with False have x0: "n - 1 \<noteq> 0" by (metis and_zero_eq)
  have un1: "unat (n - 1) = unat n - 1"
    using n0 by (simp add: unat_minus_one)
  obtain h where h: "h < 32" "bit (n - 1) h" "\<And>i. h < i \<Longrightarrow> \<not> bit (n - 1) i"
    using highest_bit [OF x0] by blast
  note bnd = highest_bit_bounds [OF h]
  have "(2::nat) ^ h < 2 ^ 31" using bnd(1) un1 assms(2) n0
    by (metis One_nat_def diff_Suc_less le_less_trans le_neq_implies_less less_le_trans unat_gt_0)
  then have h31: "h < 31" by (rule power_less_imp_less_exp [rotated]) simp
  have "n \<le> 0x80000000" using assms(2) by (simp add: word_le_nat_alt)
  then have "pow2_ceil n = Some (mask (Suc h) + 1)"
    using False n0 smear_all_mask [OF h] by (simp add: pow2_ceil_def)
  also have "mask (Suc h) + 1 = (2 ^ Suc h :: u32)"
    by (simp add: mask_eq_exp_minus_1)
  finally have "pow2_ceil n = Some (2 ^ Suc h)" .
  moreover have "unat n \<le> 2 ^ Suc h" "2 ^ Suc h < 2 * unat n"
    using bnd un1 n0 assms(1) by (auto simp: word_gt_0 simp flip: unat_gt_0)
  ultimately show ?thesis using h31 by (intro exI [of _ "Suc h"]) auto
qed

lemma pow2_ceil_overflow: "2 ^ 31 < unat n \<Longrightarrow> pow2_ceil n = None"
proof -
  assume a: "2 ^ 31 < unat n"
  have "n AND (n - 1) \<noteq> 0"
  proof
    assume "n AND (n - 1) = 0"
    moreover from a have "n \<noteq> 0" by auto
    ultimately obtain k where k: "k < 32" "n = 2 ^ k" using pow2_and_pred by blast
    then have "unat n = 2 ^ k" by (simp add: unat_pow2)
    with a have "(2::nat) ^ 31 < 2 ^ k" by simp
    then have "31 < k" by (rule power_less_imp_less_exp [rotated]) simp
    with k(1) show False by simp
  qed
  with a show ?thesis by (auto simp: pow2_ceil_def word_le_nat_alt)
qed

section \<open>Properties\<close>

text \<open>
  \<open>pow2_ceil\<close> returns the least power of two that is not below its argument, for every
  argument up to \<open>2 ^ 31\<close>.
\<close>

theorem pow2_ceil_least:
  assumes "0 < n" "unat n \<le> 2 ^ 31"
  shows "\<exists>k\<le>31. pow2_ceil n = Some (2 ^ k) \<and> unat n \<le> 2 ^ k \<and> 2 ^ k < 2 * unat n"
  using pow2_ceil_ok [OF assms] .

theorem pow2_ceil_least_witness:
  "\<exists>k\<le>31. pow2_ceil 5 = Some (2 ^ k) \<and> 5 \<le> (2 :: nat) ^ k \<and> (2 :: nat) ^ k < 10"
  using pow2_ceil_least [of 5] by simp

end
