(* ===== verification/Fifo.thy ===== *)
theory Fifo
  imports Prelude
begin

text \<open>
  The contract of a first-in first-out queue, as the queue's clients (\<open>lib/utils/chan.c\<close>, the task
  message queues) rely on it: an insertion appends as long as the number of queued elements is
  below a limit, a removal takes the oldest element, and both keep the provider's invariant. The
  locale \<open>fifo\<close> states the contract, its lemmas are what every client gets from it, for any
  sequence of operations.
\<close>

datatype 'a fifo_op = Put 'a | Take

text \<open>A client's sequence of operations and the elements its \<open>Take\<close>s return, in order.\<close>

fun fifo_run :: "('q \<Rightarrow> 'a \<Rightarrow> 'q option) \<Rightarrow> ('q \<Rightarrow> 'a option \<times> 'q) \<Rightarrow> 'a fifo_op list \<Rightarrow> 'q \<Rightarrow>
    ('a list \<times> 'q) option" where
  "fifo_run enq deq [] q = Some ([], q)"
| "fifo_run enq deq (Put x # ops) q = Option.bind (enq q x) (fifo_run enq deq ops)"
| "fifo_run enq deq (Take # ops) q =
     (let (r, q') = deq q
      in map_option (\<lambda>(outs, q''). (case r of None \<Rightarrow> outs | Some x \<Rightarrow> x # outs, q''))
           (fifo_run enq deq ops q'))"

fun puts :: "'a fifo_op list \<Rightarrow> 'a list" where
  "puts [] = []"
| "puts (Put x # ops) = x # puts ops"
| "puts (Take # ops) = puts ops"

locale fifo =
  fixes wf :: "'q \<Rightarrow> bool"
    and contents :: "'q \<Rightarrow> 'a list"
    and enq :: "'q \<Rightarrow> 'a \<Rightarrow> 'q option"
    and deq :: "'q \<Rightarrow> 'a option \<times> 'q"
    and limit :: nat
  assumes enq_law: "wf q \<Longrightarrow> length (contents q) < limit \<Longrightarrow>
      \<exists>q'. enq q x = Some q' \<and> wf q' \<and> contents q' = contents q @ [x]"
    and deq_empty: "wf q \<Longrightarrow> contents q = [] \<Longrightarrow> deq q = (None, q)"
    and deq_law: "wf q \<Longrightarrow> contents q = x # xs \<Longrightarrow>
      \<exists>q'. deq q = (Some x, q') \<and> wf q' \<and> contents q' = xs"
begin

text \<open>A removal as one equation, whether or not the queue is empty.\<close>

lemma deq_cases:
  assumes "wf q"
  obtains "contents q = []" "deq q = (None, q)"
  | x xs q' where "contents q = x # xs" "deq q = (Some x, q')" "wf q'" "contents q' = xs"
proof (cases "contents q")
  case Nil
  with assms that(1) show ?thesis by (simp add: deq_empty)
next
  case (Cons x xs)
  with deq_law [OF assms Cons] that(2) show ?thesis by blast
qed

text \<open>Nothing is lost, duplicated or reordered by any sequence of operations within the limit.\<close>

lemma fifo_order:
  assumes "wf q" "length (contents q) + length (puts ops) \<le> limit"
  shows "\<exists>outs q'. fifo_run enq deq ops q = Some (outs, q') \<and> wf q' \<and>
    outs @ contents q' = contents q @ puts ops"
  using assms
proof (induction ops arbitrary: q)
  case Nil
  then show ?case by simp
next
  case (Cons opn ops)
  show ?case
  proof (cases opn)
    case (Put x)
    with Cons.prems obtain q1 where q1: "enq q x = Some q1" "wf q1" "contents q1 = contents q @ [x]"
      using enq_law [of q x] by auto
    with Cons.prems Cons.IH [of q1] Put show ?thesis by auto
  next
    case Take
    from Cons.prems(1) show ?thesis
    proof (cases rule: deq_cases)
      case 1
      with Cons.prems Cons.IH [of q] Take show ?thesis by auto
    next
      case (2 x xs q')
      with Cons.prems Cons.IH [of q'] Take show ?thesis by fastforce
    qed
  qed
qed

text \<open>Draining: \<open>n\<close> removals return the \<open>n\<close> oldest elements.\<close>

lemma fifo_drain:
  "wf q \<Longrightarrow> n \<le> length (contents q) \<Longrightarrow>
    \<exists>q'. fifo_run enq deq (replicate n Take) q = Some (take n (contents q), q') \<and> wf q' \<and>
      contents q' = drop n (contents q)"
proof (induction n arbitrary: q)
  case 0
  then show ?case by simp
next
  case (Suc n)
  from Suc.prems(1) show ?case
  proof (cases rule: deq_cases)
    case 1
    with Suc.prems show ?thesis by simp
  next
    case (2 x xs q')
    with Suc.prems Suc.IH [of q'] show ?thesis by auto
  qed
qed

end

end
