(* ===== verification/Ring_Queue.thy ===== *)
theory Ring_Queue
  imports Bits Fifo
begin

text \<open>
  Models \<open>lib/containers/queue.h\<close>: the ring queue that the macro \<open>QUE_DECL(name, T)\<close>
  generates. The record has the five fields of the C struct with their \<open>uint32_t\<close> width; the
  buffer is a list of cells, \<open>None\<close> for a cell that was allocated and never written. Element
  pointers are indices into the buffer, so \<open>que_at\<close>, \<open>que_peek\<close>, \<open>que_pop\<close> return
  an index (\<open>None\<close> for \<open>NULL\<close>). \<open>esz\<close> is \<open>sizeof(T)\<close>.

  \<open>que_list\<close> is the abstract content, front first; each operation is proved to act on it as
  the list operation its comment promises, and never to abort below the capacity limit.
\<close>

section \<open>State and operations\<close>

record 'a que =
  q_size :: u32
  q_maxsize :: u32
  q_mask :: u32
  q_offset :: u32
  q_ptr :: "'a option list"

definition que_wrap :: "'a que \<Rightarrow> u32 \<Rightarrow> u32" where
  "que_wrap qu off = off AND q_mask qu"

definition que_empty :: "'a que \<Rightarrow> bool" where
  "que_empty qu \<longleftrightarrow> q_size qu = 0"

definition que_full :: "'a que \<Rightarrow> bool" where
  "que_full qu \<longleftrightarrow> q_maxsize qu \<noteq> 0 \<and> q_maxsize qu \<le> q_size qu"

definition que_clear :: "'a que \<Rightarrow> 'a que" where
  "que_clear qu = qu\<lparr>q_size := 0, q_offset := 0\<rparr>"

definition que_init :: "nat \<Rightarrow> u32 \<Rightarrow> 'a que option" where
  "que_init esz maxsize =
     assertab (unat maxsize < UINT32_MAX)
       (if maxsize = 0
        then Some \<lparr>q_size = 0, q_maxsize = 0, q_mask = 0, q_offset = 0, q_ptr = []\<rparr>
        else Option.bind (pow2_ceil (if maxsize < 2 then 2 else maxsize)) (\<lambda>m.
          assertab (esz \<le> SIZE_MAX div unat m)
            (Some \<lparr>q_size = 0, q_maxsize = m, q_mask = m - 1, q_offset = 0,
                   q_ptr = replicate (unat m) None\<rparr>)))"

definition que_free :: "'a que \<Rightarrow> 'a que" where
  "que_free qu = \<lparr>q_size = 0, q_maxsize = 0, q_mask = 0, q_offset = 0, q_ptr = []\<rparr>"

text \<open>
  The two \<open>memcpy\<close> calls of \<open>resize\<close> and \<open>pop_batch\<close>: the first segment runs from
  \<open>offset\<close> to the end of the buffer or of the data, the second from the buffer's start.
\<close>

definition que_copy2 :: "'a que \<Rightarrow> u32 \<Rightarrow> 'a option list \<Rightarrow> 'a option list" where
  "que_copy2 qu n dst =
     (let first = q_maxsize qu - q_offset qu;
          first = (if n < first then n else first);
          dst = mem_put dst 0 (mem_get (q_ptr qu) (unat (q_offset qu)) (unat first))
      in if first < n
         then mem_put dst (unat first) (mem_get (q_ptr qu) 0 (unat (n - first)))
         else dst)"

definition QUEUE_INIT_SIZE :: u32 where "QUEUE_INIT_SIZE = 32"

definition que_resize :: "nat \<Rightarrow> 'a que \<Rightarrow> u32 \<Rightarrow> 'a que option" where
  "que_resize esz qu maxsize =
     assertab (unat maxsize < UINT32_MAX)
       (Option.bind (if maxsize = 0 then Some QUEUE_INIT_SIZE
                     else pow2_ceil (if maxsize < 2 then 2 else maxsize)) (\<lambda>m.
          assertab (q_size qu \<le> m)
            (assertab (esz \<le> SIZE_MAX div unat m)
              (let pnew = replicate (unat m) None;
                   pnew = (if q_size qu \<noteq> 0 then que_copy2 qu (q_size qu) pnew else pnew)
               in Some (qu\<lparr>q_ptr := pnew, q_offset := 0, q_maxsize := m, q_mask := m - 1\<rparr>)))))"

definition que_at :: "'a que \<Rightarrow> u32 \<Rightarrow> nat option" where
  "que_at qu pos =
     (if q_size qu \<le> pos then None else Some (unat (que_wrap qu (q_offset qu + pos))))"

definition que_peek :: "'a que \<Rightarrow> nat option" where
  "que_peek qu = (if q_size qu = 0 then None else Some (unat (q_offset qu)))"

definition que_grow :: "nat \<Rightarrow> 'a que \<Rightarrow> 'a que option" where
  "que_grow esz qu =
     assertab (q_maxsize qu \<le> 0xFFFFFFFF div 2) (que_resize esz qu (q_maxsize qu * 2))"

definition que_push :: "nat \<Rightarrow> 'a que \<Rightarrow> 'a \<Rightarrow> 'a que option" where
  "que_push esz qu elem =
     Option.bind (if q_size qu = q_maxsize qu then que_grow esz qu else Some qu) (\<lambda>qu.
       Some (qu\<lparr>q_ptr := (q_ptr qu)[unat (que_wrap qu (q_offset qu + q_size qu)) := Some elem],
                q_size := q_size qu + 1\<rparr>))"

text \<open>\<open>trypush\<close>: \<open>False\<close> is \<open>ERR_FAILED\<close>, with the queue unchanged.\<close>

definition que_trypush :: "nat \<Rightarrow> 'a que \<Rightarrow> 'a \<Rightarrow> (bool \<times> 'a que) option" where
  "que_trypush esz qu elem =
     (if que_full qu then Some (False, qu)
      else map_option (Pair True) (que_push esz qu elem))"

definition que_pop :: "'a que \<Rightarrow> nat option \<times> 'a que" where
  "que_pop qu =
     (if q_size qu = 0 then (None, qu)
      else (Some (unat (q_offset qu)),
            qu\<lparr>q_offset := que_wrap qu (q_offset qu + 1), q_size := q_size qu - 1\<rparr>))"

definition que_pop_back :: "'a que \<Rightarrow> nat option \<times> 'a que" where
  "que_pop_back qu =
     (if q_size qu = 0 then (None, qu)
      else (let qu = qu\<lparr>q_size := q_size qu - 1\<rparr>
            in (Some (unat (que_wrap qu (q_offset qu + q_size qu))), qu)))"

definition que_pop_batch :: "'a que \<Rightarrow> u32 \<Rightarrow> 'a option list \<times> 'a que" where
  "que_pop_batch qu mx =
     (let n = (if mx < q_size qu then mx else q_size qu)
      in if n = 0 then ([], qu)
         else (que_copy2 qu n (replicate (unat n) None),
               qu\<lparr>q_offset := que_wrap qu (q_offset qu + n), q_size := q_size qu - n\<rparr>))"

text \<open>
  The loop of \<open>del_at\<close> moves the elements behind the hole one step to the front, in segments
  that neither the source nor the destination index leaves over the buffer's end. Each round
  moves at least one element, so \<open>rest\<close> rounds are enough fuel (\<open>que_del_at_ok\<close>).
\<close>

fun que_del_loop :: "nat \<Rightarrow> 'a que \<Rightarrow> u32 \<Rightarrow> u32 \<Rightarrow> u32 \<Rightarrow> 'a que option" where
  "que_del_loop fuel qu dst src rest =
     (if rest = 0 then Some qu
      else case fuel of 0 \<Rightarrow> None
           | Suc fuel' \<Rightarrow>
             (let seg = q_maxsize qu - (if dst < src then src else dst);
                  seg = (if rest < seg then rest else seg);
                  qu' = qu\<lparr>q_ptr := mem_put (q_ptr qu) (unat dst)
                                       (mem_get (q_ptr qu) (unat src) (unat seg))\<rparr>
              in que_del_loop fuel' qu' (que_wrap qu (dst + seg)) (que_wrap qu (src + seg)) (rest - seg)))"

definition que_del_at :: "'a que \<Rightarrow> u32 \<Rightarrow> 'a que option" where
  "que_del_at qu pos =
     (if q_size qu \<le> pos then Some qu
      else if pos = 0
      then Some (qu\<lparr>q_offset := que_wrap qu (q_offset qu + 1), q_size := q_size qu - 1\<rparr>)
      else Option.bind
        (que_del_loop (unat (q_size qu)) qu (que_wrap qu (q_offset qu + pos))
           (que_wrap qu (q_offset qu + pos + 1)) (q_size qu - pos - 1))
        (\<lambda>qu. Some (qu\<lparr>q_size := q_size qu - 1\<rparr>)))"

declare que_del_loop.simps [simp del]

section \<open>Invariant and abstraction\<close>

definition qpos :: "'a que \<Rightarrow> nat \<Rightarrow> nat" where
  "qpos qu i = (unat (q_offset qu) + i) mod unat (q_maxsize qu)"

definition que_wf :: "'a que \<Rightarrow> bool" where
  "que_wf qu \<longleftrightarrow>
     length (q_ptr qu) = unat (q_maxsize qu) \<and>
     unat (q_size qu) \<le> unat (q_maxsize qu) \<and>
     (if q_maxsize qu = 0 then q_mask qu = 0 \<and> q_offset qu = 0
      else (\<exists>k<32. q_maxsize qu = 2 ^ k) \<and> q_mask qu = q_maxsize qu - 1 \<and>
           unat (q_offset qu) < unat (q_maxsize qu)) \<and>
     (\<forall>i<unat (q_size qu). q_ptr qu ! qpos qu i \<noteq> None)"

definition que_list :: "'a que \<Rightarrow> 'a list" where
  "que_list qu = map (\<lambda>i. the (q_ptr qu ! qpos qu i)) [0..<unat (q_size qu)]"

lemma length_que_list [simp]: "length (que_list qu) = unat (q_size qu)"
  by (simp add: que_list_def)

lemma nth_que_list: "i < unat (q_size qu) \<Longrightarrow> que_list qu ! i = the (q_ptr qu ! qpos qu i)"
  by (simp add: que_list_def)

lemma que_wf_cell: "que_wf qu \<Longrightarrow> i < unat (q_size qu) \<Longrightarrow> q_ptr qu ! qpos qu i = Some (que_list qu ! i)"
  by (auto simp: que_wf_def nth_que_list)

lemma que_wf_lengths:
  assumes "que_wf qu"
  shows "length (q_ptr qu) = unat (q_maxsize qu)" "unat (q_size qu) \<le> unat (q_maxsize qu)"
  using assms by (auto simp: que_wf_def)

lemma que_wf_maxsize_pos: "que_wf qu \<Longrightarrow> q_size qu \<noteq> 0 \<Longrightarrow> 0 < unat (q_maxsize qu)"
  by (auto simp: que_wf_def word_gt_0 simp flip: unat_gt_0)

lemma que_wf_offset: "que_wf qu \<Longrightarrow> 0 < unat (q_maxsize qu) \<Longrightarrow> unat (q_offset qu) < unat (q_maxsize qu)"
  by (auto simp: que_wf_def split: if_splits)

text \<open>
  The mask is the modulus, also for a sum that wraps at 32 bits: the capacity divides \<open>2 ^ 32\<close>.
\<close>

lemma unat_que_wrap:
  assumes "que_wf qu" "0 < unat (q_maxsize qu)"
  shows "unat (que_wrap qu x) = unat x mod unat (q_maxsize qu)"
proof -
  from assms obtain k where "k < 32" "q_maxsize qu = 2 ^ k" "q_mask qu = q_maxsize qu - 1"
    by (auto simp: que_wf_def split: if_splits)
  then show ?thesis
    by (simp add: que_wrap_def and_mask_mod [OF refl] unat_pow2)
qed

lemma unat_que_wrap_plus:
  assumes "que_wf qu" "0 < unat (q_maxsize qu)"
  shows "unat (que_wrap qu (x + y)) = (unat x + unat y) mod unat (q_maxsize qu)"
proof -
  from assms obtain k where k: "k < 32" "q_maxsize qu = 2 ^ k"
    by (auto simp: que_wf_def split: if_splits)
  have "(2::nat) ^ k dvd 2 ^ 32" using k(1) by (intro le_imp_power_dvd) simp
  moreover have "unat (x + y) = (unat x + unat y) mod 2 ^ 32"
    by (simp add: unat_word_ariths)
  ultimately have "unat (x + y) mod 2 ^ k = (unat x + unat y) mod 2 ^ k"
    by (simp only: mod_mod_cancel)
  then show ?thesis using assms k by (simp add: unat_que_wrap unat_pow2)
qed

lemma qpos_less: "0 < unat (q_maxsize qu) \<Longrightarrow> qpos qu i < unat (q_maxsize qu)"
  by (simp add: qpos_def)

text \<open>Different positions of the window are different cells.\<close>

lemma qpos_inj_less:
  assumes "i < j" "j < unat (q_maxsize qu)"
  shows "qpos qu i \<noteq> qpos qu j"
proof
  assume "qpos qu i = qpos qu j"
  then have "unat (q_maxsize qu) dvd (unat (q_offset qu) + j) - (unat (q_offset qu) + i)"
    unfolding qpos_def by (intro mod_eq_dvd_iff_nat [THEN iffD1]) (use assms in simp_all)
  then have "unat (q_maxsize qu) dvd j - i" by simp
  with assms show False by (auto dest: dvd_imp_le)
qed

lemma qpos_inj:
  "i < unat (q_maxsize qu) \<Longrightarrow> j < unat (q_maxsize qu) \<Longrightarrow> qpos qu i = qpos qu j \<longleftrightarrow> i = j"
  using qpos_inj_less [of i j qu] qpos_inj_less [of j i qu] by (cases i j rule: linorder_cases) auto

section \<open>Every operation acts on the list\<close>

lemma que_empty_list: "que_empty qu \<longleftrightarrow> que_list qu = []"
  by (simp add: que_empty_def que_list_def unat_eq_zero)

lemma que_full_list:
  assumes "que_wf qu"
  shows "que_full qu \<longleftrightarrow> 0 < unat (q_maxsize qu) \<and> length (que_list qu) = unat (q_maxsize qu)"
  using que_wf_lengths(2) [OF assms]
  by (auto simp: que_full_def word_le_nat_alt unat_gt_0)

lemma que_free_wf [wf_intros]: "que_wf (que_free qu)" and que_free_list: "que_list (que_free qu) = []"
  by (simp_all add: que_free_def que_wf_def que_list_def)

lemma que_clear_wf [wf_intros]: "que_wf qu \<Longrightarrow> que_wf (que_clear qu)"
  and que_clear_list: "que_list (que_clear qu) = []"
  by (auto simp: que_clear_def que_wf_def que_list_def unat_gt_0 split: if_splits)

lemma que_at_ok:
  assumes "que_wf qu"
  shows "que_at qu pos =
    (if unat pos < length (que_list qu) then Some (qpos qu (unat pos)) else None)"
proof (cases "unat pos < unat (q_size qu)")
  case True
  then have "0 < unat (q_maxsize qu)" using que_wf_lengths(2) [OF assms] by simp
  with True show ?thesis
    by (simp add: que_at_def word_le_nat_alt qpos_def unat_que_wrap_plus [OF assms])
next
  case False
  then show ?thesis by (simp add: que_at_def word_le_nat_alt)
qed

lemma que_peek_ok:
  assumes "que_wf qu"
  shows "que_peek qu = (if que_list qu = [] then None else Some (qpos qu 0))"
proof (cases "q_size qu = 0")
  case True
  then show ?thesis by (simp add: que_peek_def que_list_def)
next
  case False
  with assms have "unat (q_offset qu) mod unat (q_maxsize qu) = unat (q_offset qu)"
    by (simp add: que_wf_maxsize_pos que_wf_offset)
  with False show ?thesis
    by (simp add: que_peek_def que_list_def qpos_def unat_eq_zero)
qed

text \<open>Dropping \<open>n\<close> elements at the front, the shared step of \<open>pop\<close>, \<open>pop_batch\<close> and \<open>del_at 0\<close>.\<close>

lemma que_advance:
  assumes wf: "que_wf qu" and n: "unat n \<le> unat (q_size qu)" "0 < unat n"
  defines "qu' \<equiv> qu\<lparr>q_offset := que_wrap qu (q_offset qu + n), q_size := q_size qu - n\<rparr>"
  shows "que_wf qu'" "que_list qu' = drop (unat n) (que_list qu)"
proof -
  have M: "0 < unat (q_maxsize qu)" using que_wf_lengths(2) [OF wf] n by simp
  have sz: "unat (q_size qu - n) = unat (q_size qu) - unat n"
    using n by (intro unat_minus_le) (simp add: word_le_nat_alt)
  have pos: "qpos qu' i = qpos qu (unat n + i)" for i
    using M by (simp add: qu'_def qpos_def unat_que_wrap_plus [OF wf] mod_add_left_eq add.assoc)
  show "que_wf qu'"
    using wf M sz n que_wf_cell [OF wf] unfolding que_wf_def pos
    by (auto simp: qu'_def unat_que_wrap_plus [OF wf M] split: if_splits)
  show "que_list qu' = drop (unat n) (que_list qu)"
    by (rule nth_equalityI) (auto simp: nth_que_list pos sz, auto simp: qu'_def sz nth_que_list pos [unfolded qu'_def])
qed

text \<open>Reading through a returned pointer.\<close>

definition que_deref :: "'a que \<Rightarrow> nat option \<Rightarrow> 'a option" where
  "que_deref qu p = (case p of None \<Rightarrow> None | Some i \<Rightarrow> q_ptr qu ! i)"

lemma que_deref_qpos: "que_wf qu \<Longrightarrow> i < length (que_list qu) \<Longrightarrow> que_deref qu (Some (qpos qu i)) = Some (que_list qu ! i)"
  by (simp add: que_deref_def que_wf_cell)

lemma que_pop_empty: "que_list qu = [] \<Longrightarrow> que_pop qu = (None, qu)"
  by (simp add: que_pop_def que_list_def unat_eq_zero)

lemma que_pop_ok:
  assumes wf: "que_wf qu" and ne: "que_list qu = x # xs"
  obtains p qu' where "que_pop qu = (Some p, qu')" "que_wf qu'" "que_list qu' = xs"
    "que_deref qu' (Some p) = Some x"
proof -
  have n: "unat (1 :: u32) \<le> unat (q_size qu)" "0 < unat (1 :: u32)"
    using ne length_que_list [of qu] by simp_all
  note adv = que_advance [OF wf n]
  have "0 < unat (q_maxsize qu)" using que_wf_lengths(2) [OF wf] n by simp
  then have "qpos qu 0 = unat (q_offset qu)"
    by (simp add: qpos_def que_wf_offset [OF wf])
  moreover have "que_deref qu (Some (qpos qu 0)) = Some x"
    using que_deref_qpos [OF wf, of 0] ne by simp
  moreover have "que_pop qu = (Some (unat (q_offset qu)),
      qu\<lparr>q_offset := que_wrap qu (q_offset qu + 1), q_size := q_size qu - 1\<rparr>)"
    using n by (auto simp: que_pop_def)
  ultimately show ?thesis
    using adv ne by (intro that [OF _ adv(1)]) (auto simp: que_deref_def)
qed

lemma que_pop_back_ok:
  assumes wf: "que_wf qu" and ne: "que_list qu = xs @ [x]"
  obtains p qu' where "que_pop_back qu = (Some p, qu')" "que_wf qu'" "que_list qu' = xs"
    "que_deref qu' (Some p) = Some x"
proof -
  define qu' where "qu' = qu\<lparr>q_size := q_size qu - 1\<rparr>"
  have n: "unat (q_size qu) = Suc (length xs)"
    using ne length_que_list [of qu] by simp
  then have sz: "unat (q_size qu - 1) = length xs"
    by (subst unat_minus_le) (simp_all add: word_le_nat_alt)
  have M: "0 < unat (q_maxsize qu)" using que_wf_lengths(2) [OF wf] n by simp
  have pos: "qpos qu' i = qpos qu i" for i by (simp add: qu'_def qpos_def)
  have wf': "que_wf qu'"
    using wf n sz by (auto simp: qu'_def que_wf_def qpos_def split: if_splits)
  have "que_list qu' = take (length xs) (que_list qu)"
    by (rule nth_equalityI) (auto simp: qu'_def sz n nth_que_list pos [unfolded qu'_def])
  then have "que_list qu' = xs" using ne by simp
  moreover have "unat (que_wrap qu' (q_offset qu' + q_size qu')) = qpos qu (length xs)"
    using M sz by (subst unat_que_wrap_plus [OF wf']) (simp_all add: qu'_def qpos_def)
  moreover have "que_deref qu (Some (qpos qu (length xs))) = Some x"
    using que_deref_qpos [OF wf, of "length xs"] ne n by simp
  ultimately show ?thesis
    using wf' n by (intro that [of "qpos qu (length xs)" qu'])
      (auto simp: que_pop_back_def que_deref_def qu'_def Let_def)
qed

text \<open>Two copies are the window in order, whatever the offset.\<close>

lemma que_copy2_ok:
  assumes wf: "que_wf qu" and n: "unat n \<le> unat (q_size qu)" "unat n \<le> length dst"
  shows "que_copy2 qu n dst = map Some (take (unat n) (que_list qu)) @ drop (unat n) dst"
proof (cases "n = 0")
  case True
  then show ?thesis by (simp add: que_copy2_def Let_def word_gt_0)
next
  case False
  then have n0: "0 < unat n" by (simp add: unat_gt_0)
  note len = que_wf_lengths [OF wf]
  have M: "0 < unat (q_maxsize qu)" using len n n0 by simp
  have off: "unat (q_offset qu) < unat (q_maxsize qu)" using wf M by (rule que_wf_offset)
  define m where "m = unat (q_maxsize qu) - unat (q_offset qu)"
  have um: "unat (q_maxsize qu - q_offset qu) = m"
    unfolding m_def using off by (intro unat_minus_le) (simp add: word_le_nat_alt)
  have cell: "q_ptr qu ! (if k < m then unat (q_offset qu) + k else k - m) = Some (que_list qu ! k)"
    if "k < unat n" for k
  proof -
    have "qpos qu k = (if k < m then unat (q_offset qu) + k else k - m)"
      using off that n(1) len by (auto simp: qpos_def m_def mod_if)
    then show ?thesis using que_wf_cell [OF wf, of k] that n(1) by simp
  qed
  have lo: "q_ptr qu ! (unat (q_offset qu) + k) = Some (que_list qu ! k)" if "k < unat n" "k < m" for k
    using cell [OF that(1)] that(2) by simp
  have hi: "q_ptr qu ! (k + unat (q_offset qu) - unat (q_maxsize qu)) = Some (que_list qu ! k)"
    if "k < unat n" "m \<le> k" for k
    using cell [OF that(1)] that(2) off by (simp add: m_def add.commute)
  show ?thesis
  proof (cases "unat n < m")
    case True
    then show ?thesis
      using n len off lo um unfolding que_copy2_def Let_def
      by (intro nth_equalityI) (auto simp: word_less_nat_alt m_def nth_append mem_simps split: if_splits)
  next
    case False
    then have "unat (n - (q_maxsize qu - q_offset qu)) = unat n - m"
      by (subst unat_minus_le) (simp_all add: word_le_nat_alt um)
    with False show ?thesis
      using n len off lo hi um unfolding que_copy2_def Let_def
      by (intro nth_equalityI) (auto simp: word_less_nat_alt m_def nth_append mem_simps split: if_splits)
  qed
qed

lemma que_pop_batch_ok:
  assumes wf: "que_wf qu"
  obtains qu' where "que_pop_batch qu mx = (map Some (take (unat mx) (que_list qu)), qu')"
    "que_wf qu'" "que_list qu' = drop (unat mx) (que_list qu)"
proof -
  define n where "n = (if mx < q_size qu then mx else q_size qu)"
  have n: "unat n = min (unat mx) (unat (q_size qu))"
    by (auto simp: n_def word_less_nat_alt)
  show ?thesis
  proof (cases "n = 0")
    case True
    then have "min (unat mx) (unat (q_size qu)) = 0" using n by simp
    then show ?thesis using True wf
      by (intro that [of qu]) (auto simp: que_pop_batch_def n_def Let_def que_list_def min_def unat_eq_zero split: if_splits)
  next
    case False
    then have "0 < unat n" by (simp add: unat_gt_0)
    with n have "unat n \<le> unat (q_size qu)" "0 < unat n" by simp_all
    note adv = que_advance [OF wf this]
    have "que_copy2 qu n (replicate (unat n) None) = map Some (take (unat n) (que_list qu))"
      using n by (subst que_copy2_ok [OF wf]) simp_all
    also have "take (unat n) (que_list qu) = take (unat mx) (que_list qu)"
      by (simp add: n min_def)
    finally have "que_pop_batch qu mx = (map Some (take (unat mx) (que_list qu)),
        qu\<lparr>q_offset := que_wrap qu (q_offset qu + n), q_size := q_size qu - n\<rparr>)"
      using False by (simp add: que_pop_batch_def Let_def flip: n_def)
    moreover have "drop (unat n) (que_list qu) = drop (unat mx) (que_list qu)"
      by (simp add: n min_def)
    ultimately show ?thesis using adv by (intro that) simp_all
  qed
qed

section \<open>Growing\<close>

text \<open>
  A fresh linear buffer that holds the window at its start: what \<open>init\<close> and \<open>resize\<close> leave.
\<close>

lemma que_linear:
  fixes xs :: "'a list" and m :: u32
  assumes "m = 2 ^ k" "k < 32" "length xs \<le> 2 ^ k" "unat sz = length xs"
  defines "qu \<equiv> \<lparr>q_size = sz, q_maxsize = m, q_mask = m - 1, q_offset = 0,
                  q_ptr = map Some xs @ replicate (2 ^ k - length xs) None\<rparr>"
  shows "que_wf qu" "que_list qu = xs"
proof -
  have um: "unat m = 2 ^ k" using assms by (simp add: unat_pow2)
  then have m0: "m \<noteq> 0" by auto
  have pos: "qpos qu i = i" if "i < length xs" for i
    using that assms(3) um by (simp add: qu_def qpos_def)
  show "que_wf qu"
    using assms(1-4) um m0 pos by (auto simp: que_wf_def qu_def nth_append)
  show "que_list qu = xs"
    using assms(4) pos by (intro nth_equalityI) (auto simp: que_list_def qu_def nth_append)
qed

lemma pow2_ceil_at_least2:
  assumes "unat n \<le> 2 ^ 31"
  obtains k where "1 \<le> k" "k \<le> 31" "pow2_ceil (if n < 2 then 2 else n) = Some (2 ^ k)"
    "unat n \<le> 2 ^ k" "n \<noteq> 0 \<Longrightarrow> 2 ^ k \<le> 2 * unat n"
proof -
  define n' :: u32 where "n' = (if n < 2 then 2 else n)"
  have n': "0 < n'" "unat n' \<le> 2 ^ 31" "2 \<le> unat n'" "unat n \<le> unat n'"
    using assms by (auto simp: n'_def word_less_nat_alt word_le_nat_alt)
  then obtain k where k: "k \<le> 31" "pow2_ceil n' = Some (2 ^ k)" "unat n' \<le> 2 ^ k" "2 ^ k < 2 * unat n'"
    using pow2_ceil_ok by blast
  have "1 \<le> k" using k(3) n'(3) by (cases k) auto
  moreover have "2 ^ k \<le> 2 * unat n" if "n \<noteq> 0"
  proof (cases "n < 2")
    case True
    with that have "unat n = 1" by (simp add: word_less_nat_alt unat_eq_zero le_Suc_eq less_2_cases_iff)
    moreover have "(2::nat) ^ k < 2 ^ 2" using k(4) True by (simp add: n'_def)
    then have "k < 2" by (rule power_less_imp_less_exp [rotated]) simp
    ultimately show ?thesis using \<open>1 \<le> k\<close> by (simp add: less_2_cases_iff)
  qed (use k(4) in \<open>simp add: n'_def\<close>)
  ultimately show ?thesis using k n' by (intro that [of k]) (auto simp: n'_def)
qed

lemma que_init_ok:
  assumes "unat n \<le> 2 ^ 31" "esz \<le> SIZE_MAX div 2 ^ 31"
  obtains qu where "que_init esz n = Some qu" "que_wf qu" "que_list qu = []"
    "n \<noteq> 0 \<Longrightarrow> unat n \<le> unat (q_maxsize qu)" "unat (q_maxsize qu) \<le> max 2 (2 * unat n)"
proof (cases "n = 0")
  case True
  then show ?thesis
    by (intro that [of "que_free undefined"]) (auto simp: que_init_def que_free_wf que_free_list, simp_all add: que_free_def)
next
  case False
  obtain k where k: "1 \<le> k" "k \<le> 31" "pow2_ceil (if n < 2 then 2 else n) = Some (2 ^ k)"
    "unat n \<le> 2 ^ k" "n \<noteq> 0 \<Longrightarrow> 2 ^ k \<le> 2 * unat n"
    using pow2_ceil_at_least2 [OF assms(1)] by blast
  have um: "unat (2 ^ k :: u32) = 2 ^ k" using k(2) by (simp add: unat_pow2)
  have "(2::nat) ^ k \<le> 2 ^ 31" using k(2) by (intro power_increasing) simp_all
  then have "SIZE_MAX div 2 ^ 31 \<le> SIZE_MAX div (2 ^ k)" by (intro div_le_mono2) simp_all
  with assms(2) have "esz \<le> SIZE_MAX div (2 ^ k)" by simp
  then have "que_init esz n = Some \<lparr>q_size = 0, q_maxsize = 2 ^ k, q_mask = 2 ^ k - 1, q_offset = 0,
      q_ptr = map Some ([] :: 'a list) @ replicate (2 ^ k - length ([] :: 'a list)) None\<rparr>"
    using False k(3) assms(1) um by (simp add: que_init_def)
  moreover have "k < 32" using k(2) by simp
  note lin = que_linear [OF refl this, where xs = "[] :: 'a list" and sz = 0, simplified]
  ultimately show ?thesis using lin k False um by (intro that) auto
qed

lemma que_resize_ok:
  assumes wf: "que_wf qu" and n: "unat n \<le> 2 ^ 31" "unat (q_size qu) \<le> (if n = 0 then 32 else unat n)"
    and esz: "esz \<le> SIZE_MAX div 2 ^ 31"
  obtains qu' where "que_resize esz qu n = Some qu'" "que_wf qu'" "que_list qu' = que_list qu"
    "q_size qu' = q_size qu" "(if n = 0 then 32 else unat n) \<le> unat (q_maxsize qu')"
proof -
  obtain k where k: "1 \<le> k" "k \<le> 31"
    "(if n = 0 then Some QUEUE_INIT_SIZE else pow2_ceil (if n < 2 then 2 else n)) = Some (2 ^ k)"
    "(if n = 0 then 32 else unat n) \<le> 2 ^ k"
  proof (cases "n = 0")
    case True
    then show ?thesis by (intro that [of 5]) (auto simp: QUEUE_INIT_SIZE_def)
  next
    case False
    obtain k where "1 \<le> k" "k \<le> 31" "pow2_ceil (if n < 2 then 2 else n) = Some (2 ^ k)" "unat n \<le> 2 ^ k"
      using pow2_ceil_at_least2 [OF n(1)] by blast
    with False show ?thesis by (intro that [of k]) simp_all
  qed
  have um: "unat (2 ^ k :: u32) = 2 ^ k" using k(2) by (simp add: unat_pow2)
  have "(2::nat) ^ k \<le> 2 ^ 31" using k(2) by (intro power_increasing) simp_all
  then have "SIZE_MAX div 2 ^ 31 \<le> SIZE_MAX div (2 ^ k)" by (intro div_le_mono2) simp_all
  with esz have es: "esz \<le> SIZE_MAX div (2 ^ k)" by simp
  have sz: "unat (q_size qu) \<le> 2 ^ k" using n(2) k(4) by simp
  define pnew where "pnew = map Some (que_list qu) @ replicate (2 ^ k - length (que_list qu)) None"
  have "(if q_size qu \<noteq> 0 then que_copy2 qu (q_size qu) (replicate (2 ^ k) None)
         else replicate (2 ^ k) None) = pnew"
    using sz by (auto simp: que_copy2_ok [OF wf] pnew_def que_list_def)
  moreover have "q_size qu \<le> 2 ^ k" using sz um by (simp add: word_le_nat_alt)
  ultimately have "que_resize esz qu n = Some (qu\<lparr>q_ptr := pnew, q_offset := 0, q_maxsize := 2 ^ k,
      q_mask := 2 ^ k - 1\<rparr>)"
    using n(1) es unfolding que_resize_def k(3) by (simp add: um)
  then have res: "que_resize esz qu n = Some \<lparr>q_size = q_size qu, q_maxsize = 2 ^ k, q_mask = 2 ^ k - 1,
      q_offset = 0, q_ptr = pnew\<rparr>"
    by (cases qu) simp
  have h: "k < 32" "length (que_list qu) \<le> 2 ^ k" "unat (q_size qu) = length (que_list qu)"
    using k(2) sz by simp_all
  show ?thesis
    by (rule that [OF res que_linear [OF refl h, folded pnew_def]]) (simp_all only: um que.select_convs k(4))
qed

lemma que_push_room:
  assumes wf: "que_wf qu" and lt: "q_size qu \<noteq> q_maxsize qu"
  obtains qu' where "que_push esz qu x = Some qu'" "que_wf qu'" "que_list qu' = que_list qu @ [x]"
    "q_maxsize qu' = q_maxsize qu"
proof -
  note len = que_wf_lengths [OF wf]
  from lt len have szlt: "unat (q_size qu) < unat (q_maxsize qu)" by (simp add: word_unat_eq_iff)
  then have M: "0 < unat (q_maxsize qu)" by simp
  define qu' where "qu' = qu\<lparr>q_ptr := (q_ptr qu)[unat (que_wrap qu (q_offset qu + q_size qu)) := Some x],
     q_size := q_size qu + 1\<rparr>"
  have at: "unat (que_wrap qu (q_offset qu + q_size qu)) = qpos qu (unat (q_size qu))"
    by (simp add: unat_que_wrap_plus [OF wf M] qpos_def)
  have "unat (q_maxsize qu) < 2 ^ LENGTH(32)" by (rule unsigned_less)
  then have sz: "unat (q_size qu + 1) = Suc (unat (q_size qu))"
    using szlt by (subst unat_plus_small) simp_all
  have szq: "unat (q_size qu') = Suc (unat (q_size qu))" by (simp add: qu'_def sz)
  have pos: "qpos qu' i = qpos qu i" for i by (simp add: qu'_def qpos_def)
  have cell: "q_ptr qu' ! qpos qu i = Some ((que_list qu @ [x]) ! i)" if "i \<le> unat (q_size qu)" for i
    using that szlt len que_wf_cell [OF wf, of i] qpos_less [OF M] 
    by (auto simp: qu'_def at nth_list_update qpos_inj nth_append)
  have "que_wf qu'"
    using wf sz szlt cell unfolding que_wf_def pos
    by (auto simp: qu'_def less_Suc_eq_le split: if_splits)
  moreover have "que_list qu' = que_list qu @ [x]"
    by (rule nth_equalityI) (simp_all add: nth_que_list szq pos cell less_Suc_eq_le)
  ultimately show ?thesis using lt by (intro that [of qu']) (auto simp: que_push_def qu'_def)
qed

lemma que_push_ok:
  assumes wf: "que_wf qu" and cap: "length (que_list qu) < 2 ^ 31" and esz: "esz \<le> SIZE_MAX div 2 ^ 31"
  obtains qu' where "que_push esz qu x = Some qu'" "que_wf qu'" "que_list qu' = que_list qu @ [x]"
proof (cases "q_size qu = q_maxsize qu")
  case False
  then show ?thesis using que_push_room [OF wf] that by metis
next
  case True
  have small: "unat (q_maxsize qu) \<le> 2 ^ 30"
  proof (cases "q_maxsize qu = 0")
    case False
    with wf obtain k where k: "k < 32" "q_maxsize qu = 2 ^ k" by (auto simp: que_wf_def)
    then have "(2::nat) ^ k < 2 ^ 31" using cap True by (simp add: unat_pow2)
    then have "k < 31" by (rule power_less_imp_less_exp [rotated]) simp
    then have "(2::nat) ^ k \<le> 2 ^ 30" by (intro power_increasing) simp_all
    then show ?thesis using k by (simp add: unat_pow2)
  qed simp
  then have dbl: "unat (q_maxsize qu * 2) = unat (q_maxsize qu) * 2"
    by (simp add: unat_word_ariths)
  obtain q1 where q1: "que_resize esz qu (q_maxsize qu * 2) = Some q1" "que_wf q1" "que_list q1 = que_list qu"
    "q_size q1 = q_size qu"
    "(if q_maxsize qu * 2 = 0 then 32 else unat (q_maxsize qu * 2)) \<le> unat (q_maxsize q1)"
    by (rule que_resize_ok [OF wf _ _ esz, where n = "q_maxsize qu * 2"]) (use small dbl True in auto)
  have "unat (q_size q1) < unat (q_maxsize q1)"
  proof (cases "q_maxsize qu * 2 = 0")
    case True
    then have "unat (q_maxsize qu) = 0" using dbl by simp
    then show ?thesis using q1(4,5) True \<open>q_size qu = q_maxsize qu\<close> by simp
  next
    case False
    then have "0 < unat (q_maxsize qu * 2)" by (simp add: unat_gt_0)
    then show ?thesis using q1(4,5) False dbl \<open>q_size qu = q_maxsize qu\<close> by simp
  qed
  then have "q_size q1 \<noteq> q_maxsize q1" by auto
  then obtain q2 where q2: "que_push esz q1 x = Some q2" "que_wf q2" "que_list q2 = que_list q1 @ [x]"
    using que_push_room [OF q1(2)] by metis
  have "q_maxsize qu \<le> 0xFFFFFFFF div 2" using small by (simp add: word_le_nat_alt)
  then have "que_push esz qu x = que_push esz q1 x"
    using True q1(1) \<open>q_size q1 \<noteq> q_maxsize q1\<close> by (simp add: que_push_def que_grow_def)
  with q2 q1 show ?thesis by (intro that) auto
qed

lemma que_trypush_ok:
  assumes wf: "que_wf qu" and esz: "esz \<le> SIZE_MAX div 2 ^ 31"
  shows "que_full qu \<Longrightarrow> que_trypush esz qu x = Some (False, qu)"
    and "\<not> que_full qu \<Longrightarrow> \<exists>qu'. que_trypush esz qu x = Some (True, qu') \<and> que_wf qu' \<and>
           que_list qu' = que_list qu @ [x] \<and> (q_maxsize qu \<noteq> 0 \<longrightarrow> q_maxsize qu' = q_maxsize qu)"
proof -
  show "que_full qu \<Longrightarrow> que_trypush esz qu x = Some (False, qu)" by (simp add: que_trypush_def)
next
  assume nf: "\<not> que_full qu"
  show "\<exists>qu'. que_trypush esz qu x = Some (True, qu') \<and> que_wf qu' \<and>
     que_list qu' = que_list qu @ [x] \<and> (q_maxsize qu \<noteq> 0 \<longrightarrow> q_maxsize qu' = q_maxsize qu)"
  proof (cases "q_maxsize qu = 0")
    case True
    then have "length (que_list qu) < 2 ^ 31" using que_wf_lengths(2) [OF wf] by simp
    from que_push_ok [OF wf this esz] obtain qu' where
      "que_push esz qu x = Some qu'" "que_wf qu'" "que_list qu' = que_list qu @ [x]" by metis
    with nf True show ?thesis by (auto simp: que_trypush_def)
  next
    case False
    with nf have "q_size qu \<noteq> q_maxsize qu" by (auto simp: que_full_def)
    from que_push_room [OF wf this] obtain qu' where
      "que_push esz qu x = Some qu'" "que_wf qu'" "que_list qu' = que_list qu @ [x]" "q_maxsize qu' = q_maxsize qu"
      by metis
    with nf show ?thesis by (auto simp: que_trypush_def)
  qed
qed

section \<open>Deleting in the middle\<close>

lemma qpos_Suc_seg:
  assumes "0 < unat (q_maxsize qu)" "qpos qu p + s < unat (q_maxsize qu)"
  shows "qpos qu (p + s) = qpos qu p + s"
  using assms by (metis add.assoc mod_add_left_eq mod_less qpos_def)

text \<open>One \<open>memmove\<close> shifts positions \<open>p + 1 .. p + s\<close> to \<open>p .. p + s - 1\<close>.\<close>

lemma que_move_seg:
  assumes wf: "que_wf qu" and s: "0 < s" "p + s < unat (q_size qu)"
    and d: "qpos qu p + s \<le> unat (q_maxsize qu)" "qpos qu (Suc p) + s \<le> unat (q_maxsize qu)"
  defines "qu' \<equiv> qu\<lparr>q_ptr := mem_put (q_ptr qu) (qpos qu p) (mem_get (q_ptr qu) (qpos qu (Suc p)) s)\<rparr>"
  shows "que_wf qu'"
    "i < unat (q_size qu) \<Longrightarrow> que_list qu' ! i = que_list qu ! (if p \<le> i \<and> i < p + s then Suc i else i)"
proof -
  note len = que_wf_lengths [OF wf]
  have M: "0 < unat (q_maxsize qu)" using len s by simp
  have pos: "qpos qu' i = qpos qu i" for i by (simp add: qu'_def qpos_def)
  have shift: "qpos qu (p + j) = qpos qu p + j \<and> qpos qu (Suc p + j) = qpos qu (Suc p) + j" if "j < s" for j
    using qpos_Suc_seg [OF M, of p j] qpos_Suc_seg [OF M, of "Suc p" j] d that by simp
  have cell: "q_ptr qu' ! qpos qu i = Some (que_list qu ! (if p \<le> i \<and> i < p + s then Suc i else i))"
    if i: "i < unat (q_size qu)" for i
  proof (cases "p \<le> i \<and> i < p + s")
    case True
    define j where "j = i - p"
    have j: "i = p + j" "j < s" using True by (auto simp: j_def)
    have "q_ptr qu' ! qpos qu i = q_ptr qu ! qpos qu (Suc i)"
      using shift [OF j(2)] d len j by (simp add: qu'_def nth_mem_put nth_mem_get)
    with True s show ?thesis using que_wf_cell [OF wf, of "Suc i"] by simp
  next
    case False
    have "\<not> (qpos qu p \<le> qpos qu i \<and> qpos qu i < qpos qu p + s)"
    proof
      assume "qpos qu p \<le> qpos qu i \<and> qpos qu i < qpos qu p + s"
      then obtain j where j: "j < s" "qpos qu i = qpos qu p + j"
        by (metis le_Suc_ex nat_add_left_cancel_less)
      then have "qpos qu i = qpos qu (p + j)" using shift by simp
      then have "i = p + j" using i s j len by (subst (asm) qpos_inj) simp_all
      with False j show False by simp
    qed
    then have "q_ptr qu' ! qpos qu i = q_ptr qu ! qpos qu i"
      using d len qpos_less [OF M, of i] by (auto simp: qu'_def nth_mem_put)
    with False show ?thesis using que_wf_cell [OF wf i] by auto
  qed
  show "que_wf qu'"
    using wf cell d len unfolding que_wf_def pos by (auto simp: qu'_def split: if_splits)
  show "i < unat (q_size qu) \<Longrightarrow> que_list qu' ! i = que_list qu ! (if p \<le> i \<and> i < p + s then Suc i else i)"
    using cell [of i] pos by (subst nth_que_list) (auto simp: qu'_def)
qed

lemma que_del_loop_ok:
  assumes "que_wf qu" "0 < unat (q_maxsize qu)" "unat dst = qpos qu p" "unat src = qpos qu (Suc p)"
    "Suc p + unat rest = unat (q_size qu)" "unat rest \<le> fuel"
  shows "\<exists>qu'. que_del_loop fuel qu dst src rest = Some qu' \<and> que_wf qu' \<and> q_size qu' = q_size qu \<and>
     (\<forall>i<unat (q_size qu) - 1. que_list qu' ! i = que_list qu ! (if p \<le> i then Suc i else i))"
  using assms
proof (induction fuel arbitrary: qu dst src rest p)
  case 0
  then have "rest = 0" by (simp add: unat_eq_zero)
  with 0 show ?case by (auto simp: que_del_loop.simps)
next
  case (Suc fuel)
  show ?case
  proof (cases "rest = 0")
    case True
    with Suc.prems show ?thesis by (auto simp: que_del_loop.simps)
  next
    case False
    note wf = Suc.prems(1) and M = Suc.prems(2)
    define seg where "seg = q_maxsize qu - (if dst < src then src else dst)"
    have "unat seg = unat (q_maxsize qu) - max (qpos qu p) (qpos qu (Suc p))"
      unfolding seg_def using Suc.prems(3,4) qpos_less [OF M] 
      by (subst unat_minus_le) (auto simp: word_le_nat_alt word_less_nat_alt max_def less_imp_le)
    then have seg: "0 < unat seg" "qpos qu p + unat seg \<le> unat (q_maxsize qu)"
      "qpos qu (Suc p) + unat seg \<le> unat (q_maxsize qu)"
      using qpos_less [OF M, of p] qpos_less [OF M, of "Suc p"] by linarith+
    define s where "s = (if rest < seg then rest else seg)"
    have s: "unat s \<le> unat seg" "unat s \<le> unat rest" "0 < unat s"
      using seg False by (auto simp: s_def word_less_nat_alt unat_gt_0)
    define qu' where "qu' = qu\<lparr>q_ptr := mem_put (q_ptr qu) (unat dst) (mem_get (q_ptr qu) (unat src) (unat s))\<rparr>"
    note mv = que_move_seg [OF wf s(3), of p, folded Suc.prems(3,4), folded qu'_def]
    have wf': "que_wf qu'" using mv(1) Suc.prems s seg by simp
    have el: "que_list qu' ! i = que_list qu ! (if p \<le> i \<and> i < p + unat s then Suc i else i)"
      if "i < unat (q_size qu)" for i
      using mv(2) [OF _ _ _ that] Suc.prems s seg by simp
    have pos: "qpos qu' i = qpos qu i" and same: "q_size qu' = q_size qu" "q_maxsize qu' = q_maxsize qu" for i
      by (simp_all add: qu'_def qpos_def)
    have rest': "unat (rest - s) = unat rest - unat s"
      using s by (intro unat_minus_le) (simp add: word_le_nat_alt)
    have step: "que_del_loop (Suc fuel) qu dst src rest =
        que_del_loop fuel qu' (que_wrap qu (dst + s)) (que_wrap qu (src + s)) (rest - s)"
      using False by (simp add: que_del_loop.simps [of "Suc fuel"] Let_def s_def seg_def qu'_def)
    have adv: "unat (que_wrap qu (w + s)) = qpos qu (k + unat s)" if "unat w = qpos qu k" for w k
      using that by (simp add: unat_que_wrap_plus [OF wf M] qpos_def mod_add_left_eq add.assoc)
    have "\<exists>q2. que_del_loop fuel qu' (que_wrap qu (dst + s)) (que_wrap qu (src + s)) (rest - s) = Some q2 \<and>
        que_wf q2 \<and> q_size q2 = q_size qu' \<and> (\<forall>i<unat (q_size qu') - 1.
          que_list q2 ! i = que_list qu' ! (if p + unat s \<le> i then Suc i else i))"
      by (rule Suc.IH [OF wf'])
        (use M Suc.prems rest' s adv [OF Suc.prems(3)] adv [OF Suc.prems(4)] in \<open>simp_all add: same pos\<close>)
    then show ?thesis unfolding step same by (fastforce simp: el)
  qed
qed

lemma que_del_at_ok:
  assumes wf: "que_wf qu"
  obtains qu' where "que_del_at qu pos = Some qu'" "que_wf qu'"
    "que_list qu' = take (unat pos) (que_list qu) @ drop (Suc (unat pos)) (que_list qu)"
proof (cases "unat pos < unat (q_size qu)")
  case False
  then show ?thesis using wf by (intro that [of qu]) (auto simp: que_del_at_def word_le_nat_alt)
next
  case True
  note len = que_wf_lengths [OF wf]
  have M: "0 < unat (q_maxsize qu)" using len True by simp
  show ?thesis
  proof (cases "pos = 0")
    case pos0: True
    have n: "unat (1 :: u32) \<le> unat (q_size qu)" "0 < unat (1 :: u32)" using True by simp_all
    show ?thesis using que_advance [OF wf n] pos0 True
      by (intro that) (auto simp: que_del_at_def word_le_nat_alt)
  next
    case False
    have p: "0 < unat pos" using False by (simp add: unat_gt_0)
    have r: "unat (q_size qu - pos - 1) = unat (q_size qu) - unat pos - 1"
      using True by (simp add: unat_minus_le word_le_nat_alt)
    obtain q2 where q2: "que_del_loop (unat (q_size qu)) qu (que_wrap qu (q_offset qu + pos))
        (que_wrap qu (q_offset qu + pos + 1)) (q_size qu - pos - 1) = Some q2" "que_wf q2" "q_size q2 = q_size qu"
      "\<And>i. i < unat (q_size qu) - 1 \<Longrightarrow> que_list q2 ! i = que_list qu ! (if unat pos \<le> i then Suc i else i)"
    proof -
      have w1: "unat (que_wrap qu (q_offset qu + pos)) = qpos qu (unat pos)"
        by (simp add: unat_que_wrap_plus [OF wf M] qpos_def)
      have "unat (q_size qu) < 2 ^ LENGTH(32)" by (rule unsigned_less)
      then have "unat (pos + 1) = Suc (unat pos)"
        using True by (subst unat_plus_small) simp_all
      then have w2: "unat (que_wrap qu (q_offset qu + pos + 1)) = qpos qu (Suc (unat pos))"
        by (simp add: unat_que_wrap_plus [OF wf M] qpos_def add.assoc)
      show ?thesis using que_del_loop_ok [OF wf M w1 w2, of "q_size qu - pos - 1" "unat (q_size qu)"] r True that
        by auto
    qed
    define q3 where "q3 = q2\<lparr>q_size := q_size q2 - 1\<rparr>"
    have sz: "unat (q_size q3) = unat (q_size qu) - 1"
      using True q2(3) by (simp add: q3_def unat_minus_le word_le_nat_alt)
    have pos3: "qpos q3 i = qpos q2 i" for i by (simp add: q3_def qpos_def)
    have "que_wf q3"
      using q2(2,3) sz True unfolding que_wf_def pos3 by (auto simp: q3_def split: if_splits)
    moreover have "que_list q3 ! i = que_list q2 ! i" if "i < unat (q_size qu) - 1" for i
      using that sz q2(3) by (simp add: nth_que_list pos3) (simp add: q3_def)
    then have "que_list q3 = take (unat pos) (que_list qu) @ drop (Suc (unat pos)) (que_list qu)"
      using True sz q2(4) by (intro nth_equalityI) (auto simp: nth_append)
    ultimately show ?thesis
      using True False q2(1) by (intro that [of q3]) (auto simp: que_del_at_def q3_def word_le_nat_alt)
  qed
qed

section \<open>The ring queue is a first-in first-out queue\<close>

text \<open>A pop together with the read through the pointer it returns, as every caller does it.\<close>

definition que_take :: "'a que \<Rightarrow> 'a option \<times> 'a que" where
  "que_take qu = (let (p, qu') = que_pop qu in (que_deref qu' p, qu'))"

lemma que_take_empty: "que_list qu = [] \<Longrightarrow> que_take qu = (None, qu)"
  by (simp add: que_take_def que_pop_empty que_deref_def)

lemma que_take_ok:
  assumes "que_wf qu" "que_list qu = x # xs"
  shows "\<exists>qu'. que_take qu = (Some x, qu') \<and> que_wf qu' \<and> que_list qu' = xs"
  by (rule que_pop_ok [OF assms]) (auto simp: que_take_def)

lemma que_push_law:
  assumes "que_wf qu" "length (que_list qu) < 2 ^ 31" "esz \<le> SIZE_MAX div 2 ^ 31"
  shows "\<exists>qu'. que_push esz qu x = Some qu' \<and> que_wf qu' \<and> que_list qu' = que_list qu @ [x]"
  by (rule que_push_ok [OF assms, of x]) auto

text \<open>
  The contract holds for every element size whose largest allocation is representable.
\<close>

interpretation ring: fifo "\<lambda>qu. que_wf qu \<and> esz \<le> SIZE_MAX div 2 ^ 31" que_list "que_push esz" que_take
    "2 ^ 31" for esz
proof
  show "\<exists>q'. que_push esz q x = Some q' \<and> (que_wf q' \<and> esz \<le> SIZE_MAX div 2 ^ 31) \<and>
      que_list q' = que_list q @ [x]"
    if "que_wf q \<and> esz \<le> SIZE_MAX div 2 ^ 31" "length (que_list q) < 2 ^ 31" for q :: "'a que" and x
    using that by (auto dest: que_push_law)
qed (auto simp: que_take_empty que_take_ok)

section \<open>Properties\<close>



text \<open>
  C35: \<open>del_at\<close> removes exactly the element at the given position, shifting the ones behind
  it in segments around the end of the buffer, and its loop ends; a position outside the queue
  leaves the queue as it is.
\<close>

theorem que_del_at_removes:
  assumes "que_wf qu"
  shows "\<exists>qu'. que_del_at qu pos = Some qu' \<and> que_wf qu' \<and>
    que_list qu' = take (unat pos) (que_list qu) @ drop (Suc (unat pos)) (que_list qu)"
  by (rule que_del_at_ok [OF assms, of pos]) auto

theorem que_del_at_removes_witness:
  "\<exists>qu'. que_del_at \<lparr>q_size = 3, q_maxsize = 4, q_mask = 3, q_offset = 2,
        q_ptr = [Some (30::nat), None, Some 10, Some 20]\<rparr> 1 = Some qu' \<and> que_wf qu' \<and> que_list qu' = [10, 30]"
proof -
  let ?q = "\<lparr>q_size = 3, q_maxsize = 4, q_mask = 3, q_offset = 2,
        q_ptr = [Some (30::nat), None, Some 10, Some 20]\<rparr> :: nat que"
  have "\<exists>k<32. (4::u32) = 2 ^ k" by (rule exI [of _ 2]) simp
  then have wf: "que_wf ?q"
    by (simp add: que_wf_def qpos_def All_less_numeral)
  have "que_list ?q = [10, 20, 30]"
    by (simp add: que_list_def qpos_def upt_rec)
  then show ?thesis using que_del_at_removes [OF wf, of 1] by simp
qed

text \<open>
  \<open>pop_batch\<close> returns the first \<open>min max size\<close> elements in order (across the end of the
  buffer too) and leaves the rest queued.
\<close>

theorem que_pop_batch_takes:
  assumes "que_wf qu"
  shows "\<exists>qu'. que_pop_batch qu n = (map Some (take (unat n) (que_list qu)), qu') \<and> que_wf qu' \<and>
    que_list qu' = drop (unat n) (que_list qu)"
  by (rule que_pop_batch_ok [OF assms, of n]) auto

theorem que_pop_batch_takes_witness:
  "\<exists>qu'. que_pop_batch \<lparr>q_size = 2, q_maxsize = 2, q_mask = 1, q_offset = 1,
        q_ptr = [Some (20::nat), Some 10]\<rparr> 2 = ([Some 10, Some 20], qu') \<and> que_wf qu' \<and> que_list qu' = []"
proof -
  let ?q = "\<lparr>q_size = 2, q_maxsize = 2, q_mask = 1, q_offset = 1, q_ptr = [Some (20::nat), Some 10]\<rparr> :: nat que"
  have "\<exists>k<32. (2::u32) = 2 ^ k" by (rule exI [of _ 1]) simp
  then have wf: "que_wf ?q"
    by (simp add: que_wf_def qpos_def All_less_numeral)
  have "que_list ?q = [10, 20]"
    by (simp add: que_list_def qpos_def upt_rec)
  then show ?thesis using que_pop_batch_takes [OF wf, of 2] by simp
qed

end
