(* ===== verification/Byte_Search.thy ===== *)
theory Byte_Search
  imports Prelude
begin

text \<open>
  Models the search routines of \<open>lib/base/bytes.c\<close> that the receive buffer and the parsers
  call: \<open>memichr\<close>, \<open>memcasecmp\<close>, \<open>_memstr\<close> and \<open>_memistr\<close>, together with the C library's
  \<open>memchr\<close> and \<open>memcmp\<close> as those use them. Pointers into the searched block are indices,
  \<open>NULL\<close> is \<open>None\<close>.

  The reference is \<open>occurs_at\<close>: a pattern occurs at an index up to a byte equivalence (equality,
  or equality after ASCII folding), and \<open>first_occ\<close>, the least such index.
\<close>

section \<open>Single bytes\<close>

definition ascii_lower :: "u8 \<Rightarrow> u8" where
  "ascii_lower c = (if 65 \<le> c \<and> c \<le> 90 then c + 32 else c)"

text \<open>\<open>memchr\<close> over the first \<open>n\<close> bytes, and the generic loop behind it.\<close>

fun find_ix :: "('a \<Rightarrow> bool) \<Rightarrow> 'a list \<Rightarrow> nat option" where
  "find_ix P [] = None"
| "find_ix P (x # xs) = (if P x then Some 0 else map_option Suc (find_ix P xs))"

definition memchr :: "bytes \<Rightarrow> u8 \<Rightarrow> nat option" where
  "memchr buf val = find_ix (\<lambda>b. b = val) buf"

definition memichr :: "bytes \<Rightarrow> u8 \<Rightarrow> nat option" where
  "memichr buf val =
     (let val = ascii_lower val
      in if val < 97 \<or> 122 < val then memchr buf val
         else find_ix (\<lambda>b. ascii_lower b = val) buf)"

text \<open>\<open>memcmp\<close> and \<open>memcasecmp\<close>: only whether the result is zero is used by the callers; the sign
  of \<open>memcasecmp\<close> is that of the first differing folded byte.\<close>

definition memcmp0 :: "bytes \<Rightarrow> bytes \<Rightarrow> bool" where
  "memcmp0 a b \<longleftrightarrow> a = b"

fun memcasecmp :: "bytes \<Rightarrow> bytes \<Rightarrow> int" where
  "memcasecmp (x # xs) (y # ys) =
     (if ascii_lower x \<noteq> ascii_lower y
      then (if ascii_lower y < ascii_lower x then 1 else -1)
      else memcasecmp xs ys)"
| "memcasecmp _ _ = 0"

section \<open>Substrings\<close>

text \<open>
  The loop of \<open>_memstr\<close> and \<open>_memistr\<close> from the cursor \<open>cur\<close>: jump to the next byte that
  equals the pattern's first byte, compare the last byte, then the middle. \<open>chr\<close>, \<open>eqb\<close> and
  \<open>cmp\<close> are \<open>memchr\<close>, byte equality and \<open>memcmp\<close>, or their folding counterparts.
\<close>

function memstr_loop ::
  "(bytes \<Rightarrow> u8 \<Rightarrow> nat option) \<Rightarrow> (u8 \<Rightarrow> u8 \<Rightarrow> bool) \<Rightarrow> (bytes \<Rightarrow> bytes \<Rightarrow> bool) \<Rightarrow>
   bytes \<Rightarrow> bytes \<Rightarrow> nat \<Rightarrow> nat option" where
  "memstr_loop chr eqb cmp hay w cur =
     (let wlen = length w; last = length hay - wlen
      in if cur \<le> last then
           (case chr (mem_get hay cur (last - cur + 1)) (w ! 0) of
              None \<Rightarrow> None
            | Some d \<Rightarrow>
                (let cur = cur + d
                 in if eqb (w ! (wlen - 1)) (hay ! (cur + wlen - 1)) \<and>
                       (wlen \<le> 2 \<or> cmp (mem_get hay (cur + 1) (wlen - 2)) (mem_get w 1 (wlen - 2)))
                    then Some cur
                    else memstr_loop chr eqb cmp hay w (cur + 1)))
         else None)"
  by pat_completeness auto
termination
  by (relation "measure (\<lambda>(chr, eqb, cmp, hay, w, cur). Suc (length hay) - cur)") auto

declare memstr_loop.simps [simp del]

definition memstr :: "bytes \<Rightarrow> bytes \<Rightarrow> nat option" where
  "memstr hay w =
     (if length w = 0 \<or> length hay < length w then None
      else memstr_loop memchr (=) memcmp0 hay w 0)"

definition memistr :: "bytes \<Rightarrow> bytes \<Rightarrow> nat option" where
  "memistr hay w =
     (if length w = 0 \<or> length hay < length w then None
      else memstr_loop memichr (\<lambda>a b. ascii_lower a = ascii_lower b) (\<lambda>a b. memcasecmp a b = 0) hay w 0)"

section \<open>The reference: the first occurrence\<close>

definition fold_eq :: "bool \<Rightarrow> u8 \<Rightarrow> u8 \<Rightarrow> bool" where
  "fold_eq ncs a b \<longleftrightarrow> (if ncs then ascii_lower a = ascii_lower b else a = b)"

definition occurs_at :: "bool \<Rightarrow> bytes \<Rightarrow> bytes \<Rightarrow> nat \<Rightarrow> bool" where
  "occurs_at ncs hay w p \<longleftrightarrow>
     p + length w \<le> length hay \<and> (\<forall>i<length w. fold_eq ncs (hay ! (p + i)) (w ! i))"

fun first_from :: "(nat \<Rightarrow> bool) \<Rightarrow> nat \<Rightarrow> nat \<Rightarrow> nat option" where
  "first_from P p 0 = None"
| "first_from P p (Suc n) = (if P p then Some p else first_from P (Suc p) n)"

text \<open>The first occurrence at or after \<open>start\<close>.\<close>

definition first_occ :: "bool \<Rightarrow> bytes \<Rightarrow> bytes \<Rightarrow> nat \<Rightarrow> nat option" where
  "first_occ ncs hay w start = first_from (occurs_at ncs hay w) start (Suc (length hay) - start)"

lemma first_from_None: "first_from P p n = None \<longleftrightarrow> (\<forall>i. p \<le> i \<and> i < p + n \<longrightarrow> \<not> P i)"
proof (induction n arbitrary: p)
  case (Suc n)
  have "(\<forall>i. p \<le> i \<and> i < p + Suc n \<longrightarrow> \<not> P i) \<longleftrightarrow> \<not> P p \<and> (\<forall>i. Suc p \<le> i \<and> i < Suc p + n \<longrightarrow> \<not> P i)"
    by (auto simp: Suc_le_eq) (metis le_neq_implies_less)
  with Suc show ?case by simp
qed auto

lemma first_from_Some:
  "first_from P p n = Some k \<longleftrightarrow> p \<le> k \<and> k < p + n \<and> P k \<and> (\<forall>i. p \<le> i \<and> i < k \<longrightarrow> \<not> P i)"
proof (induction n arbitrary: p)
  case (Suc n)
  show ?case
  proof (cases "P p")
    case True
    then show ?thesis by (auto dest: le_neq_implies_less)
  next
    case False
    then have "(Suc p \<le> k \<and> k < Suc p + n \<and> P k \<and> (\<forall>i. Suc p \<le> i \<and> i < k \<longrightarrow> \<not> P i)) \<longleftrightarrow>
        (p \<le> k \<and> k < p + Suc n \<and> P k \<and> (\<forall>i. p \<le> i \<and> i < k \<longrightarrow> \<not> P i))"
      by (auto simp: Suc_le_eq) (metis le_neq_implies_less)+
    with False Suc show ?thesis by simp
  qed
qed simp

lemma occurs_at_bound: "occurs_at ncs hay w p \<Longrightarrow> p + length w \<le> length hay"
  by (simp add: occurs_at_def)

lemma first_occ_eq_Some:
  assumes "0 < length w"
  shows "first_occ ncs hay w s = Some k \<longleftrightarrow>
    s \<le> k \<and> occurs_at ncs hay w k \<and> (\<forall>i. s \<le> i \<and> i < k \<longrightarrow> \<not> occurs_at ncs hay w i)"
  unfolding first_occ_def first_from_Some using occurs_at_bound [of ncs hay w k] assms by auto

lemma first_occ_eq_None:
  "first_occ ncs hay w s = None \<longleftrightarrow> (\<forall>i\<ge>s. \<not> occurs_at ncs hay w i)"
  unfolding first_occ_def first_from_None
  by (metis (no_types, opaque_lifting) add_diff_inverse_nat le_add1 le_imp_less_Suc le_trans
      less_imp_le_nat linorder_not_less nat_neq_iff occurs_at_bound trans_less_add1)

lemma first_occ_skip:
  assumes "s \<le> t" "\<And>i. s \<le> i \<Longrightarrow> i < t \<Longrightarrow> \<not> occurs_at ncs hay w i" "0 < length w"
  shows "first_occ ncs hay w s = first_occ ncs hay w t"
proof (cases "first_occ ncs hay w t")
  case None
  then show ?thesis using assms by (metis first_occ_eq_None linorder_not_less)
next
  case (Some k)
  then have "first_occ ncs hay w s = Some k"
    using assms unfolding first_occ_eq_Some [OF assms(3)] by (meson le_trans linorder_not_less)
  with Some show ?thesis by simp
qed

section \<open>The routines compute it\<close>

lemma find_ix_Some:
  "find_ix P xs = Some k \<longleftrightarrow> k < length xs \<and> P (xs ! k) \<and> (\<forall>i<k. \<not> P (xs ! i))"
proof (induction xs arbitrary: k)
  case (Cons x xs)
  show ?case
    by (cases k) (auto simp: Cons less_Suc_eq_0_disj)
qed simp

lemma find_ix_None: "find_ix P xs = None \<longleftrightarrow> (\<forall>i<length xs. \<not> P (xs ! i))"
  by (induction xs) (auto simp: less_Suc_eq_0_disj)

lemma find_ix_cong: "(\<And>x. P x = Q x) \<Longrightarrow> find_ix P = find_ix Q"
  by (metis ext)

lemma ascii_lower_idem [simp]: "ascii_lower (ascii_lower c) = ascii_lower c"
proof -
  have "\<not> (65 \<le> c + 32 \<and> c + 32 \<le> 90)" if "65 \<le> c" "c \<le> 90" for c :: u8
  proof -
    have "unat (c + 32) = unat c + 32"
      using that by (subst unat_plus_small) (simp_all add: word_le_nat_alt)
    with that show ?thesis by (simp add: word_le_nat_alt)
  qed
  then show ?thesis by (auto simp: ascii_lower_def)
qed

text \<open>A folded byte that is no letter is the image of itself only.\<close>

lemma ascii_lower_nonletter:
  assumes "ascii_lower v = v" "v < 97 \<or> 122 < v"
  shows "ascii_lower b = v \<longleftrightarrow> b = v"
proof
  assume "ascii_lower b = v"
  moreover have "\<not> (65 \<le> b \<and> b \<le> 90)"
  proof
    assume l: "65 \<le> b \<and> b \<le> 90"
    then have "unat (b + 32) = unat b + 32"
      by (subst unat_plus_small) (simp_all add: word_le_nat_alt)
    with l \<open>ascii_lower b = v\<close> assms(2) show False
      by (auto simp: ascii_lower_def word_le_nat_alt word_less_nat_alt)
  qed
  ultimately show "b = v" by (auto simp: ascii_lower_def)
qed (use assms in simp)

lemma memichr_find: "memichr buf val = find_ix (\<lambda>b. fold_eq True b val) buf"
proof (cases "ascii_lower val < 97 \<or> 122 < ascii_lower val")
  case True
  then have "(\<lambda>b. fold_eq True b val) = (\<lambda>b. b = ascii_lower val)"
    using ascii_lower_nonletter [OF ascii_lower_idem True] by (auto simp: fold_eq_def)
  with True show ?thesis by (auto simp: memichr_def memchr_def Let_def)
next
  case False
  then show ?thesis by (auto simp: memichr_def Let_def fold_eq_def)
qed

lemma memchr_find: "memchr buf val = find_ix (\<lambda>b. fold_eq False b val) buf"
  by (simp add: memchr_def fold_eq_def)

lemma memcasecmp_0:
  "length a = length b \<Longrightarrow> memcasecmp a b = 0 \<longleftrightarrow> (\<forall>i<length b. fold_eq True (a ! i) (b ! i))"
  by (induction a b rule: list_induct2) (auto simp: fold_eq_def less_Suc_eq_0_disj)

lemma memcmp0_iff:
  "length a = length b \<Longrightarrow> memcmp0 a b \<longleftrightarrow> (\<forall>i<length b. fold_eq False (a ! i) (b ! i))"
  by (auto simp: memcmp0_def fold_eq_def list_eq_iff_nth_eq)

text \<open>Splitting an occurrence at its first, last and middle bytes, as the loop compares it.\<close>

lemma occurs_at_split:
  assumes "0 < length w" "p + length w \<le> length hay"
  shows "occurs_at ncs hay w p \<longleftrightarrow>
    fold_eq ncs (hay ! p) (w ! 0) \<and> fold_eq ncs (hay ! (p + length w - 1)) (w ! (length w - 1)) \<and>
    (length w \<le> 2 \<or> (\<forall>i<length w - 2. fold_eq ncs (hay ! (p + 1 + i)) (w ! (1 + i))))"
    (is "_ \<longleftrightarrow> ?f \<and> ?l \<and> ?m")
proof
  assume o: "occurs_at ncs hay w p"
  then have "fold_eq ncs (hay ! (p + i)) (w ! i)" if "i < length w" for i
    using that by (simp add: occurs_at_def)
  from this [of 0] this [of "length w - 1"] this [of "1 + i" for i] show "?f \<and> ?l \<and> ?m"
    using assms by auto
next
  assume s: "?f \<and> ?l \<and> ?m"
  have "fold_eq ncs (hay ! (p + i)) (w ! i)" if i: "i < length w" for i
  proof -
    consider "i = 0" | "i = length w - 1" | "0 < i" "i - 1 < length w - 2" using i by linarith
    then show ?thesis
    proof cases
      case 2
      moreover from this i have "p + length w - 1 = p + i" by simp
      ultimately show ?thesis using s by simp
    next
      case 3
      with s have "fold_eq ncs (hay ! (p + 1 + (i - 1))) (w ! (1 + (i - 1)))" by force
      with 3 show ?thesis by simp
    qed (use s in simp)
  qed
  with assms show "occurs_at ncs hay w p" by (simp add: occurs_at_def)
qed

lemma memstr_loop_first:
  assumes chr: "\<And>buf v. chr buf v = find_ix (\<lambda>b. fold_eq ncs b v) buf"
    and eqb: "\<And>a b. eqb a b \<longleftrightarrow> fold_eq ncs b a"
    and cmp: "\<And>a b. length a = length b \<Longrightarrow> cmp a b \<longleftrightarrow> (\<forall>i<length b. fold_eq ncs (a ! i) (b ! i))"
    and w: "0 < length w" "length w \<le> length hay"
  shows "memstr_loop chr eqb cmp hay w cur = first_occ ncs hay w cur"
proof (induction "Suc (length hay) - cur" arbitrary: cur rule: less_induct)
  case less
  let ?last = "length hay - length w"
  show ?case
  proof (cases "cur \<le> ?last")
    case False
    then have "first_occ ncs hay w cur = None"
      using w by (auto simp: first_occ_eq_None dest: occurs_at_bound)
    with False show ?thesis by (subst memstr_loop.simps) (simp add: Let_def)
  next
    case True
    let ?seg = "mem_get hay cur (?last - cur + 1)"
    have len: "length ?seg = ?last - cur + 1" by (rule length_mem_get) (use True w in linarith)
    have nth: "?seg ! i = hay ! (cur + i)" if "i < ?last - cur + 1" for i
      by (rule nth_mem_get) (use that True w in linarith)+
    have skip: "\<not> occurs_at ncs hay w i"
      if "cur \<le> i" "i < cur + d" "\<forall>j<d. j < length ?seg \<longrightarrow> \<not> fold_eq ncs (?seg ! j) (w ! 0)" for i d
    proof
      assume o: "occurs_at ncs hay w i"
      then have "i - cur < ?last - cur + 1" "fold_eq ncs (hay ! i) (w ! 0)"
        using that(1) occurs_at_bound [OF o] w True by (auto simp: occurs_at_def)
      moreover have "i - cur < d" using that by linarith
      ultimately show False using that nth [of "i - cur"] len by auto
    qed
    show ?thesis
    proof (cases "find_ix (\<lambda>b. fold_eq ncs b (w ! 0)) ?seg")
      case None
      then have "first_occ ncs hay w cur = None"
        unfolding first_occ_eq_None find_ix_None
        by (metis skip le_add_diff_inverse lessI less_add_Suc2 add_Suc_right)
      with None True show ?thesis by (subst memstr_loop.simps) (simp add: Let_def chr)
    next
      case (Some d)
      then have d: "d < length ?seg" "fold_eq ncs (hay ! (cur + d)) (w ! 0)"
        "\<forall>j<d. \<not> fold_eq ncs (?seg ! j) (w ! 0)"
        using len nth by (auto simp: find_ix_Some)
      have bnd: "cur + d + length w \<le> length hay" using d(1) len True w by simp
      let ?hit = "eqb (w ! (length w - 1)) (hay ! (cur + d + length w - 1)) \<and>
         (length w \<le> 2 \<or> cmp (mem_get hay (cur + d + 1) (length w - 2)) (mem_get w 1 (length w - 2)))"
      have mid: "cmp (mem_get hay (cur + d + 1) (length w - 2)) (mem_get w 1 (length w - 2)) \<longleftrightarrow>
          (\<forall>i<length w - 2. fold_eq ncs (hay ! (cur + d + 1 + i)) (w ! (1 + i)))"
        if "\<not> length w \<le> 2"
      proof -
        have "cur + d + 1 + (length w - 2) \<le> length hay" "1 + (length w - 2) \<le> length w"
          using that bnd by linarith+
        then show ?thesis
          by (simp only: cmp length_mem_get) (auto simp del: One_nat_def simp: nth_mem_get)
      qed
      have hit: "?hit \<longleftrightarrow> occurs_at ncs hay w (cur + d)"
        unfolding occurs_at_split [OF w(1) bnd] eqb using d(2) mid by blast
      have un: "memstr_loop chr eqb cmp hay w cur =
          (if ?hit then Some (cur + d) else memstr_loop chr eqb cmp hay w (cur + d + 1))"
        using Some True by (subst memstr_loop.simps) (simp add: Let_def chr)
      have s1: "first_occ ncs hay w cur = first_occ ncs hay w (cur + d)"
        by (rule first_occ_skip) (use skip d w in auto)
      show ?thesis
      proof (cases "occurs_at ncs hay w (cur + d)")
        case True
        then have "first_occ ncs hay w (cur + d) = Some (cur + d)"
          by (auto simp: first_occ_eq_Some [OF w(1)])
        moreover have "memstr_loop chr eqb cmp hay w cur = Some (cur + d)"
          using hit True by (subst un) (simp only: if_True)
        ultimately show ?thesis using s1 by (simp only:)
      next
        case False
        then have "first_occ ncs hay w (cur + d) = first_occ ncs hay w (cur + d + 1)"
          by (intro first_occ_skip) (use w in \<open>auto simp: le_less_Suc_eq\<close>)
        moreover have "memstr_loop chr eqb cmp hay w (cur + d + 1) = first_occ ncs hay w (cur + d + 1)"
          by (rule less) (use bnd in simp)
        moreover have "memstr_loop chr eqb cmp hay w cur = memstr_loop chr eqb cmp hay w (cur + d + 1)"
          using hit False by (subst un) (simp only: if_False)
        ultimately show ?thesis using s1 by (simp only:)
      qed
    qed
  qed
qed

lemma first_occ_short: "length hay < length w \<Longrightarrow> first_occ ncs hay w s = None"
  by (auto simp: first_occ_eq_None occurs_at_def)

lemma memstr_first:
  assumes "0 < length w"
  shows "memstr hay w = first_occ False hay w 0"
proof (cases "length hay < length w")
  case False
  then have "memstr hay w = memstr_loop memchr (=) memcmp0 hay w 0"
    using assms by (simp add: memstr_def)
  also have "\<dots> = first_occ False hay w 0"
    by (rule memstr_loop_first) (use assms False in \<open>auto simp: memchr_find memcmp0_iff fold_eq_def\<close>)
  finally show ?thesis .
qed (simp add: memstr_def first_occ_short)

lemma memistr_first:
  assumes "0 < length w"
  shows "memistr hay w = first_occ True hay w 0"
proof (cases "length hay < length w")
  case False
  then have "memistr hay w = memstr_loop memichr (\<lambda>a b. ascii_lower a = ascii_lower b)
      (\<lambda>a b. memcasecmp a b = 0) hay w 0"
    using assms by (simp add: memistr_def)
  also have "\<dots> = first_occ True hay w 0"
    by (rule memstr_loop_first) (use assms False in \<open>auto simp: memichr_find memcasecmp_0 fold_eq_def\<close>)
  finally show ?thesis .
qed (simp add: memistr_def first_occ_short)

section \<open>Properties\<close>

text \<open>
  \<open>_memstr\<close> and \<open>_memistr\<close> return the least index at which the whole pattern occurs
  (byte for byte, or up to ASCII case), and \<open>NULL\<close> exactly when it occurs nowhere or is empty; the
  jump to the first byte and the early test of the last byte never skip or invent a match.
\<close>

theorem substring_search_first:
  "memstr hay w = (if w = [] then None else first_occ False hay w 0) \<and>
   memistr hay w = (if w = [] then None else first_occ True hay w 0)"
  by (simp add: memstr_first memistr_first) (simp add: memstr_def memistr_def)

end
