(* ===== verification/Buffer_Model.thy ===== *)
theory Buffer_Model
  imports Byte_Search
begin

text \<open>
  Models the state and the operations of \<open>lib/utils/buffer.c\<close> (\<open>buffer.h\<close>), the receive and
  send buffer every connection owns: a chain of nodes, each with a consumed prefix
  (\<open>misalign\<close>), live bytes (\<open>off\<close>) and free space behind them.

  Correspondence with the C state. The chain \<open>head .. tail\<close> is the list \<open>bf_nodes\<close>; a node
  pointer is its index in that list. \<open>tail_with_data\<close> is a pointer to a link (\<open>&head\<close> or
  \<open>&node->next\<close>); link \<open>i\<close> is the one that points at node \<open>i\<close>, so \<open>bf_twd = i\<close> and
  \<open>*tail_with_data\<close> is node \<open>i\<close>, or \<open>NULL\<close> when \<open>i\<close> is the length of the chain. The
  search cursor \<open>hint_node\<close> is \<open>bf_hint\<close>. The thread-local spare node \<open>_node_spare\<close> is
  threaded with the buffer as \<open>bf_spare\<close>. A zero-copy node carries the token of its release
  callback in \<open>bn_free\<close>; calling it appends the token to \<open>bf_released\<close>. Sizes are the
  \<open>size_t\<close> of a 64-bit Unix build, as naturals with their limits checked where the code
  checks them; every \<open>ASSERTAB\<close> is an \<open>assertab\<close>, so \<open>None\<close> is an abort. The bytes of a fresh
  block are unspecified in C and zero here; nothing reads them before writing.
\<close>

section \<open>State\<close>

record bufnode =
  bn_used :: bool
  bn_external :: bool
  bn_buffer :: bytes
  bn_free :: "nat option"
  bn_misalign :: nat
  bn_off :: nat

record buffer =
  bf_freeze_read :: bool
  bf_freeze_write :: bool
  bf_nodes :: "bufnode list"
  bf_twd :: nat
  bf_total :: nat
  bf_hint :: "nat option"
  bf_hint_base :: nat
  bf_pinned :: nat
  bf_want :: nat
  bf_spare :: "bufnode option"
  bf_released :: "nat list"

text \<open>An \<open>iovec\<close>: the node and the offset in its block where the area starts, and its length.\<close>

record iov =
  iv_node :: nat
  iv_pos :: nat
  iv_len :: nat

definition MAX_REALIGN_IN_EXPAND :: nat where "MAX_REALIGN_IN_EXPAND = 2048"
definition MAX_RECV_SIZE :: nat where "MAX_RECV_SIZE = 4096"
definition NODE_CACHE_MAX :: nat where "NODE_CACHE_MAX = MAX_RECV_SIZE + 1024"
definition MAX_EXPAND_NIOV :: nat where "MAX_EXPAND_NIOV = 4"
definition BUFNODE_SIZE :: nat where "BUFNODE_SIZE = 56" \<comment> \<open>\<open>sizeof(bufnode_ctx)\<close>, 64-bit\<close>

text \<open>\<open>ROUND_UP(s, n)\<close> for the power of two \<open>n\<close>.\<close>

definition round_up :: "nat \<Rightarrow> nat \<Rightarrow> nat" where
  "round_up s n = (s + n - 1) div n * n"

abbreviation buffer_lens :: "bufnode \<Rightarrow> nat" where
  "buffer_lens n \<equiv> length (bn_buffer n)"

definition NODE_SPACE_PTR :: "bufnode \<Rightarrow> nat" where
  "NODE_SPACE_PTR n = bn_misalign n + bn_off n"

definition NODE_SPACE_LEN :: "bufnode \<Rightarrow> nat" where
  "NODE_SPACE_LEN n = buffer_lens n - (bn_misalign n + bn_off n)"

section \<open>Nodes\<close>

definition buffer_node_new :: "nat \<Rightarrow> buffer \<Rightarrow> (bufnode \<times> buffer) option" where
  "buffer_node_new sz b =
     assertab (sz \<le> SIZE_MAX - BUFNODE_SIZE - 1023)
       (let lens = round_up (sz + BUFNODE_SIZE) 1024 - BUFNODE_SIZE;
            fresh = \<lparr>bn_used = False, bn_external = False, bn_buffer = replicate lens 0,
                     bn_free = None, bn_misalign = 0, bn_off = 0\<rparr>
        in case bf_spare b of
             None \<Rightarrow> Some (fresh, b)
           | Some node \<Rightarrow>
               if buffer_lens node = lens
               then Some (node\<lparr>bn_free := None\<rparr>, b\<lparr>bf_spare := None\<rparr>)
               else Some (fresh, b))"

definition buffer_node_free :: "bufnode \<Rightarrow> buffer \<Rightarrow> buffer" where
  "buffer_node_free node b =
     (let b = (case bn_free node of None \<Rightarrow> b | Some cb \<Rightarrow> b\<lparr>bf_released := bf_released b @ [cb]\<rparr>)
      in if bf_spare b = None \<and> \<not> bn_external node \<and> buffer_lens node \<le> NODE_CACHE_MAX
         then b\<lparr>bf_spare := Some (node\<lparr>bn_used := False, bn_misalign := 0, bn_off := 0, bn_free := None\<rparr>)\<rparr>
         else b)"

definition buffer_thread_cleanup :: "buffer \<Rightarrow> buffer" where
  "buffer_thread_cleanup b = b\<lparr>bf_spare := None\<rparr>"

text \<open>What a node contributes to an iov list: its writable bytes, and whether it takes a slot.\<close>

definition buffer_node_avail :: "bufnode \<Rightarrow> nat \<times> nat" where
  "buffer_node_avail node =
     (if bn_off node \<noteq> 0
      then (NODE_SPACE_LEN node, if NODE_SPACE_LEN node \<noteq> 0 then 1 else 0)
      else (if bn_external node then 0 else buffer_lens node, 1))"

definition buffer_should_realign :: "bufnode \<Rightarrow> nat \<Rightarrow> bool" where
  "buffer_should_realign node lens \<longleftrightarrow>
     \<not> bn_external node \<and> lens \<le> buffer_lens node - bn_off node \<and>
     bn_off node < buffer_lens node div 2 \<and> bn_off node \<le> MAX_REALIGN_IN_EXPAND"

definition buffer_align :: "bufnode \<Rightarrow> bufnode" where
  "buffer_align node =
     node\<lparr>bn_buffer := mem_put (bn_buffer node) 0 (mem_get (bn_buffer node) (bn_misalign node) (bn_off node)),
          bn_misalign := 0\<rparr>"

fun buffer_free_all_node :: "bufnode list \<Rightarrow> buffer \<Rightarrow> buffer" where
  "buffer_free_all_node [] b = b"
| "buffer_free_all_node (n # ns) b = buffer_free_all_node ns (buffer_node_free n b)"

definition buffer_node_all_empty :: "bufnode list \<Rightarrow> bool" where
  "buffer_node_all_empty ns = list_all (\<lambda>n. bn_off n = 0) ns"

text \<open>The walk from \<open>tail_with_data\<close> to the first link whose node is absent or empty.\<close>

fun skip_data :: "bufnode list \<Rightarrow> nat \<Rightarrow> nat" where
  "skip_data [] i = i"
| "skip_data (n # ns) i = (if bn_off n \<noteq> 0 then skip_data ns (Suc i) else i)"

definition buffer_free_trailing_empty_node :: "buffer \<Rightarrow> (nat \<times> buffer) option" where
  "buffer_free_trailing_empty_node b =
     (let j = skip_data (drop (bf_twd b) (bf_nodes b)) (bf_twd b)
      in if j < length (bf_nodes b)
         then assertab (buffer_node_all_empty (drop j (bf_nodes b)))
                (let b = buffer_free_all_node (drop j (bf_nodes b)) b
                 in Some (j, b\<lparr>bf_nodes := take j (bf_nodes b)\<rparr>))
         else Some (j, b))"

definition buffer_node_insert :: "bufnode \<Rightarrow> buffer \<Rightarrow> buffer option" where
  "buffer_node_insert node b =
     map_option (\<lambda>b. b\<lparr>bf_total := bf_total b + bn_off node\<rparr>)
       (if length (bf_nodes b) \<le> bf_twd b
        then assertab (bf_twd b = 0) (assertab (bf_nodes b = []) (Some (b\<lparr>bf_nodes := [node]\<rparr>)))
        else Option.bind (buffer_free_trailing_empty_node b) (\<lambda>(last, b).
          Some (b\<lparr>bf_nodes := take last (bf_nodes b) @ [node],
                  bf_twd := (if bn_off node \<noteq> 0 then last else bf_twd b)\<rparr>)))"

text \<open>The walk of \<open>_buffer_last_with_data\<close> over the nodes behind \<open>*tail_with_data\<close>.\<close>

fun last_data :: "bufnode list \<Rightarrow> nat \<Rightarrow> nat \<Rightarrow> nat" where
  "last_data [] i acc = acc"
| "last_data (n # ns) i acc = last_data ns (Suc i) (if bn_off n \<noteq> 0 then i else acc)"

definition buffer_last_with_data :: "buffer \<Rightarrow> buffer" where
  "buffer_last_with_data b =
     (if length (bf_nodes b) \<le> bf_twd b then b
      else b\<lparr>bf_twd := last_data (drop (Suc (bf_twd b)) (bf_nodes b)) (Suc (bf_twd b)) (bf_twd b)\<rparr>)"

definition upd_node :: "nat \<Rightarrow> (bufnode \<Rightarrow> bufnode) \<Rightarrow> buffer \<Rightarrow> buffer" where
  "upd_node i f b = b\<lparr>bf_nodes := (bf_nodes b)[i := f (bf_nodes b ! i)]\<rparr>"

definition buffer_tail_realign :: "buffer \<Rightarrow> nat \<Rightarrow> buffer" where
  "buffer_tail_realign b lens =
     (if bf_twd b < length (bf_nodes b)
      then (let node = bf_nodes b ! bf_twd b
            in if bn_off node \<noteq> 0 \<and> bn_misalign node \<noteq> 0 \<and> NODE_SPACE_LEN node < lens \<and>
                  buffer_should_realign node lens
               then upd_node (bf_twd b) buffer_align b
               else b)
      else b)"

section \<open>Write side: expand and commit\<close>

definition RECORD_IOV :: "nat \<Rightarrow> bufnode \<Rightarrow> nat \<Rightarrow> iov" where
  "RECORD_IOV i node lens = \<lparr>iv_node = i, iv_pos = NODE_SPACE_PTR node, iv_len = lens\<rparr>"

definition iov_total :: "iov list \<Rightarrow> nat" where
  "iov_total iv = sum_list (map iv_len iv)"

text \<open>How the first loop of \<open>_buffer_expand\<close> ends: enough space, all \<open>cnt\<close> slots taken, or the
  end of the chain.\<close>

datatype scan_end = Enough | SlotsFull | ChainEnd

fun expand_scan ::
  "nat \<Rightarrow> nat \<Rightarrow> nat \<Rightarrow> nat \<Rightarrow> nat \<Rightarrow> nat \<Rightarrow> bufnode list \<Rightarrow>
   (bufnode list \<times> iov list \<times> nat \<times> scan_end) option" where
  "expand_scan lens cnt twd i avail used [] = Some ([], [], avail, ChainEnd)"
| "expand_scan lens cnt twd i avail used (n # ns) =
     assertab (bn_off n = 0 \<or> i = twd)
       (let n = (if bn_off n = 0 \<and> \<not> bn_external n then n\<lparr>bn_misalign := 0\<rparr> else n);
            (space, slot) = buffer_node_avail n;
            iv = (if slot \<noteq> 0 then [RECORD_IOV i n space] else []);
            n' = (if slot \<noteq> 0 then n\<lparr>bn_used := True\<rparr> else n);
            avail = (if slot \<noteq> 0 then avail + space else avail);
            used = (if slot \<noteq> 0 then used + 1 else used)
        in if lens \<le> avail then Some (n' # ns, iv, avail, Enough)
           else if used = cnt then Some (n' # ns, iv, avail, SlotsFull)
           else map_option (\<lambda>(ns', iv', avail', e). (n' # ns', iv @ iv', avail', e))
                  (expand_scan lens cnt twd (Suc i) avail used ns))"

text \<open>A new node behind link \<open>i\<close>, recorded with its whole space: the tail of every branch.\<close>

definition expand_new :: "nat \<Rightarrow> nat \<Rightarrow> iov list \<Rightarrow> buffer \<Rightarrow> (iov list \<times> buffer) option" where
  "expand_new i remain iv b =
     Option.bind (buffer_node_new (if remain < MAX_RECV_SIZE then MAX_RECV_SIZE else remain) b) (\<lambda>(tmp, b).
       Some (iv @ [RECORD_IOV i tmp (NODE_SPACE_LEN tmp)],
             b\<lparr>bf_nodes := take i (bf_nodes b) @ [tmp\<lparr>bn_used := True\<rparr>]\<rparr>))"

text \<open>\<open>_buffer_expand\<close> on a chain that has nodes, behind the realignment.\<close>

definition expand_chain :: "buffer \<Rightarrow> nat \<Rightarrow> nat \<Rightarrow> (iov list \<times> buffer) option" where
  "expand_chain b lens cnt =
     (let t = bf_twd b
      in Option.bind (expand_scan lens cnt t t 0 0 (drop t (bf_nodes b))) (\<lambda>(ns, iv, avail, e).
           let b = b\<lparr>bf_nodes := take t (bf_nodes b) @ ns\<rparr>
           in case e of
                Enough \<Rightarrow> Some (iv, b)
              | ChainEnd \<Rightarrow> expand_new (length (bf_nodes b)) (lens - avail) iv b
              | SlotsFull \<Rightarrow>
                  (let node = bf_nodes b ! t
                   in if bn_off node = 0
                      then assertab (t = 0)
                             (assertab (buffer_node_all_empty (bf_nodes b))
                               (map_option (\<lambda>(iv, b). (iv, b\<lparr>bf_twd := 0\<rparr>))
                                 (expand_new 0 lens [] (buffer_free_all_node (bf_nodes b) b))))
                      else
                        (let avail = NODE_SPACE_LEN node;
                             iv = (if avail \<noteq> 0 then [RECORD_IOV t node avail] else [])
                         in assertab (buffer_node_all_empty (drop (Suc t) (bf_nodes b)))
                              (assertab (avail \<le> lens)
                                (expand_new (Suc t) (lens - avail) iv
                                   (buffer_free_all_node (drop (Suc t) (bf_nodes b)) b)))))))"

definition buffer_expand_int :: "buffer \<Rightarrow> nat \<Rightarrow> nat \<Rightarrow> (iov list \<times> buffer) option" where
  "buffer_expand_int b lens cnt =
     assertab (2 \<le> cnt)
       (if bf_nodes b = [] then
          Option.bind (buffer_node_new lens b) (\<lambda>(node, b).
            Option.bind (buffer_node_insert node b) (\<lambda>b.
              Some ([RECORD_IOV 0 node (NODE_SPACE_LEN node)],
                    upd_node (length (bf_nodes b) - 1) (\<lambda>n. n\<lparr>bn_used := True\<rparr>) b)))
        else expand_chain (buffer_tail_realign b lens) lens cnt)"

text \<open>
  \<open>iov_valid\<close> is the validation loop of \<open>_buffer_commit_expand\<close>, \<open>unpin\<close> clears the pins of the
  entries' nodes, \<open>commit_fill\<close> is the loop that adds the committed bytes to the nodes.
\<close>

definition iov_matches :: "iov \<Rightarrow> nat \<Rightarrow> bufnode \<Rightarrow> bool" where
  "iov_matches iv i node \<longleftrightarrow> iv_node iv = i \<and> iv_pos iv = NODE_SPACE_PTR node"

fun iov_valid :: "iov list \<Rightarrow> nat \<Rightarrow> bufnode list \<Rightarrow> bool" where
  "iov_valid [] i ns = True"
| "iov_valid (iv # ivs) i [] = False"
| "iov_valid (iv # ivs) i (n # ns) = (iov_matches iv i n \<and> iov_valid ivs (Suc i) ns)"

fun unpin :: "nat \<Rightarrow> bufnode list \<Rightarrow> bufnode list" where
  "unpin 0 ns = ns"
| "unpin (Suc k) [] = []"
| "unpin (Suc k) (n # ns) = n\<lparr>bn_used := False\<rparr> # unpin k ns"

text \<open>Result: the nodes, the bytes added, the bytes left over, the new \<open>tail_with_data\<close>.\<close>

fun commit_fill :: "iov list \<Rightarrow> nat \<Rightarrow> bufnode list \<Rightarrow> nat \<Rightarrow> nat \<Rightarrow> bufnode list \<times> nat \<times> nat \<times> nat" where
  "commit_fill [] i ns lens twd = (ns, 0, lens, twd)"
| "commit_fill (iv # ivs) i [] lens twd = ([], 0, lens, twd)"
| "commit_fill (iv # ivs) i (n # ns) lens twd =
     (let k = (if iv_len iv \<le> lens then iv_len iv else lens);
          n' = n\<lparr>bn_used := False, bn_off := bn_off n + k\<rparr>;
          twd = (if 0 < bn_off n' then i else twd);
          (ns', added, left, twd') = commit_fill ivs (Suc i) ns (lens - k) twd
      in (n' # ns', k + added, left, twd'))"

definition buffer_commit_int :: "buffer \<Rightarrow> nat \<Rightarrow> iov list \<Rightarrow> (nat \<times> buffer) option" where
  "buffer_commit_int b lens iv =
     (let ns = bf_nodes b; tl = length ns - 1
      in if iv = [] then Some (0, b)
         else if length iv = 1 \<and> ns \<noteq> [] \<and> iov_matches (hd iv) tl (ns ! tl)
         then assertab (lens \<le> NODE_SPACE_LEN (ns ! tl))
                (let b = upd_node tl (\<lambda>n. n\<lparr>bn_used := False, bn_off := bn_off n + lens\<rparr>) b;
                     b = b\<lparr>bf_total := bf_total b + lens\<rparr>
                 in Some (lens, if lens \<noteq> 0 then buffer_last_with_data b else b))
         else if length ns \<le> bf_twd b then Some (0, b)
         else (let first = (if NODE_SPACE_LEN (ns ! bf_twd b) = 0 then Suc (bf_twd b) else bf_twd b);
                   rest = drop first ns
               in if \<not> iov_valid iv first rest
                  then Some (0, b\<lparr>bf_nodes := take first ns @ unpin (length iv) rest\<rparr>)
                  else (let (rest', added, left, twd) = commit_fill iv first rest lens (bf_twd b)
                        in assertab (left = 0)
                             (Some (added, b\<lparr>bf_nodes := take first ns @ rest', bf_twd := twd,
                                             bf_total := bf_total b + added\<rparr>)))))"

text \<open>Writing bytes through an iov list, as \<open>readv\<close> and the loop of \<open>buffer_append\<close> do.\<close>

fun iov_write :: "iov list \<Rightarrow> bytes \<Rightarrow> bufnode list \<Rightarrow> bufnode list" where
  "iov_write [] data ns = ns"
| "iov_write (iv # ivs) data ns =
     (let k = min (iv_len iv) (length data); n = ns ! iv_node iv
      in iov_write ivs (drop k data)
           (ns[iv_node iv := n\<lparr>bn_buffer := mem_put (bn_buffer n) (iv_pos iv) (take k data)\<rparr>]))"

text \<open>The loop of \<open>buffer_append\<close> also trims the entry that is only partly filled.\<close>

fun iov_trim :: "iov list \<Rightarrow> nat \<Rightarrow> iov list" where
  "iov_trim [] remain = []"
| "iov_trim (iv # ivs) remain =
     (if remain = 0 then iv # ivs
      else if iv_len iv \<le> remain then iv # iov_trim ivs (remain - iv_len iv)
      else iv\<lparr>iv_len := remain\<rparr> # ivs)"

section \<open>Public operations\<close>

definition buffer_init_keep :: "buffer \<Rightarrow> buffer" where
  "buffer_init_keep b =
     b\<lparr>bf_freeze_read := False, bf_freeze_write := False, bf_nodes := [], bf_twd := 0, bf_total := 0,
       bf_hint := None, bf_hint_base := 0, bf_pinned := 0, bf_want := 0\<rparr>"

definition buffer_init :: buffer where
  "buffer_init =
     \<lparr>bf_freeze_read = False, bf_freeze_write = False, bf_nodes = [], bf_twd = 0, bf_total = 0,
      bf_hint = None, bf_hint_base = 0, bf_pinned = 0, bf_want = 0, bf_spare = None, bf_released = []\<rparr>"

definition buffer_free :: "buffer \<Rightarrow> buffer option" where
  "buffer_free b =
     assertab (\<not> bf_freeze_read b) (assertab (\<not> bf_freeze_write b)
       (Some (buffer_init_keep (buffer_free_all_node (bf_nodes b) b))))"

definition buffer_reset_keep_want :: "buffer \<Rightarrow> buffer" where
  "buffer_reset_keep_want b = (buffer_init_keep b)\<lparr>bf_want := bf_want b\<rparr>"

definition buffer_size :: "buffer \<Rightarrow> nat" where
  "buffer_size b = bf_total b"

fun space_scan :: "nat \<Rightarrow> bufnode list \<Rightarrow> nat \<Rightarrow> nat" where
  "space_scan cnt [] used = 0"
| "space_scan cnt (n # ns) used =
     (if used < cnt then fst (buffer_node_avail n) + space_scan cnt ns (used + snd (buffer_node_avail n)) else 0)"

definition buffer_space :: "buffer \<Rightarrow> nat \<Rightarrow> nat" where
  "buffer_space b cnt = space_scan cnt (drop (bf_twd b) (bf_nodes b)) 0"

definition buffer_want :: "buffer \<Rightarrow> nat \<Rightarrow> buffer" where
  "buffer_want b lack = b\<lparr>bf_want := (if UINT32_MAX < lack then UINT32_MAX else lack)\<rparr>"

text \<open>\<open>ext_free\<close> is the callback's token, \<open>None\<close> for \<open>NULL\<close>.\<close>

definition buffer_external :: "buffer \<Rightarrow> bytes \<Rightarrow> nat option \<Rightarrow> buffer option" where
  "buffer_external b data ext_free =
     assertab (\<not> bf_freeze_write b) (assertab (\<not> bf_freeze_read b)
       (if length data = 0
        then Some (case ext_free of None \<Rightarrow> b | Some cb \<Rightarrow> b\<lparr>bf_released := bf_released b @ [cb]\<rparr>)
        else buffer_node_insert
               \<lparr>bn_used = False, bn_external = True, bn_buffer = data, bn_free = ext_free,
                bn_misalign = 0, bn_off = length data\<rparr> b))"

definition write_node :: "bytes \<Rightarrow> bufnode \<Rightarrow> bufnode" where
  "write_node data n =
     n\<lparr>bn_buffer := mem_put (bn_buffer n) (NODE_SPACE_PTR n) data, bn_off := bn_off n + length data\<rparr>"

definition buffer_append_slow :: "buffer \<Rightarrow> bytes \<Rightarrow> buffer option" where
  "buffer_append_slow b data =
     Option.bind (buffer_expand_int b (length data) MAX_EXPAND_NIOV) (\<lambda>(iv, b).
       let b = b\<lparr>bf_nodes := iov_write iv data (bf_nodes b)\<rparr>
       in Option.bind (buffer_commit_int b (length data) (iov_trim iv (length data))) (\<lambda>(n, b).
            assertab (length data = n) (Some b)))"

text \<open>The data pointer is not \<open>NULL\<close> (that case returns at once, like the empty data).\<close>

definition buffer_append :: "buffer \<Rightarrow> bytes \<Rightarrow> buffer option" where
  "buffer_append b data =
     assertab (\<not> bf_freeze_write b) (assertab (\<not> bf_freeze_read b)
       (let lens = length data
        in if lens = 0 then Some b
           else if bf_nodes b = [] then
             Option.bind (buffer_node_new (if lens < MAX_RECV_SIZE then MAX_RECV_SIZE else lens) b) (\<lambda>(node, b).
               Some (b\<lparr>bf_nodes := [node\<lparr>bn_buffer := mem_put (bn_buffer node) 0 data, bn_off := lens\<rparr>],
                       bf_twd := 0, bf_total := bf_total b + lens\<rparr>))
           else
             (let ti = length (bf_nodes b) - 1; tail = bf_nodes b ! ti
              in if bn_off tail \<noteq> 0 \<and> \<not> bn_used tail
                 then (let tail = (if NODE_SPACE_LEN tail < lens \<and> 0 < bn_misalign tail \<and>
                                      buffer_should_realign tail lens
                                   then buffer_align tail else tail);
                           b = b\<lparr>bf_nodes := (bf_nodes b)[ti := tail]\<rparr>
                       in if lens \<le> NODE_SPACE_LEN tail
                          then Some (b\<lparr>bf_nodes := (bf_nodes b)[ti := write_node data tail],
                                       bf_total := bf_total b + lens\<rparr>)
                          else buffer_append_slow b data)
                 else buffer_append_slow b data)))"

definition buffer_expand :: "buffer \<Rightarrow> nat \<Rightarrow> nat \<Rightarrow> (iov list \<times> buffer) option" where
  "buffer_expand b lens cnt =
     assertab (\<not> bf_freeze_write b) (assertab (\<not> bf_freeze_read b)
       (buffer_expand_int (b\<lparr>bf_freeze_write := True\<rparr>) lens cnt))"

definition buffer_commit_expand :: "buffer \<Rightarrow> nat \<Rightarrow> iov list \<Rightarrow> buffer option" where
  "buffer_commit_expand b lens iv =
     assertab (bf_freeze_write b)
       (Option.bind (buffer_commit_int b lens iv) (\<lambda>(n, b).
          assertab (lens = n) (Some (b\<lparr>bf_freeze_write := False\<rparr>))))"

section \<open>Read side\<close>

definition node_slice :: "bufnode \<Rightarrow> nat \<Rightarrow> nat \<Rightarrow> bytes" where
  "node_slice n off lens = mem_get (bn_buffer n) (bn_misalign n + off) lens"

text \<open>
  The cursor search: from the hint when it does not lie behind \<open>start\<close>, else from the head.
  Result: node, bytes up to its end, offset inside it.
\<close>

fun search_walk :: "bufnode list \<Rightarrow> nat \<Rightarrow> nat \<Rightarrow> nat \<Rightarrow> (nat \<times> nat \<times> nat) option" where
  "search_walk [] i totaloff start = None"
| "search_walk (n # ns) i totaloff start =
     (if bn_off n = 0 then None
      else (let totaloff = totaloff + bn_off n
            in if start < totaloff then Some (i, totaloff, start - (totaloff - bn_off n))
               else search_walk ns (Suc i) totaloff start))"

definition buffer_search_start_cached :: "buffer \<Rightarrow> nat \<Rightarrow> (nat \<times> nat \<times> nat) option \<times> buffer" where
  "buffer_search_start_cached b start =
     (let (i, totaloff) = (case bf_hint b of
            Some k \<Rightarrow> if bf_hint_base b \<le> start then (k, bf_hint_base b) else (0, 0)
          | None \<Rightarrow> (0, 0))
      in case search_walk (drop i (bf_nodes b)) i totaloff start of
           None \<Rightarrow> (None, b)
         | Some (k, tot, inoff) \<Rightarrow>
             (Some (k, tot, inoff),
              b\<lparr>bf_hint := Some k, bf_hint_base := tot - bn_off (bf_nodes b ! k)\<rparr>))"

fun copy_nodes :: "bufnode list \<Rightarrow> nat \<Rightarrow> bytes" where
  "copy_nodes [] lens = []"
| "copy_nodes (n # ns) lens =
     (if lens = 0 then []
      else if bn_off n \<le> lens then node_slice n 0 (bn_off n) @ copy_nodes ns (lens - bn_off n)
      else node_slice n 0 lens)"

text \<open>The bytes written to \<open>out\<close>, the return value, and the buffer (only its hint changes).\<close>

definition buffer_copyout_slow :: "buffer \<Rightarrow> nat \<Rightarrow> nat \<Rightarrow> (bytes \<times> nat \<times> buffer) option" where
  "buffer_copyout_slow b start lens =
     assertab (\<not> bf_freeze_read b)
       (if bf_total b \<le> start \<or> lens = 0 then Some ([], 0, b)
        else
          (let remain = bf_total b - start;
               lens = (if remain < lens then remain else lens)
           in if start = 0 then Some (copy_nodes (bf_nodes b) lens, lens, b)
              else (let (r, b) = (if start < bn_off (hd (bf_nodes b)) then (Some (0, 0, start), b)
                                  else buffer_search_start_cached b start)
                    in case r of
                         None \<Rightarrow> Some ([], 0, b)
                       | Some (k, _, off) \<Rightarrow>
                           (let node = bf_nodes b ! k
                            in if 0 < off
                               then (let remain = bn_off node - off
                                     in if remain < lens
                                        then Some (node_slice node off remain @
                                                   copy_nodes (drop (Suc k) (bf_nodes b)) (lens - remain), lens, b)
                                        else Some (node_slice node off lens, lens, b))
                               else Some (copy_nodes (drop k (bf_nodes b)) lens, lens, b)))))"

definition buffer_copyout :: "buffer \<Rightarrow> nat \<Rightarrow> nat \<Rightarrow> (bytes \<times> nat \<times> buffer) option" where
  "buffer_copyout b start lens =
     (case bf_nodes b of
        [] \<Rightarrow> buffer_copyout_slow b start lens
      | head # _ \<Rightarrow>
          if \<not> bf_freeze_read b \<and> start < bn_off head \<and> lens \<noteq> 0 \<and> lens \<le> bn_off head - start
          then Some (node_slice head start lens, lens, b)
          else buffer_copyout_slow b start lens)"

text \<open>
  The loop of \<open>_buffer_drain_slow\<close>: free the nodes that are used up. \<open>t\<close> is the index of the
  \<open>tail_with_data\<close> link relative to the node in hand (\<open>0\<close>: the link that points to it, \<open>1\<close>: its
  own \<open>next\<close> field); both are replaced by \<open>&head\<close>. A pinned node is emptied in place.
\<close>

fun drain_loop :: "bufnode list \<Rightarrow> nat \<Rightarrow> nat \<Rightarrow> buffer \<Rightarrow> (bufnode list \<times> nat \<times> nat \<times> buffer) option" where
  "drain_loop [] t remain b = Some ([], t, remain, b)"
| "drain_loop (n # ns) t remain b =
     (if bn_off n \<le> remain
      then (let remain = remain - bn_off n; t' = (if t = 0 \<or> t = 1 then 0 else t - 1)
            in if \<not> bn_used n then drain_loop ns t' remain (buffer_node_free n b)
               else assertab (remain = 0)
                      (Some (n\<lparr>bn_misalign := bn_misalign n + bn_off n, bn_off := 0\<rparr> # ns,
                             (if t = 0 \<or> t = 1 then 0 else t), 0, b)))
      else Some (n # ns, t, remain, b))"

definition drain_node :: "nat \<Rightarrow> bufnode \<Rightarrow> bufnode" where
  "drain_node lens n = n\<lparr>bn_misalign := bn_misalign n + lens, bn_off := bn_off n - lens\<rparr>"

definition buffer_drain_slow :: "buffer \<Rightarrow> nat \<Rightarrow> (nat \<times> buffer) option" where
  "buffer_drain_slow b lens =
     assertab (\<not> bf_freeze_read b) (assertab (\<not> bf_freeze_write b)
       (if bf_nodes b \<noteq> [] \<and> \<not> bn_used (hd (bf_nodes b)) \<and> lens < bn_off (hd (bf_nodes b))
        then Some (lens, (upd_node 0 (drain_node lens) b)
               \<lparr>bf_hint_base := (if bf_hint b \<noteq> None \<and> bf_hint b \<noteq> Some 0
                                then bf_hint_base b - lens else bf_hint_base b),
                bf_total := bf_total b - lens\<rparr>)
        else if bf_total b = 0 then Some (0, b)
        else
          (let lens = (if bf_total b < lens then bf_total b else lens)
           in if length (bf_nodes b) = 1 \<and> \<not> bn_used (hd (bf_nodes b))
              then Some (lens, buffer_reset_keep_want (buffer_node_free (hd (bf_nodes b)) b))
              else
                (let hint = bf_hint b; base = bf_hint_base b;
                     b = b\<lparr>bf_hint := None, bf_hint_base := 0, bf_total := bf_total b - lens\<rparr>
                 in Option.bind (drain_loop (bf_nodes b) (bf_twd b) lens b) (\<lambda>(ns, t, remain, b').
                      let freed = length (bf_nodes b) - length ns in
                      Option.bind
                        (case ns of
                           [] \<Rightarrow> Some (b'\<lparr>bf_nodes := [], bf_twd := 0\<rparr>)
                         | n # ns' \<Rightarrow>
                             assertab (remain \<le> bn_off n)
                               (Some (b'\<lparr>bf_nodes := drain_node remain n # ns', bf_twd := t\<rparr>))) (\<lambda>b2.
                      case hint of
                        None \<Rightarrow> Some (lens, b2)
                      | Some k \<Rightarrow>
                          if lens \<le> base then
                            \<comment> \<open>a cursor kept on a freed node would be a dangling pointer: no result\<close>
                            (if k < freed then None
                             else Some (lens, b2\<lparr>bf_hint := Some (k - freed), bf_hint_base := base - lens\<rparr>))
                          else if k = freed \<and> bf_nodes b2 \<noteq> [] \<and> bn_off (hd (bf_nodes b2)) \<noteq> 0
                          then Some (lens, b2\<lparr>bf_hint := Some 0, bf_hint_base := 0\<rparr>)
                          else Some (lens, b2)))))))"

definition buffer_drain_whole :: "buffer \<Rightarrow> nat \<Rightarrow> nat \<times> buffer" where
  "buffer_drain_whole b lens =
     (lens, buffer_reset_keep_want (buffer_node_free (hd (bf_nodes b)) b))"

definition buffer_drain :: "buffer \<Rightarrow> nat \<Rightarrow> (nat \<times> buffer) option" where
  "buffer_drain b lens =
     (if length (bf_nodes b) = 1 \<and> \<not> bn_used (hd (bf_nodes b)) \<and> lens \<le> bn_off (hd (bf_nodes b)) \<and>
         \<not> bf_freeze_read b \<and> \<not> bf_freeze_write b
      then if lens = bn_off (hd (bf_nodes b)) \<and> lens \<noteq> 0
           then Some (buffer_drain_whole b lens)
           else Some (lens, (upd_node 0 (drain_node lens) b)\<lparr>bf_total := bf_total b - lens\<rparr>)
      else buffer_drain_slow b lens)"

definition buffer_remove :: "buffer \<Rightarrow> nat \<Rightarrow> (bytes \<times> nat \<times> buffer) option" where
  "buffer_remove b lens =
     (if length (bf_nodes b) = 1 \<and> \<not> bn_used (hd (bf_nodes b)) \<and> lens \<noteq> 0 \<and> bn_off (hd (bf_nodes b)) \<noteq> 0
      then assertab (\<not> bf_freeze_read b) (assertab (\<not> bf_freeze_write b)
        (let head = hd (bf_nodes b)
         in if bn_off head \<le> lens
            then Some (node_slice head 0 (bn_off head), bn_off head,
                       buffer_reset_keep_want (buffer_node_free head b))
            else Some (node_slice head 0 lens, lens,
                       (upd_node 0 (drain_node lens) b)\<lparr>bf_total := bf_total b - lens\<rparr>)))
      else Option.bind (buffer_copyout b 0 lens) (\<lambda>(out, rtn, b).
        if 0 < rtn
        then Option.bind (buffer_drain b rtn) (\<lambda>(n, b). assertab (rtn = n) (Some (out, rtn, b)))
        else Some (out, rtn, b)))"

text \<open>Comparison across nodes; \<open>True\<close> is \<open>ERR_OK\<close>.\<close>

fun search_memcmp :: "(bytes \<Rightarrow> bytes \<Rightarrow> bool) \<Rightarrow> bufnode list \<Rightarrow> nat \<Rightarrow> bytes \<Rightarrow> bool" where
  "search_memcmp cmp [] off what = (what = [])"
| "search_memcmp cmp (n # ns) off what =
     (if what = [] then True
      else if bn_off n \<le> off then False
      else (let ncomp = (if bn_off n < length what + off then bn_off n - off else length what)
            in if \<not> cmp (node_slice n off ncomp) (take ncomp what) then False
               else search_memcmp cmp ns 0 (drop ncomp what)))"

definition search_eq :: "bool \<Rightarrow> bufnode list \<Rightarrow> nat \<Rightarrow> bytes \<Rightarrow> bool" where
  "search_eq ncs ns off what =
     (let n = hd ns
      in if ncs \<or> bn_off n \<le> off \<or> bn_off n - off < length what
         then search_memcmp (if ncs then (\<lambda>a b. memcasecmp a b = 0) else memcmp0) ns off what
         else node_slice n off (length what) = what)"

text \<open>
  The scan loop: \<open>ns\<close> is the chain from the node in hand, \<open>base\<close> the bytes before that node
  (\<open>totaloff - node->off\<close>), \<open>off\<close> the cursor in it, \<open>end\<close> the exclusive bound.
\<close>

function search_loop :: "bool \<Rightarrow> bytes \<Rightarrow> nat \<Rightarrow> bufnode list \<Rightarrow> nat \<Rightarrow> nat \<Rightarrow> nat option" where
  "search_loop ncs what end [] base off = None"
| "search_loop ncs what end (n # ns) base off =
     (if bn_off n = 0 then None
      else if end < base + off + length what then None
      else (let scan = end - length what - (base + off) + 1;
                scan = (if bn_off n - off < scan then bn_off n - off else scan)
            in case (if ncs then memichr else memchr) (node_slice n off scan) (what ! 0) of
                 None \<Rightarrow> search_loop ncs what end ns (base + bn_off n) 0
               | Some d \<Rightarrow>
                   (let off = off + d
                    in if search_eq ncs (n # ns) off what then Some (base + off)
                       else if bn_off n \<le> Suc off then search_loop ncs what end ns (base + bn_off n) 0
                       else search_loop ncs what end (n # ns) base (Suc off))))"
  by pat_completeness auto
termination
  by (relation "measures [\<lambda>(ncs, what, end, ns, base, off). length ns,
        \<lambda>(ncs, what, end, ns, base, off). (case ns of [] \<Rightarrow> 0 | n # _ \<Rightarrow> bn_off n) - off]") auto

text \<open>Returns an \<open>int32_t\<close>: a hit beyond \<open>INT32_MAX\<close> is reported as not found (\<open>-1\<close>).\<close>

definition search_result :: "nat option \<Rightarrow> int" where
  "search_result r = (case r of None \<Rightarrow> -1 | Some p \<Rightarrow> if INT32_MAX < p then -1 else int p)"

definition buffer_search_slow :: "buffer \<Rightarrow> bool \<Rightarrow> nat \<Rightarrow> nat \<Rightarrow> bytes \<Rightarrow> (int \<times> buffer) option" where
  "buffer_search_slow b ncs start end what =
     assertab (\<not> bf_freeze_read b)
       (if what = [] then Some (-1, b)
        else if bf_total b = 0 then Some (-1, b)
        else
          (let end = (if end = 0 \<or> bf_total b \<le> end then bf_total b else end + 1)
           in if end \<le> start \<or> end - start < length what then Some (-1, b)
              else (let (r, b) = buffer_search_start_cached b start
                    in case r of
                         None \<Rightarrow> None \<comment> \<open>the \<open>ASSERTAB\<close> on the start node\<close>
                       | Some (k, totaloff, uioff) \<Rightarrow>
                           assertab (bn_off (bf_nodes b ! k) \<noteq> 0)
                             (Some (search_result (search_loop ncs what end (drop k (bf_nodes b))
                                      (totaloff - bn_off (bf_nodes b ! k)) uioff), b)))))"

definition buffer_search :: "buffer \<Rightarrow> bool \<Rightarrow> nat \<Rightarrow> nat \<Rightarrow> bytes \<Rightarrow> (int \<times> buffer) option" where
  "buffer_search b ncs start end what =
     (if \<not> ncs \<and> bf_nodes b \<noteq> [] \<and> \<not> bf_freeze_read b \<and> what \<noteq> []
      then (let e = (if end = 0 \<or> bf_total b \<le> end then bf_total b else end + 1); head = hd (bf_nodes b)
            in if e \<le> bn_off head \<and> start < e \<and> length what \<le> e - start
               then Some (search_result (map_option (\<lambda>d. start + d) (memstr (node_slice head start (e - start)) what)), b)
               else buffer_search_slow b ncs start end what)
      else buffer_search_slow b ncs start end what)"

definition buffer_at_slow :: "buffer \<Rightarrow> nat \<Rightarrow> (u8 \<times> buffer) option" where
  "buffer_at_slow b pos =
     assertab (\<not> bf_freeze_read b) (assertab (pos < bf_total b)
       (let slow = (case buffer_search_start_cached b pos of
                      (None, b) \<Rightarrow> None
                    | (Some (k, _, off), b) \<Rightarrow> Some (hd (node_slice (bf_nodes b ! k) off 1), b))
        in if bf_twd b < length (bf_nodes b) \<and> bn_off (bf_nodes b ! bf_twd b) \<noteq> 0
           then (let last = bf_nodes b ! bf_twd b; base = bf_total b - bn_off last
                 in if base \<le> pos then Some (hd (node_slice last (pos - base) 1), b) else slow)
           else slow))"

definition buffer_at :: "buffer \<Rightarrow> nat \<Rightarrow> (u8 \<times> buffer) option" where
  "buffer_at b pos =
     (if bf_nodes b \<noteq> [] \<and> \<not> bf_freeze_read b \<and> pos < bn_off (hd (bf_nodes b))
      then Some (hd (node_slice (hd (bf_nodes b)) pos 1), b)
      else buffer_at_slow b pos)"

text \<open>The iov entries of \<open>buffer_get\<close> start at the nodes' first live byte.\<close>

fun get_scan :: "nat \<Rightarrow> nat \<Rightarrow> nat \<Rightarrow> bufnode list \<Rightarrow> iov list \<times> bufnode list" where
  "get_scan cnt atmost i [] = ([], [])"
| "get_scan cnt atmost i (n # ns) =
     (if i < cnt \<and> 0 < atmost
      then (let len = (if atmost < bn_off n then atmost else bn_off n);
                atmost = (if len < bn_off n then 0 else atmost - len);
                (iv, ns') = get_scan cnt atmost (Suc i) ns
            in (\<lparr>iv_node = i, iv_pos = bn_misalign n, iv_len = len\<rparr> # iv, n\<lparr>bn_used := True\<rparr> # ns'))
      else ([], n # ns))"

definition buffer_get :: "buffer \<Rightarrow> nat \<Rightarrow> nat \<Rightarrow> (iov list \<times> buffer) option" where
  "buffer_get b atmost cnt =
     assertab (\<not> bf_freeze_read b) (assertab (\<not> bf_freeze_write b)
       (let atmost = (if bf_total b < atmost then bf_total b else atmost)
        in if atmost = 0 \<or> cnt = 0 then Some ([], b)
           else (let (iv, ns) = get_scan cnt atmost 0 (bf_nodes b)
                 in Some (iv, b\<lparr>bf_freeze_read := True, bf_nodes := ns, bf_pinned := length iv\<rparr>))))"

definition buffer_commit_get :: "buffer \<Rightarrow> nat \<Rightarrow> buffer option" where
  "buffer_commit_get b lens =
     assertab (bf_freeze_read b)
       (let b = b\<lparr>bf_nodes := unpin (bf_pinned b) (bf_nodes b), bf_pinned := 0, bf_freeze_read := False\<rparr>
        in if 0 < lens then map_option snd (buffer_drain b lens) else Some b)"

end
