(* ===== verification/Buffer_Inv.thy ===== *)
theory Buffer_Inv
  imports Buffer_Model
begin

text \<open>
  The meaning and the invariant of the buffer of \<open>lib/utils/buffer.c\<close>. \<open>content\<close> is the byte
  stream a buffer holds and \<open>ledger\<close> the zero-copy blocks it was given: those already released
  followed by those still in the chain. \<open>binv\<close> is what every public operation relies on and
  keeps; it is split into \<open>bcore\<close>, the shape of the chain, which also holds while an expansion
  or a read is pending, and \<open>idle\<close>, that none is.
\<close>

section \<open>Contents\<close>

definition node_data :: "bufnode \<Rightarrow> bytes" where
  "node_data n = mem_get (bn_buffer n) (bn_misalign n) (bn_off n)"

definition nodes_data :: "bufnode list \<Rightarrow> bytes" where
  "nodes_data ns = concat (map node_data ns)"

definition content :: "buffer \<Rightarrow> bytes" where
  "content b = nodes_data (bf_nodes b)"

definition nodes_len :: "bufnode list \<Rightarrow> nat" where
  "nodes_len ns = sum_list (map bn_off ns)"

text \<open>The release callbacks of a list of nodes.\<close>

fun frees :: "bufnode list \<Rightarrow> nat list" where
  "frees [] = []"
| "frees (n # ns) = (case bn_free n of None \<Rightarrow> frees ns | Some cb \<Rightarrow> cb # frees ns)"

definition ledger :: "buffer \<Rightarrow> nat list" where
  "ledger b = bf_released b @ frees (bf_nodes b)"

section \<open>The invariant\<close>

definition node_ok :: "bufnode \<Rightarrow> bool" where
  "node_ok n \<longleftrightarrow> bn_misalign n + bn_off n \<le> buffer_lens n \<and>
     (if bn_external n then bn_misalign n + bn_off n = buffer_lens n \<and> bn_off n \<noteq> 0
      else bn_free n = None \<and> 0 < buffer_lens n)"

definition twd_ok :: "bufnode list \<Rightarrow> nat \<Rightarrow> bool" where
  "twd_ok ns t \<longleftrightarrow> (if ns = [] then t = 0 else t < length ns) \<and>
     (\<forall>i<t. bn_off (ns ! i) \<noteq> 0) \<and> (0 < t \<longrightarrow> bn_off (ns ! t) \<noteq> 0) \<and>
     (\<forall>i<length ns. t < i \<longrightarrow> bn_off (ns ! i) = 0)"

definition hint_ok :: "bufnode list \<Rightarrow> nat option \<Rightarrow> nat \<Rightarrow> bool" where
  "hint_ok ns h base \<longleftrightarrow> (case h of None \<Rightarrow> True
     | Some k \<Rightarrow> k < length ns \<and> bn_off (ns ! k) \<noteq> 0 \<and> base = nodes_len (take k ns))"

definition spare_ok :: "bufnode option \<Rightarrow> bool" where
  "spare_ok s \<longleftrightarrow> (case s of None \<Rightarrow> True
     | Some n \<Rightarrow> \<not> bn_used n \<and> \<not> bn_external n \<and> bn_free n = None \<and> bn_misalign n = 0 \<and>
               bn_off n = 0 \<and> 0 < buffer_lens n)"

definition bcore :: "buffer \<Rightarrow> bool" where
  "bcore b \<longleftrightarrow> list_all node_ok (bf_nodes b) \<and> bf_total b = nodes_len (bf_nodes b) \<and>
     twd_ok (bf_nodes b) (bf_twd b) \<and> hint_ok (bf_nodes b) (bf_hint b) (bf_hint_base b) \<and>
     spare_ok (bf_spare b)"

definition unused :: "bufnode list \<Rightarrow> bool" where
  "unused ns \<longleftrightarrow> list_all (\<lambda>n. \<not> bn_used n) ns"

definition idle :: "buffer \<Rightarrow> bool" where
  "idle b \<longleftrightarrow> \<not> bf_freeze_read b \<and> \<not> bf_freeze_write b \<and> bf_pinned b = 0 \<and> unused (bf_nodes b)"

definition binv :: "buffer \<Rightarrow> bool" where
  "binv b \<longleftrightarrow> bcore b \<and> idle b"

section \<open>Contents of lists of nodes\<close>

lemma nodes_data_simps [simp]:
  "nodes_data [] = []" "nodes_data (n # ns) = node_data n @ nodes_data ns"
  "nodes_data (xs @ ys) = nodes_data xs @ nodes_data ys"
  by (simp_all add: nodes_data_def)

lemma nodes_len_simps [simp]:
  "nodes_len [] = 0" "nodes_len (n # ns) = bn_off n + nodes_len ns"
  "nodes_len (xs @ ys) = nodes_len xs + nodes_len ys"
  by (simp_all add: nodes_len_def)

lemma frees_append [simp]: "frees (xs @ ys) = frees xs @ frees ys"
  by (induction xs) (auto split: option.splits)

lemma unused_simps [simp]:
  "unused []" "unused (n # ns) \<longleftrightarrow> \<not> bn_used n \<and> unused ns" "unused (xs @ ys) \<longleftrightarrow> unused xs \<and> unused ys"
  by (simp_all add: unused_def)

lemma length_node_data: "node_ok n \<Longrightarrow> length (node_data n) = bn_off n"
  by (simp add: node_data_def node_ok_def)

lemma length_nodes_data: "list_all node_ok ns \<Longrightarrow> length (nodes_data ns) = nodes_len ns"
  by (induction ns) (simp_all add: length_node_data)

lemma length_content: "bcore b \<Longrightarrow> length (content b) = bf_total b"
  by (simp add: content_def bcore_def length_nodes_data)

lemma empty_node_data [simp]: "bn_off n = 0 \<Longrightarrow> node_data n = []"
  by (simp add: node_data_def)

text \<open>The part of a chain behind \<open>tail_with_data\<close>: empty internal nodes.\<close>

definition all_empty :: "bufnode list \<Rightarrow> bool" where
  "all_empty ns \<longleftrightarrow> list_all (\<lambda>n. bn_off n = 0) ns"

lemma all_empty_simps [simp]:
  "all_empty []" "all_empty (n # ns) \<longleftrightarrow> bn_off n = 0 \<and> all_empty ns"
  "all_empty (xs @ ys) \<longleftrightarrow> all_empty xs \<and> all_empty ys"
  by (simp_all add: all_empty_def)

lemma buffer_node_all_empty_iff: "buffer_node_all_empty ns = all_empty ns"
  by (simp add: buffer_node_all_empty_def all_empty_def)

lemma all_empty_data: "all_empty ns \<Longrightarrow> nodes_data ns = [] \<and> nodes_len ns = 0"
  by (induction ns) auto

lemma all_empty_frees: "all_empty ns \<Longrightarrow> list_all node_ok ns \<Longrightarrow> frees ns = []"
  by (induction ns) (auto simp: node_ok_def split: if_splits)

lemma twd_ok_drop: "twd_ok ns t \<Longrightarrow> all_empty (drop (Suc t) ns)"
  unfolding twd_ok_def all_empty_def list_all_length by auto

lemma nodes_len_0: "nodes_len ns = 0 \<longleftrightarrow> all_empty ns"
  by (induction ns) auto

text \<open>The split of a non-empty chain at \<open>tail_with_data\<close>.\<close>

lemma twd_ok_split:
  assumes "twd_ok ns t" "ns \<noteq> []"
  obtains pre n post where "ns = pre @ n # post" "length pre = t" "all_empty post"
    "list_all (\<lambda>n. bn_off n \<noteq> 0) pre" "pre \<noteq> [] \<Longrightarrow> bn_off n \<noteq> 0"
proof
  have t: "t < length ns" using assms by (simp add: twd_ok_def)
  then show "ns = take t ns @ ns ! t # drop (Suc t) ns" by (rule id_take_nth_drop)
  show "length (take t ns) = t" using t by simp
  show "all_empty (drop (Suc t) ns)" using assms twd_ok_drop by simp
  show "list_all (\<lambda>n. bn_off n \<noteq> 0) (take t ns)"
    using assms t by (simp add: list_all_length twd_ok_def)
  show "bn_off (ns ! t) \<noteq> 0" if "take t ns \<noteq> []"
    using that assms t by (simp add: twd_ok_def)
qed

lemma twd_okI:
  assumes "all_empty post" "list_all (\<lambda>n. bn_off n \<noteq> 0) pre" "pre \<noteq> [] \<Longrightarrow> bn_off n \<noteq> 0"
  shows "twd_ok (pre @ n # post) (length pre)"
  unfolding twd_ok_def
proof (intro conjI allI impI)
  show "if pre @ n # post = [] then length pre = 0 else length pre < length (pre @ n # post)" by simp
  show "bn_off ((pre @ n # post) ! i) \<noteq> 0" if "i < length pre" for i
    using that assms(2) by (simp add: nth_append list_all_length)
  show "bn_off ((pre @ n # post) ! length pre) \<noteq> 0" if "0 < length pre"
    using that assms(3) by simp
  show "bn_off ((pre @ n # post) ! i) = 0" if "i < length (pre @ n # post)" "length pre < i" for i
    using that assms(1) by (auto simp: nth_append all_empty_def list_all_length nth_Cons')
qed

lemma twd_ok_iff: "twd_ok (pre @ n # post) (length pre) \<longleftrightarrow>
    all_empty post \<and> list_all (\<lambda>n. bn_off n \<noteq> 0) pre \<and> (pre \<noteq> [] \<longrightarrow> bn_off n \<noteq> 0)"
proof
  assume a: "twd_ok (pre @ n # post) (length pre)"
  have "all_empty post" using twd_ok_drop [OF a] by simp
  moreover have "list_all (\<lambda>n. bn_off n \<noteq> 0) pre"
    unfolding list_all_length
  proof (intro allI impI)
    fix i assume i: "i < length pre"
    with a have "bn_off ((pre @ n # post) ! i) \<noteq> 0" unfolding twd_ok_def by blast
    with i show "bn_off (pre ! i) \<noteq> 0" by (simp add: nth_append)
  qed
  moreover have "bn_off n \<noteq> 0" if "pre \<noteq> []"
  proof -
    from a that have "bn_off ((pre @ n # post) ! length pre) \<noteq> 0" unfolding twd_ok_def by blast
    then show ?thesis by simp
  qed
  ultimately show "all_empty post \<and> list_all (\<lambda>n. bn_off n \<noteq> 0) pre \<and> (pre \<noteq> [] \<longrightarrow> bn_off n \<noteq> 0)"
    by blast
qed (use twd_okI in blast)

section \<open>Allocation and release\<close>

lemma round_up_ge: "0 < k \<Longrightarrow> s \<le> round_up s k"
proof -
  assume k: "0 < k"
  have "s + k - 1 = (s + k - 1) div k * k + (s + k - 1) mod k" by simp
  moreover have "(s + k - 1) mod k < k" using k by simp
  ultimately show ?thesis unfolding round_up_def by linarith
qed

lemma round_up_multiple: "k dvd round_up s k"
  by (simp add: round_up_def)

text \<open>A fresh node is empty, large enough, and nothing but the spare slot changes.\<close>

definition fresh_node :: "nat \<Rightarrow> bufnode \<Rightarrow> bool" where
  "fresh_node sz n \<longleftrightarrow> node_ok n \<and> \<not> bn_used n \<and> \<not> bn_external n \<and> bn_free n = None \<and>
     bn_misalign n = 0 \<and> bn_off n = 0 \<and> sz \<le> buffer_lens n"

definition ALLOC_MAX :: nat where "ALLOC_MAX = SIZE_MAX - BUFNODE_SIZE - 1023"

lemma buffer_node_new_ok:
  assumes "sz \<le> ALLOC_MAX" "spare_ok (bf_spare b)"
  obtains n s where "buffer_node_new sz b = Some (n, b\<lparr>bf_spare := s\<rparr>)" "fresh_node sz n" "spare_ok s"
proof -
  define lens where "lens = round_up (sz + BUFNODE_SIZE) 1024 - BUFNODE_SIZE"
  have ge: "sz + BUFNODE_SIZE \<le> round_up (sz + BUFNODE_SIZE) 1024" by (rule round_up_ge) simp
  have "round_up (sz + BUFNODE_SIZE) 1024 \<noteq> BUFNODE_SIZE"
    using round_up_multiple [of 1024 "sz + BUFNODE_SIZE"] by (auto simp: BUFNODE_SIZE_def)
  with ge have lens: "sz \<le> lens" "0 < lens" by (auto simp: lens_def)
  have sz: "sz \<le> SIZE_MAX - BUFNODE_SIZE - 1023" using assms(1) by (simp add: ALLOC_MAX_def)
  define fresh where "fresh = \<lparr>bn_used = False, bn_external = False, bn_buffer = replicate lens 0,
                     bn_free = None, bn_misalign = 0, bn_off = 0\<rparr>"
  have f: "fresh_node sz fresh" using lens by (simp add: fresh_def fresh_node_def node_ok_def)
  show thesis
  proof (cases "bf_spare b")
    case None
    with that [of fresh None] f sz show thesis
      by (simp add: buffer_node_new_def fresh_def lens_def spare_ok_def)
  next
    case (Some n)
    show thesis
    proof (cases "buffer_lens n = lens")
      case True
      with Some that [of "n\<lparr>bn_free := None\<rparr>" None] assms(2) sz lens show thesis
        by (simp add: buffer_node_new_def lens_def spare_ok_def fresh_node_def node_ok_def)
    next
      case False
      with Some that [of fresh "Some n"] f sz assms(2) show thesis
        by (simp add: buffer_node_new_def fresh_def lens_def)
    qed
  qed
qed

lemma fresh_nodeD:
  assumes "fresh_node sz n"
  shows "node_ok n" "\<not> bn_used n" "bn_off n = 0" "bn_misalign n = 0" "sz \<le> buffer_lens n" "bn_free n = None"
    "\<not> bn_external n" "0 < buffer_lens n"
  using assms by (auto simp: fresh_node_def node_ok_def)

lemma buffer_node_free_ok:
  assumes "node_ok n" "spare_ok (bf_spare b)"
  obtains s where "buffer_node_free n b = b\<lparr>bf_spare := s, bf_released := bf_released b @ frees [n]\<rparr>" "spare_ok s"
proof (cases "bf_spare b = None \<and> \<not> bn_external n \<and> buffer_lens n \<le> NODE_CACHE_MAX")
  case True
  with assms that [of "Some (n\<lparr>bn_used := False, bn_misalign := 0, bn_off := 0, bn_free := None\<rparr>)"] show thesis
    by (cases "bn_free n") (simp_all add: buffer_node_free_def spare_ok_def node_ok_def Let_def)
next
  case False
  with assms that [of "bf_spare b"] show thesis
    by (cases "bn_free n") (auto simp: buffer_node_free_def Let_def)
qed

lemma buffer_free_all_node_ok:
  assumes "list_all node_ok ns" "spare_ok (bf_spare b)"
  obtains s where "buffer_free_all_node ns b = b\<lparr>bf_spare := s, bf_released := bf_released b @ frees ns\<rparr>" "spare_ok s"
  using assms
proof (induction ns arbitrary: b thesis)
  case Nil
  then show ?case using Nil.prems(1) [of "bf_spare b"] by simp
next
  case (Cons n ns)
  obtain s where s: "buffer_node_free n b = b\<lparr>bf_spare := s, bf_released := bf_released b @ frees [n]\<rparr>" "spare_ok s"
    using buffer_node_free_ok [of n b] Cons.prems by auto
  obtain s' where s': "buffer_free_all_node ns (b\<lparr>bf_spare := s, bf_released := bf_released b @ frees [n]\<rparr>) =
      b\<lparr>bf_spare := s', bf_released := bf_released b @ frees [n] @ frees ns\<rparr>" "spare_ok s'"
    using Cons.IH [of "b\<lparr>bf_spare := s, bf_released := bf_released b @ frees [n]\<rparr>"] Cons.prems s by auto
  from s s' Cons.prems(1) [of s'] show ?case by (auto split: option.splits)
qed

end
