(* ===== verification/Buffer_Write.thy ===== *)
theory Buffer_Write
  imports Buffer_Inv
begin

text \<open>
  The write side of \<open>lib/utils/buffer.c\<close>. An expansion hands out the free space of consecutive
  nodes (\<open>iov_of\<close>), the caller fills it and commits a number of bytes: \<open>expand_ok\<close> and
  \<open>commit_ok\<close> describe the two halves, \<open>append_ok\<close> and \<open>external_ok\<close> the operations that append
  at once. All of them extend \<open>content\<close> at its end and keep \<open>binv\<close>.
\<close>

section \<open>The chain as a nonempty prefix and an empty rest\<close>

lemma twd_ok_AB:
  "twd_ok ns t \<longleftrightarrow> (\<exists>A B. ns = A @ B \<and> list_all (\<lambda>n. bn_off n \<noteq> 0) A \<and> all_empty B \<and> t = length A - 1)"
proof
  assume t: "twd_ok ns t"
  show "\<exists>A B. ns = A @ B \<and> list_all (\<lambda>n. bn_off n \<noteq> 0) A \<and> all_empty B \<and> t = length A - 1"
  proof (cases "ns = []")
    case True
    with t show ?thesis by (auto simp: twd_ok_def)
  next
    case False
    from twd_ok_split [OF t this] obtain pre n post where s: "ns = pre @ n # post" "length pre = t"
      "all_empty post" "list_all (\<lambda>n. bn_off n \<noteq> 0) pre" "pre \<noteq> [] \<Longrightarrow> bn_off n \<noteq> 0" by metis
    show ?thesis
    proof (cases "bn_off n = 0")
      case True
      with s show ?thesis by (intro exI [of _ "[]"] exI [of _ "n # post"]) auto
    next
      case False
      with s show ?thesis by (intro exI [of _ "pre @ [n]"] exI [of _ post]) auto
    qed
  qed
next
  assume "\<exists>A B. ns = A @ B \<and> list_all (\<lambda>n. bn_off n \<noteq> 0) A \<and> all_empty B \<and> t = length A - 1"
  then obtain A B where AB: "ns = A @ B" "list_all (\<lambda>n. bn_off n \<noteq> 0) A" "all_empty B" "t = length A - 1"
    by blast
  show "twd_ok ns t"
  proof (cases "A = []")
    case True
    with AB show ?thesis by (auto simp: twd_ok_def all_empty_def list_all_length)
  next
    case False
    then obtain pre n where "A = pre @ [n]" by (metis rev_exhaust)
    with AB show ?thesis using twd_okI [of B pre n] by simp
  qed
qed

text \<open>A cursor survives every change that keeps the nodes in front of it and its node non-empty.\<close>

lemma hint_ok_keep:
  assumes "hint_ok (A @ B) h base" "all_empty B" "map bn_off A' = map bn_off A"
  shows "hint_ok (A' @ B') h base"
proof (cases h)
  case (Some k)
  have len: "length A' = length A" using assms(3) map_eq_imp_length_eq by blast
  have k: "k < length A"
  proof (rule ccontr)
    assume "\<not> k < length A"
    with assms(1,2) Some show False
      by (auto simp: hint_ok_def nth_append all_empty_def list_all_length)
  qed
  have "bn_off (A' ! k) = bn_off (A ! k)"
    using k len assms(3) by (metis nth_map)
  moreover have "nodes_len (take k A') = nodes_len (take k A)"
    unfolding nodes_len_def using assms(3) by (metis take_map)
  ultimately show ?thesis using assms(1) Some k len by (simp add: hint_ok_def nth_append)
qed (simp add: hint_ok_def)

text \<open>The same when the last non-empty node has grown.\<close>

lemma hint_ok_grow:
  assumes "hint_ok (pre @ n # post) h base" "all_empty post" "bn_off n \<noteq> 0 \<Longrightarrow> bn_off n' \<noteq> 0"
  shows "hint_ok (pre @ n' # post') h base"
proof (cases h)
  case (Some k)
  have "k \<le> length pre"
  proof (rule ccontr)
    assume "\<not> k \<le> length pre"
    with assms(1,2) Some show False
      by (auto simp: hint_ok_def nth_append nth_Cons' all_empty_def list_all_length)
  qed
  with assms Some show ?thesis
    by (cases "k = length pre") (auto simp: hint_ok_def nth_append)
qed (simp add: hint_ok_def)

section \<open>Realignment\<close>

lemma node_space: "node_ok n \<Longrightarrow> bn_misalign n + bn_off n + NODE_SPACE_LEN n = buffer_lens n"
  by (simp add: node_ok_def NODE_SPACE_LEN_def)

lemma external_space: "node_ok n \<Longrightarrow> bn_external n \<Longrightarrow> NODE_SPACE_LEN n = 0"
  by (simp add: node_ok_def NODE_SPACE_LEN_def)

lemma buffer_align_simps [simp]:
  "bn_off (buffer_align n) = bn_off n" "bn_misalign (buffer_align n) = 0"
  "bn_used (buffer_align n) = bn_used n" "bn_external (buffer_align n) = bn_external n"
  "bn_free (buffer_align n) = bn_free n"
  by (simp_all add: buffer_align_def)

lemma buffer_align_ok:
  assumes "node_ok n" "\<not> bn_external n"
  shows "node_ok (buffer_align n)" "node_data (buffer_align n) = node_data n"
    "buffer_lens (buffer_align n) = buffer_lens n"
proof -
  have len: "length (mem_get (bn_buffer n) (bn_misalign n) (bn_off n)) = bn_off n"
    using assms(1) by (simp add: node_ok_def)
  have le: "bn_off n \<le> buffer_lens n" using assms(1) by (simp add: node_ok_def)
  show lens: "buffer_lens (buffer_align n) = buffer_lens n"
    using len le by (simp add: buffer_align_def)
  then show "node_ok (buffer_align n)" using assms le by (simp add: node_ok_def)
  have "mem_get (mem_put (bn_buffer n) 0 (mem_get (bn_buffer n) (bn_misalign n) (bn_off n))) 0 (bn_off n)
      = mem_get (bn_buffer n) (bn_misalign n) (bn_off n)"
    using mem_get_put_same [of 0 "mem_get (bn_buffer n) (bn_misalign n) (bn_off n)" "bn_buffer n"] len le
    by simp
  then show "node_data (buffer_align n) = node_data n"
    by (simp add: node_data_def) (simp add: buffer_align_def)
qed

lemma frees_align: "bn_free n' = bn_free n \<Longrightarrow> frees (pre @ n' # post) = frees (pre @ n # post)"
  by simp

text \<open>Replacing the node at \<open>tail_with_data\<close> by one with the same live bytes keeps everything.\<close>

lemma bcore_replace:
  assumes "bcore b" "bf_nodes b = pre @ n # post" "node_ok n'" "bn_off n' = bn_off n"
  shows "bcore (b\<lparr>bf_nodes := pre @ n' # post\<rparr>)"
proof -
  have h: "hint_ok (pre @ n' # post) (bf_hint b) (bf_hint_base b)"
  proof (cases "bf_hint b")
    case (Some k)
    have "nodes_len (take k (pre @ n' # post)) = nodes_len (take k (pre @ n # post))"
      by (cases "k - length pre") (simp_all add: assms(4))
    with assms Some show ?thesis
      by (auto simp: bcore_def hint_ok_def nth_append nth_Cons')
  qed (simp add: hint_ok_def)
  have "map bn_off (pre @ n' # post) = map bn_off (pre @ n # post)" using assms(4) by simp
  then have off: "bn_off ((pre @ n' # post) ! i) = bn_off ((pre @ n # post) ! i)" for i
    using assms(4) by (simp add: nth_append nth_Cons')
  have "twd_ok (pre @ n' # post) t = twd_ok (pre @ n # post) t" for t
    unfolding twd_ok_def off by simp
  with h assms show ?thesis by (simp add: bcore_def)
qed

text \<open>The split is determined by the chain.\<close>

lemma twd_ok_unique:
  assumes "twd_ok (A @ B) t" "list_all (\<lambda>n. bn_off n \<noteq> 0) A" "all_empty B"
  shows "t = length A - 1"
proof -
  have w: "takeWhile (\<lambda>n. bn_off n \<noteq> 0) (A @ B) = A" if "list_all (\<lambda>n. bn_off n \<noteq> 0) A" "all_empty B" for A B
    using that by (cases B) (auto simp: list_all_iff takeWhile_append)
  from assms(1) obtain A' B' where "A @ B = A' @ B'" "list_all (\<lambda>n. bn_off n \<noteq> 0) A'" "all_empty B'" "t = length A' - 1"
    unfolding twd_ok_AB by blast
  with w [of A B] w [of A' B'] assms show ?thesis by simp
qed

text \<open>
  Replacing the non-empty nodes by ones with the same live bytes, and the empty ones by any empty
  ones, keeps the shape, the content and the ledger.
\<close>

lemma bcore_AB:
  assumes b: "bcore b" "bf_nodes b = A @ B" "list_all (\<lambda>n. bn_off n \<noteq> 0) A" "all_empty B"
    and A': "map bn_off A' = map bn_off A" "nodes_data A' = nodes_data A" "frees A' = frees A"
    and B': "all_empty B'" "list_all node_ok (A' @ B')" "spare_ok s"
  shows "bcore (b\<lparr>bf_nodes := A' @ B', bf_spare := s\<rparr>)"
    "content (b\<lparr>bf_nodes := A' @ B', bf_spare := s\<rparr>) = content b"
    "ledger (b\<lparr>bf_nodes := A' @ B', bf_spare := s\<rparr>) = ledger b"
proof -
  have ne: "list_all (\<lambda>n. bn_off n \<noteq> 0) A'"
  proof -
    have "list_all (\<lambda>k. k \<noteq> 0) (map bn_off A)" using b(3) by (simp add: list_all_iff)
    then show ?thesis unfolding A'(1) [symmetric] by (simp add: list_all_iff)
  qed
  have len: "length A' = length A" using A'(1) map_eq_imp_length_eq by blast
  have "bf_twd b = length A - 1"
    using twd_ok_unique [OF _ b(3,4)] b(1,2) by (simp add: bcore_def)
  then have t: "twd_ok (A' @ B') (bf_twd b)"
    unfolding twd_ok_AB using ne B'(1) len by (intro exI [of _ A'] exI [of _ B']) simp
  have h: "hint_ok (A' @ B') (bf_hint b) (bf_hint_base b)"
    by (rule hint_ok_keep [OF _ b(4) A'(1)]) (use b(1,2) in \<open>simp add: bcore_def\<close>)
  have tot: "nodes_len (A' @ B') = nodes_len (A @ B)"
  proof -
    have "nodes_len A' = nodes_len A" unfolding nodes_len_def using A'(1) by simp
    then show ?thesis using all_empty_data [OF B'(1)] all_empty_data [OF b(4)] by simp
  qed
  show "bcore (b\<lparr>bf_nodes := A' @ B', bf_spare := s\<rparr>)"
    using t h tot b B' by (simp add: bcore_def)
  show "content (b\<lparr>bf_nodes := A' @ B', bf_spare := s\<rparr>) = content b"
    using all_empty_data [OF B'(1)] all_empty_data [OF b(4)] b(2) A'(2) by (simp add: content_def)
  have "list_all node_ok B" "list_all node_ok B'"
    using b(1,2) B'(2) by (simp_all add: bcore_def)
  then show "ledger (b\<lparr>bf_nodes := A' @ B', bf_spare := s\<rparr>) = ledger b"
    using all_empty_frees [of B] all_empty_frees [of B'] b B' A'(3) by (simp add: ledger_def)
qed

lemma tail_realign_ok:
  assumes "bcore b" "bf_nodes b = pre @ n # post" "bf_twd b = length pre"
  obtains n' where "buffer_tail_realign b lens = b\<lparr>bf_nodes := pre @ n' # post\<rparr>" "node_ok n'"
    "bn_off n' = bn_off n" "node_data n' = node_data n" "bn_used n' = bn_used n" "bn_free n' = bn_free n"
proof (cases "bn_off n \<noteq> 0 \<and> bn_misalign n \<noteq> 0 \<and> NODE_SPACE_LEN n < lens \<and> buffer_should_realign n lens")
  case True
  have ok: "node_ok n" "\<not> bn_external n"
    using assms True by (simp_all add: bcore_def buffer_should_realign_def)
  from True assms have "buffer_tail_realign b lens = b\<lparr>bf_nodes := pre @ buffer_align n # post\<rparr>"
    by (simp add: buffer_tail_realign_def upd_node_def Let_def)
  with buffer_align_ok [OF ok] that [of "buffer_align n"] show thesis by simp
next
  case False
  with assms have "buffer_tail_realign b lens = b\<lparr>bf_nodes := pre @ n # post\<rparr>"
    by (auto simp: buffer_tail_realign_def Let_def)
  with that [of n] assms show thesis by (simp add: bcore_def)
qed

section \<open>Expansion\<close>

text \<open>The iov entries of consecutive nodes, each with the node's whole free space.\<close>

fun iov_of :: "nat \<Rightarrow> bufnode list \<Rightarrow> iov list" where
  "iov_of i [] = []"
| "iov_of i (n # ns) = RECORD_IOV i n (NODE_SPACE_LEN n) # iov_of (Suc i) ns"

definition space :: "bufnode list \<Rightarrow> nat" where
  "space ns = sum_list (map NODE_SPACE_LEN ns)"

lemma space_simps [simp]:
  "space [] = 0" "space (n # ns) = NODE_SPACE_LEN n + space ns" "space (xs @ ys) = space xs + space ys"
  by (simp_all add: space_def)

lemma iov_of_append: "iov_of i (xs @ ys) = iov_of i xs @ iov_of (i + length xs) ys"
  by (induction xs arbitrary: i) auto

lemma length_iov_of [simp]: "length (iov_of i ns) = length ns"
  by (induction ns arbitrary: i) auto

lemma iov_total_of: "iov_total (iov_of i ns) = space ns"
  by (induction ns arbitrary: i) (auto simp: iov_total_def RECORD_IOV_def)

text \<open>An empty internal node that was handed out.\<close>

definition pin :: "bufnode \<Rightarrow> bufnode" where
  "pin n = n\<lparr>bn_misalign := 0, bn_used := True\<rparr>"

lemma pin_simps [simp]:
  "bn_off (pin n) = bn_off n" "bn_misalign (pin n) = 0" "bn_buffer (pin n) = bn_buffer n"
  "bn_external (pin n) = bn_external n" "bn_free (pin n) = bn_free n" "bn_used (pin n)"
  by (simp_all add: pin_def)

lemma empty_internal: "node_ok n \<Longrightarrow> bn_off n = 0 \<Longrightarrow> \<not> bn_external n \<and> 0 < buffer_lens n \<and> bn_free n = None"
  by (auto simp: node_ok_def split: if_splits)

lemma pin_ok: "node_ok n \<Longrightarrow> bn_off n = 0 \<Longrightarrow> node_ok (pin n) \<and> NODE_SPACE_LEN (pin n) = buffer_lens n"
  by (auto simp: node_ok_def NODE_SPACE_LEN_def split: if_splits)

lemma pin_space: "node_ok n \<Longrightarrow> bn_off n = 0 \<Longrightarrow> 0 < NODE_SPACE_LEN (pin n)"
  using pin_ok [of n] empty_internal [of n] by simp

lemma pin_list:
  assumes "all_empty ns" "list_all node_ok ns"
  shows "all_empty (map pin ns)" "list_all node_ok (map pin ns)" "list_all (\<lambda>n. 0 < NODE_SPACE_LEN n) (map pin ns)"
  using assms by (induction ns) (auto simp: pin_ok dest: empty_internal)

text \<open>The scan over empty nodes pins a prefix of them.\<close>

lemma expand_scan_empty:
  assumes "all_empty ns" "list_all node_ok ns" "avail < lens" "used < cnt"
  obtains j e where "j \<le> length ns" "used + j \<le> cnt" "e = ChainEnd \<Longrightarrow> used + j < cnt"
    "expand_scan lens cnt t i avail used ns =
       Some (map pin (take j ns) @ drop j ns, iov_of i (map pin (take j ns)),
             avail + space (map pin (take j ns)), e)"
    "e = Enough \<Longrightarrow> lens \<le> avail + space (map pin (take j ns))"
    "e \<noteq> Enough \<Longrightarrow> avail + space (map pin (take j ns)) < lens"
    "e = ChainEnd \<Longrightarrow> j = length ns"
  using assms
proof (induction ns arbitrary: i avail used thesis)
  case Nil
  then show ?case using Nil.prems(1) [of 0 ChainEnd] by simp
next
  case (Cons n ns)
  have n: "bn_off n = 0" "node_ok n" "\<not> bn_external n" "0 < buffer_lens n"
    using Cons.prems(2-) empty_internal [of n] by auto
  have rec: "RECORD_IOV i (n\<lparr>bn_misalign := 0\<rparr>) (buffer_lens n) = RECORD_IOV i (pin n) (NODE_SPACE_LEN (pin n))"
    using n by (simp add: RECORD_IOV_def NODE_SPACE_PTR_def NODE_SPACE_LEN_def)
  have sp: "NODE_SPACE_LEN (pin n) = buffer_lens n" using n pin_ok by blast
  have p: "n\<lparr>bn_misalign := 0, bn_used := True\<rparr> = pin n" by (simp add: pin_def)
  have step: "expand_scan lens cnt t i avail used (n # ns) =
     (if lens \<le> avail + buffer_lens n then Some (pin n # ns, iov_of i [pin n], avail + buffer_lens n, Enough)
      else if Suc used = cnt then Some (pin n # ns, iov_of i [pin n], avail + buffer_lens n, SlotsFull)
      else map_option (\<lambda>(ns', iv', avail', e). (pin n # ns', iov_of i [pin n] @ iv', avail', e))
             (expand_scan lens cnt t (Suc i) (avail + buffer_lens n) (Suc used) ns))"
    using n by (simp add: buffer_node_avail_def rec sp p Let_def)
  consider "lens \<le> avail + buffer_lens n" | "avail + buffer_lens n < lens" "Suc used = cnt"
    | "avail + buffer_lens n < lens" "Suc used \<noteq> cnt" by linarith
  then show ?case
  proof cases
    case 1
    show ?thesis using Cons.prems(1) [of 1 Enough] Cons.prems(5) 1 step sp by simp
  next
    case 2
    show ?thesis using Cons.prems(1) [of 1 SlotsFull] Cons.prems(5) 2 step sp by simp
  next
    case 3
    obtain j e where j: "j \<le> length ns" "Suc used + j \<le> cnt" "e = ChainEnd \<Longrightarrow> Suc used + j < cnt"
      "expand_scan lens cnt t (Suc i) (avail + buffer_lens n) (Suc used) ns =
         Some (map pin (take j ns) @ drop j ns, iov_of (Suc i) (map pin (take j ns)),
               avail + buffer_lens n + space (map pin (take j ns)), e)"
      "e = Enough \<Longrightarrow> lens \<le> avail + buffer_lens n + space (map pin (take j ns))"
      "e \<noteq> Enough \<Longrightarrow> avail + buffer_lens n + space (map pin (take j ns)) < lens"
      "e = ChainEnd \<Longrightarrow> j = length ns"
      using Cons.IH [where i = "Suc i" and avail = "avail + buffer_lens n" and used = "Suc used"] Cons.prems(2-) 3 by auto
    show ?thesis using Cons.prems(1) [of "Suc j" e] Cons.prems(5) j 3 step sp by (simp add: add.assoc)
  qed
qed

lemma expand_new_ok:
  assumes "remain \<le> ALLOC_MAX" "spare_ok (bf_spare b)" "i \<le> length (bf_nodes b)"
  obtains tmp s where
    "expand_new i remain iv b = Some (iv @ iov_of i [tmp], b\<lparr>bf_nodes := take i (bf_nodes b) @ [tmp], bf_spare := s\<rparr>)"
    "node_ok tmp" "bn_off tmp = 0" "remain \<le> NODE_SPACE_LEN tmp" "0 < NODE_SPACE_LEN tmp" "spare_ok s"
proof -
  define sz where "sz = (if remain < MAX_RECV_SIZE then MAX_RECV_SIZE else remain)"
  have sz: "sz \<le> ALLOC_MAX" "remain \<le> sz" using assms(1) by (simp_all add: sz_def ALLOC_MAX_def MAX_RECV_SIZE_def BUFNODE_SIZE_def)
  from buffer_node_new_ok [OF sz(1) assms(2)] obtain n s
    where n: "buffer_node_new sz b = Some (n, b\<lparr>bf_spare := s\<rparr>)" "fresh_node sz n" "spare_ok s" by blast
  note f = fresh_nodeD [OF n(2)]
  have sp: "NODE_SPACE_LEN n = buffer_lens n" using f by (simp add: NODE_SPACE_LEN_def)
  have r: "RECORD_IOV i n (buffer_lens n) = RECORD_IOV i (n\<lparr>bn_used := True\<rparr>) (NODE_SPACE_LEN (n\<lparr>bn_used := True\<rparr>))"
    using f by (simp add: RECORD_IOV_def NODE_SPACE_PTR_def NODE_SPACE_LEN_def)
  show thesis
  proof (rule that [of "n\<lparr>bn_used := True\<rparr>" s])
    show "expand_new i remain iv b = Some (iv @ iov_of i [n\<lparr>bn_used := True\<rparr>],
        b\<lparr>bf_nodes := take i (bf_nodes b) @ [n\<lparr>bn_used := True\<rparr>], bf_spare := s\<rparr>)"
      using n(1) by (simp add: expand_new_def flip: sz_def r) (simp add: sp)
    show "node_ok (n\<lparr>bn_used := True\<rparr>)" "bn_off (n\<lparr>bn_used := True\<rparr>) = 0"
      using f by (simp_all add: node_ok_def)
    have "NODE_SPACE_LEN (n\<lparr>bn_used := True\<rparr>) = buffer_lens n" using sp by (simp add: NODE_SPACE_LEN_def)
    then show "remain \<le> NODE_SPACE_LEN (n\<lparr>bn_used := True\<rparr>)" "0 < NODE_SPACE_LEN (n\<lparr>bn_used := True\<rparr>)"
      using f sz(2) by simp_all
  qed (rule n(3))
qed

text \<open>How an expansion leaves the chain: the nodes \<open>seg\<close> are handed out.\<close>

definition handed_out :: "bufnode list \<Rightarrow> bufnode list \<Rightarrow> bufnode list \<Rightarrow> bool" where
  "handed_out pre seg post \<longleftrightarrow> seg \<noteq> [] \<and> list_all (\<lambda>n. bn_off n \<noteq> 0) pre \<and> all_empty (tl seg) \<and>
     all_empty post \<and> list_all (\<lambda>n. 0 < NODE_SPACE_LEN n) seg \<and> unused pre \<and> unused post \<and>
     (pre \<noteq> [] \<longrightarrow> bn_off (hd seg) = 0 \<longrightarrow> NODE_SPACE_LEN (last pre) = 0)"

text \<open>The result of an expansion, with everything its callers rely on.\<close>

definition expanded :: "buffer \<Rightarrow> nat \<Rightarrow> nat \<Rightarrow> (iov list \<times> buffer) option \<Rightarrow> bool" where
  "expanded b lens cnt r \<longleftrightarrow> (\<exists>pre seg post s.
     r = Some (iov_of (length pre) seg, b\<lparr>bf_nodes := pre @ seg @ post, bf_spare := s\<rparr>) \<and>
     handed_out pre seg post \<and> lens \<le> space seg \<and> length seg \<le> cnt \<and>
     bcore (b\<lparr>bf_nodes := pre @ seg @ post, bf_spare := s\<rparr>) \<and>
     content (b\<lparr>bf_nodes := pre @ seg @ post, bf_spare := s\<rparr>) = content b \<and>
     ledger (b\<lparr>bf_nodes := pre @ seg @ post, bf_spare := s\<rparr>) = ledger b)"

text \<open>Handing out behind full nodes, or from the last non-empty node on.\<close>

lemma expanded_behind:
  assumes b: "bcore b" "bf_nodes b = A @ B" "list_all (\<lambda>n. bn_off n \<noteq> 0) A" "all_empty B"
    and full: "A \<noteq> [] \<Longrightarrow> NODE_SPACE_LEN (last A) = 0" and u: "unused A" "unused post"
    and seg: "seg \<noteq> []" "all_empty (seg @ post)" "list_all node_ok (seg @ post)"
      "list_all (\<lambda>n. 0 < NODE_SPACE_LEN n) seg" "lens \<le> space seg" "length seg \<le> cnt" "spare_ok s"
    and r: "r = Some (iov_of (length A) seg, b\<lparr>bf_nodes := A @ seg @ post, bf_spare := s\<rparr>)"
  shows "expanded b lens cnt r"
proof -
  have ok: "list_all node_ok (A @ seg @ post)" using b(1,2) seg(3) by (simp add: bcore_def)
  note core = bcore_AB [OF b refl refl refl seg(2) ok seg(7)]
  have "all_empty (tl seg)" using seg(1,2) by (cases seg) auto
  then have "handed_out A seg post"
    using b(3) full u seg(1,2,4) by (simp add: handed_out_def)
  then show ?thesis unfolding expanded_def
    using core seg(5,6) r by (intro exI [of _ A] exI [of _ seg] exI [of _ post] exI [of _ s]) simp
qed

lemma expanded_from:
  assumes b: "bcore b" "bf_nodes b = A @ n # B" "list_all (\<lambda>n. bn_off n \<noteq> 0) (A @ [n])" "all_empty B"
    and n: "0 < NODE_SPACE_LEN n" and u: "unused A" "unused post"
    and seg: "all_empty (seg @ post)" "list_all node_ok (seg @ post)"
      "list_all (\<lambda>n. 0 < NODE_SPACE_LEN n) seg" "lens \<le> NODE_SPACE_LEN n + space seg" "Suc (length seg) \<le> cnt"
      "spare_ok s"
    and r: "r = Some (iov_of (length A) (n\<lparr>bn_used := True\<rparr> # seg),
              b\<lparr>bf_nodes := A @ n\<lparr>bn_used := True\<rparr> # seg @ post, bf_spare := s\<rparr>)"
  shows "expanded b lens cnt r"
proof -
  let ?n = "n\<lparr>bn_used := True\<rparr>"
  have same: "node_ok ?n = node_ok n" "NODE_SPACE_LEN ?n = NODE_SPACE_LEN n" "node_data ?n = node_data n"
    by (simp_all add: node_ok_def NODE_SPACE_LEN_def node_data_def)
  have ok: "list_all node_ok ((A @ [?n]) @ seg @ post)"
    using b(1,2) seg(2) same by (simp add: bcore_def)
  have A': "map bn_off (A @ [?n]) = map bn_off (A @ [n])" "nodes_data (A @ [?n]) = nodes_data (A @ [n])"
    "frees (A @ [?n]) = frees (A @ [n])" by (simp_all add: same)
  have b2: "bf_nodes b = (A @ [n]) @ B" using b(2) by simp
  note core = bcore_AB [OF b(1) b2 b(3,4) A' seg(1) ok seg(6)]
  have "handed_out A (?n # seg) post"
    using b(3) n u seg(1,3) by (simp add: handed_out_def same)
  then show ?thesis unfolding expanded_def
    using core seg(4,5) r same by (intro exI [of _ A] exI [of _ "?n # seg"] exI [of _ post] exI [of _ s]) simp
qed

lemma spare_self: "b\<lparr>bf_nodes := ns\<rparr> = b\<lparr>bf_nodes := ns, bf_spare := bf_spare b\<rparr>"
  by (cases b) simp

lemma free_empties:
  assumes "all_empty ns" "list_all node_ok ns" "spare_ok (bf_spare b)"
  obtains s where "buffer_free_all_node ns b = b\<lparr>bf_spare := s\<rparr>" "spare_ok s"
proof -
  obtain s where "buffer_free_all_node ns b = b\<lparr>bf_spare := s, bf_released := bf_released b @ frees ns\<rparr>" "spare_ok s"
    using buffer_free_all_node_ok [OF assms(2,3)] by metis
  then show thesis using that [of s] all_empty_frees [OF assms(1,2)] by (cases b) simp
qed

text \<open>A chain without data: everything is handed out from the first node on, or replaced.\<close>

lemma expand_chain_empty:
  assumes b: "bcore b" "unused (bf_nodes b)" and B: "bf_nodes b = n # ns" "all_empty (n # ns)"
    and lens: "0 < lens" "lens \<le> ALLOC_MAX" "2 \<le> cnt"
  shows "expanded b lens cnt (expand_chain b lens cnt)"
proof -
  let ?B = "n # ns"
  have t: "bf_twd b = 0" using twd_ok_unique [of "[]" ?B "bf_twd b"] b(1) B by (simp add: bcore_def)
  have ok: "list_all node_ok ?B" and sp: "spare_ok (bf_spare b)"
    using b(1) B(1) by (simp_all only: bcore_def)
  obtain j e where j: "j \<le> length ?B" "0 + j \<le> cnt" "e = ChainEnd \<Longrightarrow> 0 + j < cnt"
    and sc: "expand_scan lens cnt 0 0 0 0 ?B = Some (map pin (take j ?B) @ drop j ?B,
        iov_of 0 (map pin (take j ?B)), 0 + space (map pin (take j ?B)), e)"
    and e: "e = Enough \<Longrightarrow> lens \<le> 0 + space (map pin (take j ?B))"
      "e \<noteq> Enough \<Longrightarrow> 0 + space (map pin (take j ?B)) < lens" "e = ChainEnd \<Longrightarrow> j = length ?B"
    using expand_scan_empty [OF B(2) ok lens(1), of 0 cnt 0 0] lens(3) by auto
  define ns' where "ns' = map pin (take j ?B)"
  have tk: "all_empty (take j ?B)" "list_all node_ok (take j ?B)" "all_empty (drop j ?B)" "list_all node_ok (drop j ?B)"
    using B(2) ok append_take_drop_id [of j ?B] all_empty_simps(3) [of "take j ?B" "drop j ?B"]
    by (metis list_all_append)+
  note ns' = pin_list [OF tk(1,2), folded ns'_def]
  have u: "unused (drop j ?B)"
    using b(2) B(1) unused_simps(3) [of "take j ?B" "drop j ?B"] by simp
  have len: "length ns' \<le> cnt" "e = ChainEnd \<Longrightarrow> Suc (length ns') \<le> cnt" using j by (auto simp: ns'_def)
  let ?b = "b\<lparr>bf_nodes := ns' @ drop j ?B\<rparr>"
  note behind = expanded_behind [OF b(1), of "[]" ?B, simplified B(1) append_Nil, OF refl _ B(2)]
  show ?thesis
  proof (cases e)
    case Enough
    with sc t B(1) have r: "expand_chain b lens cnt = Some (iov_of 0 ns', ?b)"
      by (simp add: expand_chain_def ns'_def)
    have "ns' \<noteq> []" using e(1) [OF Enough] lens(1) by (auto simp: ns'_def [symmetric])
    then show ?thesis
      using e(1) [OF Enough] ns' tk u len sp r
      by (intro behind [of "drop j ?B" ns' lens cnt "bf_spare b"]) (simp_all add: ns'_def [symmetric] flip: spare_self)
  next
    case ChainEnd
    with e j have d: "drop j ?B = []" by simp
    obtain tmp s where new: "expand_new (length ns') (lens - space ns') (iov_of 0 ns') ?b =
        Some (iov_of 0 ns' @ iov_of (length ns') [tmp], ?b\<lparr>bf_nodes := take (length ns') (bf_nodes ?b) @ [tmp], bf_spare := s\<rparr>)"
      "node_ok tmp" "bn_off tmp = 0" "lens - space ns' \<le> NODE_SPACE_LEN tmp" "0 < NODE_SPACE_LEN tmp" "spare_ok s"
      by (rule expand_new_ok [of "lens - space ns'" ?b "length ns'" "iov_of 0 ns'"]) (use lens sp in simp_all)
    have r: "expand_chain b lens cnt = Some (iov_of 0 (ns' @ [tmp]), b\<lparr>bf_nodes := ns' @ [tmp], bf_spare := s\<rparr>)"
      using ChainEnd sc t B(1) new(1) d by (simp add: expand_chain_def iov_of_append flip: ns'_def)
    have "lens \<le> space (ns' @ [tmp])" using new(4) by simp
    then show ?thesis
      using ns' len ChainEnd new r
      by (intro behind [of "[]" "ns' @ [tmp]" lens cnt s]) simp_all
  next
    case SlotsFull
    have a: "all_empty (ns' @ drop j ?B)" "list_all node_ok (ns' @ drop j ?B)" using ns' tk by simp_all
    have ne: "ns' @ drop j ?B \<noteq> []" by (auto simp: ns'_def)
    then have h: "bn_off ((ns' @ drop j ?B) ! 0) = 0"
      using a(1) by (cases "ns' @ drop j ?B") auto
    obtain s where s: "buffer_free_all_node (ns' @ drop j ?B) ?b = ?b\<lparr>bf_spare := s\<rparr>" "spare_ok s"
      by (rule free_empties [OF a, of ?b]) (use sp in auto)
    obtain tmp s' where new: "expand_new 0 lens [] (?b\<lparr>bf_spare := s\<rparr>) =
        Some ([] @ iov_of 0 [tmp], ?b\<lparr>bf_spare := s, bf_nodes := take 0 (bf_nodes (?b\<lparr>bf_spare := s\<rparr>)) @ [tmp], bf_spare := s'\<rparr>)"
      "node_ok tmp" "bn_off tmp = 0" "lens \<le> NODE_SPACE_LEN tmp" "0 < NODE_SPACE_LEN tmp" "spare_ok s'"
      by (rule expand_new_ok [of lens "?b\<lparr>bf_spare := s\<rparr>" 0 "[]"]) (use lens s in simp_all)
    have "b\<lparr>bf_nodes := [tmp], bf_spare := s', bf_twd := 0\<rparr> = b\<lparr>bf_nodes := [tmp], bf_spare := s'\<rparr>"
      using t by (cases b) simp
    then have r: "expand_chain b lens cnt = Some (iov_of 0 [tmp], b\<lparr>bf_nodes := [tmp], bf_spare := s'\<rparr>)"
      using SlotsFull sc t B(1) new(1) h a(1) s(1)
      by (simp add: expand_chain_def buffer_node_all_empty_iff flip: ns'_def)
    show ?thesis
      using new r lens by (intro behind [of "[]" "[tmp]" lens cnt s']) simp_all
  qed
qed

text \<open>A chain with data: the scan starts at the last node that has some.\<close>

lemma expand_scan_first:
  assumes "bn_off n \<noteq> 0" "0 < lens" "2 \<le> cnt"
  shows "expand_scan lens cnt t t 0 0 (n # post) =
    (if NODE_SPACE_LEN n = 0
     then map_option (\<lambda>(ns', iv', a, e). (n # ns', iv', a, e)) (expand_scan lens cnt t (Suc t) 0 0 post)
     else if lens \<le> NODE_SPACE_LEN n
     then Some (n\<lparr>bn_used := True\<rparr> # post, iov_of t [n\<lparr>bn_used := True\<rparr>], NODE_SPACE_LEN n, Enough)
     else map_option (\<lambda>(ns', iv', a, e). (n\<lparr>bn_used := True\<rparr> # ns', iov_of t [n\<lparr>bn_used := True\<rparr>] @ iv', a, e))
            (expand_scan lens cnt t (Suc t) (NODE_SPACE_LEN n) 1 post))"
proof -
  have "RECORD_IOV t (n\<lparr>bn_used := True\<rparr>) (NODE_SPACE_LEN (n\<lparr>bn_used := True\<rparr>)) = RECORD_IOV t n (NODE_SPACE_LEN n)"
    by (simp add: RECORD_IOV_def NODE_SPACE_PTR_def NODE_SPACE_LEN_def)
  then show ?thesis using assms by (simp add: buffer_node_avail_def Let_def)
qed

declare expand_scan.simps [simp del]

lemma expand_chain_full:
  assumes b: "bcore b" "unused (bf_nodes b)" and A: "bf_nodes b = A @ n # post"
      "list_all (\<lambda>n. bn_off n \<noteq> 0) (A @ [n])" "all_empty post" and full: "NODE_SPACE_LEN n = 0"
    and lens: "0 < lens" "lens \<le> ALLOC_MAX" "2 \<le> cnt"
  shows "expanded b lens cnt (expand_chain b lens cnt)"
proof -
  have t: "bf_twd b = length A"
    using twd_ok_unique [of "A @ [n]" post "bf_twd b"] b(1) A by (simp add: bcore_def)
  have ok: "list_all node_ok post" and sp: "spare_ok (bf_spare b)"
    using b(1) A(1) by (simp_all add: bcore_def)
  obtain j e where j: "j \<le> length post" "0 + j \<le> cnt" "e = ChainEnd \<Longrightarrow> 0 + j < cnt"
    and sc: "expand_scan lens cnt (length A) (Suc (length A)) 0 0 post = Some (map pin (take j post) @ drop j post,
        iov_of (Suc (length A)) (map pin (take j post)), 0 + space (map pin (take j post)), e)"
    and e: "e = Enough \<Longrightarrow> lens \<le> 0 + space (map pin (take j post))"
      "e \<noteq> Enough \<Longrightarrow> 0 + space (map pin (take j post)) < lens" "e = ChainEnd \<Longrightarrow> j = length post"
    using expand_scan_empty [OF A(3) ok lens(1), of 0 cnt "length A" "Suc (length A)"] lens(3) by auto
  define ns' where "ns' = map pin (take j post)"
  have tk: "all_empty (take j post)" "list_all node_ok (take j post)" "all_empty (drop j post)" "list_all node_ok (drop j post)"
    using A(3) ok append_take_drop_id [of j post] all_empty_simps(3) [of "take j post" "drop j post"]
    by (metis list_all_append)+
  note ns' = pin_list [OF tk(1,2), folded ns'_def]
  have u: "unused (drop j post)" "unused (A @ [n])"
    using b(2) A(1) unused_simps(3) [of "take j post" "drop j post"] by simp_all
  have len: "length ns' \<le> cnt" "e = ChainEnd \<Longrightarrow> Suc (length ns') \<le> cnt" using j by (auto simp: ns'_def)
  have A2: "bf_nodes b = (A @ [n]) @ post" using A(1) by simp
  have off: "bn_off n \<noteq> 0" using A(2) by simp
  let ?b = "b\<lparr>bf_nodes := A @ n # ns' @ drop j post\<rparr>"
  note scan = expand_scan_first [OF off lens(1,3), of "length A" post, unfolded sc]
  note behind = expanded_behind [OF b(1) A2 A(2,3), of _ _ _ cnt, simplified full]
  show ?thesis
  proof (cases e)
    case Enough
    with scan t A(1) full have r: "expand_chain b lens cnt = Some (iov_of (length (A @ [n])) ns', ?b)"
      by (simp add: expand_chain_def Let_def ns'_def)
    have "ns' \<noteq> []" using e(1) [OF Enough] lens(1) by (auto simp: ns'_def [symmetric])
    then show ?thesis
      using e(1) [OF Enough] ns' tk u len sp r full
      by (intro behind [of "drop j post" ns' lens "bf_spare b"]) (simp_all add: ns'_def [symmetric] flip: spare_self)
  next
    case ChainEnd
    with e j have d: "drop j post = []" by simp
    let ?i = "length A + Suc (length ns')"
    obtain tmp s where new: "expand_new ?i (lens - space ns') (iov_of (Suc (length A)) ns') ?b =
        Some (iov_of (Suc (length A)) ns' @ iov_of ?i [tmp], ?b\<lparr>bf_nodes := take ?i (bf_nodes ?b) @ [tmp], bf_spare := s\<rparr>)"
      "node_ok tmp" "bn_off tmp = 0" "lens - space ns' \<le> NODE_SPACE_LEN tmp" "0 < NODE_SPACE_LEN tmp" "spare_ok s"
      by (rule expand_new_ok [of "lens - space ns'" ?b ?i "iov_of (Suc (length A)) ns'"]) (use lens sp in simp_all)
    have r: "expand_chain b lens cnt = Some (iov_of (length (A @ [n])) (ns' @ [tmp]),
        b\<lparr>bf_nodes := (A @ [n]) @ ns' @ [tmp], bf_spare := s\<rparr>)"
      using ChainEnd scan t A(1) new(1) d full by (simp add: expand_chain_def Let_def iov_of_append flip: ns'_def)
    have "lens \<le> space (ns' @ [tmp])" using new(4) by simp
    then show ?thesis
      using ns' len ChainEnd new r u full
      by (intro behind [of "[]" "ns' @ [tmp]" lens s]) simp_all
  next
    case SlotsFull
    have a: "all_empty (ns' @ drop j post)" "list_all node_ok (ns' @ drop j post)" using ns' tk by simp_all
    obtain s where s: "buffer_free_all_node (ns' @ drop j post) ?b = ?b\<lparr>bf_spare := s\<rparr>" "spare_ok s"
      by (rule free_empties [OF a, of ?b]) (use sp in auto)
    let ?i = "Suc (length A)"
    obtain tmp s' where new: "expand_new ?i lens [] (?b\<lparr>bf_spare := s\<rparr>) =
        Some ([] @ iov_of ?i [tmp], ?b\<lparr>bf_spare := s, bf_nodes := take ?i (bf_nodes (?b\<lparr>bf_spare := s\<rparr>)) @ [tmp], bf_spare := s'\<rparr>)"
      "node_ok tmp" "bn_off tmp = 0" "lens \<le> NODE_SPACE_LEN tmp" "0 < NODE_SPACE_LEN tmp" "spare_ok s'"
      by (rule expand_new_ok [of lens "?b\<lparr>bf_spare := s\<rparr>" ?i "[]"]) (use lens s in simp_all)
    have r: "expand_chain b lens cnt = Some (iov_of (length (A @ [n])) [tmp],
        b\<lparr>bf_nodes := (A @ [n]) @ [tmp], bf_spare := s'\<rparr>)"
      using SlotsFull scan t A(1) new(1) a(1) s(1) full off
      by (simp add: expand_chain_def Let_def buffer_node_all_empty_iff flip: ns'_def)
    show ?thesis
      using new r lens u full by (intro behind [of "[]" "[tmp]" lens s']) simp_all
  qed
qed

lemma expand_chain_room:
  assumes b: "bcore b" "unused (bf_nodes b)" and A: "bf_nodes b = A @ n # post"
      "list_all (\<lambda>n. bn_off n \<noteq> 0) (A @ [n])" "all_empty post" and room: "0 < NODE_SPACE_LEN n"
    and lens: "0 < lens" "lens \<le> ALLOC_MAX" "2 \<le> cnt"
  shows "expanded b lens cnt (expand_chain b lens cnt)"
proof -
  define m where "m = n\<lparr>bn_used := True\<rparr>"
  have m: "bn_off m = bn_off n" "NODE_SPACE_LEN m = NODE_SPACE_LEN n"
    "RECORD_IOV i m k = RECORD_IOV i n k" for i k
    by (simp_all add: m_def NODE_SPACE_LEN_def RECORD_IOV_def NODE_SPACE_PTR_def)
  have t: "bf_twd b = length A"
    using twd_ok_unique [of "A @ [n]" post "bf_twd b"] b(1) A by (simp add: bcore_def)
  have ok: "list_all node_ok post" and sp: "spare_ok (bf_spare b)" and off: "bn_off n \<noteq> 0"
    using b(1) A by (simp_all add: bcore_def)
  have u: "unused A" "unused post" using b(2) A(1) by simp_all
  note scan = expand_scan_first [OF off lens(1,3), of "length A" post, folded m_def]
  note from_n = expanded_from [OF b(1) A room u(1), of _ _ _ cnt, folded m_def]
  show ?thesis
  proof (cases "lens \<le> NODE_SPACE_LEN n")
    case True
    with scan t A(1) room have r: "expand_chain b lens cnt = Some (iov_of (length A) [m], b\<lparr>bf_nodes := A @ m # post\<rparr>)"
      by (simp add: expand_chain_def Let_def)
    show ?thesis
      using True A(3) ok sp u lens r by (intro from_n [of post "[]" lens "bf_spare b"]) (simp_all flip: spare_self)
  next
    case False
    then have lt: "NODE_SPACE_LEN n < lens" by simp
    have "1 < cnt" using lens by simp
    obtain j e where j: "j \<le> length post" "1 + j \<le> cnt" "e = ChainEnd \<Longrightarrow> 1 + j < cnt"
      and sc: "expand_scan lens cnt (length A) (Suc (length A)) (NODE_SPACE_LEN n) 1 post =
        Some (map pin (take j post) @ drop j post, iov_of (Suc (length A)) (map pin (take j post)),
          NODE_SPACE_LEN n + space (map pin (take j post)), e)"
      and e: "e = Enough \<Longrightarrow> lens \<le> NODE_SPACE_LEN n + space (map pin (take j post))"
        "e \<noteq> Enough \<Longrightarrow> NODE_SPACE_LEN n + space (map pin (take j post)) < lens" "e = ChainEnd \<Longrightarrow> j = length post"
      using expand_scan_empty [OF A(3) ok lt \<open>1 < cnt\<close>, of "length A" "Suc (length A)"] by blast
    define ns' where "ns' = map pin (take j post)"
    have tk: "all_empty (take j post)" "list_all node_ok (take j post)" "all_empty (drop j post)" "list_all node_ok (drop j post)"
      using A(3) ok append_take_drop_id [of j post] all_empty_simps(3) [of "take j post" "drop j post"]
      by (metis list_all_append)+
    note ns' = pin_list [OF tk(1,2), folded ns'_def]
    have ud: "unused (drop j post)"
      using u(2) unused_simps(3) [of "take j post" "drop j post"] by simp
    have len: "Suc (length ns') \<le> cnt" "e = ChainEnd \<Longrightarrow> Suc (Suc (length ns')) \<le> cnt" using j by (auto simp: ns'_def)
    let ?b = "b\<lparr>bf_nodes := A @ m # ns' @ drop j post\<rparr>"
    note scan2 = scan [unfolded sc]
    show ?thesis
    proof (cases e)
      case Enough
      with scan2 t A(1) room False have r: "expand_chain b lens cnt = Some (iov_of (length A) (m # ns'), ?b)"
        by (simp add: expand_chain_def Let_def ns'_def m)
      show ?thesis
        using e(1) [OF Enough] ns' tk ud len sp r
        by (intro from_n [of "drop j post" ns' lens "bf_spare b"]) (simp_all add: ns'_def [symmetric] flip: spare_self)
    next
      case ChainEnd
      with e j have d: "drop j post = []" by simp
      let ?i = "length A + Suc (length ns')" and ?r = "lens - (NODE_SPACE_LEN n + space ns')"
        and ?iv = "iov_of (length A) (m # ns')"
      obtain tmp s where new: "expand_new ?i ?r ?iv ?b =
          Some (?iv @ iov_of ?i [tmp], ?b\<lparr>bf_nodes := take ?i (bf_nodes ?b) @ [tmp], bf_spare := s\<rparr>)"
        "node_ok tmp" "bn_off tmp = 0" "?r \<le> NODE_SPACE_LEN tmp" "0 < NODE_SPACE_LEN tmp" "spare_ok s"
        by (rule expand_new_ok [of ?r ?b ?i ?iv]) (use lens sp in simp_all)
      have r: "expand_chain b lens cnt = Some (iov_of (length A) (m # ns' @ [tmp]),
          b\<lparr>bf_nodes := A @ m # (ns' @ [tmp]) @ [], bf_spare := s\<rparr>)"
        using ChainEnd scan2 t A(1) new(1) d room False
        by (simp add: expand_chain_def Let_def iov_of_append m flip: ns'_def)
      have "lens \<le> NODE_SPACE_LEN n + space (ns' @ [tmp])" using new(4) by simp
      then show ?thesis
        using ns' len ChainEnd new r
        by (intro from_n [of "[]" "ns' @ [tmp]" lens s]) simp_all
    next
      case SlotsFull
      have a: "all_empty (ns' @ drop j post)" "list_all node_ok (ns' @ drop j post)" using ns' tk by simp_all
      obtain s where s: "buffer_free_all_node (ns' @ drop j post) ?b = ?b\<lparr>bf_spare := s\<rparr>" "spare_ok s"
        by (rule free_empties [OF a, of ?b]) (use sp in auto)
      let ?i = "Suc (length A)" and ?r = "lens - NODE_SPACE_LEN n" and ?iv = "iov_of (length A) [m]"
      obtain tmp s' where new: "expand_new ?i ?r ?iv (?b\<lparr>bf_spare := s\<rparr>) =
          Some (?iv @ iov_of ?i [tmp], ?b\<lparr>bf_spare := s, bf_nodes := take ?i (bf_nodes (?b\<lparr>bf_spare := s\<rparr>)) @ [tmp], bf_spare := s'\<rparr>)"
        "node_ok tmp" "bn_off tmp = 0" "?r \<le> NODE_SPACE_LEN tmp" "0 < NODE_SPACE_LEN tmp" "spare_ok s'"
        by (rule expand_new_ok [of ?r "?b\<lparr>bf_spare := s\<rparr>" ?i ?iv]) (use lens s in simp_all)
      have r: "expand_chain b lens cnt = Some (iov_of (length A) [m, tmp],
          b\<lparr>bf_nodes := A @ m # [tmp] @ [], bf_spare := s'\<rparr>)"
        using SlotsFull scan2 t A(1) new(1) a(1) s(1) room off False
        by (simp add: expand_chain_def Let_def buffer_node_all_empty_iff m flip: ns'_def)
      have "lens \<le> NODE_SPACE_LEN n + space [tmp]" using new(4) by simp
      then show ?thesis
        using new r lens by (intro from_n [of "[]" "[tmp]" lens s']) simp_all
    qed
  qed
qed

lemma expand_chain_ok:
  assumes b: "bcore b" "unused (bf_nodes b)" "bf_nodes b \<noteq> []"
    and lens: "0 < lens" "lens \<le> ALLOC_MAX" "2 \<le> cnt"
  shows "expanded b lens cnt (expand_chain b lens cnt)"
proof -
  from b(1) obtain A B where AB: "bf_nodes b = A @ B" "list_all (\<lambda>n. bn_off n \<noteq> 0) A" "all_empty B"
    unfolding bcore_def twd_ok_AB by blast
  show ?thesis
  proof (cases A rule: rev_cases)
    case Nil
    with AB b(3) obtain n ns where "B = n # ns" by (cases B) auto
    with Nil AB show ?thesis using expand_chain_empty [OF b(1,2) _ _ lens] by simp
  next
    case (snoc A' n)
    with AB have A: "bf_nodes b = A' @ n # B" by simp
    show ?thesis
    proof (cases "NODE_SPACE_LEN n = 0")
      case True
      with expand_chain_full [OF b(1,2) A _ AB(3) _ lens] AB(2) snoc show ?thesis by simp
    next
      case False
      with expand_chain_room [OF b(1,2) A _ AB(3) _ lens] AB(2) snoc show ?thesis by simp
    qed
  qed
qed

text \<open>The result transfers back through the realignment.\<close>

lemma expanded_replace:
  assumes "expanded (b\<lparr>bf_nodes := ns\<rparr>) lens cnt r" "content (b\<lparr>bf_nodes := ns\<rparr>) = content b"
    "ledger (b\<lparr>bf_nodes := ns\<rparr>) = ledger b"
  shows "expanded b lens cnt r"
  using assms unfolding expanded_def by simp

lemma expand_int_nil:
  assumes "bcore b" "bf_nodes b = []" "lens \<le> ALLOC_MAX" "2 \<le> cnt" "0 < lens"
  shows "expanded b lens cnt (buffer_expand_int b lens cnt)"
proof -
  have sp: "spare_ok (bf_spare b)" and t: "bf_twd b = 0" using assms(1,2) by (simp_all add: bcore_def twd_ok_def)
  from buffer_node_new_ok [OF assms(3) sp] obtain n s
    where n: "buffer_node_new lens b = Some (n, b\<lparr>bf_spare := s\<rparr>)" "fresh_node lens n" "spare_ok s" by blast
  note f = fresh_nodeD [OF n(2)]
  define m where "m = n\<lparr>bn_used := True\<rparr>"
  have m: "RECORD_IOV 0 n (NODE_SPACE_LEN n) = RECORD_IOV 0 m (NODE_SPACE_LEN m)" "NODE_SPACE_LEN m = buffer_lens n"
    "bn_off m = 0" "node_ok m"
    using f by (simp_all add: m_def RECORD_IOV_def NODE_SPACE_LEN_def NODE_SPACE_PTR_def node_ok_def)
  have "b\<lparr>bf_nodes := [m], bf_spare := s, bf_total := bf_total b\<rparr> = b\<lparr>bf_nodes := [m], bf_spare := s\<rparr>" by (cases b) simp
  then have r: "buffer_expand_int b lens cnt = Some (iov_of (length []) [m], b\<lparr>bf_nodes := [] @ [m] @ [], bf_spare := s\<rparr>)"
    using assms(2,4) t n(1) f(3) by (simp add: buffer_expand_int_def buffer_node_insert_def upd_node_def m(1)) (simp add: m_def)
  show ?thesis
    by (rule expanded_behind [where A = "[]" and B = "[]" and seg = "[m]" and post = "[]", OF assms(1) _ _ _ _ _ _ _ _ _ _ _ _ n(3) r])
      (use assms m f in simp_all)
qed

lemma expand_int_ok:
  assumes b: "bcore b" "unused (bf_nodes b)" and lens: "0 < lens" "lens \<le> ALLOC_MAX" "2 \<le> cnt"
  shows "expanded b lens cnt (buffer_expand_int b lens cnt)"
proof (cases "bf_nodes b = []")
  case True
  then show ?thesis using expand_int_nil assms by blast
next
  case False
  have "twd_ok (bf_nodes b) (bf_twd b)" using b(1) by (simp add: bcore_def)
  from twd_ok_split [OF this False] obtain pre n post
    where s: "bf_nodes b = pre @ n # post" "bf_twd b = length pre" by metis
  from tail_realign_ok [OF b(1) s, of lens] obtain n' where n':
    "buffer_tail_realign b lens = b\<lparr>bf_nodes := pre @ n' # post\<rparr>" "node_ok n'"
    "bn_off n' = bn_off n" "node_data n' = node_data n" "bn_used n' = bn_used n" "bn_free n' = bn_free n" .
  let ?b = "b\<lparr>bf_nodes := pre @ n' # post\<rparr>"
  have "bcore ?b" using bcore_replace [OF b(1) s(1) n'(2,3)] .
  then have "expanded ?b lens cnt (expand_chain ?b lens cnt)"
    using b(2) s n' lens by (intro expand_chain_ok) simp_all
  then have "expanded b lens cnt (expand_chain ?b lens cnt)"
    by (rule expanded_replace) (simp_all add: content_def ledger_def s n')
  then show ?thesis using False lens(3) n'(1) by (simp add: buffer_expand_int_def)
qed

section \<open>Filling and committing\<close>

text \<open>The nodes after the caller has written \<open>data\<close> through the entries, and after the commit.\<close>

fun filled :: "bufnode list \<Rightarrow> bytes \<Rightarrow> bufnode list" where
  "filled [] data = []"
| "filled (n # ns) data =
     (let k = min (NODE_SPACE_LEN n) (length data)
      in n\<lparr>bn_buffer := mem_put (bn_buffer n) (NODE_SPACE_PTR n) (take k data)\<rparr> # filled ns (drop k data))"

fun grown :: "bufnode list \<Rightarrow> nat \<Rightarrow> bufnode list" where
  "grown [] L = []"
| "grown (n # ns) L =
     (let k = min (NODE_SPACE_LEN n) L in n\<lparr>bn_used := False, bn_off := bn_off n + k\<rparr> # grown ns (L - k))"

lemma length_filled [simp]: "length (filled ns d) = length ns"
  by (induction ns d rule: filled.induct) (auto simp: Let_def)

lemma length_grown [simp]: "length (grown ns L) = length ns"
  by (induction ns L rule: grown.induct) (auto simp: Let_def)

lemma iov_write_filled:
  "iov_write (iov_of (length pre) seg) data (pre @ seg @ post) = pre @ filled seg data @ post"
proof (induction seg arbitrary: pre data)
  case (Cons n seg)
  let ?k = "min (NODE_SPACE_LEN n) (length data)"
  let ?n = "n\<lparr>bn_buffer := mem_put (bn_buffer n) (NODE_SPACE_PTR n) (take ?k data)\<rparr>"
  have "iov_write (iov_of (length pre) (n # seg)) data (pre @ (n # seg) @ post) =
    iov_write (iov_of (length (pre @ [?n])) seg) (drop ?k data) ((pre @ [?n]) @ seg @ post)"
    by (simp add: RECORD_IOV_def Let_def list_update_append)
  with Cons.IH [of "pre @ [?n]" "drop ?k data"] show ?case by (simp add: Let_def)
qed simp

lemma NODE_SPACE_PTR_ok: "node_ok n \<Longrightarrow> NODE_SPACE_PTR n + NODE_SPACE_LEN n = buffer_lens n"
  by (simp add: NODE_SPACE_PTR_def NODE_SPACE_LEN_def node_ok_def)

lemma filled_node:
  assumes "node_ok n" "k = length d" "k \<le> NODE_SPACE_LEN n"
  defines "n' \<equiv> n\<lparr>bn_buffer := mem_put (bn_buffer n) (NODE_SPACE_PTR n) d\<rparr>"
  shows "buffer_lens n' = buffer_lens n" "node_data n' = node_data n"
    "node_data (n'\<lparr>bn_used := u, bn_off := bn_off n + k\<rparr>) = node_data n @ d"
    "0 < NODE_SPACE_LEN n \<Longrightarrow> node_ok (n'\<lparr>bn_used := u, bn_off := bn_off n + k\<rparr>)"
proof -
  have le: "NODE_SPACE_PTR n + k \<le> buffer_lens n" using NODE_SPACE_PTR_ok [OF assms(1)] assms(3) by simp
  show lens: "buffer_lens n' = buffer_lens n" using le assms(2) by (simp add: n'_def)
  show "node_data n' = node_data n"
    using le assms(2) by (simp add: node_data_def n'_def mem_get_put_apart NODE_SPACE_PTR_def)
  show "node_data (n'\<lparr>bn_used := u, bn_off := bn_off n + k\<rparr>) = node_data n @ d"
    using le assms(2) by (simp add: node_data_def n'_def NODE_SPACE_PTR_def mem_get_put_behind)
  show "node_ok (n'\<lparr>bn_used := u, bn_off := bn_off n + k\<rparr>)" if "0 < NODE_SPACE_LEN n"
  proof -
    have "\<not> bn_external n" using that assms(1) external_space by auto
    with assms(1) le lens show ?thesis by (auto simp: node_ok_def n'_def NODE_SPACE_PTR_def)
  qed
qed

text \<open>Filling leaves everything but the bytes in the free space.\<close>

lemma filled_offs: "map bn_off (filled ns d) = map bn_off ns"
  by (induction ns d rule: filled.induct) (auto simp: Let_def)

lemma filled_spaces: "list_all node_ok ns \<Longrightarrow> map NODE_SPACE_LEN (filled ns d) = map NODE_SPACE_LEN ns"
proof (induction ns d rule: filled.induct)
  case (2 n ns d)
  let ?k = "min (NODE_SPACE_LEN n) (length d)"
  have "?k = length (take ?k d)" "?k \<le> NODE_SPACE_LEN n" by auto
  from filled_node(1) [OF _ this] 2 show ?case by (simp add: Let_def NODE_SPACE_LEN_def)
qed simp

lemma iov_of_cong:
  "map NODE_SPACE_LEN ns = map NODE_SPACE_LEN ns' \<Longrightarrow> map NODE_SPACE_PTR ns = map NODE_SPACE_PTR ns' \<Longrightarrow>
    iov_of i ns = iov_of i ns'"
proof (induction ns arbitrary: i ns')
  case (Cons n ns)
  from Cons.prems obtain m ms where ns': "ns' = m # ms" by (cases ns') auto
  with Cons.prems have "iov_of (Suc i) ns = iov_of (Suc i) ms" by (intro Cons.IH) simp_all
  with Cons.prems ns' show ?case by (simp add: RECORD_IOV_def)
qed simp

lemma filled_ptrs: "map NODE_SPACE_PTR (filled ns d) = map NODE_SPACE_PTR ns"
  by (induction ns d rule: filled.induct) (auto simp: Let_def NODE_SPACE_PTR_def)

lemma filled_iov: "list_all node_ok ns \<Longrightarrow> iov_of i (filled ns d) = iov_of i ns"
  by (rule iov_of_cong [OF filled_spaces filled_ptrs])

text \<open>What the commit makes of the filled nodes.\<close>

definition committed :: "bufnode list \<Rightarrow> bytes \<Rightarrow> bufnode list" where
  "committed ns d = grown (filled ns d) (length d)"

lemma committed_simps:
  "committed [] d = []"
  "node_ok n \<Longrightarrow> committed (n # ns) d =
     (let k = min (NODE_SPACE_LEN n) (length d)
      in n\<lparr>bn_buffer := mem_put (bn_buffer n) (NODE_SPACE_PTR n) (take k d), bn_used := False,
           bn_off := bn_off n + k\<rparr> # committed ns (drop k d))"
proof -
  show "committed [] d = []" by (simp add: committed_def)
  assume n: "node_ok n"
  let ?k = "min (NODE_SPACE_LEN n) (length d)"
  have "?k = length (take ?k d)" "?k \<le> NODE_SPACE_LEN n" by auto
  note f = filled_node(1) [OF n this]
  have "NODE_SPACE_LEN (n\<lparr>bn_buffer := mem_put (bn_buffer n) (NODE_SPACE_PTR n) (take ?k d)\<rparr>) = NODE_SPACE_LEN n"
    using f by (simp add: NODE_SPACE_LEN_def)
  then show "committed (n # ns) d =
     (let k = min (NODE_SPACE_LEN n) (length d)
      in n\<lparr>bn_buffer := mem_put (bn_buffer n) (NODE_SPACE_PTR n) (take k d), bn_used := False,
           bn_off := bn_off n + k\<rparr> # committed ns (drop k d))"
    by (simp add: committed_def Let_def)
qed

lemma committed_ok:
  assumes "list_all node_ok ns" "list_all (\<lambda>n. 0 < NODE_SPACE_LEN n) ns" "all_empty (tl ns)" "length d \<le> space ns"
  shows "list_all node_ok (committed ns d) \<and> unused (committed ns d) \<and> frees (committed ns d) = frees ns \<and>
    nodes_data (committed ns d) = nodes_data ns @ d \<and> nodes_len (committed ns d) = nodes_len ns + length d"
  using assms
proof (induction ns arbitrary: d)
  case Nil
  then show ?case by (simp add: committed_simps)
next
  case (Cons n ns)
  define k where "k = min (NODE_SPACE_LEN n) (length d)"
  have k: "k = length (take k d)" "k \<le> NODE_SPACE_LEN n" by (auto simp: k_def)
  have n: "node_ok n" "0 < NODE_SPACE_LEN n" using Cons.prems by simp_all
  note f = filled_node(3,4) [OF n(1) k, of False]
  have e: "all_empty ns" using Cons.prems(3) by simp
  have IH: "list_all node_ok (committed ns (drop k d)) \<and> unused (committed ns (drop k d)) \<and>
    frees (committed ns (drop k d)) = frees ns \<and>
    nodes_data (committed ns (drop k d)) = nodes_data ns @ drop k d \<and>
    nodes_len (committed ns (drop k d)) = nodes_len ns + length (drop k d)"
    by (rule Cons.IH) (use Cons.prems e in \<open>cases ns; auto simp: k_def\<close>)+
  have "committed (n # ns) d = n\<lparr>bn_buffer := mem_put (bn_buffer n) (NODE_SPACE_PTR n) (take k d), bn_used := False,
           bn_off := bn_off n + k\<rparr> # committed ns (drop k d)"
    using committed_simps(2) [OF n(1)] by (simp add: Let_def k_def)
  with IH f n k all_empty_data [OF e] show ?case by (simp split: option.split)
qed

lemma committed_Nil: "list_all node_ok ns \<Longrightarrow> map bn_off (committed ns []) = map bn_off ns"
  by (induction ns) (simp_all add: committed_simps Let_def)

text \<open>The nodes are filled one after the other.\<close>

lemma committed_split:
  assumes "list_all node_ok ns" "list_all (\<lambda>n. 0 < NODE_SPACE_LEN n) ns" "all_empty (tl ns)"
  obtains C D where "committed ns d = C @ D" "list_all (\<lambda>n. bn_off n \<noteq> 0) C" "all_empty D"
    "C = [] \<Longrightarrow> ns \<noteq> [] \<Longrightarrow> bn_off (hd ns) = 0 \<and> d = []"
    "ns \<noteq> [] \<Longrightarrow> d \<noteq> [] \<Longrightarrow> C \<noteq> []"
  using assms
proof (induction ns arbitrary: d thesis)
  case Nil
  then show ?case using Nil.prems(1) [of "[]" "[]"] by (simp add: committed_simps)
next
  case (Cons n ns)
  define k where "k = min (NODE_SPACE_LEN n) (length d)"
  have n: "node_ok n" "0 < NODE_SPACE_LEN n" using Cons.prems by simp_all
  have e: "all_empty ns" using Cons.prems(4) by simp
  define n' where "n' = n\<lparr>bn_buffer := mem_put (bn_buffer n) (NODE_SPACE_PTR n) (take k d), bn_used := False,
           bn_off := bn_off n + k\<rparr>"
  have step: "committed (n # ns) d = n' # committed ns (drop k d)"
    using committed_simps(2) [OF n(1)] by (simp add: Let_def k_def n'_def)
  have none: "all_empty (committed ns (drop k d))" if "drop k d = []"
  proof -
    have "map bn_off (committed ns (drop k d)) = map bn_off ns"
      unfolding that by (rule committed_Nil) (use Cons.prems in simp)
    then have "\<forall>x\<in>set (map bn_off (committed ns (drop k d))). x = 0"
      using e by (auto simp: all_empty_def list_all_iff)
    then show ?thesis by (simp add: all_empty_def list_all_iff)
  qed
  show ?case
  proof (cases "d = []")
    case True
    then have k0: "k = 0" by (simp add: k_def)
    show ?thesis
    proof (cases "bn_off n = 0")
      case z: True
      show ?thesis
        by (rule Cons.prems(1) [of "[]" "n' # committed ns (drop k d)"])
          (use step none True z k0 in \<open>simp_all add: n'_def\<close>)
    next
      case False
      show ?thesis
        by (rule Cons.prems(1) [of "[n']" "committed ns (drop k d)"])
          (use step none True False k0 in \<open>simp_all add: n'_def\<close>)
    qed
  next
    case False
    then have kp: "0 < k" using n(2) by (simp add: k_def)
    have p: "list_all node_ok ns" "list_all (\<lambda>n. 0 < NODE_SPACE_LEN n) ns" "all_empty (tl ns)"
      using Cons.prems(2-4) e by (cases ns; simp)+
    obtain C D where C: "committed ns (drop k d) = C @ D" "list_all (\<lambda>n. bn_off n \<noteq> 0) C" "all_empty D"
      by (rule Cons.IH [where d = "drop k d", OF _ p], rule that)
    have "committed (n # ns) d = (n' # C) @ D" using step C(1) by simp
    moreover have "bn_off n' \<noteq> 0" using kp by (simp add: n'_def)
    ultimately show ?thesis
      using Cons.prems(1) [of "n' # C" D] C(2,3) by simp
  qed
qed

text \<open>The commit's own walks, on the entries handed out.\<close>

lemma commit_fill_grown:
  "commit_fill (iov_of i seg) i (seg @ post) L t =
    (grown seg L @ post, min L (space seg), L - space seg, last_data (grown seg L) i t)"
proof (induction seg arbitrary: i L t)
  case (Cons n seg)
  have "(if NODE_SPACE_LEN n \<le> L then NODE_SPACE_LEN n else L) = min (NODE_SPACE_LEN n) L" by simp
  with Cons show ?case by (simp add: RECORD_IOV_def Let_def) linarith
qed simp

lemma commit_fill_trim: "L \<le> M \<Longrightarrow> commit_fill (iov_trim iv M) i ns L t = commit_fill iv i ns L t"
proof (induction iv arbitrary: i ns L M t)
  case (Cons v iv)
  show ?case
  proof (cases ns)
    case (Cons n ns')
    show ?thesis
    proof (cases "M \<noteq> 0 \<and> iv_len v \<le> M")
      case True
      have "L - (if iv_len v \<le> L then iv_len v else L) \<le> M - iv_len v" using Cons.prems by auto
      with True Cons Cons.IH [OF this] show ?thesis by (simp add: Let_def)
    next
      case False
      with Cons Cons.prems show ?thesis by (cases "iv_len v \<le> M") (auto simp: Let_def)
    qed
  qed simp
qed simp

lemma iov_trim_simps [simp]:
  "length (iov_trim iv M) = length iv" "iov_trim iv M = [] \<longleftrightarrow> iv = []"
  by (induction iv M rule: iov_trim.induct) auto

lemma iov_trim_hd: "iv \<noteq> [] \<Longrightarrow> iov_matches (hd (iov_trim iv M)) i n = iov_matches (hd iv) i n"
  by (cases iv) (auto simp: iov_matches_def)

lemma iov_trim_valid: "iov_valid (iov_trim iv M) i ns = iov_valid iv i ns"
proof (induction iv arbitrary: M i ns)
  case (Cons v iv)
  then show ?case by (cases ns) (auto simp: iov_matches_def)
qed simp

lemma iov_trim_total: "iov_trim iv (iov_total iv) = iv"
  by (induction iv) (auto simp: iov_total_def)

lemma iov_of_valid: "iov_valid (iov_of i seg) i (seg @ post)"
  by (induction seg arbitrary: i) (auto simp: iov_matches_def RECORD_IOV_def)

lemma last_data_append: "last_data (xs @ ys) i t = last_data ys (i + length xs) (last_data xs i t)"
  by (induction xs arbitrary: i t) auto

lemma last_data_nonempty: "list_all (\<lambda>n. bn_off n \<noteq> 0) xs \<Longrightarrow> xs \<noteq> [] \<Longrightarrow> last_data xs i t = i + length xs - 1"
proof (induction xs arbitrary: i t)
  case (Cons n xs)
  then show ?case by (cases xs) auto
qed simp

lemma last_data_empty: "all_empty xs \<Longrightarrow> last_data xs i t = t"
  by (induction xs arbitrary: i t) auto

lemma handed_twd:
  assumes "handed_out pre seg post" "twd_ok (pre @ seg @ post) t"
  shows "t = (if bn_off (hd seg) \<noteq> 0 then length pre else length pre - 1)"
proof -
  obtain n seg' where seg: "seg = n # seg'" using assms(1) by (cases seg) (auto simp: handed_out_def)
  show ?thesis
  proof (cases "bn_off n = 0")
    case True
    with assms seg twd_ok_unique [of pre "seg @ post" t] show ?thesis by (simp add: handed_out_def)
  next
    case False
    with assms seg twd_ok_unique [of "pre @ [n]" "seg' @ post" t] show ?thesis by (simp add: handed_out_def)
  qed
qed

text \<open>The state after the commit keeps the invariant and has the bytes appended.\<close>

lemma commit_state:
  assumes h: "handed_out pre seg post" and b: "bcore b" "bf_nodes b = pre @ seg @ post"
    and d: "length d \<le> space seg"
  defines "b' \<equiv> b\<lparr>bf_nodes := pre @ committed seg d @ post,
      bf_twd := last_data (committed seg d) (length pre) (bf_twd b), bf_total := bf_total b + length d\<rparr>"
  shows "bcore b'" "content b' = content b @ d" "ledger b' = ledger b" "unused (bf_nodes b')"
proof -
  obtain n seg' where seg: "seg = n # seg'" using h by (cases seg) (auto simp: handed_out_def)
  have ok: "list_all node_ok seg" "list_all node_ok pre" "list_all node_ok post"
    using b by (simp_all add: bcore_def)
  have sp: "list_all (\<lambda>n. 0 < NODE_SPACE_LEN n) seg" and e: "all_empty (tl seg)" "all_empty post"
    and pre: "list_all (\<lambda>n. bn_off n \<noteq> 0) pre" and u: "unused pre" "unused post"
    using h by (simp_all add: handed_out_def)
  have t: "bf_twd b = (if bn_off (hd seg) \<noteq> 0 then length pre else length pre - 1)"
    using handed_twd [OF h] b by (simp add: bcore_def)
  note c = committed_ok [OF ok(1) sp e(1) d]
  obtain C D where CD: "committed seg d = C @ D" "list_all (\<lambda>n. bn_off n \<noteq> 0) C" "all_empty D"
    "C = [] \<Longrightarrow> bn_off (hd seg) = 0"
    using committed_split [OF ok(1) sp e(1), of d] seg by (metis list.distinct(1))
  have ld: "last_data (committed seg d) (length pre) (bf_twd b) = length (pre @ C) - 1"
  proof (cases "C = []")
    case True
    with CD t show ?thesis by (simp add: last_data_empty)
  next
    case False
    with CD show ?thesis by (simp add: last_data_append last_data_nonempty last_data_empty)
  qed
  have "twd_ok (pre @ committed seg d @ post) (length (pre @ C) - 1)"
    unfolding twd_ok_AB using CD pre e(2) by (intro exI [of _ "pre @ C"] exI [of _ "D @ post"]) simp
  moreover have "hint_ok (pre @ committed seg d @ post) (bf_hint b) (bf_hint_base b)"
  proof (cases "bn_off n = 0")
    case True
    show ?thesis
      by (rule hint_ok_keep [of pre "seg @ post"]) (use b True e seg in \<open>simp_all add: bcore_def\<close>)
  next
    case False
    obtain m ms where m: "committed seg d = m # ms" "bn_off m \<noteq> 0"
      using committed_simps(2) [of n seg' d] seg ok(1) False by (simp add: Let_def)
    have "hint_ok (pre @ m # ms @ post) (bf_hint b) (bf_hint_base b)"
      by (rule hint_ok_grow [of pre n "seg' @ post"]) (use b e seg m in \<open>simp_all add: bcore_def\<close>)
    with m show ?thesis by simp
  qed
  ultimately show "bcore b'"
    using b c ok by (simp add: b'_def bcore_def ld)
  show "content b' = content b @ d"
    using c b(2) all_empty_data [OF e(2)] by (simp add: b'_def content_def)
  show "ledger b' = ledger b" using c b(2) by (simp add: b'_def ledger_def)
  show "unused (bf_nodes b')" using c u by (simp add: b'_def)
qed

text \<open>Both branches of \<open>_buffer_commit_expand\<close> reach that state.\<close>

lemma commit_single:
  assumes h: "handed_out pre [n] []" and b: "bcore b" "bf_nodes b = pre @ [n]"
    and d: "length d \<le> NODE_SPACE_LEN n" "length d \<le> M"
  shows "buffer_commit_int (b\<lparr>bf_nodes := pre @ filled [n] d\<rparr>) (length d) (iov_trim (iov_of (length pre) [n]) M) =
    Some (length d, b\<lparr>bf_nodes := pre @ committed [n] d,
      bf_twd := last_data (committed [n] d) (length pre) (bf_twd b), bf_total := bf_total b + length d\<rparr>)"
proof -
  define m where "m = n\<lparr>bn_buffer := mem_put (bn_buffer n) (NODE_SPACE_PTR n) d\<rparr>"
  define m' where "m' = m\<lparr>bn_used := False, bn_off := bn_off m + length d\<rparr>"
  have ok: "node_ok n" using b by (simp add: bcore_def)
  have k: "min (NODE_SPACE_LEN n) (length d) = length d" using d by simp
  have f: "filled [n] d = [m]" using k by (simp add: m_def)
  have sp: "NODE_SPACE_LEN m = NODE_SPACE_LEN n"
    using filled_spaces [of "[n]" d] ok f by simp
  have c: "committed [n] d = [m']" using f sp d by (simp add: committed_def m'_def)
  have match: "iov_matches (hd (iov_trim (iov_of (length pre) [n]) M)) (length pre) m"
    by (subst iov_trim_hd) (simp_all add: iov_matches_def RECORD_IOV_def m_def NODE_SPACE_PTR_def)
  have t: "bf_twd b = (if bn_off n \<noteq> 0 then length pre else length pre - 1)"
    using handed_twd [OF h, of "bf_twd b"] b by (simp add: bcore_def)
  have off: "bn_off m' = bn_off n + length d" by (simp add: m'_def m_def)
  let ?b1 = "b\<lparr>bf_nodes := pre @ [m'], bf_total := bf_total b + length d\<rparr>"
  have "buffer_commit_int (b\<lparr>bf_nodes := pre @ [m]\<rparr>) (length d) (iov_trim (iov_of (length pre) [n]) M) =
      Some (length d, if length d \<noteq> 0 then buffer_last_with_data ?b1 else ?b1)"
  proof -
    define iv where "iv = iov_trim (iov_of (length pre) [n]) M"
    have "iv \<noteq> []" "length iv = 1" "iov_matches (hd iv) (length pre) m"
      using match by (simp_all only: iv_def iov_trim_simps) simp_all
    then have "buffer_commit_int (b\<lparr>bf_nodes := pre @ [m]\<rparr>) (length d) iv =
        Some (length d, if length d \<noteq> 0 then buffer_last_with_data ?b1 else ?b1)"
      using sp d by (simp add: buffer_commit_int_def upd_node_def m'_def Let_def)
    then show ?thesis by (simp only: iv_def)
  qed
  moreover have "(if length d \<noteq> 0 then buffer_last_with_data ?b1 else ?b1) =
      ?b1\<lparr>bf_twd := last_data [m'] (length pre) (bf_twd b)\<rparr>"
  proof (cases "d = []")
    case True
    with t off show ?thesis by (cases b) auto
  next
    case False
    show ?thesis
    proof (cases "bn_off n = 0 \<and> pre \<noteq> []")
      case True
      then have "drop (Suc (bf_twd b)) (pre @ [m']) = [m']" "Suc (bf_twd b) = length pre" using t by auto
      with False off show ?thesis by (simp add: buffer_last_with_data_def)
    next
      case f: False
      then have "bf_twd b = length pre" using t by auto
      with False off show ?thesis by (simp add: buffer_last_with_data_def)
    qed
  qed
  ultimately show ?thesis unfolding f c by simp
qed

lemma commit_many:
  assumes h: "handed_out pre seg post" and b: "bcore b" "bf_nodes b = pre @ seg @ post"
    and d: "length d \<le> space seg" "length d \<le> M" and many: "length seg = 1 \<Longrightarrow> post \<noteq> []"
  shows "buffer_commit_int (b\<lparr>bf_nodes := pre @ filled seg d @ post\<rparr>) (length d) (iov_trim (iov_of (length pre) seg) M) =
    Some (length d, b\<lparr>bf_nodes := pre @ committed seg d @ post,
      bf_twd := last_data (committed seg d) (length pre) (bf_twd b), bf_total := bf_total b + length d\<rparr>)"
proof -
  let ?iv = "iov_trim (iov_of (length pre) seg) M" and ?ns = "pre @ filled seg d @ post"
  obtain n seg' where seg: "seg = n # seg'" using h by (cases seg) (auto simp: handed_out_def)
  obtain m ms where m: "filled seg d = m # ms" unfolding seg by (simp add: Let_def)
  have ok: "list_all node_ok seg" using b by (simp add: bcore_def)
  have fs: "map NODE_SPACE_LEN (filled seg d) = map NODE_SPACE_LEN seg" by (rule filled_spaces [OF ok])
  have "space (filled seg d) = space seg" unfolding space_def fs ..
  note fill = commit_fill_grown [of "length pre" "filled seg d" post "length d" "bf_twd b",
      unfolded this filled_iov [OF ok], folded committed_def]
  have iv: "?iv \<noteq> []" "length ?iv = length seg" by (auto simp: seg)
  have branch: "\<not> (length ?iv = 1 \<and> ?ns \<noteq> [] \<and> iov_matches (hd ?iv) (length ?ns - 1) (?ns ! (length ?ns - 1)))"
  proof
    assume a: "length ?iv = 1 \<and> ?ns \<noteq> [] \<and> iov_matches (hd ?iv) (length ?ns - 1) (?ns ! (length ?ns - 1))"
    then have "iov_matches (hd (iov_of (length pre) seg)) (length ?ns - 1) (?ns ! (length ?ns - 1))"
      by (metis iov_trim_hd iov_trim_simps(2) iv(1))
    then have "length ?ns - 1 = length pre" by (simp add: seg iov_matches_def RECORD_IOV_def)
    with a iv many seg show False by auto
  qed
  have t: "bf_twd b = (if bn_off n \<noteq> 0 then length pre else length pre - 1)"
    using handed_twd [OF h, of "bf_twd b"] b seg by (simp add: bcore_def)
  have "0 < NODE_SPACE_LEN m" using fs m h seg by (simp add: handed_out_def)
  moreover have "pre \<noteq> [] \<Longrightarrow> bn_off n = 0 \<Longrightarrow> NODE_SPACE_LEN (last pre) = 0"
    using h seg by (simp add: handed_out_def)
  ultimately have first: "(if NODE_SPACE_LEN (?ns ! bf_twd b) = 0 then Suc (bf_twd b) else bf_twd b) = length pre"
    using t m by (cases pre rule: rev_cases) (auto simp: nth_append)
  have lt: "bf_twd b < length ?ns" using t m by auto
  have valid: "iov_valid ?iv (length pre) (filled seg d @ post)"
    using iov_of_valid [of "length pre" "filled seg d" post] filled_iov [OF ok] by (simp add: iov_trim_valid)
  have cf: "commit_fill ?iv (length pre) (filled seg d @ post) (length d) (bf_twd b) =
      (committed seg d @ post, length d, 0, last_data (committed seg d) (length pre) (bf_twd b))"
    unfolding commit_fill_trim [OF d(2)] fill using d(1) by simp
  have ne: "seg \<noteq> []" using seg by simp
  show ?thesis
    unfolding buffer_commit_int_def Let_def
    using branch iv ne first lt valid cf by (auto simp del: iov_trim_simps(1))
qed

lemma commit_ok:
  assumes h: "handed_out pre seg post" and b: "bcore b" "bf_nodes b = pre @ seg @ post"
    and d: "length d \<le> space seg" "length d \<le> M"
  obtains b' where
    "buffer_commit_int (b\<lparr>bf_nodes := iov_write (iov_of (length pre) seg) d (bf_nodes b)\<rparr>) (length d)
       (iov_trim (iov_of (length pre) seg) M) = Some (length d, b')"
    "bcore b'" "content b' = content b @ d" "ledger b' = ledger b" "unused (bf_nodes b')"
    "bf_freeze_read b' = bf_freeze_read b" "bf_freeze_write b' = bf_freeze_write b" "bf_pinned b' = bf_pinned b"
    "bf_want b' = bf_want b"
proof -
  let ?b' = "b\<lparr>bf_nodes := pre @ committed seg d @ post,
      bf_twd := last_data (committed seg d) (length pre) (bf_twd b), bf_total := bf_total b + length d\<rparr>"
  have "buffer_commit_int (b\<lparr>bf_nodes := pre @ filled seg d @ post\<rparr>) (length d) (iov_trim (iov_of (length pre) seg) M) =
    Some (length d, ?b')"
  proof (cases "length seg = 1 \<and> post = []")
    case True
    then obtain n where "seg = [n]" "post = []" by (cases seg) auto
    with commit_single [of pre n b d M] h b d show ?thesis by simp
  next
    case False
    then show ?thesis using commit_many [OF h b d] by blast
  qed
  with that [of ?b'] commit_state [OF h b d(1)] show thesis by (simp add: b(2) iov_write_filled)
qed

section \<open>The public write operations\<close>

lemma binv_init: "binv buffer_init" "content buffer_init = []" "ledger buffer_init = []"
  by (simp_all add: buffer_init_def binv_def bcore_def idle_def twd_ok_def hint_ok_def spare_ok_def
      content_def ledger_def)

text \<open>Expansion, a write of the caller's bytes and the commit.\<close>

lemma expand_write_commit_ok:
  assumes b: "binv b" and lens: "0 < lens" "lens \<le> ALLOC_MAX" "2 \<le> cnt"
  shows "\<exists>iv b1. buffer_expand b lens cnt = Some (iv, b1) \<and> lens \<le> iov_total iv \<and> length iv \<le> cnt \<and>
    (\<forall>d. length d \<le> iov_total iv \<longrightarrow>
      (\<exists>b2. buffer_commit_expand (b1\<lparr>bf_nodes := iov_write iv d (bf_nodes b1)\<rparr>) (length d) iv = Some b2 \<and>
         binv b2 \<and> content b2 = content b @ d \<and> ledger b2 = ledger b))"
proof -
  let ?b = "b\<lparr>bf_freeze_write := True\<rparr>"
  have core: "bcore ?b" "unused (bf_nodes ?b)" using b by (simp_all add: binv_def bcore_def idle_def)
  have idl: "\<not> bf_freeze_read b" "\<not> bf_freeze_write b" "bf_pinned b = 0" using b by (simp_all add: binv_def idle_def)
  from expand_int_ok [OF core lens] obtain pre seg post s where e:
    "buffer_expand_int ?b lens cnt = Some (iov_of (length pre) seg, ?b\<lparr>bf_nodes := pre @ seg @ post, bf_spare := s\<rparr>)"
    "handed_out pre seg post" "lens \<le> space seg" "length seg \<le> cnt"
    "bcore (?b\<lparr>bf_nodes := pre @ seg @ post, bf_spare := s\<rparr>)"
    "content (?b\<lparr>bf_nodes := pre @ seg @ post, bf_spare := s\<rparr>) = content ?b"
    "ledger (?b\<lparr>bf_nodes := pre @ seg @ post, bf_spare := s\<rparr>) = ledger ?b"
    unfolding expanded_def by blast
  let ?iv = "iov_of (length pre) seg" and ?b1 = "?b\<lparr>bf_nodes := pre @ seg @ post, bf_spare := s\<rparr>"
  have "\<exists>b2. buffer_commit_expand (?b1\<lparr>bf_nodes := iov_write ?iv d (bf_nodes ?b1)\<rparr>) (length d) ?iv = Some b2 \<and>
      binv b2 \<and> content b2 = content b @ d \<and> ledger b2 = ledger b"
    if d: "length d \<le> iov_total ?iv" for d
  proof -
    have d': "length d \<le> space seg" "length d \<le> iov_total ?iv" using d by (simp_all add: iov_total_of)
    obtain b' where c: "buffer_commit_int (?b1\<lparr>bf_nodes := iov_write ?iv d (bf_nodes ?b1)\<rparr>) (length d) ?iv = Some (length d, b')"
      "bcore b'" "content b' = content ?b1 @ d" "ledger b' = ledger ?b1" "unused (bf_nodes b')"
      "bf_freeze_read b' = bf_freeze_read ?b1" "bf_pinned b' = bf_pinned ?b1"
      by (rule commit_ok [OF e(2,5) _ d', unfolded iov_trim_total]) simp_all
    show ?thesis
    proof (intro exI conjI)
      show "buffer_commit_expand (?b1\<lparr>bf_nodes := iov_write ?iv d (bf_nodes ?b1)\<rparr>) (length d) ?iv =
          Some (b'\<lparr>bf_freeze_write := False\<rparr>)"
        using c(1) by (simp add: buffer_commit_expand_def)
      show "binv (b'\<lparr>bf_freeze_write := False\<rparr>)"
        using c idl by (simp add: binv_def idle_def bcore_def)
      show "content (b'\<lparr>bf_freeze_write := False\<rparr>) = content b @ d"
        using c(3) e(6) by (simp add: content_def)
      show "ledger (b'\<lparr>bf_freeze_write := False\<rparr>) = ledger b"
        using c(4) e(7) by (simp add: ledger_def)
    qed
  qed
  then show ?thesis
    using e(1,3,4) idl
    by (intro exI [of _ ?iv] exI [of _ ?b1]) (simp add: buffer_expand_def iov_total_of)
qed

lemma append_slow_ok:
  assumes b: "binv b" and d: "0 < length d" "length d \<le> ALLOC_MAX"
  shows "\<exists>b'. buffer_append_slow b d = Some b' \<and> binv b' \<and> content b' = content b @ d \<and> ledger b' = ledger b \<and>
    bf_want b' = bf_want b"
proof -
  have core: "bcore b" "unused (bf_nodes b)" using b by (simp_all add: binv_def idle_def)
  have "2 \<le> MAX_EXPAND_NIOV" by (simp add: MAX_EXPAND_NIOV_def)
  from expand_int_ok [OF core d this] obtain pre seg post s where e:
    "buffer_expand_int b (length d) MAX_EXPAND_NIOV =
       Some (iov_of (length pre) seg, b\<lparr>bf_nodes := pre @ seg @ post, bf_spare := s\<rparr>)"
    "handed_out pre seg post" "length d \<le> space seg"
    "bcore (b\<lparr>bf_nodes := pre @ seg @ post, bf_spare := s\<rparr>)"
    "content (b\<lparr>bf_nodes := pre @ seg @ post, bf_spare := s\<rparr>) = content b"
    "ledger (b\<lparr>bf_nodes := pre @ seg @ post, bf_spare := s\<rparr>) = ledger b"
    unfolding expanded_def by blast
  let ?iv = "iov_of (length pre) seg" and ?b1 = "b\<lparr>bf_nodes := pre @ seg @ post, bf_spare := s\<rparr>"
  obtain b' where c:
    "buffer_commit_int (?b1\<lparr>bf_nodes := iov_write ?iv d (bf_nodes ?b1)\<rparr>) (length d) (iov_trim ?iv (length d)) =
       Some (length d, b')"
    "bcore b'" "content b' = content ?b1 @ d" "ledger b' = ledger ?b1" "unused (bf_nodes b')"
    "bf_freeze_read b' = bf_freeze_read ?b1" "bf_freeze_write b' = bf_freeze_write ?b1" "bf_pinned b' = bf_pinned ?b1"
    "bf_want b' = bf_want ?b1"
    by (rule commit_ok [OF e(2,4) _ e(3) order_refl]) simp_all
  have "binv b'" using c b by (simp add: binv_def idle_def)
  moreover have "buffer_append_slow b d = Some b'"
    using e(1) c(1) by (simp add: buffer_append_slow_def)
  ultimately show ?thesis using c e by auto
qed

text \<open>Writing into one node's free space, when it is the last node.\<close>

lemma append_last:
  assumes b: "binv b" "bf_nodes b = pre @ [n]" "twd_ok (pre @ [n]) (length pre)"
    and d: "0 < length d" "length d \<le> NODE_SPACE_LEN n" "pre \<noteq> [] \<Longrightarrow> bn_off n \<noteq> 0"
  shows "binv (b\<lparr>bf_nodes := pre @ [write_node d n], bf_twd := length pre, bf_total := bf_total b + length d\<rparr>)
       \<and> content (b\<lparr>bf_nodes := pre @ [write_node d n], bf_twd := length pre, bf_total := bf_total b + length d\<rparr>)
           = content b @ d
       \<and> ledger (b\<lparr>bf_nodes := pre @ [write_node d n], bf_twd := length pre, bf_total := bf_total b + length d\<rparr>)
           = ledger b"
proof -
  have core: "bcore b" "bf_nodes b = pre @ [n] @ []" and u: "unused pre" "\<not> bn_used n" and ok: "node_ok n"
    using b by (simp_all add: binv_def idle_def bcore_def)
  have "list_all (\<lambda>n. bn_off n \<noteq> 0) pre" using twd_ok_iff [of pre n "[]"] b(3) by simp
  moreover have "0 < NODE_SPACE_LEN n" using d(1,2) by linarith
  ultimately have h: "handed_out pre [n] []" using d(3) u by (auto simp: handed_out_def)
  have k: "min (NODE_SPACE_LEN n) (length d) = length d" using d by simp
  have c: "committed [n] d = [write_node d n]"
    using u ok k by (cases n) (simp add: committed_simps write_node_def)
  have "last_data [write_node d n] (length pre) (bf_twd b) = length pre" using d by (simp add: write_node_def)
  with commit_state [OF h core, of d] c d b(1) show ?thesis
    by (simp add: binv_def idle_def)
qed

lemma append_ok:
  assumes b: "binv b" and d: "length d \<le> ALLOC_MAX"
  shows "\<exists>b'. buffer_append b d = Some b' \<and> binv b' \<and> content b' = content b @ d \<and> ledger b' = ledger b"
proof (cases "d = []")
  case True
  with b show ?thesis by (intro exI [of _ b]) (simp add: buffer_append_def binv_def idle_def)
next
  case ne: False
  then have pos: "0 < length d" by simp
  have idl: "\<not> bf_freeze_read b" "\<not> bf_freeze_write b" using b by (simp_all add: binv_def idle_def)
  show ?thesis
  proof (cases "bf_nodes b = []")
    case True
    let ?sz = "if length d < MAX_RECV_SIZE then MAX_RECV_SIZE else length d"
    have core: "bcore b" and sp: "spare_ok (bf_spare b)" using b by (simp_all add: binv_def bcore_def)
    have "?sz \<le> ALLOC_MAX" using d by (simp add: ALLOC_MAX_def MAX_RECV_SIZE_def BUFNODE_SIZE_def)
    from buffer_node_new_ok [OF this sp] obtain n s
      where n: "buffer_node_new ?sz b = Some (n, b\<lparr>bf_spare := s\<rparr>)" "fresh_node ?sz n" "spare_ok s" by blast
    note f = fresh_nodeD [OF n(2)]
    let ?b1 = "b\<lparr>bf_nodes := [n], bf_spare := s\<rparr>"
    have b1: "bcore ?b1" "content ?b1 = content b" "ledger ?b1 = ledger b"
      using bcore_AB [OF core, of "[]" "[]" "[]" "[n]" s] True f n(3) by simp_all
    have "binv ?b1" using b b1 f by (simp add: binv_def idle_def)
    moreover have "twd_ok ([] @ [n]) (length [])" by (simp add: twd_ok_def)
    moreover have "length d \<le> NODE_SPACE_LEN n" using f by (simp add: NODE_SPACE_LEN_def split: if_splits)
    ultimately have a: "binv (?b1\<lparr>bf_nodes := [write_node d n], bf_twd := 0, bf_total := bf_total b + length d\<rparr>) \<and>
        content (?b1\<lparr>bf_nodes := [write_node d n], bf_twd := 0, bf_total := bf_total b + length d\<rparr>) = content b @ d \<and>
        ledger (?b1\<lparr>bf_nodes := [write_node d n], bf_twd := 0, bf_total := bf_total b + length d\<rparr>) = ledger b"
      using append_last [of ?b1 "[]" n d] pos b1 by simp
    have w: "n\<lparr>bn_buffer := mem_put (bn_buffer n) 0 d, bn_off := length d\<rparr> = write_node d n"
      using f by (simp add: write_node_def NODE_SPACE_PTR_def)
    have "buffer_append b d = Some (?b1\<lparr>bf_nodes := [write_node d n], bf_twd := 0, bf_total := bf_total b + length d\<rparr>)"
      using True ne idl n(1) by (simp add: buffer_append_def w Let_def)
    with a show ?thesis by blast
  next
    case False
    then obtain pre n where nodes: "bf_nodes b = pre @ [n]" by (metis rev_exhaust)
    show ?thesis
    proof (cases "bn_off n \<noteq> 0 \<and> \<not> bn_used n")
      case slow: False
      have "buffer_append b d = buffer_append_slow b d"
        using slow ne idl nodes by (auto simp: buffer_append_def Let_def)
      with append_slow_ok [OF b pos d] show ?thesis by auto
    next
      case fast: True
      have t: "twd_ok (pre @ [n]) (bf_twd b)" using b nodes by (simp add: binv_def bcore_def)
      then have twd: "bf_twd b = length pre"
      proof -
        from t fast have "\<not> bf_twd b < length pre" unfolding twd_ok_def
          by (metis length_append_singleton lessI nth_append_length)
        with t show ?thesis by (simp add: twd_ok_def)
      qed
      define m where "m = (if NODE_SPACE_LEN n < length d \<and> 0 < bn_misalign n \<and> buffer_should_realign n (length d)
        then buffer_align n else n)"
      have ok: "node_ok n" using b nodes by (simp add: binv_def bcore_def)
      have m: "node_ok m" "bn_off m = bn_off n" "node_data m = node_data n" "bn_used m = bn_used n" "bn_free m = bn_free n"
        using buffer_align_ok [OF ok] ok by (auto simp: m_def buffer_should_realign_def)
      let ?b1 = "b\<lparr>bf_nodes := pre @ [m]\<rparr>"
      have b1: "bcore ?b1" using bcore_replace [of b pre n "[]" m] b nodes m by (simp add: binv_def)
      have b1': "binv ?b1" "content ?b1 = content b" "ledger ?b1 = ledger b"
        using b b1 nodes m by (simp_all add: binv_def idle_def content_def ledger_def)
      have step: "buffer_append b d =
        (if length d \<le> NODE_SPACE_LEN m
         then Some (?b1\<lparr>bf_nodes := pre @ [write_node d m], bf_total := bf_total b + length d\<rparr>)
         else buffer_append_slow ?b1 d)"
        using fast ne idl nodes by (simp add: buffer_append_def Let_def m_def)
      show ?thesis
      proof (cases "length d \<le> NODE_SPACE_LEN m")
        case True
        have "twd_ok (pre @ [m]) (length pre)" using b1 twd by (simp add: bcore_def)
        note a = append_last [OF b1'(1) _ this pos True]
        have "b\<lparr>bf_nodes := x, bf_twd := length pre, bf_total := y\<rparr> = b\<lparr>bf_nodes := x, bf_total := y\<rparr>" for x y
          using twd by (cases b) simp
        with a m(2) fast step True b1' show ?thesis by simp
      next
        case False
        with append_slow_ok [OF b1'(1) pos d] step b1' show ?thesis by auto
      qed
    qed
  qed
qed

lemma skip_data_split:
  assumes "list_all (\<lambda>n. bn_off n \<noteq> 0) A" "all_empty B"
  shows "skip_data (A @ B) i = i + length A"
  using assms
proof (induction A arbitrary: i)
  case Nil
  then show ?case by (cases B) auto
qed auto

lemma external_ok:
  assumes b: "binv b"
  shows "\<exists>b'. buffer_external b d cb = Some b' \<and> binv b' \<and> content b' = content b @ d \<and>
    (d \<noteq> [] \<longrightarrow> ledger b' = ledger b @ (case cb of None \<Rightarrow> [] | Some c \<Rightarrow> [c]))"
proof (cases "d = []")
  case True
  have "content (b\<lparr>bf_released := x\<rparr>) = content b" for x by (simp add: content_def)
  with True b show ?thesis
    by (cases cb) (auto simp: buffer_external_def binv_def idle_def bcore_def)
next
  case ne: False
  have idl: "\<not> bf_freeze_read b" "\<not> bf_freeze_write b" using b by (simp_all add: binv_def idle_def)
  define n where "n = \<lparr>bn_used = False, bn_external = True, bn_buffer = d, bn_free = cb,
                bn_misalign = 0, bn_off = length d\<rparr>"
  have n: "node_ok n" "bn_off n \<noteq> 0" "bn_off n = length d" "node_data n = d" "\<not> bn_used n"
    "frees [n] = (case cb of None \<Rightarrow> [] | Some c \<Rightarrow> [c])"
    using ne by (auto simp: n_def node_ok_def node_data_def split: option.splits)
  have core: "bcore b" "unused (bf_nodes b)" using b by (simp_all add: binv_def idle_def)
  then obtain A B where AB: "bf_nodes b = A @ B" "list_all (\<lambda>n. bn_off n \<noteq> 0) A" "all_empty B" "bf_twd b = length A - 1"
    unfolding bcore_def twd_ok_AB by blast
  have okB: "list_all node_ok B" "list_all node_ok A" and sp: "spare_ok (bf_spare b)"
    using core AB(1) by (simp_all add: bcore_def)
  have hA: "hint_ok (A @ [n]) (bf_hint b) (bf_hint_base b)"
    using hint_ok_keep [of A B] core AB by (simp add: bcore_def)
  have tA: "twd_ok (A @ [n]) (length A)" unfolding twd_ok_AB
    using AB(2) n(2) by (intro exI [of _ "A @ [n]"] exI [of _ "[]"]) simp
  have good: "binv b'" "content b' = content b @ d" "ledger b' = ledger b @ (case cb of None \<Rightarrow> [] | Some c \<Rightarrow> [c])"
    if b': "b' = b\<lparr>bf_nodes := A @ [n], bf_twd := length A, bf_spare := s, bf_total := bf_total b + length d\<rparr>"
      "spare_ok s" for b' s
  proof -
    have tot: "bf_total b = nodes_len A" using core AB all_empty_data [OF AB(3)] by (simp add: bcore_def)
    show "binv b'" using b core AB hA tA n tot okB b' by (simp add: binv_def idle_def bcore_def)
    show "content b' = content b @ d" using AB all_empty_data [OF AB(3)] n b' by (simp add: content_def)
    show "ledger b' = ledger b @ (case cb of None \<Rightarrow> [] | Some c \<Rightarrow> [c])"
      using AB all_empty_frees [OF AB(3) okB(1)] n b' by (simp add: ledger_def)
  qed
  have "\<exists>s. spare_ok s \<and> buffer_node_insert n b =
      Some (b\<lparr>bf_nodes := A @ [n], bf_twd := length A, bf_spare := s, bf_total := bf_total b + length d\<rparr>)"
  proof (cases "bf_nodes b = []")
    case True
    have "b\<lparr>bf_nodes := [n], bf_total := bf_total b + length d\<rparr> =
        b\<lparr>bf_nodes := [n], bf_twd := 0, bf_spare := bf_spare b, bf_total := bf_total b + length d\<rparr>"
      using AB True by (cases b) simp
    with True AB sp n show ?thesis
      by (intro exI [of _ "bf_spare b"]) (simp add: buffer_node_insert_def)
  next
    case False
    then have "0 < length (bf_nodes b)" by simp
    then have lt: "bf_twd b < length (bf_nodes b)" unfolding AB(1,4) by (cases A) auto
    have skip: "skip_data (drop (bf_twd b) (bf_nodes b)) (bf_twd b) = length A"
    proof (cases A rule: rev_cases)
      case Nil
      with AB skip_data_split [of "[]" B 0] show ?thesis by simp
    next
      case (snoc A' a)
      with AB skip_data_split [of "[a]" B "length A'"] show ?thesis by simp
    qed
    show ?thesis
    proof (cases "B = []")
      case True
      have "b\<lparr>bf_nodes := A @ [n], bf_twd := length A, bf_total := bf_total b + length d\<rparr> =
          b\<lparr>bf_nodes := A @ [n], bf_twd := length A, bf_spare := bf_spare b, bf_total := bf_total b + length d\<rparr>"
        by (cases b) simp
      with True lt skip AB n sp show ?thesis
        by (intro exI [of _ "bf_spare b"]) (simp add: buffer_node_insert_def buffer_free_trailing_empty_node_def)
    next
      case False
      obtain s where s: "buffer_free_all_node B b = b\<lparr>bf_spare := s\<rparr>" "spare_ok s"
        by (rule free_empties [OF AB(3) okB(1) sp])
      have "b\<lparr>bf_spare := s, bf_nodes := A @ [n], bf_twd := length A, bf_total := bf_total b + length d\<rparr> =
          b\<lparr>bf_nodes := A @ [n], bf_twd := length A, bf_spare := s, bf_total := bf_total b + length d\<rparr>"
        by (cases b) simp
      with False lt skip AB n s show ?thesis
        by (intro exI [of _ s])
          (simp add: buffer_node_insert_def buffer_free_trailing_empty_node_def buffer_node_all_empty_iff)
    qed
  qed
  then obtain s where "spare_ok s" "buffer_node_insert n b =
      Some (b\<lparr>bf_nodes := A @ [n], bf_twd := length A, bf_spare := s, bf_total := bf_total b + length d\<rparr>)" by blast
  with good [OF refl] show ?thesis
    using ne idl by (simp add: buffer_external_def flip: n_def)
qed

end
