(* ===== verification/Buffer_Read.thy ===== *)
theory Buffer_Read
  imports Buffer_Write
begin

text \<open>
  The read side of \<open>lib/utils/buffer.c\<close>: copying, byte access and searching read \<open>content\<close> and
  change nothing but the cursor; draining removes a prefix of \<open>content\<close> and releases the nodes it
  empties, zero-copy blocks in the order they came in.
\<close>

section \<open>Slices of nodes\<close>

lemma node_slice_ok:
  "node_ok n \<Longrightarrow> off + len \<le> bn_off n \<Longrightarrow> node_slice n off len = take len (drop off (node_data n))"
  by (simp add: node_slice_def node_data_def mem_get_def drop_take add.commute)

lemma copy_nodes_ok: "list_all node_ok ns \<Longrightarrow> copy_nodes ns L = take L (nodes_data ns)"
proof (induction ns arbitrary: L)
  case (Cons n ns)
  then show ?case
    by (cases "bn_off n \<le> L") (auto simp: node_slice_ok length_node_data)
qed simp

text \<open>Positions of the stream and nodes.\<close>

lemma take_Suc_len: "k < length ns \<Longrightarrow> nodes_len (take (Suc k) ns) = nodes_len (take k ns) + bn_off (ns ! k)"
  by (simp add: take_Suc_conv_app_nth)

lemma drop_content:
  assumes "list_all node_ok ns" "k < length ns" "nodes_len (take k ns) \<le> s" "s \<le> nodes_len (take (Suc k) ns)"
  shows "drop s (nodes_data ns) = drop (s - nodes_len (take k ns)) (node_data (ns ! k)) @ nodes_data (drop (Suc k) ns)"
proof -
  have ns: "ns = take k ns @ ns ! k # drop (Suc k) ns" by (rule id_take_nth_drop [OF assms(2)])
  have ok: "list_all node_ok (take k ns)" "node_ok (ns ! k)"
    using assms(1,2) by (auto simp: list_all_length)
  have len: "length (nodes_data (take k ns)) = nodes_len (take k ns)" "length (node_data (ns ! k)) = bn_off (ns ! k)"
    using ok by (simp_all add: length_nodes_data length_node_data)
  have "drop s (nodes_data ns) = drop s (nodes_data (take k ns) @ node_data (ns ! k) @ nodes_data (drop (Suc k) ns))"
    by (subst ns) simp
  also have "\<dots> = drop (s - nodes_len (take k ns)) (node_data (ns ! k)) @ nodes_data (drop (Suc k) ns)"
    using assms(3,4) len take_Suc_len [OF assms(2)] by simp
  finally show ?thesis .
qed

lemma nth_content:
  assumes "list_all node_ok ns" "k < length ns" "nodes_len (take k ns) \<le> s" "s < nodes_len (take (Suc k) ns)"
  shows "nodes_data ns ! s = node_data (ns ! k) ! (s - nodes_len (take k ns))"
proof -
  have ok: "node_ok (ns ! k)" using assms(1,2) by (simp add: list_all_length)
  have lt: "s - nodes_len (take k ns) < length (node_data (ns ! k))"
    using assms take_Suc_len [OF assms(2)] ok by (simp add: length_node_data)
  have "nodes_len (take (Suc k) ns) \<le> nodes_len ns"
    by (metis append_take_drop_id le_add1 nodes_len_simps(3))
  then have "s < length (nodes_data ns)" using assms by (simp add: length_nodes_data)
  then have "nodes_data ns ! s = hd (drop s (nodes_data ns))" by (simp add: hd_drop_conv_nth)
  also have "\<dots> = hd (drop (s - nodes_len (take k ns)) (node_data (ns ! k)))"
    using drop_content [OF assms(1-3)] assms(4) lt by (simp add: hd_append)
  finally show ?thesis using lt by (simp add: hd_drop_conv_nth)
qed

section \<open>The cursor\<close>

text \<open>Nodes without data only follow nodes with data.\<close>

fun packed :: "bufnode list \<Rightarrow> bool" where
  "packed [] = True"
| "packed (n # ns) = (if bn_off n = 0 then all_empty ns else packed ns)"

lemma packed_AB: "list_all (\<lambda>n. bn_off n \<noteq> 0) A \<Longrightarrow> all_empty B \<Longrightarrow> packed (A @ B)"
proof (induction A)
  case Nil
  then show ?case by (cases B) auto
qed simp

lemma packed_drop: "packed ns \<Longrightarrow> packed (drop i ns)"
proof (induction ns arbitrary: i)
  case (Cons n ns)
  have "packed ns"
  proof (cases "bn_off n = 0")
    case True
    with Cons.prems have "all_empty ns" by simp
    then show ?thesis by (cases ns) auto
  qed (use Cons.prems in simp)
  with Cons show ?case by (cases i) auto
qed simp

lemma bcore_packed: "bcore b \<Longrightarrow> packed (bf_nodes b)"
  unfolding bcore_def twd_ok_AB using packed_AB by auto

lemma search_walk_ok:
  assumes "packed ns" "base \<le> start" "start < base + nodes_len ns"
  obtains k where "k < length ns" "bn_off (ns ! k) \<noteq> 0"
    "base + nodes_len (take k ns) \<le> start" "start < base + nodes_len (take (Suc k) ns)"
    "search_walk ns i base start =
       Some (i + k, base + nodes_len (take (Suc k) ns), start - (base + nodes_len (take k ns)))"
  using assms
proof (induction ns arbitrary: i base thesis)
  case (Cons n ns)
  have ne: "bn_off n \<noteq> 0"
  proof
    assume "bn_off n = 0"
    with Cons.prems(2-) all_empty_data [of ns] show False by simp
  qed
  show ?case
  proof (cases "start < base + bn_off n")
    case True
    show ?thesis by (rule Cons.prems(1) [of 0]) (use True ne Cons.prems(2-) in simp_all)
  next
    case False
    obtain k where k: "k < length ns" "bn_off (ns ! k) \<noteq> 0"
      "base + bn_off n + nodes_len (take k ns) \<le> start" "start < base + bn_off n + nodes_len (take (Suc k) ns)"
      "search_walk ns (Suc i) (base + bn_off n) start =
         Some (Suc i + k, base + bn_off n + nodes_len (take (Suc k) ns), start - (base + bn_off n + nodes_len (take k ns)))"
      by (rule Cons.IH [where i = "Suc i" and base = "base + bn_off n"]) (use False ne Cons.prems(2-) in auto)
    show ?thesis
      by (rule Cons.prems(1) [of "Suc k"]) (use False ne k in \<open>simp_all add: add.assoc\<close>)
  qed
qed simp

definition cursor_at :: "buffer \<Rightarrow> nat \<Rightarrow> nat \<Rightarrow> bool" where
  "cursor_at b start k \<longleftrightarrow> k < length (bf_nodes b) \<and> bn_off (bf_nodes b ! k) \<noteq> 0 \<and>
     nodes_len (take k (bf_nodes b)) \<le> start \<and> start < nodes_len (take (Suc k) (bf_nodes b))"

text \<open>Moving the cursor keeps everything the other operations see.\<close>

definition with_cursor :: "nat \<Rightarrow> buffer \<Rightarrow> buffer" where
  "with_cursor k b = b\<lparr>bf_hint := Some k, bf_hint_base := nodes_len (take k (bf_nodes b))\<rparr>"

lemma with_cursor_ok:
  assumes "cursor_at b start k"
  shows "bcore b \<Longrightarrow> bcore (with_cursor k b)" "idle b \<Longrightarrow> idle (with_cursor k b)"
    "content (with_cursor k b) = content b" "ledger (with_cursor k b) = ledger b"
    "bf_nodes (with_cursor k b) = bf_nodes b"
  using assms by (simp_all add: with_cursor_def cursor_at_def bcore_def idle_def content_def ledger_def hint_ok_def)

lemma search_start_cached_ok:
  assumes b: "bcore b" and s: "start < bf_total b"
  obtains k where "cursor_at b start k"
    "buffer_search_start_cached b start =
       (Some (k, nodes_len (take (Suc k) (bf_nodes b)), start - nodes_len (take k (bf_nodes b))), with_cursor k b)"
proof -
  obtain i base where ib: "(case bf_hint b of
            Some k \<Rightarrow> if bf_hint_base b \<le> start then (k, bf_hint_base b) else (0, 0)
          | None \<Rightarrow> (0, 0)) = (i, base)" by fastforce
  then have base: "base = nodes_len (take i (bf_nodes b))" "i \<le> length (bf_nodes b)" "base \<le> start"
    using b by (auto simp: bcore_def hint_ok_def split: option.splits if_splits)
  have "nodes_len (bf_nodes b) = base + nodes_len (drop i (bf_nodes b))"
    unfolding base by (metis append_take_drop_id nodes_len_simps(3))
  then have lt: "start < base + nodes_len (drop i (bf_nodes b))" using s b by (simp add: bcore_def)
  obtain k where k: "k < length (drop i (bf_nodes b))" "bn_off (drop i (bf_nodes b) ! k) \<noteq> 0"
    "base + nodes_len (take k (drop i (bf_nodes b))) \<le> start" "start < base + nodes_len (take (Suc k) (drop i (bf_nodes b)))"
    "search_walk (drop i (bf_nodes b)) i base start = Some (i + k,
       base + nodes_len (take (Suc k) (drop i (bf_nodes b))), start - (base + nodes_len (take k (drop i (bf_nodes b)))))"
    by (rule search_walk_ok [OF packed_drop [OF bcore_packed [OF b]] base(3) lt])
  have tk: "base + nodes_len (take j (drop i (bf_nodes b))) = nodes_len (take (i + j) (bf_nodes b))" for j
    unfolding base by (simp add: take_add)
  have c: "cursor_at b start (i + k)"
    using k(1-4) base(2) unfolding tk by (simp add: cursor_at_def)
  have w: "nodes_len (take (Suc (i + k)) (bf_nodes b)) - bn_off (bf_nodes b ! (i + k)) = nodes_len (take (i + k) (bf_nodes b))"
    using c by (simp add: cursor_at_def take_Suc_len)
  show thesis
    by (rule that [OF c])
      (use k(5) w in \<open>simp add: buffer_search_start_cached_def ib tk with_cursor_def\<close>)
qed

section \<open>Copying and byte access\<close>

text \<open>What a read may change: the cursor only.\<close>

definition same_stream :: "buffer \<Rightarrow> buffer \<Rightarrow> bool" where
  "same_stream b b' \<longleftrightarrow> binv b' \<and> content b' = content b \<and> ledger b' = ledger b \<and> bf_total b' = bf_total b"

lemma same_stream_refl: "binv b \<Longrightarrow> same_stream b b"
  by (simp add: same_stream_def)

lemma same_stream_cursor: "binv b \<Longrightarrow> cursor_at b s k \<Longrightarrow> same_stream b (with_cursor k b)"
  using with_cursor_ok [of b s k] by (simp add: same_stream_def binv_def) (simp add: with_cursor_def)

lemma head_slice:
  assumes "bcore b" "bf_nodes b = n # ns" "start + lens \<le> bn_off n"
  shows "node_slice n start lens = take lens (drop start (content b))"
  using assms by (simp add: bcore_def content_def node_slice_ok length_node_data)

lemma copyout_slow_ok:
  assumes b: "binv b"
  shows "\<exists>b'. buffer_copyout_slow b start lens =
      Some (take lens (drop start (content b)), min lens (bf_total b - start), b') \<and> same_stream b b'"
proof (cases "bf_total b \<le> start \<or> lens = 0")
  case True
  then show ?thesis
    using b length_content [of b]
    by (intro exI [of _ b]) (auto simp: buffer_copyout_slow_def same_stream_refl binv_def idle_def)
next
  case False
  have fr: "\<not> bf_freeze_read b" and core: "bcore b" using b by (simp_all add: binv_def idle_def)
  have ok: "list_all node_ok (bf_nodes b)" using core by (simp add: bcore_def)
  have tot: "bf_total b = length (content b)" using length_content [OF core] by simp
  define L where "L = min lens (bf_total b - start)"
  have L: "(if bf_total b - start < lens then bf_total b - start else lens) = L" by (simp add: L_def)
  have out: "take lens (drop start (content b)) = take L (drop start (content b))"
    unfolding L_def tot by (auto simp: min_def)
  show ?thesis
  proof (cases "start = 0")
    case True
    have L0: "(if bf_total b < lens then bf_total b else lens) = L" by (simp add: L_def True)
    from True False fr copy_nodes_ok [OF ok] out b show ?thesis
      by (intro exI [of _ b])
        (simp add: buffer_copyout_slow_def L0 [simplified] Let_def same_stream_refl content_def, simp add: L_def)
  next
    case start: False
    obtain n ns where nodes: "bf_nodes b = n # ns"
      using False core by (cases "bf_nodes b") (auto simp: bcore_def)
    define pick where "pick = (if start < bn_off n then (Some (0, 0, start), b) else buffer_search_start_cached b start)"
    have "\<exists>k tot b'. pick = (Some (k, tot, start - nodes_len (take k (bf_nodes b))), b') \<and> cursor_at b start k \<and>
        same_stream b b' \<and> bf_nodes b' = bf_nodes b"
    proof (cases "start < bn_off n")
      case True
      then have "cursor_at b start 0" using nodes start by (auto simp: cursor_at_def)
      with True b show ?thesis by (auto simp: pick_def same_stream_refl)
    next
      case f: False
      have "start < bf_total b" using False by simp
      from search_start_cached_ok [OF core this] obtain k where k: "cursor_at b start k"
        "buffer_search_start_cached b start =
           (Some (k, nodes_len (take (Suc k) (bf_nodes b)), start - nodes_len (take k (bf_nodes b))), with_cursor k b)" .
      with f same_stream_cursor [OF b k(1)] with_cursor_ok(5) [OF k(1)] show ?thesis by (simp add: pick_def)
    qed
    then obtain k T b' where pick: "pick = (Some (k, T, start - nodes_len (take k (bf_nodes b))), b')"
      and c: "cursor_at b start k" and b': "same_stream b b'" "bf_nodes b' = bf_nodes b" by blast
    let ?off = "start - nodes_len (take k (bf_nodes b))" and ?n = "bf_nodes b ! k"
    have k: "k < length (bf_nodes b)" "node_ok ?n" "?off < bn_off ?n"
      using c ok by (auto simp: cursor_at_def list_all_length take_Suc_len)
    have dr: "drop start (content b) = drop ?off (node_data ?n) @ nodes_data (drop (Suc k) (bf_nodes b))"
      unfolding content_def using c by (intro drop_content [OF ok]) (auto simp: cursor_at_def)
    have okd: "list_all node_ok (drop i (bf_nodes b))" for i using ok by (simp add: list_all_length)
    define res where "res = (if 0 < ?off
        then (if bn_off ?n - ?off < L
              then node_slice ?n ?off (bn_off ?n - ?off) @ copy_nodes (drop (Suc k) (bf_nodes b)) (L - (bn_off ?n - ?off))
              else node_slice ?n ?off L)
        else copy_nodes (drop k (bf_nodes b)) L)"
    have "res = take L (drop start (content b))"
    proof (cases "0 < ?off")
      case True
      have ld: "length (drop ?off (node_data ?n)) = bn_off ?n - ?off" using k by (simp add: length_node_data)
      show ?thesis
      proof (cases "bn_off ?n - ?off < L")
        case lt: True
        have "node_slice ?n ?off (bn_off ?n - ?off) = drop ?off (node_data ?n)"
          using k by (simp add: node_slice_ok length_node_data)
        with True lt ld show ?thesis unfolding res_def dr by (simp add: copy_nodes_ok [OF okd])
      next
        case ge: False
        then have "node_slice ?n ?off L = take L (drop ?off (node_data ?n))" using k by (intro node_slice_ok) auto
        with True ge ld show ?thesis unfolding res_def dr by simp
      qed
    next
      case z: False
      have "drop k (bf_nodes b) = ?n # drop (Suc k) (bf_nodes b)" using k by (simp add: Cons_nth_drop_Suc)
      then have "nodes_data (drop k (bf_nodes b)) = drop start (content b)" using z dr by simp
      with z copy_nodes_ok [OF okd, of k L] show ?thesis by (simp add: res_def)
    qed
    moreover have "buffer_copyout_slow b start lens = Some (res, L, b')"
    proof -
      have "(if start < bn_off (hd (bf_nodes b)) then (Some (0, 0, start), b) else buffer_search_start_cached b start)
          = (Some (k, T, ?off), b')"
        using pick by (simp add: pick_def nodes)
      with False start fr b' L show ?thesis
        by (simp add: buffer_copyout_slow_def Let_def res_def split: prod.splits)
    qed
    ultimately show ?thesis using out b'(1) by (simp add: L_def)
  qed
qed

lemma copyout_ok:
  assumes b: "binv b"
  shows "\<exists>b'. buffer_copyout b start lens =
      Some (take lens (drop start (content b)), min lens (bf_total b - start), b') \<and> same_stream b b'"
proof (cases "bf_nodes b")
  case Nil
  with copyout_slow_ok [OF b] show ?thesis by (simp add: buffer_copyout_def)
next
  case (Cons n ns)
  show ?thesis
  proof (cases "\<not> bf_freeze_read b \<and> start < bn_off n \<and> lens \<noteq> 0 \<and> lens \<le> bn_off n - start")
    case True
    have "bn_off n \<le> bf_total b" using b Cons by (simp add: binv_def bcore_def)
    then have "min lens (bf_total b - start) = lens" using True by auto
    moreover have "node_slice n start lens = take lens (drop start (content b))"
      by (rule head_slice [OF _ Cons]) (use b True in \<open>auto simp: binv_def\<close>)
    ultimately show ?thesis using True b Cons
      by (intro exI [of _ b]) (simp add: buffer_copyout_def same_stream_refl)
  next
    case False
    with Cons copyout_slow_ok [OF b] show ?thesis by (auto simp: buffer_copyout_def)
  qed
qed

lemma hd_node_slice: "node_ok n \<Longrightarrow> off < bn_off n \<Longrightarrow> hd (node_slice n off 1) = node_data n ! off"
  by (simp add: node_slice_ok length_node_data take_Suc_conv_app_nth hd_drop_conv_nth [symmetric])

lemma at_slow_ok:
  assumes b: "binv b" and pos: "pos < bf_total b"
  shows "\<exists>b'. buffer_at_slow b pos = Some (content b ! pos, b') \<and> same_stream b b'"
proof -
  have fr: "\<not> bf_freeze_read b" and core: "bcore b" and ok: "list_all node_ok (bf_nodes b)"
    using b by (simp_all add: binv_def idle_def bcore_def)
  obtain k where k: "cursor_at b pos k"
    "buffer_search_start_cached b pos =
       (Some (k, nodes_len (take (Suc k) (bf_nodes b)), pos - nodes_len (take k (bf_nodes b))), with_cursor k b)"
    using search_start_cached_ok [OF core pos] by metis
  have kn: "k < length (bf_nodes b)" "node_ok (bf_nodes b ! k)" using k(1) ok by (auto simp: cursor_at_def list_all_length)
  have "hd (node_slice (bf_nodes b ! k) (pos - nodes_len (take k (bf_nodes b))) 1) = content b ! pos"
    using k(1) kn nth_content [OF ok kn(1), of pos]
    by (subst hd_node_slice) (auto simp: cursor_at_def take_Suc_len content_def)
  then have slow: "(case buffer_search_start_cached b pos of
                      (None, b) \<Rightarrow> None
                    | (Some (k, _, off), b) \<Rightarrow> Some (hd (node_slice (bf_nodes b ! k) off 1), b)) =
      Some (content b ! pos, with_cursor k b)"
    using k(2) with_cursor_ok(5) [OF k(1)] by simp
  show ?thesis
  proof (cases "bf_twd b < length (bf_nodes b) \<and> bn_off (bf_nodes b ! bf_twd b) \<noteq> 0 \<and>
      bf_total b - bn_off (bf_nodes b ! bf_twd b) \<le> pos")
    case True
    let ?t = "bf_twd b"
    have okt: "node_ok (bf_nodes b ! ?t)" using True ok by (simp add: list_all_length)
    have split: "bf_nodes b = take ?t (bf_nodes b) @ bf_nodes b ! ?t # drop (Suc ?t) (bf_nodes b)"
      using True by (simp add: id_take_nth_drop)
    have "all_empty (drop (Suc ?t) (bf_nodes b))" using core twd_ok_drop by (simp add: bcore_def)
    then have tot: "bf_total b = nodes_len (take ?t (bf_nodes b)) + bn_off (bf_nodes b ! ?t)"
      using core split all_empty_data by (metis add.right_neutral bcore_def nodes_len_simps(2,3))
    have c: "nodes_data (bf_nodes b) ! pos = node_data (bf_nodes b ! ?t) ! (pos - nodes_len (take ?t (bf_nodes b)))"
      using True pos tot by (intro nth_content [OF ok]) (auto simp: take_Suc_len)
    have "hd (node_slice (bf_nodes b ! ?t) (pos - (bf_total b - bn_off (bf_nodes b ! ?t))) 1) = content b ! pos"
      using pos tot c True by (subst hd_node_slice [OF okt]) (auto simp: content_def)
    with True fr pos b show ?thesis
      by (intro exI [of _ b]) (simp add: buffer_at_slow_def Let_def same_stream_refl)
  next
    case False
    then have "buffer_at_slow b pos = Some (content b ! pos, with_cursor k b)"
      using fr pos unfolding buffer_at_slow_def slow Let_def by auto
    with same_stream_cursor [OF b k(1)] show ?thesis by blast
  qed
qed

lemma at_ok:
  assumes b: "binv b" and pos: "pos < bf_total b"
  shows "\<exists>b'. buffer_at b pos = Some (content b ! pos, b') \<and> same_stream b b'"
proof (cases "bf_nodes b \<noteq> [] \<and> \<not> bf_freeze_read b \<and> pos < bn_off (hd (bf_nodes b))")
  case True
  then obtain n ns where n: "bf_nodes b = n # ns" by (cases "bf_nodes b") auto
  with b have "node_ok n" by (simp add: binv_def bcore_def)
  with True n b show ?thesis
    by (intro exI [of _ b])
      (simp add: buffer_at_def same_stream_refl hd_node_slice [simplified] content_def nth_append length_node_data)
next
  case False
  with at_slow_ok [OF assms] show ?thesis by (auto simp: buffer_at_def)
qed

end
