(* ===== verification/Buffer_Search.thy ===== *)
theory Buffer_Search
  imports Buffer_Read
begin

text \<open>
  \<open>buffer_search\<close> against its reference: the first occurrence of a pattern in the byte stream,
  independent of how the stream is cut into nodes, of the cursor, and of which of the two paths
  (one node, or the walk over the chain) the code takes.
\<close>

section \<open>Comparison across nodes\<close>

definition matches :: "bool \<Rightarrow> bytes \<Rightarrow> bytes \<Rightarrow> bool" where
  "matches ncs s w \<longleftrightarrow> length w \<le> length s \<and> (\<forall>i<length w. fold_eq ncs (s ! i) (w ! i))"

lemma occurs_at_matches: "p \<le> length hay \<Longrightarrow> occurs_at ncs hay w p = matches ncs (drop p hay) w"
  by (auto simp: occurs_at_def matches_def)

lemma matches_append:
  assumes "length s1 < length w \<or> length w \<le> length s1"
  shows "matches ncs (s1 @ s2) w \<longleftrightarrow>
    matches ncs (take (length w) s1) (take (length s1) w) \<and> matches ncs s2 (drop (length s1) w)"
proof (cases "length w \<le> length s1")
  case True
  then show ?thesis by (auto simp: matches_def nth_append)
next
  case False
  show ?thesis
  proof
    assume m: "matches ncs (s1 @ s2) w"
    show "matches ncs (take (length w) s1) (take (length s1) w) \<and> matches ncs s2 (drop (length s1) w)"
      unfolding matches_def
    proof (intro conjI allI impI)
      show "length (take (length s1) w) \<le> length (take (length w) s1)" using False by simp
      show "length (drop (length s1) w) \<le> length s2" using m by (auto simp: matches_def)
      show "fold_eq ncs (take (length w) s1 ! i) (take (length s1) w ! i)" if "i < length (take (length s1) w)" for i
        using m that False by (auto simp: matches_def nth_append split: if_splits)
      show "fold_eq ncs (s2 ! i) (drop (length s1) w ! i)" if "i < length (drop (length s1) w)" for i
      proof -
        from m have "\<forall>i<length w. fold_eq ncs ((s1 @ s2) ! i) (w ! i)" by (simp add: matches_def)
        moreover have "length s1 + i < length w" using that by simp
        ultimately have "fold_eq ncs ((s1 @ s2) ! (length s1 + i)) (w ! (length s1 + i))" by blast
        with False show ?thesis by simp
      qed
    qed
  next
    assume a: "matches ncs (take (length w) s1) (take (length s1) w) \<and> matches ncs s2 (drop (length s1) w)"
    have "fold_eq ncs ((s1 @ s2) ! i) (w ! i)" if "i < length w" for i
    proof (cases "i < length s1")
      case True
      with a that show ?thesis by (auto simp: matches_def nth_append)
    next
      case False
      have "i - length s1 < length (drop (length s1) w)" using that False by simp
      with a have "fold_eq ncs (s2 ! (i - length s1)) (drop (length s1) w ! (i - length s1))" by (simp add: matches_def)
      with False that show ?thesis by (simp add: nth_append)
    qed
    with a False show "matches ncs (s1 @ s2) w" by (auto simp: matches_def)
  qed
qed

definition cmp_of :: "bool \<Rightarrow> bytes \<Rightarrow> bytes \<Rightarrow> bool" where
  "cmp_of ncs = (if ncs then (\<lambda>a b. memcasecmp a b = 0) else memcmp0)"

lemma cmp_of_matches: "length a = length b \<Longrightarrow> cmp_of ncs a b = matches ncs a b"
  by (simp add: cmp_of_def matches_def memcasecmp_0 memcmp0_iff)

lemma search_memcmp_ok:
  assumes "packed ns" "list_all node_ok ns" "off = 0 \<or> (ns \<noteq> [] \<and> off < bn_off (hd ns))"
  shows "search_memcmp (cmp_of ncs) ns off what = matches ncs (drop off (nodes_data ns)) what"
  using assms
proof (induction ns arbitrary: off what)
  case Nil
  then show ?case by (auto simp: matches_def)
next
  case (Cons n ns)
  have ok: "node_ok n" "list_all node_ok ns" using Cons.prems by simp_all
  consider "what = []" | "what \<noteq> []" "bn_off n \<le> off" | "what \<noteq> []" "off < bn_off n" by linarith
  then show ?case
  proof cases
    case 1
    then show ?thesis by (simp add: matches_def)
  next
    case 2
    then have z: "off = 0" "bn_off n = 0" using Cons.prems(3) by auto
    then have "nodes_data (n # ns) = []" using Cons.prems(1) all_empty_data [of ns] by simp
    with 2 z show ?thesis by (simp add: matches_def)
  next
    case 3
    let ?s1 = "drop off (node_data n)"
    define k where "k = (if bn_off n < length what + off then bn_off n - off else length what)"
    have l1: "length ?s1 = bn_off n - off" using ok by (simp add: length_node_data)
    have k: "k = min (length ?s1) (length what)" using 3 l1 by (auto simp: k_def)
    have sl: "node_slice n off k = take (length what) ?s1"
    proof -
      have "node_slice n off k = take k ?s1" using ok 3 k l1 by (intro node_slice_ok) auto
      also have "\<dots> = take (length what) ?s1" unfolding k by (auto simp: min_def)
      finally show ?thesis .
    qed
    have tk: "take k what = take (length ?s1) what" "drop k what = drop (length ?s1) what" using k by (auto simp: min_def)
    have pk: "packed ns" using Cons.prems(1) 3 by (simp split: if_splits)
    have dr: "drop off (nodes_data (n # ns)) = ?s1 @ nodes_data ns" using 3 ok by (simp add: length_node_data)
    have "search_memcmp (cmp_of ncs) (n # ns) off what \<longleftrightarrow>
        cmp_of ncs (node_slice n off k) (take k what) \<and> search_memcmp (cmp_of ncs) ns 0 (drop k what)"
      using 3 by (simp add: Let_def k_def)
    also have "\<dots> \<longleftrightarrow> matches ncs (take (length what) ?s1) (take (length ?s1) what) \<and>
        matches ncs (nodes_data ns) (drop (length ?s1) what)"
      using Cons.IH [OF pk ok(2), of 0 "drop k what"] unfolding sl tk by (subst cmp_of_matches) auto
    also have "\<dots> \<longleftrightarrow> matches ncs (drop off (nodes_data (n # ns))) what"
      unfolding dr by (rule matches_append [symmetric]) auto
    finally show ?thesis .
  qed
qed

lemma search_eq_ok:
  assumes "packed (n # ns)" "list_all node_ok (n # ns)" "off < bn_off n"
  shows "search_eq ncs (n # ns) off what = matches ncs (drop off (nodes_data (n # ns))) what"
proof (cases "ncs \<or> bn_off n \<le> off \<or> bn_off n - off < length what")
  case True
  with search_memcmp_ok [OF assms(1,2), of off ncs what] assms(3) show ?thesis
    by (auto simp: search_eq_def cmp_of_def)
next
  case False
  have ok: "node_ok n" using assms(2) by simp
  have sl: "node_slice n off (length what) = take (length what) (drop off (node_data n))"
    using False by (intro node_slice_ok [OF ok]) auto
  have "drop off (nodes_data (n # ns)) = drop off (node_data n) @ nodes_data ns"
    using assms(3) ok by (simp add: length_node_data)
  moreover have "length what \<le> length (drop off (node_data n))" using False ok by (simp add: length_node_data)
  ultimately have "matches ncs (drop off (nodes_data (n # ns))) what \<longleftrightarrow>
      (\<forall>i<length what. fold_eq False (drop off (node_data n) ! i) (what ! i))"
    using False by (auto simp: matches_def nth_append)
  also have "\<dots> \<longleftrightarrow> take (length what) (drop off (node_data n)) = what"
    using \<open>length what \<le> length (drop off (node_data n))\<close> by (auto simp: fold_eq_def list_eq_iff_nth_eq)
  finally show ?thesis using False sl by (simp add: search_eq_def)
qed

section \<open>The scan\<close>

text \<open>An occurrence inside the first \<open>e\<close> bytes of a stream.\<close>

lemma occurs_at_take:
  "e \<le> length s \<Longrightarrow> 0 < length w \<Longrightarrow>
    occurs_at ncs (take e s) w p \<longleftrightarrow> p + length w \<le> e \<and> matches ncs (drop p s) w"
  by (auto simp: occurs_at_def matches_def)

lemma chr_of: "(if ncs then memichr else memchr) buf v = find_ix (\<lambda>b. fold_eq ncs b v) buf"
  by (simp add: memichr_find memchr_find)

lemma matches_first:
  assumes "matches ncs s w" "w \<noteq> []"
  shows "s \<noteq> []" "fold_eq ncs (s ! 0) (w ! 0)"
  using assms by (auto simp: matches_def)

declare search_loop.simps(2) [simp del]

lemma search_loop_ok:
  assumes "packed ns" "list_all node_ok ns" "S = pre @ nodes_data ns" "base = length pre"
    "off = 0 \<or> (ns \<noteq> [] \<and> off < bn_off (hd ns))" "e \<le> length S" "what \<noteq> []"
  shows "search_loop ncs what e ns base off = first_occ ncs (take e S) what (base + off)"
  using assms
proof (induction ncs what e ns base off arbitrary: pre rule: search_loop.induct)
  case (1 ncs what e base off)
  have "0 < length what" using 1 by simp
  moreover have "length (take e S) \<le> base" using 1 by simp
  ultimately have "length (take e S) < base + length what" by linarith
  then have "first_occ ncs (take e S) what (base + off) = None"
    unfolding first_occ_eq_None occurs_at_def by (intro allI impI notI, elim conjE) linarith
  then show ?case by simp
next
  case (2 ncs what e n ns base off)
  let ?S = "take e S"
  have w: "0 < length what" using 2(10) by simp
  have occ: "occurs_at ncs ?S what p \<longleftrightarrow> p + length what \<le> e \<and> matches ncs (drop p S) what" for p
    by (rule occurs_at_take [OF 2(9) w])
  have ok: "node_ok n" "list_all node_ok ns" using 2(5) by simp_all
  consider "bn_off n = 0" | "bn_off n \<noteq> 0" "e < base + off + length what"
    | "bn_off n \<noteq> 0" "base + off + length what \<le> e" by linarith
  then show ?case
  proof cases
    case 1
    then have "nodes_data (n # ns) = []" using 2(4) all_empty_data [of ns] by simp
    then have "e \<le> base" using 2(6,7,9) by simp
    then have "first_occ ncs ?S what (base + off) = None"
      unfolding first_occ_eq_None occ using w by (intro allI impI notI, elim conjE) linarith
    with 1 show ?thesis by (simp add: search_loop.simps(2))
  next
    case 2
    then have "first_occ ncs ?S what (base + off) = None"
      unfolding first_occ_eq_None occ by (intro allI impI notI, elim conjE) linarith
    with 2 show ?thesis by (simp add: search_loop.simps(2))
  next
    case 3
    have off: "off < bn_off n" using 3 2(8) by auto
    define scan where "scan = (let scan = e - length what - (base + off) + 1
      in if bn_off n - off < scan then bn_off n - off else scan)"
    have scan: "scan = min (bn_off n - off) (e - length what - (base + off) + 1)" "0 < scan" "off + scan \<le> bn_off n"
      using off by (auto simp: scan_def Let_def min_def)
    have sl: "node_slice n off scan = take scan (drop off (node_data n))"
      using scan by (intro node_slice_ok [OF ok(1)]) simp
    have at: "S ! (base + off + i) = node_data n ! (off + i)" if "off + i < bn_off n" for i
      using that 2(6,7) ok by (simp add: nth_append length_node_data add.assoc)
    have lenS: "base + bn_off n \<le> length S" using 2(6,7) ok by (simp add: length_node_data)
    have first: "fold_eq ncs (node_data n ! (off + i)) (what ! 0)"
      if "occurs_at ncs ?S what (base + off + i)" "off + i < bn_off n" for i
    proof -
      from that(1) have "matches ncs (drop (base + off + i) S) what" by (simp add: occ)
      from matches_first(2) [OF this 2(10)] show ?thesis using at [OF that(2)] that(2) lenS by simp
    qed
    have bound: "i < scan" if "occurs_at ncs ?S what (base + off + i)" "off + i < bn_off n" for i
      using that scan(1) by (auto simp: occ)
    have next_node: "search_loop ncs what e ns (base + bn_off n) 0 = first_occ ncs ?S what (base + bn_off n)"
      if IH: "\<And>pre. packed ns \<Longrightarrow> list_all node_ok ns \<Longrightarrow> S = pre @ nodes_data ns \<Longrightarrow> base + bn_off n = length pre \<Longrightarrow>
         0 = 0 \<or> ns \<noteq> [] \<and> 0 < bn_off (hd ns) \<Longrightarrow> e \<le> length S \<Longrightarrow> what \<noteq> [] \<Longrightarrow>
         search_loop ncs what e ns (base + bn_off n) 0 = first_occ ncs ?S what (base + bn_off n + 0)"
      using IH [of "pre @ node_data n"] 2(4-10) 3(1) ok by (simp add: length_node_data split: if_splits)
    have unfold: "search_loop ncs what e (n # ns) base off =
       (case find_ix (\<lambda>b. fold_eq ncs b (what ! 0)) (node_slice n off scan) of
          None \<Rightarrow> search_loop ncs what e ns (base + bn_off n) 0
        | Some d \<Rightarrow> if search_eq ncs (n # ns) (off + d) what then Some (base + (off + d))
            else if bn_off n \<le> Suc (off + d) then search_loop ncs what e ns (base + bn_off n) 0
            else search_loop ncs what e (n # ns) base (Suc (off + d)))"
      using 3 by (subst search_loop.simps) (simp add: Let_def scan_def chr_of split: option.split)
    show ?thesis
    proof (cases "find_ix (\<lambda>b. fold_eq ncs b (what ! 0)) (node_slice n off scan)")
      case None
      have no: "\<not> occurs_at ncs ?S what i" if lo: "base + off \<le> i" and hi: "i < base + bn_off n" for i
      proof
        assume o: "occurs_at ncs ?S what i"
        obtain j where j: "i = base + off + j" using lo unfolding le_iff_add by blast
        then have j2: "off + j < bn_off n" using hi by simp
        have "j < scan" using bound [of j] o j j2 by simp
        then have "\<not> fold_eq ncs (node_slice n off scan ! j) (what ! 0)"
          using None sl scan(3) ok by (simp add: find_ix_None length_node_data)
        with first [of j] o j j2 \<open>j < scan\<close> sl ok scan(3) show False by (simp add: length_node_data)
      qed
      have "first_occ ncs ?S what (base + off) = first_occ ncs ?S what (base + bn_off n)"
        by (rule first_occ_skip [OF _ no w]) (use off in simp_all)
      moreover have "search_loop ncs what e ns (base + bn_off n) 0 = first_occ ncs ?S what (base + bn_off n)"
        by (rule next_node) (rule 2(1) [OF 3(1)], use 3 None in \<open>auto simp: chr_of sl scan_def Let_def\<close>)
      ultimately show ?thesis using unfold None by simp
    next
      case (Some d)
      then have d: "d < scan" "fold_eq ncs (node_slice n off scan ! d) (what ! 0)"
        "\<And>i. i < d \<Longrightarrow> \<not> fold_eq ncs (node_slice n off scan ! i) (what ! 0)"
        using sl scan(3) ok by (auto simp: find_ix_Some length_node_data)
      have od: "off + d < bn_off n" using d(1) scan(3) by simp
      have no: "\<not> occurs_at ncs ?S what i" if lo: "base + off \<le> i" and hi: "i < base + off + d" for i
      proof
        assume o: "occurs_at ncs ?S what i"
        obtain j where j: "i = base + off + j" using lo unfolding le_iff_add by blast
        then have j2: "j < d" using hi by simp
        with first [of j] o j od d(1,3) sl ok scan(3) show False by (simp add: length_node_data)
      qed
      have eq: "search_eq ncs (n # ns) (off + d) what = occurs_at ncs ?S what (base + off + d)"
      proof -
        have "drop (base + off + d) S = drop (off + d) (nodes_data (n # ns))"
          using 2(6,7) by (simp add: add.assoc)
        moreover have "base + off + d + length what \<le> e" using d(1) scan(1) 3(2) by linarith
        ultimately show ?thesis using search_eq_ok [OF 2(4,5) od, of ncs what] by (simp add: occ)
      qed
      show ?thesis
      proof (cases "search_eq ncs (n # ns) (off + d) what")
        case True
        have "first_occ ncs ?S what (base + off) = Some (base + off + d)"
          using True eq no w by (auto simp: first_occ_eq_Some)
        with unfold Some True show ?thesis by (simp add: add.assoc)
      next
        case False
        have no': "\<not> occurs_at ncs ?S what i" if "base + off \<le> i" "i < base + Suc (off + d)" for i
        proof (cases "i = base + off + d")
          case True
          with False eq show ?thesis by simp
        next
          case ne: False
          with no that show ?thesis by simp
        qed
        have skip: "first_occ ncs ?S what (base + off) = first_occ ncs ?S what (base + Suc (off + d))"
          by (rule first_occ_skip [OF _ no' w]) auto
        show ?thesis
        proof (cases "bn_off n \<le> Suc (off + d)")
          case True
          then have s: "Suc (off + d) = bn_off n" using od by simp
          have "search_loop ncs what e ns (base + bn_off n) 0 = first_occ ncs ?S what (base + bn_off n)"
            by (rule next_node) (rule 2(2) [OF 3(1)], use 3 Some False True in \<open>auto simp: chr_of sl scan_def Let_def\<close>)
          with unfold Some False True skip s show ?thesis by simp
        next
          case f: False
          have "search_loop ncs what e (n # ns) base (Suc (off + d)) = first_occ ncs ?S what (base + Suc (off + d))"
            by (rule 2(3) [OF 3(1)], use 2(4-10) 3 Some False f in \<open>auto simp: chr_of sl scan_def Let_def\<close>)
          with unfold Some False f skip show ?thesis by simp
        qed
      qed
    qed
  qed
qed

section \<open>The search\<close>

text \<open>The exclusive bound of a search; \<open>e = 0\<close> or a bound outside the data means all of it.\<close>

definition search_bound :: "nat \<Rightarrow> nat \<Rightarrow> nat" where
  "search_bound n e = (if e = 0 \<or> n \<le> e then n else Suc e)"

definition search_spec :: "bytes \<Rightarrow> bool \<Rightarrow> nat \<Rightarrow> nat \<Rightarrow> bytes \<Rightarrow> int" where
  "search_spec s ncs start e what =
     (if what = [] then -1
      else search_result (first_occ ncs (take (search_bound (length s) e) s) what start))"

lemma search_bound_le: "search_bound n e \<le> n"
  by (auto simp: search_bound_def)

lemma first_occ_none:
  assumes "length s \<le> start \<or> length s - start < length w" "0 < length w"
  shows "first_occ ncs s w start = None"
  unfolding first_occ_eq_None occurs_at_def
proof (intro allI impI notI, elim conjE)
  fix i assume "start \<le> i" "i + length w \<le> length s"
  with assms show False by linarith
qed

lemma first_occ_shift:
  assumes "start \<le> length s" "0 < length w"
  shows "map_option (\<lambda>d. start + d) (first_occ ncs (drop start s) w 0) = first_occ ncs s w start"
proof -
  have occ: "occurs_at ncs (drop start s) w d = occurs_at ncs s w (start + d)" for d
    using assms by (auto simp: occurs_at_def add.assoc)
  show ?thesis
  proof (cases "first_occ ncs (drop start s) w 0")
    case None
    have "\<not> occurs_at ncs s w i" if "start \<le> i" for i
      using None that occ [of "i - start"] by (simp add: first_occ_eq_None)
    then have "first_occ ncs s w start = None" by (simp add: first_occ_eq_None)
    with None show ?thesis by simp
  next
    case (Some d)
    then have d: "occurs_at ncs (drop start s) w d" "\<And>i. i < d \<Longrightarrow> \<not> occurs_at ncs (drop start s) w i"
      using assms(2) by (simp_all add: first_occ_eq_Some)
    have "\<not> occurs_at ncs s w i" if "start \<le> i" "i < start + d" for i
      using d(2) [of "i - start"] that occ [of "i - start"] by simp
    with d(1) occ have "first_occ ncs s w start = Some (start + d)"
      using assms(2) by (simp add: first_occ_eq_Some)
    with Some show ?thesis by simp
  qed
qed

lemma search_slow_ok:
  assumes b: "binv b"
  shows "\<exists>b'. buffer_search_slow b ncs start e what = Some (search_spec (content b) ncs start e what, b') \<and>
    same_stream b b'"
proof -
  have fr: "\<not> bf_freeze_read b" and core: "bcore b" and ok: "list_all node_ok (bf_nodes b)"
    using b by (simp_all add: binv_def idle_def bcore_def)
  have tot: "length (content b) = bf_total b" using length_content [OF core] .
  define E where "E = search_bound (bf_total b) e"
  have E: "(if e = 0 \<or> bf_total b \<le> e then bf_total b else e + 1) = E" by (simp add: E_def search_bound_def)
  have Ele: "E \<le> bf_total b" by (simp add: E_def search_bound_le)
  have spec: "search_spec (content b) ncs start e what = search_result (first_occ ncs (take E (content b)) what start)"
    if "what \<noteq> []" using that by (simp add: search_spec_def tot E_def)
  show ?thesis
  proof (cases "what = [] \<or> bf_total b = 0 \<or> E \<le> start \<or> E - start < length what")
    case True
    have "search_spec (content b) ncs start e what = -1"
    proof (cases "what = []")
      case True
      then show ?thesis by (simp add: search_spec_def)
    next
      case False
      have "first_occ ncs (take E (content b)) what start = None"
        by (rule first_occ_none) (use True False tot Ele in auto)
      with spec False show ?thesis by (simp add: search_result_def)
    qed
    with True fr b show ?thesis
      by (intro exI [of _ b]) (auto simp: buffer_search_slow_def Let_def E same_stream_refl)
  next
    case False
    then have "start < bf_total b" using Ele by simp
    from search_start_cached_ok [OF core this] obtain k where k: "cursor_at b start k"
      "buffer_search_start_cached b start =
         (Some (k, nodes_len (take (Suc k) (bf_nodes b)), start - nodes_len (take k (bf_nodes b))), with_cursor k b)" .
    have kl: "k < length (bf_nodes b)" "bn_off (bf_nodes b ! k) \<noteq> 0" "nodes_len (take k (bf_nodes b)) \<le> start"
      "start - nodes_len (take k (bf_nodes b)) < bn_off (bf_nodes b ! k)"
      using k(1) by (auto simp: cursor_at_def take_Suc_len)
    have dk: "drop k (bf_nodes b) = bf_nodes b ! k # drop (Suc k) (bf_nodes b)" using kl by (simp add: Cons_nth_drop_Suc)
    have okk: "list_all node_ok (drop k (bf_nodes b))" "list_all node_ok (take k (bf_nodes b))"
      using ok by (simp_all add: list_all_length)
    have "search_loop ncs what E (drop k (bf_nodes b)) (nodes_len (take k (bf_nodes b))) (start - nodes_len (take k (bf_nodes b)))
       = first_occ ncs (take E (content b)) what (nodes_len (take k (bf_nodes b)) + (start - nodes_len (take k (bf_nodes b))))"
    proof (rule search_loop_ok [OF packed_drop [OF bcore_packed [OF core]] okk(1)])
      show "content b = nodes_data (take k (bf_nodes b)) @ nodes_data (drop k (bf_nodes b))"
        unfolding content_def nodes_data_simps(3) [symmetric] by simp
      show "nodes_len (take k (bf_nodes b)) = length (nodes_data (take k (bf_nodes b)))"
        using length_nodes_data [OF okk(2)] by simp
      show "start - nodes_len (take k (bf_nodes b)) = 0 \<or>
         drop k (bf_nodes b) \<noteq> [] \<and> start - nodes_len (take k (bf_nodes b)) < bn_off (hd (drop k (bf_nodes b)))"
        using kl dk by simp
      show "E \<le> length (content b)" using Ele tot by simp
      show "what \<noteq> []" using False by simp
    qed
    then have loop: "search_loop ncs what E (drop k (bf_nodes b)) (nodes_len (take (Suc k) (bf_nodes b)) - bn_off (bf_nodes b ! k))
        (start - nodes_len (take k (bf_nodes b))) = first_occ ncs (take E (content b)) what start"
      using kl by (simp add: take_Suc_len)
    have "buffer_search_slow b ncs start e what =
        Some (search_result (first_occ ncs (take E (content b)) what start), with_cursor k b)"
    proof -
      have n: "\<not> (E \<le> start \<or> E - start < length what)" "what \<noteq> []" "bf_total b \<noteq> 0" using False by auto
      show ?thesis
        unfolding buffer_search_slow_def Let_def E k(2)
        using fr n kl with_cursor_ok(5) [OF k(1)] loop by simp
    qed
    with same_stream_cursor [OF b k(1)] spec False show ?thesis by auto
  qed
qed

lemma search_ok:
  assumes b: "binv b"
  shows "\<exists>b'. buffer_search b ncs start e what = Some (search_spec (content b) ncs start e what, b') \<and>
    same_stream b b'"
proof (cases "\<not> ncs \<and> bf_nodes b \<noteq> [] \<and> \<not> bf_freeze_read b \<and> what \<noteq> [] \<and>
    search_bound (bf_total b) e \<le> bn_off (hd (bf_nodes b)) \<and> start < search_bound (bf_total b) e \<and>
    length what \<le> search_bound (bf_total b) e - start")
  case True
  define E where "E = search_bound (bf_total b) e"
  have E: "(if e = 0 \<or> bf_total b \<le> e then bf_total b else e + 1) = E" by (simp add: E_def search_bound_def)
  have core: "bcore b" using b by (simp add: binv_def)
  have tot: "length (content b) = bf_total b" using length_content [OF core] .
  obtain n ns where n: "bf_nodes b = n # ns" using True by (cases "bf_nodes b") auto
  have le: "E \<le> bn_off n" "start < E" "length what \<le> E - start" "0 < length what"
    using True n by (simp_all add: E_def)
  have "node_slice n start (E - start) = take (E - start) (drop start (content b))"
    by (rule head_slice [OF core n]) (use le in simp)
  also have "\<dots> = drop start (take E (content b))" by (simp add: drop_take)
  finally have "map_option (\<lambda>d. start + d) (memstr (node_slice n start (E - start)) what) =
      first_occ False (take E (content b)) what start"
    using first_occ_shift [of start "take E (content b)" what False] le tot
    by (simp add: memstr_first E_def search_bound_le)
  then have "buffer_search b ncs start e what = Some (search_result (first_occ False (take E (content b)) what start), b)"
    using True n le unfolding buffer_search_def Let_def E by (simp add: E_def)
  with True b show ?thesis by (intro exI [of _ b]) (simp add: search_spec_def tot E_def same_stream_refl)
next
  case False
  then have "buffer_search b ncs start e what = buffer_search_slow b ncs start e what"
    by (auto simp: buffer_search_def search_bound_def Let_def)
  with search_slow_ok [OF b] show ?thesis by simp
qed

end
