(* ===== verification/Buffer_Drain.thy ===== *)
theory Buffer_Drain
  imports Buffer_Search
begin

text \<open>
  Removing bytes: \<open>buffer_drain\<close> with its three paths, \<open>buffer_remove\<close>, \<open>buffer_free\<close>, and the
  scattered read of \<open>buffer_get\<close> with its commit. Each drops a prefix of \<open>content\<close>, keeps the
  cursor valid, and moves the zero-copy blocks of emptied nodes from the chain to the released ones
  in order: \<open>ledger\<close> does not change.
\<close>

lemma drain_node_simps [simp]:
  "bn_off (drain_node l n) = bn_off n - l" "bn_free (drain_node l n) = bn_free n"
  "bn_used (drain_node l n) = bn_used n" "bn_external (drain_node l n) = bn_external n"
  "bn_buffer (drain_node l n) = bn_buffer n" "bn_misalign (drain_node l n) = bn_misalign n + l"
  by (simp_all add: drain_node_def)

lemma drain_node_ok:
  "node_ok n \<Longrightarrow> l < bn_off n \<or> l = 0 \<Longrightarrow> node_ok (drain_node l n) \<and> node_data (drain_node l n) = drop l (node_data n)"
  by (auto simp: node_ok_def node_data_def mem_get_drop)

text \<open>A chain from which a prefix of its stream is cut: \<open>f\<close> whole nodes, and \<open>r\<close> bytes of the next.\<close>

lemma drain_loop_ok:
  assumes "list_all node_ok ns" "unused ns" "remain \<le> nodes_len ns" "spare_ok (bf_spare b)"
  obtains f s where "f \<le> length ns" "nodes_len (take f ns) \<le> remain"
    "f < length ns \<Longrightarrow> remain - nodes_len (take f ns) < bn_off (ns ! f)" "spare_ok s"
    "drain_loop ns t remain b = Some (drop f ns, t - f, remain - nodes_len (take f ns),
       b\<lparr>bf_spare := s, bf_released := bf_released b @ frees (take f ns)\<rparr>)"
  using assms
proof (induction ns arbitrary: t remain b thesis)
  case Nil
  show ?case by (rule Nil.prems(1) [of 0 "bf_spare b"]) (use Nil.prems(2-) in simp_all)
next
  case (Cons n ns)
  show ?case
  proof (cases "bn_off n \<le> remain")
    case False
    show ?thesis by (rule Cons.prems(1) [of 0 "bf_spare b"]) (use False Cons.prems(2-) in simp_all)
  next
    case True
    obtain s1 where s1: "buffer_node_free n b = b\<lparr>bf_spare := s1, bf_released := bf_released b @ frees [n]\<rparr>" "spare_ok s1"
      using buffer_node_free_ok [of n b] Cons.prems(2-) by auto
    let ?b1 = "b\<lparr>bf_spare := s1, bf_released := bf_released b @ frees [n]\<rparr>"
    have p: "list_all node_ok ns" "unused ns" "remain - bn_off n \<le> nodes_len ns" "spare_ok (bf_spare ?b1)"
      using Cons.prems(2-) s1 True by simp_all
    obtain f s where f: "f \<le> length ns" "nodes_len (take f ns) \<le> remain - bn_off n"
      "f < length ns \<Longrightarrow> remain - bn_off n - nodes_len (take f ns) < bn_off (ns ! f)" "spare_ok s"
      "drain_loop ns (t - 1) (remain - bn_off n) ?b1 = Some (drop f ns, t - 1 - f, remain - bn_off n - nodes_len (take f ns),
         ?b1\<lparr>bf_spare := s, bf_released := bf_released ?b1 @ frees (take f ns)\<rparr>)"
      by (rule Cons.IH [where b = ?b1 and t = "t - 1" and remain = "remain - bn_off n", OF _ p], rule that)
    have "(if t = 0 \<or> t = 1 then 0 else t - 1) = t - 1" by simp
    then have "drain_loop (n # ns) t remain b = drain_loop ns (t - 1) (remain - bn_off n) ?b1"
      using True Cons.prems(3) s1(1) by (simp add: Let_def del: frees.simps)
    moreover have "frees [n] @ frees (take f ns) = frees (take (Suc f) (n # ns))" by (simp split: option.split)
    ultimately show ?thesis
      by (intro Cons.prems(1) [of "Suc f" s]) (use f True in \<open>auto simp del: frees.simps\<close>)
  qed
qed

text \<open>The chain after the cut.\<close>

definition cut :: "nat \<Rightarrow> nat \<Rightarrow> bufnode list \<Rightarrow> bufnode list" where
  "cut f r ns = (case drop f ns of [] \<Rightarrow> [] | n # ns' \<Rightarrow> drain_node r n # ns')"

lemma cut_facts:
  assumes ok: "list_all node_ok ns" "unused ns" and f: "f \<le> length ns" "nodes_len (take f ns) \<le> l"
    "f < length ns \<Longrightarrow> l - nodes_len (take f ns) < bn_off (ns ! f) \<or> l = nodes_len (take f ns)" "l \<le> nodes_len ns"
  defines "r \<equiv> l - nodes_len (take f ns)"
  shows "list_all node_ok (cut f r ns)" "unused (cut f r ns)" "nodes_data (cut f r ns) = drop l (nodes_data ns)"
    "nodes_len (cut f r ns) = nodes_len ns - l" "frees (cut f r ns) = frees (drop f ns)"
proof -
  have okd: "list_all node_ok (drop i ns)" "list_all node_ok (take i ns)" "unused (drop i ns)" for i
    using ok by (simp_all add: list_all_length unused_def)
  have "list_all node_ok (cut f r ns) \<and> unused (cut f r ns) \<and> nodes_data (cut f r ns) = drop l (nodes_data ns) \<and>
    nodes_len (cut f r ns) = nodes_len ns - l \<and> frees (cut f r ns) = frees (drop f ns)"
  proof (cases "f < length ns")
    case False
    then have "f = length ns" using f(1) by simp
    with f have "l = nodes_len ns" by simp
    with \<open>f = length ns\<close> show ?thesis using length_nodes_data [OF ok(1)] by (simp add: cut_def)
  next
    case True
    have d: "drop f ns = ns ! f # drop (Suc f) ns" using True by (simp add: Cons_nth_drop_Suc)
    have n: "node_ok (ns ! f)" "\<not> bn_used (ns ! f)" using ok True by (simp_all add: list_all_length unused_def)
    have r: "r < bn_off (ns ! f) \<or> r = 0" using f(3) [OF True] by (auto simp: r_def)
    then have rle: "r \<le> bn_off (ns ! f)" by auto
    note dn = drain_node_ok [OF n(1) r]
    have len: "nodes_len ns = nodes_len (take f ns) + bn_off (ns ! f) + nodes_len (drop (Suc f) ns)"
      using take_Suc_len [OF True] append_take_drop_id [of "Suc f" ns] nodes_len_simps(3) by metis
    have "drop l (nodes_data ns) = drop r (node_data (ns ! f)) @ nodes_data (drop (Suc f) ns)"
      unfolding r_def by (rule drop_content [OF ok(1) True f(2)])
        (use rle take_Suc_len [OF True] in \<open>simp add: r_def\<close>)
    with dn n d okd len f(2) rle show ?thesis by (simp add: cut_def r_def)
  qed
  then show "list_all node_ok (cut f r ns)" "unused (cut f r ns)" "nodes_data (cut f r ns) = drop l (nodes_data ns)"
    "nodes_len (cut f r ns) = nodes_len ns - l" "frees (cut f r ns) = frees (drop f ns)" by blast+
qed

lemma nth_cut:
  "f + i < length ns \<Longrightarrow> bn_off (cut f r ns ! i) = (if i = 0 then bn_off (ns ! f) - r else bn_off (ns ! (f + i)))"
proof -
  assume a: "f + i < length ns"
  then have "drop f ns = ns ! f # drop (Suc f) ns" by (simp add: Cons_nth_drop_Suc)
  with a show ?thesis by (cases i) (simp_all add: cut_def)
qed

lemma length_cut [simp]: "length (cut f r ns) = length ns - f"
proof (cases "drop f ns")
  case (Cons n ns')
  have "length (drop f ns) = length ns - f" by simp
  with Cons have "Suc (length ns') = length ns - f" by simp
  with Cons show ?thesis by (simp add: cut_def)
qed (simp add: cut_def)

lemma twd_ok_cut:
  assumes "twd_ok ns t" "f < length ns" "r < bn_off (ns ! f) \<or> r = 0"
  shows "twd_ok (cut f r ns) (t - f)"
  unfolding twd_ok_def
proof (intro conjI allI impI)
  have len: "0 < length (cut f r ns)" using assms(2) by simp
  have t: "t < length ns" using assms(1,2) by (auto simp: twd_ok_def split: if_splits)
  show "if cut f r ns = [] then t - f = 0 else t - f < length (cut f r ns)"
    using t assms(2) len by (simp del: length_cut) (simp add: diff_less_mono)
  show "bn_off (cut f r ns ! i) \<noteq> 0" if "i < t - f" for i
  proof -
    have "bn_off (ns ! (f + i)) \<noteq> 0" using that assms(1) by (simp add: twd_ok_def)
    with that t assms(3) show ?thesis by (auto simp: nth_cut)
  qed
  show "bn_off (cut f r ns ! (t - f)) \<noteq> 0" if "0 < t - f"
  proof -
    have "bn_off (ns ! t) \<noteq> 0" using that assms(1) by (simp add: twd_ok_def)
    with that t show ?thesis by (simp add: nth_cut)
  qed
  show "bn_off (cut f r ns ! i) = 0" if "i < length (cut f r ns)" "t - f < i" for i
    using that assms(1) by (simp add: nth_cut twd_ok_def)
qed

lemma nodes_len_take_cut:
  assumes "f < length ns" "r \<le> bn_off (ns ! f)" "0 < j" "f + j \<le> length ns"
  shows "nodes_len (take j (cut f r ns)) = nodes_len (take (f + j) ns) - nodes_len (take f ns) - r"
proof -
  obtain i where i: "j = Suc i" using assms(3) by (cases j) auto
  have d: "drop f ns = ns ! f # drop (Suc f) ns" using assms(1) by (simp add: Cons_nth_drop_Suc)
  have "nodes_len (take (f + j) ns) = nodes_len (take f ns) + nodes_len (take j (drop f ns))"
    by (simp add: take_add)
  with assms(2) show ?thesis by (simp add: cut_def d i)
qed

text \<open>The cursor after the cut, as the code adjusts it.\<close>

lemma hint_ok_cut:
  assumes h: "hint_ok ns (Some k) base" and f: "f \<le> length ns" "nodes_len (take f ns) \<le> l"
    "f < length ns \<Longrightarrow> l - nodes_len (take f ns) < bn_off (ns ! f)" and l: "l \<le> base"
  shows "f \<le> k" "hint_ok (cut f (l - nodes_len (take f ns)) ns) (Some (k - f)) (base - l)"
proof -
  let ?r = "l - nodes_len (take f ns)"
  have k: "k < length ns" "bn_off (ns ! k) \<noteq> 0" "base = nodes_len (take k ns)" using h by (auto simp: hint_ok_def)
  have mono: "nodes_len (take i ns) \<le> nodes_len (take j ns)" if "i \<le> j" for i j
  proof -
    have "take j ns = take i ns @ take (j - i) (drop i ns)" using that by (metis le_add_diff_inverse take_add)
    then show ?thesis by simp
  qed
  show fk: "f \<le> k"
  proof (rule ccontr)
    assume "\<not> f \<le> k"
    then have "nodes_len (take (Suc k) ns) \<le> nodes_len (take f ns)" by (intro mono) simp
    with f(2) l k take_Suc_len [OF k(1)] show False by simp
  qed
  then have fl: "f < length ns" using k by simp
  have r: "?r < bn_off (ns ! f)" using f(3) [OF fl] .
  show "hint_ok (cut f ?r ns) (Some (k - f)) (base - l)"
  proof (cases "k = f")
    case True
    then have "?r = 0" using l k by simp
    moreover have "base = l" using True k l f(2) by simp
    ultimately show ?thesis using True k by (simp add: hint_ok_def nth_cut)
  next
    case False
    with fk have "0 < k - f" by simp
    have "nodes_len (take (k - f) (cut f ?r ns)) = base - l"
      using nodes_len_take_cut [OF fl _ \<open>0 < k - f\<close>, of ?r] fk k r f(2) by simp
    moreover have "bn_off (cut f ?r ns ! (k - f)) \<noteq> 0"
      using nth_cut [of f "k - f" ns ?r] fk False k by simp
    ultimately show ?thesis using k fk by (simp add: hint_ok_def diff_less_mono)
  qed
qed

section \<open>Drain\<close>

text \<open>The state after cutting \<open>l\<close> bytes, with any cursor that is valid on the new chain.\<close>

lemma drained_state:
  assumes b: "binv b" and f: "f \<le> length (bf_nodes b)" "nodes_len (take f (bf_nodes b)) \<le> l"
    "f < length (bf_nodes b) \<Longrightarrow> l - nodes_len (take f (bf_nodes b)) < bn_off (bf_nodes b ! f) \<or>
        l = nodes_len (take f (bf_nodes b))"
    and l: "l \<le> bf_total b" and s: "spare_ok s"
    and h: "hint_ok (cut f (l - nodes_len (take f (bf_nodes b))) (bf_nodes b)) h base"
  defines "b' \<equiv> b\<lparr>bf_nodes := cut f (l - nodes_len (take f (bf_nodes b))) (bf_nodes b),
      bf_twd := (if f < length (bf_nodes b) then bf_twd b - f else 0), bf_total := bf_total b - l,
      bf_hint := h, bf_hint_base := base, bf_spare := s, bf_released := bf_released b @ frees (take f (bf_nodes b))\<rparr>"
  shows "binv b'" "content b' = drop l (content b)" "ledger b' = ledger b"
proof -
  let ?ns = "bf_nodes b" and ?r = "l - nodes_len (take f (bf_nodes b))"
  have ok: "list_all node_ok ?ns" "unused ?ns" "l \<le> nodes_len ?ns" "twd_ok ?ns (bf_twd b)"
    and tot: "bf_total b = nodes_len ?ns" and idl: "\<not> bf_freeze_read b" "\<not> bf_freeze_write b" "bf_pinned b = 0"
    using b l by (simp_all add: binv_def bcore_def idle_def)
  note c = cut_facts [OF ok(1,2) f(1,2) f(3) ok(3)]
  have t: "twd_ok (cut f ?r ?ns) (if f < length ?ns then bf_twd b - f else 0)"
  proof (cases "f < length ?ns")
    case True
    have "?r < bn_off (?ns ! f) \<or> ?r = 0" using f(3) [OF True] by auto
    with True twd_ok_cut [OF ok(4) True] show ?thesis by simp
  next
    case False
    then have "length (cut f ?r ?ns) = 0" by simp
    with False show ?thesis by (simp add: twd_ok_def del: length_cut)
  qed
  show "binv b'"
    using c t tot h s idl by (simp add: b'_def binv_def bcore_def idle_def)
  show "content b' = drop l (content b)" using c(3) by (simp add: b'_def content_def)
  have "frees ?ns = frees (take f ?ns) @ frees (drop f ?ns)" by (simp flip: frees_append)
  then show "ledger b' = ledger b" using c(5) by (simp add: b'_def ledger_def)
qed

definition drains :: "buffer \<Rightarrow> nat \<Rightarrow> (nat \<times> buffer) option \<Rightarrow> bool" where
  "drains b l r \<longleftrightarrow> (\<exists>b'. r = Some (min l (bf_total b), b') \<and> binv b' \<and>
     content b' = drop l (content b) \<and> ledger b' = ledger b)"

text \<open>Cutting into the head node, the first branch of both paths.\<close>

lemma drain_head:
  assumes b: "binv b" and n: "bf_nodes b = n # ns" and l: "l < bn_off n \<or> l = 0"
    and base: "base = (if bf_hint b \<noteq> None \<and> bf_hint b \<noteq> Some 0 then bf_hint_base b - l else bf_hint_base b)"
  shows "drains b l (Some (l, (upd_node 0 (drain_node l) b)\<lparr>bf_hint_base := base, bf_total := bf_total b - l\<rparr>))"
proof -
  have tot: "bf_total b = nodes_len (bf_nodes b)" "spare_ok (bf_spare b)" and h: "hint_ok (bf_nodes b) (bf_hint b) (bf_hint_base b)"
    using b by (simp_all add: binv_def bcore_def)
  have le: "l \<le> bf_total b" using tot n l by auto
  have cut: "cut 0 l (bf_nodes b) = drain_node l n # ns" using n by (simp add: cut_def)
  have "hint_ok (cut 0 l (bf_nodes b)) (bf_hint b) base"
  proof (cases "bf_hint b")
    case (Some k)
    with h n have k: "k < Suc (length ns)" "bn_off ((n # ns) ! k) \<noteq> 0" "bf_hint_base b = nodes_len (take k (n # ns))"
      by (auto simp: hint_ok_def)
    show ?thesis
    proof (cases k)
      case 0
      with Some k l base show ?thesis by (auto simp: hint_ok_def cut)
    next
      case (Suc j)
      with Some k l base show ?thesis by (auto simp: hint_ok_def cut)
    qed
  qed (simp add: hint_ok_def)
  note h' = this
  let ?b' = "b\<lparr>bf_nodes := drain_node l n # ns, bf_total := bf_total b - l, bf_hint_base := base\<rparr>"
  have self: "b\<lparr>bf_nodes := x, bf_twd := bf_twd b, bf_total := y, bf_hint := bf_hint b, bf_hint_base := z,
      bf_spare := bf_spare b, bf_released := bf_released b\<rparr> = b\<lparr>bf_nodes := x, bf_total := y, bf_hint_base := z\<rparr>" for x y z
    by (cases b) simp
  have pre: "0 \<le> length (bf_nodes b)" "nodes_len (take 0 (bf_nodes b)) \<le> l"
    "0 < length (bf_nodes b) \<Longrightarrow> l - nodes_len (take 0 (bf_nodes b)) < bn_off (bf_nodes b ! 0) \<or> l = nodes_len (take 0 (bf_nodes b))"
    using l n by auto
  have h2: "hint_ok (cut 0 (l - nodes_len (take 0 (bf_nodes b))) (bf_nodes b)) (bf_hint b) base" using h' by simp
  have st: "binv ?b'" "content ?b' = drop l (content b)" "ledger ?b' = ledger b"
    using drained_state [OF b pre le tot(2) h2] n cut self by simp_all
  have e: "(upd_node 0 (drain_node l) b)\<lparr>bf_hint_base := base, bf_total := bf_total b - l\<rparr> = ?b'"
    using n by (simp add: upd_node_def)
  show ?thesis unfolding drains_def e
    using st le by (intro exI [of _ ?b']) (simp add: min_def)
qed

text \<open>The only node is released and the buffer reset.\<close>

lemma drain_whole:
  assumes b: "binv b" and n: "bf_nodes b = [n]" and l: "bn_off n \<le> l"
  shows "drains b l (Some (bn_off n, buffer_reset_keep_want (buffer_node_free n b)))"
proof -
  have ok: "node_ok n" "spare_ok (bf_spare b)" "bf_total b = bn_off n"
    using b n by (simp_all add: binv_def bcore_def)
  obtain s where s: "buffer_node_free n b = b\<lparr>bf_spare := s, bf_released := bf_released b @ frees [n]\<rparr>" "spare_ok s"
    using buffer_node_free_ok [OF ok(1,2)] by metis
  have "length (content b) \<le> l" using length_content [of b] b ok(3) l by (simp add: binv_def)
  then show ?thesis unfolding drains_def s(1)
    using ok l s(2) n
    by (simp add: buffer_reset_keep_want_def buffer_init_keep_def binv_def bcore_def idle_def twd_ok_def hint_ok_def
        content_def ledger_def)
qed

text \<open>The general loop, with the cursor handling around it.\<close>

lemma drain_multi:
  assumes b: "binv b" and l: "l \<le> bf_total b"
  shows "drains b l
    (let hint = bf_hint b; base = bf_hint_base b;
         b = b\<lparr>bf_hint := None, bf_hint_base := 0, bf_total := bf_total b - l\<rparr>
     in Option.bind (drain_loop (bf_nodes b) (bf_twd b) l b) (\<lambda>(ns, t, remain, b').
          let freed = length (bf_nodes b) - length ns in
          Option.bind
            (case ns of
               [] \<Rightarrow> Some (b'\<lparr>bf_nodes := [], bf_twd := 0\<rparr>)
             | n # ns' \<Rightarrow>
                 assertab (remain \<le> bn_off n)
                   (Some (b'\<lparr>bf_nodes := drain_node remain n # ns', bf_twd := t\<rparr>))) (\<lambda>b2.
          case hint of
            None \<Rightarrow> Some (l, b2)
          | Some k \<Rightarrow>
              if l \<le> base then
                (if k < freed then None
                 else Some (l, b2\<lparr>bf_hint := Some (k - freed), bf_hint_base := base - l\<rparr>))
              else if k = freed \<and> bf_nodes b2 \<noteq> [] \<and> bn_off (hd (bf_nodes b2)) \<noteq> 0
              then Some (l, b2\<lparr>bf_hint := Some 0, bf_hint_base := 0\<rparr>)
              else Some (l, b2))))" (is "drains b l ?R")
proof -
  let ?ns = "bf_nodes b" and ?b0 = "b\<lparr>bf_hint := None, bf_hint_base := 0, bf_total := bf_total b - l\<rparr>"
  have ok: "list_all node_ok ?ns" "unused ?ns" "l \<le> nodes_len ?ns" "spare_ok (bf_spare ?b0)"
    and h: "hint_ok ?ns (bf_hint b) (bf_hint_base b)"
    using b l by (simp_all add: binv_def bcore_def idle_def)
  obtain f s where f: "f \<le> length ?ns" "nodes_len (take f ?ns) \<le> l"
    "f < length ?ns \<Longrightarrow> l - nodes_len (take f ?ns) < bn_off (?ns ! f)" "spare_ok s"
    and lp: "drain_loop ?ns (bf_twd b) l ?b0 = Some (drop f ?ns, bf_twd b - f, l - nodes_len (take f ?ns),
       ?b0\<lparr>bf_spare := s, bf_released := bf_released ?b0 @ frees (take f ?ns)\<rparr>)"
    by (rule drain_loop_ok [OF ok, of "bf_twd b"], rule that)
  let ?r = "l - nodes_len (take f ?ns)"
  define T where "T = (if f < length ?ns then bf_twd b - f else 0)"
  let ?b2 = "b\<lparr>bf_nodes := cut f ?r ?ns, bf_twd := T,
      bf_total := bf_total b - l, bf_hint := None, bf_hint_base := 0, bf_spare := s,
      bf_released := bf_released b @ frees (take f ?ns)\<rparr>"
  have f3: "f < length ?ns \<Longrightarrow> ?r < bn_off (?ns ! f) \<or> l = nodes_len (take f ?ns)" using f(3) by blast
  note st = drained_state [OF b f(1,2) f3 l f(4), folded T_def]
  have st': "binv (?b2\<lparr>bf_hint := h, bf_hint_base := hb\<rparr>) \<and> content (?b2\<lparr>bf_hint := h, bf_hint_base := hb\<rparr>) = drop l (content b) \<and>
      ledger (?b2\<lparr>bf_hint := h, bf_hint_base := hb\<rparr>) = ledger b"
    if "hint_ok (cut f ?r ?ns) h hb" for h hb
  proof -
    have "?b2\<lparr>bf_hint := h, bf_hint_base := hb\<rparr> = b\<lparr>bf_nodes := cut f ?r ?ns,
      bf_twd := T, bf_total := bf_total b - l,
      bf_hint := h, bf_hint_base := hb, bf_spare := s, bf_released := bf_released b @ frees (take f ?ns)\<rparr>"
      by (cases b) simp
    note eq = this
    show ?thesis unfolding eq by (intro conjI st [OF _ that])
  qed
  have ret: "drains b l (Some (l, ?b2\<lparr>bf_hint := h, bf_hint_base := hb\<rparr>))" if "hint_ok (cut f ?r ?ns) h hb" for h hb
    unfolding drains_def using st' [OF that] l by (intro exI [of _ "?b2\<lparr>bf_hint := h, bf_hint_base := hb\<rparr>"]) simp
  have "?b2\<lparr>bf_hint := None, bf_hint_base := 0\<rparr> = ?b2" by (cases b) simp
  note eq2 = this
  have "hint_ok (cut f ?r ?ns) None 0" by (simp add: hint_ok_def)
  from ret [OF this] have ret0: "drains b l (Some (l, ?b2))" unfolding eq2 .
  have step: "(case drop f ?ns of
               [] \<Rightarrow> Some (?b0\<lparr>bf_spare := s, bf_released := bf_released b @ frees (take f ?ns), bf_nodes := [], bf_twd := 0\<rparr>)
             | n # ns' \<Rightarrow>
                 assertab (?r \<le> bn_off n)
                   (Some (?b0\<lparr>bf_spare := s, bf_released := bf_released b @ frees (take f ?ns),
                      bf_nodes := drain_node ?r n # ns', bf_twd := bf_twd b - f\<rparr>))) = Some ?b2"
  proof (cases "f < length ?ns")
    case True
    have "drop f ?ns = ?ns ! f # drop (Suc f) ?ns" using True by (simp add: Cons_nth_drop_Suc)
    with True f(3) [OF True] show ?thesis by (cases b) (simp add: cut_def T_def)
  next
    case False
    with f(1) show ?thesis by (cases b) (simp add: cut_def T_def)
  qed
  have freed: "length ?ns - length (drop f ?ns) = f" using f(1) by simp
  have R: "?R = (case bf_hint b of
            None \<Rightarrow> Some (l, ?b2)
          | Some k \<Rightarrow>
              if l \<le> bf_hint_base b then
                (if k < f then None else Some (l, ?b2\<lparr>bf_hint := Some (k - f), bf_hint_base := bf_hint_base b - l\<rparr>))
              else if k = f \<and> bf_nodes ?b2 \<noteq> [] \<and> bn_off (hd (bf_nodes ?b2)) \<noteq> 0
              then Some (l, ?b2\<lparr>bf_hint := Some 0, bf_hint_base := 0\<rparr>)
              else Some (l, ?b2))"
    using lp step freed by (cases "bf_hint b") (simp_all add: Let_def)
  show ?thesis
  proof (cases "bf_hint b")
    case None
    with R ret0 show ?thesis by simp
  next
    case (Some k)
    show ?thesis
    proof (cases "l \<le> bf_hint_base b")
      case True
      have h': "hint_ok ?ns (Some k) (bf_hint_base b)" using h Some by simp
      note hc = hint_ok_cut [OF h' f(1,2) f(3) True]
      from ret [OF hc(2)] hc(1) True Some R show ?thesis by simp
    next
      case False
      show ?thesis
      proof (cases "k = f \<and> bf_nodes ?b2 \<noteq> [] \<and> bn_off (hd (bf_nodes ?b2)) \<noteq> 0")
        case True
        then have "hint_ok (cut f ?r ?ns) (Some 0) 0" by (cases "cut f ?r ?ns") (simp_all add: hint_ok_def del: length_cut)
        from ret [OF this] R Some False True show ?thesis by simp
      next
        case f: False
        with R Some False ret0 show ?thesis by auto
      qed
    qed
  qed
qed

lemma drain_slow_ok:
  assumes b: "binv b"
  shows "drains b l (buffer_drain_slow b l)"
proof -
  have idl: "\<not> bf_freeze_read b" "\<not> bf_freeze_write b" and core: "bcore b" and u: "unused (bf_nodes b)"
    using b by (simp_all add: binv_def idle_def)
  have len: "length (content b) = bf_total b" using length_content [OF core] .
  show ?thesis
  proof (cases "bf_nodes b \<noteq> [] \<and> \<not> bn_used (hd (bf_nodes b)) \<and> l < bn_off (hd (bf_nodes b))")
    case True
    then obtain n ns where n: "bf_nodes b = n # ns" by (cases "bf_nodes b") auto
    with True have "l < bn_off n \<or> l = 0" by simp
    from drain_head [OF b n this refl] True idl show ?thesis by (simp add: buffer_drain_slow_def)
  next
    case head: False
    show ?thesis
    proof (cases "bf_total b = 0")
      case True
      then have "drop l (content b) = []" using len by simp
      with head True idl b show ?thesis
        using len by (auto simp: buffer_drain_slow_def drains_def)
    next
      case False
      define L where "L = (if bf_total b < l then bf_total b else l)"
      have L: "L = min l (bf_total b)" "L \<le> bf_total b" by (auto simp: L_def)
      have dr: "drop L (content b) = drop l (content b)" using len by (auto simp: L_def)
      have conv: "drains b l r" if "drains b L r" for r
        using that unfolding drains_def L(1) dr [unfolded L(1)] by simp
      obtain n ns where n: "bf_nodes b = n # ns" using False core by (cases "bf_nodes b") (auto simp: bcore_def)
      have un: "\<not> bn_used n" using u n by simp
      show ?thesis
      proof (cases "ns = []")
        case True
        have "bn_off n \<le> l" using head n un by simp
        moreover have "bf_total b = bn_off n" using core n True by (simp add: bcore_def)
        ultimately have "L = bn_off n" by (simp add: L_def)
        with drain_whole [OF b, of n l] n True un head False idl \<open>bn_off n \<le> l\<close> \<open>bf_total b = bn_off n\<close> show ?thesis
          by (auto simp: buffer_drain_slow_def Let_def)
      next
        case multi: False
        have "buffer_drain_slow b l = (let hint = bf_hint b; base = bf_hint_base b;
             b = b\<lparr>bf_hint := None, bf_hint_base := 0, bf_total := bf_total b - L\<rparr>
         in Option.bind (drain_loop (bf_nodes b) (bf_twd b) L b) (\<lambda>(ns, t, remain, b').
              let freed = length (bf_nodes b) - length ns in
              Option.bind
                (case ns of
                   [] \<Rightarrow> Some (b'\<lparr>bf_nodes := [], bf_twd := 0\<rparr>)
                 | n # ns' \<Rightarrow>
                     assertab (remain \<le> bn_off n)
                       (Some (b'\<lparr>bf_nodes := drain_node remain n # ns', bf_twd := t\<rparr>))) (\<lambda>b2.
              case hint of
                None \<Rightarrow> Some (L, b2)
              | Some k \<Rightarrow>
                  if L \<le> base then
                    (if k < freed then None
                     else Some (L, b2\<lparr>bf_hint := Some (k - freed), bf_hint_base := base - L\<rparr>))
                  else if k = freed \<and> bf_nodes b2 \<noteq> [] \<and> bn_off (hd (bf_nodes b2)) \<noteq> 0
                  then Some (L, b2\<lparr>bf_hint := Some 0, bf_hint_base := 0\<rparr>)
                  else Some (L, b2))))"
        proof -
          have c: "\<not> (bf_nodes b \<noteq> [] \<and> \<not> bn_used (hd (bf_nodes b)) \<and> l < bn_off (hd (bf_nodes b)))"
            "\<not> (length (bf_nodes b) = 1 \<and> \<not> bn_used (hd (bf_nodes b)))" using head n multi by auto
          show ?thesis
            unfolding buffer_drain_slow_def L_def [symmetric]
            by (simp only: idl c False Let_def assertab_True not_False_eq_True if_False)
        qed
        with conv [OF drain_multi [OF b L(2)]] show ?thesis by simp
      qed
    qed
  qed
qed

lemma drain_ok:
  assumes b: "binv b"
  shows "\<exists>b'. buffer_drain b l = Some (min l (bf_total b), b') \<and> binv b' \<and>
     content b' = drop l (content b) \<and> ledger b' = ledger b"
proof -
  have idl: "\<not> bf_freeze_read b" "\<not> bf_freeze_write b" and core: "bcore b" using b by (simp_all add: binv_def idle_def)
  have "drains b l (buffer_drain b l)"
  proof (cases "length (bf_nodes b) = 1 \<and> \<not> bn_used (hd (bf_nodes b)) \<and> l \<le> bn_off (hd (bf_nodes b))")
    case False
    then have "buffer_drain b l = buffer_drain_slow b l" by (auto simp: buffer_drain_def)
    with drain_slow_ok [OF b] show ?thesis by simp
  next
    case True
    then obtain n where n: "bf_nodes b = [n]" by (cases "bf_nodes b") auto
    show ?thesis
    proof (cases "l = bn_off n \<and> l \<noteq> 0")
      case whole: True
      with drain_whole [OF b n, of l] True n idl show ?thesis
        by (simp add: buffer_drain_def buffer_drain_whole_def)
    next
      case False
      then have l: "l < bn_off n \<or> l = 0" using True n by auto
      have h: "bf_hint b = None \<or> bf_hint b = Some 0"
        using core n by (auto simp: bcore_def hint_ok_def split: option.splits)
      have "(upd_node 0 (drain_node l) b)\<lparr>bf_hint_base := bf_hint_base b, bf_total := bf_total b - l\<rparr> =
          (upd_node 0 (drain_node l) b)\<lparr>bf_total := bf_total b - l\<rparr>" by (cases b) (simp add: upd_node_def)
      with drain_head [OF b n l, of "bf_hint_base b"] h False True n idl show ?thesis
        by (auto simp: buffer_drain_def)
    qed
  qed
  then show ?thesis by (simp add: drains_def)
qed

section \<open>Remove\<close>

lemma remove_ok:
  assumes b: "binv b"
  shows "\<exists>b'. buffer_remove b l = Some (take l (content b), min l (bf_total b), b') \<and> binv b' \<and>
     content b' = drop l (content b) \<and> ledger b' = ledger b"
proof (cases "length (bf_nodes b) = 1 \<and> \<not> bn_used (hd (bf_nodes b)) \<and> l \<noteq> 0 \<and> bn_off (hd (bf_nodes b)) \<noteq> 0")
  case True
  have idl: "\<not> bf_freeze_read b" "\<not> bf_freeze_write b" and core: "bcore b" using b by (simp_all add: binv_def idle_def)
  obtain n where n: "bf_nodes b = [n]" using True by (cases "bf_nodes b") auto
  have tot: "bf_total b = bn_off n" using core n by (simp add: bcore_def)
  have sl: "node_slice n 0 k = take k (content b)" if "k \<le> bn_off n" for k
    using head_slice [OF core n, of 0 k] that by simp
  show ?thesis
  proof (cases "bn_off n \<le> l")
    case whole: True
    have "take (bn_off n) (content b) = take l (content b)"
      using length_content [OF core] tot whole by simp
    with drain_whole [OF b n whole] True whole n idl sl [of "bn_off n"] tot show ?thesis
      by (auto simp: buffer_remove_def drains_def Let_def)
  next
    case False
    then have l: "l < bn_off n \<or> l = 0" by simp
    have h: "bf_hint b = None \<or> bf_hint b = Some 0"
      using core n by (auto simp: bcore_def hint_ok_def split: option.splits)
    have "(upd_node 0 (drain_node l) b)\<lparr>bf_hint_base := bf_hint_base b, bf_total := bf_total b - l\<rparr> =
        (upd_node 0 (drain_node l) b)\<lparr>bf_total := bf_total b - l\<rparr>" by (cases b) (simp add: upd_node_def)
    with drain_head [OF b n l, of "bf_hint_base b"] h False True n idl sl [of l] show ?thesis
      by (auto simp: buffer_remove_def drains_def Let_def)
  qed
next
  case False
  obtain b1 where b1: "buffer_copyout b 0 l = Some (take l (content b), min l (bf_total b), b1)" "same_stream b b1"
    using copyout_ok [OF b, of 0 l] by auto
  then have s: "binv b1" "content b1 = content b" "ledger b1 = ledger b" "bf_total b1 = bf_total b"
    by (simp_all add: same_stream_def)
  have e: "buffer_remove b l = Option.bind (buffer_copyout b 0 l) (\<lambda>(out, rtn, b).
        if 0 < rtn
        then Option.bind (buffer_drain b rtn) (\<lambda>(n, b). assertab (rtn = n) (Some (out, rtn, b)))
        else Some (out, rtn, b))"
    using False by (auto simp: buffer_remove_def)
  show ?thesis
  proof (cases "0 < min l (bf_total b)")
    case True
    obtain b2 where b2: "buffer_drain b1 (min l (bf_total b)) = Some (min (min l (bf_total b)) (bf_total b1), b2)"
      "binv b2" "content b2 = drop (min l (bf_total b)) (content b1)" "ledger b2 = ledger b1"
      using drain_ok [OF s(1)] by metis
    have "drop (min l (bf_total b)) (content b) = drop l (content b)"
      using length_content [of b] b by (auto simp: binv_def min_def)
    with True b1 b2 s e show ?thesis by auto
  next
    case f: False
    have "length (content b) = bf_total b" using length_content [of b] b by (simp add: binv_def)
    then have "drop l (content b) = content b" using f by auto
    with f b1 s e show ?thesis by auto
  qed
qed

section \<open>Free\<close>

text \<open>Every zero-copy block still in the chain is released, in order, after those released before.\<close>

lemma free_ok:
  assumes b: "binv b"
  shows "\<exists>b'. buffer_free b = Some b' \<and> binv b' \<and> content b' = [] \<and> bf_released b' = ledger b"
proof -
  have idl: "\<not> bf_freeze_read b" "\<not> bf_freeze_write b" "list_all node_ok (bf_nodes b)" "spare_ok (bf_spare b)"
    using b by (simp_all add: binv_def idle_def bcore_def)
  obtain s where "buffer_free_all_node (bf_nodes b) b = b\<lparr>bf_spare := s, bf_released := bf_released b @ frees (bf_nodes b)\<rparr>"
    "spare_ok s" using buffer_free_all_node_ok [OF idl(3,4)] by metis
  with idl show ?thesis
    by (simp add: buffer_free_def buffer_init_keep_def binv_def bcore_def idle_def twd_ok_def hint_ok_def
        content_def ledger_def)
qed

end
