(* ===== verification/Byte_Stream.thy ===== *)
theory Byte_Stream
  imports Prelude
begin

text \<open>
  The contract of a receive buffer, as the protocol parsers rely on it: bytes are appended at the
  end, looked at by position, searched, and removed at the front. The locale \<open>byte_stream\<close> states
  the contract over the abstract stream; its lemmas hold for every provider, whatever way the
  bytes are stored in.
\<close>

text \<open>A client's sequence of operations and the bytes its \<open>Fetch\<close>es return.\<close>

datatype stream_op = Feed bytes | Fetch nat

fun stream_run :: "('b \<Rightarrow> bytes \<Rightarrow> 'b option) \<Rightarrow> ('b \<Rightarrow> nat \<Rightarrow> (bytes \<times> nat \<times> 'b) option) \<Rightarrow>
    stream_op list \<Rightarrow> 'b \<Rightarrow> (bytes \<times> 'b) option" where
  "stream_run app rm [] b = Some ([], b)"
| "stream_run app rm (Feed d # ops) b = Option.bind (app b d) (stream_run app rm ops)"
| "stream_run app rm (Fetch n # ops) b =
     Option.bind (rm b n) (\<lambda>(out, _, b). map_option (\<lambda>(outs, b). (out @ outs, b)) (stream_run app rm ops b))"

fun fed :: "stream_op list \<Rightarrow> bytes" where
  "fed [] = []"
| "fed (Feed d # ops) = d @ fed ops"
| "fed (Fetch n # ops) = fed ops"

fun feeds_ok :: "nat \<Rightarrow> stream_op list \<Rightarrow> bool" where
  "feeds_ok limit [] = True"
| "feeds_ok limit (Feed d # ops) = (length d \<le> limit \<and> feeds_ok limit ops)"
| "feeds_ok limit (Fetch n # ops) = feeds_ok limit ops"

locale byte_stream =
  fixes inv :: "'b \<Rightarrow> bool"
    and stream :: "'b \<Rightarrow> bytes"
    and app :: "'b \<Rightarrow> bytes \<Rightarrow> 'b option"
    and copy :: "'b \<Rightarrow> nat \<Rightarrow> nat \<Rightarrow> (bytes \<times> nat \<times> 'b) option"
    and drain :: "'b \<Rightarrow> nat \<Rightarrow> (nat \<times> 'b) option"
    and rm :: "'b \<Rightarrow> nat \<Rightarrow> (bytes \<times> nat \<times> 'b) option"
    and limit :: nat
  assumes app_law: "inv b \<Longrightarrow> length d \<le> limit \<Longrightarrow> \<exists>b'. app b d = Some b' \<and> inv b' \<and> stream b' = stream b @ d"
    and copy_law: "inv b \<Longrightarrow> \<exists>b'. copy b start n =
        Some (take n (drop start (stream b)), min n (length (stream b) - start), b') \<and> inv b' \<and> stream b' = stream b"
    and drain_law: "inv b \<Longrightarrow> \<exists>b'. drain b n = Some (min n (length (stream b)), b') \<and> inv b' \<and>
        stream b' = drop n (stream b)"
    and rm_law: "inv b \<Longrightarrow> \<exists>b'. rm b n = Some (take n (stream b), min n (length (stream b)), b') \<and> inv b' \<and>
        stream b' = drop n (stream b)"
begin

text \<open>Whatever is fed comes out once, in order, however feeding and fetching are interleaved.\<close>

lemma stream_order:
  assumes "inv b" "feeds_ok limit ops"
  shows "\<exists>outs b'. stream_run app rm ops b = Some (outs, b') \<and> inv b' \<and> outs @ stream b' = stream b @ fed ops"
  using assms
proof (induction ops arbitrary: b)
  case Nil
  then show ?case by simp
next
  case (Cons opn ops)
  show ?case
  proof (cases opn)
    case (Feed d)
    with Cons.prems obtain b1 where b1: "app b d = Some b1" "inv b1" "stream b1 = stream b @ d"
      using app_law [of b d] by auto
    with Cons.IH [of b1] Cons.prems Feed show ?thesis by auto
  next
    case (Fetch n)
    obtain b1 where b1: "rm b n = Some (take n (stream b), min n (length (stream b)), b1)" "inv b1"
      "stream b1 = drop n (stream b)" using rm_law [OF Cons.prems(1), of n] by auto
    obtain outs b' where r: "stream_run app rm ops b1 = Some (outs, b')" "inv b'" "outs @ stream b' = stream b1 @ fed ops"
      using Cons.IH [OF b1(2)] Cons.prems Fetch by auto
    have "(take n (stream b) @ outs) @ stream b' = stream b @ fed (opn # ops)"
      using r(3) b1(3) Fetch by simp
    with b1 r Fetch show ?thesis by (intro exI [of _ "take n (stream b) @ outs"] exI [of _ b']) simp
  qed
qed

text \<open>Feeding in chunks is feeding at once: a reader sees only the concatenation.\<close>

lemma feed_chunks:
  assumes "inv b" "\<forall>c\<in>set chunks. length c \<le> limit"
  shows "\<exists>b'. stream_run app rm (map Feed chunks) b = Some ([], b') \<and> inv b' \<and> stream b' = stream b @ concat chunks"
  using assms
proof (induction chunks arbitrary: b)
  case (Cons c chunks)
  obtain b1 where b1: "app b c = Some b1" "inv b1" "stream b1 = stream b @ c"
    using app_law [of b c] Cons.prems by auto
  with Cons.IH [of b1] Cons.prems show ?case by auto
qed simp

text \<open>Peeking at a header and then dropping it together with the body it announces.\<close>

lemma copy_then_drain:
  assumes "inv b" "start + n \<le> length (stream b)"
  shows "\<exists>b1. copy b start n = Some (take n (drop start (stream b)), n, b1) \<and> inv b1 \<and> stream b1 = stream b \<and>
    (\<exists>b2. drain b1 (start + n) = Some (start + n, b2) \<and> inv b2 \<and> stream b2 = drop (start + n) (stream b))"
proof -
  obtain b1 where b1: "copy b start n = Some (take n (drop start (stream b)), min n (length (stream b) - start), b1)"
    "inv b1" "stream b1 = stream b" using copy_law [OF assms(1), of start n] by auto
  obtain b2 where "drain b1 (start + n) = Some (min (start + n) (length (stream b1)), b2)" "inv b2"
    "stream b2 = drop (start + n) (stream b1)" using drain_law [OF b1(2), of "start + n"] by auto
  with b1 assms(2) show ?thesis by (auto simp: min_def)
qed

end

text \<open>
  The part of the contract a parser that looks before it takes relies on: the length, a byte by
  position, and the announcement of missing bytes, which is advice and changes no byte.
\<close>

locale peek_stream = byte_stream inv stream app copy drain rm limit
  for inv :: "'b \<Rightarrow> bool" and stream :: "'b \<Rightarrow> bytes" and app copy drain rm limit +
  fixes len :: "'b \<Rightarrow> nat"
    and at :: "'b \<Rightarrow> nat \<Rightarrow> (u8 \<times> 'b) option"
    and want :: "'b \<Rightarrow> nat \<Rightarrow> 'b"
  assumes len_law: "inv b \<Longrightarrow> len b = length (stream b)"
    and at_law: "inv b \<Longrightarrow> p < length (stream b) \<Longrightarrow> \<exists>b'. at b p = Some (stream b ! p, b') \<and> inv b' \<and> stream b' = stream b"
    and want_law: "inv b \<Longrightarrow> inv (want b n) \<and> stream (want b n) = stream b"
begin

lemma peek_at:
  assumes "inv b" "p < length (stream b)"
  obtains b' where "at b p = Some (stream b ! p, b')" "inv b'" "stream b' = stream b"
  using at_law [OF assms] by blast

lemma peek_copy:
  assumes "inv b" "start + n \<le> length (stream b)"
  obtains b' where "copy b start n = Some (take n (drop start (stream b)), n, b')" "inv b'" "stream b' = stream b"
  using copy_law [OF assms(1), of start n] assms(2) by (auto simp: min_def)

lemma take_out:
  assumes "inv b" "n \<le> length (stream b)"
  obtains b' where "drain b n = Some (n, b')" "inv b'" "stream b' = drop n (stream b)"
  using drain_law [OF assms(1), of n] assms(2) by (auto simp: min_def)

lemma remove_out:
  assumes "inv b" "n \<le> length (stream b)"
  obtains b' where "rm b n = Some (take n (stream b), n, b')" "inv b'" "stream b' = drop n (stream b)"
  using rm_law [OF assms(1), of n] assms(2) by (auto simp: min_def)

end

end
