(* ===== verification/Buffer.thy ===== *)
theory Buffer
  imports Buffer_Drain Byte_Stream
begin

text \<open>
  The buffer of \<open>lib/utils/buffer.c\<close> as a whole: it provides the \<open>byte_stream\<close> contract, and the
  properties of its operations, stated on \<open>content\<close> (the stream) and \<open>ledger\<close> (the zero-copy
  blocks).
\<close>

section \<open>The scattered read\<close>

text \<open>The bytes a sender reads through an iov list.\<close>

definition iov_read :: "buffer \<Rightarrow> iov list \<Rightarrow> bytes" where
  "iov_read b iv = concat (map (\<lambda>v. mem_get (bn_buffer (bf_nodes b ! iv_node v)) (iv_pos v) (iv_len v)) iv)"

definition pin_first :: "nat \<Rightarrow> bufnode list \<Rightarrow> bufnode list" where
  "pin_first k ns = map (\<lambda>n. n\<lparr>bn_used := True\<rparr>) (take k ns) @ drop k ns"

lemma pin_first_simps: "pin_first 0 ns = ns" "pin_first (Suc k) (n # ns) = n\<lparr>bn_used := True\<rparr> # pin_first k ns"
  by (simp_all add: pin_first_def)

lemma unpin_pin_first: "unused ns \<Longrightarrow> k \<le> length ns \<Longrightarrow> unpin k (pin_first k ns) = ns"
proof (induction ns arbitrary: k)
  case (Cons n ns)
  have "n\<lparr>bn_used := True, bn_used := False\<rparr> = n" using Cons.prems by (cases n) simp
  with Cons show ?case by (cases k) (auto simp: pin_first_simps)
qed (simp add: pin_first_def)

lemma get_scan_ok:
  assumes "list_all node_ok ns" "atmost \<le> nodes_len ns"
  obtains iv where "get_scan cnt atmost i ns = (iv, pin_first (length iv) ns)"
    "length iv \<le> length ns" "length iv \<le> cnt - i" "iov_total iv \<le> atmost"
    "iov_total iv < atmost \<Longrightarrow> length iv = cnt - i"
    "\<And>pre. length pre = i \<Longrightarrow>
       concat (map (\<lambda>v. mem_get (bn_buffer ((pre @ ns) ! iv_node v)) (iv_pos v) (iv_len v)) iv) =
       take (iov_total iv) (nodes_data ns)"
  using assms
proof (induction ns arbitrary: atmost i thesis)
  case Nil
  then show ?case by (intro Nil.prems(1) [of "[]"]) (simp_all add: iov_total_def pin_first_def)
next
  case (Cons n ns)
  show ?case
  proof (cases "i < cnt \<and> 0 < atmost")
    case False
    then show ?thesis by (intro Cons.prems(1) [of "[]"]) (auto simp: iov_total_def pin_first_def)
  next
    case True
    define len where "len = min atmost (bn_off n)"
    have ok: "node_ok n" "list_all node_ok ns" using Cons.prems by simp_all
    have rest: "(if len < bn_off n then 0 else atmost - len) = atmost - len" by (auto simp: len_def)
    have "atmost - len \<le> nodes_len ns" using Cons.prems(3) by (auto simp: len_def)
    note p = ok(2) this
    obtain iv where iv: "get_scan cnt (atmost - len) (Suc i) ns = (iv, pin_first (length iv) ns)"
      "length iv \<le> length ns" "length iv \<le> cnt - Suc i" "iov_total iv \<le> atmost - len"
      "iov_total iv < atmost - len \<Longrightarrow> length iv = cnt - Suc i"
      "\<And>pre. length pre = Suc i \<Longrightarrow>
         concat (map (\<lambda>v. mem_get (bn_buffer ((pre @ ns) ! iv_node v)) (iv_pos v) (iv_len v)) iv) =
         take (iov_total iv) (nodes_data ns)"
      by (rule Cons.IH [where atmost = "atmost - len" and i = "Suc i", OF _ p], rule that)
    define v where "v = \<lparr>iv_node = i, iv_pos = bn_misalign n, iv_len = len\<rparr>"
    have step: "get_scan cnt atmost i (n # ns) = (v # iv, pin_first (Suc (length iv)) (n # ns))"
    proof -
      have l: "(if atmost < bn_off n then atmost else bn_off n) = len" by (auto simp: len_def)
      show ?thesis using True iv(1) by (simp add: Let_def l rest v_def pin_first_simps)
    qed
    have tot: "iov_total (v # iv) = len + iov_total iv" by (simp add: iov_total_def v_def)
    have read: "concat (map (\<lambda>v. mem_get (bn_buffer ((pre @ n # ns) ! iv_node v)) (iv_pos v) (iv_len v)) (v # iv)) =
        take (iov_total (v # iv)) (nodes_data (n # ns))" if pre: "length pre = i" for pre
    proof -
      have "mem_get (bn_buffer n) (bn_misalign n) len = take len (node_data n)"
        unfolding node_data_def by (rule mem_get_take) (simp add: len_def)
      moreover have "concat (map (\<lambda>v. mem_get (bn_buffer (((pre @ [n]) @ ns) ! iv_node v)) (iv_pos v) (iv_len v)) iv) =
         take (iov_total iv) (nodes_data ns)"
        using iv(6) [of "pre @ [n]"] pre by simp
      moreover have "iov_total iv = 0" if "len < bn_off n"
        using that iv(4) by (simp add: len_def)
      ultimately show ?thesis
        using pre length_node_data [OF ok(1)] unfolding tot
        by (cases "len < bn_off n") (auto simp: v_def nth_append len_def min_def)
    qed
    show ?thesis
      by (rule Cons.prems(1) [of "v # iv"]) (use step iv True tot read in \<open>auto simp: len_def\<close>)
  qed
qed

lemma get_ok:
  assumes b: "binv b" and pos: "0 < atmost" "0 < cnt" "0 < bf_total b"
  obtains iv where
    "buffer_get b atmost cnt = Some (iv, b\<lparr>bf_freeze_read := True, bf_nodes := pin_first (length iv) (bf_nodes b),
        bf_pinned := length iv\<rparr>)"
    "length iv \<le> length (bf_nodes b)" "length iv \<le> cnt" "iov_total iv \<le> min atmost (bf_total b)"
    "iov_total iv < min atmost (bf_total b) \<Longrightarrow> length iv = cnt"
    "iov_read b iv = take (iov_total iv) (content b)"
proof -
  have idl: "\<not> bf_freeze_read b" "\<not> bf_freeze_write b" "list_all node_ok (bf_nodes b)" "bf_total b = nodes_len (bf_nodes b)"
    using b by (simp_all add: binv_def idle_def bcore_def)
  let ?a = "min atmost (bf_total b)"
  have "?a \<le> nodes_len (bf_nodes b)" using idl(4) by simp
  from get_scan_ok [OF idl(3) this, of cnt 0] obtain iv where iv:
    "get_scan cnt ?a 0 (bf_nodes b) = (iv, pin_first (length iv) (bf_nodes b))"
    "length iv \<le> length (bf_nodes b)" "length iv \<le> cnt - 0" "iov_total iv \<le> ?a"
    "iov_total iv < ?a \<Longrightarrow> length iv = cnt - 0"
    "\<And>pre. length pre = 0 \<Longrightarrow>
       concat (map (\<lambda>v. mem_get (bn_buffer ((pre @ bf_nodes b) ! iv_node v)) (iv_pos v) (iv_len v)) iv) =
       take (iov_total iv) (nodes_data (bf_nodes b))" by blast
  have a: "(if bf_total b < atmost then bf_total b else atmost) = ?a" by auto
  show thesis
  proof (rule that)
    have "buffer_get b atmost cnt = (let (iv, ns) = get_scan cnt ?a 0 (bf_nodes b)
       in Some (iv, b\<lparr>bf_freeze_read := True, bf_nodes := ns, bf_pinned := length iv\<rparr>))"
    proof -
      have "?a \<noteq> 0" using pos by simp
      then have "\<not> (?a = 0 \<or> cnt = 0)" using pos by blast
      then show ?thesis unfolding buffer_get_def a Let_def by (simp only: idl if_False assertab_True not_False_eq_True)
    qed
    then show "buffer_get b atmost cnt = Some (iv, b\<lparr>bf_freeze_read := True, bf_nodes := pin_first (length iv) (bf_nodes b),
        bf_pinned := length iv\<rparr>)" using iv(1) by simp
    show "iov_read b iv = take (iov_total iv) (content b)"
      using iv(6) [of "[]"] by (simp add: iov_read_def content_def)
  qed (use iv in auto)
qed

lemma commit_get_ok:
  assumes b: "binv b" and k: "k \<le> length (bf_nodes b)"
  shows "\<exists>b'. buffer_commit_get (b\<lparr>bf_freeze_read := True, bf_nodes := pin_first k (bf_nodes b), bf_pinned := k\<rparr>) l =
      Some b' \<and> binv b' \<and> content b' = drop l (content b) \<and> ledger b' = ledger b"
proof -
  have idl: "\<not> bf_freeze_read b" "bf_pinned b = 0" "unused (bf_nodes b)" using b by (simp_all add: binv_def idle_def)
  have "b\<lparr>bf_nodes := bf_nodes b, bf_pinned := 0, bf_freeze_read := False\<rparr> = b" using idl by (cases b) simp
  moreover have "b\<lparr>bf_freeze_read := True, bf_nodes := pin_first k (bf_nodes b), bf_pinned := k,
      bf_nodes := unpin k (pin_first k (bf_nodes b)), bf_pinned := 0, bf_freeze_read := False\<rparr> =
      b\<lparr>bf_nodes := bf_nodes b, bf_pinned := 0, bf_freeze_read := False\<rparr>"
    using unpin_pin_first [OF idl(3) k] by (cases b) simp
  ultimately have "buffer_commit_get (b\<lparr>bf_freeze_read := True, bf_nodes := pin_first k (bf_nodes b), bf_pinned := k\<rparr>) l =
      (if 0 < l then map_option snd (buffer_drain b l) else Some b)"
    by (simp add: buffer_commit_get_def Let_def)
  with drain_ok [OF b, of l] b show ?thesis by (cases "0 < l") auto
qed

section \<open>The contract\<close>

interpretation buf: byte_stream binv content buffer_append buffer_copyout buffer_drain buffer_remove ALLOC_MAX
proof
  fix b :: buffer and n start :: nat and d :: bytes
  assume b: "binv b"
  have len: "bf_total b = length (content b)" using b length_content [of b] by (simp add: binv_def)
  show "\<exists>b'. buffer_append b d = Some b' \<and> binv b' \<and> content b' = content b @ d" if "length d \<le> ALLOC_MAX"
    using append_ok [OF b that] by blast
  show "\<exists>b'. buffer_copyout b start n = Some (take n (drop start (content b)), min n (length (content b) - start), b') \<and>
      binv b' \<and> content b' = content b"
    using copyout_ok [OF b, of start n] len by (auto simp: same_stream_def)
  show "\<exists>b'. buffer_drain b n = Some (min n (length (content b)), b') \<and> binv b' \<and> content b' = drop n (content b)"
    using drain_ok [OF b, of n] len by auto
  show "\<exists>b'. buffer_remove b n = Some (take n (content b), min n (length (content b)), b') \<and> binv b' \<and>
      content b' = drop n (content b)"
    using remove_ok [OF b, of n] len by auto
qed

interpretation buf: peek_stream binv content buffer_append buffer_copyout buffer_drain buffer_remove ALLOC_MAX
  buffer_size buffer_at buffer_want
proof
  fix b :: buffer and n p :: nat
  assume b: "binv b"
  have len: "bf_total b = length (content b)" using b length_content [of b] by (simp add: binv_def)
  then show "buffer_size b = length (content b)" by (simp add: buffer_size_def)
  show "\<exists>b'. buffer_at b p = Some (content b ! p, b') \<and> binv b' \<and> content b' = content b" if "p < length (content b)"
    using at_ok [OF b, of p] that len by (auto simp: same_stream_def)
  show "binv (buffer_want b n) \<and> content (buffer_want b n) = content b"
    using b by (simp add: buffer_want_def binv_def bcore_def idle_def content_def)
qed

section \<open>Properties\<close>

text \<open>A chain of two zero-copy blocks, \<open>HEL\<close> and \<open>LO\<close> with a line end, for the witnesses.\<close>

definition buffer_demo :: buffer where
  "buffer_demo =
     \<lparr>bf_freeze_read = False, bf_freeze_write = False,
      bf_nodes =
        [\<lparr>bn_used = False, bn_external = True, bn_buffer = [72, 69, 76], bn_free = Some 1, bn_misalign = 0, bn_off = 3\<rparr>,
         \<lparr>bn_used = False, bn_external = True, bn_buffer = [76, 79, 13, 10], bn_free = Some 2, bn_misalign = 0, bn_off = 4\<rparr>],
      bf_twd = 1, bf_total = 7, bf_hint = None, bf_hint_base = 0, bf_pinned = 0, bf_want = 0,
      bf_spare = None, bf_released = []\<rparr>"

lemma buffer_demo_ok:
  "binv buffer_demo" "content buffer_demo = [72, 69, 76, 76, 79, 13, 10]" "ledger buffer_demo = [1, 2]"
  "bf_total buffer_demo = 7"
  by (simp_all add: buffer_demo_def binv_def bcore_def idle_def twd_ok_def hint_ok_def spare_ok_def node_ok_def
      content_def ledger_def node_data_def mem_get_def nth_Cons')



text \<open>
  \<open>buffer_append\<close> never aborts for data an allocation can hold, appends exactly the given bytes
  to the stream, and keeps the invariant and the zero-copy blocks.
\<close>

theorem buffer_append_appends:
  assumes "binv b" "length d \<le> ALLOC_MAX"
  shows "\<exists>b'. buffer_append b d = Some b' \<and> binv b' \<and> content b' = content b @ d \<and> ledger b' = ledger b"
  by (rule append_ok [OF assms])

theorem buffer_append_appends_witness:
  "\<exists>b'. buffer_append buffer_demo [33] = Some b' \<and> binv b' \<and> content b' = [72, 69, 76, 76, 79, 13, 10, 33] \<and>
    ledger b' = [1, 2]"
  using buffer_append_appends [of buffer_demo "[33]"] buffer_demo_ok
  by (simp add: ALLOC_MAX_def BUFNODE_SIZE_def)



text \<open>
  C4: \<open>buffer_search\<close> returns the position of the first occurrence of the pattern (up to ASCII case
  if \<open>ncs\<close>) that starts at or after \<open>start\<close> and ends inside the bound, and \<open>-1\<close> if there is none,
  wherever the nodes are cut and whether it takes the one-node path or the walk; the stream is
  unchanged.
\<close>

theorem buffer_search_first:
  assumes "binv b"
  shows "\<exists>b'. buffer_search b ncs start e what = Some (search_spec (content b) ncs start e what, b') \<and>
    binv b' \<and> content b' = content b \<and> ledger b' = ledger b"
  using search_ok [OF assms, of ncs start e what] by (auto simp: same_stream_def)

theorem buffer_search_first_witness:
  "\<exists>b'. buffer_search buffer_demo True 0 0 [108, 108] = Some (2, b') \<and> binv b' \<and>
    content b' = [72, 69, 76, 76, 79, 13, 10] \<and> ledger b' = [1, 2]"
proof -
  have "search_spec [72, 69, 76, 76, 79, 13, 10] True 0 0 [108, 108] = 2"
  proof -
    have "first_occ True [72, 69, 76, 76, 79, 13, 10] [108, 108] 0 = Some 2"
      by (simp add: first_occ_def occurs_at_def All_less_Suc fold_eq_def ascii_lower_def)
    then show ?thesis by (simp add: search_spec_def search_bound_def search_result_def)
  qed
  then show ?thesis
    using buffer_search_first [of buffer_demo True 0 0 "[108, 108]"] buffer_demo_ok by simp
qed

text \<open>
  C8: \<open>buffer_drain\<close> drops exactly the requested prefix (or all there is), returns its length, never
  leaves a dangling cursor, and releases each zero-copy block it empties once, in the order the
  blocks were added.
\<close>

theorem buffer_drain_drops:
  assumes "binv b"
  shows "\<exists>b'. buffer_drain b l = Some (min l (bf_total b), b') \<and> binv b' \<and>
     content b' = drop l (content b) \<and> ledger b' = ledger b"
  by (rule drain_ok [OF assms])

theorem buffer_drain_drops_witness:
  "\<exists>b'. buffer_drain buffer_demo 4 = Some (4, b') \<and> binv b' \<and> content b' = [79, 13, 10] \<and> ledger b' = [1, 2]"
  using buffer_drain_drops [of buffer_demo 4] buffer_demo_ok by simp

text \<open>
  \<open>buffer_copyout\<close> and \<open>buffer_at\<close> read the bytes of the stream at the given positions, on the
  first-node path and across nodes, and change nothing but the cursor.
\<close>

theorem buffer_reads:
  assumes "binv b" "pos < bf_total b"
  shows "(\<exists>b'. buffer_copyout b start lens =
      Some (take lens (drop start (content b)), min lens (bf_total b - start), b') \<and> binv b' \<and>
      content b' = content b \<and> ledger b' = ledger b) \<and>
    (\<exists>b'. buffer_at b pos = Some (content b ! pos, b') \<and> binv b' \<and> content b' = content b \<and> ledger b' = ledger b)"
  using copyout_ok [OF assms(1), of start lens] at_ok [OF assms] by (auto simp: same_stream_def)

theorem buffer_reads_witness:
  "(\<exists>b'. buffer_copyout buffer_demo 1 3 = Some ([69, 76, 76], 3, b') \<and> binv b' \<and>
      content b' = [72, 69, 76, 76, 79, 13, 10] \<and> ledger b' = [1, 2]) \<and>
    (\<exists>b'. buffer_at buffer_demo 4 = Some (79, b') \<and> binv b' \<and> content b' = [72, 69, 76, 76, 79, 13, 10] \<and>
      ledger b' = [1, 2])"
  using buffer_reads [of buffer_demo 4 1 3] buffer_demo_ok by simp

text \<open>
  C31: The scattered read: \<open>buffer_get\<close> returns entries that cover a prefix of the stream (all of the
  requested bytes unless the caller's array is full), and \<open>buffer_commit_get\<close> then drops exactly
  the number of bytes the caller reports and unlocks every node.
\<close>

theorem buffer_get_commit:
  assumes "binv b" "0 < atmost" "0 < cnt" "0 < bf_total b"
  shows "\<exists>iv b1. buffer_get b atmost cnt = Some (iv, b1) \<and> length iv \<le> cnt \<and>
    iov_total iv \<le> min atmost (bf_total b) \<and> (iov_total iv < min atmost (bf_total b) \<longrightarrow> length iv = cnt) \<and>
    iov_read b iv = take (iov_total iv) (content b) \<and>
    (\<forall>l. \<exists>b2. buffer_commit_get b1 l = Some b2 \<and> binv b2 \<and> content b2 = drop l (content b) \<and> ledger b2 = ledger b)"
proof -
  from get_ok [OF assms] obtain iv where iv:
    "buffer_get b atmost cnt = Some (iv, b\<lparr>bf_freeze_read := True, bf_nodes := pin_first (length iv) (bf_nodes b),
        bf_pinned := length iv\<rparr>)"
    "length iv \<le> length (bf_nodes b)" "length iv \<le> cnt" "iov_total iv \<le> min atmost (bf_total b)"
    "iov_total iv < min atmost (bf_total b) \<Longrightarrow> length iv = cnt"
    "iov_read b iv = take (iov_total iv) (content b)" by blast
  with commit_get_ok [OF assms(1) iv(2)] show ?thesis by blast
qed

theorem buffer_get_commit_witness:
  "\<exists>iv b1. buffer_get buffer_demo 5 4 = Some (iv, b1) \<and> length iv \<le> 4 \<and>
    iov_total iv \<le> 5 \<and> (iov_total iv < 5 \<longrightarrow> length iv = 4) \<and>
    iov_read buffer_demo iv = take (iov_total iv) [72, 69, 76, 76, 79, 13, 10] \<and>
    (\<forall>l. \<exists>b2. buffer_commit_get b1 l = Some b2 \<and> binv b2 \<and> content b2 = drop l [72, 69, 76, 76, 79, 13, 10] \<and>
      ledger b2 = [1, 2])"
  using buffer_get_commit [of buffer_demo 5 4] unfolding buffer_demo_ok(2,3)
  using buffer_demo_ok(1,4) by (simp del: take_Cons_numeral drop_Cons_numeral)

text \<open>
  C32: A zero-copy block handed to \<open>buffer_external\<close> appears in the stream without being copied, and
  \<open>buffer_free\<close> leaves an empty buffer in which every block ever added has been released exactly
  once, in order.
\<close>

theorem buffer_external_released:
  assumes "binv b" "d \<noteq> []"
  shows "\<exists>b1. buffer_external b d (Some cb) = Some b1 \<and> binv b1 \<and> content b1 = content b @ d \<and>
    (\<exists>b2. buffer_free b1 = Some b2 \<and> binv b2 \<and> content b2 = [] \<and> bf_released b2 = ledger b @ [cb])"
proof -
  obtain b1 where b1: "buffer_external b d (Some cb) = Some b1" "binv b1" "content b1 = content b @ d"
    "ledger b1 = ledger b @ [cb]" using external_ok [OF assms(1), of d "Some cb"] assms(2) by auto
  with free_ok [OF b1(2)] show ?thesis by auto
qed

theorem buffer_external_released_witness:
  "\<exists>b1. buffer_external buffer_demo [33] (Some 3) = Some b1 \<and> binv b1 \<and>
    content b1 = [72, 69, 76, 76, 79, 13, 10, 33] \<and>
    (\<exists>b2. buffer_free b1 = Some b2 \<and> binv b2 \<and> content b2 = [] \<and> bf_released b2 = [1, 2, 3])"
  using buffer_external_released [of buffer_demo "[33]" 3] buffer_demo_ok by simp

end
