(* ===== verification/Byte_Order.thy ===== *)
theory Byte_Order
  imports Prelude
begin

text \<open>
  Models \<open>lib/base/sbyteswap.h\<close> and \<open>sbyteswap.c\<close>: reading and writing integers of a given byte
  order. \<open>IS_LITTLE\<close>, the host's own order, is the parameter \<open>h\<close> (\<open>True\<close> for little endian); the
  \<open>memcpy\<close> between an integer and memory is \<open>load\<close> and \<open>store\<close> in that order. \<open>le_load\<close> and
  \<open>le_store\<close> are the reference: the value of a byte list, least significant byte first. The lemmas
  show that every routine agrees with it whatever the host is, and the round trips.
\<close>

section \<open>Bytes of a word\<close>

definition le_load :: "bytes \<Rightarrow> 'a::len word" where
  "le_load bs = foldr (\<lambda>b v. push_bit 8 v OR ucast b) bs 0"

fun le_store :: "nat \<Rightarrow> 'a::len word \<Rightarrow> bytes" where
  "le_store 0 v = []"
| "le_store (Suc n) v = ucast v # le_store n (drop_bit 8 v)"

lemma le_load_simps [simp]:
  "le_load [] = 0" "le_load (b # bs) = push_bit 8 (le_load bs) OR ucast b"
  by (simp_all add: le_load_def)

lemma length_le_store [simp]: "length (le_store n v) = n"
  by (induction n arbitrary: v) auto

lemma bit_le_load:
  "bit (le_load bs :: 'a::len word) k \<longleftrightarrow> k < LENGTH('a) \<and> k div 8 < length bs \<and> bit (bs ! (k div 8)) (k mod 8)"
proof (induction bs arbitrary: k)
  case (Cons b bs)
  show ?case
  proof (cases "k < 8")
    case True
    then show ?thesis by (auto simp: bit_or_iff bit_push_bit_iff bit_ucast_iff)
  next
    case False
    then obtain j where j: "k = j + 8" by (metis add.commute le_iff_add linorder_not_less)
    have "\<not> bit b k" using False bit_imp_le_length [of b k] by auto
    moreover have "(j + 8) div 8 = Suc (j div 8)" by simp
    ultimately show ?thesis using j Cons [of j] by (auto simp: bit_or_iff bit_push_bit_iff bit_ucast_iff)
  qed
qed simp

lemma bit_le_store:
  "i < n \<Longrightarrow> bit (le_store n v ! i) j \<longleftrightarrow> j < 8 \<and> bit v (8 * i + j)"
proof (induction n arbitrary: v i)
  case (Suc n)
  show ?case
  proof (cases i)
    case 0
    then show ?thesis by (auto simp: bit_ucast_iff dest: bit_imp_le_length)
  next
    case (Suc i')
    have "8 + (8 * i' + j) = 8 * Suc i' + j" by simp
    with Suc.prems Suc.IH [of i' "drop_bit 8 v"] show ?thesis
      unfolding Suc le_store.simps nth_Cons_Suc by (simp add: bit_drop_bit_eq)
  qed
qed simp

lemma le_load_store: "LENGTH('a) \<le> 8 * n \<Longrightarrow> le_load (le_store n v) = (v :: 'a::len word)"
proof (rule bit_word_eqI)
  fix k assume n: "LENGTH('a) \<le> 8 * n" and k: "k < LENGTH('a)"
  then have "k div 8 < n" by (metis less_le_trans less_mult_imp_div_less mult.commute)
  with k show "bit (le_load (le_store n v) :: 'a word) k = bit v k"
    by (simp add: bit_le_load bit_le_store)
qed

lemma le_store_load:
  assumes "8 * length bs \<le> LENGTH('a)"
  shows "le_store (length bs) (le_load bs :: 'a::len word) = bs"
proof (rule nth_equalityI)
  fix i assume i: "i < length (le_store (length bs) (le_load bs :: 'a word))"
  show "le_store (length bs) (le_load bs :: 'a word) ! i = bs ! i"
  proof (rule bit_word_eqI)
    fix j assume j: "j < LENGTH(8)"
    then have "8 * i + j < LENGTH('a)" "(8 * i + j) div 8 = i" "(8 * i + j) mod 8 = j"
      using i assms by auto
    with i j show "bit (le_store (length bs) (le_load bs :: 'a word) ! i) j = bit (bs ! i) j"
      by (simp add: bit_le_store bit_le_load)
  qed
qed simp

section \<open>The code's routines\<close>

definition byteswap16 :: "u16 \<Rightarrow> u16" where
  "byteswap16 v = push_bit 8 v OR drop_bit 8 v"

definition byteswap32 :: "u32 \<Rightarrow> u32" where
  "byteswap32 v = push_bit 24 v OR (push_bit 8 v AND 0x00FF0000) OR (drop_bit 8 v AND 0x0000FF00) OR drop_bit 24 v"

definition byteswap64 :: "u64 \<Rightarrow> u64" where
  "byteswap64 v = push_bit 32 (ucast (byteswap32 (ucast v))) OR ucast (byteswap32 (ucast (drop_bit 32 v)))"

text \<open>\<open>memcpy(&v, p, sizeof(v))\<close> and back, on a host of either order.\<close>

definition load :: "bool \<Rightarrow> bytes \<Rightarrow> 'a::len word" where
  "load h p = le_load (if h then p else rev p)"

definition store :: "bool \<Rightarrow> nat \<Rightarrow> 'a::len word \<Rightarrow> bytes" where
  "store h n v = (if h then le_store n v else rev (le_store n v))"

definition read_be16 :: "bool \<Rightarrow> bytes \<Rightarrow> u16" where
  "read_be16 h p = (let v = load h (take 2 p) in if h then byteswap16 v else v)"

definition read_be32 :: "bool \<Rightarrow> bytes \<Rightarrow> u32" where
  "read_be32 h p = (let v = load h (take 4 p) in if h then byteswap32 v else v)"

definition read_be64 :: "bool \<Rightarrow> bytes \<Rightarrow> u64" where
  "read_be64 h p = (let v = load h (take 8 p) in if h then byteswap64 v else v)"

definition read_le16 :: "bool \<Rightarrow> bytes \<Rightarrow> u16" where
  "read_le16 h p = (let v = load h (take 2 p) in if h then v else byteswap16 v)"

definition read_le32 :: "bool \<Rightarrow> bytes \<Rightarrow> u32" where
  "read_le32 h p = (let v = load h (take 4 p) in if h then v else byteswap32 v)"

definition read_le64 :: "bool \<Rightarrow> bytes \<Rightarrow> u64" where
  "read_le64 h p = (let v = load h (take 8 p) in if h then v else byteswap64 v)"

definition write_be16 :: "bool \<Rightarrow> u16 \<Rightarrow> bytes" where
  "write_be16 h v = store h 2 (if h then byteswap16 v else v)"

definition write_be32 :: "bool \<Rightarrow> u32 \<Rightarrow> bytes" where
  "write_be32 h v = store h 4 (if h then byteswap32 v else v)"

definition write_be64 :: "bool \<Rightarrow> u64 \<Rightarrow> bytes" where
  "write_be64 h v = store h 8 (if h then byteswap64 v else v)"

definition write_le16 :: "bool \<Rightarrow> u16 \<Rightarrow> bytes" where
  "write_le16 h v = store h 2 (if h then v else byteswap16 v)"

definition write_le32 :: "bool \<Rightarrow> u32 \<Rightarrow> bytes" where
  "write_le32 h v = store h 4 (if h then v else byteswap32 v)"

definition write_le64 :: "bool \<Rightarrow> u64 \<Rightarrow> bytes" where
  "write_le64 h v = store h 8 (if h then v else byteswap64 v)"

text \<open>
  \<open>pack_integer\<close> writes the value's bytes from the least significant on, at \<open>i\<close> or at
  \<open>size - 1 - i\<close>; \<open>unpack_integer\<close> collects at most eight of them, most significant first, and
  extends the sign with the exclusive-or trick.
\<close>

definition pack_integer :: "u64 \<Rightarrow> nat \<Rightarrow> bool \<Rightarrow> bytes option" where
  "pack_integer val n islittle =
     assertab (0 < n) (Some (if islittle then le_store n val else rev (le_store n val)))"

fun unpack_loop :: "bytes \<Rightarrow> nat \<Rightarrow> bool \<Rightarrow> nat \<Rightarrow> u64 \<Rightarrow> u64" where
  "unpack_loop buf n islittle 0 rtn = rtn"
| "unpack_loop buf n islittle (Suc i) rtn =
     unpack_loop buf n islittle i (push_bit 8 rtn OR ucast (buf ! (if islittle then i else n - 1 - i)))"

definition unpack_integer :: "bytes \<Rightarrow> nat \<Rightarrow> bool \<Rightarrow> bool \<Rightarrow> u64" where
  "unpack_integer buf n islittle issigned =
     (if n = 0 then 0
      else (let rtn = unpack_loop buf n islittle (if n \<le> 8 then n else 8) 0
            in if n < 8 \<and> issigned
               then (let mask = push_bit (n * 8 - 1) 1 in (rtn XOR mask) - mask)
               else rtn))"

definition read_integer :: "bool \<Rightarrow> bytes \<Rightarrow> nat \<Rightarrow> bool \<Rightarrow> bool \<Rightarrow> u64" where
  "read_integer h p n islittle issigned =
     (if n = 2 then (let v16 = (if islittle then read_le16 h p else read_be16 h p)
                     in if issigned then scast v16 else ucast v16)
      else if n = 4 then (let v32 = (if islittle then read_le32 h p else read_be32 h p)
                          in if issigned then scast v32 else ucast v32)
      else if n = 8 then (if islittle then read_le64 h p else read_be64 h p)
      else unpack_integer p n islittle issigned)"

definition write_integer :: "bool \<Rightarrow> u64 \<Rightarrow> nat \<Rightarrow> bool \<Rightarrow> bytes option" where
  "write_integer h val n islittle =
     (if n = 2 then Some (if islittle then write_le16 h (ucast val) else write_be16 h (ucast val))
      else if n = 4 then Some (if islittle then write_le32 h (ucast val) else write_be32 h (ucast val))
      else if n = 8 then Some (if islittle then write_le64 h val else write_be64 h val)
      else pack_integer val n islittle)"

section \<open>The host's order does not matter\<close>

text \<open>Swapping the bytes of a word, bit by bit.\<close>

lemma bit_byteswap16: "bit (byteswap16 v) k \<longleftrightarrow> k < 16 \<and> bit v (8 * (1 - k div 8) + k mod 8)"
proof (cases "k < 16")
  case True
  then have "k div 8 = 0 \<or> k div 8 = 1" by auto
  with True show ?thesis
    by (auto simp: byteswap16_def bit_or_iff bit_push_bit_iff bit_drop_bit_eq div_eq_0_iff mod_if
        dest: bit_imp_le_length)
next
  case False
  then show ?thesis by (auto dest: bit_imp_le_length)
qed


lemma bit_byteswap32: "bit (byteswap32 v) k \<longleftrightarrow> k < 32 \<and> bit v (8 * (3 - k div 8) + k mod 8)"
proof (cases "k < 32")
  case True
  have m: "bit (0x00FF0000 :: u32) k \<longleftrightarrow> k div 8 = 2" "bit (0x0000FF00 :: u32) k \<longleftrightarrow> k div 8 = 1"
  proof -
    have "(0x00FF0000 :: u32) = push_bit 16 (mask 8)" "(0x0000FF00 :: u32) = push_bit 8 (mask 8)"
      by (simp_all add: mask_eq_exp_minus_1 push_bit_eq_mult)
    note eq = this
    have "16 \<le> k \<and> k - 16 < 8 \<longleftrightarrow> k div 8 = 2" "8 \<le> k \<and> k - 8 < 8 \<longleftrightarrow> k div 8 = 1" by presburger+
    with True show "bit (0x00FF0000 :: u32) k \<longleftrightarrow> k div 8 = 2" "bit (0x0000FF00 :: u32) k \<longleftrightarrow> k div 8 = 1"
      unfolding eq by (simp_all only: bit_push_bit_iff bit_mask_iff) auto
  qed
  from True have "k div 8 = 0 \<or> k div 8 = 1 \<or> k div 8 = 2 \<or> k div 8 = 3" by auto
  then show ?thesis
  proof (elim disjE)
    assume d: "k div 8 = 0" then have "k < 8" by simp
    with True d m show ?thesis by (auto simp: byteswap32_def bit_or_iff bit_and_iff bit_push_bit_iff bit_drop_bit_eq dest: bit_imp_le_length)
  next
    assume d: "k div 8 = 1" then have "8 \<le> k" "k < 16" "k mod 8 = k - 8" by (auto simp: mod_if)
    with True d m show ?thesis by (auto simp: byteswap32_def bit_or_iff bit_and_iff bit_push_bit_iff bit_drop_bit_eq dest: bit_imp_le_length)
  next
    assume d: "k div 8 = 2" then have "16 \<le> k" "k < 24" "k mod 8 = k - 16" by (auto simp: mod_if)
    with True d m show ?thesis by (auto simp: byteswap32_def bit_or_iff bit_and_iff bit_push_bit_iff bit_drop_bit_eq dest: bit_imp_le_length)
  next
    assume d: "k div 8 = 3" then have "24 \<le> k" "k < 32" "k mod 8 = k - 24" by (auto simp: mod_if)
    with True d m show ?thesis by (auto simp: byteswap32_def bit_or_iff bit_and_iff bit_push_bit_iff bit_drop_bit_eq dest: bit_imp_le_length)
  qed
qed (auto dest: bit_imp_le_length)

lemma bit_byteswap64: "bit (byteswap64 v) k \<longleftrightarrow> k < 64 \<and> bit v (8 * (7 - k div 8) + k mod 8)"
proof (cases "k < 64")
  case True
  show ?thesis
  proof (cases "k < 32")
    case lt: True
    then have "k div 8 \<le> 3" by auto
    then have "32 + (8 * (3 - k div 8) + k mod 8) = 8 * (7 - k div 8) + k mod 8" by simp
    moreover have "8 * (3 - k div 8) + k mod 8 < 32"
    proof -
      have "k mod 8 < 8" by simp
      with \<open>k div 8 \<le> 3\<close> show ?thesis by (cases "k div 8") auto
    qed
    ultimately show ?thesis using lt True
      by (simp add: byteswap64_def bit_or_iff bit_push_bit_iff bit_ucast_iff bit_byteswap32 bit_drop_bit_eq,
          simp add: add.assoc [symmetric])
  next
    case False
    then obtain j where j: "k = 32 + j" using le_Suc_ex linorder_not_less by blast
    then have "j < 32" using True by auto
    have "(32 + j) div 8 = 4 + j div 8" "(32 + j) mod 8 = j mod 8" by presburger+
    moreover note \<open>j < 32\<close>
    moreover have "\<not> bit (byteswap32 w) (32 + j)" for w by (auto dest: bit_imp_le_length)
    moreover have "8 * (3 - j div 8) + j mod 8 < 32" using \<open>j < 32\<close> by (cases "j div 8") auto
    ultimately show ?thesis using j True
      by (simp add: byteswap64_def bit_or_iff bit_push_bit_iff bit_ucast_iff bit_byteswap32 bit_drop_bit_eq)
  qed
qed (auto dest: bit_imp_le_length)

text \<open>The bytes of the usual widths, for literal values.\<close>

lemma le_store_2: "le_store 2 v = [ucast v, ucast (drop_bit 8 v)]"
  by (simp add: eval_nat_numeral)

lemma le_store_4: "le_store 4 v = [ucast v, ucast (drop_bit 8 v), ucast (drop_bit 16 v), ucast (drop_bit 24 v)]"
  by (simp add: eval_nat_numeral)

lemma le_store_8:
  "le_store 8 v = [ucast v, ucast (drop_bit 8 v), ucast (drop_bit 16 v), ucast (drop_bit 24 v),
     ucast (drop_bit 32 v), ucast (drop_bit 40 v), ucast (drop_bit 48 v), ucast (drop_bit 56 v)]"
  by (simp add: eval_nat_numeral)

text \<open>So a swap reverses the bytes in memory.\<close>

lemma swap_load:
  fixes sw :: "'a::len word \<Rightarrow> 'a word"
  assumes sw: "\<And>v k. bit (sw v) k \<longleftrightarrow> k < 8 * n \<and> bit v (8 * (n - 1 - k div 8) + k mod 8)"
    and n: "LENGTH('a) = 8 * n" and p: "length p = n"
  shows "sw (le_load p) = le_load (rev p)"
proof (rule bit_word_eqI)
  fix k assume k: "k < LENGTH('a)"
  then have kn: "k div 8 < n" using n by auto
  define j where "j = 8 * (n - 1 - k div 8) + k mod 8"
  have j: "j div 8 = n - 1 - k div 8" "j mod 8 = k mod 8" "j < 8 * n"
  proof -
    show "j div 8 = n - 1 - k div 8" "j mod 8 = k mod 8" by (simp_all add: j_def)
    have "n - 1 - k div 8 < n" using kn by simp
    moreover have "k mod 8 < 8" by simp
    ultimately show "j < 8 * n" unfolding j_def by linarith
  qed
  have "bit (sw (le_load p)) k \<longleftrightarrow> bit (p ! (n - 1 - k div 8)) (k mod 8)"
    using k n kn p j [unfolded j_def] by (simp add: sw bit_le_load)
  also have "p ! (n - 1 - k div 8) = rev p ! (k div 8)" using kn p by (simp add: rev_nth)
  finally show "bit (sw (le_load p)) k = bit (le_load (rev p) :: 'a word) k"
    using k kn p by (simp add: bit_le_load)
qed

lemma swap_store:
  fixes sw :: "'a::len word \<Rightarrow> 'a word"
  assumes sw: "\<And>v k. bit (sw v) k \<longleftrightarrow> k < 8 * n \<and> bit v (8 * (n - 1 - k div 8) + k mod 8)"
    and n: "LENGTH('a) = 8 * n"
  shows "le_store n (sw v) = rev (le_store n v)"
proof -
  have "le_load (rev (le_store n v)) = sw v"
    using swap_load [OF sw n, of "le_store n v"] n by (simp add: le_load_store)
  then have "le_store n (sw v) = le_store n (le_load (rev (le_store n v)) :: 'a word)" by simp
  also have "\<dots> = rev (le_store n v)"
    using le_store_load [where 'a = 'a, of "rev (le_store n v)"] n by simp
  finally show ?thesis .
qed

lemma swap16: "length p = 2 \<Longrightarrow> byteswap16 (le_load p) = le_load (rev p)" "le_store 2 (byteswap16 v) = rev (le_store 2 v)"
  by (rule swap_load [where n = 2] swap_store [where n = 2]; simp add: bit_byteswap16)+

lemma swap32: "length p = 4 \<Longrightarrow> byteswap32 (le_load p) = le_load (rev p)" "le_store 4 (byteswap32 w) = rev (le_store 4 w)"
  by (rule swap_load [where n = 4] swap_store [where n = 4]; simp add: bit_byteswap32)+

lemma swap64: "length p = 8 \<Longrightarrow> byteswap64 (le_load p) = le_load (rev p)" "le_store 8 (byteswap64 x) = rev (le_store 8 x)"
  by (rule swap_load [where n = 8] swap_store [where n = 8]; simp add: bit_byteswap64)+

text \<open>Every routine is the reference in the order its name says.\<close>

lemma read_order:
  "2 \<le> length p \<Longrightarrow> read_le16 h p = le_load (take 2 p)" "2 \<le> length p \<Longrightarrow> read_be16 h p = le_load (rev (take 2 p))"
  "4 \<le> length p \<Longrightarrow> read_le32 h p = le_load (take 4 p)" "4 \<le> length p \<Longrightarrow> read_be32 h p = le_load (rev (take 4 p))"
  "8 \<le> length p \<Longrightarrow> read_le64 h p = le_load (take 8 p)" "8 \<le> length p \<Longrightarrow> read_be64 h p = le_load (rev (take 8 p))"
  using swap16(1) [of "take 2 p"] swap16(1) [of "rev (take 2 p)"] swap32(1) [of "take 4 p"]
    swap32(1) [of "rev (take 4 p)"] swap64(1) [of "take 8 p"] swap64(1) [of "rev (take 8 p)"]
  by (simp_all add: load_def Let_def read_le16_def read_be16_def read_le32_def read_be32_def read_le64_def read_be64_def)

lemma write_order:
  "write_le16 h v = le_store 2 v" "write_be16 h v = rev (le_store 2 v)"
  "write_le32 h w = le_store 4 w" "write_be32 h w = rev (le_store 4 w)"
  "write_le64 h x = le_store 8 x" "write_be64 h x = rev (le_store 8 x)"
  by (simp_all add: store_def write_le16_def write_be16_def write_le32_def write_be32_def write_le64_def
      write_be64_def swap16(2) swap32(2) swap64(2))

lemma length_write [simp]:
  "length (write_le16 h v) = 2" "length (write_be16 h v) = 2" "length (write_le32 h w) = 4"
  "length (write_be32 h w) = 4" "length (write_le64 h x) = 8" "length (write_be64 h x) = 8"
  by (simp_all add: write_order)

lemma read_write:
  "read_be16 h (write_be16 h' v @ r) = v" "read_be32 h (write_be32 h' w @ r) = w" "read_be64 h (write_be64 h' x @ r) = x"
  "read_le16 h (write_le16 h' v @ r) = v" "read_le32 h (write_le32 h' w @ r) = w" "read_le64 h (write_le64 h' x @ r) = x"
  by (simp_all add: read_order write_order le_load_store)

section \<open>Integers of any width\<close>

lemma le_load_snoc: "le_load (bs @ [b]) = (le_load bs OR push_bit (8 * length bs) (ucast b) :: 'a::len word)"
  by (induction bs) (auto simp: push_bit_or ac_simps)

lemma unpack_loop_load:
  fixes islittle :: bool
  assumes "i \<le> n" "n \<le> length buf"
  defines "L \<equiv> (if islittle then take n buf else rev (take n buf))"
  shows "unpack_loop buf n islittle i rtn = push_bit (8 * i) rtn OR le_load (take i L)"
  using assms(1)
proof (induction i arbitrary: rtn)
  case (Suc i)
  have L: "L ! i = buf ! (if islittle then i else n - 1 - i)" "i < length L"
    using Suc.prems assms(2) by (auto simp: L_def rev_nth)
  have "le_load (take (Suc i) L) = (le_load (take i L) OR push_bit (8 * i) (ucast (L ! i)) :: u64)"
    using L(2) by (simp add: take_Suc_conv_app_nth le_load_snoc)
  with Suc L(1) show ?case by (simp add: push_bit_or ac_simps)
qed simp

lemma le_store_take: "n \<le> 8 \<Longrightarrow> le_load (le_store n v) = (take_bit (8 * n) v :: u64)"
proof (rule bit_word_eqI)
  fix k assume n: "n \<le> 8" and k: "k < LENGTH(64)"
  show "bit (le_load (le_store n v) :: u64) k = bit (take_bit (8 * n) v) k"
  proof (cases "k div 8 < n")
    case True
    then have "k < 8 * n" by auto
    with True k show ?thesis by (simp add: bit_le_load bit_le_store bit_take_bit_iff)
  next
    case False
    then have "\<not> k < 8 * n" by (metis less_mult_imp_div_less mult.commute)
    with False show ?thesis by (simp add: bit_le_load bit_take_bit_iff)
  qed
qed

lemma sign_trick:
  fixes v :: "'a::len word"
  assumes "0 < n" "8 * n < LENGTH('a)"
  shows "(take_bit (8 * n) v XOR push_bit (n * 8 - 1) 1) - push_bit (n * 8 - 1) 1 = signed_take_bit (8 * n - 1) v"
proof -
  define m where "m = 8 * n - 1"
  have m: "Suc m = 8 * n" "n * 8 - 1 = m" "m < LENGTH('a)" using assms by (auto simp: m_def)
  let ?x = "take_bit (Suc m) v" and ?k = "2 ^ m :: 'a word"
  have bk: "bit ?k j \<longleftrightarrow> j = m" for j using m(3) by (auto simp: bit_exp_iff)
  show ?thesis
  proof (cases "bit v m")
    case False
    have "?x XOR ?k = ?x OR ?k" by (rule bit_word_eqI) (use False in \<open>auto simp: bit_xor_iff bit_or_iff bk bit_take_bit_iff\<close>)
    also have "\<dots> = ?x + ?k" by (rule disjunctive_add [symmetric]) (use False in \<open>auto simp: bk bit_take_bit_iff\<close>)
    finally have x: "?x XOR ?k = ?x + ?k" .
    have "signed_take_bit m v = ?x"
      by (rule bit_word_eqI) (use False m(3) in \<open>auto simp: bit_signed_take_bit_iff bit_take_bit_iff min_def not_less less_Suc_eq\<close>)
    with x show ?thesis unfolding m(2) m(1) [symmetric] by (simp flip: m_def)
  next
    case True
    have "?x = take_bit m v OR ?k"
      by (rule bit_word_eqI) (use True in \<open>auto simp: bit_or_iff bk bit_take_bit_iff less_Suc_eq\<close>)
    also have "\<dots> = take_bit m v + ?k" by (rule disjunctive_add [symmetric]) (auto simp: bk bit_take_bit_iff)
    finally have x: "?x = take_bit m v + ?k" .
    have "?x XOR ?k = take_bit m v"
      by (rule bit_word_eqI) (use True in \<open>auto simp: bit_xor_iff bk bit_take_bit_iff less_Suc_eq\<close>)
    moreover have "signed_take_bit m v = ?x - push_bit (Suc m) 1"
    proof -
      have "signed_take_bit m v = take_bit (Suc m) v OR push_bit (Suc m) (- 1)"
        by (rule bit_word_eqI) (use True m(3) in \<open>auto simp: bit_signed_take_bit_iff bit_or_iff bit_take_bit_iff bit_push_bit_iff bit_not_iff bit_mask_iff min_def not_less less_Suc_eq\<close>)
      also have "\<dots> = take_bit (Suc m) v + push_bit (Suc m) (- 1)"
        by (rule disjunctive_add [symmetric]) (auto simp: bit_take_bit_iff bit_push_bit_iff bit_not_iff bit_mask_iff)
      finally show ?thesis by (simp add: push_bit_eq_mult)
    qed
    moreover have "push_bit (Suc m) 1 = ?k + ?k" by (simp add: push_bit_eq_mult)
    ultimately show ?thesis unfolding m(2) m(1) [symmetric] using x by (simp flip: m_def)
  qed
qed

lemma full_width: "signed_take_bit 63 (v :: u64) = v" "take_bit 64 (v :: u64) = v"
proof -
  show "signed_take_bit 63 v = v"
  proof (rule bit_word_eqI)
    fix n :: nat
    assume n: "n < LENGTH(64)"
    then have "n < 64" "min 63 n = n" by simp_all
    then show "bit (signed_take_bit 63 v) n = bit v n" by (simp add: bit_signed_take_bit_iff)
  qed
  show "take_bit 64 v = v" using take_bit_length_eq [of v] by simp
qed

lemma pack_unpack:
  assumes "0 < n" "n \<le> 8" "pack_integer v n le = Some bs"
  shows "unpack_integer (bs @ r) n le False = take_bit (8 * n) v"
    "unpack_integer (bs @ r) n le True = signed_take_bit (8 * n - 1) v"
proof -
  have bs: "bs = (if le then le_store n v else rev (le_store n v))" using assms(3) by (simp add: pack_integer_def)
  then have len: "length bs = n" by simp
  have "(if le then take n (bs @ r) else rev (take n (bs @ r))) = le_store n v" using bs len by simp
  then have loop: "unpack_loop (bs @ r) n le n 0 = take_bit (8 * n) v"
    using unpack_loop_load [of n n "bs @ r" le 0] len le_store_take [OF assms(2), of v] by simp
  then show "unpack_integer (bs @ r) n le False = take_bit (8 * n) v"
    using assms(1,2) by (simp add: unpack_integer_def)
  show "unpack_integer (bs @ r) n le True = signed_take_bit (8 * n - 1) v"
  proof (cases "n < 8")
    case True
    with loop assms(1) sign_trick [of n v] show ?thesis by (simp add: unpack_integer_def Let_def)
  next
    case False
    then have "n = 8" using assms(2) by simp
    then show ?thesis using loop by (simp add: unpack_integer_def full_width)
  qed
qed

lemma narrow:
  "ucast (ucast v :: u16) = (take_bit 16 v :: u64)" "scast (ucast v :: u16) = (signed_take_bit 15 v :: u64)"
  "ucast (ucast v :: u32) = (take_bit 32 v :: u64)" "scast (ucast v :: u32) = (signed_take_bit 31 v :: u64)"
  by (rule bit_word_eqI,
      auto simp: bit_ucast_iff bit_take_bit_iff bit_signed_take_bit_iff bit_signed_iff min_def not_less
        dest: bit_imp_le_length)+

section \<open>Properties\<close>

text \<open>
  An integer written by \<open>write_integer\<close> in 1 to 8 bytes, in either byte order, is read back by
  \<open>read_integer\<close> as its low bytes, or sign-extended from them: on hosts of either order (writer
  and reader need not agree), for the specialised widths and for the generic loop, and whatever
  follows in the buffer.
\<close>

theorem integer_roundtrip:
  assumes "0 < n" "n \<le> 8"
  shows "\<exists>bs. write_integer h v n le = Some bs \<and> length bs = n \<and>
    read_integer h' (bs @ r) n le False = take_bit (8 * n) v \<and>
    read_integer h' (bs @ r) n le True = signed_take_bit (8 * n - 1) v"
proof -
  consider "n = 2" | "n = 4" | "n = 8" | "n \<noteq> 2" "n \<noteq> 4" "n \<noteq> 8" by blast
  then show ?thesis
  proof cases
    case 4
    then obtain bs where bs: "pack_integer v n le = Some bs" "length bs = n" using assms by (simp add: pack_integer_def)
    with 4 pack_unpack [OF assms bs(1), of r] show ?thesis by (simp add: write_integer_def read_integer_def)
  qed (auto simp: write_integer_def read_integer_def read_write narrow full_width)
qed

theorem integer_roundtrip_witness:
  "\<exists>bs. write_integer True 0xFFFE 3 False = Some bs \<and> length bs = 3 \<and>
    read_integer False (bs @ [7]) 3 False False = take_bit 24 0xFFFE \<and>
    read_integer False (bs @ [7]) 3 False True = signed_take_bit 23 0xFFFE"
  using integer_roundtrip [of 3 True "0xFFFE" False False "[7]"] by simp

end
