(* ===== verification/Prots_Pub.thy ===== *)
theory Prots_Pub
  imports Buffer Byte_Order
begin

text \<open>
  Models \<open>lib/protocol/prots_pub.h\<close> and the integer coding of \<open>prots_pub.c\<close>: the protocol kinds, the
  status bits an unpacker reports, and the variable-length integer of MQTT.
\<close>

datatype pack_type = PACK_NONE | PACK_DNS | PACK_HTTP | PACK_WEBSOCK | PACK_MQTT | PACK_SMTP
  | PACK_CUSTZ_FIXED | PACK_CUSTZ_FLAG | PACK_CUSTZ_VAR
  | PACK_REDIS | PACK_MYSQL | PACK_PGSQL | PACK_MONGO | PACK_UDP_KCP

definition PROT_INIT :: u32 where "PROT_INIT = 0x00"
definition PROT_SLICE_START :: u32 where "PROT_SLICE_START = 0x01"
definition PROT_SLICE :: u32 where "PROT_SLICE = 0x02"
definition PROT_SLICE_END :: u32 where "PROT_SLICE_END = 0x04"
definition PROT_ERROR :: u32 where "PROT_ERROR = 0x08"
definition PROT_MOREDATA :: u32 where "PROT_MOREDATA = 0x10"
definition PROT_CLOSE :: u32 where "PROT_CLOSE = 0x20"

lemmas prot_status_defs = PROT_INIT_def PROT_SLICE_START_def PROT_SLICE_def PROT_SLICE_END_def
  PROT_ERROR_def PROT_MOREDATA_def PROT_CLOSE_def

text \<open>\<open>BIT_SET\<close> and \<open>BIT_CHECK\<close> of \<open>base/macro_util.h\<close>.\<close>

definition bit_set :: "'a::len word \<Rightarrow> 'a word \<Rightarrow> 'a word" where "bit_set st flag = st OR flag"
definition bit_check :: "'a::len word \<Rightarrow> 'a word \<Rightarrow> bool" where "bit_check st flag \<longleftrightarrow> st AND flag \<noteq> 0"

definition MQTT_VARINT_MAX :: nat where "MQTT_VARINT_MAX = 268435455"

text \<open>
  The encoder's \<open>do\<close>-loop runs while the quotient is not zero, so it ends for every value; its result
  is the bytes written, whose number is the C function's result.
\<close>

function varint_loop :: "u32 \<Rightarrow> bytes" where
  "varint_loop v =
     (let byte = ucast (v mod 0x80); v' = v div 0x80
      in if v' \<noteq> 0 then (byte OR 0x80) # varint_loop v' else [byte])"
  by pat_completeness auto
termination
proof (relation "measure unat")
  fix v v' :: u32
  assume "v' = v div 0x80" "v' \<noteq> 0"
  then have "v \<noteq> 0" by auto
  then have "0 < unat v" by (simp add: unat_gt_0)
  then show "(v', v) \<in> measure unat" using \<open>v' = v div 0x80\<close> by (simp add: unat_div)
qed simp

declare varint_loop.simps [simp del]

definition varint_encode_mqtt :: "u32 \<Rightarrow> bytes" where
  "varint_encode_mqtt v = (if MQTT_VARINT_MAX < unat v then [] else varint_loop v)"

text \<open>
  The decoder reads at most four bytes of the buffer from \<open>off\<close> on. The result is the number of bytes
  the integer occupies, \<open>-1\<close> if it has not ended, and \<open>*value\<close>.
\<close>

function varint_decode_loop :: "buffer \<Rightarrow> nat \<Rightarrow> nat \<Rightarrow> nat \<Rightarrow> u64 \<Rightarrow> (int \<times> u64 \<times> buffer) option" where
  "varint_decode_loop b off blens i v =
     (if i < blens - off \<and> i < 4
      then Option.bind (buffer_at b (i + off)) (\<lambda>(byte, b).
        let v = v OR push_bit (7 * i) (ucast (byte AND 0x7f))
        in if \<not> bit_check byte 0x80 then Some (int (i + 1), v, b)
           else varint_decode_loop b off blens (Suc i) v)
      else Some (- 1, v, b))"
  by pat_completeness auto
termination by (relation "measure (\<lambda>(b, off, blens, i, v). 4 - i)") auto

declare varint_decode_loop.simps [simp del]

definition varint_decode_mqtt :: "buffer \<Rightarrow> nat \<Rightarrow> nat \<Rightarrow> (int \<times> u64 \<times> buffer) option" where
  "varint_decode_mqtt b off blens =
     (if blens \<le> off then Some (- 1, 0, b) else varint_decode_loop b off blens 0 0)"

section \<open>What the coding means\<close>

text \<open>
  The value of a coded integer at the front of a stream: base 128, least significant digit first,
  the top bit set on every digit but the last. \<open>None\<close>: not ended within \<open>k\<close> digits.
\<close>

fun varint_value :: "nat \<Rightarrow> bytes \<Rightarrow> (nat \<times> nat) option" where
  "varint_value 0 s = None"
| "varint_value (Suc k) [] = None"
| "varint_value (Suc k) (b # s) =
     (if unat b < 128 then Some (1, unat b)
      else map_option (\<lambda>(n, v). (Suc n, unat b mod 128 + 128 * v)) (varint_value k s))"

lemma varint_value_Nil [simp]: "varint_value k [] = None"
  by (cases k) simp_all

lemma varint_value_bounds:
  "varint_value k s = Some (n, v) \<Longrightarrow> 0 < n \<and> n \<le> k \<and> n \<le> length s \<and> v < 128 ^ k"
proof (induction k s arbitrary: n v rule: varint_value.induct)
  case (3 k b s)
  show ?case
  proof (cases "unat b < 128")
    case True
    have "(1 :: nat) \<le> 128 ^ k" by simp
    with True 3 show ?thesis by auto
  next
    case False
    with "3.prems" obtain n' v' where r: "varint_value k s = Some (n', v')" "n = Suc n'" "v = unat b mod 128 + 128 * v'"
      by auto
    from "3.IH" [OF False r(1)] have "v' < 128 ^ k" "0 < n'" "n' \<le> k" "n' \<le> length s" by auto
    moreover have "unat b mod 128 < 128" by simp
    ultimately show ?thesis unfolding r(2,3) by simp
  qed
qed auto

lemma varint_value_extend: "varint_value k s = Some r \<Longrightarrow> varint_value k (s @ t) = Some r"
  by (induction k s arbitrary: r rule: varint_value.induct) (auto split: if_splits)

lemma varint_value_None_extend: "varint_value k s = None \<Longrightarrow> k \<le> length s \<Longrightarrow> varint_value k (s @ t) = None"
  by (induction k s rule: varint_value.induct) (auto split: if_splits)

lemma bit_0x80: "bit (0x80 :: u8) n \<longleftrightarrow> n = 7"
proof -
  have "(0x80 :: u8) = 2 ^ 7" by simp
  then show ?thesis by (simp only: bit_exp_iff) auto
qed

lemma bit7: "bit (b :: u8) 7 \<longleftrightarrow> 128 \<le> unat b"
proof -
  have "unat b < 256" using unsigned_less [of b] by simp
  then have d: "unat b div 128 = (if 128 \<le> unat b then 1 else 0)" by auto
  have "bit b 7 \<longleftrightarrow> bit (unat b) 7" by (simp add: bit_unsigned_iff)
  also have "\<dots> \<longleftrightarrow> odd (unat b div 128)" by (simp add: bit_iff_odd)
  finally show ?thesis using d by simp
qed

lemma top_bit: "bit_check (b :: u8) 0x80 \<longleftrightarrow> 128 \<le> unat b"
proof -
  have "bit (b AND 0x80) n \<longleftrightarrow> n = 7 \<and> bit b 7" for n by (simp only: bit_and_iff bit_0x80) auto
  then show ?thesis unfolding bit_check_def bit7 [symmetric] by (metis bit_0_eq bot_apply bot_bool_def bit_eq_iff)
qed

lemma low_bits: "ucast ((b :: u8) AND 0x7f) = (of_nat (unat b mod 128) :: u64)"
proof -
  have "(0x7f :: u8) = mask 7" by (simp add: mask_eq_exp_minus_1)
  then have "b AND 0x7f = take_bit 7 b" by (simp add: take_bit_eq_mask)
  moreover have "unat (take_bit 7 b) = unat b mod 128"
    by (simp add: unsigned_take_bit_eq) (simp add: take_bit_eq_mod)
  ultimately show ?thesis by (metis of_nat_unat)
qed

lemma digit_join: "m < 128 \<Longrightarrow> (of_nat m OR push_bit 7 (of_nat x) :: u64) = of_nat (m + 128 * x)"
proof -
  assume "m < 128"
  then have "take_bit 7 m = m" by (simp add: take_bit_eq_mod)
  then have low: "take_bit 7 (of_nat m :: u64) = of_nat m" by (metis of_nat_take_bit)
  have "(of_nat m OR push_bit 7 (of_nat x) :: u64) = of_nat m + push_bit 7 (of_nat x)"
    by (rule disjunctive_add [symmetric]) (metis bit_push_bit_iff bit_take_bit_iff low not_less)
  then show ?thesis by (simp add: push_bit_eq_mult)
qed

text \<open>The decoder computes this value, from any position of the buffer, and takes nothing.\<close>

lemma decode_loop_ok:
  assumes "binv b" "i \<le> 4"
  shows "\<exists>b' w. binv b' \<and> content b' = content b \<and>
    varint_decode_loop b off (length (content b)) i v =
      Some (case varint_value (4 - i) (drop (i + off) (content b)) of
              None \<Rightarrow> (- 1, w, b')
            | Some (n, x) \<Rightarrow> (int (i + n), v OR push_bit (7 * i) (of_nat x), b'))"
  using assms
proof (induction "4 - i" arbitrary: i b v)
  case 0
  then show ?case by (subst varint_decode_loop.simps) auto
next
  case (Suc k)
  show ?case
  proof (cases "i + off < length (content b)")
    case False
    then have "drop (i + off) (content b) = []" by simp
    with False Suc.hyps(2) [symmetric] Suc.prems show ?thesis by (subst varint_decode_loop.simps) auto
  next
    case True
    let ?c = "content b ! (i + off)"
    obtain b1 where b1: "buffer_at b (i + off) = Some (?c, b1)" "binv b1" "content b1 = content b"
      using buf.peek_at [OF Suc.prems(1) True] by blast
    have d: "drop (i + off) (content b) = ?c # drop (Suc i + off) (content b)"
      using True by (simp add: Cons_nth_drop_Suc)
    let ?v = "v OR push_bit (7 * i) (ucast (?c AND 0x7f))"
    have k: "4 - i = Suc k" "4 - Suc i = k" "i < 4" "Suc i \<le> 4" "i < length (content b) - off" using Suc.hyps(2) True by auto
    have step: "varint_decode_loop b off (length (content b)) i v =
        (if \<not> bit_check ?c 0x80 then Some (int (i + 1), ?v, b1)
         else varint_decode_loop b1 off (length (content b)) (Suc i) ?v)"
      using k by (subst varint_decode_loop.simps) (simp add: b1(1) Let_def)
    obtain b2 w where b2: "binv b2" "content b2 = content b"
      "varint_decode_loop b1 off (length (content b)) (Suc i) ?v =
        Some (case varint_value k (drop (Suc i + off) (content b)) of
                None \<Rightarrow> (- 1, w, b2)
              | Some (n, x) \<Rightarrow> (int (Suc i + n), ?v OR push_bit (7 * Suc i) (of_nat x), b2))"
      using Suc.hyps(1) [of "Suc i" b1 ?v] b1(2,3) k by auto
    show ?thesis
    proof (cases "unat ?c < 128")
      case True
      then have "ucast (?c AND 0x7f) = (of_nat (unat ?c) :: u64)" by (simp only: low_bits) simp
      with True b1(2,3) show ?thesis
        by (intro exI [of _ b1]) (simp add: step d k(1) top_bit not_le)
    next
      case False
      have "?v OR push_bit (7 * Suc i) (of_nat x) = v OR push_bit (7 * i) (of_nat (unat ?c mod 128 + 128 * x))" for x
      proof -
        have "push_bit (7 * i) (ucast (?c AND 0x7f)) OR push_bit (7 * Suc i) (of_nat x) =
            push_bit (7 * i) (of_nat (unat ?c mod 128) OR push_bit 7 (of_nat x) :: u64)"
          by (simp add: push_bit_or low_bits add.commute)
        also have "\<dots> = push_bit (7 * i) (of_nat (unat ?c mod 128 + 128 * x))" by (subst digit_join) simp_all
        finally show ?thesis by (simp add: or.assoc)
      qed
      with False b2 show ?thesis
        by (intro exI [of _ b2] exI [of _ w])
          (simp add: step d k(1) top_bit not_less split: option.split)
    qed
  qed
qed

lemma varint_decode_ok:
  assumes "binv b" "off < length (content b)"
  shows "\<exists>b' w. binv b' \<and> content b' = content b \<and>
    varint_decode_mqtt b off (length (content b)) =
      Some (case varint_value 4 (drop off (content b)) of
              None \<Rightarrow> (- 1, w, b')
            | Some (n, x) \<Rightarrow> (int n, of_nat x, b'))"
  using decode_loop_ok [OF assms(1), of 0 off 0] assms(2)
  by (auto simp: varint_decode_mqtt_def split: option.split)

text \<open>The encoder writes a coding of its argument.\<close>

lemma encoder_digit:
  "unat (ucast ((v :: u32) mod 0x80) :: u8) = unat v mod 128"
  "unat (ucast (v mod 0x80) OR 0x80 :: u8) = unat v mod 128 + 128"
proof -
  have u: "unat (v mod 0x80) = unat v mod 128" by (simp add: unat_mod)
  then have e: "(ucast (v mod 0x80) :: u8) = of_nat (unat v mod 128)" by (metis of_nat_unat)
  have lt: "unat v mod 128 < 128" by simp
  show m: "unat (ucast (v mod 0x80) :: u8) = unat v mod 128"
    unfolding e by (subst unat_of_nat) (use lt in \<open>simp add: take_bit_eq_mod\<close>)
  have "\<not> bit (ucast (v mod 0x80) :: u8) 7" using lt by (simp only: bit7 m)
  then have "ucast (v mod 0x80) OR 0x80 = ucast (v mod 0x80) + (0x80 :: u8)"
    by (intro disjunctive_add [symmetric]) (simp only: bit_0x80, auto)
  then show "unat (ucast (v mod 0x80) OR 0x80 :: u8) = unat v mod 128 + 128"
    using m lt unat_plus_small [of "ucast (v mod 0x80)" "0x80 :: u8"] by simp
qed

lemma varint_loop_value:
  "unat v < 128 ^ Suc k \<Longrightarrow> varint_value (Suc k) (varint_loop v @ r) = Some (length (varint_loop v), unat v)"
proof (induction v arbitrary: k rule: varint_loop.induct)
  case (1 v)
  have d: "unat (v div 0x80) = unat v div 128" by (simp add: unat_div)
  show ?case
  proof (cases "v div 0x80 = 0")
    case True
    then have "unat v div 128 = 0" by (metis d unat_0)
    then have "unat v < 128" by (simp add: div_eq_0_iff)
    then show ?thesis using True by (subst (1 2) varint_loop.simps) (simp add: Let_def encoder_digit)
  next
    case False
    then have ge: "128 \<le> unat v" using d by (metis div_less linorder_not_le unat_eq_zero)
    then obtain k' where k: "k = Suc k'" using "1.prems" by (cases k) auto
    have "unat (v div 0x80) < 128 ^ Suc k'"
      unfolding d using "1.prems" k by (simp add: less_mult_imp_div_less mult.commute)
    from "1.IH" [OF refl refl False this] have "varint_value (Suc k') (varint_loop (v div 0x80) @ r) =
        Some (length (varint_loop (v div 0x80)), unat v div 128)" by (simp add: d)
    then show ?thesis using False unfolding k
      by (subst (1 2) varint_loop.simps) (simp add: Let_def encoder_digit del: varint_value.simps(2))
  qed
qed

end
