(* ===== verification/Framing.thy ===== *)
theory Framing
  imports Prelude
begin

text \<open>
  What it means to cut messages off a byte stream, independent of any protocol. A framing looks at
  the bytes received so far and answers that it needs more, that the peer broke the protocol, or
  that the stream starts with a message of so many bytes. The locale \<open>framing\<close> states the laws that
  make this independent of how the network cuts the stream; its lemmas give the meaning of
  parsing a stream piece by piece.
\<close>

datatype 'm frame_res = More | Bad | Frame 'm nat

text \<open>The messages at the front of a stream, the bytes left, and whether they are malformed.\<close>

fun frames :: "(bytes \<Rightarrow> 'm frame_res) \<Rightarrow> nat \<Rightarrow> bytes \<Rightarrow> 'm list \<times> bytes \<times> bool" where
  "frames frame 0 s = ([], s, False)"
| "frames frame (Suc k) s =
     (case frame s of
        More \<Rightarrow> ([], s, False)
      | Bad \<Rightarrow> ([], s, True)
      | Frame m n \<Rightarrow> (let (ms, rest, bad) = frames frame k (drop n s) in (m # ms, rest, bad)))"

definition parse :: "(bytes \<Rightarrow> 'm frame_res) \<Rightarrow> bytes \<Rightarrow> 'm list \<times> bytes \<times> bool" where
  "parse frame s = frames frame (Suc (length s)) s"

text \<open>The same stream handed over in chunks; nothing is looked at after an error.\<close>

fun parse_chunks :: "(bytes \<Rightarrow> 'm frame_res) \<Rightarrow> bytes list \<Rightarrow> bytes \<Rightarrow> 'm list \<times> bytes \<times> bool" where
  "parse_chunks frame [] s = ([], s, False)"
| "parse_chunks frame (c # cs) s =
     (let (ms, rest, bad) = parse frame (s @ c)
      in if bad then (ms, rest, True)
         else let (ms', rest', bad') = parse_chunks frame cs rest in (ms @ ms', rest', bad'))"

locale framing =
  fixes frame :: "bytes \<Rightarrow> 'm frame_res"
  assumes frame_size: "frame s = Frame m n \<Longrightarrow> 0 < n \<and> n \<le> length s"
    and frame_extend: "frame s = Frame m n \<Longrightarrow> frame (s @ r) = Frame m n"
    and bad_extend: "frame s = Bad \<Longrightarrow> frame (s @ r) = Bad"
begin

lemma frames_fuel: "length s < k \<Longrightarrow> length s < j \<Longrightarrow> frames frame k s = frames frame j s"
proof (induction k arbitrary: s j)
  case (Suc k)
  then obtain i where j: "j = Suc i" by (cases j) auto
  have "frames frame k (drop n s) = frames frame i (drop n s)" if "frame s = Frame m n" for m n
  proof (rule Suc.IH)
    show "length (drop n s) < k" "length (drop n s) < i" using frame_size [OF that] Suc.prems j by auto
  qed
  then show ?case by (simp add: j split: frame_res.split)
qed simp

lemma parse_step:
  "parse frame s =
     (case frame s of
        More \<Rightarrow> ([], s, False)
      | Bad \<Rightarrow> ([], s, True)
      | Frame m n \<Rightarrow> (let (ms, rest, bad) = parse frame (drop n s) in (m # ms, rest, bad)))"
proof (cases "frame s")
  case (Frame m n)
  then have "frames frame (length s) (drop n s) = frames frame (Suc (length (drop n s))) (drop n s)"
    using frame_size [OF Frame] by (intro frames_fuel) auto
  with Frame show ?thesis by (simp add: parse_def)
qed (simp_all add: parse_def)

lemma parse_induct [consumes 0, case_names stop frame]:
  assumes stop: "\<And>s. frame s = More \<or> frame s = Bad \<Longrightarrow> P s"
    and frame: "\<And>s m n. frame s = Frame m n \<Longrightarrow> 0 < n \<Longrightarrow> n \<le> length s \<Longrightarrow> P (drop n s) \<Longrightarrow> P s"
  shows "P s"
proof (induction "length s" arbitrary: s rule: less_induct)
  case less
  show ?case
  proof (cases "frame s")
    case (Frame m n)
    with frame_size [OF this] less [of "drop n s"] show ?thesis by (intro frame [OF Frame]) auto
  qed (use stop in auto)
qed

text \<open>Bytes that arrive later do not change the messages already cut, nor an error already seen.\<close>

lemma parse_append:
  "parse frame (s @ r) =
     (let (ms, rest, bad) = parse frame s
      in if bad then (ms, rest @ r, True)
         else let (ms', rest', bad') = parse frame (rest @ r) in (ms @ ms', rest', bad'))"
proof (induction s rule: parse_induct)
  case (stop s)
  then show ?case
  proof
    assume "frame s = More"
    then show ?thesis by (simp add: parse_step [of s])
  next
    assume "frame s = Bad"
    with bad_extend [OF this] show ?thesis by (simp add: parse_step [of s] parse_step [of "s @ r"])
  qed
next
  case (frame s m n)
  have "drop n (s @ r) = drop n s @ r" using frame(3) by simp
  with frame(4) show ?case
    by (simp add: parse_step [of s] parse_step [of "s @ r"] frame(1) frame_extend [OF frame(1)] split: prod.split)
qed

lemma parse_rest: "parse frame s = (ms, rest, bad) \<Longrightarrow> \<exists>k. rest = drop k s"
proof (induction s arbitrary: ms rule: parse_induct)
  case (stop s)
  then have "rest = drop 0 s" by (auto simp: parse_step [of s])
  then show ?case by blast
next
  case (frame s m n)
  then obtain ms' where "parse frame (drop n s) = (ms', rest, bad)"
    by (auto simp: parse_step [of s] split: prod.splits)
  with frame.IH show ?case by (metis drop_drop)
qed

lemma parse_More: "parse frame s = (ms, rest, False) \<Longrightarrow> frame rest = More"
proof (induction s arbitrary: ms rule: parse_induct)
  case (frame s m n)
  then show ?case by (auto simp: parse_step [of s] split: prod.splits)
next
  case (stop s)
  then show ?case by (auto simp: parse_step [of s])
qed

text \<open>A message that is not complete is not an error, and no other message.\<close>

lemma prefix_More:
  assumes "frame s = Frame m (length s)" "k < length s"
  shows "frame (take k s) = More"
proof (cases "frame (take k s)")
  case (Frame m' n)
  from frame_extend [OF this, of "drop k s"] frame_size [OF this] assms show ?thesis by simp
next
  case Bad
  from bad_extend [OF this, of "drop k s"] assms(1) show ?thesis by simp
qed

text \<open>
  The messages do not depend on how the network cuts the stream: delivered in chunks, it yields the
  messages of the whole stream, and an error exactly when the whole stream has one.
\<close>

lemma chunks_whole:
  assumes "frame s = More" "parse_chunks frame cs s = (ms, rest, bad)"
  shows "\<exists>rest'. parse frame (s @ concat cs) = (ms, rest', bad) \<and> (\<not> bad \<longrightarrow> rest' = rest)"
  using assms
proof (induction cs arbitrary: s ms)
  case Nil
  with parse_step [of s] show ?case by auto
next
  case (Cons c cs)
  obtain ms1 rest1 bad1 where p: "parse frame (s @ c) = (ms1, rest1, bad1)" by (cases "parse frame (s @ c)")
  note ext = parse_append [of "s @ c" "concat cs"]
  show ?case
  proof (cases bad1)
    case True
    with p Cons.prems(2) ext show ?thesis by simp
  next
    case False
    obtain ms2 where q: "parse_chunks frame cs rest1 = (ms2, rest, bad)" "ms = ms1 @ ms2"
      using p Cons.prems(2) False by (auto split: prod.splits)
    have "frame rest1 = More" using parse_More p False by simp
    from Cons.IH [OF this q(1)] p ext q(2) False show ?thesis by (auto split: prod.splits)
  qed
qed

end

end
