(* ===== verification/Custz.thy ===== *)
theory Custz
  imports Prots_Pub Framing
begin

text \<open>
  Models \<open>lib/protocol/custz.c\<close> and \<open>custz_head.c\<close>: messages with a length header in one of three
  codings (four bytes, a flag byte that chooses the width, the variable-length integer). \<open>h\<close> is the
  host's byte order. The reference is \<open>custz_frame\<close>, which says on the byte stream alone what the
  next message is; the code is shown to agree with it, packing to be inverted by unpacking, and
  every strict prefix of a packed message to be answered with "more data".
\<close>

definition CUSTZ_FIXED_LENS :: nat where "CUSTZ_FIXED_LENS = 4"
definition CUSTZ_MAX_PACK_LENS :: nat where "CUSTZ_MAX_PACK_LENS = 65535"

section \<open>Headers\<close>

text \<open>
  A decoder returns \<open>Some (hlens, size)\<close> for \<open>ERR_OK\<close> with its two outputs and \<open>None\<close> for
  \<open>ERR_FAILED\<close>, and in both cases the status word and the buffer (looking may move its cursor).
\<close>

type_synonym head_res = "((nat \<times> nat) option \<times> u32 \<times> buffer) option"

definition custz_decode_fixed :: "bool \<Rightarrow> buffer \<Rightarrow> u32 \<Rightarrow> head_res" where
  "custz_decode_fixed h buf status =
     (if buffer_size buf < CUSTZ_FIXED_LENS then Some (None, bit_set status PROT_MOREDATA, buf)
      else Option.bind (buffer_copyout buf 0 CUSTZ_FIXED_LENS) (\<lambda>(head, n, buf).
        assertab (n = CUSTZ_FIXED_LENS)
          (Some (Some (CUSTZ_FIXED_LENS, unat (read_be32 h head)), status, buf))))"

definition custz_decode_flag :: "bool \<Rightarrow> buffer \<Rightarrow> u32 \<Rightarrow> head_res" where
  "custz_decode_flag h buf status =
     (if buffer_size buf < 1 then Some (None, bit_set status PROT_MOREDATA, buf)
      else Option.bind (buffer_at buf 0) (\<lambda>(flag, buf).
        if flag \<le> 0xfc then Some (Some (1, unat flag), status, buf)
        else if flag = 0xfd then
          (if buffer_size buf < 1 + 2 then Some (None, bit_set status PROT_MOREDATA, buf)
           else Option.bind (buffer_copyout buf 1 2) (\<lambda>(buf16, n, buf).
             assertab (n = 2) (Some (Some (1 + 2, unat (read_be16 h buf16)), status, buf))))
        else if flag = 0xfe then
          (if buffer_size buf < 1 + 4 then Some (None, bit_set status PROT_MOREDATA, buf)
           else Option.bind (buffer_copyout buf 1 4) (\<lambda>(be32, n, buf).
             assertab (n = 4) (Some (Some (1 + 4, unat (read_be32 h be32)), status, buf))))
        else
          (if buffer_size buf < 1 + 8 then Some (None, bit_set status PROT_MOREDATA, buf)
           else Option.bind (buffer_copyout buf 1 8) (\<lambda>(be64, n, buf).
             assertab (n = 8) (Some (Some (1 + 8, unat (read_be64 h be64)), status, buf))))))"

definition custz_decode_variable :: "buffer \<Rightarrow> u32 \<Rightarrow> head_res" where
  "custz_decode_variable buf status =
     (let blens = buffer_size buf
      in if blens < 1 then Some (None, bit_set status PROT_MOREDATA, buf)
         else Option.bind (varint_decode_mqtt buf 0 blens) (\<lambda>(occupy, v, buf).
           if 0 < occupy then Some (Some (nat occupy, unat v), status, buf)
           else Some (None, bit_set status (if 4 \<le> blens then PROT_ERROR else PROT_MOREDATA), buf)))"

text \<open>
  An encoder returns the allocated block with the header at its front, and its two outputs. The
  variable one allocates the longest header and may leave up to three bytes unused at the end.
\<close>

type_synonym enc_res = "(bytes \<times> nat \<times> nat) option"

definition custz_encode_fixed :: "bool \<Rightarrow> nat \<Rightarrow> enc_res" where
  "custz_encode_fixed h dlens =
     (let hlens = CUSTZ_FIXED_LENS
      in if UINT32_MAX < dlens \<or> SIZE_MAX - hlens < dlens then None
         else let sz = hlens + dlens
              in Some (mem_put (replicate sz 0) 0 (write_be32 h (of_nat dlens)), hlens, sz))"

definition custz_encode_flag :: "bool \<Rightarrow> nat \<Rightarrow> enc_res" where
  "custz_encode_flag h dlens =
     (if dlens \<le> 0xfc then
        let sz = 1 + dlens in Some (mem_put (replicate sz 0) 0 [of_nat dlens], 1, sz)
      else if dlens \<le> 65535 then
        let hlens = 1 + 2; sz = hlens + dlens
        in Some (mem_put (replicate sz 0) 0 (0xfd # write_be16 h (of_nat dlens)), hlens, sz)
      else if dlens \<le> UINT32_MAX then
        let hlens = 1 + 4
        in if SIZE_MAX - hlens < dlens then None
           else let sz = hlens + dlens
                in Some (mem_put (replicate sz 0) 0 (0xfe # write_be32 h (of_nat dlens)), hlens, sz)
      else
        let hlens = 1 + 8
        in if SIZE_MAX - hlens < dlens then None
           else let sz = hlens + dlens
                in Some (mem_put (replicate sz 0) 0 (0xff # write_be64 h (of_nat dlens)), hlens, sz))"

definition custz_encode_variable :: "nat \<Rightarrow> enc_res" where
  "custz_encode_variable dlens =
     (if MQTT_VARINT_MAX < dlens then None
      else let hdr = varint_encode_mqtt (of_nat dlens); hlens = length hdr
           in Some (mem_put (replicate (4 + dlens) 0) 0 hdr, hlens, dlens + hlens))"

section \<open>Messages\<close>

text \<open>\<open>ASSERTAB(0, ...)\<close> of the default branches is the outer \<open>None\<close>; the inner one is \<open>NULL\<close>.\<close>

definition custz_unpack :: "bool \<Rightarrow> pack_type \<Rightarrow> buffer \<Rightarrow> u32 \<Rightarrow> (bytes option \<times> u32 \<times> buffer) option" where
  "custz_unpack h pktype buf status =
     Option.bind
       (case pktype of
          PACK_CUSTZ_FIXED \<Rightarrow> custz_decode_fixed h buf status
        | PACK_CUSTZ_FLAG \<Rightarrow> custz_decode_flag h buf status
        | PACK_CUSTZ_VAR \<Rightarrow> custz_decode_variable buf status
        | _ \<Rightarrow> None)
       (\<lambda>(r, status, buf).
         case r of
           None \<Rightarrow> Some (None, status, buf)
         | Some (hlens, sz) \<Rightarrow>
             if sz = 0 \<or> CUSTZ_MAX_PACK_LENS < sz then Some (None, bit_set status PROT_ERROR, buf)
             else let pklens = hlens + sz
                  in if buffer_size buf < pklens
                     then Some (None, bit_set status PROT_MOREDATA, buffer_want buf (pklens - buffer_size buf))
                     else Option.bind (buffer_copyout buf hlens sz) (\<lambda>(msg, n, buf).
                       assertab (n = sz) (Option.bind (buffer_drain buf pklens) (\<lambda>(m, buf).
                         assertab (m = pklens) (Some (Some msg, status, buf))))))"

text \<open>The packed message is the block's first \<open>*size\<close> bytes, which is what the caller sends.\<close>

definition custz_pack :: "bool \<Rightarrow> pack_type \<Rightarrow> bytes \<Rightarrow> bytes option option" where
  "custz_pack h pktype data =
     (let lens = length data
      in if lens = 0 then Some None
         else map_option (map_option (\<lambda>(pack, hlens, sz). take sz (mem_put pack hlens data)))
           (case pktype of
              PACK_CUSTZ_FIXED \<Rightarrow> Some (custz_encode_fixed h lens)
            | PACK_CUSTZ_FLAG \<Rightarrow> Some (custz_encode_flag h lens)
            | PACK_CUSTZ_VAR \<Rightarrow> Some (custz_encode_variable lens)
            | _ \<Rightarrow> None))"

section \<open>The reference\<close>

text \<open>The number a big-endian byte list stands for.\<close>

definition be_value :: "bytes \<Rightarrow> nat" where
  "be_value bs = foldl (\<lambda>v b. v * 256 + unat b) 0 bs"

text \<open>
  The header at the front of a stream: \<open>Inr (Some (hlens, sz))\<close>, \<open>Inr None\<close> if it is not complete,
  \<open>Inl ()\<close> if no continuation is one.
\<close>

definition be_head :: "nat \<Rightarrow> nat \<Rightarrow> bytes \<Rightarrow> unit + (nat \<times> nat) option" where
  "be_head skip n s = (if length s < skip + n then Inr None else Inr (Some (skip + n, be_value (take n (drop skip s)))))"

definition custz_header :: "pack_type \<Rightarrow> bytes \<Rightarrow> unit + (nat \<times> nat) option" where
  "custz_header pktype s =
     (case pktype of
        PACK_CUSTZ_FIXED \<Rightarrow> be_head 0 4 s
      | PACK_CUSTZ_FLAG \<Rightarrow>
          (if s = [] then Inr None
           else if unat (hd s) \<le> 252 then Inr (Some (1, unat (hd s)))
           else be_head 1 (if hd s = 253 then 2 else if hd s = 254 then 4 else 8) s)
      | _ \<Rightarrow>
          (case varint_value 4 s of
             Some r \<Rightarrow> Inr (Some r)
           | None \<Rightarrow> if length s < 4 then Inr None else Inl ()))"

definition custz_frame :: "pack_type \<Rightarrow> bytes \<Rightarrow> bytes frame_res" where
  "custz_frame pktype s =
     (case custz_header pktype s of
        Inl _ \<Rightarrow> Bad
      | Inr None \<Rightarrow> More
      | Inr (Some (hlens, sz)) \<Rightarrow>
          if sz = 0 \<or> 65535 < sz then Bad
          else if length s < hlens + sz then More
          else Frame (take sz (drop hlens s)) (hlens + sz))"

lemma be_value_snoc: "be_value (bs @ [b]) = be_value bs * 256 + unat b"
  by (simp add: be_value_def)

lemma be_value_less: "be_value bs < 256 ^ length bs"
proof (induction bs rule: rev_induct)
  case (snoc b bs)
  have "unat b < 256" using unsigned_less [of b] by simp
  with snoc show ?case by (simp add: be_value_snoc)
qed (simp add: be_value_def)

lemma be_value_load:
  "8 * length bs \<le> LENGTH('a) \<Longrightarrow> (le_load (rev bs) :: 'a::len word) = of_nat (be_value bs)"
proof (induction bs rule: rev_induct)
  case (snoc b bs)
  have "(push_bit 8 (le_load (rev bs)) OR ucast b :: 'a word) = push_bit 8 (le_load (rev bs)) + ucast b"
    by (rule disjunctive_add [symmetric]) (auto simp: bit_push_bit_iff bit_ucast_iff dest: bit_imp_le_length)
  then show ?case using snoc by (simp add: be_value_snoc push_bit_eq_mult)
qed (simp add: be_value_def)

lemma unat_be_load:
  "8 * length bs \<le> LENGTH('a) \<Longrightarrow> unat (le_load (rev bs) :: 'a::len word) = be_value bs"
proof -
  assume le: "8 * length bs \<le> LENGTH('a)"
  have "be_value bs < 256 ^ length bs" by (rule be_value_less)
  also have "(256 :: nat) ^ length bs = 2 ^ (8 * length bs)" by (simp add: power_mult)
  also have "(2 :: nat) ^ (8 * length bs) \<le> 2 ^ LENGTH('a)" using le by simp
  finally show ?thesis using le by (simp add: be_value_load unat_of_nat take_bit_eq_mod)
qed

lemma read_be_value:
  "length p = 2 \<Longrightarrow> unat (read_be16 h p) = be_value p" "length p = 4 \<Longrightarrow> unat (read_be32 h p) = be_value p"
  "length p = 8 \<Longrightarrow> unat (read_be64 h p) = be_value p"
  by (simp_all add: read_order unat_be_load)

section \<open>The code agrees with the reference\<close>

text \<open>What a decoder has to answer, given the reference header.\<close>

definition head_ok :: "unit + (nat \<times> nat) option \<Rightarrow> buffer \<Rightarrow> u32 \<Rightarrow> head_res \<Rightarrow> bool" where
  "head_ok spec b st res \<longleftrightarrow>
     (\<exists>b'. binv b' \<and> content b' = content b \<and>
       res = Some (case spec of
               Inl _ \<Rightarrow> (None, bit_set st PROT_ERROR, b')
             | Inr None \<Rightarrow> (None, bit_set st PROT_MOREDATA, b')
             | Inr (Some r) \<Rightarrow> (Some r, st, b')))"

lemma be_head_ok:
  assumes b: "binv b"
    and short: "length (content b) < skip + n \<Longrightarrow> res = Some (None, bit_set st PROT_MOREDATA, b)"
    and full: "\<And>b'. buffer_copyout b skip n = Some (take n (drop skip (content b)), n, b') \<Longrightarrow>
      skip + n \<le> length (content b) \<Longrightarrow>
      res = Some (Some (skip + n, be_value (take n (drop skip (content b)))), st, b')"
  shows "head_ok (be_head skip n (content b)) b st res"
proof (cases "length (content b) < skip + n")
  case True
  with short b show ?thesis by (auto simp: head_ok_def be_head_def)
next
  case False
  then have le: "skip + n \<le> length (content b)" by simp
  obtain b' where "buffer_copyout b skip n = Some (take n (drop skip (content b)), n, b')" "binv b'" "content b' = content b"
    using buf.peek_copy [OF b le] by blast
  with full [OF this(1) le] False show ?thesis by (auto simp: head_ok_def be_head_def)
qed

lemma decode_fixed_ok:
  "binv b \<Longrightarrow> head_ok (custz_header PACK_CUSTZ_FIXED (content b)) b st (custz_decode_fixed h b st)"
  unfolding custz_header_def pack_type.case
  by (rule be_head_ok) (simp_all add: custz_decode_fixed_def CUSTZ_FIXED_LENS_def buf.len_law read_be_value)

lemma decode_flag_ok:
  assumes b: "binv b"
  shows "head_ok (custz_header PACK_CUSTZ_FLAG (content b)) b st (custz_decode_flag h b st)"
proof (cases "content b")
  case Nil
  with b show ?thesis by (auto simp: custz_decode_flag_def custz_header_def head_ok_def buf.len_law)
next
  case (Cons f s)
  then have pos: "0 < length (content b)" by simp
  obtain b1 where b1: "buffer_at b 0 = Some (f, b1)" "binv b1" "content b1 = content b"
    using buf.peek_at [OF b pos] Cons by auto
  note len = buf.len_law [OF b] buf.len_law [OF b1(2), unfolded b1(3)]
  have flag: "f \<le> 0xfc \<longleftrightarrow> unat f \<le> 252" by (simp add: word_le_nat_alt)
  have w: "head_ok (be_head 1 n (content b)) b st
      (if length (content b) < 1 + n then Some (None, bit_set st PROT_MOREDATA, b1)
       else Option.bind (buffer_copyout b1 1 n) (\<lambda>(p, k, buf). assertab (k = n) (Some (Some (1 + n, f p), st, buf))))"
    if f: "\<And>p. length p = n \<Longrightarrow> f p = be_value p" for n f
  proof -
    have "head_ok (be_head 1 n (content b1)) b1 st
      (if length (content b) < 1 + n then Some (None, bit_set st PROT_MOREDATA, b1)
       else Option.bind (buffer_copyout b1 1 n) (\<lambda>(p, k, buf). assertab (k = n) (Some (Some (1 + n, f p), st, buf))))"
      by (rule be_head_ok) (use b1 f in auto)
    then show ?thesis by (simp add: head_ok_def b1(3))
  qed
  show ?thesis
  proof (cases "unat f \<le> 252")
    case True
    with Cons b1 len show ?thesis
      by (auto simp: custz_decode_flag_def custz_header_def head_ok_def flag)
  next
    case False
    then have f: "\<not> f \<le> 0xfc" by (simp add: flag)
    have hdr: "custz_header PACK_CUSTZ_FLAG (content b) =
        be_head 1 (if f = 253 then 2 else if f = 254 then 4 else 8) (content b)"
      using False Cons by (simp add: custz_header_def)
    have ne: "\<not> length (content b) < 1" using pos by simp
    have w2: "head_ok (be_head 1 2 (content b)) b st
      (if length (content b) < 1 + 2 then Some (None, bit_set st PROT_MOREDATA, b1)
       else Option.bind (buffer_copyout b1 1 2) (\<lambda>(p, k, buf).
         assertab (k = 2) (Some (Some (1 + 2, unat (read_be16 h p)), st, buf))))"
      by (rule w) (rule read_be_value)
    have w4: "head_ok (be_head 1 4 (content b)) b st
      (if length (content b) < 1 + 4 then Some (None, bit_set st PROT_MOREDATA, b1)
       else Option.bind (buffer_copyout b1 1 4) (\<lambda>(p, k, buf).
         assertab (k = 4) (Some (Some (1 + 4, unat (read_be32 h p)), st, buf))))"
      by (rule w) (rule read_be_value)
    have w8: "head_ok (be_head 1 8 (content b)) b st
      (if length (content b) < 1 + 8 then Some (None, bit_set st PROT_MOREDATA, b1)
       else Option.bind (buffer_copyout b1 1 8) (\<lambda>(p, k, buf).
         assertab (k = 8) (Some (Some (1 + 8, unat (read_be64 h p)), st, buf))))"
      by (rule w) (rule read_be_value)
    have pick: "head_ok (be_head 1 (if p then 2 else if q then 4 else 8) (content b)) b st (if p then x else if q then y else z)"
      if "head_ok (be_head 1 2 (content b)) b st x" "head_ok (be_head 1 4 (content b)) b st y"
        "head_ok (be_head 1 8 (content b)) b st z" for p q x y z
      using that by simp
    show ?thesis
      unfolding custz_decode_flag_def b1(1) len hdr bind.bind_lunit prod.case if_not_P [OF ne] if_not_P [OF f]
      by (rule pick [OF w2 w4 w8])
  qed
qed

lemma decode_variable_ok:
  assumes b: "binv b"
  shows "head_ok (custz_header PACK_CUSTZ_VAR (content b)) b st (custz_decode_variable b st)"
proof (cases "content b = []")
  case True
  with b show ?thesis by (auto simp: custz_decode_variable_def custz_header_def head_ok_def buf.len_law)
next
  case False
  then have pos: "0 < length (content b)" by simp
  obtain b' w where d: "binv b'" "content b' = content b"
    "varint_decode_mqtt b 0 (length (content b)) = Some (case varint_value 4 (content b) of
        None \<Rightarrow> (- 1, w, b') | Some (n, x) \<Rightarrow> (int n, of_nat x, b'))"
    using varint_decode_ok [OF b pos] by auto
  show ?thesis
  proof (cases "varint_value 4 (content b)")
    case None
    with d pos show ?thesis
      by (auto simp: custz_decode_variable_def custz_header_def head_ok_def buf.len_law [OF b] Let_def)
  next
    case (Some r)
    obtain n x where r: "r = (n, x)" by (cases r)
    from varint_value_bounds [OF Some [unfolded r]] have "0 < n" "x < 128 ^ 4" by auto
    moreover from this have "unat (of_nat x :: u64) = x" by (simp add: unat_of_nat take_bit_eq_mod)
    ultimately show ?thesis using d pos Some r
      by (auto simp: custz_decode_variable_def custz_header_def head_ok_def buf.len_law [OF b] Let_def)
  qed
qed

definition is_custz :: "pack_type \<Rightarrow> bool" where
  "is_custz pktype \<longleftrightarrow> pktype \<in> {PACK_CUSTZ_FIXED, PACK_CUSTZ_FLAG, PACK_CUSTZ_VAR}"

lemma is_custz_cases [consumes 1]:
  assumes "is_custz pktype" "pktype = PACK_CUSTZ_FIXED \<Longrightarrow> P" "pktype = PACK_CUSTZ_FLAG \<Longrightarrow> P"
    "pktype = PACK_CUSTZ_VAR \<Longrightarrow> P"
  shows P
  using assms by (auto simp: is_custz_def)

lemma unpack_ok:
  assumes b: "binv b" and pk: "is_custz pktype"
  shows "\<exists>b'. binv b' \<and> content b' = (case custz_frame pktype (content b) of Frame m n \<Rightarrow> drop n (content b) | _ \<Rightarrow> content b) \<and>
    custz_unpack h pktype b st = Some (case custz_frame pktype (content b) of
        Bad \<Rightarrow> (None, bit_set st PROT_ERROR, b')
      | More \<Rightarrow> (None, bit_set st PROT_MOREDATA, b')
      | Frame m n \<Rightarrow> (Some m, st, b'))"
proof -
  let ?head = "case pktype of PACK_CUSTZ_FIXED \<Rightarrow> custz_decode_fixed h b st
    | PACK_CUSTZ_FLAG \<Rightarrow> custz_decode_flag h b st | PACK_CUSTZ_VAR \<Rightarrow> custz_decode_variable b st | _ \<Rightarrow> None"
  have "head_ok (custz_header pktype (content b)) b st ?head"
    using pk decode_fixed_ok [OF b] decode_flag_ok [OF b] decode_variable_ok [OF b]
    by (cases rule: is_custz_cases) simp_all
  then obtain b1 where b1: "binv b1" "content b1 = content b" and hd: "?head = Some (case custz_header pktype (content b) of
       Inl _ \<Rightarrow> (None, bit_set st PROT_ERROR, b1)
     | Inr None \<Rightarrow> (None, bit_set st PROT_MOREDATA, b1)
     | Inr (Some r) \<Rightarrow> (Some r, st, b1))"
    unfolding head_ok_def by blast
  note len = buf.len_law [OF b1(1), unfolded b1(2)]
  consider e where "custz_header pktype (content b) = Inl e" | "custz_header pktype (content b) = Inr None"
    | hl sz where "custz_header pktype (content b) = Inr (Some (hl, sz))"
    by (metis old.prod.exhaust option.exhaust sum.exhaust)
  then show ?thesis
  proof cases
    case (3 hl sz)
    consider "sz = 0 \<or> 65535 < sz" | "\<not> (sz = 0 \<or> 65535 < sz)" "length (content b) < hl + sz"
      | "\<not> (sz = 0 \<or> 65535 < sz)" "hl + sz \<le> length (content b)" by linarith
    then show ?thesis
    proof cases
      case 1
      with 3 hd b1 show ?thesis by (simp add: custz_unpack_def custz_frame_def CUSTZ_MAX_PACK_LENS_def)
    next
      case 2
      with 3 hd b1 len buf.want_law [OF b1(1)] show ?thesis
        by (simp add: custz_unpack_def custz_frame_def CUSTZ_MAX_PACK_LENS_def Let_def)
    next
      case n: 3
      obtain b2 where b2: "buffer_copyout b1 hl sz = Some (take sz (drop hl (content b)), sz, b2)" "binv b2" "content b2 = content b"
        using buf.peek_copy [OF b1(1), of hl sz] n b1(2) by auto
      obtain b3 where b3: "buffer_drain b2 (hl + sz) = Some (hl + sz, b3)" "binv b3" "content b3 = drop (hl + sz) (content b)"
        using buf.take_out [OF b2(2), of "hl + sz"] n b2(3) by auto
      from n 3 hd b1 len b2 b3 show ?thesis
        by (simp add: custz_unpack_def custz_frame_def CUSTZ_MAX_PACK_LENS_def Let_def)
    qed
  qed (use hd b1 in \<open>simp_all add: custz_unpack_def custz_frame_def\<close>)
qed

section \<open>The reference is a framing\<close>

lemma be_head_extend: "be_head k n s = Inr (Some r) \<Longrightarrow> be_head k n (s @ t) = Inr (Some r)"
proof -
  assume a: "be_head k n s = Inr (Some r)"
  then have le: "k + n \<le> length s" by (simp add: be_head_def split: if_splits)
  then have "take n (drop k (s @ t)) = take n (drop k s)" by simp
  with a le show ?thesis by (simp add: be_head_def)
qed

lemma be_head_total [simp]: "be_head k n s \<noteq> Inl e"
  by (simp add: be_head_def)

lemma header_extend:
  "custz_header pktype s = Inr (Some r) \<Longrightarrow> custz_header pktype (s @ t) = Inr (Some r)"
  "custz_header pktype s = Inl e \<Longrightarrow> custz_header pktype (s @ t) = Inl e"
  by (auto simp: custz_header_def be_head_extend varint_value_extend varint_value_None_extend
      split: pack_type.splits option.splits if_splits)

lemma header_size: "custz_header pktype s = Inr (Some (hl, sz)) \<Longrightarrow> 0 < hl"
  by (auto simp: custz_header_def be_head_def dest: varint_value_bounds
      split: pack_type.splits option.splits if_splits)

interpretation custz: framing "custz_frame pktype" for pktype
proof
  fix s r m n
  show "0 < n \<and> n \<le> length s" if "custz_frame pktype s = Frame m n"
    using that header_size [of pktype s] by (auto simp: custz_frame_def split: sum.splits option.splits if_splits)
  show "custz_frame pktype (s @ r) = Frame m n" if "custz_frame pktype s = Frame m n"
  proof -
    from that obtain hl sz where hd: "custz_header pktype s = Inr (Some (hl, sz))"
      and f: "\<not> (sz = 0 \<or> 65535 < sz)" "hl + sz \<le> length s" "m = take sz (drop hl s)" "n = hl + sz"
      by (auto simp: custz_frame_def split: sum.splits option.splits if_splits)
    from f header_extend(1) [OF hd, of r] show ?thesis by (simp add: custz_frame_def)
  qed
  show "custz_frame pktype (s @ r) = Bad" if "custz_frame pktype s = Bad"
    using that header_extend [of pktype s _ r] by (auto simp: custz_frame_def split: sum.splits option.splits if_splits)
qed

section \<open>Packing\<close>

lemma block_header:
  assumes "length hdr + length d \<le> n"
  shows "take (length hdr + length d) (mem_put (mem_put (replicate n 0) 0 hdr) (length hdr) d) = hdr @ d"
  using assms by (simp add: mem_put_def)

lemma be_value_write:
  "be_value (write_be16 h w) = unat w" "be_value (write_be32 h x) = unat x" "be_value (write_be64 h y) = unat y"
  using read_be_value(1) [of "write_be16 h w" h] read_be_value(2) [of "write_be32 h x" h]
    read_be_value(3) [of "write_be64 h y" h] read_write(1) [of h h w "[]"] read_write(2) [of h h x "[]"]
    read_write(3) [of h h y "[]"] by simp_all

lemma be_head_front: "length f = k \<Longrightarrow> length v = n \<Longrightarrow> be_head k n (f @ v @ t) = Inr (Some (k + n, be_value v))"
  by (simp add: be_head_def)

text \<open>An encoder's block starts with a header that announces the given length.\<close>

definition encodes :: "pack_type \<Rightarrow> nat \<Rightarrow> enc_res \<Rightarrow> bool" where
  "encodes pktype lens res \<longleftrightarrow>
     (\<exists>hdr n. res = Some (mem_put (replicate n 0) 0 hdr, length hdr, length hdr + lens) \<and> length hdr + lens \<le> n \<and>
        (\<forall>t. custz_header pktype (hdr @ t) = Inr (Some (length hdr, lens))))"

lemma encodesI:
  assumes "res = Some (mem_put (replicate n 0) 0 hdr, hl, sz)" "hl = length hdr" "sz = length hdr + lens" "length hdr + lens \<le> n"
    "\<And>t. custz_header pktype (hdr @ t) = Inr (Some (length hdr, lens))"
  shows "encodes pktype lens res"
  using assms unfolding encodes_def by blast

lemma encode_fixed_ok: "lens \<le> UINT32_MAX \<Longrightarrow> encodes PACK_CUSTZ_FIXED lens (custz_encode_fixed h lens)"
  by (rule encodesI [where hdr = "write_be32 h (of_nat lens)" and n = "4 + lens"])
    (use be_head_front [of "[]" 0 "write_be32 h (of_nat lens)" 4] in
      \<open>simp_all add: custz_encode_fixed_def CUSTZ_FIXED_LENS_def Let_def custz_header_def be_value_write unat_of_nat take_bit_eq_mod\<close>)

lemma encode_flag_ok:
  assumes "lens \<le> UINT32_MAX"
  shows "encodes PACK_CUSTZ_FLAG lens (custz_encode_flag h lens)"
proof -
  consider "lens \<le> 252" | "252 < lens" "lens \<le> 65535" | "65535 < lens" by linarith
  then show ?thesis
  proof cases
    case 1
    then have "unat (of_nat lens :: u8) = lens" by (simp add: unat_of_nat take_bit_eq_mod)
    with 1 show ?thesis
      by (intro encodesI [where hdr = "[of_nat lens]" and n = "1 + lens"])
        (simp_all add: custz_encode_flag_def Let_def custz_header_def)
  next
    case 2
    then show ?thesis
      using be_head_front [of "[0xfd]" 1 "write_be16 h (of_nat lens)" 2]
      by (intro encodesI [where hdr = "0xfd # write_be16 h (of_nat lens)" and n = "1 + 2 + lens"])
        (simp_all add: custz_encode_flag_def Let_def custz_header_def be_value_write unat_of_nat take_bit_eq_mod)
  next
    case 3
    then show ?thesis
      using be_head_front [of "[0xfe]" 1 "write_be32 h (of_nat lens)" 4] assms
      by (intro encodesI [where hdr = "0xfe # write_be32 h (of_nat lens)" and n = "5 + lens"])
        (simp_all add: custz_encode_flag_def Let_def custz_header_def be_value_write unat_of_nat take_bit_eq_mod)
  qed
qed

lemma encode_variable_ok:
  assumes "lens \<le> MQTT_VARINT_MAX"
  shows "encodes PACK_CUSTZ_VAR lens (custz_encode_variable lens)"
proof -
  define v where "v = (of_nat lens :: u32)"
  have v: "unat v = lens" using assms by (simp add: v_def unat_of_nat take_bit_eq_mod MQTT_VARINT_MAX_def)
  have "unat v < 128 ^ Suc 3" using assms v by (simp add: MQTT_VARINT_MAX_def)
  from varint_loop_value [OF this] have val: "varint_value 4 (varint_loop v @ t) = Some (length (varint_loop v), lens)" for t
    by (simp add: v)
  from varint_value_bounds [OF val] have "length (varint_loop v) \<le> 4" by simp
  with val v assms show ?thesis
    by (intro encodesI [where hdr = "varint_loop v" and n = "4 + lens"])
      (simp_all add: custz_encode_variable_def varint_encode_mqtt_def Let_def custz_header_def flip: v_def)
qed

lemma pack_ok:
  assumes "is_custz pktype" "d \<noteq> []" "length d \<le> 65535"
  obtains hdr where "custz_pack h pktype d = Some (Some (hdr @ d))"
    "\<And>t. custz_frame pktype (hdr @ d @ t) = Frame d (length (hdr @ d))"
proof -
  have "encodes pktype (length d) (case pktype of PACK_CUSTZ_FIXED \<Rightarrow> custz_encode_fixed h (length d)
      | PACK_CUSTZ_FLAG \<Rightarrow> custz_encode_flag h (length d) | _ \<Rightarrow> custz_encode_variable (length d))"
    using assms encode_fixed_ok [of "length d"] encode_flag_ok [of "length d"] encode_variable_ok [of "length d"]
    by (cases rule: is_custz_cases) (simp_all add: MQTT_VARINT_MAX_def)
  then obtain hdr n where e: "(case pktype of PACK_CUSTZ_FIXED \<Rightarrow> custz_encode_fixed h (length d)
      | PACK_CUSTZ_FLAG \<Rightarrow> custz_encode_flag h (length d) | _ \<Rightarrow> custz_encode_variable (length d)) =
        Some (mem_put (replicate n 0) 0 hdr, length hdr, length hdr + length d)" "length hdr + length d \<le> n"
      "\<And>t. custz_header pktype (hdr @ t) = Inr (Some (length hdr, length d))"
    unfolding encodes_def by blast
  show thesis
  proof
    show "custz_pack h pktype d = Some (Some (hdr @ d))"
      using assms e(1) block_header [OF e(2)] by (cases rule: is_custz_cases) (simp_all add: custz_pack_def)
    show "custz_frame pktype (hdr @ d @ t) = Frame d (length (hdr @ d))" for t
      using assms e(3) by (simp add: custz_frame_def)
  qed
qed

section \<open>Properties\<close>

text \<open>
  C27: \<open>custz_unpack\<close> does on the buffer what the reference says on the byte stream, for each of the
  three header codings: it hands out the next message and takes exactly its bytes, asks for more
  data without taking any, or reports a protocol error; it never aborts.
\<close>

theorem custz_unpack_frames:
  assumes "binv b" "is_custz pktype"
  shows "\<exists>b'. binv b' \<and>
    content b' = (case custz_frame pktype (content b) of Frame m n \<Rightarrow> drop n (content b) | _ \<Rightarrow> content b) \<and>
    custz_unpack h pktype b st = Some (case custz_frame pktype (content b) of
        Bad \<Rightarrow> (None, bit_set st PROT_ERROR, b')
      | More \<Rightarrow> (None, bit_set st PROT_MOREDATA, b')
      | Frame m n \<Rightarrow> (Some m, st, b'))"
  by (rule unpack_ok [OF assms])

theorem custz_unpack_frames_witness:
  "\<exists>b'. binv b' \<and> content b' = [72, 69, 76, 76, 79, 13, 10] \<and>
    custz_unpack True PACK_CUSTZ_FLAG buffer_demo 0 = Some (None, bit_set 0 PROT_MOREDATA, b')"
proof -
  have "custz_frame PACK_CUSTZ_FLAG [72, 69, 76, 76, 79, 13, 10] = More"
    by (simp add: custz_frame_def custz_header_def)
  then show ?thesis
    using custz_unpack_frames [of buffer_demo PACK_CUSTZ_FLAG True 0] buffer_demo_ok
    by (simp add: is_custz_def)
qed

text \<open>
  C22: What \<open>custz_pack\<close> builds, \<open>custz_unpack\<close> takes apart, between hosts of either byte order: with
  the packed bytes at the front of the stream it returns the data and leaves what follows; with
  any strict prefix of them it asks for more and takes nothing, so a message cut by the network is
  never lost or misread.
\<close>

theorem custz_roundtrip:
  assumes "is_custz pktype" "d \<noteq> []" "length d \<le> 65535"
  shows "\<exists>p. custz_pack h pktype d = Some (Some p) \<and>
    (\<forall>b r. binv b \<and> content b = p @ r \<longrightarrow>
      (\<exists>b'. custz_unpack h' pktype b st = Some (Some d, st, b') \<and> binv b' \<and> content b' = r)) \<and>
    (\<forall>b k. binv b \<and> k < length p \<and> content b = take k p \<longrightarrow>
      (\<exists>b'. custz_unpack h' pktype b st = Some (None, bit_set st PROT_MOREDATA, b') \<and> binv b' \<and> content b' = take k p))"
proof -
  obtain hdr where p: "custz_pack h pktype d = Some (Some (hdr @ d))"
    "\<And>t. custz_frame pktype (hdr @ d @ t) = Frame d (length (hdr @ d))" using pack_ok [OF assms] by blast
  have whole: "\<exists>b'. custz_unpack h' pktype b st = Some (Some d, st, b') \<and> binv b' \<and> content b' = r"
    if "binv b" "content b = (hdr @ d) @ r" for b r
    using unpack_ok [OF that(1) assms(1), of h' st] p(2) [of r] that(2) by auto
  have part: "\<exists>b'. custz_unpack h' pktype b st = Some (None, bit_set st PROT_MOREDATA, b') \<and> binv b' \<and> content b' = take k (hdr @ d)"
    if "binv b" "k < length (hdr @ d)" "content b = take k (hdr @ d)" for b k
  proof -
    have "custz_frame pktype (take k (hdr @ d)) = More"
      using custz.prefix_More [of pktype "hdr @ d" d k] p(2) [of "[]"] that(2) by simp
    with unpack_ok [OF that(1) assms(1), of h' st] that(3) show ?thesis by auto
  qed
  show ?thesis
    by (rule exI [of _ "hdr @ d"]) (use p(1) whole part in blast)
qed

theorem custz_roundtrip_witness:
  "\<exists>p. custz_pack True PACK_CUSTZ_VAR [1, 2, 3] = Some (Some p) \<and>
    (\<forall>b r. binv b \<and> content b = p @ r \<longrightarrow>
      (\<exists>b'. custz_unpack False PACK_CUSTZ_VAR b 0 = Some (Some [1, 2, 3], 0, b') \<and> binv b' \<and> content b' = r)) \<and>
    (\<forall>b k. binv b \<and> k < length p \<and> content b = take k p \<longrightarrow>
      (\<exists>b'. custz_unpack False PACK_CUSTZ_VAR b 0 = Some (None, bit_set 0 PROT_MOREDATA, b') \<and> binv b' \<and> content b' = take k p))"
  by (rule custz_roundtrip) (simp_all add: is_custz_def)

end
