(* ===== verification/Prots.thy ===== *)
theory Prots
  imports Custz
begin

text \<open>
  Models the receive path of \<open>lib/protocol/prots.c\<close>: \<open>prots_net_recv\<close> with the loop that unpacks and
  emits messages until the buffer is used up. The dispatch table is the argument \<open>vt\<close> (its rows for
  the custz protocols are \<open>custz_vtbl\<close>); the message sink and the event layer, which are callbacks
  there, are the record \<open>io\<close> of functions on a world \<open>'w\<close>. A sink may hand the connection to
  another task or switch its protocol while a message is emitted: \<open>io_emit\<close> returns the new \<open>ud\<close>.
\<close>

text \<open>The \<open>void *\<close> of a message: a plain block for protocols without a packet type, else an object.\<close>

datatype 'o pack_data = Raw bytes | Obj 'o

record 'c ud =
  ud_pktype :: pack_type
  ud_handle :: nat
  ud_sess :: u64
  ud_context :: 'c

record 'o message =
  msg_subtype :: pack_type
  msg_client :: int
  msg_sk :: nat
  msg_slice :: u32
  msg_sess :: u64
  msg_size :: nat
  msg_data :: "'o pack_data"

type_synonym ('o, 'c) unpacked = "('o pack_data option \<times> nat \<times> u32 \<times> 'c ud \<times> buffer) option"

record ('o, 'c) prot_vtbl =
  vt_unpack :: "(int \<Rightarrow> buffer \<Rightarrow> 'c ud \<Rightarrow> u32 \<Rightarrow> ('o, 'c) unpacked) option"
  vt_next_pack :: "('o pack_data \<Rightarrow> 'o pack_data option) option"

record ('o, 'c, 'w) sink =
  io_begin :: "nat \<Rightarrow> 'w \<Rightarrow> bool \<times> 'w"
  io_emit :: "nat \<Rightarrow> 'o message \<Rightarrow> 'w \<Rightarrow> 'c ud \<Rightarrow> 'w \<times> 'c ud"
  io_end :: "nat \<Rightarrow> 'w \<Rightarrow> 'w"
  io_close :: "nat \<Rightarrow> 'w \<Rightarrow> 'w"
  io_pkfree :: "pack_type \<Rightarrow> 'o pack_data \<Rightarrow> 'w \<Rightarrow> 'w"

section \<open>Unpacking one message\<close>

definition prots_unpack_default :: "buffer \<Rightarrow> 'c ud \<Rightarrow> u32 \<Rightarrow> ('o, 'c) unpacked" where
  "prots_unpack_default b ud status =
     (let lens = buffer_size b
      in if lens = 0 then Some (None, 0, status, ud, b)
         else Option.bind (buffer_remove b lens) (\<lambda>(unpack, n, b).
           assertab (n = lens) (Some (Some (Raw unpack), lens, status, ud, b))))"

definition prots_unpack_v :: "('o, 'c) prot_vtbl \<Rightarrow> int \<Rightarrow> buffer \<Rightarrow> 'c ud \<Rightarrow> ('o, 'c) unpacked" where
  "prots_unpack_v v client b ud =
     (case vt_unpack v of
        Some unpack \<Rightarrow> unpack client b ud PROT_INIT
      | None \<Rightarrow> prots_unpack_default b ud PROT_INIT)"

text \<open>The rows of the table for the custz protocols and for the protocols without an unpacker.\<close>

definition custz_vtbl :: "bool \<Rightarrow> ('o, 'c) prot_vtbl" where
  "custz_vtbl h =
     \<lparr>vt_unpack = Some (\<lambda>client b ud status.
        map_option (\<lambda>(m, status, b). (map_option Raw m, (case m of Some d \<Rightarrow> length d | None \<Rightarrow> 0), status, ud, b))
          (custz_unpack h (ud_pktype ud) b status)),
      vt_next_pack = None\<rparr>"

definition vtbl_none :: "('o, 'c) prot_vtbl" where
  "vtbl_none = \<lparr>vt_unpack = None, vt_next_pack = None\<rparr>"

definition prots_vtbl :: "bool \<Rightarrow> (pack_type \<Rightarrow> ('o, 'c) prot_vtbl) \<Rightarrow> pack_type \<Rightarrow> ('o, 'c) prot_vtbl" where
  "prots_vtbl h others pktype =
     (if is_custz pktype then custz_vtbl h
      else if pktype = PACK_NONE then vtbl_none else others pktype)"

section \<open>The receive loop\<close>

definition slice_of :: "u32 \<Rightarrow> u32" where
  "slice_of status =
     (if bit_check status PROT_SLICE_START then PROT_SLICE_START
      else if bit_check status PROT_SLICE then PROT_SLICE
      else if bit_check status PROT_SLICE_END then PROT_SLICE_END
      else 0)"

text \<open>
  The inner loop emits a message and the messages chained to it. The target is looked up again when
  the sink has handed the connection to another task; \<open>None\<close> as the target is the early return after
  that task is gone. The fuel bounds the chain; running out is \<open>None\<close>, as an abort is.
\<close>

fun emit_chain :: "('o, 'c, 'w) sink \<Rightarrow> ('o, 'c) prot_vtbl \<Rightarrow> nat \<Rightarrow> 'o message \<Rightarrow> u32 \<Rightarrow> nat \<Rightarrow>
    'o pack_data option \<Rightarrow> 'w \<Rightarrow> 'c ud \<Rightarrow> (nat option \<times> 'o message \<times> 'w \<times> 'c ud) option" where
  "emit_chain io v k msg status handle None w ud = Some (Some handle, msg, w, ud)"
| "emit_chain io v 0 msg status handle (Some data) w ud = None"
| "emit_chain io v (Suc k) msg status handle (Some data) w ud =
     (let (target, w) =
        (if ud_handle ud \<noteq> handle
         then (let w = io_end io handle w; (found, w) = io_begin io (ud_handle ud) w
               in if found then (Some (ud_handle ud), w)
                  else (None, io_close io (msg_sk msg) (io_pkfree io (msg_subtype msg) data w)))
         else (Some handle, w))
      in case target of
           None \<Rightarrow> Some (None, msg, w, ud)
         | Some handle \<Rightarrow>
             (let msg = msg\<lparr>msg_data := data, msg_sess := ud_sess ud, msg_slice := slice_of status\<rparr>;
                  next = (case vt_next_pack v of Some f \<Rightarrow> f data | None \<Rightarrow> None);
                  (w, ud) = io_emit io handle msg w ud
              in emit_chain io v k (msg\<lparr>msg_size := 0\<rparr>) status handle next w ud))"

fun recv_loop :: "('o, 'c, 'w) sink \<Rightarrow> (pack_type \<Rightarrow> ('o, 'c) prot_vtbl) \<Rightarrow> nat \<Rightarrow> nat \<Rightarrow> nat \<Rightarrow>
    ('o, 'c) prot_vtbl \<Rightarrow> 'o message \<Rightarrow> buffer \<Rightarrow> 'w \<Rightarrow> 'c ud \<Rightarrow> (buffer \<times> 'w \<times> 'c ud) option" where
  "recv_loop io vt chain 0 handle v msg b w ud = None"
| "recv_loop io vt chain (Suc k) handle v msg b w ud =
     (let (v, msg) = (if ud_pktype ud \<noteq> msg_subtype msg
                      then (vt (ud_pktype ud), msg\<lparr>msg_subtype := ud_pktype ud\<rparr>) else (v, msg));
          sz = buffer_size b
      in Option.bind (prots_unpack_v v (msg_client msg) b ud) (\<lambda>(data, esz, status, ud, b).
         Option.bind (emit_chain io v chain (msg\<lparr>msg_size := esz\<rparr>) status handle data w ud) (\<lambda>(target, msg, w, ud).
           case target of
             None \<Rightarrow> Some (b, w, ud)
           | Some handle \<Rightarrow>
               if bit_check status PROT_ERROR then Some (b, io_end io handle (io_close io (msg_sk msg) w), ud)
               else if bit_check status PROT_CLOSE then Some (b, io_end io handle (io_close io (msg_sk msg) w), ud)
               else (let esize = buffer_size b
                     in if 0 = esize \<or> sz = esize \<or> bit_check status PROT_MOREDATA
                        then Some (b, io_end io handle w, ud)
                        else recv_loop io vt chain k handle v msg b w ud))))"

definition prots_recv_msg_init :: "nat \<Rightarrow> int \<Rightarrow> 'c ud \<Rightarrow> 'o message" where
  "prots_recv_msg_init sk client ud =
     \<lparr>msg_subtype = ud_pktype ud, msg_client = client, msg_sk = sk, msg_slice = 0, msg_sess = 0, msg_size = 0,
      msg_data = Raw []\<rparr>"

definition prots_net_recv :: "('o, 'c, 'w) sink \<Rightarrow> (pack_type \<Rightarrow> ('o, 'c) prot_vtbl) \<Rightarrow> nat \<Rightarrow> nat \<Rightarrow>
    nat \<Rightarrow> int \<Rightarrow> buffer \<Rightarrow> 'w \<Rightarrow> 'c ud \<Rightarrow> (buffer \<times> 'w \<times> 'c ud) option" where
  "prots_net_recv io vt chain fuel sk client b w ud =
     (let handle = ud_handle ud; (found, w) = io_begin io handle w
      in if \<not> found then Some (b, io_close io sk w, ud)
         else recv_loop io vt chain fuel handle (vt (ud_pktype ud)) (prots_recv_msg_init sk client ud) b w ud)"

section \<open>A world that records what is done to it\<close>

datatype 'o event = EBegin nat bool | EEmit nat "'o message" | EEnd nat | EClose nat | EFree "'o pack_data"

text \<open>\<open>alive\<close> says which tasks exist; \<open>react\<close> is what a sink does to \<open>ud\<close> when it gets a message.\<close>

definition log_io :: "(nat \<Rightarrow> bool) \<Rightarrow> ('o message \<Rightarrow> 'c ud \<Rightarrow> 'c ud) \<Rightarrow> ('o, 'c, 'o event list) sink" where
  "log_io alive react =
     \<lparr>io_begin = (\<lambda>t w. (alive t, w @ [EBegin t (alive t)])),
      io_emit = (\<lambda>t m w ud. (w @ [EEmit t m], react m ud)),
      io_end = (\<lambda>t w. w @ [EEnd t]),
      io_close = (\<lambda>sk w. w @ [EClose sk]),
      io_pkfree = (\<lambda>pk d w. w @ [EFree d])\<rparr>"

lemma log_io_simps [simp]:
  "io_begin (log_io alive react) t w = (alive t, w @ [EBegin t (alive t)])"
  "io_emit (log_io alive react) t m w ud = (w @ [EEmit t m], react m ud)"
  "io_end (log_io alive react) t w = w @ [EEnd t]"
  "io_close (log_io alive react) sk w = w @ [EClose sk]"
  "io_pkfree (log_io alive react) pk d w = w @ [EFree d]"
  by (simp_all add: log_io_def)

text \<open>
  The discipline of the windows: one is opened at a time, messages go to the task whose window is
  open, only that window is ended. \<open>windows\<close> maps the open window before to the one after.
\<close>

fun windows :: "nat option \<Rightarrow> 'o event list \<Rightarrow> nat option option" where
  "windows open [] = Some open"
| "windows open (EBegin t found # es) = (if open = None then windows (if found then Some t else None) es else None)"
| "windows open (EEmit t m # es) = (if open = Some t then windows open es else None)"
| "windows open (EEnd t # es) = (if open = Some t then windows None es else None)"
| "windows open (EClose sk # es) = windows open es"
| "windows open (EFree d # es) = windows open es"

lemma windows_append: "windows t (es @ fs) = Option.bind (windows t es) (\<lambda>t. windows t fs)"
  by (induction t es rule: windows.induct) auto

lemma emit_chain_windows:
  "emit_chain (log_io alive react) v k msg status handle data w ud = Some (target, msg', w', ud') \<Longrightarrow>
   \<exists>es. w' = w @ es \<and> windows (Some handle) es = Some target"
proof (induction "log_io alive react" v k msg status handle data w ud arbitrary: rule: emit_chain.induct)
  case (3 v k msg status handle data w ud)
  show ?case
  proof (cases "ud_handle ud \<noteq> handle \<and> \<not> alive (ud_handle ud)")
    case True
    with "3.prems" show ?thesis by (auto simp: Let_def)
  next
    case False
    let ?pre = "if ud_handle ud \<noteq> handle then [EEnd handle, EBegin (ud_handle ud) True] else []"
    let ?m = "msg\<lparr>msg_data := data, msg_sess := ud_sess ud, msg_slice := slice_of status\<rparr>"
    have "emit_chain (log_io alive react) v k (?m\<lparr>msg_size := 0\<rparr>) status (ud_handle ud)
        (case vt_next_pack v of Some f \<Rightarrow> f data | None \<Rightarrow> None) (w @ ?pre @ [EEmit (ud_handle ud) ?m]) (react ?m ud) =
        Some (target, msg', w', ud')"
      using "3.prems" False by (auto simp: Let_def split: if_splits)
    with "3.hyps" [OF _ refl] False
    have "\<exists>es. w' = (w @ ?pre @ [EEmit (ud_handle ud) ?m]) @ es \<and> windows (Some (ud_handle ud)) es = Some target"
      by (auto simp: Let_def split: if_splits)
    then show ?thesis by (auto split: if_splits)
  qed
qed auto

lemma recv_loop_windows:
  "recv_loop (log_io alive react) vt chain k handle v msg b w ud = Some (b', w', ud') \<Longrightarrow>
   \<exists>es. w' = w @ es \<and> windows (Some handle) es = Some None"
proof (induction k arbitrary: handle v msg b w ud)
  case (Suc k)
  define v1 where "v1 = (if ud_pktype ud \<noteq> msg_subtype msg then vt (ud_pktype ud) else v)"
  define msg1 where "msg1 = (if ud_pktype ud \<noteq> msg_subtype msg then msg\<lparr>msg_subtype := ud_pktype ud\<rparr> else msg)"
  have pick: "(if ud_pktype ud \<noteq> msg_subtype msg then (vt (ud_pktype ud), msg\<lparr>msg_subtype := ud_pktype ud\<rparr>) else (v, msg)) =
      (v1, msg1)" by (simp add: v1_def msg1_def)
  from Suc.prems obtain data esz status ud1 b1 where
    "prots_unpack_v v1 (msg_client msg1) b ud = Some (data, esz, status, ud1, b1)"
    unfolding recv_loop.simps pick by (auto simp: Let_def bind_eq_Some_conv)
  note unp = this
  from Suc.prems unp obtain target msg2 w2 ud2 where ch:
    "emit_chain (log_io alive react) v1 chain (msg1\<lparr>msg_size := esz\<rparr>) status handle data w ud1 = Some (target, msg2, w2, ud2)"
    unfolding recv_loop.simps pick by (auto simp: Let_def bind_eq_Some_conv)
  from emit_chain_windows [OF ch] obtain es where es: "w2 = w @ es" "windows (Some handle) es = Some target" by blast
  show ?case
  proof (cases target)
    case None
    with Suc.prems unp ch es show ?thesis unfolding recv_loop.simps pick by (auto simp: Let_def)
  next
    case (Some t)
    define stop where "stop \<longleftrightarrow> bit_check status PROT_ERROR \<or> bit_check status PROT_CLOSE \<or>
      0 = buffer_size b1 \<or> buffer_size b = buffer_size b1 \<or> bit_check status PROT_MOREDATA"
    show ?thesis
    proof (cases stop)
      case True
      with Suc.prems unp ch es Some show ?thesis unfolding recv_loop.simps pick
        by (auto simp: Let_def stop_def windows_append split: if_splits)
    next
      case False
      with Suc.prems unp ch Some have "recv_loop (log_io alive react) vt chain k t v1 msg2 b1 w2 ud2 = Some (b', w', ud')"
        unfolding recv_loop.simps pick by (simp add: Let_def stop_def)
      from Suc.IH [OF this] es Some show ?thesis by (auto simp: windows_append)
    qed
  qed
qed simp

section \<open>Protocols that frame their stream\<close>

definition emitted :: "'o event list \<Rightarrow> 'o pack_data list" where
  "emitted es = concat (map (\<lambda>e. case e of EEmit t m \<Rightarrow> [msg_data m] | _ \<Rightarrow> []) es)"

definition was_closed :: "'o event list \<Rightarrow> bool" where
  "was_closed es \<longleftrightarrow> list_ex (\<lambda>e. case e of EClose sk \<Rightarrow> True | _ \<Rightarrow> False) es"

lemma emitted_simps [simp]:
  "emitted [] = []" "emitted (es @ fs) = emitted es @ emitted fs" "emitted (EBegin t f # es) = emitted es"
  "emitted (EEmit t m # es) = msg_data m # emitted es" "emitted (EEnd t # es) = emitted es"
  "emitted (EClose sk # es) = emitted es" "emitted (EFree d # es) = emitted es"
  by (simp_all add: emitted_def)

lemma was_closed_simps [simp]:
  "\<not> was_closed []" "was_closed (es @ fs) \<longleftrightarrow> was_closed es \<or> was_closed fs" "was_closed (EBegin t f # es) = was_closed es"
  "was_closed (EEmit t m # es) = was_closed es" "was_closed (EEnd t # es) = was_closed es"
  "was_closed (EClose sk # es)" "was_closed (EFree d # es) = was_closed es"
  by (simp_all add: was_closed_def)

lemma status_checks [simp]:
  "bit_check PROT_INIT f = False" "bit_check PROT_ERROR PROT_ERROR = True" "bit_check PROT_MOREDATA PROT_ERROR = False"
  "bit_check PROT_MOREDATA PROT_CLOSE = False" "bit_check PROT_MOREDATA PROT_MOREDATA = True"
  "bit_set PROT_INIT f = f"
  by (simp_all add: bit_check_def bit_set_def prot_status_defs)

text \<open>
  The contract an unpacker gives the receive loop: on the stream it is a framing, and the status
  word tells the three answers apart. It may keep a message in pieces: \<open>pending ud p\<close> says that the
  connection's context stands for the bytes \<open>p\<close>, taken from the buffer already; \<open>session ud\<close> is
  what no call changes.
\<close>

locale session_unpacker = framing frame for frame :: "bytes \<Rightarrow> 'o pack_data frame_res" +
  fixes v :: "('o, 'c) prot_vtbl" and pktype :: pack_type and handle :: nat
    and session :: "'c ud \<Rightarrow> bool" and pending :: "'c ud \<Rightarrow> bytes \<Rightarrow> bool"
  assumes no_chain: "vt_next_pack v = None"
    and empty: "frame [] = More"
    and session: "session ud \<Longrightarrow> ud_pktype ud = pktype \<and> ud_handle ud = handle"
    and unpack: "binv b \<Longrightarrow> session ud \<Longrightarrow> pending ud p \<Longrightarrow> \<exists>b' n ud'. binv b' \<and> session ud' \<and>
      (case frame (p @ content b) of
         Bad \<Rightarrow> prots_unpack_v v client b ud = Some (None, n, PROT_ERROR, ud', b')
       | More \<Rightarrow> prots_unpack_v v client b ud = Some (None, n, PROT_MOREDATA, ud', b') \<and>
           (\<exists>p'. pending ud' p' \<and> p' @ content b' = p @ content b)
       | Frame m k \<Rightarrow> prots_unpack_v v client b ud = Some (Some m, n, PROT_INIT, ud', b') \<and>
           pending ud' [] \<and> length p < k \<and> content b' = drop k (p @ content b))"
begin

lemma loop_parses:
  assumes "binv b" "session ud" "pending ud p" "msg_subtype msg = pktype" "length (p @ content b) < k"
    "parse frame (p @ content b) = (ms, rest, bad)"
  shows "\<exists>b' es ud' p'. recv_loop (log_io alive (\<lambda>m ud. ud)) vt (Suc c) k handle v msg b w ud = Some (b', w @ es, ud') \<and>
    binv b' \<and> session ud' \<and> (\<not> bad \<longrightarrow> pending ud' p' \<and> p' @ content b' = rest) \<and> emitted es = ms \<and> was_closed es = bad"
  using assms
proof (induction "p @ content b" arbitrary: p b ud msg k w ms rest bad rule: parse_induct)
  case stop
  obtain b' n ud' where u: "binv b'" "session ud'"
    "case frame (p @ content b) of
         Bad \<Rightarrow> prots_unpack_v v (msg_client msg) b ud = Some (None, n, PROT_ERROR, ud', b')
       | More \<Rightarrow> prots_unpack_v v (msg_client msg) b ud = Some (None, n, PROT_MOREDATA, ud', b') \<and>
           (\<exists>p'. pending ud' p' \<and> p' @ content b' = p @ content b)
       | Frame m k \<Rightarrow> prots_unpack_v v (msg_client msg) b ud = Some (Some m, n, PROT_INIT, ud', b') \<and>
           pending ud' [] \<and> length p < k \<and> content b' = drop k (p @ content b)"
    using unpack [OF stop.prems(1-3)] by blast
  obtain j where j: "k = Suc j" using stop.prems(5) by (cases k) auto
  note ss = session [OF stop.prems(2)] stop.prems(4)
  from stop.hyps show ?case
  proof
    assume more: "frame (p @ content b) = More"
    then have un: "prots_unpack_v v (msg_client msg) b ud = Some (None, n, PROT_MOREDATA, ud', b')" using u(3) by simp
    obtain p' where p': "pending ud' p'" "p' @ content b' = p @ content b" using more u(3) by auto
    have "ms = [] \<and> rest = p @ content b \<and> \<not> bad" using more stop.prems(6) parse_step [of "p @ content b"] by simp
    with un p' u(1,2) j ss show ?thesis
      by (intro exI [of _ b'] exI [of _ "[EEnd handle]"] exI [of _ ud'] exI [of _ p']) (simp add: Let_def)
  next
    assume bd: "frame (p @ content b) = Bad"
    then have un: "prots_unpack_v v (msg_client msg) b ud = Some (None, n, PROT_ERROR, ud', b')" using u(3) by simp
    have "ms = [] \<and> bad" using bd stop.prems(6) parse_step [of "p @ content b"] by simp
    with un u(1,2) j ss show ?thesis
      by (intro exI [of _ b'] exI [of _ "[EClose (msg_sk msg), EEnd handle]"] exI [of _ ud']) (simp add: Let_def)
  qed
next
  case (frame m n)
  obtain b' sz ud' where u: "binv b'" "session ud'"
    "prots_unpack_v v (msg_client msg) b ud = Some (Some m, sz, PROT_INIT, ud', b')"
    "pending ud' []" "length p < n" "content b' = drop n (p @ content b)"
    using unpack [OF frame.prems(1-3), of "msg_client msg"] frame.hyps(1) by auto
  obtain j where k: "k = Suc j" using frame.prems(5) by (cases k) auto
  obtain ms' where ms: "parse frame (drop n (p @ content b)) = (ms', rest, bad)" "ms = m # ms'"
    using frame.prems(6) frame.hyps(1) parse_step [of "p @ content b"] by (auto split: prod.splits)
  let ?m = "msg\<lparr>msg_size := sz, msg_data := m, msg_sess := ud_sess ud', msg_slice := slice_of PROT_INIT\<rparr>"
  have len: "buffer_size b = length (content b)" "buffer_size b' = length (p @ content b) - n"
    using buf.len_law [OF frame.prems(1)] buf.len_law [OF u(1)] u(6) by simp_all
  note ss = session [OF frame.prems(2)] session [OF u(2)] frame.prems(4)
  show ?case
  proof (cases "drop n (p @ content b) = []")
    case True
    then have "buffer_size b' = 0" using u(6) buf.len_law [OF u(1)] by simp
    moreover have "ms' = [] \<and> rest = [] \<and> \<not> bad" using ms(1) True empty parse_step [of "[]"] by simp
    ultimately show ?thesis
      using u frame.prems(3) k ms(2) True ss
      by (intro exI [of _ b'] exI [of _ "[EEmit handle ?m, EEnd handle]"] exI [of _ ud'] exI [of _ "[]"])
        (simp add: Let_def no_chain)
  next
    case False
    then have go: "buffer_size b' \<noteq> 0" "buffer_size b \<noteq> buffer_size b'"
      using len frame.hyps(2,3) u(5) by auto
    have "\<exists>b2 es ud2 p2. recv_loop (log_io alive (\<lambda>m ud. ud)) vt (Suc c) j handle v (?m\<lparr>msg_size := 0\<rparr>) b'
        (w @ [EEmit handle ?m]) ud' = Some (b2, (w @ [EEmit handle ?m]) @ es, ud2) \<and>
      binv b2 \<and> session ud2 \<and> (\<not> bad \<longrightarrow> pending ud2 p2 \<and> p2 @ content b2 = rest) \<and> emitted es = ms' \<and> was_closed es = bad"
      by (rule frame.hyps(4) [where p = "[]"])
        (use u frame.prems(4,5) frame.hyps(2,3) k ms(1) in auto)
    then obtain b2 es ud2 p2 where r: "recv_loop (log_io alive (\<lambda>m ud. ud)) vt (Suc c) j handle v (?m\<lparr>msg_size := 0\<rparr>) b'
        (w @ [EEmit handle ?m]) ud' = Some (b2, (w @ [EEmit handle ?m]) @ es, ud2)"
      "binv b2" "session ud2" "\<not> bad \<longrightarrow> pending ud2 p2 \<and> p2 @ content b2 = rest" "emitted es = ms'" "was_closed es = bad"
      by blast
    have "recv_loop (log_io alive (\<lambda>m ud. ud)) vt (Suc c) k handle v msg b w ud =
        Some (b2, w @ EEmit handle ?m # es, ud2)"
      using u ss k go r(1) by (simp add: Let_def no_chain)
    with r ms(2) show ?thesis
      by (intro exI [of _ b2] exI [of _ "EEmit handle ?m # es"] exI [of _ ud2] exI [of _ p2]) simp
  qed
qed

end

section \<open>Delivery\<close>

text \<open>The event layer appends what it read and calls the handler, until the connection is closed.\<close>

fun deliver :: "(nat \<Rightarrow> bool) \<Rightarrow> ('o message \<Rightarrow> 'c ud \<Rightarrow> 'c ud) \<Rightarrow> (pack_type \<Rightarrow> ('o, 'c) prot_vtbl) \<Rightarrow> nat \<Rightarrow> nat \<Rightarrow>
    nat \<Rightarrow> int \<Rightarrow> bytes list \<Rightarrow> buffer \<Rightarrow> 'o event list \<Rightarrow> 'c ud \<Rightarrow> (buffer \<times> 'o event list \<times> 'c ud) option" where
  "deliver alive react vt chain fuel sk client [] b w ud = Some (b, w, ud)"
| "deliver alive react vt chain fuel sk client (d # ds) b w ud =
     Option.bind (buffer_append b d) (\<lambda>b.
       Option.bind (prots_net_recv (log_io alive react) vt chain fuel sk client b w ud) (\<lambda>(b, w, ud).
         if was_closed w then Some (b, w, ud)
         else deliver alive react vt chain fuel sk client ds b w ud))"

context session_unpacker begin

lemma deliver_parses:
  assumes "binv b" "session ud" "pending ud p" "frame (p @ content b) = More" "vt pktype = v" "alive handle" "\<not> was_closed w"
    "\<forall>d\<in>set ds. length d \<le> ALLOC_MAX" "length (p @ content b) + length (concat ds) < fuel"
    "parse_chunks frame ds (p @ content b) = (ms, rest, bad)"
  shows "\<exists>b' es ud' p'. deliver alive (\<lambda>m ud. ud) vt (Suc c) fuel sk client ds b w ud = Some (b', w @ es, ud') \<and> binv b' \<and>
    session ud' \<and> (\<not> bad \<longrightarrow> pending ud' p' \<and> p' @ content b' = rest) \<and> emitted es = ms \<and> was_closed es = bad"
  using assms(1-4,7-10)
proof (induction ds arbitrary: b ud p w ms)
  case Nil
  then show ?case by auto
next
  case (Cons d ds)
  obtain b1 where b1: "buffer_append b d = Some b1" "binv b1" "content b1 = content b @ d"
    using buf.app_law [OF Cons.prems(1), of d] Cons.prems(6) by auto
  obtain ms1 rest1 bad1 where p: "parse frame ((p @ content b) @ d) = (ms1, rest1, bad1)" by (cases "parse frame ((p @ content b) @ d)")
  note ss = session [OF Cons.prems(2)]
  let ?w = "w @ [EBegin handle True]"
  have "\<exists>b2 es ud2 p2. recv_loop (log_io alive (\<lambda>m ud. ud)) vt (Suc c) fuel handle v
      (prots_recv_msg_init sk client ud) b1 ?w ud = Some (b2, ?w @ es, ud2) \<and> binv b2 \<and> session ud2 \<and>
      (\<not> bad1 \<longrightarrow> pending ud2 p2 \<and> p2 @ content b2 = rest1) \<and> emitted es = ms1 \<and> was_closed es = bad1"
    by (rule loop_parses [OF b1(2) Cons.prems(2,3)])
      (use b1(3) p ss Cons.prems(7) in \<open>simp_all add: prots_recv_msg_init_def\<close>)
  then obtain b2 es ud2 p2 where r: "recv_loop (log_io alive (\<lambda>m ud. ud)) vt (Suc c) fuel handle v
      (prots_recv_msg_init sk client ud) b1 ?w ud = Some (b2, ?w @ es, ud2)" "binv b2" "session ud2"
      "\<not> bad1 \<longrightarrow> pending ud2 p2 \<and> p2 @ content b2 = rest1" "emitted es = ms1" "was_closed es = bad1"
    by blast
  then have step: "deliver alive (\<lambda>m ud. ud) vt (Suc c) fuel sk client (d # ds) b w ud =
      (if bad1 then Some (b2, ?w @ es, ud2)
       else deliver alive (\<lambda>m ud. ud) vt (Suc c) fuel sk client ds b2 (?w @ es) ud2)"
    using b1(1) ss assms(5,6) Cons.prems(5) by (simp add: prots_net_recv_def)
  show ?case
  proof (cases bad1)
    case True
    then have "ms = ms1 \<and> bad" using p Cons.prems(8) by simp
    with step r True show ?thesis
      by (intro exI [of _ b2] exI [of _ "EBegin handle True # es"] exI [of _ ud2]) simp
  next
    case False
    obtain ms2 where q: "parse_chunks frame ds rest1 = (ms2, rest, bad)" "ms = ms1 @ ms2"
      using p Cons.prems(8) False by (auto split: prod.splits)
    have more: "frame rest1 = More" using parse_More p False by simp
    have rest1: "pending ud2 p2" "p2 @ content b2 = rest1" using r(4) False by simp_all
    obtain k where "rest1 = drop k ((p @ content b) @ d)" using parse_rest [OF p] by blast
    then have len: "length rest1 + length (concat ds) < fuel" using Cons.prems(7) by auto
    have "\<exists>b3 es' ud3 p3. deliver alive (\<lambda>m ud. ud) vt (Suc c) fuel sk client ds b2 (?w @ es) ud2 =
        Some (b3, (?w @ es) @ es', ud3) \<and> binv b3 \<and> session ud3 \<and>
        (\<not> bad \<longrightarrow> pending ud3 p3 \<and> p3 @ content b3 = rest) \<and> emitted es' = ms2 \<and> was_closed es' = bad"
      by (rule Cons.IH [OF r(2,3) rest1(1)])
        (use r more len q(1) rest1(2) Cons.prems(5,6) False in \<open>simp_all add: add.assoc\<close>)
    then obtain b3 es' ud3 p3 where d: "deliver alive (\<lambda>m ud. ud) vt (Suc c) fuel sk client ds b2 (?w @ es) ud2 =
        Some (b3, (?w @ es) @ es', ud3)" "binv b3" "session ud3" "\<not> bad \<longrightarrow> pending ud3 p3 \<and> p3 @ content b3 = rest"
        "emitted es' = ms2" "was_closed es' = bad" by blast
    with step r q(2) False show ?thesis
      by (intro exI [of _ b3] exI [of _ "EBegin handle True # es @ es'"] exI [of _ ud3] exI [of _ p3]) simp
  qed
qed

text \<open>A fresh connection gets the messages of the whole stream, however it is cut into reads.\<close>

lemma deliver_stream:
  assumes "session ud" "pending ud []" "vt pktype = v" "alive handle" "\<forall>d\<in>set ds. length d \<le> ALLOC_MAX"
    "length (concat ds) < fuel" "parse frame (concat ds) = (ms, rest, bad)"
  shows "\<exists>b es ud' p. deliver alive (\<lambda>m ud. ud) vt (Suc c) fuel sk client ds buffer_init [] ud = Some (b, es, ud') \<and> binv b \<and>
    session ud' \<and> (\<not> bad \<longrightarrow> pending ud' p \<and> p @ content b = rest) \<and> emitted es = ms \<and> was_closed es = bad"
proof -
  obtain ms' rest' bad' where c: "parse_chunks frame ds [] = (ms', rest', bad')" by (cases "parse_chunks frame ds []")
  obtain rest2 where "parse frame (concat ds) = (ms', rest2, bad')" "\<not> bad' \<longrightarrow> rest2 = rest'"
    using chunks_whole [OF empty c] by auto
  with assms(7) have eq: "ms' = ms" "bad' = bad" "\<not> bad \<longrightarrow> rest' = rest" by auto
  have "\<exists>b es ud' p'. deliver alive (\<lambda>m ud. ud) vt (Suc c) fuel sk client ds buffer_init [] ud = Some (b, [] @ es, ud') \<and>
    binv b \<and> session ud' \<and> (\<not> bad' \<longrightarrow> pending ud' p' \<and> p' @ content b = rest') \<and> emitted es = ms' \<and> was_closed es = bad'"
    by (rule deliver_parses [where p = "[]"]) (use assms(1-6) c empty in \<open>simp_all add: binv_init\<close>)
  with eq show ?thesis by auto
qed

end

text \<open>An unpacker that keeps nothing between the calls.\<close>

locale unpacker = framing frame for frame :: "bytes \<Rightarrow> 'o pack_data frame_res" +
  fixes v :: "('o, 'c) prot_vtbl" and pktype :: pack_type
  assumes no_chain: "vt_next_pack v = None"
    and empty: "frame [] = More"
    and unpack: "binv b \<Longrightarrow> ud_pktype ud = pktype \<Longrightarrow> \<exists>b' n. binv b' \<and>
      content b' = (case frame (content b) of Frame m k \<Rightarrow> drop k (content b) | _ \<Rightarrow> content b) \<and>
      prots_unpack_v v client b ud = Some (case frame (content b) of
          Bad \<Rightarrow> (None, n, PROT_ERROR, ud, b')
        | More \<Rightarrow> (None, n, PROT_MOREDATA, ud, b')
        | Frame m k \<Rightarrow> (Some m, n, PROT_INIT, ud, b'))"
begin

lemma no_session:
  assumes "ud_pktype ud = pktype"
  shows "session_unpacker frame v pktype (ud_handle ud) (\<lambda>u. u = ud) (\<lambda>u p. p = [])"
proof
  fix b client u and p :: bytes
  assume b: "binv b" and u: "u = ud" "p = []"
  obtain b' n where b': "binv b'"
      "content b' = (case frame (content b) of Frame m k \<Rightarrow> drop k (content b) | _ \<Rightarrow> content b)"
      "prots_unpack_v v client b ud = Some (case frame (content b) of
          Bad \<Rightarrow> (None, n, PROT_ERROR, ud, b')
        | More \<Rightarrow> (None, n, PROT_MOREDATA, ud, b')
        | Frame m k \<Rightarrow> (Some m, n, PROT_INIT, ud, b'))"
    using unpack [OF b assms] by blast
  show "\<exists>b' n ud'. binv b' \<and> ud' = ud \<and>
      (case frame (p @ content b) of
         Bad \<Rightarrow> prots_unpack_v v client b u = Some (None, n, PROT_ERROR, ud', b')
       | More \<Rightarrow> prots_unpack_v v client b u = Some (None, n, PROT_MOREDATA, ud', b') \<and>
           (\<exists>p'. p' = [] \<and> p' @ content b' = p @ content b)
       | Frame m k \<Rightarrow> prots_unpack_v v client b u = Some (Some m, n, PROT_INIT, ud', b') \<and>
           [] = [] \<and> length p < k \<and> content b' = drop k (p @ content b))"
  proof (intro exI conjI)
    show "binv b'" "ud = ud" by (simp_all add: b'(1))
    show "case frame (p @ content b) of
         Bad \<Rightarrow> prots_unpack_v v client b u = Some (None, n, PROT_ERROR, ud, b')
       | More \<Rightarrow> prots_unpack_v v client b u = Some (None, n, PROT_MOREDATA, ud, b') \<and>
           (\<exists>p'. p' = [] \<and> p' @ content b' = p @ content b)
       | Frame m k \<Rightarrow> prots_unpack_v v client b u = Some (Some m, n, PROT_INIT, ud, b') \<and>
           [] = [] \<and> length p < k \<and> content b' = drop k (p @ content b)"
      using b'(2,3) u frame_size [of "content b"] by (cases "frame (content b)") auto
  qed
qed (use assms no_chain empty in auto)

lemmas deliver_whole = session_unpacker.deliver_stream [OF no_session]

end

section \<open>The custz protocols\<close>

lemma map_frame_res_eq:
  "map_frame_res f r = Frame m n \<longleftrightarrow> (\<exists>x. r = Frame x n \<and> m = f x)" "map_frame_res f r = Bad \<longleftrightarrow> r = Bad"
  "map_frame_res f r = More \<longleftrightarrow> r = More"
  by (cases r; auto)+

lemma parse_map: "parse (\<lambda>s. map_frame_res f (frame s)) s = (case parse frame s of (ms, rest, bad) \<Rightarrow> (map f ms, rest, bad))"
proof -
  have "frames (\<lambda>s. map_frame_res f (frame s)) k s = (case frames frame k s of (ms, rest, bad) \<Rightarrow> (map f ms, rest, bad))" for k
    by (induction k arbitrary: s) (auto split: frame_res.split prod.split simp: Let_def)
  then show ?thesis by (simp add: parse_def)
qed

definition raw_frame :: "pack_type \<Rightarrow> bytes \<Rightarrow> 'o pack_data frame_res" where
  "raw_frame pktype s = map_frame_res Raw (custz_frame pktype s)"

definition custz_kind :: "pack_type \<Rightarrow> pack_type" where
  "custz_kind pktype = (if is_custz pktype then pktype else PACK_CUSTZ_FIXED)"

lemma is_custz_kind: "is_custz (custz_kind pktype)"
  by (simp add: custz_kind_def is_custz_def)

interpretation custz_unp: unpacker "raw_frame (custz_kind pktype)" "custz_vtbl h" "custz_kind pktype" for pktype h
proof
  let ?k = "custz_kind pktype"
  fix s r :: bytes and m :: "'a pack_data" and n
  show "0 < n \<and> n \<le> length s" if "raw_frame ?k s = Frame m n"
    using that custz.frame_size unfolding raw_frame_def map_frame_res_eq by blast
  show "raw_frame ?k (s @ r) = Frame m n" if "raw_frame ?k s = Frame m n"
    using that custz.frame_extend unfolding raw_frame_def map_frame_res_eq by blast
  show "raw_frame ?k (s @ r) = Bad" if "raw_frame ?k s = Bad"
    using that custz.bad_extend unfolding raw_frame_def map_frame_res_eq by blast
  show "vt_next_pack (custz_vtbl h) = None" by (simp add: custz_vtbl_def)
  show "raw_frame ?k [] = More"
    using is_custz_kind [of pktype]
    by (cases rule: is_custz_cases) (simp_all add: raw_frame_def custz_frame_def custz_header_def be_head_def)
next
  let ?k = "custz_kind pktype"
  fix b client and ud :: "'b ud"
  assume b: "binv b" and pk: "ud_pktype ud = ?k"
  from unpack_ok [OF b is_custz_kind, of pktype h PROT_INIT] obtain b' where b': "binv b'"
    "content b' = (case custz_frame ?k (content b) of Frame m n \<Rightarrow> drop n (content b) | _ \<Rightarrow> content b)"
    "custz_unpack h ?k b PROT_INIT = Some (case custz_frame ?k (content b) of
        Bad \<Rightarrow> (None, bit_set PROT_INIT PROT_ERROR, b')
      | More \<Rightarrow> (None, bit_set PROT_INIT PROT_MOREDATA, b')
      | Frame m n \<Rightarrow> (Some m, PROT_INIT, b'))" by blast
  let ?n = "case custz_frame ?k (content b) of Frame m k \<Rightarrow> length m | _ \<Rightarrow> 0"
  have "prots_unpack_v (custz_vtbl h) client b ud = Some (case raw_frame ?k (content b) of
        Bad \<Rightarrow> (None, ?n, PROT_ERROR, ud, b')
      | More \<Rightarrow> (None, ?n, PROT_MOREDATA, ud, b')
      | Frame m n \<Rightarrow> (Some m, ?n, PROT_INIT, ud, b'))"
    using b'(3) by (cases "custz_frame ?k (content b)") (simp_all add: prots_unpack_v_def custz_vtbl_def pk raw_frame_def)
  moreover have "content b' = (case raw_frame ?k (content b) of Frame m n \<Rightarrow> drop n (content b) | _ \<Rightarrow> content b)"
    using b'(2) by (cases "custz_frame ?k (content b)") (simp_all add: raw_frame_def)
  ultimately show "\<exists>b' n. binv b' \<and>
      content b' = (case raw_frame ?k (content b) of Frame m k \<Rightarrow> drop k (content b) | _ \<Rightarrow> content b) \<and>
      prots_unpack_v (custz_vtbl h) client b ud = Some (case raw_frame ?k (content b) of
          Bad \<Rightarrow> (None, n, PROT_ERROR, ud, b')
        | More \<Rightarrow> (None, n, PROT_MOREDATA, ud, b')
        | Frame m k \<Rightarrow> (Some m, n, PROT_INIT, ud, b'))"
    using b'(1) by blast
qed

lemma parse_packed:
  assumes "is_custz pktype" "list_all2 (\<lambda>d p. custz_pack h pktype d = Some (Some p) \<and> length d \<le> 65535) ds ps"
  shows "parse (custz_frame pktype) (concat ps) = (ds, [], False)"
  using assms(2)
proof (induction rule: list_all2_induct)
  case Nil
  have "custz_frame pktype [] = More"
    using assms(1) by (cases rule: is_custz_cases) (simp_all add: custz_frame_def custz_header_def be_head_def)
  then show ?case by (simp add: custz.parse_step [of pktype "[]"])
next
  case (Cons d ds p ps)
  then have "d \<noteq> []" by (auto simp: custz_pack_def)
  then obtain hdr where "p = hdr @ d" "\<And>t. custz_frame pktype (hdr @ d @ t) = Frame d (length (hdr @ d))"
    using pack_ok [OF assms(1), of d h] Cons.hyps(1) by auto
  then have "custz_frame pktype (p @ concat ps) = Frame d (length p)" by simp
  then show ?case using Cons.IH by (simp add: custz.parse_step [of pktype "p @ concat ps"])
qed

lemma custz_recv:
  fixes others :: "pack_type \<Rightarrow> ('o, 'c) prot_vtbl"
  assumes "is_custz (ud_pktype ud)" "alive (ud_handle ud)" "\<forall>c\<in>set chunks. length c \<le> ALLOC_MAX"
    "length (concat chunks) < fuel" "parse (custz_frame (ud_pktype ud)) (concat chunks) = (ms, rest, bad)"
  shows "\<exists>b es. deliver alive (\<lambda>m ud. ud) (prots_vtbl h others) (Suc c) fuel sk client chunks buffer_init [] ud =
      Some (b, es, ud) \<and> binv b \<and> emitted es = map Raw ms \<and> was_closed es = bad \<and> (\<not> bad \<longrightarrow> content b = rest)"
proof -
  have k: "custz_kind (ud_pktype ud) = ud_pktype ud" using assms(1) by (simp add: custz_kind_def)
  have p: "parse (raw_frame (ud_pktype ud) :: bytes \<Rightarrow> 'o pack_data frame_res) (concat chunks) = (map Raw ms, rest, bad)"
    using assms(5) unfolding raw_frame_def parse_map by simp
  have vt: "prots_vtbl h others (ud_pktype ud) = custz_vtbl h" using assms(1) by (simp add: prots_vtbl_def)
  from custz_unp.deliver_whole [where pktype = "ud_pktype ud" and ud = ud and alive = alive and vt = "prots_vtbl h others"
      and h = h and ds = chunks and c = c, unfolded k, OF refl refl refl vt assms(2-4) p, of sk client]
  show ?thesis by auto
qed

section \<open>Properties\<close>

text \<open>
  C5: The receive path of a custz connection, from the bytes the network delivers to the messages the
  task gets: however the stream is cut into reads, the messages emitted are those of the whole
  stream, in order, and the connection is closed exactly if the stream breaks the protocol; the loop
  ends and nothing aborts.
\<close>

theorem custz_delivery:
  fixes others :: "pack_type \<Rightarrow> ('o, 'c) prot_vtbl"
  assumes "is_custz (ud_pktype ud)" "alive (ud_handle ud)" "\<forall>c\<in>set chunks. length c \<le> ALLOC_MAX"
    "length (concat chunks) < fuel" "parse (custz_frame (ud_pktype ud)) (concat chunks) = (ms, rest, bad)"
  shows "\<exists>b es. deliver alive (\<lambda>m ud. ud) (prots_vtbl h others) (Suc c) fuel sk client chunks buffer_init [] ud =
      Some (b, es, ud) \<and> binv b \<and> emitted es = map Raw ms \<and> was_closed es = bad \<and> (\<not> bad \<longrightarrow> content b = rest)"
  by (rule custz_recv [where ud = ud and alive = alive, OF assms])

theorem custz_delivery_witness:
  "\<exists>b es. deliver (\<lambda>t. t = 7) (\<lambda>m ud. ud) (prots_vtbl True (\<lambda>_. vtbl_none)) (Suc 0) 100 5 0 [[2, 65], [66, 1, 67, 9], [68]]
      buffer_init [] \<lparr>ud_pktype = PACK_CUSTZ_FLAG, ud_handle = 7, ud_sess = 0, ud_context = ()\<rparr> =
      Some (b, es, \<lparr>ud_pktype = PACK_CUSTZ_FLAG, ud_handle = 7, ud_sess = 0, ud_context = ()\<rparr>) \<and>
      binv b \<and> emitted es = (map Raw [[65, 66], [67]] :: unit pack_data list) \<and> was_closed es = False \<and>
      (\<not> False \<longrightarrow> content b = [9, 68])"
proof -
  have f: "custz_frame PACK_CUSTZ_FLAG [2, 65, 66, 1, 67, 9, 68] = Frame [65, 66] 3"
    "custz_frame PACK_CUSTZ_FLAG [1, 67, 9, 68] = Frame [67] 2" "custz_frame PACK_CUSTZ_FLAG [9, 68] = More"
    by (simp_all add: custz_frame_def custz_header_def)
  have "parse (custz_frame PACK_CUSTZ_FLAG) [2, 65, 66, 1, 67, 9, 68] = ([[65, 66], [67]], [9, 68], False)"
    by (subst custz.parse_step, simp add: f, subst custz.parse_step, simp add: f, subst custz.parse_step, simp add: f)
  then have p: "parse (custz_frame PACK_CUSTZ_FLAG) (concat [[2, 65], [66, 1, 67, 9], [68]]) = ([[65, 66], [67]], [9, 68], False)"
    by simp
  show ?thesis
    by (rule custz_delivery [where alive = "\<lambda>t. t = 7"])
      (use p in \<open>simp_all add: is_custz_def ALLOC_MAX_def BUFNODE_SIZE_def\<close>)
qed

text \<open>
  C2: End to end, for each custz coding and hosts of either byte order: messages packed by one side
  and delivered to the other in reads of any size arrive complete, unchanged and in order; nothing
  is left in the buffer and the connection stays open.
\<close>

theorem custz_transport:
  fixes others :: "pack_type \<Rightarrow> ('o, 'c) prot_vtbl"
  assumes "is_custz (ud_pktype ud)" "alive (ud_handle ud)"
    "list_all2 (\<lambda>d p. custz_pack h (ud_pktype ud) d = Some (Some p) \<and> length d \<le> 65535) ds ps"
    "concat chunks = concat ps" "\<forall>c\<in>set chunks. length c \<le> ALLOC_MAX" "length (concat ps) < fuel"
  shows "\<exists>b es. deliver alive (\<lambda>m ud. ud) (prots_vtbl h' others) (Suc c) fuel sk client chunks buffer_init [] ud =
      Some (b, es, ud) \<and> emitted es = map Raw ds \<and> \<not> was_closed es \<and> content b = []"
proof -
  have "parse (custz_frame (ud_pktype ud)) (concat chunks) = (ds, [], False)"
    using parse_packed [OF assms(1,3)] assms(4) by simp
  from custz_recv [where ud = ud and alive = alive, OF assms(1,2,5) _ this, of fuel h' others c sk client] assms(4,6)
  show ?thesis by auto
qed

theorem custz_transport_witness:
  "\<exists>b es. deliver (\<lambda>t. t = 7) (\<lambda>m ud. ud) (prots_vtbl False (\<lambda>_. vtbl_none)) (Suc 0) 100 5 0 [[0, 0, 0], [2, 65, 66]]
      buffer_init [] \<lparr>ud_pktype = PACK_CUSTZ_FIXED, ud_handle = 7, ud_sess = 0, ud_context = ()\<rparr> =
      Some (b, es, \<lparr>ud_pktype = PACK_CUSTZ_FIXED, ud_handle = 7, ud_sess = 0, ud_context = ()\<rparr>) \<and>
      emitted es = (map Raw [[65, 66]] :: unit pack_data list) \<and> \<not> was_closed es \<and> content b = []"
proof -
  have "write_be32 True 2 = [0, 0, 0, 2]" by (simp add: write_order le_store_4)
  then have "custz_pack True PACK_CUSTZ_FIXED [65, 66] = Some (Some [0, 0, 0, 2, 65, 66])"
    by (simp add: custz_pack_def custz_encode_fixed_def CUSTZ_FIXED_LENS_def mem_put_def Let_def)
  then have p: "list_all2 (\<lambda>d p. custz_pack True PACK_CUSTZ_FIXED d = Some (Some p) \<and> length d \<le> 65535)
      [[65, 66]] [[0, 0, 0, 2, 65, 66]]" by simp
  show ?thesis
    by (rule custz_transport [where ds = "[[65, 66]]" and ps = "[[0, 0, 0, 2, 65, 66]]" and h = True
          and alive = "\<lambda>t. t = 7"])
      (use p in \<open>simp_all add: is_custz_def ALLOC_MAX_def BUFNODE_SIZE_def\<close>)
qed



end
