(* ===== verification/Hash_Block.thy ===== *)
theory Hash_Block
  imports Byte_Order
begin

text \<open>
  What the block digests of \<open>lib/crypt\<close> (MD4, MD5, SHA-1, SHA-256, SHA-512) share. A digest takes its
  input in pieces of any size, keeps the bytes that do not fill a block, and runs its compression
  function on every full block. \<open>absorbed\<close> relates the chaining value and the block buffer of a
  context to the message given so far; its three lemmas are the three ways an update consumes bytes.
  \<open>md_hash\<close> is the reference: the padded message cut into blocks.

  The locale \<open>digest_engine\<close> is the contract the layers above (\<open>digest.c\<close>, \<open>hmac.c\<close>) rely on.
\<close>

section \<open>Compressing blocks\<close>

text \<open>The loop \<open>for (; nblk > 0; --nblk, data += B)\<close> of every transform.\<close>

fun blocks_loop :: "('s \<Rightarrow> bytes \<Rightarrow> 's) \<Rightarrow> nat \<Rightarrow> nat \<Rightarrow> 's \<Rightarrow> bytes \<Rightarrow> 's" where
  "blocks_loop f B 0 st data = st"
| "blocks_loop f B (Suc nblk) st data = blocks_loop f B nblk (f st (take B data)) (drop B data)"

lemma blocks_loop_add:
  "blocks_loop f B (n + k) st data = blocks_loop f B k (blocks_loop f B n st data) (drop (B * n) data)"
proof (induction n arbitrary: st data)
  case (Suc n)
  have "drop (B * n) (drop B data) = drop (B * Suc n) data" by (simp add: add.commute)
  with Suc [of "f st (take B data)" "drop B data"] show ?case by simp
qed simp

lemma blocks_loop_prefix: "B * n \<le> length data \<Longrightarrow> blocks_loop f B n st (data @ r) = blocks_loop f B n st data"
proof (induction n arbitrary: st data)
  case (Suc n)
  then have "B \<le> length data" "B * n \<le> length (drop B data)" by simp_all
  with Suc.IH [of "drop B data"] show ?case by simp
qed simp

section \<open>The reference\<close>

text \<open>
  The padding of all these digests: a one bit, zeros, and the length field, up to a multiple of the
  block length \<open>B\<close>.
\<close>

definition md_pad :: "nat \<Rightarrow> bytes \<Rightarrow> bytes \<Rightarrow> bytes" where
  "md_pad B lenb m = m @ [0x80] @ replicate ((2 * B - 1 - length lenb - length m mod B) mod B) 0 @ lenb"

definition md_hash :: "('s \<Rightarrow> bytes \<Rightarrow> 's) \<Rightarrow> nat \<Rightarrow> 's \<Rightarrow> bytes \<Rightarrow> bytes \<Rightarrow> 's" where
  "md_hash f B iv lenb m = (let pm = md_pad B lenb m in blocks_loop f B (length pm div B) iv pm)"

lemma div_mod_small: "(n :: nat) = B * q + x \<Longrightarrow> x < B \<Longrightarrow> n div B = q" "n = B * q + x \<Longrightarrow> x < B \<Longrightarrow> n mod B = x"
  by auto

section \<open>Absorbing a message\<close>

definition absorbed :: "('s \<Rightarrow> bytes \<Rightarrow> 's) \<Rightarrow> nat \<Rightarrow> 's \<Rightarrow> 's \<Rightarrow> bytes \<Rightarrow> bytes \<Rightarrow> bool" where
  "absorbed f B iv st data m \<longleftrightarrow>
     0 < B \<and> length data = B \<and> st = blocks_loop f B (length m div B) iv m \<and>
     take (length m mod B) data = drop (B * (length m div B)) m"

lemma absorbed_init: "0 < B \<Longrightarrow> length data = B \<Longrightarrow> absorbed f B iv iv data []"
  by (simp add: absorbed_def)

lemma blocks_extend:
  assumes "0 < B" "length m mod B = 0" "B * n \<le> length p"
  shows "blocks_loop f B (length m div B + n) iv (m @ p) = blocks_loop f B n (blocks_loop f B (length m div B) iv m) p"
proof -
  have m: "B * (length m div B) = length m" using assms(2) by (metis add_0_right mult_div_mod_eq)
  then show ?thesis by (simp add: blocks_loop_add blocks_loop_prefix)
qed

text \<open>Whole blocks taken straight from the input.\<close>

lemma absorb_full:
  assumes a: "absorbed f B iv st data m" and r: "length m mod B = 0" and n: "n * B \<le> length p"
  shows "absorbed f B iv (blocks_loop f B n st p) data (m @ take (n * B) p)"
proof -
  have B: "0 < B" using a by (simp add: absorbed_def)
  let ?q = "length m div B"
  have m: "length m = B * ?q" using r by (metis add_0_right mult_div_mod_eq)
  have len: "length (m @ take (n * B) p) = B * (?q + n) + 0" using n m by (simp add: algebra_simps)
  have "blocks_loop f B (?q + n) iv (m @ take (n * B) p) = blocks_loop f B n (blocks_loop f B ?q iv m) (take (n * B) p)"
    by (rule blocks_extend [OF B r]) (use n in \<open>simp add: mult.commute\<close>)
  moreover have "blocks_loop f B n st (take (n * B) p) = blocks_loop f B n st p" for st
    using blocks_loop_prefix [of B n "take (n * B) p" f st "drop (n * B) p"] n by (simp add: mult.commute)
  moreover have "drop (B * (?q + n)) (m @ take (n * B) p) = []" using len by simp
  ultimately show ?thesis
    using a unfolding absorbed_def div_mod_small [OF len B] by simp
qed

text \<open>The rest of a block that is already begun.\<close>

lemma absorb_fill:
  assumes a: "absorbed f B iv st data m" and l: "left = B - length m mod B" and p: "left \<le> length p"
  shows "absorbed f B iv (f st (mem_put data (length m mod B) (take left p)))
    (mem_put data (length m mod B) (take left p)) (m @ take left p)"
proof -
  let ?q = "length m div B" and ?r = "length m mod B"
  have B: "0 < B" "?r < B" "length data = B" using a by (auto simp: absorbed_def)
  have len: "length (m @ take left p) = B * Suc ?q" "length (take left p) = left" "?r + left = B"
  proof -
    show l': "length (take left p) = left" "?r + left = B" using p l B by auto
    have "length m = B * ?q + ?r" by simp
    with l'(2) have "length m + left = B * ?q + B" by linarith
    with l'(1) show "length (m @ take left p) = B * Suc ?q" by simp
  qed
  have blk: "mem_put data ?r (take left p) = drop (B * ?q) m @ take left p"
    using a len B by (simp add: mem_put_def absorbed_def)
  let ?x = "drop (B * ?q) m @ take left p"
  have x: "drop (B * ?q) (m @ take left p) = ?x" "take B ?x = ?x"
  proof -
    show "drop (B * ?q) (m @ take left p) = ?x" by simp
    have "length (drop (B * ?q) m) = ?r" by (simp add: minus_mult_div_eq_mod)
    then have "length ?x = B" using len(2,3) by (simp only: length_append)
    then show "take B ?x = ?x" by (rule take_all [OF eq_imp_le])
  qed
  have "blocks_loop f B (?q + 1) iv (m @ take left p) = f (blocks_loop f B ?q iv (m @ take left p)) (take B ?x)"
    unfolding blocks_loop_add x(1) One_nat_def blocks_loop.simps ..
  also have "\<dots> = f (blocks_loop f B ?q iv m) ?x" unfolding x(2) by (subst blocks_loop_prefix) simp_all
  finally have "blocks_loop f B (Suc ?q) iv (m @ take left p) = f (blocks_loop f B ?q iv m) ?x" by simp
  moreover have "length (m @ take left p) div B = Suc ?q" "length (m @ take left p) mod B = 0" unfolding len(1) using B by simp_all
  ultimately show ?thesis using a len(1) B p len unfolding absorbed_def blk by simp
qed

text \<open>Bytes kept because they do not fill the block.\<close>

lemma absorb_part:
  assumes a: "absorbed f B iv st data m" and p: "length m mod B + length p < B"
  shows "absorbed f B iv st (mem_put data (length m mod B) p) (m @ p)"
    "length (m @ p) mod B = length m mod B + length p"
proof -
  let ?q = "length m div B" and ?r = "length m mod B"
  have B: "0 < B" "length data = B" using a by (auto simp: absorbed_def)
  have e: "length (m @ p) = B * ?q + (?r + length p)" by simp
  have d: "length (m @ p) div B = ?q" by (rule div_mod_small(1) [OF e p])
  show md: "length (m @ p) mod B = ?r + length p" by (rule div_mod_small(2) [OF e p])
  have "take (?r + length p) (mem_put data ?r p) = take ?r data @ p"
    using p B by (simp add: mem_put_def)
  moreover have "blocks_loop f B ?q iv (m @ p) = blocks_loop f B ?q iv m" by (rule blocks_loop_prefix) simp
  ultimately show "absorbed f B iv st (mem_put data ?r p) (m @ p)"
    using a p B unfolding absorbed_def d md by simp
qed

text \<open>The three in the order every update has them; \<open>r\<close> is the fill of the block buffer.\<close>

definition absorb_all :: "('s \<Rightarrow> bytes \<Rightarrow> 's) \<Rightarrow> nat \<Rightarrow> 's \<Rightarrow> bytes \<Rightarrow> nat \<Rightarrow> bytes \<Rightarrow> 's \<times> bytes" where
  "absorb_all f B st data r p =
     (let (st, data, p, r) =
        (if 0 < r \<and> B - r \<le> length p
         then (let data = mem_put data r (take (B - r) p) in (blocks_loop f B 1 st data, data, drop (B - r) p, 0))
         else (st, data, p, r));
          (st, p) =
        (if B \<le> length p then (blocks_loop f B (length p div B) st p, drop (length p div B * B) p) else (st, p))
      in (st, if 0 < length p then mem_put data r p else data))"

lemma absorb_tail:
  assumes a: "absorbed f B iv st data m" and r: "r = length m mod B" and p: "B \<le> length p \<longrightarrow> r = 0"
    and big: "\<not> B \<le> length p \<longrightarrow> r + length p < B"
    and e: "(st', p') = (if B \<le> length p then (blocks_loop f B (length p div B) st p, drop (length p div B * B) p) else (st, p))"
  shows "absorbed f B iv st' (if 0 < length p' then mem_put data r p' else data) (m @ p)"
proof (cases "B \<le> length p")
  case True
  have B: "0 < B" using a by (simp add: absorbed_def)
  let ?n = "length p div B" and ?m = "m @ take (length p div B * B) p"
  have e': "st' = blocks_loop f B ?n st p" "p' = drop (?n * B) p" using e True by simp_all
  have n: "?n * B \<le> length p" by simp
  have "length m mod B = 0" using p r True by simp
  from absorb_full [OF a this n] have a': "absorbed f B iv st' data ?m" unfolding e' .
  have "length ?m = B * (length m div B + ?n) + 0"
    using \<open>length m mod B = 0\<close> n by (simp add: algebra_simps) (metis add_0_right mult_div_mod_eq)
  from div_mod_small(2) [OF this B] have r': "length ?m mod B = 0" .
  have len: "length p' = length p mod B" unfolding e' by (simp add: minus_div_mult_eq_mod)
  then have "length ?m mod B + length p' < B" using r' B by simp
  from absorb_part(1) [OF a' this] have "absorbed f B iv st' (mem_put data 0 p') (?m @ p')" unfolding r' .
  moreover have "?m @ p' = m @ p" by (simp add: e')
  ultimately show ?thesis using p True a' by (cases "p' = []") auto
next
  case False
  then have "st' = st" "p' = p" using e by simp_all
  with absorb_part(1) [OF a, of p] a big r False show ?thesis by (cases "p = []") auto
qed

lemma absorb_all_ok:
  assumes a: "absorbed f B iv st data m" and r: "r = length m mod B" and e: "absorb_all f B st data r p = (st', data')"
  shows "absorbed f B iv st' data' (m @ p)"
proof -
  have B: "0 < B" "r < B" using a r by (simp_all add: absorbed_def)
  show ?thesis
  proof (cases "0 < r \<and> B - r \<le> length p")
    case True
    let ?d = "mem_put data r (take (B - r) p)" and ?m = "m @ take (B - r) p" and ?p = "drop (B - r) p"
    have d: "length ?d = B" using a True B by (simp add: absorbed_def)
    from absorb_fill [OF a refl] True r have a': "absorbed f B iv (blocks_loop f B 1 st ?d) ?d ?m" using d by simp
    have "length ?m = B * (length m div B + 1) + 0"
    proof -
      have "length m = B * (length m div B) + r" using r by simp
      then have "length m + (B - r) = B * (length m div B) + B" using B by linarith
      then show ?thesis using True by simp
    qed
    from div_mod_small(2) [OF this B(1)] have r': "0 = length ?m mod B" by simp
    obtain st2 p2 where e2: "(st2, p2) = (if B \<le> length ?p
        then (blocks_loop f B (length ?p div B) (blocks_loop f B 1 st ?d) ?p, drop (length ?p div B * B) ?p)
        else (blocks_loop f B 1 st ?d, ?p))" by (metis surj_pair)
    have "absorb_all f B st data r p = (st2, if 0 < length p2 then mem_put ?d 0 p2 else ?d)"
      unfolding absorb_all_def if_P [OF True] Let_def prod.case e2 [symmetric] ..
    with e absorb_tail [OF a' r' _ _ e2] show ?thesis by auto
  next
    case False
    obtain st2 p2 where e2: "(st2, p2) = (if B \<le> length p
        then (blocks_loop f B (length p div B) st p, drop (length p div B * B) p) else (st, p))" by (metis surj_pair)
    have "absorb_all f B st data r p = (st2, if 0 < length p2 then mem_put data r p2 else data)"
      unfolding absorb_all_def if_not_P [OF False] Let_def prod.case e2 [symmetric] ..
    moreover have "B \<le> length p \<longrightarrow> r = 0" "\<not> B \<le> length p \<longrightarrow> r + length p < B"
      using False B by (cases "r = 0"; auto)+
    ultimately show ?thesis using e absorb_tail [OF a r _ _ e2] by auto
  qed
qed

text \<open>The fill of the block buffer after the three stages.\<close>

lemma absorb_stages:
  assumes a: "absorbed f B iv st data m" and r: "r = length m mod B"
    and e1: "(if 0 < r \<and> B - r \<le> length p
         then (blocks_loop f B 1 st (mem_put data r (take (B - r) p)), mem_put data r (take (B - r) p), drop (B - r) p, 0)
         else (st, data, p, r)) = (s1, d1, p1, r1)"
    and e2: "(if B \<le> length p1 then (blocks_loop f B (length p1 div B) s1 p1, drop (length p1 div B * B) p1) else (s1, p1)) = (s2, p2)"
  shows "absorbed f B iv s2 (if 0 < length p2 then mem_put d1 r1 p2 else d1) (m @ p)"
    "r1 + length p2 = length (m @ p) mod B" "length p2 < B"
proof -
  have "absorb_all f B st data r p = (s2, if 0 < length p2 then mem_put d1 r1 p2 else d1)"
    unfolding absorb_all_def Let_def e1 prod.case e2 ..
  then show "absorbed f B iv s2 (if 0 < length p2 then mem_put d1 r1 p2 else d1) (m @ p)"
    by (rule absorb_all_ok [OF a r])
  have B: "0 < B" "r < B" using a r by (simp_all add: absorbed_def)
  have m: "(length m + length p) mod B = (r + length p) mod B" by (simp add: r mod_add_left_eq)
  have p2: "length p2 = length p1 mod B"
    using e2 B by (auto simp: minus_div_mult_eq_mod split: if_splits)
  then show "length p2 < B" using B by simp
  show "r1 + length p2 = length (m @ p) mod B"
  proof (cases "0 < r \<and> B - r \<le> length p")
    case True
    then have "r1 = 0" "p1 = drop (B - r) p" using e1 by auto
    moreover have "r + length p = length (drop (B - r) p) + B" unfolding length_drop using True B by linarith
    ultimately have "(r + length p) mod B = length p1 mod B" by (metis mod_add_self2)
    with \<open>r1 = 0\<close> show ?thesis using p2 m by simp
  next
    case False
    then have "r1 = r" "p1 = p" using e1 by auto
    moreover have "r = 0 \<or> r + length p < B" using False by linarith
    ultimately show ?thesis using p2 m by auto
  qed
qed

section \<open>Finishing\<close>

lemma finish_loop:
  assumes a: "absorbed f B iv st data m" and t: "length (take (length m mod B) data @ tail) = n * B"
  shows "blocks_loop f B (length m div B + n) iv (m @ tail) = blocks_loop f B n st (take (length m mod B) data @ tail)"
proof -
  let ?q = "length m div B"
  have "drop (B * ?q) (m @ tail) = take (length m mod B) data @ tail" using a by (simp add: absorbed_def)
  then show ?thesis using a unfolding blocks_loop_add by (simp add: absorbed_def blocks_loop_prefix)
qed

lemma finish_one:
  assumes a: "absorbed f B iv st data m" and fit: "length m mod B + 1 + length lenb \<le> B"
  shows "f st (take (length m mod B) data @ 0x80 # replicate (B - 1 - length lenb - length m mod B) 0 @ lenb) = md_hash f B iv lenb m"
proof -
  let ?r = "length m mod B" and ?k = "B - 1 - length lenb - length m mod B"
  have B: "0 < B" "length data = B" using a by (auto simp: absorbed_def)
  have k: "(2 * B - 1 - length lenb - ?r) mod B = ?k"
  proof -
    have e: "2 * B - 1 - length lenb - ?r = B * 1 + ?k" "?k < B" using fit B by auto
    show ?thesis by (rule div_mod_small(2) [OF e])
  qed
  let ?tail = "0x80 # replicate ?k 0 @ lenb"
  have pad: "md_pad B lenb m = m @ ?tail" unfolding md_pad_def k by simp
  have tl: "length (take ?r data @ ?tail) = 1 * B" using fit B by simp
  have "length (m @ ?tail) = B * (length m div B) + (?r + length ?tail)" by simp
  also have "?r + length ?tail = B" using tl B by simp
  finally have "length (m @ ?tail) div B = length m div B + 1" using B by simp
  then show ?thesis using finish_loop [OF a tl] tl by (simp add: md_hash_def pad Let_def)
qed

lemma two_blocks: "length x = B \<Longrightarrow> length y = B \<Longrightarrow> blocks_loop f B 2 st (x @ y) = f (f st x) y"
  by (simp add: eval_nat_numeral)

lemma finish_two:
  assumes a: "absorbed f B iv st data m" and nofit: "B < length m mod B + 1 + length lenb" and L: "length lenb < B"
  shows "f (f st (take (length m mod B) data @ 0x80 # replicate (B - 1 - length m mod B) 0))
    (replicate (B - length lenb) 0 @ lenb) = md_hash f B iv lenb m"
proof -
  let ?r = "length m mod B" and ?k = "2 * B - 1 - length lenb - length m mod B"
  have B: "0 < B" "length data = B" "?r < B" using a by (auto simp: absorbed_def)
  have k: "?k mod B = ?k" by (rule mod_less) (use nofit B in linarith)
  let ?tail = "0x80 # replicate ?k 0 @ lenb"
  have pad: "md_pad B lenb m = m @ ?tail" unfolding md_pad_def k by simp
  have "?r + (1 + ?k + length lenb) = 2 * B" using nofit L B(3) by linarith
  moreover have "length (take ?r data @ ?tail) = ?r + (1 + ?k + length lenb)" using B by simp
  ultimately have tl: "length (take ?r data @ ?tail) = 2 * B" by simp
  have "length (m @ ?tail) = B * (length m div B) + (?r + length ?tail)" by simp
  also have "?r + length ?tail = 2 * B" using tl B by simp
  finally have n: "length (m @ ?tail) div B = length m div B + 2" using B by simp
  have "?k = (B - 1 - ?r) + (B - length lenb)" using nofit L B(3) by linarith
  then have "take ?r data @ ?tail = (take ?r data @ 0x80 # replicate (B - 1 - ?r) 0) @ replicate (B - length lenb) 0 @ lenb"
    by (simp add: replicate_add)
  moreover have "?r + (1 + (B - 1 - ?r)) = B" using B(3) by linarith
  with B have "length (take ?r data @ 0x80 # replicate (B - 1 - ?r) 0) = B" by simp
  moreover have "length (replicate (B - length lenb) 0 @ lenb) = B" using L by simp
  ultimately have "blocks_loop f B 2 st (take ?r data @ ?tail) =
      f (f st (take ?r data @ 0x80 # replicate (B - 1 - ?r) 0)) (replicate (B - length lenb) 0 @ lenb)"
    by (simp only: two_blocks)
  then show ?thesis using finish_loop [OF a tl] n by (simp add: md_hash_def pad Let_def)
qed

section \<open>Counters of two words\<close>

text \<open>Adding to the low word overflows exactly if the sum is below the summand.\<close>

lemma carry_nat:
  assumes "x < M" "y < (M :: nat)"
  shows "(x + y) mod M < y \<longleftrightarrow> M \<le> x + y" "(x + y) div M = (if M \<le> x + y then 1 else 0)"
proof -
  show "(x + y) mod M < y \<longleftrightarrow> M \<le> x + y"
  proof (cases "x + y < M")
    case True
    then show ?thesis by simp
  next
    case False
    then have "(x + y) mod M = x + y - M" using assms by (simp add: mod_if)
    with False assms show ?thesis by linarith
  qed
  show "(x + y) div M = (if M \<le> x + y then 1 else 0)"
  proof (cases "x + y < M")
    case True
    then show ?thesis by simp
  next
    case False
    then have "(x + y) div M = Suc ((x + y - M) div M)" using assms by (intro le_div_geq) auto
    moreover have "(x + y - M) div M = 0" using assms by (intro div_less) auto
    ultimately show ?thesis using False by simp
  qed
qed

lemma carry_add:
  "(if (of_nat a + of_nat b :: 'a::len word) < of_nat b then hi + 1 else hi) =
     hi + of_nat ((a mod 2 ^ LENGTH('a) + b mod 2 ^ LENGTH('a)) div 2 ^ LENGTH('a))"
proof -
  let ?M = "2 ^ LENGTH('a) :: nat"
  have l: "unat (of_nat a + of_nat b :: 'a word) = (a mod ?M + b mod ?M) mod ?M"
    by (simp only: unat_word_ariths unsigned_of_nat take_bit_eq_mod of_nat_id)
  have r: "unat (of_nat b :: 'a word) = b mod ?M" by (simp only: unsigned_of_nat take_bit_eq_mod of_nat_id)
  have "(of_nat a + of_nat b :: 'a word) < of_nat b \<longleftrightarrow> ?M \<le> a mod ?M + b mod ?M"
    unfolding word_less_nat_alt l r by (rule carry_nat(1)) simp_all
  moreover have "(a mod ?M + b mod ?M) div ?M = (if ?M \<le> a mod ?M + b mod ?M then 1 else 0)"
    by (rule carry_nat(2)) simp_all
  ultimately show ?thesis by simp
qed

section \<open>The contract of a digest\<close>

text \<open>
  \<open>given c m\<close>: the context \<open>c\<close> has been given the message \<open>m\<close>. \<open>ok m\<close> bounds what the length
  counters can count.
\<close>

locale digest_engine =
  fixes init :: 'c
    and update :: "'c \<Rightarrow> bytes \<Rightarrow> 'c"
    and final :: "'c \<Rightarrow> bytes"
    and given :: "'c \<Rightarrow> bytes \<Rightarrow> bool"
    and spec :: "bytes \<Rightarrow> bytes"
    and size_ok :: "nat \<Rightarrow> bool"
    and outlen :: nat
  assumes given_init: "given init []"
    and given_update: "given c m \<Longrightarrow> size_ok (length d) \<Longrightarrow> given (update c d) (m @ d)"
    and given_final: "given c m \<Longrightarrow> final c = spec m"
    and spec_length: "length (spec m) = outlen"
begin

lemma given_pieces:
  "given c m \<Longrightarrow> \<forall>d\<in>set ds. size_ok (length d) \<Longrightarrow> given (foldl update c ds) (m @ concat ds)"
proof (induction ds arbitrary: c m)
  case (Cons d ds)
  from Cons.IH [OF given_update [OF Cons.prems(1)]] Cons.prems(2) show ?case by simp
qed simp

text \<open>The digest does not depend on the pieces.\<close>

lemma pieces_irrelevant:
  "\<forall>d\<in>set ds. size_ok (length d) \<Longrightarrow> final (foldl update init ds) = spec (concat ds)"
  using given_pieces [OF given_init] given_final by fastforce

end

end
