(* ===== verification/Md2.thy ===== *)
theory Md2
  imports Hash_Block
begin

text \<open>
  Models \<open>lib/crypt/md2.c\<close>. The chaining value is the pair of \<open>state\<close> and \<open>checksum\<close>. In
  \<open>md2_final\<close> the transform reads the checksum it also rewrites, each byte before its own update.
  The fill \<open>lens\<close> is an \<open>int32_t\<close> that stays below 16, here a natural number.
\<close>

definition md2_s :: bytes where
  "md2_s =
    [41, 46, 67, 201, 162, 216, 124, 1, 61, 54, 84, 161, 236, 240, 6, 19,
     98, 167, 5, 243, 192, 199, 115, 140, 152, 147, 43, 217, 188, 76, 130, 202,
     30, 155, 87, 60, 253, 212, 224, 22, 103, 66, 111, 24, 138, 23, 229, 18,
     190, 78, 196, 214, 218, 158, 222, 73, 160, 251, 245, 142, 187, 47, 238, 122,
     169, 104, 121, 145, 21, 178, 7, 63, 148, 194, 16, 137, 11, 34, 95, 33,
     128, 127, 93, 154, 90, 144, 50, 39, 53, 62, 204, 231, 191, 247, 151, 3,
     255, 25, 48, 179, 72, 165, 181, 209, 215, 94, 146, 42, 172, 86, 170, 198,
     79, 184, 56, 210, 150, 164, 125, 182, 118, 252, 107, 226, 156, 116, 4, 241,
     69, 157, 112, 89, 100, 113, 135, 32, 134, 91, 207, 101, 230, 45, 168, 2,
     27, 96, 37, 173, 174, 176, 185, 246, 28, 70, 97, 105, 52, 64, 126, 15,
     85, 71, 163, 35, 221, 81, 175, 58, 195, 92, 249, 206, 186, 197, 234, 38,
     44, 83, 13, 110, 133, 40, 132, 9, 211, 223, 205, 244, 65, 129, 77, 82,
     106, 220, 55, 200, 108, 193, 171, 250, 36, 225, 123, 8, 12, 189, 177, 74,
     120, 136, 149, 139, 227, 99, 232, 109, 233, 203, 213, 254, 59, 0, 29, 57,
     242, 239, 183, 14, 102, 88, 208, 228, 166, 119, 114, 248, 235, 117, 75, 10,
     49, 68, 80, 180, 143, 237, 31, 26, 219, 153, 141, 51, 159, 17, 131, 20]"

definition MD2_BLOCK_SIZE :: nat where "MD2_BLOCK_SIZE = 16"
definition MD2_KEY_BLOCK :: nat where "MD2_KEY_BLOCK = 16"

text \<open>One step \<open>x[k] ^= s[t]; t = x[k]\<close>, one of the 18 passes, and the checksum's step.\<close>

definition md2_step :: "nat \<Rightarrow> u32 list \<times> u32 \<Rightarrow> u32 list \<times> u32" where
  "md2_step k = (\<lambda>(x, t). let v = x ! k XOR ucast (md2_s ! unat t) in (x[k := v], v))"

definition md2_pass :: "nat \<Rightarrow> u32 list \<times> u32 \<Rightarrow> u32 list \<times> u32" where
  "md2_pass j s = (let (x, t) = fold md2_step [0..<48] s in (x, (t + of_nat j) AND 0xFF))"

definition md2_check :: "bytes \<Rightarrow> nat \<Rightarrow> bytes \<times> u32 \<Rightarrow> bytes \<times> u32" where
  "md2_check data j = (\<lambda>(ck, t).
     let v = ck ! j XOR md2_s ! unat (ucast (data ! j) XOR t) in (ck[j := v], ucast v))"

definition md2_transform :: "bytes \<times> bytes \<Rightarrow> bytes \<Rightarrow> bytes \<times> bytes" where
  "md2_transform = (\<lambda>(st, ck) data.
     let x = map (\<lambda>j. ucast (st ! j)) [0..<16] @ map (\<lambda>j. ucast (data ! j)) [0..<16] @
             map (\<lambda>j. ucast (st ! j) XOR ucast (data ! j)) [0..<16];
         (x, t) = fold md2_pass [0..<18] (x, 0);
         (ck, t) = fold (md2_check data) [0..<16] (ck, ucast (ck ! 15))
     in (map (\<lambda>j. ucast (x ! j)) [0..<16], ck))"

record md2_ctx =
  m2_chain :: "bytes \<times> bytes"
  m2_lens :: nat
  m2_data :: bytes

definition md2_init :: "bytes \<Rightarrow> md2_ctx" where
  "md2_init data = \<lparr>m2_chain = (replicate 16 0, replicate 16 0), m2_lens = 0, m2_data = data\<rparr>"

definition md2_update :: "md2_ctx \<Rightarrow> bytes \<Rightarrow> md2_ctx" where
  "md2_update c p =
     (if length p = 0 then c
      else
        (let left = MD2_KEY_BLOCK - m2_lens c;
             (c, p) =
               (if 0 < m2_lens c \<and> left \<le> length p
                then (let data = mem_put (m2_data c) (m2_lens c) (take left p)
                      in (c\<lparr>m2_data := data, m2_chain := md2_transform (m2_chain c) data, m2_lens := 0\<rparr>, drop left p))
                else (c, p));
             (c, p) =
               (if MD2_KEY_BLOCK \<le> length p
                then (let n = length p div MD2_KEY_BLOCK
                      in (c\<lparr>m2_chain := blocks_loop md2_transform MD2_KEY_BLOCK n (m2_chain c) p\<rparr>, drop (n * MD2_KEY_BLOCK) p))
                else (c, p))
         in if 0 < length p
            then c\<lparr>m2_data := mem_put (m2_data c) (m2_lens c) p, m2_lens := m2_lens c + length p\<rparr>
            else c))"

definition md2_zero :: md2_ctx where
  "md2_zero = \<lparr>m2_chain = (replicate 16 0, replicate 16 0), m2_lens = 0, m2_data = replicate 16 0\<rparr>"

text \<open>The \<open>while\<close> loop that fills the block with \<open>to_pad\<close>.\<close>

definition md2_final :: "md2_ctx \<Rightarrow> bytes \<times> md2_ctx" where
  "md2_final c =
     (let n = m2_lens c;
          to_pad = of_nat (MD2_KEY_BLOCK - n);
          data = mem_put (m2_data c) n (replicate (MD2_KEY_BLOCK - n) to_pad);
          (st, ck) = md2_transform (m2_chain c) data;
          (st, ck) = md2_transform (st, ck) ck
      in (st, md2_zero))"

section \<open>Correctness\<close>

text \<open>The definition of RFC 1319: the padded message's blocks, then the checksum as one more block.\<close>

definition md2_spec :: "bytes \<Rightarrow> bytes" where
  "md2_spec m =
     (let k = 16 - length m mod 16;
          pm = m @ replicate k (of_nat k);
          (st, ck) = blocks_loop md2_transform 16 (length pm div 16) (replicate 16 0, replicate 16 0) pm
      in fst (md2_transform (st, ck) ck))"

definition md2_given :: "md2_ctx \<Rightarrow> bytes \<Rightarrow> bool" where
  "md2_given c m \<longleftrightarrow>
     absorbed md2_transform 16 (replicate 16 0, replicate 16 0) (m2_chain c) (m2_data c) m \<and>
     m2_lens c = length m mod 16"

lemma md2_update_given:
  assumes g: "md2_given c m"
  shows "md2_given (md2_update c p) (m @ p)"
proof (cases "p = []")
  case True
  with g show ?thesis by (simp add: md2_update_def)
next
  case False
  let ?f = md2_transform and ?r = "m2_lens c"
  have a: "absorbed ?f 16 (replicate 16 0, replicate 16 0) (m2_chain c) (m2_data c) m" and r: "?r = length m mod 16"
    using g by (simp_all add: md2_given_def)
  let ?d = "mem_put (m2_data c) ?r (take (16 - ?r) p)"
  obtain s1 d1 p1 r1 where e1: "(if 0 < ?r \<and> 16 - ?r \<le> length p
      then (blocks_loop ?f 16 1 (m2_chain c) ?d, ?d, drop (16 - ?r) p, 0)
      else (m2_chain c, m2_data c, p, ?r)) = (s1, d1, p1, r1)" by (metis prod_cases4)
  obtain s2 p2 where e2: "(if 16 \<le> length p1
      then (blocks_loop ?f 16 (length p1 div 16) s1 p1, drop (length p1 div 16 * 16) p1) else (s1, p1)) = (s2, p2)"
    by (metis surj_pair)
  note st = absorb_stages [OF a r e1 e2]
  have len: "length ?d = 16" if "0 < ?r" "16 - ?r \<le> length p" using a r that by (simp add: absorbed_def)
  define c1 where "c1 = c\<lparr>m2_data := d1, m2_chain := s1, m2_lens := r1\<rparr>"
  define c2 where "c2 = c1\<lparr>m2_chain := s2\<rparr>"
  have f1: "(if 0 < ?r \<and> 16 - ?r \<le> length p
      then (c\<lparr>m2_data := ?d, m2_chain := ?f (m2_chain c) ?d, m2_lens := 0\<rparr>, drop (16 - ?r) p) else (c, p)) = (c1, p1)"
    using e1 len unfolding c1_def by (auto split: if_splits)
  have f2: "(if 16 \<le> length p1
      then (c1\<lparr>m2_chain := blocks_loop ?f 16 (length p1 div 16) (m2_chain c1) p1\<rparr>, drop (length p1 div 16 * 16) p1)
      else (c1, p1)) = (c2, p2)"
    using e2 unfolding c1_def c2_def by (auto split: if_splits)
  have ne: "\<not> length p = 0" using False by simp
  have "md2_update c p = (if 0 < length p2
      then c2\<lparr>m2_data := mem_put (m2_data c2) (m2_lens c2) p2, m2_lens := m2_lens c2 + length p2\<rparr> else c2)"
    unfolding md2_update_def if_not_P [OF ne] MD2_KEY_BLOCK_def Let_def f1 prod.case f2 ..
  then have "md2_update c p = (if 0 < length p2
      then c2\<lparr>m2_data := mem_put d1 r1 p2, m2_lens := r1 + length p2\<rparr> else c2)" by (simp add: c1_def c2_def)
  then show ?thesis using st by (auto simp: md2_given_def c1_def c2_def)
qed

lemma md2_final_ok:
  assumes g: "md2_given c m"
  shows "md2_final c = (md2_spec m, md2_zero)"
proof -
  let ?f = md2_transform and ?r = "length m mod 16" and ?iv = "(replicate 16 0, replicate 16 0)"
  have a: "absorbed ?f 16 ?iv (m2_chain c) (m2_data c) m" and r: "m2_lens c = ?r" using g by (simp_all add: md2_given_def)
  have l: "length (m2_data c) = 16" using a by (simp add: absorbed_def)
  let ?k = "16 - ?r"
  let ?tail = "replicate ?k (of_nat ?k) :: bytes"
  have k: "?r + ?k = 16" by simp
  have put: "mem_put (m2_data c) ?r ?tail = take ?r (m2_data c) @ ?tail" using l by (simp add: mem_put_def)
  have tl: "length (take ?r (m2_data c) @ ?tail) = 1 * 16" using l by simp
  have "length (m @ ?tail) = length m + ?k" by simp
  also have "\<dots> = 16 * (length m div 16) + (?r + ?k)" using mult_div_mod_eq [of 16 "length m"] by linarith
  finally have n: "length (m @ ?tail) div 16 = length m div 16 + 1" unfolding k by simp
  have "blocks_loop ?f 16 (length (m @ ?tail) div 16) ?iv (m @ ?tail) = ?f (m2_chain c) (mem_put (m2_data c) ?r ?tail)"
    unfolding n finish_loop [OF a tl] put using tl by simp
  then show ?thesis
    unfolding md2_final_def md2_spec_def MD2_KEY_BLOCK_def r Let_def by (simp add: split_beta)
qed

lemma length_md2_spec: "length (md2_spec m) = 16"
  by (simp add: md2_spec_def md2_transform_def Let_def split_beta)

definition md2_buf :: bytes where "md2_buf = replicate 16 0"

interpretation md2: digest_engine "md2_init md2_buf" md2_update "\<lambda>c. fst (md2_final c)" md2_given md2_spec "\<lambda>_. True" 16
proof
  fix c m d
  show "md2_given (md2_init md2_buf) []" by (simp add: md2_given_def md2_init_def absorbed_init md2_buf_def)
  show "md2_given (md2_update c d) (m @ d)" if "md2_given c m" by (rule md2_update_given [OF that])
  show "fst (md2_final c) = md2_spec m" if "md2_given c m" using md2_final_ok [OF that] by simp
  show "length (md2_spec m) = 16" by (rule length_md2_spec)
qed

end
