(* ===== verification/Hash_Ctx.thy ===== *)
theory Hash_Ctx
  imports Hash_Block
begin

text \<open>
  The context of MD5, SHA-1 and SHA-256 (\<open>md5_ctx\<close>, \<open>sha1_ctx\<close>, \<open>sha256_ctx\<close>: the same fields) and
  their update, which is the same code with another transform: \<open>f\<close> compresses one block. The state
  words are a list; \<open>h\<close> is the host's byte order.
\<close>

record hash_ctx =
  hc_datalen :: u32
  hc_state :: "u32 list"
  hc_bitlen :: u64
  hc_data :: bytes

definition ctx_update :: "(u32 list \<Rightarrow> bytes \<Rightarrow> u32 list) \<Rightarrow> hash_ctx \<Rightarrow> bytes \<Rightarrow> hash_ctx" where
  "ctx_update f c p =
     (if length p = 0 then c
      else
        (let left = 64 - unat (hc_datalen c);
             (c, p) =
               (if 0 < hc_datalen c \<and> left \<le> length p
                then (let data = mem_put (hc_data c) (unat (hc_datalen c)) (take left p)
                      in (c\<lparr>hc_data := data, hc_state := blocks_loop f 64 1 (hc_state c) data,
                            hc_bitlen := hc_bitlen c + 512, hc_datalen := 0\<rparr>, drop left p))
                else (c, p));
             (c, p) =
               (if 64 \<le> length p
                then (c\<lparr>hc_state := blocks_loop f 64 (length p div 64) (hc_state c) p,
                        hc_bitlen := hc_bitlen c + of_nat (length p div 64) * 512\<rparr>,
                      drop (length p div 64 * 64) p)
                else (c, p))
         in if 0 < length p
            then c\<lparr>hc_data := mem_put (hc_data c) (unat (hc_datalen c)) p,
                   hc_datalen := hc_datalen c + of_nat (length p)\<rparr>
            else c))"

text \<open>The erased context, after \<open>secure_zero\<close>.\<close>

definition ctx_zero :: "nat \<Rightarrow> hash_ctx" where
  "ctx_zero words = \<lparr>hc_datalen = 0, hc_state = replicate words 0, hc_bitlen = 0, hc_data = replicate 64 0\<rparr>"

text \<open>The finish of SHA-1 and SHA-256; MD5 writes the same padding in another order.\<close>

definition sha_finish :: "bool \<Rightarrow> (u32 list \<Rightarrow> bytes \<Rightarrow> u32 list) \<Rightarrow> hash_ctx \<Rightarrow> u32 list" where
  "sha_finish h f c =
     (let i = unat (hc_datalen c);
          (data, st) =
            (if i < 56
             then (mem_put ((hc_data c)[i := 0x80]) (Suc i) (replicate (56 - Suc i) 0), hc_state c)
             else (let data = mem_put ((hc_data c)[i := 0x80]) (Suc i) (replicate (64 - Suc i) 0)
                   in (mem_put data 0 (replicate 56 0), blocks_loop f 64 1 (hc_state c) data)));
          bitlen = hc_bitlen c + ucast (hc_datalen c * 8)
      in blocks_loop f 64 1 st (mem_put data 56 (write_be64 h bitlen)))"

text \<open>The rotations, \<open>ROTLEFT\<close> and \<open>ROTRIGHT\<close>.\<close>

definition rotl32 :: "nat \<Rightarrow> u32 \<Rightarrow> u32" where "rotl32 n x = push_bit n x OR drop_bit (32 - n) x"
definition rotr32 :: "nat \<Rightarrow> u32 \<Rightarrow> u32" where "rotr32 n x = drop_bit n x OR push_bit (32 - n) x"

section \<open>The context after a message\<close>

definition ctx_given :: "(u32 list \<Rightarrow> bytes \<Rightarrow> u32 list) \<Rightarrow> u32 list \<Rightarrow> hash_ctx \<Rightarrow> bytes \<Rightarrow> bool" where
  "ctx_given f iv c m \<longleftrightarrow>
     absorbed f 64 iv (hc_state c) (hc_data c) m \<and> unat (hc_datalen c) = length m mod 64 \<and>
     hc_bitlen c = of_nat (length m div 64 * 512)"

lemma one_block: "length d = B \<Longrightarrow> blocks_loop f B 1 st d = f st d"
  by simp

lemma ctx_given_fill:
  assumes g: "ctx_given f iv c m" and p: "64 - unat (hc_datalen c) \<le> length p" and l: "left = 64 - unat (hc_datalen c)"
  shows "ctx_given f iv
      (c\<lparr>hc_data := mem_put (hc_data c) (unat (hc_datalen c)) (take left p),
         hc_state := blocks_loop f 64 1 (hc_state c) (mem_put (hc_data c) (unat (hc_datalen c)) (take left p)),
         hc_bitlen := hc_bitlen c + 512, hc_datalen := 0\<rparr>) (m @ take left p)"
    "length (m @ take left p) mod 64 = 0"
proof -
  have a: "absorbed f 64 iv (hc_state c) (hc_data c) m" and d: "unat (hc_datalen c) = length m mod 64"
    and bl: "hc_bitlen c = of_nat (length m div 64 * 512)" using g by (simp_all add: ctx_given_def)
  have l': "left = 64 - length m mod 64" "left \<le> length p" using l p d by simp_all
  have len: "length (m @ take left p) = 64 * (length m div 64 + 1) + 0"
  proof -
    have "length m = 64 * (length m div 64) + length m mod 64" by simp
    moreover have "length m mod 64 < 64" by simp
    ultimately have "length m + left = 64 * (length m div 64) + 64" using l'(1) by linarith
    moreover have "length (m @ take left p) = length m + left" using l'(2) by simp
    ultimately show ?thesis by simp
  qed
  note q = div_mod_small [OF len]
  show "length (m @ take left p) mod 64 = 0" by (rule q(2)) simp
  have "length (mem_put (hc_data c) (length m mod 64) (take left p)) = 64"
    using a l' by (simp add: absorbed_def)
  then show "ctx_given f iv
      (c\<lparr>hc_data := mem_put (hc_data c) (unat (hc_datalen c)) (take left p),
         hc_state := blocks_loop f 64 1 (hc_state c) (mem_put (hc_data c) (unat (hc_datalen c)) (take left p)),
         hc_bitlen := hc_bitlen c + 512, hc_datalen := 0\<rparr>) (m @ take left p)"
    using absorb_fill [OF a l'] q bl unfolding ctx_given_def d
    by (simp del: length_append blocks_loop.simps One_nat_def add: one_block)
qed

lemma ctx_given_full:
  assumes g: "ctx_given f iv c m" and r: "length m mod 64 = 0" and that: "n * 64 \<le> length p"
  shows "ctx_given f iv (c\<lparr>hc_state := blocks_loop f 64 n (hc_state c) p, hc_bitlen := hc_bitlen c + of_nat n * 512\<rparr>)
      (m @ take (n * 64) p)"
proof -
  have a: "absorbed f 64 iv (hc_state c) (hc_data c) m" and d: "unat (hc_datalen c) = length m mod 64"
    and bl: "hc_bitlen c = of_nat (length m div 64 * 512)" using g by (simp_all add: ctx_given_def)
  have "length m = 64 * (length m div 64)" using r by (metis add_0_right mult_div_mod_eq)
  with that have len: "length (m @ take (n * 64) p) = 64 * (length m div 64 + n) + 0" by (simp add: algebra_simps)
  note q = div_mod_small [OF len]
  show ?thesis
    using absorb_full [OF a r that] q bl d r unfolding ctx_given_def
    by (simp del: length_append add: algebra_simps)
qed

lemma ctx_given_part:
  assumes g: "ctx_given f iv c m" and p: "unat (hc_datalen c) + length p < 64"
  shows "ctx_given f iv (c\<lparr>hc_data := mem_put (hc_data c) (unat (hc_datalen c)) p, hc_datalen := hc_datalen c + of_nat (length p)\<rparr>)
      (m @ p)"
proof -
  have a: "absorbed f 64 iv (hc_state c) (hc_data c) m" and d: "unat (hc_datalen c) = length m mod 64"
    and bl: "hc_bitlen c = of_nat (length m div 64 * 512)" using g by (simp_all add: ctx_given_def)
  have p': "length m mod 64 + length p < 64" using p d by simp
  have len: "length (m @ p) = 64 * (length m div 64) + (length m mod 64 + length p)" by simp
  have "unat (of_nat (length p) :: u32) = length p" using p' by (simp add: unat_of_nat take_bit_eq_mod)
  then have "unat (hc_datalen c + of_nat (length p)) = length m mod 64 + length p"
    using unat_plus_small [of "hc_datalen c" "of_nat (length p)"] d p' by simp
  then show ?thesis
    using absorb_part [OF a p'] div_mod_small [OF len p'] bl d unfolding ctx_given_def
    by (simp del: length_append)
qed

lemma ctx_update_given:
  assumes g: "ctx_given f iv c m"
  shows "ctx_given f iv (ctx_update f c d) (m @ d)"
proof (cases "d = []")
  case True
  with g show ?thesis by (simp add: ctx_update_def)
next
  case False
  let ?left = "64 - unat (hc_datalen c)"
  define fill where "fill \<longleftrightarrow> 0 < hc_datalen c \<and> ?left \<le> length d"
  define c1 where "c1 = (if fill then
      (let data = mem_put (hc_data c) (unat (hc_datalen c)) (take ?left d)
       in c\<lparr>hc_data := data, hc_state := blocks_loop f 64 1 (hc_state c) data, hc_bitlen := hc_bitlen c + 512, hc_datalen := 0\<rparr>)
    else c)"
  define p1 where "p1 = (if fill then drop ?left d else d)"
  define m1 where "m1 = (if fill then m @ take ?left d else m)"
  have g1: "ctx_given f iv c1 m1" and mp: "m1 @ p1 = m @ d"
    using ctx_given_fill [OF g] g by (simp_all add: c1_def m1_def p1_def fill_def Let_def)
  have r: "length m1 mod 64 = 0" if "64 \<le> length p1"
  proof (cases fill)
    case True
    then show ?thesis using ctx_given_fill(2) [OF g _ refl, of d] unfolding m1_def fill_def by simp
  next
    case False
    then have "hc_datalen c = 0" using that by (auto simp: fill_def p1_def word_gt_0)
    then show ?thesis using False g by (simp add: m1_def ctx_given_def)
  qed
  define c2 where "c2 = (if 64 \<le> length p1 then
      c1\<lparr>hc_state := blocks_loop f 64 (length p1 div 64) (hc_state c1) p1, hc_bitlen := hc_bitlen c1 + of_nat (length p1 div 64) * 512\<rparr>
    else c1)"
  define p2 where "p2 = (if 64 \<le> length p1 then drop (length p1 div 64 * 64) p1 else p1)"
  define m2 where "m2 = (if 64 \<le> length p1 then m1 @ take (length p1 div 64 * 64) p1 else m1)"
  have g2: "ctx_given f iv c2 m2"
    using ctx_given_full [OF g1 r, of "length p1 div 64" p1] g1 by (simp add: c2_def m2_def)
  have mp2: "m2 @ p2 = m @ d" using mp by (simp add: m2_def p2_def)
  have e1: "(if 0 < hc_datalen c \<and> ?left \<le> length d
      then (c\<lparr>hc_data := mem_put (hc_data c) (unat (hc_datalen c)) (take ?left d),
             hc_state := blocks_loop f 64 1 (hc_state c) (mem_put (hc_data c) (unat (hc_datalen c)) (take ?left d)),
             hc_bitlen := hc_bitlen c + 512, hc_datalen := 0\<rparr>, drop ?left d)
      else (c, d)) = (c1, p1)"
    by (simp add: c1_def p1_def fill_def Let_def)
  have e2: "(if 64 \<le> length p1
      then (c1\<lparr>hc_state := blocks_loop f 64 (length p1 div 64) (hc_state c1) p1,
              hc_bitlen := hc_bitlen c1 + of_nat (length p1 div 64) * 512\<rparr>, drop (length p1 div 64 * 64) p1)
      else (c1, p1)) = (c2, p2)"
    by (simp add: c2_def p2_def)
  have ne: "\<not> length d = 0" using False by simp
  have upd: "ctx_update f c d = (if 0 < length p2 then
      c2\<lparr>hc_data := mem_put (hc_data c2) (unat (hc_datalen c2)) p2, hc_datalen := hc_datalen c2 + of_nat (length p2)\<rparr> else c2)"
    unfolding ctx_update_def if_not_P [OF ne] Let_def e1 prod.case e2 ..
  have small: "unat (hc_datalen c2) + length p2 < 64"
  proof (cases "64 \<le> length p1")
    case True
    then have "length m2 mod 64 = 0" "length p2 < 64"
      using r by (simp_all add: m2_def p2_def)
    then show ?thesis using g2 by (simp add: ctx_given_def)
  next
    case ge: False
    show ?thesis
    proof (cases fill)
      case True
      then show ?thesis using ge by (simp add: c2_def p2_def c1_def Let_def)
    next
      case False
      then show ?thesis using ge g by (auto simp: c2_def p2_def c1_def p1_def fill_def ctx_given_def word_gt_0)
    qed
  qed
  show ?thesis using ctx_given_part [OF g2 small] g2 mp2 unfolding upd by auto
qed

section \<open>The padding blocks\<close>

lemma mem_put_at: "length data = B \<Longrightarrow> i + length ys \<le> B \<Longrightarrow> mem_put data i ys = take i data @ ys @ drop (i + length ys) data"
  by (simp add: mem_put_def)

lemma pad_first:
  assumes "length data = B" "r < B" "Suc r + k \<le> B"
  shows "mem_put (data[r := x]) (Suc r) (replicate k 0) = take r data @ x # replicate k 0 @ drop (Suc r + k) data"
  using assms by (simp add: mem_put_def upd_conv_take_nth_drop add.commute)

lemma mem_put_tail: "length a = n \<Longrightarrow> length rest = length lb \<Longrightarrow> mem_put (a @ rest) n lb = a @ lb"
  by (simp add: mem_put_def)

lemma pad_one:
  assumes "length data = B" "Suc r + length lb \<le> B"
  shows "mem_put (mem_put (data[r := x]) (Suc r) (replicate (B - length lb - Suc r) 0)) (B - length lb) lb =
    take r data @ x # replicate (B - length lb - Suc r) 0 @ lb"
proof -
  have "mem_put (data[r := x]) (Suc r) (replicate (B - length lb - Suc r) 0) =
      (take r data @ x # replicate (B - length lb - Suc r) 0) @ drop (B - length lb) data"
  proof -
    have "Suc r + (B - length lb - Suc r) = B - length lb" using assms by simp
    with pad_first [of data B r "B - length lb - Suc r" x] assms show ?thesis by simp
  qed
  moreover have "length (take r data @ x # replicate (B - length lb - Suc r) 0) = B - length lb" using assms by simp
  moreover have "length (drop (B - length lb) data) = length lb" using assms by simp
  ultimately have "mem_put (mem_put (data[r := x]) (Suc r) (replicate (B - length lb - Suc r) 0)) (B - length lb) lb =
      (take r data @ x # replicate (B - length lb - Suc r) 0) @ lb" by (simp only: mem_put_tail)
  then show ?thesis by simp
qed

lemma pad_zero:
  assumes "length data = B" "length lb \<le> B"
  shows "mem_put (mem_put data 0 (replicate (B - length lb) 0)) (B - length lb) lb = replicate (B - length lb) 0 @ lb"
  using assms by (simp add: mem_put_def)

lemma ctx_bits:
  assumes "ctx_given f iv c m"
  shows "hc_bitlen c + ucast (hc_datalen c * 8) = of_nat (8 * length m)"
proof -
  have d: "unat (hc_datalen c) = length m mod 64" and bl: "hc_bitlen c = of_nat (length m div 64 * 512)"
    using assms by (simp_all add: ctx_given_def)
  have "length m mod 64 * 8 < 512" by simp
  then have "unat (hc_datalen c * 8) = length m mod 64 * 8" by (simp add: unat_word_ariths d)
  then have "ucast (hc_datalen c * 8) = (of_nat (length m mod 64 * 8) :: u64)" by (metis of_nat_unat)
  moreover have "length m div 64 * 512 + length m mod 64 * 8 = 8 * length m"
    using div_mult_mod_eq [of "length m" 64] by linarith
  ultimately show ?thesis using bl by (metis of_nat_add)
qed

lemma sha_finish_ok:
  assumes g: "ctx_given f iv c m"
  shows "sha_finish h f c = md_hash f 64 iv (write_be64 h (of_nat (8 * length m))) m"
proof -
  have a: "absorbed f 64 iv (hc_state c) (hc_data c) m" and d: "unat (hc_datalen c) = length m mod 64"
    using g by (simp_all add: ctx_given_def)
  have l: "length (hc_data c) = 64" using a by (simp add: absorbed_def)
  let ?lb = "write_be64 h (of_nat (8 * length m))" and ?r = "length m mod 64"
  show ?thesis
  proof (cases "?r < 56")
    case True
    have "mem_put (mem_put ((hc_data c)[?r := 0x80]) (Suc ?r) (replicate (56 - Suc ?r) 0)) 56 ?lb =
        take ?r (hc_data c) @ 0x80 # replicate (56 - Suc ?r) 0 @ ?lb"
      using pad_one [OF l, of ?r ?lb "0x80"] True by simp
    moreover have "length (take ?r (hc_data c) @ 0x80 # replicate (56 - Suc ?r) 0 @ ?lb) = 64" using l True by simp
    ultimately show ?thesis
      using True finish_one [OF a, of ?lb] unfolding sha_finish_def ctx_bits [OF g] d
      by (simp add: Let_def)
  next
    case False
    have r: "?r < 64" by simp
    have first: "mem_put ((hc_data c)[?r := 0x80]) (Suc ?r) (replicate (64 - Suc ?r) 0) =
        take ?r (hc_data c) @ 0x80 # replicate (64 - Suc ?r) 0"
      using pad_first [OF l r, of "64 - Suc ?r" "0x80"] r l by simp
    have lf: "length (take ?r (hc_data c) @ 0x80 # replicate (64 - Suc ?r) 0) = 64" using l r by simp
    have second: "mem_put (mem_put (take ?r (hc_data c) @ 0x80 # replicate (64 - Suc ?r) 0) 0 (replicate 56 0)) 56 ?lb =
        replicate 56 0 @ ?lb"
      using pad_zero [OF lf, of ?lb] by simp
    have "sha_finish h f c = blocks_loop f 64 1 (blocks_loop f 64 1 (hc_state c)
        (take ?r (hc_data c) @ 0x80 # replicate (64 - Suc ?r) 0)) (replicate 56 0 @ ?lb)"
      unfolding sha_finish_def ctx_bits [OF g] d Let_def first if_not_P [OF False] prod.case second ..
    also have "\<dots> = f (f (hc_state c) (take ?r (hc_data c) @ 0x80 # replicate (64 - Suc ?r) 0)) (replicate 56 0 @ ?lb)"
      using lf by (simp only: one_block) simp
    finally show ?thesis using False finish_two [OF a, of ?lb] by simp
  qed
qed

lemma length_words: "length (concat (map (write_le32 h) ws)) = 4 * length ws" "length (concat (map (write_be32 h) ws)) = 4 * length ws"
  by (induction ws) auto

text \<open>A block buffer for the contexts of the examples.\<close>

definition hash_buf :: bytes where "hash_buf = replicate 64 0"

end
