(* ===== verification/Md4.thy ===== *)
theory Md4
  imports Hash_Ctx
begin

text \<open>
  Models \<open>lib/crypt/md4.c\<close>. Its context counts the message's bits in two 32-bit words and takes the
  fill of the block buffer from the low one.
\<close>

definition md4_F :: "u32 \<Rightarrow> u32 \<Rightarrow> u32 \<Rightarrow> u32" where "md4_F x y z = (x AND y) OR (NOT x AND z)"
definition md4_H :: "u32 \<Rightarrow> u32 \<Rightarrow> u32 \<Rightarrow> u32" where "md4_H x y z = x XOR y XOR z"

definition md4_FF :: "u32 \<Rightarrow> u32 \<Rightarrow> u32 \<Rightarrow> u32 \<Rightarrow> u32 \<Rightarrow> nat \<Rightarrow> u32" where
  "md4_FF a b c d x s = (let a = a + x; a = a + md4_F b c d in rotl32 s a)"

definition md4_GG :: "u32 \<Rightarrow> u32 \<Rightarrow> u32 \<Rightarrow> u32 \<Rightarrow> u32 \<Rightarrow> nat \<Rightarrow> u32" where
  "md4_GG a b c d x s = (let a = a + (x + 0x5a827999 + (c AND d)); a = a + (b AND (c XOR d)) in rotl32 s a)"

definition md4_HH :: "u32 \<Rightarrow> u32 \<Rightarrow> u32 \<Rightarrow> u32 \<Rightarrow> u32 \<Rightarrow> nat \<Rightarrow> u32" where
  "md4_HH a b c d x s = (let a = a + (x + 0x6ed9eba1); a = a + md4_H b c d in rotl32 s a)"

definition md4_round1 :: "u32 list \<Rightarrow> u32 \<times> u32 \<times> u32 \<times> u32 \<Rightarrow> u32 \<times> u32 \<times> u32 \<times> u32" where
  "md4_round1 m = (\<lambda>(a, b, c, d).
     let a = md4_FF a b c d (m ! 0) 3;
         d = md4_FF d a b c (m ! 1) 7;
         c = md4_FF c d a b (m ! 2) 11;
         b = md4_FF b c d a (m ! 3) 19;
         a = md4_FF a b c d (m ! 4) 3;
         d = md4_FF d a b c (m ! 5) 7;
         c = md4_FF c d a b (m ! 6) 11;
         b = md4_FF b c d a (m ! 7) 19;
         a = md4_FF a b c d (m ! 8) 3;
         d = md4_FF d a b c (m ! 9) 7;
         c = md4_FF c d a b (m ! 10) 11;
         b = md4_FF b c d a (m ! 11) 19;
         a = md4_FF a b c d (m ! 12) 3;
         d = md4_FF d a b c (m ! 13) 7;
         c = md4_FF c d a b (m ! 14) 11;
         b = md4_FF b c d a (m ! 15) 19
     in (a, b, c, d))"

definition md4_round2 :: "u32 list \<Rightarrow> u32 \<times> u32 \<times> u32 \<times> u32 \<Rightarrow> u32 \<times> u32 \<times> u32 \<times> u32" where
  "md4_round2 m = (\<lambda>(a, b, c, d).
     let a = md4_GG a b c d (m ! 0) 3;
         d = md4_GG d a b c (m ! 4) 5;
         c = md4_GG c d a b (m ! 8) 9;
         b = md4_GG b c d a (m ! 12) 13;
         a = md4_GG a b c d (m ! 1) 3;
         d = md4_GG d a b c (m ! 5) 5;
         c = md4_GG c d a b (m ! 9) 9;
         b = md4_GG b c d a (m ! 13) 13;
         a = md4_GG a b c d (m ! 2) 3;
         d = md4_GG d a b c (m ! 6) 5;
         c = md4_GG c d a b (m ! 10) 9;
         b = md4_GG b c d a (m ! 14) 13;
         a = md4_GG a b c d (m ! 3) 3;
         d = md4_GG d a b c (m ! 7) 5;
         c = md4_GG c d a b (m ! 11) 9;
         b = md4_GG b c d a (m ! 15) 13
     in (a, b, c, d))"

definition md4_round3 :: "u32 list \<Rightarrow> u32 \<times> u32 \<times> u32 \<times> u32 \<Rightarrow> u32 \<times> u32 \<times> u32 \<times> u32" where
  "md4_round3 m = (\<lambda>(a, b, c, d).
     let a = md4_HH a b c d (m ! 0) 3;
         d = md4_HH d a b c (m ! 8) 9;
         c = md4_HH c d a b (m ! 4) 11;
         b = md4_HH b c d a (m ! 12) 15;
         a = md4_HH a b c d (m ! 2) 3;
         d = md4_HH d a b c (m ! 10) 9;
         c = md4_HH c d a b (m ! 6) 11;
         b = md4_HH b c d a (m ! 14) 15;
         a = md4_HH a b c d (m ! 1) 3;
         d = md4_HH d a b c (m ! 9) 9;
         c = md4_HH c d a b (m ! 5) 11;
         b = md4_HH b c d a (m ! 13) 15;
         a = md4_HH a b c d (m ! 3) 3;
         d = md4_HH d a b c (m ! 11) 9;
         c = md4_HH c d a b (m ! 7) 11;
         b = md4_HH b c d a (m ! 15) 15
     in (a, b, c, d))"

definition md4_block :: "bool \<Rightarrow> u32 list \<Rightarrow> bytes \<Rightarrow> u32 list" where
  "md4_block h st data =
     (let x = map (\<lambda>i. read_le32 h (drop (i * 4) data)) [0..<16];
          (a, b, c, d) = md4_round3 x (md4_round2 x (md4_round1 x (st ! 0, st ! 1, st ! 2, st ! 3)))
      in [st ! 0 + a, st ! 1 + b, st ! 2 + c, st ! 3 + d])"

definition md4_transform :: "bool \<Rightarrow> nat \<Rightarrow> u32 list \<Rightarrow> bytes \<Rightarrow> u32 list" where
  "md4_transform h nblk st data = blocks_loop (md4_block h) 64 nblk st data"

record md4_ctx =
  m4_state :: "u32 list"
  m4_count0 :: u32
  m4_count1 :: u32
  m4_data :: bytes

definition md4_iv :: "u32 list" where
  "md4_iv = [0x67452301, 0xefcdab89, 0x98badcfe, 0x10325476]"

definition md4_init :: "bytes \<Rightarrow> md4_ctx" where
  "md4_init data = \<lparr>m4_state = md4_iv, m4_count0 = 0, m4_count1 = 0, m4_data = data\<rparr>"

definition md4_index :: "u32 \<Rightarrow> nat" where
  "md4_index count = unat (drop_bit 3 count AND 0x3f)"

text \<open>The bit counter, \<open>lens\<close> bytes on.\<close>

definition md4_count :: "nat \<Rightarrow> u32 \<times> u32 \<Rightarrow> u32 \<times> u32" where
  "md4_count lens = (\<lambda>(count0, count1).
     let bits = push_bit 3 (of_nat lens :: u64);
         low = ucast bits;
         count0 = count0 + low;
         count1 = (if count0 < low then count1 + 1 else count1)
     in (count0, count1 + ucast (drop_bit 32 bits)))"

definition md4_update :: "bool \<Rightarrow> md4_ctx \<Rightarrow> bytes \<Rightarrow> md4_ctx" where
  "md4_update h md4 p =
     (let index = md4_index (m4_count0 md4);
          (count0, count1) = md4_count (length p) (m4_count0 md4, m4_count1 md4);
          left = 64 - index;
          (st, data, p, index) =
            (if 0 < index \<and> left \<le> length p
             then (let data = mem_put (m4_data md4) index (take left p)
                   in (md4_transform h 1 (m4_state md4) data, data, drop left p, 0))
             else (m4_state md4, m4_data md4, p, index));
          (st, p) =
            (if 64 \<le> length p
             then (md4_transform h (length p div 64) st p, drop (length p div 64 * 64) p)
             else (st, p));
          data = (if 0 < length p then mem_put data index p else data)
      in \<lparr>m4_state = st, m4_count0 = count0, m4_count1 = count1, m4_data = data\<rparr>)"

definition md4_zero :: md4_ctx where
  "md4_zero = \<lparr>m4_state = replicate 4 0, m4_count0 = 0, m4_count1 = 0, m4_data = replicate 64 0\<rparr>"

definition md4_final :: "bool \<Rightarrow> md4_ctx \<Rightarrow> bytes \<times> md4_ctx" where
  "md4_final h md4 =
     (let i = md4_index (m4_count0 md4);
          data = (m4_data md4)[i := 0x80]; i = Suc i;
          (data, st, i) =
            (if 56 < i
             then (let data = mem_put data i (replicate (64 - i) 0)
                   in (data, md4_transform h 1 (m4_state md4) data, 0))
             else (data, m4_state md4, i));
          data = mem_put data i (replicate (56 - i) 0);
          data = mem_put data 56 (write_le32 h (m4_count0 md4));
          data = mem_put data 60 (write_le32 h (m4_count1 md4));
          st = md4_transform h 1 st data
      in (concat (map (write_le32 h) st), md4_zero))"

section \<open>Correctness\<close>

text \<open>The length field: the bit count modulo \<open>2 ^ 64\<close>, low word first.\<close>

definition md4_len :: "bool \<Rightarrow> nat \<Rightarrow> bytes" where
  "md4_len h n = write_le32 h (of_nat (8 * n)) @ write_le32 h (of_nat (8 * n div 2 ^ 32))"

definition md4_spec :: "bool \<Rightarrow> bytes \<Rightarrow> bytes" where
  "md4_spec h m = concat (map (write_le32 h) (md_hash (md4_block h) 64 md4_iv (md4_len h (length m)) m))"

definition md4_given :: "bool \<Rightarrow> md4_ctx \<Rightarrow> bytes \<Rightarrow> bool" where
  "md4_given h c m \<longleftrightarrow>
     absorbed (md4_block h) 64 md4_iv (m4_state c) (m4_data c) m \<and>
     m4_count0 c = of_nat (8 * length m) \<and> m4_count1 c = of_nat (8 * length m div 2 ^ 32)"

lemma md4_index_ok: "md4_index (of_nat (8 * n)) = n mod 64"
proof -
  have u: "unat (of_nat (8 * n) :: u32) = 8 * n mod 2 ^ 32" by (subst unat_of_nat) (simp add: take_bit_eq_mod)
  have "unat (drop_bit 3 (of_nat (8 * n) :: u32)) = 8 * n mod 2 ^ 32 div 2 ^ 3"
    unfolding unat_drop_bit_eq u by (rule drop_bit_eq_div)
  moreover have "8 * n mod 2 ^ 32 div 8 = n mod 2 ^ 29"
    using mult_mod_right [of 8 n "2 ^ 29"] by simp
  moreover have "md4_index c = unat (drop_bit 3 c) mod 64" for c
    using and_mask_mod [of "64 :: u32" 6 "drop_bit 3 c"] by (simp add: md4_index_def)
  moreover have "n mod 2 ^ 29 mod 64 = n mod 64"
    using mod_mod_cancel [of 64 "2 ^ 29" n] by simp
  ultimately show ?thesis by simp
qed

lemma md4_count_ok:
  assumes "k < 2 ^ 61"
  shows "md4_count k (of_nat (8 * n), of_nat (8 * n div 2 ^ 32)) = (of_nat (8 * (n + k)), of_nat (8 * (n + k) div 2 ^ 32))"
proof -
  have b: "push_bit 3 (of_nat k :: u64) = of_nat (8 * k)" by (simp add: push_bit_eq_mult)
  have u: "unat (of_nat (8 * k) :: u64) = 8 * k" using assms by (subst unat_of_nat) (simp add: take_bit_eq_mod)
  have low: "ucast (of_nat (8 * k) :: u64) = (of_nat (8 * k) :: u32)" using u by (metis of_nat_unat)
  have high: "ucast (drop_bit 32 (of_nat (8 * k) :: u64)) = (of_nat (8 * k div 2 ^ 32) :: u32)"
  proof -
    have "unat (drop_bit 32 (of_nat (8 * k) :: u64)) = 8 * k div 2 ^ 32"
      unfolding unat_drop_bit_eq u by (rule drop_bit_eq_div)
    then show ?thesis by (metis of_nat_unat)
  qed
  let ?lo = "of_nat (8 * k) :: u32" and ?hi = "of_nat (8 * n div 2 ^ 32) :: u32"
  have sum: "of_nat (8 * n) + ?lo = of_nat (8 * (n + k))" by (simp add: add_mult_distrib2)
  have "(if of_nat (8 * n) + ?lo < ?lo then ?hi + 1 else ?hi) + of_nat (8 * k div 2 ^ 32) =
      of_nat (8 * n div 2 ^ 32 + 8 * k div 2 ^ 32 + (8 * n mod 2 ^ 32 + 8 * k mod 2 ^ 32) div 2 ^ 32)"
    using carry_add [where 'a = 32, of "8 * n" "8 * k" ?hi] by simp
  also have "8 * n div 2 ^ 32 + 8 * k div 2 ^ 32 + (8 * n mod 2 ^ 32 + 8 * k mod 2 ^ 32) div 2 ^ 32 = 8 * (n + k) div 2 ^ 32"
    unfolding add_mult_distrib2 by (rule div_add1_eq [symmetric])
  finally show ?thesis unfolding md4_count_def prod.case Let_def b low high sum by simp
qed

lemma md4_update_given:
  assumes g: "md4_given h c m" and k: "length p < 2 ^ 61"
  shows "md4_given h (md4_update h c p) (m @ p)"
proof -
  have a: "absorbed (md4_block h) 64 md4_iv (m4_state c) (m4_data c) m"
    and c0: "m4_count0 c = of_nat (8 * length m)" and c1: "m4_count1 c = of_nat (8 * length m div 2 ^ 32)"
    using g by (simp_all add: md4_given_def)
  let ?r = "length m mod 64"
  let ?d = "mem_put (m4_data c) ?r (take (64 - ?r) p)"
  obtain s1 d1 p1 r1 where e1: "(if 0 < ?r \<and> 64 - ?r \<le> length p
      then (blocks_loop (md4_block h) 64 1 (m4_state c) ?d, ?d, drop (64 - ?r) p, 0)
      else (m4_state c, m4_data c, p, ?r)) = (s1, d1, p1, r1)" by (metis prod_cases4)
  obtain s2 p2 where e2: "(if 64 \<le> length p1
      then (blocks_loop (md4_block h) 64 (length p1 div 64) s1 p1, drop (length p1 div 64 * 64) p1) else (s1, p1)) = (s2, p2)"
    by (metis surj_pair)
  have cnt: "md4_count (length p) (m4_count0 c, m4_count1 c) =
      (of_nat (8 * length (m @ p)), of_nat (8 * length (m @ p) div 2 ^ 32))"
    unfolding c0 c1 length_append by (rule md4_count_ok [OF k])
  have e: "absorb_all (md4_block h) 64 (m4_state c) (m4_data c) ?r p = (s2, if 0 < length p2 then mem_put d1 r1 p2 else d1)"
    unfolding absorb_all_def Let_def e1 prod.case e2 ..
  have "md4_update h c p = \<lparr>m4_state = s2, m4_count0 = of_nat (8 * length (m @ p)),
      m4_count1 = of_nat (8 * length (m @ p) div 2 ^ 32), m4_data = (if 0 < length p2 then mem_put d1 r1 p2 else d1)\<rparr>"
    unfolding md4_update_def cnt unfolding c0 md4_index_ok md4_transform_def Let_def prod.case e1 e2 ..
  with absorb_all_ok [OF a refl e] show ?thesis by (simp add: md4_given_def)
qed

lemma md4_final_ok:
  assumes g: "md4_given h c m"
  shows "md4_final h c = (md4_spec h m, md4_zero)"
proof -
  have a: "absorbed (md4_block h) 64 md4_iv (m4_state c) (m4_data c) m"
    and c0: "m4_count0 c = of_nat (8 * length m)" and c1: "m4_count1 c = of_nat (8 * length m div 2 ^ 32)"
    using g by (simp_all add: md4_given_def)
  have l: "length (m4_data c) = 64" using a by (simp add: absorbed_def)
  let ?lb = "md4_len h (length m)" and ?r = "length m mod 64"
  have r: "?r < 64" and lb: "length ?lb = 8" by (simp_all add: md4_len_def)
  have two: "mem_put (mem_put d 56 (write_le32 h (of_nat (8 * length m)))) 60 (write_le32 h (of_nat (8 * length m div 2 ^ 32))) =
      mem_put d 56 ?lb" if "length d = 64" for d
    using that by (simp add: mem_put_def md4_len_def)
  have "(let i = ?r; data = (m4_data c)[i := 0x80]; i = Suc i;
          (data, st, i) =
            (if 56 < i
             then (let data = mem_put data i (replicate (64 - i) 0)
                   in (data, md4_transform h 1 (m4_state c) data, 0))
             else (data, m4_state c, i));
          data = mem_put data i (replicate (56 - i) 0);
          data = mem_put data 56 (write_le32 h (of_nat (8 * length m)));
          data = mem_put data 60 (write_le32 h (of_nat (8 * length m div 2 ^ 32)))
      in md4_transform h 1 st data) = md_hash (md4_block h) 64 md4_iv ?lb m"
  proof (cases "56 < Suc ?r")
    case False
    have p: "mem_put (mem_put ((m4_data c)[?r := 0x80]) (Suc ?r) (replicate (56 - Suc ?r) 0)) 56 ?lb =
        take ?r (m4_data c) @ 0x80 # replicate (56 - Suc ?r) 0 @ ?lb"
      using pad_one [OF l, of ?r ?lb "0x80"] False lb by simp
    have l2: "length (mem_put ((m4_data c)[?r := 0x80]) (Suc ?r) (replicate (56 - Suc ?r) 0)) = 64" using l False by simp
    have "length (take ?r (m4_data c) @ 0x80 # replicate (56 - Suc ?r) 0 @ ?lb) = 64" using l False lb by simp
    then show ?thesis
      using False finish_one [OF a, of ?lb] lb
      unfolding Let_def if_not_P [OF False] prod.case two [OF l2] p md4_transform_def
      by (simp only: one_block) simp
  next
    case True
    have first: "mem_put ((m4_data c)[?r := 0x80]) (Suc ?r) (replicate (64 - Suc ?r) 0) =
        take ?r (m4_data c) @ 0x80 # replicate (64 - Suc ?r) 0"
      using pad_first [OF l r, of "64 - Suc ?r" "0x80"] r l by simp
    have lf: "length (take ?r (m4_data c) @ 0x80 # replicate (64 - Suc ?r) 0) = 64" using l r by simp
    have lz: "length (mem_put (take ?r (m4_data c) @ 0x80 # replicate (64 - Suc ?r) 0) 0 (replicate (56 - 0) 0)) = 64"
      using lf by (subst length_mem_put) simp_all
    have second: "mem_put (mem_put (take ?r (m4_data c) @ 0x80 # replicate (64 - Suc ?r) 0) 0 (replicate (56 - 0) 0)) 56 ?lb =
        replicate 56 0 @ ?lb"
      using pad_zero [OF lf, of ?lb] lb by simp
    show ?thesis
      using True finish_two [OF a, of ?lb] lf lb
      unfolding Let_def if_P [OF True] prod.case first two [OF lz] second md4_transform_def
      by (simp only: one_block) simp
  qed
  then show ?thesis unfolding md4_final_def md4_spec_def c0 c1 md4_index_ok Let_def by (simp add: split_beta)
qed

lemma length_md4_hash: "length (md_hash (md4_block h) 64 md4_iv lb m) = 4"
proof -
  have "length (blocks_loop (md4_block h) 64 n st d) = 4" if "length st = 4" for n st d
    using that by (induction n arbitrary: st d) (simp_all add: md4_block_def Let_def split_beta)
  then show ?thesis by (simp add: md_hash_def md4_iv_def Let_def)
qed

interpretation md4: digest_engine "md4_init hash_buf" "md4_update h" "\<lambda>c. fst (md4_final h c)"
  "md4_given h" "md4_spec h" "\<lambda>n. n < 2 ^ 61" 16 for h
proof
  fix c m d
  show "md4_given h (md4_init hash_buf) []"
    by (simp add: md4_given_def md4_init_def absorbed_init hash_buf_def)
  show "md4_given h (md4_update h c d) (m @ d)" if "md4_given h c m" "length d < 2 ^ 61"
    by (rule md4_update_given [OF that])
  show "fst (md4_final h c) = md4_spec h m" if "md4_given h c m"
    using md4_final_ok [OF that] by simp
  show "length (md4_spec h m) = 16" by (simp add: md4_spec_def length_words length_md4_hash)
qed

end
