(* ===== verification/Md5.thy ===== *)
theory Md5
  imports Hash_Ctx
begin

text \<open>
  Models \<open>lib/crypt/md5.c\<close>. The macros change their first argument; here they return its new
  value, and a round is the sequence of its macro calls.
\<close>

definition md5_F :: "u32 \<Rightarrow> u32 \<Rightarrow> u32 \<Rightarrow> u32" where "md5_F x y z = (x AND y) OR (NOT x AND z)"
definition md5_H :: "u32 \<Rightarrow> u32 \<Rightarrow> u32 \<Rightarrow> u32" where "md5_H x y z = x XOR y XOR z"
definition md5_I :: "u32 \<Rightarrow> u32 \<Rightarrow> u32 \<Rightarrow> u32" where "md5_I x y z = y XOR (x OR NOT z)"

definition md5_FF :: "u32 \<Rightarrow> u32 \<Rightarrow> u32 \<Rightarrow> u32 \<Rightarrow> u32 \<Rightarrow> nat \<Rightarrow> u32 \<Rightarrow> u32" where
  "md5_FF a b c d m s t = (let a = a + (m + t); a = a + md5_F b c d in b + rotl32 s a)"

definition md5_GG :: "u32 \<Rightarrow> u32 \<Rightarrow> u32 \<Rightarrow> u32 \<Rightarrow> u32 \<Rightarrow> nat \<Rightarrow> u32 \<Rightarrow> u32" where
  "md5_GG a b c d m s t = (let a = a + (m + t + (c AND NOT d)); a = a + (b AND d) in b + rotl32 s a)"

definition md5_HH :: "u32 \<Rightarrow> u32 \<Rightarrow> u32 \<Rightarrow> u32 \<Rightarrow> u32 \<Rightarrow> nat \<Rightarrow> u32 \<Rightarrow> u32" where
  "md5_HH a b c d m s t = (let a = a + (m + t); a = a + md5_H b c d in b + rotl32 s a)"

definition md5_II :: "u32 \<Rightarrow> u32 \<Rightarrow> u32 \<Rightarrow> u32 \<Rightarrow> u32 \<Rightarrow> nat \<Rightarrow> u32 \<Rightarrow> u32" where
  "md5_II a b c d m s t = (let a = a + (m + t); a = a + md5_I b c d in b + rotl32 s a)"

definition md5_round1 :: "u32 list \<Rightarrow> u32 \<times> u32 \<times> u32 \<times> u32 \<Rightarrow> u32 \<times> u32 \<times> u32 \<times> u32" where
  "md5_round1 m = (\<lambda>(a, b, c, d).
     let a = md5_FF a b c d (m ! 0) 7 0xd76aa478;
         d = md5_FF d a b c (m ! 1) 12 0xe8c7b756;
         c = md5_FF c d a b (m ! 2) 17 0x242070db;
         b = md5_FF b c d a (m ! 3) 22 0xc1bdceee;
         a = md5_FF a b c d (m ! 4) 7 0xf57c0faf;
         d = md5_FF d a b c (m ! 5) 12 0x4787c62a;
         c = md5_FF c d a b (m ! 6) 17 0xa8304613;
         b = md5_FF b c d a (m ! 7) 22 0xfd469501;
         a = md5_FF a b c d (m ! 8) 7 0x698098d8;
         d = md5_FF d a b c (m ! 9) 12 0x8b44f7af;
         c = md5_FF c d a b (m ! 10) 17 0xffff5bb1;
         b = md5_FF b c d a (m ! 11) 22 0x895cd7be;
         a = md5_FF a b c d (m ! 12) 7 0x6b901122;
         d = md5_FF d a b c (m ! 13) 12 0xfd987193;
         c = md5_FF c d a b (m ! 14) 17 0xa679438e;
         b = md5_FF b c d a (m ! 15) 22 0x49b40821
     in (a, b, c, d))"

definition md5_round2 :: "u32 list \<Rightarrow> u32 \<times> u32 \<times> u32 \<times> u32 \<Rightarrow> u32 \<times> u32 \<times> u32 \<times> u32" where
  "md5_round2 m = (\<lambda>(a, b, c, d).
     let a = md5_GG a b c d (m ! 1) 5 0xf61e2562;
         d = md5_GG d a b c (m ! 6) 9 0xc040b340;
         c = md5_GG c d a b (m ! 11) 14 0x265e5a51;
         b = md5_GG b c d a (m ! 0) 20 0xe9b6c7aa;
         a = md5_GG a b c d (m ! 5) 5 0xd62f105d;
         d = md5_GG d a b c (m ! 10) 9 0x02441453;
         c = md5_GG c d a b (m ! 15) 14 0xd8a1e681;
         b = md5_GG b c d a (m ! 4) 20 0xe7d3fbc8;
         a = md5_GG a b c d (m ! 9) 5 0x21e1cde6;
         d = md5_GG d a b c (m ! 14) 9 0xc33707d6;
         c = md5_GG c d a b (m ! 3) 14 0xf4d50d87;
         b = md5_GG b c d a (m ! 8) 20 0x455a14ed;
         a = md5_GG a b c d (m ! 13) 5 0xa9e3e905;
         d = md5_GG d a b c (m ! 2) 9 0xfcefa3f8;
         c = md5_GG c d a b (m ! 7) 14 0x676f02d9;
         b = md5_GG b c d a (m ! 12) 20 0x8d2a4c8a
     in (a, b, c, d))"

definition md5_round3 :: "u32 list \<Rightarrow> u32 \<times> u32 \<times> u32 \<times> u32 \<Rightarrow> u32 \<times> u32 \<times> u32 \<times> u32" where
  "md5_round3 m = (\<lambda>(a, b, c, d).
     let a = md5_HH a b c d (m ! 5) 4 0xfffa3942;
         d = md5_HH d a b c (m ! 8) 11 0x8771f681;
         c = md5_HH c d a b (m ! 11) 16 0x6d9d6122;
         b = md5_HH b c d a (m ! 14) 23 0xfde5380c;
         a = md5_HH a b c d (m ! 1) 4 0xa4beea44;
         d = md5_HH d a b c (m ! 4) 11 0x4bdecfa9;
         c = md5_HH c d a b (m ! 7) 16 0xf6bb4b60;
         b = md5_HH b c d a (m ! 10) 23 0xbebfbc70;
         a = md5_HH a b c d (m ! 13) 4 0x289b7ec6;
         d = md5_HH d a b c (m ! 0) 11 0xeaa127fa;
         c = md5_HH c d a b (m ! 3) 16 0xd4ef3085;
         b = md5_HH b c d a (m ! 6) 23 0x04881d05;
         a = md5_HH a b c d (m ! 9) 4 0xd9d4d039;
         d = md5_HH d a b c (m ! 12) 11 0xe6db99e5;
         c = md5_HH c d a b (m ! 15) 16 0x1fa27cf8;
         b = md5_HH b c d a (m ! 2) 23 0xc4ac5665
     in (a, b, c, d))"

definition md5_round4 :: "u32 list \<Rightarrow> u32 \<times> u32 \<times> u32 \<times> u32 \<Rightarrow> u32 \<times> u32 \<times> u32 \<times> u32" where
  "md5_round4 m = (\<lambda>(a, b, c, d).
     let a = md5_II a b c d (m ! 0) 6 0xf4292244;
         d = md5_II d a b c (m ! 7) 10 0x432aff97;
         c = md5_II c d a b (m ! 14) 15 0xab9423a7;
         b = md5_II b c d a (m ! 5) 21 0xfc93a039;
         a = md5_II a b c d (m ! 12) 6 0x655b59c3;
         d = md5_II d a b c (m ! 3) 10 0x8f0ccc92;
         c = md5_II c d a b (m ! 10) 15 0xffeff47d;
         b = md5_II b c d a (m ! 1) 21 0x85845dd1;
         a = md5_II a b c d (m ! 8) 6 0x6fa87e4f;
         d = md5_II d a b c (m ! 15) 10 0xfe2ce6e0;
         c = md5_II c d a b (m ! 6) 15 0xa3014314;
         b = md5_II b c d a (m ! 13) 21 0x4e0811a1;
         a = md5_II a b c d (m ! 4) 6 0xf7537e82;
         d = md5_II d a b c (m ! 11) 10 0xbd3af235;
         c = md5_II c d a b (m ! 2) 15 0x2ad7d2bb;
         b = md5_II b c d a (m ! 9) 21 0xeb86d391
     in (a, b, c, d))"

definition md5_block :: "bool \<Rightarrow> u32 list \<Rightarrow> bytes \<Rightarrow> u32 list" where
  "md5_block h st data =
     (let m = map (\<lambda>i. read_le32 h (drop (i * 4) data)) [0..<16];
          (a, b, c, d) = md5_round4 m (md5_round3 m (md5_round2 m (md5_round1 m (st ! 0, st ! 1, st ! 2, st ! 3))))
      in [st ! 0 + a, st ! 1 + b, st ! 2 + c, st ! 3 + d])"

definition md5_transform :: "bool \<Rightarrow> nat \<Rightarrow> u32 list \<Rightarrow> bytes \<Rightarrow> u32 list" where
  "md5_transform h nblk st data = blocks_loop (md5_block h) 64 nblk st data"

text \<open>\<open>md5_init\<close> leaves the block buffer as it is; the buffer is an argument.\<close>

definition md5_iv :: "u32 list" where
  "md5_iv = [0x67452301, 0xefcdab89, 0x98badcfe, 0x10325476]"

definition md5_init :: "bytes \<Rightarrow> hash_ctx" where
  "md5_init data = \<lparr>hc_datalen = 0, hc_state = md5_iv, hc_bitlen = 0, hc_data = data\<rparr>"

definition md5_update :: "bool \<Rightarrow> hash_ctx \<Rightarrow> bytes \<Rightarrow> hash_ctx" where
  "md5_update h md5 p = ctx_update (md5_block h) md5 p"

definition md5_final :: "bool \<Rightarrow> hash_ctx \<Rightarrow> bytes \<times> hash_ctx" where
  "md5_final h md5 =
     (let i = unat (hc_datalen md5);
          data = (hc_data md5)[i := 0x80]; i = Suc i;
          (data, st, i) =
            (if 56 < i
             then (let data = mem_put data i (replicate (64 - i) 0)
                   in (data, md5_transform h 1 (hc_state md5) data, 0))
             else (data, hc_state md5, i));
          data = mem_put data i (replicate (56 - i) 0);
          bitlen = hc_bitlen md5 + ucast (hc_datalen md5 * 8);
          data = mem_put data 56 (write_le64 h bitlen);
          st = md5_transform h 1 st data
      in (concat (map (write_le32 h) st), ctx_zero 4))"

section \<open>Correctness\<close>

text \<open>The reference: the compression function iterated over the padded message.\<close>

definition md5_spec :: "bool \<Rightarrow> bytes \<Rightarrow> bytes" where
  "md5_spec h m = concat (map (write_le32 h) (md_hash (md5_block h) 64 md5_iv (write_le64 h (of_nat (8 * length m))) m))"

lemma md5_final_ok:
  assumes g: "ctx_given (md5_block h) md5_iv c m"
  shows "md5_final h c = (md5_spec h m, ctx_zero 4)"
proof -
  have a: "absorbed (md5_block h) 64 md5_iv (hc_state c) (hc_data c) m" and d: "unat (hc_datalen c) = length m mod 64"
    using g by (simp_all add: ctx_given_def)
  have l: "length (hc_data c) = 64" using a by (simp add: absorbed_def)
  let ?lb = "write_le64 h (of_nat (8 * length m))" and ?r = "length m mod 64"
  have r: "?r < 64" by simp
  have "(let i = unat (hc_datalen c); data = (hc_data c)[i := 0x80]; i = Suc i;
          (data, st, i) =
            (if 56 < i
             then (let data = mem_put data i (replicate (64 - i) 0)
                   in (data, md5_transform h 1 (hc_state c) data, 0))
             else (data, hc_state c, i));
          data = mem_put data i (replicate (56 - i) 0);
          bitlen = hc_bitlen c + ucast (hc_datalen c * 8);
          data = mem_put data 56 (write_le64 h bitlen)
      in md5_transform h 1 st data) = md_hash (md5_block h) 64 md5_iv ?lb m"
  proof (cases "56 < Suc ?r")
    case False
    have p: "mem_put (mem_put ((hc_data c)[?r := 0x80]) (Suc ?r) (replicate (56 - Suc ?r) 0)) 56 ?lb =
        take ?r (hc_data c) @ 0x80 # replicate (56 - Suc ?r) 0 @ ?lb"
      using pad_one [OF l, of ?r ?lb "0x80"] False by simp
    have "length (take ?r (hc_data c) @ 0x80 # replicate (56 - Suc ?r) 0 @ ?lb) = 64" using l False by simp
    then show ?thesis
      using False finish_one [OF a, of ?lb]
      unfolding ctx_bits [OF g] d Let_def if_not_P [OF False] prod.case p md5_transform_def
      by (simp only: one_block) simp
  next
    case True
    have first: "mem_put ((hc_data c)[?r := 0x80]) (Suc ?r) (replicate (64 - Suc ?r) 0) =
        take ?r (hc_data c) @ 0x80 # replicate (64 - Suc ?r) 0"
      using pad_first [OF l r, of "64 - Suc ?r" "0x80"] r l by simp
    have lf: "length (take ?r (hc_data c) @ 0x80 # replicate (64 - Suc ?r) 0) = 64" using l r by simp
    have second: "mem_put (mem_put (take ?r (hc_data c) @ 0x80 # replicate (64 - Suc ?r) 0) 0 (replicate (56 - 0) 0)) 56 ?lb =
        replicate 56 0 @ ?lb"
      using pad_zero [OF lf, of ?lb] by simp
    show ?thesis
      using True finish_two [OF a, of ?lb] lf
      unfolding ctx_bits [OF g] d Let_def if_P [OF True] prod.case first second md5_transform_def
      by (simp only: one_block) simp
  qed
  then show ?thesis unfolding md5_final_def md5_spec_def Let_def by (simp add: split_beta)
qed

lemma length_md5_hash: "length (md_hash (md5_block h) 64 md5_iv lb m) = 4"
proof -
  have "length (blocks_loop (md5_block h) 64 n st d) = 4" if "length st = 4" for n st d
    using that by (induction n arbitrary: st d) (simp_all add: md5_block_def Let_def split_beta)
  then show ?thesis by (simp add: md_hash_def md5_iv_def Let_def)
qed

interpretation md5: digest_engine "md5_init hash_buf" "md5_update h" "\<lambda>c. fst (md5_final h c)"
  "ctx_given (md5_block h) md5_iv" "md5_spec h" "\<lambda>_. True" 16 for h
proof
  fix c m d
  show "ctx_given (md5_block h) md5_iv (md5_init hash_buf) []"
    by (simp add: ctx_given_def md5_init_def absorbed_init hash_buf_def)
  show "ctx_given (md5_block h) md5_iv (md5_update h c d) (m @ d)" if "ctx_given (md5_block h) md5_iv c m"
    unfolding md5_update_def by (rule ctx_update_given [OF that])
  show "fst (md5_final h c) = md5_spec h m" if "ctx_given (md5_block h) md5_iv c m"
    using md5_final_ok [OF that] by simp
  show "length (md5_spec h m) = 16" by (simp add: md5_spec_def length_words length_md5_hash)
qed

end
