(* ===== verification/Sha1.thy ===== *)
theory Sha1
  imports Md5
begin

text \<open>
  Models \<open>lib/crypt/sha1.c\<close>. The code renames the working variables instead of moving them: the
  arguments of each round macro are those of the one before, rotated. Here the tuple is rotated
  instead; after 80 rounds, a multiple of five, both are back in place. The schedule is the code's
  ring of 16 words.
\<close>

definition sha1_F0 :: "u32 \<Rightarrow> u32 \<Rightarrow> u32 \<Rightarrow> u32" where "sha1_F0 b c d = ((c XOR d) AND b) XOR d"
definition sha1_F1 :: "u32 \<Rightarrow> u32 \<Rightarrow> u32 \<Rightarrow> u32" where "sha1_F1 b c d = b XOR c XOR d"
definition sha1_F2 :: "u32 \<Rightarrow> u32 \<Rightarrow> u32 \<Rightarrow> u32" where "sha1_F2 b c d = (b AND c) OR ((b OR c) AND d)"

text \<open>\<open>W(i)\<close>: the new schedule word and the ring it is stored in.\<close>

definition sha1_W :: "u32 list \<Rightarrow> nat \<Rightarrow> u32 list" where
  "sha1_W m i = m[i mod 16 :=
     rotl32 1 (m ! ((i + 13) mod 16) XOR m ! ((i + 8) mod 16) XOR m ! ((i + 2) mod 16) XOR m ! (i mod 16))]"

type_synonym sha1_vars = "u32 \<times> u32 \<times> u32 \<times> u32 \<times> u32 \<times> u32 list"

definition sha1_step :: "(u32 \<Rightarrow> u32 \<Rightarrow> u32 \<Rightarrow> u32) \<Rightarrow> u32 \<Rightarrow> u32 \<Rightarrow> sha1_vars \<Rightarrow> sha1_vars" where
  "sha1_step F k w = (\<lambda>(a, b, c, d, e, m).
     let e = e + (rotl32 5 a + F b c d + k + w); b = rotl32 30 b in (e, a, b, c, d, m))"

definition sha1_R0 :: "nat \<Rightarrow> sha1_vars \<Rightarrow> sha1_vars" where
  "sha1_R0 i = (\<lambda>(a, b, c, d, e, m). sha1_step sha1_F0 0x5a827999 (m ! i) (a, b, c, d, e, m))"

definition sha1_R1 :: "nat \<Rightarrow> sha1_vars \<Rightarrow> sha1_vars" where
  "sha1_R1 i = (\<lambda>(a, b, c, d, e, m). let m = sha1_W m i in sha1_step sha1_F0 0x5a827999 (m ! (i mod 16)) (a, b, c, d, e, m))"

definition sha1_R2 :: "nat \<Rightarrow> sha1_vars \<Rightarrow> sha1_vars" where
  "sha1_R2 i = (\<lambda>(a, b, c, d, e, m). let m = sha1_W m i in sha1_step sha1_F1 0x6ed9eba1 (m ! (i mod 16)) (a, b, c, d, e, m))"

definition sha1_R3 :: "nat \<Rightarrow> sha1_vars \<Rightarrow> sha1_vars" where
  "sha1_R3 i = (\<lambda>(a, b, c, d, e, m). let m = sha1_W m i in sha1_step sha1_F2 0x8f1bbcdc (m ! (i mod 16)) (a, b, c, d, e, m))"

definition sha1_R4 :: "nat \<Rightarrow> sha1_vars \<Rightarrow> sha1_vars" where
  "sha1_R4 i = (\<lambda>(a, b, c, d, e, m). let m = sha1_W m i in sha1_step sha1_F1 0xca62c1d6 (m ! (i mod 16)) (a, b, c, d, e, m))"

definition sha1_block :: "bool \<Rightarrow> u32 list \<Rightarrow> bytes \<Rightarrow> u32 list" where
  "sha1_block h st data =
     (let m = map (\<lambda>i. read_be32 h (drop (i * 4) data)) [0..<16];
          s = (st ! 0, st ! 1, st ! 2, st ! 3, st ! 4, m);
          s = fold sha1_R0 [0..<16] s;
          s = fold sha1_R1 [16..<20] s;
          s = fold sha1_R2 [20..<40] s;
          s = fold sha1_R3 [40..<60] s;
          (a, b, c, d, e, m) = fold sha1_R4 [60..<80] s
      in [st ! 0 + a, st ! 1 + b, st ! 2 + c, st ! 3 + d, st ! 4 + e])"

definition sha1_transform :: "bool \<Rightarrow> nat \<Rightarrow> u32 list \<Rightarrow> bytes \<Rightarrow> u32 list" where
  "sha1_transform h nblk st data = blocks_loop (sha1_block h) 64 nblk st data"

definition sha1_iv :: "u32 list" where
  "sha1_iv = [0x67452301, 0xefcdab89, 0x98badcfe, 0x10325476, 0xc3d2e1f0]"

definition sha1_init :: "bytes \<Rightarrow> hash_ctx" where
  "sha1_init data = \<lparr>hc_datalen = 0, hc_state = sha1_iv, hc_bitlen = 0, hc_data = data\<rparr>"

definition sha1_update :: "bool \<Rightarrow> hash_ctx \<Rightarrow> bytes \<Rightarrow> hash_ctx" where
  "sha1_update h sha1 p = ctx_update (sha1_block h) sha1 p"

definition sha1_final :: "bool \<Rightarrow> hash_ctx \<Rightarrow> bytes \<times> hash_ctx" where
  "sha1_final h sha1 = (concat (map (write_be32 h) (sha_finish h (sha1_block h) sha1)), ctx_zero 5)"

section \<open>Correctness\<close>

definition sha1_spec :: "bool \<Rightarrow> bytes \<Rightarrow> bytes" where
  "sha1_spec h m = concat (map (write_be32 h) (md_hash (sha1_block h) 64 sha1_iv (write_be64 h (of_nat (8 * length m))) m))"

lemma length_sha1_hash: "length (md_hash (sha1_block h) 64 sha1_iv lb m) = 5"
proof -
  have "length (blocks_loop (sha1_block h) 64 n st d) = 5" if "length st = 5" for n st d
    using that by (induction n arbitrary: st d) (simp_all add: sha1_block_def Let_def split_beta)
  then show ?thesis by (simp add: md_hash_def sha1_iv_def Let_def)
qed

interpretation sha1: digest_engine "sha1_init hash_buf" "sha1_update h" "\<lambda>c. fst (sha1_final h c)"
  "ctx_given (sha1_block h) sha1_iv" "sha1_spec h" "\<lambda>_. True" 20 for h
proof
  fix c m d
  show "ctx_given (sha1_block h) sha1_iv (sha1_init hash_buf) []"
    by (simp add: ctx_given_def sha1_init_def absorbed_init hash_buf_def)
  show "ctx_given (sha1_block h) sha1_iv (sha1_update h c d) (m @ d)" if "ctx_given (sha1_block h) sha1_iv c m"
    unfolding sha1_update_def by (rule ctx_update_given [OF that])
  show "fst (sha1_final h c) = sha1_spec h m" if "ctx_given (sha1_block h) sha1_iv c m"
    by (simp add: sha1_final_def sha1_spec_def sha_finish_ok [OF that])
  show "length (sha1_spec h m) = 20" by (simp add: sha1_spec_def length_words length_sha1_hash)
qed

end
