(* ===== verification/Sha256.thy ===== *)
theory Sha256
  imports Sha1
begin

text \<open>
  Models \<open>lib/crypt/sha256.c\<close> and \<open>CRYPT_ROUNDS8\<close> of \<open>crypt_pub.h\<close>. As in SHA-1, the code rotates the
  names of the eight working variables, here the tuple is rotated; 64 rounds bring both back.
\<close>

definition CH :: "'a::len word \<Rightarrow> 'a word \<Rightarrow> 'a word \<Rightarrow> 'a word" where "CH x y z = (x AND y) XOR (NOT x AND z)"
definition MAJ :: "'a::len word \<Rightarrow> 'a word \<Rightarrow> 'a word \<Rightarrow> 'a word" where "MAJ x y z = (x AND y) XOR (x AND z) XOR (y AND z)"
definition EP0 :: "u32 \<Rightarrow> u32" where "EP0 x = rotr32 2 x XOR rotr32 13 x XOR rotr32 22 x"
definition EP1 :: "u32 \<Rightarrow> u32" where "EP1 x = rotr32 6 x XOR rotr32 11 x XOR rotr32 25 x"
definition SIG0 :: "u32 \<Rightarrow> u32" where "SIG0 x = rotr32 7 x XOR rotr32 18 x XOR drop_bit 3 x"
definition SIG1 :: "u32 \<Rightarrow> u32" where "SIG1 x = rotr32 17 x XOR rotr32 19 x XOR drop_bit 10 x"

definition sha256_k :: "u32 list" where
  "sha256_k =
    [0x428a2f98, 0x71374491, 0xb5c0fbcf, 0xe9b5dba5] @
    [0x3956c25b, 0x59f111f1, 0x923f82a4, 0xab1c5ed5] @
    [0xd807aa98, 0x12835b01, 0x243185be, 0x550c7dc3] @
    [0x72be5d74, 0x80deb1fe, 0x9bdc06a7, 0xc19bf174] @
    [0xe49b69c1, 0xefbe4786, 0x0fc19dc6, 0x240ca1cc] @
    [0x2de92c6f, 0x4a7484aa, 0x5cb0a9dc, 0x76f988da] @
    [0x983e5152, 0xa831c66d, 0xb00327c8, 0xbf597fc7] @
    [0xc6e00bf3, 0xd5a79147, 0x06ca6351, 0x14292967] @
    [0x27b70a85, 0x2e1b2138, 0x4d2c6dfc, 0x53380d13] @
    [0x650a7354, 0x766a0abb, 0x81c2c92e, 0x92722c85] @
    [0xa2bfe8a1, 0xa81a664b, 0xc24b8b70, 0xc76c51a3] @
    [0xd192e819, 0xd6990624, 0xf40e3585, 0x106aa070] @
    [0x19a4c116, 0x1e376c08, 0x2748774c, 0x34b0bcb5] @
    [0x391c0cb3, 0x4ed8aa4a, 0x5b9cca4f, 0x682e6ff3] @
    [0x748f82ee, 0x78a5636f, 0x84c87814, 0x8cc70208] @
    [0x90befffa, 0xa4506ceb, 0xbef9a3f7, 0xc67178f2]"

type_synonym 'a sha2_vars = "'a \<times> 'a \<times> 'a \<times> 'a \<times> 'a \<times> 'a \<times> 'a \<times> 'a"

text \<open>\<open>ROUND\<close>: \<open>t1\<close> is the message word on entry.\<close>

definition sha256_round :: "nat \<Rightarrow> u32 \<Rightarrow> u32 sha2_vars \<Rightarrow> u32 sha2_vars" where
  "sha256_round i t1 = (\<lambda>(a, b, c, d, e, f, g, h).
     let t1 = t1 + (h + EP1 e + CH e f g + sha256_k ! i);
         h = EP0 a + MAJ a b c;
         d = d + t1;
         h = h + t1
     in (h, a, b, c, d, e, f, g))"

definition sha256_round_00_15 :: "bool \<Rightarrow> bytes \<Rightarrow> nat \<Rightarrow> u32 sha2_vars \<times> u32 list \<Rightarrow> u32 sha2_vars \<times> u32 list" where
  "sha256_round_00_15 hl data i = (\<lambda>(s, m).
     let t1 = read_be32 hl (drop (i * 4) data); m = m[i := t1] in (sha256_round i t1 s, m))"

definition sha256_round_16_63 :: "nat \<Rightarrow> u32 sha2_vars \<times> u32 list \<Rightarrow> u32 sha2_vars \<times> u32 list" where
  "sha256_round_16_63 i = (\<lambda>(s, m).
     let t1 = m ! (i mod 16) + (SIG0 (m ! ((i + 1) mod 16)) + SIG1 (m ! ((i + 14) mod 16)) + m ! ((i + 9) mod 16));
         m = m[i mod 16 := t1]
     in (sha256_round i t1 s, m))"

definition sha256_block :: "bool \<Rightarrow> u32 list \<Rightarrow> bytes \<Rightarrow> u32 list" where
  "sha256_block hl st data =
     (let s = ((st ! 0, st ! 1, st ! 2, st ! 3, st ! 4, st ! 5, st ! 6, st ! 7), replicate 16 0);
          s = fold (sha256_round_00_15 hl data) [0..<16] s;
          ((a, b, c, d, e, f, g, h), m) = fold sha256_round_16_63 [16..<64] s
      in [st ! 0 + a, st ! 1 + b, st ! 2 + c, st ! 3 + d, st ! 4 + e, st ! 5 + f, st ! 6 + g, st ! 7 + h])"

definition sha256_transform :: "bool \<Rightarrow> nat \<Rightarrow> u32 list \<Rightarrow> bytes \<Rightarrow> u32 list" where
  "sha256_transform h nblk st data = blocks_loop (sha256_block h) 64 nblk st data"

definition sha256_iv :: "u32 list" where
  "sha256_iv =
    [0x6a09e667, 0xbb67ae85, 0x3c6ef372, 0xa54ff53a] @
    [0x510e527f, 0x9b05688c, 0x1f83d9ab, 0x5be0cd19]"

definition sha256_init :: "bytes \<Rightarrow> hash_ctx" where
  "sha256_init data = \<lparr>hc_datalen = 0, hc_state = sha256_iv, hc_bitlen = 0, hc_data = data\<rparr>"

definition sha256_update :: "bool \<Rightarrow> hash_ctx \<Rightarrow> bytes \<Rightarrow> hash_ctx" where
  "sha256_update h sha256 p = ctx_update (sha256_block h) sha256 p"

definition sha256_final :: "bool \<Rightarrow> hash_ctx \<Rightarrow> bytes \<times> hash_ctx" where
  "sha256_final h sha256 = (concat (map (write_be32 h) (sha_finish h (sha256_block h) sha256)), ctx_zero 8)"

section \<open>Correctness\<close>

definition sha256_spec :: "bool \<Rightarrow> bytes \<Rightarrow> bytes" where
  "sha256_spec h m = concat (map (write_be32 h) (md_hash (sha256_block h) 64 sha256_iv (write_be64 h (of_nat (8 * length m))) m))"

lemma length_sha256_hash: "length (md_hash (sha256_block h) 64 sha256_iv lb m) = 8"
proof -
  have "length (blocks_loop (sha256_block h) 64 n st d) = 8" if "length st = 8" for n st d
    using that by (induction n arbitrary: st d) (simp_all add: sha256_block_def Let_def split_beta)
  then show ?thesis by (simp add: md_hash_def sha256_iv_def Let_def)
qed

interpretation sha256: digest_engine "sha256_init hash_buf" "sha256_update h" "\<lambda>c. fst (sha256_final h c)"
  "ctx_given (sha256_block h) sha256_iv" "sha256_spec h" "\<lambda>_. True" 32 for h
proof
  fix c m d
  show "ctx_given (sha256_block h) sha256_iv (sha256_init hash_buf) []"
    by (simp add: ctx_given_def sha256_init_def absorbed_init hash_buf_def)
  show "ctx_given (sha256_block h) sha256_iv (sha256_update h c d) (m @ d)" if "ctx_given (sha256_block h) sha256_iv c m"
    unfolding sha256_update_def by (rule ctx_update_given [OF that])
  show "fst (sha256_final h c) = sha256_spec h m" if "ctx_given (sha256_block h) sha256_iv c m"
    by (simp add: sha256_final_def sha256_spec_def sha_finish_ok [OF that])
  show "length (sha256_spec h m) = 32" by (simp add: sha256_spec_def length_words length_sha256_hash)
qed

end
