(* ===== verification/Sha512.thy ===== *)
theory Sha512
  imports Sha256
begin

text \<open>
  Models \<open>lib/crypt/sha512.c\<close>. The context counts the message's bits in two 64-bit words, and the
  fill of the block buffer is taken from the low one. As in SHA-256 the tuple of working variables is
  rotated instead of their names.
\<close>

definition SHA512_KEY_BLOCK :: nat where "SHA512_KEY_BLOCK = 128"
definition SHA512_SHORT_BLOCK_LENGTH :: nat where "SHA512_SHORT_BLOCK_LENGTH = SHA512_KEY_BLOCK - 16"

definition S64 :: "nat \<Rightarrow> u64 \<Rightarrow> u64" where "S64 b x = drop_bit b x OR push_bit (64 - b) x"
definition Sigma0_512 :: "u64 \<Rightarrow> u64" where "Sigma0_512 x = S64 28 x XOR S64 34 x XOR S64 39 x"
definition Sigma1_512 :: "u64 \<Rightarrow> u64" where "Sigma1_512 x = S64 14 x XOR S64 18 x XOR S64 41 x"
definition sigma0_512 :: "u64 \<Rightarrow> u64" where "sigma0_512 x = S64 1 x XOR S64 8 x XOR drop_bit 7 x"
definition sigma1_512 :: "u64 \<Rightarrow> u64" where "sigma1_512 x = S64 19 x XOR S64 61 x XOR drop_bit 6 x"

definition sha512_k :: "u64 list" where
  "sha512_k =
    [0x428a2f98d728ae22, 0x7137449123ef65cd, 0xb5c0fbcfec4d3b2f, 0xe9b5dba58189dbbc] @
    [0x3956c25bf348b538, 0x59f111f1b605d019, 0x923f82a4af194f9b, 0xab1c5ed5da6d8118] @
    [0xd807aa98a3030242, 0x12835b0145706fbe, 0x243185be4ee4b28c, 0x550c7dc3d5ffb4e2] @
    [0x72be5d74f27b896f, 0x80deb1fe3b1696b1, 0x9bdc06a725c71235, 0xc19bf174cf692694] @
    [0xe49b69c19ef14ad2, 0xefbe4786384f25e3, 0x0fc19dc68b8cd5b5, 0x240ca1cc77ac9c65] @
    [0x2de92c6f592b0275, 0x4a7484aa6ea6e483, 0x5cb0a9dcbd41fbd4, 0x76f988da831153b5] @
    [0x983e5152ee66dfab, 0xa831c66d2db43210, 0xb00327c898fb213f, 0xbf597fc7beef0ee4] @
    [0xc6e00bf33da88fc2, 0xd5a79147930aa725, 0x06ca6351e003826f, 0x142929670a0e6e70] @
    [0x27b70a8546d22ffc, 0x2e1b21385c26c926, 0x4d2c6dfc5ac42aed, 0x53380d139d95b3df] @
    [0x650a73548baf63de, 0x766a0abb3c77b2a8, 0x81c2c92e47edaee6, 0x92722c851482353b] @
    [0xa2bfe8a14cf10364, 0xa81a664bbc423001, 0xc24b8b70d0f89791, 0xc76c51a30654be30] @
    [0xd192e819d6ef5218, 0xd69906245565a910, 0xf40e35855771202a, 0x106aa07032bbd1b8] @
    [0x19a4c116b8d2d0c8, 0x1e376c085141ab53, 0x2748774cdf8eeb99, 0x34b0bcb5e19b48a8] @
    [0x391c0cb3c5c95a63, 0x4ed8aa4ae3418acb, 0x5b9cca4f7763e373, 0x682e6ff3d6b2b8a3] @
    [0x748f82ee5defb2fc, 0x78a5636f43172f60, 0x84c87814a1f0ab72, 0x8cc702081a6439ec] @
    [0x90befffa23631e28, 0xa4506cebde82bde9, 0xbef9a3f7b2c67915, 0xc67178f2e372532b] @
    [0xca273eceea26619c, 0xd186b8c721c0c207, 0xeada7dd6cde0eb1e, 0xf57d4f7fee6ed178] @
    [0x06f067aa72176fba, 0x0a637dc5a2c898a6, 0x113f9804bef90dae, 0x1b710b35131c471b] @
    [0x28db77f523047d84, 0x32caab7b40c72493, 0x3c9ebe0a15c9bebc, 0x431d67c49c100d4c] @
    [0x4cc5d4becb3e42b6, 0x597f299cfc657e2a, 0x5fcb6fab3ad6faec, 0x6c44198c4a475817]"

definition sha512_iv :: "u64 list" where
  "sha512_iv =
    [0x6a09e667f3bcc908, 0xbb67ae8584caa73b, 0x3c6ef372fe94f82b, 0xa54ff53a5f1d36f1] @
    [0x510e527fade682d1, 0x9b05688c2b3e6c1f, 0x1f83d9abfb41bd6b, 0x5be0cd19137e2179]"

definition sha512_round :: "nat \<Rightarrow> u64 \<Rightarrow> u64 sha2_vars \<Rightarrow> u64 sha2_vars" where
  "sha512_round i t1 = (\<lambda>(a, b, c, d, e, f, g, h).
     let t1 = t1 + (h + Sigma1_512 e + CH e f g + sha512_k ! i);
         h = Sigma0_512 a + MAJ a b c;
         d = d + t1;
         h = h + t1
     in (h, a, b, c, d, e, f, g))"

definition sha512_round_00_15 :: "bool \<Rightarrow> bytes \<Rightarrow> nat \<Rightarrow> u64 sha2_vars \<times> u64 list \<Rightarrow> u64 sha2_vars \<times> u64 list" where
  "sha512_round_00_15 hl data i = (\<lambda>(s, w).
     let t1 = read_be64 hl (drop (i * 8) data); w = w[i := t1] in (sha512_round i t1 s, w))"

definition sha512_round_16_79 :: "nat \<Rightarrow> u64 sha2_vars \<times> u64 list \<Rightarrow> u64 sha2_vars \<times> u64 list" where
  "sha512_round_16_79 i = (\<lambda>(s, w).
     let t1 = w ! (i mod 16) + (sigma0_512 (w ! ((i + 1) mod 16)) + sigma1_512 (w ! ((i + 14) mod 16)) + w ! ((i + 9) mod 16));
         w = w[i mod 16 := t1]
     in (sha512_round i t1 s, w))"

definition sha512_block :: "bool \<Rightarrow> u64 list \<Rightarrow> bytes \<Rightarrow> u64 list" where
  "sha512_block hl st data =
     (let s = ((st ! 0, st ! 1, st ! 2, st ! 3, st ! 4, st ! 5, st ! 6, st ! 7), replicate 16 0);
          s = fold (sha512_round_00_15 hl data) [0..<16] s;
          ((a, b, c, d, e, f, g, h), w) = fold sha512_round_16_79 [16..<80] s
      in [st ! 0 + a, st ! 1 + b, st ! 2 + c, st ! 3 + d, st ! 4 + e, st ! 5 + f, st ! 6 + g, st ! 7 + h])"

definition sha512_transform :: "bool \<Rightarrow> nat \<Rightarrow> u64 list \<Rightarrow> bytes \<Rightarrow> u64 list" where
  "sha512_transform h blocks st data = blocks_loop (sha512_block h) SHA512_KEY_BLOCK blocks st data"

record sha512_ctx =
  s5_state :: "u64 list"
  s5_bitlen0 :: u64
  s5_bitlen1 :: u64
  s5_data :: bytes

definition sha512_init :: "bytes \<Rightarrow> sha512_ctx" where
  "sha512_init data = \<lparr>s5_state = sha512_iv, s5_bitlen0 = 0, s5_bitlen1 = 0, s5_data = data\<rparr>"

text \<open>\<open>ADDINC128\<close>.\<close>

definition ADDINC128 :: "u64 \<Rightarrow> sha512_ctx \<Rightarrow> sha512_ctx" where
  "ADDINC128 n c =
     (let w0 = s5_bitlen0 c + n
      in c\<lparr>s5_bitlen0 := w0, s5_bitlen1 := (if w0 < n then s5_bitlen1 c + 1 else s5_bitlen1 c)\<rparr>)"

definition sha512_used :: "sha512_ctx \<Rightarrow> nat" where
  "sha512_used c = unat (drop_bit 3 (s5_bitlen0 c)) mod SHA512_KEY_BLOCK"

text \<open>The part of the update from the whole blocks on; it is reached with an empty block buffer.\<close>

definition sha512_update_tail :: "bool \<Rightarrow> sha512_ctx \<Rightarrow> bytes \<Rightarrow> sha512_ctx" where
  "sha512_update_tail h c p =
     (let (c, p) =
        (if SHA512_KEY_BLOCK \<le> length p
         then let blocks = length p div SHA512_KEY_BLOCK
              in (ADDINC128 (push_bit 10 (of_nat blocks)) (c\<lparr>s5_state := sha512_transform h blocks (s5_state c) p\<rparr>),
                  drop (blocks * SHA512_KEY_BLOCK) p)
         else (c, p))
      in if 0 < length p
         then ADDINC128 (push_bit 3 (of_nat (length p))) (c\<lparr>s5_data := mem_put (s5_data c) 0 p\<rparr>)
         else c)"

definition sha512_update :: "bool \<Rightarrow> sha512_ctx \<Rightarrow> bytes \<Rightarrow> sha512_ctx" where
  "sha512_update h c p =
     (if length p = 0 then c
      else
        (let used = sha512_used c
         in if 0 < used
            then (let freespace = SHA512_KEY_BLOCK - used
                  in if freespace \<le> length p
                     then (let c = c\<lparr>s5_data := mem_put (s5_data c) used (take freespace p)\<rparr>;
                               c = ADDINC128 (push_bit 3 (of_nat freespace)) c;
                               c = c\<lparr>s5_state := sha512_transform h 1 (s5_state c) (s5_data c)\<rparr>
                           in sha512_update_tail h c (drop freespace p))
                     else ADDINC128 (push_bit 3 (of_nat (length p))) (c\<lparr>s5_data := mem_put (s5_data c) used p\<rparr>))
            else sha512_update_tail h c p))"

definition sha512_last :: "bool \<Rightarrow> sha512_ctx \<Rightarrow> sha512_ctx" where
  "sha512_last h c =
     (let used = sha512_used c;
          c = (if 0 < used
               then (let data = (s5_data c)[used := 0x80]; used = Suc used
                     in if used \<le> SHA512_SHORT_BLOCK_LENGTH
                        then c\<lparr>s5_data := mem_put data used (replicate (SHA512_SHORT_BLOCK_LENGTH - used) 0)\<rparr>
                        else (let data = (if used < SHA512_KEY_BLOCK
                                          then mem_put data used (replicate (SHA512_KEY_BLOCK - used) 0) else data);
                                  st = sha512_transform h 1 (s5_state c) data
                              in c\<lparr>s5_state := st, s5_data := mem_put data 0 (replicate SHA512_SHORT_BLOCK_LENGTH 0)\<rparr>))
               else c\<lparr>s5_data := (mem_put (s5_data c) 0 (replicate SHA512_SHORT_BLOCK_LENGTH 0))[0 := 0x80]\<rparr>);
          data = mem_put (s5_data c) SHA512_SHORT_BLOCK_LENGTH (write_be64 h (s5_bitlen1 c));
          data = mem_put data (SHA512_SHORT_BLOCK_LENGTH + 8) (write_be64 h (s5_bitlen0 c))
      in c\<lparr>s5_data := data, s5_state := sha512_transform h 1 (s5_state c) data\<rparr>)"

definition sha512_zero :: sha512_ctx where
  "sha512_zero = \<lparr>s5_state = replicate 8 0, s5_bitlen0 = 0, s5_bitlen1 = 0, s5_data = replicate 128 0\<rparr>"

definition sha512_final :: "bool \<Rightarrow> sha512_ctx \<Rightarrow> bytes \<times> sha512_ctx" where
  "sha512_final h c = (concat (map (write_be64 h) (s5_state (sha512_last h c))), sha512_zero)"

section \<open>Correctness\<close>

definition sha512_len :: "bool \<Rightarrow> nat \<Rightarrow> bytes" where
  "sha512_len h n = write_be64 h (of_nat (8 * n div 2 ^ 64)) @ write_be64 h (of_nat (8 * n))"

definition sha512_spec :: "bool \<Rightarrow> bytes \<Rightarrow> bytes" where
  "sha512_spec h m = concat (map (write_be64 h) (md_hash (sha512_block h) 128 sha512_iv (sha512_len h (length m)) m))"

definition sha512_given :: "bool \<Rightarrow> sha512_ctx \<Rightarrow> bytes \<Rightarrow> bool" where
  "sha512_given h c m \<longleftrightarrow>
     absorbed (sha512_block h) 128 sha512_iv (s5_state c) (s5_data c) m \<and>
     s5_bitlen0 c = of_nat (8 * length m) \<and> s5_bitlen1 c = of_nat (8 * length m div 2 ^ 64)"

lemma sha512_used_ok: "sha512_given h c m \<Longrightarrow> sha512_used c = length m mod 128"
proof -
  assume g: "sha512_given h c m"
  let ?n = "length m"
  have u: "unat (of_nat (8 * ?n) :: u64) = 8 * ?n mod 2 ^ 64" by (subst unat_of_nat) (simp add: take_bit_eq_mod)
  have "unat (drop_bit 3 (of_nat (8 * ?n) :: u64)) = 8 * ?n mod 2 ^ 64 div 2 ^ 3"
    unfolding unat_drop_bit_eq u by (rule drop_bit_eq_div)
  also have "\<dots> = ?n mod 2 ^ 61" using mult_mod_right [of 8 ?n "2 ^ 61"] by simp
  finally have "unat (drop_bit 3 (s5_bitlen0 c)) = ?n mod 2 ^ 61" using g by (simp add: sha512_given_def)
  then show ?thesis using mod_mod_cancel [of 128 "2 ^ 61" ?n] by (simp add: sha512_used_def SHA512_KEY_BLOCK_def)
qed

text \<open>The counter, \<open>k\<close> bytes on.\<close>

lemma ADDINC128_ok:
  assumes "8 * k < 2 ^ 64" "s5_bitlen0 c = of_nat (8 * n)" "s5_bitlen1 c = of_nat (8 * n div 2 ^ 64)" "x = of_nat (8 * k)"
  shows "ADDINC128 x c = c\<lparr>s5_bitlen0 := of_nat (8 * (n + k)), s5_bitlen1 := of_nat (8 * (n + k) div 2 ^ 64)\<rparr>"
proof -
  let ?lo = "of_nat (8 * k) :: u64" and ?hi = "of_nat (8 * n div 2 ^ 64) :: u64"
  have sum: "of_nat (8 * n) + ?lo = of_nat (8 * (n + k))" by (simp add: add_mult_distrib2)
  have "8 * k div 2 ^ 64 = 0" using assms(1) by (rule div_less)
  then have "8 * n div 2 ^ 64 + (8 * n mod 2 ^ 64 + 8 * k mod 2 ^ 64) div 2 ^ 64 = 8 * (n + k) div 2 ^ 64"
    unfolding add_mult_distrib2 using div_add1_eq [of "8 * n" "8 * k" "2 ^ 64"] by simp
  then have "(if of_nat (8 * n) + ?lo < ?lo then ?hi + 1 else ?hi) = of_nat (8 * (n + k) div 2 ^ 64)"
    using carry_add [where 'a = 64, of "8 * n" "8 * k" ?hi] by (simp flip: of_nat_add)
  then show ?thesis unfolding ADDINC128_def assms(2,3,4) Let_def sum by simp
qed

text \<open>The three ways an update consumes bytes, with the counter.\<close>

lemma ADDINC128_frame: "s5_state (ADDINC128 x c) = s5_state c" "s5_data (ADDINC128 x c) = s5_data c"
  by (simp_all add: ADDINC128_def Let_def)

lemma push_bytes: "(push_bit 3 (of_nat n) :: u64) = of_nat (8 * n)" "(push_bit 10 (of_nat n) :: u64) = of_nat (8 * (n * 128))"
  by (simp_all add: push_bit_eq_mult)

lemma sha512_given_add:
  assumes "sha512_given h c m" "8 * length d < 2 ^ 64"
    "absorbed (sha512_block h) 128 sha512_iv (s5_state c') (s5_data c') (m @ d)"
    "s5_bitlen0 c' = s5_bitlen0 c" "s5_bitlen1 c' = s5_bitlen1 c" "x = of_nat (8 * length d)"
  shows "sha512_given h (ADDINC128 x c') (m @ d)"
  using ADDINC128_ok [of "length d" c' "length m" x] assms
  by (simp add: sha512_given_def)

lemma sha512_absorbed: "sha512_given h c m \<Longrightarrow> absorbed (sha512_block h) 128 sha512_iv (s5_state c) (s5_data c) m"
  by (simp add: sha512_given_def)

lemma sha512_given_full:
  assumes g: "sha512_given h c m" and r: "length m mod 128 = 0" and n: "n * 128 \<le> length p" and s: "8 * length p < 2 ^ 64"
  shows "sha512_given h (ADDINC128 (push_bit 10 (of_nat n)) (c\<lparr>s5_state := sha512_transform h n (s5_state c) p\<rparr>))
    (m @ take (n * 128) p)"
proof (rule sha512_given_add [OF g])
  show "absorbed (sha512_block h) 128 sha512_iv (s5_state (c\<lparr>s5_state := sha512_transform h n (s5_state c) p\<rparr>))
      (s5_data (c\<lparr>s5_state := sha512_transform h n (s5_state c) p\<rparr>)) (m @ take (n * 128) p)"
    using absorb_full [OF sha512_absorbed [OF g] r n] by (simp add: sha512_transform_def SHA512_KEY_BLOCK_def)
qed (use n s in \<open>simp_all add: push_bytes\<close>)

lemma sha512_given_part:
  assumes g: "sha512_given h c m" and p: "length m mod 128 + length p < 128" and i: "i = length m mod 128"
  shows "sha512_given h (ADDINC128 (push_bit 3 (of_nat (length p))) (c\<lparr>s5_data := mem_put (s5_data c) i p\<rparr>)) (m @ p)"
proof (rule sha512_given_add [OF g])
  show "absorbed (sha512_block h) 128 sha512_iv (s5_state (c\<lparr>s5_data := mem_put (s5_data c) i p\<rparr>))
      (s5_data (c\<lparr>s5_data := mem_put (s5_data c) i p\<rparr>)) (m @ p)"
    using absorb_part(1) [OF sha512_absorbed [OF g] p] i by simp
qed (use p in \<open>simp_all add: push_bytes\<close>)

lemma sha512_given_fill:
  assumes g: "sha512_given h c m" and l: "left = 128 - length m mod 128" and p: "left \<le> length p"
    and c': "c' = ADDINC128 (push_bit 3 (of_nat left)) (c\<lparr>s5_data := mem_put (s5_data c) (length m mod 128) (take left p)\<rparr>)"
  shows "sha512_given h (c'\<lparr>s5_state := sha512_transform h 1 (s5_state c') (s5_data c')\<rparr>) (m @ take left p)"
    "length (m @ take left p) mod 128 = 0"
proof -
  let ?d = "mem_put (s5_data c) (length m mod 128) (take left p)"
  note a = sha512_absorbed [OF g]
  have d: "length ?d = 128" using a l p by (simp add: absorbed_def)
  have "c'\<lparr>s5_state := sha512_transform h 1 (s5_state c') (s5_data c')\<rparr> =
      ADDINC128 (push_bit 3 (of_nat left)) (c\<lparr>s5_data := ?d, s5_state := sha512_block h (s5_state c) ?d\<rparr>)"
    using d unfolding c' ADDINC128_def Let_def sha512_transform_def SHA512_KEY_BLOCK_def one_block [OF d] by (simp add: one_block [OF d])
  moreover have "sha512_given h (ADDINC128 (push_bit 3 (of_nat left)) (c\<lparr>s5_data := ?d, s5_state := sha512_block h (s5_state c) ?d\<rparr>))
      (m @ take left p)"
  proof (rule sha512_given_add [OF g])
    show "push_bit 3 (of_nat left) = (of_nat (8 * length (take left p)) :: u64)"
      by (simp only: push_bytes length_take min_absorb2 p)
  qed (use absorb_fill [OF a l p] p l in simp_all)
  ultimately show "sha512_given h (c'\<lparr>s5_state := sha512_transform h 1 (s5_state c') (s5_data c')\<rparr>) (m @ take left p)" by simp
  have le128: "length m mod 128 < 128" by simp
  have "length m = 128 * (length m div 128) + length m mod 128" by simp
  with le128 have "length m + left = 128 * (length m div 128) + 128" using l by linarith
  then have "length m + left = 128 * (length m div 128 + 1) + 0" by simp
  from div_mod_small(2) [OF this] p show "length (m @ take left p) mod 128 = 0" by simp
qed

lemma sha512_tail_given:
  assumes g: "sha512_given h c m" and r: "length m mod 128 = 0" and s: "8 * length p < 2 ^ 64"
  shows "sha512_given h (sha512_update_tail h c p) (m @ p)"
proof -
  let ?n = "length p div 128"
  obtain c1 p1 m1 where e: "(if SHA512_KEY_BLOCK \<le> length p
         then let blocks = length p div SHA512_KEY_BLOCK
              in (ADDINC128 (push_bit 10 (of_nat blocks)) (c\<lparr>s5_state := sha512_transform h blocks (s5_state c) p\<rparr>),
                  drop (blocks * SHA512_KEY_BLOCK) p)
         else (c, p)) = (c1, p1)" and g1: "sha512_given h c1 m1" and m1: "m1 @ p1 = m @ p" "length m1 mod 128 = 0" "length p1 < 128"
  proof (cases "128 \<le> length p")
    case True
    from sha512_given_full [OF g r _ s, of ?n] r True
    show ?thesis by (intro that [of "ADDINC128 (push_bit 10 (of_nat ?n)) (c\<lparr>s5_state := sha512_transform h ?n (s5_state c) p\<rparr>)" "drop (?n * 128) p" "m @ take (?n * 128) p"])
      (simp_all add: SHA512_KEY_BLOCK_def Let_def)
  next
    case False
    with g r show ?thesis by (intro that [of c p m]) (simp_all add: SHA512_KEY_BLOCK_def)
  qed
  have "sha512_update_tail h c p = (if 0 < length p1
         then ADDINC128 (push_bit 3 (of_nat (length p1))) (c1\<lparr>s5_data := mem_put (s5_data c1) 0 p1\<rparr>) else c1)"
    unfolding sha512_update_tail_def Let_def e [unfolded Let_def] prod.case ..
  then show ?thesis using sha512_given_part [OF g1, of p1 0] g1 m1 by auto
qed

lemma sha512_update_given:
  assumes g: "sha512_given h c m" and s: "length p < 2 ^ 61"
  shows "sha512_given h (sha512_update h c p) (m @ p)"
proof -
  note u = sha512_used_ok [OF g]
  have s': "8 * length p < 2 ^ 64" using s by simp
  let ?r = "length m mod 128"
  consider "p = []" | "p \<noteq> []" "?r = 0" | "p \<noteq> []" "0 < ?r" "128 - ?r \<le> length p" | "p \<noteq> []" "0 < ?r" "length p < 128 - ?r"
    by linarith
  then show ?thesis
  proof cases
    case 1
    with g show ?thesis by (simp add: sha512_update_def)
  next
    case 2
    with sha512_tail_given [OF g _ s'] show ?thesis by (simp add: sha512_update_def u Let_def)
  next
    case 3
    let ?l = "128 - ?r"
    note f = sha512_given_fill [OF g refl 3(3) refl]
    have "8 * length (drop ?l p) < 2 ^ 64" using s' by simp
    from sha512_tail_given [OF f(1,2) this] 3 show ?thesis
      by (simp add: sha512_update_def u Let_def SHA512_KEY_BLOCK_def)
  next
    case 4
    then have "?r + length p < 128" by linarith
    from sha512_given_part [OF g this refl] 4 show ?thesis
      by (simp add: sha512_update_def u Let_def SHA512_KEY_BLOCK_def)
  qed
qed

text \<open>The padding, which is of one block or of two.\<close>

lemma sha512_last_ok:
  assumes g: "sha512_given h c m"
  shows "s5_state (sha512_last h c) = md_hash (sha512_block h) 128 sha512_iv (sha512_len h (length m)) m"
proof -
  note a = sha512_absorbed [OF g] and u = sha512_used_ok [OF g]
  let ?r = "length m mod 128" and ?d = "s5_data c" and ?lb = "sha512_len h (length m)" and ?st = "s5_state c"
  have l: "length ?d = 128" using a by (simp add: absorbed_def)
  have lb: "length ?lb = 16" "write_be64 h (s5_bitlen1 c) @ write_be64 h (s5_bitlen0 c) = ?lb"
    using g by (simp_all add: sha512_len_def sha512_given_def)
  have put_lb: "mem_put (mem_put x 112 (write_be64 h (s5_bitlen1 c))) 120 (write_be64 h (s5_bitlen0 c)) = mem_put x 112 ?lb"
    if "length x = 128" for x
    using that unfolding lb(2) [symmetric] by (simp add: mem_put_def)
  consider "?r = 0" | "0 < ?r" "?r < 112" | "112 \<le> ?r" by linarith
  then show ?thesis
  proof cases
    case 1
    let ?x = "(mem_put ?d 0 (replicate 112 0))[0 := 0x80]"
    have x: "mem_put ?x 112 ?lb = 0x80 # replicate 111 0 @ ?lb"
    proof -
      have "(replicate 112 0 :: bytes)[0 := 0x80] = 0x80 # replicate 111 0" by (simp add: numeral_eq_Suc)
      with l lb(1) show ?thesis by (simp add: mem_put_def list_update_append)
    qed
    have lx: "length ?x = 128" "length (0x80 # replicate 111 0 @ ?lb) = 128" using l lb(1) by simp_all
    have "s5_state (sha512_last h c) = sha512_block h ?st (mem_put ?x 112 ?lb)"
      using 1 lx unfolding sha512_last_def u Let_def sha512_transform_def SHA512_SHORT_BLOCK_LENGTH_def SHA512_KEY_BLOCK_def
      by (simp add: put_lb one_block x)
    then show ?thesis using finish_one [OF a, of ?lb] 1 lb(1) unfolding x by simp
  next
    case 2
    let ?x = "mem_put (?d[?r := 0x80]) (Suc ?r) (replicate (112 - Suc ?r) 0)"
    have x: "mem_put ?x 112 ?lb = take ?r ?d @ 0x80 # replicate (112 - Suc ?r) 0 @ ?lb"
      using pad_one [OF l, of ?r ?lb "0x80"] 2 lb(1) by simp
    have lx: "length ?x = 128" "length (mem_put ?x 112 ?lb) = 128" using l lb(1) 2 by simp_all
    have "s5_state (sha512_last h c) = sha512_block h ?st (mem_put ?x 112 ?lb)"
      using 2 lx unfolding sha512_last_def u Let_def sha512_transform_def SHA512_SHORT_BLOCK_LENGTH_def SHA512_KEY_BLOCK_def
      by (simp add: put_lb one_block x)
    then show ?thesis using finish_one [OF a, of ?lb] 2 lb(1) unfolding x by simp
  next
    case 3
    have r: "?r < 128" by simp
    let ?x = "take ?r ?d @ 0x80 # replicate (127 - ?r) 0"
    have x: "mem_put (?d[?r := 0x80]) (Suc ?r) (replicate (128 - Suc ?r) 0) = ?x"
      using pad_first [OF l r, of "128 - Suc ?r" "0x80"] r l by simp
    have x': "(if Suc ?r < 128 then mem_put (?d[?r := 0x80]) (Suc ?r) (replicate (128 - Suc ?r) 0) else ?d[?r := 0x80]) = ?x"
    proof (cases "Suc ?r < 128")
      case False
      then have "128 - Suc ?r = 0" using r by linarith
      with False x show ?thesis by (simp only: if_False replicate_0 mem_put_Nil)
    qed (simp only: x if_True)
    have lx: "length ?x = 128" using l r by simp
    have y: "mem_put (mem_put ?x 0 (replicate 112 0)) 112 ?lb = replicate 112 0 @ ?lb"
      using pad_zero [OF lx, of ?lb] lb(1) by simp
    have ly: "length (mem_put ?x 0 (replicate 112 0)) = 128" "length (replicate 112 0 @ ?lb) = 128" using lx lb(1) by simp_all
    have r': "0 < ?r" "\<not> Suc ?r \<le> 112" using 3 by simp_all
    have "s5_state (sha512_last h c) = sha512_block h (sha512_block h ?st ?x) (replicate 112 0 @ ?lb)"
      unfolding sha512_last_def u Let_def sha512_transform_def SHA512_SHORT_BLOCK_LENGTH_def SHA512_KEY_BLOCK_def
        if_P [OF r'(1)]
      using r' ly x' by (simp add: put_lb one_block one_block [OF lx] y)
    then show ?thesis using finish_two [OF a, of ?lb] 3 lb(1) by simp
  qed
qed

lemma length_sha512_hash: "length (md_hash (sha512_block h) 128 sha512_iv lb m) = 8"
proof -
  have "length (blocks_loop (sha512_block h) 128 n st d) = 8" if "length st = 8" for n st d
    using that by (induction n arbitrary: st d) (simp_all add: sha512_block_def Let_def split_beta)
  then show ?thesis by (simp add: md_hash_def sha512_iv_def Let_def)
qed

lemma length_words64: "length (concat (map (write_be64 h) ws)) = 8 * length ws"
  by (induction ws) auto

definition sha512_buf :: bytes where "sha512_buf = replicate 128 0"

interpretation sha512: digest_engine "sha512_init sha512_buf" "sha512_update h" "\<lambda>c. fst (sha512_final h c)"
  "sha512_given h" "sha512_spec h" "\<lambda>n. n < 2 ^ 61" 64 for h
proof
  fix c m d
  show "sha512_given h (sha512_init sha512_buf) []"
    by (simp add: sha512_given_def sha512_init_def absorbed_init sha512_buf_def)
  show "sha512_given h (sha512_update h c d) (m @ d)" if "sha512_given h c m" "length d < 2 ^ 61"
    by (rule sha512_update_given [OF that])
  show "fst (sha512_final h c) = sha512_spec h m" if "sha512_given h c m"
    by (simp add: sha512_final_def sha512_spec_def sha512_last_ok [OF that])
  show "length (sha512_spec h m) = 64" by (simp add: sha512_spec_def length_words64 length_sha512_hash)
qed

end
