(* ===== verification/Xxhash.thy ===== *)
theory Xxhash
  imports Hash_Ctx
begin

text \<open>
  Models the XXH32 and XXH64 engines of \<open>lib/crypt/xxhash.c\<close>, in one shot and in pieces; \<open>h\<close> is the
  byte order of the host, as in \<open>Byte_Order\<close>. A pointer into the input is the rest of the input.
\<close>

section \<open>Common parts\<close>

definition XXH_PRIME32_1 :: u32 where "XXH_PRIME32_1 = 0x9E3779B1"
definition XXH_PRIME32_2 :: u32 where "XXH_PRIME32_2 = 0x85EBCA77"
definition XXH_PRIME32_3 :: u32 where "XXH_PRIME32_3 = 0xC2B2AE3D"
definition XXH_PRIME32_4 :: u32 where "XXH_PRIME32_4 = 0x27D4EB2F"
definition XXH_PRIME32_5 :: u32 where "XXH_PRIME32_5 = 0x165667B1"
definition XXH_PRIME64_1 :: u64 where "XXH_PRIME64_1 = 0x9E3779B185EBCA87"
definition XXH_PRIME64_2 :: u64 where "XXH_PRIME64_2 = 0xC2B2AE3D27D4EB4F"
definition XXH_PRIME64_3 :: u64 where "XXH_PRIME64_3 = 0x165667B19E3779F9"
definition XXH_PRIME64_4 :: u64 where "XXH_PRIME64_4 = 0x85EBCA77C2B2AE63"
definition XXH_PRIME64_5 :: u64 where "XXH_PRIME64_5 = 0x27D4EB2F165667C5"

definition ROTL64 :: "u64 \<Rightarrow> nat \<Rightarrow> u64" where "ROTL64 x r = push_bit r x OR drop_bit (64 - r) x"

text \<open>
  The copies into the block buffer at offset \<open>o\<close>: two stores of fixed width that may overlap, both
  loads before the stores.
\<close>

definition xxh_copy15 :: "bytes \<Rightarrow> nat \<Rightarrow> bytes \<Rightarrow> nat \<Rightarrow> bytes" where
  "xxh_copy15 dst i src lens =
     (if 8 \<le> lens
      then (let a = mem_get src 0 8; b = mem_get src (lens - 8) 8
            in mem_put (mem_put dst i a) (i + lens - 8) b)
      else if 4 \<le> lens
      then (let x = mem_get src 0 4; y = mem_get src (lens - 4) 4
            in mem_put (mem_put dst i x) (i + lens - 4) y)
      else if 0 < lens
      then dst[i := src ! 0, i + lens div 2 := src ! (lens div 2), i + lens - 1 := src ! (lens - 1)]
      else dst)"

definition xxh_copy31 :: "bytes \<Rightarrow> nat \<Rightarrow> bytes \<Rightarrow> nat \<Rightarrow> bytes" where
  "xxh_copy31 dst i src lens =
     (if 16 \<le> lens
      then (let a = mem_get src 0 8; b = mem_get src 8 8; c = mem_get src (lens - 16) 8; d = mem_get src (lens - 8) 8
            in mem_put (mem_put (mem_put (mem_put dst i a) (i + 8) b) (i + lens - 16) c) (i + lens - 8) d)
      else xxh_copy15 dst i src lens)"

text \<open>Both are a \<open>memcpy\<close> of \<open>lens\<close> bytes.\<close>

lemma mem_put_two:
  assumes "w \<le> lens" "lens \<le> 2 * w" "lens \<le> length src" "i + lens \<le> length dst"
  shows "mem_put (mem_put dst i (mem_get src 0 w)) (i + lens - w) (mem_get src (lens - w) w) = mem_put dst i (take lens src)"
proof (rule nth_equalityI)
  let ?a = "mem_get src 0 w" and ?b = "mem_get src (lens - w) w"
  have l: "length ?a = w" "length ?b = w" using assms by (simp_all add: mem_get_def)
  show "length (mem_put (mem_put dst i ?a) (i + lens - w) ?b) = length (mem_put dst i (take lens src))"
    using l assms by simp
  fix k assume "k < length (mem_put (mem_put dst i ?a) (i + lens - w) ?b)"
  then have k: "k < length dst" using l assms by simp
  have b: "i + lens - w \<le> k \<Longrightarrow> k < i + lens \<Longrightarrow> lens - w + (k - (i + lens - w)) = k - i" using assms by linarith
  show "mem_put (mem_put dst i ?a) (i + lens - w) ?b ! k = mem_put dst i (take lens src) ! k"
    using k l assms b by (auto simp: nth_mem_put nth_mem_get)
qed

lemma mem_put_adjacent:
  "i + length a + length b \<le> length dst \<Longrightarrow> mem_put (mem_put dst i a) (i + length a) b = mem_put dst i (a @ b)"
  by (rule nth_equalityI) (auto simp: nth_mem_put nth_append)

lemma xxh_copy15_ok:
  assumes "lens < 16" "lens \<le> length src" "i + lens \<le> length dst"
  shows "xxh_copy15 dst i src lens = mem_put dst i (take lens src)"
proof -
  consider "8 \<le> lens" | "4 \<le> lens" "lens < 8" | "lens < 4" by linarith
  then show ?thesis
  proof cases
    case 1
    with mem_put_two [of 8 lens src i dst] assms show ?thesis by (simp add: xxh_copy15_def)
  next
    case 2
    with mem_put_two [of 4 lens src i dst] assms show ?thesis by (simp add: xxh_copy15_def)
  next
    case 3
    have half: "3 div 2 = (1 :: nat)" by simp
    from 3 consider "lens = 0" | "lens = 1" | "lens = 2" | "lens = 3" by linarith
    then show ?thesis
      by cases (use assms in \<open>auto simp: xxh_copy15_def half intro!: nth_equalityI simp: nth_list_update nth_mem_put less_Suc_eq
        simp del: div_Suc_eq_div_add3 simp flip: numeral_2_eq_2 numeral_3_eq_3\<close>)
  qed
qed

lemma xxh_copy31_ok:
  assumes "lens < 32" "lens \<le> length src" "i + lens \<le> length dst"
  shows "xxh_copy31 dst i src lens = mem_put dst i (take lens src)"
proof (cases "16 \<le> lens")
  case True
  have g: "mem_get src 0 8 @ mem_get src 8 8 = mem_get src 0 16"
    "mem_get src (lens - 16) 8 @ mem_get src (lens - 8) 8 = mem_get src (lens - 16) 16"
    using mem_get_append [of src 0 8 8] mem_get_append [of src "lens - 16" 8 8] True by simp_all
  have l: "length (mem_get src 0 8) = 8" "length (mem_get src 8 8) = 8" "length (mem_get src (lens - 16) 8) = 8"
    "length (mem_get src (lens - 8) 8) = 8" "length (mem_get src 0 16) = 16"
    using True assms by (simp_all add: mem_get_def)
  have "mem_put (mem_put dst i (mem_get src 0 8)) (i + 8) (mem_get src 8 8) = mem_put dst i (mem_get src 0 16)"
    using mem_put_adjacent [of i "mem_get src 0 8" "mem_get src 8 8" dst] l g True assms by simp
  moreover have "mem_put (mem_put x (i + lens - 16) (mem_get src (lens - 16) 8)) (i + lens - 8) (mem_get src (lens - 8) 8) =
      mem_put x (i + lens - 16) (mem_get src (lens - 16) 16)" if "length x = length dst" for x
    using mem_put_adjacent [of "i + lens - 16" "mem_get src (lens - 16) 8" "mem_get src (lens - 8) 8" x] l g True assms that by simp
  moreover have "length (mem_put dst i (mem_get src 0 16)) = length dst" using l True assms by simp
  ultimately show ?thesis using True mem_put_two [of 16 lens src i dst] assms by (simp add: xxh_copy31_def)
next
  case False
  with xxh_copy15_ok assms show ?thesis by (simp add: xxh_copy31_def)
qed

text \<open>
  The update of both engines from the test of the free space on: \<open>B\<close> is the size of the buffer,
  \<open>copy\<close> and \<open>consume\<close> are the engine's own.
\<close>

definition xxh_feed ::
  "nat \<Rightarrow> (bytes \<Rightarrow> nat \<Rightarrow> bytes \<Rightarrow> nat \<Rightarrow> bytes) \<Rightarrow> ('s \<Rightarrow> bytes \<Rightarrow> nat \<Rightarrow> 's \<times> bytes) \<Rightarrow>
   's \<Rightarrow> bytes \<Rightarrow> nat \<Rightarrow> bytes \<Rightarrow> 's \<times> bytes \<times> nat" where
  "xxh_feed B copy consume acc buf bufsize p =
     (if length p < B - bufsize then (acc, copy buf bufsize p (length p), bufsize + length p)
      else
        (let (acc, buf, bufsize, p) =
           (if bufsize \<noteq> 0
            then (let fill = B - bufsize; buf = copy buf bufsize p fill; (acc, _) = consume acc buf B
                  in (acc, buf, 0, drop fill p))
            else (acc, buf, bufsize, p));
             (acc, p) = (if B \<le> length p then consume acc p (length p) else (acc, p))
         in if 0 < length p then (acc, copy buf 0 p (length p), length p) else (acc, buf, bufsize)))"

lemma xxh_feed_ok:
  assumes a: "absorbed f B iv acc buf m" and r: "r = length m mod B"
    and copy: "\<And>dst i src n. n < B \<Longrightarrow> n \<le> length src \<Longrightarrow> i + n \<le> length dst \<Longrightarrow> copy dst i src n = mem_put dst i (take n src)"
    and con: "\<And>acc p n. consume acc p n = (blocks_loop f B (n div B) acc p, drop (n div B * B) p)"
    and e: "xxh_feed B copy consume acc buf r p = (acc', buf', r')"
  shows "absorbed f B iv acc' buf' (m @ p)" "r' = length (m @ p) mod B"
proof -
  have B: "0 < B" "r < B" "length buf = B" using a r by (simp_all add: absorbed_def)
  let ?d = "mem_put buf r (take (B - r) p)"
  obtain s1 d1 p1 r1 where e1: "(if 0 < r \<and> B - r \<le> length p
      then (blocks_loop f B 1 acc ?d, ?d, drop (B - r) p, 0) else (acc, buf, p, r)) = (s1, d1, p1, r1)" by (metis prod_cases4)
  obtain s2 p2 where e2: "(if B \<le> length p1
      then (blocks_loop f B (length p1 div B) s1 p1, drop (length p1 div B * B) p1) else (s1, p1)) = (s2, p2)"
    by (metis surj_pair)
  note st = absorb_stages [OF a r e1 e2]
  have "(acc', buf', r') = (s2, if 0 < length p2 then mem_put d1 r1 p2 else d1, r1 + length p2)"
  proof (cases "length p < B - r")
    case True
    then have "s1 = acc" "d1 = buf" "p1 = p" "r1 = r" "s2 = acc" "p2 = p" using e1 e2 by (auto split: if_splits)
    moreover have "copy buf r p (length p) = mem_put buf r p" using copy [of "length p" p r buf] True B by simp
    ultimately show ?thesis using True e by (auto simp: xxh_feed_def)
  next
    case False
    have r1: "r1 = 0" using e1 False by (auto split: if_splits)
    have "r \<noteq> 0 \<Longrightarrow> copy buf r p (B - r) = ?d" using copy [of "B - r" p r buf] False B by simp
    moreover have "B div B = 1" using B by simp
    ultimately have f1: "(if r \<noteq> 0
        then (let fill = B - r; buf = copy buf r p fill; (acc, _) = consume acc buf B in (acc, buf, 0, drop fill p))
        else (acc, buf, r, p)) = (s1, d1, r1, p1)"
      using e1 False by (auto simp: con Let_def split: if_splits)
    have f2: "(if B \<le> length p1 then consume s1 p1 (length p1) else (s1, p1)) = (s2, p2)" unfolding con by (rule e2)
    have l: "length d1 = B" using e1 a B False by (auto simp: absorbed_def split: if_splits)
    have "copy d1 0 p2 (length p2) = mem_put d1 0 p2" using copy [of "length p2" p2 0 d1] st(3) l by simp
    with e show ?thesis unfolding xxh_feed_def if_not_P [OF False] Let_def f1 [unfolded Let_def] prod.case f2 r1 by auto
  qed
  with st show "absorbed f B iv acc' buf' (m @ p)" "r' = length (m @ p) mod B" by auto
qed

section \<open>XXH32\<close>

definition xxh32_round :: "u32 \<Rightarrow> u32 \<Rightarrow> u32" where
  "xxh32_round acc inp = (let acc = acc + inp * XXH_PRIME32_2; acc = rotl32 13 acc in acc * XXH_PRIME32_1)"

definition xxh32_avalanche :: "u32 \<Rightarrow> u32" where
  "xxh32_avalanche h =
     (let h = h XOR drop_bit 15 h; h = h * XXH_PRIME32_2; h = h XOR drop_bit 13 h; h = h * XXH_PRIME32_3
      in h XOR drop_bit 16 h)"

definition xxh32_init_acc :: "u32 \<Rightarrow> u32 list" where
  "xxh32_init_acc seed = [seed + XXH_PRIME32_1 + XXH_PRIME32_2, seed + XXH_PRIME32_2, seed, seed - XXH_PRIME32_1]"

text \<open>One stripe of 16 bytes, and the loop over \<open>lens / 16\<close> of them, with the pointer behind them.\<close>

definition xxh32_stripe :: "bool \<Rightarrow> u32 list \<Rightarrow> bytes \<Rightarrow> u32 list" where
  "xxh32_stripe h v p =
     [xxh32_round (v ! 0) (read_le32 h p), xxh32_round (v ! 1) (read_le32 h (drop 4 p)),
      xxh32_round (v ! 2) (read_le32 h (drop 8 p)), xxh32_round (v ! 3) (read_le32 h (drop 12 p))]"

definition xxh32_consume :: "bool \<Rightarrow> u32 list \<Rightarrow> bytes \<Rightarrow> nat \<Rightarrow> u32 list \<times> bytes" where
  "xxh32_consume h acc p lens = (blocks_loop (xxh32_stripe h) 16 (lens div 16) acc p, drop (lens div 16 * 16) p)"

definition xxh32_merge :: "u32 list \<Rightarrow> u32" where
  "xxh32_merge acc = rotl32 1 (acc ! 0) + rotl32 7 (acc ! 1) + rotl32 12 (acc ! 2) + rotl32 18 (acc ! 3)"

fun xxh32_words :: "bool \<Rightarrow> u32 \<Rightarrow> bytes \<Rightarrow> nat \<Rightarrow> u32 \<times> bytes \<times> nat" where
  "xxh32_words h v p lens =
     (if 4 \<le> lens
      then (let v = v + read_le32 h p * XXH_PRIME32_3; v = rotl32 17 v * XXH_PRIME32_4
            in xxh32_words h v (drop 4 p) (lens - 4))
      else (v, p, lens))"

fun xxh32_bytes :: "u32 \<Rightarrow> bytes \<Rightarrow> nat \<Rightarrow> u32" where
  "xxh32_bytes v p 0 = v"
| "xxh32_bytes v p (Suc lens) =
     (let v = v + ucast (p ! 0) * XXH_PRIME32_5; v = rotl32 11 v * XXH_PRIME32_1 in xxh32_bytes v (drop 1 p) lens)"

definition xxh32_finalize :: "bool \<Rightarrow> u32 \<Rightarrow> bytes \<Rightarrow> nat \<Rightarrow> u32" where
  "xxh32_finalize h v p lens =
     (let (v, p, lens) = xxh32_words h v p (lens mod 16) in xxh32_avalanche (xxh32_bytes v p lens))"

definition xxh32 :: "bool \<Rightarrow> bytes \<Rightarrow> u32 \<Rightarrow> u32" where
  "xxh32 h data seed =
     (let lens = length data;
          (v, p) = (if 16 \<le> lens
                    then (let (acc, p) = xxh32_consume h (xxh32_init_acc seed) data lens in (xxh32_merge acc, p))
                    else (seed + XXH_PRIME32_5, data))
      in xxh32_finalize h (v + of_nat lens) p lens)"

record xxh32_ctx =
  x32_buf :: bytes
  x32_bufsize :: nat
  x32_total :: u32
  x32_large :: bool
  x32_acc :: "u32 list"

definition xxh32_init :: "u32 \<Rightarrow> xxh32_ctx" where
  "xxh32_init seed = \<lparr>x32_buf = replicate 16 0, x32_bufsize = 0, x32_total = 0, x32_large = False, x32_acc = xxh32_init_acc seed\<rparr>"

text \<open>The flags are kept as the truth values the code tests them for; \<open>bufsize\<close> stays below 16.\<close>

definition xxh32_update :: "bool \<Rightarrow> xxh32_ctx \<Rightarrow> bytes \<Rightarrow> xxh32_ctx" where
  "xxh32_update h c p =
     (if length p = 0 then c
      else
        (let c = c\<lparr>x32_total := x32_total c + of_nat (length p)\<rparr>;
             c = c\<lparr>x32_large := (x32_large c \<or> 16 \<le> length p \<or> 16 \<le> x32_total c)\<rparr>;
             (acc, buf, bufsize) = xxh_feed 16 xxh_copy15 (xxh32_consume h) (x32_acc c) (x32_buf c) (x32_bufsize c) p
         in c\<lparr>x32_acc := acc, x32_buf := buf, x32_bufsize := bufsize\<rparr>))"

definition xxh32_digest :: "bool \<Rightarrow> xxh32_ctx \<Rightarrow> u32" where
  "xxh32_digest h c =
     (let v = (if x32_large c then xxh32_merge (x32_acc c) else x32_acc c ! 2 + XXH_PRIME32_5)
      in xxh32_finalize h (v + x32_total c) (x32_buf c) (x32_bufsize c))"

declare xxh32_words.simps [simp del]

text \<open>The finish reads the last bytes of the input only.\<close>

lemma xxh32_words_take:
  "xxh32_words h v p n = (v', p', n') \<Longrightarrow> n \<le> length p \<Longrightarrow>
     \<exists>q. xxh32_words h v (take n p) n = (v', q, n') \<and> n' \<le> length p' \<and> q = take n' p' \<and> n' < 4"
proof (induction h v p n arbitrary: v' p' n' rule: xxh32_words.induct)
  case (1 h v p n)
  show ?case
  proof (cases "4 \<le> n")
    case True
    let ?v = "rotl32 17 (v + read_le32 h p * XXH_PRIME32_3) * XXH_PRIME32_4"
    have r: "read_le32 h (take n p) = read_le32 h p" using True by (simp add: read_le32_def)
    have "xxh32_words h ?v (drop 4 p) (n - 4) = (v', p', n')"
      using 1(2) True by (simp add: Let_def add: xxh32_words.simps [of h v p n])
    from 1(1) [OF True refl refl this] 1(3) obtain q where
      "xxh32_words h ?v (take (n - 4) (drop 4 p)) (n - 4) = (v', q, n')" "n' \<le> length p'" "q = take n' p'" "n' < 4" by auto
    moreover have "take (n - 4) (drop 4 p) = drop 4 (take n p)" by (simp add: drop_take)
    ultimately show ?thesis
      using True r by (simp add: Let_def add: xxh32_words.simps [of h v "take n p" n])
  next
    case False
    with 1(2,3) show ?thesis by (auto simp: xxh32_words.simps)
  qed
qed

lemma xxh32_bytes_take: "n \<le> length p \<Longrightarrow> xxh32_bytes v (take n p) n = xxh32_bytes v p n"
proof (induction n arbitrary: v p)
  case (Suc n)
  from Suc.IH [of "drop 1 p"] Suc.prems show ?case by (simp add: Let_def drop_take)
qed simp

lemma xxh32_finalize_take:
  assumes "n mod 16 \<le> length p" "n' mod 16 = n mod 16" "take (n mod 16) q = take (n mod 16) p" "n mod 16 \<le> length q"
  shows "xxh32_finalize h v p n = xxh32_finalize h v q n'"
proof -
  have part: "xxh32_finalize h v p n = xxh32_finalize h v (take (n mod 16) p) n" if "n mod 16 \<le> length p" for p
  proof -
    obtain v' p' k where w: "xxh32_words h v p (n mod 16) = (v', p', k)" by (metis prod_cases3)
    with xxh32_words_take [OF w that] xxh32_bytes_take show ?thesis
      by (auto simp: xxh32_finalize_def)
  qed
  have "xxh32_finalize h v q n' = xxh32_finalize h v q n" by (simp add: xxh32_finalize_def assms(2))
  then show ?thesis using part [OF assms(1)] part [OF assms(4)] assms(3) by simp
qed

text \<open>The context after a message.\<close>

definition xxh32_given :: "bool \<Rightarrow> u32 \<Rightarrow> xxh32_ctx \<Rightarrow> bytes \<Rightarrow> bool" where
  "xxh32_given h seed c m \<longleftrightarrow>
     absorbed (xxh32_stripe h) 16 (xxh32_init_acc seed) (x32_acc c) (x32_buf c) m \<and>
     x32_bufsize c = length m mod 16 \<and> x32_total c = of_nat (length m) \<and> (x32_large c \<longleftrightarrow> 16 \<le> length m)"

lemma xxh32_large:
  "(16 \<le> n \<or> 16 \<le> k \<or> 16 \<le> (of_nat (n + k) :: u32)) \<longleftrightarrow> 16 \<le> n + k"
proof -
  have u: "unat (of_nat (n + k) :: u32) = (n + k) mod 2 ^ 32" by (subst unat_of_nat) (simp add: take_bit_eq_mod)
  have "(n + k) mod 2 ^ 32 \<le> n + k" by (rule mod_less_eq_dividend)
  moreover have "(n + k) mod 2 ^ 32 = n + k" if "\<not> 16 \<le> n" "\<not> 16 \<le> k" by (rule mod_less) (use that in simp)
  moreover have "unat (16 :: u32) = 16" by simp
  ultimately show ?thesis unfolding word_le_nat_alt u by (metis le_add1 le_add2 le_trans)
qed

lemma xxh32_update_given:
  assumes g: "xxh32_given h seed c m"
  shows "xxh32_given h seed (xxh32_update h c p) (m @ p)"
proof (cases "p = []")
  case True
  with g show ?thesis by (simp add: xxh32_update_def)
next
  case False
  have a: "absorbed (xxh32_stripe h) 16 (xxh32_init_acc seed) (x32_acc c) (x32_buf c) m" and r: "x32_bufsize c = length m mod 16"
    and t: "x32_total c = of_nat (length m)" "x32_large c \<longleftrightarrow> 16 \<le> length m" using g by (simp_all add: xxh32_given_def)
  obtain acc buf k where e: "xxh_feed 16 xxh_copy15 (xxh32_consume h) (x32_acc c) (x32_buf c) (x32_bufsize c) p = (acc, buf, k)"
    by (metis prod_cases3)
  have "absorbed (xxh32_stripe h) 16 (xxh32_init_acc seed) acc buf (m @ p)" "k = length (m @ p) mod 16"
    by (rule xxh_feed_ok [OF a r _ _ e]; simp add: xxh_copy15_ok xxh32_consume_def)+
  with False e t xxh32_large [of "length m" "length p"] show ?thesis
    by (simp add: xxh32_update_def xxh32_given_def Let_def)
qed

lemma init_acc_2: "xxh32_init_acc seed ! 2 = seed"
  by (simp add: xxh32_init_acc_def)

lemma xxh32_digest_ok:
  assumes g: "xxh32_given h seed c m"
  shows "xxh32_digest h c = xxh32 h m seed"
proof -
  let ?n = "length m" and ?f = "xxh32_stripe h" and ?iv = "xxh32_init_acc seed"
  have acc: "x32_acc c = blocks_loop ?f 16 (?n div 16) ?iv m" and l: "length (x32_buf c) = 16"
    and b: "take (?n mod 16) (x32_buf c) = drop (?n div 16 * 16) m" using g by (simp_all add: xxh32_given_def absorbed_def mult.commute)
  have rest: "length (drop (?n div 16 * 16) m) = ?n mod 16" by (simp add: minus_div_mult_eq_mod)
  have fin: "xxh32_finalize h v (drop (?n div 16 * 16) m) ?n = xxh32_finalize h v (x32_buf c) (?n mod 16)" for v
    by (rule xxh32_finalize_take) (use rest b l in \<open>simp_all del: length_drop\<close>)
  show ?thesis
  proof (cases "16 \<le> ?n")
    case True
    with g fin acc show ?thesis by (simp add: xxh32_digest_def xxh32_def xxh32_given_def xxh32_consume_def Let_def)
  next
    case False
    then have "?n div 16 = 0" "x32_acc c ! 2 = seed" using acc by (simp_all add: init_acc_2)
    with g fin False show ?thesis by (simp add: xxh32_digest_def xxh32_def xxh32_given_def Let_def)
  qed
qed

interpretation xxh32: digest_engine "xxh32_init seed" "xxh32_update h" "\<lambda>c. write_be32 h (xxh32_digest h c)"
  "xxh32_given h seed" "\<lambda>m. write_be32 h (xxh32 h m seed)" "\<lambda>_. True" 4 for h seed
proof
  fix c m d
  show "xxh32_given h seed (xxh32_init seed) []"
    by (simp add: xxh32_given_def xxh32_init_def absorbed_init)
  show "xxh32_given h seed (xxh32_update h c d) (m @ d)" if "xxh32_given h seed c m" by (rule xxh32_update_given [OF that])
  show "write_be32 h (xxh32_digest h c) = write_be32 h (xxh32 h m seed)" if "xxh32_given h seed c m"
    using xxh32_digest_ok [OF that] by simp
qed simp

section \<open>XXH64\<close>

definition xxh64_round :: "u64 \<Rightarrow> u64 \<Rightarrow> u64" where
  "xxh64_round acc inp = (let acc = acc + inp * XXH_PRIME64_2; acc = ROTL64 acc 31 in acc * XXH_PRIME64_1)"

definition xxh64_merge_round :: "u64 \<Rightarrow> u64 \<Rightarrow> u64" where
  "xxh64_merge_round acc val = (let acc = acc XOR xxh64_round 0 val in acc * XXH_PRIME64_1 + XXH_PRIME64_4)"

definition xxh64_avalanche :: "u64 \<Rightarrow> u64" where
  "xxh64_avalanche h =
     (let h = h XOR drop_bit 33 h; h = h * XXH_PRIME64_2; h = h XOR drop_bit 29 h; h = h * XXH_PRIME64_3
      in h XOR drop_bit 32 h)"

definition xxh64_init_acc :: "u64 \<Rightarrow> u64 list" where
  "xxh64_init_acc seed = [seed + XXH_PRIME64_1 + XXH_PRIME64_2, seed + XXH_PRIME64_2, seed, seed - XXH_PRIME64_1]"

definition xxh64_stripe :: "bool \<Rightarrow> u64 list \<Rightarrow> bytes \<Rightarrow> u64 list" where
  "xxh64_stripe h v p =
     [xxh64_round (v ! 0) (read_le64 h p), xxh64_round (v ! 1) (read_le64 h (drop 8 p)),
      xxh64_round (v ! 2) (read_le64 h (drop 16 p)), xxh64_round (v ! 3) (read_le64 h (drop 24 p))]"

definition xxh64_consume :: "bool \<Rightarrow> u64 list \<Rightarrow> bytes \<Rightarrow> nat \<Rightarrow> u64 list \<times> bytes" where
  "xxh64_consume h acc p lens = (blocks_loop (xxh64_stripe h) 32 (lens div 32) acc p, drop (lens div 32 * 32) p)"

definition xxh64_merge :: "u64 list \<Rightarrow> u64" where
  "xxh64_merge acc =
     (let h = ROTL64 (acc ! 0) 1 + ROTL64 (acc ! 1) 7 + ROTL64 (acc ! 2) 12 + ROTL64 (acc ! 3) 18;
          h = xxh64_merge_round h (acc ! 0);
          h = xxh64_merge_round h (acc ! 1);
          h = xxh64_merge_round h (acc ! 2)
      in xxh64_merge_round h (acc ! 3))"

fun xxh64_words :: "bool \<Rightarrow> u64 \<Rightarrow> bytes \<Rightarrow> nat \<Rightarrow> u64 \<times> bytes \<times> nat" where
  "xxh64_words h v p lens =
     (if 8 \<le> lens
      then (let v = v XOR xxh64_round 0 (read_le64 h p); v = ROTL64 v 27 * XXH_PRIME64_1 + XXH_PRIME64_4
            in xxh64_words h v (drop 8 p) (lens - 8))
      else (v, p, lens))"

declare xxh64_words.simps [simp del]

fun xxh64_bytes :: "u64 \<Rightarrow> bytes \<Rightarrow> nat \<Rightarrow> u64" where
  "xxh64_bytes v p 0 = v"
| "xxh64_bytes v p (Suc lens) =
     (let v = v XOR ucast (p ! 0) * XXH_PRIME64_5; v = ROTL64 v 11 * XXH_PRIME64_1 in xxh64_bytes v (drop 1 p) lens)"

definition xxh64_finalize :: "bool \<Rightarrow> u64 \<Rightarrow> bytes \<Rightarrow> nat \<Rightarrow> u64" where
  "xxh64_finalize h v p lens =
     (let (v, p, lens) = xxh64_words h v p (lens mod 32);
          (v, p, lens) =
            (if 4 \<le> lens
             then (let v = v XOR ucast (read_le32 h p) * XXH_PRIME64_1
                   in (ROTL64 v 23 * XXH_PRIME64_2 + XXH_PRIME64_3, drop 4 p, lens - 4))
             else (v, p, lens))
      in xxh64_avalanche (xxh64_bytes v p lens))"

definition xxh64 :: "bool \<Rightarrow> bytes \<Rightarrow> u64 \<Rightarrow> u64" where
  "xxh64 h data seed =
     (let lens = length data;
          (v, p) = (if 32 \<le> lens
                    then (let (acc, p) = xxh64_consume h (xxh64_init_acc seed) data lens in (xxh64_merge acc, p))
                    else (seed + XXH_PRIME64_5, data))
      in xxh64_finalize h (v + of_nat lens) p lens)"

record xxh64_ctx =
  x64_buf :: bytes
  x64_bufsize :: nat
  x64_total :: u64
  x64_acc :: "u64 list"

definition xxh64_init :: "u64 \<Rightarrow> xxh64_ctx" where
  "xxh64_init seed = \<lparr>x64_buf = replicate 32 0, x64_bufsize = 0, x64_total = 0, x64_acc = xxh64_init_acc seed\<rparr>"

definition xxh64_update :: "bool \<Rightarrow> xxh64_ctx \<Rightarrow> bytes \<Rightarrow> xxh64_ctx" where
  "xxh64_update h c p =
     (if length p = 0 then c
      else
        (let c = c\<lparr>x64_total := x64_total c + of_nat (length p)\<rparr>;
             (acc, buf, bufsize) = xxh_feed 32 xxh_copy31 (xxh64_consume h) (x64_acc c) (x64_buf c) (x64_bufsize c) p
         in c\<lparr>x64_acc := acc, x64_buf := buf, x64_bufsize := bufsize\<rparr>))"

definition xxh64_digest :: "bool \<Rightarrow> xxh64_ctx \<Rightarrow> u64" where
  "xxh64_digest h c =
     (let v = (if 32 \<le> x64_total c then xxh64_merge (x64_acc c) else x64_acc c ! 2 + XXH_PRIME64_5)
      in xxh64_finalize h (v + x64_total c) (x64_buf c) (x64_bufsize c))"

lemma xxh64_words_take:
  "xxh64_words h v p n = (v', p', n') \<Longrightarrow> n \<le> length p \<Longrightarrow>
     \<exists>q. xxh64_words h v (take n p) n = (v', q, n') \<and> n' \<le> length p' \<and> q = take n' p' \<and> n' < 8"
proof (induction h v p n arbitrary: v' p' n' rule: xxh64_words.induct)
  case (1 h v p n)
  show ?case
  proof (cases "8 \<le> n")
    case True
    let ?v = "ROTL64 (v XOR xxh64_round 0 (read_le64 h p)) 27 * XXH_PRIME64_1 + XXH_PRIME64_4"
    have r: "read_le64 h (take n p) = read_le64 h p" using True by (simp add: read_le64_def)
    have "xxh64_words h ?v (drop 8 p) (n - 8) = (v', p', n')"
      using 1(2) True by (simp add: Let_def xxh64_words.simps [of h v p n])
    from 1(1) [OF True refl refl this] 1(3) obtain q where
      "xxh64_words h ?v (take (n - 8) (drop 8 p)) (n - 8) = (v', q, n')" "n' \<le> length p'" "q = take n' p'" "n' < 8" by auto
    moreover have "take (n - 8) (drop 8 p) = drop 8 (take n p)" by (simp add: drop_take)
    ultimately show ?thesis
      using True r by (simp add: Let_def xxh64_words.simps [of h v "take n p" n])
  next
    case False
    with 1(2,3) show ?thesis by (auto simp: xxh64_words.simps)
  qed
qed

lemma xxh64_bytes_take: "n \<le> length p \<Longrightarrow> xxh64_bytes v (take n p) n = xxh64_bytes v p n"
proof (induction n arbitrary: v p)
  case (Suc n)
  from Suc.IH [of "drop 1 p"] Suc.prems show ?case by (simp add: Let_def drop_take)
qed simp

lemma xxh64_finalize_take:
  assumes "n mod 32 \<le> length p" "n' mod 32 = n mod 32" "take (n mod 32) q = take (n mod 32) p" "n mod 32 \<le> length q"
  shows "xxh64_finalize h v p n = xxh64_finalize h v q n'"
proof -
  have part: "xxh64_finalize h v p n = xxh64_finalize h v (take (n mod 32) p) n" if l: "n mod 32 \<le> length p" for p
  proof -
    obtain v' p' k where w: "xxh64_words h v p (n mod 32) = (v', p', k)" by (metis prod_cases3)
    from xxh64_words_take [OF w l] have
      w2: "xxh64_words h v (take (n mod 32) p) (n mod 32) = (v', take k p', k)" and k: "k \<le> length p'" by auto
    have "read_le32 h (take k p') = read_le32 h p'" if "4 \<le> k" using that by (simp add: read_le32_def)
    moreover have "xxh64_bytes x (drop 4 (take k p')) (k - 4) = xxh64_bytes x (drop 4 p') (k - 4)" for x
      using xxh64_bytes_take [of "k - 4" "drop 4 p'" x] k by (simp add: drop_take)
    ultimately show ?thesis using w w2 xxh64_bytes_take [OF k] by (simp add: xxh64_finalize_def Let_def)
  qed
  have "xxh64_finalize h v q n' = xxh64_finalize h v q n" by (simp add: xxh64_finalize_def assms(2))
  then show ?thesis using part [OF assms(1)] part [OF assms(4)] assms(3) by simp
qed

definition xxh64_given :: "bool \<Rightarrow> u64 \<Rightarrow> xxh64_ctx \<Rightarrow> bytes \<Rightarrow> bool" where
  "xxh64_given h seed c m \<longleftrightarrow>
     absorbed (xxh64_stripe h) 32 (xxh64_init_acc seed) (x64_acc c) (x64_buf c) m \<and>
     x64_bufsize c = length m mod 32 \<and> x64_total c = of_nat (length m)"

lemma xxh64_update_given:
  assumes g: "xxh64_given h seed c m"
  shows "xxh64_given h seed (xxh64_update h c p) (m @ p)"
proof (cases "p = []")
  case True
  with g show ?thesis by (simp add: xxh64_update_def)
next
  case False
  have a: "absorbed (xxh64_stripe h) 32 (xxh64_init_acc seed) (x64_acc c) (x64_buf c) m" and r: "x64_bufsize c = length m mod 32"
    and t: "x64_total c = of_nat (length m)" using g by (simp_all add: xxh64_given_def)
  obtain acc buf k where e: "xxh_feed 32 xxh_copy31 (xxh64_consume h) (x64_acc c) (x64_buf c) (x64_bufsize c) p = (acc, buf, k)"
    by (metis prod_cases3)
  have "absorbed (xxh64_stripe h) 32 (xxh64_init_acc seed) acc buf (m @ p)" "k = length (m @ p) mod 32"
    by (rule xxh_feed_ok [OF a r _ _ e]; simp add: xxh_copy31_ok xxh64_consume_def)+
  with False e t show ?thesis by (simp add: xxh64_update_def xxh64_given_def Let_def)
qed

text \<open>
  The streaming digest decides by the 64 bit count of the bytes, the one-shot function by the length of
  its argument; below \<open>2 ^ 64\<close> bytes they agree.
\<close>

definition xxh64_counted :: "bool \<Rightarrow> u64 \<Rightarrow> bytes \<Rightarrow> u64" where
  "xxh64_counted h seed m =
     (let n = length m; acc = blocks_loop (xxh64_stripe h) 32 (n div 32) (xxh64_init_acc seed) m;
          v = (if 32 \<le> (of_nat n :: u64) then xxh64_merge acc else acc ! 2 + XXH_PRIME64_5)
      in xxh64_finalize h (v + of_nat n) (drop (n div 32 * 32) m) n)"

lemma xxh64_counted_ok: "length m < 2 ^ 64 \<Longrightarrow> xxh64_counted h seed m = xxh64 h m seed"
proof -
  assume "length m < 2 ^ 64"
  then have "unat (of_nat (length m) :: u64) = length m" by (subst unat_of_nat) (simp add: take_bit_eq_mod)
  then have "32 \<le> (of_nat (length m) :: u64) \<longleftrightarrow> 32 \<le> length m" by (simp add: word_le_nat_alt)
  moreover have "length m div 32 = 0" if "\<not> 32 \<le> length m" using that by simp
  ultimately show ?thesis
    by (simp add: xxh64_counted_def xxh64_def xxh64_consume_def xxh64_init_acc_def Let_def)
qed

lemma xxh64_digest_counted:
  assumes g: "xxh64_given h seed c m"
  shows "xxh64_digest h c = xxh64_counted h seed m"
proof -
  let ?n = "length m" and ?f = "xxh64_stripe h" and ?iv = "xxh64_init_acc seed"
  have acc: "x64_acc c = blocks_loop ?f 32 (?n div 32) ?iv m" and l: "length (x64_buf c) = 32"
    and b: "take (?n mod 32) (x64_buf c) = drop (?n div 32 * 32) m" using g by (simp_all add: xxh64_given_def absorbed_def mult.commute)
  have rest: "length (drop (?n div 32 * 32) m) = ?n mod 32" by (simp add: minus_div_mult_eq_mod)
  have fin: "xxh64_finalize h v (drop (?n div 32 * 32) m) ?n = xxh64_finalize h v (x64_buf c) (?n mod 32)" for v
    by (rule xxh64_finalize_take) (use rest b l in \<open>simp_all del: length_drop\<close>)
  show ?thesis using g fin acc by (simp add: xxh64_digest_def xxh64_counted_def xxh64_given_def Let_def)
qed

interpretation xxh64: digest_engine "xxh64_init seed" "xxh64_update h" "\<lambda>c. write_be64 h (xxh64_digest h c)"
  "xxh64_given h seed" "\<lambda>m. write_be64 h (xxh64_counted h seed m)" "\<lambda>_. True" 8 for h seed
proof
  fix c m d
  show "xxh64_given h seed (xxh64_init seed) []"
    by (simp add: xxh64_given_def xxh64_init_def absorbed_init)
  show "xxh64_given h seed (xxh64_update h c d) (m @ d)" if "xxh64_given h seed c m" by (rule xxh64_update_given [OF that])
  show "write_be64 h (xxh64_digest h c) = write_be64 h (xxh64_counted h seed m)" if "xxh64_given h seed c m"
    using xxh64_digest_counted [OF that] by simp
qed simp

end
