(* ===== verification/Digest.thy ===== *)
theory Digest
  imports Md2 Md4 Sha512 Xxhash
begin

text \<open>
  Models \<open>lib/crypt/digest.c\<close>: the table of the eight digests and the operations that go through it. The
  union of the engines is a datatype with one constructor per member. An engine's \<open>init\<close> leaves the
  bytes of its block buffer as they are; \<open>eng_buf\<close> is what the union holds there, zeros standing for the
  bytes of another member. The enumeration is a number, because \<open>digest_init\<close> checks its range.
  Not modelled: \<open>eng_lens\<close>, the size of a member, which a copy of an engine here always respects.
\<close>

datatype engine =
    E_md2 md2_ctx | E_md4 md4_ctx | E_md5 hash_ctx | E_sha1 hash_ctx | E_sha256 hash_ctx | E_sha512 sha512_ctx
  | E_xxh32 xxh32_ctx | E_xxh64 xxh64_ctx

definition eng_buf :: "nat \<Rightarrow> engine \<Rightarrow> bytes" where
  "eng_buf n e = take n ((case e of
       E_md2 c \<Rightarrow> m2_data c | E_md4 c \<Rightarrow> m4_data c | E_md5 c \<Rightarrow> hc_data c | E_sha1 c \<Rightarrow> hc_data c
     | E_sha256 c \<Rightarrow> hc_data c | E_sha512 c \<Rightarrow> s5_data c | E_xxh32 c \<Rightarrow> x32_buf c | E_xxh64 c \<Rightarrow> x64_buf c) @ replicate n 0)"

section \<open>The wrappers\<close>

text \<open>
  \<open>DG_THUNK\<close> and \<open>DG_XXH_THUNK\<close>. The cast of the context is the case on the union's member; a table row
  is only ever called on its own member.
\<close>

definition dg_md2_init :: "engine \<Rightarrow> engine" where "dg_md2_init e = E_md2 (md2_init (eng_buf 16 e))"
definition dg_md4_init :: "engine \<Rightarrow> engine" where "dg_md4_init e = E_md4 (md4_init (eng_buf 64 e))"
definition dg_md5_init :: "engine \<Rightarrow> engine" where "dg_md5_init e = E_md5 (md5_init (eng_buf 64 e))"
definition dg_sha1_init :: "engine \<Rightarrow> engine" where "dg_sha1_init e = E_sha1 (sha1_init (eng_buf 64 e))"
definition dg_sha256_init :: "engine \<Rightarrow> engine" where "dg_sha256_init e = E_sha256 (sha256_init (eng_buf 64 e))"
definition dg_sha512_init :: "engine \<Rightarrow> engine" where "dg_sha512_init e = E_sha512 (sha512_init (eng_buf 128 e))"
definition dg_xxh32_init :: "engine \<Rightarrow> engine" where "dg_xxh32_init e = E_xxh32 (xxh32_init 0)"
definition dg_xxh64_init :: "engine \<Rightarrow> engine" where "dg_xxh64_init e = E_xxh64 (xxh64_init 0)"

definition dg_md2_update :: "bool \<Rightarrow> engine \<Rightarrow> bytes \<Rightarrow> engine" where
  "dg_md2_update h e d = (case e of E_md2 c \<Rightarrow> E_md2 (md2_update c d) | _ \<Rightarrow> e)"
definition dg_md2_final :: "bool \<Rightarrow> engine \<Rightarrow> bytes \<times> engine" where
  "dg_md2_final h e = (case e of E_md2 c \<Rightarrow> map_prod id E_md2 (md2_final c) | _ \<Rightarrow> ([], e))"

definition dg_md4_update :: "bool \<Rightarrow> engine \<Rightarrow> bytes \<Rightarrow> engine" where
  "dg_md4_update h e d = (case e of E_md4 c \<Rightarrow> E_md4 (md4_update h c d) | _ \<Rightarrow> e)"
definition dg_md4_final :: "bool \<Rightarrow> engine \<Rightarrow> bytes \<times> engine" where
  "dg_md4_final h e = (case e of E_md4 c \<Rightarrow> map_prod id E_md4 (md4_final h c) | _ \<Rightarrow> ([], e))"

definition dg_md5_update :: "bool \<Rightarrow> engine \<Rightarrow> bytes \<Rightarrow> engine" where
  "dg_md5_update h e d = (case e of E_md5 c \<Rightarrow> E_md5 (md5_update h c d) | _ \<Rightarrow> e)"
definition dg_md5_final :: "bool \<Rightarrow> engine \<Rightarrow> bytes \<times> engine" where
  "dg_md5_final h e = (case e of E_md5 c \<Rightarrow> map_prod id E_md5 (md5_final h c) | _ \<Rightarrow> ([], e))"

definition dg_sha1_update :: "bool \<Rightarrow> engine \<Rightarrow> bytes \<Rightarrow> engine" where
  "dg_sha1_update h e d = (case e of E_sha1 c \<Rightarrow> E_sha1 (sha1_update h c d) | _ \<Rightarrow> e)"
definition dg_sha1_final :: "bool \<Rightarrow> engine \<Rightarrow> bytes \<times> engine" where
  "dg_sha1_final h e = (case e of E_sha1 c \<Rightarrow> map_prod id E_sha1 (sha1_final h c) | _ \<Rightarrow> ([], e))"

definition dg_sha256_update :: "bool \<Rightarrow> engine \<Rightarrow> bytes \<Rightarrow> engine" where
  "dg_sha256_update h e d = (case e of E_sha256 c \<Rightarrow> E_sha256 (sha256_update h c d) | _ \<Rightarrow> e)"
definition dg_sha256_final :: "bool \<Rightarrow> engine \<Rightarrow> bytes \<times> engine" where
  "dg_sha256_final h e = (case e of E_sha256 c \<Rightarrow> map_prod id E_sha256 (sha256_final h c) | _ \<Rightarrow> ([], e))"

definition dg_sha512_update :: "bool \<Rightarrow> engine \<Rightarrow> bytes \<Rightarrow> engine" where
  "dg_sha512_update h e d = (case e of E_sha512 c \<Rightarrow> E_sha512 (sha512_update h c d) | _ \<Rightarrow> e)"
definition dg_sha512_final :: "bool \<Rightarrow> engine \<Rightarrow> bytes \<times> engine" where
  "dg_sha512_final h e = (case e of E_sha512 c \<Rightarrow> map_prod id E_sha512 (sha512_final h c) | _ \<Rightarrow> ([], e))"

definition dg_xxh32_update :: "bool \<Rightarrow> engine \<Rightarrow> bytes \<Rightarrow> engine" where
  "dg_xxh32_update h e d = (case e of E_xxh32 c \<Rightarrow> E_xxh32 (xxh32_update h c d) | _ \<Rightarrow> e)"
definition dg_xxh32_final :: "bool \<Rightarrow> engine \<Rightarrow> bytes \<times> engine" where
  "dg_xxh32_final h e = (case e of E_xxh32 c \<Rightarrow> (write_be32 h (xxh32_digest h c), e) | _ \<Rightarrow> ([], e))"

definition dg_xxh64_update :: "bool \<Rightarrow> engine \<Rightarrow> bytes \<Rightarrow> engine" where
  "dg_xxh64_update h e d = (case e of E_xxh64 c \<Rightarrow> E_xxh64 (xxh64_update h c d) | _ \<Rightarrow> e)"
definition dg_xxh64_final :: "bool \<Rightarrow> engine \<Rightarrow> bytes \<times> engine" where
  "dg_xxh64_final h e = (case e of E_xxh64 c \<Rightarrow> (write_be64 h (xxh64_digest h c), e) | _ \<Rightarrow> ([], e))"

text \<open>\<open>DG_STATE_THUNK\<close>: the chaining value in the byte order of the output.\<close>

definition dg_md4_state :: "bool \<Rightarrow> engine \<Rightarrow> bytes" where
  "dg_md4_state h e = (case e of E_md4 c \<Rightarrow> concat (map (write_le32 h) (m4_state c)) | _ \<Rightarrow> [])"
definition dg_md5_state :: "bool \<Rightarrow> engine \<Rightarrow> bytes" where
  "dg_md5_state h e = (case e of E_md5 c \<Rightarrow> concat (map (write_le32 h) (hc_state c)) | _ \<Rightarrow> [])"
definition dg_sha1_state :: "bool \<Rightarrow> engine \<Rightarrow> bytes" where
  "dg_sha1_state h e = (case e of E_sha1 c \<Rightarrow> concat (map (write_be32 h) (hc_state c)) | _ \<Rightarrow> [])"
definition dg_sha256_state :: "bool \<Rightarrow> engine \<Rightarrow> bytes" where
  "dg_sha256_state h e = (case e of E_sha256 c \<Rightarrow> concat (map (write_be32 h) (hc_state c)) | _ \<Rightarrow> [])"
definition dg_sha512_state :: "bool \<Rightarrow> engine \<Rightarrow> bytes" where
  "dg_sha512_state h e = (case e of E_sha512 c \<Rightarrow> concat (map (write_be64 h) (s5_state c)) | _ \<Rightarrow> [])"

lemmas dg_thunk_defs =
  dg_md2_init_def dg_md4_init_def dg_md5_init_def dg_sha1_init_def dg_sha256_init_def dg_sha512_init_def
  dg_xxh32_init_def dg_xxh64_init_def dg_md2_update_def dg_md4_update_def dg_md5_update_def dg_sha1_update_def
  dg_sha256_update_def dg_sha512_update_def dg_xxh32_update_def dg_xxh64_update_def dg_md2_final_def dg_md4_final_def
  dg_md5_final_def dg_sha1_final_def dg_sha256_final_def dg_sha512_final_def dg_xxh32_final_def dg_xxh64_final_def

section \<open>The table and the operations\<close>

record dg_attr =
  block_lens :: nat
  key_block :: nat
  dg_init :: "engine \<Rightarrow> engine"
  dg_update :: "engine \<Rightarrow> bytes \<Rightarrow> engine"
  dg_final :: "engine \<Rightarrow> bytes \<times> engine"
  dg_state :: "(engine \<Rightarrow> bytes) option"
  islittle :: bool

definition DG_MD2 :: nat where "DG_MD2 = 1"
definition DG_MD4 :: nat where "DG_MD4 = 2"
definition DG_MD5 :: nat where "DG_MD5 = 3"
definition DG_SHA1 :: nat where "DG_SHA1 = 4"
definition DG_SHA256 :: nat where "DG_SHA256 = 5"
definition DG_SHA512 :: nat where "DG_SHA512 = 6"
definition DG_XXH32 :: nat where "DG_XXH32 = 7"
definition DG_XXH64 :: nat where "DG_XXH64 = 8"

definition dg_row_md2 :: "bool \<Rightarrow> dg_attr" where
  "dg_row_md2 h = \<lparr>block_lens = MD2_BLOCK_SIZE, key_block = MD2_KEY_BLOCK, dg_init = dg_md2_init, dg_update = dg_md2_update h,
     dg_final = dg_md2_final h, dg_state = None, islittle = False\<rparr>"
definition dg_row_md4 :: "bool \<Rightarrow> dg_attr" where
  "dg_row_md4 h = \<lparr>block_lens = 16, key_block = 64, dg_init = dg_md4_init, dg_update = dg_md4_update h,
     dg_final = dg_md4_final h, dg_state = Some (dg_md4_state h), islittle = True\<rparr>"
definition dg_row_md5 :: "bool \<Rightarrow> dg_attr" where
  "dg_row_md5 h = \<lparr>block_lens = 16, key_block = 64, dg_init = dg_md5_init, dg_update = dg_md5_update h,
     dg_final = dg_md5_final h, dg_state = Some (dg_md5_state h), islittle = True\<rparr>"
definition dg_row_sha1 :: "bool \<Rightarrow> dg_attr" where
  "dg_row_sha1 h = \<lparr>block_lens = 20, key_block = 64, dg_init = dg_sha1_init, dg_update = dg_sha1_update h,
     dg_final = dg_sha1_final h, dg_state = Some (dg_sha1_state h), islittle = False\<rparr>"
definition dg_row_sha256 :: "bool \<Rightarrow> dg_attr" where
  "dg_row_sha256 h = \<lparr>block_lens = 32, key_block = 64, dg_init = dg_sha256_init, dg_update = dg_sha256_update h,
     dg_final = dg_sha256_final h, dg_state = Some (dg_sha256_state h), islittle = False\<rparr>"
definition dg_row_sha512 :: "bool \<Rightarrow> dg_attr" where
  "dg_row_sha512 h = \<lparr>block_lens = 64, key_block = SHA512_KEY_BLOCK, dg_init = dg_sha512_init, dg_update = dg_sha512_update h,
     dg_final = dg_sha512_final h, dg_state = Some (dg_sha512_state h), islittle = False\<rparr>"
definition dg_row_xxh32 :: "bool \<Rightarrow> dg_attr" where
  "dg_row_xxh32 h = \<lparr>block_lens = 4, key_block = 0, dg_init = dg_xxh32_init, dg_update = dg_xxh32_update h,
     dg_final = dg_xxh32_final h, dg_state = None, islittle = False\<rparr>"
definition dg_row_xxh64 :: "bool \<Rightarrow> dg_attr" where
  "dg_row_xxh64 h = \<lparr>block_lens = 8, key_block = 0, dg_init = dg_xxh64_init, dg_update = dg_xxh64_update h,
     dg_final = dg_xxh64_final h, dg_state = None, islittle = False\<rparr>"

text \<open>The row below \<open>DG_MD2\<close> is the one the table does not fill.\<close>

definition dg_tbl :: "bool \<Rightarrow> dg_attr option list" where
  "dg_tbl h =
    [None, Some (dg_row_md2 h), Some (dg_row_md4 h), Some (dg_row_md5 h), Some (dg_row_sha1 h), Some (dg_row_sha256 h),
     Some (dg_row_sha512 h), Some (dg_row_xxh32 h), Some (dg_row_xxh64 h)]"

lemmas dg_row_defs = dg_row_md2_def dg_row_md4_def dg_row_md5_def dg_row_sha1_def dg_row_sha256_def dg_row_sha512_def
  dg_row_xxh32_def dg_row_xxh64_def

record digest_ctx =
  d_attr :: dg_attr
  d_eng :: engine

definition digest_reset :: "digest_ctx \<Rightarrow> digest_ctx" where
  "digest_reset digest = digest\<lparr>d_eng := dg_init (d_attr digest) (d_eng digest)\<rparr>"

text \<open>\<open>e\<close> is what the memory of the context held before.\<close>

definition digest_init :: "bool \<Rightarrow> engine \<Rightarrow> nat \<Rightarrow> digest_ctx option" where
  "digest_init h e dtype =
     assertab (dtype < length (dg_tbl h) \<and> dg_tbl h ! dtype \<noteq> None)
       (Some (digest_reset \<lparr>d_attr = the (dg_tbl h ! dtype), d_eng = e\<rparr>))"

definition digest_size :: "digest_ctx \<Rightarrow> nat" where
  "digest_size digest = block_lens (d_attr digest)"

definition digest_update :: "digest_ctx \<Rightarrow> bytes \<Rightarrow> digest_ctx" where
  "digest_update digest data = digest\<lparr>d_eng := dg_update (d_attr digest) (d_eng digest) data\<rparr>"

text \<open>The hash written, and the context; the length returned is \<open>digest_size\<close>.\<close>

definition digest_final :: "digest_ctx \<Rightarrow> bytes \<times> digest_ctx" where
  "digest_final digest =
     (let (hash, e) = dg_final (d_attr digest) (d_eng digest) in (hash, digest_reset (digest\<lparr>d_eng := e\<rparr>)))"

section \<open>Correctness\<close>

text \<open>The digest of a message by each algorithm, and the engines that have been given a message.\<close>

definition dg_spec :: "bool \<Rightarrow> nat \<Rightarrow> bytes \<Rightarrow> bytes" where
  "dg_spec h t m =
     [[], md2_spec m, md4_spec h m, md5_spec h m, sha1_spec h m, sha256_spec h m, sha512_spec h m,
      write_be32 h (xxh32 h m 0), write_be64 h (xxh64_counted h 0 m)] ! t"

definition eng_given :: "bool \<Rightarrow> nat \<Rightarrow> engine \<Rightarrow> bytes \<Rightarrow> bool" where
  "eng_given h t e m \<longleftrightarrow> (case e of
     E_md2 c \<Rightarrow> t = DG_MD2 \<and> md2_given c m
   | E_md4 c \<Rightarrow> t = DG_MD4 \<and> md4_given h c m
   | E_md5 c \<Rightarrow> t = DG_MD5 \<and> ctx_given (md5_block h) md5_iv c m
   | E_sha1 c \<Rightarrow> t = DG_SHA1 \<and> ctx_given (sha1_block h) sha1_iv c m
   | E_sha256 c \<Rightarrow> t = DG_SHA256 \<and> ctx_given (sha256_block h) sha256_iv c m
   | E_sha512 c \<Rightarrow> t = DG_SHA512 \<and> sha512_given h c m
   | E_xxh32 c \<Rightarrow> t = DG_XXH32 \<and> xxh32_given h 0 c m
   | E_xxh64 c \<Rightarrow> t = DG_XXH64 \<and> xxh64_given h 0 c m)"

lemmas dg_consts = DG_MD2_def DG_MD4_def DG_MD5_def DG_SHA1_def DG_SHA256_def DG_SHA512_def DG_XXH32_def DG_XXH64_def

lemma length_eng_buf [simp]: "length (eng_buf n e) = n"
  by (simp add: eng_buf_def)

text \<open>A row of the table.\<close>

lemma dg_cases:
  assumes "t < length (dg_tbl h)" "dg_tbl h ! t = Some a"
  obtains "t = DG_MD2" "a = dg_row_md2 h" | "t = DG_MD4" "a = dg_row_md4 h" | "t = DG_MD5" "a = dg_row_md5 h"
    | "t = DG_SHA1" "a = dg_row_sha1 h" | "t = DG_SHA256" "a = dg_row_sha256 h" | "t = DG_SHA512" "a = dg_row_sha512 h"
    | "t = DG_XXH32" "a = dg_row_xxh32 h" | "t = DG_XXH64" "a = dg_row_xxh64 h"
proof -
  have "t \<noteq> 0" using assms(2) by (cases t) (simp_all add: dg_tbl_def)
  moreover have "t < 9" using assms(1) by (simp add: dg_tbl_def)
  ultimately consider "t = 1" | "t = 2" | "t = 3" | "t = 4" | "t = 5" | "t = 6" | "t = 7" | "t = 8" by linarith
  then show thesis
    using assms(2) that by cases (simp_all add: dg_tbl_def dg_consts)
qed

text \<open>The given message of each engine, and the three operations of each row.\<close>

lemma eng_given_E:
  "eng_given h DG_MD2 e m \<longleftrightarrow> (\<exists>c. e = E_md2 c \<and> md2_given c m)"
  "eng_given h DG_MD4 e m \<longleftrightarrow> (\<exists>c. e = E_md4 c \<and> md4_given h c m)"
  "eng_given h DG_MD5 e m \<longleftrightarrow> (\<exists>c. e = E_md5 c \<and> ctx_given (md5_block h) md5_iv c m)"
  "eng_given h DG_SHA1 e m \<longleftrightarrow> (\<exists>c. e = E_sha1 c \<and> ctx_given (sha1_block h) sha1_iv c m)"
  "eng_given h DG_SHA256 e m \<longleftrightarrow> (\<exists>c. e = E_sha256 c \<and> ctx_given (sha256_block h) sha256_iv c m)"
  "eng_given h DG_SHA512 e m \<longleftrightarrow> (\<exists>c. e = E_sha512 c \<and> sha512_given h c m)"
  "eng_given h DG_XXH32 e m \<longleftrightarrow> (\<exists>c. e = E_xxh32 c \<and> xxh32_given h 0 c m)"
  "eng_given h DG_XXH64 e m \<longleftrightarrow> (\<exists>c. e = E_xxh64 c \<and> xxh64_given h 0 c m)"
  by (cases e; simp add: eng_given_def dg_consts)+

lemma eng_given_init:
  assumes "t < length (dg_tbl h)" "dg_tbl h ! t = Some a"
  shows "eng_given h t (dg_init a e) []"
  by (cases rule: dg_cases [OF assms];
    simp add: dg_row_defs dg_thunk_defs eng_given_E absorbed_init md2_given_def md2_init_def md4_given_def
      md4_init_def ctx_given_def md5_init_def sha1_init_def sha256_init_def sha512_given_def sha512_init_def
      xxh32.given_init xxh64.given_init)

lemma eng_given_update:
  assumes "t < length (dg_tbl h)" "dg_tbl h ! t = Some a" "eng_given h t e m" "length d < 2 ^ 61"
  shows "eng_given h t (dg_update a e d) (m @ d)"
  using assms(3,4)
  by (cases rule: dg_cases [OF assms(1,2)];
    auto simp: dg_row_defs dg_thunk_defs eng_given_E md2.given_update md4.given_update md5.given_update
      sha1.given_update sha256.given_update sha512.given_update xxh32.given_update xxh64.given_update)

lemma dg_spec_simps:
  "dg_spec h DG_MD2 m = md2_spec m" "dg_spec h DG_MD4 m = md4_spec h m" "dg_spec h DG_MD5 m = md5_spec h m"
  "dg_spec h DG_SHA1 m = sha1_spec h m" "dg_spec h DG_SHA256 m = sha256_spec h m" "dg_spec h DG_SHA512 m = sha512_spec h m"
  "dg_spec h DG_XXH32 m = write_be32 h (xxh32 h m 0)" "dg_spec h DG_XXH64 m = write_be64 h (xxh64_counted h 0 m)"
  by (simp_all add: dg_spec_def dg_consts)

lemma eng_final:
  assumes "t < length (dg_tbl h)" "dg_tbl h ! t = Some a" "eng_given h t e m"
  shows "fst (dg_final a e) = dg_spec h t m"
  using assms(3)
  by (cases rule: dg_cases [OF assms(1,2)];
    auto simp: dg_row_defs dg_thunk_defs eng_given_E dg_spec_simps md2.given_final md4.given_final md5.given_final
      sha1.given_final sha256.given_final sha512.given_final xxh32.given_final xxh64.given_final)

lemma dg_spec_length:
  assumes "t < length (dg_tbl h)" "dg_tbl h ! t = Some a"
  shows "length (dg_spec h t m) = block_lens a"
  by (cases rule: dg_cases [OF assms];
    simp add: dg_row_defs dg_spec_simps md2.spec_length md4.spec_length md5.spec_length sha1.spec_length
      sha256.spec_length sha512.spec_length MD2_BLOCK_SIZE_def)

section \<open>Contexts\<close>

definition digest_given :: "bool \<Rightarrow> nat \<Rightarrow> digest_ctx \<Rightarrow> bytes \<Rightarrow> bool" where
  "digest_given h t d m \<longleftrightarrow> t < length (dg_tbl h) \<and> dg_tbl h ! t = Some (d_attr d) \<and> eng_given h t (d_eng d) m"

lemma digest_init_Some:
  "digest_init h e t = Some d \<Longrightarrow> digest_given h t d []"
  using eng_given_init [of t h _ e] by (auto simp: digest_init_def digest_reset_def digest_given_def)

lemma dg_tbl_row: "length (dg_tbl h) = 9" "t < 9 \<Longrightarrow> dg_tbl h ! t = None \<longleftrightarrow> t = 0"
proof -
  show "length (dg_tbl h) = 9" by (simp add: dg_tbl_def)
  assume "t < 9"
  then consider "t = 0" | "t = 1" | "t = 2" | "t = 3" | "t = 4" | "t = 5" | "t = 6" | "t = 7" | "t = 8" by linarith
  then show "dg_tbl h ! t = None \<longleftrightarrow> t = 0" by cases (simp_all add: dg_tbl_def)
qed

lemma digest_init_abort: "digest_init h e t = None \<longleftrightarrow> t = 0 \<or> DG_XXH64 < t"
  using dg_tbl_row(2) [of t h] by (auto simp: digest_init_def assertab_def dg_tbl_row(1) dg_consts)

lemma digest_update_given:
  "digest_given h t d m \<Longrightarrow> length p < 2 ^ 61 \<Longrightarrow> digest_given h t (digest_update d p) (m @ p)"
  using eng_given_update by (auto simp: digest_given_def digest_update_def)

lemma digest_updates_given:
  "digest_given h t d m \<Longrightarrow> \<forall>p\<in>set ds. length p < 2 ^ 61 \<Longrightarrow> digest_given h t (foldl digest_update d ds) (m @ concat ds)"
proof (induction ds arbitrary: d m)
  case (Cons p ds)
  from Cons.IH [OF digest_update_given [OF Cons.prems(1)]] Cons.prems(2) show ?case by simp
qed simp

lemma digest_reset_given: "digest_given h t d m \<Longrightarrow> digest_given h t (digest_reset d) []"
  using eng_given_init by (auto simp: digest_given_def digest_reset_def)

lemma digest_final_given:
  assumes "digest_given h t d m"
  shows "fst (digest_final d) = dg_spec h t m" "digest_given h t (snd (digest_final d)) []"
    "d_attr (snd (digest_final d)) = d_attr d"
  using assms eng_final eng_given_init
  by (auto simp: digest_final_def digest_given_def digest_reset_def split_beta)

lemma digest_size_given: "digest_given h t d m \<Longrightarrow> length (dg_spec h t x) = digest_size d"
  using dg_spec_length by (auto simp: digest_given_def digest_size_def)

text \<open>One context used for message after message, each given in pieces.\<close>

fun digest_messages :: "digest_ctx \<Rightarrow> bytes list list \<Rightarrow> bytes list" where
  "digest_messages d [] = []"
| "digest_messages d (ds # ms) = (let (hash, d) = digest_final (foldl digest_update d ds) in hash # digest_messages d ms)"

lemma digest_messages_given:
  "digest_given h t d [] \<Longrightarrow> \<forall>ds\<in>set ms. \<forall>p\<in>set ds. length p < 2 ^ 61 \<Longrightarrow>
     digest_messages d ms = map (\<lambda>ds. dg_spec h t (concat ds)) ms"
proof (induction ms arbitrary: d)
  case (Cons ds ms)
  have "digest_given h t (foldl digest_update d ds) (concat ds)"
    using digest_updates_given [OF Cons.prems(1)] Cons.prems(2) by simp
  from digest_final_given [OF this] Cons show ?case by (simp add: split_beta)
qed simp



end
