(* ===== verification/Hmac.thy ===== *)
theory Hmac
  imports Digest
begin

text \<open>
  Models \<open>lib/crypt/hmac.c\<close>: HMAC over any digest of the table that has a compression block, and the
  first block of PBKDF2 with its fast path, which drives the compression function directly. A copy of
  \<open>eng_lens\<close> bytes of the union is a copy of the engine.
\<close>

definition HMAC_MAX_KEY_LENS :: nat where "HMAC_MAX_KEY_LENS = SHA512_KEY_BLOCK"

record hmac_ctx =
  hm_inside :: digest_ctx
  hm_outside :: digest_ctx
  hm_inside_init :: digest_ctx
  hm_outside_init :: digest_ctx

definition hmac_reset :: "hmac_ctx \<Rightarrow> hmac_ctx" where
  "hmac_reset hmac = hmac
     \<lparr>hm_inside := (hm_inside hmac)\<lparr>d_eng := d_eng (hm_inside_init hmac)\<rparr>,
      hm_outside := (hm_outside hmac)\<lparr>d_eng := d_eng (hm_outside_init hmac)\<rparr>\<rparr>"

text \<open>\<open>e\<close> gives what the four contexts held before; the two pads are written behind the key, then over it.\<close>

definition hmac_init :: "bool \<Rightarrow> (nat \<Rightarrow> engine) \<Rightarrow> nat \<Rightarrow> bytes \<Rightarrow> hmac_ctx option" where
  "hmac_init h e dtype key =
     (case (digest_init h (e 0) dtype, digest_init h (e 1) dtype, digest_init h (e 2) dtype, digest_init h (e 3) dtype) of
        (Some inside, Some outside, Some inside_init, Some outside_init) \<Rightarrow>
          (let key_block = key_block (d_attr inside)
           in assertab (0 < key_block \<and> key_block \<le> HMAC_MAX_KEY_LENS)
             (let (key_used, outside) =
                (if key_block < length key
                 then digest_final (digest_update outside key)
                 else (key, outside));
                  klens = length key_used;
                  block_ipad = map (\<lambda>b. b XOR 0x36) key_used @ replicate (key_block - klens) 0x36;
                  block_opad = map (\<lambda>b. b XOR 0x5c) key_used @ replicate (key_block - klens) 0x5c;
                  inside_init = digest_update inside_init block_ipad;
                  outside_init = digest_update outside_init block_opad
              in Some (hmac_reset \<lparr>hm_inside = inside, hm_outside = outside, hm_inside_init = inside_init,
                   hm_outside_init = outside_init\<rparr>)))
      | _ \<Rightarrow> None)"

definition hmac_size :: "hmac_ctx \<Rightarrow> nat" where
  "hmac_size hmac = digest_size (hm_outside hmac)"

definition hmac_update :: "hmac_ctx \<Rightarrow> bytes \<Rightarrow> hmac_ctx" where
  "hmac_update hmac data = hmac\<lparr>hm_inside := digest_update (hm_inside hmac) data\<rparr>"

definition hmac_final :: "hmac_ctx \<Rightarrow> bytes \<times> hmac_ctx" where
  "hmac_final hmac =
     (let attr = d_attr (hm_inside hmac);
          (hash, ei) = dg_final attr (d_eng (hm_inside hmac));
          eo = dg_update attr (d_eng (hm_outside hmac)) (take (block_lens attr) hash);
          (hash, eo) = dg_final attr eo
      in (hash, hmac_reset (hmac\<lparr>hm_inside := (hm_inside hmac)\<lparr>d_eng := ei\<rparr>,
                                 hm_outside := (hm_outside hmac)\<lparr>d_eng := eo\<rparr>\<rparr>)))"

section \<open>PBKDF2\<close>

text \<open>The padding of a last block of \<open>hs\<close> bytes after one whole block, on the stack buffer \<open>blk\<close>.\<close>

definition hmac_pad_tail :: "bool \<Rightarrow> dg_attr \<Rightarrow> bytes \<Rightarrow> bytes" where
  "hmac_pad_tail h attr blk =
     (let hs = block_lens attr; kb = key_block attr; nbits = of_nat ((kb + hs) * 8);
          blk = blk[hs := 0x80];
          blk = mem_put blk (hs + 1) (replicate (kb - hs - 1 - 8) 0)
      in mem_put blk (kb - 8) (if islittle attr then write_le64 h nbits else write_be64 h nbits))"

text \<open>One block from the state after the pad; the state is written over the first bytes of \<open>blk\<close>.\<close>

definition hmac_block :: "(engine \<Rightarrow> bytes) \<Rightarrow> digest_ctx \<Rightarrow> digest_ctx \<Rightarrow> bytes \<Rightarrow> digest_ctx \<times> bytes" where
  "hmac_block state work init blk =
     (let attr = d_attr init;
          e = dg_update attr (d_eng init) (take (key_block attr) blk)
      in (work\<lparr>d_eng := e\<rparr>, mem_put blk 0 (state e)))"

definition pbkdf2_round :: "hmac_ctx \<times> bytes \<times> bytes \<Rightarrow> hmac_ctx \<times> bytes \<times> bytes" where
  "pbkdf2_round = (\<lambda>(hmac, u, out).
     let attr = d_attr (hm_inside hmac); hs = block_lens attr;
         (hmac, u) =
           (case dg_state attr of
              Some state \<Rightarrow>
                (let (inside, u) = hmac_block state (hm_inside hmac) (hm_inside_init hmac) u;
                     (outside, u) = hmac_block state (hm_outside hmac) (hm_outside_init hmac) u
                 in (hmac\<lparr>hm_inside := inside, hm_outside := outside\<rparr>, u))
            | None \<Rightarrow>
                (let (hash, hmac) = hmac_final (hmac_update hmac (take hs u)) in (hmac, mem_put u 0 hash)));
         out = map2 (XOR) out (take hs u)
     in (hmac, u, out))"

text \<open>\<open>stack\<close> is what the buffer \<open>u\<close> of \<open>HMAC_MAX_KEY_LENS\<close> bytes holds before it is written.\<close>

definition hmac_pbkdf2 :: "bool \<Rightarrow> bytes \<Rightarrow> hmac_ctx \<Rightarrow> bytes \<Rightarrow> int \<Rightarrow> bytes \<times> hmac_ctx" where
  "hmac_pbkdf2 h stack hmac salt iter =
     (let attr = d_attr (hm_inside hmac); hs = block_lens attr;
          hmac = hmac_update hmac salt;
          hmac = hmac_update hmac [0, 0, 0, 1];
          (hash, hmac) = hmac_final hmac;
          u = mem_put stack 0 hash;
          out = take hs u;
          u = (if dg_state attr \<noteq> None then hmac_pad_tail h attr u else u);
          (hmac, u, out) = (pbkdf2_round ^^ nat (iter - 1)) (hmac, u, out)
      in (out, hmac_reset hmac))"

section \<open>HMAC\<close>

text \<open>RFC 2104, over the digest \<open>H\<close> with blocks of \<open>B\<close> bytes.\<close>

definition hmac_key :: "(bytes \<Rightarrow> bytes) \<Rightarrow> nat \<Rightarrow> bytes \<Rightarrow> bytes" where
  "hmac_key H B K = (let K = (if B < length K then H K else K) in K @ replicate (B - length K) 0)"

definition hmac_spec :: "(bytes \<Rightarrow> bytes) \<Rightarrow> nat \<Rightarrow> bytes \<Rightarrow> bytes \<Rightarrow> bytes" where
  "hmac_spec H B K m =
     (let K = hmac_key H B K in H (map (\<lambda>b. b XOR 0x5c) K @ H (map (\<lambda>b. b XOR 0x36) K @ m)))"

definition dg_block :: "bool \<Rightarrow> nat \<Rightarrow> nat" where
  "dg_block h t = key_block (the (dg_tbl h ! t))"

text \<open>The contexts kept for the reset, for the key \<open>K\<close>; and the context that has been given the message \<open>m\<close>.\<close>

definition hmac_pad :: "bool \<Rightarrow> nat \<Rightarrow> bytes \<Rightarrow> u8 \<Rightarrow> bytes" where
  "hmac_pad h t K x = map (\<lambda>b. b XOR x) (hmac_key (dg_spec h t) (dg_block h t) K)"

definition hmac_inits :: "bool \<Rightarrow> nat \<Rightarrow> bytes \<Rightarrow> hmac_ctx \<Rightarrow> bool" where
  "hmac_inits h t K c \<longleftrightarrow>
     digest_given h t (hm_inside_init c) (hmac_pad h t K 0x36) \<and> digest_given h t (hm_outside_init c) (hmac_pad h t K 0x5c) \<and>
     d_attr (hm_inside c) = the (dg_tbl h ! t) \<and> d_attr (hm_outside c) = the (dg_tbl h ! t) \<and>
     0 < dg_block h t \<and> dg_block h t \<le> HMAC_MAX_KEY_LENS"

definition hmac_given :: "bool \<Rightarrow> nat \<Rightarrow> bytes \<Rightarrow> hmac_ctx \<Rightarrow> bytes \<Rightarrow> bool" where
  "hmac_given h t K c m \<longleftrightarrow>
     hmac_inits h t K c \<and> eng_given h t (d_eng (hm_inside c)) (hmac_pad h t K 0x36 @ m) \<and>
     eng_given h t (d_eng (hm_outside c)) (hmac_pad h t K 0x5c)"

lemma digest_given_row:
  "digest_given h t d m \<longleftrightarrow> t < 9 \<and> t \<noteq> 0 \<and> d_attr d = the (dg_tbl h ! t) \<and> eng_given h t (d_eng d) m"
  using dg_tbl_row(2) [of t h] by (auto simp: digest_given_def dg_tbl_row(1))

lemma hmac_reset_given: "hmac_inits h t K c \<Longrightarrow> hmac_given h t K (hmac_reset c) []"
  by (simp add: hmac_inits_def hmac_given_def hmac_reset_def digest_given_row)

text \<open>A row that has a compression block: it outputs no more than the block holds.\<close>

lemma dg_row_sizes:
  assumes "t < 9" "t \<noteq> 0"
  shows "block_lens (the (dg_tbl h ! t)) \<le> 64" "key_block (the (dg_tbl h ! t)) \<le> 128"
    "0 < key_block (the (dg_tbl h ! t)) \<Longrightarrow> block_lens (the (dg_tbl h ! t)) \<le> key_block (the (dg_tbl h ! t))"
proof -
  from assms dg_tbl_row(1) dg_tbl_row(2) [of t h] obtain a where a: "t < length (dg_tbl h)" "dg_tbl h ! t = Some a" by auto
  then show "block_lens (the (dg_tbl h ! t)) \<le> 64" "key_block (the (dg_tbl h ! t)) \<le> 128"
    "0 < key_block (the (dg_tbl h ! t)) \<Longrightarrow> block_lens (the (dg_tbl h ! t)) \<le> key_block (the (dg_tbl h ! t))"
    by (cases rule: dg_cases [OF a]; simp add: dg_row_defs MD2_BLOCK_SIZE_def MD2_KEY_BLOCK_def SHA512_KEY_BLOCK_def)+
qed

lemma length_dg_spec: "t < 9 \<Longrightarrow> t \<noteq> 0 \<Longrightarrow> length (dg_spec h t m) = block_lens (the (dg_tbl h ! t))"
  using dg_spec_length [of t h] dg_tbl_row(1) dg_tbl_row(2) [of t h] by auto

lemma length_hmac_pad:
  assumes "t < 9" "t \<noteq> 0" "0 < dg_block h t"
  shows "length (hmac_pad h t K x) = dg_block h t"
proof -
  have "length (dg_spec h t K) \<le> dg_block h t"
    using length_dg_spec [OF assms(1,2)] dg_row_sizes(3) [OF assms(1,2)] assms(3) by (simp add: dg_block_def)
  then show ?thesis by (simp add: hmac_pad_def hmac_key_def Let_def)
qed

lemma hmac_init_given:
  assumes i: "hmac_init h e t K = Some c" and K: "length K < 2 ^ 61"
  shows "hmac_given h t K c []"
proof -
  from i obtain d0 d1 d2 d3 where d: "digest_init h (e 0) t = Some d0" "digest_init h (e 1) t = Some d1"
    "digest_init h (e 2) t = Some d2" "digest_init h (e 3) t = Some d3"
    by (auto simp: hmac_init_def split: option.splits)
  note g = digest_init_Some [OF d(1)] digest_init_Some [OF d(2)] digest_init_Some [OF d(3)] digest_init_Some [OF d(4)]
  have t: "t < 9" "t \<noteq> 0" "d_attr d0 = the (dg_tbl h ! t)" using g(1) by (simp_all add: digest_given_row)
  then have kb: "key_block (d_attr d0) = dg_block h t" by (simp add: dg_block_def)
  define ko where "ko = (if dg_block h t < length K then digest_final (digest_update d1 K) else (K, d1))"
  have g1: "d_attr (snd ko) = the (dg_tbl h ! t)"
    using digest_final_given(3) [OF digest_update_given [OF g(2) K]] g(2)
    by (simp add: ko_def digest_update_def digest_given_row)
  have k: "fst ko = (if dg_block h t < length K then dg_spec h t K else K)"
    using digest_final_given(1) [OF digest_update_given [OF g(2) K]] by (simp add: ko_def)
  have pad: "map (\<lambda>b. b XOR x) (fst ko) @ replicate (dg_block h t - length (fst ko)) x = hmac_pad h t K x" for x
    by (simp add: hmac_pad_def hmac_key_def k Let_def)
  from i have ok: "0 < dg_block h t" "dg_block h t \<le> HMAC_MAX_KEY_LENS"
    and c: "c = hmac_reset \<lparr>hm_inside = d0, hm_outside = snd ko, hm_inside_init = digest_update d2 (hmac_pad h t K 0x36),
      hm_outside_init = digest_update d3 (hmac_pad h t K 0x5c)\<rparr>"
    unfolding hmac_init_def d prod.case option.case unfolding Let_def kb assertab_eq_Some ko_def [symmetric] split_beta
    by (simp_all add: pad)
  have b: "length (hmac_pad h t K x) < 2 ^ 61" for x
    using length_hmac_pad [OF t(1,2) ok(1), of K x] ok(2) by (simp add: HMAC_MAX_KEY_LENS_def SHA512_KEY_BLOCK_def)
  show ?thesis unfolding c
    by (rule hmac_reset_given)
      (use digest_update_given [OF g(3) b] digest_update_given [OF g(4) b] g1 t(3) ok in \<open>simp add: hmac_inits_def\<close>)
qed

lemma hmac_update_given:
  assumes "hmac_given h t K c m" "length d < 2 ^ 61"
  shows "hmac_given h t K (hmac_update c d) (m @ d)"
proof -
  have "digest_given h t (hm_inside c) (hmac_pad h t K 0x36 @ m)"
    using assms(1) by (simp add: hmac_given_def hmac_inits_def digest_given_row)
  from digest_update_given [OF this assms(2)] assms(1) show ?thesis
    by (simp add: hmac_given_def hmac_inits_def digest_given_row hmac_update_def)
qed

definition hmac_of :: "bool \<Rightarrow> nat \<Rightarrow> bytes \<Rightarrow> bytes \<Rightarrow> bytes" where
  "hmac_of h t = hmac_spec (dg_spec h t) (dg_block h t)"

lemma hmac_of_pads:
  "hmac_of h t K m = dg_spec h t (hmac_pad h t K 0x5c @ dg_spec h t (hmac_pad h t K 0x36 @ m))"
  by (simp add: hmac_of_def hmac_spec_def hmac_pad_def Let_def)

lemma hmac_final_given:
  assumes g: "hmac_given h t K c m"
  shows "fst (hmac_final c) = hmac_of h t K m" "hmac_given h t K (snd (hmac_final c)) []"
proof -
  have t: "t < 9" "t \<noteq> 0" using g by (simp_all add: hmac_given_def hmac_inits_def digest_given_row)
  define a where "a = the (dg_tbl h ! t)"
  then have a: "t < length (dg_tbl h)" "dg_tbl h ! t = Some a" using t dg_tbl_row(1) dg_tbl_row(2) [of t h] by auto
  have at: "d_attr (hm_inside c) = a" "d_attr (hm_outside c) = a" using g a_def by (simp_all add: hmac_given_def hmac_inits_def)
  let ?i = "dg_spec h t (hmac_pad h t K 0x36 @ m)"
  have e: "eng_given h t (d_eng (hm_inside c)) (hmac_pad h t K 0x36 @ m)" "eng_given h t (d_eng (hm_outside c)) (hmac_pad h t K 0x5c)"
    using g by (simp_all add: hmac_given_def)
  have li: "length ?i = block_lens a" by (rule dg_spec_length [OF a])
  then have "length ?i < 2 ^ 61" using dg_row_sizes(1) [OF t, of h] a_def by simp
  from eng_final [OF a eng_given_update [OF a e(2) this]]
  have o: "fst (dg_final a (dg_update a (d_eng (hm_outside c)) ?i)) = hmac_of h t K m" by (simp add: hmac_of_pads)
  show "fst (hmac_final c) = hmac_of h t K m"
    using o eng_final [OF a e(1)] li by (simp add: hmac_final_def at split_beta)
  have "hmac_inits h t K (c\<lparr>hm_inside := (hm_inside c)\<lparr>d_eng := x\<rparr>, hm_outside := (hm_outside c)\<lparr>d_eng := y\<rparr>\<rparr>)" for x y
    using g by (simp add: hmac_given_def hmac_inits_def)
  from hmac_reset_given [OF this] show "hmac_given h t K (snd (hmac_final c)) []"
    by (simp add: hmac_final_def split_beta Let_def)
qed

section \<open>The fast path\<close>

text \<open>The padding of a message of one block and a tail that leaves room for the length.\<close>

lemma md_pad_one:
  assumes "length pad = B" "length U + 1 + length lb \<le> B"
  shows "md_pad B lb (pad @ U) = pad @ U @ 0x80 # replicate (B - length U - 1 - length lb) 0 @ lb"
proof -
  have "length (pad @ U) mod B = length U" using assms by simp
  moreover have "2 * B - 1 - length lb - length U = B * 1 + (B - length U - 1 - length lb)" "B - length U - 1 - length lb < B"
    using assms by simp_all
  note div_mod_small(2) [OF this]
  ultimately show ?thesis by (simp add: md_pad_def)
qed

lemma absorbed_md_hash: "absorbed f B iv st data (md_pad B lb m) \<Longrightarrow> st = md_hash f B iv lb m"
  by (simp add: absorbed_def md_hash_def Let_def)

lemma md4_len_640: "md4_len h 80 = write_le64 h 640"
  by (simp add: md4_len_def write_order le_store_4 le_store_8)

lemma replicate_8: "replicate 8 x = [x, x, x, x, x, x, x, x]"
  by (simp add: eval_nat_numeral)

lemma sha512_len_1536: "sha512_len h 192 = replicate 8 0 @ write_be64 h 1536"
  unfolding replicate_8 by (simp add: sha512_len_def write_order le_store_8)

text \<open>An engine that has been given the padded block outputs, as its state, the digest.\<close>

lemma eng_state:
  assumes a: "t < length (dg_tbl h)" "dg_tbl h ! t = Some a" "dg_state a = Some state"
    and l: "length pad = key_block a" "length U = block_lens a"
    and lb: "lb = (if islittle a then write_le64 h (of_nat ((key_block a + block_lens a) * 8))
                   else write_be64 h (of_nat ((key_block a + block_lens a) * 8)))"
    and e: "eng_given h t e (pad @ U @ 0x80 # replicate (key_block a - block_lens a - 1 - 8) 0 @ lb)"
  shows "state e = dg_spec h t (pad @ U)"
  using dg_cases [OF a(1,2)]
proof cases
  case 2
  then have s: "state = dg_md4_state h" "length pad = 64" "length U = 16" "lb = write_le64 h 640"
    using a(3) l lb by (simp_all add: dg_row_defs)
  with md_pad_one [of pad 64 U "md4_len h 80"] have "md_pad 64 (md4_len h 80) (pad @ U) = pad @ U @ 0x80 # replicate 39 0 @ lb"
    by (simp add: md4_len_640)
  with e 2 obtain c where "e = E_md4 c" "md4_given h c (md_pad 64 (md4_len h 80) (pad @ U))"
    by (auto simp: eng_given_E dg_row_defs)
  with absorbed_md_hash [of "md4_block h" 64 md4_iv "m4_state c" "m4_data c" "md4_len h 80" "pad @ U"] s 2 show ?thesis
    by (simp add: dg_md4_state_def dg_spec_simps md4_spec_def md4_given_def)
next
  case 3
  then have s: "state = dg_md5_state h" "length pad = 64" "length U = 16" "lb = write_le64 h 640"
    using a(3) l lb by (simp_all add: dg_row_defs)
  with md_pad_one [of pad 64 U lb] have "md_pad 64 lb (pad @ U) = pad @ U @ 0x80 # replicate 39 0 @ lb" by simp
  with e 3 obtain c where "e = E_md5 c" "ctx_given (md5_block h) md5_iv c (md_pad 64 lb (pad @ U))"
    by (auto simp: eng_given_E dg_row_defs)
  with absorbed_md_hash [of "md5_block h" 64 md5_iv "hc_state c" "hc_data c" lb "pad @ U"] s 3 show ?thesis
    by (simp add: dg_md5_state_def dg_spec_simps md5_spec_def ctx_given_def)
next
  case 4
  then have s: "state = dg_sha1_state h" "length pad = 64" "length U = 20" "lb = write_be64 h 672"
    using a(3) l lb by (simp_all add: dg_row_defs)
  with md_pad_one [of pad 64 U lb] have "md_pad 64 lb (pad @ U) = pad @ U @ 0x80 # replicate 35 0 @ lb" by simp
  with e 4 obtain c where "e = E_sha1 c" "ctx_given (sha1_block h) sha1_iv c (md_pad 64 lb (pad @ U))"
    by (auto simp: eng_given_E dg_row_defs)
  with absorbed_md_hash [of "sha1_block h" 64 sha1_iv "hc_state c" "hc_data c" lb "pad @ U"] s 4 show ?thesis
    by (simp add: dg_sha1_state_def dg_spec_simps sha1_spec_def ctx_given_def)
next
  case 5
  then have s: "state = dg_sha256_state h" "length pad = 64" "length U = 32" "lb = write_be64 h 768"
    using a(3) l lb by (simp_all add: dg_row_defs)
  with md_pad_one [of pad 64 U lb] have "md_pad 64 lb (pad @ U) = pad @ U @ 0x80 # replicate 23 0 @ lb" by simp
  with e 5 obtain c where "e = E_sha256 c" "ctx_given (sha256_block h) sha256_iv c (md_pad 64 lb (pad @ U))"
    by (auto simp: eng_given_E dg_row_defs)
  with absorbed_md_hash [of "sha256_block h" 64 sha256_iv "hc_state c" "hc_data c" lb "pad @ U"] s 5 show ?thesis
    by (simp add: dg_sha256_state_def dg_spec_simps sha256_spec_def ctx_given_def)
next
  case 6
  then have s: "state = dg_sha512_state h" "length pad = 128" "length U = 64" "lb = write_be64 h 1536"
    using a(3) l lb by (simp_all add: dg_row_defs SHA512_KEY_BLOCK_def)
  have "replicate 55 (0 :: u8) = replicate 47 0 @ replicate 8 0" by (simp flip: replicate_add)
  with md_pad_one [of pad 128 U "sha512_len h 192"] s
  have "md_pad 128 (sha512_len h 192) (pad @ U) = pad @ U @ 0x80 # replicate 55 0 @ lb"
    by (simp add: sha512_len_1536)
  with e 6 obtain c where "e = E_sha512 c" "sha512_given h c (md_pad 128 (sha512_len h 192) (pad @ U))"
    by (auto simp: eng_given_E dg_row_defs SHA512_KEY_BLOCK_def)
  with absorbed_md_hash [of "sha512_block h" 128 sha512_iv "s5_state c" "s5_data c" "sha512_len h 192" "pad @ U"] s 6 show ?thesis
    by (simp add: dg_sha512_state_def dg_spec_simps sha512_spec_def sha512_given_def)
qed (use a(3) in \<open>simp_all add: dg_row_defs\<close>)

section \<open>The rounds\<close>

text \<open>RFC 8018: the chain of \<open>U\<close>, and the exclusive or of its first \<open>n + 1\<close> members.\<close>

fun pbkdf2_u :: "(bytes \<Rightarrow> bytes) \<Rightarrow> bytes \<Rightarrow> nat \<Rightarrow> bytes" where
  "pbkdf2_u prf S 0 = prf (S @ [0, 0, 0, 1])"
| "pbkdf2_u prf S (Suc n) = prf (pbkdf2_u prf S n)"

fun pbkdf2_f :: "(bytes \<Rightarrow> bytes) \<Rightarrow> bytes \<Rightarrow> nat \<Rightarrow> bytes" where
  "pbkdf2_f prf S 0 = pbkdf2_u prf S 0"
| "pbkdf2_f prf S (Suc n) = map2 (XOR) (pbkdf2_f prf S n) (pbkdf2_u prf S (Suc n))"

text \<open>The buffer of the fast path: a value of the digest's length, and the padding behind it.\<close>

definition fast_blk :: "bool \<Rightarrow> dg_attr \<Rightarrow> bytes \<Rightarrow> bytes \<Rightarrow> bytes" where
  "fast_blk h a U rest =
     U @ 0x80 # replicate (key_block a - block_lens a - 1 - 8) 0 @
     (if islittle a then write_le64 h (of_nat ((key_block a + block_lens a) * 8))
      else write_be64 h (of_nat ((key_block a + block_lens a) * 8))) @ rest"

lemma dg_fast_sizes:
  assumes "t < length (dg_tbl h)" "dg_tbl h ! t = Some a" "dg_state a = Some state"
  shows "block_lens a + 9 \<le> key_block a" "key_block a \<le> 128"
  using assms(3)
  by (cases rule: dg_cases [OF assms(1,2)]; simp add: dg_row_defs SHA512_KEY_BLOCK_def)+

lemma hmac_pad_tail_ok:
  assumes s: "block_lens a + 9 \<le> key_block a" and u: "key_block a \<le> length u"
  shows "hmac_pad_tail h a u = fast_blk h a (take (block_lens a) u) (drop (key_block a) u)"
proof -
  let ?hs = "block_lens a" and ?kb = "key_block a"
  let ?k = "?kb - ?hs - 1 - 8" and ?lb = "if islittle a then write_le64 h (of_nat ((?kb + ?hs) * 8)) else write_be64 h (of_nat ((?kb + ?hs) * 8))"
  have f: "mem_put (u[?hs := 0x80]) (Suc ?hs) (replicate ?k 0) = take ?hs u @ 0x80 # replicate ?k 0 @ drop (Suc ?hs + ?k) u"
    by (rule pad_first [OF refl]) (use s u in simp_all)
  have k: "Suc ?hs + ?k = ?kb - 8" using s by linarith
  have p: "mem_put (u[?hs := 0x80]) (Suc ?hs) (replicate ?k 0) = (take ?hs u @ 0x80 # replicate ?k 0) @ drop (?kb - 8) u"
    unfolding f k by simp
  have l: "length (take ?hs u @ 0x80 # replicate ?k 0) = ?kb - 8" using s u by simp
  have lb: "length ?lb = 8" by simp
  have "mem_put (x @ drop (?kb - 8) u) (?kb - 8) ?lb = x @ ?lb @ drop ?kb u" if "length x = ?kb - 8" for x
    unfolding mem_put_def lb using that s by simp
  from this [OF l] show ?thesis
    unfolding hmac_pad_tail_def fast_blk_def Let_def Suc_eq_plus1 [symmetric] p
    by (simp only: append_assoc append_Cons append_Nil)
qed

text \<open>One block on the fast path replaces the value by its digest behind the pad.\<close>

lemma hmac_block_ok:
  assumes a: "t < length (dg_tbl h)" "dg_tbl h ! t = Some a" "dg_state a = Some state"
    and init: "d_attr init = a" "eng_given h t (d_eng init) pad" "length pad = key_block a" and U: "length U = block_lens a"
    and b: "hmac_block state work init (fast_blk h a U rest) = (work', blk')"
  shows "blk' = fast_blk h a (dg_spec h t (pad @ U)) rest" "d_attr work' = d_attr work"
proof -
  note s = dg_fast_sizes [OF a]
  let ?lb = "if islittle a then write_le64 h (of_nat ((key_block a + block_lens a) * 8)) else write_be64 h (of_nat ((key_block a + block_lens a) * 8))"
  let ?blk = "U @ 0x80 # replicate (key_block a - block_lens a - 1 - 8) 0 @ ?lb"
  have "length ?blk = block_lens a + (1 + ((key_block a - block_lens a - 1 - 8) + 8))" using U by simp
  then have lb: "length ?blk = key_block a" using s by linarith
  have "fast_blk h a U rest = ?blk @ rest" by (simp add: fast_blk_def)
  moreover have "take (length x) (x @ rest) = x" for x by simp
  note this [of ?blk, unfolded lb]
  ultimately have t: "take (key_block a) (fast_blk h a U rest) = ?blk" by (simp only:)
  have "length ?blk < 2 ^ 61" unfolding lb using s by simp
  from eng_given_update [OF a(1,2) init(2) this]
  have "state (dg_update a (d_eng init) ?blk) = dg_spec h t (pad @ U)"
    by (intro eng_state [OF a init(3) U refl]) simp
  moreover have "length (dg_spec h t (pad @ U)) = length U" using dg_spec_length [OF a(1,2)] U by simp
  then have "mem_put (fast_blk h a U rest) 0 (dg_spec h t (pad @ U)) = fast_blk h a (dg_spec h t (pad @ U)) rest"
    by (simp add: mem_put_def fast_blk_def)
  ultimately show "blk' = fast_blk h a (dg_spec h t (pad @ U)) rest" "d_attr work' = d_attr work"
    using b t init(1) by (auto simp: hmac_block_def Let_def)
qed

text \<open>What the loop keeps: the contexts for the reset, and the last \<open>U\<close> in the buffer.\<close>

definition pbkdf2_inv :: "bool \<Rightarrow> nat \<Rightarrow> bytes \<Rightarrow> hmac_ctx \<Rightarrow> bytes \<Rightarrow> bytes \<Rightarrow> bool" where
  "pbkdf2_inv h t K c u U \<longleftrightarrow>
     (let a = the (dg_tbl h ! t)
      in hmac_inits h t K c \<and> length U = block_lens a \<and>
         (if dg_state a = None then hmac_given h t K c [] \<and> take (block_lens a) u = U \<and> block_lens a \<le> length u
          else \<exists>rest. u = fast_blk h a U rest))"

lemma pbkdf2_round_ok:
  assumes i: "pbkdf2_inv h t K c u U" and r: "pbkdf2_round (c, u, out) = (c', u', out')"
  shows "pbkdf2_inv h t K c' u' (hmac_of h t K U)" "out' = map2 (XOR) out (hmac_of h t K U)"
proof -
  define a where "a = the (dg_tbl h ! t)"
  have ini: "hmac_inits h t K c" and U: "length U = block_lens a" using i by (simp_all add: pbkdf2_inv_def a_def Let_def)
  have t: "t < 9" "t \<noteq> 0" using ini by (simp_all add: hmac_inits_def digest_given_row)
  then have row: "t < length (dg_tbl h)" "dg_tbl h ! t = Some a" using dg_tbl_row(1) dg_tbl_row(2) [of t h] a_def by auto
  have at: "d_attr (hm_inside c) = a" "d_attr (hm_inside_init c) = a" "d_attr (hm_outside_init c) = a"
    and gi: "eng_given h t (d_eng (hm_inside_init c)) (hmac_pad h t K 0x36)" "eng_given h t (d_eng (hm_outside_init c)) (hmac_pad h t K 0x5c)"
    using ini by (simp_all add: hmac_inits_def digest_given_row a_def)
  have lp: "length (hmac_pad h t K x) = key_block a" for x
    using length_hmac_pad [OF t, of h K x] ini by (simp add: hmac_inits_def dg_block_def a_def)
  have lo: "length (hmac_of h t K U) = block_lens a" by (simp add: hmac_of_pads dg_spec_length [OF row])
  have "pbkdf2_inv h t K c' u' (hmac_of h t K U) \<and> out' = map2 (XOR) out (hmac_of h t K U)"
  proof (cases "dg_state a")
    case None
    then have g: "hmac_given h t K c []" and u: "take (block_lens a) u = U" "block_lens a \<le> length u"
      using i by (simp_all add: pbkdf2_inv_def a_def Let_def)
    have "length U < 2 ^ 61" using U dg_row_sizes(1) [OF t, of h] a_def by simp
    from hmac_final_given [OF hmac_update_given [OF g this]]
    have f: "fst (hmac_final (hmac_update c U)) = hmac_of h t K U" "hmac_given h t K (snd (hmac_final (hmac_update c U))) []" by simp_all
    have "c' = snd (hmac_final (hmac_update c U))" "u' = mem_put u 0 (hmac_of h t K U)" "out' = map2 (XOR) out (take (block_lens a) u')"
      using r None u f(1) at by (auto simp: pbkdf2_round_def Let_def split_beta)
    moreover have "take (block_lens a) (mem_put u 0 (hmac_of h t K U)) = hmac_of h t K U" using lo by (simp add: mem_put_def)
    ultimately show ?thesis using f(2) lo u None by (simp add: pbkdf2_inv_def a_def Let_def hmac_given_def)
  next
    case (Some state)
    then obtain rest where u: "u = fast_blk h a U rest" using i by (auto simp: pbkdf2_inv_def a_def Let_def)
    obtain w1 u1 where b1: "hmac_block state (hm_inside c) (hm_inside_init c) u = (w1, u1)" by (metis surj_pair)
    note h1 = hmac_block_ok [OF row Some at(2) gi(1) lp U b1 [unfolded u]]
    have l1: "length (dg_spec h t (hmac_pad h t K 0x36 @ U)) = block_lens a" by (rule dg_spec_length [OF row])
    obtain w2 u2 where b2: "hmac_block state (hm_outside c) (hm_outside_init c) u1 = (w2, u2)" by (metis surj_pair)
    note h2 = hmac_block_ok [OF row Some at(3) gi(2) lp l1 b2 [unfolded h1(1)]]
    have c': "c' = c\<lparr>hm_inside := w1, hm_outside := w2\<rparr>" "u' = u2" "out' = map2 (XOR) out (take (block_lens a) u2)"
      using r Some b1 b2 at by (auto simp: pbkdf2_round_def Let_def)
    have u2: "u2 = fast_blk h a (hmac_of h t K U) rest" using h2(1) by (simp add: hmac_of_pads)
    then have "take (block_lens a) u2 = hmac_of h t K U" using lo by (simp add: fast_blk_def)
    moreover have "hmac_inits h t K c'" using ini h1(2) h2(2) by (simp add: c' hmac_inits_def)
    ultimately show ?thesis using lo u2 c' Some by (auto simp: pbkdf2_inv_def a_def Let_def)
  qed
  then show "pbkdf2_inv h t K c' u' (hmac_of h t K U)" "out' = map2 (XOR) out (hmac_of h t K U)" by auto
qed

lemma pbkdf2_rounds_ok:
  "pbkdf2_inv h t K c u (pbkdf2_u (hmac_of h t K) S k) \<Longrightarrow> (pbkdf2_round ^^ n) (c, u, pbkdf2_f (hmac_of h t K) S k) = (c', u', out') \<Longrightarrow>
     hmac_inits h t K c' \<and> out' = pbkdf2_f (hmac_of h t K) S (k + n)"
proof (induction n arbitrary: c u k)
  case (Suc n)
  obtain c1 u1 o1 where r: "pbkdf2_round (c, u, pbkdf2_f (hmac_of h t K) S k) = (c1, u1, o1)" by (metis prod_cases3)
  note ok = pbkdf2_round_ok [OF Suc.prems(1) r]
  have "(pbkdf2_round ^^ n) (c1, u1, o1) = (c', u', out')" using Suc.prems(2) r by (simp add: funpow_Suc_right del: funpow.simps)
  with Suc.IH [of c1 u1 "Suc k"] ok show ?case by simp
qed (simp add: pbkdf2_inv_def Let_def)

lemma hmac_pbkdf2_given:
  assumes g: "hmac_given h t K c []" and S: "length S < 2 ^ 61" and st: "length stack = HMAC_MAX_KEY_LENS"
  shows "fst (hmac_pbkdf2 h stack c S iter) = pbkdf2_f (hmac_of h t K) S (nat (iter - 1))"
    "hmac_given h t K (snd (hmac_pbkdf2 h stack c S iter)) []"
proof -
  define a where "a = the (dg_tbl h ! t)"
  have t: "t < 9" "t \<noteq> 0" using g by (simp_all add: hmac_given_def hmac_inits_def digest_given_row)
  then have row: "t < length (dg_tbl h)" "dg_tbl h ! t = Some a" using dg_tbl_row(1) dg_tbl_row(2) [of t h] a_def by auto
  have at: "d_attr (hm_inside c) = a" using g by (simp add: hmac_given_def hmac_inits_def a_def)
  let ?c = "hmac_update (hmac_update c S) [0, 0, 0, 1]" and ?U = "pbkdf2_u (hmac_of h t K) S 0"
  have "hmac_given h t K ?c (([] @ S) @ [0, 0, 0, 1])" by (rule hmac_update_given [OF hmac_update_given [OF g S]]) simp
  from hmac_final_given [OF this] have f: "fst (hmac_final ?c) = ?U" "hmac_given h t K (snd (hmac_final ?c)) []" by simp_all
  have lU: "length ?U = block_lens a" by (simp add: hmac_of_pads dg_spec_length [OF row])
  have small: "block_lens a \<le> length stack" using dg_row_sizes(1) [OF t, of h] st by (simp add: a_def HMAC_MAX_KEY_LENS_def SHA512_KEY_BLOCK_def)
  let ?u = "mem_put stack 0 ?U"
  have tk: "take (block_lens a) ?u = ?U" "length ?u = length stack" using lU small by (simp_all add: mem_put_def)
  let ?u2 = "if dg_state a \<noteq> None then hmac_pad_tail h a ?u else ?u"
  have inv: "pbkdf2_inv h t K (snd (hmac_final ?c)) ?u2 ?U"
  proof (cases "dg_state a")
    case None
    with f tk small lU show ?thesis by (simp add: pbkdf2_inv_def hmac_given_def a_def Let_def del: pbkdf2_u.simps)
  next
    case (Some state)
    note s = dg_fast_sizes [OF row Some]
    have "key_block a \<le> length ?u" using s tk st by (simp add: HMAC_MAX_KEY_LENS_def SHA512_KEY_BLOCK_def)
    from hmac_pad_tail_ok [OF s(1) this, of h] tk
    have "hmac_pad_tail h a ?u = fast_blk h a ?U (drop (key_block a) ?u)" by simp
    with Some f lU show ?thesis by (auto simp: pbkdf2_inv_def hmac_given_def a_def Let_def simp del: pbkdf2_u.simps)
  qed
  have hf: "hmac_final ?c = (?U, snd (hmac_final ?c))" using f(1) by (simp only: prod_eq_iff fst_conv snd_conv)
  obtain c' u' out' where e: "(pbkdf2_round ^^ nat (iter - 1)) (snd (hmac_final ?c), ?u2, ?U) = (c', u', out')"
    by (metis prod_cases3)
  have r: "hmac_inits h t K c' \<and> out' = pbkdf2_f (hmac_of h t K) S (0 + nat (iter - 1))"
    by (rule pbkdf2_rounds_ok [OF inv]) (simp only: pbkdf2_f.simps(1) e)
  have "hmac_pbkdf2 h stack c S iter = (out', hmac_reset c')"
    unfolding hmac_pbkdf2_def Let_def at by (subst hf) (simp only: prod.case tk(1) e)
  with r hmac_reset_given show "fst (hmac_pbkdf2 h stack c S iter) = pbkdf2_f (hmac_of h t K) S (nat (iter - 1))"
    "hmac_given h t K (snd (hmac_pbkdf2 h stack c S iter)) []" by simp_all
qed

section \<open>Contexts in use\<close>

fun hmac_messages :: "hmac_ctx \<Rightarrow> bytes list list \<Rightarrow> bytes list" where
  "hmac_messages c [] = []"
| "hmac_messages c (ds # ms) = (let (hash, c) = hmac_final (foldl hmac_update c ds) in hash # hmac_messages c ms)"

lemma hmac_updates_given:
  "hmac_given h t K c m \<Longrightarrow> \<forall>p\<in>set ds. length p < 2 ^ 61 \<Longrightarrow> hmac_given h t K (foldl hmac_update c ds) (m @ concat ds)"
proof (induction ds arbitrary: c m)
  case (Cons p ds)
  from Cons.IH [OF hmac_update_given [OF Cons.prems(1)]] Cons.prems(2) show ?case by simp
qed simp

lemma hmac_messages_given:
  "hmac_given h t K c [] \<Longrightarrow> \<forall>ds\<in>set ms. \<forall>p\<in>set ds. length p < 2 ^ 61 \<Longrightarrow>
     hmac_messages c ms = map (\<lambda>ds. hmac_of h t K (concat ds)) ms"
proof (induction ms arbitrary: c)
  case (Cons ds ms)
  have "hmac_given h t K (foldl hmac_update c ds) (concat ds)"
    using hmac_updates_given [OF Cons.prems(1)] Cons.prems(2) by simp
  from hmac_final_given [OF this] Cons show ?case by (simp add: split_beta)
qed simp

text \<open>The algorithms \<open>hmac_init\<close> accepts; the two xxhash rows have no compression block.\<close>

lemma hmac_init_ok: "DG_MD2 \<le> t \<and> t \<le> DG_SHA512 \<Longrightarrow> \<exists>c. hmac_init h e t K = Some c"
proof -
  assume r: "DG_MD2 \<le> t \<and> t \<le> DG_SHA512"
  then have t: "t < 9" "t \<noteq> 0" by (simp_all add: dg_consts)
  have "\<exists>d. digest_init h (e i) t = Some d" for i
    using digest_init_abort [of h "e i" t] t by (simp add: dg_consts)
  then obtain d where d: "\<And>i. digest_init h (e i) t = Some (d i)" by metis
  have at: "d_attr (d 0) = the (dg_tbl h ! t)" using digest_init_Some [OF d [of 0]] by (simp add: digest_given_row)
  from r consider "t = 1" | "t = 2" | "t = 3" | "t = 4" | "t = 5" | "t = 6" unfolding dg_consts by linarith
  then have "0 < key_block (the (dg_tbl h ! t))"
    by cases (simp_all add: dg_tbl_def dg_row_defs MD2_KEY_BLOCK_def SHA512_KEY_BLOCK_def)
  moreover have "key_block (the (dg_tbl h ! t)) \<le> HMAC_MAX_KEY_LENS"
    using dg_row_sizes(2) [OF t, of h] by (simp add: HMAC_MAX_KEY_LENS_def SHA512_KEY_BLOCK_def)
  ultimately show ?thesis unfolding hmac_init_def d prod.case option.case Let_def at by (simp add: split_beta)
qed

text \<open>
  C29: An HMAC context authenticates one message after the other under its key: every \<open>hmac_final\<close> returns the
  value RFC 2104 defines for the message since the previous one, however it was cut into updates, for keys
  shorter and longer than a block; the context goes back to its key by itself.
\<close>

theorem hmac_correct:
  assumes "hmac_init h e t K = Some c" "length K < 2 ^ 61" "\<forall>ds\<in>set ms. \<forall>p\<in>set ds. length p < 2 ^ 61"
  shows "hmac_messages c ms = map (\<lambda>ds. hmac_spec (dg_spec h t) (dg_block h t) K (concat ds)) ms"
  using hmac_messages_given [OF hmac_init_given [OF assms(1,2)] assms(3)] by (simp add: hmac_of_def)

theorem hmac_correct_witness:
  "\<exists>c. hmac_init True (\<lambda>_. E_xxh32 (xxh32_init 3)) DG_SHA1 [1, 2, 3] = Some c \<and>
     hmac_messages c [[[97], [98, 99]], []] =
       [hmac_spec (dg_spec True DG_SHA1) 64 [1, 2, 3] [97, 98, 99], hmac_spec (dg_spec True DG_SHA1) 64 [1, 2, 3] []]"
proof -
  obtain c where c: "hmac_init True (\<lambda>_. E_xxh32 (xxh32_init 3)) DG_SHA1 [1, 2, 3] = Some c"
    using hmac_init_ok [of DG_SHA1 True "\<lambda>_. E_xxh32 (xxh32_init 3)" "[1, 2, 3]"] by (auto simp: dg_consts)
  moreover have "dg_block True DG_SHA1 = 64" by (simp add: dg_block_def dg_tbl_def dg_row_defs dg_consts)
  ultimately show ?thesis using hmac_correct [OF c, of "[[[97], [98, 99]], []]"] by simp
qed

text \<open>
  C15: The fast path of PBKDF2, which copies the keyed engine states and compresses one prepared block per hash
  without padding it again, computes the first output block of RFC 8018: the exclusive or of the chain of
  HMAC values of the salt, for any iteration count, zero and negative ones counting as one. Afterwards the
  context authenticates messages as a fresh one.
\<close>

theorem pbkdf2_correct:
  assumes "hmac_init h e t K = Some c" "length K < 2 ^ 61" "length S < 2 ^ 61" "length stack = HMAC_MAX_KEY_LENS"
    "\<forall>p\<in>set ds. length p < 2 ^ 61"
  shows "fst (hmac_pbkdf2 h stack c S iter) = pbkdf2_f (hmac_spec (dg_spec h t) (dg_block h t) K) S (nat (iter - 1)) \<and>
    hmac_messages (snd (hmac_pbkdf2 h stack c S iter)) [ds] = [hmac_spec (dg_spec h t) (dg_block h t) K (concat ds)]"
  using hmac_pbkdf2_given [OF hmac_init_given [OF assms(1,2)] assms(3,4), of iter]
    hmac_messages_given [of h t K _ "[ds]"] assms(5) by (simp add: hmac_of_def)

theorem pbkdf2_correct_witness:
  "\<exists>c. hmac_init True (\<lambda>_. E_xxh32 (xxh32_init 3)) DG_SHA256 [1, 2, 3] = Some c \<and>
     fst (hmac_pbkdf2 True (replicate 128 7) c [5, 6] 3) = pbkdf2_f (hmac_spec (dg_spec True DG_SHA256) 64 [1, 2, 3]) [5, 6] 2 \<and>
     hmac_messages (snd (hmac_pbkdf2 True (replicate 128 7) c [5, 6] 3)) [[[97], [98]]] =
       [hmac_spec (dg_spec True DG_SHA256) 64 [1, 2, 3] [97, 98]]"
proof -
  obtain c where c: "hmac_init True (\<lambda>_. E_xxh32 (xxh32_init 3)) DG_SHA256 [1, 2, 3] = Some c"
    using hmac_init_ok [of DG_SHA256 True "\<lambda>_. E_xxh32 (xxh32_init 3)" "[1, 2, 3]"] by (auto simp: dg_consts)
  have st: "length (replicate 128 (7 :: u8)) = HMAC_MAX_KEY_LENS" by (simp add: HMAC_MAX_KEY_LENS_def SHA512_KEY_BLOCK_def)
  have "dg_block True DG_SHA256 = 64" by (simp add: dg_block_def dg_tbl_def dg_row_defs dg_consts)
  with c pbkdf2_correct [OF c _ _ st, where S = "[5, 6]" and iter = 3 and ds = "[[97], [98]]"] show ?thesis
    by (simp del: pbkdf2_f.simps hmac_messages.simps)
qed

end
