(* ===== verification/Crc_Bits.thy ===== *)
theory Crc_Bits
  imports Byte_Order
begin

text \<open>
  The mathematics behind \<open>lib/crypt/crc.c\<close>: the reflected cyclic redundancy check bit by bit, its
  linearity, the value of a table entry, and the two identities the table driven code rests on. A whole
  block of bytes can be looked up at once, each byte in the table of its distance from the end
  (\<open>crc_slice\<close>), and four interleaved lanes can be merged afterwards (\<open>crc_lanes_step\<close>).
\<close>

section \<open>The reference\<close>

text \<open>One zero bit, \<open>P\<close> the reflected polynomial; \<open>k\<close> zero bits; one byte; a string of bytes.\<close>

definition crc_bit :: "'a::len word \<Rightarrow> 'a word \<Rightarrow> 'a word" where
  "crc_bit P x = (if bit x 0 then drop_bit 1 x XOR P else drop_bit 1 x)"

definition crc_zeros :: "'a::len word \<Rightarrow> nat \<Rightarrow> 'a word \<Rightarrow> 'a word" where
  "crc_zeros P k = crc_bit P ^^ k"

definition crc_byte :: "'a::len word \<Rightarrow> 'a word \<Rightarrow> u8 \<Rightarrow> 'a word" where
  "crc_byte P c b = crc_zeros P 8 (c XOR ucast b)"

definition crc_of :: "'a::len word \<Rightarrow> 'a word \<Rightarrow> bytes \<Rightarrow> 'a word" where
  "crc_of P c bs = foldl (crc_byte P) c bs"

section \<open>Linearity\<close>

lemma crc_bit_xor: "crc_bit P (x XOR y) = crc_bit P x XOR crc_bit P y"
  by (rule bit_word_eqI) (auto simp: crc_bit_def bit_xor_iff bit_drop_bit_eq)

lemma crc_zeros_0 [simp]: "crc_zeros P 0 x = x"
  by (simp add: crc_zeros_def)

lemma crc_zeros_add: "crc_zeros P (j + k) x = crc_zeros P j (crc_zeros P k x)"
  by (simp add: crc_zeros_def funpow_add)

lemma crc_zeros_xor: "crc_zeros P k (x XOR y) = crc_zeros P k x XOR crc_zeros P k y"
  by (induction k) (simp_all add: crc_zeros_def crc_bit_xor)

lemma crc_zeros_zero [simp]: "crc_zeros P k 0 = 0"
  using crc_zeros_xor [of P k 0 0] by simp

text \<open>The bits above the low byte only move down.\<close>

lemma crc_zeros_high:
  assumes "\<And>i. i < k \<Longrightarrow> \<not> bit x i"
  shows "crc_zeros P k x = drop_bit k x"
  using assms
proof (induction k arbitrary: x)
  case (Suc k)
  have "crc_zeros P (Suc k) x = crc_zeros P k (crc_bit P x)"
    using crc_zeros_add [of P k 1 x] by (simp add: crc_zeros_def)
  also have "crc_bit P x = drop_bit 1 x" using Suc.prems [of 0] by (simp add: crc_bit_def)
  also have "crc_zeros P k (drop_bit 1 x) = drop_bit k (drop_bit 1 x)"
    by (rule Suc.IH) (use Suc.prems in \<open>simp add: bit_drop_bit_eq\<close>)
  finally show ?case by simp
qed simp

definition low_byte :: "'a::len word \<Rightarrow> u8" where "low_byte x = ucast x"

lemma split_low_byte: "x = ucast (low_byte x) XOR (push_bit 8 (drop_bit 8 x) :: 'a::len word)"
  by (rule bit_word_eqI)
    (auto simp: low_byte_def bit_xor_iff bit_push_bit_iff bit_drop_bit_eq bit_ucast_iff dest: bit_imp_le_length)

lemma crc_zeros_split: "crc_zeros P 8 x = crc_zeros P 8 (ucast (low_byte x)) XOR drop_bit 8 x"
proof -
  have "drop_bit 8 (push_bit 8 (drop_bit 8 x)) = drop_bit 8 x"
    by (rule bit_word_eqI) (auto simp: bit_push_bit_iff bit_drop_bit_eq dest: bit_imp_le_length)
  moreover have "crc_zeros P 8 (push_bit 8 (drop_bit 8 x)) = drop_bit 8 (push_bit 8 (drop_bit 8 x))"
    by (rule crc_zeros_high) (simp add: bit_push_bit_iff)
  ultimately show ?thesis by (subst split_low_byte [of x]) (simp add: crc_zeros_xor)
qed

section \<open>A block at once\<close>

text \<open>The state exclusive-ored into the first bytes of the block, and the sum of the table entries.\<close>

fun xor_in :: "'a::len word \<Rightarrow> bytes \<Rightarrow> bytes" where
  "xor_in c [] = []"
| "xor_in c (b # bs) = (b XOR low_byte c) # xor_in (drop_bit 8 c) bs"

fun crc_slice :: "'a::len word \<Rightarrow> bytes \<Rightarrow> 'a word" where
  "crc_slice P [] = 0"
| "crc_slice P (b # bs) = crc_zeros P (8 * Suc (length bs)) (ucast b) XOR crc_slice P bs"

lemma crc_append: "crc_of P c (a @ b) = crc_of P (crc_of P c a) b"
  by (simp add: crc_of_def)

lemma crc_state_in: "crc_of P (s XOR c) bs = crc_of P s (xor_in c bs) XOR drop_bit (8 * length bs) c"
proof (induction bs arbitrary: s c)
  case (Cons b bs)
  have "crc_byte P (s XOR c) b = crc_zeros P 8 (s XOR ucast b) XOR crc_zeros P 8 c"
    by (simp add: crc_byte_def ac_simps flip: crc_zeros_xor)
  also have "\<dots> = crc_zeros P 8 (s XOR ucast b XOR ucast (low_byte c)) XOR drop_bit 8 c"
    by (subst crc_zeros_split [of P c]) (simp add: crc_zeros_xor ac_simps)
  also have "s XOR ucast b XOR ucast (low_byte c) = s XOR ucast (b XOR low_byte c)"
    by (rule bit_word_eqI) (auto simp: bit_xor_iff bit_ucast_iff)
  finally have "crc_byte P (s XOR c) b = crc_byte P s (b XOR low_byte c) XOR drop_bit 8 c" by (simp add: crc_byte_def)
  then have "crc_of P (s XOR c) (b # bs) = crc_of P (crc_byte P s (b XOR low_byte c) XOR drop_bit 8 c) bs" by (simp add: crc_of_def)
  also have "\<dots> = crc_of P (crc_byte P s (b XOR low_byte c)) (xor_in (drop_bit 8 c) bs) XOR drop_bit (8 * length bs) (drop_bit 8 c)"
    by (rule Cons.IH)
  finally show ?case by (simp add: crc_of_def add.commute)
qed (simp add: crc_of_def)

lemma crc_linear: "crc_of P s bs = crc_zeros P (8 * length bs) s XOR crc_slice P bs"
proof (induction bs arbitrary: s)
  case (Cons b bs)
  have "crc_of P s (b # bs) = crc_of P (crc_byte P s b) bs" by (simp add: crc_of_def)
  also have "\<dots> = crc_zeros P (8 * length bs) (crc_zeros P 8 s XOR crc_zeros P 8 (ucast b)) XOR crc_slice P bs"
    by (simp only: Cons.IH crc_byte_def crc_zeros_xor)
  also have "\<dots> = crc_zeros P (8 * length bs + 8) s XOR (crc_zeros P (8 * length bs + 8) (ucast b) XOR crc_slice P bs)"
    by (simp only: crc_zeros_xor crc_zeros_add xor.assoc)
  finally show ?case by (simp add: add.commute)
qed (simp add: crc_of_def)

text \<open>A block that is at least as wide as the state: one look-up per byte.\<close>

lemma crc_block:
  fixes c :: "'a::len word"
  assumes "LENGTH('a) \<le> 8 * length bs"
  shows "crc_of P c bs = crc_slice P (xor_in c bs)"
proof -
  have "drop_bit (8 * length bs) c = 0" by (rule bit_word_eqI) (use assms in \<open>auto simp: bit_drop_bit_eq dest: bit_imp_le_length\<close>)
  then show ?thesis using crc_state_in [of P 0 c bs] by (simp add: crc_linear)
qed

lemma crc_slice_append: "crc_slice P (a @ b) = crc_zeros P (8 * length b) (crc_slice P a) XOR crc_slice P b"
proof (induction a)
  case (Cons x a)
  then show ?case by (simp add: crc_zeros_xor ac_simps flip: crc_zeros_add)
qed simp

section \<open>Four lanes\<close>

text \<open>
  The four states stand for one: \<open>c0\<close> is 32 bytes before the end of the next group of four blocks of 8,
  \<open>c1\<close> 24 bytes, and so on. A step takes one block per lane and moves it 24 bytes further.
\<close>

definition lanes_of :: "'a::len word \<Rightarrow> 'a word \<times> 'a word \<times> 'a word \<times> 'a word \<Rightarrow> 'a word" where
  "lanes_of P = (\<lambda>(c0, c1, c2, c3). crc_zeros P 256 c0 XOR crc_zeros P 192 c1 XOR crc_zeros P 128 c2 XOR crc_zeros P 64 c3)"

lemma crc_lanes_step:
  assumes l: "length d0 = 8" "length d1 = 8" "length d2 = 8" "length d3 = 8"
    and C: "crc_zeros P 256 C = lanes_of P (c0, c1, c2, c3)"
  shows "crc_zeros P 256 (crc_of P C (d0 @ d1 @ d2 @ d3)) =
    lanes_of P (crc_zeros P 192 (crc_of P c0 d0), crc_zeros P 192 (crc_of P c1 d1), crc_zeros P 192 (crc_of P c2 d2), crc_zeros P 192 (crc_of P c3 d3))"
proof -
  have "crc_of P C (d0 @ d1 @ d2 @ d3) = lanes_of P (c0, c1, c2, c3) XOR crc_slice P (d0 @ d1 @ d2 @ d3)"
    using l C by (simp add: crc_linear)
  then show ?thesis using l
    by (simp add: lanes_of_def crc_linear crc_slice_append crc_zeros_xor ac_simps flip: crc_zeros_add)
qed

lemma crc_lanes_merge:
  assumes l: "length d0 = 8" "length d1 = 8" "length d2 = 8" "length d3 = 8"
    and C: "crc_zeros P 256 C = lanes_of P (c0, c1, c2, c3)"
  shows "crc_of P (crc_of P (crc_of P (crc_of P c0 d0 XOR c1) d1 XOR c2) d2 XOR c3) d3 = crc_of P C (d0 @ d1 @ d2 @ d3)"
proof -
  have "crc_of P C (d0 @ d1 @ d2 @ d3) = lanes_of P (c0, c1, c2, c3) XOR crc_slice P (d0 @ d1 @ d2 @ d3)"
    using l C by (simp add: crc_linear)
  then show ?thesis using l
    by (simp add: lanes_of_def crc_linear crc_slice_append crc_zeros_xor ac_simps flip: crc_zeros_add)
qed

text \<open>One group of 32 bytes split into the blocks of the lanes.\<close>

definition lane :: "nat \<Rightarrow> bytes \<Rightarrow> bytes" where "lane i p = take 8 (drop (8 * i) p)"

lemma lane_simps:
  assumes "32 \<le> length p"
  shows "length (lane 0 p) = 8" "length (lane 1 p) = 8" "length (lane 2 p) = 8" "length (lane 3 p) = 8"
    "take 32 p = lane 0 p @ lane 1 p @ lane 2 p @ lane 3 p"
proof -
  show "length (lane 0 p) = 8" "length (lane 1 p) = 8" "length (lane 2 p) = 8" "length (lane 3 p) = 8"
    using assms by (simp_all add: lane_def)
  show "take 32 p = lane 0 p @ lane 1 p @ lane 2 p @ lane 3 p"
    using take_add [of 8 24 p] take_add [of 8 16 "drop 8 p"] take_add [of 8 8 "drop 16 p"] by (simp add: lane_def)
qed

lemma read_lane:
  assumes "32 \<le> length p"
  shows "read_le64 h p = le_load (lane 0 p)" "read_le64 h (drop 8 p) = le_load (lane 1 p)"
    "read_le64 h (drop 16 p) = le_load (lane 2 p)" "read_le64 h (drop 24 p) = le_load (lane 3 p)"
  using assms by (simp_all add: lane_def read_order)

section \<open>Tables\<close>

text \<open>
  The table of a linear function of a byte, from its values at the eight powers of two.
\<close>

definition span :: "'a::len word list \<Rightarrow> 'a word list" where
  "span bs = fold (\<lambda>b xs. xs @ map (\<lambda>x. x XOR b) xs) bs [0]"

lemma span_map:
  assumes "\<And>x y. f (x XOR y) = f x XOR f y"
  shows "span (map f bs) = map f (span bs)"
proof -
  have 0: "f 0 = 0" using assms [of 0 0] by simp
  have "fold (\<lambda>b xs. xs @ map (\<lambda>x. x XOR b) xs) (map f bs) (map f xs) = map f (fold (\<lambda>b xs. xs @ map (\<lambda>x. x XOR b) xs) bs xs)" for xs
  proof (induction bs arbitrary: xs)
    case (Cons b bs)
    have "map f xs @ map (\<lambda>x. x XOR f b) (map f xs) = map f (xs @ map (\<lambda>x. x XOR b) xs)" by (simp add: assms)
    then show ?case by (simp only: list.map fold_simps Cons.IH)
  qed simp
  from this [of "[0]"] show ?thesis by (simp add: span_def 0)
qed

definition powers :: "'a::len word list" where "powers = [1, 2, 4, 8, 16, 32, 64, 128]"

lemma span_powers: "span (powers :: u16 list) = map of_nat [0..<256]" "span (powers :: u32 list) = map of_nat [0..<256]"
  by (simp_all add: powers_def span_def upt_rec)

text \<open>What a table of the code holds: entry \<open>i\<close> is the byte \<open>i\<close> followed by \<open>k\<close> zero bits less a byte.\<close>

lemma table_nth:
  assumes "tab = span (map (crc_zeros P k) powers)" "span (powers :: 'a::len word list) = map of_nat [0..<256]"
  shows "tab ! unat (b :: u8) = crc_zeros P k (ucast b :: 'a word)"
proof -
  have "unat b < 256" using unsigned_less [of b] by simp
  moreover have "of_nat (unat b) = (ucast b :: 'a word)" by simp
  ultimately show ?thesis unfolding assms(1) span_map [OF crc_zeros_xor] assms(2) by simp
qed

text \<open>For the evaluation on literals.\<close>

lemma crc_zeros_8:
  "crc_zeros P 8 x = crc_bit P (crc_bit P (crc_bit P (crc_bit P (crc_bit P (crc_bit P (crc_bit P (crc_bit P x)))))))"
  by (simp add: crc_zeros_def eval_nat_numeral)

lemma crc_bit_lit: "crc_bit P x = (if odd x then drop_bit 1 x XOR P else drop_bit 1 x)"
  by (simp add: crc_bit_def bit_0)

section \<open>Bytes of words\<close>

lemma take_nth: "8 \<le> length p \<Longrightarrow> take 8 p = [p ! 0, p ! 1, p ! 2, p ! 3, p ! 4, p ! 5, p ! 6, p ! 7]"
  "4 \<le> length p \<Longrightarrow> take 4 p = [p ! 0, p ! 1, p ! 2, p ! 3]"
  by (rule nth_equalityI; auto simp: less_Suc_eq numeral_eq_Suc)+

lemma unat_and_255: "unat (x AND 0xFF) = unat (low_byte x)"
proof -
  have "(0xFF :: 'a::len word) = mask 8" by (simp add: mask_eq_exp_minus_1)
  then have "x AND 0xFF = take_bit 8 x" for x :: "'a::len word" by (simp only: take_bit_eq_mask)
  then show ?thesis by (simp add: low_byte_def unsigned_take_bit_eq unsigned_ucast_eq)
qed

lemma low_byte_xor: "low_byte (x XOR y) = low_byte x XOR low_byte y"
  by (rule bit_word_eqI) (auto simp: low_byte_def bit_ucast_iff bit_xor_iff)

lemma low_byte_drop_ucast: "k + 8 \<le> LENGTH('b) \<Longrightarrow> low_byte (drop_bit k (ucast (x :: 'a::len word) :: 'b::len word)) = low_byte (drop_bit k x)"
  by (rule bit_word_eqI) (auto simp: low_byte_def bit_ucast_iff bit_drop_bit_eq dest: bit_imp_le_length)

lemma low_byte_ucast: "8 \<le> LENGTH('b) \<Longrightarrow> low_byte (ucast (x :: 'a::len word) :: 'b::len word) = low_byte x"
  using low_byte_drop_ucast [of 0 x] by simp

lemma low_byte_top:
  fixes x :: "'a::len word"
  assumes "LENGTH('a) \<le> k + 8" "LENGTH('a) \<le> LENGTH('b)"
  shows "unat (drop_bit k x) = unat (low_byte (drop_bit k x))"
    "unat (drop_bit k (ucast x :: 'b::len word)) = unat (low_byte (drop_bit k x))"
  by (rule bit_eqI; use assms in \<open>auto simp: bit_unsigned_iff low_byte_def bit_ucast_iff bit_drop_bit_eq dest: bit_imp_le_length\<close>)+

lemma word_bytes:
  assumes "length d = 8" "v = (le_load d :: u64)"
  shows "d = [low_byte v, low_byte (drop_bit 8 v), low_byte (drop_bit 16 v), low_byte (drop_bit 24 v),
    low_byte (drop_bit 32 v), low_byte (drop_bit 40 v), low_byte (drop_bit 48 v), low_byte (drop_bit 56 v)]"
  using le_store_load [of d, where 'a = 64] assms by (simp add: le_store_8 low_byte_def)

end
