(* ===== verification/Crc16_Tables.thy ===== *)
theory Crc16_Tables
  imports Crc_Bits
begin

text \<open>
  The tables \<open>crc16_tab\<close> and \<open>crc16_btab\<close> of \<open>lib/crypt/crc.c\<close>, as they are written there, each with the
  proof that its entry \<open>i\<close> is the byte \<open>i\<close> followed by \<open>k\<close>, respectively \<open>24 + k\<close>, zero bytes. The values
  at the powers of two are computed bit by bit (\<open>crc16_z_k\<close>, for \<open>k\<close> zero bytes behind the byte), the other
  entries follow because a table is linear.
\<close>

definition CRC16_POLY :: u16 where "CRC16_POLY = 0xA001"

definition crc16_tab_0 :: "u16 list" where
  "crc16_tab_0 =
    [0x0000, 0xC0C1, 0xC181, 0x0140, 0xC301, 0x03C0, 0x0280, 0xC241] @
    [0xC601, 0x06C0, 0x0780, 0xC741, 0x0500, 0xC5C1, 0xC481, 0x0440] @
    [0xCC01, 0x0CC0, 0x0D80, 0xCD41, 0x0F00, 0xCFC1, 0xCE81, 0x0E40] @
    [0x0A00, 0xCAC1, 0xCB81, 0x0B40, 0xC901, 0x09C0, 0x0880, 0xC841] @
    [0xD801, 0x18C0, 0x1980, 0xD941, 0x1B00, 0xDBC1, 0xDA81, 0x1A40] @
    [0x1E00, 0xDEC1, 0xDF81, 0x1F40, 0xDD01, 0x1DC0, 0x1C80, 0xDC41] @
    [0x1400, 0xD4C1, 0xD581, 0x1540, 0xD701, 0x17C0, 0x1680, 0xD641] @
    [0xD201, 0x12C0, 0x1380, 0xD341, 0x1100, 0xD1C1, 0xD081, 0x1040] @
    [0xF001, 0x30C0, 0x3180, 0xF141, 0x3300, 0xF3C1, 0xF281, 0x3240] @
    [0x3600, 0xF6C1, 0xF781, 0x3740, 0xF501, 0x35C0, 0x3480, 0xF441] @
    [0x3C00, 0xFCC1, 0xFD81, 0x3D40, 0xFF01, 0x3FC0, 0x3E80, 0xFE41] @
    [0xFA01, 0x3AC0, 0x3B80, 0xFB41, 0x3900, 0xF9C1, 0xF881, 0x3840] @
    [0x2800, 0xE8C1, 0xE981, 0x2940, 0xEB01, 0x2BC0, 0x2A80, 0xEA41] @
    [0xEE01, 0x2EC0, 0x2F80, 0xEF41, 0x2D00, 0xEDC1, 0xEC81, 0x2C40] @
    [0xE401, 0x24C0, 0x2580, 0xE541, 0x2700, 0xE7C1, 0xE681, 0x2640] @
    [0x2200, 0xE2C1, 0xE381, 0x2340, 0xE101, 0x21C0, 0x2080, 0xE041] @
    [0xA001, 0x60C0, 0x6180, 0xA141, 0x6300, 0xA3C1, 0xA281, 0x6240] @
    [0x6600, 0xA6C1, 0xA781, 0x6740, 0xA501, 0x65C0, 0x6480, 0xA441] @
    [0x6C00, 0xACC1, 0xAD81, 0x6D40, 0xAF01, 0x6FC0, 0x6E80, 0xAE41] @
    [0xAA01, 0x6AC0, 0x6B80, 0xAB41, 0x6900, 0xA9C1, 0xA881, 0x6840] @
    [0x7800, 0xB8C1, 0xB981, 0x7940, 0xBB01, 0x7BC0, 0x7A80, 0xBA41] @
    [0xBE01, 0x7EC0, 0x7F80, 0xBF41, 0x7D00, 0xBDC1, 0xBC81, 0x7C40] @
    [0xB401, 0x74C0, 0x7580, 0xB541, 0x7700, 0xB7C1, 0xB681, 0x7640] @
    [0x7200, 0xB2C1, 0xB381, 0x7340, 0xB101, 0x71C0, 0x7080, 0xB041] @
    [0x5000, 0x90C1, 0x9181, 0x5140, 0x9301, 0x53C0, 0x5280, 0x9241] @
    [0x9601, 0x56C0, 0x5780, 0x9741, 0x5500, 0x95C1, 0x9481, 0x5440] @
    [0x9C01, 0x5CC0, 0x5D80, 0x9D41, 0x5F00, 0x9FC1, 0x9E81, 0x5E40] @
    [0x5A00, 0x9AC1, 0x9B81, 0x5B40, 0x9901, 0x59C0, 0x5880, 0x9841] @
    [0x8801, 0x48C0, 0x4980, 0x8941, 0x4B00, 0x8BC1, 0x8A81, 0x4A40] @
    [0x4E00, 0x8EC1, 0x8F81, 0x4F40, 0x8D01, 0x4DC0, 0x4C80, 0x8C41] @
    [0x4400, 0x84C1, 0x8581, 0x4540, 0x8701, 0x47C0, 0x4680, 0x8641] @
    [0x8201, 0x42C0, 0x4380, 0x8341, 0x4100, 0x81C1, 0x8081, 0x4040]"

definition crc16_tab_1 :: "u16 list" where
  "crc16_tab_1 =
    [0x0000, 0x9001, 0x6001, 0xF000, 0xC002, 0x5003, 0xA003, 0x3002] @
    [0xC007, 0x5006, 0xA006, 0x3007, 0x0005, 0x9004, 0x6004, 0xF005] @
    [0xC00D, 0x500C, 0xA00C, 0x300D, 0x000F, 0x900E, 0x600E, 0xF00F] @
    [0x000A, 0x900B, 0x600B, 0xF00A, 0xC008, 0x5009, 0xA009, 0x3008] @
    [0xC019, 0x5018, 0xA018, 0x3019, 0x001B, 0x901A, 0x601A, 0xF01B] @
    [0x001E, 0x901F, 0x601F, 0xF01E, 0xC01C, 0x501D, 0xA01D, 0x301C] @
    [0x0014, 0x9015, 0x6015, 0xF014, 0xC016, 0x5017, 0xA017, 0x3016] @
    [0xC013, 0x5012, 0xA012, 0x3013, 0x0011, 0x9010, 0x6010, 0xF011] @
    [0xC031, 0x5030, 0xA030, 0x3031, 0x0033, 0x9032, 0x6032, 0xF033] @
    [0x0036, 0x9037, 0x6037, 0xF036, 0xC034, 0x5035, 0xA035, 0x3034] @
    [0x003C, 0x903D, 0x603D, 0xF03C, 0xC03E, 0x503F, 0xA03F, 0x303E] @
    [0xC03B, 0x503A, 0xA03A, 0x303B, 0x0039, 0x9038, 0x6038, 0xF039] @
    [0x0028, 0x9029, 0x6029, 0xF028, 0xC02A, 0x502B, 0xA02B, 0x302A] @
    [0xC02F, 0x502E, 0xA02E, 0x302F, 0x002D, 0x902C, 0x602C, 0xF02D] @
    [0xC025, 0x5024, 0xA024, 0x3025, 0x0027, 0x9026, 0x6026, 0xF027] @
    [0x0022, 0x9023, 0x6023, 0xF022, 0xC020, 0x5021, 0xA021, 0x3020] @
    [0xC061, 0x5060, 0xA060, 0x3061, 0x0063, 0x9062, 0x6062, 0xF063] @
    [0x0066, 0x9067, 0x6067, 0xF066, 0xC064, 0x5065, 0xA065, 0x3064] @
    [0x006C, 0x906D, 0x606D, 0xF06C, 0xC06E, 0x506F, 0xA06F, 0x306E] @
    [0xC06B, 0x506A, 0xA06A, 0x306B, 0x0069, 0x9068, 0x6068, 0xF069] @
    [0x0078, 0x9079, 0x6079, 0xF078, 0xC07A, 0x507B, 0xA07B, 0x307A] @
    [0xC07F, 0x507E, 0xA07E, 0x307F, 0x007D, 0x907C, 0x607C, 0xF07D] @
    [0xC075, 0x5074, 0xA074, 0x3075, 0x0077, 0x9076, 0x6076, 0xF077] @
    [0x0072, 0x9073, 0x6073, 0xF072, 0xC070, 0x5071, 0xA071, 0x3070] @
    [0x0050, 0x9051, 0x6051, 0xF050, 0xC052, 0x5053, 0xA053, 0x3052] @
    [0xC057, 0x5056, 0xA056, 0x3057, 0x0055, 0x9054, 0x6054, 0xF055] @
    [0xC05D, 0x505C, 0xA05C, 0x305D, 0x005F, 0x905E, 0x605E, 0xF05F] @
    [0x005A, 0x905B, 0x605B, 0xF05A, 0xC058, 0x5059, 0xA059, 0x3058] @
    [0xC049, 0x5048, 0xA048, 0x3049, 0x004B, 0x904A, 0x604A, 0xF04B] @
    [0x004E, 0x904F, 0x604F, 0xF04E, 0xC04C, 0x504D, 0xA04D, 0x304C] @
    [0x0044, 0x9045, 0x6045, 0xF044, 0xC046, 0x5047, 0xA047, 0x3046] @
    [0xC043, 0x5042, 0xA042, 0x3043, 0x0041, 0x9040, 0x6040, 0xF041]"

definition crc16_tab_2 :: "u16 list" where
  "crc16_tab_2 =
    [0x0000, 0xC051, 0xC0A1, 0x00F0, 0xC141, 0x0110, 0x01E0, 0xC1B1] @
    [0xC281, 0x02D0, 0x0220, 0xC271, 0x03C0, 0xC391, 0xC361, 0x0330] @
    [0xC501, 0x0550, 0x05A0, 0xC5F1, 0x0440, 0xC411, 0xC4E1, 0x04B0] @
    [0x0780, 0xC7D1, 0xC721, 0x0770, 0xC6C1, 0x0690, 0x0660, 0xC631] @
    [0xCA01, 0x0A50, 0x0AA0, 0xCAF1, 0x0B40, 0xCB11, 0xCBE1, 0x0BB0] @
    [0x0880, 0xC8D1, 0xC821, 0x0870, 0xC9C1, 0x0990, 0x0960, 0xC931] @
    [0x0F00, 0xCF51, 0xCFA1, 0x0FF0, 0xCE41, 0x0E10, 0x0EE0, 0xCEB1] @
    [0xCD81, 0x0DD0, 0x0D20, 0xCD71, 0x0CC0, 0xCC91, 0xCC61, 0x0C30] @
    [0xD401, 0x1450, 0x14A0, 0xD4F1, 0x1540, 0xD511, 0xD5E1, 0x15B0] @
    [0x1680, 0xD6D1, 0xD621, 0x1670, 0xD7C1, 0x1790, 0x1760, 0xD731] @
    [0x1100, 0xD151, 0xD1A1, 0x11F0, 0xD041, 0x1010, 0x10E0, 0xD0B1] @
    [0xD381, 0x13D0, 0x1320, 0xD371, 0x12C0, 0xD291, 0xD261, 0x1230] @
    [0x1E00, 0xDE51, 0xDEA1, 0x1EF0, 0xDF41, 0x1F10, 0x1FE0, 0xDFB1] @
    [0xDC81, 0x1CD0, 0x1C20, 0xDC71, 0x1DC0, 0xDD91, 0xDD61, 0x1D30] @
    [0xDB01, 0x1B50, 0x1BA0, 0xDBF1, 0x1A40, 0xDA11, 0xDAE1, 0x1AB0] @
    [0x1980, 0xD9D1, 0xD921, 0x1970, 0xD8C1, 0x1890, 0x1860, 0xD831] @
    [0xE801, 0x2850, 0x28A0, 0xE8F1, 0x2940, 0xE911, 0xE9E1, 0x29B0] @
    [0x2A80, 0xEAD1, 0xEA21, 0x2A70, 0xEBC1, 0x2B90, 0x2B60, 0xEB31] @
    [0x2D00, 0xED51, 0xEDA1, 0x2DF0, 0xEC41, 0x2C10, 0x2CE0, 0xECB1] @
    [0xEF81, 0x2FD0, 0x2F20, 0xEF71, 0x2EC0, 0xEE91, 0xEE61, 0x2E30] @
    [0x2200, 0xE251, 0xE2A1, 0x22F0, 0xE341, 0x2310, 0x23E0, 0xE3B1] @
    [0xE081, 0x20D0, 0x2020, 0xE071, 0x21C0, 0xE191, 0xE161, 0x2130] @
    [0xE701, 0x2750, 0x27A0, 0xE7F1, 0x2640, 0xE611, 0xE6E1, 0x26B0] @
    [0x2580, 0xE5D1, 0xE521, 0x2570, 0xE4C1, 0x2490, 0x2460, 0xE431] @
    [0x3C00, 0xFC51, 0xFCA1, 0x3CF0, 0xFD41, 0x3D10, 0x3DE0, 0xFDB1] @
    [0xFE81, 0x3ED0, 0x3E20, 0xFE71, 0x3FC0, 0xFF91, 0xFF61, 0x3F30] @
    [0xF901, 0x3950, 0x39A0, 0xF9F1, 0x3840, 0xF811, 0xF8E1, 0x38B0] @
    [0x3B80, 0xFBD1, 0xFB21, 0x3B70, 0xFAC1, 0x3A90, 0x3A60, 0xFA31] @
    [0xF601, 0x3650, 0x36A0, 0xF6F1, 0x3740, 0xF711, 0xF7E1, 0x37B0] @
    [0x3480, 0xF4D1, 0xF421, 0x3470, 0xF5C1, 0x3590, 0x3560, 0xF531] @
    [0x3300, 0xF351, 0xF3A1, 0x33F0, 0xF241, 0x3210, 0x32E0, 0xF2B1] @
    [0xF181, 0x31D0, 0x3120, 0xF171, 0x30C0, 0xF091, 0xF061, 0x3030]"

definition crc16_tab_3 :: "u16 list" where
  "crc16_tab_3 =
    [0x0000, 0xFC01, 0xB801, 0x4400, 0x3001, 0xCC00, 0x8800, 0x7401] @
    [0x6002, 0x9C03, 0xD803, 0x2402, 0x5003, 0xAC02, 0xE802, 0x1403] @
    [0xC004, 0x3C05, 0x7805, 0x8404, 0xF005, 0x0C04, 0x4804, 0xB405] @
    [0xA006, 0x5C07, 0x1807, 0xE406, 0x9007, 0x6C06, 0x2806, 0xD407] @
    [0xC00B, 0x3C0A, 0x780A, 0x840B, 0xF00A, 0x0C0B, 0x480B, 0xB40A] @
    [0xA009, 0x5C08, 0x1808, 0xE409, 0x9008, 0x6C09, 0x2809, 0xD408] @
    [0x000F, 0xFC0E, 0xB80E, 0x440F, 0x300E, 0xCC0F, 0x880F, 0x740E] @
    [0x600D, 0x9C0C, 0xD80C, 0x240D, 0x500C, 0xAC0D, 0xE80D, 0x140C] @
    [0xC015, 0x3C14, 0x7814, 0x8415, 0xF014, 0x0C15, 0x4815, 0xB414] @
    [0xA017, 0x5C16, 0x1816, 0xE417, 0x9016, 0x6C17, 0x2817, 0xD416] @
    [0x0011, 0xFC10, 0xB810, 0x4411, 0x3010, 0xCC11, 0x8811, 0x7410] @
    [0x6013, 0x9C12, 0xD812, 0x2413, 0x5012, 0xAC13, 0xE813, 0x1412] @
    [0x001E, 0xFC1F, 0xB81F, 0x441E, 0x301F, 0xCC1E, 0x881E, 0x741F] @
    [0x601C, 0x9C1D, 0xD81D, 0x241C, 0x501D, 0xAC1C, 0xE81C, 0x141D] @
    [0xC01A, 0x3C1B, 0x781B, 0x841A, 0xF01B, 0x0C1A, 0x481A, 0xB41B] @
    [0xA018, 0x5C19, 0x1819, 0xE418, 0x9019, 0x6C18, 0x2818, 0xD419] @
    [0xC029, 0x3C28, 0x7828, 0x8429, 0xF028, 0x0C29, 0x4829, 0xB428] @
    [0xA02B, 0x5C2A, 0x182A, 0xE42B, 0x902A, 0x6C2B, 0x282B, 0xD42A] @
    [0x002D, 0xFC2C, 0xB82C, 0x442D, 0x302C, 0xCC2D, 0x882D, 0x742C] @
    [0x602F, 0x9C2E, 0xD82E, 0x242F, 0x502E, 0xAC2F, 0xE82F, 0x142E] @
    [0x0022, 0xFC23, 0xB823, 0x4422, 0x3023, 0xCC22, 0x8822, 0x7423] @
    [0x6020, 0x9C21, 0xD821, 0x2420, 0x5021, 0xAC20, 0xE820, 0x1421] @
    [0xC026, 0x3C27, 0x7827, 0x8426, 0xF027, 0x0C26, 0x4826, 0xB427] @
    [0xA024, 0x5C25, 0x1825, 0xE424, 0x9025, 0x6C24, 0x2824, 0xD425] @
    [0x003C, 0xFC3D, 0xB83D, 0x443C, 0x303D, 0xCC3C, 0x883C, 0x743D] @
    [0x603E, 0x9C3F, 0xD83F, 0x243E, 0x503F, 0xAC3E, 0xE83E, 0x143F] @
    [0xC038, 0x3C39, 0x7839, 0x8438, 0xF039, 0x0C38, 0x4838, 0xB439] @
    [0xA03A, 0x5C3B, 0x183B, 0xE43A, 0x903B, 0x6C3A, 0x283A, 0xD43B] @
    [0xC037, 0x3C36, 0x7836, 0x8437, 0xF036, 0x0C37, 0x4837, 0xB436] @
    [0xA035, 0x5C34, 0x1834, 0xE435, 0x9034, 0x6C35, 0x2835, 0xD434] @
    [0x0033, 0xFC32, 0xB832, 0x4433, 0x3032, 0xCC33, 0x8833, 0x7432] @
    [0x6031, 0x9C30, 0xD830, 0x2431, 0x5030, 0xAC31, 0xE831, 0x1430]"

definition crc16_tab_4 :: "u16 list" where
  "crc16_tab_4 =
    [0x0000, 0xC03D, 0xC079, 0x0044, 0xC0F1, 0x00CC, 0x0088, 0xC0B5] @
    [0xC1E1, 0x01DC, 0x0198, 0xC1A5, 0x0110, 0xC12D, 0xC169, 0x0154] @
    [0xC3C1, 0x03FC, 0x03B8, 0xC385, 0x0330, 0xC30D, 0xC349, 0x0374] @
    [0x0220, 0xC21D, 0xC259, 0x0264, 0xC2D1, 0x02EC, 0x02A8, 0xC295] @
    [0xC781, 0x07BC, 0x07F8, 0xC7C5, 0x0770, 0xC74D, 0xC709, 0x0734] @
    [0x0660, 0xC65D, 0xC619, 0x0624, 0xC691, 0x06AC, 0x06E8, 0xC6D5] @
    [0x0440, 0xC47D, 0xC439, 0x0404, 0xC4B1, 0x048C, 0x04C8, 0xC4F5] @
    [0xC5A1, 0x059C, 0x05D8, 0xC5E5, 0x0550, 0xC56D, 0xC529, 0x0514] @
    [0xCF01, 0x0F3C, 0x0F78, 0xCF45, 0x0FF0, 0xCFCD, 0xCF89, 0x0FB4] @
    [0x0EE0, 0xCEDD, 0xCE99, 0x0EA4, 0xCE11, 0x0E2C, 0x0E68, 0xCE55] @
    [0x0CC0, 0xCCFD, 0xCCB9, 0x0C84, 0xCC31, 0x0C0C, 0x0C48, 0xCC75] @
    [0xCD21, 0x0D1C, 0x0D58, 0xCD65, 0x0DD0, 0xCDED, 0xCDA9, 0x0D94] @
    [0x0880, 0xC8BD, 0xC8F9, 0x08C4, 0xC871, 0x084C, 0x0808, 0xC835] @
    [0xC961, 0x095C, 0x0918, 0xC925, 0x0990, 0xC9AD, 0xC9E9, 0x09D4] @
    [0xCB41, 0x0B7C, 0x0B38, 0xCB05, 0x0BB0, 0xCB8D, 0xCBC9, 0x0BF4] @
    [0x0AA0, 0xCA9D, 0xCAD9, 0x0AE4, 0xCA51, 0x0A6C, 0x0A28, 0xCA15] @
    [0xDE01, 0x1E3C, 0x1E78, 0xDE45, 0x1EF0, 0xDECD, 0xDE89, 0x1EB4] @
    [0x1FE0, 0xDFDD, 0xDF99, 0x1FA4, 0xDF11, 0x1F2C, 0x1F68, 0xDF55] @
    [0x1DC0, 0xDDFD, 0xDDB9, 0x1D84, 0xDD31, 0x1D0C, 0x1D48, 0xDD75] @
    [0xDC21, 0x1C1C, 0x1C58, 0xDC65, 0x1CD0, 0xDCED, 0xDCA9, 0x1C94] @
    [0x1980, 0xD9BD, 0xD9F9, 0x19C4, 0xD971, 0x194C, 0x1908, 0xD935] @
    [0xD861, 0x185C, 0x1818, 0xD825, 0x1890, 0xD8AD, 0xD8E9, 0x18D4] @
    [0xDA41, 0x1A7C, 0x1A38, 0xDA05, 0x1AB0, 0xDA8D, 0xDAC9, 0x1AF4] @
    [0x1BA0, 0xDB9D, 0xDBD9, 0x1BE4, 0xDB51, 0x1B6C, 0x1B28, 0xDB15] @
    [0x1100, 0xD13D, 0xD179, 0x1144, 0xD1F1, 0x11CC, 0x1188, 0xD1B5] @
    [0xD0E1, 0x10DC, 0x1098, 0xD0A5, 0x1010, 0xD02D, 0xD069, 0x1054] @
    [0xD2C1, 0x12FC, 0x12B8, 0xD285, 0x1230, 0xD20D, 0xD249, 0x1274] @
    [0x1320, 0xD31D, 0xD359, 0x1364, 0xD3D1, 0x13EC, 0x13A8, 0xD395] @
    [0xD681, 0x16BC, 0x16F8, 0xD6C5, 0x1670, 0xD64D, 0xD609, 0x1634] @
    [0x1760, 0xD75D, 0xD719, 0x1724, 0xD791, 0x17AC, 0x17E8, 0xD7D5] @
    [0x1540, 0xD57D, 0xD539, 0x1504, 0xD5B1, 0x158C, 0x15C8, 0xD5F5] @
    [0xD4A1, 0x149C, 0x14D8, 0xD4E5, 0x1450, 0xD46D, 0xD429, 0x1414]"

definition crc16_tab_5 :: "u16 list" where
  "crc16_tab_5 =
    [0x0000, 0xD101, 0xE201, 0x3300, 0x8401, 0x5500, 0x6600, 0xB701] @
    [0x4801, 0x9900, 0xAA00, 0x7B01, 0xCC00, 0x1D01, 0x2E01, 0xFF00] @
    [0x9002, 0x4103, 0x7203, 0xA302, 0x1403, 0xC502, 0xF602, 0x2703] @
    [0xD803, 0x0902, 0x3A02, 0xEB03, 0x5C02, 0x8D03, 0xBE03, 0x6F02] @
    [0x6007, 0xB106, 0x8206, 0x5307, 0xE406, 0x3507, 0x0607, 0xD706] @
    [0x2806, 0xF907, 0xCA07, 0x1B06, 0xAC07, 0x7D06, 0x4E06, 0x9F07] @
    [0xF005, 0x2104, 0x1204, 0xC305, 0x7404, 0xA505, 0x9605, 0x4704] @
    [0xB804, 0x6905, 0x5A05, 0x8B04, 0x3C05, 0xED04, 0xDE04, 0x0F05] @
    [0xC00E, 0x110F, 0x220F, 0xF30E, 0x440F, 0x950E, 0xA60E, 0x770F] @
    [0x880F, 0x590E, 0x6A0E, 0xBB0F, 0x0C0E, 0xDD0F, 0xEE0F, 0x3F0E] @
    [0x500C, 0x810D, 0xB20D, 0x630C, 0xD40D, 0x050C, 0x360C, 0xE70D] @
    [0x180D, 0xC90C, 0xFA0C, 0x2B0D, 0x9C0C, 0x4D0D, 0x7E0D, 0xAF0C] @
    [0xA009, 0x7108, 0x4208, 0x9309, 0x2408, 0xF509, 0xC609, 0x1708] @
    [0xE808, 0x3909, 0x0A09, 0xDB08, 0x6C09, 0xBD08, 0x8E08, 0x5F09] @
    [0x300B, 0xE10A, 0xD20A, 0x030B, 0xB40A, 0x650B, 0x560B, 0x870A] @
    [0x780A, 0xA90B, 0x9A0B, 0x4B0A, 0xFC0B, 0x2D0A, 0x1E0A, 0xCF0B] @
    [0xC01F, 0x111E, 0x221E, 0xF31F, 0x441E, 0x951F, 0xA61F, 0x771E] @
    [0x881E, 0x591F, 0x6A1F, 0xBB1E, 0x0C1F, 0xDD1E, 0xEE1E, 0x3F1F] @
    [0x501D, 0x811C, 0xB21C, 0x631D, 0xD41C, 0x051D, 0x361D, 0xE71C] @
    [0x181C, 0xC91D, 0xFA1D, 0x2B1C, 0x9C1D, 0x4D1C, 0x7E1C, 0xAF1D] @
    [0xA018, 0x7119, 0x4219, 0x9318, 0x2419, 0xF518, 0xC618, 0x1719] @
    [0xE819, 0x3918, 0x0A18, 0xDB19, 0x6C18, 0xBD19, 0x8E19, 0x5F18] @
    [0x301A, 0xE11B, 0xD21B, 0x031A, 0xB41B, 0x651A, 0x561A, 0x871B] @
    [0x781B, 0xA91A, 0x9A1A, 0x4B1B, 0xFC1A, 0x2D1B, 0x1E1B, 0xCF1A] @
    [0x0011, 0xD110, 0xE210, 0x3311, 0x8410, 0x5511, 0x6611, 0xB710] @
    [0x4810, 0x9911, 0xAA11, 0x7B10, 0xCC11, 0x1D10, 0x2E10, 0xFF11] @
    [0x9013, 0x4112, 0x7212, 0xA313, 0x1412, 0xC513, 0xF613, 0x2712] @
    [0xD812, 0x0913, 0x3A13, 0xEB12, 0x5C13, 0x8D12, 0xBE12, 0x6F13] @
    [0x6016, 0xB117, 0x8217, 0x5316, 0xE417, 0x3516, 0x0616, 0xD717] @
    [0x2817, 0xF916, 0xCA16, 0x1B17, 0xAC16, 0x7D17, 0x4E17, 0x9F16] @
    [0xF014, 0x2115, 0x1215, 0xC314, 0x7415, 0xA514, 0x9614, 0x4715] @
    [0xB815, 0x6914, 0x5A14, 0x8B15, 0x3C14, 0xED15, 0xDE15, 0x0F14]"

definition crc16_tab_6 :: "u16 list" where
  "crc16_tab_6 =
    [0x0000, 0xC010, 0xC023, 0x0033, 0xC045, 0x0055, 0x0066, 0xC076] @
    [0xC089, 0x0099, 0x00AA, 0xC0BA, 0x00CC, 0xC0DC, 0xC0EF, 0x00FF] @
    [0xC111, 0x0101, 0x0132, 0xC122, 0x0154, 0xC144, 0xC177, 0x0167] @
    [0x0198, 0xC188, 0xC1BB, 0x01AB, 0xC1DD, 0x01CD, 0x01FE, 0xC1EE] @
    [0xC221, 0x0231, 0x0202, 0xC212, 0x0264, 0xC274, 0xC247, 0x0257] @
    [0x02A8, 0xC2B8, 0xC28B, 0x029B, 0xC2ED, 0x02FD, 0x02CE, 0xC2DE] @
    [0x0330, 0xC320, 0xC313, 0x0303, 0xC375, 0x0365, 0x0356, 0xC346] @
    [0xC3B9, 0x03A9, 0x039A, 0xC38A, 0x03FC, 0xC3EC, 0xC3DF, 0x03CF] @
    [0xC441, 0x0451, 0x0462, 0xC472, 0x0404, 0xC414, 0xC427, 0x0437] @
    [0x04C8, 0xC4D8, 0xC4EB, 0x04FB, 0xC48D, 0x049D, 0x04AE, 0xC4BE] @
    [0x0550, 0xC540, 0xC573, 0x0563, 0xC515, 0x0505, 0x0536, 0xC526] @
    [0xC5D9, 0x05C9, 0x05FA, 0xC5EA, 0x059C, 0xC58C, 0xC5BF, 0x05AF] @
    [0x0660, 0xC670, 0xC643, 0x0653, 0xC625, 0x0635, 0x0606, 0xC616] @
    [0xC6E9, 0x06F9, 0x06CA, 0xC6DA, 0x06AC, 0xC6BC, 0xC68F, 0x069F] @
    [0xC771, 0x0761, 0x0752, 0xC742, 0x0734, 0xC724, 0xC717, 0x0707] @
    [0x07F8, 0xC7E8, 0xC7DB, 0x07CB, 0xC7BD, 0x07AD, 0x079E, 0xC78E] @
    [0xC881, 0x0891, 0x08A2, 0xC8B2, 0x08C4, 0xC8D4, 0xC8E7, 0x08F7] @
    [0x0808, 0xC818, 0xC82B, 0x083B, 0xC84D, 0x085D, 0x086E, 0xC87E] @
    [0x0990, 0xC980, 0xC9B3, 0x09A3, 0xC9D5, 0x09C5, 0x09F6, 0xC9E6] @
    [0xC919, 0x0909, 0x093A, 0xC92A, 0x095C, 0xC94C, 0xC97F, 0x096F] @
    [0x0AA0, 0xCAB0, 0xCA83, 0x0A93, 0xCAE5, 0x0AF5, 0x0AC6, 0xCAD6] @
    [0xCA29, 0x0A39, 0x0A0A, 0xCA1A, 0x0A6C, 0xCA7C, 0xCA4F, 0x0A5F] @
    [0xCBB1, 0x0BA1, 0x0B92, 0xCB82, 0x0BF4, 0xCBE4, 0xCBD7, 0x0BC7] @
    [0x0B38, 0xCB28, 0xCB1B, 0x0B0B, 0xCB7D, 0x0B6D, 0x0B5E, 0xCB4E] @
    [0x0CC0, 0xCCD0, 0xCCE3, 0x0CF3, 0xCC85, 0x0C95, 0x0CA6, 0xCCB6] @
    [0xCC49, 0x0C59, 0x0C6A, 0xCC7A, 0x0C0C, 0xCC1C, 0xCC2F, 0x0C3F] @
    [0xCDD1, 0x0DC1, 0x0DF2, 0xCDE2, 0x0D94, 0xCD84, 0xCDB7, 0x0DA7] @
    [0x0D58, 0xCD48, 0xCD7B, 0x0D6B, 0xCD1D, 0x0D0D, 0x0D3E, 0xCD2E] @
    [0xCEE1, 0x0EF1, 0x0EC2, 0xCED2, 0x0EA4, 0xCEB4, 0xCE87, 0x0E97] @
    [0x0E68, 0xCE78, 0xCE4B, 0x0E5B, 0xCE2D, 0x0E3D, 0x0E0E, 0xCE1E] @
    [0x0FF0, 0xCFE0, 0xCFD3, 0x0FC3, 0xCFB5, 0x0FA5, 0x0F96, 0xCF86] @
    [0xCF79, 0x0F69, 0x0F5A, 0xCF4A, 0x0F3C, 0xCF2C, 0xCF1F, 0x0F0F]"

definition crc16_tab_7 :: "u16 list" where
  "crc16_tab_7 =
    [0x0000, 0xCCC1, 0xD981, 0x1540, 0xF301, 0x3FC0, 0x2A80, 0xE641] @
    [0xA601, 0x6AC0, 0x7F80, 0xB341, 0x5500, 0x99C1, 0x8C81, 0x4040] @
    [0x0C01, 0xC0C0, 0xD580, 0x1941, 0xFF00, 0x33C1, 0x2681, 0xEA40] @
    [0xAA00, 0x66C1, 0x7381, 0xBF40, 0x5901, 0x95C0, 0x8080, 0x4C41] @
    [0x1802, 0xD4C3, 0xC183, 0x0D42, 0xEB03, 0x27C2, 0x3282, 0xFE43] @
    [0xBE03, 0x72C2, 0x6782, 0xAB43, 0x4D02, 0x81C3, 0x9483, 0x5842] @
    [0x1403, 0xD8C2, 0xCD82, 0x0143, 0xE702, 0x2BC3, 0x3E83, 0xF242] @
    [0xB202, 0x7EC3, 0x6B83, 0xA742, 0x4103, 0x8DC2, 0x9882, 0x5443] @
    [0x3004, 0xFCC5, 0xE985, 0x2544, 0xC305, 0x0FC4, 0x1A84, 0xD645] @
    [0x9605, 0x5AC4, 0x4F84, 0x8345, 0x6504, 0xA9C5, 0xBC85, 0x7044] @
    [0x3C05, 0xF0C4, 0xE584, 0x2945, 0xCF04, 0x03C5, 0x1685, 0xDA44] @
    [0x9A04, 0x56C5, 0x4385, 0x8F44, 0x6905, 0xA5C4, 0xB084, 0x7C45] @
    [0x2806, 0xE4C7, 0xF187, 0x3D46, 0xDB07, 0x17C6, 0x0286, 0xCE47] @
    [0x8E07, 0x42C6, 0x5786, 0x9B47, 0x7D06, 0xB1C7, 0xA487, 0x6846] @
    [0x2407, 0xE8C6, 0xFD86, 0x3147, 0xD706, 0x1BC7, 0x0E87, 0xC246] @
    [0x8206, 0x4EC7, 0x5B87, 0x9746, 0x7107, 0xBDC6, 0xA886, 0x6447] @
    [0x6008, 0xACC9, 0xB989, 0x7548, 0x9309, 0x5FC8, 0x4A88, 0x8649] @
    [0xC609, 0x0AC8, 0x1F88, 0xD349, 0x3508, 0xF9C9, 0xEC89, 0x2048] @
    [0x6C09, 0xA0C8, 0xB588, 0x7949, 0x9F08, 0x53C9, 0x4689, 0x8A48] @
    [0xCA08, 0x06C9, 0x1389, 0xDF48, 0x3909, 0xF5C8, 0xE088, 0x2C49] @
    [0x780A, 0xB4CB, 0xA18B, 0x6D4A, 0x8B0B, 0x47CA, 0x528A, 0x9E4B] @
    [0xDE0B, 0x12CA, 0x078A, 0xCB4B, 0x2D0A, 0xE1CB, 0xF48B, 0x384A] @
    [0x740B, 0xB8CA, 0xAD8A, 0x614B, 0x870A, 0x4BCB, 0x5E8B, 0x924A] @
    [0xD20A, 0x1ECB, 0x0B8B, 0xC74A, 0x210B, 0xEDCA, 0xF88A, 0x344B] @
    [0x500C, 0x9CCD, 0x898D, 0x454C, 0xA30D, 0x6FCC, 0x7A8C, 0xB64D] @
    [0xF60D, 0x3ACC, 0x2F8C, 0xE34D, 0x050C, 0xC9CD, 0xDC8D, 0x104C] @
    [0x5C0D, 0x90CC, 0x858C, 0x494D, 0xAF0C, 0x63CD, 0x768D, 0xBA4C] @
    [0xFA0C, 0x36CD, 0x238D, 0xEF4C, 0x090D, 0xC5CC, 0xD08C, 0x1C4D] @
    [0x480E, 0x84CF, 0x918F, 0x5D4E, 0xBB0F, 0x77CE, 0x628E, 0xAE4F] @
    [0xEE0F, 0x22CE, 0x378E, 0xFB4F, 0x1D0E, 0xD1CF, 0xC48F, 0x084E] @
    [0x440F, 0x88CE, 0x9D8E, 0x514F, 0xB70E, 0x7BCF, 0x6E8F, 0xA24E] @
    [0xE20E, 0x2ECF, 0x3B8F, 0xF74E, 0x110F, 0xDDCE, 0xC88E, 0x044F]"

definition crc16_btab_0 :: "u16 list" where
  "crc16_btab_0 =
    [0x0000, 0xF954, 0xB2AB, 0x4BFF, 0x2555, 0xDC01, 0x97FE, 0x6EAA] @
    [0x4AAA, 0xB3FE, 0xF801, 0x0155, 0x6FFF, 0x96AB, 0xDD54, 0x2400] @
    [0x9554, 0x6C00, 0x27FF, 0xDEAB, 0xB001, 0x4955, 0x02AA, 0xFBFE] @
    [0xDFFE, 0x26AA, 0x6D55, 0x9401, 0xFAAB, 0x03FF, 0x4800, 0xB154] @
    [0x6AAB, 0x93FF, 0xD800, 0x2154, 0x4FFE, 0xB6AA, 0xFD55, 0x0401] @
    [0x2001, 0xD955, 0x92AA, 0x6BFE, 0x0554, 0xFC00, 0xB7FF, 0x4EAB] @
    [0xFFFF, 0x06AB, 0x4D54, 0xB400, 0xDAAA, 0x23FE, 0x6801, 0x9155] @
    [0xB555, 0x4C01, 0x07FE, 0xFEAA, 0x9000, 0x6954, 0x22AB, 0xDBFF] @
    [0xD556, 0x2C02, 0x67FD, 0x9EA9, 0xF003, 0x0957, 0x42A8, 0xBBFC] @
    [0x9FFC, 0x66A8, 0x2D57, 0xD403, 0xBAA9, 0x43FD, 0x0802, 0xF156] @
    [0x4002, 0xB956, 0xF2A9, 0x0BFD, 0x6557, 0x9C03, 0xD7FC, 0x2EA8] @
    [0x0AA8, 0xF3FC, 0xB803, 0x4157, 0x2FFD, 0xD6A9, 0x9D56, 0x6402] @
    [0xBFFD, 0x46A9, 0x0D56, 0xF402, 0x9AA8, 0x63FC, 0x2803, 0xD157] @
    [0xF557, 0x0C03, 0x47FC, 0xBEA8, 0xD002, 0x2956, 0x62A9, 0x9BFD] @
    [0x2AA9, 0xD3FD, 0x9802, 0x6156, 0x0FFC, 0xF6A8, 0xBD57, 0x4403] @
    [0x6003, 0x9957, 0xD2A8, 0x2BFC, 0x4556, 0xBC02, 0xF7FD, 0x0EA9] @
    [0xEAAF, 0x13FB, 0x5804, 0xA150, 0xCFFA, 0x36AE, 0x7D51, 0x8405] @
    [0xA005, 0x5951, 0x12AE, 0xEBFA, 0x8550, 0x7C04, 0x37FB, 0xCEAF] @
    [0x7FFB, 0x86AF, 0xCD50, 0x3404, 0x5AAE, 0xA3FA, 0xE805, 0x1151] @
    [0x3551, 0xCC05, 0x87FA, 0x7EAE, 0x1004, 0xE950, 0xA2AF, 0x5BFB] @
    [0x8004, 0x7950, 0x32AF, 0xCBFB, 0xA551, 0x5C05, 0x17FA, 0xEEAE] @
    [0xCAAE, 0x33FA, 0x7805, 0x8151, 0xEFFB, 0x16AF, 0x5D50, 0xA404] @
    [0x1550, 0xEC04, 0xA7FB, 0x5EAF, 0x3005, 0xC951, 0x82AE, 0x7BFA] @
    [0x5FFA, 0xA6AE, 0xED51, 0x1405, 0x7AAF, 0x83FB, 0xC804, 0x3150] @
    [0x3FF9, 0xC6AD, 0x8D52, 0x7406, 0x1AAC, 0xE3F8, 0xA807, 0x5153] @
    [0x7553, 0x8C07, 0xC7F8, 0x3EAC, 0x5006, 0xA952, 0xE2AD, 0x1BF9] @
    [0xAAAD, 0x53F9, 0x1806, 0xE152, 0x8FF8, 0x76AC, 0x3D53, 0xC407] @
    [0xE007, 0x1953, 0x52AC, 0xABF8, 0xC552, 0x3C06, 0x77F9, 0x8EAD] @
    [0x5552, 0xAC06, 0xE7F9, 0x1EAD, 0x7007, 0x8953, 0xC2AC, 0x3BF8] @
    [0x1FF8, 0xE6AC, 0xAD53, 0x5407, 0x3AAD, 0xC3F9, 0x8806, 0x7152] @
    [0xC006, 0x3952, 0x72AD, 0x8BF9, 0xE553, 0x1C07, 0x57F8, 0xAEAC] @
    [0x8AAC, 0x73F8, 0x3807, 0xC153, 0xAFF9, 0x56AD, 0x1D52, 0xE406]"

definition crc16_btab_1 :: "u16 list" where
  "crc16_btab_1 =
    [0x0000, 0xFFF8, 0xBFF3, 0x400B, 0x3FE5, 0xC01D, 0x8016, 0x7FEE] @
    [0x7FCA, 0x8032, 0xC039, 0x3FC1, 0x402F, 0xBFD7, 0xFFDC, 0x0024] @
    [0xFF94, 0x006C, 0x4067, 0xBF9F, 0xC071, 0x3F89, 0x7F82, 0x807A] @
    [0x805E, 0x7FA6, 0x3FAD, 0xC055, 0xBFBB, 0x4043, 0x0048, 0xFFB0] @
    [0xBF2B, 0x40D3, 0x00D8, 0xFF20, 0x80CE, 0x7F36, 0x3F3D, 0xC0C5] @
    [0xC0E1, 0x3F19, 0x7F12, 0x80EA, 0xFF04, 0x00FC, 0x40F7, 0xBF0F] @
    [0x40BF, 0xBF47, 0xFF4C, 0x00B4, 0x7F5A, 0x80A2, 0xC0A9, 0x3F51] @
    [0x3F75, 0xC08D, 0x8086, 0x7F7E, 0x0090, 0xFF68, 0xBF63, 0x409B] @
    [0x3E55, 0xC1AD, 0x81A6, 0x7E5E, 0x01B0, 0xFE48, 0xBE43, 0x41BB] @
    [0x419F, 0xBE67, 0xFE6C, 0x0194, 0x7E7A, 0x8182, 0xC189, 0x3E71] @
    [0xC1C1, 0x3E39, 0x7E32, 0x81CA, 0xFE24, 0x01DC, 0x41D7, 0xBE2F] @
    [0xBE0B, 0x41F3, 0x01F8, 0xFE00, 0x81EE, 0x7E16, 0x3E1D, 0xC1E5] @
    [0x817E, 0x7E86, 0x3E8D, 0xC175, 0xBE9B, 0x4163, 0x0168, 0xFE90] @
    [0xFEB4, 0x014C, 0x4147, 0xBEBF, 0xC151, 0x3EA9, 0x7EA2, 0x815A] @
    [0x7EEA, 0x8112, 0xC119, 0x3EE1, 0x410F, 0xBEF7, 0xFEFC, 0x0104] @
    [0x0120, 0xFED8, 0xBED3, 0x412B, 0x3EC5, 0xC13D, 0x8136, 0x7ECE] @
    [0x7CAA, 0x8352, 0xC359, 0x3CA1, 0x434F, 0xBCB7, 0xFCBC, 0x0344] @
    [0x0360, 0xFC98, 0xBC93, 0x436B, 0x3C85, 0xC37D, 0x8376, 0x7C8E] @
    [0x833E, 0x7CC6, 0x3CCD, 0xC335, 0xBCDB, 0x4323, 0x0328, 0xFCD0] @
    [0xFCF4, 0x030C, 0x4307, 0xBCFF, 0xC311, 0x3CE9, 0x7CE2, 0x831A] @
    [0xC381, 0x3C79, 0x7C72, 0x838A, 0xFC64, 0x039C, 0x4397, 0xBC6F] @
    [0xBC4B, 0x43B3, 0x03B8, 0xFC40, 0x83AE, 0x7C56, 0x3C5D, 0xC3A5] @
    [0x3C15, 0xC3ED, 0x83E6, 0x7C1E, 0x03F0, 0xFC08, 0xBC03, 0x43FB] @
    [0x43DF, 0xBC27, 0xFC2C, 0x03D4, 0x7C3A, 0x83C2, 0xC3C9, 0x3C31] @
    [0x42FF, 0xBD07, 0xFD0C, 0x02F4, 0x7D1A, 0x82E2, 0xC2E9, 0x3D11] @
    [0x3D35, 0xC2CD, 0x82C6, 0x7D3E, 0x02D0, 0xFD28, 0xBD23, 0x42DB] @
    [0xBD6B, 0x4293, 0x0298, 0xFD60, 0x828E, 0x7D76, 0x3D7D, 0xC285] @
    [0xC2A1, 0x3D59, 0x7D52, 0x82AA, 0xFD44, 0x02BC, 0x42B7, 0xBD4F] @
    [0xFDD4, 0x022C, 0x4227, 0xBDDF, 0xC231, 0x3DC9, 0x7DC2, 0x823A] @
    [0x821E, 0x7DE6, 0x3DED, 0xC215, 0xBDFB, 0x4203, 0x0208, 0xFDF0] @
    [0x0240, 0xFDB8, 0xBDB3, 0x424B, 0x3DA5, 0xC25D, 0x8256, 0x7DAE] @
    [0x7D8A, 0x8272, 0xC279, 0x3D81, 0x426F, 0xBD97, 0xFD9C, 0x0264]"

definition crc16_btab_2 :: "u16 list" where
  "crc16_btab_2 =
    [0x0000, 0x82FE, 0x45FF, 0xC701, 0x8BFE, 0x0900, 0xCE01, 0x4CFF] @
    [0x57FF, 0xD501, 0x1200, 0x90FE, 0xDC01, 0x5EFF, 0x99FE, 0x1B00] @
    [0xAFFE, 0x2D00, 0xEA01, 0x68FF, 0x2400, 0xA6FE, 0x61FF, 0xE301] @
    [0xF801, 0x7AFF, 0xBDFE, 0x3F00, 0x73FF, 0xF101, 0x3600, 0xB4FE] @
    [0x1FFF, 0x9D01, 0x5A00, 0xD8FE, 0x9401, 0x16FF, 0xD1FE, 0x5300] @
    [0x4800, 0xCAFE, 0x0DFF, 0x8F01, 0xC3FE, 0x4100, 0x8601, 0x04FF] @
    [0xB001, 0x32FF, 0xF5FE, 0x7700, 0x3BFF, 0xB901, 0x7E00, 0xFCFE] @
    [0xE7FE, 0x6500, 0xA201, 0x20FF, 0x6C00, 0xEEFE, 0x29FF, 0xAB01] @
    [0x3FFE, 0xBD00, 0x7A01, 0xF8FF, 0xB400, 0x36FE, 0xF1FF, 0x7301] @
    [0x6801, 0xEAFF, 0x2DFE, 0xAF00, 0xE3FF, 0x6101, 0xA600, 0x24FE] @
    [0x9000, 0x12FE, 0xD5FF, 0x5701, 0x1BFE, 0x9900, 0x5E01, 0xDCFF] @
    [0xC7FF, 0x4501, 0x8200, 0x00FE, 0x4C01, 0xCEFF, 0x09FE, 0x8B00] @
    [0x2001, 0xA2FF, 0x65FE, 0xE700, 0xABFF, 0x2901, 0xEE00, 0x6CFE] @
    [0x77FE, 0xF500, 0x3201, 0xB0FF, 0xFC00, 0x7EFE, 0xB9FF, 0x3B01] @
    [0x8FFF, 0x0D01, 0xCA00, 0x48FE, 0x0401, 0x86FF, 0x41FE, 0xC300] @
    [0xD800, 0x5AFE, 0x9DFF, 0x1F01, 0x53FE, 0xD100, 0x1601, 0x94FF] @
    [0x7FFC, 0xFD02, 0x3A03, 0xB8FD, 0xF402, 0x76FC, 0xB1FD, 0x3303] @
    [0x2803, 0xAAFD, 0x6DFC, 0xEF02, 0xA3FD, 0x2103, 0xE602, 0x64FC] @
    [0xD002, 0x52FC, 0x95FD, 0x1703, 0x5BFC, 0xD902, 0x1E03, 0x9CFD] @
    [0x87FD, 0x0503, 0xC202, 0x40FC, 0x0C03, 0x8EFD, 0x49FC, 0xCB02] @
    [0x6003, 0xE2FD, 0x25FC, 0xA702, 0xEBFD, 0x6903, 0xAE02, 0x2CFC] @
    [0x37FC, 0xB502, 0x7203, 0xF0FD, 0xBC02, 0x3EFC, 0xF9FD, 0x7B03] @
    [0xCFFD, 0x4D03, 0x8A02, 0x08FC, 0x4403, 0xC6FD, 0x01FC, 0x8302] @
    [0x9802, 0x1AFC, 0xDDFD, 0x5F03, 0x13FC, 0x9102, 0x5603, 0xD4FD] @
    [0x4002, 0xC2FC, 0x05FD, 0x8703, 0xCBFC, 0x4902, 0x8E03, 0x0CFD] @
    [0x17FD, 0x9503, 0x5202, 0xD0FC, 0x9C03, 0x1EFD, 0xD9FC, 0x5B02] @
    [0xEFFC, 0x6D02, 0xAA03, 0x28FD, 0x6402, 0xE6FC, 0x21FD, 0xA303] @
    [0xB803, 0x3AFD, 0xFDFC, 0x7F02, 0x33FD, 0xB103, 0x7602, 0xF4FC] @
    [0x5FFD, 0xDD03, 0x1A02, 0x98FC, 0xD403, 0x56FD, 0x91FC, 0x1302] @
    [0x0802, 0x8AFC, 0x4DFD, 0xCF03, 0x83FC, 0x0102, 0xC603, 0x44FD] @
    [0xF003, 0x72FD, 0xB5FC, 0x3702, 0x7BFD, 0xF903, 0x3E02, 0xBCFC] @
    [0xA7FC, 0x2502, 0xE203, 0x60FD, 0x2C02, 0xAEFC, 0x69FD, 0xEB03]"

definition crc16_btab_3 :: "u16 list" where
  "crc16_btab_3 =
    [0x0000, 0x8003, 0x4005, 0xC006, 0x800A, 0x0009, 0xC00F, 0x400C] @
    [0x4017, 0xC014, 0x0012, 0x8011, 0xC01D, 0x401E, 0x8018, 0x001B] @
    [0x802E, 0x002D, 0xC02B, 0x4028, 0x0024, 0x8027, 0x4021, 0xC022] @
    [0xC039, 0x403A, 0x803C, 0x003F, 0x4033, 0xC030, 0x0036, 0x8035] @
    [0x405F, 0xC05C, 0x005A, 0x8059, 0xC055, 0x4056, 0x8050, 0x0053] @
    [0x0048, 0x804B, 0x404D, 0xC04E, 0x8042, 0x0041, 0xC047, 0x4044] @
    [0xC071, 0x4072, 0x8074, 0x0077, 0x407B, 0xC078, 0x007E, 0x807D] @
    [0x8066, 0x0065, 0xC063, 0x4060, 0x006C, 0x806F, 0x4069, 0xC06A] @
    [0x80BE, 0x00BD, 0xC0BB, 0x40B8, 0x00B4, 0x80B7, 0x40B1, 0xC0B2] @
    [0xC0A9, 0x40AA, 0x80AC, 0x00AF, 0x40A3, 0xC0A0, 0x00A6, 0x80A5] @
    [0x0090, 0x8093, 0x4095, 0xC096, 0x809A, 0x0099, 0xC09F, 0x409C] @
    [0x4087, 0xC084, 0x0082, 0x8081, 0xC08D, 0x408E, 0x8088, 0x008B] @
    [0xC0E1, 0x40E2, 0x80E4, 0x00E7, 0x40EB, 0xC0E8, 0x00EE, 0x80ED] @
    [0x80F6, 0x00F5, 0xC0F3, 0x40F0, 0x00FC, 0x80FF, 0x40F9, 0xC0FA] @
    [0x40CF, 0xC0CC, 0x00CA, 0x80C9, 0xC0C5, 0x40C6, 0x80C0, 0x00C3] @
    [0x00D8, 0x80DB, 0x40DD, 0xC0DE, 0x80D2, 0x00D1, 0xC0D7, 0x40D4] @
    [0x417F, 0xC17C, 0x017A, 0x8179, 0xC175, 0x4176, 0x8170, 0x0173] @
    [0x0168, 0x816B, 0x416D, 0xC16E, 0x8162, 0x0161, 0xC167, 0x4164] @
    [0xC151, 0x4152, 0x8154, 0x0157, 0x415B, 0xC158, 0x015E, 0x815D] @
    [0x8146, 0x0145, 0xC143, 0x4140, 0x014C, 0x814F, 0x4149, 0xC14A] @
    [0x0120, 0x8123, 0x4125, 0xC126, 0x812A, 0x0129, 0xC12F, 0x412C] @
    [0x4137, 0xC134, 0x0132, 0x8131, 0xC13D, 0x413E, 0x8138, 0x013B] @
    [0x810E, 0x010D, 0xC10B, 0x4108, 0x0104, 0x8107, 0x4101, 0xC102] @
    [0xC119, 0x411A, 0x811C, 0x011F, 0x4113, 0xC110, 0x0116, 0x8115] @
    [0xC1C1, 0x41C2, 0x81C4, 0x01C7, 0x41CB, 0xC1C8, 0x01CE, 0x81CD] @
    [0x81D6, 0x01D5, 0xC1D3, 0x41D0, 0x01DC, 0x81DF, 0x41D9, 0xC1DA] @
    [0x41EF, 0xC1EC, 0x01EA, 0x81E9, 0xC1E5, 0x41E6, 0x81E0, 0x01E3] @
    [0x01F8, 0x81FB, 0x41FD, 0xC1FE, 0x81F2, 0x01F1, 0xC1F7, 0x41F4] @
    [0x819E, 0x019D, 0xC19B, 0x4198, 0x0194, 0x8197, 0x4191, 0xC192] @
    [0xC189, 0x418A, 0x818C, 0x018F, 0x4183, 0xC180, 0x0186, 0x8185] @
    [0x01B0, 0x81B3, 0x41B5, 0xC1B6, 0x81BA, 0x01B9, 0xC1BF, 0x41BC] @
    [0x41A7, 0xC1A4, 0x01A2, 0x81A1, 0xC1AD, 0x41AE, 0x81A8, 0x01AB]"

definition crc16_btab_4 :: "u16 list" where
  "crc16_btab_4 =
    [0x0000, 0x01C0, 0x0380, 0x0240, 0x0700, 0x06C0, 0x0480, 0x0540] @
    [0x0E00, 0x0FC0, 0x0D80, 0x0C40, 0x0900, 0x08C0, 0x0A80, 0x0B40] @
    [0x1C00, 0x1DC0, 0x1F80, 0x1E40, 0x1B00, 0x1AC0, 0x1880, 0x1940] @
    [0x1200, 0x13C0, 0x1180, 0x1040, 0x1500, 0x14C0, 0x1680, 0x1740] @
    [0x3800, 0x39C0, 0x3B80, 0x3A40, 0x3F00, 0x3EC0, 0x3C80, 0x3D40] @
    [0x3600, 0x37C0, 0x3580, 0x3440, 0x3100, 0x30C0, 0x3280, 0x3340] @
    [0x2400, 0x25C0, 0x2780, 0x2640, 0x2300, 0x22C0, 0x2080, 0x2140] @
    [0x2A00, 0x2BC0, 0x2980, 0x2840, 0x2D00, 0x2CC0, 0x2E80, 0x2F40] @
    [0x7000, 0x71C0, 0x7380, 0x7240, 0x7700, 0x76C0, 0x7480, 0x7540] @
    [0x7E00, 0x7FC0, 0x7D80, 0x7C40, 0x7900, 0x78C0, 0x7A80, 0x7B40] @
    [0x6C00, 0x6DC0, 0x6F80, 0x6E40, 0x6B00, 0x6AC0, 0x6880, 0x6940] @
    [0x6200, 0x63C0, 0x6180, 0x6040, 0x6500, 0x64C0, 0x6680, 0x6740] @
    [0x4800, 0x49C0, 0x4B80, 0x4A40, 0x4F00, 0x4EC0, 0x4C80, 0x4D40] @
    [0x4600, 0x47C0, 0x4580, 0x4440, 0x4100, 0x40C0, 0x4280, 0x4340] @
    [0x5400, 0x55C0, 0x5780, 0x5640, 0x5300, 0x52C0, 0x5080, 0x5140] @
    [0x5A00, 0x5BC0, 0x5980, 0x5840, 0x5D00, 0x5CC0, 0x5E80, 0x5F40] @
    [0xE000, 0xE1C0, 0xE380, 0xE240, 0xE700, 0xE6C0, 0xE480, 0xE540] @
    [0xEE00, 0xEFC0, 0xED80, 0xEC40, 0xE900, 0xE8C0, 0xEA80, 0xEB40] @
    [0xFC00, 0xFDC0, 0xFF80, 0xFE40, 0xFB00, 0xFAC0, 0xF880, 0xF940] @
    [0xF200, 0xF3C0, 0xF180, 0xF040, 0xF500, 0xF4C0, 0xF680, 0xF740] @
    [0xD800, 0xD9C0, 0xDB80, 0xDA40, 0xDF00, 0xDEC0, 0xDC80, 0xDD40] @
    [0xD600, 0xD7C0, 0xD580, 0xD440, 0xD100, 0xD0C0, 0xD280, 0xD340] @
    [0xC400, 0xC5C0, 0xC780, 0xC640, 0xC300, 0xC2C0, 0xC080, 0xC140] @
    [0xCA00, 0xCBC0, 0xC980, 0xC840, 0xCD00, 0xCCC0, 0xCE80, 0xCF40] @
    [0x9000, 0x91C0, 0x9380, 0x9240, 0x9700, 0x96C0, 0x9480, 0x9540] @
    [0x9E00, 0x9FC0, 0x9D80, 0x9C40, 0x9900, 0x98C0, 0x9A80, 0x9B40] @
    [0x8C00, 0x8DC0, 0x8F80, 0x8E40, 0x8B00, 0x8AC0, 0x8880, 0x8940] @
    [0x8200, 0x83C0, 0x8180, 0x8040, 0x8500, 0x84C0, 0x8680, 0x8740] @
    [0xA800, 0xA9C0, 0xAB80, 0xAA40, 0xAF00, 0xAEC0, 0xAC80, 0xAD40] @
    [0xA600, 0xA7C0, 0xA580, 0xA440, 0xA100, 0xA0C0, 0xA280, 0xA340] @
    [0xB400, 0xB5C0, 0xB780, 0xB640, 0xB300, 0xB2C0, 0xB080, 0xB140] @
    [0xBA00, 0xBBC0, 0xB980, 0xB840, 0xBD00, 0xBCC0, 0xBE80, 0xBF40]"

definition crc16_btab_5 :: "u16 list" where
  "crc16_btab_5 =
    [0x0000, 0x5001, 0xA002, 0xF003, 0x0007, 0x5006, 0xA005, 0xF004] @
    [0x000E, 0x500F, 0xA00C, 0xF00D, 0x0009, 0x5008, 0xA00B, 0xF00A] @
    [0x001C, 0x501D, 0xA01E, 0xF01F, 0x001B, 0x501A, 0xA019, 0xF018] @
    [0x0012, 0x5013, 0xA010, 0xF011, 0x0015, 0x5014, 0xA017, 0xF016] @
    [0x0038, 0x5039, 0xA03A, 0xF03B, 0x003F, 0x503E, 0xA03D, 0xF03C] @
    [0x0036, 0x5037, 0xA034, 0xF035, 0x0031, 0x5030, 0xA033, 0xF032] @
    [0x0024, 0x5025, 0xA026, 0xF027, 0x0023, 0x5022, 0xA021, 0xF020] @
    [0x002A, 0x502B, 0xA028, 0xF029, 0x002D, 0x502C, 0xA02F, 0xF02E] @
    [0x0070, 0x5071, 0xA072, 0xF073, 0x0077, 0x5076, 0xA075, 0xF074] @
    [0x007E, 0x507F, 0xA07C, 0xF07D, 0x0079, 0x5078, 0xA07B, 0xF07A] @
    [0x006C, 0x506D, 0xA06E, 0xF06F, 0x006B, 0x506A, 0xA069, 0xF068] @
    [0x0062, 0x5063, 0xA060, 0xF061, 0x0065, 0x5064, 0xA067, 0xF066] @
    [0x0048, 0x5049, 0xA04A, 0xF04B, 0x004F, 0x504E, 0xA04D, 0xF04C] @
    [0x0046, 0x5047, 0xA044, 0xF045, 0x0041, 0x5040, 0xA043, 0xF042] @
    [0x0054, 0x5055, 0xA056, 0xF057, 0x0053, 0x5052, 0xA051, 0xF050] @
    [0x005A, 0x505B, 0xA058, 0xF059, 0x005D, 0x505C, 0xA05F, 0xF05E] @
    [0x00E0, 0x50E1, 0xA0E2, 0xF0E3, 0x00E7, 0x50E6, 0xA0E5, 0xF0E4] @
    [0x00EE, 0x50EF, 0xA0EC, 0xF0ED, 0x00E9, 0x50E8, 0xA0EB, 0xF0EA] @
    [0x00FC, 0x50FD, 0xA0FE, 0xF0FF, 0x00FB, 0x50FA, 0xA0F9, 0xF0F8] @
    [0x00F2, 0x50F3, 0xA0F0, 0xF0F1, 0x00F5, 0x50F4, 0xA0F7, 0xF0F6] @
    [0x00D8, 0x50D9, 0xA0DA, 0xF0DB, 0x00DF, 0x50DE, 0xA0DD, 0xF0DC] @
    [0x00D6, 0x50D7, 0xA0D4, 0xF0D5, 0x00D1, 0x50D0, 0xA0D3, 0xF0D2] @
    [0x00C4, 0x50C5, 0xA0C6, 0xF0C7, 0x00C3, 0x50C2, 0xA0C1, 0xF0C0] @
    [0x00CA, 0x50CB, 0xA0C8, 0xF0C9, 0x00CD, 0x50CC, 0xA0CF, 0xF0CE] @
    [0x0090, 0x5091, 0xA092, 0xF093, 0x0097, 0x5096, 0xA095, 0xF094] @
    [0x009E, 0x509F, 0xA09C, 0xF09D, 0x0099, 0x5098, 0xA09B, 0xF09A] @
    [0x008C, 0x508D, 0xA08E, 0xF08F, 0x008B, 0x508A, 0xA089, 0xF088] @
    [0x0082, 0x5083, 0xA080, 0xF081, 0x0085, 0x5084, 0xA087, 0xF086] @
    [0x00A8, 0x50A9, 0xA0AA, 0xF0AB, 0x00AF, 0x50AE, 0xA0AD, 0xF0AC] @
    [0x00A6, 0x50A7, 0xA0A4, 0xF0A5, 0x00A1, 0x50A0, 0xA0A3, 0xF0A2] @
    [0x00B4, 0x50B5, 0xA0B6, 0xF0B7, 0x00B3, 0x50B2, 0xA0B1, 0xF0B0] @
    [0x00BA, 0x50BB, 0xA0B8, 0xF0B9, 0x00BD, 0x50BC, 0xA0BF, 0xF0BE]"

definition crc16_btab_6 :: "u16 list" where
  "crc16_btab_6 =
    [0x0000, 0xC091, 0xC121, 0x01B0, 0xC241, 0x02D0, 0x0360, 0xC3F1] @
    [0xC481, 0x0410, 0x05A0, 0xC531, 0x06C0, 0xC651, 0xC7E1, 0x0770] @
    [0xC901, 0x0990, 0x0820, 0xC8B1, 0x0B40, 0xCBD1, 0xCA61, 0x0AF0] @
    [0x0D80, 0xCD11, 0xCCA1, 0x0C30, 0xCFC1, 0x0F50, 0x0EE0, 0xCE71] @
    [0xD201, 0x1290, 0x1320, 0xD3B1, 0x1040, 0xD0D1, 0xD161, 0x11F0] @
    [0x1680, 0xD611, 0xD7A1, 0x1730, 0xD4C1, 0x1450, 0x15E0, 0xD571] @
    [0x1B00, 0xDB91, 0xDA21, 0x1AB0, 0xD941, 0x19D0, 0x1860, 0xD8F1] @
    [0xDF81, 0x1F10, 0x1EA0, 0xDE31, 0x1DC0, 0xDD51, 0xDCE1, 0x1C70] @
    [0xE401, 0x2490, 0x2520, 0xE5B1, 0x2640, 0xE6D1, 0xE761, 0x27F0] @
    [0x2080, 0xE011, 0xE1A1, 0x2130, 0xE2C1, 0x2250, 0x23E0, 0xE371] @
    [0x2D00, 0xED91, 0xEC21, 0x2CB0, 0xEF41, 0x2FD0, 0x2E60, 0xEEF1] @
    [0xE981, 0x2910, 0x28A0, 0xE831, 0x2BC0, 0xEB51, 0xEAE1, 0x2A70] @
    [0x3600, 0xF691, 0xF721, 0x37B0, 0xF441, 0x34D0, 0x3560, 0xF5F1] @
    [0xF281, 0x3210, 0x33A0, 0xF331, 0x30C0, 0xF051, 0xF1E1, 0x3170] @
    [0xFF01, 0x3F90, 0x3E20, 0xFEB1, 0x3D40, 0xFDD1, 0xFC61, 0x3CF0] @
    [0x3B80, 0xFB11, 0xFAA1, 0x3A30, 0xF9C1, 0x3950, 0x38E0, 0xF871] @
    [0x8801, 0x4890, 0x4920, 0x89B1, 0x4A40, 0x8AD1, 0x8B61, 0x4BF0] @
    [0x4C80, 0x8C11, 0x8DA1, 0x4D30, 0x8EC1, 0x4E50, 0x4FE0, 0x8F71] @
    [0x4100, 0x8191, 0x8021, 0x40B0, 0x8341, 0x43D0, 0x4260, 0x82F1] @
    [0x8581, 0x4510, 0x44A0, 0x8431, 0x47C0, 0x8751, 0x86E1, 0x4670] @
    [0x5A00, 0x9A91, 0x9B21, 0x5BB0, 0x9841, 0x58D0, 0x5960, 0x99F1] @
    [0x9E81, 0x5E10, 0x5FA0, 0x9F31, 0x5CC0, 0x9C51, 0x9DE1, 0x5D70] @
    [0x9301, 0x5390, 0x5220, 0x92B1, 0x5140, 0x91D1, 0x9061, 0x50F0] @
    [0x5780, 0x9711, 0x96A1, 0x5630, 0x95C1, 0x5550, 0x54E0, 0x9471] @
    [0x6C00, 0xAC91, 0xAD21, 0x6DB0, 0xAE41, 0x6ED0, 0x6F60, 0xAFF1] @
    [0xA881, 0x6810, 0x69A0, 0xA931, 0x6AC0, 0xAA51, 0xABE1, 0x6B70] @
    [0xA501, 0x6590, 0x6420, 0xA4B1, 0x6740, 0xA7D1, 0xA661, 0x66F0] @
    [0x6180, 0xA111, 0xA0A1, 0x6030, 0xA3C1, 0x6350, 0x62E0, 0xA271] @
    [0xBE01, 0x7E90, 0x7F20, 0xBFB1, 0x7C40, 0xBCD1, 0xBD61, 0x7DF0] @
    [0x7A80, 0xBA11, 0xBBA1, 0x7B30, 0xB8C1, 0x7850, 0x79E0, 0xB971] @
    [0x7700, 0xB791, 0xB621, 0x76B0, 0xB541, 0x75D0, 0x7460, 0xB4F1] @
    [0xB381, 0x7310, 0x72A0, 0xB231, 0x71C0, 0xB151, 0xB0E1, 0x7070]"

definition crc16_btab_7 :: "u16 list" where
  "crc16_btab_7 =
    [0x0000, 0xAC01, 0x1801, 0xB400, 0x3002, 0x9C03, 0x2803, 0x8402] @
    [0x6004, 0xCC05, 0x7805, 0xD404, 0x5006, 0xFC07, 0x4807, 0xE406] @
    [0xC008, 0x6C09, 0xD809, 0x7408, 0xF00A, 0x5C0B, 0xE80B, 0x440A] @
    [0xA00C, 0x0C0D, 0xB80D, 0x140C, 0x900E, 0x3C0F, 0x880F, 0x240E] @
    [0xC013, 0x6C12, 0xD812, 0x7413, 0xF011, 0x5C10, 0xE810, 0x4411] @
    [0xA017, 0x0C16, 0xB816, 0x1417, 0x9015, 0x3C14, 0x8814, 0x2415] @
    [0x001B, 0xAC1A, 0x181A, 0xB41B, 0x3019, 0x9C18, 0x2818, 0x8419] @
    [0x601F, 0xCC1E, 0x781E, 0xD41F, 0x501D, 0xFC1C, 0x481C, 0xE41D] @
    [0xC025, 0x6C24, 0xD824, 0x7425, 0xF027, 0x5C26, 0xE826, 0x4427] @
    [0xA021, 0x0C20, 0xB820, 0x1421, 0x9023, 0x3C22, 0x8822, 0x2423] @
    [0x002D, 0xAC2C, 0x182C, 0xB42D, 0x302F, 0x9C2E, 0x282E, 0x842F] @
    [0x6029, 0xCC28, 0x7828, 0xD429, 0x502B, 0xFC2A, 0x482A, 0xE42B] @
    [0x0036, 0xAC37, 0x1837, 0xB436, 0x3034, 0x9C35, 0x2835, 0x8434] @
    [0x6032, 0xCC33, 0x7833, 0xD432, 0x5030, 0xFC31, 0x4831, 0xE430] @
    [0xC03E, 0x6C3F, 0xD83F, 0x743E, 0xF03C, 0x5C3D, 0xE83D, 0x443C] @
    [0xA03A, 0x0C3B, 0xB83B, 0x143A, 0x9038, 0x3C39, 0x8839, 0x2438] @
    [0xC049, 0x6C48, 0xD848, 0x7449, 0xF04B, 0x5C4A, 0xE84A, 0x444B] @
    [0xA04D, 0x0C4C, 0xB84C, 0x144D, 0x904F, 0x3C4E, 0x884E, 0x244F] @
    [0x0041, 0xAC40, 0x1840, 0xB441, 0x3043, 0x9C42, 0x2842, 0x8443] @
    [0x6045, 0xCC44, 0x7844, 0xD445, 0x5047, 0xFC46, 0x4846, 0xE447] @
    [0x005A, 0xAC5B, 0x185B, 0xB45A, 0x3058, 0x9C59, 0x2859, 0x8458] @
    [0x605E, 0xCC5F, 0x785F, 0xD45E, 0x505C, 0xFC5D, 0x485D, 0xE45C] @
    [0xC052, 0x6C53, 0xD853, 0x7452, 0xF050, 0x5C51, 0xE851, 0x4450] @
    [0xA056, 0x0C57, 0xB857, 0x1456, 0x9054, 0x3C55, 0x8855, 0x2454] @
    [0x006C, 0xAC6D, 0x186D, 0xB46C, 0x306E, 0x9C6F, 0x286F, 0x846E] @
    [0x6068, 0xCC69, 0x7869, 0xD468, 0x506A, 0xFC6B, 0x486B, 0xE46A] @
    [0xC064, 0x6C65, 0xD865, 0x7464, 0xF066, 0x5C67, 0xE867, 0x4466] @
    [0xA060, 0x0C61, 0xB861, 0x1460, 0x9062, 0x3C63, 0x8863, 0x2462] @
    [0xC07F, 0x6C7E, 0xD87E, 0x747F, 0xF07D, 0x5C7C, 0xE87C, 0x447D] @
    [0xA07B, 0x0C7A, 0xB87A, 0x147B, 0x9079, 0x3C78, 0x8878, 0x2479] @
    [0x0077, 0xAC76, 0x1876, 0xB477, 0x3075, 0x9C74, 0x2874, 0x8475] @
    [0x6073, 0xCC72, 0x7872, 0xD473, 0x5071, 0xFC70, 0x4870, 0xE471]"

section \<open>The powers of two\<close>

lemma crc16_step: "map (crc_zeros P (8 * Suc k)) xs = map (crc_zeros P 8) (map (crc_zeros P (8 * k)) xs)"
  using crc_zeros_add [of P 8 "8 * k"] by simp

lemma crc16_z_0: "map (crc_zeros CRC16_POLY (8 * 1)) powers = [0xC0C1, 0xC181, 0xC301, 0xC601, 0xCC01, 0xD801, 0xF001, 0xA001]"
  by (simp add: powers_def crc_zeros_8 crc_bit_lit CRC16_POLY_def)
lemma crc16_z_1: "map (crc_zeros CRC16_POLY (8 * 2)) powers = [0x9001, 0x6001, 0xC002, 0xC007, 0xC00D, 0xC019, 0xC031, 0xC061]"
  using crc16_z_0 crc16_step [of CRC16_POLY 1 powers] by (simp add: crc_zeros_8 crc_bit_lit CRC16_POLY_def)
lemma crc16_z_2: "map (crc_zeros CRC16_POLY (8 * 3)) powers = [0xC051, 0xC0A1, 0xC141, 0xC281, 0xC501, 0xCA01, 0xD401, 0xE801]"
  using crc16_z_1 crc16_step [of CRC16_POLY 2 powers] by (simp add: crc_zeros_8 crc_bit_lit CRC16_POLY_def)
lemma crc16_z_3: "map (crc_zeros CRC16_POLY (8 * 4)) powers = [0xFC01, 0xB801, 0x3001, 0x6002, 0xC004, 0xC00B, 0xC015, 0xC029]"
  using crc16_z_2 crc16_step [of CRC16_POLY 3 powers] by (simp add: crc_zeros_8 crc_bit_lit CRC16_POLY_def)
lemma crc16_z_4: "map (crc_zeros CRC16_POLY (8 * 5)) powers = [0xC03D, 0xC079, 0xC0F1, 0xC1E1, 0xC3C1, 0xC781, 0xCF01, 0xDE01]"
  using crc16_z_3 crc16_step [of CRC16_POLY 4 powers] by (simp add: crc_zeros_8 crc_bit_lit CRC16_POLY_def)
lemma crc16_z_5: "map (crc_zeros CRC16_POLY (8 * 6)) powers = [0xD101, 0xE201, 0x8401, 0x4801, 0x9002, 0x6007, 0xC00E, 0xC01F]"
  using crc16_z_4 crc16_step [of CRC16_POLY 5 powers] by (simp add: crc_zeros_8 crc_bit_lit CRC16_POLY_def)
lemma crc16_z_6: "map (crc_zeros CRC16_POLY (8 * 7)) powers = [0xC010, 0xC023, 0xC045, 0xC089, 0xC111, 0xC221, 0xC441, 0xC881]"
  using crc16_z_5 crc16_step [of CRC16_POLY 6 powers] by (simp add: crc_zeros_8 crc_bit_lit CRC16_POLY_def)
lemma crc16_z_7: "map (crc_zeros CRC16_POLY (8 * 8)) powers = [0xCCC1, 0xD981, 0xF301, 0xA601, 0x0C01, 0x1802, 0x3004, 0x6008]"
  using crc16_z_6 crc16_step [of CRC16_POLY 7 powers] by (simp add: crc_zeros_8 crc_bit_lit CRC16_POLY_def)
lemma crc16_z_8: "map (crc_zeros CRC16_POLY (8 * 9)) powers = [0x900D, 0x6019, 0xC032, 0xC067, 0xC0CD, 0xC199, 0xC331, 0xC661]"
  using crc16_z_7 crc16_step [of CRC16_POLY 8 powers] by (simp add: crc_zeros_8 crc_bit_lit CRC16_POLY_def)
lemma crc16_z_9: "map (crc_zeros CRC16_POLY (8 * 10)) powers = [0xC551, 0xCAA1, 0xD541, 0xEA81, 0x9501, 0x6A01, 0xD402, 0xE807]"
  using crc16_z_8 crc16_step [of CRC16_POLY 9 powers] by (simp add: crc_zeros_8 crc_bit_lit CRC16_POLY_def)
lemma crc16_z_10: "map (crc_zeros CRC16_POLY (8 * 11)) powers = [0xFC04, 0xB80B, 0x3015, 0x602A, 0xC054, 0xC0AB, 0xC155, 0xC2A9]"
  using crc16_z_9 crc16_step [of CRC16_POLY 10 powers] by (simp add: crc_zeros_8 crc_bit_lit CRC16_POLY_def)
lemma crc16_z_11: "map (crc_zeros CRC16_POLY (8 * 12)) powers = [0xC3FD, 0xC7F9, 0xCFF1, 0xDFE1, 0xFFC1, 0xBF81, 0x3F01, 0x7E02]"
  using crc16_z_10 crc16_step [of CRC16_POLY 11 powers] by (simp add: crc_zeros_8 crc_bit_lit CRC16_POLY_def)
lemma crc16_z_12: "map (crc_zeros CRC16_POLY (8 * 13)) powers = [0x8102, 0x4207, 0x840E, 0x481F, 0x903E, 0x607F, 0xC0FE, 0xC1FF]"
  using crc16_z_11 crc16_step [of CRC16_POLY 12 powers] by (simp add: crc_zeros_8 crc_bit_lit CRC16_POLY_def)
lemma crc16_z_13: "map (crc_zeros CRC16_POLY (8 * 14)) powers = [0xC100, 0xC203, 0xC405, 0xC809, 0xD011, 0xE021, 0x8041, 0x4081]"
  using crc16_z_12 crc16_step [of CRC16_POLY 13 powers] by (simp add: crc_zeros_8 crc_bit_lit CRC16_POLY_def)
lemma crc16_z_14: "map (crc_zeros CRC16_POLY (8 * 15)) powers = [0x00C1, 0x0182, 0x0304, 0x0608, 0x0C10, 0x1820, 0x3040, 0x6080]"
  using crc16_z_13 crc16_step [of CRC16_POLY 14 powers] by (simp add: crc_zeros_8 crc_bit_lit CRC16_POLY_def)
lemma crc16_z_15: "map (crc_zeros CRC16_POLY (8 * 16)) powers = [0x90C1, 0x6181, 0xC302, 0xC607, 0xCC0D, 0xD819, 0xF031, 0xA061]"
  using crc16_z_14 crc16_step [of CRC16_POLY 15 powers] by (simp add: crc_zeros_8 crc_bit_lit CRC16_POLY_def)
lemma crc16_z_16: "map (crc_zeros CRC16_POLY (8 * 17)) powers = [0x9051, 0x60A1, 0xC142, 0xC287, 0xC50D, 0xCA19, 0xD431, 0xE861]"
  using crc16_z_15 crc16_step [of CRC16_POLY 16 powers] by (simp add: crc_zeros_8 crc_bit_lit CRC16_POLY_def)
lemma crc16_z_17: "map (crc_zeros CRC16_POLY (8 * 18)) powers = [0xFC51, 0xB8A1, 0x3141, 0x6282, 0xC504, 0xCA0B, 0xD415, 0xE829]"
  using crc16_z_16 crc16_step [of CRC16_POLY 17 powers] by (simp add: crc_zeros_8 crc_bit_lit CRC16_POLY_def)
lemma crc16_z_18: "map (crc_zeros CRC16_POLY (8 * 19)) powers = [0xFC3D, 0xB879, 0x30F1, 0x61E2, 0xC3C4, 0xC78B, 0xCF15, 0xDE29]"
  using crc16_z_17 crc16_step [of CRC16_POLY 18 powers] by (simp add: crc_zeros_8 crc_bit_lit CRC16_POLY_def)
lemma crc16_z_19: "map (crc_zeros CRC16_POLY (8 * 20)) powers = [0xD13D, 0xE279, 0x84F1, 0x49E1, 0x93C2, 0x6787, 0xCF0E, 0xDE1F]"
  using crc16_z_18 crc16_step [of CRC16_POLY 19 powers] by (simp add: crc_zeros_8 crc_bit_lit CRC16_POLY_def)
lemma crc16_z_20: "map (crc_zeros CRC16_POLY (8 * 21)) powers = [0xD110, 0xE223, 0x8445, 0x4889, 0x9112, 0x6227, 0xC44E, 0xC89F]"
  using crc16_z_19 crc16_step [of CRC16_POLY 20 powers] by (simp add: crc_zeros_8 crc_bit_lit CRC16_POLY_def)
lemma crc16_z_21: "map (crc_zeros CRC16_POLY (8 * 22)) powers = [0xCCD0, 0xD9A3, 0xF345, 0xA689, 0x0D11, 0x1A22, 0x3444, 0x6888]"
  using crc16_z_20 crc16_step [of CRC16_POLY 21 powers] by (simp add: crc_zeros_8 crc_bit_lit CRC16_POLY_def)
lemma crc16_z_22: "map (crc_zeros CRC16_POLY (8 * 23)) powers = [0x9CCD, 0x7999, 0xF332, 0xA667, 0x0CCD, 0x199A, 0x3334, 0x6668]"
  using crc16_z_21 crc16_step [of CRC16_POLY 22 powers] by (simp add: crc_zeros_8 crc_bit_lit CRC16_POLY_def)
lemma crc16_z_23: "map (crc_zeros CRC16_POLY (8 * 24)) powers = [0x955D, 0x6AB9, 0xD572, 0xEAE7, 0x95CD, 0x6B99, 0xD732, 0xEE67]"
  using crc16_z_22 crc16_step [of CRC16_POLY 23 powers] by (simp add: crc_zeros_8 crc_bit_lit CRC16_POLY_def)
lemma crc16_z_24: "map (crc_zeros CRC16_POLY (8 * 25)) powers = [0xF954, 0xB2AB, 0x2555, 0x4AAA, 0x9554, 0x6AAB, 0xD556, 0xEAAF]"
  using crc16_z_23 crc16_step [of CRC16_POLY 24 powers] by (simp add: crc_zeros_8 crc_bit_lit CRC16_POLY_def)
lemma crc16_z_25: "map (crc_zeros CRC16_POLY (8 * 26)) powers = [0xFFF8, 0xBFF3, 0x3FE5, 0x7FCA, 0xFF94, 0xBF2B, 0x3E55, 0x7CAA]"
  using crc16_z_24 crc16_step [of CRC16_POLY 25 powers] by (simp add: crc_zeros_8 crc_bit_lit CRC16_POLY_def)
lemma crc16_z_26: "map (crc_zeros CRC16_POLY (8 * 27)) powers = [0x82FE, 0x45FF, 0x8BFE, 0x57FF, 0xAFFE, 0x1FFF, 0x3FFE, 0x7FFC]"
  using crc16_z_25 crc16_step [of CRC16_POLY 26 powers] by (simp add: crc_zeros_8 crc_bit_lit CRC16_POLY_def)
lemma crc16_z_27: "map (crc_zeros CRC16_POLY (8 * 28)) powers = [0x8003, 0x4005, 0x800A, 0x4017, 0x802E, 0x405F, 0x80BE, 0x417F]"
  using crc16_z_26 crc16_step [of CRC16_POLY 27 powers] by (simp add: crc_zeros_8 crc_bit_lit CRC16_POLY_def)
lemma crc16_z_28: "map (crc_zeros CRC16_POLY (8 * 29)) powers = [0x01C0, 0x0380, 0x0700, 0x0E00, 0x1C00, 0x3800, 0x7000, 0xE000]"
  using crc16_z_27 crc16_step [of CRC16_POLY 28 powers] by (simp add: crc_zeros_8 crc_bit_lit CRC16_POLY_def)
lemma crc16_z_29: "map (crc_zeros CRC16_POLY (8 * 30)) powers = [0x5001, 0xA002, 0x0007, 0x000E, 0x001C, 0x0038, 0x0070, 0x00E0]"
  using crc16_z_28 crc16_step [of CRC16_POLY 29 powers] by (simp add: crc_zeros_8 crc_bit_lit CRC16_POLY_def)
lemma crc16_z_30: "map (crc_zeros CRC16_POLY (8 * 31)) powers = [0xC091, 0xC121, 0xC241, 0xC481, 0xC901, 0xD201, 0xE401, 0x8801]"
  using crc16_z_29 crc16_step [of CRC16_POLY 30 powers] by (simp add: crc_zeros_8 crc_bit_lit CRC16_POLY_def)
lemma crc16_z_31: "map (crc_zeros CRC16_POLY (8 * 32)) powers = [0xAC01, 0x1801, 0x3002, 0x6004, 0xC008, 0xC013, 0xC025, 0xC049]"
  using crc16_z_30 crc16_step [of CRC16_POLY 31 powers] by (simp add: crc_zeros_8 crc_bit_lit CRC16_POLY_def)

section \<open>The tables\<close>

lemma crc16_tab_0: "crc16_tab_0 = span (map (crc_zeros CRC16_POLY (8 * 1)) powers)"
  unfolding crc16_z_0 by (simp add: crc16_tab_0_def span_def)
lemma crc16_tab_1: "crc16_tab_1 = span (map (crc_zeros CRC16_POLY (8 * 2)) powers)"
  unfolding crc16_z_1 by (simp add: crc16_tab_1_def span_def)
lemma crc16_tab_2: "crc16_tab_2 = span (map (crc_zeros CRC16_POLY (8 * 3)) powers)"
  unfolding crc16_z_2 by (simp add: crc16_tab_2_def span_def)
lemma crc16_tab_3: "crc16_tab_3 = span (map (crc_zeros CRC16_POLY (8 * 4)) powers)"
  unfolding crc16_z_3 by (simp add: crc16_tab_3_def span_def)
lemma crc16_tab_4: "crc16_tab_4 = span (map (crc_zeros CRC16_POLY (8 * 5)) powers)"
  unfolding crc16_z_4 by (simp add: crc16_tab_4_def span_def)
lemma crc16_tab_5: "crc16_tab_5 = span (map (crc_zeros CRC16_POLY (8 * 6)) powers)"
  unfolding crc16_z_5 by (simp add: crc16_tab_5_def span_def)
lemma crc16_tab_6: "crc16_tab_6 = span (map (crc_zeros CRC16_POLY (8 * 7)) powers)"
  unfolding crc16_z_6 by (simp add: crc16_tab_6_def span_def)
lemma crc16_tab_7: "crc16_tab_7 = span (map (crc_zeros CRC16_POLY (8 * 8)) powers)"
  unfolding crc16_z_7 by (simp add: crc16_tab_7_def span_def)
lemma crc16_btab_0: "crc16_btab_0 = span (map (crc_zeros CRC16_POLY (8 * 25)) powers)"
  unfolding crc16_z_24 by (simp add: crc16_btab_0_def span_def)
lemma crc16_btab_1: "crc16_btab_1 = span (map (crc_zeros CRC16_POLY (8 * 26)) powers)"
  unfolding crc16_z_25 by (simp add: crc16_btab_1_def span_def)
lemma crc16_btab_2: "crc16_btab_2 = span (map (crc_zeros CRC16_POLY (8 * 27)) powers)"
  unfolding crc16_z_26 by (simp add: crc16_btab_2_def span_def)
lemma crc16_btab_3: "crc16_btab_3 = span (map (crc_zeros CRC16_POLY (8 * 28)) powers)"
  unfolding crc16_z_27 by (simp add: crc16_btab_3_def span_def)
lemma crc16_btab_4: "crc16_btab_4 = span (map (crc_zeros CRC16_POLY (8 * 29)) powers)"
  unfolding crc16_z_28 by (simp add: crc16_btab_4_def span_def)
lemma crc16_btab_5: "crc16_btab_5 = span (map (crc_zeros CRC16_POLY (8 * 30)) powers)"
  unfolding crc16_z_29 by (simp add: crc16_btab_5_def span_def)
lemma crc16_btab_6: "crc16_btab_6 = span (map (crc_zeros CRC16_POLY (8 * 31)) powers)"
  unfolding crc16_z_30 by (simp add: crc16_btab_6_def span_def)
lemma crc16_btab_7: "crc16_btab_7 = span (map (crc_zeros CRC16_POLY (8 * 32)) powers)"
  unfolding crc16_z_31 by (simp add: crc16_btab_7_def span_def)

end
