(* ===== verification/Crc32_Tables.thy ===== *)
theory Crc32_Tables
  imports Crc_Bits
begin

text \<open>
  The tables \<open>crc32_tab\<close> and \<open>crc32_btab\<close> of \<open>lib/crypt/crc.c\<close>, as they are written there, each with the
  proof that its entry \<open>i\<close> is the byte \<open>i\<close> followed by \<open>k\<close>, respectively \<open>24 + k\<close>, zero bytes. The values
  at the powers of two are computed bit by bit (\<open>crc32_z_k\<close>, for \<open>k\<close> zero bytes behind the byte), the other
  entries follow because a table is linear.
\<close>

definition CRC32_POLY :: u32 where "CRC32_POLY = 0xEDB88320"

definition crc32_tab_0 :: "u32 list" where
  "crc32_tab_0 =
    [0x00000000, 0x77073096, 0xEE0E612C, 0x990951BA, 0x076DC419, 0x706AF48F, 0xE963A535, 0x9E6495A3] @
    [0x0EDB8832, 0x79DCB8A4, 0xE0D5E91E, 0x97D2D988, 0x09B64C2B, 0x7EB17CBD, 0xE7B82D07, 0x90BF1D91] @
    [0x1DB71064, 0x6AB020F2, 0xF3B97148, 0x84BE41DE, 0x1ADAD47D, 0x6DDDE4EB, 0xF4D4B551, 0x83D385C7] @
    [0x136C9856, 0x646BA8C0, 0xFD62F97A, 0x8A65C9EC, 0x14015C4F, 0x63066CD9, 0xFA0F3D63, 0x8D080DF5] @
    [0x3B6E20C8, 0x4C69105E, 0xD56041E4, 0xA2677172, 0x3C03E4D1, 0x4B04D447, 0xD20D85FD, 0xA50AB56B] @
    [0x35B5A8FA, 0x42B2986C, 0xDBBBC9D6, 0xACBCF940, 0x32D86CE3, 0x45DF5C75, 0xDCD60DCF, 0xABD13D59] @
    [0x26D930AC, 0x51DE003A, 0xC8D75180, 0xBFD06116, 0x21B4F4B5, 0x56B3C423, 0xCFBA9599, 0xB8BDA50F] @
    [0x2802B89E, 0x5F058808, 0xC60CD9B2, 0xB10BE924, 0x2F6F7C87, 0x58684C11, 0xC1611DAB, 0xB6662D3D] @
    [0x76DC4190, 0x01DB7106, 0x98D220BC, 0xEFD5102A, 0x71B18589, 0x06B6B51F, 0x9FBFE4A5, 0xE8B8D433] @
    [0x7807C9A2, 0x0F00F934, 0x9609A88E, 0xE10E9818, 0x7F6A0DBB, 0x086D3D2D, 0x91646C97, 0xE6635C01] @
    [0x6B6B51F4, 0x1C6C6162, 0x856530D8, 0xF262004E, 0x6C0695ED, 0x1B01A57B, 0x8208F4C1, 0xF50FC457] @
    [0x65B0D9C6, 0x12B7E950, 0x8BBEB8EA, 0xFCB9887C, 0x62DD1DDF, 0x15DA2D49, 0x8CD37CF3, 0xFBD44C65] @
    [0x4DB26158, 0x3AB551CE, 0xA3BC0074, 0xD4BB30E2, 0x4ADFA541, 0x3DD895D7, 0xA4D1C46D, 0xD3D6F4FB] @
    [0x4369E96A, 0x346ED9FC, 0xAD678846, 0xDA60B8D0, 0x44042D73, 0x33031DE5, 0xAA0A4C5F, 0xDD0D7CC9] @
    [0x5005713C, 0x270241AA, 0xBE0B1010, 0xC90C2086, 0x5768B525, 0x206F85B3, 0xB966D409, 0xCE61E49F] @
    [0x5EDEF90E, 0x29D9C998, 0xB0D09822, 0xC7D7A8B4, 0x59B33D17, 0x2EB40D81, 0xB7BD5C3B, 0xC0BA6CAD] @
    [0xEDB88320, 0x9ABFB3B6, 0x03B6E20C, 0x74B1D29A, 0xEAD54739, 0x9DD277AF, 0x04DB2615, 0x73DC1683] @
    [0xE3630B12, 0x94643B84, 0x0D6D6A3E, 0x7A6A5AA8, 0xE40ECF0B, 0x9309FF9D, 0x0A00AE27, 0x7D079EB1] @
    [0xF00F9344, 0x8708A3D2, 0x1E01F268, 0x6906C2FE, 0xF762575D, 0x806567CB, 0x196C3671, 0x6E6B06E7] @
    [0xFED41B76, 0x89D32BE0, 0x10DA7A5A, 0x67DD4ACC, 0xF9B9DF6F, 0x8EBEEFF9, 0x17B7BE43, 0x60B08ED5] @
    [0xD6D6A3E8, 0xA1D1937E, 0x38D8C2C4, 0x4FDFF252, 0xD1BB67F1, 0xA6BC5767, 0x3FB506DD, 0x48B2364B] @
    [0xD80D2BDA, 0xAF0A1B4C, 0x36034AF6, 0x41047A60, 0xDF60EFC3, 0xA867DF55, 0x316E8EEF, 0x4669BE79] @
    [0xCB61B38C, 0xBC66831A, 0x256FD2A0, 0x5268E236, 0xCC0C7795, 0xBB0B4703, 0x220216B9, 0x5505262F] @
    [0xC5BA3BBE, 0xB2BD0B28, 0x2BB45A92, 0x5CB36A04, 0xC2D7FFA7, 0xB5D0CF31, 0x2CD99E8B, 0x5BDEAE1D] @
    [0x9B64C2B0, 0xEC63F226, 0x756AA39C, 0x026D930A, 0x9C0906A9, 0xEB0E363F, 0x72076785, 0x05005713] @
    [0x95BF4A82, 0xE2B87A14, 0x7BB12BAE, 0x0CB61B38, 0x92D28E9B, 0xE5D5BE0D, 0x7CDCEFB7, 0x0BDBDF21] @
    [0x86D3D2D4, 0xF1D4E242, 0x68DDB3F8, 0x1FDA836E, 0x81BE16CD, 0xF6B9265B, 0x6FB077E1, 0x18B74777] @
    [0x88085AE6, 0xFF0F6A70, 0x66063BCA, 0x11010B5C, 0x8F659EFF, 0xF862AE69, 0x616BFFD3, 0x166CCF45] @
    [0xA00AE278, 0xD70DD2EE, 0x4E048354, 0x3903B3C2, 0xA7672661, 0xD06016F7, 0x4969474D, 0x3E6E77DB] @
    [0xAED16A4A, 0xD9D65ADC, 0x40DF0B66, 0x37D83BF0, 0xA9BCAE53, 0xDEBB9EC5, 0x47B2CF7F, 0x30B5FFE9] @
    [0xBDBDF21C, 0xCABAC28A, 0x53B39330, 0x24B4A3A6, 0xBAD03605, 0xCDD70693, 0x54DE5729, 0x23D967BF] @
    [0xB3667A2E, 0xC4614AB8, 0x5D681B02, 0x2A6F2B94, 0xB40BBE37, 0xC30C8EA1, 0x5A05DF1B, 0x2D02EF8D]"

definition crc32_tab_1 :: "u32 list" where
  "crc32_tab_1 =
    [0x00000000, 0x191B3141, 0x32366282, 0x2B2D53C3, 0x646CC504, 0x7D77F445, 0x565AA786, 0x4F4196C7] @
    [0xC8D98A08, 0xD1C2BB49, 0xFAEFE88A, 0xE3F4D9CB, 0xACB54F0C, 0xB5AE7E4D, 0x9E832D8E, 0x87981CCF] @
    [0x4AC21251, 0x53D92310, 0x78F470D3, 0x61EF4192, 0x2EAED755, 0x37B5E614, 0x1C98B5D7, 0x05838496] @
    [0x821B9859, 0x9B00A918, 0xB02DFADB, 0xA936CB9A, 0xE6775D5D, 0xFF6C6C1C, 0xD4413FDF, 0xCD5A0E9E] @
    [0x958424A2, 0x8C9F15E3, 0xA7B24620, 0xBEA97761, 0xF1E8E1A6, 0xE8F3D0E7, 0xC3DE8324, 0xDAC5B265] @
    [0x5D5DAEAA, 0x44469FEB, 0x6F6BCC28, 0x7670FD69, 0x39316BAE, 0x202A5AEF, 0x0B07092C, 0x121C386D] @
    [0xDF4636F3, 0xC65D07B2, 0xED705471, 0xF46B6530, 0xBB2AF3F7, 0xA231C2B6, 0x891C9175, 0x9007A034] @
    [0x179FBCFB, 0x0E848DBA, 0x25A9DE79, 0x3CB2EF38, 0x73F379FF, 0x6AE848BE, 0x41C51B7D, 0x58DE2A3C] @
    [0xF0794F05, 0xE9627E44, 0xC24F2D87, 0xDB541CC6, 0x94158A01, 0x8D0EBB40, 0xA623E883, 0xBF38D9C2] @
    [0x38A0C50D, 0x21BBF44C, 0x0A96A78F, 0x138D96CE, 0x5CCC0009, 0x45D73148, 0x6EFA628B, 0x77E153CA] @
    [0xBABB5D54, 0xA3A06C15, 0x888D3FD6, 0x91960E97, 0xDED79850, 0xC7CCA911, 0xECE1FAD2, 0xF5FACB93] @
    [0x7262D75C, 0x6B79E61D, 0x4054B5DE, 0x594F849F, 0x160E1258, 0x0F152319, 0x243870DA, 0x3D23419B] @
    [0x65FD6BA7, 0x7CE65AE6, 0x57CB0925, 0x4ED03864, 0x0191AEA3, 0x188A9FE2, 0x33A7CC21, 0x2ABCFD60] @
    [0xAD24E1AF, 0xB43FD0EE, 0x9F12832D, 0x8609B26C, 0xC94824AB, 0xD05315EA, 0xFB7E4629, 0xE2657768] @
    [0x2F3F79F6, 0x362448B7, 0x1D091B74, 0x04122A35, 0x4B53BCF2, 0x52488DB3, 0x7965DE70, 0x607EEF31] @
    [0xE7E6F3FE, 0xFEFDC2BF, 0xD5D0917C, 0xCCCBA03D, 0x838A36FA, 0x9A9107BB, 0xB1BC5478, 0xA8A76539] @
    [0x3B83984B, 0x2298A90A, 0x09B5FAC9, 0x10AECB88, 0x5FEF5D4F, 0x46F46C0E, 0x6DD93FCD, 0x74C20E8C] @
    [0xF35A1243, 0xEA412302, 0xC16C70C1, 0xD8774180, 0x9736D747, 0x8E2DE606, 0xA500B5C5, 0xBC1B8484] @
    [0x71418A1A, 0x685ABB5B, 0x4377E898, 0x5A6CD9D9, 0x152D4F1E, 0x0C367E5F, 0x271B2D9C, 0x3E001CDD] @
    [0xB9980012, 0xA0833153, 0x8BAE6290, 0x92B553D1, 0xDDF4C516, 0xC4EFF457, 0xEFC2A794, 0xF6D996D5] @
    [0xAE07BCE9, 0xB71C8DA8, 0x9C31DE6B, 0x852AEF2A, 0xCA6B79ED, 0xD37048AC, 0xF85D1B6F, 0xE1462A2E] @
    [0x66DE36E1, 0x7FC507A0, 0x54E85463, 0x4DF36522, 0x02B2F3E5, 0x1BA9C2A4, 0x30849167, 0x299FA026] @
    [0xE4C5AEB8, 0xFDDE9FF9, 0xD6F3CC3A, 0xCFE8FD7B, 0x80A96BBC, 0x99B25AFD, 0xB29F093E, 0xAB84387F] @
    [0x2C1C24B0, 0x350715F1, 0x1E2A4632, 0x07317773, 0x4870E1B4, 0x516BD0F5, 0x7A468336, 0x635DB277] @
    [0xCBFAD74E, 0xD2E1E60F, 0xF9CCB5CC, 0xE0D7848D, 0xAF96124A, 0xB68D230B, 0x9DA070C8, 0x84BB4189] @
    [0x03235D46, 0x1A386C07, 0x31153FC4, 0x280E0E85, 0x674F9842, 0x7E54A903, 0x5579FAC0, 0x4C62CB81] @
    [0x8138C51F, 0x9823F45E, 0xB30EA79D, 0xAA1596DC, 0xE554001B, 0xFC4F315A, 0xD7626299, 0xCE7953D8] @
    [0x49E14F17, 0x50FA7E56, 0x7BD72D95, 0x62CC1CD4, 0x2D8D8A13, 0x3496BB52, 0x1FBBE891, 0x06A0D9D0] @
    [0x5E7EF3EC, 0x4765C2AD, 0x6C48916E, 0x7553A02F, 0x3A1236E8, 0x230907A9, 0x0824546A, 0x113F652B] @
    [0x96A779E4, 0x8FBC48A5, 0xA4911B66, 0xBD8A2A27, 0xF2CBBCE0, 0xEBD08DA1, 0xC0FDDE62, 0xD9E6EF23] @
    [0x14BCE1BD, 0x0DA7D0FC, 0x268A833F, 0x3F91B27E, 0x70D024B9, 0x69CB15F8, 0x42E6463B, 0x5BFD777A] @
    [0xDC656BB5, 0xC57E5AF4, 0xEE530937, 0xF7483876, 0xB809AEB1, 0xA1129FF0, 0x8A3FCC33, 0x9324FD72]"

definition crc32_tab_2 :: "u32 list" where
  "crc32_tab_2 =
    [0x00000000, 0x01C26A37, 0x0384D46E, 0x0246BE59, 0x0709A8DC, 0x06CBC2EB, 0x048D7CB2, 0x054F1685] @
    [0x0E1351B8, 0x0FD13B8F, 0x0D9785D6, 0x0C55EFE1, 0x091AF964, 0x08D89353, 0x0A9E2D0A, 0x0B5C473D] @
    [0x1C26A370, 0x1DE4C947, 0x1FA2771E, 0x1E601D29, 0x1B2F0BAC, 0x1AED619B, 0x18ABDFC2, 0x1969B5F5] @
    [0x1235F2C8, 0x13F798FF, 0x11B126A6, 0x10734C91, 0x153C5A14, 0x14FE3023, 0x16B88E7A, 0x177AE44D] @
    [0x384D46E0, 0x398F2CD7, 0x3BC9928E, 0x3A0BF8B9, 0x3F44EE3C, 0x3E86840B, 0x3CC03A52, 0x3D025065] @
    [0x365E1758, 0x379C7D6F, 0x35DAC336, 0x3418A901, 0x3157BF84, 0x3095D5B3, 0x32D36BEA, 0x331101DD] @
    [0x246BE590, 0x25A98FA7, 0x27EF31FE, 0x262D5BC9, 0x23624D4C, 0x22A0277B, 0x20E69922, 0x2124F315] @
    [0x2A78B428, 0x2BBADE1F, 0x29FC6046, 0x283E0A71, 0x2D711CF4, 0x2CB376C3, 0x2EF5C89A, 0x2F37A2AD] @
    [0x709A8DC0, 0x7158E7F7, 0x731E59AE, 0x72DC3399, 0x7793251C, 0x76514F2B, 0x7417F172, 0x75D59B45] @
    [0x7E89DC78, 0x7F4BB64F, 0x7D0D0816, 0x7CCF6221, 0x798074A4, 0x78421E93, 0x7A04A0CA, 0x7BC6CAFD] @
    [0x6CBC2EB0, 0x6D7E4487, 0x6F38FADE, 0x6EFA90E9, 0x6BB5866C, 0x6A77EC5B, 0x68315202, 0x69F33835] @
    [0x62AF7F08, 0x636D153F, 0x612BAB66, 0x60E9C151, 0x65A6D7D4, 0x6464BDE3, 0x662203BA, 0x67E0698D] @
    [0x48D7CB20, 0x4915A117, 0x4B531F4E, 0x4A917579, 0x4FDE63FC, 0x4E1C09CB, 0x4C5AB792, 0x4D98DDA5] @
    [0x46C49A98, 0x4706F0AF, 0x45404EF6, 0x448224C1, 0x41CD3244, 0x400F5873, 0x4249E62A, 0x438B8C1D] @
    [0x54F16850, 0x55330267, 0x5775BC3E, 0x56B7D609, 0x53F8C08C, 0x523AAABB, 0x507C14E2, 0x51BE7ED5] @
    [0x5AE239E8, 0x5B2053DF, 0x5966ED86, 0x58A487B1, 0x5DEB9134, 0x5C29FB03, 0x5E6F455A, 0x5FAD2F6D] @
    [0xE1351B80, 0xE0F771B7, 0xE2B1CFEE, 0xE373A5D9, 0xE63CB35C, 0xE7FED96B, 0xE5B86732, 0xE47A0D05] @
    [0xEF264A38, 0xEEE4200F, 0xECA29E56, 0xED60F461, 0xE82FE2E4, 0xE9ED88D3, 0xEBAB368A, 0xEA695CBD] @
    [0xFD13B8F0, 0xFCD1D2C7, 0xFE976C9E, 0xFF5506A9, 0xFA1A102C, 0xFBD87A1B, 0xF99EC442, 0xF85CAE75] @
    [0xF300E948, 0xF2C2837F, 0xF0843D26, 0xF1465711, 0xF4094194, 0xF5CB2BA3, 0xF78D95FA, 0xF64FFFCD] @
    [0xD9785D60, 0xD8BA3757, 0xDAFC890E, 0xDB3EE339, 0xDE71F5BC, 0xDFB39F8B, 0xDDF521D2, 0xDC374BE5] @
    [0xD76B0CD8, 0xD6A966EF, 0xD4EFD8B6, 0xD52DB281, 0xD062A404, 0xD1A0CE33, 0xD3E6706A, 0xD2241A5D] @
    [0xC55EFE10, 0xC49C9427, 0xC6DA2A7E, 0xC7184049, 0xC25756CC, 0xC3953CFB, 0xC1D382A2, 0xC011E895] @
    [0xCB4DAFA8, 0xCA8FC59F, 0xC8C97BC6, 0xC90B11F1, 0xCC440774, 0xCD866D43, 0xCFC0D31A, 0xCE02B92D] @
    [0x91AF9640, 0x906DFC77, 0x922B422E, 0x93E92819, 0x96A63E9C, 0x976454AB, 0x9522EAF2, 0x94E080C5] @
    [0x9FBCC7F8, 0x9E7EADCF, 0x9C381396, 0x9DFA79A1, 0x98B56F24, 0x99770513, 0x9B31BB4A, 0x9AF3D17D] @
    [0x8D893530, 0x8C4B5F07, 0x8E0DE15E, 0x8FCF8B69, 0x8A809DEC, 0x8B42F7DB, 0x89044982, 0x88C623B5] @
    [0x839A6488, 0x82580EBF, 0x801EB0E6, 0x81DCDAD1, 0x8493CC54, 0x8551A663, 0x8717183A, 0x86D5720D] @
    [0xA9E2D0A0, 0xA820BA97, 0xAA6604CE, 0xABA46EF9, 0xAEEB787C, 0xAF29124B, 0xAD6FAC12, 0xACADC625] @
    [0xA7F18118, 0xA633EB2F, 0xA4755576, 0xA5B73F41, 0xA0F829C4, 0xA13A43F3, 0xA37CFDAA, 0xA2BE979D] @
    [0xB5C473D0, 0xB40619E7, 0xB640A7BE, 0xB782CD89, 0xB2CDDB0C, 0xB30FB13B, 0xB1490F62, 0xB08B6555] @
    [0xBBD72268, 0xBA15485F, 0xB853F606, 0xB9919C31, 0xBCDE8AB4, 0xBD1CE083, 0xBF5A5EDA, 0xBE9834ED]"

definition crc32_tab_3 :: "u32 list" where
  "crc32_tab_3 =
    [0x00000000, 0xB8BC6765, 0xAA09C88B, 0x12B5AFEE, 0x8F629757, 0x37DEF032, 0x256B5FDC, 0x9DD738B9] @
    [0xC5B428EF, 0x7D084F8A, 0x6FBDE064, 0xD7018701, 0x4AD6BFB8, 0xF26AD8DD, 0xE0DF7733, 0x58631056] @
    [0x5019579F, 0xE8A530FA, 0xFA109F14, 0x42ACF871, 0xDF7BC0C8, 0x67C7A7AD, 0x75720843, 0xCDCE6F26] @
    [0x95AD7F70, 0x2D111815, 0x3FA4B7FB, 0x8718D09E, 0x1ACFE827, 0xA2738F42, 0xB0C620AC, 0x087A47C9] @
    [0xA032AF3E, 0x188EC85B, 0x0A3B67B5, 0xB28700D0, 0x2F503869, 0x97EC5F0C, 0x8559F0E2, 0x3DE59787] @
    [0x658687D1, 0xDD3AE0B4, 0xCF8F4F5A, 0x7733283F, 0xEAE41086, 0x525877E3, 0x40EDD80D, 0xF851BF68] @
    [0xF02BF8A1, 0x48979FC4, 0x5A22302A, 0xE29E574F, 0x7F496FF6, 0xC7F50893, 0xD540A77D, 0x6DFCC018] @
    [0x359FD04E, 0x8D23B72B, 0x9F9618C5, 0x272A7FA0, 0xBAFD4719, 0x0241207C, 0x10F48F92, 0xA848E8F7] @
    [0x9B14583D, 0x23A83F58, 0x311D90B6, 0x89A1F7D3, 0x1476CF6A, 0xACCAA80F, 0xBE7F07E1, 0x06C36084] @
    [0x5EA070D2, 0xE61C17B7, 0xF4A9B859, 0x4C15DF3C, 0xD1C2E785, 0x697E80E0, 0x7BCB2F0E, 0xC377486B] @
    [0xCB0D0FA2, 0x73B168C7, 0x6104C729, 0xD9B8A04C, 0x446F98F5, 0xFCD3FF90, 0xEE66507E, 0x56DA371B] @
    [0x0EB9274D, 0xB6054028, 0xA4B0EFC6, 0x1C0C88A3, 0x81DBB01A, 0x3967D77F, 0x2BD27891, 0x936E1FF4] @
    [0x3B26F703, 0x839A9066, 0x912F3F88, 0x299358ED, 0xB4446054, 0x0CF80731, 0x1E4DA8DF, 0xA6F1CFBA] @
    [0xFE92DFEC, 0x462EB889, 0x549B1767, 0xEC277002, 0x71F048BB, 0xC94C2FDE, 0xDBF98030, 0x6345E755] @
    [0x6B3FA09C, 0xD383C7F9, 0xC1366817, 0x798A0F72, 0xE45D37CB, 0x5CE150AE, 0x4E54FF40, 0xF6E89825] @
    [0xAE8B8873, 0x1637EF16, 0x048240F8, 0xBC3E279D, 0x21E91F24, 0x99557841, 0x8BE0D7AF, 0x335CB0CA] @
    [0xED59B63B, 0x55E5D15E, 0x47507EB0, 0xFFEC19D5, 0x623B216C, 0xDA874609, 0xC832E9E7, 0x708E8E82] @
    [0x28ED9ED4, 0x9051F9B1, 0x82E4565F, 0x3A58313A, 0xA78F0983, 0x1F336EE6, 0x0D86C108, 0xB53AA66D] @
    [0xBD40E1A4, 0x05FC86C1, 0x1749292F, 0xAFF54E4A, 0x322276F3, 0x8A9E1196, 0x982BBE78, 0x2097D91D] @
    [0x78F4C94B, 0xC048AE2E, 0xD2FD01C0, 0x6A4166A5, 0xF7965E1C, 0x4F2A3979, 0x5D9F9697, 0xE523F1F2] @
    [0x4D6B1905, 0xF5D77E60, 0xE762D18E, 0x5FDEB6EB, 0xC2098E52, 0x7AB5E937, 0x680046D9, 0xD0BC21BC] @
    [0x88DF31EA, 0x3063568F, 0x22D6F961, 0x9A6A9E04, 0x07BDA6BD, 0xBF01C1D8, 0xADB46E36, 0x15080953] @
    [0x1D724E9A, 0xA5CE29FF, 0xB77B8611, 0x0FC7E174, 0x9210D9CD, 0x2AACBEA8, 0x38191146, 0x80A57623] @
    [0xD8C66675, 0x607A0110, 0x72CFAEFE, 0xCA73C99B, 0x57A4F122, 0xEF189647, 0xFDAD39A9, 0x45115ECC] @
    [0x764DEE06, 0xCEF18963, 0xDC44268D, 0x64F841E8, 0xF92F7951, 0x41931E34, 0x5326B1DA, 0xEB9AD6BF] @
    [0xB3F9C6E9, 0x0B45A18C, 0x19F00E62, 0xA14C6907, 0x3C9B51BE, 0x842736DB, 0x96929935, 0x2E2EFE50] @
    [0x2654B999, 0x9EE8DEFC, 0x8C5D7112, 0x34E11677, 0xA9362ECE, 0x118A49AB, 0x033FE645, 0xBB838120] @
    [0xE3E09176, 0x5B5CF613, 0x49E959FD, 0xF1553E98, 0x6C820621, 0xD43E6144, 0xC68BCEAA, 0x7E37A9CF] @
    [0xD67F4138, 0x6EC3265D, 0x7C7689B3, 0xC4CAEED6, 0x591DD66F, 0xE1A1B10A, 0xF3141EE4, 0x4BA87981] @
    [0x13CB69D7, 0xAB770EB2, 0xB9C2A15C, 0x017EC639, 0x9CA9FE80, 0x241599E5, 0x36A0360B, 0x8E1C516E] @
    [0x866616A7, 0x3EDA71C2, 0x2C6FDE2C, 0x94D3B949, 0x090481F0, 0xB1B8E695, 0xA30D497B, 0x1BB12E1E] @
    [0x43D23E48, 0xFB6E592D, 0xE9DBF6C3, 0x516791A6, 0xCCB0A91F, 0x740CCE7A, 0x66B96194, 0xDE0506F1]"

definition crc32_tab_4 :: "u32 list" where
  "crc32_tab_4 =
    [0x00000000, 0x3D6029B0, 0x7AC05360, 0x47A07AD0, 0xF580A6C0, 0xC8E08F70, 0x8F40F5A0, 0xB220DC10] @
    [0x30704BC1, 0x0D106271, 0x4AB018A1, 0x77D03111, 0xC5F0ED01, 0xF890C4B1, 0xBF30BE61, 0x825097D1] @
    [0x60E09782, 0x5D80BE32, 0x1A20C4E2, 0x2740ED52, 0x95603142, 0xA80018F2, 0xEFA06222, 0xD2C04B92] @
    [0x5090DC43, 0x6DF0F5F3, 0x2A508F23, 0x1730A693, 0xA5107A83, 0x98705333, 0xDFD029E3, 0xE2B00053] @
    [0xC1C12F04, 0xFCA106B4, 0xBB017C64, 0x866155D4, 0x344189C4, 0x0921A074, 0x4E81DAA4, 0x73E1F314] @
    [0xF1B164C5, 0xCCD14D75, 0x8B7137A5, 0xB6111E15, 0x0431C205, 0x3951EBB5, 0x7EF19165, 0x4391B8D5] @
    [0xA121B886, 0x9C419136, 0xDBE1EBE6, 0xE681C256, 0x54A11E46, 0x69C137F6, 0x2E614D26, 0x13016496] @
    [0x9151F347, 0xAC31DAF7, 0xEB91A027, 0xD6F18997, 0x64D15587, 0x59B17C37, 0x1E1106E7, 0x23712F57] @
    [0x58F35849, 0x659371F9, 0x22330B29, 0x1F532299, 0xAD73FE89, 0x9013D739, 0xD7B3ADE9, 0xEAD38459] @
    [0x68831388, 0x55E33A38, 0x124340E8, 0x2F236958, 0x9D03B548, 0xA0639CF8, 0xE7C3E628, 0xDAA3CF98] @
    [0x3813CFCB, 0x0573E67B, 0x42D39CAB, 0x7FB3B51B, 0xCD93690B, 0xF0F340BB, 0xB7533A6B, 0x8A3313DB] @
    [0x0863840A, 0x3503ADBA, 0x72A3D76A, 0x4FC3FEDA, 0xFDE322CA, 0xC0830B7A, 0x872371AA, 0xBA43581A] @
    [0x9932774D, 0xA4525EFD, 0xE3F2242D, 0xDE920D9D, 0x6CB2D18D, 0x51D2F83D, 0x167282ED, 0x2B12AB5D] @
    [0xA9423C8C, 0x9422153C, 0xD3826FEC, 0xEEE2465C, 0x5CC29A4C, 0x61A2B3FC, 0x2602C92C, 0x1B62E09C] @
    [0xF9D2E0CF, 0xC4B2C97F, 0x8312B3AF, 0xBE729A1F, 0x0C52460F, 0x31326FBF, 0x7692156F, 0x4BF23CDF] @
    [0xC9A2AB0E, 0xF4C282BE, 0xB362F86E, 0x8E02D1DE, 0x3C220DCE, 0x0142247E, 0x46E25EAE, 0x7B82771E] @
    [0xB1E6B092, 0x8C869922, 0xCB26E3F2, 0xF646CA42, 0x44661652, 0x79063FE2, 0x3EA64532, 0x03C66C82] @
    [0x8196FB53, 0xBCF6D2E3, 0xFB56A833, 0xC6368183, 0x74165D93, 0x49767423, 0x0ED60EF3, 0x33B62743] @
    [0xD1062710, 0xEC660EA0, 0xABC67470, 0x96A65DC0, 0x248681D0, 0x19E6A860, 0x5E46D2B0, 0x6326FB00] @
    [0xE1766CD1, 0xDC164561, 0x9BB63FB1, 0xA6D61601, 0x14F6CA11, 0x2996E3A1, 0x6E369971, 0x5356B0C1] @
    [0x70279F96, 0x4D47B626, 0x0AE7CCF6, 0x3787E546, 0x85A73956, 0xB8C710E6, 0xFF676A36, 0xC2074386] @
    [0x4057D457, 0x7D37FDE7, 0x3A978737, 0x07F7AE87, 0xB5D77297, 0x88B75B27, 0xCF1721F7, 0xF2770847] @
    [0x10C70814, 0x2DA721A4, 0x6A075B74, 0x576772C4, 0xE547AED4, 0xD8278764, 0x9F87FDB4, 0xA2E7D404] @
    [0x20B743D5, 0x1DD76A65, 0x5A7710B5, 0x67173905, 0xD537E515, 0xE857CCA5, 0xAFF7B675, 0x92979FC5] @
    [0xE915E8DB, 0xD475C16B, 0x93D5BBBB, 0xAEB5920B, 0x1C954E1B, 0x21F567AB, 0x66551D7B, 0x5B3534CB] @
    [0xD965A31A, 0xE4058AAA, 0xA3A5F07A, 0x9EC5D9CA, 0x2CE505DA, 0x11852C6A, 0x562556BA, 0x6B457F0A] @
    [0x89F57F59, 0xB49556E9, 0xF3352C39, 0xCE550589, 0x7C75D999, 0x4115F029, 0x06B58AF9, 0x3BD5A349] @
    [0xB9853498, 0x84E51D28, 0xC34567F8, 0xFE254E48, 0x4C059258, 0x7165BBE8, 0x36C5C138, 0x0BA5E888] @
    [0x28D4C7DF, 0x15B4EE6F, 0x521494BF, 0x6F74BD0F, 0xDD54611F, 0xE03448AF, 0xA794327F, 0x9AF41BCF] @
    [0x18A48C1E, 0x25C4A5AE, 0x6264DF7E, 0x5F04F6CE, 0xED242ADE, 0xD044036E, 0x97E479BE, 0xAA84500E] @
    [0x4834505D, 0x755479ED, 0x32F4033D, 0x0F942A8D, 0xBDB4F69D, 0x80D4DF2D, 0xC774A5FD, 0xFA148C4D] @
    [0x78441B9C, 0x4524322C, 0x028448FC, 0x3FE4614C, 0x8DC4BD5C, 0xB0A494EC, 0xF704EE3C, 0xCA64C78C]"

definition crc32_tab_5 :: "u32 list" where
  "crc32_tab_5 =
    [0x00000000, 0xCB5CD3A5, 0x4DC8A10B, 0x869472AE, 0x9B914216, 0x50CD91B3, 0xD659E31D, 0x1D0530B8] @
    [0xEC53826D, 0x270F51C8, 0xA19B2366, 0x6AC7F0C3, 0x77C2C07B, 0xBC9E13DE, 0x3A0A6170, 0xF156B2D5] @
    [0x03D6029B, 0xC88AD13E, 0x4E1EA390, 0x85427035, 0x9847408D, 0x531B9328, 0xD58FE186, 0x1ED33223] @
    [0xEF8580F6, 0x24D95353, 0xA24D21FD, 0x6911F258, 0x7414C2E0, 0xBF481145, 0x39DC63EB, 0xF280B04E] @
    [0x07AC0536, 0xCCF0D693, 0x4A64A43D, 0x81387798, 0x9C3D4720, 0x57619485, 0xD1F5E62B, 0x1AA9358E] @
    [0xEBFF875B, 0x20A354FE, 0xA6372650, 0x6D6BF5F5, 0x706EC54D, 0xBB3216E8, 0x3DA66446, 0xF6FAB7E3] @
    [0x047A07AD, 0xCF26D408, 0x49B2A6A6, 0x82EE7503, 0x9FEB45BB, 0x54B7961E, 0xD223E4B0, 0x197F3715] @
    [0xE82985C0, 0x23755665, 0xA5E124CB, 0x6EBDF76E, 0x73B8C7D6, 0xB8E41473, 0x3E7066DD, 0xF52CB578] @
    [0x0F580A6C, 0xC404D9C9, 0x4290AB67, 0x89CC78C2, 0x94C9487A, 0x5F959BDF, 0xD901E971, 0x125D3AD4] @
    [0xE30B8801, 0x28575BA4, 0xAEC3290A, 0x659FFAAF, 0x789ACA17, 0xB3C619B2, 0x35526B1C, 0xFE0EB8B9] @
    [0x0C8E08F7, 0xC7D2DB52, 0x4146A9FC, 0x8A1A7A59, 0x971F4AE1, 0x5C439944, 0xDAD7EBEA, 0x118B384F] @
    [0xE0DD8A9A, 0x2B81593F, 0xAD152B91, 0x6649F834, 0x7B4CC88C, 0xB0101B29, 0x36846987, 0xFDD8BA22] @
    [0x08F40F5A, 0xC3A8DCFF, 0x453CAE51, 0x8E607DF4, 0x93654D4C, 0x58399EE9, 0xDEADEC47, 0x15F13FE2] @
    [0xE4A78D37, 0x2FFB5E92, 0xA96F2C3C, 0x6233FF99, 0x7F36CF21, 0xB46A1C84, 0x32FE6E2A, 0xF9A2BD8F] @
    [0x0B220DC1, 0xC07EDE64, 0x46EAACCA, 0x8DB67F6F, 0x90B34FD7, 0x5BEF9C72, 0xDD7BEEDC, 0x16273D79] @
    [0xE7718FAC, 0x2C2D5C09, 0xAAB92EA7, 0x61E5FD02, 0x7CE0CDBA, 0xB7BC1E1F, 0x31286CB1, 0xFA74BF14] @
    [0x1EB014D8, 0xD5ECC77D, 0x5378B5D3, 0x98246676, 0x852156CE, 0x4E7D856B, 0xC8E9F7C5, 0x03B52460] @
    [0xF2E396B5, 0x39BF4510, 0xBF2B37BE, 0x7477E41B, 0x6972D4A3, 0xA22E0706, 0x24BA75A8, 0xEFE6A60D] @
    [0x1D661643, 0xD63AC5E6, 0x50AEB748, 0x9BF264ED, 0x86F75455, 0x4DAB87F0, 0xCB3FF55E, 0x006326FB] @
    [0xF135942E, 0x3A69478B, 0xBCFD3525, 0x77A1E680, 0x6AA4D638, 0xA1F8059D, 0x276C7733, 0xEC30A496] @
    [0x191C11EE, 0xD240C24B, 0x54D4B0E5, 0x9F886340, 0x828D53F8, 0x49D1805D, 0xCF45F2F3, 0x04192156] @
    [0xF54F9383, 0x3E134026, 0xB8873288, 0x73DBE12D, 0x6EDED195, 0xA5820230, 0x2316709E, 0xE84AA33B] @
    [0x1ACA1375, 0xD196C0D0, 0x5702B27E, 0x9C5E61DB, 0x815B5163, 0x4A0782C6, 0xCC93F068, 0x07CF23CD] @
    [0xF6999118, 0x3DC542BD, 0xBB513013, 0x700DE3B6, 0x6D08D30E, 0xA65400AB, 0x20C07205, 0xEB9CA1A0] @
    [0x11E81EB4, 0xDAB4CD11, 0x5C20BFBF, 0x977C6C1A, 0x8A795CA2, 0x41258F07, 0xC7B1FDA9, 0x0CED2E0C] @
    [0xFDBB9CD9, 0x36E74F7C, 0xB0733DD2, 0x7B2FEE77, 0x662ADECF, 0xAD760D6A, 0x2BE27FC4, 0xE0BEAC61] @
    [0x123E1C2F, 0xD962CF8A, 0x5FF6BD24, 0x94AA6E81, 0x89AF5E39, 0x42F38D9C, 0xC467FF32, 0x0F3B2C97] @
    [0xFE6D9E42, 0x35314DE7, 0xB3A53F49, 0x78F9ECEC, 0x65FCDC54, 0xAEA00FF1, 0x28347D5F, 0xE368AEFA] @
    [0x16441B82, 0xDD18C827, 0x5B8CBA89, 0x90D0692C, 0x8DD55994, 0x46898A31, 0xC01DF89F, 0x0B412B3A] @
    [0xFA1799EF, 0x314B4A4A, 0xB7DF38E4, 0x7C83EB41, 0x6186DBF9, 0xAADA085C, 0x2C4E7AF2, 0xE712A957] @
    [0x15921919, 0xDECECABC, 0x585AB812, 0x93066BB7, 0x8E035B0F, 0x455F88AA, 0xC3CBFA04, 0x089729A1] @
    [0xF9C19B74, 0x329D48D1, 0xB4093A7F, 0x7F55E9DA, 0x6250D962, 0xA90C0AC7, 0x2F987869, 0xE4C4ABCC]"

definition crc32_tab_6 :: "u32 list" where
  "crc32_tab_6 =
    [0x00000000, 0xA6770BB4, 0x979F1129, 0x31E81A9D, 0xF44F2413, 0x52382FA7, 0x63D0353A, 0xC5A73E8E] @
    [0x33EF4E67, 0x959845D3, 0xA4705F4E, 0x020754FA, 0xC7A06A74, 0x61D761C0, 0x503F7B5D, 0xF64870E9] @
    [0x67DE9CCE, 0xC1A9977A, 0xF0418DE7, 0x56368653, 0x9391B8DD, 0x35E6B369, 0x040EA9F4, 0xA279A240] @
    [0x5431D2A9, 0xF246D91D, 0xC3AEC380, 0x65D9C834, 0xA07EF6BA, 0x0609FD0E, 0x37E1E793, 0x9196EC27] @
    [0xCFBD399C, 0x69CA3228, 0x582228B5, 0xFE552301, 0x3BF21D8F, 0x9D85163B, 0xAC6D0CA6, 0x0A1A0712] @
    [0xFC5277FB, 0x5A257C4F, 0x6BCD66D2, 0xCDBA6D66, 0x081D53E8, 0xAE6A585C, 0x9F8242C1, 0x39F54975] @
    [0xA863A552, 0x0E14AEE6, 0x3FFCB47B, 0x998BBFCF, 0x5C2C8141, 0xFA5B8AF5, 0xCBB39068, 0x6DC49BDC] @
    [0x9B8CEB35, 0x3DFBE081, 0x0C13FA1C, 0xAA64F1A8, 0x6FC3CF26, 0xC9B4C492, 0xF85CDE0F, 0x5E2BD5BB] @
    [0x440B7579, 0xE27C7ECD, 0xD3946450, 0x75E36FE4, 0xB044516A, 0x16335ADE, 0x27DB4043, 0x81AC4BF7] @
    [0x77E43B1E, 0xD19330AA, 0xE07B2A37, 0x460C2183, 0x83AB1F0D, 0x25DC14B9, 0x14340E24, 0xB2430590] @
    [0x23D5E9B7, 0x85A2E203, 0xB44AF89E, 0x123DF32A, 0xD79ACDA4, 0x71EDC610, 0x4005DC8D, 0xE672D739] @
    [0x103AA7D0, 0xB64DAC64, 0x87A5B6F9, 0x21D2BD4D, 0xE47583C3, 0x42028877, 0x73EA92EA, 0xD59D995E] @
    [0x8BB64CE5, 0x2DC14751, 0x1C295DCC, 0xBA5E5678, 0x7FF968F6, 0xD98E6342, 0xE86679DF, 0x4E11726B] @
    [0xB8590282, 0x1E2E0936, 0x2FC613AB, 0x89B1181F, 0x4C162691, 0xEA612D25, 0xDB8937B8, 0x7DFE3C0C] @
    [0xEC68D02B, 0x4A1FDB9F, 0x7BF7C102, 0xDD80CAB6, 0x1827F438, 0xBE50FF8C, 0x8FB8E511, 0x29CFEEA5] @
    [0xDF879E4C, 0x79F095F8, 0x48188F65, 0xEE6F84D1, 0x2BC8BA5F, 0x8DBFB1EB, 0xBC57AB76, 0x1A20A0C2] @
    [0x8816EAF2, 0x2E61E146, 0x1F89FBDB, 0xB9FEF06F, 0x7C59CEE1, 0xDA2EC555, 0xEBC6DFC8, 0x4DB1D47C] @
    [0xBBF9A495, 0x1D8EAF21, 0x2C66B5BC, 0x8A11BE08, 0x4FB68086, 0xE9C18B32, 0xD82991AF, 0x7E5E9A1B] @
    [0xEFC8763C, 0x49BF7D88, 0x78576715, 0xDE206CA1, 0x1B87522F, 0xBDF0599B, 0x8C184306, 0x2A6F48B2] @
    [0xDC27385B, 0x7A5033EF, 0x4BB82972, 0xEDCF22C6, 0x28681C48, 0x8E1F17FC, 0xBFF70D61, 0x198006D5] @
    [0x47ABD36E, 0xE1DCD8DA, 0xD034C247, 0x7643C9F3, 0xB3E4F77D, 0x1593FCC9, 0x247BE654, 0x820CEDE0] @
    [0x74449D09, 0xD23396BD, 0xE3DB8C20, 0x45AC8794, 0x800BB91A, 0x267CB2AE, 0x1794A833, 0xB1E3A387] @
    [0x20754FA0, 0x86024414, 0xB7EA5E89, 0x119D553D, 0xD43A6BB3, 0x724D6007, 0x43A57A9A, 0xE5D2712E] @
    [0x139A01C7, 0xB5ED0A73, 0x840510EE, 0x22721B5A, 0xE7D525D4, 0x41A22E60, 0x704A34FD, 0xD63D3F49] @
    [0xCC1D9F8B, 0x6A6A943F, 0x5B828EA2, 0xFDF58516, 0x3852BB98, 0x9E25B02C, 0xAFCDAAB1, 0x09BAA105] @
    [0xFFF2D1EC, 0x5985DA58, 0x686DC0C5, 0xCE1ACB71, 0x0BBDF5FF, 0xADCAFE4B, 0x9C22E4D6, 0x3A55EF62] @
    [0xABC30345, 0x0DB408F1, 0x3C5C126C, 0x9A2B19D8, 0x5F8C2756, 0xF9FB2CE2, 0xC813367F, 0x6E643DCB] @
    [0x982C4D22, 0x3E5B4696, 0x0FB35C0B, 0xA9C457BF, 0x6C636931, 0xCA146285, 0xFBFC7818, 0x5D8B73AC] @
    [0x03A0A617, 0xA5D7ADA3, 0x943FB73E, 0x3248BC8A, 0xF7EF8204, 0x519889B0, 0x6070932D, 0xC6079899] @
    [0x304FE870, 0x9638E3C4, 0xA7D0F959, 0x01A7F2ED, 0xC400CC63, 0x6277C7D7, 0x539FDD4A, 0xF5E8D6FE] @
    [0x647E3AD9, 0xC209316D, 0xF3E12BF0, 0x55962044, 0x90311ECA, 0x3646157E, 0x07AE0FE3, 0xA1D90457] @
    [0x579174BE, 0xF1E67F0A, 0xC00E6597, 0x66796E23, 0xA3DE50AD, 0x05A95B19, 0x34414184, 0x92364A30]"

definition crc32_tab_7 :: "u32 list" where
  "crc32_tab_7 =
    [0x00000000, 0xCCAA009E, 0x4225077D, 0x8E8F07E3, 0x844A0EFA, 0x48E00E64, 0xC66F0987, 0x0AC50919] @
    [0xD3E51BB5, 0x1F4F1B2B, 0x91C01CC8, 0x5D6A1C56, 0x57AF154F, 0x9B0515D1, 0x158A1232, 0xD92012AC] @
    [0x7CBB312B, 0xB01131B5, 0x3E9E3656, 0xF23436C8, 0xF8F13FD1, 0x345B3F4F, 0xBAD438AC, 0x767E3832] @
    [0xAF5E2A9E, 0x63F42A00, 0xED7B2DE3, 0x21D12D7D, 0x2B142464, 0xE7BE24FA, 0x69312319, 0xA59B2387] @
    [0xF9766256, 0x35DC62C8, 0xBB53652B, 0x77F965B5, 0x7D3C6CAC, 0xB1966C32, 0x3F196BD1, 0xF3B36B4F] @
    [0x2A9379E3, 0xE639797D, 0x68B67E9E, 0xA41C7E00, 0xAED97719, 0x62737787, 0xECFC7064, 0x205670FA] @
    [0x85CD537D, 0x496753E3, 0xC7E85400, 0x0B42549E, 0x01875D87, 0xCD2D5D19, 0x43A25AFA, 0x8F085A64] @
    [0x562848C8, 0x9A824856, 0x140D4FB5, 0xD8A74F2B, 0xD2624632, 0x1EC846AC, 0x9047414F, 0x5CED41D1] @
    [0x299DC2ED, 0xE537C273, 0x6BB8C590, 0xA712C50E, 0xADD7CC17, 0x617DCC89, 0xEFF2CB6A, 0x2358CBF4] @
    [0xFA78D958, 0x36D2D9C6, 0xB85DDE25, 0x74F7DEBB, 0x7E32D7A2, 0xB298D73C, 0x3C17D0DF, 0xF0BDD041] @
    [0x5526F3C6, 0x998CF358, 0x1703F4BB, 0xDBA9F425, 0xD16CFD3C, 0x1DC6FDA2, 0x9349FA41, 0x5FE3FADF] @
    [0x86C3E873, 0x4A69E8ED, 0xC4E6EF0E, 0x084CEF90, 0x0289E689, 0xCE23E617, 0x40ACE1F4, 0x8C06E16A] @
    [0xD0EBA0BB, 0x1C41A025, 0x92CEA7C6, 0x5E64A758, 0x54A1AE41, 0x980BAEDF, 0x1684A93C, 0xDA2EA9A2] @
    [0x030EBB0E, 0xCFA4BB90, 0x412BBC73, 0x8D81BCED, 0x8744B5F4, 0x4BEEB56A, 0xC561B289, 0x09CBB217] @
    [0xAC509190, 0x60FA910E, 0xEE7596ED, 0x22DF9673, 0x281A9F6A, 0xE4B09FF4, 0x6A3F9817, 0xA6959889] @
    [0x7FB58A25, 0xB31F8ABB, 0x3D908D58, 0xF13A8DC6, 0xFBFF84DF, 0x37558441, 0xB9DA83A2, 0x7570833C] @
    [0x533B85DA, 0x9F918544, 0x111E82A7, 0xDDB48239, 0xD7718B20, 0x1BDB8BBE, 0x95548C5D, 0x59FE8CC3] @
    [0x80DE9E6F, 0x4C749EF1, 0xC2FB9912, 0x0E51998C, 0x04949095, 0xC83E900B, 0x46B197E8, 0x8A1B9776] @
    [0x2F80B4F1, 0xE32AB46F, 0x6DA5B38C, 0xA10FB312, 0xABCABA0B, 0x6760BA95, 0xE9EFBD76, 0x2545BDE8] @
    [0xFC65AF44, 0x30CFAFDA, 0xBE40A839, 0x72EAA8A7, 0x782FA1BE, 0xB485A120, 0x3A0AA6C3, 0xF6A0A65D] @
    [0xAA4DE78C, 0x66E7E712, 0xE868E0F1, 0x24C2E06F, 0x2E07E976, 0xE2ADE9E8, 0x6C22EE0B, 0xA088EE95] @
    [0x79A8FC39, 0xB502FCA7, 0x3B8DFB44, 0xF727FBDA, 0xFDE2F2C3, 0x3148F25D, 0xBFC7F5BE, 0x736DF520] @
    [0xD6F6D6A7, 0x1A5CD639, 0x94D3D1DA, 0x5879D144, 0x52BCD85D, 0x9E16D8C3, 0x1099DF20, 0xDC33DFBE] @
    [0x0513CD12, 0xC9B9CD8C, 0x4736CA6F, 0x8B9CCAF1, 0x8159C3E8, 0x4DF3C376, 0xC37CC495, 0x0FD6C40B] @
    [0x7AA64737, 0xB60C47A9, 0x3883404A, 0xF42940D4, 0xFEEC49CD, 0x32464953, 0xBCC94EB0, 0x70634E2E] @
    [0xA9435C82, 0x65E95C1C, 0xEB665BFF, 0x27CC5B61, 0x2D095278, 0xE1A352E6, 0x6F2C5505, 0xA386559B] @
    [0x061D761C, 0xCAB77682, 0x44387161, 0x889271FF, 0x825778E6, 0x4EFD7878, 0xC0727F9B, 0x0CD87F05] @
    [0xD5F86DA9, 0x19526D37, 0x97DD6AD4, 0x5B776A4A, 0x51B26353, 0x9D1863CD, 0x1397642E, 0xDF3D64B0] @
    [0x83D02561, 0x4F7A25FF, 0xC1F5221C, 0x0D5F2282, 0x079A2B9B, 0xCB302B05, 0x45BF2CE6, 0x89152C78] @
    [0x50353ED4, 0x9C9F3E4A, 0x121039A9, 0xDEBA3937, 0xD47F302E, 0x18D530B0, 0x965A3753, 0x5AF037CD] @
    [0xFF6B144A, 0x33C114D4, 0xBD4E1337, 0x71E413A9, 0x7B211AB0, 0xB78B1A2E, 0x39041DCD, 0xF5AE1D53] @
    [0x2C8E0FFF, 0xE0240F61, 0x6EAB0882, 0xA201081C, 0xA8C40105, 0x646E019B, 0xEAE10678, 0x264B06E6]"

definition crc32_btab_0 :: "u32 list" where
  "crc32_btab_0 =
    [0x00000000, 0xA58B900E, 0x9066265D, 0x35EDB653, 0xFBBD4AFB, 0x5E36DAF5, 0x6BDB6CA6, 0xCE50FCA8] @
    [0x2C0B93B7, 0x898003B9, 0xBC6DB5EA, 0x19E625E4, 0xD7B6D94C, 0x723D4942, 0x47D0FF11, 0xE25B6F1F] @
    [0x5817276E, 0xFD9CB760, 0xC8710133, 0x6DFA913D, 0xA3AA6D95, 0x0621FD9B, 0x33CC4BC8, 0x9647DBC6] @
    [0x741CB4D9, 0xD19724D7, 0xE47A9284, 0x41F1028A, 0x8FA1FE22, 0x2A2A6E2C, 0x1FC7D87F, 0xBA4C4871] @
    [0xB02E4EDC, 0x15A5DED2, 0x20486881, 0x85C3F88F, 0x4B930427, 0xEE189429, 0xDBF5227A, 0x7E7EB274] @
    [0x9C25DD6B, 0x39AE4D65, 0x0C43FB36, 0xA9C86B38, 0x67989790, 0xC213079E, 0xF7FEB1CD, 0x527521C3] @
    [0xE83969B2, 0x4DB2F9BC, 0x785F4FEF, 0xDDD4DFE1, 0x13842349, 0xB60FB347, 0x83E20514, 0x2669951A] @
    [0xC432FA05, 0x61B96A0B, 0x5454DC58, 0xF1DF4C56, 0x3F8FB0FE, 0x9A0420F0, 0xAFE996A3, 0x0A6206AD] @
    [0xBB2D9BF9, 0x1EA60BF7, 0x2B4BBDA4, 0x8EC02DAA, 0x4090D102, 0xE51B410C, 0xD0F6F75F, 0x757D6751] @
    [0x9726084E, 0x32AD9840, 0x07402E13, 0xA2CBBE1D, 0x6C9B42B5, 0xC910D2BB, 0xFCFD64E8, 0x5976F4E6] @
    [0xE33ABC97, 0x46B12C99, 0x735C9ACA, 0xD6D70AC4, 0x1887F66C, 0xBD0C6662, 0x88E1D031, 0x2D6A403F] @
    [0xCF312F20, 0x6ABABF2E, 0x5F57097D, 0xFADC9973, 0x348C65DB, 0x9107F5D5, 0xA4EA4386, 0x0161D388] @
    [0x0B03D525, 0xAE88452B, 0x9B65F378, 0x3EEE6376, 0xF0BE9FDE, 0x55350FD0, 0x60D8B983, 0xC553298D] @
    [0x27084692, 0x8283D69C, 0xB76E60CF, 0x12E5F0C1, 0xDCB50C69, 0x793E9C67, 0x4CD32A34, 0xE958BA3A] @
    [0x5314F24B, 0xF69F6245, 0xC372D416, 0x66F94418, 0xA8A9B8B0, 0x0D2228BE, 0x38CF9EED, 0x9D440EE3] @
    [0x7F1F61FC, 0xDA94F1F2, 0xEF7947A1, 0x4AF2D7AF, 0x84A22B07, 0x2129BB09, 0x14C40D5A, 0xB14F9D54] @
    [0xAD2A31B3, 0x08A1A1BD, 0x3D4C17EE, 0x98C787E0, 0x56977B48, 0xF31CEB46, 0xC6F15D15, 0x637ACD1B] @
    [0x8121A204, 0x24AA320A, 0x11478459, 0xB4CC1457, 0x7A9CE8FF, 0xDF1778F1, 0xEAFACEA2, 0x4F715EAC] @
    [0xF53D16DD, 0x50B686D3, 0x655B3080, 0xC0D0A08E, 0x0E805C26, 0xAB0BCC28, 0x9EE67A7B, 0x3B6DEA75] @
    [0xD936856A, 0x7CBD1564, 0x4950A337, 0xECDB3339, 0x228BCF91, 0x87005F9F, 0xB2EDE9CC, 0x176679C2] @
    [0x1D047F6F, 0xB88FEF61, 0x8D625932, 0x28E9C93C, 0xE6B93594, 0x4332A59A, 0x76DF13C9, 0xD35483C7] @
    [0x310FECD8, 0x94847CD6, 0xA169CA85, 0x04E25A8B, 0xCAB2A623, 0x6F39362D, 0x5AD4807E, 0xFF5F1070] @
    [0x45135801, 0xE098C80F, 0xD5757E5C, 0x70FEEE52, 0xBEAE12FA, 0x1B2582F4, 0x2EC834A7, 0x8B43A4A9] @
    [0x6918CBB6, 0xCC935BB8, 0xF97EEDEB, 0x5CF57DE5, 0x92A5814D, 0x372E1143, 0x02C3A710, 0xA748371E] @
    [0x1607AA4A, 0xB38C3A44, 0x86618C17, 0x23EA1C19, 0xEDBAE0B1, 0x483170BF, 0x7DDCC6EC, 0xD85756E2] @
    [0x3A0C39FD, 0x9F87A9F3, 0xAA6A1FA0, 0x0FE18FAE, 0xC1B17306, 0x643AE308, 0x51D7555B, 0xF45CC555] @
    [0x4E108D24, 0xEB9B1D2A, 0xDE76AB79, 0x7BFD3B77, 0xB5ADC7DF, 0x102657D1, 0x25CBE182, 0x8040718C] @
    [0x621B1E93, 0xC7908E9D, 0xF27D38CE, 0x57F6A8C0, 0x99A65468, 0x3C2DC466, 0x09C07235, 0xAC4BE23B] @
    [0xA629E496, 0x03A27498, 0x364FC2CB, 0x93C452C5, 0x5D94AE6D, 0xF81F3E63, 0xCDF28830, 0x6879183E] @
    [0x8A227721, 0x2FA9E72F, 0x1A44517C, 0xBFCFC172, 0x719F3DDA, 0xD414ADD4, 0xE1F91B87, 0x44728B89] @
    [0xFE3EC3F8, 0x5BB553F6, 0x6E58E5A5, 0xCBD375AB, 0x05838903, 0xA008190D, 0x95E5AF5E, 0x306E3F50] @
    [0xD235504F, 0x77BEC041, 0x42537612, 0xE7D8E61C, 0x29881AB4, 0x8C038ABA, 0xB9EE3CE9, 0x1C65ACE7]"

definition crc32_btab_1 :: "u32 list" where
  "crc32_btab_1 =
    [0x00000000, 0xE71DA697, 0x154A4B6F, 0xF257EDF8, 0x2A9496DE, 0xCD893049, 0x3FDEDDB1, 0xD8C37B26] @
    [0x55292DBC, 0xB2348B2B, 0x406366D3, 0xA77EC044, 0x7FBDBB62, 0x98A01DF5, 0x6AF7F00D, 0x8DEA569A] @
    [0xAA525B78, 0x4D4FFDEF, 0xBF181017, 0x5805B680, 0x80C6CDA6, 0x67DB6B31, 0x958C86C9, 0x7291205E] @
    [0xFF7B76C4, 0x1866D053, 0xEA313DAB, 0x0D2C9B3C, 0xD5EFE01A, 0x32F2468D, 0xC0A5AB75, 0x27B80DE2] @
    [0x8FD5B0B1, 0x68C81626, 0x9A9FFBDE, 0x7D825D49, 0xA541266F, 0x425C80F8, 0xB00B6D00, 0x5716CB97] @
    [0xDAFC9D0D, 0x3DE13B9A, 0xCFB6D662, 0x28AB70F5, 0xF0680BD3, 0x1775AD44, 0xE52240BC, 0x023FE62B] @
    [0x2587EBC9, 0xC29A4D5E, 0x30CDA0A6, 0xD7D00631, 0x0F137D17, 0xE80EDB80, 0x1A593678, 0xFD4490EF] @
    [0x70AEC675, 0x97B360E2, 0x65E48D1A, 0x82F92B8D, 0x5A3A50AB, 0xBD27F63C, 0x4F701BC4, 0xA86DBD53] @
    [0xC4DA6723, 0x23C7C1B4, 0xD1902C4C, 0x368D8ADB, 0xEE4EF1FD, 0x0953576A, 0xFB04BA92, 0x1C191C05] @
    [0x91F34A9F, 0x76EEEC08, 0x84B901F0, 0x63A4A767, 0xBB67DC41, 0x5C7A7AD6, 0xAE2D972E, 0x493031B9] @
    [0x6E883C5B, 0x89959ACC, 0x7BC27734, 0x9CDFD1A3, 0x441CAA85, 0xA3010C12, 0x5156E1EA, 0xB64B477D] @
    [0x3BA111E7, 0xDCBCB770, 0x2EEB5A88, 0xC9F6FC1F, 0x11358739, 0xF62821AE, 0x047FCC56, 0xE3626AC1] @
    [0x4B0FD792, 0xAC127105, 0x5E459CFD, 0xB9583A6A, 0x619B414C, 0x8686E7DB, 0x74D10A23, 0x93CCACB4] @
    [0x1E26FA2E, 0xF93B5CB9, 0x0B6CB141, 0xEC7117D6, 0x34B26CF0, 0xD3AFCA67, 0x21F8279F, 0xC6E58108] @
    [0xE15D8CEA, 0x06402A7D, 0xF417C785, 0x130A6112, 0xCBC91A34, 0x2CD4BCA3, 0xDE83515B, 0x399EF7CC] @
    [0xB474A156, 0x536907C1, 0xA13EEA39, 0x46234CAE, 0x9EE03788, 0x79FD911F, 0x8BAA7CE7, 0x6CB7DA70] @
    [0x52C5C807, 0xB5D86E90, 0x478F8368, 0xA09225FF, 0x78515ED9, 0x9F4CF84E, 0x6D1B15B6, 0x8A06B321] @
    [0x07ECE5BB, 0xE0F1432C, 0x12A6AED4, 0xF5BB0843, 0x2D787365, 0xCA65D5F2, 0x3832380A, 0xDF2F9E9D] @
    [0xF897937F, 0x1F8A35E8, 0xEDDDD810, 0x0AC07E87, 0xD20305A1, 0x351EA336, 0xC7494ECE, 0x2054E859] @
    [0xADBEBEC3, 0x4AA31854, 0xB8F4F5AC, 0x5FE9533B, 0x872A281D, 0x60378E8A, 0x92606372, 0x757DC5E5] @
    [0xDD1078B6, 0x3A0DDE21, 0xC85A33D9, 0x2F47954E, 0xF784EE68, 0x109948FF, 0xE2CEA507, 0x05D30390] @
    [0x8839550A, 0x6F24F39D, 0x9D731E65, 0x7A6EB8F2, 0xA2ADC3D4, 0x45B06543, 0xB7E788BB, 0x50FA2E2C] @
    [0x774223CE, 0x905F8559, 0x620868A1, 0x8515CE36, 0x5DD6B510, 0xBACB1387, 0x489CFE7F, 0xAF8158E8] @
    [0x226B0E72, 0xC576A8E5, 0x3721451D, 0xD03CE38A, 0x08FF98AC, 0xEFE23E3B, 0x1DB5D3C3, 0xFAA87554] @
    [0x961FAF24, 0x710209B3, 0x8355E44B, 0x644842DC, 0xBC8B39FA, 0x5B969F6D, 0xA9C17295, 0x4EDCD402] @
    [0xC3368298, 0x242B240F, 0xD67CC9F7, 0x31616F60, 0xE9A21446, 0x0EBFB2D1, 0xFCE85F29, 0x1BF5F9BE] @
    [0x3C4DF45C, 0xDB5052CB, 0x2907BF33, 0xCE1A19A4, 0x16D96282, 0xF1C4C415, 0x039329ED, 0xE48E8F7A] @
    [0x6964D9E0, 0x8E797F77, 0x7C2E928F, 0x9B333418, 0x43F04F3E, 0xA4EDE9A9, 0x56BA0451, 0xB1A7A2C6] @
    [0x19CA1F95, 0xFED7B902, 0x0C8054FA, 0xEB9DF26D, 0x335E894B, 0xD4432FDC, 0x2614C224, 0xC10964B3] @
    [0x4CE33229, 0xABFE94BE, 0x59A97946, 0xBEB4DFD1, 0x6677A4F7, 0x816A0260, 0x733DEF98, 0x9420490F] @
    [0xB39844ED, 0x5485E27A, 0xA6D20F82, 0x41CFA915, 0x990CD233, 0x7E1174A4, 0x8C46995C, 0x6B5B3FCB] @
    [0xE6B16951, 0x01ACCFC6, 0xF3FB223E, 0x14E684A9, 0xCC25FF8F, 0x2B385918, 0xD96FB4E0, 0x3E721277]"

definition crc32_btab_2 :: "u32 list" where
  "crc32_btab_2 =
    [0x00000000, 0x6E8C1B41, 0xDD183682, 0xB3942DC3, 0x61416B45, 0x0FCD7004, 0xBC595DC7, 0xD2D54686] @
    [0xC282D68A, 0xAC0ECDCB, 0x1F9AE008, 0x7116FB49, 0xA3C3BDCF, 0xCD4FA68E, 0x7EDB8B4D, 0x1057900C] @
    [0x5E74AB55, 0x30F8B014, 0x836C9DD7, 0xEDE08696, 0x3F35C010, 0x51B9DB51, 0xE22DF692, 0x8CA1EDD3] @
    [0x9CF67DDF, 0xF27A669E, 0x41EE4B5D, 0x2F62501C, 0xFDB7169A, 0x933B0DDB, 0x20AF2018, 0x4E233B59] @
    [0xBCE956AA, 0xD2654DEB, 0x61F16028, 0x0F7D7B69, 0xDDA83DEF, 0xB32426AE, 0x00B00B6D, 0x6E3C102C] @
    [0x7E6B8020, 0x10E79B61, 0xA373B6A2, 0xCDFFADE3, 0x1F2AEB65, 0x71A6F024, 0xC232DDE7, 0xACBEC6A6] @
    [0xE29DFDFF, 0x8C11E6BE, 0x3F85CB7D, 0x5109D03C, 0x83DC96BA, 0xED508DFB, 0x5EC4A038, 0x3048BB79] @
    [0x201F2B75, 0x4E933034, 0xFD071DF7, 0x938B06B6, 0x415E4030, 0x2FD25B71, 0x9C4676B2, 0xF2CA6DF3] @
    [0xA2A3AB15, 0xCC2FB054, 0x7FBB9D97, 0x113786D6, 0xC3E2C050, 0xAD6EDB11, 0x1EFAF6D2, 0x7076ED93] @
    [0x60217D9F, 0x0EAD66DE, 0xBD394B1D, 0xD3B5505C, 0x016016DA, 0x6FEC0D9B, 0xDC782058, 0xB2F43B19] @
    [0xFCD70040, 0x925B1B01, 0x21CF36C2, 0x4F432D83, 0x9D966B05, 0xF31A7044, 0x408E5D87, 0x2E0246C6] @
    [0x3E55D6CA, 0x50D9CD8B, 0xE34DE048, 0x8DC1FB09, 0x5F14BD8F, 0x3198A6CE, 0x820C8B0D, 0xEC80904C] @
    [0x1E4AFDBF, 0x70C6E6FE, 0xC352CB3D, 0xADDED07C, 0x7F0B96FA, 0x11878DBB, 0xA213A078, 0xCC9FBB39] @
    [0xDCC82B35, 0xB2443074, 0x01D01DB7, 0x6F5C06F6, 0xBD894070, 0xD3055B31, 0x609176F2, 0x0E1D6DB3] @
    [0x403E56EA, 0x2EB24DAB, 0x9D266068, 0xF3AA7B29, 0x217F3DAF, 0x4FF326EE, 0xFC670B2D, 0x92EB106C] @
    [0x82BC8060, 0xEC309B21, 0x5FA4B6E2, 0x3128ADA3, 0xE3FDEB25, 0x8D71F064, 0x3EE5DDA7, 0x5069C6E6] @
    [0x9E36506B, 0xF0BA4B2A, 0x432E66E9, 0x2DA27DA8, 0xFF773B2E, 0x91FB206F, 0x226F0DAC, 0x4CE316ED] @
    [0x5CB486E1, 0x32389DA0, 0x81ACB063, 0xEF20AB22, 0x3DF5EDA4, 0x5379F6E5, 0xE0EDDB26, 0x8E61C067] @
    [0xC042FB3E, 0xAECEE07F, 0x1D5ACDBC, 0x73D6D6FD, 0xA103907B, 0xCF8F8B3A, 0x7C1BA6F9, 0x1297BDB8] @
    [0x02C02DB4, 0x6C4C36F5, 0xDFD81B36, 0xB1540077, 0x638146F1, 0x0D0D5DB0, 0xBE997073, 0xD0156B32] @
    [0x22DF06C1, 0x4C531D80, 0xFFC73043, 0x914B2B02, 0x439E6D84, 0x2D1276C5, 0x9E865B06, 0xF00A4047] @
    [0xE05DD04B, 0x8ED1CB0A, 0x3D45E6C9, 0x53C9FD88, 0x811CBB0E, 0xEF90A04F, 0x5C048D8C, 0x328896CD] @
    [0x7CABAD94, 0x1227B6D5, 0xA1B39B16, 0xCF3F8057, 0x1DEAC6D1, 0x7366DD90, 0xC0F2F053, 0xAE7EEB12] @
    [0xBE297B1E, 0xD0A5605F, 0x63314D9C, 0x0DBD56DD, 0xDF68105B, 0xB1E40B1A, 0x027026D9, 0x6CFC3D98] @
    [0x3C95FB7E, 0x5219E03F, 0xE18DCDFC, 0x8F01D6BD, 0x5DD4903B, 0x33588B7A, 0x80CCA6B9, 0xEE40BDF8] @
    [0xFE172DF4, 0x909B36B5, 0x230F1B76, 0x4D830037, 0x9F5646B1, 0xF1DA5DF0, 0x424E7033, 0x2CC26B72] @
    [0x62E1502B, 0x0C6D4B6A, 0xBFF966A9, 0xD1757DE8, 0x03A03B6E, 0x6D2C202F, 0xDEB80DEC, 0xB03416AD] @
    [0xA06386A1, 0xCEEF9DE0, 0x7D7BB023, 0x13F7AB62, 0xC122EDE4, 0xAFAEF6A5, 0x1C3ADB66, 0x72B6C027] @
    [0x807CADD4, 0xEEF0B695, 0x5D649B56, 0x33E88017, 0xE13DC691, 0x8FB1DDD0, 0x3C25F013, 0x52A9EB52] @
    [0x42FE7B5E, 0x2C72601F, 0x9FE64DDC, 0xF16A569D, 0x23BF101B, 0x4D330B5A, 0xFEA72699, 0x902B3DD8] @
    [0xDE080681, 0xB0841DC0, 0x03103003, 0x6D9C2B42, 0xBF496DC4, 0xD1C57685, 0x62515B46, 0x0CDD4007] @
    [0x1C8AD00B, 0x7206CB4A, 0xC192E689, 0xAF1EFDC8, 0x7DCBBB4E, 0x1347A00F, 0xA0D38DCC, 0xCE5F968D]"

definition crc32_btab_3 :: "u32 list" where
  "crc32_btab_3 =
    [0x00000000, 0x01B5FD1D, 0x036BFA3A, 0x02DE0727, 0x06D7F474, 0x07620969, 0x05BC0E4E, 0x0409F353] @
    [0x0DAFE8E8, 0x0C1A15F5, 0x0EC412D2, 0x0F71EFCF, 0x0B781C9C, 0x0ACDE181, 0x0813E6A6, 0x09A61BBB] @
    [0x1B5FD1D0, 0x1AEA2CCD, 0x18342BEA, 0x1981D6F7, 0x1D8825A4, 0x1C3DD8B9, 0x1EE3DF9E, 0x1F562283] @
    [0x16F03938, 0x1745C425, 0x159BC302, 0x142E3E1F, 0x1027CD4C, 0x11923051, 0x134C3776, 0x12F9CA6B] @
    [0x36BFA3A0, 0x370A5EBD, 0x35D4599A, 0x3461A487, 0x306857D4, 0x31DDAAC9, 0x3303ADEE, 0x32B650F3] @
    [0x3B104B48, 0x3AA5B655, 0x387BB172, 0x39CE4C6F, 0x3DC7BF3C, 0x3C724221, 0x3EAC4506, 0x3F19B81B] @
    [0x2DE07270, 0x2C558F6D, 0x2E8B884A, 0x2F3E7557, 0x2B378604, 0x2A827B19, 0x285C7C3E, 0x29E98123] @
    [0x204F9A98, 0x21FA6785, 0x232460A2, 0x22919DBF, 0x26986EEC, 0x272D93F1, 0x25F394D6, 0x244669CB] @
    [0x6D7F4740, 0x6CCABA5D, 0x6E14BD7A, 0x6FA14067, 0x6BA8B334, 0x6A1D4E29, 0x68C3490E, 0x6976B413] @
    [0x60D0AFA8, 0x616552B5, 0x63BB5592, 0x620EA88F, 0x66075BDC, 0x67B2A6C1, 0x656CA1E6, 0x64D95CFB] @
    [0x76209690, 0x77956B8D, 0x754B6CAA, 0x74FE91B7, 0x70F762E4, 0x71429FF9, 0x739C98DE, 0x722965C3] @
    [0x7B8F7E78, 0x7A3A8365, 0x78E48442, 0x7951795F, 0x7D588A0C, 0x7CED7711, 0x7E337036, 0x7F868D2B] @
    [0x5BC0E4E0, 0x5A7519FD, 0x58AB1EDA, 0x591EE3C7, 0x5D171094, 0x5CA2ED89, 0x5E7CEAAE, 0x5FC917B3] @
    [0x566F0C08, 0x57DAF115, 0x5504F632, 0x54B10B2F, 0x50B8F87C, 0x510D0561, 0x53D30246, 0x5266FF5B] @
    [0x409F3530, 0x412AC82D, 0x43F4CF0A, 0x42413217, 0x4648C144, 0x47FD3C59, 0x45233B7E, 0x4496C663] @
    [0x4D30DDD8, 0x4C8520C5, 0x4E5B27E2, 0x4FEEDAFF, 0x4BE729AC, 0x4A52D4B1, 0x488CD396, 0x49392E8B] @
    [0xDAFE8E80, 0xDB4B739D, 0xD99574BA, 0xD82089A7, 0xDC297AF4, 0xDD9C87E9, 0xDF4280CE, 0xDEF77DD3] @
    [0xD7516668, 0xD6E49B75, 0xD43A9C52, 0xD58F614F, 0xD186921C, 0xD0336F01, 0xD2ED6826, 0xD358953B] @
    [0xC1A15F50, 0xC014A24D, 0xC2CAA56A, 0xC37F5877, 0xC776AB24, 0xC6C35639, 0xC41D511E, 0xC5A8AC03] @
    [0xCC0EB7B8, 0xCDBB4AA5, 0xCF654D82, 0xCED0B09F, 0xCAD943CC, 0xCB6CBED1, 0xC9B2B9F6, 0xC80744EB] @
    [0xEC412D20, 0xEDF4D03D, 0xEF2AD71A, 0xEE9F2A07, 0xEA96D954, 0xEB232449, 0xE9FD236E, 0xE848DE73] @
    [0xE1EEC5C8, 0xE05B38D5, 0xE2853FF2, 0xE330C2EF, 0xE73931BC, 0xE68CCCA1, 0xE452CB86, 0xE5E7369B] @
    [0xF71EFCF0, 0xF6AB01ED, 0xF47506CA, 0xF5C0FBD7, 0xF1C90884, 0xF07CF599, 0xF2A2F2BE, 0xF3170FA3] @
    [0xFAB11418, 0xFB04E905, 0xF9DAEE22, 0xF86F133F, 0xFC66E06C, 0xFDD31D71, 0xFF0D1A56, 0xFEB8E74B] @
    [0xB781C9C0, 0xB63434DD, 0xB4EA33FA, 0xB55FCEE7, 0xB1563DB4, 0xB0E3C0A9, 0xB23DC78E, 0xB3883A93] @
    [0xBA2E2128, 0xBB9BDC35, 0xB945DB12, 0xB8F0260F, 0xBCF9D55C, 0xBD4C2841, 0xBF922F66, 0xBE27D27B] @
    [0xACDE1810, 0xAD6BE50D, 0xAFB5E22A, 0xAE001F37, 0xAA09EC64, 0xABBC1179, 0xA962165E, 0xA8D7EB43] @
    [0xA171F0F8, 0xA0C40DE5, 0xA21A0AC2, 0xA3AFF7DF, 0xA7A6048C, 0xA613F991, 0xA4CDFEB6, 0xA57803AB] @
    [0x813E6A60, 0x808B977D, 0x8255905A, 0x83E06D47, 0x87E99E14, 0x865C6309, 0x8482642E, 0x85379933] @
    [0x8C918288, 0x8D247F95, 0x8FFA78B2, 0x8E4F85AF, 0x8A4676FC, 0x8BF38BE1, 0x892D8CC6, 0x889871DB] @
    [0x9A61BBB0, 0x9BD446AD, 0x990A418A, 0x98BFBC97, 0x9CB64FC4, 0x9D03B2D9, 0x9FDDB5FE, 0x9E6848E3] @
    [0x97CE5358, 0x967BAE45, 0x94A5A962, 0x9510547F, 0x9119A72C, 0x90AC5A31, 0x92725D16, 0x93C7A00B]"

definition crc32_btab_4 :: "u32 list" where
  "crc32_btab_4 =
    [0x00000000, 0x6307D924, 0xC60FB248, 0xA5086B6C, 0x576E62D1, 0x3469BBF5, 0x9161D099, 0xF26609BD] @
    [0xAEDCC5A2, 0xCDDB1C86, 0x68D377EA, 0x0BD4AECE, 0xF9B2A773, 0x9AB57E57, 0x3FBD153B, 0x5CBACC1F] @
    [0x86C88D05, 0xE5CF5421, 0x40C73F4D, 0x23C0E669, 0xD1A6EFD4, 0xB2A136F0, 0x17A95D9C, 0x74AE84B8] @
    [0x281448A7, 0x4B139183, 0xEE1BFAEF, 0x8D1C23CB, 0x7F7A2A76, 0x1C7DF352, 0xB975983E, 0xDA72411A] @
    [0xD6E01C4B, 0xB5E7C56F, 0x10EFAE03, 0x73E87727, 0x818E7E9A, 0xE289A7BE, 0x4781CCD2, 0x248615F6] @
    [0x783CD9E9, 0x1B3B00CD, 0xBE336BA1, 0xDD34B285, 0x2F52BB38, 0x4C55621C, 0xE95D0970, 0x8A5AD054] @
    [0x5028914E, 0x332F486A, 0x96272306, 0xF520FA22, 0x0746F39F, 0x64412ABB, 0xC14941D7, 0xA24E98F3] @
    [0xFEF454EC, 0x9DF38DC8, 0x38FBE6A4, 0x5BFC3F80, 0xA99A363D, 0xCA9DEF19, 0x6F958475, 0x0C925D51] @
    [0x76B13ED7, 0x15B6E7F3, 0xB0BE8C9F, 0xD3B955BB, 0x21DF5C06, 0x42D88522, 0xE7D0EE4E, 0x84D7376A] @
    [0xD86DFB75, 0xBB6A2251, 0x1E62493D, 0x7D659019, 0x8F0399A4, 0xEC044080, 0x490C2BEC, 0x2A0BF2C8] @
    [0xF079B3D2, 0x937E6AF6, 0x3676019A, 0x5571D8BE, 0xA717D103, 0xC4100827, 0x6118634B, 0x021FBA6F] @
    [0x5EA57670, 0x3DA2AF54, 0x98AAC438, 0xFBAD1D1C, 0x09CB14A1, 0x6ACCCD85, 0xCFC4A6E9, 0xACC37FCD] @
    [0xA051229C, 0xC356FBB8, 0x665E90D4, 0x055949F0, 0xF73F404D, 0x94389969, 0x3130F205, 0x52372B21] @
    [0x0E8DE73E, 0x6D8A3E1A, 0xC8825576, 0xAB858C52, 0x59E385EF, 0x3AE45CCB, 0x9FEC37A7, 0xFCEBEE83] @
    [0x2699AF99, 0x459E76BD, 0xE0961DD1, 0x8391C4F5, 0x71F7CD48, 0x12F0146C, 0xB7F87F00, 0xD4FFA624] @
    [0x88456A3B, 0xEB42B31F, 0x4E4AD873, 0x2D4D0157, 0xDF2B08EA, 0xBC2CD1CE, 0x1924BAA2, 0x7A236386] @
    [0xED627DAE, 0x8E65A48A, 0x2B6DCFE6, 0x486A16C2, 0xBA0C1F7F, 0xD90BC65B, 0x7C03AD37, 0x1F047413] @
    [0x43BEB80C, 0x20B96128, 0x85B10A44, 0xE6B6D360, 0x14D0DADD, 0x77D703F9, 0xD2DF6895, 0xB1D8B1B1] @
    [0x6BAAF0AB, 0x08AD298F, 0xADA542E3, 0xCEA29BC7, 0x3CC4927A, 0x5FC34B5E, 0xFACB2032, 0x99CCF916] @
    [0xC5763509, 0xA671EC2D, 0x03798741, 0x607E5E65, 0x921857D8, 0xF11F8EFC, 0x5417E590, 0x37103CB4] @
    [0x3B8261E5, 0x5885B8C1, 0xFD8DD3AD, 0x9E8A0A89, 0x6CEC0334, 0x0FEBDA10, 0xAAE3B17C, 0xC9E46858] @
    [0x955EA447, 0xF6597D63, 0x5351160F, 0x3056CF2B, 0xC230C696, 0xA1371FB2, 0x043F74DE, 0x6738ADFA] @
    [0xBD4AECE0, 0xDE4D35C4, 0x7B455EA8, 0x1842878C, 0xEA248E31, 0x89235715, 0x2C2B3C79, 0x4F2CE55D] @
    [0x13962942, 0x7091F066, 0xD5999B0A, 0xB69E422E, 0x44F84B93, 0x27FF92B7, 0x82F7F9DB, 0xE1F020FF] @
    [0x9BD34379, 0xF8D49A5D, 0x5DDCF131, 0x3EDB2815, 0xCCBD21A8, 0xAFBAF88C, 0x0AB293E0, 0x69B54AC4] @
    [0x350F86DB, 0x56085FFF, 0xF3003493, 0x9007EDB7, 0x6261E40A, 0x01663D2E, 0xA46E5642, 0xC7698F66] @
    [0x1D1BCE7C, 0x7E1C1758, 0xDB147C34, 0xB813A510, 0x4A75ACAD, 0x29727589, 0x8C7A1EE5, 0xEF7DC7C1] @
    [0xB3C70BDE, 0xD0C0D2FA, 0x75C8B996, 0x16CF60B2, 0xE4A9690F, 0x87AEB02B, 0x22A6DB47, 0x41A10263] @
    [0x4D335F32, 0x2E348616, 0x8B3CED7A, 0xE83B345E, 0x1A5D3DE3, 0x795AE4C7, 0xDC528FAB, 0xBF55568F] @
    [0xE3EF9A90, 0x80E843B4, 0x25E028D8, 0x46E7F1FC, 0xB481F841, 0xD7862165, 0x728E4A09, 0x1189932D] @
    [0xCBFBD237, 0xA8FC0B13, 0x0DF4607F, 0x6EF3B95B, 0x9C95B0E6, 0xFF9269C2, 0x5A9A02AE, 0x399DDB8A] @
    [0x65271795, 0x0620CEB1, 0xA328A5DD, 0xC02F7CF9, 0x32497544, 0x514EAC60, 0xF446C70C, 0x97411E28]"

definition crc32_btab_5 :: "u32 list" where
  "crc32_btab_5 =
    [0x00000000, 0x3C60E308, 0x78C1C610, 0x44A12518, 0xF1838C20, 0xCDE36F28, 0x89424A30, 0xB522A938] @
    [0x38761E01, 0x0416FD09, 0x40B7D811, 0x7CD73B19, 0xC9F59221, 0xF5957129, 0xB1345431, 0x8D54B739] @
    [0x70EC3C02, 0x4C8CDF0A, 0x082DFA12, 0x344D191A, 0x816FB022, 0xBD0F532A, 0xF9AE7632, 0xC5CE953A] @
    [0x489A2203, 0x74FAC10B, 0x305BE413, 0x0C3B071B, 0xB919AE23, 0x85794D2B, 0xC1D86833, 0xFDB88B3B] @
    [0xE1D87804, 0xDDB89B0C, 0x9919BE14, 0xA5795D1C, 0x105BF424, 0x2C3B172C, 0x689A3234, 0x54FAD13C] @
    [0xD9AE6605, 0xE5CE850D, 0xA16FA015, 0x9D0F431D, 0x282DEA25, 0x144D092D, 0x50EC2C35, 0x6C8CCF3D] @
    [0x91344406, 0xAD54A70E, 0xE9F58216, 0xD595611E, 0x60B7C826, 0x5CD72B2E, 0x18760E36, 0x2416ED3E] @
    [0xA9425A07, 0x9522B90F, 0xD1839C17, 0xEDE37F1F, 0x58C1D627, 0x64A1352F, 0x20001037, 0x1C60F33F] @
    [0x18C1F649, 0x24A11541, 0x60003059, 0x5C60D351, 0xE9427A69, 0xD5229961, 0x9183BC79, 0xADE35F71] @
    [0x20B7E848, 0x1CD70B40, 0x58762E58, 0x6416CD50, 0xD1346468, 0xED548760, 0xA9F5A278, 0x95954170] @
    [0x682DCA4B, 0x544D2943, 0x10EC0C5B, 0x2C8CEF53, 0x99AE466B, 0xA5CEA563, 0xE16F807B, 0xDD0F6373] @
    [0x505BD44A, 0x6C3B3742, 0x289A125A, 0x14FAF152, 0xA1D8586A, 0x9DB8BB62, 0xD9199E7A, 0xE5797D72] @
    [0xF9198E4D, 0xC5796D45, 0x81D8485D, 0xBDB8AB55, 0x089A026D, 0x34FAE165, 0x705BC47D, 0x4C3B2775] @
    [0xC16F904C, 0xFD0F7344, 0xB9AE565C, 0x85CEB554, 0x30EC1C6C, 0x0C8CFF64, 0x482DDA7C, 0x744D3974] @
    [0x89F5B24F, 0xB5955147, 0xF134745F, 0xCD549757, 0x78763E6F, 0x4416DD67, 0x00B7F87F, 0x3CD71B77] @
    [0xB183AC4E, 0x8DE34F46, 0xC9426A5E, 0xF5228956, 0x4000206E, 0x7C60C366, 0x38C1E67E, 0x04A10576] @
    [0x3183EC92, 0x0DE30F9A, 0x49422A82, 0x7522C98A, 0xC00060B2, 0xFC6083BA, 0xB8C1A6A2, 0x84A145AA] @
    [0x09F5F293, 0x3595119B, 0x71343483, 0x4D54D78B, 0xF8767EB3, 0xC4169DBB, 0x80B7B8A3, 0xBCD75BAB] @
    [0x416FD090, 0x7D0F3398, 0x39AE1680, 0x05CEF588, 0xB0EC5CB0, 0x8C8CBFB8, 0xC82D9AA0, 0xF44D79A8] @
    [0x7919CE91, 0x45792D99, 0x01D80881, 0x3DB8EB89, 0x889A42B1, 0xB4FAA1B9, 0xF05B84A1, 0xCC3B67A9] @
    [0xD05B9496, 0xEC3B779E, 0xA89A5286, 0x94FAB18E, 0x21D818B6, 0x1DB8FBBE, 0x5919DEA6, 0x65793DAE] @
    [0xE82D8A97, 0xD44D699F, 0x90EC4C87, 0xAC8CAF8F, 0x19AE06B7, 0x25CEE5BF, 0x616FC0A7, 0x5D0F23AF] @
    [0xA0B7A894, 0x9CD74B9C, 0xD8766E84, 0xE4168D8C, 0x513424B4, 0x6D54C7BC, 0x29F5E2A4, 0x159501AC] @
    [0x98C1B695, 0xA4A1559D, 0xE0007085, 0xDC60938D, 0x69423AB5, 0x5522D9BD, 0x1183FCA5, 0x2DE31FAD] @
    [0x29421ADB, 0x1522F9D3, 0x5183DCCB, 0x6DE33FC3, 0xD8C196FB, 0xE4A175F3, 0xA00050EB, 0x9C60B3E3] @
    [0x113404DA, 0x2D54E7D2, 0x69F5C2CA, 0x559521C2, 0xE0B788FA, 0xDCD76BF2, 0x98764EEA, 0xA416ADE2] @
    [0x59AE26D9, 0x65CEC5D1, 0x216FE0C9, 0x1D0F03C1, 0xA82DAAF9, 0x944D49F1, 0xD0EC6CE9, 0xEC8C8FE1] @
    [0x61D838D8, 0x5DB8DBD0, 0x1919FEC8, 0x25791DC0, 0x905BB4F8, 0xAC3B57F0, 0xE89A72E8, 0xD4FA91E0] @
    [0xC89A62DF, 0xF4FA81D7, 0xB05BA4CF, 0x8C3B47C7, 0x3919EEFF, 0x05790DF7, 0x41D828EF, 0x7DB8CBE7] @
    [0xF0EC7CDE, 0xCC8C9FD6, 0x882DBACE, 0xB44D59C6, 0x016FF0FE, 0x3D0F13F6, 0x79AE36EE, 0x45CED5E6] @
    [0xB8765EDD, 0x8416BDD5, 0xC0B798CD, 0xFCD77BC5, 0x49F5D2FD, 0x759531F5, 0x313414ED, 0x0D54F7E5] @
    [0x800040DC, 0xBC60A3D4, 0xF8C186CC, 0xC4A165C4, 0x7183CCFC, 0x4DE32FF4, 0x09420AEC, 0x3522E9E4]"

definition crc32_btab_6 :: "u32 list" where
  "crc32_btab_6 =
    [0x00000000, 0x0EE7E8D1, 0x1DCFD1A2, 0x13283973, 0x3B9FA344, 0x35784B95, 0x265072E6, 0x28B79A37] @
    [0x773F4688, 0x79D8AE59, 0x6AF0972A, 0x64177FFB, 0x4CA0E5CC, 0x42470D1D, 0x516F346E, 0x5F88DCBF] @
    [0xEE7E8D10, 0xE09965C1, 0xF3B15CB2, 0xFD56B463, 0xD5E12E54, 0xDB06C685, 0xC82EFFF6, 0xC6C91727] @
    [0x9941CB98, 0x97A62349, 0x848E1A3A, 0x8A69F2EB, 0xA2DE68DC, 0xAC39800D, 0xBF11B97E, 0xB1F651AF] @
    [0x078C1C61, 0x096BF4B0, 0x1A43CDC3, 0x14A42512, 0x3C13BF25, 0x32F457F4, 0x21DC6E87, 0x2F3B8656] @
    [0x70B35AE9, 0x7E54B238, 0x6D7C8B4B, 0x639B639A, 0x4B2CF9AD, 0x45CB117C, 0x56E3280F, 0x5804C0DE] @
    [0xE9F29171, 0xE71579A0, 0xF43D40D3, 0xFADAA802, 0xD26D3235, 0xDC8ADAE4, 0xCFA2E397, 0xC1450B46] @
    [0x9ECDD7F9, 0x902A3F28, 0x8302065B, 0x8DE5EE8A, 0xA55274BD, 0xABB59C6C, 0xB89DA51F, 0xB67A4DCE] @
    [0x0F1838C2, 0x01FFD013, 0x12D7E960, 0x1C3001B1, 0x34879B86, 0x3A607357, 0x29484A24, 0x27AFA2F5] @
    [0x78277E4A, 0x76C0969B, 0x65E8AFE8, 0x6B0F4739, 0x43B8DD0E, 0x4D5F35DF, 0x5E770CAC, 0x5090E47D] @
    [0xE166B5D2, 0xEF815D03, 0xFCA96470, 0xF24E8CA1, 0xDAF91696, 0xD41EFE47, 0xC736C734, 0xC9D12FE5] @
    [0x9659F35A, 0x98BE1B8B, 0x8B9622F8, 0x8571CA29, 0xADC6501E, 0xA321B8CF, 0xB00981BC, 0xBEEE696D] @
    [0x089424A3, 0x0673CC72, 0x155BF501, 0x1BBC1DD0, 0x330B87E7, 0x3DEC6F36, 0x2EC45645, 0x2023BE94] @
    [0x7FAB622B, 0x714C8AFA, 0x6264B389, 0x6C835B58, 0x4434C16F, 0x4AD329BE, 0x59FB10CD, 0x571CF81C] @
    [0xE6EAA9B3, 0xE80D4162, 0xFB257811, 0xF5C290C0, 0xDD750AF7, 0xD392E226, 0xC0BADB55, 0xCE5D3384] @
    [0x91D5EF3B, 0x9F3207EA, 0x8C1A3E99, 0x82FDD648, 0xAA4A4C7F, 0xA4ADA4AE, 0xB7859DDD, 0xB962750C] @
    [0x1E307184, 0x10D79955, 0x03FFA026, 0x0D1848F7, 0x25AFD2C0, 0x2B483A11, 0x38600362, 0x3687EBB3] @
    [0x690F370C, 0x67E8DFDD, 0x74C0E6AE, 0x7A270E7F, 0x52909448, 0x5C777C99, 0x4F5F45EA, 0x41B8AD3B] @
    [0xF04EFC94, 0xFEA91445, 0xED812D36, 0xE366C5E7, 0xCBD15FD0, 0xC536B701, 0xD61E8E72, 0xD8F966A3] @
    [0x8771BA1C, 0x899652CD, 0x9ABE6BBE, 0x9459836F, 0xBCEE1958, 0xB209F189, 0xA121C8FA, 0xAFC6202B] @
    [0x19BC6DE5, 0x175B8534, 0x0473BC47, 0x0A945496, 0x2223CEA1, 0x2CC42670, 0x3FEC1F03, 0x310BF7D2] @
    [0x6E832B6D, 0x6064C3BC, 0x734CFACF, 0x7DAB121E, 0x551C8829, 0x5BFB60F8, 0x48D3598B, 0x4634B15A] @
    [0xF7C2E0F5, 0xF9250824, 0xEA0D3157, 0xE4EAD986, 0xCC5D43B1, 0xC2BAAB60, 0xD1929213, 0xDF757AC2] @
    [0x80FDA67D, 0x8E1A4EAC, 0x9D3277DF, 0x93D59F0E, 0xBB620539, 0xB585EDE8, 0xA6ADD49B, 0xA84A3C4A] @
    [0x11284946, 0x1FCFA197, 0x0CE798E4, 0x02007035, 0x2AB7EA02, 0x245002D3, 0x37783BA0, 0x399FD371] @
    [0x66170FCE, 0x68F0E71F, 0x7BD8DE6C, 0x753F36BD, 0x5D88AC8A, 0x536F445B, 0x40477D28, 0x4EA095F9] @
    [0xFF56C456, 0xF1B12C87, 0xE29915F4, 0xEC7EFD25, 0xC4C96712, 0xCA2E8FC3, 0xD906B6B0, 0xD7E15E61] @
    [0x886982DE, 0x868E6A0F, 0x95A6537C, 0x9B41BBAD, 0xB3F6219A, 0xBD11C94B, 0xAE39F038, 0xA0DE18E9] @
    [0x16A45527, 0x1843BDF6, 0x0B6B8485, 0x058C6C54, 0x2D3BF663, 0x23DC1EB2, 0x30F427C1, 0x3E13CF10] @
    [0x619B13AF, 0x6F7CFB7E, 0x7C54C20D, 0x72B32ADC, 0x5A04B0EB, 0x54E3583A, 0x47CB6149, 0x492C8998] @
    [0xF8DAD837, 0xF63D30E6, 0xE5150995, 0xEBF2E144, 0xC3457B73, 0xCDA293A2, 0xDE8AAAD1, 0xD06D4200] @
    [0x8FE59EBF, 0x8102766E, 0x922A4F1D, 0x9CCDA7CC, 0xB47A3DFB, 0xBA9DD52A, 0xA9B5EC59, 0xA7520488]"

definition crc32_btab_7 :: "u32 list" where
  "crc32_btab_7 =
    [0x00000000, 0xF1DA05AA, 0x38C50D15, 0xC91F08BF, 0x718A1A2A, 0x80501F80, 0x494F173F, 0xB8951295] @
    [0xE3143454, 0x12CE31FE, 0xDBD13941, 0x2A0B3CEB, 0x929E2E7E, 0x63442BD4, 0xAA5B236B, 0x5B8126C1] @
    [0x1D596EE9, 0xEC836B43, 0x259C63FC, 0xD4466656, 0x6CD374C3, 0x9D097169, 0x541679D6, 0xA5CC7C7C] @
    [0xFE4D5ABD, 0x0F975F17, 0xC68857A8, 0x37525202, 0x8FC74097, 0x7E1D453D, 0xB7024D82, 0x46D84828] @
    [0x3AB2DDD2, 0xCB68D878, 0x0277D0C7, 0xF3ADD56D, 0x4B38C7F8, 0xBAE2C252, 0x73FDCAED, 0x8227CF47] @
    [0xD9A6E986, 0x287CEC2C, 0xE163E493, 0x10B9E139, 0xA82CF3AC, 0x59F6F606, 0x90E9FEB9, 0x6133FB13] @
    [0x27EBB33B, 0xD631B691, 0x1F2EBE2E, 0xEEF4BB84, 0x5661A911, 0xA7BBACBB, 0x6EA4A404, 0x9F7EA1AE] @
    [0xC4FF876F, 0x352582C5, 0xFC3A8A7A, 0x0DE08FD0, 0xB5759D45, 0x44AF98EF, 0x8DB09050, 0x7C6A95FA] @
    [0x7565BBA4, 0x84BFBE0E, 0x4DA0B6B1, 0xBC7AB31B, 0x04EFA18E, 0xF535A424, 0x3C2AAC9B, 0xCDF0A931] @
    [0x96718FF0, 0x67AB8A5A, 0xAEB482E5, 0x5F6E874F, 0xE7FB95DA, 0x16219070, 0xDF3E98CF, 0x2EE49D65] @
    [0x683CD54D, 0x99E6D0E7, 0x50F9D858, 0xA123DDF2, 0x19B6CF67, 0xE86CCACD, 0x2173C272, 0xD0A9C7D8] @
    [0x8B28E119, 0x7AF2E4B3, 0xB3EDEC0C, 0x4237E9A6, 0xFAA2FB33, 0x0B78FE99, 0xC267F626, 0x33BDF38C] @
    [0x4FD76676, 0xBE0D63DC, 0x77126B63, 0x86C86EC9, 0x3E5D7C5C, 0xCF8779F6, 0x06987149, 0xF74274E3] @
    [0xACC35222, 0x5D195788, 0x94065F37, 0x65DC5A9D, 0xDD494808, 0x2C934DA2, 0xE58C451D, 0x145640B7] @
    [0x528E089F, 0xA3540D35, 0x6A4B058A, 0x9B910020, 0x230412B5, 0xD2DE171F, 0x1BC11FA0, 0xEA1B1A0A] @
    [0xB19A3CCB, 0x40403961, 0x895F31DE, 0x78853474, 0xC01026E1, 0x31CA234B, 0xF8D52BF4, 0x090F2E5E] @
    [0xEACB7748, 0x1B1172E2, 0xD20E7A5D, 0x23D47FF7, 0x9B416D62, 0x6A9B68C8, 0xA3846077, 0x525E65DD] @
    [0x09DF431C, 0xF80546B6, 0x311A4E09, 0xC0C04BA3, 0x78555936, 0x898F5C9C, 0x40905423, 0xB14A5189] @
    [0xF79219A1, 0x06481C0B, 0xCF5714B4, 0x3E8D111E, 0x8618038B, 0x77C20621, 0xBEDD0E9E, 0x4F070B34] @
    [0x14862DF5, 0xE55C285F, 0x2C4320E0, 0xDD99254A, 0x650C37DF, 0x94D63275, 0x5DC93ACA, 0xAC133F60] @
    [0xD079AA9A, 0x21A3AF30, 0xE8BCA78F, 0x1966A225, 0xA1F3B0B0, 0x5029B51A, 0x9936BDA5, 0x68ECB80F] @
    [0x336D9ECE, 0xC2B79B64, 0x0BA893DB, 0xFA729671, 0x42E784E4, 0xB33D814E, 0x7A2289F1, 0x8BF88C5B] @
    [0xCD20C473, 0x3CFAC1D9, 0xF5E5C966, 0x043FCCCC, 0xBCAADE59, 0x4D70DBF3, 0x846FD34C, 0x75B5D6E6] @
    [0x2E34F027, 0xDFEEF58D, 0x16F1FD32, 0xE72BF898, 0x5FBEEA0D, 0xAE64EFA7, 0x677BE718, 0x96A1E2B2] @
    [0x9FAECCEC, 0x6E74C946, 0xA76BC1F9, 0x56B1C453, 0xEE24D6C6, 0x1FFED36C, 0xD6E1DBD3, 0x273BDE79] @
    [0x7CBAF8B8, 0x8D60FD12, 0x447FF5AD, 0xB5A5F007, 0x0D30E292, 0xFCEAE738, 0x35F5EF87, 0xC42FEA2D] @
    [0x82F7A205, 0x732DA7AF, 0xBA32AF10, 0x4BE8AABA, 0xF37DB82F, 0x02A7BD85, 0xCBB8B53A, 0x3A62B090] @
    [0x61E39651, 0x903993FB, 0x59269B44, 0xA8FC9EEE, 0x10698C7B, 0xE1B389D1, 0x28AC816E, 0xD97684C4] @
    [0xA51C113E, 0x54C61494, 0x9DD91C2B, 0x6C031981, 0xD4960B14, 0x254C0EBE, 0xEC530601, 0x1D8903AB] @
    [0x4608256A, 0xB7D220C0, 0x7ECD287F, 0x8F172DD5, 0x37823F40, 0xC6583AEA, 0x0F473255, 0xFE9D37FF] @
    [0xB8457FD7, 0x499F7A7D, 0x808072C2, 0x715A7768, 0xC9CF65FD, 0x38156057, 0xF10A68E8, 0x00D06D42] @
    [0x5B514B83, 0xAA8B4E29, 0x63944696, 0x924E433C, 0x2ADB51A9, 0xDB015403, 0x121E5CBC, 0xE3C45916]"

section \<open>The powers of two\<close>

lemma crc32_step: "map (crc_zeros P (8 * Suc k)) xs = map (crc_zeros P 8) (map (crc_zeros P (8 * k)) xs)"
  using crc_zeros_add [of P 8 "8 * k"] by simp

lemma crc32_z_0: "map (crc_zeros CRC32_POLY (8 * 1)) powers = [0x77073096, 0xEE0E612C, 0x076DC419, 0x0EDB8832, 0x1DB71064, 0x3B6E20C8, 0x76DC4190, 0xEDB88320]"
  by (simp add: powers_def crc_zeros_8 crc_bit_lit CRC32_POLY_def)
lemma crc32_z_1: "map (crc_zeros CRC32_POLY (8 * 2)) powers = [0x191B3141, 0x32366282, 0x646CC504, 0xC8D98A08, 0x4AC21251, 0x958424A2, 0xF0794F05, 0x3B83984B]"
  using crc32_z_0 crc32_step [of CRC32_POLY 1 powers] by (simp add: crc_zeros_8 crc_bit_lit CRC32_POLY_def)
lemma crc32_z_2: "map (crc_zeros CRC32_POLY (8 * 3)) powers = [0x01C26A37, 0x0384D46E, 0x0709A8DC, 0x0E1351B8, 0x1C26A370, 0x384D46E0, 0x709A8DC0, 0xE1351B80]"
  using crc32_z_1 crc32_step [of CRC32_POLY 2 powers] by (simp add: crc_zeros_8 crc_bit_lit CRC32_POLY_def)
lemma crc32_z_3: "map (crc_zeros CRC32_POLY (8 * 4)) powers = [0xB8BC6765, 0xAA09C88B, 0x8F629757, 0xC5B428EF, 0x5019579F, 0xA032AF3E, 0x9B14583D, 0xED59B63B]"
  using crc32_z_2 crc32_step [of CRC32_POLY 3 powers] by (simp add: crc_zeros_8 crc_bit_lit CRC32_POLY_def)
lemma crc32_z_4: "map (crc_zeros CRC32_POLY (8 * 5)) powers = [0x3D6029B0, 0x7AC05360, 0xF580A6C0, 0x30704BC1, 0x60E09782, 0xC1C12F04, 0x58F35849, 0xB1E6B092]"
  using crc32_z_3 crc32_step [of CRC32_POLY 4 powers] by (simp add: crc_zeros_8 crc_bit_lit CRC32_POLY_def)
lemma crc32_z_5: "map (crc_zeros CRC32_POLY (8 * 6)) powers = [0xCB5CD3A5, 0x4DC8A10B, 0x9B914216, 0xEC53826D, 0x03D6029B, 0x07AC0536, 0x0F580A6C, 0x1EB014D8]"
  using crc32_z_4 crc32_step [of CRC32_POLY 5 powers] by (simp add: crc_zeros_8 crc_bit_lit CRC32_POLY_def)
lemma crc32_z_6: "map (crc_zeros CRC32_POLY (8 * 7)) powers = [0xA6770BB4, 0x979F1129, 0xF44F2413, 0x33EF4E67, 0x67DE9CCE, 0xCFBD399C, 0x440B7579, 0x8816EAF2]"
  using crc32_z_5 crc32_step [of CRC32_POLY 6 powers] by (simp add: crc_zeros_8 crc_bit_lit CRC32_POLY_def)
lemma crc32_z_7: "map (crc_zeros CRC32_POLY (8 * 8)) powers = [0xCCAA009E, 0x4225077D, 0x844A0EFA, 0xD3E51BB5, 0x7CBB312B, 0xF9766256, 0x299DC2ED, 0x533B85DA]"
  using crc32_z_6 crc32_step [of CRC32_POLY 7 powers] by (simp add: crc_zeros_8 crc_bit_lit CRC32_POLY_def)
lemma crc32_z_8: "map (crc_zeros CRC32_POLY (8 * 9)) powers = [0x177B1443, 0x2EF62886, 0x5DEC510C, 0xBBD8A218, 0xACC04271, 0x82F182A3, 0xDE920307, 0x6655004F]"
  using crc32_z_7 crc32_step [of CRC32_POLY 8 powers] by (simp add: crc_zeros_8 crc_bit_lit CRC32_POLY_def)
lemma crc32_z_9: "map (crc_zeros CRC32_POLY (8 * 10)) powers = [0xEFC26B3E, 0x04F5D03D, 0x09EBA07A, 0x13D740F4, 0x27AE81E8, 0x4F5D03D0, 0x9EBA07A0, 0xE6050901]"
  using crc32_z_8 crc32_step [of CRC32_POLY 9 powers] by (simp add: crc_zeros_8 crc_bit_lit CRC32_POLY_def)
lemma crc32_z_10: "map (crc_zeros CRC32_POLY (8 * 11)) powers = [0xC18EDFC0, 0x586CB9C1, 0xB0D97382, 0xBAC3E145, 0xAEF6C4CB, 0x869C8FD7, 0xD64819EF, 0x77E1359F]"
  using crc32_z_9 crc32_step [of CRC32_POLY 10 powers] by (simp add: crc_zeros_8 crc_bit_lit CRC32_POLY_def)
lemma crc32_z_11: "map (crc_zeros CRC32_POLY (8 * 12)) powers = [0x9BA54C6F, 0xEC3B9E9F, 0x03063B7F, 0x060C76FE, 0x0C18EDFC, 0x1831DBF8, 0x3063B7F0, 0x60C76FE0]"
  using crc32_z_10 crc32_step [of CRC32_POLY 11 powers] by (simp add: crc_zeros_8 crc_bit_lit CRC32_POLY_def)
lemma crc32_z_12: "map (crc_zeros CRC32_POLY (8 * 13)) powers = [0xDD96D985, 0x605CB54B, 0xC0B96A96, 0x5A03D36D, 0xB407A6DA, 0xB37E4BF5, 0xBD8D91AB, 0xA06A2517]"
  using crc32_z_11 crc32_step [of CRC32_POLY 12 powers] by (simp add: crc_zeros_8 crc_bit_lit CRC32_POLY_def)
lemma crc32_z_13: "map (crc_zeros CRC32_POLY (8 * 14)) powers = [0x9D0FE176, 0xE16EC4AD, 0x19AC8F1B, 0x33591E36, 0x66B23C6C, 0xCD6478D8, 0x41B9F7F1, 0x8373EFE2]"
  using crc32_z_12 crc32_step [of CRC32_POLY 13 powers] by (simp add: crc_zeros_8 crc_bit_lit CRC32_POLY_def)
lemma crc32_z_14: "map (crc_zeros CRC32_POLY (8 * 15)) powers = [0xB9FBDBE8, 0xA886B191, 0x8A7C6563, 0xCF89CC87, 0x44629F4F, 0x88C53E9E, 0xCAFB7B7D, 0x4E87F0BB]"
  using crc32_z_13 crc32_step [of CRC32_POLY 14 powers] by (simp add: crc_zeros_8 crc_bit_lit CRC32_POLY_def)
lemma crc32_z_15: "map (crc_zeros CRC32_POLY (8 * 16)) powers = [0xAE689191, 0x87A02563, 0xD4314C87, 0x73139F4F, 0xE6273E9E, 0x173F7B7D, 0x2E7EF6FA, 0x5CFDEDF4]"
  using crc32_z_14 crc32_step [of CRC32_POLY 15 powers] by (simp add: crc_zeros_8 crc_bit_lit CRC32_POLY_def)
lemma crc32_z_16: "map (crc_zeros CRC32_POLY (8 * 17)) powers = [0x87A6CB43, 0xD43C90C7, 0x730827CF, 0xE6104F9E, 0x1751997D, 0x2EA332FA, 0x5D4665F4, 0xBA8CCBE8]"
  using crc32_z_15 crc32_step [of CRC32_POLY 16 powers] by (simp add: crc_zeros_8 crc_bit_lit CRC32_POLY_def)
lemma crc32_z_17: "map (crc_zeros CRC32_POLY (8 * 18)) powers = [0xEF52B6E1, 0x05D46B83, 0x0BA8D706, 0x1751AE0C, 0x2EA35C18, 0x5D46B830, 0xBA8D7060, 0xAE6BE681]"
  using crc32_z_16 crc32_step [of CRC32_POLY 17 powers] by (simp add: crc_zeros_8 crc_bit_lit CRC32_POLY_def)
lemma crc32_z_18: "map (crc_zeros CRC32_POLY (8 * 19)) powers = [0xD7E28058, 0x74B406F1, 0xE9680DE2, 0x09A11D85, 0x13423B0A, 0x26847614, 0x4D08EC28, 0x9A11D850]"
  using crc32_z_17 crc32_step [of CRC32_POLY 18 powers] by (simp add: crc_zeros_8 crc_bit_lit CRC32_POLY_def)
lemma crc32_z_19: "map (crc_zeros CRC32_POLY (8 * 20)) powers = [0x65673B46, 0xCACE768C, 0x4EEDEB59, 0x9DDBD6B2, 0xE0C6AB25, 0x1AFC500B, 0x35F8A016, 0x6BF1402C]"
  using crc32_z_18 crc32_step [of CRC32_POLY 19 powers] by (simp add: crc_zeros_8 crc_bit_lit CRC32_POLY_def)
lemma crc32_z_20: "map (crc_zeros CRC32_POLY (8 * 21)) powers = [0x9FDA839E, 0xE4C4017D, 0x12F904BB, 0x25F20976, 0x4BE412EC, 0x97C825D8, 0xF4E14DF1, 0x32B39DA3]"
  using crc32_z_19 crc32_step [of CRC32_POLY 20 powers] by (simp add: crc_zeros_8 crc_bit_lit CRC32_POLY_def)
lemma crc32_z_21: "map (crc_zeros CRC32_POLY (8 * 22)) powers = [0x172864C0, 0x2E50C980, 0x5CA19300, 0xB9432600, 0xA9F74A41, 0x889F92C3, 0xCA4E23C7, 0x4FED41CF]"
  using crc32_z_20 crc32_step [of CRC32_POLY 21 powers] by (simp add: crc_zeros_8 crc_bit_lit CRC32_POLY_def)
lemma crc32_z_22: "map (crc_zeros CRC32_POLY (8 * 23)) powers = [0x9B73EAD4, 0xED96D3E9, 0x005CA193, 0x00B94326, 0x0172864C, 0x02E50C98, 0x05CA1930, 0x0B943260]"
  using crc32_z_21 crc32_step [of CRC32_POLY 22 powers] by (simp add: crc_zeros_8 crc_bit_lit CRC32_POLY_def)
lemma crc32_z_23: "map (crc_zeros CRC32_POLY (8 * 24)) powers = [0x81256527, 0xD93BCC0F, 0x69069E5F, 0xD20D3CBE, 0x7F6B7F3D, 0xFED6FE7A, 0x26DCFAB5, 0x4DB9F56A]"
  using crc32_z_22 crc32_step [of CRC32_POLY 23 powers] by (simp add: crc_zeros_8 crc_bit_lit CRC32_POLY_def)
lemma crc32_z_24: "map (crc_zeros CRC32_POLY (8 * 25)) powers = [0xA58B900E, 0x9066265D, 0xFBBD4AFB, 0x2C0B93B7, 0x5817276E, 0xB02E4EDC, 0xBB2D9BF9, 0xAD2A31B3]"
  using crc32_z_23 crc32_step [of CRC32_POLY 24 powers] by (simp add: crc_zeros_8 crc_bit_lit CRC32_POLY_def)
lemma crc32_z_25: "map (crc_zeros CRC32_POLY (8 * 26)) powers = [0xE71DA697, 0x154A4B6F, 0x2A9496DE, 0x55292DBC, 0xAA525B78, 0x8FD5B0B1, 0xC4DA6723, 0x52C5C807]"
  using crc32_z_24 crc32_step [of CRC32_POLY 25 powers] by (simp add: crc_zeros_8 crc_bit_lit CRC32_POLY_def)
lemma crc32_z_26: "map (crc_zeros CRC32_POLY (8 * 27)) powers = [0x6E8C1B41, 0xDD183682, 0x61416B45, 0xC282D68A, 0x5E74AB55, 0xBCE956AA, 0xA2A3AB15, 0x9E36506B]"
  using crc32_z_25 crc32_step [of CRC32_POLY 26 powers] by (simp add: crc_zeros_8 crc_bit_lit CRC32_POLY_def)
lemma crc32_z_27: "map (crc_zeros CRC32_POLY (8 * 28)) powers = [0x01B5FD1D, 0x036BFA3A, 0x06D7F474, 0x0DAFE8E8, 0x1B5FD1D0, 0x36BFA3A0, 0x6D7F4740, 0xDAFE8E80]"
  using crc32_z_26 crc32_step [of CRC32_POLY 27 powers] by (simp add: crc_zeros_8 crc_bit_lit CRC32_POLY_def)
lemma crc32_z_28: "map (crc_zeros CRC32_POLY (8 * 29)) powers = [0x6307D924, 0xC60FB248, 0x576E62D1, 0xAEDCC5A2, 0x86C88D05, 0xD6E01C4B, 0x76B13ED7, 0xED627DAE]"
  using crc32_z_27 crc32_step [of CRC32_POLY 28 powers] by (simp add: crc_zeros_8 crc_bit_lit CRC32_POLY_def)
lemma crc32_z_29: "map (crc_zeros CRC32_POLY (8 * 30)) powers = [0x3C60E308, 0x78C1C610, 0xF1838C20, 0x38761E01, 0x70EC3C02, 0xE1D87804, 0x18C1F649, 0x3183EC92]"
  using crc32_z_28 crc32_step [of CRC32_POLY 29 powers] by (simp add: crc_zeros_8 crc_bit_lit CRC32_POLY_def)
lemma crc32_z_30: "map (crc_zeros CRC32_POLY (8 * 31)) powers = [0x0EE7E8D1, 0x1DCFD1A2, 0x3B9FA344, 0x773F4688, 0xEE7E8D10, 0x078C1C61, 0x0F1838C2, 0x1E307184]"
  using crc32_z_29 crc32_step [of CRC32_POLY 30 powers] by (simp add: crc_zeros_8 crc_bit_lit CRC32_POLY_def)
lemma crc32_z_31: "map (crc_zeros CRC32_POLY (8 * 32)) powers = [0xF1DA05AA, 0x38C50D15, 0x718A1A2A, 0xE3143454, 0x1D596EE9, 0x3AB2DDD2, 0x7565BBA4, 0xEACB7748]"
  using crc32_z_30 crc32_step [of CRC32_POLY 31 powers] by (simp add: crc_zeros_8 crc_bit_lit CRC32_POLY_def)

section \<open>The tables\<close>

lemma crc32_tab_0: "crc32_tab_0 = span (map (crc_zeros CRC32_POLY (8 * 1)) powers)"
  unfolding crc32_z_0 by (simp add: crc32_tab_0_def span_def)
lemma crc32_tab_1: "crc32_tab_1 = span (map (crc_zeros CRC32_POLY (8 * 2)) powers)"
  unfolding crc32_z_1 by (simp add: crc32_tab_1_def span_def)
lemma crc32_tab_2: "crc32_tab_2 = span (map (crc_zeros CRC32_POLY (8 * 3)) powers)"
  unfolding crc32_z_2 by (simp add: crc32_tab_2_def span_def)
lemma crc32_tab_3: "crc32_tab_3 = span (map (crc_zeros CRC32_POLY (8 * 4)) powers)"
  unfolding crc32_z_3 by (simp add: crc32_tab_3_def span_def)
lemma crc32_tab_4: "crc32_tab_4 = span (map (crc_zeros CRC32_POLY (8 * 5)) powers)"
  unfolding crc32_z_4 by (simp add: crc32_tab_4_def span_def)
lemma crc32_tab_5: "crc32_tab_5 = span (map (crc_zeros CRC32_POLY (8 * 6)) powers)"
  unfolding crc32_z_5 by (simp add: crc32_tab_5_def span_def)
lemma crc32_tab_6: "crc32_tab_6 = span (map (crc_zeros CRC32_POLY (8 * 7)) powers)"
  unfolding crc32_z_6 by (simp add: crc32_tab_6_def span_def)
lemma crc32_tab_7: "crc32_tab_7 = span (map (crc_zeros CRC32_POLY (8 * 8)) powers)"
  unfolding crc32_z_7 by (simp add: crc32_tab_7_def span_def)
lemma crc32_btab_0: "crc32_btab_0 = span (map (crc_zeros CRC32_POLY (8 * 25)) powers)"
  unfolding crc32_z_24 by (simp add: crc32_btab_0_def span_def)
lemma crc32_btab_1: "crc32_btab_1 = span (map (crc_zeros CRC32_POLY (8 * 26)) powers)"
  unfolding crc32_z_25 by (simp add: crc32_btab_1_def span_def)
lemma crc32_btab_2: "crc32_btab_2 = span (map (crc_zeros CRC32_POLY (8 * 27)) powers)"
  unfolding crc32_z_26 by (simp add: crc32_btab_2_def span_def)
lemma crc32_btab_3: "crc32_btab_3 = span (map (crc_zeros CRC32_POLY (8 * 28)) powers)"
  unfolding crc32_z_27 by (simp add: crc32_btab_3_def span_def)
lemma crc32_btab_4: "crc32_btab_4 = span (map (crc_zeros CRC32_POLY (8 * 29)) powers)"
  unfolding crc32_z_28 by (simp add: crc32_btab_4_def span_def)
lemma crc32_btab_5: "crc32_btab_5 = span (map (crc_zeros CRC32_POLY (8 * 30)) powers)"
  unfolding crc32_z_29 by (simp add: crc32_btab_5_def span_def)
lemma crc32_btab_6: "crc32_btab_6 = span (map (crc_zeros CRC32_POLY (8 * 31)) powers)"
  unfolding crc32_z_30 by (simp add: crc32_btab_6_def span_def)
lemma crc32_btab_7: "crc32_btab_7 = span (map (crc_zeros CRC32_POLY (8 * 32)) powers)"
  unfolding crc32_z_31 by (simp add: crc32_btab_7_def span_def)

end
