(* ===== verification/Crc32.thy ===== *)
theory Crc32
  imports Crc32_Tables
begin

text \<open>
  Models \<open>crc32\<close> of \<open>lib/crypt/crc.c\<close>. The remaining length \<open>n\<close> is the length of the rest of the input
  \<open>p\<close>; \<open>h\<close> is the byte order of the host.
\<close>

definition crc32_tab :: "u32 list list" where
  "crc32_tab = [crc32_tab_0, crc32_tab_1, crc32_tab_2, crc32_tab_3, crc32_tab_4, crc32_tab_5, crc32_tab_6, crc32_tab_7]"

definition crc32_btab :: "u32 list list" where
  "crc32_btab = [crc32_btab_0, crc32_btab_1, crc32_btab_2, crc32_btab_3, crc32_btab_4, crc32_btab_5, crc32_btab_6, crc32_btab_7]"

definition crc32_word :: "u32 list list \<Rightarrow> u64 \<Rightarrow> u32 \<Rightarrow> u32" where
  "crc32_word tab v crc =
     (let a = ucast v XOR crc
      in tab ! 7 ! unat (a AND 0xFF) XOR tab ! 6 ! unat (drop_bit 8 a AND 0xFF) XOR
         tab ! 5 ! unat (drop_bit 16 a AND 0xFF) XOR tab ! 4 ! unat (drop_bit 24 a) XOR
         tab ! 3 ! unat (drop_bit 32 v AND 0xFF) XOR tab ! 2 ! unat (drop_bit 40 v AND 0xFF) XOR
         tab ! 1 ! unat (drop_bit 48 v AND 0xFF) XOR tab ! 0 ! unat (drop_bit 56 v))"

text \<open>The loop over groups of 32 bytes while a whole group is left behind this one.\<close>

fun crc32_lanes :: "bool \<Rightarrow> bytes \<Rightarrow> u32 \<times> u32 \<times> u32 \<times> u32 \<Rightarrow> (u32 \<times> u32 \<times> u32 \<times> u32) \<times> bytes" where
  "crc32_lanes h p (c0, c1, c2, c3) =
     (if 64 \<le> length p
      then (let c0 = crc32_word crc32_btab (read_le64 h p) c0;
                c1 = crc32_word crc32_btab (read_le64 h (drop 8 p)) c1;
                c2 = crc32_word crc32_btab (read_le64 h (drop 16 p)) c2;
                c3 = crc32_word crc32_btab (read_le64 h (drop 24 p)) c3
            in crc32_lanes h (drop 32 p) (c0, c1, c2, c3))
      else ((c0, c1, c2, c3), p))"

fun crc32_eights :: "bool \<Rightarrow> bytes \<Rightarrow> u32 \<Rightarrow> u32 \<times> bytes" where
  "crc32_eights h p crc =
     (if 8 \<le> length p
      then (let a = crc XOR read_le32 h p;
                crc = crc32_tab ! 7 ! unat (a AND 0xFF) XOR crc32_tab ! 6 ! unat (drop_bit 8 a AND 0xFF) XOR
                      crc32_tab ! 5 ! unat (drop_bit 16 a AND 0xFF) XOR crc32_tab ! 4 ! unat (drop_bit 24 a) XOR
                      crc32_tab ! 3 ! unat (p ! 4) XOR crc32_tab ! 2 ! unat (p ! 5) XOR
                      crc32_tab ! 1 ! unat (p ! 6) XOR crc32_tab ! 0 ! unat (p ! 7)
            in crc32_eights h (drop 8 p) crc)
      else (crc, p))"

fun crc32_bytes :: "bytes \<Rightarrow> u32 \<Rightarrow> u32" where
  "crc32_bytes [] crc = crc"
| "crc32_bytes (b # p) crc = crc32_bytes p (crc32_tab ! 0 ! unat ((crc XOR ucast b) AND 0xFF) XOR drop_bit 8 crc)"

definition crc32 :: "bool \<Rightarrow> bytes \<Rightarrow> u32" where
  "crc32 h data =
     (let (crc, p) =
        (if 64 \<le> length data
         then (let ((c0, c1, c2, c3), p) = crc32_lanes h data (NOT 0, 0, 0, 0);
                   c0 = crc32_word crc32_tab (read_le64 h p) c0;
                   c0 = crc32_word crc32_tab (read_le64 h (drop 8 p)) (c0 XOR c1);
                   c0 = crc32_word crc32_tab (read_le64 h (drop 16 p)) (c0 XOR c2)
               in (crc32_word crc32_tab (read_le64 h (drop 24 p)) (c0 XOR c3), drop 32 p))
         else (NOT 0, data));
          (crc, p) = crc32_eights h p crc;
          (crc, p) =
        (if 4 \<le> length p
         then (let a = crc XOR read_le32 h p
               in (crc32_tab ! 3 ! unat (a AND 0xFF) XOR crc32_tab ! 2 ! unat (drop_bit 8 a AND 0xFF) XOR
                   crc32_tab ! 1 ! unat (drop_bit 16 a AND 0xFF) XOR crc32_tab ! 0 ! unat (drop_bit 24 a), drop 4 p))
         else (crc, p))
      in NOT (crc32_bytes p crc))"

declare crc32_lanes.simps [simp del] crc32_eights.simps [simp del]

section \<open>The look-ups\<close>

lemma crc32_tab_nth:
  "k < 8 \<Longrightarrow> crc32_tab ! k ! unat (b :: u8) = crc_zeros CRC32_POLY (8 * Suc k) (ucast b)"
  "k < 8 \<Longrightarrow> crc32_btab ! k ! unat b = crc_zeros CRC32_POLY (192 + 8 * Suc k) (ucast b)"
proof -
  assume "k < 8"
  then consider "k = 0" | "k = 1" | "k = 2" | "k = 3" | "k = 4" | "k = 5" | "k = 6" | "k = 7" by linarith
  note k = this
  note t = table_nth [OF _ span_powers(2), of _ CRC32_POLY]
  from k show "crc32_tab ! k ! unat b = crc_zeros CRC32_POLY (8 * Suc k) (ucast b)"
    by cases (simp_all add: crc32_tab_def t [OF crc32_tab_0] t [OF crc32_tab_1] t [OF crc32_tab_2] t [OF crc32_tab_3]
      t [OF crc32_tab_4] t [OF crc32_tab_5] t [OF crc32_tab_6] t [OF crc32_tab_7])
  from k show "crc32_btab ! k ! unat b = crc_zeros CRC32_POLY (192 + 8 * Suc k) (ucast b)"
    by cases (simp_all add: crc32_btab_def t [OF crc32_btab_0] t [OF crc32_btab_1] t [OF crc32_btab_2] t [OF crc32_btab_3]
      t [OF crc32_btab_4] t [OF crc32_btab_5] t [OF crc32_btab_6] t [OF crc32_btab_7])
qed

lemma drop32: "drop_bit 8 (drop_bit 24 c) = (0 :: u32)" "drop_bit 32 c = (0 :: u32)"
  by (rule bit_word_eqI; auto simp: bit_drop_bit_eq dest: bit_imp_le_length)+

text \<open>The look-up of eight bytes, with the state behind \<open>z\<close> more zero bits.\<close>

lemma crc32_word_ok:
  assumes tab: "\<And>k b. k < 8 \<Longrightarrow> tab ! k ! unat (b :: u8) = crc_zeros CRC32_POLY (z + 8 * Suc k) (ucast b)"
    and d: "length d = 8"
  shows "crc32_word tab (le_load d) c = crc_zeros CRC32_POLY z (crc_of CRC32_POLY c d)"
proof -
  define v :: u64 where "v = le_load d"
  note b = word_bytes [OF d v_def]
  have t: "unat (drop_bit 56 v) = unat (low_byte (drop_bit 56 v))" by (rule low_byte_top [where 'b = 64]) simp_all
  have t4: "unat (drop_bit 24 (ucast v XOR c)) = unat (low_byte (drop_bit 24 (ucast v XOR c)))"
    by (rule low_byte_top [where 'b = 32]) simp_all
  have "crc_of CRC32_POLY c d = crc_slice CRC32_POLY (xor_in c d)" by (rule crc_block) (simp add: d)
  also have "\<dots> = crc_slice CRC32_POLY
      [low_byte v XOR low_byte c, low_byte (drop_bit 8 v) XOR low_byte (drop_bit 8 c),
       low_byte (drop_bit 16 v) XOR low_byte (drop_bit 16 c), low_byte (drop_bit 24 v) XOR low_byte (drop_bit 24 c),
       low_byte (drop_bit 32 v), low_byte (drop_bit 40 v), low_byte (drop_bit 48 v), low_byte (drop_bit 56 v)]"
    by (subst b) (simp add: drop32 low_byte_def)
  finally have "crc_zeros CRC32_POLY z (crc_of CRC32_POLY c d) =
      tab ! 7 ! unat (low_byte v XOR low_byte c) XOR tab ! 6 ! unat (low_byte (drop_bit 8 v) XOR low_byte (drop_bit 8 c)) XOR
      tab ! 5 ! unat (low_byte (drop_bit 16 v) XOR low_byte (drop_bit 16 c)) XOR
      tab ! 4 ! unat (low_byte (drop_bit 24 v) XOR low_byte (drop_bit 24 c)) XOR
      tab ! 3 ! unat (low_byte (drop_bit 32 v)) XOR tab ! 2 ! unat (low_byte (drop_bit 40 v)) XOR
      tab ! 1 ! unat (low_byte (drop_bit 48 v)) XOR tab ! 0 ! unat (low_byte (drop_bit 56 v))"
    by (simp add: tab crc_zeros_xor ac_simps flip: crc_zeros_add)
  then show ?thesis unfolding v_def [symmetric]
    by (simp add: crc32_word_def Let_def unat_and_255 t t4 [simplified] low_byte_xor low_byte_ucast low_byte_drop_ucast)
qed

lemma crc32_word_tab: "length d = 8 \<Longrightarrow> crc32_word crc32_tab (le_load d) c = crc_of CRC32_POLY c d"
  using crc32_word_ok [of crc32_tab 0] crc32_tab_nth(1) by simp

lemma crc32_word_btab:
  "length d = 8 \<Longrightarrow> crc32_word crc32_btab (le_load d) c = crc_zeros CRC32_POLY 192 (crc_of CRC32_POLY c d)"
  by (rule crc32_word_ok [OF crc32_tab_nth(2)])

text \<open>The look-ups of eight and of four bytes in the 32 bit state.\<close>

lemma crc32_first_four:
  assumes "4 \<le> length p"
  shows "unat ((c XOR read_le32 h p) AND 0xFF) = unat (p ! 0 XOR low_byte c)"
    "unat (drop_bit 8 (c XOR read_le32 h p) AND 0xFF) = unat (p ! 1 XOR low_byte (drop_bit 8 c))"
    "unat (drop_bit 16 (c XOR read_le32 h p) AND 0xFF) = unat (p ! 2 XOR low_byte (drop_bit 16 c))"
    "unat (drop_bit 24 (c XOR read_le32 h p)) = unat (p ! 3 XOR low_byte (drop_bit 24 c))"
proof -
  have r: "read_le32 h p = le_load [p ! 0, p ! 1, p ! 2, p ! 3]" using read_order(3) [of p h] assms by (simp add: take_nth(2))
  have b: "low_byte (read_le32 h p) = p ! 0" "low_byte (drop_bit 8 (read_le32 h p)) = p ! 1"
    "low_byte (drop_bit 16 (read_le32 h p)) = p ! 2" "low_byte (drop_bit 24 (read_le32 h p)) = p ! 3"
    using le_store_load [of "[p ! 0, p ! 1, p ! 2, p ! 3]", where 'a = 32]
    by (simp_all add: r low_byte_def del: le_load_simps)
  have x: "low_byte (drop_bit k (c XOR read_le32 h p)) = low_byte (drop_bit k (read_le32 h p)) XOR low_byte (drop_bit k c)" for k
    by (simp add: low_byte_xor ac_simps)
  show "unat ((c XOR read_le32 h p) AND 0xFF) = unat (p ! 0 XOR low_byte c)"
    unfolding unat_and_255 using x [of 0] b by simp
  show "unat (drop_bit 8 (c XOR read_le32 h p) AND 0xFF) = unat (p ! 1 XOR low_byte (drop_bit 8 c))"
    "unat (drop_bit 16 (c XOR read_le32 h p) AND 0xFF) = unat (p ! 2 XOR low_byte (drop_bit 16 c))"
    unfolding unat_and_255 x b by simp_all
  have "unat (drop_bit 24 (c XOR read_le32 h p)) = unat (low_byte (drop_bit 24 (c XOR read_le32 h p)))"
    by (rule low_byte_top [where 'b = 32]) simp_all
  then show "unat (drop_bit 24 (c XOR read_le32 h p)) = unat (p ! 3 XOR low_byte (drop_bit 24 c))" unfolding x b .
qed

lemma xor_in_four: "xor_in (c :: u32) (b0 # b1 # b2 # b3 # bs) =
    (b0 XOR low_byte c) # (b1 XOR low_byte (drop_bit 8 c)) # (b2 XOR low_byte (drop_bit 16 c)) # (b3 XOR low_byte (drop_bit 24 c)) # bs"
proof -
  have "xor_in (0 :: u32) bs = bs" by (induction bs) (simp_all add: low_byte_def)
  then show ?thesis by (simp add: drop32)
qed

lemma crc32_eight:
  assumes "8 \<le> length p"
  shows "(let a = c XOR read_le32 h p
      in crc32_tab ! 7 ! unat (a AND 0xFF) XOR crc32_tab ! 6 ! unat (drop_bit 8 a AND 0xFF) XOR
         crc32_tab ! 5 ! unat (drop_bit 16 a AND 0xFF) XOR crc32_tab ! 4 ! unat (drop_bit 24 a) XOR
         crc32_tab ! 3 ! unat (p ! 4) XOR crc32_tab ! 2 ! unat (p ! 5) XOR
         crc32_tab ! 1 ! unat (p ! 6) XOR crc32_tab ! 0 ! unat (p ! 7)) = crc_of CRC32_POLY c (take 8 p)"
proof -
  have l: "4 \<le> length p" using assms by simp
  have "crc_of CRC32_POLY c (take 8 p) = crc_slice CRC32_POLY (xor_in c (take 8 p))" by (rule crc_block) (use assms in simp)
  then show ?thesis
    unfolding take_nth(1) [OF assms] xor_in_four Let_def crc32_first_four [OF l]
    by (simp add: crc32_tab_nth(1) ac_simps)
qed

lemma crc32_four:
  assumes "4 \<le> length p"
  shows "(let a = c XOR read_le32 h p
      in crc32_tab ! 3 ! unat (a AND 0xFF) XOR crc32_tab ! 2 ! unat (drop_bit 8 a AND 0xFF) XOR
         crc32_tab ! 1 ! unat (drop_bit 16 a AND 0xFF) XOR crc32_tab ! 0 ! unat (drop_bit 24 a)) = crc_of CRC32_POLY c (take 4 p)"
proof -
  have "crc_of CRC32_POLY c (take 4 p) = crc_slice CRC32_POLY (xor_in c (take 4 p))" by (rule crc_block) (use assms in simp)
  then show ?thesis
    unfolding take_nth(2) [OF assms] xor_in_four Let_def crc32_first_four [OF assms]
    by (simp add: crc32_tab_nth(1) ac_simps)
qed

section \<open>The loops\<close>

lemma crc32_bytes_ok: "crc32_bytes p c = crc_of CRC32_POLY c p"
proof (induction p arbitrary: c)
  case (Cons b p)
  have "drop_bit 8 (c XOR ucast b) = drop_bit 8 c"
    by (rule bit_word_eqI) (auto simp: bit_drop_bit_eq bit_xor_iff bit_ucast_iff dest: bit_imp_le_length)
  then have "crc_byte CRC32_POLY c b = crc32_tab ! 0 ! unat ((c XOR ucast b) AND 0xFF) XOR drop_bit 8 c"
    using crc_zeros_split [of CRC32_POLY "c XOR ucast b"] by (simp add: crc_byte_def unat_and_255 crc32_tab_nth(1) ac_simps)
  with Cons show ?case by (simp add: crc_of_def)
qed (simp add: crc_of_def)

lemma crc32_eights_ok: "crc32_eights h p c = (c', p') \<Longrightarrow> crc_of CRC32_POLY c p = crc_of CRC32_POLY c' p'"
proof (induction h p c arbitrary: c' p' rule: crc32_eights.induct)
  case (1 h p c)
  show ?case
  proof (cases "8 \<le> length p")
    case True
    have "crc32_eights h (drop 8 p) (crc_of CRC32_POLY c (take 8 p)) = (c', p')"
      using 1(2) True crc32_eight [OF True, of c h] by (subst (asm) crc32_eights.simps) (simp add: Let_def)
    from 1(1) [OF True refl refl, of c' p'] this crc32_eight [OF True, of c h]
    have "crc_of CRC32_POLY (crc_of CRC32_POLY c (take 8 p)) (drop 8 p) = crc_of CRC32_POLY c' p'" by (simp add: Let_def)
    then show ?thesis by (simp flip: crc_append)
  next
    case False
    with 1(2) show ?thesis by (simp add: crc32_eights.simps)
  qed
qed

lemma crc32_lanes_ok:
  "crc_zeros CRC32_POLY 256 C = lanes_of CRC32_POLY (c0, c1, c2, c3) \<Longrightarrow> 32 \<le> length p \<Longrightarrow>
     \<exists>d0 d1 d2 d3 X p'. crc32_lanes h p (c0, c1, c2, c3) = ((d0, d1, d2, d3), p') \<and>
       p = X @ p' \<and> 32 \<le> length p' \<and> crc_zeros CRC32_POLY 256 (crc_of CRC32_POLY C X) = lanes_of CRC32_POLY (d0, d1, d2, d3)"
proof (induction "length p" arbitrary: p C c0 c1 c2 c3 rule: less_induct)
  case less
  show ?case
  proof (cases "64 \<le> length p")
    case True
    then have l: "32 \<le> length p" by simp
    let ?C = "crc_of CRC32_POLY C (take 32 p)"
    let ?z = "\<lambda>c i. crc_zeros CRC32_POLY 192 (crc_of CRC32_POLY c (lane i p))"
    have inv: "crc_zeros CRC32_POLY 256 ?C = lanes_of CRC32_POLY (?z c0 0, ?z c1 1, ?z c2 2, ?z c3 3)"
      unfolding lane_simps(5) [OF l] by (rule crc_lanes_step [OF lane_simps(1-4) [OF l] less.prems(1)])
    have step: "crc32_lanes h p (c0, c1, c2, c3) =
        crc32_lanes h (drop 32 p) (?z c0 0, ?z c1 1, ?z c2 2, ?z c3 3)"
      using True by (subst crc32_lanes.simps) (simp add: read_lane [OF l] crc32_word_btab lane_simps [OF l] Let_def del: One_nat_def)
    have "length (drop 32 p) < length p" "32 \<le> length (drop 32 p)" using True by simp_all
    from less.hyps [OF this(1) inv this(2)] obtain d0 d1 d2 d3 X p' where
      r: "crc32_lanes h p (c0, c1, c2, c3) = ((d0, d1, d2, d3), p')"
      and X: "drop 32 p = X @ p'" "32 \<le> length p'" "crc_zeros CRC32_POLY 256 (crc_of CRC32_POLY ?C X) = lanes_of CRC32_POLY (d0, d1, d2, d3)"
      unfolding step by blast
    have p: "p = (take 32 p @ X) @ p'" using X(1) by (metis append_assoc append_take_drop_id)
    have "crc_zeros CRC32_POLY 256 (crc_of CRC32_POLY C (take 32 p @ X)) = lanes_of CRC32_POLY (d0, d1, d2, d3)"
      using X(3) by (simp add: crc_append)
    with r p X(2) show ?thesis by blast
  next
    case False
    with less.prems show ?thesis by (intro exI [of _ c0] exI [of _ c1] exI [of _ c2] exI [of _ c3] exI [of _ "[]"] exI [of _ p])
      (simp add: crc32_lanes.simps crc_of_def)
  qed
qed

text \<open>The usual check value, the remainder of \<open>123456789\<close>.\<close>

lemma crc32_check: "crc_of CRC32_POLY (NOT 0) [0x31, 0x32, 0x33, 0x34, 0x35, 0x36, 0x37, 0x38, 0x39] = 0x340BC6D9"
  by (simp add: crc_of_def crc_byte_def crc_zeros_8 crc_bit_lit CRC32_POLY_def)

text \<open>
  C9: The table driven CRC-32, which reads eight bytes per look-up and splits inputs of 64 bytes and more over
  four interleaved lanes that it merges at the end, computes the remainder that feeding the bytes one bit
  at a time through the polynomial \<open>0xEDB88320\<close> gives, for every input and on hosts of either byte order. All
  sixteen tables of the source take part.
\<close>

theorem crc32_correct: "crc32 h data = NOT (crc_of CRC32_POLY (NOT 0) data)"
proof -
  have first: "\<exists>c p. (if 64 \<le> length data
         then (let ((c0, c1, c2, c3), p) = crc32_lanes h data (NOT 0, 0, 0, 0);
                   c0 = crc32_word crc32_tab (read_le64 h p) c0;
                   c0 = crc32_word crc32_tab (read_le64 h (drop 8 p)) (c0 XOR c1);
                   c0 = crc32_word crc32_tab (read_le64 h (drop 16 p)) (c0 XOR c2)
               in (crc32_word crc32_tab (read_le64 h (drop 24 p)) (c0 XOR c3), drop 32 p))
         else (NOT 0, data)) = (c, p) \<and> crc_of CRC32_POLY c p = crc_of CRC32_POLY (NOT 0) data"
  proof (cases "64 \<le> length data")
    case True
    have "crc_zeros CRC32_POLY 256 (NOT 0) = lanes_of CRC32_POLY (NOT 0, 0, 0, 0)" by (simp add: lanes_of_def)
    from crc32_lanes_ok [OF this, of data h] True obtain d0 d1 d2 d3 X p' where
      r: "crc32_lanes h data (NOT 0, 0, 0, 0) = ((d0, d1, d2, d3), p')" "data = X @ p'" and l: "32 \<le> length p'"
      and inv: "crc_zeros CRC32_POLY 256 (crc_of CRC32_POLY (NOT 0) X) = lanes_of CRC32_POLY (d0, d1, d2, d3)" by auto
    have "crc_of CRC32_POLY (NOT 0) data = crc_of CRC32_POLY (crc_of CRC32_POLY (crc_of CRC32_POLY (NOT 0) X) (take 32 p')) (drop 32 p')"
      unfolding r(2) crc_append [symmetric] by simp
    then show ?thesis using True l
      by (simp add: r(1) [simplified] read_lane crc32_word_tab lane_simps(1-4) Let_def crc_lanes_merge [OF lane_simps(1-4) inv]
        lane_simps(5) [symmetric] del: One_nat_def)
  next
    case False
    then show ?thesis by simp
  qed
  then obtain c p where e1: "(if 64 \<le> length data
         then (let ((c0, c1, c2, c3), p) = crc32_lanes h data (NOT 0, 0, 0, 0);
                   c0 = crc32_word crc32_tab (read_le64 h p) c0;
                   c0 = crc32_word crc32_tab (read_le64 h (drop 8 p)) (c0 XOR c1);
                   c0 = crc32_word crc32_tab (read_le64 h (drop 16 p)) (c0 XOR c2)
               in (crc32_word crc32_tab (read_le64 h (drop 24 p)) (c0 XOR c3), drop 32 p))
         else (NOT 0, data)) = (c, p)" and v1: "crc_of CRC32_POLY c p = crc_of CRC32_POLY (NOT 0) data" by blast
  obtain c2 p2 where e2: "crc32_eights h p c = (c2, p2)" by (metis surj_pair)
  have v2: "crc_of CRC32_POLY c2 p2 = crc_of CRC32_POLY (NOT 0) data" using crc32_eights_ok [OF e2] v1 by simp
  show ?thesis
  proof (cases "4 \<le> length p2")
    case True
    have "crc32 h data = NOT (crc32_bytes (drop 4 p2) (crc_of CRC32_POLY c2 (take 4 p2)))"
      unfolding crc32_def e1 Let_def [where s = "(_, _)"] using True crc32_four [OF True, of c2 h]
      by (simp add: e2 Let_def)
    then show ?thesis using v2 by (simp add: crc32_bytes_ok flip: crc_append)
  next
    case False
    then have "crc32 h data = NOT (crc32_bytes p2 c2)" unfolding crc32_def e1 Let_def [where s = "(_, _)"] by (simp add: e2)
    then show ?thesis using v2 by (simp add: crc32_bytes_ok)
  qed
qed

end
