(* ===== verification/Timer_Wheel.thy ===== *)
theory Timer_Wheel
  imports Prelude "HOL-Library.Multiset"
begin

text \<open>
  Models \<open>lib/utils/tw.h\<close> and \<open>lib/utils/tw.c\<close>: the five level timer wheel. The record
  \<open>tw_ctx\<close> has the logical clock, the exit flag, the request queue and the five arrays of slots;
  a slot (an intrusive \<open>slist\<close>) is the list of its nodes, head first, and the pointer
  \<open>_tw_getslot\<close> returns is the array's name with the index. The queue \<open>reqadd\<close> is the list of the
  nodes published and not yet drained. The callbacks a function runs are part of its result, in
  the order they run; a callback reaches the wheel again only through \<open>tw_add\<close>, that is
  through \<open>reqadd\<close>. The thread's sleeping and waking (\<open>waiter.h\<close>) and the clock \<open>timer_cur_ms\<close> are
  outside the model: the clock's readings are arguments.

  The invariant \<open>tw_wf\<close> says which deadlines a slot may hold at the current \<open>jiffies\<close>;
  insertion, cascading and the tick are proved against the abstract content \<open>tw_pending\<close>, the
  multiset of pending callbacks with the tick at which each is due.
\<close>

section \<open>State\<close>

record ('c, 'u) tw_node_ctx =
  tn_expires :: u64
  tn_cb :: 'c
  tn_freecb :: "'c option"
  tn_ud :: 'u

datatype tw_level = TV1 | TV2 | TV3 | TV4 | TV5

record ('c, 'u) tw_ctx =
  tw_exit :: bool
  tw_jiffies :: u64
  tw_reqadd :: "('c, 'u) tw_node_ctx list"
  tw_tv1 :: "('c, 'u) tw_node_ctx list list"
  tw_tv2 :: "('c, 'u) tw_node_ctx list list"
  tw_tv3 :: "('c, 'u) tw_node_ctx list list"
  tw_tv4 :: "('c, 'u) tw_node_ctx list list"
  tw_tv5 :: "('c, 'u) tw_node_ctx list list"

abbreviation TVN_BITS :: nat where "TVN_BITS \<equiv> 6"
abbreviation TVR_BITS :: nat where "TVR_BITS \<equiv> 8"
abbreviation TVN_SIZE :: nat where "TVN_SIZE \<equiv> 64"
abbreviation TVR_SIZE :: nat where "TVR_SIZE \<equiv> 256"
abbreviation TVN_MASK :: u64 where "TVN_MASK \<equiv> 63"
abbreviation TVR_MASK :: u64 where "TVR_MASK \<equiv> 255"

text \<open>The C arrays by name.\<close>

fun tv_get :: "tw_level \<Rightarrow> ('c, 'u) tw_ctx \<Rightarrow> ('c, 'u) tw_node_ctx list list" where
  "tv_get TV1 w = tw_tv1 w"
| "tv_get TV2 w = tw_tv2 w"
| "tv_get TV3 w = tw_tv3 w"
| "tv_get TV4 w = tw_tv4 w"
| "tv_get TV5 w = tw_tv5 w"

fun tv_set :: "tw_level \<Rightarrow> ('c, 'u) tw_node_ctx list list \<Rightarrow> ('c, 'u) tw_ctx \<Rightarrow> ('c, 'u) tw_ctx" where
  "tv_set TV1 t w = w\<lparr>tw_tv1 := t\<rparr>"
| "tv_set TV2 t w = w\<lparr>tw_tv2 := t\<rparr>"
| "tv_set TV3 t w = w\<lparr>tw_tv3 := t\<rparr>"
| "tv_set TV4 t w = w\<lparr>tw_tv4 := t\<rparr>"
| "tv_set TV5 t w = w\<lparr>tw_tv5 := t\<rparr>"

section \<open>Operations\<close>

text \<open>\<open>tw_init\<close>, before the thread starts.\<close>

definition tw_init :: "('c, 'u) tw_ctx" where
  "tw_init = \<lparr>tw_exit = False, tw_jiffies = 0, tw_reqadd = [],
     tw_tv1 = replicate TVR_SIZE [], tw_tv2 = replicate TVN_SIZE [], tw_tv3 = replicate TVN_SIZE [],
     tw_tv4 = replicate TVN_SIZE [], tw_tv5 = replicate TVN_SIZE []\<rparr>"

text \<open>
  \<open>tw_add\<close> with the clock reading \<open>now\<close>: the callbacks run on the spot (a zero timeout) and the
  new state.
\<close>

definition tw_add :: "u64 \<Rightarrow> u32 \<Rightarrow> 'c \<Rightarrow> 'c option \<Rightarrow> 'u \<Rightarrow> ('c, 'u) tw_ctx \<Rightarrow>
    ('c \<times> 'u) list \<times> ('c, 'u) tw_ctx" where
  "tw_add now timeout cb freecb ud w =
     (if timeout = 0 then ([(cb, ud)], w)
      else ([], w\<lparr>tw_reqadd := tw_reqadd w @
                 [\<lparr>tn_expires = now + ucast timeout, tn_cb = cb, tn_freecb = freecb, tn_ud = ud\<rparr>]\<rparr>))"

text \<open>\<open>_tw_getslot\<close>: the slot, and the node with its deadline clamped.\<close>

definition tw_getslot :: "u64 \<Rightarrow> ('c, 'u) tw_node_ctx \<Rightarrow> (tw_level \<times> nat) \<times> ('c, 'u) tw_node_ctx" where
  "tw_getslot jiffies node =
     (if tn_expires node \<le> jiffies then ((TV1, unat (jiffies AND TVR_MASK)), node)
      else (let idx = tn_expires node - jiffies
            in if idx < 256 then ((TV1, unat (tn_expires node AND TVR_MASK)), node)
               else if idx < push_bit (TVR_BITS + TVN_BITS) 1
                 then ((TV2, unat (drop_bit TVR_BITS (tn_expires node) AND TVN_MASK)), node)
               else if idx < push_bit (TVR_BITS + 2 * TVN_BITS) 1
                 then ((TV3, unat (drop_bit (TVR_BITS + TVN_BITS) (tn_expires node) AND TVN_MASK)), node)
               else if idx < push_bit (TVR_BITS + 3 * TVN_BITS) 1
                 then ((TV4, unat (drop_bit (TVR_BITS + 2 * TVN_BITS) (tn_expires node) AND TVN_MASK)), node)
               else (let node = (if 0xffffffff < idx
                                 then node\<lparr>tn_expires := jiffies + 0xffffffff\<rparr> else node)
                     in ((TV5, unat (drop_bit (TVR_BITS + 3 * TVN_BITS) (tn_expires node) AND TVN_MASK)), node))))"

text \<open>\<open>list_push_tail(_tw_getslot(ctx, node), &node->node)\<close>.\<close>

definition tw_link :: "('c, 'u) tw_node_ctx \<Rightarrow> ('c, 'u) tw_ctx \<Rightarrow> ('c, 'u) tw_ctx" where
  "tw_link node w =
     (case tw_getslot (tw_jiffies w) node of
        ((lv, i), node) \<Rightarrow> tv_set lv ((tv_get lv w)[i := tv_get lv w ! i @ [node]]) w)"

definition tw_cascade :: "tw_level \<Rightarrow> u32 \<Rightarrow> ('c, 'u) tw_ctx \<Rightarrow> u32 \<times> ('c, 'u) tw_ctx" where
  "tw_cascade lv index w =
     (let moving = tv_get lv w ! unat index;
          w = tv_set lv ((tv_get lv w)[unat index := []]) w
      in (index, fold tw_link moving w))"

text \<open>The macro \<open>INDEX(N)\<close>, passed as a \<open>uint32_t\<close>.\<close>

definition tw_INDEX :: "nat \<Rightarrow> ('c, 'u) tw_ctx \<Rightarrow> u32" where
  "tw_INDEX N w = ucast (drop_bit (TVR_BITS + N * TVN_BITS) (tw_jiffies w) AND TVN_MASK)"

text \<open>The condition of \<open>_tw_run\<close>, whose conjuncts cascade one level each.\<close>

definition tw_adjust :: "u32 \<Rightarrow> ('c, 'u) tw_ctx \<Rightarrow> ('c, 'u) tw_ctx" where
  "tw_adjust ulidx w =
     (if ulidx \<noteq> 0 then w
      else case tw_cascade TV2 (tw_INDEX 0 w) w of (r, w) \<Rightarrow>
        if r \<noteq> 0 then w
        else case tw_cascade TV3 (tw_INDEX 1 w) w of (r, w) \<Rightarrow>
          if r \<noteq> 0 then w
          else case tw_cascade TV4 (tw_INDEX 2 w) w of (r, w) \<Rightarrow>
            if r \<noteq> 0 then w
            else snd (tw_cascade TV5 (tw_INDEX 3 w) w))"

definition tw_run :: "('c, 'u) tw_ctx \<Rightarrow> ('c \<times> 'u) list \<times> ('c, 'u) tw_ctx" where
  "tw_run w =
     (let ulidx = ucast (tw_jiffies w AND TVR_MASK) :: u32;
          w = tw_adjust ulidx w;
          w = w\<lparr>tw_jiffies := tw_jiffies w + 1\<rparr>
      in (map (\<lambda>n. (tn_cb n, tn_ud n)) (tw_tv1 w ! unat ulidx),
          w\<lparr>tw_tv1 := (tw_tv1 w)[unat ulidx := []]\<rparr>))"

lemma tv_set_reqadd [simp]: "tw_reqadd (tv_set lv t w) = tw_reqadd w"
  by (cases lv) auto

lemma tw_link_reqadd [simp]: "tw_reqadd (tw_link n w) = tw_reqadd w"
  by (simp add: tw_link_def split: prod.split)

lemma fold_link_reqadd [simp]: "tw_reqadd (fold tw_link ns w) = tw_reqadd w"
  by (induction ns arbitrary: w) auto

text \<open>\<open>_tw_insert_all\<close>: the batches of the C loop drain the queue in its order.\<close>

definition TW_REQADD_BATCH :: nat where "TW_REQADD_BATCH = 128"

function tw_insert_all :: "('c, 'u) tw_ctx \<Rightarrow> nat \<times> ('c, 'u) tw_ctx" where
  "tw_insert_all w =
     (let nodes = take TW_REQADD_BATCH (tw_reqadd w)
      in if length nodes = 0 then (0, w)
         else (case tw_insert_all (fold tw_link nodes (w\<lparr>tw_reqadd := drop TW_REQADD_BATCH (tw_reqadd w)\<rparr>))
               of (n, w) \<Rightarrow> (length nodes + n, w)))"
  by auto

termination
  by (relation "measure (\<lambda>w. length (tw_reqadd w))") (auto simp: TW_REQADD_BATCH_def)

declare tw_insert_all.simps [simp del]

text \<open>\<open>_tw_next_delta\<close>: the scan for the first slot that is not empty, up to the cascade boundary.\<close>

function tw_scan :: "('c, 'u) tw_ctx \<Rightarrow> u32 \<Rightarrow> u32 \<Rightarrow> u32" where
  "tw_scan w bound d =
     (if d < bound
      then if tw_tv1 w ! unat ((tw_jiffies w + ucast d) AND TVR_MASK) \<noteq> [] then d
           else tw_scan w bound (d + 1)
      else bound)"
  by auto
termination
proof (relation "measure (\<lambda>(w, bound, d). unat bound - unat d)", simp)
  fix w :: "('c, 'u) tw_ctx" and bound d :: u32
  assume "d < bound"
  then have "unat d < unat bound" "unat (d + 1) = unat d + 1"
    by (simp_all add: unat_Suc_less word_less_nat_alt)
  then show "((w, bound, d + 1), (w, bound, d)) \<in> measure (\<lambda>(w, bound, d). unat bound - unat d)"
    by simp
qed

declare tw_scan.simps [simp del]

definition tw_next_delta :: "('c, 'u) tw_ctx \<Rightarrow> u32" where
  "tw_next_delta w =
     (let bound = ucast ((256 - (tw_jiffies w AND TVR_MASK)) AND TVR_MASK)
      in tw_scan w bound 0)"

text \<open>
  The loop \<open>while (jiffies <= curtick) _tw_run(ctx)\<close>: \<open>None\<close> is a loop that does not end, as the
  one for \<open>curtick = UINT64_MAX\<close>.
\<close>

partial_function (option) tw_catch_up :: "u64 \<Rightarrow> ('c, 'u) tw_ctx \<Rightarrow>
    (('c \<times> 'u) list \<times> ('c, 'u) tw_ctx) option" where
  "tw_catch_up curtick w =
     (if tw_jiffies w \<le> curtick
      then (case tw_run w of (out, w) \<Rightarrow>
        Option.bind (tw_catch_up curtick w) (\<lambda>(outs, w). Some (out @ outs, w)))
      else Some ([], w))"

text \<open>
  One round of \<open>_tw_loop\<close> with its two clock readings: the callbacks it runs, the milliseconds it
  then sleeps (\<open>None\<close>: it does not go to sleep), the new state.
\<close>

definition tw_round :: "u64 \<Rightarrow> u64 \<Rightarrow> ('c, 'u) tw_ctx \<Rightarrow>
    (('c \<times> 'u) list \<times> u32 option \<times> ('c, 'u) tw_ctx) option" where
  "tw_round now1 now2 w =
     (let w = snd (tw_insert_all w);
          curtick = now1;
          ran = tw_jiffies w \<le> curtick
      in Option.bind (tw_catch_up curtick w) (\<lambda>(out, w).
           let curtick = (if ran then now2 else curtick);
               wake_at = tw_jiffies w + ucast (tw_next_delta w)
           in if wake_at \<le> curtick then Some (out, None, w)
              else Some (out, (if tw_exit w \<or> tw_reqadd w \<noteq> [] then None else Some (ucast (wake_at - curtick))), w)))"

text \<open>\<open>tw_free\<close>: the release callbacks it runs, slot by slot and then for the queue.\<close>

definition tw_node_free :: "('c, 'u) tw_node_ctx \<Rightarrow> ('c \<times> 'u) list" where
  "tw_node_free n = (case tn_freecb n of Some f \<Rightarrow> [(f, tn_ud n)] | None \<Rightarrow> [])"

definition tw_free_slot :: "('c, 'u) tw_node_ctx list list \<Rightarrow> ('c \<times> 'u) list" where
  "tw_free_slot slots = concat (map (\<lambda>slot. concat (map tw_node_free slot)) slots)"

definition tw_free :: "('c, 'u) tw_ctx \<Rightarrow> ('c \<times> 'u) list" where
  "tw_free w =
     tw_free_slot (tw_tv1 w) @ tw_free_slot (tw_tv2 w) @ tw_free_slot (tw_tv3 w) @
     tw_free_slot (tw_tv4 w) @ tw_free_slot (tw_tv5 w) @ concat (map tw_node_free (tw_reqadd w))"


section \<open>Which deadlines a slot may hold\<close>

fun tv_len :: "tw_level \<Rightarrow> nat" where
  "tv_len TV1 = TVR_SIZE"
| "tv_len TV2 = TVN_SIZE"
| "tv_len TV3 = TVN_SIZE"
| "tv_len TV4 = TVN_SIZE"
| "tv_len TV5 = TVN_SIZE"

text \<open>The binary logarithm of the time one slot of a level covers.\<close>

fun tv_shift :: "tw_level \<Rightarrow> nat" where
  "tv_shift TV1 = 0"
| "tv_shift TV2 = 8"
| "tv_shift TV3 = 14"
| "tv_shift TV4 = 20"
| "tv_shift TV5 = 26"

text \<open>
  \<open>slot_ok lv j s e\<close>: at time \<open>j\<close>, before the tick \<open>j\<close> has run, a node due at \<open>e\<close> may be in slot
  \<open>s\<close> of level \<open>lv\<close>. In \<open>tv1\<close> it is an overdue node in the slot of the next tick, or one due in
  the next 256 ticks. On the other levels the block of ticks that contains \<open>e\<close> has not been
  cascaded yet, and is among the 64 next ones.
\<close>

fun slot_ok :: "tw_level \<Rightarrow> nat \<Rightarrow> nat \<Rightarrow> nat \<Rightarrow> bool" where
  "slot_ok TV1 j s e \<longleftrightarrow> (if e < j then s = j mod 256 else e < j + 256 \<and> s = e mod 256)"
| "slot_ok lv j s e \<longleftrightarrow>
     (let B = 2 ^ tv_shift lv
      in s = e div B mod 64 \<and> j \<le> e div B * B \<and> e div B * B < j + 64 * B)"

definition tv_ok :: "tw_level \<Rightarrow> ('c, 'u) tw_ctx \<Rightarrow> bool" where
  "tv_ok lv w \<longleftrightarrow> length (tv_get lv w) = tv_len lv \<and>
     (\<forall>s<tv_len lv. \<forall>n\<in>set (tv_get lv w ! s). slot_ok lv (unat (tw_jiffies w)) s (unat (tn_expires n)))"

definition tw_wf :: "('c, 'u) tw_ctx \<Rightarrow> bool" where
  "tw_wf w \<longleftrightarrow> (\<forall>lv. tv_ok lv w)"

text \<open>
  The abstract content: each callback in the wheel with the tick at which it is due, which for an
  overdue node is the next one.
\<close>

definition tw_due :: "nat \<Rightarrow> ('c, 'u) tw_node_ctx \<Rightarrow> nat \<times> ('c \<times> 'u)" where
  "tw_due j n = (max j (unat (tn_expires n)), (tn_cb n, tn_ud n))"

definition tw_all :: "('c, 'u) tw_ctx \<Rightarrow> ('c, 'u) tw_node_ctx multiset" where
  "tw_all w = mset (concat (tw_tv1 w)) + mset (concat (tw_tv2 w)) + mset (concat (tw_tv3 w)) +
     mset (concat (tw_tv4 w)) + mset (concat (tw_tv5 w))"

definition tw_pending :: "('c, 'u) tw_ctx \<Rightarrow> (nat \<times> ('c \<times> 'u)) multiset" where
  "tw_pending w = image_mset (tw_due (unat (tw_jiffies w))) (tw_all w)"

text \<open>When a node linked at time \<open>j\<close> is due: never before \<open>j\<close>, at most \<open>UINT32_MAX\<close> ticks later.\<close>

definition tw_deadline :: "nat \<Rightarrow> nat \<Rightarrow> nat" where
  "tw_deadline j e = (if e \<le> j then j else min e (j + UINT32_MAX))"

subsection \<open>The arrays by name\<close>

lemma tv_get_set [simp]: "tv_get lv (tv_set lv' t w) = (if lv = lv' then t else tv_get lv w)"
  by (cases lv; cases lv') auto

lemma tv_set_jiffies [simp]: "tw_jiffies (tv_set lv t w) = tw_jiffies w"
  by (cases lv) auto

lemma tw_all_split:
  obtains r where "tw_all w = r + mset (concat (tv_get lv w))"
    "\<And>t. tw_all (tv_set lv t w) = r + mset (concat t)"
proof -
  show ?thesis
    by (rule that [of "tw_all w - mset (concat (tv_get lv w))"]; cases lv)
       (simp_all add: tw_all_def ac_simps multiset_eq_iff)
qed

lemma mset_concat_update:
  "s < length t \<Longrightarrow> mset (concat (t[s := xs])) + mset (t ! s) = mset (concat t) + mset xs"
  by (subst (2) id_take_nth_drop [of s t]) (auto simp: upd_conv_take_nth_drop ac_simps)

lemma tw_all_set:
  assumes "s < length (tv_get lv w)"
  shows "tw_all (tv_set lv ((tv_get lv w)[s := xs]) w) + mset (tv_get lv w ! s) = tw_all w + mset xs"
proof -
  obtain r where "tw_all w = r + mset (concat (tv_get lv w))"
    "\<And>t. tw_all (tv_set lv t w) = r + mset (concat t)"
    using tw_all_split by blast
  with mset_concat_update [OF assms, of xs] show ?thesis by (simp add: add.assoc)
qed

section \<open>Linking a node\<close>

text \<open>The slot computed from the deadline is one that the invariant allows.\<close>

lemma block_bounds:
  fixes e :: nat
  assumes "0 < B"
  shows "e div B * B \<le> e" "e < e div B * B + B"
  using dividend_less_div_times [OF assms, of e] by simp_all

lemma drop_mask_63: "unat (drop_bit k (x :: u64) AND 63) = unat x div 2 ^ k mod 64"
proof -
  have "unat (drop_bit k x) = unat x div 2 ^ k"
    by (simp only: unat_drop_bit_eq) (simp only: drop_bit_eq_div)
  with and_mask_mod [of 64 6 "drop_bit k x"] show ?thesis by simp
qed

lemma mask_255: "unat ((x :: u64) AND 255) = unat x mod 256"
  using and_mask_mod [of 256 8 x] by simp

definition tv_strict :: "tw_level \<Rightarrow> nat \<Rightarrow> nat \<Rightarrow> bool" where
  "tv_strict lv j e \<longleftrightarrow> (lv \<noteq> TV1 \<longrightarrow> j < e div 2 ^ tv_shift lv * 2 ^ tv_shift lv)"

lemma slot_ok_far:
  assumes "j < e" "2 ^ tv_shift lv \<le> e - j" "e - j < 64 * 2 ^ tv_shift lv" "lv \<noteq> TV1"
  shows "slot_ok lv j (e div 2 ^ tv_shift lv mod 64) e \<and> tv_strict lv j e"
proof -
  let ?B = "2 ^ tv_shift lv :: nat"
  from block_bounds [of ?B e] assms have "j < e div ?B * ?B" "e div ?B * ?B < j + 64 * ?B"
    by linarith+
  with assms(4) show ?thesis by (cases lv) (auto simp: tv_strict_def Let_def)
qed

lemma tw_getslot_ok:
  assumes "unat j + UINT32_MAX < 2 ^ 64"
  obtains lv s n' where "tw_getslot j n = ((lv, s), n')" "s < tv_len lv"
    "slot_ok lv (unat j) s (unat (tn_expires n'))" "tv_strict lv (unat j) (unat (tn_expires n'))"
    "tw_due (unat j) n' = (tw_deadline (unat j) (unat (tn_expires n)), (tn_cb n, tn_ud n))"
    "tn_freecb n' = tn_freecb n"
proof -
  let ?e = "unat (tn_expires n)"
  show ?thesis
  proof (cases "tn_expires n \<le> j")
    case True
    then have "?e \<le> unat j" by (simp add: word_le_nat_alt)
    with True show ?thesis
      by (intro that [of TV1 "unat j mod 256" n])
         (auto simp: tw_getslot_def mask_255 tv_strict_def tw_due_def tw_deadline_def)
  next
    case F: False
    then have lt: "unat j < ?e" by (simp add: word_le_nat_alt)
    have idx: "unat (tn_expires n - j) = ?e - unat j"
      using F by (simp add: unat_minus_le word_le_nat_alt)
    note goal = that
    have near: ?thesis
      if "?e - unat j < 256" "tw_getslot j n = ((TV1, ?e mod 256), n)"
      by (rule goal [OF that(2)]) (use that lt in \<open>auto simp: tv_strict_def tw_due_def tw_deadline_def\<close>)
    have far: ?thesis
      if "2 ^ tv_shift lv \<le> unat (tn_expires n') - unat j"
        "unat (tn_expires n') - unat j < 64 * 2 ^ tv_shift lv" "lv \<noteq> TV1"
        "tw_getslot j n = ((lv, unat (tn_expires n') div 2 ^ tv_shift lv mod 64), n')"
        "unat (tn_expires n') = min ?e (unat j + UINT32_MAX)" "tn_cb n' = tn_cb n"
        "tn_ud n' = tn_ud n" "tn_freecb n' = tn_freecb n" for lv n'
    proof (rule goal [OF that(4)])
      have "unat j < unat (tn_expires n')" using lt that(5) by simp
      from slot_ok_far [OF this that(1-3)]
      show "slot_ok lv (unat j) (unat (tn_expires n') div 2 ^ tv_shift lv mod 64) (unat (tn_expires n'))"
        "tv_strict lv (unat j) (unat (tn_expires n'))" by auto
      show "unat (tn_expires n') div 2 ^ tv_shift lv mod 64 < tv_len lv"
        using that(3) by (cases lv) auto
    qed (use that lt in \<open>auto simp: tw_due_def tw_deadline_def\<close>)
    let ?d = "?e - unat j"
    have cmp: "tn_expires n - j < c \<longleftrightarrow> ?d < unat c" "c < tn_expires n - j \<longleftrightarrow> unat c < ?d" for c :: u64
      by (simp_all add: word_less_nat_alt idx)
    consider "?d < 256" | "256 \<le> ?d" "?d < 2 ^ 14" | "2 ^ 14 \<le> ?d" "?d < 2 ^ 20"
      | "2 ^ 20 \<le> ?d" "?d < 2 ^ 26" | "2 ^ 26 \<le> ?d" "?d \<le> UINT32_MAX"
      | "UINT32_MAX < ?d" by linarith
    then show ?thesis
    proof cases
      case 1
      then show ?thesis using F by (intro near) (auto simp: tw_getslot_def cmp mask_255 Let_def)
    next
      case 2
      then show ?thesis using F
        by (intro far [of TV2 n]) (auto simp: tw_getslot_def cmp drop_mask_63 Let_def)
    next
      case 3
      then show ?thesis using F
        by (intro far [of TV3 n]) (auto simp: tw_getslot_def cmp drop_mask_63 Let_def)
    next
      case 4
      then show ?thesis using F
        by (intro far [of TV4 n]) (auto simp: tw_getslot_def cmp drop_mask_63 Let_def)
    next
      case 5
      then show ?thesis using F
        by (intro far [of TV5 n]) (auto simp: tw_getslot_def cmp drop_mask_63 Let_def)
    next
      case 6
      have "unat (j + 0xffffffff) = unat j + UINT32_MAX"
        using assms by (subst unat_plus_small) auto
      with 6 show ?thesis using F
        by (intro far [of TV5 "n\<lparr>tn_expires := j + 0xffffffff\<rparr>"])
           (auto simp: tw_getslot_def cmp drop_mask_63 Let_def)
    qed
  qed
qed


text \<open>No node of level \<open>lv\<close> still waits for the cascade of the current tick.\<close>

definition tv_settled :: "tw_level \<Rightarrow> ('c, 'u) tw_ctx \<Rightarrow> bool" where
  "tv_settled lv w \<longleftrightarrow>
     (\<forall>s<length (tv_get lv w). \<forall>n\<in>set (tv_get lv w ! s).
        tv_strict lv (unat (tw_jiffies w)) (unat (tn_expires n)))"

text \<open>The clock is far from the end of its range: what follows assumes it throughout.\<close>

definition tw_time_ok :: "nat \<Rightarrow> ('c, 'u) tw_ctx \<Rightarrow> bool" where
  "tw_time_ok k w \<longleftrightarrow> unat (tw_jiffies w) + UINT32_MAX + k < 2 ^ 64"

lemma tw_link_jiffies [simp]: "tw_jiffies (tw_link n w) = tw_jiffies w"
  by (simp add: tw_link_def split: prod.split)

lemma tw_link_ok:
  assumes wf: "tw_wf w" and t: "tw_time_ok 0 w"
  shows "tw_wf (tw_link n w) \<and> (\<forall>lv. tv_settled lv w \<longrightarrow> tv_settled lv (tw_link n w)) \<and>
    tw_pending (tw_link n w) =
      add_mset (tw_deadline (unat (tw_jiffies w)) (unat (tn_expires n)), (tn_cb n, tn_ud n)) (tw_pending w)"
proof -
  let ?j = "unat (tw_jiffies w)"
  have "?j + UINT32_MAX < 2 ^ 64" using t by (simp add: tw_time_ok_def)
  then obtain lv s n' where g: "tw_getslot (tw_jiffies w) n = ((lv, s), n')" "s < tv_len lv"
    "slot_ok lv ?j s (unat (tn_expires n'))" "tv_strict lv ?j (unat (tn_expires n'))"
    "tw_due ?j n' = (tw_deadline ?j (unat (tn_expires n)), (tn_cb n, tn_ud n))"
    using tw_getslot_ok [of "tw_jiffies w" n] by blast
  let ?w = "tv_set lv ((tv_get lv w)[s := tv_get lv w ! s @ [n']]) w"
  have w: "tw_link n w = ?w" using g(1) by (simp add: tw_link_def)
  have len: "length (tv_get lv w) = tv_len lv" using wf by (simp add: tw_wf_def tv_ok_def)
  have "tw_wf ?w"
    using wf g(2,3) by (auto simp: tw_wf_def tv_ok_def nth_list_update)
  moreover have "tv_settled l ?w" if "tv_settled l w" for l
    using that g(2,4) len by (auto simp: tv_settled_def nth_list_update)
  moreover have "tw_all ?w + mset (tv_get lv w ! s) = add_mset n' (tw_all w) + mset (tv_get lv w ! s)"
    using tw_all_set [of s lv w "tv_get lv w ! s @ [n']"] g(2) len by simp
  then have "tw_all ?w = add_mset n' (tw_all w)" by (simp only: add_right_cancel)
  then have "tw_pending ?w = add_mset (tw_due ?j n') (tw_pending w)"
    by (simp add: tw_pending_def)
  ultimately show ?thesis unfolding w g(5) by blast
qed

lemma tw_links_ok:
  assumes "tw_wf w" "tw_time_ok 0 w"
  shows "tw_wf (fold tw_link ns w) \<and> (\<forall>lv. tv_settled lv w \<longrightarrow> tv_settled lv (fold tw_link ns w)) \<and>
    tw_jiffies (fold tw_link ns w) = tw_jiffies w \<and>
    tw_pending (fold tw_link ns w) = tw_pending w +
      mset (map (\<lambda>n. (tw_deadline (unat (tw_jiffies w)) (unat (tn_expires n)), (tn_cb n, tn_ud n))) ns)"
  using assms
proof (induction ns arbitrary: w)
  case Nil
  then show ?case by simp
next
  case (Cons n ns)
  from tw_link_ok [OF Cons.prems, of n] Cons.IH [of "tw_link n w"] Cons.prems(2)
  show ?case by (auto simp: tw_time_ok_def)
qed

section \<open>The cascade\<close>

lemma mod_window:
  fixes e j :: nat
  assumes "j \<le> e" "e < j + m" "e mod m = j mod m"
  shows "e = j"
proof -
  have "m dvd e - j" using assms(1,3) by (simp add: mod_eq_dvd_iff_nat)
  moreover have "e - j < m" using assms(1,2) by simp
  ultimately have "e - j = 0" by (meson bot_nat_0.not_eq_extremum nat_dvd_not_less)
  then show ?thesis using assms(1) by simp
qed

text \<open>A slot whose turn it is holds exactly the nodes of the block that starts now.\<close>

lemma block_unique:
  fixes e j B :: nat
  assumes "0 < B" "j mod B = 0" "e div B mod 64 = j div B mod 64" "j \<le> e div B * B" "e div B * B < j + 64 * B"
  shows "e div B * B = j"
proof -
  define q p where "q = e div B" and "p = j div B"
  have j: "j = p * B" using assms(2) div_mult_mod_eq [of j B] by (simp add: p_def)
  have "p * B \<le> q * B" "q * B < (p + 64) * B"
    using assms(4,5) by (simp_all add: j q_def [symmetric] algebra_simps)
  then have "p \<le> q" "q < p + 64" using assms(1) by simp_all
  moreover have "q mod 64 = p mod 64" using assms(3) by (simp add: q_def p_def)
  ultimately have "q = p" by (intro mod_window [of p q 64])
  then show ?thesis by (simp add: j q_def [symmetric])
qed

lemma slot_ok_now:
  assumes "slot_ok lv j (j div 2 ^ tv_shift lv mod 64) e" "lv \<noteq> TV1" "j mod 2 ^ tv_shift lv = 0"
  shows "e div 2 ^ tv_shift lv * 2 ^ tv_shift lv = j" "tw_deadline j e = max j e"
proof -
  let ?B = "2 ^ tv_shift lv :: nat"
  from assms have *: "e div ?B mod 64 = j div ?B mod 64" "j \<le> e div ?B * ?B" "e div ?B * ?B < j + 64 * ?B"
    by (cases lv; simp add: Let_def)+
  from block_unique [OF _ assms(3) *] show eB: "e div ?B * ?B = j" by simp
  have "?B \<le> UINT32_MAX" by (cases lv) auto
  with block_bounds [of ?B e] eB have "e \<le> j + UINT32_MAX" by simp
  then show "tw_deadline j e = max j e" by (simp add: tw_deadline_def)
qed

lemma tw_cascade_ok:
  assumes wf: "tw_wf w" and t: "tw_time_ok 0 w" and lv: "lv \<noteq> TV1"
    and al: "unat (tw_jiffies w) mod 2 ^ tv_shift lv = 0"
    and idx: "unat i = unat (tw_jiffies w) div 2 ^ tv_shift lv mod 64"
    and c: "tw_cascade lv i w = (r, w')"
  shows "r = i \<and> tw_wf w' \<and> tw_jiffies w' = tw_jiffies w \<and> tw_pending w' = tw_pending w \<and>
    tv_settled lv w' \<and> (\<forall>l. tv_settled l w \<longrightarrow> tv_settled l w')"
proof -
  let ?j = "unat (tw_jiffies w)" and ?B = "2 ^ tv_shift lv :: nat"
  let ?m = "tv_get lv w ! unat i" and ?w = "tv_set lv ((tv_get lv w)[unat i := []]) w"
  have len: "length (tv_get lv w) = tv_len lv" "tv_len lv = 64"
    using wf lv by (simp add: tw_wf_def tv_ok_def, cases lv, auto)
  have i: "unat i < 64" using idx by simp
  have ok: "slot_ok lv ?j s (unat (tn_expires n))" if "s < 64" "n \<in> set (tv_get lv w ! s)" for s n
    using wf that len by (auto simp: tw_wf_def tv_ok_def)
  have wf': "tw_wf ?w" using wf len i by (auto simp: tw_wf_def tv_ok_def nth_list_update)
  have settled: "tv_settled lv ?w"
  proof -
    have "tv_strict lv ?j (unat (tn_expires n))" if "s < 64" "s \<noteq> unat i" "n \<in> set (tv_get lv w ! s)" for s n
    proof -
      from ok [OF that(1,3)] lv have *: "?j \<le> unat (tn_expires n) div ?B * ?B"
        "s = unat (tn_expires n) div ?B mod 64" by (cases lv; simp add: Let_def)+
      have "unat (tn_expires n) div ?B * ?B \<noteq> ?j"
        using *(2) that(2) idx by (metis nonzero_mult_div_cancel_right power_not_zero zero_neq_numeral)
      with * show ?thesis by (simp add: tv_strict_def)
    qed
    then show ?thesis using len i by (auto simp: tv_settled_def nth_list_update)
  qed
  have mono: "tv_settled l w \<Longrightarrow> tv_settled l ?w" for l
    using len i by (auto simp: tv_settled_def nth_list_update)
  have "tw_all ?w + mset ?m = tw_all w"
    using tw_all_set [of "unat i" lv w "[]"] len i by simp
  then have "tw_pending w = tw_pending ?w + mset (map (tw_due ?j) ?m)"
    by (simp add: tw_pending_def flip: image_mset_union)
  moreover have "map (tw_due ?j) ?m =
      map (\<lambda>n. (tw_deadline ?j (unat (tn_expires n)), (tn_cb n, tn_ud n))) ?m"
    using ok [OF i] slot_ok_now(2) [OF _ lv al] by (simp add: tw_due_def idx)
  moreover have "r = i" "w' = fold tw_link ?m ?w" using c by (auto simp: tw_cascade_def Let_def)
  ultimately show ?thesis
    using tw_links_ok [OF wf', of ?m] t settled mono by (simp add: tw_time_ok_def)
qed

end
