(* ===== verification/Timer_Run.thy ===== *)
theory Timer_Run
  imports Timer_Wheel
begin

text \<open>
  What the timer wheel of \<open>Timer_Wheel\<close> promises: a tick runs exactly the callbacks due at it and
  keeps every other one; the thread's loop catches up with the clock, and never sleeps past a
  deadline; every callback runs once, or is released once when the wheel is freed.
\<close>

section \<open>One tick\<close>

text \<open>The levels cascade exactly when a block of theirs begins.\<close>

lemma unat_INDEX: "unat (tw_INDEX N w) = unat (tw_jiffies w) div 2 ^ (8 + N * 6) mod 64"
proof -
  let ?x = "drop_bit (8 + N * 6) (tw_jiffies w) AND 63"
  have "unat ?x < 2 ^ 32" unfolding drop_mask_63 by (rule less_trans [of _ 64]) auto
  then have "unat (ucast ?x :: u32) = unat ?x" by (simp add: unsigned_ucast_eq take_bit_nat_eq_self)
  then show ?thesis by (simp add: tw_INDEX_def drop_mask_63 mult.commute)
qed

lemma block_start:
  fixes j :: nat
  assumes "j mod 2 ^ k = 0"
  shows "j div 2 ^ k mod 64 = 0 \<longleftrightarrow> j mod 2 ^ (k + 6) = 0"
  using assms mod_mult2_eq [of j "2 ^ k" 64] by (simp add: power_add)

lemma not_block_start: "j mod 2 ^ k \<noteq> 0 \<Longrightarrow> j mod 2 ^ (k + i) \<noteq> (0 :: nat)"
  by (metis dvd_eq_mod_eq_0 dvd_trans le_add1 le_imp_power_dvd)

lemma settled_unaligned:
  assumes "tw_wf w" "unat (tw_jiffies w) mod 2 ^ tv_shift lv \<noteq> 0"
  shows "tv_settled lv w"
proof -
  let ?B = "2 ^ tv_shift lv :: nat"
  have *: "e div ?B * ?B \<noteq> unat (tw_jiffies w)" for e
    using assms(2) by (metis mod_mult_self2_is_0)
  have "unat (tw_jiffies w) < unat (tn_expires n) div ?B * ?B"
    if "lv \<noteq> TV1" "s < length (tv_get lv w)" "n \<in> set (tv_get lv w ! s)" for s n
  proof -
    have "slot_ok lv (unat (tw_jiffies w)) s (unat (tn_expires n))"
      using assms(1) that by (simp add: tw_wf_def tv_ok_def)
    with that(1) have "unat (tw_jiffies w) \<le> unat (tn_expires n) div ?B * ?B"
      by (cases lv) (simp_all add: Let_def)
    with * show ?thesis by (metis le_neq_implies_less)
  qed
  then show ?thesis by (auto simp: tv_settled_def tv_strict_def)
qed

lemma settled_TV1: "tv_settled TV1 w"
  by (simp add: tv_settled_def tv_strict_def)

text \<open>
  The chain of cascades: \<open>cascading k w v\<close> when the levels below the \<open>k\<close>-th of \<open>tv2\<close>, \dots,
  \<open>tv5\<close> are settled and the \<open>k\<close>-th has a block beginning now, \<open>cascaded w v\<close> when all are settled.
\<close>

definition cascaded :: "('c, 'u) tw_ctx \<Rightarrow> ('c, 'u) tw_ctx \<Rightarrow> bool" where
  "cascaded w v \<longleftrightarrow> tw_wf v \<and> tw_jiffies v = tw_jiffies w \<and> tw_pending v = tw_pending w \<and>
     (\<forall>lv. tv_settled lv v)"

definition cascading :: "nat \<Rightarrow> ('c, 'u) tw_ctx \<Rightarrow> ('c, 'u) tw_ctx \<Rightarrow> bool" where
  "cascading k w v \<longleftrightarrow> tw_wf v \<and> tw_jiffies v = tw_jiffies w \<and> tw_pending v = tw_pending w \<and>
     (\<forall>lv. tv_shift lv < 8 + k * 6 \<longrightarrow> tv_settled lv v) \<and> unat (tw_jiffies w) mod 2 ^ (8 + k * 6) = 0"

lemma cascading_step:
  assumes c: "cascading k w v" and t: "tw_time_ok 0 w" and lv: "tv_shift lv = 8 + k * 6"
    and r: "tw_cascade lv (tw_INDEX k v) v = (r, v')"
  shows "if r = 0 then cascading (k + 1) w v' else cascaded w v'"
proof -
  let ?j = "unat (tw_jiffies w)"
  have "lv \<noteq> TV1" using lv by auto
  have v: "tw_wf v" "tw_jiffies v = tw_jiffies w" "tw_pending v = tw_pending w" "tw_time_ok 0 v"
    and a: "?j mod 2 ^ tv_shift lv = 0"
    using c t lv by (auto simp: cascading_def tw_time_ok_def)
  have k: "r = tw_INDEX k v" "tw_wf v'" "tw_jiffies v' = tw_jiffies w" "tw_pending v' = tw_pending w"
    "tv_settled lv v'" "\<forall>l. tv_settled l v \<longrightarrow> tv_settled l v'"
    using tw_cascade_ok [OF v(1,4) \<open>lv \<noteq> TV1\<close> _ _ r] v a by (simp_all add: unat_INDEX lv)
  have low: "tv_settled l v'" if "tv_shift l < 8 + (k + 1) * 6" for l
  proof (cases "l = lv")
    case False
    with that lv have "tv_shift l < 8 + k * 6" by (cases l; cases lv) auto
    with c k(6) show ?thesis by (simp add: cascading_def)
  qed (use k(5) in simp)
  have r0: "r = 0 \<longleftrightarrow> ?j mod 2 ^ (8 + (k + 1) * 6) = 0"
  proof -
    have "r = 0 \<longleftrightarrow> unat r = 0" by (simp add: unat_eq_0)
    then show ?thesis
      unfolding k(1) unat_INDEX v(2) using block_start [OF a] lv by (simp add: algebra_simps)
  qed
  show ?thesis
  proof (cases "r = 0")
    case True
    with k low r0 show ?thesis by (simp add: cascading_def)
  next
    case False
    have "tv_settled l v'" for l
    proof (cases "tv_shift l < 8 + (k + 1) * 6")
      case F: False
      have "?j mod 2 ^ tv_shift l \<noteq> 0"
        using F r0 False not_block_start [of ?j "8 + (k + 1) * 6" "tv_shift l - (8 + (k + 1) * 6)"]
        by simp
      then show ?thesis using settled_unaligned [of v' l] k by simp
    qed (rule low)
    with False k show ?thesis by (simp add: cascaded_def)
  qed
qed

lemma cascading_end: "cascading 4 w v \<Longrightarrow> cascaded w v"
proof -
  have "tv_shift l < 8 + 4 * 6" for l by (cases l) auto
  then show "cascading 4 w v \<Longrightarrow> cascaded w v" by (simp add: cascading_def cascaded_def)
qed

lemma tw_adjust_ok:
  assumes wf: "tw_wf w" and t: "tw_time_ok 0 w" and u: "unat ulidx = unat (tw_jiffies w) mod 256"
  shows "cascaded w (tw_adjust ulidx w)"
proof (cases "ulidx = 0")
  case False
  then have "unat ulidx \<noteq> 0" by (metis unsigned_eq_0_iff)
  then have n: "unat (tw_jiffies w) mod 2 ^ 8 \<noteq> 0" using u by simp
  have "tv_settled lv w" for lv
  proof (cases "lv = TV1")
    case False
    then have "tv_shift lv = 8 + (tv_shift lv - 8)" by (cases lv) auto
    with n not_block_start [of "unat (tw_jiffies w)" 8 "tv_shift lv - 8"]
    have "unat (tw_jiffies w) mod 2 ^ tv_shift lv \<noteq> 0" by metis
    then show ?thesis by (rule settled_unaligned [OF wf])
  qed (simp add: settled_TV1)
  with False wf show ?thesis by (simp add: tw_adjust_def cascaded_def)
next
  case u0: True
  have "tv_settled lv w" if "tv_shift lv < 8" for lv using that settled_TV1 by (cases lv) auto
  then have c0: "cascading 0 w w" using wf u u0 by (simp add: cascading_def)
  obtain r2 w2 where c2: "tw_cascade TV2 (tw_INDEX 0 w) w = (r2, w2)" by fastforce
  obtain r3 w3 where c3: "tw_cascade TV3 (tw_INDEX 1 w2) w2 = (r3, w3)" by fastforce
  obtain r4 w4 where c4: "tw_cascade TV4 (tw_INDEX 2 w3) w3 = (r4, w4)" by fastforce
  obtain r5 w5 where c5: "tw_cascade TV5 (tw_INDEX 3 w4) w4 = (r5, w5)" by fastforce
  note s2 = cascading_step [OF c0 t _ c2] 
  note s3 = cascading_step [OF _ t _ c3]
  note s4 = cascading_step [OF _ t _ c4]
  note s5 = cascading_step [OF _ t _ c5]
  show ?thesis
    using s2 s3 s4 s5 cascading_end [of w w5] u0 c2 c3 c4 c5
    by (simp add: tw_adjust_def numeral_eq_Suc split: if_splits)
qed


lemma ex_level: "(\<exists>lv. P lv) \<longleftrightarrow> P TV1 \<or> P TV2 \<or> P TV3 \<or> P TV4 \<or> P TV5"
  by (metis tw_level.exhaust)

lemma in_tw_all: "n \<in># tw_all w \<longleftrightarrow> (\<exists>lv. n \<in> set (concat (tv_get lv w)))"
  by (simp add: ex_level tw_all_def disj_ac del: set_concat mset_concat)

text \<open>
  A tick at \<open>j\<close> runs exactly the pending callbacks due at \<open>j\<close>; the others stay, none is overdue
  after it.
\<close>

lemma tw_run_ok:
  assumes wf: "tw_wf w" and t: "tw_time_ok 1 w" and r: "tw_run w = (out, w')"
  shows "tw_wf w' \<and> unat (tw_jiffies w') = unat (tw_jiffies w) + 1 \<and>
    mset out = image_mset snd (filter_mset (\<lambda>p. fst p = unat (tw_jiffies w)) (tw_pending w)) \<and>
    tw_pending w' = filter_mset (\<lambda>p. fst p \<noteq> unat (tw_jiffies w)) (tw_pending w)"
proof -
  let ?j = "unat (tw_jiffies w)" and ?u = "ucast (tw_jiffies w AND TVR_MASK) :: u32"
  have "unat (tw_jiffies w AND TVR_MASK) < 2 ^ 32"
    unfolding mask_255 by (rule less_trans [of _ 256]) auto
  then have u: "unat ?u = ?j mod 256"
    by (simp add: unsigned_ucast_eq take_bit_nat_eq_self flip: mask_255)
  define v where "v = tw_adjust ?u w"
  have cd: "tw_wf v" "tw_jiffies v = tw_jiffies w" "tw_pending v = tw_pending w" "\<And>lv. tv_settled lv v"
    using tw_adjust_ok [OF wf _ u] t by (auto simp: v_def cascaded_def tw_time_ok_def)
  let ?S = "tw_tv1 v ! (?j mod 256)"
  have w': "w' = v\<lparr>tw_jiffies := tw_jiffies w + 1, tw_tv1 := (tw_tv1 v)[?j mod 256 := []]\<rparr>"
    and out: "out = map (\<lambda>n. (tn_cb n, tn_ud n)) ?S"
    using r cd(2) by (auto simp: tw_run_def Let_def u simp flip: v_def)
  have ji: "unat (tw_jiffies w') = ?j + 1"
    using t by (simp add: w' tw_time_ok_def unat_plus_small)
  have len: "length (tv_get lv v) = tv_len lv" for lv using cd(1) by (simp add: tw_wf_def tv_ok_def)
  have ok: "slot_ok lv ?j s (unat (tn_expires n))" "tv_strict lv ?j (unat (tn_expires n))"
    if "s < tv_len lv" "n \<in> set (tv_get lv v ! s)" for lv s n
    using that cd len by (auto simp: tw_wf_def tv_ok_def tv_settled_def)
  have now: "unat (tn_expires n) \<le> ?j" if "n \<in> set ?S" for n
    using ok(1) [of "?j mod 256" TV1 n] that mod_window [of ?j "unat (tn_expires n)" 256]
    by (simp split: if_splits)
  have later: "?j < unat (tn_expires n) \<and> slot_ok lv (?j + 1) s (unat (tn_expires n))"
    if s: "s < tv_len lv" "n \<in> set (tv_get lv w' ! s)" for lv s n
  proof (cases "lv = TV1")
    case True
    with s len [of TV1] have "s \<noteq> ?j mod 256" "n \<in> set (tv_get TV1 v ! s)"
      by (auto simp: w' nth_list_update split: if_splits)
    with ok(1) [of s TV1 n] s True show ?thesis
      by (auto split: if_splits simp: less_Suc_eq)
  next
    case False
    then have "n \<in> set (tv_get lv v ! s)" using s by (cases lv) (auto simp: w')
    with ok [of s lv n] s False block_bounds [of "2 ^ tv_shift lv" "unat (tn_expires n)"]
    show ?thesis by (cases lv) (simp_all add: Let_def tv_strict_def)
  qed
  have len': "length (tv_get lv w') = tv_len lv" for lv using len [of lv] by (cases lv) (simp_all add: w')
  have "tw_wf w'" using later len' ji by (auto simp: tw_wf_def tv_ok_def)
  moreover have all: "tw_all v = tw_all w' + mset ?S"
  proof -
    have "tw_all w' = tw_all (tv_set TV1 ((tv_get TV1 v)[?j mod 256 := []]) v)"
      by (simp add: w' tw_all_def)
    with tw_all_set [of "?j mod 256" TV1 v "[]"] len [of TV1] show ?thesis by simp
  qed
  have later': "?j < unat (tn_expires n)" if n: "n \<in># tw_all w'" for n
  proof -
    obtain lv slot where "slot \<in> set (tv_get lv w')" "n \<in> set slot"
      using n by (auto simp: in_tw_all)
    then obtain s where "s < tv_len lv" "n \<in> set (tv_get lv w' ! s)"
      by (metis in_set_conv_nth len')
    then show ?thesis using later by blast
  qed
  have "tw_pending v = image_mset (tw_due ?j) (tw_all w') + image_mset (tw_due ?j) (mset ?S)"
    by (simp add: tw_pending_def all cd(2))
  then have "tw_pending w = image_mset (tw_due ?j) (tw_all w') + image_mset (tw_due ?j) (mset ?S)"
    by (simp only: cd(3))
  moreover have "image_mset (tw_due ?j) (tw_all w') = tw_pending w'"
    unfolding tw_pending_def ji by (rule image_mset_cong) (use later' in \<open>auto simp: tw_due_def max_def Suc_le_eq less_imp_le\<close>)
  moreover have "image_mset (tw_due ?j) (mset ?S) = image_mset (Pair ?j) (mset out)"
    unfolding out by (simp add: image_mset.compositionality comp_def, rule image_mset_cong)
      (use now in \<open>auto simp: tw_due_def\<close>)
  moreover have "filter_mset (\<lambda>p. fst p \<noteq> ?j) (tw_pending w') = tw_pending w'"
    "filter_mset (\<lambda>p. fst p = ?j) (tw_pending w') = {#}"
  proof -
    have "?j < fst p" if "p \<in># tw_pending w'" for p
      using that later' ji by (auto simp: tw_pending_def tw_due_def)
    then show "filter_mset (\<lambda>p. fst p \<noteq> ?j) (tw_pending w') = tw_pending w'"
      "filter_mset (\<lambda>p. fst p = ?j) (tw_pending w') = {#}"
      by (fastforce simp: filter_mset_eq_conv)+
  qed
  ultimately show ?thesis using ji
    by (simp add: image_mset.compositionality comp_def filter_mset_image_mset)
qed


section \<open>The thread's loop\<close>

lemma tv_get_reqadd [simp]: "tv_get lv (w\<lparr>tw_reqadd := q\<rparr>) = tv_get lv w"
  by (cases lv) auto

lemma tw_cascade_reqadd: "tw_cascade lv i w = (r, w') \<Longrightarrow> tw_reqadd w' = tw_reqadd w"
  by (auto simp: tw_cascade_def Let_def)

lemma tw_run_reqadd: "tw_run w = (out, w') \<Longrightarrow> tw_reqadd w' = tw_reqadd w"
  by (auto simp: tw_run_def tw_adjust_def Let_def dest!: tw_cascade_reqadd split: if_splits prod.splits
    intro: tw_cascade_reqadd [OF prod.collapse [symmetric], THEN trans])

lemma tw_catch_up_ok:
  assumes "tw_wf w" "unat c + UINT32_MAX + 2 < 2 ^ 64" "tw_time_ok 0 w"
  shows "\<exists>out w'. tw_catch_up c w = Some (out, w') \<and> tw_wf w' \<and>
    unat (tw_jiffies w') = max (unat (tw_jiffies w)) (unat c + 1) \<and>
    mset out = image_mset snd (filter_mset (\<lambda>p. fst p \<le> unat c) (tw_pending w)) \<and>
    tw_pending w' = filter_mset (\<lambda>p. unat c < fst p) (tw_pending w) \<and> tw_reqadd w' = tw_reqadd w"
  using assms
proof (induction "unat c + 1 - unat (tw_jiffies w)" arbitrary: w)
  case 0
  then have j: "unat c < unat (tw_jiffies w)" by simp
  then have "\<not> tw_jiffies w \<le> c" by (simp add: word_le_nat_alt)
  then have "tw_catch_up c w = Some ([], w)" by (simp add: tw_catch_up.simps)
  moreover have "unat c < fst p" if "p \<in># tw_pending w" for p
    using that j by (auto simp: tw_pending_def tw_due_def)
  then have "filter_mset (\<lambda>p. fst p \<le> unat c) (tw_pending w) = {#}"
    "filter_mset (\<lambda>p. unat c < fst p) (tw_pending w) = tw_pending w"
    by (fastforce simp: filter_mset_eq_conv)+
  ultimately show ?case using 0 j by simp
next
  case (Suc n)
  let ?j = "unat (tw_jiffies w)"
  obtain o1 w1 where r: "tw_run w = (o1, w1)" by fastforce
  have j: "?j \<le> unat c" and le: "tw_jiffies w \<le> c" using Suc.hyps(2) by (simp_all add: word_le_nat_alt)
  have t: "tw_time_ok 1 w" using Suc.prems j by (simp add: tw_time_ok_def)
  note k = tw_run_ok [OF Suc.prems(1) t r]
  obtain o2 w2 where ih: "tw_catch_up c w1 = Some (o2, w2)" "tw_wf w2"
    "unat (tw_jiffies w2) = max (unat (tw_jiffies w1)) (unat c + 1)"
    "mset o2 = image_mset snd (filter_mset (\<lambda>p. fst p \<le> unat c) (tw_pending w1))"
    "tw_pending w2 = filter_mset (\<lambda>p. unat c < fst p) (tw_pending w1)" "tw_reqadd w2 = tw_reqadd w"
  proof -
    have "n = unat c + 1 - unat (tw_jiffies w1)" using Suc.hyps(2) k by simp
    from Suc.hyps(1) [OF this] that k j Suc.prems(2) tw_run_reqadd [OF r] show thesis by (auto simp: tw_time_ok_def)
  qed
  have "filter_mset (\<lambda>p. fst p \<le> unat c) (tw_pending w) =
      filter_mset (\<lambda>p. fst p = ?j) (tw_pending w) +
      filter_mset (\<lambda>p. fst p \<le> unat c) (filter_mset (\<lambda>p. fst p \<noteq> ?j) (tw_pending w))"
    using j by (subst multiset_partition [of _ "\<lambda>p. fst p = ?j"])
      (auto simp: filter_filter_mset intro!: filter_mset_cong arg_cong2 [where f = "(+)"])
  moreover have "filter_mset (\<lambda>p. unat c < fst p) (filter_mset (\<lambda>p. fst p \<noteq> ?j) (tw_pending w)) =
      filter_mset (\<lambda>p. unat c < fst p) (tw_pending w)"
    using j by (auto simp: filter_filter_mset intro!: filter_mset_cong)
  ultimately show ?case
    using r ih k j le by (simp add: tw_catch_up.simps [of c w] max_def)
qed

lemma image_take_drop:
  "image_mset f (mset (take k xs)) + image_mset f (mset (drop k xs)) = image_mset f (mset xs)"
  by (metis append_take_drop_id image_mset_union mset_append)

lemma tw_insert_all_ok:
  assumes "tw_wf w" "tw_time_ok 0 w"
  shows "fst (tw_insert_all w) = length (tw_reqadd w) \<and> tw_wf (snd (tw_insert_all w)) \<and>
    tw_jiffies (snd (tw_insert_all w)) = tw_jiffies w \<and> tw_reqadd (snd (tw_insert_all w)) = [] \<and>
    tw_pending (snd (tw_insert_all w)) = tw_pending w +
      mset (map (\<lambda>n. (tw_deadline (unat (tw_jiffies w)) (unat (tn_expires n)), (tn_cb n, tn_ud n)))
        (tw_reqadd w))"
  using assms
proof (induction w rule: tw_insert_all.induct)
  case (1 w)
  let ?ns = "take TW_REQADD_BATCH (tw_reqadd w)" and ?rest = "drop TW_REQADD_BATCH (tw_reqadd w)"
  let ?w = "w\<lparr>tw_reqadd := ?rest\<rparr>"
  show ?case
  proof (cases "tw_reqadd w = []")
    case True
    with 1 show ?thesis by (subst (1 2 3 4 5) tw_insert_all.simps) simp
  next
    case False
    then have ne: "length ?ns \<noteq> 0" by (simp add: TW_REQADD_BATCH_def)
    have w: "tw_wf ?w" "tw_time_ok 0 ?w" "tw_pending ?w = tw_pending w" "tw_jiffies ?w = tw_jiffies w"
      using "1"(2,3) by (simp_all add: tw_wf_def tv_ok_def tw_time_ok_def tw_pending_def tw_all_def)
    note k = tw_links_ok [OF w(1,2), of ?ns]
    let ?v = "fold tw_link ?ns ?w"
    have e: "tw_insert_all w = (length ?ns + fst (tw_insert_all ?v), snd (tw_insert_all ?v))"
      using ne by (subst tw_insert_all.simps) (simp add: Let_def case_prod_beta)
    have "tw_time_ok 0 ?v" using k w(2) by (simp add: tw_time_ok_def)
    with "1"(1) [OF refl ne] k
    have ih: "fst (tw_insert_all ?v) = length ?rest" "tw_wf (snd (tw_insert_all ?v))"
      "tw_jiffies (snd (tw_insert_all ?v)) = tw_jiffies w" "tw_reqadd (snd (tw_insert_all ?v)) = []"
      "tw_pending (snd (tw_insert_all ?v)) = tw_pending w +
         mset (map (\<lambda>n. (tw_deadline (unat (tw_jiffies w)) (unat (tn_expires n)), (tn_cb n, tn_ud n))) ?ns) +
         mset (map (\<lambda>n. (tw_deadline (unat (tw_jiffies w)) (unat (tn_expires n)), (tn_cb n, tn_ud n))) ?rest)"
      unfolding w(3) [symmetric] by (simp_all add: w(4))
    show ?thesis
      using ih unfolding e by (simp add: add.assoc image_take_drop min_def)
  qed
qed


lemma fold_link_jiffies [simp]: "tw_jiffies (fold tw_link ns w) = tw_jiffies w"
  by (induction ns arbitrary: w) auto

lemma tw_insert_all_jiffies [simp]: "tw_jiffies (snd (tw_insert_all w)) = tw_jiffies w"
proof (induction w rule: tw_insert_all.induct)
  case (1 w)
  then show ?case by (subst tw_insert_all.simps) (simp add: Let_def case_prod_beta)
qed

text \<open>The scan stops at the first slot of \<open>tv1\<close> that is not empty.\<close>

lemma tw_scan_ok:
  assumes "tw_time_ok 0 w" "d \<le> bound"
  shows "unat d \<le> unat (tw_scan w bound d) \<and> unat (tw_scan w bound d) \<le> unat bound \<and>
    (\<forall>k. unat d \<le> k \<and> k < unat (tw_scan w bound d) \<longrightarrow> tw_tv1 w ! ((unat (tw_jiffies w) + k) mod 256) = []) \<and>
    (unat (tw_scan w bound d) < unat bound \<longrightarrow>
       tw_tv1 w ! ((unat (tw_jiffies w) + unat (tw_scan w bound d)) mod 256) \<noteq> [])"
  using assms
proof (induction w bound d rule: tw_scan.induct)
  case (1 w bound d)
  have d: "unat d < 2 ^ 32" using unsigned_less [of d] by simp
  then have "unat (ucast d :: u64) = unat d" by (simp add: unsigned_ucast_eq take_bit_nat_eq_self)
  with d have "unat (tw_jiffies w + ucast d) = unat (tw_jiffies w) + unat d"
    using "1.prems"(1) unat_plus_small [of "tw_jiffies w" "ucast d"] by (simp add: tw_time_ok_def)
  then have slot: "unat ((tw_jiffies w + ucast d) AND TVR_MASK) = (unat (tw_jiffies w) + unat d) mod 256"
    by (simp add: mask_255)
  show ?case
  proof (cases "d < bound \<and> tw_tv1 w ! ((unat (tw_jiffies w) + unat d) mod 256) = []")
    case True
    have d1: "unat (d + 1) = unat d + 1" "d + 1 \<le> bound"
      using True unat_Suc_less [of d bound] by (auto simp: word_le_nat_alt word_less_nat_alt)
    have e: "tw_scan w bound d = tw_scan w bound (d + 1)"
      using True slot by (simp add: tw_scan.simps [of w bound d])
    have "tw_tv1 w ! ((unat (tw_jiffies w) + k) mod 256) = []"
      if "unat d \<le> k" "k < unat (tw_scan w bound (d + 1))" for k
    proof (cases "k = unat d")
      case False
      with "1.IH" True slot "1.prems"(1) d1 that show ?thesis by auto
    qed (use True in simp)
    with "1.IH" True slot "1.prems"(1) d1 show ?thesis unfolding e by auto
  next
    case False
    then have "tw_scan w bound d = (if d < bound then d else bound)"
      using slot by (auto simp: tw_scan.simps [of w bound d])
    with False "1.prems"(2) show ?thesis by (auto simp: word_le_nat_alt word_less_nat_alt)
  qed
qed

text \<open>The distance to the next cascade boundary.\<close>

lemma boundary:
  fixes j m :: nat
  defines "b \<equiv> (256 - j mod 256) mod 256"
  shows "256 dvd j + b" "b < 256" "256 dvd m \<Longrightarrow> j \<le> m \<Longrightarrow> j + b \<le> m"
proof -
  obtain q r where j: "j = 256 * q + r" "r < 256"
    using mult_div_mod_eq [of 256 j] mod_less_divisor [of 256 j] by (metis zero_less_numeral)
  then have b: "b = (if r = 0 then 0 else 256 - r)" by (simp add: b_def)
  then have jb: "j + b = 256 * (if r = 0 then q else q + 1)" using j by simp
  then show "256 dvd j + b" by (simp only: dvd_triv_left)
  show "b < 256" by (simp add: b_def)
  show "j + b \<le> m" if "256 dvd m" "j \<le> m"
  proof -
    from that(1) obtain t where "m = 256 * t" by (auto elim: dvdE)
    with that(2) j show ?thesis unfolding jb by auto
  qed
qed

lemma slot_ok_due:
  assumes "slot_ok TV1 j ((j + r) mod 256) e" "r < 256"
  shows "max j e = j + r"
proof (cases "e < j")
  case True
  with assms(1) have "(j + r) mod 256 = j mod 256" by simp
  with mod_window [of j "j + r" 256] assms(2) True show ?thesis by simp
next
  case False
  with assms(1) have e: "e < j + 256" "(j + r) mod 256 = e mod 256" by simp_all
  have "e = j + r"
  proof (cases "e \<le> j + r")
    case True
    with mod_window [of e "j + r" 256] e(2) assms(2) False show ?thesis by simp
  next
    case F: False
    with mod_window [of "j + r" e 256] e show ?thesis by simp
  qed
  then show ?thesis by simp
qed

lemma tw_all_slot:
  assumes "tw_wf w" "n \<in># tw_all w"
  obtains lv s where "s < tv_len lv" "n \<in> set (tv_get lv w ! s)"
    "slot_ok lv (unat (tw_jiffies w)) s (unat (tn_expires n))"
proof -
  obtain lv slot where "slot \<in> set (tv_get lv w)" "n \<in> set slot"
    using assms(2) by (auto simp: in_tw_all)
  moreover have "length (tv_get lv w) = tv_len lv" using assms(1) by (simp add: tw_wf_def tv_ok_def)
  ultimately obtain s where "s < tv_len lv" "n \<in> set (tv_get lv w ! s)" by (metis in_set_conv_nth)
  with assms(1) that show thesis by (simp add: tw_wf_def tv_ok_def)
qed

text \<open>
  The thread may sleep for \<open>_tw_next_delta\<close>: nothing is due before, and what is waited for is a
  callback or the next cascade.
\<close>

lemma tw_next_delta_ok:
  assumes wf: "tw_wf w" and t: "tw_time_ok 0 w"
  shows "unat (tw_next_delta w) < 256 \<and>
    (\<forall>p\<in>#tw_pending w. unat (tw_jiffies w) + unat (tw_next_delta w) \<le> fst p) \<and>
    ((\<exists>p\<in>#tw_pending w. fst p = unat (tw_jiffies w) + unat (tw_next_delta w)) \<or>
      256 dvd unat (tw_jiffies w) + unat (tw_next_delta w))"
proof -
  define j b where "j = unat (tw_jiffies w)" and "b = (256 - j mod 256) mod 256"
  define bound :: u32 where "bound = ucast ((256 - (tw_jiffies w AND TVR_MASK)) AND TVR_MASK)"
  have "unat (256 - (tw_jiffies w AND TVR_MASK)) = 256 - j mod 256"
    by (subst unat_minus_le) (auto simp: word_le_nat_alt mask_255 j_def)
  then have ub: "unat bound = b"
    by (simp add: bound_def unsigned_ucast_eq mask_255 take_bit_nat_eq_self b_def)
  define r where "r = unat (tw_next_delta w)"
  have "r = unat (tw_scan w bound 0)" by (simp add: r_def tw_next_delta_def bound_def)
  then have r: "r \<le> b" "\<And>k. k < r \<Longrightarrow> tw_tv1 w ! ((j + k) mod 256) = []"
    "r < b \<Longrightarrow> tw_tv1 w ! ((j + r) mod 256) \<noteq> []"
    using tw_scan_ok [OF t, of 0 bound] ub by (simp_all add: j_def)
  have b: "256 dvd j + b" "b < 256" "\<And>m. 256 dvd m \<Longrightarrow> j \<le> m \<Longrightarrow> j + b \<le> m"
    using boundary [where j = j] by (simp_all add: b_def)
  have len: "length (tw_tv1 w) = 256" using wf tv_ok_def [of TV1 w] by (simp add: tw_wf_def)
  have early: "j + r \<le> max j (unat (tn_expires n))" if "n \<in># tw_all w" for n
    using wf that
  proof (rule tw_all_slot)
    fix lv s
    assume s: "s < tv_len lv" "n \<in> set (tv_get lv w ! s)"
      and "slot_ok lv (unat (tw_jiffies w)) s (unat (tn_expires n))"
    then have ok: "slot_ok lv j s (unat (tn_expires n))" by (simp add: j_def)
    show ?thesis
    proof (cases "lv = TV1")
      case True
      let ?k = "max j (unat (tn_expires n)) - j"
      have "s = (j + ?k) mod 256" using ok True by (auto simp: max_def split: if_splits)
      then have "tw_tv1 w ! ((j + ?k) mod 256) \<noteq> []" using s True by auto
      then have "\<not> ?k < r" using r(2) by blast
      then show ?thesis by linarith
    next
      case False
      let ?m = "unat (tn_expires n) div 2 ^ tv_shift lv * 2 ^ tv_shift lv"
      have "256 dvd (2 :: nat) ^ tv_shift lv" using False by (cases lv) simp_all
      then have "256 dvd ?m" by (rule dvd_mult)
      moreover have "j \<le> ?m" using ok False by (cases lv) (simp_all add: Let_def)
      ultimately have "j + b \<le> ?m" by (rule b(3))
      moreover have "?m \<le> unat (tn_expires n)" by simp
      ultimately show ?thesis using r(1) by linarith
    qed
  qed
  have "(\<exists>p\<in>#tw_pending w. fst p = j + r) \<or> 256 dvd j + r"
  proof (cases "r < b")
    case True
    with r(3) obtain n where n: "n \<in> set (tw_tv1 w ! ((j + r) mod 256))" by (metis last_in_set)
    have "tv_ok TV1 w" using wf by (simp add: tw_wf_def)
    then have "slot_ok TV1 j ((j + r) mod 256) (unat (tn_expires n))"
      using n by (simp add: tv_ok_def j_def del: slot_ok.simps)
    then have "max j (unat (tn_expires n)) = j + r" by (rule slot_ok_due) (use True b in simp)
    moreover have "n \<in># tw_all w"
      using n len nth_mem [of "(j + r) mod 256" "tw_tv1 w"] by (auto simp: in_tw_all ex_level)
    ultimately show ?thesis by (auto simp: tw_pending_def tw_due_def j_def)
  next
    case False
    with r(1) b(1) show ?thesis by simp
  qed
  moreover have "r < 256" using r b by simp
  ultimately show ?thesis
    using early by (auto simp: tw_pending_def tw_due_def simp flip: j_def r_def)
qed


section \<open>One round of the thread\<close>

text \<open>What the wheel holds when the round starts, requests included, with the tick each is due at.\<close>

definition tw_load :: "('c, 'u) tw_ctx \<Rightarrow> (nat \<times> ('c \<times> 'u)) multiset" where
  "tw_load w = tw_pending w +
     mset (map (\<lambda>n. (tw_deadline (unat (tw_jiffies w)) (unat (tn_expires n)), (tn_cb n, tn_ud n)))
       (tw_reqadd w))"

lemma tw_round_runs:
  assumes wf: "tw_wf w" and t: "tw_time_ok 0 w" and n: "unat now1 + UINT32_MAX + 2 < 2 ^ 64"
  obtains out sleep w' where "tw_round now1 now2 w = Some (out, sleep, w')" "tw_wf w'"
    "tw_time_ok 0 w'" "tw_reqadd w' = []"
    "unat (tw_jiffies w') = max (unat (tw_jiffies w)) (unat now1 + 1)"
    "mset out = image_mset snd (filter_mset (\<lambda>p. fst p \<le> unat now1) (tw_load w))"
    "tw_pending w' = filter_mset (\<lambda>p. unat now1 < fst p) (tw_load w)"
proof -
  define v where "v = snd (tw_insert_all w)"
  have v: "tw_wf v" "tw_jiffies v = tw_jiffies w" "tw_reqadd v = []" "tw_pending v = tw_load w"
    using tw_insert_all_ok [OF wf t] by (simp_all add: v_def tw_load_def)
  have tv: "tw_time_ok 0 v" using t v(2) by (simp add: tw_time_ok_def)
  obtain out w' where c: "tw_catch_up now1 v = Some (out, w')" "tw_wf w'" "tw_reqadd w' = []"
    "unat (tw_jiffies w') = max (unat (tw_jiffies w)) (unat now1 + 1)"
    "mset out = image_mset snd (filter_mset (\<lambda>p. fst p \<le> unat now1) (tw_load w))"
    "tw_pending w' = filter_mset (\<lambda>p. unat now1 < fst p) (tw_load w)"
    using tw_catch_up_ok [OF v(1) n tv] v by auto
  have "\<exists>sleep. tw_round now1 now2 w = Some (out, sleep, w')"
    using c(1) by (simp add: tw_round_def Let_def flip: v_def)
  then obtain sleep where "tw_round now1 now2 w = Some (out, sleep, w')" ..
  moreover have "tw_time_ok 0 w'" using t n c(4) by (simp add: tw_time_ok_def)
  ultimately show thesis using that c by blast
qed

lemma tw_round_sleeps:
  assumes r: "tw_round now1 now2 w = Some (out, Some ms, w')" and wf: "tw_wf w'" and t: "tw_time_ok 0 w'"
    and p: "p \<in># tw_pending w'"
  shows "unat (if tw_jiffies w \<le> now1 then now2 else now1) + unat ms \<le> fst p"
proof -
  define cur where "cur = (if tw_jiffies w \<le> now1 then now2 else now1)"
  define wake where "wake = tw_jiffies w' + ucast (tw_next_delta w')"
  have lt: "cur < wake" and ms: "ms = ucast (wake - cur)"
    using r by (auto simp: tw_round_def Let_def cur_def wake_def not_le split: if_splits bind_splits)
  note d = tw_next_delta_ok [OF wf t]
  have "unat (ucast (tw_next_delta w') :: u64) = unat (tw_next_delta w')"
    using d by (simp add: unsigned_ucast_eq take_bit_nat_eq_self)
  then have wk: "unat wake = unat (tw_jiffies w') + unat (tw_next_delta w')"
    unfolding wake_def using t d by (subst unat_plus_small) (auto simp: tw_time_ok_def)
  have "unat ms \<le> unat (wake - cur)"
    unfolding ms by (simp add: unsigned_ucast_eq take_bit_nat_less_eq_self)
  also have "\<dots> = unat wake - unat cur" using lt by (simp add: unat_minus_le)
  finally have "unat cur + unat ms \<le> unat wake" using lt by (simp add: word_less_nat_alt)
  also have "\<dots> \<le> fst p" using d p wk by simp
  finally show ?thesis by (simp add: cur_def)
qed

text \<open>
  C13: One round of the timer thread runs exactly the callbacks, pending or newly requested, that are
  due by its clock reading, and keeps all others; if it then goes to sleep, it wakes up before
  any of these is due.
\<close>

theorem tw_round_correct:
  assumes "tw_wf w" "tw_time_ok 0 w" "unat now1 + UINT32_MAX + 2 < 2 ^ 64"
  shows "\<exists>out sleep w'. tw_round now1 now2 w = Some (out, sleep, w') \<and> tw_wf w' \<and>
    tw_reqadd w' = [] \<and> unat (tw_jiffies w') = max (unat (tw_jiffies w)) (unat now1 + 1) \<and>
    mset out = image_mset snd (filter_mset (\<lambda>p. fst p \<le> unat now1) (tw_load w)) \<and>
    tw_pending w' = filter_mset (\<lambda>p. unat now1 < fst p) (tw_load w) \<and>
    (\<forall>ms. sleep = Some ms \<longrightarrow> (\<forall>p\<in>#tw_pending w'.
       unat (if tw_jiffies w \<le> now1 then now2 else now1) + unat ms \<le> fst p))"
  using tw_round_runs [OF assms, of now2] tw_round_sleeps [of now1 now2 w] by metis

section \<open>Start and release\<close>

text \<open>The state when the thread starts: \<open>tw_init\<close> and the first statement of \<open>_tw_loop\<close>.\<close>

definition tw_start :: "u64 \<Rightarrow> ('c, 'u) tw_ctx" where
  "tw_start now = tw_init\<lparr>tw_jiffies := now\<rparr>"

lemma tw_wf_start [simp]: "tw_wf (tw_start now :: ('c, 'u) tw_ctx)"
proof -
  have "tv_get lv (tw_start now :: ('c, 'u) tw_ctx) = replicate (tv_len lv) []" for lv
    by (cases lv) (simp_all add: tw_start_def tw_init_def)
  then show ?thesis by (simp add: tw_wf_def tv_ok_def)
qed

lemma tw_wf_add [simp]: "tw_wf (snd (tw_add now timeout cb freecb ud w)) = tw_wf w"
  by (simp add: tw_add_def tw_wf_def tv_ok_def)

lemma tw_jiffies_add [simp]: "tw_jiffies (snd (tw_add now timeout cb freecb ud w)) = tw_jiffies w"
  by (simp add: tw_add_def)

lemma tw_all_start [simp]: "tw_all (tw_start now) = {#}"
  by (simp add: tw_all_def tw_start_def tw_init_def concat_eq_Nil_conv)

lemma tw_start_simps [simp]: "tw_jiffies (tw_start now) = now" "tw_reqadd (tw_start now) = []"
  by (simp_all add: tw_start_def tw_init_def)

lemma tw_load_start_add:
  "timeout \<noteq> 0 \<Longrightarrow> tw_load (snd (tw_add now timeout cb freecb ud (tw_start j))) =
     {#(tw_deadline (unat j) (unat (now + ucast timeout)), (cb, ud))#}"
  by (simp add: tw_load_def tw_pending_def tw_add_def tw_all_def tw_start_def tw_init_def)

theorem tw_round_correct_witness:
  "\<exists>out sleep w'. tw_round 1005 1005 (snd (tw_add 1000 5 ''cb'' None ''ud'' (tw_start 1000))) =
     Some (out, sleep, w') \<and> mset out = {#(''cb'', ''ud'')#} \<and> tw_pending w' = {#}"
proof -
  let ?w = "snd (tw_add 1000 5 ''cb'' None ''ud'' (tw_start 1000))"
  have "tw_wf ?w" by simp
  moreover have "tw_time_ok 0 ?w" by (simp add: tw_time_ok_def)
  moreover have "unat (1005 :: u64) + UINT32_MAX + 2 < 2 ^ 64" by simp
  ultimately have "\<exists>out sleep w'. tw_round 1005 1005 ?w = Some (out, sleep, w') \<and> tw_wf w' \<and>
    tw_reqadd w' = [] \<and> unat (tw_jiffies w') = max (unat (tw_jiffies ?w)) (unat (1005 :: u64) + 1) \<and>
    mset out = image_mset snd (filter_mset (\<lambda>p. fst p \<le> unat (1005 :: u64)) (tw_load ?w)) \<and>
    tw_pending w' = filter_mset (\<lambda>p. unat (1005 :: u64) < fst p) (tw_load ?w) \<and>
    (\<forall>ms. sleep = Some ms \<longrightarrow> (\<forall>p\<in>#tw_pending w'.
       unat (if tw_jiffies ?w \<le> 1005 then 1005 else (1005 :: u64)) + unat ms \<le> fst p))"
    by (rule tw_round_correct)
  then show ?thesis by (auto simp: tw_load_start_add tw_deadline_def)
qed

text \<open>
  Freeing the wheel calls the release callback of every timer it still holds, queued requests
  included, exactly once, and no other.
\<close>

theorem tw_free_releases:
  "mset (tw_free w) = image_mset (\<lambda>n. (the (tn_freecb n), tn_ud n))
     (filter_mset (\<lambda>n. tn_freecb n \<noteq> None) (tw_all w + mset (tw_reqadd w)))"
proof -
  have node: "mset (concat (map tw_node_free ns)) =
      image_mset (\<lambda>n. (the (tn_freecb n), tn_ud n)) (filter_mset (\<lambda>n. tn_freecb n \<noteq> None) (mset ns))"
    for ns :: "('a, 'b) tw_node_ctx list"
    by (induction ns) (auto simp: tw_node_free_def split: option.splits)
  have slots: "mset (tw_free_slot t) = image_mset (\<lambda>n. (the (tn_freecb n), tn_ud n))
      (filter_mset (\<lambda>n. tn_freecb n \<noteq> None) (mset (concat t)))"
    for t :: "('a, 'b) tw_node_ctx list list"
    by (induction t) (simp_all add: tw_free_slot_def node del: mset_concat)
  show ?thesis
    by (simp add: tw_free_def tw_all_def slots node)
qed

section \<open>Whole histories\<close>

text \<open>What other threads and the timer thread do, in the order it takes effect.\<close>

datatype ('c, 'u) tw_event = Add u64 u32 'c "'c option" 'u | Round u64 u64

fun tw_history :: "('c, 'u) tw_event list \<Rightarrow> ('c, 'u) tw_ctx \<Rightarrow>
    (('c \<times> 'u) list \<times> ('c, 'u) tw_ctx) option" where
  "tw_history [] w = Some ([], w)"
| "tw_history (Add now timeout cb freecb ud # es) w =
     (case tw_add now timeout cb freecb ud w of (out, w) \<Rightarrow>
        map_option (\<lambda>(outs, w). (out @ outs, w)) (tw_history es w))"
| "tw_history (Round now1 now2 # es) w =
     Option.bind (tw_round now1 now2 w) (\<lambda>(out, sleep, w).
        map_option (\<lambda>(outs, w). (out @ outs, w)) (tw_history es w))"

fun tw_added :: "('c, 'u) tw_event list \<Rightarrow> ('c \<times> 'u) list" where
  "tw_added [] = []"
| "tw_added (Add now timeout cb freecb ud # es) = (cb, ud) # tw_added es"
| "tw_added (Round now1 now2 # es) = tw_added es"

fun tw_clock_ok :: "('c, 'u) tw_event \<Rightarrow> bool" where
  "tw_clock_ok (Add now timeout cb freecb ud) = True"
| "tw_clock_ok (Round now1 now2) = (unat now1 + UINT32_MAX + 2 < 2 ^ 64)"

definition tw_held :: "('c, 'u) tw_ctx \<Rightarrow> ('c \<times> 'u) multiset" where
  "tw_held w = image_mset (\<lambda>n. (tn_cb n, tn_ud n)) (tw_all w + mset (tw_reqadd w))"

lemma tw_held_load: "tw_held w = image_mset snd (tw_load w)"
  by (simp add: tw_held_def tw_load_def tw_pending_def tw_due_def image_mset.compositionality comp_def)

lemma tw_held_add:
  "mset (fst (tw_add now timeout cb freecb ud w)) + tw_held (snd (tw_add now timeout cb freecb ud w)) =
    tw_held w + {#(cb, ud)#}"
  by (simp add: tw_add_def tw_held_def tw_all_def)

lemma tw_round_held:
  assumes "tw_wf w" "tw_time_ok 0 w" "unat now1 + UINT32_MAX + 2 < 2 ^ 64"
  obtains out sleep w' where "tw_round now1 now2 w = Some (out, sleep, w')" "tw_wf w'" "tw_time_ok 0 w'"
    "mset out + tw_held w' = tw_held w"
proof (rule tw_round_runs [OF assms, of now2])
  fix out sleep w'
  assume r: "tw_round now1 now2 w = Some (out, sleep, w')" "tw_wf w'" "tw_time_ok 0 w'" "tw_reqadd w' = []"
    and out: "mset out = image_mset snd (filter_mset (\<lambda>p. fst p \<le> unat now1) (tw_load w))"
      "tw_pending w' = filter_mset (\<lambda>p. unat now1 < fst p) (tw_load w)"
  have "tw_load w' = tw_pending w'" using r(4) by (simp add: tw_load_def)
  then have "tw_load w = filter_mset (\<lambda>p. fst p \<le> unat now1) (tw_load w) + tw_load w'"
    unfolding out(2) using multiset_partition [of "tw_load w" "\<lambda>p. fst p \<le> unat now1"]
    by (simp add: not_le)
  then have "mset out + tw_held w' = tw_held w"
    unfolding tw_held_load out(1) by (metis image_mset_union)
  with r that show thesis by blast
qed

text \<open>
  C23: Over any history of \<open>tw_add\<close> calls and rounds of the thread, every callback added has either
  run exactly once or is still held by the wheel, exactly once.
\<close>

theorem tw_exactly_once:
  assumes "tw_wf w" "tw_time_ok 0 w" "\<forall>e\<in>set es. tw_clock_ok e"
  shows "\<exists>outs w'. tw_history es w = Some (outs, w') \<and> tw_wf w' \<and> tw_time_ok 0 w' \<and>
    mset outs + tw_held w' = tw_held w + mset (tw_added es)"
  using assms
proof (induction es arbitrary: w)
  case Nil
  then show ?case by simp
next
  case (Cons e es)
  show ?case
  proof (cases e)
    case (Add now timeout cb freecb ud)
    obtain o1 w1 where a: "tw_add now timeout cb freecb ud w = (o1, w1)" by fastforce
    have "tw_wf w1" "tw_time_ok 0 w1"
      using Cons.prems tw_wf_add [of now timeout cb freecb ud w] tw_jiffies_add [of now timeout cb freecb ud w]
      by (simp_all add: a tw_time_ok_def)
    with Cons.IH [of w1] Cons.prems(3) obtain o2 w2 where ih: "tw_history es w1 = Some (o2, w2)"
      "tw_wf w2" "tw_time_ok 0 w2" "mset o2 + tw_held w2 = tw_held w1 + mset (tw_added es)" by auto
    have "mset o1 + tw_held w1 = tw_held w + {#(cb, ud)#}"
      using tw_held_add [of now timeout cb freecb ud w] by (simp add: a)
    with ih a Add show ?thesis by (simp add: union_assoc)
  next
    case (Round now1 now2)
    with Cons.prems have n: "unat now1 + UINT32_MAX + 2 < 2 ^ 64" by simp
    obtain o1 sleep w1 where r: "tw_round now1 now2 w = Some (o1, sleep, w1)" "tw_wf w1" "tw_time_ok 0 w1"
      "mset o1 + tw_held w1 = tw_held w"
      by (rule tw_round_held [OF Cons.prems(1,2) n])
    from Cons.IH [OF r(2,3)] Cons.prems(3) obtain o2 w2 where ih: "tw_history es w1 = Some (o2, w2)"
      "tw_wf w2" "tw_time_ok 0 w2" "mset o2 + tw_held w2 = tw_held w1 + mset (tw_added es)" by auto
    have "mset (o1 @ o2) + tw_held w2 = tw_held w + mset (tw_added es)"
      using ih(4) r(4) by (metis mset_append union_assoc)
    with r(1) ih Round show ?thesis by simp
  qed
qed


theorem tw_exactly_once_witness:
  "\<exists>outs w'. tw_history [Add 1000 5 ''a'' None ''x'', Add 1000 0 ''b'' None ''y'', Round 1001 1002]
       (tw_start 1000) = Some (outs, w') \<and>
     mset outs + tw_held w' = {#(''a'', ''x''), (''b'', ''y'')#}"
proof -
  let ?es = "[Add 1000 5 ''a'' None ''x'', Add 1000 0 ''b'' None ''y'', Round 1001 1002]"
  have "\<exists>outs w'. tw_history ?es (tw_start 1000) = Some (outs, w') \<and> tw_wf w' \<and> tw_time_ok 0 w' \<and>
      mset outs + tw_held w' = tw_held (tw_start 1000) + mset (tw_added ?es)"
    by (rule tw_exactly_once) (simp_all add: tw_time_ok_def)
  then show ?thesis by (auto simp: tw_held_def)
qed

end
