(* ===== verification/Loader.thy ===== *)
theory Loader
  imports Prelude
begin

text \<open>
  Models the scheduling decisions of \<open>lib/srey/loader.c\<close>: which worker a task is handed to, how
  many messages of a task one round consumes, from which queue an idle worker takes or steals its
  next task, and what the monitor reports. The atomics are read and written in program order; the
  interleaving of the threads is the subject of \<open>Task_Life\<close>. A worker's task queue
  (\<open>FSQU_DECL\<close>) is the list of the published tasks together with the number of slots producers
  have taken and not yet published.
\<close>

section \<open>State\<close>

datatype waiter_state = WAITER_AWAKE | WAITER_SLEEP | WAITER_LINGER | WAITER_WAKING

record 't taskq =
  tq_items :: "'t list"
  tq_unpub :: nat

record 't worker_ctx =
  w_weight :: int
  w_spinning :: u32
  w_state :: waiter_state
  w_qutasks :: "'t taskq"

text \<open>\<open>nworker\<close> is the width-16 count of the workers; the model keeps it as the list's length.\<close>

record 't loader_ctx =
  l_nworker :: u16
  l_index :: u64
  l_worker :: "'t worker_ctx list"

section \<open>Choosing a worker\<close>

definition loader_ring_next :: "u16 \<Rightarrow> u16 \<Rightarrow> u16 \<Rightarrow> u32" where
  "loader_ring_next start k n =
     (let i = ucast start + ucast k in if ucast n \<le> i then i - ucast n else i)"

text \<open>The loop over \<open>i\<close>, with the numbers still to come as a list.\<close>

fun pick_scan :: "'t loader_ctx \<Rightarrow> u16 \<Rightarrow> u16 \<Rightarrow> u16 list \<Rightarrow> u16" where
  "pick_scan l start hit [] = (if l_nworker l = hit then start else hit)"
| "pick_scan l start hit (i # is) =
     (let idx = ucast (loader_ring_next start i (l_nworker l)); w = l_worker l ! unat idx
      in if 0 < w_spinning w then idx
         else if l_nworker l = hit \<and> w_state w \<noteq> WAITER_AWAKE then pick_scan l start idx is
         else pick_scan l start hit is)"

definition loader_pick_worker :: "'t loader_ctx \<Rightarrow> u16 \<times> 't loader_ctx" where
  "loader_pick_worker l =
     (if l_nworker l = 1 then (0, l)
      else (let start = ucast (l_index l mod ucast (l_nworker l))
            in (pick_scan l start (l_nworker l) (map of_nat [0..<unat (l_nworker l)]),
                l\<lparr>l_index := l_index l + 1\<rparr>)))"

text \<open>\<open>_loader_worker_wakeup\<close>: the queue gets the task; the flag says whether the worker is woken.\<close>

definition loader_worker_wakeup :: "'t loader_ctx \<Rightarrow> 't \<Rightarrow> bool \<times> 't loader_ctx" where
  "loader_worker_wakeup l task =
     (case loader_pick_worker l of (i, l) \<Rightarrow>
        let w = l_worker l ! unat i;
            w = w\<lparr>w_qutasks := (w_qutasks w)\<lparr>tq_items := tq_items (w_qutasks w) @ [task]\<rparr>\<rparr>;
            wake = (w_state w = WAITER_SLEEP);
            w = (if wake then w\<lparr>w_state := WAITER_WAKING\<rparr> else w)
        in (wake, l\<lparr>l_worker := (l_worker l)[unat i := w]\<rparr>))"

section \<open>How much one round consumes\<close>

definition loader_msg_quota :: "int \<Rightarrow> u32 \<Rightarrow> u32 \<Rightarrow> u32" where
  "loader_msg_quota weight prio lens =
     (let n_base = (if 0 \<le> weight then drop_bit (nat weight) lens else 1);
          n = (if prio = 0 then n_base
               else n_base + ucast (drop_bit 3 ((ucast n_base :: u64) * ucast prio)));
          n = (if lens < n then lens else n)
      in if n = 0 then 1 else n)"

definition TASK_PRIORITY_MAX :: int where "TASK_PRIORITY_MAX = 16"

definition task_set_priority :: "int \<Rightarrow> u32" where
  "task_set_priority priority =
     (let p = priority;
          p = (if p < 0 then 0 else if TASK_PRIORITY_MAX < p then TASK_PRIORITY_MAX else p)
      in word_of_int p)"

text \<open>The weight the \<open>i\<close>-th worker gets from \<open>loader_init\<close>.\<close>

definition loader_weights :: "int list" where
  "loader_weights =
     [3, 1, 2, -1, 0, 0, 0, 0, 1, 1, 1, 1, 2, 2, 2, 2, 3, 3, 3, 3, 1, 1, 1, 1, 2, 2, 2, 2, 3, 3, 3, 3]"

definition loader_worker_init :: "nat \<Rightarrow> 't worker_ctx" where
  "loader_worker_init i = \<lparr>w_weight = loader_weights ! (i mod 32), w_spinning = 0,
     w_state = WAITER_AWAKE, w_qutasks = \<lparr>tq_items = [], tq_unpub = 0\<rparr>\<rparr>"

definition loader_init :: "u16 \<Rightarrow> u16 \<Rightarrow> 't loader_ctx" where
  "loader_init nworker procs =
     (let n = (if nworker = 0 then procs else nworker)
      in \<lparr>l_nworker = n, l_index = 0, l_worker = map loader_worker_init [0..<unat n]\<rparr>)"

section \<open>Taking and stealing\<close>

datatype taskq_rtn = TQ_OK | TQ_INFLIGHT | TQ_FAILED

definition taskq_pop :: "'t taskq \<Rightarrow> taskq_rtn \<times> 't option \<times> 't taskq" where
  "taskq_pop q =
     (case tq_items q of
        t # ts \<Rightarrow> (TQ_OK, Some t, q\<lparr>tq_items := ts\<rparr>)
      | [] \<Rightarrow> (if 0 < tq_unpub q then TQ_INFLIGHT else TQ_FAILED, None, q))"

definition taskq_size_fast :: "'t taskq \<Rightarrow> u32" where
  "taskq_size_fast q = of_nat (length (tq_items q) + tq_unpub q)"

fun max_scan :: "'t loader_ctx \<Rightarrow> u16 \<Rightarrow> u16 \<Rightarrow> u16 \<times> u32 \<Rightarrow> u16 list \<Rightarrow> u16 \<times> u32" where
  "max_scan l start exclude (index, mx) [] = (index, mx)"
| "max_scan l start exclude (index, mx) (k # ks) =
     (let i = ucast (loader_ring_next start k (l_nworker l))
      in if i = exclude then max_scan l start exclude (index, mx) ks
         else (let count = taskq_size_fast (w_qutasks (l_worker l ! unat i))
               in if mx < count then max_scan l start exclude (i, count) ks
                  else max_scan l start exclude (index, mx) ks))"

definition loader_max_task_index :: "'t loader_ctx \<Rightarrow> u16 \<Rightarrow> int" where
  "loader_max_task_index l exclude =
     (let start = ucast ((ucast exclude + 1 :: u32) mod ucast (l_nworker l));
          (index, mx) = max_scan l start exclude (0, 0) (map of_nat [0..<unat (l_nworker l)])
      in if mx = 0 then -1 else uint index)"

definition queue_put :: "'t loader_ctx \<Rightarrow> nat \<Rightarrow> 't taskq \<Rightarrow> 't loader_ctx" where
  "queue_put l i q = l\<lparr>l_worker := (l_worker l)[i := (l_worker l ! i)\<lparr>w_qutasks := q\<rparr>]\<rparr>"

text \<open>\<open>_loader_task_get\<close> for worker \<open>me\<close>: the task, the \<open>inflight\<close> flag, the new state.\<close>

definition loader_task_get :: "'t loader_ctx \<Rightarrow> u16 \<Rightarrow> 't option \<times> bool \<times> 't loader_ctx" where
  "loader_task_get l me =
     (case taskq_pop (w_qutasks (l_worker l ! unat me)) of
        (rtn, task, q) \<Rightarrow>
          if rtn = TQ_OK then (task, False, queue_put l (unat me) q)
          else (let inflight = (rtn = TQ_INFLIGHT); index = loader_max_task_index l me
                in if index = -1 then (None, inflight, l)
                   else (case taskq_pop (w_qutasks (l_worker l ! nat index)) of
                           (rtn, task, q) \<Rightarrow>
                             if rtn = TQ_OK then (task, False, queue_put l (nat index) q)
                             else (None, inflight \<or> rtn = TQ_INFLIGHT, l))))"

section \<open>The monitor\<close>

record worker_version =
  v_ckver :: u32
  v_msgtype :: u32
  v_ver :: u32
  v_handle :: u64

text \<open>One slot: the new slot and the handle reported as stuck.\<close>

definition monitor_slot :: "worker_version \<Rightarrow> worker_version \<times> u64 option" where
  "monitor_slot v =
     (if v_ckver v = v_ver v \<and> v_msgtype v \<noteq> 0 then (v, Some (v_handle v))
      else (v\<lparr>v_ckver := v_ver v\<rparr>, None))"

definition loader_monitor_check :: "worker_version list \<Rightarrow> worker_version list \<times> u64 list" where
  "loader_monitor_check vs = (map (fst \<circ> monitor_slot) vs, List.map_filter (snd \<circ> monitor_slot) vs)"

definition dispatch_start :: "u32 \<Rightarrow> worker_version \<Rightarrow> worker_version" where
  "dispatch_start mtype v = v\<lparr>v_ver := v_ver v + 1, v_msgtype := mtype\<rparr>"

section \<open>Lemmas\<close>

definition loader_wf :: "'t loader_ctx \<Rightarrow> bool" where
  "loader_wf l \<longleftrightarrow> 0 < l_nworker l \<and> length (l_worker l) = unat (l_nworker l)"

lemma loader_init_wf: "0 < procs \<Longrightarrow> loader_wf (loader_init nworker procs)"
  by (auto simp: loader_wf_def loader_init_def Let_def word_neq_0_conv)

text \<open>The index walks the ring: no 16 bit wrap-around, whatever the number of workers.\<close>

lemma ring_next:
  assumes "start < n" "k < n"
  shows "unat (loader_ring_next start k n) = (unat start + unat k) mod unat n"
    "unat (ucast (loader_ring_next start k n) :: u16) = (unat start + unat k) mod unat n"
proof -
  have b: "unat start < unat n" "unat k < unat n" "unat n < 65536"
    using assms unat_less [of n] by (auto simp: word_less_nat_alt)
  have u: "unat (ucast x :: u32) = unat x" for x :: u16
    by (simp add: unat_ucast_up)
  have s: "unat (ucast start + ucast k :: u32) = unat start + unat k"
    using b by (subst unat_plus_small) (auto simp: u)
  have "unat (loader_ring_next start k n) =
      (if unat n \<le> unat start + unat k then unat start + unat k - unat n else unat start + unat k)"
    by (auto simp: loader_ring_next_def Let_def word_le_nat_alt s u unat_minus_le)
  also have "\<dots> = (unat start + unat k) mod unat n"
  proof (cases "unat n \<le> unat start + unat k")
    case True
    moreover have "unat start + unat k - unat n < unat n" using b by linarith
    ultimately show ?thesis by (simp only: if_True le_mod_geq mod_less)
  qed simp
  finally show r: "unat (loader_ring_next start k n) = (unat start + unat k) mod unat n" .
  have "0 < unat n" using b by linarith
  then have "(unat start + unat k) mod unat n < unat n" by (rule mod_less_divisor)
  with b(3) have "(unat start + unat k) mod unat n < 2 ^ LENGTH(16)" by (simp add: order.strict_trans)
  then show "unat (ucast (loader_ring_next start k n) :: u16) = (unat start + unat k) mod unat n"
    by (simp add: unat_ucast_fits r)
qed


text \<open>The workers in the order the scan visits them.\<close>

definition ring_order :: "'t loader_ctx \<Rightarrow> u16 \<Rightarrow> nat list" where
  "ring_order l start = map (\<lambda>k. (unat start + k) mod unat (l_nworker l)) [0..<unat (l_nworker l)]"

text \<open>What the scan is for: the first spinning worker, else the first that is not awake, else the start.\<close>

definition pick_spec :: "'t loader_ctx \<Rightarrow> nat \<Rightarrow> nat list \<Rightarrow> nat" where
  "pick_spec l start order =
     (case List.find (\<lambda>i. 0 < w_spinning (l_worker l ! i)) order of
        Some i \<Rightarrow> i
      | None \<Rightarrow> (case List.find (\<lambda>i. w_state (l_worker l ! i) \<noteq> WAITER_AWAKE) order of
                  Some i \<Rightarrow> i | None \<Rightarrow> start))"

lemma pick_scan_ok:
  assumes "\<forall>k\<in>set ks. k < l_nworker l" "start < l_nworker l" "hit \<le> l_nworker l"
  shows "unat (pick_scan l start hit ks) =
    (let order = map (\<lambda>k. (unat start + unat k) mod unat (l_nworker l)) ks
     in case List.find (\<lambda>i. 0 < w_spinning (l_worker l ! i)) order of
          Some i \<Rightarrow> i
        | None \<Rightarrow> if hit \<noteq> l_nworker l then unat hit
                  else (case List.find (\<lambda>i. w_state (l_worker l ! i) \<noteq> WAITER_AWAKE) order of
                          Some i \<Rightarrow> i | None \<Rightarrow> unat start))"
  using assms
proof (induction ks arbitrary: hit)
  case Nil
  then show ?case by simp
next
  case (Cons k ks)
  let ?i = "(unat start + unat k) mod unat (l_nworker l)"
  have k: "k < l_nworker l" using Cons.prems(1) by simp
  have u: "unat (ucast (loader_ring_next start k (l_nworker l)) :: u16) = ?i"
    using ring_next(2) [OF Cons.prems(2) k] .
  have "0 < unat (l_nworker l)" using k by (simp add: word_less_nat_alt)
  then have lt: "?i < unat (l_nworker l)" by simp
  then have ne: "ucast (loader_ring_next start k (l_nworker l)) < l_nworker l"
    by (simp only: word_less_nat_alt u)
  show ?case
    using Cons.IH [of hit] Cons.IH [of "ucast (loader_ring_next start k (l_nworker l))"] Cons.prems u ne
    by (auto simp: Let_def less_imp_neq split: option.split)
qed

lemma map_of_nat_u16:
  fixes n :: u16
  shows "\<forall>k\<in>set (map of_nat [0..<unat n]). k < n"
    "map unat (map of_nat [0..<unat n] :: u16 list) = [0..<unat n]"
proof -
  have *: "unat (of_nat k :: u16) = k" if "k < unat n" for k
    using that unat_less [of n] by (simp add: unat_of_nat take_bit_nat_eq_self)
  then show "\<forall>k\<in>set (map of_nat [0..<unat n]). k < n" by (auto simp: word_less_nat_alt)
  show "map unat (map of_nat [0..<unat n] :: u16 list) = [0..<unat n]"
    by (rule nth_equalityI) (simp_all add: *)
qed

lemma start_index:
  fixes n :: u16 and x :: "'b::len word"
  assumes "0 < n" "16 \<le> LENGTH('b)"
  shows "unat (ucast (x mod ucast n) :: u16) = unat x mod unat n"
    "(ucast (x mod ucast n) :: u16) < n"
proof -
  have m: "unat (x mod ucast n) = unat x mod unat n" using assms(2) by (simp add: unat_mod_distrib unat_ucast_up)
  have "0 < unat n" using assms(1) by (simp add: word_less_nat_alt)
  then have lt: "unat x mod unat n < unat n" by simp
  with unat_less [of n] show u: "unat (ucast (x mod ucast n) :: u16) = unat x mod unat n"
    by (subst unat_ucast_fits) (simp_all add: m order.strict_trans)
  from lt show "(ucast (x mod ucast n) :: u16) < n" by (simp only: word_less_nat_alt u)
qed

text \<open>The choice, for any number of workers.\<close>

lemma loader_pick_worker_ok:
  assumes wf: "loader_wf l" and n: "l_nworker l \<noteq> 1"
  defines "start \<equiv> ucast (l_index l mod ucast (l_nworker l)) :: u16"
  shows "unat (fst (loader_pick_worker l)) = pick_spec l (unat start) (ring_order l start)"
proof -
  have n0: "0 < l_nworker l" using wf by (simp add: loader_wf_def)
  let ?ks = "map of_nat [0..<unat (l_nworker l)] :: u16 list"
  have "map (\<lambda>k. (unat start + unat k) mod unat (l_nworker l)) ?ks =
      map (\<lambda>k. (unat start + k) mod unat (l_nworker l)) (map unat ?ks)"
    by (simp add: comp_def)
  then have order: "map (\<lambda>k. (unat start + unat k) mod unat (l_nworker l)) ?ks = ring_order l start"
    unfolding map_of_nat_u16(2) by (simp add: ring_order_def)
  have "fst (loader_pick_worker l) = pick_scan l start (l_nworker l) ?ks"
    using n by (simp add: loader_pick_worker_def start_def Let_def)
  moreover have "start < l_nworker l" using start_index(2) [OF n0, of "l_index l"] by (simp add: start_def)
  ultimately show ?thesis
    using pick_scan_ok [OF map_of_nat_u16(1), of start l "l_nworker l", unfolded order Let_def]
    by (simp only: pick_spec_def order_refl simp_thms if_False)
qed

lemma pick_spec_in:
  assumes "start \<in> set order"
  shows "pick_spec l start order \<in> set order"
  using assms by (auto simp: pick_spec_def find_Some_iff split: option.split)

lemma ring_order_set:
  assumes "0 < l_nworker l"
  shows "set (ring_order l start) = {0..<unat (l_nworker l)}"
proof -
  define n where "n = unat (l_nworker l)"
  have n: "0 < n" using assms by (simp add: n_def word_less_nat_alt)
  have "m \<in> (\<lambda>k. (unat start + k) mod n) ` {0..<n}" if "m < n" for m
  proof (rule image_eqI)
    let ?k = "(m + (n - unat start mod n)) mod n"
    have "(unat start + ?k) mod n = (unat start mod n + (m + (n - unat start mod n))) mod n"
      by (simp add: mod_simps)
    also have "unat start mod n + (m + (n - unat start mod n)) = m + n"
      using mod_less_divisor [OF n, of "unat start"] by linarith
    finally show "m = (unat start + ?k) mod n" using that by simp
    show "?k \<in> {0..<n}" using n by simp
  qed
  with n show ?thesis by (auto simp: ring_order_def n_def)
qed


text \<open>
  A task is handed to an existing worker: to one that is spinning if there is any, else to one
  that is not awake if there is any.
\<close>

theorem loader_pick_worker_correct:
  assumes "loader_wf l" "l_nworker l \<noteq> 1"
  defines "i \<equiv> unat (fst (loader_pick_worker l))"
  shows "i < length (l_worker l) \<and>
    ((\<exists>w\<in>set (l_worker l). 0 < w_spinning w) \<longrightarrow> 0 < w_spinning (l_worker l ! i)) \<and>
    ((\<exists>w\<in>set (l_worker l). w_state w \<noteq> WAITER_AWAKE) \<longrightarrow>
       0 < w_spinning (l_worker l ! i) \<or> w_state (l_worker l ! i) \<noteq> WAITER_AWAKE)"
proof -
  define start where "start = (ucast (l_index l mod ucast (l_nworker l)) :: u16)"
  let ?o = "ring_order l start"
  have n0: "0 < l_nworker l" and len: "length (l_worker l) = unat (l_nworker l)"
    using assms(1) by (simp_all add: loader_wf_def)
  have o: "set ?o = {0..<length (l_worker l)}" using ring_order_set [OF n0] len by simp
  have i: "i = pick_spec l (unat start) ?o"
    unfolding i_def start_def by (rule loader_pick_worker_ok [OF assms(1,2)])
  have "unat start < unat (l_nworker l)"
    using start_index(2) [OF n0, of "l_index l"] by (simp add: start_def word_less_nat_alt)
  then have "unat start \<in> set ?o" using o len by simp
  then have "i < length (l_worker l)" using pick_spec_in [of "unat start" ?o l] o i by simp
  moreover have "List.find P ?o = None \<longleftrightarrow> (\<forall>j<length (l_worker l). \<not> P j)" for P
    using o by (auto simp: find_None_iff)
  ultimately show ?thesis unfolding i
    by (auto simp: pick_spec_def find_Some_iff in_set_conv_nth split: option.splits)
qed

subsection \<open>Stealing\<close>

abbreviation w_queue :: "'t loader_ctx \<Rightarrow> nat \<Rightarrow> 't taskq" where
  "w_queue l i \<equiv> w_qutasks (l_worker l ! i)"

definition tq_size :: "'t taskq \<Rightarrow> nat" where
  "tq_size q = length (tq_items q) + tq_unpub q"

text \<open>The counters of the queues have 32 bits.\<close>

definition queues_ok :: "'t loader_ctx \<Rightarrow> bool" where
  "queues_ok l \<longleftrightarrow> (\<forall>w\<in>set (l_worker l). tq_size (w_qutasks w) < 2 ^ 32)"

lemma unat_size_fast:
  assumes "queues_ok l" "i < length (l_worker l)"
  shows "unat (taskq_size_fast (w_queue l i)) = tq_size (w_queue l i)"
  using assms by (simp add: queues_ok_def taskq_size_fast_def tq_size_def unat_of_nat take_bit_nat_eq_self del: of_nat_add)

lemma max_scan_ok:
  assumes "queues_ok l" "loader_wf l" "start < l_nworker l" "\<forall>k\<in>set ks. k < l_nworker l"
    and "mx = 0 \<or> unat i < length (l_worker l) \<and> i \<noteq> ex \<and> tq_size (w_queue l (unat i)) = unat mx"
    and "max_scan l start ex (i, mx) ks = (i', mx')"
  shows "(mx' = 0 \<or> unat i' < length (l_worker l) \<and> i' \<noteq> ex \<and> tq_size (w_queue l (unat i')) = unat mx') \<and>
    mx \<le> mx' \<and> (\<forall>k\<in>set ks. (unat start + unat k) mod unat (l_nworker l) \<noteq> unat ex \<longrightarrow>
       tq_size (w_queue l ((unat start + unat k) mod unat (l_nworker l))) \<le> unat mx')"
  using assms
proof (induction ks arbitrary: i mx)
  case Nil
  then show ?case by simp
next
  case (Cons k ks)
  let ?u = "ucast (loader_ring_next start k (l_nworker l)) :: u16"
  let ?i = "(unat start + unat k) mod unat (l_nworker l)"
  have k: "k < l_nworker l" using Cons.prems(4) by simp
  have u: "unat ?u = ?i" using ring_next(2) [OF Cons.prems(3) k] .
  have "0 < unat (l_nworker l)" using k by (simp add: word_less_nat_alt)
  then have lt: "?i < length (l_worker l)" using Cons.prems(2) by (simp add: loader_wf_def)
  have sz: "unat (taskq_size_fast (w_queue l ?i)) = tq_size (w_queue l ?i)"
    by (rule unat_size_fast [OF Cons.prems(1) lt])
  have ex: "?u = ex \<longleftrightarrow> ?i = unat ex" by (metis u word_unat_eq_iff)
  consider "?u = ex" | "?u \<noteq> ex" "mx < taskq_size_fast (w_queue l ?i)"
    | "?u \<noteq> ex" "\<not> mx < taskq_size_fast (w_queue l ?i)" by blast
  then show ?case
  proof cases
    case 1
    with Cons.IH [OF Cons.prems(1-3), of mx i] Cons.prems(4-6) ex show ?thesis by auto
  next
    case 2
    with Cons.IH [OF Cons.prems(1-3), of "taskq_size_fast (w_queue l ?i)" ?u] Cons.prems(4,6) lt sz u
    show ?thesis by (auto simp: Let_def word_le_nat_alt word_less_nat_alt)
  next
    case 3
    with Cons.IH [OF Cons.prems(1-3), of mx i] Cons.prems(4-6) sz u
    show ?thesis by (auto simp: Let_def word_le_nat_alt not_less)
  qed
qed


text \<open>The queue to steal from: none is longer, except perhaps the worker's own.\<close>

lemma max_task_index_ok:
  assumes "queues_ok l" "loader_wf l" "me < l_nworker l"
  obtains (none) "loader_max_task_index l me = -1"
      "\<forall>j<length (l_worker l). j \<noteq> unat me \<longrightarrow> tq_size (w_queue l j) = 0"
  | (some) i where "loader_max_task_index l me = int i" "i < length (l_worker l)" "i \<noteq> unat me"
      "0 < tq_size (w_queue l i)"
      "\<forall>j<length (l_worker l). j \<noteq> unat me \<longrightarrow> tq_size (w_queue l j) \<le> tq_size (w_queue l i)"
proof -
  define start :: u16 where "start = ucast ((ucast me + 1 :: u32) mod ucast (l_nworker l))"
  let ?ks = "map of_nat [0..<unat (l_nworker l)] :: u16 list"
  obtain i mx where sc: "max_scan l start me (0, 0) ?ks = (i, mx)" by fastforce
  have n0: "0 < l_nworker l" and len: "length (l_worker l) = unat (l_nworker l)"
    using assms(2) by (simp_all add: loader_wf_def)
  have st: "start < l_nworker l"
    using start_index(2) [OF n0, of "ucast me + 1 :: u32"] by (simp add: start_def)
  note k = max_scan_ok [OF assms(1,2) st map_of_nat_u16(1) _ sc]
  have vis: "\<exists>k\<in>set ?ks. (unat start + unat k) mod unat (l_nworker l) = j" if "j < length (l_worker l)" for j
  proof -
    have "j \<in> set (ring_order l start)" using that ring_order_set [OF n0] len by simp
    then obtain k where "k < unat (l_nworker l)" "(unat start + k) mod unat (l_nworker l) = j"
      by (auto simp: ring_order_def)
    moreover from this(1) have "k \<in> set (map unat ?ks)" by (simp only: map_of_nat_u16(2)) simp
    ultimately show ?thesis by (auto simp del: map_map)
  qed
  have all: "tq_size (w_queue l j) \<le> unat mx" if "j < length (l_worker l)" "j \<noteq> unat me" for j
    using vis [OF that(1)] that(2) k by auto
  have idx: "loader_max_task_index l me = (if mx = 0 then -1 else uint i)"
    using sc by (simp add: loader_max_task_index_def Let_def flip: start_def)
  show thesis
  proof (cases "mx = 0")
    case True
    with all idx show ?thesis by (intro none) auto
  next
    case False
    then have "0 < unat mx" by (simp add: unat_gt_0)
    moreover from False k have "unat i < length (l_worker l)" and ne: "i \<noteq> me"
      and "tq_size (w_queue l (unat i)) = unat mx" by auto
    moreover from False idx have "loader_max_task_index l me = int (unat i)" by simp
    moreover from ne have "unat i \<noteq> unat me" by (simp add: word_unat_eq_iff)
    ultimately show ?thesis using all by (intro some [of "unat i"]) simp_all
  qed
qed


subsection \<open>The quota\<close>

text \<open>
  C40: A round consumes at least one message and no more than the queue holds, whatever the
  worker's weight and the task's priority; even if the 32 bit sum wraps.
\<close>

theorem loader_msg_quota_bounds:
  "1 \<le> loader_msg_quota weight prio lens \<and> (lens \<noteq> 0 \<longrightarrow> loader_msg_quota weight prio lens \<le> lens)"
proof -
  have "1 \<le> n" if "n \<noteq> 0" for n :: u32
    using that by (metis word_less_1 not_le)
  then show ?thesis by (auto simp: loader_msg_quota_def Let_def split: if_splits)
qed


subsection \<open>Concrete instances\<close>

definition loader_demo :: "nat loader_ctx" where
  "loader_demo = \<lparr>l_nworker = 2, l_index = 6, l_worker =
     [\<lparr>w_weight = 3, w_spinning = 0, w_state = WAITER_AWAKE, w_qutasks = \<lparr>tq_items = [], tq_unpub = 0\<rparr>\<rparr>,
      \<lparr>w_weight = 1, w_spinning = 1, w_state = WAITER_AWAKE, w_qutasks = \<lparr>tq_items = [7, 8], tq_unpub = 0\<rparr>\<rparr>]\<rparr>"

lemma loader_demo_ok: "loader_wf loader_demo" "queues_ok loader_demo" "l_nworker loader_demo = 2"
  by (simp_all add: loader_demo_def loader_wf_def queues_ok_def tq_size_def)

theorem loader_pick_worker_correct_witness:
  "0 < w_spinning (l_worker loader_demo ! unat (fst (loader_pick_worker loader_demo)))"
proof -
  have "l_nworker loader_demo \<noteq> 1" by (simp add: loader_demo_ok)
  moreover have "\<exists>w\<in>set (l_worker loader_demo). 0 < w_spinning w" by (simp add: loader_demo_def)
  ultimately show ?thesis using loader_pick_worker_correct [OF loader_demo_ok(1)] by blast
qed


theorem loader_msg_quota_bounds_witness: "loader_msg_quota 3 16 100 \<le> 100"
  using loader_msg_quota_bounds [of 3 16 100] by simp

end
