(* ===== verification/Ops.thy ===== *)
theory Ops
  imports Prelude "HOL-Library.Multiset"
begin

text \<open>
  The ground of the models of concurrent components: a state is a shared record together with the
  multiset of the operations in progress, and the invariants count what these operations hold.
\<close>

definition weight :: "('a \<Rightarrow> 'b::comm_monoid_add) \<Rightarrow> 'a multiset \<Rightarrow> 'b" where
  "weight f A = (\<Sum>a\<in>#A. f a)"

lemma weight_simps [simp]:
  "weight f {#} = 0" "weight f (add_mset a A) = f a + weight f A" "weight f (A + B) = weight f A + weight f B"
  by (simp_all add: weight_def)

lemma weight_image_mset: "weight f (image_mset g A) = weight (\<lambda>a. f (g a)) A"
  by (simp add: weight_def multiset.map_comp comp_def)

lemma weight_plus: "weight (\<lambda>a. f a + g a) A = weight f A + weight g A"
  by (simp add: weight_def sum_mset.distrib)

lemma weight_zero [simp]: "weight (\<lambda>a. 0) A = 0"
  by (simp add: weight_def)

lemma weight_0:
  fixes f :: "'a \<Rightarrow> nat"
  shows "weight f A = 0 \<longleftrightarrow> (\<forall>a\<in>#A. f a = 0)"
  by (simp add: weight_def)

text \<open>An operation that holds something.\<close>

lemma weight_posE:
  fixes f :: "'a \<Rightarrow> nat"
  assumes "0 < weight f A"
  obtains a B where "A = add_mset a B" "0 < f a"
proof -
  from assms obtain a where "a \<in># A" "0 < f a" by (auto simp: weight_0 simp flip: neq0_conv)
  then show thesis using that by (metis insert_DiffM)
qed

end
