(* ===== verification/Task_Life.thy ===== *)
theory Task_Life
  imports Loader Ops
begin

text \<open>
  Models the life of one task under any number of threads: \<open>lib/srey/task.c\<close> (registration, the
  reference count, posting, closing, the emit window) and \<open>lib/srey/loader.c\<close> (scheduling, a round
  on a worker or a net thread, the closing broadcast).

  A state is the task's shared fields together with the multiset of the operations in progress on
  it, one element per thread that is inside such an operation, with its program point. A step is
  one atomic access of one of them, in the order the C function makes them. A section that only reads
  under the read lock of \<open>maptasks\<close>, or that runs under the write lock, is one step: no other thread
  can change what it reads. \<open>rdw\<close> and \<open>wrw\<close> count the holders of the two locks.

  Ghost fields record what has been posted (\<open>tk_sent\<close>) and dispatched (\<open>tk_done\<close> from the queue,
  \<open>tk_inline\<close> on the spot), how often \<open>task_free\<close> ran, and whether the reference of \<open>task_new\<close> is
  still held.
\<close>

section \<open>State\<close>

datatype 'm msg = STARTUP | CLOSING | Other 'm

text \<open>Who runs the task: a worker or net thread with the reference of the queue entry, or the emit window.\<close>

datatype owner = Tok | InWin nat

record 'm round =
  r_owner :: owner
  r_quota :: u32
  r_processed :: u32
  r_batch :: "'m msg list"

text \<open>What the thread that posts, frees or unlocks does afterwards.\<close>

datatype 'm after =
    Ref                  \<comment> \<open>holds a reference of its own\<close>
  | Lock                 \<comment> \<open>holds the read lock, then releases it\<close>
  | Reg bool             \<comment> \<open>registers: has posted STARTUP, next looks at the flag read before\<close>
  | RegEnd               \<comment> \<open>registers: last post, then releases the write lock\<close>
  | Window               \<comment> \<open>closes an emit window, then drops its reference\<close>
  | Round "'m round"     \<comment> \<open>code that a dispatched message runs\<close>
  | Back owner           \<comment> \<open>the end of a round that schedules the task again\<close>
  | Gone                 \<comment> \<open>nothing more\<close>

datatype 'm act =
    Fresh                \<comment> \<open>the creator, before registration\<close>
  | Held                 \<comment> \<open>a thread with a reference\<close>
  | Win nat              \<comment> \<open>an open emit window with the number of messages queued in it\<close>
  | Active "'m after"    \<comment> \<open>\<open>_task_message_active\<close>, before the CAS\<close>
  | Sched "'m after"     \<comment> \<open>the CAS is won, before the queue entry\<close>
  | RegChk bool          \<comment> \<open>\<open>task_register\<close> after posting STARTUP\<close>
  | Scan                 \<comment> \<open>the closing broadcast, before it looks at this task\<close>
  | ClosePush "'m after" \<comment> \<open>the CAS on \<open>closing\<close> is won\<close>
  | Token                \<comment> \<open>an entry in a worker's queue or a net thread's list\<close>
  | Running "'m round"
  | Rel owner            \<comment> \<open>\<open>global\<close> is cleared, before the queue is looked at\<close>
  | RelNE owner          \<comment> \<open>the queue was not empty, before the CAS\<close>
  | Zero "'m after"      \<comment> \<open>took the count to 0, before the write lock\<close>
  | Freeing "'m after"   \<comment> \<open>removed the task from the table, before \<open>task_free\<close>\<close>
  | Freed "'m after"     \<comment> \<open>before \<open>nfreeing\<close> is decremented\<close>

record 'm task =
  tk_ref :: int
  tk_global :: bool
  tk_closing :: bool
  tk_registered :: bool
  tk_table :: bool
  tk_q :: "'m msg list"
  ld_closing :: bool
  ld_nfreeing :: nat
  tk_sent :: "'m msg list"
  tk_done :: "'m msg list"
  tk_inline :: "'m list"
  tk_frees :: nat
  tk_creation :: bool

section \<open>Operations\<close>

definition task_new :: "'m task" where
  "task_new = \<lparr>tk_ref = 1, tk_global = False, tk_closing = False, tk_registered = False,
     tk_table = False, tk_q = [], ld_closing = False, ld_nfreeing = 0, tk_sent = [], tk_done = [],
     tk_inline = [], tk_frees = 0, tk_creation = True\<rparr>"

definition msgq_push :: "'m msg \<Rightarrow> 'm task \<Rightarrow> 'm task" where
  "msgq_push m t = t\<lparr>tk_q := tk_q t @ [m], tk_sent := tk_sent t @ [m]\<rparr>"

text \<open>The part of \<open>task_register\<close> under the write lock that makes the task public, up to the post of STARTUP.\<close>

definition task_publish :: "'m task \<Rightarrow> 'm task" where
  "task_publish t = msgq_push STARTUP (t\<lparr>tk_registered := True, tk_table := True\<rparr>)"

text \<open>\<open>task_free\<close> discards what is still in the queue.\<close>

definition task_free :: "'m task \<Rightarrow> 'm task" where
  "task_free t = t\<lparr>tk_q := [], tk_frees := tk_frees t + 1\<rparr>"

definition incref :: "'m task \<Rightarrow> 'm task" where
  "incref t = t\<lparr>tk_ref := tk_ref t + 1\<rparr>"

text \<open>What a thread is in once it is through with the operation.\<close>

fun resume :: "'m after \<Rightarrow> 'm act multiset" where
  "resume Ref = {#Held#}"
| "resume Lock = {#}"
| "resume (Reg c) = {#RegChk c#}"
| "resume RegEnd = {#}"
| "resume Window = {#Held#}"
| "resume (Round r) = {#Running r#}"
| "resume (Back Tok) = {#Held#}"
| "resume (Back (InWin n)) = {#Win n#}"
| "resume Gone = {#}"

abbreviation fin :: "owner \<Rightarrow> 'm act multiset" where "fin ow \<equiv> resume (Back ow)"

text \<open>\<open>ATOMIC_ADD(&task->ref, -1)\<close> in \<open>task_ungrab\<close> and the test of the old value.\<close>

definition ungrab :: "'m after \<Rightarrow> 'm task \<Rightarrow> 'm task \<times> 'm act multiset" where
  "ungrab k t = (t\<lparr>tk_ref := tk_ref t - 1\<rparr>, if tk_ref t = 1 then {#Zero k#} else resume k)"

text \<open>The section of \<open>task_ungrab\<close> under the write lock.\<close>

definition ungrab_locked :: "'m after \<Rightarrow> 'm task \<Rightarrow> 'm task \<times> 'm act multiset" where
  "ungrab_locked k t =
     (if tk_table t \<and> tk_ref t = 0
      then (t\<lparr>tk_table := False, ld_nfreeing := ld_nfreeing t + 1\<rparr>, {#Freeing k#})
      else (t, resume k))"

text \<open>\<open>ATOMIC_CAS(&task->closing, 0, 1)\<close>.\<close>

definition close_cas :: "'m after \<Rightarrow> 'm task \<Rightarrow> 'm task \<times> 'm act multiset" where
  "close_cas k t = (if tk_closing t then (t, resume k) else (t\<lparr>tk_closing := True\<rparr>, {#ClosePush k#}))"

section \<open>The locks\<close>

fun in_rd :: "'m after \<Rightarrow> nat" where
  "in_rd Lock = 1" | "in_rd _ = 0"

fun in_wr :: "'m after \<Rightarrow> nat" where
  "in_wr (Reg c) = 1" | "in_wr RegEnd = 1" | "in_wr _ = 0"

fun rdw :: "'m act \<Rightarrow> nat" where
  "rdw Scan = 1"
| "rdw (Active k) = in_rd k" | "rdw (Sched k) = in_rd k" | "rdw (ClosePush k) = in_rd k"
| "rdw (Zero k) = in_rd k" | "rdw (Freeing k) = in_rd k" | "rdw (Freed k) = in_rd k"
| "rdw _ = 0"

fun wrw :: "'m act \<Rightarrow> nat" where
  "wrw (RegChk c) = 1"
| "wrw (Active k) = in_wr k" | "wrw (Sched k) = in_wr k" | "wrw (ClosePush k) = in_wr k"
| "wrw (Zero k) = in_wr k" | "wrw (Freeing k) = in_wr k" | "wrw (Freed k) = in_wr k"
| "wrw _ = 0"

definition rd_free :: "'m act multiset \<Rightarrow> bool" where
  "rd_free A \<longleftrightarrow> weight wrw A = 0"

definition wr_free :: "'m act multiset \<Rightarrow> bool" where
  "wr_free A \<longleftrightarrow> weight wrw A = 0 \<and> weight rdw A = 0"

section \<open>Steps\<close>

definition TASK_MSG_BATCH :: u32 where "TASK_MSG_BATCH = 32"

inductive task_step :: "'m task \<times> 'm act multiset \<Rightarrow> 'm task \<times> 'm act multiset \<Rightarrow> bool" where
  close_early:
    "\<not> tk_registered t \<Longrightarrow> task_step (t, add_mset Fresh A) (t\<lparr>tk_closing := True\<rparr>, add_mset Fresh A)"
| register:
    "wr_free A \<Longrightarrow> task_step (t, add_mset Fresh A)
       (task_publish t, add_mset (Active (Reg (tk_closing t))) A)"
| abandon:
    "\<not> tk_registered t \<Longrightarrow> task_step (t, add_mset Fresh A) (task_free t, A)"
| reg_closed:
    "task_step (t, add_mset (RegChk True) A) (msgq_push CLOSING t, add_mset (Active RegEnd) A)"
| reg_late:
    "ld_closing t \<Longrightarrow> close_cas RegEnd t = (t', B) \<Longrightarrow> task_step (t, add_mset (RegChk False) A) (t', B + A)"
| reg_done:
    "\<not> ld_closing t \<Longrightarrow> task_step (t, add_mset (RegChk False) A) (t, A)"
| active_win:
    "\<not> tk_global t \<Longrightarrow> task_step (t, add_mset (Active k) A) (t\<lparr>tk_global := True\<rparr>, add_mset (Sched k) A)"
| active_lose:
    "tk_global t \<Longrightarrow> task_step (t, add_mset (Active k) A) (t, resume k + A)"
| schedule:
    "task_step (t, add_mset (Sched k) A) (incref t, add_mset Token (resume k + A))"
| grab:
    "tk_table t \<Longrightarrow> rd_free A \<Longrightarrow> task_step (t, A) (incref t, add_mset Held A)"
| incref_held:
    "task_step (t, add_mset Held A) (incref t, add_mset Held (add_mset Held A))"
| incref_round:
    "task_step (t, add_mset (Running r) A) (incref t, add_mset Held (add_mset (Running r) A))"
| drop:
    "ungrab Gone t = (t', B) \<Longrightarrow> task_step (t, add_mset Held A) (t', B + A)"
| zero:
    "wr_free (add_mset (Zero k) A) \<Longrightarrow> ungrab_locked k t = (t', B) \<Longrightarrow>
       task_step (t, add_mset (Zero k) A) (t', B + A)"
| defer_free:
    "task_step (t, add_mset (Freeing k) A) (t, add_mset (Freeing Gone) (resume k + A))"
| free:
    "task_step (t, add_mset (Freeing k) A) (task_free t, add_mset (Freed k) A)"
| freed:
    "task_step (t, add_mset (Freed k) A) (t\<lparr>ld_nfreeing := ld_nfreeing t - 1\<rparr>, resume k + A)"
| post:
    "task_step (t, add_mset Held A) (msgq_push (Other m) t, add_mset (Active Ref) A)"
| post_to:
    "tk_table t \<Longrightarrow> rd_free A \<Longrightarrow> task_step (t, A) (msgq_push (Other m) t, add_mset (Active Lock) A)"
| post_self:
    "task_step (t, add_mset (Running r) A) (msgq_push (Other m) t, add_mset (Active (Round r)) A)"
| close_held:
    "close_cas Ref t = (t', B) \<Longrightarrow> task_step (t, add_mset Held A) (t', B + A)"
| close_self:
    "close_cas (Round r) t = (t', B) \<Longrightarrow> task_step (t, add_mset (Running r) A) (t', B + A)"
| close_push:
    "tk_registered t \<Longrightarrow> task_step (t, add_mset (ClosePush k) A) (msgq_push CLOSING t, add_mset (Active k) A)"
| broadcast:
    "rd_free A \<Longrightarrow> task_step (t, A)
       (t\<lparr>ld_closing := True\<rparr>, if tk_table t then add_mset Scan A else A)"
| scan:
    "close_cas Lock t = (t', B) \<Longrightarrow> task_step (t, add_mset Scan A) (t', B + A)"
| win_open:
    "tk_table t \<Longrightarrow> rd_free A \<Longrightarrow> task_step (t, A) (incref t, add_mset (Win 0) A)"
| win_emit:
    "task_step (t, add_mset (Win n) A) (msgq_push (Other m) t, add_mset (Win (n + 1)) A)"
| win_run:
    "\<not> tk_global t \<Longrightarrow> task_step (t, add_mset (Win n) A) (t\<lparr>tk_global := True\<rparr>,
       add_mset (Running \<lparr>r_owner = InWin n, r_quota = 0, r_processed = 0, r_batch = [Other m]\<rparr>) A)"
| win_end:
    "task_step (t, add_mset (Win n) A) (t, add_mset (Active Window) A)"
| win_close:
    "ungrab Gone t = (t', B) \<Longrightarrow> task_step (t, add_mset (Win 0) A) (t', B + A)"
| start:
    "n = loader_msg_quota w prio (of_nat (length (tk_q t))) \<Longrightarrow> task_step (t, add_mset Token A)
       (t, add_mset (Running \<lparr>r_owner = Tok, r_quota = n, r_processed = 0, r_batch = []\<rparr>) A)"
| pop:
    "r_owner r = Tok \<Longrightarrow> r_batch r = [] \<Longrightarrow> r_processed r < r_quota r \<Longrightarrow>
     want = min (r_quota r - r_processed r) TASK_MSG_BATCH \<Longrightarrow>
     0 < got \<Longrightarrow> got \<le> unat want \<Longrightarrow> got \<le> length (tk_q t) \<Longrightarrow>
     task_step (t, add_mset (Running r) A)
       (t\<lparr>tk_q := drop got (tk_q t)\<rparr>,
        add_mset (Running (r\<lparr>r_batch := take got (tk_q t), r_processed := r_processed r + of_nat got\<rparr>)) A)"
| dispatch:
    "r_owner r = Tok \<Longrightarrow> r_batch r = m # ms \<Longrightarrow> m \<noteq> CLOSING \<Longrightarrow> task_step (t, add_mset (Running r) A)
       (t\<lparr>tk_done := tk_done t @ [m]\<rparr>, add_mset (Running (r\<lparr>r_batch := ms\<rparr>)) A)"
| dispatch_inline:
    "r_owner r = InWin n \<Longrightarrow> r_batch r = [Other m] \<Longrightarrow> task_step (t, add_mset (Running r) A)
       (t\<lparr>tk_inline := tk_inline t @ [m]\<rparr>, add_mset (Running (r\<lparr>r_batch := []\<rparr>)) A)"
| dispatch_closing:
    "r_owner r = Tok \<Longrightarrow> r_batch r = CLOSING # ms \<Longrightarrow>
     ungrab (Round (r\<lparr>r_batch := ms\<rparr>)) (t\<lparr>tk_done := tk_done t @ [CLOSING], tk_creation := False\<rparr>) = (t', B) \<Longrightarrow>
     task_step (t, add_mset (Running r) A) (t', B + A)"
| release:
    "r_batch r = [] \<Longrightarrow> task_step (t, add_mset (Running r) A)
       (t\<lparr>tk_global := False\<rparr>, add_mset (Rel (r_owner r)) A)"
| rel_empty:
    "tk_q t = [] \<Longrightarrow> task_step (t, add_mset (Rel ow) A) (t, fin ow + A)"
| rel_more:
    "tk_q t \<noteq> [] \<Longrightarrow> task_step (t, add_mset (Rel ow) A) (t, add_mset (RelNE ow) A)"
| again_win:
    "\<not> tk_global t \<Longrightarrow> task_step (t, add_mset (RelNE ow) A) (t\<lparr>tk_global := True\<rparr>, add_mset (Sched (Back ow)) A)"
| again_lose:
    "tk_global t \<Longrightarrow> task_step (t, add_mset (RelNE ow) A) (t, fin ow + A)"

inductive task_reachable :: "'m task \<times> 'm act multiset \<Rightarrow> bool" where
  created: "task_reachable (task_new, {#Fresh#})"
| stepped: "task_reachable s \<Longrightarrow> task_step s s' \<Longrightarrow> task_reachable s'"


section \<open>Counting what the operations hold\<close>

fun in_ref :: "'m after \<Rightarrow> nat" where
  "in_ref Ref = 1" | "in_ref Window = 1" | "in_ref (Round r) = 1" | "in_ref (Back ow) = 1" | "in_ref _ = 0"

text \<open>References.\<close>

fun refw :: "'m act \<Rightarrow> nat" where
  "refw Held = 1" | "refw (Win n) = 1" | "refw Token = 1" | "refw (Running r) = 1" | "refw (Rel ow) = 1"
| "refw (RelNE ow) = 1"
| "refw (Active k) = in_ref k" | "refw (Sched k) = in_ref k" | "refw (ClosePush k) = in_ref k"
| "refw (Zero k) = in_ref k" | "refw (Freeing k) = in_ref k" | "refw (Freed k) = in_ref k"
| "refw _ = 0"

text \<open>The right to run the task.\<close>

fun in_own :: "'m after \<Rightarrow> nat" where
  "in_own (Round r) = 1" | "in_own _ = 0"

fun ownw :: "'m act \<Rightarrow> nat" where
  "ownw Token = 1" | "ownw (Running r) = 1" | "ownw (Sched k) = Suc (in_own k)"
| "ownw (Active k) = in_own k" | "ownw (ClosePush k) = in_own k"
| "ownw (Zero k) = in_own k" | "ownw (Freeing k) = in_own k" | "ownw (Freed k) = in_own k"
| "ownw _ = 0"

text \<open>Operations that will still see to it that the queue is looked at.\<close>

fun wakes :: "'m act \<Rightarrow> nat" where
  "wakes (Active k) = 1" | "wakes (Win n) = (if 0 < n then 1 else 0)" | "wakes (Rel ow) = 1"
| "wakes (RelNE ow) = 1" | "wakes _ = 0"

text \<open>CLOSING messages about to be posted.\<close>

fun in_close :: "'m after \<Rightarrow> nat" where
  "in_close (Reg c) = (if c then 1 else 0)" | "in_close _ = 0"

fun closew :: "'m act \<Rightarrow> nat" where
  "closew (ClosePush k) = Suc (in_close k)" | "closew (RegChk c) = (if c then 1 else 0)"
| "closew (Active k) = in_close k" | "closew (Sched k) = in_close k"
| "closew (Zero k) = in_close k" | "closew (Freeing k) = in_close k" | "closew (Freed k) = in_close k"
| "closew _ = 0"

fun freshw :: "'m act \<Rightarrow> nat" where
  "freshw Fresh = 1" | "freshw _ = 0"

fun freeingw :: "'m act \<Rightarrow> nat" where
  "freeingw (Freeing k) = 1" | "freeingw _ = 0"

fun freedw :: "'m act \<Rightarrow> nat" where
  "freedw (Freed k) = 1" | "freedw _ = 0"

fun zerow :: "'m act \<Rightarrow> nat" where
  "zerow (Zero k) = 1" | "zerow _ = 0"

text \<open>Every thread that posts holds a reference or a lock: there is no such operation of a thread that holds neither.\<close>

fun barew :: "'m act \<Rightarrow> nat" where
  "barew (Active Gone) = 1" | "barew (Sched Gone) = 1" | "barew (ClosePush Gone) = 1" | "barew _ = 0"

text \<open>The batches of the rounds that work off the queue.\<close>

fun in_batch :: "'m after \<Rightarrow> 'm msg list multiset" where
  "in_batch (Round r) = (if r_owner r = Tok then {#r_batch r#} else {#})"
| "in_batch _ = {#}"

fun batch_of :: "'m act \<Rightarrow> 'm msg list multiset" where
  "batch_of (Running r) = in_batch (Round r)"
| "batch_of (Active k) = in_batch k" | "batch_of (Sched k) = in_batch k"
| "batch_of (ClosePush k) = in_batch k" | "batch_of (Zero k) = in_batch k"
| "batch_of (Freeing k) = in_batch k" | "batch_of (Freed k) = in_batch k"
| "batch_of _ = {#}"

definition batches :: "'m act multiset \<Rightarrow> 'm msg list multiset" where
  "batches A = (\<Sum>a\<in>#A. batch_of a)"

lemma batches_simps [simp]:
  "batches {#} = {#}" "batches (add_mset a A) = batch_of a + batches A" "batches (A + B) = batches A + batches B"
  by (simp_all add: batches_def)

lemma batches_resume [simp]: "batches (resume k) = in_batch k"
  by (cases k rule: resume.cases) auto

lemma weight_resume [simp]:
  "weight refw (resume k) = in_ref k" "weight ownw (resume k) = in_own k"
  "weight rdw (resume k) = 0" "weight freshw (resume k) = 0" "weight freeingw (resume k) = 0"
  "weight freedw (resume k) = 0" "weight barew (resume k) = 0" "weight zerow (resume k) = 0" "weight closew (resume k) = in_close k"
  by (cases k rule: resume.cases; simp)+


lemma weight_resume_wr: "weight wrw (resume k) = (case k of Reg c \<Rightarrow> 1 | _ \<Rightarrow> 0)"
  by (cases k rule: resume.cases) simp_all

lemma in_wr_case: "in_wr k = (case k of Reg c \<Rightarrow> 1 | RegEnd \<Rightarrow> 1 | _ \<Rightarrow> 0)"
  by (cases k) simp_all

section \<open>The invariant\<close>

definition inv_refs :: "'m task \<Rightarrow> 'm act multiset \<Rightarrow> bool" where
  "inv_refs t A \<longleftrightarrow> tk_ref t = (if tk_creation t then 1 else 0) + int (weight refw A)"

definition inv_own :: "'m task \<Rightarrow> 'm act multiset \<Rightarrow> bool" where
  "inv_own t A \<longleftrightarrow> weight ownw A = (if tk_global t then 1 else 0)"

definition inv_wake :: "'m task \<Rightarrow> 'm act multiset \<Rightarrow> bool" where
  "inv_wake t A \<longleftrightarrow> (tk_q t \<noteq> [] \<longrightarrow> tk_global t \<or> 0 < weight wakes A)"

definition inv_locks :: "'m task \<Rightarrow> 'm act multiset \<Rightarrow> bool" where
  "inv_locks t A \<longleftrightarrow> weight wrw A \<le> 1 \<and> (weight wrw A = 0 \<or> weight rdw A = 0)"

definition inv_life :: "'m task \<Rightarrow> 'm act multiset \<Rightarrow> bool" where
  "inv_life t A \<longleftrightarrow> tk_frees t + weight freeingw A + (if tk_table t then 1 else 0) + weight freshw A = 1"

text \<open>Operations hold references, locks, or are on their way out.\<close>

definition inv_early :: "'m task \<Rightarrow> 'm act multiset \<Rightarrow> bool" where
  "inv_early t A \<longleftrightarrow> (if tk_registered t then weight freshw A = 0
     else (A = {#Fresh#} \<or> A = {#}) \<and> \<not> tk_table t \<and> \<not> tk_global t \<and> tk_creation t \<and>
       tk_q t = [] \<and> tk_sent t = [] \<and> tk_done t = [])"

lemmas inv_defs = inv_refs_def inv_own_def inv_wake_def inv_locks_def inv_life_def inv_early_def

lemmas op_defs = task_publish_def task_free_def ungrab_def ungrab_locked_def close_cas_def msgq_push_def incref_def task_new_def

lemma step_own: "task_step s s' \<Longrightarrow> inv_own (fst s) (snd s) \<Longrightarrow> inv_own (fst s') (snd s')"
  by (induction rule: task_step.induct) (auto simp: inv_own_def op_defs split: if_splits)

lemma step_wake: "task_step s s' \<Longrightarrow> inv_wake (fst s) (snd s) \<Longrightarrow> inv_wake (fst s') (snd s')"
  by (induction rule: task_step.induct) (auto simp: inv_wake_def op_defs split: if_splits)

lemma step_life: "task_step s s' \<Longrightarrow> inv_life (fst s) (snd s) \<Longrightarrow> inv_life (fst s') (snd s')"
  by (induction rule: task_step.induct) (auto simp: inv_life_def op_defs split: if_splits)


lemma step_locks: "task_step s s' \<Longrightarrow> inv_locks (fst s) (snd s) \<Longrightarrow> inv_locks (fst s') (snd s')"
  by (induction rule: task_step.induct)
     (auto simp: inv_locks_def op_defs rd_free_def wr_free_def weight_resume_wr in_wr_case
       split: if_splits after.splits)

text \<open>Before the registration nothing but the creator knows the task.\<close>

lemma step_early: "task_step s s' \<Longrightarrow> inv_early (fst s) (snd s) \<Longrightarrow> inv_early (fst s') (snd s')"
  by (induction rule: task_step.induct)
     (auto simp: inv_early_def op_defs add_mset_eq_single split: if_splits)

definition inv_bare :: "'m task \<Rightarrow> 'm act multiset \<Rightarrow> bool" where
  "inv_bare t A \<longleftrightarrow> weight barew A = 0"

lemma barew_after: "barew (Active k) = 0 \<longleftrightarrow> k \<noteq> Gone" "barew (Sched k) = 0 \<longleftrightarrow> k \<noteq> Gone"
    "barew (ClosePush k) = 0 \<longleftrightarrow> k \<noteq> Gone"
  by (cases k; simp)+

lemma holds_nothing: "in_ref k = 0 \<and> in_rd k = 0 \<and> in_wr k = 0 \<longleftrightarrow> k = Gone"
  by (cases k) simp_all

lemma step_bare: "task_step s s' \<Longrightarrow> inv_bare (fst s) (snd s) \<Longrightarrow> inv_bare (fst s') (snd s')"
  by (induction rule: task_step.induct) (auto simp: inv_bare_def barew_after op_defs split: if_splits)

text \<open>Once the task has left the table, nobody holds a reference or a lock.\<close>

definition inv_gone :: "'m task \<Rightarrow> 'm act multiset \<Rightarrow> bool" where
  "inv_gone t A \<longleftrightarrow> (tk_registered t \<and> \<not> tk_table t \<longrightarrow>
     \<not> tk_creation t \<and> weight refw A = 0 \<and> weight rdw A = 0 \<and> weight wrw A = 0)"

definition inv_leak :: "'m task \<Rightarrow> 'm act multiset \<Rightarrow> bool" where
  "inv_leak t A \<longleftrightarrow> (tk_table t \<and> tk_ref t = 0 \<longrightarrow> 0 < weight zerow A)"

definition inv_closing :: "'m task \<Rightarrow> 'm act multiset \<Rightarrow> bool" where
  "inv_closing t A \<longleftrightarrow> count_list (tk_sent t) CLOSING + weight closew A =
     (if tk_closing t \<and> tk_registered t then 1 else 0) \<and>
     tk_creation t = (CLOSING \<notin> set (tk_done t))"

definition inv_order :: "'m task \<Rightarrow> 'm act multiset \<Rightarrow> bool" where
  "inv_order t A \<longleftrightarrow> (\<exists>bs. tk_sent t = tk_done t @ bs @ tk_q t \<and>
     (batches A = {#bs#} \<or> batches A = {#} \<and> bs = []))"


lemma step_closing:
  "task_step s s' \<Longrightarrow> inv_early (fst s) (snd s) \<Longrightarrow> inv_closing (fst s) (snd s) \<Longrightarrow> inv_closing (fst s') (snd s')"
  by (induction rule: task_step.induct)
     (auto simp: inv_closing_def inv_early_def op_defs split: if_splits)

text \<open>At most one operation has a batch, the others cannot.\<close>

lemma no_batch: "weight ownw A = 0 \<Longrightarrow> batches A = {#}"
proof (induction A)
  case (add a A)
  have "in_own k = 0 \<Longrightarrow> in_batch k = {#}" for k :: "'a after" by (cases k) auto
  with add show ?case by (cases a) auto
qed simp

text \<open>
  The reference of \<open>task_new\<close> is dropped when CLOSING is dispatched, which happens only once; the
  round that does it has a reference of its own, so the count cannot reach 0 there.
\<close>

lemma closing_creation:
  assumes "inv_order t (add_mset (Running r) A)" "inv_closing t (add_mset (Running r) A)"
    "r_owner r = Tok" "r_batch r = CLOSING # ms"
  shows "tk_creation t"
proof -
  from assms(1,3,4) have "tk_sent t = tk_done t @ (CLOSING # ms) @ tk_q t"
    by (auto simp: inv_order_def)
  moreover have "count_list (tk_sent t) CLOSING \<le> 1"
    using assms(2) by (auto simp: inv_closing_def split: if_splits)
  ultimately have "count_list (tk_done t) CLOSING = 0" by simp
  then have "CLOSING \<notin> set (tk_done t)" by (simp add: count_list_0_iff)
  then show ?thesis using assms(2) by (simp add: inv_closing_def)
qed

lemma step_refs:
  "task_step s s' \<Longrightarrow> inv_order (fst s) (snd s) \<Longrightarrow> inv_closing (fst s) (snd s) \<Longrightarrow>
     inv_refs (fst s) (snd s) \<Longrightarrow> inv_refs (fst s') (snd s')"
proof (induction rule: task_step.induct)
  case (dispatch_closing r ms t t' B A)
  then have "tk_creation t" using closing_creation [of t r A ms] by simp
  with dispatch_closing show ?case by (auto simp: inv_refs_def op_defs split: if_splits)
qed (auto simp: inv_refs_def op_defs split: if_splits)

lemma step_gone:
  "task_step s s' \<Longrightarrow> inv_early (fst s) (snd s) \<Longrightarrow> inv_refs (fst s) (snd s) \<Longrightarrow> inv_locks (fst s) (snd s) \<Longrightarrow>
     inv_bare (fst s) (snd s) \<Longrightarrow> inv_gone (fst s) (snd s) \<Longrightarrow> inv_gone (fst s') (snd s')"
proof (induction rule: task_step.induct)
  case (schedule t k A)
  then show ?case
    using holds_nothing [of k] by (auto simp: inv_gone_def inv_bare_def barew_after op_defs)
next
  case (close_push t k A)
  then show ?case
    using holds_nothing [of k] by (auto simp: inv_gone_def inv_bare_def barew_after op_defs)
qed (auto simp: inv_gone_def inv_refs_def inv_locks_def inv_early_def op_defs wr_free_def rd_free_def
      weight_resume_wr in_wr_case split: if_splits after.splits)

text \<open>A task out of the table is quiet, so that \<open>task_free\<close> finds an empty queue.\<close>

lemma quiet_act:
  "refw a = 0 \<Longrightarrow> rdw a = 0 \<Longrightarrow> wrw a = 0 \<Longrightarrow> barew a = 0 \<Longrightarrow> wakes a = 0 \<and> ownw a = 0"
proof -
  have *: "in_ref k = 0 \<Longrightarrow> in_own k = 0" for k :: "'a after" by (cases k) auto
  have "in_ref k = 0 \<Longrightarrow> in_rd k = 0 \<Longrightarrow> in_wr k = 0 \<Longrightarrow> k = Gone" for k :: "'a after"
    using holds_nothing [of k] by blast
  then show "refw a = 0 \<Longrightarrow> rdw a = 0 \<Longrightarrow> wrw a = 0 \<Longrightarrow> barew a = 0 \<Longrightarrow> wakes a = 0 \<and> ownw a = 0"
    by (cases a) (auto simp: barew_after *)
qed

lemma gone_quiet:
  assumes "inv_gone t A" "inv_bare t A" "inv_wake t A" "inv_own t A" "tk_registered t" "\<not> tk_table t"
  shows "tk_q t = [] \<and> weight ownw A = 0"
proof -
  have "weight refw A = 0" "weight rdw A = 0" "weight wrw A = 0" "weight barew A = 0"
    using assms by (simp_all add: inv_gone_def inv_bare_def)
  then have w: "refw a = 0" "rdw a = 0" "wrw a = 0" "barew a = 0" if "a \<in># A" for a
    using that by (simp_all add: weight_0)
  then have "weight wakes A = 0" "weight ownw A = 0"
    using quiet_act [OF w] by (simp_all add: weight_0)
  moreover from this(2) have "\<not> tk_global t" using assms(4) by (auto simp: inv_own_def)
  ultimately show ?thesis using assms(3) by (simp add: inv_wake_def)
qed

lemma step_order:
  "task_step s s' \<Longrightarrow> inv_own (fst s) (snd s) \<Longrightarrow> inv_gone (fst s) (snd s) \<Longrightarrow> inv_bare (fst s) (snd s) \<Longrightarrow>
     inv_wake (fst s) (snd s) \<Longrightarrow> inv_life (fst s) (snd s) \<Longrightarrow> inv_early (fst s) (snd s) \<Longrightarrow>
     inv_order (fst s) (snd s) \<Longrightarrow> inv_order (fst s') (snd s')"
proof (induction rule: task_step.induct)
  case (free t k A)
  then have "\<not> tk_table t" "tk_registered t"
    by (auto simp: inv_life_def inv_early_def split: if_splits)
  with free gone_quiet [of t "add_mset (Freeing k) A"] show ?case
    by (auto simp: inv_order_def op_defs)
next
  case (abandon t A)
  then show ?case by (auto simp: inv_order_def inv_early_def op_defs split: if_splits)
qed (auto simp: inv_order_def inv_own_def op_defs dest: no_batch split: if_splits)

lemma step_leak:
  "task_step s s' \<Longrightarrow> inv_order (fst s) (snd s) \<Longrightarrow> inv_closing (fst s) (snd s) \<Longrightarrow>
     inv_refs (fst s) (snd s) \<Longrightarrow> inv_early (fst s) (snd s) \<Longrightarrow> inv_leak (fst s) (snd s) \<Longrightarrow> inv_leak (fst s') (snd s')"
proof (induction rule: task_step.induct)
  case (dispatch_closing r ms t t' B A)
  then have "tk_creation t" using closing_creation [of t r A ms] by simp
  with dispatch_closing show ?case by (auto simp: inv_leak_def inv_refs_def op_defs split: if_splits)
qed (auto simp: inv_leak_def inv_refs_def inv_early_def op_defs split: if_splits)


definition inv_nfreeing :: "'m task \<Rightarrow> 'm act multiset \<Rightarrow> bool" where
  "inv_nfreeing t A \<longleftrightarrow> ld_nfreeing t = weight freeingw A + weight freedw A"

lemma step_nfreeing: "task_step s s' \<Longrightarrow> inv_nfreeing (fst s) (snd s) \<Longrightarrow> inv_nfreeing (fst s') (snd s')"
  by (induction rule: task_step.induct) (auto simp: inv_nfreeing_def op_defs split: if_splits)

text \<open>The broadcast reaches every task: it finds the task in the table, or the registration sees the flag.\<close>

fun reachw :: "'m act \<Rightarrow> nat" where
  "reachw Scan = 1" | "reachw (RegChk c) = 1" | "reachw (Active (Reg c)) = 1" | "reachw (Sched (Reg c)) = 1"
| "reachw _ = 0"

lemma reachw_case:
  "reachw (Active k) = (case k of Reg c \<Rightarrow> 1 | _ \<Rightarrow> 0)" "reachw (Sched k) = (case k of Reg c \<Rightarrow> 1 | _ \<Rightarrow> 0)"
  by (cases k; simp)+

lemma weight_resume_reach [simp]: "weight reachw (resume k) = (case k of Reg c \<Rightarrow> 1 | _ \<Rightarrow> 0)"
  by (cases k rule: resume.cases) simp_all

definition inv_reach :: "'m task \<Rightarrow> 'm act multiset \<Rightarrow> bool" where
  "inv_reach t A \<longleftrightarrow> (ld_closing t \<and> tk_table t \<longrightarrow> tk_closing t \<or> 0 < weight reachw A)"

lemma step_reach:
  "task_step s s' \<Longrightarrow> inv_closing (fst s) (snd s) \<Longrightarrow> inv_reach (fst s) (snd s) \<Longrightarrow> inv_reach (fst s') (snd s')"
  by (induction rule: task_step.induct)
    (auto simp: inv_reach_def inv_closing_def reachw_case op_defs split: if_splits after.splits)

text \<open>A round of an emit window has only the message it was opened for; a thread past its last use ends there.\<close>

fun in_odd :: "'m after \<Rightarrow> nat" where
  "in_odd (Round r) = (if r_owner r = Tok \<or> r_batch r = [] \<or> (\<exists>m. r_batch r = [Other m]) then 0 else 1)"
| "in_odd _ = 0"

fun oddw :: "'m act \<Rightarrow> nat" where
  "oddw (Running r) = in_odd (Round r)" | "oddw (Active k) = in_odd k" | "oddw (Sched k) = in_odd k"
| "oddw (ClosePush k) = in_odd k"
| "oddw (Zero k) = (if k = Gone then 0 else 1)" | "oddw (Freeing k) = (if k = Gone then 0 else 1)"
| "oddw (Freed k) = (if k = Gone then 0 else 1)"
| "oddw _ = 0"

lemma weight_resume_odd [simp]: "weight oddw (resume k) = in_odd k"
  by (cases k rule: resume.cases) simp_all

definition inv_odd :: "'m task \<Rightarrow> 'm act multiset \<Rightarrow> bool" where
  "inv_odd t A \<longleftrightarrow> weight oddw A = 0"

lemma step_odd:
  "task_step s s' \<Longrightarrow> inv_order (fst s) (snd s) \<Longrightarrow> inv_closing (fst s) (snd s) \<Longrightarrow>
     inv_refs (fst s) (snd s) \<Longrightarrow> inv_odd (fst s) (snd s) \<Longrightarrow> inv_odd (fst s') (snd s')"
proof (induction rule: task_step.induct)
  case (dispatch_closing r ms t t' B A)
  then have "tk_creation t" using closing_creation [of t r A ms] by simp
  with dispatch_closing show ?case by (auto simp: inv_odd_def inv_refs_def op_defs split: if_splits)
qed (auto simp: inv_odd_def op_defs split: if_splits)

definition task_inv :: "'m task \<Rightarrow> 'm act multiset \<Rightarrow> bool" where
  "task_inv t A \<longleftrightarrow> inv_refs t A \<and> inv_own t A \<and> inv_wake t A \<and> inv_locks t A \<and> inv_life t A \<and>
     inv_early t A \<and> inv_bare t A \<and> inv_gone t A \<and> inv_leak t A \<and> inv_closing t A \<and> inv_order t A \<and>
     inv_nfreeing t A \<and> inv_reach t A \<and> inv_odd t A"

lemma task_inv_reachable: "task_reachable s \<Longrightarrow> task_inv (fst s) (snd s)"
proof (induction rule: task_reachable.induct)
  case created
  then show ?case
    by (simp add: task_inv_def inv_refs_def inv_own_def inv_wake_def inv_locks_def inv_life_def
      inv_early_def inv_bare_def inv_gone_def inv_leak_def inv_closing_def inv_order_def
      inv_nfreeing_def inv_reach_def inv_odd_def task_new_def)
next
  case (stepped s s')
  then show ?case
    unfolding task_inv_def
    by (blast intro: step_refs step_own step_wake step_locks step_life step_early step_bare step_gone
      step_leak step_closing step_order step_nfreeing step_reach step_odd)
qed


section \<open>What holds in every reachable state\<close>

text \<open>A thread is inside a round of the task: it may run one of its callbacks.\<close>

fun in_round :: "'m act \<Rightarrow> bool" where
  "in_round (Running r) = True" | "in_round (Active (Round r)) = True"
| "in_round (ClosePush (Round r)) = True" | "in_round _ = False"

lemma weight_filter: "(\<And>a. P a \<Longrightarrow> 0 < f a) \<Longrightarrow> size (filter_mset P A) \<le> weight f A"
proof (induction A)
  case (add a A)
  then show ?case using add.prems [of a] by (fastforce simp: Suc_le_eq)
qed simp

text \<open>
  C3: No task is ever run by two threads at a time, and a task is freed at most once and only when no
  thread holds a reference to it, is inside an operation on it, or still has it queued, and when every
  message posted to it has been dispatched.
\<close>

theorem task_exclusive_and_safe:
  assumes "task_reachable (t, A)"
  shows "size (filter_mset in_round A) \<le> 1 \<and> tk_frees t \<le> 1 \<and>
    (0 < tk_frees t \<longrightarrow> (\<forall>a\<in>#A. a = Zero Gone \<or> a = Freed Gone) \<and> tk_done t = tk_sent t)"
proof -
  have inv: "task_inv t A" using task_inv_reachable [OF assms] by simp
  have "0 < ownw a" if "in_round a" for a :: "'a act" using that by (cases a rule: in_round.cases) auto
  then have "size (filter_mset in_round A) \<le> weight ownw A" by (rule weight_filter)
  also have "weight ownw A \<le> 1" using inv by (simp add: task_inv_def inv_own_def)
  finally have run: "size (filter_mset in_round A) \<le> 1" .
  have life: "tk_frees t + weight freeingw A + (if tk_table t then 1 else 0) + weight freshw A = 1"
    using inv by (simp add: task_inv_def inv_life_def)
  have "a = Zero Gone \<or> a = Freed Gone" if f: "0 < tk_frees t" and a: "a \<in># A" for a
  proof -
    have z: "\<not> tk_table t" "weight freeingw A = 0" "weight freshw A = 0" using life f by (auto split: if_splits)
    have "tk_registered t"
      using inv a z(3) by (auto simp: task_inv_def inv_early_def weight_0 split: if_splits)
    with inv z have w: "weight refw A = 0" "weight rdw A = 0" "weight wrw A = 0" "weight barew A = 0"
      by (simp_all add: task_inv_def inv_gone_def inv_bare_def)
    then have "refw a = 0" "rdw a = 0" "wrw a = 0" "freeingw a = 0" "freshw a = 0" "barew a = 0"
      using a z by (simp_all add: weight_0)
    moreover have "k = Gone" if "in_ref k = 0" "in_rd k = 0" "in_wr k = 0" for k :: "'a after"
      using that holds_nothing [of k] by blast
    ultimately show ?thesis by (cases a) (auto simp: barew_after)
  qed
  moreover have "tk_done t = tk_sent t" if f: "0 < tk_frees t"
  proof (cases "tk_registered t")
    case True
    have "\<not> tk_table t" using life f by (auto split: if_splits)
    with inv True gone_quiet [of t A] no_batch [of A] show ?thesis
      by (auto simp: task_inv_def inv_order_def)
  next
    case False
    with inv show ?thesis by (simp add: task_inv_def inv_early_def)
  qed
  ultimately show ?thesis using run life by auto
qed


text \<open>
  C10: CLOSING is posted at most once. Once a registered task has been asked to close, by
  \<open>task_close\<close> before or after its registration or by the closing broadcast, then when all operations
  on it have ended every message has been dispatched and the task has been removed and freed.
\<close>

theorem task_closing_frees:
  assumes "task_reachable (t, A)"
  shows "count_list (tk_sent t) CLOSING \<le> 1 \<and>
    (A = {#} \<and> tk_registered t \<and> (tk_closing t \<or> ld_closing t) \<longrightarrow>
       tk_done t = tk_sent t \<and> \<not> tk_table t \<and> tk_frees t = 1 \<and> ld_nfreeing t = 0)"
proof -
  have inv: "task_inv t A" using task_inv_reachable [OF assms] by simp
  then have "count_list (tk_sent t) CLOSING \<le> 1"
    by (auto simp: task_inv_def inv_closing_def split: if_splits)
  moreover have "tk_done t = tk_sent t \<and> \<not> tk_table t \<and> tk_frees t = 1 \<and> ld_nfreeing t = 0"
    if A: "A = {#}" and r: "tk_registered t" and c: "tk_closing t \<or> ld_closing t"
  proof -
    have inv0: "task_inv t {#}" using inv A by simp
    have "\<not> tk_global t" using inv0 by (simp add: task_inv_def inv_own_def split: if_splits)
    then have "tk_q t = []" using inv0 by (auto simp: task_inv_def inv_wake_def)
    then have all: "tk_done t = tk_sent t" using inv0 by (auto simp: task_inv_def inv_order_def)
    have "\<not> tk_table t"
    proof
      assume tab: "tk_table t"
      then have cl: "tk_closing t" using inv0 c by (auto simp: task_inv_def inv_reach_def)
      then have "count_list (tk_sent t) CLOSING = 1" using inv0 r by (simp add: task_inv_def inv_closing_def)
      then have "CLOSING \<in> set (tk_done t)" unfolding all by (metis count_list_0_iff zero_neq_one)
      then have "tk_ref t = 0" using inv0 by (simp add: task_inv_def inv_closing_def inv_refs_def)
      with inv0 tab show False by (simp add: task_inv_def inv_leak_def)
    qed
    with all inv0 show ?thesis by (simp add: task_inv_def inv_life_def inv_nfreeing_def)
  qed
  ultimately show ?thesis by blast
qed


section \<open>Progress\<close>

definition progress :: "'m task \<times> 'm act multiset \<Rightarrow> bool" where
  "progress s \<longleftrightarrow> (\<exists>s'. task_step\<^sup>*\<^sup>* s s' \<and> length (tk_done (fst s)) < length (tk_done (fst s')))"

lemma progress_now: "task_step s s' \<Longrightarrow> length (tk_done (fst s)) < length (tk_done (fst s')) \<Longrightarrow> progress s"
  unfolding progress_def by (blast intro: r_into_rtranclp)

lemma progress_later:
  "task_step s s' \<Longrightarrow> progress s' \<Longrightarrow> tk_done (fst s') = tk_done (fst s) \<Longrightarrow> progress s"
  unfolding progress_def by (metis converse_rtranclp_into_rtranclp)

lemma progress_batch: "r_owner r = Tok \<Longrightarrow> r_batch r = m # ms \<Longrightarrow> progress (t, add_mset (Running r) A)"
proof (cases "m = CLOSING")
  case True
  assume "r_owner r = Tok" "r_batch r = m # ms"
  then show ?thesis using True
    by (intro progress_now [OF dispatch_closing [of r ms t _ _ A, OF _ _ surjective_pairing]])
      (auto simp: ungrab_def)
next
  case False
  assume "r_owner r = Tok" "r_batch r = m # ms"
  then show ?thesis using False by (intro progress_now [OF dispatch [of r m ms t A]]) auto
qed

lemma progress_token: "tk_q t \<noteq> [] \<Longrightarrow> progress (t, add_mset Token A)"
proof -
  assume q: "tk_q t \<noteq> []"
  define n where "n = loader_msg_quota 0 0 (of_nat (length (tk_q t)))"
  define r :: "'a round" where "r = \<lparr>r_owner = Tok, r_quota = n, r_processed = 0, r_batch = []\<rparr>"
  have "n \<noteq> 0" by (simp add: n_def loader_msg_quota_def Let_def)
  then have n: "0 < n" by (simp add: word_neq_0_conv)
  have "1 \<le> unat (min (r_quota r - r_processed r) TASK_MSG_BATCH)"
    using n by (auto simp: r_def TASK_MSG_BATCH_def min_def Suc_le_eq unat_gt_0)
  then have "task_step (t, add_mset (Running r) A) (t\<lparr>tk_q := drop 1 (tk_q t)\<rparr>,
      add_mset (Running (r\<lparr>r_batch := take 1 (tk_q t), r_processed := r_processed r + of_nat 1\<rparr>)) A)"
    using q n by (intro pop [OF _ _ _ refl]) (auto simp: r_def Suc_le_eq)
  moreover obtain m where "take 1 (tk_q t) = [m]" using q by (cases "tk_q t") auto
  ultimately have "progress (t, add_mset (Running r) A)"
    by (elim progress_later) (auto intro!: progress_batch simp: r_def)
  moreover have "task_step (t, add_mset Token A) (t, add_mset (Running r) A)"
    unfolding r_def by (rule start [OF n_def])
  ultimately show ?thesis by (elim progress_later [rotated]) auto
qed

lemma progress_sched: "tk_q t \<noteq> [] \<Longrightarrow> progress (t, add_mset (Sched k) A)"
  by (rule progress_later [OF schedule]) (auto intro!: progress_token simp: incref_def)

lemma progress_active: "tk_q t \<noteq> [] \<Longrightarrow> \<not> tk_global t \<Longrightarrow> progress (t, add_mset (Active k) A)"
  by (rule progress_later [OF active_win]) (auto intro!: progress_sched)

lemma progress_relne: "tk_q t \<noteq> [] \<Longrightarrow> \<not> tk_global t \<Longrightarrow> progress (t, add_mset (RelNE ow) A)"
  by (rule progress_later [OF again_win]) (auto intro!: progress_sched)

lemma progress_rel: "tk_q t \<noteq> [] \<Longrightarrow> \<not> tk_global t \<Longrightarrow> progress (t, add_mset (Rel ow) A)"
  by (rule progress_later [OF rel_more]) (auto intro!: progress_relne)

lemma progress_empty: "tk_q t \<noteq> [] \<Longrightarrow> r_batch r = [] \<Longrightarrow> progress (t, add_mset (Running r) A)"
  by (rule progress_later [OF release]) (auto intro!: progress_rel)

lemma progress_round:
  assumes "tk_q t \<noteq> []" "in_odd (Round r) = 0"
  shows "progress (t, add_mset (Running r) A)"
proof (cases "r_batch r")
  case Nil
  with assms show ?thesis by (intro progress_empty)
next
  case (Cons m ms)
  show ?thesis
  proof (cases "r_owner r")
    case Tok
    with Cons show ?thesis by (intro progress_batch)
  next
    case (InWin n)
    with Cons assms(2) obtain m' where "r_batch r = [Other m']" by (auto split: if_splits)
    from dispatch_inline [OF InWin this] show ?thesis
      by (rule progress_later) (use assms(1) in \<open>auto intro: progress_empty\<close>)
  qed
qed

lemma progress_in_round:
  assumes "tk_q t \<noteq> []" "tk_global t" "in_odd (Round r) = 0"
  shows "progress (t, add_mset (Active (Round r)) A)"
  using assms by (intro progress_later [OF active_lose]) (auto intro!: progress_round)

text \<open>
  C16: No reachable state is stuck with messages waiting: there is always a continuation that
  dispatches one more of them.
\<close>

theorem task_progress:
  assumes "task_reachable (t, A)" "tk_q t \<noteq> []"
  shows "\<exists>t' A'. task_step\<^sup>*\<^sup>* (t, A) (t', A') \<and> length (tk_done t) < length (tk_done t')"
proof -
  have inv: "task_inv t A" using task_inv_reachable [OF assms(1)] by simp
  have odd: "oddw a = 0" if "a \<in># A" for a
    using inv that by (simp add: task_inv_def inv_odd_def weight_0)
  have reg: "tk_registered t"
    using inv assms(2) by (auto simp: task_inv_def inv_early_def split: if_splits)
  have "progress (t, A)"
  proof (cases "tk_global t")
    case True
    with inv have "weight ownw A \<noteq> 0" by (simp add: task_inv_def inv_own_def)
    then obtain a where a: "a \<in># A" "ownw a \<noteq> 0" by (auto simp: weight_0)
    then obtain B where A: "A = add_mset a B" by (metis insert_DiffM)
    show ?thesis
    proof (cases a)
      case (Active k)
      with a odd [OF a(1)] True assms(2) show ?thesis
        unfolding A by (cases k) (auto intro!: progress_in_round)
    next
      case (ClosePush k)
      with a odd [OF a(1)] True assms(2) reg show ?thesis
        unfolding A by (cases k) (auto intro!: progress_later [OF close_push] progress_in_round simp: msgq_push_def)
    qed (use a odd [OF a(1)] True assms(2) in \<open>auto simp: A intro!: progress_token progress_round progress_sched split: if_splits\<close>)
  next
    case False
    with inv assms(2) have "weight wakes A \<noteq> 0" by (simp add: task_inv_def inv_wake_def)
    then obtain a where a: "a \<in># A" "wakes a \<noteq> 0" by (auto simp: weight_0)
    then obtain B where A: "A = add_mset a B" by (metis insert_DiffM)
    show ?thesis
    proof (cases a)
      case (Win n)
      then show ?thesis
        unfolding A using False assms(2) by (auto intro!: progress_later [OF win_end] progress_active)
    qed (use a False assms(2) in \<open>auto simp: A intro!: progress_active progress_rel progress_relne\<close>)
  qed
  then show ?thesis by (auto simp: progress_def)
qed

section \<open>A whole life\<close>

text \<open>
  A task closed before its registration: it runs STARTUP and CLOSING in one round on a worker of
  weight 0, and is freed by the thread that ran it.
\<close>

definition demo_round :: "u32 \<Rightarrow> nat msg list \<Rightarrow> nat round" where
  "demo_round k b = \<lparr>r_owner = Tok, r_quota = 2, r_processed = k, r_batch = b\<rparr>"

definition demo_task :: "int \<Rightarrow> bool \<Rightarrow> nat msg list \<Rightarrow> nat msg list \<Rightarrow> nat msg list \<Rightarrow> nat task" where
  "demo_task n g sent q d = \<lparr>tk_ref = n, tk_global = g, tk_closing = True, tk_registered = True,
     tk_table = True, tk_q = q, ld_closing = False, ld_nfreeing = 0, tk_sent = sent, tk_done = d,
     tk_inline = [], tk_frees = 0, tk_creation = (CLOSING \<notin> set d)\<rparr>"

lemma demo_queued: "task_reachable (demo_task 2 True [STARTUP, CLOSING] [STARTUP, CLOSING] [], {#Token#})"
proof -
  have "task_reachable (task_new :: nat task, {#Fresh#})" by (rule created)
  then have "task_reachable ((task_new :: nat task)\<lparr>tk_closing := True\<rparr>, {#Fresh#})"
    by (rule stepped) (rule close_early, simp add: task_new_def)
  then have "task_reachable (demo_task 1 False [STARTUP] [STARTUP] [], {#Active (Reg True)#})"
    by (rule stepped) (use register [of "{#}" "(task_new :: nat task)\<lparr>tk_closing := True\<rparr>"] in
      \<open>simp add: wr_free_def op_defs demo_task_def\<close>)
  then have "task_reachable (demo_task 1 True [STARTUP] [STARTUP] [], {#Sched (Reg True)#})"
    by (rule stepped) (use active_win [of "demo_task 1 False [STARTUP] [STARTUP] []" "Reg True" "{#}"] in
      \<open>simp add: demo_task_def\<close>)
  then have "task_reachable (demo_task 2 True [STARTUP] [STARTUP] [], {#RegChk True, Token#})"
    by (rule stepped) (use schedule [of "demo_task 1 True [STARTUP] [STARTUP] []" "Reg True" "{#}"] in
      \<open>simp add: demo_task_def op_defs add_mset_commute\<close>)
  then have "task_reachable (demo_task 2 True [STARTUP, CLOSING] [STARTUP, CLOSING] [], {#Active RegEnd, Token#})"
    by (rule stepped) (use reg_closed [of "demo_task 2 True [STARTUP] [STARTUP] []" "{#Token#}"] in
      \<open>simp add: demo_task_def op_defs\<close>)
  then show ?thesis
    by (rule stepped) (use active_lose [of "demo_task 2 True [STARTUP, CLOSING] [STARTUP, CLOSING] []" RegEnd "{#Token#}"] in
      \<open>simp add: demo_task_def\<close>)
qed

lemma demo_dispatching:
  "task_reachable (demo_task 2 True [STARTUP, CLOSING] [] [STARTUP], {#Running (demo_round 2 [CLOSING])#})"
proof -
  let ?s = "[STARTUP, CLOSING]"
  have "loader_msg_quota 0 0 2 = 2" by code_simp
  then have "task_step (demo_task 2 True ?s ?s [], {#Token#})
      (demo_task 2 True ?s ?s [], {#Running (demo_round 0 [])#})"
    using start [of 2 0 0 "demo_task 2 True ?s ?s []" "{#}"] by (simp add: demo_task_def demo_round_def)
  with demo_queued have "task_reachable (demo_task 2 True ?s ?s [], {#Running (demo_round 0 [])#})"
    by (rule stepped)
  moreover have "task_step (demo_task 2 True ?s ?s [], {#Running (demo_round 0 [])#})
      (demo_task 2 True ?s [] [], {#Running (demo_round 2 ?s)#})"
  proof -
    let ?r = "demo_round 0 []" and ?t = "demo_task 2 True ?s ?s []"
    have "2 = min (r_quota ?r - r_processed ?r) TASK_MSG_BATCH" by code_simp
    moreover have "r_owner ?r = Tok" "r_batch ?r = []" "r_processed ?r < r_quota ?r" "0 < (2 :: nat)"
      "2 \<le> unat (2 :: u32)" "2 \<le> length (tk_q ?t)"
      by (simp_all add: demo_round_def demo_task_def)
    ultimately have "task_step (?t, {#Running ?r#}) (?t\<lparr>tk_q := drop 2 (tk_q ?t)\<rparr>,
        {#Running (?r\<lparr>r_batch := take 2 (tk_q ?t), r_processed := r_processed ?r + of_nat 2\<rparr>)#})"
      by (intro pop)
    then show ?thesis by (simp add: demo_task_def demo_round_def)
  qed
  ultimately have "task_reachable (demo_task 2 True ?s [] [], {#Running (demo_round 2 ?s)#})"
    by (rule stepped)
  moreover have "task_step (demo_task 2 True ?s [] [], {#Running (demo_round 2 ?s)#})
      (demo_task 2 True ?s [] [STARTUP], {#Running (demo_round 2 [CLOSING])#})"
    using dispatch [of "demo_round 2 ?s" STARTUP "[CLOSING]" "demo_task 2 True ?s [] []" "{#}"]
    by (simp add: demo_task_def demo_round_def)
  ultimately show ?thesis by (rule stepped)
qed

definition demo_freed :: "nat task" where
  "demo_freed = (demo_task 0 False [STARTUP, CLOSING] [] [STARTUP, CLOSING])\<lparr>tk_table := False, tk_frees := 1\<rparr>"

lemma demo_end: "task_reachable (demo_freed, {#})"
proof -
  let ?s = "[STARTUP, CLOSING]"
  have "task_reachable (demo_task 1 True ?s [] ?s, {#Running (demo_round 2 [])#})"
    by (rule stepped [OF demo_dispatching])
      (use dispatch_closing [of "demo_round 2 [CLOSING]" "[]" "demo_task 2 True ?s [] [STARTUP]" _ _ "{#}"] in
        \<open>simp add: demo_task_def demo_round_def op_defs\<close>)
  then have "task_reachable (demo_task 1 False ?s [] ?s, {#Rel Tok#})"
    by (rule stepped) (use release [of "demo_round 2 []" "demo_task 1 True ?s [] ?s" "{#}"] in
      \<open>simp add: demo_task_def demo_round_def\<close>)
  then have "task_reachable (demo_task 1 False ?s [] ?s, {#Held#})"
    by (rule stepped) (use rel_empty [of "demo_task 1 False ?s [] ?s" Tok "{#}"] in \<open>simp add: demo_task_def\<close>)
  then have "task_reachable (demo_task 0 False ?s [] ?s, {#Zero Gone#})"
    by (rule stepped) (use drop [of "demo_task 1 False ?s [] ?s" _ _ "{#}"] in \<open>simp add: demo_task_def op_defs\<close>)
  then have "task_reachable ((demo_task 0 False ?s [] ?s)\<lparr>tk_table := False, ld_nfreeing := 1\<rparr>, {#Freeing Gone#})"
    by (rule stepped) (use zero [of Gone "{#}" "demo_task 0 False ?s [] ?s"] in
      \<open>simp add: demo_task_def op_defs wr_free_def\<close>)
  then have "task_reachable ((demo_task 0 False ?s [] ?s)\<lparr>tk_table := False, ld_nfreeing := 1, tk_frees := 1\<rparr>, {#Freed Gone#})"
    by (rule stepped) (use free [of "(demo_task 0 False ?s [] ?s)\<lparr>tk_table := False, ld_nfreeing := 1\<rparr>" Gone "{#}"] in
      \<open>simp add: demo_task_def op_defs\<close>)
  then show ?thesis
    by (rule stepped) (use freed [of "(demo_task 0 False ?s [] ?s)\<lparr>tk_table := False, ld_nfreeing := 1, tk_frees := 1\<rparr>" Gone "{#}"] in
      \<open>simp add: demo_task_def demo_freed_def\<close>)
qed

theorem task_exclusive_and_safe_witness:
  "size (filter_mset in_round {#Running (demo_round 2 [CLOSING])#}) = 1 \<and>
   tk_frees (demo_task 2 True [STARTUP, CLOSING] [] [STARTUP]) \<le> 1"
  using task_exclusive_and_safe [OF demo_dispatching] by simp


theorem task_closing_frees_witness: "tk_frees demo_freed = 1 \<and> tk_done demo_freed = tk_sent demo_freed"
  using task_closing_frees [OF demo_end] by (simp add: demo_freed_def demo_task_def)

theorem task_progress_witness:
  "\<exists>t' A'. task_step\<^sup>*\<^sup>* (demo_task 2 True [STARTUP, CLOSING] [STARTUP, CLOSING] [], {#Token#}) (t', A') \<and>
     0 < length (tk_done t')"
  using task_progress [OF demo_queued] by (simp add: demo_task_def)

end
