(* ===== verification/Chan.thy ===== *)
theory Chan
  imports Ring_Queue Ops
begin

text \<open>
  Models \<open>lib/utils/chan.c\<close>, a channel between threads, with its buffer the ring queue of
  \<open>Ring_Queue\<close>. A state is the channel together with the multiset of the calls in progress, one
  element per thread inside \<open>chan_send\<close> or \<open>chan_recv\<close>. What a thread does between taking \<open>m_mu\<close>
  and giving it back (by \<open>mutex_unlock\<close> or \<open>cond_wait\<close>) is one step, a function of the channel;
  the waits on \<open>w_mu\<close> and \<open>r_mu\<close>, the sleep on a condition variable and a \<open>cond_signal\<close> after the
  unlock are program points of their own. A sleeping thread may wake without a signal at any time.

  The fields \<open>ch_sent\<close>, \<open>ch_ok\<close>, \<open>ch_bad\<close>, \<open>ch_out\<close> and \<open>ch_null\<close> are ghosts: the messages
  of all calls of \<open>chan_send\<close>, of those that returned \<open>ERR_OK\<close> and \<open>ERR_FAILED\<close>, the
  messages received in order, and whether a \<open>chan_recv\<close> has returned NULL.
\<close>

section \<open>State\<close>

record 'm chan =
  ch_buffered :: bool
  ch_closed :: bool
  ch_rwait :: nat
  ch_wwait :: nat
  ch_data :: "'m option"
  ch_qudata :: "'m que"
  ch_rmu :: bool
  ch_wmu :: bool
  ch_sent :: "'m list"
  ch_ok :: "'m list"
  ch_bad :: "'m list"
  ch_out :: "'m list"
  ch_null :: bool

text \<open>\<open>sizeof(buf_ctx)\<close>: a pointer and a length.\<close>

definition BUF_SIZE :: nat where "BUF_SIZE = 16"

definition chan_init :: "u32 \<Rightarrow> 'm chan option" where
  "chan_init capacity =
     map_option (\<lambda>q. \<lparr>ch_buffered = (0 < capacity), ch_closed = False, ch_rwait = 0, ch_wwait = 0,
         ch_data = None, ch_qudata = q, ch_rmu = False, ch_wmu = False, ch_sent = [], ch_ok = [],
         ch_bad = [], ch_out = [], ch_null = False\<rparr>)
       (if 0 < capacity then que_init BUF_SIZE capacity
        else Some \<lparr>q_size = 0, q_maxsize = 0, q_mask = 0, q_offset = 0, q_ptr = []\<rparr>)"

definition chan_free :: "'m chan \<Rightarrow> 'm chan option" where
  "chan_free c = assertab (ch_rwait c = 0 \<and> ch_wwait c = 0) (Some (c\<lparr>ch_qudata := que_free (ch_qudata c)\<rparr>))"

section \<open>The sections under \<open>m_mu\<close>\<close>

datatype snd_res = SWait | SFail | SOk bool
datatype 'm rcv_res = RWait | RNull | RGot 'm bool

text \<open>From the test of the loop on; the flag of a result is whether the peers are signalled.\<close>

definition buffered_chan_send :: "'m \<Rightarrow> 'm chan \<Rightarrow> (snd_res \<times> 'm chan) option" where
  "buffered_chan_send m c =
     (if que_full (ch_qudata c)
      then Some (if ch_closed c then (SFail, c) else (SWait, c\<lparr>ch_wwait := ch_wwait c + 1\<rparr>))
      else if ch_closed c then Some (SFail, c)
      else map_option (\<lambda>q. (SOk (0 < ch_rwait c), c\<lparr>ch_qudata := q\<rparr>)) (que_push BUF_SIZE (ch_qudata c) m))"

definition buffered_chan_recv :: "'m chan \<Rightarrow> ('m rcv_res \<times> 'm chan) option" where
  "buffered_chan_recv c =
     (if que_empty (ch_qudata c)
      then Some (if ch_closed c then (RNull, c) else (RWait, c\<lparr>ch_rwait := ch_rwait c + 1\<rparr>))
      else (case que_pop (ch_qudata c) of (p, q) \<Rightarrow>
              map_option (\<lambda>m. (RGot m (0 < ch_wwait c), c\<lparr>ch_qudata := q\<rparr>)) (que_deref q p)))"

text \<open>
  The sender without a buffer publishes its message and sleeps (the flag: whether \<open>r_cond\<close> is
  signalled); awake again it looks whether the message has been taken.
\<close>

definition unbuffered_chan_send :: "'m \<Rightarrow> 'm chan \<Rightarrow> snd_res \<times> bool \<times> 'm chan" where
  "unbuffered_chan_send m c =
     (if ch_closed c then (SFail, False, c\<lparr>ch_wmu := False\<rparr>)
      else (SWait, 0 < ch_rwait c, c\<lparr>ch_data := Some m, ch_wwait := ch_wwait c + 1\<rparr>))"

definition unbuffered_send_woken :: "'m chan \<Rightarrow> snd_res \<times> 'm chan" where
  "unbuffered_send_woken c =
     (if 0 < ch_wwait c
      then if ch_closed c \<and> ch_rwait c = 0 then (SFail, c\<lparr>ch_wwait := ch_wwait c - 1, ch_wmu := False\<rparr>)
           else (SWait, c)
      else (SOk False, c\<lparr>ch_wmu := False\<rparr>))"

definition unbuffered_chan_recv :: "'m chan \<Rightarrow> ('m rcv_res \<times> 'm chan) option" where
  "unbuffered_chan_recv c =
     (if \<not> ch_closed c \<and> ch_wwait c = 0 then Some (RWait, c\<lparr>ch_rwait := ch_rwait c + 1\<rparr>)
      else if ch_wwait c = 0 then Some (RNull, c\<lparr>ch_rmu := False\<rparr>)
      else map_option (\<lambda>m. (RGot m True, c\<lparr>ch_wwait := ch_wwait c - 1\<rparr>)) (ch_data c))"

definition chan_size :: "'m chan \<Rightarrow> u32" where
  "chan_size c = (if ch_buffered c then q_size (ch_qudata c) else 0)"

definition chan_can_recv :: "'m chan \<Rightarrow> bool" where
  "chan_can_recv c = (if ch_buffered c then 0 < chan_size c else 0 < ch_wwait c)"

definition chan_can_send :: "'m chan \<Rightarrow> bool" where
  "chan_can_send c = (if ch_buffered c then \<not> que_full (ch_qudata c) else 0 < ch_rwait c)"

section \<open>Calls in progress\<close>

datatype phase = Enter | Turn | Asleep | Woken

datatype 'm call =
    Call 'm          \<comment> \<open>\<open>chan_send\<close> before its look at \<open>closed\<close>\<close>
  | Snd phase 'm     \<comment> \<open>before \<open>w_mu\<close> or \<open>m_mu\<close>, holding \<open>w_mu\<close>, in \<open>cond_wait\<close>, signalled\<close>
  | Rcv phase
  | SigR             \<comment> \<open>a sender about to signal \<open>r_cond\<close>\<close>
  | SigW             \<comment> \<open>a receiver about to signal \<open>w_cond\<close>\<close>

text \<open>What is left of the call, and what it reported, after a section.\<close>

fun snd_next :: "'m \<Rightarrow> snd_res \<Rightarrow> 'm call multiset" where
  "snd_next m SWait = {#Snd Asleep m#}"
| "snd_next m SFail = {#}"
| "snd_next m (SOk wake) = (if wake then {#SigR#} else {#})"

fun snd_ret :: "'m \<Rightarrow> snd_res \<Rightarrow> 'm chan \<Rightarrow> 'm chan" where
  "snd_ret m SWait c = c"
| "snd_ret m SFail c = c\<lparr>ch_bad := ch_bad c @ [m]\<rparr>"
| "snd_ret m (SOk wake) c = c\<lparr>ch_ok := ch_ok c @ [m]\<rparr>"

fun rcv_next :: "'m rcv_res \<Rightarrow> 'm call multiset" where
  "rcv_next RWait = {#Rcv Asleep#}"
| "rcv_next RNull = {#}"
| "rcv_next (RGot m wake) = (if wake then {#SigW#} else {#})"

fun rcv_ret :: "'m rcv_res \<Rightarrow> 'm chan \<Rightarrow> 'm chan" where
  "rcv_ret RWait c = c"
| "rcv_ret RNull c = c\<lparr>ch_null := True\<rparr>"
| "rcv_ret (RGot m wake) c = c\<lparr>ch_out := ch_out c @ [m]\<rparr>"

fun wake :: "'m call \<Rightarrow> 'm call" where
  "wake (Snd Asleep m) = Snd Woken m"
| "wake (Rcv Asleep) = Rcv Woken"
| "wake x = x"

text \<open>\<open>cond_signal(&chan->r_cond)\<close>: all sleeping receivers look alike.\<close>

definition signal_r :: "'m call multiset \<Rightarrow> 'm call multiset" where
  "signal_r A = (if Rcv Asleep \<in># A then add_mset (Rcv Woken) (A - {#Rcv Asleep#}) else A)"

text \<open>A step of a call in progress.\<close>

inductive chan_move :: "'m chan \<times> 'm call multiset \<Rightarrow> 'm chan \<times> 'm call multiset \<Rightarrow> bool" where
  call_closed: "ch_closed c \<Longrightarrow> chan_move (c, add_mset (Call m) A) (snd_ret m SFail c, A)"
| call_open: "\<not> ch_closed c \<Longrightarrow> chan_move (c, add_mset (Call m) A) (c, add_mset (Snd Enter m) A)"
| bsend:
    "ch_buffered c \<Longrightarrow> buffered_chan_send m c = Some (r, c') \<Longrightarrow>
     chan_move (c, add_mset (Snd Enter m) A) (snd_ret m r c', snd_next m r + A)"
| bsend_woken:
    "ch_buffered c \<Longrightarrow> buffered_chan_send m (c\<lparr>ch_wwait := ch_wwait c - 1\<rparr>) = Some (r, c') \<Longrightarrow>
     chan_move (c, add_mset (Snd Woken m) A) (snd_ret m r c', snd_next m r + A)"
| brecv:
    "ch_buffered c \<Longrightarrow> buffered_chan_recv c = Some (r, c') \<Longrightarrow>
     chan_move (c, add_mset (Rcv Enter) A) (rcv_ret r c', rcv_next r + A)"
| brecv_woken:
    "ch_buffered c \<Longrightarrow> buffered_chan_recv (c\<lparr>ch_rwait := ch_rwait c - 1\<rparr>) = Some (r, c') \<Longrightarrow>
     chan_move (c, add_mset (Rcv Woken) A) (rcv_ret r c', rcv_next r + A)"
| sig_r: "chan_move (c, add_mset SigR A) (c, signal_r A)"
| sig_w_one:
    "chan_move (c, add_mset SigW (add_mset (Snd Asleep m) A)) (c\<lparr>ch_rmu := False\<rparr>, add_mset (Snd Woken m) A)"
| sig_w_none:
    "\<forall>m. Snd Asleep m \<notin># A \<Longrightarrow> chan_move (c, add_mset SigW A) (c\<lparr>ch_rmu := False\<rparr>, A)"
| lock_w:
    "\<not> ch_buffered c \<Longrightarrow> \<not> ch_wmu c \<Longrightarrow>
     chan_move (c, add_mset (Snd Enter m) A) (c\<lparr>ch_wmu := True\<rparr>, add_mset (Snd Turn m) A)"
| usend:
    "\<not> ch_buffered c \<Longrightarrow> unbuffered_chan_send m c = (r, s, c') \<Longrightarrow>
     chan_move (c, add_mset (Snd Turn m) A)
       (snd_ret m r c', snd_next m r + (if s then signal_r A else A))"
| usend_woken:
    "\<not> ch_buffered c \<Longrightarrow> unbuffered_send_woken c = (r, c') \<Longrightarrow>
     chan_move (c, add_mset (Snd Woken m) A) (snd_ret m r c', snd_next m r + A)"
| lock_r:
    "\<not> ch_buffered c \<Longrightarrow> \<not> ch_rmu c \<Longrightarrow>
     chan_move (c, add_mset (Rcv Enter) A) (c\<lparr>ch_rmu := True\<rparr>, add_mset (Rcv Turn) A)"
| urecv:
    "\<not> ch_buffered c \<Longrightarrow> unbuffered_chan_recv c = Some (r, c') \<Longrightarrow>
     chan_move (c, add_mset (Rcv Turn) A) (rcv_ret r c', rcv_next r + A)"
| urecv_woken:
    "\<not> ch_buffered c \<Longrightarrow> unbuffered_chan_recv (c\<lparr>ch_rwait := ch_rwait c - 1\<rparr>) = Some (r, c') \<Longrightarrow>
     chan_move (c, add_mset (Rcv Woken) A) (rcv_ret r c', rcv_next r + A)"

text \<open>\<open>chan_close\<close>: the broadcasts wake every sleeper.\<close>

definition chan_close :: "'m chan \<times> 'm call multiset \<Rightarrow> 'm chan \<times> 'm call multiset" where
  "chan_close s = (case s of (c, A) \<Rightarrow>
     if ch_closed c then (c, A) else (c\<lparr>ch_closed := True\<rparr>, image_mset wake A))"

inductive chan_step :: "'m chan \<times> 'm call multiset \<Rightarrow> 'm chan \<times> 'm call multiset \<Rightarrow> bool" where
  move: "chan_move s s' \<Longrightarrow> chan_step s s'"
| start_send: "chan_step (c, A) (c\<lparr>ch_sent := ch_sent c @ [m]\<rparr>, add_mset (Call m) A)"
| start_recv: "chan_step (c, A) (c, add_mset (Rcv Enter) A)"
| close: "chan_step s (chan_close s)"
| spurious: "chan_step (c, add_mset x A) (c, add_mset (wake x) A)"

inductive chan_reachable :: "u32 \<Rightarrow> 'm chan \<times> 'm call multiset \<Rightarrow> bool" for capacity where
  init: "chan_init capacity = Some c \<Longrightarrow> chan_reachable capacity (c, {#})"
| step: "chan_reachable capacity s \<Longrightarrow> chan_step s s' \<Longrightarrow> chan_reachable capacity s'"

section \<open>Counting the calls\<close>

fun slR :: "'m call \<Rightarrow> nat" where "slR (Rcv Asleep) = 1" | "slR _ = 0"
fun wkR :: "'m call \<Rightarrow> nat" where "wkR (Rcv Woken) = 1" | "wkR _ = 0"
fun pdR :: "'m call \<Rightarrow> nat" where "pdR SigR = 1" | "pdR _ = 0"
fun slW :: "'m call \<Rightarrow> nat" where "slW (Snd Asleep m) = 1" | "slW _ = 0"
fun wkW :: "'m call \<Rightarrow> nat" where "wkW (Snd Woken m) = 1" | "wkW _ = 0"
fun pdW :: "'m call \<Rightarrow> nat" where "pdW SigW = 1" | "pdW _ = 0"
fun turnR :: "'m call \<Rightarrow> nat" where "turnR (Rcv Turn) = 1" | "turnR _ = 0"
fun turnW :: "'m call \<Rightarrow> nat" where "turnW (Snd Turn m) = 1" | "turnW _ = 0"

text \<open>The messages of the calls of \<open>chan_send\<close> in progress, and of those in \<open>cond_wait\<close>.\<close>

fun msgs :: "'m call \<Rightarrow> 'm multiset" where
  "msgs (Call m) = {#m#}" | "msgs (Snd p m) = {#m#}" | "msgs _ = {#}"
fun held :: "'m call \<Rightarrow> 'm multiset" where
  "held (Snd Asleep m) = {#m#}" | "held (Snd Woken m) = {#m#}" | "held _ = {#}"

lemma wake_counts:
  "slR (wake x) = 0" "wkR (wake x) = slR x + wkR x" "pdR (wake x) = pdR x"
  "slW (wake x) = 0" "wkW (wake x) = slW x + wkW x" "pdW (wake x) = pdW x"
  "turnR (wake x) = turnR x" "turnW (wake x) = turnW x" "msgs (wake x) = msgs x" "held (wake x) = held x"
  by (cases x rule: wake.cases; simp; fail)+

lemma wake_all_counts:
  "weight slR (image_mset wake A) = 0" "weight wkR (image_mset wake A) = weight slR A + weight wkR A"
  "weight pdR (image_mset wake A) = weight pdR A" "weight slW (image_mset wake A) = 0"
  "weight wkW (image_mset wake A) = weight slW A + weight wkW A" "weight pdW (image_mset wake A) = weight pdW A"
  "weight turnR (image_mset wake A) = weight turnR A" "weight turnW (image_mset wake A) = weight turnW A"
  "weight msgs (image_mset wake A) = weight msgs A" "weight held (image_mset wake A) = weight held A"
  by (simp_all add: weight_image_mset wake_counts weight_plus)

lemma slR_E: "0 < slR x \<Longrightarrow> x = Rcv Asleep" by (cases x rule: slR.cases) auto
lemma slW_E: "0 < slW x \<Longrightarrow> \<exists>m. x = Snd Asleep m" by (cases x rule: slW.cases) auto

lemma no_sleeping_receiver: "Rcv Asleep \<notin># A \<Longrightarrow> weight slR A = 0"
  using weight_posE [of slR A] slR_E by (metis insert_noteq_member neq0_conv union_single_eq_member)

lemma no_sleeping_sender: "\<forall>m. Snd Asleep m \<notin># A \<Longrightarrow> weight slW A = 0"
  using weight_posE [of slW A] slW_E by (metis insert_noteq_member neq0_conv union_single_eq_member)

lemma signal_r_counts:
  "weight slR (signal_r A) = weight slR A - 1" "weight wkR (signal_r A) = weight wkR A + min 1 (weight slR A)"
  "weight pdR (signal_r A) = weight pdR A" "weight slW (signal_r A) = weight slW A"
  "weight wkW (signal_r A) = weight wkW A" "weight pdW (signal_r A) = weight pdW A"
  "weight turnR (signal_r A) = weight turnR A" "weight turnW (signal_r A) = weight turnW A"
  "weight msgs (signal_r A) = weight msgs A" "weight held (signal_r A) = weight held A"
proof -
  show "weight slR (signal_r A) = weight slR A - 1" "weight wkR (signal_r A) = weight wkR A + min 1 (weight slR A)"
  "weight pdR (signal_r A) = weight pdR A" "weight slW (signal_r A) = weight slW A"
  "weight wkW (signal_r A) = weight wkW A" "weight pdW (signal_r A) = weight pdW A"
  "weight turnR (signal_r A) = weight turnR A" "weight turnW (signal_r A) = weight turnW A"
  "weight msgs (signal_r A) = weight msgs A" "weight held (signal_r A) = weight held A"
    by (cases "Rcv Asleep \<in># A"; force simp: signal_r_def no_sleeping_receiver dest: multi_member_split)+
qed

lemmas counts = wake_counts wake_all_counts signal_r_counts no_sleeping_receiver no_sleeping_sender

section \<open>The sections on the abstract queue\<close>

lemma buffered_send_cases:
  assumes "buffered_chan_send m c = Some (r, c')" "que_wf (ch_qudata c)" "q_maxsize (ch_qudata c) \<noteq> 0"
  obtains (closed) "ch_closed c" "r = SFail" "c' = c"
  | (full) "\<not> ch_closed c" "length (que_list (ch_qudata c)) = unat (q_maxsize (ch_qudata c))"
      "r = SWait" "c' = c\<lparr>ch_wwait := ch_wwait c + 1\<rparr>"
  | (room) q where "\<not> ch_closed c" "length (que_list (ch_qudata c)) < unat (q_maxsize (ch_qudata c))"
      "r = SOk (0 < ch_rwait c)" "c' = c\<lparr>ch_qudata := q\<rparr>" "que_wf q"
      "que_list q = que_list (ch_qudata c) @ [m]" "q_maxsize q = q_maxsize (ch_qudata c)"
proof -
  let ?q = "ch_qudata c"
  have le: "length (que_list ?q) \<le> unat (q_maxsize ?q)" using que_wf_lengths(2) [OF assms(2)] by simp
  have isfull: "que_full ?q \<longleftrightarrow> length (que_list ?q) = unat (q_maxsize ?q)"
    using que_full_list [OF assms(2)] assms(3) by (simp add: unat_gt_0)
  show thesis
  proof (cases "ch_closed c")
    case True
    with assms(1) closed show ?thesis by (auto simp: buffered_chan_send_def split: if_splits)
  next
    case open': False
    show ?thesis
    proof (cases "que_full ?q")
      case True
      with assms(1) open' show ?thesis by (intro full) (auto simp: buffered_chan_send_def isfull)
    next
      case False
      then have "q_size ?q \<noteq> q_maxsize ?q" using isfull by auto
      from que_push_room [OF assms(2) this, of BUF_SIZE m] obtain q where q: "que_push BUF_SIZE ?q m = Some q"
        "que_wf q" "que_list q = que_list ?q @ [m]" "q_maxsize q = q_maxsize ?q" .
      with assms(1) open' False le show ?thesis
        by (intro room [of q]) (auto simp: buffered_chan_send_def isfull)
    qed
  qed
qed

lemma buffered_recv_cases:
  assumes "buffered_chan_recv c = Some (r, c')" "que_wf (ch_qudata c)"
  obtains (closed) "ch_closed c" "que_list (ch_qudata c) = []" "r = RNull" "c' = c"
  | (none) "\<not> ch_closed c" "que_list (ch_qudata c) = []" "r = RWait" "c' = c\<lparr>ch_rwait := ch_rwait c + 1\<rparr>"
  | (some) q m ms where "que_list (ch_qudata c) = m # ms" "r = RGot m (0 < ch_wwait c)"
      "c' = c\<lparr>ch_qudata := q\<rparr>" "que_wf q" "que_list q = ms" "q_maxsize q = q_maxsize (ch_qudata c)"
proof (cases "que_list (ch_qudata c)")
  case Nil
  with assms(1) closed none show ?thesis
    by (auto simp: buffered_chan_recv_def que_empty_list split: if_splits)
next
  case (Cons m ms)
  obtain p q where q: "que_pop (ch_qudata c) = (Some p, q)" "que_wf q" "que_list q = ms" "que_deref q (Some p) = Some m"
    by (rule que_pop_ok [OF assms(2) Cons])
  moreover have "q_maxsize q = q_maxsize (ch_qudata c)" using q(1) by (auto simp: que_pop_def split: if_splits)
  ultimately show ?thesis using assms(1) Cons
    by (intro some [of m ms q]) (auto simp: buffered_chan_recv_def que_empty_list)
qed

section \<open>Invariants\<close>

text \<open>Every message is accounted for, in both modes.\<close>

definition chan_total :: "'m chan \<Rightarrow> 'm call multiset \<Rightarrow> bool" where
  "chan_total c A \<longleftrightarrow> mset (ch_sent c) = mset (ch_ok c) + mset (ch_bad c) + weight msgs A"

text \<open>
  With a buffer: no wake-up is missing, i.e. of the waiting receivers as many are awake or have a
  signal on the way as there are messages for them, and of the senders as many as there are free slots.
\<close>

definition chan_buf :: "'m chan \<Rightarrow> 'm call multiset \<Rightarrow> bool" where
  "chan_buf c A \<longleftrightarrow> (let q = ch_qudata c; n = length (que_list q); mx = unat (q_maxsize q) in
     que_wf q \<and> q_maxsize q \<noteq> 0 \<and> weight turnR A = 0 \<and> weight turnW A = 0 \<and>
     ch_rwait c = weight slR A + weight wkR A \<and> ch_wwait c = weight slW A + weight wkW A \<and>
     min (ch_rwait c) n \<le> weight wkR A + weight pdR A \<and>
     min (ch_wwait c) (mx - n) \<le> weight wkW A + weight pdW A \<and>
     (ch_closed c \<longrightarrow> weight slR A = 0 \<and> weight slW A = 0) \<and>
     ch_ok c = ch_out c @ que_list q \<and> (ch_null c \<longrightarrow> ch_closed c \<and> que_list q = []))"

text \<open>Without one: the locks, the hand-over of one message, and again no missing wake-up.\<close>

definition lock_W :: "bool \<Rightarrow> nat \<Rightarrow> 'm call multiset \<Rightarrow> bool" where
  "lock_W wmu wwait A \<longleftrightarrow> weight turnW A + weight slW A + weight wkW A = of_bool wmu \<and>
     wwait \<le> weight slW A + weight wkW A"

definition lock_R :: "bool \<Rightarrow> nat \<Rightarrow> 'm call multiset \<Rightarrow> bool" where
  "lock_R rmu rwait A \<longleftrightarrow> weight turnR A + weight slR A + weight wkR A + weight pdW A = of_bool rmu \<and>
     rwait = weight slR A + weight wkR A"

definition rdv_wait :: "bool \<Rightarrow> nat \<Rightarrow> 'm call multiset \<Rightarrow> bool" where
  "rdv_wait closed wwait A \<longleftrightarrow>
     (0 < wwait \<longrightarrow> weight slR A = 0) \<and>
     (0 < weight slW A \<longrightarrow> wwait = 0 \<longrightarrow> 0 < weight pdW A) \<and>
     (closed \<longrightarrow> weight slR A = 0 \<and> (0 < weight slW A \<longrightarrow> 0 < weight wkR A + weight pdW A))"

definition rdv_msgs :: "'m chan \<Rightarrow> 'm call multiset \<Rightarrow> bool" where
  "rdv_msgs c A \<longleftrightarrow>
     (0 < ch_wwait c \<longrightarrow> (\<exists>m. ch_data c = Some m \<and> weight held A = {#m#}) \<and> ch_out c = ch_ok c) \<and>
     (ch_wwait c = 0 \<longrightarrow> (\<exists>ms. ch_out c = ch_ok c @ ms \<and> weight held A = mset ms)) \<and>
     (ch_null c \<longrightarrow> ch_closed c \<and> ch_wwait c = 0)"

definition chan_rdv :: "'m chan \<Rightarrow> 'm call multiset \<Rightarrow> bool" where
  "chan_rdv c A \<longleftrightarrow> weight pdR A = 0 \<and> lock_W (ch_wmu c) (ch_wwait c) A \<and> lock_R (ch_rmu c) (ch_rwait c) A \<and>
     rdv_wait (ch_closed c) (ch_wwait c) A \<and> rdv_msgs c A"

lemma chan_total_step:
  assumes "chan_step s s'"
  shows "(case s of (c, A) \<Rightarrow> chan_total c A) \<Longrightarrow> (case s' of (c, A) \<Rightarrow> chan_total c A)"
  using assms
proof cases
  case move
  then show "(case s of (c, A) \<Rightarrow> chan_total c A) \<Longrightarrow> (case s' of (c, A) \<Rightarrow> chan_total c A)"
    by cases (auto simp: chan_total_def counts buffered_chan_send_def buffered_chan_recv_def
        unbuffered_chan_send_def unbuffered_send_woken_def unbuffered_chan_recv_def split: if_splits prod.splits)
qed (auto simp: chan_total_def counts chan_close_def split: prod.splits if_splits)

lemma chan_buf_step:
  assumes "chan_step (c, A) (c', A')" "chan_buf c A" "ch_buffered c"
  shows "chan_buf c' A' \<and> ch_buffered c'"
  using assms(1)
proof cases
  case move
  then show ?thesis
  proof cases
    case (bsend m r c1 B)
    with assms(2) have "que_wf (ch_qudata c)" "q_maxsize (ch_qudata c) \<noteq> 0" by (simp_all add: chan_buf_def Let_def)
    from buffered_send_cases [OF bsend(5) this] bsend assms(2,3) show ?thesis
      by cases ((auto simp: chan_buf_def Let_def simp del: length_que_list; linarith)+)
  next
    case (bsend_woken m r c1 B)
    with assms(2) have "que_wf (ch_qudata (c\<lparr>ch_wwait := ch_wwait c - 1\<rparr>))"
      "q_maxsize (ch_qudata (c\<lparr>ch_wwait := ch_wwait c - 1\<rparr>)) \<noteq> 0" by (simp_all add: chan_buf_def Let_def)
    from buffered_send_cases [OF bsend_woken(5) this] bsend_woken assms(2,3) show ?thesis
      by cases ((auto simp: chan_buf_def Let_def simp del: length_que_list; linarith)+)
  next
    case (brecv r c1 B)
    with assms(2) have "que_wf (ch_qudata c)" by (simp_all add: chan_buf_def Let_def)
    from buffered_recv_cases [OF brecv(5) this] brecv assms(2,3) show ?thesis
      by cases ((auto simp: chan_buf_def Let_def simp del: length_que_list; linarith)+)
  next
    case (brecv_woken r c1 B)
    with assms(2) have "que_wf (ch_qudata (c\<lparr>ch_rwait := ch_rwait c - 1\<rparr>))" by (simp_all add: chan_buf_def Let_def)
    from buffered_recv_cases [OF brecv_woken(5) this] brecv_woken assms(2,3) show ?thesis
      by cases ((auto simp: chan_buf_def Let_def simp del: length_que_list; linarith)+)
  qed (use assms(2,3) in \<open>auto simp: chan_buf_def Let_def counts\<close>)
next
  case (spurious x B)
  with assms(2,3) show ?thesis
    by (cases x rule: wake.cases) (auto simp: chan_buf_def Let_def)
qed (use assms(2,3) in \<open>auto simp: chan_buf_def Let_def counts chan_close_def split: if_splits\<close>)

end
