(* ===== verification/Chan_Laws.thy ===== *)
theory Chan_Laws
  imports Chan
begin

text \<open>
  What the channel of \<open>lib/utils/chan.c\<close> promises to the threads that use it: the invariant of the
  hand-over without a buffer, delivery, the end of the stream after \<open>chan_close\<close>, and the absence
  of lost wake-ups. Both modes are covered; a capacity above \<open>2 ^ 31\<close> is outside the ring queue's range.
\<close>

section \<open>The hand-over without a buffer\<close>

lemma held_none: "weight slW A = 0 \<Longrightarrow> weight wkW A = 0 \<Longrightarrow> weight held A = {#}"
proof (induction A)
  case (add x A)
  then show ?case by (cases x rule: held.cases) auto
qed simp

text \<open>A call that holds one of the locks is the only one, and nothing else of its side is waiting.\<close>

definition no_W :: "'m call multiset \<Rightarrow> bool" where
  "no_W A \<longleftrightarrow> weight turnW A = 0 \<and> weight slW A = 0 \<and> weight wkW A = 0 \<and> weight held A = {#}"
definition no_R :: "'m call multiset \<Rightarrow> bool" where
  "no_R A \<longleftrightarrow> weight turnR A = 0 \<and> weight slR A = 0 \<and> weight wkR A = 0 \<and> weight pdW A = 0"

lemma lock_W_simps [simp]:
  "lock_W w n (add_mset (Snd Turn m) A) \<longleftrightarrow> w \<and> no_W A \<and> n = 0"
  "lock_W w n (add_mset (Snd Asleep m) A) \<longleftrightarrow> w \<and> no_W A \<and> n \<le> 1"
  "lock_W w n (add_mset (Snd Woken m) A) \<longleftrightarrow> w \<and> no_W A \<and> n \<le> 1"
  "lock_W w n (add_mset (Snd Enter m) A) \<longleftrightarrow> lock_W w n A" "lock_W w n (add_mset (Call m) A) \<longleftrightarrow> lock_W w n A"
  "lock_W w n (add_mset (Rcv p) A) \<longleftrightarrow> lock_W w n A"
  "lock_W w n (add_mset SigR A) \<longleftrightarrow> lock_W w n A" "lock_W w n (add_mset SigW A) \<longleftrightarrow> lock_W w n A"
  "lock_W w n (signal_r A) \<longleftrightarrow> lock_W w n A" "lock_W w n (image_mset wake A) \<longleftrightarrow> lock_W w n A"
  by (auto simp: lock_W_def no_W_def held_none signal_r_counts wake_all_counts)

lemma lock_R_simps [simp]:
  "lock_R w n (add_mset (Rcv Turn) A) \<longleftrightarrow> w \<and> no_R A \<and> n = 0"
  "lock_R w n (add_mset (Rcv Asleep) A) \<longleftrightarrow> w \<and> no_R A \<and> n = 1"
  "lock_R w n (add_mset (Rcv Woken) A) \<longleftrightarrow> w \<and> no_R A \<and> n = 1"
  "lock_R w n (add_mset SigW A) \<longleftrightarrow> w \<and> no_R A \<and> n = 0"
  "lock_R w n (add_mset (Rcv Enter) A) \<longleftrightarrow> lock_R w n A" "lock_R w n (add_mset (Call m) A) \<longleftrightarrow> lock_R w n A"
  "lock_R w n (add_mset (Snd p m) A) \<longleftrightarrow> lock_R w n A" "lock_R w n (add_mset SigR A) \<longleftrightarrow> lock_R w n A"
  "lock_R w n (signal_r A) \<longleftrightarrow> lock_R w n A" "lock_R w n (image_mset wake A) \<longleftrightarrow> lock_R w n A"
  by (auto simp: lock_R_def no_R_def signal_r_counts wake_all_counts)

lemma lock_free [simp]:
  "lock_W False n A \<longleftrightarrow> no_W A \<and> n = 0" "lock_R False n A \<longleftrightarrow> no_R A \<and> n = 0"
  by (auto simp: lock_W_def no_W_def held_none lock_R_def no_R_def)

lemma lock_take: "lock_W w n A \<Longrightarrow> lock_W w (n - Suc 0) A" "lock_W w n A \<Longrightarrow> n \<le> Suc 0"
  by (auto simp: lock_W_def of_bool_def split: if_splits)

lemma lock_W_0: "lock_W w n A \<Longrightarrow> lock_W w 0 A"
  by (simp add: lock_W_def)

lemma lock_R_facts:
  "lock_R w n A \<Longrightarrow> weight slR A \<le> Suc 0" "lock_R w 0 A \<Longrightarrow> weight slR A = 0"
  "lock_R w n A \<Longrightarrow> weight slR A = 0 \<Longrightarrow> weight wkR A = n"
  by (auto simp: lock_R_def of_bool_def split: if_splits)

lemmas rdv_defs = chan_rdv_def rdv_wait_def rdv_msgs_def no_W_def no_R_def

lemma rdv_usend:
  assumes "unbuffered_chan_send m c = (r, s, c1)" "chan_rdv c (add_mset (Snd Turn m) B)"
  shows "chan_rdv (snd_ret m r c1) (snd_next m r + (if s then signal_r B else B))"
  using assms
  by (auto simp: rdv_defs counts unbuffered_chan_send_def lock_R_facts split: if_splits)

lemma rdv_usend_woken:
  assumes "unbuffered_send_woken c = (r, c1)" "chan_rdv c (add_mset (Snd Woken m) B)"
  shows "chan_rdv (snd_ret m r c1) (snd_next m r + B)"
  using assms by (auto simp: rdv_defs counts unbuffered_send_woken_def dest: lock_R_facts(3) split: if_splits)

lemma rdv_urecv:
  assumes "unbuffered_chan_recv c = Some (r, c1)" "chan_rdv c (add_mset (Rcv Turn) B)"
  shows "chan_rdv (rcv_ret r c1) (rcv_next r + B)"
  using assms by (auto simp: rdv_defs counts unbuffered_chan_recv_def lock_take dest: lock_take(2) intro: lock_W_0 split: if_splits)

lemma rdv_urecv_woken:
  assumes "unbuffered_chan_recv (c\<lparr>ch_rwait := ch_rwait c - 1\<rparr>) = Some (r, c1)" "chan_rdv c (add_mset (Rcv Woken) B)"
  shows "chan_rdv (rcv_ret r c1) (rcv_next r + B)"
  using assms by (auto simp: rdv_defs counts unbuffered_chan_recv_def lock_take dest: lock_take(2) intro: lock_W_0 split: if_splits)

lemma chan_rdv_step:
  assumes "chan_step (c, A) (c', A')" "chan_rdv c A" "\<not> ch_buffered c"
  shows "chan_rdv c' A'"
  using assms(1)
proof cases
  case move
  then show ?thesis
  proof cases
    case (usend m r s c1 B)
    with assms(2) rdv_usend [OF usend(5), of B] show ?thesis by simp
  next
    case (usend_woken r c1 m B)
    with assms(2) rdv_usend_woken [OF usend_woken(5), of m B] show ?thesis by simp
  next
    case (urecv r c1 B)
    with assms(2) rdv_urecv [OF urecv(5), of B] show ?thesis by simp
  next
    case (urecv_woken r c1 B)
    with assms(2) rdv_urecv_woken [OF urecv_woken(5), of B] show ?thesis by simp
  next
    case (lock_w m B)
    with assms(2) show ?thesis by (auto simp: rdv_defs)
  next
    case (lock_r B)
    with assms(2) show ?thesis by (auto simp: rdv_defs)
  next
    case (sig_w_one B m)
    with assms(2) show ?thesis by (auto simp: rdv_defs)
  next
    case sig_w_none
    with assms(2) show ?thesis by (auto simp: rdv_defs counts)
  next
    case (call_closed m)
    with assms(2) show ?thesis by (auto simp: rdv_defs)
  next
    case (call_open m A)
    with assms(2) show ?thesis by (auto simp: rdv_defs)
  next
    case (sig_r A)
    with assms(2) show ?thesis by (auto simp: rdv_defs)
  qed (use assms(3) in simp_all)
next
  case (start_send m)
  with assms(2) show ?thesis by (simp add: rdv_defs)
next
  case start_recv
  with assms(2) show ?thesis by (simp add: rdv_defs)
next
  case close
  with assms(2) show ?thesis by (auto simp: rdv_defs counts chan_close_def split: if_splits)
next
  case (spurious x B)
  with assms(2) show ?thesis by (cases x rule: wake.cases) (auto simp: rdv_defs)
qed
section \<open>Reachable states\<close>

definition chan_inv :: "'m chan \<Rightarrow> 'm call multiset \<Rightarrow> bool" where
  "chan_inv c A \<longleftrightarrow> chan_total c A \<and> (if ch_buffered c then chan_buf c A else chan_rdv c A)"


lemma ret_buffered [simp]: "ch_buffered (snd_ret m r c) = ch_buffered c" "ch_buffered (rcv_ret q c) = ch_buffered c"
  by (cases r; simp) (cases q; simp)

lemma chan_mode:
  assumes "chan_step (c, A) (c', A')"
  shows "ch_buffered c' = ch_buffered c"
  using assms
proof cases
  case move
  then show ?thesis
    by cases (auto simp: buffered_chan_send_def buffered_chan_recv_def unbuffered_chan_send_def
        unbuffered_send_woken_def unbuffered_chan_recv_def split: if_splits prod.splits)
qed (auto simp: chan_close_def split: if_splits)

lemma chan_inv_step: "chan_step (c, A) (c', A') \<Longrightarrow> chan_inv c A \<Longrightarrow> chan_inv c' A' \<and> ch_buffered c' = ch_buffered c"
  using chan_total_step [of "(c, A)" "(c', A')"] chan_buf_step [of c A c' A'] chan_rdv_step [of c A c' A'] chan_mode
  by (auto simp: chan_inv_def split: if_splits)

lemma chan_steps_inv:
  assumes "chan_step\<^sup>*\<^sup>* (c, A) (c', A')" "chan_inv c A"
  shows "chan_inv c' A' \<and> ch_buffered c' = ch_buffered c"
  using assms by (induction rule: rtranclp_induct2) (auto dest: chan_inv_step)

text \<open>The capacity never changes.\<close>

lemma ret_qudata [simp]: "ch_qudata (snd_ret m r c) = ch_qudata c" "ch_qudata (rcv_ret q c) = ch_qudata c"
  by (cases r; simp) (cases q; simp)

lemma buffered_capacity:
  assumes "que_wf (ch_qudata c)" "q_maxsize (ch_qudata c) \<noteq> 0"
  shows "buffered_chan_send m c = Some (r, c') \<Longrightarrow> q_maxsize (ch_qudata c') = q_maxsize (ch_qudata c)"
    and "buffered_chan_recv c = Some (r', c') \<Longrightarrow> q_maxsize (ch_qudata c') = q_maxsize (ch_qudata c)"
proof -
  show "buffered_chan_send m c = Some (r, c') \<Longrightarrow> q_maxsize (ch_qudata c') = q_maxsize (ch_qudata c)"
    by (erule buffered_send_cases [OF _ assms]) auto
  show "buffered_chan_recv c = Some (r', c') \<Longrightarrow> q_maxsize (ch_qudata c') = q_maxsize (ch_qudata c)"
    by (erule buffered_recv_cases [OF _ assms(1)]) auto
qed

lemma chan_capacity:
  assumes "chan_step (c, A) (c', A')" "chan_inv c A" "ch_buffered c"
  shows "q_maxsize (ch_qudata c') = q_maxsize (ch_qudata c)"
  using assms(1)
proof cases
  case move
  from assms(2,3) have "que_wf (ch_qudata c)" "q_maxsize (ch_qudata c) \<noteq> 0"
    by (simp_all add: chan_inv_def chan_buf_def Let_def)
  then have q: "que_wf (ch_qudata (c\<lparr>ch_wwait := n\<rparr>))" "q_maxsize (ch_qudata (c\<lparr>ch_wwait := n\<rparr>)) \<noteq> 0"
    "que_wf (ch_qudata (c\<lparr>ch_rwait := n\<rparr>))" "q_maxsize (ch_qudata (c\<lparr>ch_rwait := n\<rparr>)) \<noteq> 0"
    "que_wf (ch_qudata c)" "q_maxsize (ch_qudata c) \<noteq> 0" for n by simp_all
  from move show ?thesis
  proof cases
    case (bsend m r c1 B)
    then show ?thesis using buffered_capacity(1) [OF q(5,6) bsend(5)] by simp
  next
    case (bsend_woken m r c1 B)
    then show ?thesis using buffered_capacity(1) [OF q(1,2) bsend_woken(5)] by simp
  next
    case (brecv r c1 B)
    then show ?thesis using buffered_capacity(2) [OF q(5,6) brecv(5)] by simp
  next
    case (brecv_woken r c1 B)
    then show ?thesis using buffered_capacity(2) [OF q(3,4) brecv_woken(5)] by simp
  qed (use assms(3) in simp_all)
qed (auto simp: chan_close_def split: if_splits)

lemma chan_init_ok:
  fixes c :: "'a chan"
  assumes "chan_init capacity = Some c" "unat capacity \<le> 2 ^ 31"
  shows "chan_inv c {#}" "ch_buffered c \<longleftrightarrow> 0 < capacity"
    "0 < capacity \<Longrightarrow> unat (q_maxsize (ch_qudata c)) \<le> max 2 (2 * unat capacity)"
proof -
  have "BUF_SIZE \<le> SIZE_MAX div 2 ^ 31" by (simp add: BUF_SIZE_def)
  then obtain q :: "'a que" where q: "que_init BUF_SIZE capacity = Some q" "que_wf q" "que_list q = []"
    "capacity \<noteq> 0 \<Longrightarrow> unat capacity \<le> unat (q_maxsize q)" "unat (q_maxsize q) \<le> max 2 (2 * unat capacity)"
    by (rule que_init_ok [OF assms(2)]) (rule that)
  show "ch_buffered c \<longleftrightarrow> 0 < capacity" using assms(1) q(1) by (auto simp: chan_init_def split: if_splits)
  show "0 < capacity \<Longrightarrow> unat (q_maxsize (ch_qudata c)) \<le> max 2 (2 * unat capacity)"
  proof -
    assume "0 < capacity"
    with assms(1) q(1) have "ch_qudata c = q" by (auto simp: chan_init_def)
    with q(5) show ?thesis by simp
  qed
  show "chan_inv c {#}"
  proof (cases "0 < capacity")
    case True
    then have "0 < unat capacity" by (simp add: word_less_nat_alt)
    with q(4) have "q_maxsize q \<noteq> 0" by (metis gr_implies_not0 leD le_zero_eq unat_eq_zero unat_0)
    with True assms(1) q(1,2,3) show ?thesis by (auto simp: chan_init_def chan_inv_def chan_total_def chan_buf_def)
  next
    case False
    with assms(1) show ?thesis
      by (auto simp: chan_init_def chan_inv_def chan_total_def chan_rdv_def no_W_def no_R_def rdv_wait_def rdv_msgs_def)
  qed
qed

lemma chan_reachable_inv:
  assumes "chan_reachable capacity (c, A)" "unat capacity \<le> 2 ^ 31"
  shows "chan_inv c A \<and> ch_buffered c = (0 < capacity) \<and>
    (0 < capacity \<longrightarrow> unat (q_maxsize (ch_qudata c)) \<le> max 2 (2 * unat capacity))"
  using assms(1)
proof (induction "(c, A)" arbitrary: c A)
  case (init c)
  with chan_init_ok assms(2) show ?case by blast
next
  case (step s c' A')
  obtain c A where s: "s = (c, A)" by (cases s)
  with step(2) have IH: "chan_inv c A" "ch_buffered c = (0 < capacity)"
    "0 < capacity \<longrightarrow> unat (q_maxsize (ch_qudata c)) \<le> max 2 (2 * unat capacity)" by simp_all
  from step(3) have "chan_step (c, A) (c', A')" by (simp add: s)
  from chan_inv_step [OF this IH(1)] chan_capacity [OF this IH(1)] IH(2,3) show ?case by simp
qed

lemma subseteq_add: "A \<subseteq># B \<Longrightarrow> A \<subseteq># add_mset x B"
  by (metis add_mset_add_single mset_subset_eq_add_left subset_mset.trans)

lemma held_msgs: "weight held A \<subseteq># weight msgs A"
proof (induction A)
  case (add x A)
  then show ?case by (cases x rule: held.cases) (auto intro: subseteq_add)
qed simp


section \<open>What the channel promises\<close>


lemma null_step:
  assumes "chan_step (c, A) (c', A')" "chan_inv c A" "ch_null c"
  shows "ch_null c' \<and> ch_out c' = ch_out c"
  using assms(1)
proof cases
  case move
  from assms(2,3) have b: "ch_buffered c \<Longrightarrow> ch_closed c \<and> que_wf (ch_qudata c) \<and> que_list (ch_qudata c) = []"
    and u: "\<not> ch_buffered c \<Longrightarrow> ch_closed c \<and> ch_wwait c = 0"
    by (simp_all add: chan_inv_def chan_buf_def chan_rdv_def rdv_msgs_def Let_def)
  have ret: "ch_null (snd_ret m r k) = ch_null k" "ch_out (snd_ret m r k) = ch_out k" for m :: 'a and r k
    by (cases r; simp)+
  from move show ?thesis
    by cases (use b u assms(3) in \<open>auto simp: ret que_empty_list buffered_chan_send_def buffered_chan_recv_def
      unbuffered_chan_send_def unbuffered_send_woken_def unbuffered_chan_recv_def split: if_splits\<close>)
qed (use assms(3) in \<open>auto simp: chan_close_def split: if_splits\<close>)

text \<open>
  C30: \<open>chan_recv\<close> returns NULL only when the channel is closed and drained for good: from then on
  nothing more is ever received, and every message whose \<open>chan_send\<close> reports success, then or
  later, is among those already received.
\<close>

theorem chan_null_is_final:
  assumes "chan_reachable capacity (c, A)" "unat capacity \<le> 2 ^ 31" "ch_null c" "chan_step\<^sup>*\<^sup>* (c, A) (c', A')"
  shows "ch_closed c' \<and> ch_out c' = ch_out c \<and> (\<exists>ms. ch_out c = ch_ok c' @ ms)"
proof -
  have inv: "chan_inv c A" using chan_reachable_inv [OF assms(1,2)] by simp
  have s: "chan_inv c' A' \<and> ch_null c' \<and> ch_out c' = ch_out c"
    using assms(4) inv assms(3)
    by (induction rule: rtranclp_induct2) (auto dest: null_step chan_inv_step)
  then have "ch_closed c' \<and> (\<exists>ms. ch_out c' = ch_ok c' @ ms)"
  proof (cases "ch_buffered c'")
    case False
    with s have "rdv_msgs c' A'" "ch_null c'" by (simp_all add: chan_inv_def chan_rdv_def)
    then show ?thesis unfolding rdv_msgs_def by metis
  qed (simp add: chan_inv_def chan_buf_def Let_def)
  with s show ?thesis by simp
qed

subsection \<open>No call is left asleep\<close>

lemma buffered_total:
  assumes "que_wf (ch_qudata c)" "q_maxsize (ch_qudata c) \<noteq> 0"
  shows "\<exists>r c'. buffered_chan_send m c = Some (r, c')" "\<exists>r c'. buffered_chan_recv c = Some (r, c')"
proof -
  show "\<exists>r c'. buffered_chan_send m c = Some (r, c')"
  proof (cases "que_full (ch_qudata c)")
    case False
    with assms have "q_size (ch_qudata c) \<noteq> q_maxsize (ch_qudata c)" by (auto simp: que_full_def)
    from que_push_room [OF assms(1) this, of BUF_SIZE m] False show ?thesis by (auto simp: buffered_chan_send_def)
  qed (auto simp: buffered_chan_send_def)
  show "\<exists>r c'. buffered_chan_recv c = Some (r, c')"
  proof (cases "que_list (ch_qudata c)")
    case (Cons x xs)
    from que_pop_ok [OF assms(1) Cons] Cons show ?thesis by (fastforce simp: buffered_chan_recv_def que_empty_list)
  qed (auto simp: buffered_chan_recv_def que_empty_list)
qed

lemma unbuffered_recv_total: "(0 < ch_wwait c \<Longrightarrow> ch_data c \<noteq> None) \<Longrightarrow> \<exists>r c'. unbuffered_chan_recv c = Some (r, c')"
  by (auto simp: unbuffered_chan_recv_def)


definition all_blocked :: "'m chan \<Rightarrow> 'm call multiset \<Rightarrow> bool" where
  "all_blocked c A \<longleftrightarrow> (\<forall>s'. \<not> chan_move (c, A) s')"

lemma can_move:
  assumes "chan_inv c A" "x \<in># A" "all_blocked c A"
  shows "x = Rcv Asleep \<or> (\<exists>m. x = Snd Asleep m) \<or>
    \<not> ch_buffered c \<and> (x = Rcv Enter \<and> ch_rmu c \<or> (\<exists>m. x = Snd Enter m) \<and> ch_wmu c)"
proof -
  obtain B where A: "A = add_mset x B" using assms(2) by (metis insert_DiffM)
  have no: "\<not> chan_move (c, add_mset x B) s'" for s' using assms(3) A by (cases s') (auto simp: all_blocked_def)
  have b: "que_wf (ch_qudata c) \<and> q_maxsize (ch_qudata c) \<noteq> 0 \<and> weight turnR A = 0 \<and> weight turnW A = 0"
    if "ch_buffered c" using assms(1) that by (simp add: chan_inv_def chan_buf_def Let_def)
  have u: "0 < ch_wwait c \<Longrightarrow> ch_data c \<noteq> None" if "\<not> ch_buffered c"
    using assms(1) that by (auto simp: chan_inv_def chan_rdv_def rdv_msgs_def)
  show ?thesis
  proof (cases x)
    case (Call m)
    with no call_closed [of c m B] call_open [of c m B] show ?thesis by blast
  next
    case (Snd p m)
    show ?thesis
    proof (cases "ch_buffered c")
      case True
      with b Snd A buffered_total(1) [of c m] buffered_total(1) [of "c\<lparr>ch_wwait := ch_wwait c - 1\<rparr>" m]
        bsend [OF True, of m _ _ B] bsend_woken [OF True, of m _ _ B] no
      show ?thesis by (cases p) (simp_all, blast+)
    next
      case False
      obtain r s c1 where us: "unbuffered_chan_send m c = (r, s, c1)" by (metis prod_cases3)
      obtain r' c2 where uw: "unbuffered_send_woken c = (r', c2)" by (metis surj_pair)
      from False Snd no lock_w [of c m B] usend [OF False us, of B] usend_woken [OF False uw, of m B]
      show ?thesis by (cases p) (simp_all, blast+)
    qed
  next
    case (Rcv p)
    show ?thesis
    proof (cases "ch_buffered c")
      case True
      with b Rcv A buffered_total(2) [of c] buffered_total(2) [of "c\<lparr>ch_rwait := ch_rwait c - 1\<rparr>"]
        brecv [OF True, of _ _ B] brecv_woken [OF True, of _ _ B] no
      show ?thesis by (cases p) (simp_all, blast+)
    next
      case False
      with u Rcv no lock_r [of c B] unbuffered_recv_total [of c] unbuffered_recv_total [of "c\<lparr>ch_rwait := ch_rwait c - 1\<rparr>"]
        urecv [of c _ _ B] urecv_woken [of c _ _ B]
      show ?thesis by (cases p) (simp_all, blast+)
    qed
  next
    case SigR
    with no sig_r [of c B] show ?thesis by blast
  next
    case SigW
    show ?thesis
    proof (cases "\<exists>m. Snd Asleep m \<in># B")
      case True
      then obtain m B' where "B = add_mset (Snd Asleep m) B'" by (metis insert_DiffM)
      with SigW no sig_w_one [of c m B'] show ?thesis by blast
    next
      case False
      with SigW no sig_w_none [of B c] show ?thesis by blast
    qed
  qed
qed


lemma positive_count: "x \<in># A \<Longrightarrow> f x \<le> weight f A" for f :: "'a \<Rightarrow> nat"
  by (auto dest!: multi_member_split)

lemma blocked_counts:
  assumes "chan_inv c A" "all_blocked c A"
  shows "weight wkR A = 0" "weight pdR A = 0" "weight wkW A = 0" "weight pdW A = 0"
    "weight turnR A = 0" "weight turnW A = 0"
  unfolding weight_0 using can_move [OF assms(1) _ assms(2)] by fastforce+

lemma blocked_buffered:
  assumes inv: "chan_inv c A" and blk: "all_blocked c A" and buf: "ch_buffered c" and ne: "A \<noteq> {#}"
  defines "n \<equiv> length (que_list (ch_qudata c))" and "mx \<equiv> unat (q_maxsize (ch_qudata c))"
  shows "\<not> ch_closed c" "(\<forall>x\<in>#A. x = Rcv Asleep) \<and> n = 0 \<or> (\<forall>x\<in>#A. \<exists>m. x = Snd Asleep m) \<and> n = mx"
proof -
  note z = blocked_counts [OF inv blk]
  have b: "chan_buf c A" using inv buf by (simp add: chan_inv_def)
  then have eqs: "ch_rwait c = weight slR A + weight wkR A" "ch_wwait c = weight slW A + weight wkW A"
    "min (ch_rwait c) n \<le> weight wkR A + weight pdR A" "min (ch_wwait c) (mx - n) \<le> weight wkW A + weight pdW A"
    and wf: "que_wf (ch_qudata c)" "q_maxsize (ch_qudata c) \<noteq> 0"
    and cl: "ch_closed c \<longrightarrow> weight slR A = 0 \<and> weight slW A = 0"
    unfolding chan_buf_def Let_def n_def mx_def by blast+
  have m: "min (weight slR A) n = 0" "min (weight slW A) (mx - n) = 0" using eqs z by simp_all
  have mx: "0 < mx" "n \<le> mx" using wf(2) que_wf_lengths(2) [OF wf(1)] by (simp_all add: mx_def n_def unat_gt_0)
  have asleep: "x = Rcv Asleep \<or> (\<exists>m. x = Snd Asleep m)" if "x \<in># A" for x
    using can_move [OF inv that blk] buf by blast
  have rcv: "0 < weight slR A" if "Rcv Asleep \<in># A" using positive_count [OF that, of slR] by simp
  have snd: "0 < weight slW A" if "Snd Asleep m \<in># A" for m using positive_count [OF that, of slW] by simp
  obtain y where y: "y \<in># A" using ne by (meson multiset_nonemptyE)
  then have some: "0 < weight slR A \<or> 0 < weight slW A" using asleep [OF y] by (auto dest: rcv snd)
  then show "\<not> ch_closed c" using cl by auto
  show "(\<forall>x\<in>#A. x = Rcv Asleep) \<and> n = 0 \<or> (\<forall>x\<in>#A. \<exists>m. x = Snd Asleep m) \<and> n = mx"
  proof (cases "0 < weight slR A")
    case True
    then have n0: "n = 0" using m(1) by simp
    then have "weight slW A = 0" using m(2) mx(1) by simp
    with n0 asleep show ?thesis by (fastforce dest: snd)
  next
    case False
    then have "0 < weight slW A" using some by simp
    then have "n = mx" using m(2) mx(2) by simp
    with False asleep show ?thesis by (fastforce dest: rcv)
  qed
qed

lemma blocked_unbuffered:
  assumes inv: "chan_inv c A" and blk: "all_blocked c A" and buf: "\<not> ch_buffered c" and ne: "A \<noteq> {#}"
  shows "\<not> ch_closed c" "(\<forall>x\<in>#A. \<exists>p. x = Rcv p) \<and> ch_wwait c = 0 \<or> (\<forall>x\<in>#A. \<exists>p m. x = Snd p m) \<and> ch_rwait c = 0"
proof -
  note z = blocked_counts [OF inv blk]
  from inv buf have r: "lock_W (ch_wmu c) (ch_wwait c) A" "lock_R (ch_rmu c) (ch_rwait c) A"
    "rdv_wait (ch_closed c) (ch_wwait c) A" by (simp_all add: chan_inv_def chan_rdv_def)
  have rcv: "0 < weight slR A" if "Rcv p \<in># A" for p
    using positive_count [OF that, of slR] can_move [OF inv that blk] r(2) z by (cases p) (auto simp: lock_R_def of_bool_def split: if_splits)
  have snd: "0 < weight slW A" if "Snd p m \<in># A" for p m
    using positive_count [OF that, of slW] can_move [OF inv that blk] r(1) z by (cases p) (auto simp: lock_W_def of_bool_def split: if_splits)
  have kinds: "(\<exists>p. x = Rcv p) \<or> (\<exists>p m. x = Snd p m)" if "x \<in># A" for x using can_move [OF inv that blk] by blast
  have one: "weight slR A = 0 \<or> weight slW A = 0" using r(3) z by (auto simp: rdv_wait_def)
  obtain y where y: "y \<in># A" using ne by (meson multiset_nonemptyE)
  then have some: "0 < weight slR A \<or> 0 < weight slW A" using kinds [OF y] by (auto dest: rcv snd)
  then show "\<not> ch_closed c" using r(3) z by (auto simp: rdv_wait_def)
  have "ch_wwait c = 0" if "weight slW A = 0" using that r(1) z by (simp add: lock_W_def)
  moreover have "ch_rwait c = 0" if "weight slR A = 0" using that r(2) z by (simp add: lock_R_def)
  ultimately show "(\<forall>x\<in>#A. \<exists>p. x = Rcv p) \<and> ch_wwait c = 0 \<or> (\<forall>x\<in>#A. \<exists>p m. x = Snd p m) \<and> ch_rwait c = 0"
    using one kinds rcv snd by (metis less_numeral_extra(3))
qed

text \<open>
  C17: No wake-up is ever lost. If calls are in progress and none of them can go on, the channel is
  open and either all of them receive and there is nothing to receive, or all of them send and there
  is no room: exactly when \<open>chan_can_recv\<close> or \<open>chan_can_send\<close> say so. In particular after
  \<open>chan_close\<close> every call comes to its end.
\<close>

theorem chan_no_lost_wakeup:
  assumes "chan_reachable capacity (c, A)" "unat capacity \<le> 2 ^ 31" "all_blocked c A" "A \<noteq> {#}"
  shows "\<not> ch_closed c \<and> ((\<forall>x\<in>#A. \<exists>p. x = Rcv p) \<and> \<not> chan_can_recv c \<or> (\<forall>x\<in>#A. \<exists>p m. x = Snd p m) \<and> \<not> chan_can_send c)"
proof -
  have inv: "chan_inv c A" using chan_reachable_inv [OF assms(1,2)] by simp
  show ?thesis
  proof (cases "ch_buffered c")
    case True
    then have wf: "que_wf (ch_qudata c)" "q_maxsize (ch_qudata c) \<noteq> 0"
      using inv by (simp_all add: chan_inv_def chan_buf_def Let_def)
    have "que_list (ch_qudata c) = [] \<longrightarrow> \<not> chan_can_recv c"
      using True que_empty_list [of "ch_qudata c"] by (auto simp: chan_can_recv_def chan_size_def que_empty_def)
    moreover have "length (que_list (ch_qudata c)) = unat (q_maxsize (ch_qudata c)) \<longrightarrow> \<not> chan_can_send c"
      using True que_full_list [OF wf(1)] wf(2) by (simp add: chan_can_send_def unat_gt_0)
    ultimately show ?thesis
      using blocked_buffered [OF inv assms(3) True assms(4)] by (simp del: length_que_list) blast
  next
    case False
    then show ?thesis
      using blocked_unbuffered [OF inv assms(3) False assms(4)] by (simp add: chan_can_recv_def chan_can_send_def)
  qed
qed

subsection \<open>Concrete runs\<close>

definition demo_chan :: "u32 \<Rightarrow> nat chan" where
  "demo_chan capacity = the (chan_init capacity)"

lemma demo_init: "chan_init 2 = Some (demo_chan 2)" "chan_init 0 = Some (demo_chan 0)"
proof -
  obtain q :: "nat que" where "que_init BUF_SIZE 2 = Some q"
    by (rule que_init_ok [of 2 BUF_SIZE]) (simp_all add: BUF_SIZE_def)
  then show "chan_init 2 = Some (demo_chan 2)" by (simp add: chan_init_def demo_chan_def)
qed (simp add: chan_init_def demo_chan_def)

lemma init_fields:
  assumes "chan_init n = Some c"
  shows "ch_sent c = []" "ch_ok c = []" "ch_out c = []" "\<not> ch_rmu c" "\<not> ch_closed c" "ch_wwait c = 0" "ch_rwait c = 0"
    "ch_buffered c \<longleftrightarrow> 0 < n"
  using assms by (auto simp: chan_init_def split: if_splits)

lemma demo_sending: "chan_reachable 2 ((demo_chan 2)\<lparr>ch_sent := [7]\<rparr>, {#Call 7#})"
proof -
  have "chan_step (demo_chan 2, {#}) ((demo_chan 2)\<lparr>ch_sent := ch_sent (demo_chan 2) @ [7]\<rparr>, {#Call 7#})"
    by (rule start_send)
  moreover have "ch_sent (demo_chan 2) = []" by (rule init_fields [OF demo_init(1)])
  ultimately show ?thesis using chan_reachable.intros demo_init(1) by fastforce
qed


lemma demo_waiting: "chan_reachable 0 ((demo_chan 0)\<lparr>ch_rmu := True, ch_rwait := 1\<rparr>, {#Rcv Asleep#})"
proof -
  have f: "\<not> ch_buffered (demo_chan 0)" "\<not> ch_rmu (demo_chan 0)" "\<not> ch_closed (demo_chan 0)"
    "ch_wwait (demo_chan 0) = 0" "ch_rwait (demo_chan 0) = 0" using init_fields [OF demo_init(2)] by simp_all
  note R = chan_reachable.step
  have "chan_reachable 0 (demo_chan 0, {#Rcv Enter#})"
    using R [OF chan_reachable.init [OF demo_init(2)] start_recv] by simp
  from R [OF this move, OF lock_r [OF f(1,2)]]
  have "chan_reachable 0 ((demo_chan 0)\<lparr>ch_rmu := True\<rparr>, {#Rcv Turn#})" .
  moreover have "unbuffered_chan_recv ((demo_chan 0)\<lparr>ch_rmu := True\<rparr>) =
      Some (RWait, (demo_chan 0)\<lparr>ch_rmu := True, ch_rwait := 1\<rparr>)"
    using f by (simp add: unbuffered_chan_recv_def)
  ultimately show ?thesis using R [OF _ move, OF _ urecv] f(1) by fastforce
qed

theorem chan_no_lost_wakeup_witness:
  "\<not> ch_closed ((demo_chan 0)\<lparr>ch_rmu := True, ch_rwait := 1\<rparr>) \<and> \<not> chan_can_recv ((demo_chan 0)\<lparr>ch_rmu := True, ch_rwait := 1\<rparr>)"
proof -
  have "all_blocked ((demo_chan 0)\<lparr>ch_rmu := True, ch_rwait := 1\<rparr>) {#Rcv Asleep#}"
    by (auto simp: all_blocked_def elim!: chan_move.cases)
  from chan_no_lost_wakeup [OF demo_waiting _ this] show ?thesis by simp
qed

lemma demo_null: "chan_reachable 0 ((demo_chan 0)\<lparr>ch_closed := True, ch_null := True\<rparr>, {#})"
proof -
  have f: "\<not> ch_buffered (demo_chan 0)" "\<not> ch_rmu (demo_chan 0)" "\<not> ch_closed (demo_chan 0)"
    "ch_wwait (demo_chan 0) = 0" using init_fields [OF demo_init(2)] by simp_all
  note R = chan_reachable.step
  let ?c = "(demo_chan 0)\<lparr>ch_closed := True\<rparr>"
  have "chan_reachable 0 (demo_chan 0, {#Rcv Enter#})"
    using R [OF chan_reachable.init [OF demo_init(2)] start_recv] by simp
  from R [OF this close] have "chan_reachable 0 (?c, {#Rcv Enter#})" using f(3) by (simp add: chan_close_def)
  from R [OF this move, OF lock_r] f(1,2) have "chan_reachable 0 (?c\<lparr>ch_rmu := True\<rparr>, {#Rcv Turn#})" by simp
  moreover have "unbuffered_chan_recv (?c\<lparr>ch_rmu := True\<rparr>) = Some (RNull, ?c\<lparr>ch_rmu := False\<rparr>)"
    using f by (simp add: unbuffered_chan_recv_def)
  moreover have "(demo_chan 0)\<lparr>ch_closed := True, ch_rmu := False\<rparr> = ?c" using f(2) by (cases "demo_chan 0") simp
  ultimately show ?thesis using R [OF _ move, OF _ urecv] f(1) by fastforce
qed

theorem chan_null_is_final_witness:
  "ch_out (demo_chan 0) = [] \<and> ch_closed ((demo_chan 0)\<lparr>ch_closed := True, ch_null := True\<rparr>)"
proof -
  have "ch_ok (demo_chan 0) = []" "ch_out (demo_chan 0) = []" using init_fields [OF demo_init(2)] by simp_all
  with chan_null_is_final [OF demo_null] show ?thesis by auto
qed

end
