(* ===== verification/Hash_Map.thy ===== *)
theory Hash_Map
  imports Prelude "HOL-Library.Multiset"
begin

text \<open>
  Models \<open>lib/containers/hashmap.h\<close>, the hash map \<open>HASHMAP_DECL(name, T, HASHFN, CMPFN)\<close>: open
  addressing with robin-hood insertion and backward-shift deletion in a bucket array whose size is a
  power of two, growing before an insertion and shrinking after a deletion.

  \<open>HASHFN\<close> and \<open>CMPFN\<close> are arguments \<open>hash\<close> and \<open>cmp\<close>, \<open>sizeof(name##_bucket)\<close> is \<open>bsz\<close>.
  \<open>size_t\<close> values are natural numbers, with the wrap at \<open>2 ^ 64\<close> written out where a product can
  reach it; \<open>dib\<close> is a number too, which the invariant bounds by the number of buckets. A pointer to
  an element is modelled by the element. The searching loops have no bound in the code: they take
  fuel, the number of buckets (plus one for the lookup), and the correctness lemmas show that it
  is enough. The load factor is the percentage the code stores.
\<close>

section \<open>State\<close>

record 'a bucket =
  b_hash :: u32
  b_dib :: nat
  b_item :: "'a option"

record 'a hashmap =
  hm_cap :: nat
  hm_nbuckets :: nat
  hm_count :: nat
  hm_mask :: nat
  hm_growat :: nat
  hm_shrinkat :: nat
  hm_loadfactor :: nat
  hm_growpower :: nat
  hm_oom :: bool
  hm_version :: u32
  hm_buckets :: "'a bucket list"
  hm_spare :: "'a option"

definition empty_bucket :: "'a bucket" where
  "empty_bucket = \<lparr>b_hash = 0, b_dib = 0, b_item = None\<rparr>"

section \<open>Thresholds and creation\<close>

definition hm_shrink_to :: "'a hashmap \<Rightarrow> nat" where
  "hm_shrink_to m = (let t = drop_bit (hm_growpower m) (hm_nbuckets m) in if hm_cap m < t then t else hm_cap m)"

fun shrink_halve :: "nat \<Rightarrow> nat \<Rightarrow> nat \<Rightarrow> nat" where
  "shrink_halve half t s = (if t < half then shrink_halve (half div 2) t (s div 2) else s)"

declare shrink_halve.simps [simp del]

definition hm_set_thresholds :: "'a hashmap \<Rightarrow> 'a hashmap" where
  "hm_set_thresholds m =
     (let growat = (hm_nbuckets m * hm_loadfactor m mod 2 ^ 64) div 100;
          shrinkat = (growat * 10 mod 2 ^ 64) div 60
      in m\<lparr>hm_growat := growat,
           hm_shrinkat := shrink_halve (hm_nbuckets m div 2) (hm_shrink_to m) shrinkat\<rparr>)"

definition hm_set_grow_by_power :: "nat \<Rightarrow> 'a hashmap \<Rightarrow> 'a hashmap" where
  "hm_set_grow_by_power p m =
     hm_set_thresholds (m\<lparr>hm_growpower := (if p < 1 then 1 else if 16 < p then 16 else p)\<rparr>)"

text \<open>The load factor in percent, clamped as \<open>_hashmap_lf_pct\<close> clamps it.\<close>

definition hm_set_load_factor :: "nat \<Rightarrow> 'a hashmap \<Rightarrow> 'a hashmap" where
  "hm_set_load_factor pct m =
     hm_set_thresholds (m\<lparr>hm_loadfactor := (if pct < 50 then 50 else if 95 < pct then 95 else pct)\<rparr>)"

text \<open>The loop of \<open>new\<close>, from 16 on; the test for 0 only makes the recursion total.\<close>

function hm_new_cap :: "nat \<Rightarrow> nat \<Rightarrow> nat option" where
  "hm_new_cap cap ncap =
     (if ncap < cap then (if SIZE_MAX div 2 < ncap then None else if ncap = 0 then None else hm_new_cap cap (ncap * 2))
      else Some ncap)"
  by pat_completeness auto
termination by (relation "measure (\<lambda>(cap, ncap). cap - ncap)") auto

declare hm_new_cap.simps [simp del]

definition hm_new :: "nat \<Rightarrow> nat \<Rightarrow> 'a hashmap option" where
  "hm_new bsz cap =
     Option.bind (hm_new_cap cap 16) (\<lambda>cap.
       if SIZE_MAX div cap < bsz then None
       else Some (hm_set_load_factor 60
         \<lparr>hm_cap = cap, hm_nbuckets = cap, hm_count = 0, hm_mask = cap - 1, hm_growat = 0, hm_shrinkat = 0,
          hm_loadfactor = 60, hm_growpower = 1, hm_oom = False, hm_version = 0,
          hm_buckets = replicate cap empty_bucket, hm_spare = None\<rparr>))"

text \<open>The elements handed to \<open>elfree\<close>, in order: the scan ends after \<open>count\<close> of them.\<close>

fun free_elements :: "'a bucket list \<Rightarrow> nat \<Rightarrow> 'a option list" where
  "free_elements [] remain = []"
| "free_elements (b # bs) remain =
     (if remain = 0 then []
      else if b_dib b \<noteq> 0 then b_item b # free_elements bs (remain - 1) else free_elements bs remain)"

definition hm_free :: "'a hashmap \<Rightarrow> 'a option list" where
  "hm_free m = free_elements (hm_buckets m) (hm_count m)"

definition hm_clear :: "bool \<Rightarrow> 'a hashmap \<Rightarrow> 'a option list \<times> 'a hashmap" where
  "hm_clear update_cap m =
     (let freed = free_elements (hm_buckets m) (hm_count m); m = m\<lparr>hm_count := 0\<rparr>;
          m = (if update_cap then m\<lparr>hm_cap := hm_nbuckets m\<rparr>
               else if hm_nbuckets m \<noteq> hm_cap m then m\<lparr>hm_nbuckets := hm_cap m\<rparr> else m);
          m = m\<lparr>hm_buckets := replicate (hm_nbuckets m) empty_bucket, hm_mask := hm_nbuckets m - 1\<rparr>;
          m = hm_set_thresholds m
      in (freed, m\<lparr>hm_version := hm_version m + 1\<rparr>))"

definition hm_size :: "'a hashmap \<Rightarrow> u32" where "hm_size m = of_nat (hm_count m)"

section \<open>The probing loops\<close>

text \<open>The inner loop of \<open>resize\<close>: an entry finds its place, passing on whom it displaces.\<close>

fun rh_place :: "nat \<Rightarrow> nat \<Rightarrow> 'a bucket list \<Rightarrow> 'a bucket \<Rightarrow> nat \<Rightarrow> 'a bucket list option" where
  "rh_place 0 msk bs e j = None"
| "rh_place (Suc fuel) msk bs e j =
     (let b = bs ! j
      in if b_dib b = 0 then Some (bs[j := e])
         else (let (bs, e) = (if b_dib b < b_dib e then (bs[j := e], b) else (bs, e))
               in rh_place fuel msk bs (e\<lparr>b_dib := b_dib e + 1\<rparr>) ((j + 1) AND msk)))"

text \<open>
  The loop of \<open>insert_impl\<close>: as above, with the look at the key; \<open>Some j\<close> is the bucket that
  holds the key already.
\<close>

fun rh_insert :: "('a \<Rightarrow> 'a \<Rightarrow> int) \<Rightarrow> nat \<Rightarrow> nat \<Rightarrow> 'a bucket list \<Rightarrow> 'a bucket \<Rightarrow> nat \<Rightarrow>
    (nat option \<times> 'a bucket list) option" where
  "rh_insert cmp 0 msk bs e i = None"
| "rh_insert cmp (Suc fuel) msk bs e i =
     (let b = bs ! i
      in if b_dib b = 0 then Some (None, bs[i := e])
         else if b_hash e = b_hash b \<and> cmp (the (b_item e)) (the (b_item b)) = 0 then Some (Some i, bs)
         else (let (bs, e) = (if b_dib b < b_dib e then (bs[i := e], b) else (bs, e))
               in rh_insert cmp fuel msk bs (e\<lparr>b_dib := b_dib e + 1\<rparr>) ((i + 1) AND msk)))"

text \<open>The search of \<open>get_with_hash\<close> and \<open>delete_with_hash\<close>: the bucket of the key, if there is one.\<close>

fun rh_find :: "('a \<Rightarrow> 'a \<Rightarrow> int) \<Rightarrow> nat \<Rightarrow> nat \<Rightarrow> 'a bucket list \<Rightarrow> 'a \<Rightarrow> u32 \<Rightarrow> nat \<Rightarrow> nat \<Rightarrow> nat option option" where
  "rh_find cmp 0 msk bs key h32 dib i = None"
| "rh_find cmp (Suc fuel) msk bs key h32 dib i =
     (let b = bs ! i
      in if b_dib b < dib then Some None
         else if b_hash b = h32 \<and> cmp key (the (b_item b)) = 0 then Some (Some i)
         else rh_find cmp fuel msk bs key h32 (dib + 1) ((i + 1) AND msk))"

text \<open>The backward shift of \<open>delete_with_hash\<close>; \<open>prev\<close> is the bucket to fill.\<close>

fun rh_shift :: "nat \<Rightarrow> nat \<Rightarrow> 'a bucket list \<Rightarrow> nat \<Rightarrow> 'a bucket list option" where
  "rh_shift 0 msk bs prev = None"
| "rh_shift (Suc fuel) msk bs prev =
     (let i = (prev + 1) AND msk; b = bs ! i
      in if b_dib b \<le> 1 then Some (bs[prev := (bs ! prev)\<lparr>b_dib := 0\<rparr>])
         else rh_shift fuel msk (bs[prev := b\<lparr>b_dib := b_dib b - 1\<rparr>]) i)"

section \<open>Operations\<close>

fun rh_rehash :: "nat \<Rightarrow> 'a bucket list \<Rightarrow> 'a bucket list \<Rightarrow> 'a bucket list option" where
  "rh_rehash nmask [] nb = Some nb"
| "rh_rehash nmask (entry # ob) nb =
     (if b_dib entry = 0 then rh_rehash nmask ob nb
      else Option.bind (rh_place (length nb) nmask nb (entry\<lparr>b_dib := 1\<rparr>) (unat (b_hash entry) AND nmask))
             (rh_rehash nmask ob))"

text \<open>The flag is the return value; the outer option is the end of the loops.\<close>

definition hm_resize :: "nat \<Rightarrow> 'a hashmap \<Rightarrow> nat \<Rightarrow> (bool \<times> 'a hashmap) option" where
  "hm_resize bsz m new_cap =
     (if SIZE_MAX div new_cap < bsz then Some (False, m)
      else map_option (\<lambda>nb. (True, (hm_set_thresholds (m\<lparr>hm_buckets := nb, hm_nbuckets := new_cap,
               hm_mask := new_cap - 1\<rparr>))\<lparr>hm_version := hm_version m + 1\<rparr>))
             (rh_rehash (new_cap - 1) (hm_buckets m) (replicate new_cap empty_bucket)))"

text \<open>The growth before an insertion; \<open>Some (False, _)\<close> is the return with \<open>oom\<close> set.\<close>

definition hm_grow :: "nat \<Rightarrow> 'a hashmap \<Rightarrow> (bool \<times> 'a hashmap) option" where
  "hm_grow bsz m =
     (if hm_growat m \<le> hm_count m
      then if drop_bit (hm_growpower m) SIZE_MAX < hm_nbuckets m then Some (False, m)
           else (let new_cap = push_bit (hm_growpower m) (hm_nbuckets m)
                 in if new_cap \<le> hm_nbuckets m then Some (False, m) else hm_resize bsz m new_cap)
      else Some (True, m))"

text \<open>
  \<open>insert_impl\<close> of an item with hash \<open>h\<close>. The result is what the returned pointer shows, with
  \<open>getorset\<close> the element in the table, else the replaced one.
\<close>

definition hm_insert :: "('a \<Rightarrow> 'a \<Rightarrow> int) \<Rightarrow> nat \<Rightarrow> bool \<Rightarrow> 'a \<Rightarrow> u64 \<Rightarrow> 'a hashmap \<Rightarrow>
    (bool \<times> 'a option \<times> 'a hashmap) option" where
  "hm_insert cmp bsz getorset item h m =
     Option.bind (hm_grow bsz (m\<lparr>hm_oom := False\<rparr>)) (\<lambda>(grown, m).
       if \<not> grown then Some (False, None, m\<lparr>hm_oom := True\<rparr>)
       else (let chash = ucast h :: u32
             in map_option (\<lambda>(hit, bs).
                  case hit of
                    None \<Rightarrow> (False, if getorset then Some item else None,
                             m\<lparr>hm_buckets := bs, hm_count := hm_count m + 1, hm_version := hm_version m + 1\<rparr>)
                  | Some i \<Rightarrow> (let old = b_item (bs ! i)
                      in if getorset then (True, old, m)
                         else (True, old, m\<lparr>hm_buckets := bs[i := (bs ! i)\<lparr>b_item := Some item\<rparr>], hm_spare := old\<rparr>)))
                (rh_insert cmp (hm_nbuckets m) (hm_mask m) (hm_buckets m)
                   \<lparr>b_hash = chash, b_dib = 1, b_item = Some item\<rparr> (unat chash AND hm_mask m))))"

definition hm_set :: "('a \<Rightarrow> u64) \<Rightarrow> ('a \<Rightarrow> 'a \<Rightarrow> int) \<Rightarrow> nat \<Rightarrow> 'a \<Rightarrow> 'a hashmap \<Rightarrow> ('a option \<times> 'a hashmap) option" where
  "hm_set hash cmp bsz item m = map_option snd (hm_insert cmp bsz False item (hash item) m)"

definition hm_get_set :: "('a \<Rightarrow> u64) \<Rightarrow> ('a \<Rightarrow> 'a \<Rightarrow> int) \<Rightarrow> nat \<Rightarrow> 'a \<Rightarrow> 'a hashmap \<Rightarrow>
    (bool \<times> 'a option \<times> 'a hashmap) option" where
  "hm_get_set hash cmp bsz item m = hm_insert cmp bsz True item (hash item) m"

definition hm_find :: "('a \<Rightarrow> 'a \<Rightarrow> int) \<Rightarrow> 'a \<Rightarrow> u64 \<Rightarrow> 'a hashmap \<Rightarrow> nat option option" where
  "hm_find cmp key h m =
     (let h32 = ucast h :: u32
      in rh_find cmp (hm_nbuckets m + 1) (hm_mask m) (hm_buckets m) key h32 1 (unat h32 AND hm_mask m))"

definition hm_get :: "('a \<Rightarrow> u64) \<Rightarrow> ('a \<Rightarrow> 'a \<Rightarrow> int) \<Rightarrow> 'a \<Rightarrow> 'a hashmap \<Rightarrow> 'a option option" where
  "hm_get hash cmp key m =
     map_option (\<lambda>r. Option.bind r (\<lambda>i. b_item (hm_buckets m ! i))) (hm_find cmp key (hash key) m)"

definition hm_probe :: "'a hashmap \<Rightarrow> u64 \<Rightarrow> 'a option" where
  "hm_probe m position =
     (let b = hm_buckets m ! (unat position AND hm_mask m) in if b_dib b = 0 then None else b_item b)"

definition hm_delete :: "('a \<Rightarrow> u64) \<Rightarrow> ('a \<Rightarrow> 'a \<Rightarrow> int) \<Rightarrow> nat \<Rightarrow> 'a \<Rightarrow> 'a hashmap \<Rightarrow> ('a option \<times> 'a hashmap) option" where
  "hm_delete hash cmp bsz key m =
     (let m = m\<lparr>hm_oom := False\<rparr>
      in Option.bind (hm_find cmp key (hash key) m) (\<lambda>r.
           case r of None \<Rightarrow> Some (None, m)
           | Some i \<Rightarrow> (let old = b_item (hm_buckets m ! i); bs = (hm_buckets m)[i := (hm_buckets m ! i)\<lparr>b_dib := 0\<rparr>]
               in Option.bind (rh_shift (hm_nbuckets m) (hm_mask m) bs i) (\<lambda>bs.
                    let m = m\<lparr>hm_buckets := bs, hm_spare := old, hm_count := hm_count m - 1, hm_version := hm_version m + 1\<rparr>
                    in if hm_cap m < hm_nbuckets m \<and> hm_count m \<le> hm_shrinkat m
                       then map_option (\<lambda>(_, m). (old, m)) (hm_resize bsz m (hm_shrink_to m))
                       else Some (old, m)))))"

text \<open>\<open>scan\<close> with a callback that leaves the map alone: it returns whether to go on, and its own state.\<close>

fun scan_loop :: "('a option \<Rightarrow> 's \<Rightarrow> bool \<times> 's) \<Rightarrow> 'a bucket list \<Rightarrow> nat \<Rightarrow> 's \<Rightarrow> bool \<times> 's" where
  "scan_loop f [] remain s = (True, s)"
| "scan_loop f (b # bs) remain s =
     (if remain = 0 then (True, s)
      else if b_dib b = 0 then scan_loop f bs remain s
      else (case f (b_item b) s of (go, s) \<Rightarrow> if go then scan_loop f bs (remain - 1) s else (False, s)))"

definition hm_scan :: "('a option \<Rightarrow> 's \<Rightarrow> bool \<times> 's) \<Rightarrow> 'a hashmap \<Rightarrow> 's \<Rightarrow> bool \<times> 's" where
  "hm_scan f m s = scan_loop f (hm_buckets m) (hm_count m) s"

end
