(* ===== verification/Hash_Map_Inv.thy ===== *)
theory Hash_Map_Inv
  imports Hash_Map
begin

text \<open>
  The robin-hood invariant of a bucket array and what the probing loops of \<open>Hash_Map\<close> do to it. The
  invariant is local: an element lies \<open>dib - 1\<close> buckets behind its ideal one, and from a bucket to
  the next \<open>dib\<close> grows by at most one. Everything the loops decide follows from it.
\<close>

section \<open>The ring of buckets\<close>

definition nx :: "'b list \<Rightarrow> nat \<Rightarrow> nat" where
  "nx bs i = Suc i mod length bs"

lemma nx_less [simp]: "0 < length bs \<Longrightarrow> nx bs i < length bs"
  by (simp add: nx_def)

lemma nx_update [simp]: "nx (bs[k := x]) i = nx bs i"
  by (simp add: nx_def)

lemma nx_plus: "nx bs ((i + t) mod length bs) = (i + Suc t) mod length bs"
  by (simp add: nx_def mod_Suc_eq)

text \<open>The code steps with a mask.\<close>

definition pow2_ring :: "nat \<Rightarrow> 'b list \<Rightarrow> bool" where
  "pow2_ring msk bs \<longleftrightarrow> (\<exists>k. length bs = 2 ^ k) \<and> msk = length bs - 1"

lemma and_ring: "pow2_ring msk bs \<Longrightarrow> x AND msk = x mod length bs" for x :: nat
  by (auto simp: pow2_ring_def take_bit_eq_mask mask_eq_exp_minus_1 simp flip: take_bit_eq_mod)

lemma ring_update [simp]: "pow2_ring msk (bs[k := x]) = pow2_ring msk bs"
  by (simp add: pow2_ring_def)

lemma ring_pos: "pow2_ring msk bs \<Longrightarrow> 0 < length bs"
  by (auto simp: pow2_ring_def)

lemma ring_step: "pow2_ring msk bs \<Longrightarrow> (i + 1) AND msk = nx bs i"
  by (simp add: and_ring nx_def)

section \<open>The invariant\<close>

abbreviation dib :: "'a bucket list \<Rightarrow> nat \<Rightarrow> nat" where "dib bs i \<equiv> b_dib (bs ! i)"

definition at_home :: "nat \<Rightarrow> 'a bucket \<Rightarrow> nat \<Rightarrow> bool" where
  "at_home n b i \<longleftrightarrow> 0 < b_dib b \<and> (unat (b_hash b) + (b_dib b - 1)) mod n = i"

definition rh_ok :: "'a bucket list \<Rightarrow> bool" where
  "rh_ok bs \<longleftrightarrow> (\<forall>i<length bs. (0 < dib bs i \<longrightarrow> at_home (length bs) (bs ! i) i) \<and> dib bs (nx bs i) \<le> dib bs i + 1)"

lemma dib_chain:
  assumes "rh_ok bs" "i < length bs"
  shows "dib bs ((i + t) mod length bs) \<le> dib bs i + t"
proof (induction t)
  case 0
  then show ?case using assms(2) by simp
next
  case (Suc t)
  let ?j = "(i + t) mod length bs"
  have "?j < length bs" using assms(2) by (intro mod_less_divisor) auto
  with assms(1) have "dib bs (nx bs ?j) \<le> dib bs ?j + 1" by (simp add: rh_ok_def)
  with Suc show ?case by (simp add: nx_plus)
qed

text \<open>Every bucket is fewer than \<open>n\<close> steps from an empty one.\<close>

lemma ring_distance:
  assumes "z < n" "i < n"
  obtains t where "t < n" "(i + t) mod n = (z :: nat)"
proof
  show "(if i \<le> z then z - i else z + n - i) < n" "(i + (if i \<le> z then z - i else z + n - i)) mod n = z"
    using assms by auto
qed

definition has_room :: "'a bucket list \<Rightarrow> bool" where
  "has_room bs \<longleftrightarrow> (\<exists>z<length bs. dib bs z = 0)"

lemma dib_bound:
  assumes "rh_ok bs" "has_room bs" "i < length bs"
  shows "dib bs i < length bs"
proof -
  from assms(2) obtain z where z: "z < length bs" "dib bs z = 0" by (auto simp: has_room_def)
  obtain t where "t < length bs" "(z + t) mod length bs = i" using ring_distance [OF assms(3) z(1)] .
  with dib_chain [OF assms(1) z(1), of t] z(2) show ?thesis by simp
qed

section \<open>The elements\<close>

definition elem :: "'a bucket \<Rightarrow> (u32 \<times> 'a option) multiset" where
  "elem b = (if b_dib b = 0 then {#} else {#(b_hash b, b_item b)#})"

definition elems :: "'a bucket list \<Rightarrow> (u32 \<times> 'a option) multiset" where
  "elems bs = (\<Sum>b\<leftarrow>bs. elem b)"

lemma elems_simps [simp]: "elems [] = {#}" "elems (b # bs) = elem b + elems bs"
  by (simp_all add: elems_def)

lemma elems_update: "i < length bs \<Longrightarrow> elems (bs[i := e]) + elem (bs ! i) = elems bs + elem e"
  by (induction bs arbitrary: i) (auto simp: nth_Cons add_ac split: nat.splits)

lemma elems_replicate [simp]: "elems (replicate n empty_bucket) = {#}"
  by (induction n) (simp_all add: elem_def empty_bucket_def)

lemma elem_in: "i < length bs \<Longrightarrow> 0 < dib bs i \<Longrightarrow> (b_hash (bs ! i), b_item (bs ! i)) \<in># elems bs"
  by (induction bs arbitrary: i) (auto simp: nth_Cons elem_def split: nat.splits)

lemma in_elemsE:
  assumes "x \<in># elems bs"
  obtains i where "i < length bs" "0 < dib bs i" "x = (b_hash (bs ! i), b_item (bs ! i))"
proof -
  from assms have "\<exists>i<length bs. 0 < dib bs i \<and> x = (b_hash (bs ! i), b_item (bs ! i))"
  proof (induction bs)
    case (Cons b bs)
    then show ?case
    proof (cases "x \<in># elem b")
      case True
      then show ?thesis by (intro exI [of _ 0]) (auto simp: elem_def split: if_splits)
    next
      case False
      with Cons obtain i where "i < length bs" "0 < dib bs i" "x = (b_hash (bs ! i), b_item (bs ! i))" by auto
      then show ?thesis by (intro exI [of _ "Suc i"]) simp
    qed
  qed simp
  then show thesis using that by blast
qed

lemma size_elems_le: "size (elems bs) \<le> length bs"
  by (induction bs) (auto simp: elem_def)

lemma room_of_size: "size (elems bs) < length bs \<Longrightarrow> has_room bs"
proof (induction bs)
  case (Cons b bs)
  show ?case
  proof (cases "b_dib b = 0")
    case True
    then show ?thesis by (auto simp: has_room_def intro!: exI [of _ 0])
  next
    case False
    with Cons obtain z where "z < length bs" "dib bs z = 0" by (auto simp: elem_def has_room_def)
    then show ?thesis by (auto simp: has_room_def intro!: exI [of _ "Suc z"])
  qed
qed simp

section \<open>Placing\<close>

text \<open>An entry that may go into bucket \<open>j\<close>: it is at home there and does not outrun its predecessor.\<close>

definition fits :: "'a bucket list \<Rightarrow> 'a bucket \<Rightarrow> nat \<Rightarrow> bool" where
  "fits bs e j \<longleftrightarrow> j < length bs \<and> at_home (length bs) e j \<and> (\<forall>i<length bs. nx bs i = j \<longrightarrow> b_dib e \<le> dib bs i + 1)"

lemma at_home_next: "at_home n e j \<Longrightarrow> at_home n (e\<lparr>b_dib := b_dib e + 1\<rparr>) (Suc j mod n)"
  by (auto simp: at_home_def mod_Suc_eq)

lemma nx_inj: "i < length bs \<Longrightarrow> j < length bs \<Longrightarrow> nx bs i = nx bs j \<Longrightarrow> i = j"
  by (auto simp: nx_def mod_Suc split: if_splits)

lemma fits_place:
  assumes "rh_ok bs" "fits bs e j" "b_dib (bs ! j) \<le> b_dib e" "1 < length bs"
  shows "rh_ok (bs[j := e])"
  unfolding rh_ok_def
proof (intro allI impI conjI)
  fix i assume i: "i < length (bs[j := e])"
  have j: "j < length bs" "at_home (length bs) e j" using assms(2) by (simp_all add: fits_def)
  from i j assms(1) show "0 < dib (bs[j := e]) i \<Longrightarrow> at_home (length (bs[j := e])) (bs[j := e] ! i) i"
    by (cases "i = j") (auto simp: rh_ok_def)
  have ne: "nx bs i \<noteq> i" using i assms(4) by (auto simp: nx_def mod_Suc)
  have "dib bs (nx bs i) \<le> dib bs i + 1" using assms(1) i by (simp add: rh_ok_def)
  moreover have "nx bs i = j \<Longrightarrow> b_dib e \<le> dib bs i + 1" using assms(2) i by (simp add: fits_def)
  ultimately show "dib (bs[j := e]) (nx (bs[j := e]) i) \<le> dib (bs[j := e]) i + 1"
    using i j assms(3) ne by (cases "i = j"; cases "nx bs i = j") auto
qed

text \<open>Going on to the next bucket: with the same entry, or with the one it displaced.\<close>

lemma fits_next:
  assumes "fits bs e j" "b_dib e \<le> dib bs j"
  shows "fits bs (e\<lparr>b_dib := b_dib e + 1\<rparr>) (nx bs j)"
proof -
  have j: "j < length bs" using assms(1) by (simp add: fits_def)
  then have "b_dib e + 1 \<le> dib bs i + 1" if "i < length bs" "nx bs i = nx bs j" for i
    using nx_inj [OF that(1) j that(2)] assms(2) by simp
  moreover have "0 < length bs" using j by linarith
  ultimately show ?thesis
    using j assms(1) at_home_next [of "length bs" e j] by (auto simp: fits_def nx_def)
qed

lemma fits_swap:
  assumes "rh_ok bs" "fits bs e j" "dib bs j < b_dib e" "0 < dib bs j"
  shows "fits (bs[j := e]) ((bs ! j)\<lparr>b_dib := dib bs j + 1\<rparr>) (nx bs j)"
proof -
  have j: "j < length bs" using assms(2) by (simp add: fits_def)
  have "dib bs j + 1 \<le> dib (bs[j := e]) i + 1" if "i < length bs" "nx bs i = nx bs j" for i
    using nx_inj [OF that(1) j that(2)] assms(3) j by simp
  moreover have "0 < length bs" using j by linarith
  ultimately show ?thesis
    using j assms(1,4) at_home_next [of "length bs" "bs ! j" j] by (auto simp: fits_def nx_def rh_ok_def)
qed

lemma rh_place_ok:
  assumes "rh_ok bs" "fits bs e j" "pow2_ring msk bs" "1 < length bs"
    and "dib bs ((j + t) mod length bs) = 0" "t < fuel"
  shows "\<exists>bs'. rh_place fuel msk bs e j = Some bs' \<and> rh_ok bs' \<and> length bs' = length bs \<and> elems bs' = elems bs + elem e"
  using assms
proof (induction fuel arbitrary: bs e j t)
  case 0
  then show ?case by simp
next
  case (Suc fuel)
  have j: "j < length bs" "0 < b_dib e" using Suc.prems(2) by (simp_all add: fits_def at_home_def)
  show ?case
  proof (cases "dib bs j = 0")
    case True
    then have "elem (bs ! j) = {#}" by (simp add: elem_def)
    with True j elems_update [OF j(1), of e] fits_place [OF Suc.prems(1,2) _ Suc.prems(4)] show ?thesis by simp
  next
    case False
    with Suc.prems(5) j have "0 < t" by (cases t) auto
    then obtain t' where t': "t = Suc t'" by (cases t) auto
    have room: "(nx bs j + t') mod length bs = (j + t) mod length bs"
      by (simp add: nx_def t' mod_add_left_eq)
    show ?thesis
    proof (cases "dib bs j < b_dib e")
      case True
      let ?bs = "bs[j := e]" and ?e = "(bs ! j)\<lparr>b_dib := dib bs j + 1\<rparr>"
      have "elem ?e = elem (bs ! j)" using False by (simp add: elem_def)
      moreover have "(j + t) mod length bs \<noteq> j" using Suc.prems(5) False by auto
      then have "dib ?bs ((nx bs j + t') mod length ?bs) = 0" using Suc.prems(5) room by simp
      moreover have "rh_ok ?bs" by (rule fits_place [OF Suc.prems(1,2) _ Suc.prems(4)]) (use True in simp)
      moreover have "fits ?bs ?e (nx bs j)" using fits_swap [OF Suc.prems(1,2) True] False by simp
      ultimately obtain bs' where "rh_place fuel msk ?bs ?e (nx bs j) = Some bs'" "rh_ok bs'"
        "length bs' = length bs" "elems bs' = elems ?bs + elem (bs ! j)"
        using Suc.IH [of ?bs ?e "nx bs j" t'] Suc.prems(3,4,6) t' by auto
      with False True ring_step [OF Suc.prems(3), of j] elems_update [OF j(1), of e] show ?thesis by simp
    next
      case nlt: False
      let ?e = "e\<lparr>b_dib := b_dib e + 1\<rparr>"
      have "elem ?e = elem e" using j by (simp add: elem_def)
      moreover have "fits bs ?e (nx bs j)" using fits_next [OF Suc.prems(2)] nlt by simp
      ultimately obtain bs' where "rh_place fuel msk bs ?e (nx bs j) = Some bs'" "rh_ok bs'"
        "length bs' = length bs" "elems bs' = elems bs + elem e"
        using Suc.IH [of bs ?e "nx bs j" t'] Suc.prems room t' by auto
      with False nlt ring_step [OF Suc.prems(3), of j] show ?thesis by simp
    qed
  qed
qed

text \<open>An array with a free bucket left takes any entry at its ideal bucket; resizing places all of them.\<close>

lemma fits_ideal:
  assumes "pow2_ring msk bs" "b_dib e = 1"
  shows "fits bs e (unat (b_hash e) AND msk)"
  using assms ring_pos [OF assms(1)] by (simp add: fits_def at_home_def and_ring)

lemma rh_place_ideal:
  assumes "rh_ok bs" "pow2_ring msk bs" "1 < length bs" "has_room bs" "b_dib e = 1"
  shows "\<exists>bs'. rh_place (length bs) msk bs e (unat (b_hash e) AND msk) = Some bs' \<and> rh_ok bs' \<and>
    length bs' = length bs \<and> elems bs' = elems bs + elem e"
proof -
  let ?j = "unat (b_hash e) AND msk"
  have fit: "fits bs e ?j" by (rule fits_ideal [OF assms(2,5)])
  then have "?j < length bs" by (simp add: fits_def)
  moreover from assms(4) obtain z where "z < length bs" "dib bs z = 0" by (auto simp: has_room_def)
  ultimately obtain t where "t < length bs" "dib bs ((?j + t) mod length bs) = 0" using ring_distance by metis
  with rh_place_ok [OF assms(1) fit assms(2,3)] show ?thesis by blast
qed

lemma rh_rehash_ok:
  assumes "rh_ok nb" "pow2_ring msk nb" "1 < length nb" "size (elems ob) + size (elems nb) < length nb"
  shows "\<exists>nb'. rh_rehash msk ob nb = Some nb' \<and> rh_ok nb' \<and> length nb' = length nb \<and> elems nb' = elems nb + elems ob"
  using assms
proof (induction ob arbitrary: nb)
  case Nil
  then show ?case by simp
next
  case (Cons b ob)
  show ?case
  proof (cases "b_dib b = 0")
    case True
    with Cons show ?thesis by (simp add: elem_def)
  next
    case False
    let ?e = "b\<lparr>b_dib := 1\<rparr>"
    have e: "elem ?e = elem b" "size (elem b) = 1" using False by (simp_all add: elem_def)
    have "has_room nb" using Cons.prems(4) by (intro room_of_size) simp
    from rh_place_ideal [OF Cons.prems(1,2,3) this, of ?e] obtain nb1 where
      nb1: "rh_place (length nb) msk nb ?e (unat (b_hash b) AND msk) = Some nb1" "rh_ok nb1"
        "length nb1 = length nb" "elems nb1 = elems nb + elem b" using e by auto
    have "pow2_ring msk nb1" using Cons.prems(2) nb1(3) by (simp add: pow2_ring_def)
    with Cons.IH [of nb1] Cons.prems(3,4) nb1 e(2) False show ?thesis by (auto simp: add_ac)
  qed
qed

section \<open>Shifting back\<close>

text \<open>The array while bucket \<open>p\<close> waits to be filled: the invariant everywhere else, and across \<open>p\<close>.\<close>

definition hole :: "'a bucket list \<Rightarrow> nat \<Rightarrow> bool" where
  "hole bs p \<longleftrightarrow> p < length bs \<and>
     (\<forall>i<length bs. i \<noteq> p \<longrightarrow> 0 < dib bs i \<longrightarrow> at_home (length bs) (bs ! i) i) \<and>
     (\<forall>i<length bs. i \<noteq> p \<longrightarrow> nx bs i \<noteq> p \<longrightarrow> dib bs (nx bs i) \<le> dib bs i + 1) \<and>
     (\<exists>D. dib bs (nx bs p) \<le> D + 1 \<and> (\<forall>i<length bs. nx bs i = p \<longrightarrow> D \<le> dib bs i + 1))"

lemma hole_made:
  assumes "rh_ok bs" "p < length bs" "1 < length bs"
  shows "hole (bs[p := x]) p"
proof -
  have "nx bs p \<noteq> p" using assms(2,3) by (auto simp: nx_def mod_Suc)
  then show ?thesis
    using assms unfolding hole_def rh_ok_def by (auto simp: nth_list_update intro!: exI [of _ "dib bs p"])
qed

lemma at_home_back: "at_home n b (Suc p mod n) \<Longrightarrow> 1 < b_dib b \<Longrightarrow> p < n \<Longrightarrow> at_home n (b\<lparr>b_dib := b_dib b - 1\<rparr>) p"
proof -
  assume h: "at_home n b (Suc p mod n)" "1 < b_dib b" "p < n"
  let ?x = "unat (b_hash b) + (b_dib b - 2)"
  have "Suc ?x mod n = Suc p mod n" using h(1,2) by (auto simp: at_home_def Suc_diff_Suc numeral_2_eq_2)
  with h(3) have "?x mod n = p" by (simp add: mod_Suc split: if_splits)
  with h(2,3) show ?thesis by (auto simp: at_home_def numeral_2_eq_2)
qed

lemma hole_step:
  assumes "hole bs p" "2 < length bs" "1 < dib bs (nx bs p)"
  shows "hole (bs[p := (bs ! nx bs p)\<lparr>b_dib := dib bs (nx bs p) - 1\<rparr>]) (nx bs p)"
proof -
  let ?n = "length bs" and ?q = "nx bs p"
  let ?bs = "bs[p := (bs ! ?q)\<lparr>b_dib := dib bs ?q - 1\<rparr>]"
  have p: "p < ?n" using assms(1) by (simp add: hole_def)
  have q: "?q < ?n" "?q \<noteq> p" "nx bs ?q \<noteq> p" using p assms(2) by (auto simp: nx_def mod_Suc)
  have home: "at_home ?n (bs ! i) i" if "i < ?n" "i \<noteq> p" "0 < dib bs i" for i
    using assms(1) that by (simp add: hole_def)
  have refilled: "at_home ?n (?bs ! p) p"
    using at_home_back [of ?n "bs ! ?q" p] home [OF q(1,2)] assms(3) p by (simp add: nx_def)
  have le: "dib bs (nx bs i) \<le> dib bs i + 1" if "i < ?n" "i \<noteq> p" "nx bs i \<noteq> p" for i
    using assms(1) that by (simp add: hole_def)
  obtain D where D: "dib bs ?q \<le> D + 1" "\<And>i. i < ?n \<Longrightarrow> nx bs i = p \<Longrightarrow> D \<le> dib bs i + 1"
    using assms(1) by (auto simp: hole_def)
  have pred: "nx bs i = ?q \<longleftrightarrow> i = p" if "i < ?n" for i using nx_inj [OF that p] by auto
  show ?thesis
    unfolding hole_def
  proof (intro conjI allI impI)
    fix i assume i: "i < length ?bs"
    show "at_home (length ?bs) (?bs ! i) i" if "i \<noteq> ?q" "0 < dib ?bs i"
      using that i home refilled by (cases "i = p") auto
    show "dib ?bs (nx ?bs i) \<le> dib ?bs i + 1" if "i \<noteq> ?q" "nx ?bs i \<noteq> ?q"
    proof (cases "nx bs i = p")
      case True
      have "i \<noteq> p" using that pred i by auto
      have "D \<le> dib bs i + 1" using D(2) i True by simp
      with D(1) True p \<open>i \<noteq> p\<close> show ?thesis by simp
    next
      case False
      have "i \<noteq> p" using that pred i by auto
      with False le i p show ?thesis by simp
    qed
  next
    have "dib ?bs (nx ?bs ?q) \<le> dib bs ?q + 1" using le [OF q(1,2)] q(3) by simp
    moreover have "dib bs ?q \<le> dib ?bs i + 1" if "i < length ?bs" "nx ?bs i = ?q" for i
      using that pred p by simp
    ultimately show "\<exists>D. dib ?bs (nx ?bs ?q) \<le> D + 1 \<and> (\<forall>i<length ?bs. nx ?bs i = ?q \<longrightarrow> D \<le> dib ?bs i + 1)"
      by blast
  qed (use q in simp)
qed

lemma elems_shift:
  assumes "p < length bs" "q < length bs" "p \<noteq> q" "1 < dib bs q"
  shows "elems (bs[p := (bs ! q)\<lparr>b_dib := dib bs q - 1\<rparr>, q := (bs ! q)\<lparr>b_dib := 0\<rparr>]) = elems (bs[p := (bs ! p)\<lparr>b_dib := 0\<rparr>])"
proof -
  let ?b = "bs ! q" and ?bs = "bs[p := (bs ! q)\<lparr>b_dib := dib bs q - 1\<rparr>]"
  have e: "elem ((bs ! p)\<lparr>b_dib := 0\<rparr>) = {#}" "elem (?b\<lparr>b_dib := 0\<rparr>) = {#}"
    "elem (?b\<lparr>b_dib := dib bs q - 1\<rparr>) = elem ?b" using assms(4) by (simp_all add: elem_def)
  have 1: "elems (bs[p := (bs ! p)\<lparr>b_dib := 0\<rparr>]) + elem (bs ! p) = elems bs"
    using elems_update [OF assms(1), of "(bs ! p)\<lparr>b_dib := 0\<rparr>"] e by simp
  have 2: "elems ?bs + elem (bs ! p) = elems bs + elem ?b"
    using elems_update [OF assms(1), of "?b\<lparr>b_dib := dib bs q - 1\<rparr>"] e by simp
  have 3: "elems (?bs[q := ?b\<lparr>b_dib := 0\<rparr>]) + elem ?b = elems ?bs"
    using elems_update [of q ?bs "?b\<lparr>b_dib := 0\<rparr>"] e assms by simp
  have "elems (?bs[q := ?b\<lparr>b_dib := 0\<rparr>]) + (elem ?b + elem (bs ! p)) = elems bs + elem ?b"
    using 2 3 by (simp add: add.assoc [symmetric])
  also have "\<dots> = elems (bs[p := (bs ! p)\<lparr>b_dib := 0\<rparr>]) + (elem ?b + elem (bs ! p))"
    unfolding 1 [symmetric] by (simp only: add_ac)
  finally show ?thesis by (simp only: add_right_cancel)
qed

lemma rh_shift_ok:
  assumes "hole bs p" "pow2_ring msk bs" "2 < length bs"
    and "dib bs ((p + t) mod length bs) = 0" "0 < t" "t < length bs" "t \<le> fuel"
  shows "\<exists>bs'. rh_shift fuel msk bs p = Some bs' \<and> rh_ok bs' \<and> length bs' = length bs \<and>
    elems bs' = elems (bs[p := (bs ! p)\<lparr>b_dib := 0\<rparr>])"
  using assms
proof (induction fuel arbitrary: bs p t)
  case 0
  then show ?case by simp
next
  case (Suc fuel)
  let ?n = "length bs" and ?q = "nx bs p"
  have p: "p < ?n" using Suc.prems(1) by (simp add: hole_def)
  have q: "?q < ?n" "?q \<noteq> p" using p Suc.prems(3) by (auto simp: nx_def mod_Suc)
  show ?case
  proof (cases "dib bs ?q \<le> 1")
    case True
    let ?bs = "bs[p := (bs ! p)\<lparr>b_dib := 0\<rparr>]"
    have "rh_ok ?bs"
      using Suc.prems(1) True p unfolding rh_ok_def hole_def by (auto simp: nth_list_update)
    with True ring_step [OF Suc.prems(2), of p] show ?thesis by (simp add: Let_def)
  next
    case False
    let ?bs = "bs[p := (bs ! ?q)\<lparr>b_dib := dib bs ?q - 1\<rparr>]"
    have h: "hole ?bs ?q" using hole_step [OF Suc.prems(1,3)] False by simp
    have "t \<noteq> 1" using Suc.prems(4) False by (auto simp: nx_def)
    with Suc.prems(5) obtain t' where t': "t = Suc t'" "0 < t'" by (cases t) auto
    have tq: "(?q + t') mod ?n = (p + t) mod ?n" by (simp add: nx_def t' mod_add_left_eq)
    have "(p + t) mod ?n \<noteq> p"
    proof
      assume "(p + t) mod ?n = p"
      with p Suc.prems(5,6) show False by (cases "p + t < ?n") (auto simp: le_mod_geq not_less)
    qed
    then have z: "dib ?bs ((?q + t') mod length ?bs) = 0" using Suc.prems(4) tq by simp
    have "elems (?bs[?q := (?bs ! ?q)\<lparr>b_dib := 0\<rparr>]) = elems (bs[p := (bs ! p)\<lparr>b_dib := 0\<rparr>])"
      using elems_shift [OF p q(1)] q False by simp
    then obtain bs' where "rh_shift fuel msk ?bs ?q = Some bs'" "rh_ok bs'" "length bs' = ?n"
      "elems bs' = elems (bs[p := (bs ! p)\<lparr>b_dib := 0\<rparr>])"
      using Suc.IH [OF h _ _ z t'(2)] Suc.prems(2,3,6,7) t' by auto
    with False ring_step [OF Suc.prems(2), of p] show ?thesis by (simp add: Let_def)
  qed
qed

section \<open>Keys\<close>

text \<open>
  The contract of an instance of \<open>HASHMAP_DECL\<close>: the comparison is an equality on the keys, and
  equal keys have equal hashes.
\<close>

locale hash_key =
  fixes hash :: "'a \<Rightarrow> u64" and cmp :: "'a \<Rightarrow> 'a \<Rightarrow> int"
  assumes cmp_refl: "cmp x x = 0"
    and cmp_sym: "cmp x y = 0 \<Longrightarrow> cmp y x = 0"
    and cmp_trans: "cmp x y = 0 \<Longrightarrow> cmp y z = 0 \<Longrightarrow> cmp x z = 0"
    and cmp_hash: "cmp x y = 0 \<Longrightarrow> hash x = hash y"
begin

definition item_ok :: "u32 \<times> 'a option \<Rightarrow> bool" where
  "item_ok p \<longleftrightarrow> (\<exists>x. p = (ucast (hash x), Some x))"

definition keys_ok :: "(u32 \<times> 'a option) multiset \<Rightarrow> bool" where
  "keys_ok E \<longleftrightarrow> (\<forall>p\<in>#E. item_ok p) \<and>
     (\<forall>h x h' y F. E = add_mset (h, Some x) (add_mset (h', Some y) F) \<longrightarrow> cmp x y \<noteq> 0)"

definition match_at :: "'a \<Rightarrow> 'a bucket list \<Rightarrow> nat \<Rightarrow> bool" where
  "match_at key bs j \<longleftrightarrow> j < length bs \<and> 0 < dib bs j \<and> (\<exists>x. b_item (bs ! j) = Some x \<and> cmp key x = 0)"

lemma bucket_item:
  assumes "keys_ok (elems bs)" "i < length bs" "0 < dib bs i"
  obtains x where "b_item (bs ! i) = Some x" "b_hash (bs ! i) = ucast (hash x)"
  using elem_in [OF assms(2,3)] assms(1) by (auto simp: keys_ok_def item_ok_def)

text \<open>The test of the loops is the test of the keys.\<close>

lemma test_key:
  assumes "keys_ok (elems bs)" "i < length bs" "0 < dib bs i"
  shows "b_hash (bs ! i) = ucast (hash key) \<and> cmp key (the (b_item (bs ! i))) = 0 \<longleftrightarrow> match_at key bs i"
  by (rule bucket_item [OF assms]) (use assms cmp_hash in \<open>auto simp: match_at_def\<close>)

lemma match_place:
  assumes "rh_ok bs" "match_at key bs j" "keys_ok (elems bs)"
  shows "j = (unat (ucast (hash key) :: u32) + (dib bs j - 1)) mod length bs"
proof -
  have j: "j < length bs" "0 < dib bs j" using assms(2) by (simp_all add: match_at_def)
  with assms(1) have "at_home (length bs) (bs ! j) j" by (simp add: rh_ok_def)
  moreover have "b_hash (bs ! j) = ucast (hash key)" using test_key [OF assms(3) j, of key] assms(2) by blast
  ultimately show ?thesis by (metis at_home_def)
qed

text \<open>As long as the key is not behind, the bucket looked at is at least as far from home.\<close>

lemma match_ahead:
  assumes "rh_ok bs" "match_at key bs j" "keys_ok (elems bs)" "1 \<le> d" "d \<le> dib bs j"
    and "i = (unat (ucast (hash key) :: u32) + (d - 1)) mod length bs"
  shows "d \<le> dib bs i" "i = j \<longleftrightarrow> dib bs j = d \<or> i = j"
proof -
  have j: "j < length bs" using assms(2) by (simp add: match_at_def)
  then have i: "i < length bs" unfolding assms(6) by (intro mod_less_divisor) auto
  have e: "dib bs j - 1 = (d - 1) + (dib bs j - d)" using assms(4,5) by simp
  have "j = (i + (dib bs j - d)) mod length bs"
    using match_place [OF assms(1-3)] unfolding e assms(6) by (simp only: mod_add_left_eq add.assoc)
  with dib_chain [OF assms(1) i, of "dib bs j - d"] have "dib bs j \<le> dib bs i + (dib bs j - d)" by simp
  with assms(5) show "d \<le> dib bs i" by simp
  show "i = j \<longleftrightarrow> dib bs j = d \<or> i = j" using match_place [OF assms(1-3)] assms(6) by auto
qed

lemma rh_find_ok:
  assumes "rh_ok bs" "pow2_ring msk bs" "has_room bs" "keys_ok (elems bs)"
    and "1 \<le> d" "i = (unat (ucast (hash key) :: u32) + (d - 1)) mod length bs" "length bs + 2 \<le> d + fuel" "d \<le> length bs + 1"
    and "\<And>j. match_at key bs j \<Longrightarrow> d \<le> dib bs j"
  shows "\<exists>r. rh_find cmp fuel msk bs key (ucast (hash key)) d i = Some r \<and>
    (case r of None \<Rightarrow> \<forall>j. \<not> match_at key bs j | Some j \<Rightarrow> match_at key bs j)"
  using assms(5-9)
proof (induction fuel arbitrary: d i)
  case 0
  then show ?case by simp
next
  case (Suc fuel)
  have i: "i < length bs" using Suc.prems(2) ring_pos [OF assms(2)] by simp
  show ?case
  proof (cases "dib bs i < d")
    case True
    then have "\<not> match_at key bs j" for j
      using match_ahead(1) [OF assms(1) _ assms(4) Suc.prems(1) _ Suc.prems(2)] Suc.prems(5) by (meson not_le)
    with True show ?thesis by (simp add: Let_def)
  next
    case False
    then have occ: "0 < dib bs i" using Suc.prems(1) by simp
    have "d < length bs" using False dib_bound [OF assms(1,3) i] by simp
    show ?thesis
    proof (cases "match_at key bs i")
      case True
      with False test_key [OF assms(4) i occ, of key] show ?thesis by (simp add: Let_def)
    next
      case nm: False
      have "d + 1 \<le> dib bs j" if "match_at key bs j" for j
        using match_ahead(2) [OF assms(1) that assms(4) Suc.prems(1) Suc.prems(5) [OF that] Suc.prems(2)]
          Suc.prems(5) [OF that] that nm by auto
      moreover have "nx bs i = (unat (ucast (hash key) :: u32) + (d + 1 - 1)) mod length bs"
        using Suc.prems(1,2) by (simp add: nx_def mod_Suc_eq)
      ultimately obtain r where "rh_find cmp fuel msk bs key (ucast (hash key)) (d + 1) (nx bs i) = Some r"
        "case r of None \<Rightarrow> \<forall>j. \<not> match_at key bs j | Some j \<Rightarrow> match_at key bs j"
        using Suc.IH [of "d + 1" "nx bs i"] Suc.prems(3) \<open>d < length bs\<close> by auto
      with False nm test_key [OF assms(4) i occ, of key] ring_step [OF assms(2), of i] show ?thesis by auto
    qed
  qed
qed

text \<open>Inserting a key that is there ends at its bucket; inserting another one is placing it.\<close>

lemma rh_insert_hit:
  assumes "rh_ok bs" "pow2_ring msk bs" "has_room bs" "keys_ok (elems bs)" "match_at x bs j"
    and "b_hash e = ucast (hash x)" "b_item e = Some x" "1 \<le> b_dib e" "b_dib e \<le> dib bs j"
    and "i = (unat (ucast (hash x) :: u32) + (b_dib e - 1)) mod length bs" "length bs < b_dib e + fuel"
  shows "\<exists>i'. rh_insert cmp fuel msk bs e i = Some (Some i', bs) \<and> match_at x bs i'"
  using assms(6-11)
proof (induction fuel arbitrary: e i)
  case 0
  moreover have "dib bs j < length bs" using dib_bound [OF assms(1,3)] assms(5) by (simp add: match_at_def)
  ultimately show ?case by simp
next
  case (Suc fuel)
  have i: "i < length bs" using Suc.prems(5) ring_pos [OF assms(2)] by simp
  note ah = match_ahead [OF assms(1,5,4) Suc.prems(3,4,5)]
  have occ: "0 < dib bs i" using ah(1) Suc.prems(3) by simp
  show ?case
  proof (cases "match_at x bs i")
    case True
    with test_key [OF assms(4) i occ, of x] occ Suc.prems(1,2) show ?thesis by (simp add: Let_def)
  next
    case False
    have "b_dib e + 1 \<le> dib bs j" using ah False assms(5) Suc.prems(4) by auto
    moreover have "nx bs i = (unat (ucast (hash x) :: u32) + (b_dib e + 1 - 1)) mod length bs"
      using Suc.prems(3,5) by (simp add: nx_def mod_Suc_eq)
    ultimately obtain i' where "rh_insert cmp fuel msk bs (e\<lparr>b_dib := b_dib e + 1\<rparr>) (nx bs i) = Some (Some i', bs)"
      "match_at x bs i'"
      using Suc.IH [of "e\<lparr>b_dib := b_dib e + 1\<rparr>" "nx bs i"] Suc.prems by auto
    with False test_key [OF assms(4) i occ, of x] occ ah(1) Suc.prems(1,2) ring_step [OF assms(2), of i] show ?thesis by auto
  qed
qed

lemma rh_insert_new:
  assumes "pow2_ring msk bs" "i < length bs" "keys_ok (elems bs + elem e)" "0 < b_dib e"
  shows "rh_insert cmp fuel msk bs e i = map_option (Pair None) (rh_place fuel msk bs e i)"
  using assms
proof (induction fuel arbitrary: bs e i)
  case 0
  then show ?case by simp
next
  case (Suc fuel)
  show ?case
  proof (cases "dib bs i = 0")
    case True
    then show ?thesis by simp
  next
    case False
    obtain x where x: "b_item e = Some x" using Suc.prems(3,4) by (auto simp: keys_ok_def item_ok_def elem_def)
    obtain F where F: "elems bs = add_mset (b_hash (bs ! i), b_item (bs ! i)) F"
      using elem_in [OF Suc.prems(2)] False by (metis neq0_conv multi_member_split)
    obtain y where y: "b_item (bs ! i) = Some y" using Suc.prems(3) F by (auto simp: keys_ok_def item_ok_def)
    have "elems bs + elem e = add_mset (b_hash e, Some x) (add_mset (b_hash (bs ! i), Some y) F)"
      using F x y Suc.prems(4) by (simp add: elem_def)
    then have "cmp x y \<noteq> 0" using Suc.prems(3) unfolding keys_ok_def by blast
    moreover have "elems (bs[i := e]) + elem ((bs ! i)\<lparr>b_dib := Suc (dib bs i)\<rparr>) = elems bs + elem e"
      using elems_update [OF Suc.prems(2), of e] False by (simp add: elem_def)
    moreover have "elem (e\<lparr>b_dib := Suc (b_dib e)\<rparr>) = elem e" using Suc.prems(4) by (simp add: elem_def)
    ultimately show ?thesis
      using False x y Suc.prems ring_step [OF Suc.prems(1), of i] ring_pos [OF Suc.prems(1)]
      by (simp add: Suc.IH Let_def)
  qed
qed

end

end
