(* ===== verification/Hash_Map_Laws.thy ===== *)
theory Hash_Map_Laws
  imports Hash_Map_Inv
begin

text \<open>
  The operations of \<open>lib/containers/hashmap.h\<close> keep the map well formed and act on it as on a
  finite map: what \<open>get\<close> returns after \<open>set\<close>, \<open>get_set\<close> and \<open>delete\<close>, through growing and
  shrinking. The bound of \<open>2 ^ 32\<close> buckets is the one the header of the code states.
\<close>

section \<open>Thresholds\<close>

lemma shrink_halve_le: "3 * s \<le> half \<Longrightarrow> 3 * shrink_halve half t s \<le> t"
proof (induction half t s rule: shrink_halve.induct)
  case (1 half t s)
  show ?case
  proof (cases "t < half")
    case True
    moreover have "3 * (s div 2) \<le> half div 2" using 1(2) by presburger
    ultimately show ?thesis using 1(1) by (simp add: shrink_halve.simps [of half])
  next
    case False
    with 1(2) show ?thesis by (simp add: shrink_halve.simps [of half])
  qed
qed

definition hm_shape :: "nat \<Rightarrow> 'a hashmap \<Rightarrow> bool" where
  "hm_shape bsz m \<longleftrightarrow> (\<exists>k. hm_nbuckets m = 2 ^ k) \<and> (\<exists>c. hm_cap m = 2 ^ c) \<and> 16 \<le> hm_cap m \<and> hm_cap m \<le> hm_nbuckets m \<and>
     hm_nbuckets m \<le> 2 ^ 32 \<and> hm_mask m = hm_nbuckets m - 1 \<and> length (hm_buckets m) = hm_nbuckets m \<and>
     50 \<le> hm_loadfactor m \<and> hm_loadfactor m \<le> 95 \<and> 1 \<le> hm_growpower m \<and> hm_growpower m \<le> 16 \<and>
     bsz \<le> SIZE_MAX div hm_nbuckets m"

lemma shrink_to_update: "hm_shrink_to (m\<lparr>hm_growat := g, hm_shrinkat := s\<rparr>) = hm_shrink_to m"
  by (simp add: hm_shrink_to_def Let_def)

text \<open>The thresholds are those of the current size.\<close>

definition hm_tuned :: "'a hashmap \<Rightarrow> bool" where
  "hm_tuned m \<longleftrightarrow> hm_growat m = hm_nbuckets m * hm_loadfactor m div 100 \<and> hm_growat m < hm_nbuckets m \<and> 3 * hm_shrinkat m \<le> hm_shrink_to m"

lemma thresholds_tuned:
  assumes "hm_shape bsz m"
  shows "hm_tuned (hm_set_thresholds m)"
proof -
  let ?n = "hm_nbuckets m" and ?g = "hm_nbuckets m * hm_loadfactor m div 100"
  from assms have n: "0 < ?n" "?n \<le> 2 ^ 32" "hm_loadfactor m \<le> 95" by (auto simp: hm_shape_def)
  have le: "?n * hm_loadfactor m \<le> ?n * 95" using n(3) by simp
  have "?n * 95 \<le> 4294967296 * 95" using n(2) by simp
  with le have w: "?n * hm_loadfactor m < 18446744073709551616" by linarith
  then have "?g * 10 < 18446744073709551616" by linarith
  with w have small: "?n * hm_loadfactor m < 2 ^ 64" "?g * 10 < 2 ^ 64" by simp_all
  have even: "2 * (?n div 2) = ?n"
  proof -
    from assms obtain k where "?n = 2 ^ k" "16 \<le> ?n" by (auto simp: hm_shape_def)
    then show ?thesis by (cases k) auto
  qed
  have "100 * ?g \<le> ?n * 95" using le by linarith
  moreover have "60 * (?g * 10 div 60) \<le> ?g * 10" by simp
  ultimately have "3 * (?g * 10 div 60) \<le> ?n div 2" using even by linarith
  from shrink_halve_le [OF this] have "3 * shrink_halve (?n div 2) (hm_shrink_to m) (?g * 10 div 60) \<le> hm_shrink_to m" .
  moreover have "?g < ?n" using \<open>100 * ?g \<le> ?n * 95\<close> n(1) by linarith
  ultimately show ?thesis
    using small by (simp add: hm_tuned_def hm_set_thresholds_def shrink_to_update Let_def)
qed

lemma thresholds_fields [simp]:
  "hm_cap (hm_set_thresholds m) = hm_cap m" "hm_nbuckets (hm_set_thresholds m) = hm_nbuckets m"
  "hm_count (hm_set_thresholds m) = hm_count m" "hm_mask (hm_set_thresholds m) = hm_mask m"
  "hm_loadfactor (hm_set_thresholds m) = hm_loadfactor m" "hm_growpower (hm_set_thresholds m) = hm_growpower m"
  "hm_buckets (hm_set_thresholds m) = hm_buckets m" "hm_version (hm_set_thresholds m) = hm_version m"
  "hm_spare (hm_set_thresholds m) = hm_spare m" "hm_oom (hm_set_thresholds m) = hm_oom m"
  by (simp_all add: hm_set_thresholds_def Let_def)

lemma tuned_update [simp]:
  "hm_tuned (m\<lparr>hm_version := v\<rparr>) = hm_tuned m" "hm_tuned (m\<lparr>hm_count := c\<rparr>) = hm_tuned m"
  "hm_tuned (m\<lparr>hm_buckets := bs\<rparr>) = hm_tuned m" "hm_tuned (m\<lparr>hm_spare := x\<rparr>) = hm_tuned m"
  "hm_tuned (m\<lparr>hm_oom := b\<rparr>) = hm_tuned m"
  by (simp_all add: hm_tuned_def hm_shrink_to_def Let_def)

lemma shrink_to_size:
  assumes "hm_shape bsz m"
  shows "\<exists>k. hm_shrink_to m = 2 ^ k" "hm_cap m \<le> hm_shrink_to m" "hm_shrink_to m \<le> hm_nbuckets m"
proof -
  obtain k c where k: "hm_nbuckets m = 2 ^ k" "hm_cap m = 2 ^ c" using assms by (auto simp: hm_shape_def)
  show "hm_cap m \<le> hm_shrink_to m" "hm_shrink_to m \<le> hm_nbuckets m"
    using assms by (auto simp: hm_shrink_to_def Let_def hm_shape_def drop_bit_eq_div div_le_dividend)
  have "drop_bit (hm_growpower m) (2 ^ k :: nat) = (if hm_growpower m \<le> k then 2 ^ (k - hm_growpower m) else 0)"
    by (auto simp: drop_bit_eq_div power_diff)
  then show "\<exists>k. hm_shrink_to m = 2 ^ k"
    using k by (auto simp: hm_shrink_to_def Let_def)
qed

text \<open>What an insertion may do to the size of the table.\<close>

definition hm_dims :: "'a hashmap \<Rightarrow> 'a hashmap \<Rightarrow> bool" where
  "hm_dims m m' \<longleftrightarrow> hm_growpower m' = hm_growpower m \<and> hm_loadfactor m' = hm_loadfactor m \<and>
     (hm_nbuckets m' = hm_nbuckets m \<or>
      hm_growat m \<le> hm_count m \<and> hm_nbuckets m' = hm_nbuckets m * 2 ^ hm_growpower m)"

section \<open>The invariant\<close>

context hash_key
begin

definition hm_inv :: "nat \<Rightarrow> 'a hashmap \<Rightarrow> bool" where
  "hm_inv bsz m \<longleftrightarrow> hm_shape bsz m \<and> hm_tuned m \<and> rh_ok (hm_buckets m) \<and> keys_ok (elems (hm_buckets m)) \<and>
     hm_count m = size (elems (hm_buckets m)) \<and> hm_count m < hm_nbuckets m"

lemma inv_ring:
  assumes "hm_inv bsz m"
  shows "pow2_ring (hm_mask m) (hm_buckets m)" "has_room (hm_buckets m)" "2 < length (hm_buckets m)"
    "hm_nbuckets m = length (hm_buckets m)"
  using assms by (auto simp: hm_inv_def hm_shape_def pow2_ring_def intro!: room_of_size)

text \<open>What \<open>get\<close> finds is the element with an equal key; there is at most one.\<close>

definition holds :: "'a hashmap \<Rightarrow> 'a \<Rightarrow> bool" where
  "holds m x \<longleftrightarrow> (ucast (hash x), Some x) \<in># elems (hm_buckets m)"

lemma keys_unique:
  assumes "keys_ok E" "p \<in># E" "q \<in># E" "p = (h, Some x)" "q = (h', Some y)" "cmp x y = 0"
  shows "p = q \<and> count E p = 1"
proof -
  obtain F where F: "E = add_mset p F" using assms(2) by (meson multi_member_split)
  have no: "(h'', Some z) \<notin># F" if "cmp x z = 0" for h'' z
  proof
    assume "(h'', Some z) \<in># F"
    then obtain G where "F = add_mset (h'', Some z) G" by (meson multi_member_split)
    with assms(1,4) F that show False unfolding keys_ok_def by blast
  qed
  have "q \<notin># F" "p \<notin># F" using no assms(4-6) cmp_refl by auto
  with assms(3) F show ?thesis by (auto simp: not_in_iff)
qed

lemma match_holds:
  assumes "keys_ok (elems bs)"
  shows "match_at key bs j \<Longrightarrow> \<exists>x. b_item (bs ! j) = Some x \<and> (ucast (hash x), Some x) \<in># elems bs \<and> cmp key x = 0"
    and "(ucast (hash x), Some x) \<in># elems bs \<Longrightarrow> cmp key x = 0 \<Longrightarrow> \<exists>j. match_at key bs j \<and> b_item (bs ! j) = Some x"
proof -
  assume m: "match_at key bs j"
  then have j: "j < length bs" "0 < dib bs j" by (simp_all add: match_at_def)
  show "\<exists>x. b_item (bs ! j) = Some x \<and> (ucast (hash x), Some x) \<in># elems bs \<and> cmp key x = 0"
    by (rule bucket_item [OF assms j]) (use m elem_in [OF j] in \<open>auto simp: match_at_def\<close>)
next
  assume x: "(ucast (hash x), Some x) \<in># elems bs" "cmp key x = 0"
  from x(1) obtain i where "i < length bs" "0 < dib bs i" "(ucast (hash x), Some x) = (b_hash (bs ! i), b_item (bs ! i))"
    by (rule in_elemsE)
  with x(2) show "\<exists>j. match_at key bs j \<and> b_item (bs ! j) = Some x"
    by (intro exI [of _ i]) (auto simp: match_at_def dest: sym)
qed

lemma hm_find_ok:
  assumes "hm_inv bsz m"
  shows "\<exists>r. hm_find cmp key (hash key) m = Some r \<and>
    (case r of None \<Rightarrow> \<forall>j. \<not> match_at key (hm_buckets m) j | Some j \<Rightarrow> match_at key (hm_buckets m) j)"
proof -
  note r = inv_ring [OF assms]
  have "rh_ok (hm_buckets m)" "keys_ok (elems (hm_buckets m))" using assms by (simp_all add: hm_inv_def)
  then show ?thesis
    using rh_find_ok [OF _ r(1,2), of 1 "unat (ucast (hash key) :: u32) AND hm_mask m" key "hm_nbuckets m + 1"]
    by (auto simp: hm_find_def Let_def and_ring [OF r(1)] r(4) match_at_def)
qed

lemma hm_get_ok:
  assumes "hm_inv bsz m"
  shows "\<exists>r. hm_get hash cmp key m = Some r \<and> (\<forall>x. r = Some x \<longleftrightarrow> holds m x \<and> cmp key x = 0)"
proof -
  have keys: "keys_ok (elems (hm_buckets m))" using assms by (simp add: hm_inv_def)
  obtain r where r: "hm_find cmp key (hash key) m = Some r"
    "case r of None \<Rightarrow> \<forall>j. \<not> match_at key (hm_buckets m) j | Some j \<Rightarrow> match_at key (hm_buckets m) j"
    using hm_find_ok [OF assms, of key] by (elim exE conjE)
  show ?thesis
  proof (cases r)
    case None
    have "\<not> (holds m x \<and> cmp key x = 0)" for x
      using r(2) None match_holds(2) [OF keys, of x key] by (auto simp: holds_def)
    with r(1) None show ?thesis by (simp add: hm_get_def)
  next
    case (Some j)
    with r obtain x where x: "b_item (hm_buckets m ! j) = Some x" "holds m x" "cmp key x = 0"
      using match_holds(1) [OF keys, of key j] by (auto simp: holds_def)
    have "y = x" if "holds m y" "cmp key y = 0" for y
      using keys_unique [OF keys x(2) [unfolded holds_def] that(1) [unfolded holds_def] refl refl
          cmp_trans [OF cmp_sym [OF x(3)] that(2)]] by simp
    then have "Some x = Some y \<longleftrightarrow> holds m y \<and> cmp key y = 0" for y using x(2,3) by blast
    moreover have "hm_get hash cmp key m = Some (Some x)" using r(1) Some x(1) by (simp add: hm_get_def)
    ultimately show ?thesis by (intro exI [of _ "Some x"]) simp
  qed
qed

text \<open>Two maps related by their elements are related by \<open>get\<close>.\<close>

lemma hm_get_eqI:
  assumes "hm_inv bsz m" "\<And>x. r = Some x \<longleftrightarrow> holds m x \<and> cmp key x = 0"
  shows "hm_get hash cmp key m = Some r"
proof -
  obtain r' where "hm_get hash cmp key m = Some r'" "\<And>x. r' = Some x \<longleftrightarrow> holds m x \<and> cmp key x = 0"
    using hm_get_ok [OF assms(1)] by blast
  moreover from this(2) assms(2) have "r = r'" by (metis option.exhaust)
  ultimately show ?thesis by simp
qed

section \<open>Growing and shrinking\<close>

lemma hm_resize_ok:
  assumes "hm_inv bsz m" "new_cap = 2 ^ k" "hm_cap m \<le> new_cap" "new_cap \<le> 2 ^ 32" "hm_count m < new_cap"
    and "bsz \<le> SIZE_MAX div new_cap"
  obtains m' where "hm_resize bsz m new_cap = Some (True, m')" "hm_inv bsz m'" "hm_nbuckets m' = new_cap"
    "elems (hm_buckets m') = elems (hm_buckets m)" "hm_cap m' = hm_cap m" "hm_growpower m' = hm_growpower m"
    "hm_loadfactor m' = hm_loadfactor m"
proof -
  let ?nb = "replicate new_cap empty_bucket :: 'a bucket list"
  have big: "16 \<le> new_cap" using assms(1,3) by (simp add: hm_inv_def hm_shape_def)
  have "rh_ok ?nb" by (auto simp: rh_ok_def empty_bucket_def nx_def)
  moreover have "pow2_ring (new_cap - 1) ?nb" using assms(2) by (auto simp: pow2_ring_def)
  ultimately obtain nb where nb: "rh_rehash (new_cap - 1) (hm_buckets m) ?nb = Some nb" "rh_ok nb"
    "length nb = new_cap" "elems nb = elems (hm_buckets m)"
    using rh_rehash_ok [of ?nb "new_cap - 1" "hm_buckets m"] big assms(1,5) by (auto simp: hm_inv_def)
  define m1 where "m1 = m\<lparr>hm_buckets := nb, hm_nbuckets := new_cap, hm_mask := new_cap - 1\<rparr>"
  have shape: "hm_shape bsz m1" using assms nb(3) by (auto simp: m1_def hm_shape_def hm_inv_def)
  let ?m = "(hm_set_thresholds m1)\<lparr>hm_version := hm_version m + 1\<rparr>"
  have "hm_shape bsz ?m" using shape by (simp add: hm_shape_def)
  then have "hm_inv bsz ?m"
    using thresholds_tuned [OF shape] nb assms(1,5) by (simp add: hm_inv_def) (simp add: m1_def)
  moreover have "hm_resize bsz m new_cap = Some (True, ?m)"
    using assms(6) nb(1) by (simp add: hm_resize_def m1_def)
  ultimately show thesis using that [of ?m] nb(4) by (simp add: m1_def)
qed

lemma hm_inv_oom [simp]: "hm_inv bsz (m\<lparr>hm_oom := b\<rparr>) = hm_inv bsz m"
  by (simp add: hm_inv_def hm_shape_def)

text \<open>Before an insertion there is room for one more element, and for an empty bucket besides.\<close>

lemma hm_grow_ok:
  assumes "hm_inv bsz m" "hm_nbuckets m * 2 ^ hm_growpower m \<le> 2 ^ 32" "bsz < 2 ^ 32"
  obtains m' where "hm_grow bsz m = Some (True, m')" "hm_inv bsz m'" "hm_count m' + 1 < hm_nbuckets m'"
    "elems (hm_buckets m') = elems (hm_buckets m)" "hm_dims m m'"
proof (cases "hm_growat m \<le> hm_count m")
  case True
  let ?new = "hm_nbuckets m * 2 ^ hm_growpower m"
  obtain k where k: "hm_nbuckets m = 2 ^ k" and gp: "1 \<le> hm_growpower m" "hm_growpower m \<le> 16"
    and n: "hm_nbuckets m \<le> 2 ^ 32" "hm_cap m \<le> hm_nbuckets m" "16 \<le> hm_nbuckets m"
    using assms(1) by (auto simp: hm_inv_def hm_shape_def)
  have pow: "2 \<le> (2 :: nat) ^ hm_growpower m"
    using power_increasing [of 1 "hm_growpower m" "2 :: nat"] gp(1) by simp
  then have two: "2 * hm_nbuckets m \<le> ?new" by simp
  have "bsz \<le> SIZE_MAX div 2 ^ 32" using assms(3) by simp
  also have "\<dots> \<le> SIZE_MAX div ?new" using assms(2) n(3) pow by (intro div_le_mono2) auto
  finally have bsz: "bsz \<le> SIZE_MAX div ?new" .
  have cnt: "hm_count m < hm_nbuckets m" using assms(1) by (simp add: hm_inv_def)
  have new: "?new = 2 ^ (k + hm_growpower m)" using k by (simp add: power_add)
  obtain m' where m': "hm_resize bsz m ?new = Some (True, m')" "hm_inv bsz m'" "hm_nbuckets m' = ?new"
    "elems (hm_buckets m') = elems (hm_buckets m)" "hm_growpower m' = hm_growpower m" "hm_loadfactor m' = hm_loadfactor m"
  proof (rule hm_resize_ok [OF assms(1) new _ assms(2) _ bsz])
    show "hm_cap m \<le> ?new" "hm_count m < ?new" using two n(2) cnt by linarith+
  qed
  moreover have "hm_count m' + 1 < hm_nbuckets m'"
  proof -
    have "hm_count m' = hm_count m" using m'(2,4) assms(1) by (simp add: hm_inv_def)
    with m'(3) two cnt n(3) show ?thesis by linarith
  qed
  moreover have "\<not> drop_bit (hm_growpower m) SIZE_MAX < hm_nbuckets m"
  proof -
    have "hm_nbuckets m * 2 ^ hm_growpower m \<le> SIZE_MAX" using assms(2) by simp
    then have "hm_nbuckets m \<le> SIZE_MAX div 2 ^ hm_growpower m" by (simp add: less_eq_div_iff_mult_less_eq)
    then show ?thesis by (simp add: drop_bit_eq_div)
  qed
  moreover have "hm_nbuckets m < ?new" using two n(3) by linarith
  moreover have "hm_dims m m'" using m'(3,5,6) True by (simp add: hm_dims_def)
  ultimately show ?thesis using that [of m'] True by (simp add: hm_grow_def push_bit_eq_mult Let_def)
next
  case False
  with that [of m] assms(1) show ?thesis by (simp add: hm_grow_def hm_inv_def hm_tuned_def hm_dims_def)
qed

section \<open>Insertion\<close>

lemma keys_ok_iff:
  "keys_ok E \<longleftrightarrow> (\<forall>p\<in>#E. item_ok p) \<and> (\<forall>p q. p \<in># E \<longrightarrow> q \<in># E - {#p#} \<longrightarrow> cmp (the (snd p)) (the (snd q)) \<noteq> 0)"
proof
  assume k: "keys_ok E"
  have "cmp (the (snd p)) (the (snd q)) \<noteq> 0" if pq: "p \<in># E" "q \<in># E - {#p#}" for p q
  proof -
    have "item_ok p" "item_ok q" using k pq by (auto simp: keys_ok_def dest: in_diffD)
    then obtain h x h' y where e: "p = (h, Some x)" "q = (h', Some y)" by (auto simp: item_ok_def)
    obtain F where "E - {#p#} = add_mset q F" using pq(2) by (meson multi_member_split)
    then have "E = add_mset p (add_mset q F)" using pq(1) by (metis insert_DiffM)
    with k e have "cmp x y \<noteq> 0" unfolding keys_ok_def by blast
    with e show ?thesis by simp
  qed
  with k show "(\<forall>p\<in>#E. item_ok p) \<and> (\<forall>p q. p \<in># E \<longrightarrow> q \<in># E - {#p#} \<longrightarrow> cmp (the (snd p)) (the (snd q)) \<noteq> 0)"
    by (simp add: keys_ok_def)
next
  assume r: "(\<forall>p\<in>#E. item_ok p) \<and> (\<forall>p q. p \<in># E \<longrightarrow> q \<in># E - {#p#} \<longrightarrow> cmp (the (snd p)) (the (snd q)) \<noteq> 0)"
  have "cmp x y \<noteq> 0" if E: "E = add_mset (h, Some x) (add_mset (h', Some y) F)" for h x h' y F
    using r [THEN conjunct2, rule_format, of "(h, Some x)" "(h', Some y)"] E by simp
  with r show "keys_ok E" by (simp add: keys_ok_def)
qed

lemma keys_ok_add:
  assumes "keys_ok E" "\<And>y. (ucast (hash y), Some y) \<in># E \<Longrightarrow> cmp x y \<noteq> 0"
  shows "keys_ok (add_mset (ucast (hash x), Some x) E)"
proof -
  let ?p = "(ucast (hash x), Some x) :: u32 \<times> 'a option"
  have other: "cmp x (the (snd q)) \<noteq> 0 \<and> cmp (the (snd q)) x \<noteq> 0" if "q \<in># E" for q
  proof -
    have "item_ok q" using assms(1) that by (simp add: keys_ok_def)
    then obtain y where "q = (ucast (hash y), Some y)" by (auto simp: item_ok_def)
    with assms(2) [of y] that cmp_sym [of y x] show ?thesis by auto
  qed
  have "cmp (the (snd p)) (the (snd q)) \<noteq> 0" if pq: "p \<in># add_mset ?p E" "q \<in># add_mset ?p E - {#p#}" for p q
  proof (cases "p = ?p")
    case True
    with pq(2) other show ?thesis by simp
  next
    case False
    with pq(1) have p: "p \<in># E" by simp
    with pq(2) False have "q = ?p \<or> q \<in># E - {#p#}" by simp
    then show ?thesis
    proof
      assume "q = ?p"
      then show ?thesis using other [OF p] by simp
    next
      assume "q \<in># E - {#p#}"
      then show ?thesis using assms(1) p unfolding keys_ok_iff by blast
    qed
  qed
  moreover have "\<forall>p\<in>#add_mset ?p E. item_ok p" using assms(1) by (auto simp: keys_ok_def item_ok_def)
  ultimately show ?thesis unfolding keys_ok_iff by blast
qed

lemma keys_ok_sub:
  assumes "keys_ok (add_mset p E)"
  shows "keys_ok E"
proof -
  have "cmp x y \<noteq> 0" if "E = add_mset (h, Some x) (add_mset (h', Some y) F)" for h x h' y F
  proof -
    have "add_mset p E = add_mset (h, Some x) (add_mset (h', Some y) (add_mset p F))" using that by simp
    with assms show ?thesis unfolding keys_ok_def by blast
  qed
  with assms show ?thesis by (simp add: keys_ok_def)
qed

lemma hm_inv_buckets:
  assumes "hm_inv bsz m" "length bs = hm_nbuckets m" "rh_ok bs" "keys_ok (elems bs)" "size (elems bs) < hm_nbuckets m"
  shows "hm_inv bsz (m\<lparr>hm_buckets := bs, hm_count := size (elems bs)\<rparr>)"
  using assms by (simp add: hm_inv_def hm_shape_def)

lemma hm_inv_aux [simp]:
  "hm_inv bsz (m\<lparr>hm_version := v\<rparr>) = hm_inv bsz m" "hm_inv bsz (m\<lparr>hm_spare := s\<rparr>) = hm_inv bsz m"
  by (simp_all add: hm_inv_def hm_shape_def)

lemma hm_insert_ok:
  assumes "hm_inv bsz m" "hm_nbuckets m * 2 ^ hm_growpower m \<le> 2 ^ 32" "bsz < 2 ^ 32"
  obtains (new) m' where "\<And>y. holds m y \<Longrightarrow> cmp x y \<noteq> 0"
      "hm_insert cmp bsz gs x (hash x) m = Some (False, if gs then Some x else None, m')" "hm_inv bsz m'"
      "elems (hm_buckets m') = add_mset (ucast (hash x), Some x) (elems (hm_buckets m))" "hm_dims m m'"
  | (old) y m' where "holds m y" "cmp x y = 0" "hm_insert cmp bsz gs x (hash x) m = Some (True, Some y, m')" "hm_inv bsz m'"
      "elems (hm_buckets m') + {#(ucast (hash y), Some y)#} = elems (hm_buckets m) + {#(ucast (hash y), if gs then Some y else Some x)#}" "hm_dims m m'"
proof -
  have "hm_inv bsz (m\<lparr>hm_oom := False\<rparr>)" using assms(1) by simp
  then obtain m1 where m1: "hm_grow bsz (m\<lparr>hm_oom := False\<rparr>) = Some (True, m1)" "hm_inv bsz m1"
    "hm_count m1 + 1 < hm_nbuckets m1" "elems (hm_buckets m1) = elems (hm_buckets m)" "hm_dims (m\<lparr>hm_oom := False\<rparr>) m1"
    by (rule hm_grow_ok) (use assms in simp_all)
  have dims: "hm_dims m m2" if "hm_growpower m2 = hm_growpower m1" "hm_loadfactor m2 = hm_loadfactor m1" "hm_nbuckets m2 = hm_nbuckets m1" for m2
    using m1(5) that by (simp add: hm_dims_def)
  let ?bs = "hm_buckets m1" and ?h = "ucast (hash x) :: u32"
  let ?e = "\<lparr>b_hash = ?h, b_dib = 1, b_item = Some x\<rparr>"
  note r = inv_ring [OF m1(2)]
  have rh: "rh_ok ?bs" "keys_ok (elems ?bs)" using m1(2) by (simp_all add: hm_inv_def)
  let ?i = "unat ?h AND hm_mask m1"
  have i: "?i < length ?bs" "?i = (unat ?h + (1 - 1)) mod length ?bs"
    using and_ring [OF r(1)] ring_pos [OF r(1)] by simp_all
  show thesis
  proof (cases "\<exists>j. match_at x ?bs j")
    case True
    then obtain j where j: "match_at x ?bs j" by blast
    then have "1 \<le> dib ?bs j" by (simp add: match_at_def)
    then obtain i' where i': "rh_insert cmp (hm_nbuckets m1) (hm_mask m1) ?bs ?e ?i = Some (Some i', ?bs)" "match_at x ?bs i'"
      using rh_insert_hit [OF rh(1) r(1,2) rh(2) j, of ?e ?i "hm_nbuckets m1"] i(2) r(4) by auto
    have il: "i' < length ?bs" "0 < dib ?bs i'" using i'(2) by (simp_all add: match_at_def)
    obtain y where y: "b_item (?bs ! i') = Some y" "(ucast (hash y), Some y) \<in># elems ?bs" "cmp x y = 0"
      using match_holds(1) [OF rh(2) i'(2)] by blast
    have hy: "b_hash (?bs ! i') = ucast (hash y)" by (rule bucket_item [OF rh(2) il]) (use y(1) in simp)
    have same: "hash y = hash x" using cmp_hash [OF y(3)] by simp
    have hm: "holds m y" using y(2) m1(4) by (simp add: holds_def)
    show thesis
    proof (cases gs)
      case True
      have "hm_insert cmp bsz gs x (hash x) m = Some (True, Some y, m1)"
        using True m1(1) i'(1) y(1) by (simp add: hm_insert_def)
      with old [OF hm y(3) _ m1(2)] m1(4) True dims show thesis by simp
    next
      case False
      let ?b = "(?bs ! i')\<lparr>b_item := Some x\<rparr>"
      let ?m = "m1\<lparr>hm_buckets := ?bs[i' := ?b], hm_spare := Some y\<rparr>"
      have el: "elems (?bs[i' := ?b]) + {#(ucast (hash y), Some y)#} = elems ?bs + {#(ucast (hash y), Some x)#}"
        using elems_update [OF il(1), of ?b] il(2) hy y(1) by (simp add: elem_def)
      have "size (elems (?bs[i' := ?b]) + {#(ucast (hash y), Some y)#}) = size (elems ?bs + {#(ucast (hash y) :: u32, Some x)#})"
        unfolding el by simp
      then have sz: "size (elems (?bs[i' := ?b])) = size (elems ?bs)" by simp
      obtain F where F: "elems ?bs = add_mset (ucast (hash y), Some y) F" using y(2) by (meson multi_member_split)
      then have el': "elems (?bs[i' := ?b]) = add_mset (ucast (hash x), Some x) F" using el same by simp
      have "cmp x z \<noteq> 0" if "(ucast (hash z), Some z) \<in># F" for z
      proof
        assume "cmp x z = 0"
        then have "cmp y z = 0" using cmp_trans [OF cmp_sym [OF y(3)]] by blast
        moreover from that obtain G where "F = add_mset (ucast (hash z), Some z) G" by (meson multi_member_split)
        ultimately show False using rh(2) F unfolding keys_ok_def by blast
      qed
      then have "keys_ok (elems (?bs[i' := ?b]))"
        unfolding el' using keys_ok_add keys_ok_sub rh(2) F by metis
      moreover have "rh_ok (?bs[i' := ?b])"
        using rh(1) il by (auto simp: rh_ok_def nth_list_update at_home_def)
      ultimately have "hm_inv bsz (m1\<lparr>hm_buckets := ?bs[i' := ?b], hm_count := hm_count m1\<rparr>)"
        using hm_inv_buckets [OF m1(2), of "?bs[i' := ?b]"] sz m1(2) r(4) by (simp add: hm_inv_def)
      then have "hm_inv bsz ?m" by simp
      moreover have "hm_insert cmp bsz gs x (hash x) m = Some (True, Some y, ?m)"
        using False m1(1) i'(1) y(1) by (simp add: hm_insert_def Let_def)
      ultimately show thesis using old [OF hm y(3)] el m1(4) False dims by simp
    qed
  next
    case False
    have nm: "cmp x y \<noteq> 0" if "holds m y" for y
      using match_holds(2) [OF rh(2)] False that m1(4) by (auto simp: holds_def)
    have "keys_ok (add_mset (ucast (hash x), Some x) (elems ?bs))"
      by (rule keys_ok_add [OF rh(2)]) (use nm m1(4) in \<open>auto simp: holds_def\<close>)
    then have k: "keys_ok (elems ?bs + elem ?e)" by (simp add: elem_def)
    obtain bs' where bs': "rh_place (length ?bs) (hm_mask m1) ?bs ?e ?i = Some bs'" "rh_ok bs'" "length bs' = length ?bs"
      "elems bs' = elems ?bs + elem ?e"
      using rh_place_ideal [OF rh(1) r(1) _ r(2), of ?e] r(3) by auto
    let ?m = "m1\<lparr>hm_buckets := bs', hm_count := hm_count m1 + 1, hm_version := hm_version m1 + 1\<rparr>"
    have "size (elems bs') = hm_count m1 + 1" using bs'(4) m1(2) by (simp add: hm_inv_def elem_def)
    then have "hm_inv bsz ?m"
      using hm_inv_buckets [OF m1(2) _ bs'(2)] bs'(3,4) k r(4) m1(3) by simp
    moreover have "hm_insert cmp bsz gs x (hash x) m = Some (False, if gs then Some x else None, ?m)"
      using m1(1) rh_insert_new [OF r(1) i(1) k] bs'(1) r(4) by (simp add: hm_insert_def)
    ultimately show thesis using new [OF nm] bs'(4) m1(4) dims by (simp add: elem_def)
  qed
qed

section \<open>What the operations mean\<close>

lemma holds_elems: "holds m x \<longleftrightarrow> (ucast (hash x), Some x) \<in># elems (hm_buckets m)"
  by (simp add: holds_def)

lemma hm_get_cases:
  assumes "hm_inv bsz m"
  obtains (none) "hm_get hash cmp k m = Some None" "\<And>y. holds m y \<Longrightarrow> cmp k y \<noteq> 0"
  | (some) y where "hm_get hash cmp k m = Some (Some y)" "holds m y" "cmp k y = 0"
proof -
  obtain r where r: "hm_get hash cmp k m = Some r" "\<And>x. r = Some x \<longleftrightarrow> holds m x \<and> cmp k x = 0"
    using hm_get_ok [OF assms] by blast
  show thesis
  proof (cases r)
    case None
    with r none show ?thesis by blast
  next
    case (Some y)
    with r some show ?thesis by blast
  qed
qed

lemma hm_get_same_key:
  assumes "hm_inv bsz m" "cmp k x = 0"
  shows "hm_get hash cmp k m = hm_get hash cmp x m"
proof -
  obtain r where "hm_get hash cmp x m = Some r" "\<And>y. r = Some y \<longleftrightarrow> holds m y \<and> cmp x y = 0"
    using hm_get_ok [OF assms(1)] by blast
  moreover have "cmp k y = 0 \<longleftrightarrow> cmp x y = 0" for y using assms(2) cmp_trans cmp_sym by blast
  ultimately show ?thesis using hm_get_eqI [OF assms(1), of r k] by simp
qed

text \<open>Replacing or adding the element of a key.\<close>

lemma get_after_put:
  assumes "hm_inv bsz m" "hm_inv bsz m'" "elems (hm_buckets m) = E + F" "elems (hm_buckets m') = add_mset (ucast (hash z), Some z) E"
    and "cmp x z = 0" "\<And>p. p \<in># F \<Longrightarrow> cmp x (the (snd p)) = 0" "\<And>y. (ucast (hash y), Some y) \<in># E \<Longrightarrow> cmp x y \<noteq> 0"
  shows "hm_get hash cmp k m' = (if cmp k x = 0 then Some (Some z) else hm_get hash cmp k m)"
proof (cases "cmp k x = 0")
  case True
  have "Some z = Some w \<longleftrightarrow> holds m' w \<and> cmp k w = 0" for w
  proof
    assume "Some z = Some w"
    then show "holds m' w \<and> cmp k w = 0" using assms(4,5) True cmp_trans by (auto simp: holds_def)
  next
    assume w: "holds m' w \<and> cmp k w = 0"
    then have "cmp x w = 0" using True cmp_trans cmp_sym by blast
    with w assms(4,7) show "Some z = Some w" by (auto simp: holds_def)
  qed
  with True hm_get_eqI [OF assms(2)] show ?thesis by simp
next
  case False
  obtain r where r: "hm_get hash cmp k m = Some r" "\<And>y. r = Some y \<longleftrightarrow> holds m y \<and> cmp k y = 0"
    using hm_get_ok [OF assms(1)] by blast
  have no: "cmp k w \<noteq> 0" if "cmp x w = 0" for w
    using False that cmp_trans cmp_sym by blast
  have "holds m w \<longleftrightarrow> holds m' w" if "cmp k w = 0" for w
  proof -
    have "cmp x w \<noteq> 0" using no that by blast
    then have "w \<noteq> z" "(ucast (hash w), Some w) \<notin># F" using assms(5,6) by force+
    then show ?thesis using assms(3,4) by (auto simp: holds_def)
  qed
  with r have "\<And>y. r = Some y \<longleftrightarrow> holds m' y \<and> cmp k y = 0" by blast
  with hm_get_eqI [OF assms(2)] r(1) False show ?thesis by simp
qed

lemma others_apart:
  assumes "keys_ok (add_mset (h, Some y) E)" "cmp x y = 0" "(ucast (hash z), Some z) \<in># E"
  shows "cmp x z \<noteq> 0"
proof
  assume "cmp x z = 0"
  then have "cmp y z = 0" using assms(2) cmp_trans cmp_sym by blast
  moreover from assms(3) obtain G where "E = add_mset (ucast (hash z), Some z) G" by (meson multi_member_split)
  ultimately show False using assms(1) unfolding keys_ok_def by blast
qed

lemma hm_insert_get:
  assumes "hm_inv bsz m" "hm_nbuckets m * 2 ^ hm_growpower m \<le> 2 ^ 32" "bsz < 2 ^ 32"
  obtains old m' where "hm_get hash cmp x m = Some old" "hm_inv bsz m'"
    "hm_insert cmp bsz gs x (hash x) m =
       Some (old \<noteq> None, if gs then Some (case old of None \<Rightarrow> x | Some y \<Rightarrow> y) else old, m')"
    "\<And>k. hm_get hash cmp k m' =
       (if cmp k x = 0 then Some (Some (if gs then case old of None \<Rightarrow> x | Some y \<Rightarrow> y else x)) else hm_get hash cmp k m)"
    "hm_dims m m'" "hm_count m' \<le> hm_count m + 1"
proof (cases rule: hm_insert_ok [OF assms, of x gs])
  case (1 m')
  have "hm_get hash cmp x m = Some None" by (rule hm_get_eqI [OF assms(1)]) (use 1(1) in auto)
  moreover have "hm_get hash cmp k m' = (if cmp k x = 0 then Some (Some x) else hm_get hash cmp k m)" for k
    by (rule get_after_put [OF assms(1) 1(3), of _ "{#}"]) (use 1(1,4) cmp_refl in \<open>auto simp: holds_def\<close>)
  moreover have "hm_count m' = hm_count m + 1" using 1(3,4) assms(1) by (simp add: hm_inv_def)
  ultimately show ?thesis using that [of None m'] 1(2,3,5) by simp
next
  case (2 y m')
  have keys: "keys_ok (elems (hm_buckets m))" using assms(1) by (simp add: hm_inv_def)
  obtain E where E: "elems (hm_buckets m) = add_mset (ucast (hash y), Some y) E"
    using 2(1) unfolding holds_def by (meson multi_member_split)
  have h: "hash y = hash x" using cmp_hash [OF 2(2)] by simp
  let ?z = "if gs then y else x"
  have E': "elems (hm_buckets m') = add_mset (ucast (hash ?z), Some ?z) E" using 2(5) E h by auto
  have "hm_get hash cmp x m = Some (Some y)"
    using hm_get_ok [OF assms(1), of x] 2(1,2) by (metis option.inject)
  moreover have "hm_get hash cmp k m' = (if cmp k x = 0 then Some (Some ?z) else hm_get hash cmp k m)" for k
  proof (rule get_after_put [OF assms(1) 2(4) _ E'])
    show "elems (hm_buckets m) = E + {#(ucast (hash y), Some y)#}" using E by simp
    show "cmp x ?z = 0" using 2(2) cmp_refl by simp
    show "cmp x (the (snd p)) = 0" if "p \<in># {#(ucast (hash y), Some y)#}" for p :: "u32 \<times> 'a option" using that 2(2) by simp
    show "cmp x w \<noteq> 0" if "(ucast (hash w), Some w) \<in># E" for w
      using others_apart [OF _ 2(2) that] keys E by metis
  qed
  moreover have "hm_count m' = hm_count m" using 2(4) E E' assms(1) by (simp add: hm_inv_def)
  ultimately show ?thesis using that [of "Some y" m'] 2(3,4,6) by (cases gs) simp_all
qed

section \<open>Deletion\<close>

lemma hm_delete_ok:
  assumes "hm_inv bsz m"
  obtains old m' where "hm_delete hash cmp bsz x m = Some (old, m')" "hm_get hash cmp x m = Some old" "hm_inv bsz m'"
    "\<And>k. hm_get hash cmp k m' = (if cmp k x = 0 then Some None else hm_get hash cmp k m)"
    "hm_growpower m' = hm_growpower m" "hm_loadfactor m' = hm_loadfactor m" "hm_nbuckets m' \<le> hm_nbuckets m"
    "hm_count m' \<le> hm_count m"
proof -
  define m0 where "m0 = m\<lparr>hm_oom := False\<rparr>"
  have inv0: "hm_inv bsz m0" and same: "hm_buckets m0 = hm_buckets m" using assms by (simp_all add: m0_def)
  let ?bs = "hm_buckets m"
  note r = inv_ring [OF assms]
  have rh: "rh_ok ?bs" "keys_ok (elems ?bs)" using assms by (simp_all add: hm_inv_def)
  obtain f where f: "hm_find cmp x (hash x) m = Some f"
    "case f of None \<Rightarrow> \<forall>j. \<not> match_at x ?bs j | Some j \<Rightarrow> match_at x ?bs j"
    using hm_find_ok [OF assms, of x] by (elim exE conjE)
  have f0: "hm_find cmp x (hash x) m0 = Some f" using f(1) by (simp add: m0_def hm_find_def)
  have g0: "hm_get hash cmp k m0 = hm_get hash cmp k m" for k by (simp add: m0_def hm_get_def hm_find_def)
  show thesis
  proof (cases f)
    case None
    have "hm_get hash cmp x m = Some None" using f(1) None by (simp add: hm_get_def)
    moreover have "hm_delete hash cmp bsz x m = Some (None, m0)" using f0 None by (simp add: hm_delete_def flip: m0_def)
    moreover have "hm_get hash cmp k m0 = Some None" if "cmp k x = 0" for k
      using hm_get_same_key [OF assms that] \<open>hm_get hash cmp x m = Some None\<close> g0 by simp
    ultimately show thesis using that [of None m0] inv0 g0 by (simp add: m0_def)
  next
    case (Some i)
    then have mi: "match_at x ?bs i" using f(2) by simp
    then have i: "i < length ?bs" "0 < dib ?bs i" by (simp_all add: match_at_def)
    obtain y where y: "b_item (?bs ! i) = Some y" "(ucast (hash y), Some y) \<in># elems ?bs" "cmp x y = 0"
      using match_holds(1) [OF rh(2) mi] by blast
    have hy: "b_hash (?bs ! i) = ucast (hash y)" by (rule bucket_item [OF rh(2) i]) (use y(1) in simp)
    let ?ds = "?bs[i := (?bs ! i)\<lparr>b_dib := 0\<rparr>]"
    from r(2) obtain z where z: "z < length ?bs" "dib ?bs z = 0" by (auto simp: has_room_def)
    have zi: "z \<noteq> i" using z(2) i(2) by auto
    obtain t where t: "t < length ?bs" "(i + t) mod length ?bs = z" using ring_distance [OF z(1) i(1)] .
    have t0: "0 < t" using t(2) zi i(1) by (cases t) auto
    have dz: "dib ?ds ((i + t) mod length ?ds) = 0" using t(2) z zi by simp
    have h: "hole ?ds i" by (rule hole_made [OF rh(1) i(1)]) (use r(3) in simp)
    obtain bs' where bs': "rh_shift (hm_nbuckets m) (hm_mask m) ?ds i = Some bs'" "rh_ok bs'" "length bs' = length ?bs"
      "elems bs' = elems ?ds"
      using rh_shift_ok [OF h _ _ dz t0, of "hm_mask m" "hm_nbuckets m"] r t(1) i(1) by auto
    have "elems ?ds + {#(ucast (hash y), Some y)#} = elems ?bs"
      using elems_update [OF i(1), of "(?bs ! i)\<lparr>b_dib := 0\<rparr>"] i(2) hy y(1) by (simp add: elem_def)
    then have el: "elems ?bs = add_mset (ucast (hash y), Some y) (elems bs')" using bs'(4) by simp
    have keys': "keys_ok (elems bs')" using rh(2) el keys_ok_sub by metis
    define m1 where "m1 = m0\<lparr>hm_buckets := bs', hm_spare := Some y, hm_count := hm_count m - 1, hm_version := hm_version m + 1\<rparr>"
    have cnt: "hm_count m - 1 = size (elems bs')" "size (elems bs') < hm_nbuckets m"
      using el assms by (simp_all add: hm_inv_def)
    have tuned1: "hm_tuned m1 = hm_tuned m" by (simp add: m1_def m0_def hm_tuned_def hm_shrink_to_def Let_def)
    have inv1: "hm_inv bsz m1"
      using assms bs'(2,3) keys' cnt r(4) tuned1 by (simp add: hm_inv_def hm_shape_def) (simp add: m1_def m0_def)
    have fields: "hm_cap m1 = hm_cap m" "hm_nbuckets m1 = hm_nbuckets m" "hm_growpower m1 = hm_growpower m"
      "hm_loadfactor m1 = hm_loadfactor m" "hm_buckets m1 = bs'" "hm_count m1 \<le> hm_count m"
      by (simp_all add: m1_def m0_def)
    have get: "hm_get hash cmp k m' = (if cmp k x = 0 then Some None else hm_get hash cmp k m)"
      if m': "hm_inv bsz m'" "elems (hm_buckets m') = elems bs'" for k m'
    proof (cases "cmp k x = 0")
      case True
      have "cmp k w \<noteq> 0" if "holds m' w" for w
      proof
        assume "cmp k w = 0"
        then have "cmp x w = 0" using True cmp_trans cmp_sym by blast
        moreover have "cmp x w \<noteq> 0"
          using others_apart [of "ucast (hash y)" y "elems bs'" x w] rh(2) el y(3) that m'(2) by (simp add: holds_def)
        ultimately show False by simp
      qed
      then have "hm_get hash cmp k m' = Some None" using hm_get_eqI [OF m'(1), of None k] by auto
      with True show ?thesis by simp
    next
      case False
      obtain r where r: "hm_get hash cmp k m = Some r" "\<And>y. r = Some y \<longleftrightarrow> holds m y \<and> cmp k y = 0"
        using hm_get_ok [OF assms] by blast
      have "cmp k y \<noteq> 0" using False y(3) cmp_trans cmp_sym by blast
      then have "holds m w \<longleftrightarrow> holds m' w" if "cmp k w = 0" for w using that el m'(2) by (auto simp: holds_def)
      with r(2) have "\<And>w. r = Some w \<longleftrightarrow> holds m' w \<and> cmp k w = 0" by blast
      with hm_get_eqI [OF m'(1)] r(1) False show ?thesis by simp
    qed
    have old: "hm_get hash cmp x m = Some (Some y)" using f(1) Some y(1) by (simp add: hm_get_def)
    show thesis
    proof (cases "hm_cap m1 < hm_nbuckets m1 \<and> hm_count m1 \<le> hm_shrinkat m1")
      case True
      have shape: "hm_shape bsz m1" and tuned: "hm_tuned m1" using inv1 by (simp_all add: hm_inv_def)
      obtain k where k: "hm_shrink_to m1 = 2 ^ k" using shrink_to_size(1) [OF shape] by blast
      have le: "hm_cap m1 \<le> hm_shrink_to m1" "hm_shrink_to m1 \<le> hm_nbuckets m1" using shrink_to_size [OF shape] by simp_all
      have big: "16 \<le> hm_cap m1" "hm_nbuckets m1 \<le> 2 ^ 32" "bsz \<le> SIZE_MAX div hm_nbuckets m1" using shape by (simp_all add: hm_shape_def)
      have "3 * hm_count m1 \<le> hm_shrink_to m1" using True tuned by (simp add: hm_tuned_def)
      then have lt: "hm_count m1 < hm_shrink_to m1" using le(1) big(1) by linarith
      have b2: "bsz \<le> SIZE_MAX div hm_shrink_to m1"
        using big(3) div_le_mono2 [OF _ le(2), of SIZE_MAX] le(1) big(1) by linarith
      have le32: "hm_shrink_to m1 \<le> 2 ^ 32" using le(2) big(2) by linarith
      obtain m2 where m2: "hm_resize bsz m1 (hm_shrink_to m1) = Some (True, m2)" "hm_inv bsz m2"
        "hm_nbuckets m2 = hm_shrink_to m1" "elems (hm_buckets m2) = elems (hm_buckets m1)"
        "hm_growpower m2 = hm_growpower m1" "hm_loadfactor m2 = hm_loadfactor m1"
        by (rule hm_resize_ok [OF inv1 k le(1) le32 lt b2]) (use that in blast)
      have "hm_delete hash cmp bsz x m = Some (Some y, m2)"
        using f0 Some bs'(1) True m2(1) y(1) by (simp add: hm_delete_def Let_def m1_def m0_def)
      moreover have "hm_count m2 \<le> hm_count m" using m2(2,4) inv1 fields(6) by (simp add: hm_inv_def)
      ultimately show thesis using that [of "Some y" m2] old get [OF m2(2)] m2 fields le(2) by simp
    next
      case False
      have "hm_delete hash cmp bsz x m = Some (Some y, m1)"
        using f0 Some bs'(1) False y(1) by (auto simp: hm_delete_def Let_def m1_def m0_def)
      with that [of "Some y" m1] old get [OF inv1] inv1 fields show thesis by simp
    qed
  qed
qed

section \<open>Creation and clearing\<close>

lemma hm_new_cap_ok:
  "cap \<le> 2 ^ n \<Longrightarrow> j \<le> n \<Longrightarrow> n \<le> 32 \<Longrightarrow> \<exists>k. hm_new_cap cap (2 ^ j) = Some (2 ^ k) \<and> j \<le> k \<and> k \<le> n \<and> cap \<le> 2 ^ k"
proof (induction "n - j" arbitrary: j)
  case 0
  then show ?case by (auto simp: hm_new_cap.simps [of cap])
next
  case (Suc d)
  show ?case
  proof (cases "2 ^ j < cap")
    case True
    from Suc.hyps(2) have "j < n" by simp
    then have "\<exists>k. hm_new_cap cap (2 ^ Suc j) = Some (2 ^ k) \<and> Suc j \<le> k \<and> k \<le> n \<and> cap \<le> 2 ^ k"
      using Suc by (intro Suc.hyps(1)) auto
    moreover have "(2 :: nat) ^ j \<le> 2 ^ 32" using Suc.prems by (intro power_increasing) auto
    then have "\<not> SIZE_MAX div 2 < 2 ^ j" by simp
    ultimately show ?thesis using True by (auto simp: hm_new_cap.simps [of cap "2 ^ j"] mult.commute)
  next
    case False
    with Suc.prems show ?thesis by (auto simp: hm_new_cap.simps [of cap])
  qed
qed

lemma hm_empty_get:
  assumes "hm_inv bsz m" "elems (hm_buckets m) = {#}"
  shows "hm_get hash cmp k m = Some None"
  by (rule hm_get_eqI [OF assms(1)]) (simp add: holds_def assms(2))

lemma hm_new_ok:
  assumes "cap \<le> 2 ^ n" "4 \<le> n" "n \<le> 32" "bsz < 2 ^ 32"
  obtains m where "hm_new bsz cap = Some m" "hm_inv bsz m" "elems (hm_buckets m) = {#}" "hm_growpower m = 1"
    "hm_loadfactor m = 60" "hm_nbuckets m \<le> 2 ^ n" "hm_count m = 0"
proof -
  obtain k where k: "hm_new_cap cap 16 = Some (2 ^ k)" "4 \<le> k" "k \<le> n"
    using hm_new_cap_ok [OF assms(1,2,3)] by auto
  let ?n = "2 ^ k :: nat"
  define m0 :: "'a hashmap" where "m0 = \<lparr>hm_cap = ?n, hm_nbuckets = ?n, hm_count = 0, hm_mask = ?n - 1, hm_growat = 0, hm_shrinkat = 0,
          hm_loadfactor = 60, hm_growpower = 1, hm_oom = False, hm_version = 0,
          hm_buckets = replicate ?n empty_bucket, hm_spare = None\<rparr>"
  have n: "16 \<le> ?n" "?n \<le> 2 ^ 32" "?n \<le> 2 ^ n"
    using power_increasing [OF k(2), of "2 :: nat"] power_increasing [of k 32 "2 :: nat"] power_increasing [OF k(3), of "2 :: nat"] k(3) assms(3)
    by simp_all
  have "bsz \<le> SIZE_MAX div 2 ^ 32" using assms(4) by simp
  then have b: "bsz \<le> SIZE_MAX div ?n" using div_le_mono2 [OF _ n(2), of SIZE_MAX] by (meson le_trans zero_less_numeral zero_less_power)
  have shape: "hm_shape bsz m0" using n(1,2) b by (auto simp: hm_shape_def m0_def)
  have "rh_ok (replicate ?n empty_bucket)" by (auto simp: rh_ok_def empty_bucket_def nx_def)
  then have "hm_inv bsz (hm_set_thresholds m0)"
    using thresholds_tuned [OF shape] shape by (simp add: hm_inv_def) (simp add: m0_def hm_shape_def keys_ok_def)
  moreover have "m0\<lparr>hm_loadfactor := 60\<rparr> = m0" by (simp add: m0_def)
  then have "hm_new bsz cap = Some (hm_set_thresholds m0)"
    using k(1) b by (simp add: hm_new_def hm_set_load_factor_def) (simp add: m0_def)
  ultimately show thesis using that [of "hm_set_thresholds m0"] n by (simp add: m0_def)
qed

end

end
