(* ===== verification/Hash_Map_Run.thy ===== *)
theory Hash_Map_Run
  imports Hash_Map_Laws
begin

text \<open>
  A client of \<open>lib/containers/hashmap.h\<close>: any sequence of operations on a new table gives the results
  of a finite map, through every growth and shrinkage; and the instances of \<open>HASHMAP_DECL\<close> that the
  task tables (\<open>lib/srey/spub.h\<close>) and the coroutine sessions (\<open>lib/coro/coro.c\<close>) use.
\<close>

section \<open>Sequences of operations\<close>

datatype 'a hm_op = Op_Set 'a | Op_Get_Set 'a | Op_Get 'a | Op_Delete 'a

text \<open>The results are what the returned pointers show.\<close>

fun hm_step :: "('a \<Rightarrow> u64) \<Rightarrow> ('a \<Rightarrow> 'a \<Rightarrow> int) \<Rightarrow> nat \<Rightarrow> 'a hm_op \<Rightarrow> 'a hashmap \<Rightarrow> ('a option \<times> 'a hashmap) option" where
  "hm_step hash cmp bsz (Op_Set x) m = hm_set hash cmp bsz x m"
| "hm_step hash cmp bsz (Op_Get_Set x) m = map_option snd (hm_get_set hash cmp bsz x m)"
| "hm_step hash cmp bsz (Op_Get x) m = map_option (\<lambda>r. (r, m)) (hm_get hash cmp x m)"
| "hm_step hash cmp bsz (Op_Delete x) m = hm_delete hash cmp bsz x m"

fun hm_run :: "('a \<Rightarrow> u64) \<Rightarrow> ('a \<Rightarrow> 'a \<Rightarrow> int) \<Rightarrow> nat \<Rightarrow> 'a hm_op list \<Rightarrow> 'a hashmap \<Rightarrow> ('a option list \<times> 'a hashmap) option" where
  "hm_run hash cmp bsz [] m = Some ([], m)"
| "hm_run hash cmp bsz (opn # ops) m =
     Option.bind (hm_step hash cmp bsz opn m) (\<lambda>(r, m). map_option (\<lambda>(rs, m). (r # rs, m)) (hm_run hash cmp bsz ops m))"

text \<open>The same operations on the map from keys to the element with that key.\<close>

definition upd :: "('a \<Rightarrow> 'a \<Rightarrow> int) \<Rightarrow> 'a \<Rightarrow> 'a option \<Rightarrow> ('a \<Rightarrow> 'a option) \<Rightarrow> 'a \<Rightarrow> 'a option" where
  "upd cmp x v s = (\<lambda>k. if cmp k x = 0 then v else s k)"

fun spec_step :: "('a \<Rightarrow> 'a \<Rightarrow> int) \<Rightarrow> 'a hm_op \<Rightarrow> ('a \<Rightarrow> 'a option) \<Rightarrow> 'a option \<times> ('a \<Rightarrow> 'a option)" where
  "spec_step cmp (Op_Set x) s = (s x, upd cmp x (Some x) s)"
| "spec_step cmp (Op_Get_Set x) s = (let y = (case s x of None \<Rightarrow> x | Some y \<Rightarrow> y) in (Some y, upd cmp x (Some y) s))"
| "spec_step cmp (Op_Get x) s = (s x, s)"
| "spec_step cmp (Op_Delete x) s = (s x, upd cmp x None s)"

fun spec_run :: "('a \<Rightarrow> 'a \<Rightarrow> int) \<Rightarrow> 'a hm_op list \<Rightarrow> ('a \<Rightarrow> 'a option) \<Rightarrow> 'a option list \<times> ('a \<Rightarrow> 'a option)" where
  "spec_run cmp [] s = ([], s)"
| "spec_run cmp (opn # ops) s =
     (case spec_step cmp opn s of (r, s) \<Rightarrow> case spec_run cmp ops s of (rs, s) \<Rightarrow> (r # rs, s))"

context hash_key
begin

text \<open>A table with the default load factor and growth, small enough to grow once more.\<close>

definition hm_room :: "nat \<Rightarrow> nat \<Rightarrow> 'a hashmap \<Rightarrow> bool" where
  "hm_room bsz n m \<longleftrightarrow> hm_inv bsz m \<and> hm_growpower m = 1 \<and> hm_loadfactor m = 60 \<and> hm_nbuckets m \<le> 2 ^ 31 \<and>
     hm_count m + n \<le> 2 ^ 30"

lemma room_grow:
  assumes "hm_room bsz (Suc n) m" "hm_dims m m'" "hm_inv bsz m'" "hm_count m' \<le> hm_count m + 1"
  shows "hm_room bsz n m'"
proof -
  have inv: "hm_inv bsz m" and r: "hm_growpower m = 1" "hm_loadfactor m = 60" "hm_nbuckets m \<le> 2 ^ 31" "hm_count m + Suc n \<le> 2 ^ 30"
    using assms(1) by (simp_all add: hm_room_def)
  have "hm_nbuckets m' \<le> 2 ^ 31"
  proof (cases "hm_nbuckets m' = hm_nbuckets m")
    case False
    then have n: "hm_nbuckets m' = hm_nbuckets m * 2" "hm_growat m \<le> hm_count m" using assms(2) r(1) by (simp_all add: hm_dims_def)
    obtain k where k: "hm_nbuckets m = 2 ^ k" and g: "hm_growat m = hm_nbuckets m * 60 div 100"
      using inv r(2) by (auto simp: hm_inv_def hm_shape_def hm_tuned_def)
    from n(2) r(4) g have "2 ^ k * 60 div 100 < (1073741824 :: nat)" unfolding k by simp
    then have "2 ^ k < (2 :: nat) ^ 31" by simp
    then have "k < 31" by (simp only: power_strict_increasing_iff [of "2 :: nat"] one_less_numeral_iff semiring_norm)
    then have "(2 :: nat) ^ Suc k \<le> 2 ^ 31" by (intro power_increasing) auto
    with n(1) k show ?thesis by simp
  qed (use r(3) in simp)
  with assms r show ?thesis by (simp add: hm_room_def hm_dims_def)
qed

lemma hm_get_set_room:
  assumes "hm_room bsz (Suc n) m" "bsz < 2 ^ 32" "\<And>k. hm_get hash cmp k m = Some (s k)"
  shows "\<exists>m'. hm_get_set hash cmp bsz x m = Some (s x \<noteq> None, Some (case s x of None \<Rightarrow> x | Some y \<Rightarrow> y), m') \<and>
    hm_room bsz n m' \<and> (\<forall>k. hm_get hash cmp k m' = Some (upd cmp x (Some (case s x of None \<Rightarrow> x | Some y \<Rightarrow> y)) s k))"
proof -
  have inv: "hm_inv bsz m" and big: "hm_nbuckets m * 2 ^ hm_growpower m \<le> 2 ^ 32" using assms(1) by (simp_all add: hm_room_def)
  obtain old m' where m': "hm_get hash cmp x m = Some old" "hm_inv bsz m'"
    "hm_insert cmp bsz True x (hash x) m = Some (old \<noteq> None, Some (case old of None \<Rightarrow> x | Some y \<Rightarrow> y), m')"
    "\<And>k. hm_get hash cmp k m' = (if cmp k x = 0 then Some (Some (case old of None \<Rightarrow> x | Some y \<Rightarrow> y)) else hm_get hash cmp k m)"
    "hm_dims m m'" "hm_count m' \<le> hm_count m + 1"
    by (rule hm_insert_get [OF inv big assms(2), of x True]) simp
  with room_grow [OF assms(1) m'(5,2,6)] assms(3) show ?thesis by (simp add: hm_get_set_def upd_def)
qed

lemma hm_step_ok:
  assumes "hm_room bsz (Suc n) m" "bsz < 2 ^ 32" "\<And>k. hm_get hash cmp k m = Some (s k)"
  shows "\<exists>m'. hm_step hash cmp bsz opn m = Some (fst (spec_step cmp opn s), m') \<and> hm_room bsz n m' \<and>
    (\<forall>k. hm_get hash cmp k m' = Some (snd (spec_step cmp opn s) k))"
proof -
  have inv: "hm_inv bsz m" and big: "hm_nbuckets m * 2 ^ hm_growpower m \<le> 2 ^ 32" using assms(1) by (simp_all add: hm_room_def)
  show ?thesis
  proof (cases opn)
    case (Op_Set x)
    obtain old m' where m': "hm_get hash cmp x m = Some old" "hm_inv bsz m'"
      "hm_insert cmp bsz False x (hash x) m = Some (old \<noteq> None, old, m')"
      "\<And>k. hm_get hash cmp k m' = (if cmp k x = 0 then Some (Some x) else hm_get hash cmp k m)"
      "hm_dims m m'" "hm_count m' \<le> hm_count m + 1"
      by (rule hm_insert_get [OF inv big assms(2), of x False]) simp
    with room_grow [OF assms(1) m'(5,2,6)] Op_Set assms(3) show ?thesis by (simp add: hm_set_def upd_def)
  next
    case (Op_Get_Set x)
    with hm_get_set_room [OF assms, of x] show ?thesis by (auto simp: Let_def)
  next
    case (Op_Get x)
    have "hm_room bsz n m" using assms(1) by (simp add: hm_room_def)
    with Op_Get assms(3) show ?thesis by simp
  next
    case (Op_Delete x)
    obtain old m' where m': "hm_delete hash cmp bsz x m = Some (old, m')" "hm_get hash cmp x m = Some old" "hm_inv bsz m'"
      "\<And>k. hm_get hash cmp k m' = (if cmp k x = 0 then Some None else hm_get hash cmp k m)"
      "hm_growpower m' = hm_growpower m" "hm_loadfactor m' = hm_loadfactor m" "hm_nbuckets m' \<le> hm_nbuckets m"
      "hm_count m' \<le> hm_count m"
      by (rule hm_delete_ok [OF inv, of x]) (rule that)
    have "hm_room bsz n m'" using assms(1) m'(3,5-8) by (simp add: hm_room_def)
    with m'(1,2,4) Op_Delete assms(3) show ?thesis by (simp add: upd_def)
  qed
qed

lemma hm_run_ok:
  assumes "hm_room bsz (length ops) m" "bsz < 2 ^ 32" "\<And>k. hm_get hash cmp k m = Some (s k)"
  shows "\<exists>m'. hm_run hash cmp bsz ops m = Some (fst (spec_run cmp ops s), m') \<and>
    (\<forall>k. hm_get hash cmp k m' = Some (snd (spec_run cmp ops s) k))"
  using assms
proof (induction ops arbitrary: m s)
  case Nil
  then show ?case by simp
next
  case (Cons opn ops)
  obtain r s1 where s1: "spec_step cmp opn s = (r, s1)" by (metis surj_pair)
  obtain m1 where m1: "hm_step hash cmp bsz opn m = Some (r, m1)" "hm_room bsz (length ops) m1"
    "\<And>k. hm_get hash cmp k m1 = Some (s1 k)"
    using hm_step_ok [OF _ Cons.prems(2,3), of "length ops" opn] Cons.prems(1) s1 by auto
  from Cons.IH [OF m1(2) Cons.prems(2) m1(3)] m1(1) s1 show ?case by (auto split: prod.split)
qed

lemma hm_new_room:
  assumes "bsz < 2 ^ 32" "cap \<le> 2 ^ 31" "n \<le> 2 ^ 30"
  shows "\<exists>m. hm_new bsz cap = Some m \<and> hm_room bsz n m \<and> (\<forall>k. hm_get hash cmp k m = Some None)"
proof -
  obtain m :: "'a hashmap" where m: "hm_new bsz cap = Some m" "hm_inv bsz m" "elems (hm_buckets m) = {#}" "hm_growpower m = 1"
    "hm_loadfactor m = 60" "hm_nbuckets m \<le> 2 ^ 31" "hm_count m = 0"
    by (rule hm_new_ok [OF assms(2) _ _ assms(1)]) simp_all
  then have "hm_room bsz n m" using assms(3) by (simp add: hm_room_def)
  with m(1) hm_empty_get [OF m(2,3)] show ?thesis by blast
qed

lemma hm_new_run:
  assumes "bsz < 2 ^ 32" "cap \<le> 2 ^ 31" "length ops \<le> 2 ^ 30"
  shows "\<exists>m m'. hm_new bsz cap = Some m \<and> hm_run hash cmp bsz ops m = Some (fst (spec_run cmp ops Map.empty), m') \<and>
    (\<forall>k. hm_get hash cmp k m' = Some (snd (spec_run cmp ops Map.empty) k))"
proof -
  obtain m :: "'a hashmap" where m: "hm_new bsz cap = Some m" "hm_room bsz (length ops) m" "\<And>k. hm_get hash cmp k m = Some None"
    using hm_new_room [OF assms] by blast
  from hm_run_ok [OF m(2) assms(1), of Map.empty] m(1,3) show ?thesis by auto
qed

subsection \<open>Clearing, freeing and scanning\<close>

lemma hm_clear_ok:
  assumes "hm_inv bsz m"
  shows "hm_inv bsz (snd (hm_clear u m))" "hm_get hash cmp k (snd (hm_clear u m)) = Some None"
proof -
  have sh: "hm_shape bsz m" using assms by (simp add: hm_inv_def)
  define n where "n = (if u then hm_nbuckets m else hm_cap m)"
  define m1 where "m1 = m\<lparr>hm_count := 0, hm_cap := (if u then hm_nbuckets m else hm_cap m), hm_nbuckets := n,
     hm_buckets := replicate n empty_bucket, hm_mask := n - 1\<rparr>"
  have e: "snd (hm_clear u m) = (hm_set_thresholds m1)\<lparr>hm_version := hm_version m + 1\<rparr>"
    by (cases m) (auto simp: hm_clear_def m1_def n_def Let_def)
  have n: "n \<le> hm_nbuckets m" "0 < n" using sh by (auto simp: n_def hm_shape_def)
  have "bsz \<le> SIZE_MAX div n"
    using sh div_le_mono2 [OF n(2,1), of SIZE_MAX] by (simp add: hm_shape_def)
  then have shape: "hm_shape bsz m1" using sh n by (auto simp: hm_shape_def m1_def n_def)
  have "rh_ok (replicate n empty_bucket)" by (auto simp: rh_ok_def empty_bucket_def nx_def)
  then show inv: "hm_inv bsz (snd (hm_clear u m))"
    unfolding e using thresholds_tuned [OF shape] shape n(2)
    by (simp add: hm_inv_def) (simp add: m1_def hm_shape_def keys_ok_def)
  have "elems (hm_buckets (snd (hm_clear u m))) = {#}" unfolding e by (simp add: m1_def)
  then show "hm_get hash cmp k (snd (hm_clear u m)) = Some None" by (rule hm_empty_get [OF inv])
qed

end

text \<open>\<open>free\<close> and \<open>clear\<close> hand every element to \<open>elfree\<close> once, \<open>scan\<close> visits the same ones.\<close>

lemma free_elements_all: "size (elems bs) \<le> n \<Longrightarrow> mset (free_elements bs n) = image_mset snd (elems bs)"
proof (induction bs arbitrary: n)
  case (Cons b bs)
  then show ?case by (cases n) (auto simp: elem_def)
qed simp

lemma scan_all:
  assumes "\<And>x s. fst (f x s)"
  shows "scan_loop f bs n s = (True, fold (\<lambda>x s. snd (f x s)) (free_elements bs n) s)"
proof (induction bs arbitrary: n s)
  case (Cons b bs)
  then show ?case using assms [of "b_item b" s] by (auto split: prod.split)
qed simp

text \<open>
  C14: A hash map behaves as a finite map. For any hash and comparison that agree on equal keys,
  every sequence of up to \<open>2 ^ 30\<close> insertions, lookups and deletions on a new table ends, runs out of
  no memory and returns what the map from keys to elements returns, however often the table
  grows and shrinks and whatever elements collide.
\<close>

theorem hashmap_is_map:
  assumes "hash_key hash cmp" "bsz < 2 ^ 32" "cap \<le> 2 ^ 31" "length ops \<le> 2 ^ 30"
  shows "\<exists>m m'. hm_new bsz cap = Some m \<and> hm_run hash cmp bsz ops m = Some (fst (spec_run cmp ops Map.empty), m') \<and>
    (\<forall>k. hm_get hash cmp k m' = Some (snd (spec_run cmp ops Map.empty) k))"
  by (rule hash_key.hm_new_run [OF assms])

section \<open>The instances\<close>

definition hash_u64 :: "u64 \<Rightarrow> u64" where
  "hash_u64 x =
     (let x = (x XOR drop_bit 30 x) * 0xbf58476d1ce4e5b9;
          x = (x XOR drop_bit 27 x) * 0x94d049bb133111eb
      in x XOR drop_bit 31 x)"

definition hash_str :: "bytes \<Rightarrow> u64" where
  "hash_str str = foldl (\<lambda>rtn c. rtn * 131 + ucast c) 0 str"

text \<open>\<open>strcmp\<close> on strings without their terminator: only the sign counts.\<close>

fun c_strcmp :: "bytes \<Rightarrow> bytes \<Rightarrow> int" where
  "c_strcmp [] [] = 0"
| "c_strcmp [] (y # ys) = -1"
| "c_strcmp (x # xs) [] = 1"
| "c_strcmp (x # xs) (y # ys) = (if x = y then c_strcmp xs ys else if x < y then -1 else 1)"

lemma c_strcmp_eq [simp]: "c_strcmp a b = 0 \<longleftrightarrow> a = b"
  by (induction a b rule: c_strcmp.induct) auto

text \<open>\<open>(x > y) - (x < y)\<close>, the three-way comparison of 64 bit keys.\<close>

definition cmp_u64 :: "u64 \<Rightarrow> u64 \<Rightarrow> int" where
  "cmp_u64 x y = of_bool (y < x) - of_bool (x < y)"

lemma cmp_u64_eq [simp]: "cmp_u64 x y = 0 \<longleftrightarrow> x = y"
  by (auto simp: cmp_u64_def)

text \<open>
  \<open>task_map\<close>: an element points to the handle inside a task; here the task's address and the
  handle. \<open>tname_map\<close>: a name with a handle. \<open>coro_map\<close>: a session with its coroutine.
\<close>

record name_ref = nr_task :: nat  nr_handle :: u64

record name_handle_entry = nh_name :: bytes  nh_handle :: u64

definition task_map_hash :: "name_ref \<Rightarrow> u64" where "task_map_hash e = hash_u64 (nr_handle e)"
definition task_map_cmp :: "name_ref \<Rightarrow> name_ref \<Rightarrow> int" where "task_map_cmp a b = cmp_u64 (nr_handle a) (nr_handle b)"
definition tname_map_hash :: "name_handle_entry \<Rightarrow> u64" where "tname_map_hash e = hash_str (nh_name e)"
definition tname_map_cmp :: "name_handle_entry \<Rightarrow> name_handle_entry \<Rightarrow> int" where
  "tname_map_cmp a b = c_strcmp (nh_name a) (nh_name b)"

interpretation task_map: hash_key task_map_hash task_map_cmp
  by unfold_locales (simp_all add: task_map_hash_def task_map_cmp_def)

interpretation tname_map: hash_key tname_map_hash tname_map_cmp
  by unfold_locales (simp_all add: tname_map_hash_def tname_map_cmp_def)

definition demo_ops :: "name_handle_entry hm_op list" where
  "demo_ops = [Op_Set \<lparr>nh_name = [97], nh_handle = 1\<rparr>, Op_Get_Set \<lparr>nh_name = [97], nh_handle = 2\<rparr>,
     Op_Delete \<lparr>nh_name = [97], nh_handle = 0\<rparr>, Op_Get \<lparr>nh_name = [97], nh_handle = 0\<rparr>]"

theorem hashmap_is_map_witness:
  "\<exists>m m'. hm_new 24 16 = Some m \<and> hm_run tname_map_hash tname_map_cmp 24 demo_ops m =
     Some ([None, Some \<lparr>nh_name = [97], nh_handle = 1\<rparr>, Some \<lparr>nh_name = [97], nh_handle = 1\<rparr>, None], m')"
proof -
  have e: "fst (spec_run tname_map_cmp demo_ops Map.empty) =
      [None, Some \<lparr>nh_name = [97], nh_handle = 1\<rparr>, Some \<lparr>nh_name = [97], nh_handle = 1\<rparr>, None]"
    by (simp add: demo_ops_def upd_def tname_map_cmp_def Let_def)
  have "(24 :: nat) < 2 ^ 32" "(16 :: nat) \<le> 2 ^ 31" "length demo_ops \<le> 2 ^ 30" by (simp_all add: demo_ops_def)
  from hashmap_is_map [OF tname_map.hash_key_axioms this] show ?thesis unfolding e by blast
qed

end
