(* ===== verification/Id_Gen.thy ===== *)
theory Id_Gen
  imports Prelude
begin

text \<open>
  Models \<open>lib/utils/idgen.c\<close>: identifiers of tasks, sockets and sessions, taken by each thread from
  blocks of 1024 numbers, and the proof that no two calls return the same one.
\<close>

section \<open>Identifiers\<close>

record id_seg =
  seg_next :: u64
  seg_end :: u64

record idgen =
  ig_serviceid :: u16
  ig_ids :: u64
  ig_seg :: "nat \<Rightarrow> id_seg"

definition ID_BLOCK :: u64 where "ID_BLOCK = 1024"
definition SERVICEID_MAX :: u16 where "SERVICEID_MAX = 0x7FFF"

definition idgen_init :: idgen where
  "idgen_init = \<lparr>ig_serviceid = 1, ig_ids = 1, ig_seg = (\<lambda>_. \<lparr>seg_next = 0, seg_end = 0\<rparr>)\<rparr>"

definition serviceid :: "u16 \<Rightarrow> idgen \<Rightarrow> bool \<times> idgen" where
  "serviceid i g = (if SERVICEID_MAX < i then (False, g) else (True, g\<lparr>ig_serviceid := i\<rparr>))"

text \<open>A call on thread \<open>th\<close>; only the addition to \<open>_ids\<close> touches what other threads see.\<close>

definition createid :: "nat \<Rightarrow> idgen \<Rightarrow> u64 \<times> idgen" where
  "createid th g =
     (let seg = ig_seg g th;
          (seg, ids) = (if seg_next seg = seg_end seg
             then (\<lparr>seg_next = ig_ids g, seg_end = ig_ids g + ID_BLOCK\<rparr>, ig_ids g + ID_BLOCK) else (seg, ig_ids g))
      in (push_bit 48 (ucast (ig_serviceid g)) OR (seg_next seg AND 0xFFFFFFFFFFFF),
          g\<lparr>ig_ids := ids, ig_seg := (ig_seg g)(th := seg\<lparr>seg_next := seg_next seg + 1\<rparr>)\<rparr>))"

definition parse_svid :: "u64 \<Rightarrow> u16" where
  "parse_svid i = ucast (drop_bit 48 i)"

fun createids :: "nat list \<Rightarrow> idgen \<Rightarrow> u64 list \<times> idgen" where
  "createids [] g = ([], g)"
| "createids (th # ths) g = (case createid th g of (i, g) \<Rightarrow> case createids ths g of (is, g) \<Rightarrow> (i # is, g))"

section \<open>Identifiers are unique\<close>

text \<open>The numbers given out or still in a segment, as a half-open range below \<open>_ids\<close>.\<close>

definition seg_ok :: "idgen \<Rightarrow> nat \<Rightarrow> bool" where
  "seg_ok g th \<longleftrightarrow> seg_next (ig_seg g th) \<le> seg_end (ig_seg g th) \<and> seg_end (ig_seg g th) \<le> ig_ids g"

definition left :: "idgen \<Rightarrow> nat \<Rightarrow> nat set" where
  "left g th = {unat (seg_next (ig_seg g th))..<unat (seg_end (ig_seg g th))}"

text \<open>The 48 bit numbers that are still to come after state \<open>g\<close>.\<close>

definition future :: "idgen \<Rightarrow> nat set" where
  "future g = (\<Union>th. left g th) \<union> {unat (ig_ids g)..}"

definition idgen_ok :: "idgen \<Rightarrow> bool" where
  "idgen_ok g \<longleftrightarrow> (\<forall>th. seg_ok g th) \<and> 0 < ig_ids g \<and> (\<forall>th. 0 \<notin> left g th) \<and>
     (\<forall>th th'. th \<noteq> th' \<longrightarrow> left g th \<inter> left g th' = {})"

lemma idgen_init_ok: "idgen_ok idgen_init"
  by (simp add: idgen_ok_def idgen_init_def seg_ok_def left_def)

lemma id_bits:
  fixes n :: u64 and v :: u16
  defines "i \<equiv> push_bit 48 (ucast v) OR (n AND 0xFFFFFFFFFFFF)"
  shows "i AND 0xFFFFFFFFFFFF = n AND 0xFFFFFFFFFFFF" "parse_svid i = v" "\<not> bit v 15 \<Longrightarrow> \<not> bit i 63"
proof -
  have m: "(0xFFFFFFFFFFFF :: u64) = mask 48" by (simp add: mask_eq_exp_minus_1)
  show "i AND 0xFFFFFFFFFFFF = n AND 0xFFFFFFFFFFFF"
    unfolding i_def m by (rule bit_word_eqI) (auto simp: bit_simps)
  show "parse_svid i = v"
    unfolding i_def m parse_svid_def by (rule bit_word_eqI) (auto simp: bit_simps)
  show "\<not> bit v 15 \<Longrightarrow> \<not> bit i 63"
    unfolding i_def m by (simp add: bit_simps)
qed

lemma low48: "n < 2 ^ 48 \<Longrightarrow> unat ((of_nat n :: u64) AND 0xFFFFFFFFFFFF) = n"
  using and_mask_mod [of "2 ^ 48 :: u64" 48 "of_nat n"] by (simp add: unat_of_nat)

text \<open>A call takes the first number of a segment: the thread's, or a fresh one behind all others.\<close>

lemma createid_seg:
  assumes "\<And>x. seg_ok g x" "unat (ig_ids g) + 1024 < 2 ^ 48" "createid th g = (i, g')"
  obtains n k where "n < k" "k \<le> unat (ig_ids g')" "left g' th = {Suc n..<k}" "\<And>x. x \<noteq> th \<Longrightarrow> left g' x = left g x"
    "unat (ig_ids g) \<le> unat (ig_ids g')" "unat (ig_ids g') \<le> unat (ig_ids g) + 1024"
    "{n..<k} = left g th \<or> {n..<k} = {unat (ig_ids g)..<unat (ig_ids g')}"
    "i = push_bit 48 (ucast (ig_serviceid g)) OR (of_nat n AND 0xFFFFFFFFFFFF)" "\<And>x. seg_ok g' x" "ig_serviceid g' = ig_serviceid g"
proof -
  let ?old = "ig_seg g th"
  have ib: "unat (ig_ids g + ID_BLOCK) = unat (ig_ids g) + 1024"
    using assms(2) by (simp add: ID_BLOCK_def unat_plus_small)
  show thesis
  proof (cases "seg_next ?old = seg_end ?old")
    case True
    have g': "g' = g\<lparr>ig_ids := ig_ids g + ID_BLOCK,
        ig_seg := (ig_seg g)(th := \<lparr>seg_next = ig_ids g + 1, seg_end = ig_ids g + ID_BLOCK\<rparr>)\<rparr>"
      and i: "i = push_bit 48 (ucast (ig_serviceid g)) OR (ig_ids g AND 0xFFFFFFFFFFFF)"
      using assms(3) True by (auto simp: createid_def)
    have suc: "unat (ig_ids g + 1) = Suc (unat (ig_ids g))" using assms(2) by (subst unat_plus_small) simp_all
    show thesis
    proof (rule that [of "unat (ig_ids g)" "unat (ig_ids g) + 1024"])
      fix x show "seg_ok g' x"
        using assms(1) [of x] ib suc by (auto simp: seg_ok_def g' word_le_nat_alt)
    qed (use ib suc i in \<open>auto simp: g' left_def\<close>)
  next
    case False
    have g': "g' = g\<lparr>ig_seg := (ig_seg g)(th := ?old\<lparr>seg_next := seg_next ?old + 1\<rparr>)\<rparr>"
      and i: "i = push_bit 48 (ucast (ig_serviceid g)) OR (seg_next ?old AND 0xFFFFFFFFFFFF)"
      using assms(3) False by (auto simp: createid_def Let_def)
    have lt: "seg_next ?old < seg_end ?old" "unat (seg_end ?old) \<le> unat (ig_ids g)"
      using assms(1) [of th] False by (simp_all add: seg_ok_def less_le flip: word_le_nat_alt)
    have suc: "unat (seg_next ?old + 1) = Suc (unat (seg_next ?old))" by (rule unat_Suc_less [OF lt(1)])
    show thesis
    proof (rule that [of "unat (seg_next ?old)" "unat (seg_end ?old)"])
      fix x show "seg_ok g' x"
        using assms(1) [of x] lt suc by (auto simp: seg_ok_def g' word_le_nat_alt word_less_nat_alt)
    qed (use lt suc i in \<open>auto simp: g' left_def word_less_nat_alt\<close>)
  qed
qed

lemma left_below: "seg_ok g x \<Longrightarrow> k \<in> left g x \<Longrightarrow> k < unat (ig_ids g)"
  by (auto simp: left_def seg_ok_def word_le_nat_alt)

lemma createid_step:
  assumes "idgen_ok g" "unat (ig_ids g) + 1024 < 2 ^ 48" "createid th g = (i, g')"
  obtains n where "n \<in> future g" "n \<notin> future g'" "future g' \<subseteq> future g" "0 < n"
    "unat (i AND 0xFFFFFFFFFFFF) = n" "parse_svid i = ig_serviceid g" "\<not> bit (ig_serviceid g) 15 \<Longrightarrow> \<not> bit i 63"
    "idgen_ok g'" "unat (ig_ids g') \<le> unat (ig_ids g) + 1024" "ig_serviceid g' = ig_serviceid g"
proof -
  let ?I = "unat (ig_ids g)" and ?J = "unat (ig_ids g')"
  have so: "seg_ok g x" for x using assms(1) by (simp add: idgen_ok_def)
  have pos: "0 < ?I" using assms(1) by (simp add: idgen_ok_def word_less_nat_alt)
  have dj: "left g x \<inter> left g y = {}" if "x \<noteq> y" for x y using assms(1) that by (simp add: idgen_ok_def)
  have nz: "0 \<notin> left g x" for x using assms(1) by (simp add: idgen_ok_def)
  obtain n k where nk: "n < k" "k \<le> ?J" "left g' th = {Suc n..<k}" "\<And>x. x \<noteq> th \<Longrightarrow> left g' x = left g x"
    "?I \<le> ?J" "?J \<le> ?I + 1024" "{n..<k} = left g th \<or> {n..<k} = {?I..<?J}"
    "i = push_bit 48 (ucast (ig_serviceid g)) OR (of_nat n AND 0xFFFFFFFFFFFF)" "\<And>x. seg_ok g' x" "ig_serviceid g' = ig_serviceid g"
    by (rule createid_seg [OF so assms(2,3)]) (rule that)
  have n: "n \<in> {n..<k}" using nk(1) by simp
  have other: "j \<notin> {n..<k}" if "j \<in> left g x" "x \<noteq> th" for j x
  proof
    assume j: "j \<in> {n..<k}"
    from nk(7) show False
    proof
      assume "{n..<k} = left g th"
      then show False using dj [OF that(2)] that(1) j by blast
    next
      assume "{n..<k} = {?I..<?J}"
      then have "?I \<le> j" using j by (metis atLeastLessThan_iff)
      then show False using left_below [OF so that(1)] by simp
    qed
  qed
  have n48: "n < 2 ^ 48" using nk(1,2,6) assms(2) by linarith
  have sub: "{n..<k} \<subseteq> future g" using nk(7) by (auto simp: future_def)
  show thesis
  proof (rule that [of n])
    show "n \<in> future g" using sub n by blast
    show "n \<notin> future g'"
    proof
      assume "n \<in> future g'"
      then consider x where "n \<in> left g' x" | "?J \<le> n" by (auto simp: future_def)
      then show False
      proof cases
        case (1 x)
        then show False using nk(3,4) other [of n x] n by (cases "x = th") auto
      next
        case 2
        then show False using nk(1,2) by simp
      qed
    qed
    show "future g' \<subseteq> future g"
    proof
      fix j assume "j \<in> future g'"
      then consider x where "j \<in> left g' x" | "?J \<le> j" by (auto simp: future_def)
      then show "j \<in> future g"
      proof cases
        case (1 x)
        show ?thesis
        proof (cases "x = th")
          case True
          with 1 nk(3) have "j \<in> {n..<k}" by auto
          with sub show ?thesis by blast
        next
          case False
          with 1 nk(4) show ?thesis by (auto simp: future_def)
        qed
      next
        case 2
        with nk(5) show ?thesis by (simp add: future_def)
      qed
    qed
    have "0 \<notin> {n..<k}" using nk(7) nz [of th] pos by (metis atLeastLessThan_iff not_le)
    then show "0 < n" using nk(1) by (cases n) auto
    show "unat (i AND 0xFFFFFFFFFFFF) = n" unfolding nk(8) id_bits(1) by (rule low48 [OF n48])
    show "parse_svid i = ig_serviceid g" unfolding nk(8) by (rule id_bits(2))
    show "\<not> bit (ig_serviceid g) 15 \<Longrightarrow> \<not> bit i 63" unfolding nk(8) by (rule id_bits(3))
    have "left g' x \<inter> left g' y = {}" if "x \<noteq> y" for x y
    proof -
      have "left g' th \<inter> left g z = {}" if "z \<noteq> th" for z using other [OF _ that] nk(3) by fastforce
      then show ?thesis using that dj nk(4) by (cases "x = th"; cases "y = th") (simp_all add: Int_commute)
    qed
    moreover have "0 \<notin> left g' x" for x using nz nk(3,4) by (cases "x = th") auto
    moreover have "0 < ig_ids g'" using pos nk(5) by (simp add: word_less_nat_alt)
    ultimately show "idgen_ok g'" using nk(9) by (simp add: idgen_ok_def)
  qed (use nk(6,10) in simp_all)
qed

lemma createids_ok:
  assumes "idgen_ok g" "unat (ig_ids g) + 1024 * length ths < 2 ^ 48" "createids ths g = (is, g')"
  shows "distinct (map (\<lambda>i. unat (i AND 0xFFFFFFFFFFFF)) is) \<and> (\<forall>i\<in>set is. unat (i AND 0xFFFFFFFFFFFF) \<in> future g \<and>
    i AND 0xFFFFFFFFFFFF \<noteq> 0 \<and> parse_svid i = ig_serviceid g \<and> (\<not> bit (ig_serviceid g) 15 \<longrightarrow> \<not> bit i 63))"
  using assms
proof (induction ths arbitrary: g "is")
  case Nil
  then show ?case by simp
next
  case (Cons th ths)
  obtain i g1 where c: "createid th g = (i, g1)" by fastforce
  obtain js where js: "createids ths g1 = (js, g')" "is = i # js" using Cons.prems(3) c by (auto split: prod.splits)
  have le: "unat (ig_ids g) + 1024 < 2 ^ 48" using Cons.prems(2) by simp
  obtain n where n: "n \<in> future g" "n \<notin> future g1" "future g1 \<subseteq> future g" "0 < n" "unat (i AND 0xFFFFFFFFFFFF) = n"
    "parse_svid i = ig_serviceid g" "\<not> bit (ig_serviceid g) 15 \<Longrightarrow> \<not> bit i 63" "idgen_ok g1"
    "unat (ig_ids g1) \<le> unat (ig_ids g) + 1024" "ig_serviceid g1 = ig_serviceid g"
    by (rule createid_step [OF Cons.prems(1) le c]) (rule that)
  have "unat (ig_ids g1) + 1024 * length ths < 2 ^ 48" using n(9) Cons.prems(2) by simp
  from Cons.IH [OF n(8) this js(1)] have IH: "distinct (map (\<lambda>i. unat (i AND 0xFFFFFFFFFFFF)) js)"
    "\<And>j. j \<in> set js \<Longrightarrow> unat (j AND 0xFFFFFFFFFFFF) \<in> future g1 \<and> j AND 0xFFFFFFFFFFFF \<noteq> 0 \<and> parse_svid j = ig_serviceid g \<and>
       (\<not> bit (ig_serviceid g) 15 \<longrightarrow> \<not> bit j 63)"
    using n(10) by auto
  have "unat (i AND 0xFFFFFFFFFFFF) \<notin> (\<lambda>i. unat (i AND 0xFFFFFFFFFFFF)) ` set js" using n(2,5) IH(2) by auto
  moreover have "i AND 0xFFFFFFFFFFFF \<noteq> 0" using n(4,5) by auto
  ultimately show ?case using IH n js(2) by auto
qed

text \<open>
  C37: Identifiers are unique: in any interleaving of up to \<open>2 ^ 37\<close> calls of \<open>createid\<close> on any threads
  no two return the same identifier, none returns the reserved 0, each carries the server id
  set before, and all are positive as signed 64 bit numbers.
\<close>

theorem createid_unique:
  assumes "v \<le> SERVICEID_MAX" "length ths \<le> 2 ^ 37" "createids ths (snd (serviceid v idgen_init)) = (is, g)"
  shows "distinct is \<and> (\<forall>i\<in>set is. i \<noteq> 0 \<and> parse_svid i = v \<and> 0 <s i)"
proof -
  let ?g = "snd (serviceid v idgen_init)"
  have "idgen_ok ?g" using idgen_init_ok by (simp add: serviceid_def idgen_ok_def seg_ok_def left_def)
  moreover have "unat (ig_ids ?g) = 1" by (simp add: serviceid_def idgen_init_def)
  ultimately have r: "distinct (map (\<lambda>i. unat (i AND 0xFFFFFFFFFFFF)) is)"
    "\<forall>i\<in>set is. i AND 0xFFFFFFFFFFFF \<noteq> 0 \<and> parse_svid i = ig_serviceid ?g \<and> (\<not> bit (ig_serviceid ?g) 15 \<longrightarrow> \<not> bit i 63)"
    using createids_ok [of ?g ths "is" g] assms(2,3) by auto
  have v: "ig_serviceid ?g = v" using assms(1) by (auto simp: serviceid_def)
  have "unat v < 2 ^ 15" using assms(1) by (simp add: SERVICEID_MAX_def word_le_nat_alt)
  then have "take_bit 15 v = v" by (simp add: word_unat_eq_iff unsigned_take_bit_eq take_bit_nat_eq_self)
  then have nb: "\<not> bit v 15" by (metis bit_take_bit_iff less_irrefl)
  have "0 <s i" if "\<not> bit i 63" "i \<noteq> 0" for i :: u64
  proof -
    have "\<not> sint i < 0" using that(1) bit_last_iff [of i] by simp
    moreover have "sint i \<noteq> 0" using that(2) by (simp add: signed_eq_0_iff)
    ultimately show ?thesis by (simp add: word_sless_alt)
  qed
  note positive = this
  have "i \<noteq> 0 \<and> parse_svid i = v \<and> 0 <s i" if "i \<in> set is" for i
  proof -
    have i: "i AND 0xFFFFFFFFFFFF \<noteq> 0" "parse_svid i = v" "\<not> bit i 63" using r(2) that v nb by simp_all
    then have "i \<noteq> 0" by auto
    with positive [OF i(3)] i(2) show ?thesis by simp
  qed
  moreover have "distinct is" using r(1) by (simp add: distinct_map)
  ultimately show ?thesis by blast
qed

theorem createid_unique_witness: "fst (createids [0, 1, 0] (snd (serviceid 5 idgen_init))) = [0x5000000000001, 0x5000000000401, 0x5000000000002] \<and>
  distinct (fst (createids [0, 1, 0] (snd (serviceid 5 idgen_init))))"
proof
  show "fst (createids [0, 1, 0] (snd (serviceid 5 idgen_init))) = [0x5000000000001, 0x5000000000401, 0x5000000000002]"
    by code_simp
  have "(5 :: u16) \<le> SERVICEID_MAX" "length [0 :: nat, 1, 0] \<le> 2 ^ 37" by (simp_all add: SERVICEID_MAX_def)
  from createid_unique [OF this] show "distinct (fst (createids [0, 1, 0] (snd (serviceid 5 idgen_init))))"
    by (metis prod.collapse)
qed

end
