(* ===== verification/Task_Registry.thy ===== *)
theory Task_Registry
  imports Hash_Map_Run Id_Gen
begin

text \<open>
  Models the two tables of the loader, from handle to task and from name to handle
  (\<open>lib/srey/task.c\<close>), as hash maps of \<open>Hash_Map\<close>. Registration, removal and the lookups run under
  the lock of the tables, one after the other; who holds references in between is the subject of
  \<open>Task_Life\<close>.
\<close>

section \<open>The tables\<close>

text \<open>The fields of a task that the tables use: its address, handle and name.\<close>

record reg_task =
  rt_addr :: nat
  rt_handle :: u64
  rt_name :: "bytes option"

record registry =
  rg_tasks :: "name_ref hashmap"
  rg_names :: "name_handle_entry hashmap"

definition INVALID_TNAME :: u64 where "INVALID_TNAME = 0"

text \<open>\<open>sizeof\<close> of a bucket: hash, dib and a pointer; hash, dib, a pointer and a handle.\<close>

definition TASK_BUCKET :: nat where "TASK_BUCKET = 16"
definition TNAME_BUCKET :: nat where "TNAME_BUCKET = 24"

definition registry_init :: "registry option" where
  "registry_init = Option.bind (hm_new TASK_BUCKET 1024) (\<lambda>tasks.
     map_option (\<lambda>names. \<lparr>rg_tasks = tasks, rg_names = names\<rparr>) (hm_new TNAME_BUCKET 1024))"

definition task_ref :: "reg_task \<Rightarrow> name_ref" where
  "task_ref t = \<lparr>nr_task = rt_addr t, nr_handle = rt_handle t\<rparr>"

definition task_map_put :: "reg_task \<Rightarrow> name_ref hashmap \<Rightarrow> name_ref hashmap option" where
  "task_map_put t m = Option.bind (hm_set task_map_hash task_map_cmp TASK_BUCKET (task_ref t) m)
     (\<lambda>(old, m). assertab (old = None) (Some m))"

text \<open>The keys of lookups point to a local variable: address 0.\<close>

definition task_map_find :: "name_ref hashmap \<Rightarrow> u64 \<Rightarrow> name_ref option option" where
  "task_map_find m handle = hm_get task_map_hash task_map_cmp \<lparr>nr_task = 0, nr_handle = handle\<rparr> m"

definition task_name_map_add :: "bytes \<Rightarrow> u64 \<Rightarrow> name_handle_entry hashmap \<Rightarrow> (bool \<times> name_handle_entry hashmap) option" where
  "task_name_map_add name handle m =
     map_option (\<lambda>(found, _, m). (\<not> found, m))
       (hm_get_set tname_map_hash tname_map_cmp TNAME_BUCKET \<lparr>nh_name = name, nh_handle = handle\<rparr> m)"

definition task_name_map_get :: "name_handle_entry hashmap \<Rightarrow> bytes \<Rightarrow> u64 option" where
  "task_name_map_get m name =
     map_option (\<lambda>r. case r of None \<Rightarrow> INVALID_TNAME | Some e \<Rightarrow> nh_handle e)
       (hm_get tname_map_hash tname_map_cmp \<lparr>nh_name = name, nh_handle = INVALID_TNAME\<rparr> m)"

definition task_name_map_del :: "bytes \<Rightarrow> name_handle_entry hashmap \<Rightarrow> name_handle_entry hashmap option" where
  "task_name_map_del name m =
     map_option snd (hm_delete tname_map_hash tname_map_cmp TNAME_BUCKET \<lparr>nh_name = name, nh_handle = INVALID_TNAME\<rparr> m)"

text \<open>What \<open>task_register\<close> does to the tables: the flag is \<open>ERR_OK\<close>.\<close>

definition task_register :: "reg_task \<Rightarrow> registry \<Rightarrow> (bool \<times> registry) option" where
  "task_register t r =
     Option.bind (case rt_name t of None \<Rightarrow> Some (True, r)
        | Some name \<Rightarrow> map_option (\<lambda>(ok, m). (ok, r\<lparr>rg_names := m\<rparr>)) (task_name_map_add name (rt_handle t) (rg_names r)))
       (\<lambda>(ok, r). if \<not> ok then Some (False, r)
          else map_option (\<lambda>m. (True, r\<lparr>rg_tasks := m\<rparr>)) (task_map_put t (rg_tasks r)))"

text \<open>The section of \<open>task_ungrab\<close> under the write lock, with the count at 0: whether the task was taken out.\<close>

definition task_remove :: "reg_task \<Rightarrow> registry \<Rightarrow> (bool \<times> registry) option" where
  "task_remove t r =
     Option.bind (task_map_find (rg_tasks r) (rt_handle t)) (\<lambda>found.
       case found of None \<Rightarrow> Some (False, r)
       | Some e \<Rightarrow>
           if nr_task e \<noteq> rt_addr t then Some (False, r)
           else Option.bind (hm_delete task_map_hash task_map_cmp TASK_BUCKET \<lparr>nr_task = 0, nr_handle = rt_handle t\<rparr> (rg_tasks r))
             (\<lambda>(ptr, m).
               map_option (\<lambda>names. (ptr \<noteq> None, \<lparr>rg_tasks = m, rg_names = names\<rparr>))
                 (case rt_name t of None \<Rightarrow> Some (rg_names r) | Some name \<Rightarrow> task_name_map_del name (rg_names r))))"

definition task_find_name :: "bytes \<Rightarrow> registry \<Rightarrow> u64 option" where
  "task_find_name name r = (if name = [] then Some INVALID_TNAME else task_name_map_get (rg_names r) name)"

definition task_exists :: "u64 \<Rightarrow> registry \<Rightarrow> bool option" where
  "task_exists handle r =
     (if handle = INVALID_TNAME then Some False else map_option (\<lambda>e. e \<noteq> None) (task_map_find (rg_tasks r) handle))"

text \<open>\<open>task_grab\<close>: the task's address, or NULL.\<close>

definition task_grab :: "u64 \<Rightarrow> registry \<Rightarrow> nat option option" where
  "task_grab handle r =
     (if handle = INVALID_TNAME then Some None else map_option (map_option nr_task) (task_map_find (rg_tasks r) handle))"

section \<open>The tables refine the set of registered tasks\<close>

text \<open>The registered tasks, the latest first, and what the two tables hold for them.\<close>

definition by_handle :: "reg_task list \<Rightarrow> name_ref \<Rightarrow> name_ref option" where
  "by_handle ts k = map_option task_ref (find (\<lambda>t. rt_handle t = nr_handle k) ts)"

definition by_name :: "reg_task list \<Rightarrow> name_handle_entry \<Rightarrow> name_handle_entry option" where
  "by_name ts k = map_option (\<lambda>t. \<lparr>nh_name = nh_name k, nh_handle = rt_handle t\<rparr>) (find (\<lambda>t. rt_name t = Some (nh_name k)) ts)"

definition tasks_ok :: "reg_task list \<Rightarrow> bool" where
  "tasks_ok ts \<longleftrightarrow> distinct (map rt_handle ts) \<and> (\<forall>t\<in>set ts. rt_handle t \<noteq> INVALID_TNAME) \<and>
     (\<forall>t\<in>set ts. \<forall>u\<in>set ts. rt_name t \<noteq> None \<longrightarrow> rt_name t = rt_name u \<longrightarrow> t = u)"

definition reg_ok :: "nat \<Rightarrow> registry \<Rightarrow> reg_task list \<Rightarrow> bool" where
  "reg_ok n r ts \<longleftrightarrow> tasks_ok ts \<and>
     task_map.hm_room TASK_BUCKET n (rg_tasks r) \<and> tname_map.hm_room TNAME_BUCKET n (rg_names r) \<and>
     (\<forall>k. hm_get task_map_hash task_map_cmp k (rg_tasks r) = Some (by_handle ts k)) \<and>
     (\<forall>k. hm_get tname_map_hash tname_map_cmp k (rg_names r) = Some (by_name ts k))"

definition spec_register :: "reg_task \<Rightarrow> reg_task list \<Rightarrow> bool \<times> reg_task list" where
  "spec_register t ts = (if rt_name t \<noteq> None \<and> rt_name t \<in> rt_name ` set ts then (False, ts) else (True, t # ts))"

definition spec_remove :: "reg_task \<Rightarrow> reg_task list \<Rightarrow> bool \<times> reg_task list" where
  "spec_remove t ts = (t \<in> set ts, removeAll t ts)"

definition spec_find :: "bytes \<Rightarrow> reg_task list \<Rightarrow> u64" where
  "spec_find name ts = (if name = [] then INVALID_TNAME else
     case find (\<lambda>t. rt_name t = Some name) ts of None \<Rightarrow> INVALID_TNAME | Some t \<Rightarrow> rt_handle t)"

lemma find_none: "find P ts = None \<longleftrightarrow> (\<forall>t\<in>set ts. \<not> P t)"
  unfolding find_None_iff by blast

lemma find_some: "find P ts = Some t \<Longrightarrow> t \<in> set ts \<and> P t"
  unfolding find_Some_iff by auto

lemma find_unique:
  assumes "t \<in> set ts" "P t" "\<And>u. u \<in> set ts \<Longrightarrow> P u \<Longrightarrow> u = t"
  shows "find P ts = Some t"
proof (cases "find P ts")
  case None
  with assms(1,2) show ?thesis unfolding find_none by blast
next
  case (Some u)
  with assms(3) find_some [OF Some] show ?thesis by blast
qed

lemma handle_unique: "tasks_ok ts \<Longrightarrow> t \<in> set ts \<Longrightarrow> u \<in> set ts \<Longrightarrow> rt_handle u = rt_handle t \<Longrightarrow> u = t"
  by (auto simp: tasks_ok_def distinct_map dest: inj_onD)

lemma room_weaken: "task_map.hm_room b (Suc n) m \<Longrightarrow> task_map.hm_room b n m"
  "tname_map.hm_room b (Suc n) m' \<Longrightarrow> tname_map.hm_room b n m'"
  by (simp_all add: task_map.hm_room_def tname_map.hm_room_def)

lemma tm_zero [simp]: "task_map_cmp a b = 0 \<longleftrightarrow> nr_handle a = nr_handle b" "tname_map_cmp x y = 0 \<longleftrightarrow> nh_name x = nh_name y"
  by (simp_all add: task_map_cmp_def tname_map_cmp_def)

lemma by_handle_Cons: "by_handle (t # ts) = upd task_map_cmp (task_ref t) (Some (task_ref t)) (by_handle ts)"
proof
  fix k show "by_handle (t # ts) k = upd task_map_cmp (task_ref t) (Some (task_ref t)) (by_handle ts) k"
    by (cases "rt_handle t = nr_handle k") (auto simp: by_handle_def upd_def task_ref_def)
qed

lemma by_name_Cons:
  "by_name (t # ts) = (case rt_name t of None \<Rightarrow> by_name ts
     | Some name \<Rightarrow> upd tname_map_cmp \<lparr>nh_name = name, nh_handle = rt_handle t\<rparr> (Some \<lparr>nh_name = name, nh_handle = rt_handle t\<rparr>) (by_name ts))"
proof (cases "rt_name t")
  case (Some name)
  have "by_name (t # ts) k = upd tname_map_cmp \<lparr>nh_name = name, nh_handle = rt_handle t\<rparr> (Some \<lparr>nh_name = name, nh_handle = rt_handle t\<rparr>) (by_name ts) k" for k
    using Some by (cases "name = nh_name k") (auto simp: by_name_def upd_def)
  with Some show ?thesis by (simp add: fun_eq_iff)
qed (simp add: by_name_def fun_eq_iff)

lemma find_removeAll: "\<not> P t \<Longrightarrow> find P (removeAll t ts) = find P ts"
  by (induction ts) auto

lemma find_removed: "(\<And>u. u \<in> set ts \<Longrightarrow> P u \<Longrightarrow> u = t) \<Longrightarrow> find P (removeAll t ts) = None"
  unfolding find_none by auto

lemma by_handle_remove:
  assumes "tasks_ok ts" "t \<in> set ts"
  shows "by_handle (removeAll t ts) = upd task_map_cmp \<lparr>nr_task = 0, nr_handle = rt_handle t\<rparr> None (by_handle ts)"
proof
  fix k show "by_handle (removeAll t ts) k = upd task_map_cmp \<lparr>nr_task = 0, nr_handle = rt_handle t\<rparr> None (by_handle ts) k"
  proof (cases "nr_handle k = rt_handle t")
    case True
    have "find (\<lambda>u. rt_handle u = nr_handle k) (removeAll t ts) = None"
      by (rule find_removed) (use handle_unique [OF assms(1,2)] True in simp)
    with True show ?thesis by (simp add: by_handle_def upd_def)
  next
    case False
    then have "find (\<lambda>u. rt_handle u = nr_handle k) (removeAll t ts) = find (\<lambda>u. rt_handle u = nr_handle k) ts"
      by (intro find_removeAll) auto
    with False show ?thesis by (simp add: by_handle_def upd_def)
  qed
qed

lemma by_name_remove:
  assumes "tasks_ok ts" "t \<in> set ts"
  shows "by_name (removeAll t ts) = (case rt_name t of None \<Rightarrow> by_name ts
     | Some name \<Rightarrow> upd tname_map_cmp \<lparr>nh_name = name, nh_handle = INVALID_TNAME\<rparr> None (by_name ts))"
proof (cases "rt_name t")
  case None
  have "find (\<lambda>u. rt_name u = Some (nh_name k)) (removeAll t ts) = find (\<lambda>u. rt_name u = Some (nh_name k)) ts" for k :: name_handle_entry
    by (rule find_removeAll) (simp add: None)
  with None show ?thesis by (simp add: by_name_def fun_eq_iff)
next
  case (Some name)
  have "by_name (removeAll t ts) k = upd tname_map_cmp \<lparr>nh_name = name, nh_handle = INVALID_TNAME\<rparr> None (by_name ts) k" for k
  proof (cases "nh_name k = name")
    case True
    have "find (\<lambda>u. rt_name u = Some (nh_name k)) (removeAll t ts) = None"
      by (rule find_removed) (use assms Some True in \<open>auto simp: tasks_ok_def\<close>)
    with True show ?thesis by (simp add: by_name_def upd_def)
  next
    case False
    then have "find (\<lambda>u. rt_name u = Some (nh_name k)) (removeAll t ts) = find (\<lambda>u. rt_name u = Some (nh_name k)) ts"
      by (intro find_removeAll) (simp add: Some)
    with False show ?thesis by (simp add: by_name_def upd_def)
  qed
  with Some show ?thesis by (simp add: fun_eq_iff)
qed

lemma tasks_ok_Cons:
  assumes "tasks_ok ts" "rt_handle t \<noteq> INVALID_TNAME" "rt_handle t \<notin> rt_handle ` set ts"
    "rt_name t = None \<or> rt_name t \<notin> rt_name ` set ts"
  shows "tasks_ok (t # ts)"
proof -
  have "u = v" if "u \<in> set (t # ts)" "v \<in> set (t # ts)" "rt_name u \<noteq> None" "rt_name u = rt_name v" for u v
  proof (cases "u = t \<or> v = t")
    case True
    with that assms(4) show ?thesis by (metis image_eqI set_ConsD)
  next
    case False
    with that assms(1) show ?thesis unfolding tasks_ok_def by (metis set_ConsD)
  qed
  moreover have "distinct (map rt_handle (t # ts))" "\<forall>u\<in>set (t # ts). rt_handle u \<noteq> INVALID_TNAME"
    using assms(1-3) by (simp_all add: tasks_ok_def)
  ultimately show ?thesis unfolding tasks_ok_def by blast
qed

lemma tasks_ok_remove: "tasks_ok ts \<Longrightarrow> tasks_ok (removeAll t ts)"
  by (auto simp: tasks_ok_def distinct_map distinct_removeAll intro: inj_on_subset)

text \<open>One operation of each kind.\<close>

lemma buckets: "TASK_BUCKET < 2 ^ 32" "TNAME_BUCKET < 2 ^ 32"
  by (simp_all add: TASK_BUCKET_def TNAME_BUCKET_def)

lemma task_register_ok:
  assumes "reg_ok (Suc n) r ts" "rt_handle t \<noteq> INVALID_TNAME" "rt_handle t \<notin> rt_handle ` set ts"
  shows "\<exists>r'. task_register t r = Some (fst (spec_register t ts), r') \<and> reg_ok n r' (snd (spec_register t ts))"
proof -
  note R = assms(1) [unfolded reg_ok_def]
  have gt: "\<And>k. hm_get task_map_hash task_map_cmp k (rg_tasks r) = Some (by_handle ts k)"
    and gn: "\<And>k. hm_get tname_map_hash tname_map_cmp k (rg_names r) = Some (by_name ts k)" using R by simp_all
  have rt: "task_map.hm_room TASK_BUCKET (Suc n) (rg_tasks r)" and rn: "tname_map.hm_room TNAME_BUCKET (Suc n) (rg_names r)"
    using R by simp_all
  have fresh: "by_handle ts (task_ref t) = None"
  proof -
    have "find (\<lambda>u. rt_handle u = rt_handle t) ts = None" unfolding find_none using assms(3) by (metis imageI)
    then show ?thesis by (simp add: by_handle_def task_ref_def)
  qed
  obtain m where m: "hm_set task_map_hash task_map_cmp TASK_BUCKET (task_ref t) (rg_tasks r) = Some (None, m)"
    "task_map.hm_room TASK_BUCKET n m" "\<And>k. hm_get task_map_hash task_map_cmp k m = Some (by_handle (t # ts) k)"
    using task_map.hm_step_ok [OF rt buckets(1) gt, of "Op_Set (task_ref t)"] fresh by (auto simp: by_handle_Cons)
  have put: "task_map_put t (rg_tasks r) = Some m" using m(1) by (simp add: task_map_put_def)
  show ?thesis
  proof (cases "rt_name t")
    case None
    then have s: "spec_register t ts = (True, t # ts)" by (simp add: spec_register_def)
    have "tasks_ok (t # ts)" by (rule tasks_ok_Cons) (use R assms(2,3) None in simp_all)
    then have "reg_ok n (r\<lparr>rg_tasks := m\<rparr>) (t # ts)"
      using m(2,3) rn gn None by (simp add: reg_ok_def room_weaken by_name_Cons)
    with s put None show ?thesis by (simp add: task_register_def)
  next
    case (Some name)
    let ?e = "\<lparr>nh_name = name, nh_handle = rt_handle t\<rparr>"
    let ?old = "by_name ts ?e"
    obtain m' where m': "hm_get_set tname_map_hash tname_map_cmp TNAME_BUCKET ?e (rg_names r) =
        Some (?old \<noteq> None, Some (case ?old of None \<Rightarrow> ?e | Some y \<Rightarrow> y), m')" "tname_map.hm_room TNAME_BUCKET n m'"
      "\<And>k. hm_get tname_map_hash tname_map_cmp k m' = Some (upd tname_map_cmp ?e (Some (case ?old of None \<Rightarrow> ?e | Some y \<Rightarrow> y)) (by_name ts) k)"
      using tname_map.hm_get_set_room [OF rn buckets(2) gn, of ?e] by auto
    have add: "task_name_map_add name (rt_handle t) (rg_names r) = Some (?old = None, m')"
      using m'(1) by (simp add: task_name_map_add_def)
    have taken: "?old = None \<longleftrightarrow> Some name \<notin> rt_name ` set ts"
    proof -
      have "?old = None \<longleftrightarrow> find (\<lambda>u. rt_name u = Some name) ts = None" by (simp add: by_name_def)
      also have "\<dots> \<longleftrightarrow> Some name \<notin> rt_name ` set ts" unfolding find_none image_iff by metis
      finally show ?thesis .
    qed
    show ?thesis
    proof (cases "?old")
      case None
      then have s: "spec_register t ts = (True, t # ts)" using taken Some by (simp add: spec_register_def)
      have "tasks_ok (t # ts)" by (rule tasks_ok_Cons) (use R assms(2,3) Some taken None in simp_all)
      moreover have "by_name (t # ts) = upd tname_map_cmp ?e (Some ?e) (by_name ts)" by (simp add: by_name_Cons Some)
      ultimately have "reg_ok n (r\<lparr>rg_names := m', rg_tasks := m\<rparr>) (t # ts)"
        using m(2,3) m'(2,3) None by (simp add: reg_ok_def)
      with s put add None Some show ?thesis by (simp add: task_register_def)
    next
      case (Some e)
      then have s: "spec_register t ts = (False, ts)" using taken \<open>rt_name t = Some name\<close> by (auto simp: spec_register_def)
      have "nh_name e = name" using Some by (auto simp: by_name_def)
      then have "upd tname_map_cmp ?e (Some e) (by_name ts) k = by_name ts k" for k
        using Some by (cases "nh_name k = name") (auto simp: upd_def by_name_def)
      then have "reg_ok n (r\<lparr>rg_names := m'\<rparr>) ts"
        using R m'(2,3) Some by (simp add: reg_ok_def room_weaken)
      with s add Some \<open>rt_name t = Some name\<close> show ?thesis by (simp add: task_register_def)
    qed
  qed
qed

lemma task_remove_ok:
  assumes "reg_ok (Suc n) r ts" "\<And>u. u \<in> set ts \<Longrightarrow> rt_addr u = rt_addr t \<Longrightarrow> rt_handle u = rt_handle t \<Longrightarrow> u = t"
  shows "\<exists>r'. task_remove t r = Some (fst (spec_remove t ts), r') \<and> reg_ok n r' (snd (spec_remove t ts))"
proof -
  note R = assms(1) [unfolded reg_ok_def]
  have ok: "tasks_ok ts" and gt: "\<And>k. hm_get task_map_hash task_map_cmp k (rg_tasks r) = Some (by_handle ts k)"
    and gn: "\<And>k. hm_get tname_map_hash tname_map_cmp k (rg_names r) = Some (by_name ts k)" using R by simp_all
  have rt: "task_map.hm_room TASK_BUCKET (Suc n) (rg_tasks r)" and rn: "tname_map.hm_room TNAME_BUCKET (Suc n) (rg_names r)"
    using R by simp_all
  let ?k = "\<lparr>nr_task = 0, nr_handle = rt_handle t\<rparr>"
  have fnd: "task_map_find (rg_tasks r) (rt_handle t) = Some (by_handle ts ?k)" using gt by (simp add: task_map_find_def)
  show ?thesis
  proof (cases "t \<in> set ts")
    case True
    have "find (\<lambda>u. rt_handle u = rt_handle t) ts = Some t"
      by (rule find_unique [OF True]) (use handle_unique [OF ok True] in auto)
    then have f: "by_handle ts ?k = Some (task_ref t)" by (simp add: by_handle_def)
    obtain m where m: "hm_delete task_map_hash task_map_cmp TASK_BUCKET ?k (rg_tasks r) = Some (Some (task_ref t), m)"
      "task_map.hm_room TASK_BUCKET n m" "\<And>k. hm_get task_map_hash task_map_cmp k m = Some (by_handle (removeAll t ts) k)"
      using task_map.hm_step_ok [OF rt buckets(1) gt, of "Op_Delete ?k"] f by (auto simp: by_handle_remove [OF ok True])
    obtain m' where m': "(case rt_name t of None \<Rightarrow> Some (rg_names r) | Some name \<Rightarrow> task_name_map_del name (rg_names r)) = Some m'"
      "tname_map.hm_room TNAME_BUCKET n m'" "\<And>k. hm_get tname_map_hash tname_map_cmp k m' = Some (by_name (removeAll t ts) k)"
    proof (cases "rt_name t")
      case None
      with that [of "rg_names r"] gn rn show ?thesis by (simp add: room_weaken by_name_remove [OF ok True])
    next
      case (Some name)
      with that tname_map.hm_step_ok [OF rn buckets(2) gn, of "Op_Delete \<lparr>nh_name = name, nh_handle = INVALID_TNAME\<rparr>"]
      show ?thesis by (auto simp: by_name_remove [OF ok True] task_name_map_del_def)
    qed
    have "reg_ok n \<lparr>rg_tasks = m, rg_names = m'\<rparr> (removeAll t ts)"
      using m m' tasks_ok_remove [OF ok] by (simp add: reg_ok_def)
    moreover have "task_remove t r = Some (True, \<lparr>rg_tasks = m, rg_names = m'\<rparr>)"
      using fnd f m(1) m'(1) by (simp add: task_remove_def task_ref_def)
    ultimately show ?thesis using True by (simp add: spec_remove_def)
  next
    case False
    then have s: "spec_remove t ts = (False, ts)" by (simp add: spec_remove_def)
    have "task_remove t r = Some (False, r)"
    proof (cases "by_handle ts ?k")
      case None
      with fnd show ?thesis by (simp add: task_remove_def)
    next
      case (Some e)
      then obtain u where "find (\<lambda>u. rt_handle u = rt_handle t) ts = Some u" "e = task_ref u" by (auto simp: by_handle_def)
      with find_some [OF this(1)] False assms(2) [of u] have "nr_task e \<noteq> rt_addr t" by (auto simp: task_ref_def)
      with fnd Some show ?thesis by (simp add: task_remove_def)
    qed
    moreover have "reg_ok n r ts" using R by (simp add: reg_ok_def room_weaken)
    ultimately show ?thesis using s by simp
  qed
qed

lemma task_lookup_ok:
  assumes "reg_ok n r ts"
  shows "task_find_name name r = Some (spec_find name ts)"
    and "task_exists handle r = Some (handle \<in> rt_handle ` set ts)"
    and "task_grab handle r = Some (map_option rt_addr (find (\<lambda>t. rt_handle t = handle) ts))"
proof -
  note R = assms [unfolded reg_ok_def]
  have gt: "\<And>k. hm_get task_map_hash task_map_cmp k (rg_tasks r) = Some (by_handle ts k)"
    and gn: "\<And>k. hm_get tname_map_hash tname_map_cmp k (rg_names r) = Some (by_name ts k)"
    and nz: "\<forall>t\<in>set ts. rt_handle t \<noteq> INVALID_TNAME" using R by (simp_all add: tasks_ok_def)
  show "task_find_name name r = Some (spec_find name ts)"
    by (simp add: task_find_name_def spec_find_def task_name_map_get_def gn by_name_def split: option.split)
  have f: "task_map_find (rg_tasks r) handle = Some (map_option task_ref (find (\<lambda>t. rt_handle t = handle) ts))"
    by (simp add: task_map_find_def gt by_handle_def)
  have e: "find (\<lambda>t. rt_handle t = handle) ts \<noteq> None \<longleftrightarrow> handle \<in> rt_handle ` set ts"
    unfolding find_none by force
  show "task_exists handle r = Some (handle \<in> rt_handle ` set ts)"
    using nz e f by (auto simp: task_exists_def)
  have "handle = INVALID_TNAME \<Longrightarrow> find (\<lambda>t. rt_handle t = handle) ts = None" using nz unfolding find_none by blast
  then show "task_grab handle r = Some (map_option rt_addr (find (\<lambda>t. rt_handle t = handle) ts))"
    by (simp add: task_grab_def f option.map_comp comp_def task_ref_def)
qed


section \<open>Sequences of operations\<close>

datatype reg_op = Register reg_task | Remove reg_task | Find_Name bytes | Exists u64 | Grab u64

datatype reg_res = Res_Flag bool | Res_Handle u64 | Res_Task "nat option"

fun registry_step :: "reg_op \<Rightarrow> registry \<Rightarrow> (reg_res \<times> registry) option" where
  "registry_step (Register t) r = map_option (\<lambda>(b, r). (Res_Flag b, r)) (task_register t r)"
| "registry_step (Remove t) r = map_option (\<lambda>(b, r). (Res_Flag b, r)) (task_remove t r)"
| "registry_step (Find_Name name) r = map_option (\<lambda>h. (Res_Handle h, r)) (task_find_name name r)"
| "registry_step (Exists h) r = map_option (\<lambda>b. (Res_Flag b, r)) (task_exists h r)"
| "registry_step (Grab h) r = map_option (\<lambda>t. (Res_Task t, r)) (task_grab h r)"

fun registry_run :: "reg_op list \<Rightarrow> registry \<Rightarrow> reg_res list option" where
  "registry_run [] r = Some []"
| "registry_run (opn # ops) r = Option.bind (registry_step opn r) (\<lambda>(x, r). map_option ((#) x) (registry_run ops r))"

text \<open>The same operations on the list of the tasks that are registered.\<close>

fun set_step :: "reg_op \<Rightarrow> reg_task list \<Rightarrow> reg_res \<times> reg_task list" where
  "set_step (Register t) ts = (case spec_register t ts of (b, ts) \<Rightarrow> (Res_Flag b, ts))"
| "set_step (Remove t) ts = (case spec_remove t ts of (b, ts) \<Rightarrow> (Res_Flag b, ts))"
| "set_step (Find_Name name) ts = (Res_Handle (spec_find name ts), ts)"
| "set_step (Exists h) ts = (Res_Flag (h \<in> rt_handle ` set ts), ts)"
| "set_step (Grab h) ts = (Res_Task (map_option rt_addr (find (\<lambda>t. rt_handle t = h) ts)), ts)"

fun set_run :: "reg_op list \<Rightarrow> reg_task list \<Rightarrow> reg_res list" where
  "set_run [] ts = []"
| "set_run (opn # ops) ts = (case set_step opn ts of (x, ts) \<Rightarrow> x # set_run ops ts)"

text \<open>
  What the callers guarantee: every task is registered once, with an identifier of its own other
  than 0 (\<open>createid_unique\<close>), and a task that is removed is the one with its address and handle.
\<close>

fun news :: "reg_op list \<Rightarrow> reg_task list" where
  "news [] = []"
| "news (Register t # ops) = t # news ops"
| "news (_ # ops) = news ops"

fun gone :: "reg_op list \<Rightarrow> reg_task list" where
  "gone [] = []"
| "gone (Remove t # ops) = t # gone ops"
| "gone (_ # ops) = gone ops"

definition calls_ok :: "reg_op list \<Rightarrow> bool" where
  "calls_ok ops \<longleftrightarrow> distinct (map rt_handle (news ops)) \<and> INVALID_TNAME \<notin> rt_handle ` set (news ops) \<and> set (gone ops) \<subseteq> set (news ops)"

lemma set_step_tasks: "set (snd (set_step opn ts)) \<subseteq> set (news [opn]) \<union> set ts"
  by (cases opn) (auto simp: spec_register_def spec_remove_def)

lemma registry_step_ok:
  assumes "reg_ok (Suc n) r ts" "\<And>t. opn = Register t \<Longrightarrow> rt_handle t \<noteq> INVALID_TNAME \<and> rt_handle t \<notin> rt_handle ` set ts"
    "\<And>t u. opn = Remove t \<Longrightarrow> u \<in> set ts \<Longrightarrow> rt_handle u = rt_handle t \<Longrightarrow> u = t"
  shows "\<exists>r'. registry_step opn r = Some (fst (set_step opn ts), r') \<and> reg_ok n r' (snd (set_step opn ts))"
proof -
  have same: "reg_ok n r ts" using assms(1) by (simp add: reg_ok_def room_weaken)
  show ?thesis
  proof (cases opn)
    case (Register t)
    with task_register_ok [OF assms(1)] assms(2) show ?thesis by (fastforce split: prod.split)
  next
    case (Remove t)
    with task_remove_ok [OF assms(1), of t] assms(3) show ?thesis by (fastforce split: prod.split)
  qed (use same task_lookup_ok [OF same] in simp_all)
qed

lemma registry_run_ok:
  assumes "reg_ok (length ops) r ts" "inj_on rt_handle A" "INVALID_TNAME \<notin> rt_handle ` A"
    "set ts \<subseteq> A" "set (news ops) \<subseteq> A" "set (gone ops) \<subseteq> A" "distinct (news ops)" "set (news ops) \<inter> set ts = {}"
  shows "registry_run ops r = Some (set_run ops ts)"
  using assms
proof (induction ops arbitrary: r ts)
  case (Cons opn ops)
  have parts: "set (news [opn]) \<subseteq> A" "set (gone [opn]) \<subseteq> A" "set (news [opn]) \<inter> set ts = {}"
    "set (news ops) \<subseteq> A" "set (gone ops) \<subseteq> A" "distinct (news ops)" "set (news ops) \<inter> (set (news [opn]) \<union> set ts) = {}"
    using Cons.prems(5-8) by (cases opn; auto)+
  have "\<exists>r'. registry_step opn r = Some (fst (set_step opn ts), r') \<and> reg_ok (length ops) r' (snd (set_step opn ts))"
  proof (rule registry_step_ok)
    fix t assume "opn = Register t"
    then have t: "t \<in> A" "t \<notin> set ts" using parts(1,3) by simp_all
    then have "rt_handle t \<noteq> INVALID_TNAME" using Cons.prems(3) by (metis imageI)
    with t(2) inj_on_image_mem_iff [OF Cons.prems(2) t(1) Cons.prems(4)]
    show "rt_handle t \<noteq> INVALID_TNAME \<and> rt_handle t \<notin> rt_handle ` set ts" by blast
  next
    fix t u assume "opn = Remove t" "u \<in> set ts" "rt_handle u = rt_handle t"
    then have "t \<in> A" "u \<in> A" using parts(2) Cons.prems(4) by auto
    with \<open>rt_handle u = rt_handle t\<close> show "u = t" using inj_onD [OF Cons.prems(2)] by blast
  qed (use Cons.prems(1) in simp)
  then obtain r' where r': "registry_step opn r = Some (fst (set_step opn ts), r')" "reg_ok (length ops) r' (snd (set_step opn ts))"
    by blast
  have "registry_run ops r' = Some (set_run ops (snd (set_step opn ts)))"
    by (rule Cons.IH [OF r'(2) Cons.prems(2,3)])
      (use set_step_tasks [of opn ts] parts Cons.prems(4) in blast)+
  with r'(1) show ?case by (simp split: prod.split)
qed simp

lemma registry_init_ok:
  assumes "n \<le> 2 ^ 30"
  shows "\<exists>r. registry_init = Some r \<and> reg_ok n r []"
proof -
  obtain m :: "name_ref hashmap" where m: "hm_new TASK_BUCKET 1024 = Some m" "task_map.hm_room TASK_BUCKET n m"
    "\<And>k. hm_get task_map_hash task_map_cmp k m = Some None"
    using task_map.hm_new_room [OF buckets(1), of 1024 n] assms by auto
  obtain m' :: "name_handle_entry hashmap" where m': "hm_new TNAME_BUCKET 1024 = Some m'" "tname_map.hm_room TNAME_BUCKET n m'"
    "\<And>k. hm_get tname_map_hash tname_map_cmp k m' = Some None"
    using tname_map.hm_new_room [OF buckets(2), of 1024 n] assms by auto
  from m m' show ?thesis by (simp add: registry_init_def reg_ok_def tasks_ok_def by_handle_def by_name_def)
qed

text \<open>
  C28: The task tables refine the set of registered tasks: in any sequence of up to \<open>2 ^ 30\<close>
  registrations, removals and lookups, a registration succeeds exactly when the name is free, a
  removal exactly when the task is registered, and every lookup by name or handle finds exactly
  the task that is registered under it, although the two tables are updated separately.
\<close>

theorem registry_refines:
  assumes "length ops \<le> 2 ^ 30" "calls_ok ops"
  shows "\<exists>r. registry_init = Some r \<and> registry_run ops r = Some (set_run ops [])"
proof -
  obtain r where r: "registry_init = Some r" "reg_ok (length ops) r []" using registry_init_ok [OF assms(1)] by blast
  have "registry_run ops r = Some (set_run ops [])"
    by (rule registry_run_ok [OF r(2), where A = "set (news ops)"])
      (use assms(2) in \<open>auto simp: calls_ok_def distinct_map\<close>)
  with r(1) show ?thesis by blast
qed

definition demo_task :: "nat \<Rightarrow> reg_task" where
  "demo_task a = \<lparr>rt_addr = a, rt_handle = of_nat a, rt_name = Some [104]\<rparr>"

definition demo_calls :: "reg_op list" where
  "demo_calls = [Register (demo_task 1), Register (demo_task 2), Find_Name [104], Remove (demo_task 2), Remove (demo_task 1),
     Find_Name [104], Register (demo_task 3), Grab 1, Grab 3, Exists 3]"

theorem registry_refines_witness:
  "\<exists>r. registry_init = Some r \<and> registry_run demo_calls r =
     Some [Res_Flag True, Res_Flag False, Res_Handle 1, Res_Flag False, Res_Flag True, Res_Handle 0, Res_Flag True,
       Res_Task None, Res_Task (Some 3), Res_Flag True]"
proof -
  have ok: "length demo_calls \<le> 2 ^ 30" "calls_ok demo_calls"
    by (simp_all add: demo_calls_def calls_ok_def demo_task_def INVALID_TNAME_def)
  have e: "set_run demo_calls [] = [Res_Flag True, Res_Flag False, Res_Handle 1, Res_Flag False, Res_Flag True, Res_Handle 0,
      Res_Flag True, Res_Task None, Res_Task (Some 3), Res_Flag True]"
    by (simp add: demo_calls_def demo_task_def spec_register_def spec_remove_def spec_find_def INVALID_TNAME_def)
  from registry_refines [OF ok] show ?thesis unfolding e .
qed

end
