(* ===== verification/Strconv.thy ===== *)
theory Strconv
  imports Prelude
begin

text \<open>
  Models the integer conversions of \<open>lib/base/strconv.c\<close>: decimal text to \<open>uint64_t\<close> and \<open>int64_t\<close>
  with every overflow refused, and back in any base from 2 to 16, and the hexadecimal coding of bytes.
  The reference is \<open>dec_value\<close>, the number a text of digits stands for.
\<close>

section \<open>Text to number\<close>

fun strtou64_short :: "bytes \<Rightarrow> u64 \<Rightarrow> u64 option" where
  "strtou64_short [] v = Some v"
| "strtou64_short (c # cs) v =
     (let d = ucast c - 48 in if 9 < d then None else strtou64_short cs (v * 10 + d))"

text \<open>\<open>char\<close> is signed where \<open>str[i] < '0'\<close> is tested: a byte from 128 on is negative.\<close>

fun strtou64_long :: "u64 \<Rightarrow> u64 \<Rightarrow> bytes \<Rightarrow> u64 \<Rightarrow> u64 option" where
  "strtou64_long cutoff lim [] v = Some v"
| "strtou64_long cutoff lim (c # cs) v =
     (if sint c < 48 \<or> 57 < sint c then None
      else let d = ucast c - 48
           in if cutoff < v \<or> v = cutoff \<and> lim < d then None else strtou64_long cutoff lim cs (v * 10 + d))"

definition strtou64 :: "bytes \<Rightarrow> u64 \<Rightarrow> u64 option" where
  "strtou64 str mx =
     (if length str = 0 then None
      else if length str \<le> 19
      then Option.bind (strtou64_short str 0) (\<lambda>v. if mx < v then None else Some v)
      else strtou64_long (mx div 10) (mx mod 10) str 0)"

definition INT64_MAX :: u64 where "INT64_MAX = 0x7FFFFFFFFFFFFFFF"

definition strtoi64 :: "bytes \<Rightarrow> int option" where
  "strtoi64 s =
     (let neg = (0 < length s \<and> s ! 0 = 45); digits = (if neg then drop 1 s else s)
      in Option.bind (strtou64 digits (if neg then INT64_MAX + 1 else INT64_MAX)) (\<lambda>mag.
        Some (if \<not> neg then sint mag
              else if INT64_MAX + 1 = mag then - (2 ^ 63) else - sint mag)))"

section \<open>Number to text\<close>

definition hex_char_lower :: bytes where
  "hex_char_lower = [48, 49, 50, 51, 52, 53, 54, 55, 56, 57, 97, 98, 99, 100, 101, 102]"

definition hex_char_upper :: bytes where
  "hex_char_upper = [48, 49, 50, 51, 52, 53, 54, 55, 56, 57, 65, 66, 67, 68, 69, 70]"

text \<open>\<open>"0001...99"\<close>\<close>

definition dec_pairs :: bytes where
  "dec_pairs = concat (map (\<lambda>a. concat (map (\<lambda>b. [48 + a, 48 + b]) [0, 1, 2, 3, 4, 5, 6, 7, 8, 9]))
     [0, 1, 2, 3, 4, 5, 6, 7, 8, 9])"

text \<open>
  The number of digits; the division ends because the base is at least 2, which \<open>u64tostr\<close>
  asserts and the test here repeats for the totality of the recursion.
\<close>

function count_digits :: "u64 \<Rightarrow> u64 \<Rightarrow> nat \<Rightarrow> nat" where
  "count_digits base t n = (if 2 \<le> base \<and> base \<le> t then count_digits base (t div base) (n + 1) else n)"
  by pat_completeness auto
termination
proof (relation "measure (\<lambda>(base, t, n). unat t)")
  fix base t :: u64 and n :: nat
  assume a: "2 \<le> base \<and> base \<le> t"
  then have "2 \<le> unat base" "unat base \<le> unat t" by (simp_all add: word_le_nat_alt)
  then have "unat t div unat base < unat t" by (intro div_less_dividend) auto
  then show "((base, t div base, n + 1), (base, t, n)) \<in> measure (\<lambda>(base, t, n). unat t)" by (simp add: unat_div)
qed simp

declare count_digits.simps [simp del]

text \<open>The digits from the last one on, in front of those already written.\<close>

fun put_digits :: "nat \<Rightarrow> u64 \<Rightarrow> u64 \<Rightarrow> bytes \<Rightarrow> bytes" where
  "put_digits 0 base v out = out"
| "put_digits (Suc i) base v out = put_digits i base (v div base) (hex_char_lower ! unat (v mod base) # out)"

definition u64_digits :: "u64 \<Rightarrow> u64 \<Rightarrow> bytes" where
  "u64_digits v base = put_digits (count_digits base v 1) base v []"

function count_digits10 :: "u64 \<Rightarrow> nat \<Rightarrow> nat" where
  "count_digits10 t n = (if 100 \<le> t then count_digits10 (t div 100) (n + 2) else n + (if 10 \<le> t then 1 else 0))"
  by pat_completeness auto
termination
proof (relation "measure (\<lambda>(t, n). unat t)")
  fix t :: u64 and n :: nat
  assume "100 \<le> t"
  then have "100 \<le> unat t" by (simp add: word_le_nat_alt)
  then have "unat t div 100 < unat t" by simp
  then show "((t div 100, n + 2), t, n) \<in> measure (\<lambda>(t, n). unat t)" by (simp add: unat_div)
qed simp

declare count_digits10.simps [simp del]

text \<open>Two digits at a time into the block \<open>out\<close> from \<open>i\<close> down; what is left goes to its front.\<close>

function put_digits10 :: "bytes \<Rightarrow> nat \<Rightarrow> u64 \<Rightarrow> bytes" where
  "put_digits10 out i v =
     (if 100 \<le> v then
        let q = v div 100 in put_digits10 (mem_put out (i - 2) (mem_get dec_pairs (unat ((v - q * 100) * 2)) 2)) (i - 2) q
      else if 10 \<le> v then mem_put out 0 (mem_get dec_pairs (unat (v * 2)) 2)
      else mem_put out 0 [48 + ucast v])"
  by pat_completeness auto
termination
proof (relation "measure (\<lambda>(out, i, v). unat v)")
  fix out :: bytes and i :: nat and v q :: u64
  assume "100 \<le> v" "q = v div 100"
  then have "100 \<le> unat v" by (simp add: word_le_nat_alt)
  then have "unat v div 100 < unat v" by simp
  with \<open>q = v div 100\<close>
  show "((mem_put out (i - 2) (mem_get dec_pairs (unat ((v - q * 100) * 2)) 2), i - 2, q), out, i, v)
      \<in> measure (\<lambda>(out, i, v). unat v)" by (simp add: unat_div)
qed simp

declare put_digits10.simps [simp del]

definition u64_digits10 :: "u64 \<Rightarrow> bytes" where
  "u64_digits10 v = (let n = count_digits10 v 1 in put_digits10 (replicate n 0) n v)"

definition u64tostr :: "u64 \<Rightarrow> u64 \<Rightarrow> bytes option" where
  "u64tostr v base =
     assertab (2 \<le> base \<and> base \<le> 16)
       (Some (if base = 10 then u64_digits10 v else if base = 16 then u64_digits v 16 else u64_digits v base))"

definition i64tostr :: "u64 \<Rightarrow> u64 \<Rightarrow> bytes option" where
  "i64tostr v base = (if v <s 0 then map_option ((#) 45) (u64tostr (0 - v) base) else u64tostr v base)"

section \<open>Hexadecimal bytes\<close>

definition tohex :: "bytes \<Rightarrow> bool \<Rightarrow> bytes" where
  "tohex p lower =
     (let tbl = (if lower then hex_char_lower else hex_char_upper)
      in concat (map (\<lambda>b. [tbl ! unat (b div 16), tbl ! unat (b mod 16)]) p))"

text \<open>One entry of the table \<open>_hex_val\<close>, as the macro \<open>_HEX1\<close> computes it; -1 is \<open>ERR_FAILED\<close>.\<close>

definition fromhex :: "u8 \<Rightarrow> int" where
  "fromhex c =
     (if 48 \<le> c \<and> c \<le> 57 then uint c - 48
      else if 97 \<le> c \<and> c \<le> 102 then uint c - 97 + 10
      else if 65 \<le> c \<and> c \<le> 70 then uint c - 65 + 10
      else -1)"

section \<open>The reference\<close>

definition is_digit :: "u8 \<Rightarrow> bool" where
  "is_digit c \<longleftrightarrow> 48 \<le> c \<and> c \<le> 57"

definition dec_num :: "bytes \<Rightarrow> nat" where
  "dec_num bs = foldl (\<lambda>n c. n * 10 + (unat c - 48)) 0 bs"

definition dec_value :: "bytes \<Rightarrow> nat option" where
  "dec_value bs = (if bs \<noteq> [] \<and> list_all is_digit bs then Some (dec_num bs) else None)"

lemma dec_num_snoc [simp]: "dec_num (bs @ [c]) = dec_num bs * 10 + (unat c - 48)"
  by (simp add: dec_num_def)

lemma dec_num_Nil [simp]: "dec_num [] = 0"
  by (simp add: dec_num_def)

lemma is_digit_unat: "is_digit c \<longleftrightarrow> 48 \<le> unat c \<and> unat c \<le> 57"
  by (simp add: is_digit_def word_le_nat_alt)

lemma dec_num_less: "list_all is_digit bs \<Longrightarrow> dec_num bs < 10 ^ length bs"
proof (induction bs rule: rev_induct)
  case (snoc c bs)
  then have "unat c \<le> 57" "dec_num bs + 1 \<le> 10 ^ length bs" by (simp_all add: is_digit_unat)
  then show ?case by simp
qed simp

lemma foldl_dec: "foldl (\<lambda>n c. n * 10 + (unat c - 48)) a bs = a * 10 ^ length bs + dec_num bs"
proof (induction bs rule: rev_induct)
  case (snoc c bs)
  then show ?case by (simp add: algebra_simps)
qed simp

lemma dec_num_append: "dec_num (as @ bs) = dec_num as * 10 ^ length bs + dec_num bs"
proof -
  have "dec_num (as @ bs) = foldl (\<lambda>n c. n * 10 + (unat c - 48)) (dec_num as) bs" by (simp add: dec_num_def)
  then show ?thesis by (simp add: foldl_dec)
qed

lemma sint_if:
  "sint x = (if uint x < 2 ^ (LENGTH('a) - 1) then uint x else uint x - 2 ^ LENGTH('a))" for x :: "'a::len word"
proof -
  let ?n = "LENGTH('a) - 1" and ?u = "uint x"
  have n: "Suc ?n = LENGTH('a)" by simp
  have lt: "0 \<le> ?u" "?u < 2 ^ Suc ?n" using uint_range_size [of x] n by (simp_all add: word_size)
  have "sint x = signed_take_bit ?n ?u" by (simp add: sint_uint)
  also have "\<dots> = take_bit (Suc ?n) ?u - 2 ^ Suc ?n * of_bool (bit ?u ?n)"
    by (rule signed_take_bit_eq_take_bit_minus)
  also have "take_bit (Suc ?n) ?u = ?u" using lt by (simp add: take_bit_int_eq_self del: power_Suc)
  also have "bit ?u ?n \<longleftrightarrow> 2 ^ ?n \<le> ?u"
  proof (cases "2 ^ ?n \<le> ?u")
    case True
    have "?u < 2 * 2 ^ ?n" using lt(2) unfolding power_Suc .
    with True have "?u div 2 ^ ?n = 1" by (intro int_div_pos_eq [where r = "?u - 2 ^ ?n"]) auto
    with True show ?thesis by (simp add: bit_iff_odd)
  next
    case False
    with lt(1) have "?u div 2 ^ ?n = 0" by simp
    with False show ?thesis by (simp add: bit_iff_odd)
  qed
  finally show ?thesis using n by (auto simp: not_less simp del: power_Suc)
qed

lemma digit_sub:
  "9 < (ucast c - 48 :: u64) \<longleftrightarrow> \<not> is_digit (c :: u8)" "is_digit c \<Longrightarrow> unat (ucast c - 48 :: u64) = unat c - 48"
  "is_digit c \<longleftrightarrow> \<not> (sint c < 48 \<or> 57 < sint c)"
proof -
  have u: "unat (ucast c :: u64) = unat c" by (rule unat_ucast_up) simp
  have lt: "unat c < 256" using unsigned_less [of c] by simp
  show s: "unat (ucast c - 48 :: u64) = unat c - 48" if "is_digit c"
  proof -
    have "48 \<le> (ucast c :: u64)" using that u by (simp add: word_le_nat_alt is_digit_unat)
    then show ?thesis by (simp add: unat_sub u)
  qed
  show "9 < (ucast c - 48 :: u64) \<longleftrightarrow> \<not> is_digit c"
  proof (cases "48 \<le> unat c")
    case True
    then have "48 \<le> (ucast c :: u64)" using u by (simp add: word_le_nat_alt)
    then have "unat (ucast c - 48 :: u64) = unat c - 48" by (simp add: unat_sub u)
    then show ?thesis using True by (auto simp: word_less_nat_alt is_digit_unat)
  next
    case False
    then have "(ucast c :: u64) < 48" using u by (simp add: word_less_nat_alt)
    then have "uint (ucast c - 48 :: u64) = uint (ucast c :: u64) - 48 + 18446744073709551616"
      by (simp add: uint_sub_if' word_le_def word_less_def)
    moreover have "0 \<le> uint (ucast c :: u64)" by simp
    ultimately have "9 < uint (ucast c - 48 :: u64)" by linarith
    then have "9 < (ucast c - 48 :: u64)" by (simp add: word_less_def)
    with False show ?thesis by (simp add: is_digit_unat)
  qed
  have "sint c = (if uint c < 128 then uint c else uint c - 256)" using sint_if [of c] by simp
  moreover have "0 \<le> uint c" "uint c < 256" using uint_range_size [of c] by (simp_all add: word_size)
  ultimately show "is_digit c \<longleftrightarrow> \<not> (sint c < 48 \<or> 57 < sint c)" by (auto simp: is_digit_def word_le_def)
qed

section \<open>Reading is exact\<close>

lemma step_ok:
  assumes "unat v = dec_num pre" "list_all is_digit (pre @ [c])" "dec_num (pre @ [c]) < 2 ^ 64"
  shows "unat (v * 10 + (ucast c - 48) :: u64) = dec_num (pre @ [c])"
proof -
  have d: "unat (ucast c - 48 :: u64) = unat c - 48" using assms(2) by (simp add: digit_sub(2))
  have "unat (v * 10) = dec_num pre * 10" using assms(1,3) by (simp add: unat_mult_lem [THEN iffD1])
  with d assms(3) show ?thesis by (subst unat_plus_small) (simp_all add: assms(1))
qed

lemma strtou64_short_ok:
  assumes "unat v = dec_num pre" "list_all is_digit pre" "length (pre @ bs) \<le> 19"
  shows "strtou64_short bs v = (if list_all is_digit bs then Some (of_nat (dec_num (pre @ bs))) else None)"
  using assms
proof (induction bs arbitrary: pre v)
  case Nil
  then have "v = of_nat (dec_num pre)" by (metis of_nat_unat ucast_id)
  then show ?case by simp
next
  case (Cons c bs)
  show ?case
  proof (cases "is_digit c")
    case False
    then show ?thesis using digit_sub(1) [of c] by (simp add: Let_def)
  next
    case True
    then have dg: "list_all is_digit (pre @ [c])" using Cons.prems(2) by simp
    have "dec_num (pre @ [c]) < 10 ^ length (pre @ [c])" by (rule dec_num_less [OF dg])
    also have "(10 :: nat) ^ length (pre @ [c]) \<le> 10 ^ 19" using Cons.prems(3) by (intro power_increasing) auto
    finally have "dec_num (pre @ [c]) < 2 ^ 64" by simp
    from step_ok [OF Cons.prems(1) dg this] Cons.IH [of "v * 10 + (ucast c - 48)" "pre @ [c]"] dg Cons.prems(3) True digit_sub(1) [of c]
    show ?thesis by (simp add: Let_def)
  qed
qed

lemma dec_num_mono: "dec_num pre \<le> dec_num (pre @ bs)"
proof -
  have "dec_num pre * 1 \<le> dec_num pre * 10 ^ length bs" by (intro mult_le_mono2) simp
  then show ?thesis unfolding dec_num_append by linarith
qed

lemma strtou64_long_ok:
  assumes "unat v = dec_num pre" "list_all is_digit pre" "dec_num pre \<le> unat mx"
  shows "strtou64_long (mx div 10) (mx mod 10) bs v =
    (if list_all is_digit bs \<and> dec_num (pre @ bs) \<le> unat mx then Some (of_nat (dec_num (pre @ bs))) else None)"
  using assms
proof (induction bs arbitrary: pre v)
  case Nil
  then have "v = of_nat (dec_num pre)" by (metis of_nat_unat ucast_id)
  with Nil show ?case by simp
next
  case (Cons c bs)
  show ?case
  proof (cases "is_digit c")
    case False
    then show ?thesis using digit_sub(3) [of c] by auto
  next
    case True
    then have dg: "list_all is_digit (pre @ [c])" using Cons.prems(2) by simp
    have d: "unat (ucast c - 48 :: u64) = unat c - 48" using True by (rule digit_sub(2))
    have le: "unat c - 48 \<le> 9" using True by (auto simp: is_digit_unat)
    have over: "mx div 10 < v \<or> v = mx div 10 \<and> mx mod 10 < ucast c - 48 \<longleftrightarrow> unat mx < dec_num (pre @ [c])"
    proof -
      have "mx div 10 < v \<or> v = mx div 10 \<and> mx mod 10 < ucast c - 48 \<longleftrightarrow>
          unat mx div 10 < dec_num pre \<or> dec_num pre = unat mx div 10 \<and> unat mx mod 10 < unat c - 48"
        by (simp add: word_less_nat_alt word_unat_eq_iff [of v] unat_div unat_mod Cons.prems(1) d)
      also have "\<dots> \<longleftrightarrow> unat mx < dec_num pre * 10 + (unat c - 48)"
      proof -
        have "unat mx = unat mx div 10 * 10 + unat mx mod 10" by simp
        moreover have "unat mx mod 10 < 10" by simp
        ultimately show ?thesis using le by linarith
      qed
      finally show ?thesis by simp
    qed
    show ?thesis
    proof (cases "unat mx < dec_num (pre @ [c])")
      case True
      then have "\<not> dec_num (pre @ c # bs) \<le> unat mx" using dec_num_mono [of "pre @ [c]" bs] by simp
      with True over digit_sub(3) [of c] \<open>is_digit c\<close> show ?thesis by (simp add: Let_def)
    next
      case False
      then have "dec_num (pre @ [c]) < 2 ^ 64" using unat_less [of mx] by simp
      from step_ok [OF Cons.prems(1) dg this] Cons.IH [of "v * 10 + (ucast c - 48)" "pre @ [c]"] dg False over True digit_sub(3) [of c]
      show ?thesis by (simp add: Let_def)
    qed
  qed
qed

text \<open>Every text is accepted exactly if it consists of digits and its number does not exceed the limit.\<close>

lemma strtou64_ok:
  "strtou64 str mx =
     (case dec_value str of Some n \<Rightarrow> if n \<le> unat mx then Some (of_nat n) else None | None \<Rightarrow> None)"
proof (cases "length str \<le> 19")
  case True
  have s: "strtou64_short str 0 = (if list_all is_digit str then Some (of_nat (dec_num str)) else None)"
    using strtou64_short_ok [of 0 "[]" str] True by simp
  have "unat (of_nat (dec_num str) :: u64) = dec_num str" if "list_all is_digit str"
  proof -
    have "dec_num str < 10 ^ length str" by (rule dec_num_less [OF that])
    also have "(10 :: nat) ^ length str \<le> 10 ^ 19" using True by (intro power_increasing) auto
    finally show ?thesis by (simp add: unat_of_nat take_bit_eq_mod)
  qed
  with s True show ?thesis by (auto simp: strtou64_def dec_value_def word_less_nat_alt)
next
  case False
  with strtou64_long_ok [of 0 "[]" mx str] show ?thesis by (auto simp: strtou64_def dec_value_def)
qed

text \<open>The signed number of a text: an optional minus and digits.\<close>

definition int_value :: "bytes \<Rightarrow> int option" where
  "int_value s =
     (if s \<noteq> [] \<and> hd s = 45 then map_option (\<lambda>n. - int n) (dec_value (tl s)) else map_option int (dec_value s))"

lemma strtoi64_ok:
  "strtoi64 s = (case int_value s of Some i \<Rightarrow> if - (2 ^ 63) \<le> i \<and> i < 2 ^ 63 then Some i else None | None \<Rightarrow> None)"
proof -
  have small: "sint (of_nat n :: u64) = int n" if "n \<le> 9223372036854775807" for n
    using sint_if [of "of_nat n :: u64"] that by (simp add: unsigned_of_nat take_bit_eq_mod)
  have mx: "unat INT64_MAX = 9223372036854775807" "unat (INT64_MAX + 1) = 9223372036854775808"
    by (simp_all add: INT64_MAX_def)
  have top: "INT64_MAX + 1 = of_nat n \<longleftrightarrow> n = 9223372036854775808" if "n \<le> 9223372036854775808" for n
    using that mx(2) by (auto simp: word_unat_eq_iff unat_of_nat take_bit_eq_mod)
  show ?thesis
  proof (cases "s \<noteq> [] \<and> hd s = 45")
    case True
    then have "0 < length s \<and> s ! 0 = 45" by (cases s) auto
    then have e: "strtoi64 s = Option.bind (strtou64 (tl s) (INT64_MAX + 1)) (\<lambda>mag.
        Some (if INT64_MAX + 1 = mag then - (2 ^ 63) else - sint mag))"
      by (simp add: strtoi64_def drop_Suc)
    show ?thesis
      using True by (auto simp: e strtou64_ok int_value_def mx top small split: option.split)
  next
    case False
    then have "\<not> (0 < length s \<and> s ! 0 = 45)" by (cases s) auto
    then have e: "strtoi64 s = Option.bind (strtou64 s INT64_MAX) (\<lambda>mag. Some (sint mag))"
      unfolding strtoi64_def Let_def by auto
    show ?thesis using False by (auto simp: e strtou64_ok int_value_def mx small split: option.split)
  qed
qed

section \<open>Writing and reading again\<close>

text \<open>The number a list of digit characters stands for in a base, and the count of its digits.\<close>

definition hex_digit :: "nat \<Rightarrow> u8" where
  "hex_digit d = hex_char_lower ! d"

fun digits_of :: "nat \<Rightarrow> nat \<Rightarrow> nat \<Rightarrow> nat list" where
  "digits_of 0 b v = []"
| "digits_of (Suc n) b v = digits_of n b (v div b) @ [v mod b]"

lemma put_digits_ok:
  "unat base = b \<Longrightarrow> put_digits n base v out = map hex_digit (digits_of n b (unat v)) @ out"
  by (induction n base v out arbitrary: b rule: put_digits.induct) (auto simp: hex_digit_def unat_div unat_mod)

lemma less_hex: "d < 10 \<Longrightarrow> hex_digit d = 48 + of_nat d"
  by (simp add: hex_digit_def hex_char_lower_def less_Suc_eq numeral_eq_Suc) auto

lemma concat_block:
  assumes "\<And>i. length (f i) = k" "i < n"
  shows "mem_get (concat (map f [0..<n])) (i * k) k = f i"
proof -
  have "[0..<n] = [0..<i] @ i # [Suc i..<n]" using assms(2) by (metis upt_add_eq_append upt_conv_Cons le_add_diff_inverse less_imp_le zero_le)
  moreover have "length (concat (map f [0..<i])) = i * k" for i
    by (induction i) (simp_all add: assms(1))
  ultimately show ?thesis by (simp add: mem_get_def assms(1))
qed

lemma dec_pairs_nth:
  assumes "v < 100"
  shows "mem_get dec_pairs (v * 2) 2 = [hex_digit (v div 10), hex_digit (v mod 10)]"
proof -
  let ?row = "\<lambda>a. concat (map (\<lambda>b. [48 + of_nat a, 48 + of_nat b]) [0..<10]) :: bytes"
  have e: "dec_pairs = concat (map ?row [0..<10])" by (simp add: dec_pairs_def upt_rec)
  have l: "length (?row a) = 20" for a by (simp add: upt_rec)
  have "mem_get dec_pairs (v * 2) 2 = mem_get (mem_get dec_pairs (v div 10 * 20) 20) (v mod 10 * 2) 2"
  proof -
    have "v * 2 = v div 10 * 20 + v mod 10 * 2" by presburger
    moreover have "v mod 10 * 2 + 2 \<le> 20" by presburger
    ultimately show ?thesis by (simp add: mem_get_def min_def drop_take add.commute)
  qed
  also have "mem_get dec_pairs (v div 10 * 20) 20 = ?row (v div 10)"
    unfolding e by (rule concat_block) (use assms l in auto)
  also have "mem_get \<dots> (v mod 10 * 2) 2 = [48 + of_nat (v div 10), 48 + of_nat (v mod 10)]"
    by (rule concat_block) auto
  finally show ?thesis using assms by (simp add: less_hex)
qed

fun blen :: "nat \<Rightarrow> nat \<Rightarrow> nat" where
  "blen b v = (if 2 \<le> b \<and> b \<le> v then Suc (blen b (v div b)) else 1)"

declare blen.simps [simp del]

lemma blen_pos [simp]: "0 < blen b v"
  by (subst blen.simps) simp

lemma less_blen: "2 \<le> b \<Longrightarrow> v < b ^ blen b v"
proof (induction b v rule: blen.induct)
  case (1 b v)
  show ?case
  proof (cases "b \<le> v")
    case True
    have "v = v div b * b + v mod b" by simp
    moreover have "v div b + 1 \<le> b ^ blen b (v div b)" "v mod b < b" using 1 True by (simp_all add: Suc_le_eq)
    ultimately have "v < b ^ blen b (v div b) * b" by (metis div_less_iff_less_mult le_less_trans less_eq_Suc_le Suc_eq_plus1 gr_zeroI mod_less_divisor not_less0)
    with True 1(2) show ?thesis by (subst blen.simps) (simp add: mult.commute)
  qed (simp add: blen.simps)
qed

lemma count_digits_ok: "2 \<le> base \<Longrightarrow> count_digits base t n + 1 = n + blen (unat base) (unat t)"
proof (induction base t n rule: count_digits.induct)
  case (1 base t n)
  then show ?case
    by (subst count_digits.simps, subst blen.simps) (simp add: word_le_nat_alt unat_div)
qed

lemma count_digits10_ok: "count_digits10 t n + 1 = n + blen 10 (unat t)"
proof (induction t n rule: count_digits10.induct)
  case (1 t n)
  have "blen 10 (unat t) = 2 + blen 10 (unat t div 100)" if "100 \<le> unat t"
  proof -
    have "10 \<le> unat t" "10 \<le> unat t div 10" using that by linarith+
    then have "blen 10 (unat t) = Suc (Suc (blen 10 (unat t div 10 div 10)))"
      by (subst blen.simps, subst blen.simps) simp
    then show ?thesis by (simp flip: div_mult2_eq)
  qed
  moreover have "blen 10 (unat t) = 1 + (if 10 \<le> unat t then 1 else 0)" if "unat t < 100"
    using that by (subst blen.simps, subst blen.simps) auto
  ultimately show ?case using 1 by (subst count_digits10.simps) (auto simp: word_le_nat_alt unat_div)
qed

lemma length_digits_of [simp]: "length (digits_of n b v) = n"
  by (induction n b v rule: digits_of.induct) auto

lemma put_digits10_ok:
  "i = blen 10 (unat v) \<Longrightarrow> i \<le> length out \<Longrightarrow>
   put_digits10 out i v = map hex_digit (digits_of i 10 (unat v)) @ drop i out"
proof (induction out i v rule: put_digits10.induct)
  case (1 out i v)
  show ?case
  proof (cases "100 \<le> v")
    case True
    then have n: "100 \<le> unat v" by (simp add: word_le_nat_alt)
    have "10 \<le> unat v" "10 \<le> unat v div 10" using n by linarith+
    then have i: "i = Suc (Suc (blen 10 (unat v div 100)))"
      unfolding 1(2) by (subst blen.simps, subst blen.simps) (simp flip: div_mult2_eq)
    let ?q = "v div 100" and ?r = "unat v mod 100"
    have "v - ?q * 100 = v mod 100" by (simp add: minus_div_mult_eq_mod)
    then have "unat (v - ?q * 100) = ?r" by (simp add: unat_mod)
    moreover have "unat (w * 2) = ?r * 2" if "unat w = ?r" for w :: u64 using that by (simp add: unat_word_ariths)
    ultimately have "unat ((v - ?q * 100) * 2) = ?r * 2" by blast
    then have pair: "mem_get dec_pairs (unat ((v - ?q * 100) * 2)) 2 = [hex_digit (?r div 10), hex_digit (?r mod 10)]"
      using dec_pairs_nth [of ?r] by simp
    have q: "unat ?q = unat v div 100" by (simp add: unat_div)
    let ?out = "mem_put out (i - 2) [hex_digit (?r div 10), hex_digit (?r mod 10)]"
    have "put_digits10 ?out (i - 2) ?q = map hex_digit (digits_of (i - 2) 10 (unat ?q)) @ drop (i - 2) ?out"
      using 1(1) [OF True refl] 1(3) i pair q by (simp add: mem_put_def)
    moreover have "drop (i - 2) ?out = [hex_digit (?r div 10), hex_digit (?r mod 10)] @ drop i out"
      using i 1(3) by (simp add: mem_put_def)
    ultimately have w: "put_digits10 ?out (i - 2) ?q =
        map hex_digit (digits_of (i - 2) 10 (unat v div 100) @ [?r div 10, ?r mod 10]) @ drop i out"
      by (simp add: q)
    have "?r = 10 * (unat v div 10 mod 10) + unat v mod 10" using mod_mult2_eq [of "unat v" 10 10] by simp
    then have "?r div 10 = unat v div 10 mod 10" "?r mod 10 = unat v mod 10" by simp_all
    moreover have "unat v div 100 = unat v div 10 div 10" by (simp flip: div_mult2_eq)
    ultimately have "digits_of i 10 (unat v) = digits_of (i - 2) 10 (unat v div 100) @ [?r div 10, ?r mod 10]"
      unfolding i by (simp only: digits_of.simps diff_Suc_Suc minus_nat.diff_0 numeral_2_eq_2 append.assoc append_Cons append_Nil)
    moreover have "put_digits10 out i v = put_digits10 ?out (i - 2) ?q"
      unfolding put_digits10.simps [of out i v] Let_def pair if_P [OF True] ..
    ultimately show ?thesis using w by simp
  next
    case False
    then have n: "unat v < 100" by (simp add: word_le_nat_alt)
    show ?thesis
    proof (cases "10 \<le> v")
      case True
      then have ge: "10 \<le> unat v" by (simp add: word_le_nat_alt)
      then have i: "i = 2" unfolding 1(2) using n by (subst blen.simps, subst blen.simps) auto
      have "unat (v * 2) = unat v * 2" using n by (simp add: unat_word_ariths)
      then have "mem_get dec_pairs (unat (v * 2)) 2 = [hex_digit (unat v div 10), hex_digit (unat v mod 10)]"
        using dec_pairs_nth [OF n] by simp
      with True False i n show ?thesis by (subst put_digits10.simps) (simp add: mem_put_def numeral_2_eq_2)
    next
      case lt: False
      then have ge: "unat v < 10" by (simp add: word_le_nat_alt)
      then have i: "i = 1" unfolding 1(2) by (subst blen.simps) auto
      have "(ucast v :: u8) = of_nat (unat v)" by (simp add: unsigned_of_nat)
      then have "48 + ucast v = hex_digit (unat v)" using less_hex [OF ge] by simp
      with lt False i ge show ?thesis by (subst put_digits10.simps) (simp add: mem_put_def)
    qed
  qed
qed

text \<open>Both loops write the digits of the number, most significant first, without leading zeros.\<close>

definition num_text :: "nat \<Rightarrow> nat \<Rightarrow> bytes" where
  "num_text b v = map hex_digit (digits_of (blen b v) b v)"

lemma u64tostr_ok: "2 \<le> base \<Longrightarrow> base \<le> 16 \<Longrightarrow> u64tostr v base = Some (num_text (unat base) (unat v))"
proof -
  assume b: "2 \<le> base" "base \<le> 16"
  have g: "u64_digits v c = num_text (unat c) (unat v)" if "2 \<le> c" for c
    using count_digits_ok [OF that, of v 1] put_digits_ok [of c "unat c" _ v "[]"]
    by (simp add: u64_digits_def num_text_def)
  have "u64_digits10 v = num_text 10 (unat v)"
    using count_digits10_ok [of v 1] put_digits10_ok [of "blen 10 (unat v)" v "replicate (blen 10 (unat v)) 0"]
    by (simp add: u64_digits10_def num_text_def)
  with b g show ?thesis by (simp add: u64tostr_def)
qed

lemma dec_digits: "dec_num (map hex_digit (digits_of n 10 v)) = v mod 10 ^ n"
proof (induction n arbitrary: v)
  case (Suc n)
  have "unat (hex_digit (v mod 10)) = 48 + v mod 10"
    using less_hex [of "v mod 10"] by (simp add: unat_word_ariths unat_of_nat take_bit_eq_mod)
  with Suc show ?case by (simp add: mod_mult2_eq)
qed simp

lemma digit_hex: "d < 10 \<Longrightarrow> is_digit (hex_digit d)"
  by (simp add: less_hex is_digit_unat unat_word_ariths unat_of_nat take_bit_eq_mod)

lemma digits_lt: "0 < b \<Longrightarrow> d \<in> set (digits_of n b v) \<Longrightarrow> d < b"
  by (induction n b v rule: digits_of.induct) auto

lemma dec_num_text: "dec_value (num_text 10 v) = Some v"
proof -
  have "\<forall>d\<in>set (digits_of (blen 10 v) 10 v). d < 10" by (metis digits_lt zero_less_numeral)
  then have "list_all is_digit (num_text 10 v)" by (simp add: num_text_def list_all_iff digit_hex)
  moreover have "num_text 10 v \<noteq> []" using blen_pos [of 10 v] by (metis length_digits_of length_map list.size(3) num_text_def less_irrefl)
  moreover have "dec_num (num_text 10 v) = v" using less_blen [of 10 v] by (simp add: num_text_def dec_digits)
  ultimately show ?thesis by (simp add: dec_value_def)
qed

lemma num_text_first: "num_text 10 v \<noteq> [] \<and> is_digit (hd (num_text 10 v))"
  using dec_num_text [of v] by (cases "num_text 10 v") (auto simp: dec_value_def split: if_splits)

text \<open>
  C39: Decimal text and 64 bit integers are inverse: what \<open>u64tostr\<close> and \<open>i64tostr\<close> write is read back
  by \<open>strtou64\<close> and \<open>strtoi64\<close> as the same number, at every value, \<open>INT64_MIN\<close> included, and refused
  exactly if it exceeds the limit; on any other input \<open>strtoi64\<close> gives the number the text
  stands for exactly if it fits, and never a wrapped one.
\<close>

theorem decimal_roundtrip:
  "(\<exists>s. i64tostr v 10 = Some s \<and> strtoi64 s = Some (sint v)) \<and>
   (\<exists>s. u64tostr v 10 = Some s \<and> strtou64 s mx = (if v \<le> mx then Some v else None)) \<and>
   strtoi64 t = (case int_value t of Some i \<Rightarrow> if - (2 ^ 63) \<le> i \<and> i < 2 ^ 63 then Some i else None | None \<Rightarrow> None)"
proof (intro conjI)
  have t: "u64tostr w 10 = Some (num_text 10 (unat w))" for w using u64tostr_ok [of 10 w] by simp
  show "\<exists>s. u64tostr v 10 = Some s \<and> strtou64 s mx = (if v \<le> mx then Some v else None)"
    by (simp add: t strtou64_ok dec_num_text word_le_nat_alt)
  have rng: "- (2 ^ 63) \<le> sint v" "sint v < 2 ^ 63" using sint_range_size [of v] by (simp_all add: word_size)
  show "\<exists>s. i64tostr v 10 = Some s \<and> strtoi64 s = Some (sint v)"
  proof (cases "v <s 0")
    case True
    then have neg: "sint v < 0" by (simp add: word_sless_alt)
    then have big: "2 ^ 63 \<le> uint v" "sint v = uint v - 2 ^ 64" using sint_if [of v] by (auto split: if_splits)
    have lt: "uint v < 18446744073709551616" using uint_range_size [of v] by (simp add: word_size)
    have "uint (0 - v) = (18446744073709551616 - uint v) mod 18446744073709551616"
      by (simp add: uint_word_ariths mod_minus_eq mod_diff_left_eq [symmetric])
    also have "\<dots> = 2 ^ 64 - uint v" using big(1) lt by (subst mod_pos_pos_trivial) auto
    finally have "uint (0 - v) = 2 ^ 64 - uint v" .
    then have "int (unat (0 - v)) = - sint v" using big(2) by simp
    then have "int_value (45 # num_text 10 (unat (0 - v))) = Some (sint v)"
      by (simp add: int_value_def dec_num_text)
    with True t [of "0 - v"] rng show ?thesis by (simp add: i64tostr_def strtoi64_ok)
  next
    case False
    then have pos: "0 \<le> sint v" by (simp add: word_sless_alt)
    have "sint v = uint v" using sint_if [of v] pos uint_range_size [of v] by (auto simp: word_size split: if_splits)
    moreover have "hd (num_text 10 (unat v)) \<noteq> 45" using num_text_first [of "unat v"] by (auto simp: is_digit_def)
    ultimately have "int_value (num_text 10 (unat v)) = Some (sint v)" by (simp add: int_value_def dec_num_text)
    with False t [of v] rng show ?thesis by (simp add: i64tostr_def strtoi64_ok)
  qed
  show "strtoi64 t = (case int_value t of Some i \<Rightarrow> if - (2 ^ 63) \<le> i \<and> i < 2 ^ 63 then Some i else None | None \<Rightarrow> None)"
    by (rule strtoi64_ok)
qed

lemma fromhex_tohex:
  "map fromhex (tohex p lower) = concat (map (\<lambda>b. [uint b div 16, uint b mod 16]) p)"
proof -
  have d: "fromhex (hex_char_lower ! n) = int n \<and> fromhex (hex_char_upper ! n) = int n" if "n < 16" for n
  proof -
    have "\<forall>n<16. fromhex (hex_char_lower ! n) = int n \<and> fromhex (hex_char_upper ! n) = int n"
      by (simp add: All_less_numeral fromhex_def hex_char_lower_def hex_char_upper_def)
    with that show ?thesis by blast
  qed
  have "unat b div 16 < 16" for b :: u8 using unat_less [of b] by simp
  with d show ?thesis by (induction p) (auto simp: tohex_def Let_def unat_div unat_mod uint_div uint_mod zdiv_int zmod_int)
qed

end
