(* ===== verification/Redis.thy ===== *)
theory Redis
  imports Prots Strconv
begin

text \<open>
  Models the receive side of \<open>lib/protocol/redis.c\<close> (RESP2 and RESP3): the nodes of a reply, the
  stack of aggregates that are still open, the readers of the three classes of elements, the loop of
  \<open>redis_unpack\<close>, and which replies may resume a waiting caller. The receive buffer is the one of
  \<open>Buffer\<close>. \<open>strtod\<close> stands for \<open>strtod_s\<close> with the test \<open>isfinite\<close>: what it returns for a text, or
  \<open>None\<close>. The list of nodes is the chain from \<open>head\<close>; where a node is allocated is not modelled, its
  size is.
\<close>

section \<open>Constants\<close>

definition REDIS_MAX_DEPTH :: nat where "REDIS_MAX_DEPTH = 18"
definition REDIS_NUM_CAP :: nat where "REDIS_NUM_CAP = 64"
definition REDIS_HDR_PEEK :: nat where "REDIS_HDR_PEEK = REDIS_NUM_CAP + 2"
definition REDIS_MAX_NODES :: nat where "REDIS_MAX_NODES = 262144"
definition REDIS_MAX_LINE_LENS :: nat where "REDIS_MAX_LINE_LENS = 65535"
definition REDIS_MAX_BULK_LENS :: int where "REDIS_MAX_BULK_LENS = 512 * 1024 * 1024"

definition FLAG_CRLF :: bytes where "FLAG_CRLF = [13, 10]"

definition RESP_STRING :: u8 where "RESP_STRING = 43"
definition RESP_ERROR :: u8 where "RESP_ERROR = 45"
definition RESP_INTEGER :: u8 where "RESP_INTEGER = 58"
definition RESP_NIL :: u8 where "RESP_NIL = 95"
definition RESP_BOOL :: u8 where "RESP_BOOL = 35"
definition RESP_DOUBLE :: u8 where "RESP_DOUBLE = 44"
definition RESP_BIGNUM :: u8 where "RESP_BIGNUM = 40"
definition RESP_BSTRING :: u8 where "RESP_BSTRING = 36"
definition RESP_BERROR :: u8 where "RESP_BERROR = 33"
definition RESP_VERB :: u8 where "RESP_VERB = 61"
definition RESP_ARRAY :: u8 where "RESP_ARRAY = 42"
definition RESP_SET :: u8 where "RESP_SET = 126"
definition RESP_PUSHE :: u8 where "RESP_PUSHE = 62"
definition RESP_MAP :: u8 where "RESP_MAP = 37"
definition RESP_ATTR :: u8 where "RESP_ATTR = 124"

lemmas resp_defs = RESP_STRING_def RESP_ERROR_def RESP_INTEGER_def RESP_NIL_def RESP_BOOL_def RESP_DOUBLE_def RESP_BIGNUM_def
  RESP_BSTRING_def RESP_BERROR_def RESP_VERB_def RESP_ARRAY_def RESP_SET_def RESP_PUSHE_def RESP_MAP_def RESP_ATTR_def

text \<open>The cases of the \<open>switch\<close> in \<open>redis_unpack\<close>.\<close>

definition is_line :: "u8 \<Rightarrow> bool" where
  "is_line prot \<longleftrightarrow> prot \<in> {RESP_STRING, RESP_ERROR, RESP_INTEGER, RESP_NIL, RESP_BOOL, RESP_DOUBLE, RESP_BIGNUM}"
definition is_bulk :: "u8 \<Rightarrow> bool" where
  "is_bulk prot \<longleftrightarrow> prot \<in> {RESP_BSTRING, RESP_BERROR, RESP_VERB}"
definition is_agg :: "u8 \<Rightarrow> bool" where
  "is_agg prot \<longleftrightarrow> prot \<in> {RESP_ARRAY, RESP_SET, RESP_PUSHE, RESP_MAP, RESP_ATTR}"

section \<open>Nodes and the reader\<close>

datatype 'd resp_double = DNone | DInf | DNegInf | DNan | DVal 'd

record 'd redis_node =
  rp_prot :: u8
  rp_venc :: bytes
  rp_nelem :: int
  rp_len :: int
  rp_ival :: int
  rp_dval :: "'d resp_double"
  rp_data :: bytes

text \<open>\<open>sizeof(redis_pack_ctx)\<close> without the data.\<close>

definition PACK_SIZE :: nat where "PACK_SIZE = 48"

record redis_frame =
  fr_attr :: bool
  fr_remain :: int

text \<open>The stack's entries up to \<open>depth\<close>, the top one first.\<close>

record 'd redis_reader =
  rd_count :: nat
  rd_nodes :: "'d redis_node list"
  rd_bytes :: nat
  rd_stack :: "redis_frame list"

definition redis_new_reader :: "'d redis_reader" where
  "redis_new_reader = \<lparr>rd_count = 0, rd_nodes = [], rd_bytes = 0, rd_stack = [\<lparr>fr_attr = False, fr_remain = 1\<rparr>]\<rparr>"

text \<open>A new node with everything but its type zero.\<close>

definition redis_node :: "u8 \<Rightarrow> 'd redis_node" where
  "redis_node prot = \<lparr>rp_prot = prot, rp_venc = [], rp_nelem = 0, rp_len = 0, rp_ival = 0, rp_dval = DNone, rp_data = []\<rparr>"

definition redis_node_new :: "nat \<Rightarrow> 'd redis_reader \<Rightarrow> 'd redis_reader" where
  "redis_node_new lens rd = rd\<lparr>rd_bytes := rd_bytes rd + lens\<rparr>"

text \<open>The loop of \<open>_redis_add_node\<close>: one element of the top frame is done.\<close>

fun redis_consume :: "redis_frame list \<Rightarrow> redis_frame list" where
  "redis_consume [] = []"
| "redis_consume (f # fs) =
     (let f = f\<lparr>fr_remain := fr_remain f - 1\<rparr>
      in if 0 < fr_remain f then f # fs
         else if fr_attr f then fs
         else redis_consume fs)"

definition redis_add_node :: "'d redis_node \<Rightarrow> int \<Rightarrow> 'd redis_reader \<Rightarrow> 'd redis_reader option" where
  "redis_add_node pk open rd =
     (let rd = rd\<lparr>rd_nodes := rd_nodes rd @ [pk], rd_count := rd_count rd + 1\<rparr>
      in if 0 < open then
           assertab (length (rd_stack rd) < REDIS_MAX_DEPTH)
             (Some (rd\<lparr>rd_stack := \<lparr>fr_attr = (rp_prot pk = RESP_ATTR), fr_remain = open\<rparr> # rd_stack rd\<rparr>))
         else if rp_prot pk = RESP_ATTR then Some rd
         else Some (rd\<lparr>rd_stack := redis_consume (rd_stack rd)\<rparr>))"

section \<open>Texts\<close>

text \<open>\<open>_redis_local_crlf\<close>: the first CRLF from position 1 on.\<close>

fun crlf_from :: "nat \<Rightarrow> bytes \<Rightarrow> nat option" where
  "crlf_from i (a # b # s) = (if a = 13 \<and> b = 10 then Some i else crlf_from (i + 1) (b # s))"
| "crlf_from i _ = None"

definition redis_local_crlf :: "bytes \<Rightarrow> nat option" where
  "redis_local_crlf hdr = crlf_from 1 (drop 1 hdr)"

definition redis_find_crlf :: "buffer \<Rightarrow> u32 \<Rightarrow> (nat option \<times> u32 \<times> buffer) option" where
  "redis_find_crlf buf status =
     Option.bind (buffer_search buf False 0 0 FLAG_CRLF) (\<lambda>(pos, buf).
       if pos = -1 then
         Some (None, bit_set status (if REDIS_MAX_LINE_LENS + 1 < buffer_size buf then PROT_ERROR else PROT_MOREDATA), buf)
       else Some (Some (nat pos), status, buf))"

definition is_space :: "u8 \<Rightarrow> bool" where
  "is_space c \<longleftrightarrow> c = 32 \<or> 9 \<le> c \<and> c \<le> 13"

definition redis_parse_integer :: "bytes \<Rightarrow> int option" where
  "redis_parse_integer data =
     (let p = dropWhile is_space data
      in if p \<noteq> [] \<and> hd p = 43 then (if tl p \<noteq> [] \<and> hd (tl p) = 45 then None else strtoi64 (tl p))
         else strtoi64 p)"

definition redis_parse_num :: "bytes \<Rightarrow> int option" where
  "redis_parse_num num =
     (if length num = 0 \<or> REDIS_NUM_CAP \<le> length num then None
      else Option.bind (strtoi64 num) (\<lambda>val. if val < -1 then None else Some val))"

text \<open>The position of the line's end and the number in it; the status says why there is none.\<close>

definition redis_head_len :: "bytes \<Rightarrow> u32 \<Rightarrow> (nat \<times> int) option \<times> u32" where
  "redis_head_len hdr status =
     (case redis_local_crlf hdr of
        None \<Rightarrow> (None, bit_set status (if length hdr < REDIS_HDR_PEEK then PROT_MOREDATA else PROT_ERROR))
      | Some pos \<Rightarrow>
          (case redis_parse_num (take (pos - 1) (drop 1 hdr)) of
             None \<Rightarrow> (None, bit_set status PROT_ERROR)
           | Some v \<Rightarrow> (Some (pos, v), status)))"

text \<open>\<open>memcasecmp(..) == 0\<close> with a lower-case pattern of the same length.\<close>

definition same_text :: "bytes \<Rightarrow> bytes \<Rightarrow> bool" where
  "same_text data lower \<longleftrightarrow> map (\<lambda>c. if 65 \<le> c \<and> c \<le> 90 then c + 32 else c) data = lower"

text \<open>The \<open>switch\<close> of \<open>_redis_reader_line\<close>: the values of the line types.\<close>

definition redis_line_value :: "(bytes \<Rightarrow> 'd option) \<Rightarrow> 'd redis_node \<Rightarrow> 'd redis_node option" where
  "redis_line_value strtod pk =
     (let prot = rp_prot pk; len = rp_len pk; data = rp_data pk
      in if prot = RESP_INTEGER then
           (if len = 0 then None else map_option (\<lambda>i. pk\<lparr>rp_ival := i\<rparr>) (redis_parse_integer data))
         else if prot = RESP_BIGNUM then (if len = 0 then None else Some pk)
         else if prot = RESP_NIL then (if len \<noteq> 0 then None else Some pk)
         else if prot = RESP_BOOL then
           (if len \<noteq> 1 then None
            else if data ! 0 \<noteq> 116 \<and> data ! 0 \<noteq> 84 \<and> data ! 0 \<noteq> 102 \<and> data ! 0 \<noteq> 70 then None
            else if data ! 0 = 116 \<or> data ! 0 = 84 then Some (pk\<lparr>rp_ival := 1\<rparr>)
            else Some pk)
         else if prot = RESP_DOUBLE then
           (if len = 0 then None
            else if len = 3 \<and> same_text data [105, 110, 102] then Some (pk\<lparr>rp_dval := DInf\<rparr>)
            else if len = 4 \<and> same_text data [45, 105, 110, 102] then Some (pk\<lparr>rp_dval := DNegInf\<rparr>)
            else if len = 3 \<and> same_text data [110, 97, 110] \<or> len = 4 \<and> same_text data [45, 110, 97, 110]
            then Some (pk\<lparr>rp_dval := DNan\<rparr>)
            else map_option (\<lambda>d. pk\<lparr>rp_dval := DVal d\<rparr>) (strtod data))
         else Some pk)"

section \<open>The readers\<close>

text \<open>\<open>Some\<close> with \<open>True\<close> is \<open>ERR_OK\<close>, with \<open>False\<close> \<open>ERR_FAILED\<close>; \<open>hdr\<close> is the local copy of the first bytes.\<close>

type_synonym 'd reader_res = "(bool \<times> 'd redis_reader \<times> u32 \<times> buffer) option"

definition redis_take :: "'d redis_node \<Rightarrow> int \<Rightarrow> nat \<Rightarrow> 'd redis_reader \<Rightarrow> buffer \<Rightarrow> u32 \<Rightarrow> 'd reader_res" where
  "redis_take pk open del rd buf status =
     Option.bind (buffer_drain buf del) (\<lambda>(n, buf). assertab (n = del)
       (map_option (\<lambda>rd. (True, rd, status, buf)) (redis_add_node pk open rd)))"

definition redis_reader_line :: "(bytes \<Rightarrow> 'd option) \<Rightarrow> 'd redis_reader \<Rightarrow> u8 \<Rightarrow> buffer \<Rightarrow> bytes \<Rightarrow> u32 \<Rightarrow> 'd reader_res" where
  "redis_reader_line strtod rd prot buf hdr status =
     (let loc = redis_local_crlf hdr
      in Option.bind (case loc of Some pos \<Rightarrow> Some (Some pos, status, buf) | None \<Rightarrow> redis_find_crlf buf status)
        (\<lambda>(found, status, buf).
          case found of
            None \<Rightarrow> Some (False, rd, status, buf)
          | Some pos \<Rightarrow>
              if REDIS_MAX_LINE_LENS < pos then Some (False, rd, bit_set status PROT_ERROR, buf)
              else let rd = redis_node_new (PACK_SIZE + pos) rd; len = pos - 1
                   in Option.bind (if 0 < len then
                         (if loc \<noteq> None then Some (take len (drop 1 hdr), buf)
                          else map_option (\<lambda>(data, n, buf). (data, buf)) (buffer_copyout buf 1 len))
                       else Some ([], buf))
                     (\<lambda>(data, buf).
                       case redis_line_value strtod ((redis_node prot)\<lparr>rp_len := int len, rp_data := data\<rparr>) of
                         None \<Rightarrow> Some (False, rd, bit_set status PROT_ERROR, buf)
                       | Some pk \<Rightarrow> redis_take pk 0 (pos + 2) rd buf status)))"

text \<open>The \<open>blens + 2\<close> bytes behind the length line, taken from \<open>hdr\<close> if they are in it.\<close>

definition redis_bulk_value :: "u8 \<Rightarrow> int \<Rightarrow> bytes \<Rightarrow> 'd redis_node option" where
  "redis_bulk_value prot blens data =
     (let n = nat blens; pk = (redis_node prot)\<lparr>rp_data := data\<rparr>
      in if data ! n \<noteq> 13 \<or> data ! (n + 1) \<noteq> 10 then None
         else if prot = RESP_VERB then
           (if blens < 4 \<or> data ! 3 \<noteq> 58 then None
            else Some (pk\<lparr>rp_venc := take 3 data, rp_len := blens - 4, rp_data := take (n - 4) (drop 4 data)\<rparr>))
         else Some (pk\<lparr>rp_len := blens, rp_data := take n data\<rparr>))"

definition redis_reader_bulk :: "'d redis_reader \<Rightarrow> u8 \<Rightarrow> buffer \<Rightarrow> bytes \<Rightarrow> u32 \<Rightarrow> 'd reader_res" where
  "redis_reader_bulk rd prot buf hdr status =
     (case redis_head_len hdr status of
        (None, status) \<Rightarrow> Some (False, rd, status, buf)
      | (Some (pos, blens), status) \<Rightarrow>
          if blens = -1 then
            redis_take ((redis_node prot)\<lparr>rp_len := blens\<rparr>) 0 (pos + 2) (redis_node_new (PACK_SIZE + 1) rd) buf status
          else if REDIS_MAX_BULK_LENS < blens then Some (False, rd, bit_set status PROT_ERROR, buf)
          else let total = nat blens + pos + 4
               in if buffer_size buf < total
                  then Some (False, rd, bit_set status PROT_MOREDATA, buffer_want buf (total - buffer_size buf))
                  else let doff = pos + 2; dcopy = nat blens + 2; rd = redis_node_new (PACK_SIZE + dcopy) rd
                       in Option.bind (if total \<le> length hdr then Some (take dcopy (drop doff hdr), buf)
                            else map_option (\<lambda>(data, n, buf). (data, buf)) (buffer_copyout buf doff dcopy))
                          (\<lambda>(data, buf).
                            case redis_bulk_value prot blens data of
                              None \<Rightarrow> Some (False, rd, bit_set status PROT_ERROR, buf)
                            | Some pk \<Rightarrow> redis_take pk 0 total rd buf status))"

definition redis_reader_agg :: "'d redis_reader \<Rightarrow> u8 \<Rightarrow> buffer \<Rightarrow> bytes \<Rightarrow> u32 \<Rightarrow> 'd reader_res" where
  "redis_reader_agg rd prot buf hdr status =
     (case redis_head_len hdr status of
        (None, status) \<Rightarrow> Some (False, rd, status, buf)
      | (Some (pos, nelem), status) \<Rightarrow>
          if int INT32_MAX < nelem then Some (False, rd, bit_set status PROT_ERROR, buf)
          else let open = (if 0 < nelem then (if prot = RESP_ATTR \<or> prot = RESP_MAP then nelem * 2 else nelem) else 0)
               in if 0 < open \<and> REDIS_MAX_DEPTH \<le> length (rd_stack rd)
                  then Some (False, rd, bit_set status PROT_ERROR, buf)
                  else redis_take ((redis_node prot)\<lparr>rp_nelem := nelem\<rparr>) open (pos + 2)
                         (redis_node_new (PACK_SIZE + 1) rd) buf status)"

section \<open>Unpacking\<close>

type_synonym 'd unpack_res = "('d redis_node list option \<times> nat \<times> u32 \<times> 'd redis_reader \<times> buffer) option"

text \<open>The loop takes at least three bytes a round; out of fuel is \<open>None\<close>, as an abort is.\<close>

fun redis_loop :: "(bytes \<Rightarrow> 'd option) \<Rightarrow> nat \<Rightarrow> 'd redis_reader \<Rightarrow> buffer \<Rightarrow> u32 \<Rightarrow> 'd unpack_res" where
  "redis_loop strtod 0 rd buf status = None"
| "redis_loop strtod (Suc k) rd buf status =
     (if REDIS_MAX_NODES \<le> rd_count rd then Some (None, 0, bit_set status PROT_ERROR, rd, buf)
      else let n = buffer_size buf
           in if n < 1 + 2 then Some (None, 0, bit_set status PROT_MOREDATA, rd, buf)
              else Option.bind (buffer_copyout buf 0 (if REDIS_HDR_PEEK < n then REDIS_HDR_PEEK else n)) (\<lambda>(hdr, _, buf).
                let prot = hdr ! 0
                in if \<not> is_line prot \<and> \<not> is_bulk prot \<and> \<not> is_agg prot
                   then Some (None, 0, bit_set status PROT_ERROR, rd, buf)
                   else Option.bind
                     (if is_line prot then redis_reader_line strtod rd prot buf hdr status
                      else if is_bulk prot then redis_reader_bulk rd prot buf hdr status
                      else redis_reader_agg rd prot buf hdr status)
                     (\<lambda>(ok, rd, status, buf).
                       if \<not> ok then Some (None, 0, status, rd, buf)
                       else if rd_stack rd = [] then Some (Some (rd_nodes rd), rd_bytes rd, status, redis_new_reader, buf)
                       else redis_loop strtod k rd buf status)))"

definition redis_unpack :: "(bytes \<Rightarrow> 'd option) \<Rightarrow> buffer \<Rightarrow> 'd redis_reader option \<Rightarrow> u32 \<Rightarrow> 'd unpack_res" where
  "redis_unpack strtod buf ctx status =
     redis_loop strtod (Suc (buffer_size buf)) (case ctx of None \<Rightarrow> redis_new_reader | Some rd \<Rightarrow> rd) buf status"

text \<open>The row of the dispatch table.\<close>

definition redis_vtbl :: "(bytes \<Rightarrow> 'd option) \<Rightarrow> ('d redis_node list, 'd redis_reader option) prot_vtbl" where
  "redis_vtbl strtod =
     \<lparr>vt_unpack = Some (\<lambda>client b ud status.
        map_option (\<lambda>(r, size, status, rd, b). (map_option Obj r, size, status, ud\<lparr>ud_context := Some rd\<rparr>, b))
          (redis_unpack strtod b (ud_context ud) status)),
      vt_next_pack = None\<rparr>"

section \<open>Who may be resumed\<close>

text \<open>\<open>remain\<close> elements are still to be skipped.\<close>

fun redis_skip :: "int \<Rightarrow> 'd redis_node list \<Rightarrow> 'd redis_node list" where
  "redis_skip remain [] = []"
| "redis_skip remain (pk # pks) =
     (if 0 < remain \<or> rp_prot pk = RESP_ATTR then
        redis_skip
          (if rp_prot pk = RESP_ATTR then remain + (if 0 < rp_nelem pk then rp_nelem pk * 2 else 0)
           else remain - 1 +
             (if rp_prot pk \<in> {RESP_ARRAY, RESP_SET, RESP_PUSHE, RESP_MAP} \<and> 0 < rp_nelem pk
              then (if rp_prot pk = RESP_MAP then rp_nelem pk * 2 else rp_nelem pk) else 0)) pks
      else pk # pks)"

definition redis_skip_attr :: "'d redis_node list \<Rightarrow> 'd redis_node list" where
  "redis_skip_attr pks = redis_skip 0 pks"

definition redis_acks :: "bytes list" where
  "redis_acks = map (map of_char)
     [''subscribe'', ''psubscribe'', ''ssubscribe'', ''unsubscribe'', ''punsubscribe'', ''sunsubscribe'']"

definition redis_may_resume :: "'d redis_node list \<Rightarrow> bool" where
  "redis_may_resume pks =
     (case redis_skip_attr pks of
        [] \<Rightarrow> True
      | pk # rest \<Rightarrow>
          if rp_prot pk \<noteq> RESP_PUSHE then True
          else (case rest of
                  [] \<Rightarrow> False
                | kind # _ \<Rightarrow>
                    if rp_prot kind \<noteq> RESP_BSTRING \<and> rp_prot kind \<noteq> RESP_STRING then False
                    else list_ex (\<lambda>a. int (length a) = rp_len kind \<and> rp_data kind = a) redis_acks))"

end
