(* ===== verification/Redis_Frame.thy ===== *)
theory Redis_Frame
  imports Redis
begin

text \<open>
  The reference of the RESP parser: \<open>redis_elem\<close> says on the byte stream alone what the next element
  is, \<open>redis_go\<close> what the elements of a stream make of a reader, \<open>reply_frame\<close> where the first reply
  ends. The readers of \<open>Redis\<close>, which look at the buffer through a local copy and a search, agree
  with it; a reply that arrives in pieces is continued where it stopped.
\<close>

section \<open>Line ends\<close>

definition line_end :: "bytes \<Rightarrow> nat \<Rightarrow> bool" where
  "line_end s p \<longleftrightarrow> 1 \<le> p \<and> Suc p < length s \<and> s ! p = 13 \<and> s ! Suc p = 10"

lemma crlf_from_Some:
  "crlf_from i s = Some p \<longleftrightarrow> (\<exists>k. p = i + k \<and> Suc k < length s \<and> s ! k = 13 \<and> s ! Suc k = 10 \<and>
     (\<forall>q<k. \<not> (s ! q = 13 \<and> s ! Suc q = 10)))"
proof (induction i s arbitrary: p rule: crlf_from.induct)
  case (1 i a b s)
  show ?case
  proof (cases "a = 13 \<and> b = 10")
    case True
    have "k = 0" if "\<forall>q<k. \<not> ((a # b # s) ! q = 13 \<and> (a # b # s) ! Suc q = 10)" for k
      using that True by (cases k) auto
    then have "(\<exists>k. p = i + k \<and> Suc k < length (a # b # s) \<and> (a # b # s) ! k = 13 \<and> (a # b # s) ! Suc k = 10 \<and>
        (\<forall>q<k. \<not> ((a # b # s) ! q = 13 \<and> (a # b # s) ! Suc q = 10))) \<longleftrightarrow> p = i"
      using True by (metis add_0_right length_Cons less_nat_zero_code nth_Cons_0 nth_Cons_Suc zero_less_Suc Suc_less_eq)
    with True show ?thesis by auto
  next
    case False
    then have "crlf_from i (a # b # s) = Some p \<longleftrightarrow> (\<exists>k. p = i + 1 + k \<and> Suc k < length (b # s) \<and> (b # s) ! k = 13 \<and>
        (b # s) ! Suc k = 10 \<and> (\<forall>q<k. \<not> ((b # s) ! q = 13 \<and> (b # s) ! Suc q = 10)))"
      using 1 by auto
    also have "\<dots> \<longleftrightarrow> (\<exists>k. p = i + k \<and> Suc k < length (a # b # s) \<and> (a # b # s) ! k = 13 \<and> (a # b # s) ! Suc k = 10 \<and>
        (\<forall>q<k. \<not> ((a # b # s) ! q = 13 \<and> (a # b # s) ! Suc q = 10)))" (is "?L \<longleftrightarrow> ?R")
    proof
      assume ?L
      then obtain k where "p = i + 1 + k" "Suc k < length (b # s)" "(b # s) ! k = 13" "(b # s) ! Suc k = 10"
        "\<forall>q<k. \<not> ((b # s) ! q = 13 \<and> (b # s) ! Suc q = 10)" by blast
      with False show ?R by (intro exI [of _ "Suc k"]) (auto simp: less_Suc_eq_0_disj)
    next
      assume ?R
      then obtain k where k: "p = i + k" "Suc k < length (a # b # s)" "(a # b # s) ! k = 13" "(a # b # s) ! Suc k = 10"
        "\<forall>q<k. \<not> ((a # b # s) ! q = 13 \<and> (a # b # s) ! Suc q = 10)" by blast
      then obtain j where "k = Suc j" using False by (cases k) auto
      with k show ?L by (intro exI [of _ j]) auto
    qed
    finally show ?thesis .
  qed
qed auto

definition crlf_at :: "bytes \<Rightarrow> nat option" where
  "crlf_at s = crlf_from 1 (drop 1 s)"

lemma crlf_at_Some: "crlf_at s = Some p \<longleftrightarrow> line_end s p \<and> (\<forall>q<p. \<not> line_end s q)"
proof
  assume "crlf_at s = Some p"
  then obtain k where k: "p = 1 + k" "Suc k < length (drop 1 s)" "drop 1 s ! k = 13" "drop 1 s ! Suc k = 10"
    "\<forall>q<k. \<not> (drop 1 s ! q = 13 \<and> drop 1 s ! Suc q = 10)" unfolding crlf_at_def crlf_from_Some by blast
  have "\<not> line_end s q" if "q < p" for q
    using k(2,5) that k(1) by (cases q) (auto simp: line_end_def)
  with k show "line_end s p \<and> (\<forall>q<p. \<not> line_end s q)" by (simp add: line_end_def)
next
  assume a: "line_end s p \<and> (\<forall>q<p. \<not> line_end s q)"
  then obtain k where k: "p = Suc k" by (cases p) (auto simp: line_end_def)
  have "\<not> (drop 1 s ! q = 13 \<and> drop 1 s ! Suc q = 10)" if "q < k" for q
  proof -
    have "\<not> line_end s (Suc q)" using a that k by blast
    with a that k show ?thesis by (simp add: line_end_def)
  qed
  moreover have "Suc (Suc k) < length s" "s ! Suc k = 13" "s ! Suc (Suc k) = 10" using a k by (simp_all add: line_end_def)
  ultimately show "crlf_at s = Some p" unfolding crlf_at_def crlf_from_Some k
    by (intro exI [of _ k]) auto
qed

lemma crlf_at_None: "crlf_at s = None \<longleftrightarrow> (\<forall>p. \<not> line_end s p)"
proof (cases "\<exists>p. line_end s p")
  case True
  define q where "q = (LEAST p. line_end s p)"
  have "line_end s q" unfolding q_def using True by (rule LeastI_ex)
  moreover have "\<forall>p<q. \<not> line_end s p" unfolding q_def using not_less_Least by blast
  ultimately have "crlf_at s = Some q" by (simp add: crlf_at_Some)
  with True show ?thesis by simp
next
  case False
  then have "crlf_at s \<noteq> Some p" for p unfolding crlf_at_Some by blast
  with False show ?thesis by (cases "crlf_at s") auto
qed

lemma line_end_append: "Suc p < length s \<Longrightarrow> line_end (s @ r) p \<longleftrightarrow> line_end s p"
  by (auto simp: line_end_def nth_append)

lemma crlf_at_append: "crlf_at s = Some p \<Longrightarrow> crlf_at (s @ r) = Some p"
  unfolding crlf_at_Some using line_end_append
  by (metis (no_types, lifting) Suc_less_eq less_SucI less_trans_Suc line_end_def)

lemma crlf_at_take:
  "crlf_at (take n s) = (case crlf_at s of Some p \<Rightarrow> if Suc p < n then Some p else None | None \<Rightarrow> None)"
proof -
  have le: "line_end (take n s) p \<longleftrightarrow> line_end s p \<and> Suc p < n" for p
    by (auto simp: line_end_def)
  show ?thesis
  proof (cases "crlf_at s")
    case None
    then have "crlf_at (take n s) = None" using le by (simp add: crlf_at_None)
    with None show ?thesis by simp
  next
    case (Some p)
    then have p: "line_end s p" "\<forall>q<p. \<not> line_end s q" by (simp_all add: crlf_at_Some)
    show ?thesis
    proof (cases "Suc p < n")
      case True
      with p le have "crlf_at (take n s) = Some p" by (simp add: crlf_at_Some)
      with True Some show ?thesis by simp
    next
      case False
      have "\<not> (line_end s q \<and> Suc q < n)" for q using p(2) False by (cases "q < p") auto
      then have "crlf_at (take n s) = None" by (simp add: crlf_at_None le)
      with False Some show ?thesis by simp
    qed
  qed
qed

lemma crlf_search: "s \<noteq> [] \<Longrightarrow> s ! 0 \<noteq> 13 \<Longrightarrow> first_occ False s FLAG_CRLF 0 = crlf_at s"
proof -
  assume s: "s \<noteq> []" "s ! 0 \<noteq> 13"
  have oc: "occurs_at False s FLAG_CRLF p \<longleftrightarrow> line_end s p" for p
  proof -
    have "occurs_at False s FLAG_CRLF p \<longleftrightarrow> Suc p < length s \<and> s ! p = 13 \<and> s ! Suc p = 10"
      by (auto simp: occurs_at_def FLAG_CRLF_def fold_eq_def less_2_cases_iff numeral_2_eq_2 less_Suc_eq)
    moreover have "p = 0 \<Longrightarrow> s ! p \<noteq> 13" using s(2) by simp
    ultimately show ?thesis by (cases p) (auto simp: line_end_def)
  qed
  show ?thesis
  proof (cases "crlf_at s")
    case None
    then have "first_occ False s FLAG_CRLF 0 = None" by (simp add: crlf_at_None first_occ_eq_None oc)
    with None show ?thesis by simp
  next
    case (Some p)
    moreover have "0 < length FLAG_CRLF" by (simp add: FLAG_CRLF_def)
    ultimately have "first_occ False s FLAG_CRLF 0 = Some p" by (simp add: crlf_at_Some first_occ_eq_Some oc)
    with Some show ?thesis by simp
  qed
qed

section \<open>Elements\<close>

text \<open>The next element: its node, how many elements it opens, and the bytes its node takes.\<close>

definition bulk_head :: "bytes \<Rightarrow> (nat \<times> int) frame_res" where
  "bulk_head s =
     (case crlf_at (take REDIS_HDR_PEEK s) of
        None \<Rightarrow> if length s < REDIS_HDR_PEEK then More else Bad
      | Some p \<Rightarrow> (case redis_parse_num (take (p - 1) (drop 1 s)) of None \<Rightarrow> Bad | Some v \<Rightarrow> Frame (p, v) (p + 2)))"

definition line_elem :: "(bytes \<Rightarrow> 'd option) \<Rightarrow> bytes \<Rightarrow> ('d redis_node \<times> int \<times> nat) frame_res" where
  "line_elem strtod s =
     (case crlf_at s of
        None \<Rightarrow> if 65536 < length s then Bad else More
      | Some p \<Rightarrow>
          if 65535 < p then Bad
          else (case redis_line_value strtod ((redis_node (s ! 0))\<lparr>rp_len := int (p - 1), rp_data := take (p - 1) (drop 1 s)\<rparr>) of
                  None \<Rightarrow> Bad
                | Some pk \<Rightarrow> Frame (pk, 0, 48 + p) (p + 2)))"

definition bulk_elem :: "bytes \<Rightarrow> ('d redis_node \<times> int \<times> nat) frame_res" where
  "bulk_elem s =
     (case bulk_head s of
        More \<Rightarrow> More
      | Bad \<Rightarrow> Bad
      | Frame (p, v) k \<Rightarrow>
          if v = -1 then Frame ((redis_node (s ! 0))\<lparr>rp_len := -1\<rparr>, 0, 49) (p + 2)
          else if 536870912 < v then Bad
          else if length s < nat v + p + 4 then More
          else (case redis_bulk_value (s ! 0) v (take (nat v + 2) (drop (p + 2) s)) of
                  None \<Rightarrow> Bad
                | Some pk \<Rightarrow> Frame (pk, 0, 50 + nat v) (nat v + p + 4)))"

definition agg_elem :: "bytes \<Rightarrow> ('d redis_node \<times> int \<times> nat) frame_res" where
  "agg_elem s =
     (case bulk_head s of
        More \<Rightarrow> More
      | Bad \<Rightarrow> Bad
      | Frame (p, v) k \<Rightarrow>
          if int INT32_MAX < v then Bad
          else Frame ((redis_node (s ! 0))\<lparr>rp_nelem := v\<rparr>,
                 if 0 < v then (if s ! 0 = RESP_ATTR \<or> s ! 0 = RESP_MAP then v * 2 else v) else 0, 49) (p + 2))"

definition redis_elem :: "(bytes \<Rightarrow> 'd option) \<Rightarrow> bytes \<Rightarrow> ('d redis_node \<times> int \<times> nat) frame_res" where
  "redis_elem strtod s =
     (if length s < 3 then More
      else if is_line (s ! 0) then line_elem strtod s
      else if is_bulk (s ! 0) then bulk_elem s
      else if is_agg (s ! 0) then agg_elem s
      else Bad)"

lemma bulk_head_is:
  "crlf_at (take 66 s) = Some p \<Longrightarrow> bulk_head s = (case redis_parse_num (take (p - 1) (drop 1 s)) of None \<Rightarrow> Bad | Some v \<Rightarrow> Frame (p, v) (p + 2))"
  "crlf_at (take 66 s) = None \<Longrightarrow> bulk_head s = (if length s < 66 then More else Bad)"
  by (simp_all add: bulk_head_def REDIS_HDR_PEEK_def REDIS_NUM_CAP_def)

lemma front_same: "k + m \<le> n \<Longrightarrow> n \<le> length s \<Longrightarrow> take m (drop k (take n s @ r)) = take m (drop k s)"
proof -
  assume "k + m \<le> n" "n \<le> length s"
  then have "take m (drop k (take n s @ r)) = take m (take (n - k) (drop k s))" by (simp add: drop_take)
  also have "\<dots> = take m (drop k s)" using \<open>k + m \<le> n\<close> by (simp add: min_def)
  finally show ?thesis .
qed

lemma bulk_head_Frame:
  assumes "bulk_head s = Frame (p, v) k"
  shows "k = p + 2" "1 \<le> p" "p + 2 \<le> length s" "p + 2 \<le> 66" "-1 \<le> v" "bulk_head (take (p + 2) s @ r) = Frame (p, v) (p + 2)"
proof -
  from assms have c: "crlf_at (take 66 s) = Some p" "redis_parse_num (take (p - 1) (drop 1 s)) = Some v" "k = p + 2"
    by (cases "crlf_at (take 66 s)"; auto simp: bulk_head_is split: option.splits if_splits)+
  then show k: "k = p + 2" by simp
  have le: "line_end (take 66 s) p" using c(1) by (simp add: crlf_at_Some)
  then show p: "1 \<le> p" "p + 2 \<le> length s" "p + 2 \<le> 66" by (auto simp: line_end_def)
  show "-1 \<le> v" using c(2) by (auto simp: redis_parse_num_def split: if_splits bind_splits)
  have "crlf_at (take (p + 2) (take 66 s)) = Some p" using c(1) crlf_at_take [of "p + 2" "take 66 s"] by simp
  then have "crlf_at (take (p + 2) s) = Some p" using p(3) by (simp add: min_def)
  then have "crlf_at (take (p + 2) s @ r) = Some p" by (rule crlf_at_append)
  then have "crlf_at (take 66 (take (p + 2) s @ r)) = Some p" using p(3) crlf_at_take [of 66 "take (p + 2) s @ r"] by simp
  moreover have "take (p - 1) (drop 1 (take (p + 2) s @ r)) = take (p - 1) (drop 1 s)"
    by (rule front_same) (use p in simp_all)
  ultimately show "bulk_head (take (p + 2) s @ r) = Frame (p, v) (p + 2)"
    using c(2) by (simp only: bulk_head_is(1) option.case)
qed

lemma bulk_head_Bad:
  assumes "bulk_head s = Bad"
  shows "bulk_head (s @ r) = Bad"
proof (cases "crlf_at (take 66 s)")
  case None
  with assms have "66 \<le> length s" by (simp add: bulk_head_is split: if_splits)
  then have "crlf_at (take 66 (s @ r)) = None" "\<not> length (s @ r) < 66" using None by simp_all
  then show ?thesis by (simp only: bulk_head_is(2) if_False)
next
  case (Some p)
  have "line_end (take 66 s) p" using Some by (simp add: crlf_at_Some)
  then have p: "1 \<le> p" "p + 1 < length s" by (auto simp: line_end_def)
  have "crlf_at (take 66 s @ take (66 - length s) r) = Some p" using Some by (rule crlf_at_append)
  then have "crlf_at (take 66 (s @ r)) = Some p" by simp
  moreover have "take (p - 1) (drop 1 (s @ r)) = take (p - 1) (drop 1 s)" using p by simp
  moreover have "redis_parse_num (take (p - 1) (drop 1 s)) = None"
    using assms Some by (simp add: bulk_head_is split: option.splits)
  ultimately show ?thesis by (simp only: bulk_head_is(1) option.case)
qed

lemma front_first: "0 < n \<Longrightarrow> n \<le> length s \<Longrightarrow> (take n s @ r) ! 0 = s ! 0"
  by (subst nth_append) auto

lemma append_first: "0 < length s \<Longrightarrow> (s @ r) ! 0 = s ! 0"
  by (subst nth_append) auto

text \<open>An element lies in its own bytes: what follows does not matter.\<close>

lemma line_elem_Frame:
  assumes "line_elem strtod s = Frame x n"
  shows "3 \<le> n" "n \<le> length s" "line_elem strtod (take n s @ r) = Frame x n"
proof -
  from assms obtain p where p: "crlf_at s = Some p" "p \<le> 65535" "n = p + 2"
    "line_elem strtod s = (case redis_line_value strtod ((redis_node (s ! 0))\<lparr>rp_len := int (p - 1), rp_data := take (p - 1) (drop 1 s)\<rparr>) of
                  None \<Rightarrow> Bad
                | Some pk \<Rightarrow> Frame (pk, 0, 48 + p) (p + 2))"
    by (auto simp: line_elem_def split: option.splits if_splits)
  have "line_end s p" using p(1) by (simp add: crlf_at_Some)
  then have le: "1 \<le> p" "Suc p < length s" by (auto simp: line_end_def)
  then show "3 \<le> n" "n \<le> length s" using p(3) by simp_all
  have "crlf_at (take (p + 2) s) = Some p" using p(1) crlf_at_take [of "p + 2" s] by simp
  then have "crlf_at (take n s @ r) = Some p" unfolding p(3) by (rule crlf_at_append)
  moreover have "take (p - 1) (drop 1 (take n s @ r)) = take (p - 1) (drop 1 s)" "(take n s @ r) ! 0 = s ! 0"
    by (rule front_same, use le p(3) in simp_all) (rule front_first, use le p(3) in simp_all)
  ultimately show "line_elem strtod (take n s @ r) = Frame x n" using p assms by (simp add: line_elem_def)
qed

lemma line_elem_Bad: "line_elem strtod s = Bad \<Longrightarrow> s \<noteq> [] \<Longrightarrow> line_elem strtod (s @ r) = Bad"
proof (cases "crlf_at s")
  case None
  assume "line_elem strtod s = Bad" "s \<noteq> []"
  with None have long: "65536 < length s" by (auto simp: line_elem_def split: if_splits)
  show ?thesis
  proof (cases "crlf_at (s @ r)")
    case (Some p)
    then have "line_end (s @ r) p" by (simp add: crlf_at_Some)
    moreover have "\<not> line_end s p" using None by (simp add: crlf_at_None)
    ultimately have "\<not> Suc p < length s" using line_end_append by blast
    with long Some show ?thesis by (simp add: line_elem_def)
  qed (use long in \<open>simp add: line_elem_def\<close>)
next
  case (Some p)
  assume bad: "line_elem strtod s = Bad" and "s \<noteq> []"
  have "line_end s p" using Some by (simp add: crlf_at_Some)
  then have "1 \<le> p" "Suc p < length s" by (auto simp: line_end_def)
  then have "take (p - 1) (drop 1 (s @ r)) = take (p - 1) (drop 1 s)" "(s @ r) ! 0 = s ! 0"
    by (simp, intro append_first) auto
  with bad Some crlf_at_append [OF Some, of r] show ?thesis
    by (simp add: line_elem_def split: option.splits if_splits del: drop_append take_append)
qed

lemma bulk_elem_Frame:
  assumes "bulk_elem s = Frame x n"
  shows "3 \<le> n" "n \<le> length s" "bulk_elem (take n s @ r) = Frame x n"
proof -
  obtain p v where h: "bulk_head s = Frame (p, v) (p + 2)"
    using assms that bulk_head_Frame(1) by (cases "bulk_head s") (fastforce simp: bulk_elem_def)+
  note f = bulk_head_Frame [OF h]
  have n: "n = (if v = -1 then p + 2 else nat v + p + 4)" "n \<le> length s"
    using assms h f(3) by (auto simp: bulk_elem_def split: if_splits option.splits)
  with f show "3 \<le> n" "n \<le> length s" by auto
  have "p + 2 \<le> n" using n(1) by auto
  then have "take n s @ r = take (p + 2) s @ (drop (p + 2) (take n s) @ r)" by (metis append.assoc append_take_drop_id min.absorb1 take_take)
  then have h': "bulk_head (take n s @ r) = Frame (p, v) (p + 2)" using f(6) by metis
  have "(take n s @ r) ! 0 = s ! 0" by (rule front_first) (use \<open>3 \<le> n\<close> n(2) in simp_all)
  moreover have "take (nat v + 2) (drop (p + 2) (take n s @ r)) = take (nat v + 2) (drop (p + 2) s)" if "v \<noteq> -1"
    by (rule front_same) (use n that in simp_all)
  ultimately show "bulk_elem (take n s @ r) = Frame x n"
    using assms h h' n by (auto simp: bulk_elem_def split: if_splits option.splits)
qed

lemma bulk_elem_Bad:
  assumes bad: "bulk_elem s = (Bad :: ('d redis_node \<times> int \<times> nat) frame_res)"
  shows "bulk_elem (s @ r) = (Bad :: ('d redis_node \<times> int \<times> nat) frame_res)"
proof (cases "bulk_head s")
  case Bad
  then show ?thesis by (simp add: bulk_elem_def bulk_head_Bad)
next
  case (Frame x k)
  obtain p v where x: "x = (p, v)" by fastforce
  note f = bulk_head_Frame [OF Frame [unfolded x]]
  have "s @ r = take (p + 2) s @ (drop (p + 2) s @ r)" by simp
  then have h': "bulk_head (s @ r) = Frame (p, v) (p + 2)" using f(6) by metis
  have "(s @ r) ! 0 = s ! 0" by (rule append_first) (use f(3) in auto)
  moreover have "take (nat v + 2) (drop (p + 2) (s @ r)) = take (nat v + 2) (drop (p + 2) s)" if "nat v + p + 4 \<le> length s"
    using that by simp
  ultimately show ?thesis using bad Frame x h'
    by (simp add: bulk_elem_def split: if_splits option.splits del: drop_append take_append)
qed (use assms in \<open>simp add: bulk_elem_def\<close>)

lemma agg_elem_Frame:
  assumes "agg_elem s = Frame x n"
  shows "3 \<le> n" "n \<le> length s" "agg_elem (take n s @ r) = Frame x n"
proof -
  obtain p v where h1: "bulk_head s = Frame (p, v) (p + 2)"
    using assms that bulk_head_Frame(1) by (cases "bulk_head s") (fastforce simp: agg_elem_def)+
  with assms have h: "bulk_head s = Frame (p, v) (p + 2)" "n = p + 2" by (simp_all add: agg_elem_def split: if_splits)
  note f = bulk_head_Frame [OF h(1)]
  then show "3 \<le> n" "n \<le> length s" using h(2) by auto
  have "(take n s @ r) ! 0 = s ! 0" by (rule front_first) (use \<open>3 \<le> n\<close> \<open>n \<le> length s\<close> in simp_all)
  with assms h f(6) [of r] show "agg_elem (take n s @ r) = Frame x n"
    by (auto simp: agg_elem_def split: if_splits)
qed

lemma agg_elem_Bad:
  assumes bad: "agg_elem s = (Bad :: ('d redis_node \<times> int \<times> nat) frame_res)"
  shows "agg_elem (s @ r) = (Bad :: ('d redis_node \<times> int \<times> nat) frame_res)"
proof (cases "bulk_head s")
  case Bad
  then show ?thesis by (simp add: agg_elem_def bulk_head_Bad)
next
  case (Frame x k)
  obtain p v where x: "x = (p, v)" by fastforce
  note f = bulk_head_Frame [OF Frame [unfolded x]]
  have "s @ r = take (p + 2) s @ (drop (p + 2) s @ r)" by simp
  then have h': "bulk_head (s @ r) = Frame (p, v) (p + 2)" using f(6) by metis
  have "(s @ r) ! 0 = s ! 0" by (rule append_first) (use f(3) in auto)
  then show ?thesis using bad Frame x h' by (auto simp: agg_elem_def split: if_splits)
qed (use assms in \<open>simp add: agg_elem_def\<close>)

lemma redis_elem_Frame:
  assumes "redis_elem strtod s = Frame x n"
  shows "3 \<le> n" "n \<le> length s" "redis_elem strtod (take n s @ r) = Frame x n"
proof -
  let ?c = "\<lambda>e. 3 \<le> n \<and> n \<le> length s \<and> e (take n s @ r) = Frame x n"
  have t: "\<not> length s < 3" using assms by (auto simp: redis_elem_def)
  consider (line) "is_line (s ! 0)" "line_elem strtod s = Frame x n"
    | (bulk) "\<not> is_line (s ! 0)" "is_bulk (s ! 0)" "bulk_elem s = Frame x n"
    | (agg) "\<not> is_line (s ! 0)" "\<not> is_bulk (s ! 0)" "is_agg (s ! 0)" "agg_elem s = Frame x n"
    using assms t by (auto simp: redis_elem_def split: if_splits)
  then have "3 \<le> n \<and> n \<le> length s \<and> redis_elem strtod (take n s @ r) = Frame x n"
  proof cases
    case line
    from line_elem_Frame(1,2) [OF line(2)] line_elem_Frame(3) [OF line(2), of r] line(1) show ?thesis by (simp add: redis_elem_def front_first)
  next
    case bulk
    from bulk_elem_Frame(1,2) [OF bulk(3)] bulk_elem_Frame(3) [OF bulk(3), of r] bulk(1,2) show ?thesis by (simp add: redis_elem_def front_first)
  next
    case agg
    from agg_elem_Frame(1,2) [OF agg(4)] agg_elem_Frame(3) [OF agg(4), of r] agg(1-3) show ?thesis by (simp add: redis_elem_def front_first)
  qed
  then show "3 \<le> n" "n \<le> length s" "redis_elem strtod (take n s @ r) = Frame x n" by simp_all
qed

interpretation redis_el: framing "redis_elem strtod" for strtod
proof
  fix s r :: bytes and m :: "'a redis_node \<times> int \<times> nat" and n
  show "0 < n \<and> n \<le> length s" if "redis_elem strtod s = Frame m n" using redis_elem_Frame(1,2) [OF that] by simp
  show "redis_elem strtod (s @ r) = Frame m n" if "redis_elem strtod s = Frame m n"
    using redis_elem_Frame(3) [OF that, of "drop n s @ r"] by (metis append.assoc append_take_drop_id)
  show "redis_elem strtod (s @ r) = Bad" if "redis_elem strtod s = Bad"
  proof -
    have t: "\<not> length s < 3" "(s @ r) ! 0 = s ! 0" "s \<noteq> []" using that by (auto simp: redis_elem_def nth_append)
    with that line_elem_Bad [of strtod s r] bulk_elem_Bad [of s r] agg_elem_Bad [of s r] show ?thesis
      by (auto simp: redis_elem_def split: if_splits)
  qed
qed

section \<open>Replies\<close>

text \<open>
  What the elements at the front of a stream make of a reader: it waits for more with the bytes it
  could not use, meets an error, or the reply is complete.
\<close>

datatype 'd reply_res = RMore "'d redis_reader" bytes | RBad | RDone "'d redis_node list" nat bytes

text \<open>The reader after an element, \<open>None\<close> if there is no room for another open aggregate.\<close>

definition reply_add :: "'d redis_node \<times> int \<times> nat \<Rightarrow> 'd redis_reader \<Rightarrow> 'd redis_reader option" where
  "reply_add x rd =
     (case x of (pk, open, sz) \<Rightarrow>
        if 0 < open \<and> 18 \<le> length (rd_stack rd) then None
        else Some \<lparr>rd_count = rd_count rd + 1, rd_nodes = rd_nodes rd @ [pk], rd_bytes = rd_bytes rd + sz,
          rd_stack = (if 0 < open then \<lparr>fr_attr = (rp_prot pk = RESP_ATTR), fr_remain = open\<rparr> # rd_stack rd
                      else if rp_prot pk = RESP_ATTR then rd_stack rd else redis_consume (rd_stack rd))\<rparr>)"

function (sequential) redis_go :: "(bytes \<Rightarrow> 'd option) \<Rightarrow> 'd redis_reader \<Rightarrow> bytes \<Rightarrow> 'd reply_res" where
  "redis_go strtod rd s =
     (if 262144 \<le> rd_count rd then RBad
      else case redis_elem strtod s of
             More \<Rightarrow> RMore rd s
           | Bad \<Rightarrow> RBad
           | Frame x n \<Rightarrow>
               (case reply_add x rd of
                  None \<Rightarrow> RBad
                | Some rd' \<Rightarrow> if rd_stack rd' = [] then RDone (rd_nodes rd') (rd_bytes rd') (drop n s)
                              else redis_go strtod rd' (drop n s)))"
  by pat_completeness auto
termination
  by (relation "measure (\<lambda>(strtod, rd, s). length s)") (auto dest: redis_el.frame_size)

declare redis_go.simps [simp del]

lemma go_induct [case_names full more bad deep complete step]:
  assumes "\<And>rd s. 262144 \<le> rd_count rd \<Longrightarrow> P rd s"
    and "\<And>rd s. rd_count rd < 262144 \<Longrightarrow> redis_elem strtod s = More \<Longrightarrow> P rd s"
    and "\<And>rd s. rd_count rd < 262144 \<Longrightarrow> redis_elem strtod s = Bad \<Longrightarrow> P rd s"
    and "\<And>rd s x n. rd_count rd < 262144 \<Longrightarrow> redis_elem strtod s = Frame x n \<Longrightarrow> reply_add x rd = None \<Longrightarrow> P rd s"
    and "\<And>rd s x n rd'. rd_count rd < 262144 \<Longrightarrow> redis_elem strtod s = Frame x n \<Longrightarrow> reply_add x rd = Some rd' \<Longrightarrow>
      rd_stack rd' = [] \<Longrightarrow> P rd s"
    and "\<And>rd s x n rd'. rd_count rd < 262144 \<Longrightarrow> redis_elem strtod s = Frame x n \<Longrightarrow> reply_add x rd = Some rd' \<Longrightarrow>
      rd_stack rd' \<noteq> [] \<Longrightarrow> P rd' (drop n s) \<Longrightarrow> P rd s"
  shows "P rd s"
proof (induction "length s" arbitrary: rd s rule: less_induct)
  case less
  show ?case
  proof (cases "262144 \<le> rd_count rd")
    case True
    then show ?thesis by (rule assms(1))
  next
    case False
    then have c: "rd_count rd < 262144" by simp
    show ?thesis
    proof (cases "redis_elem strtod s")
      case (Frame x n)
      have sz: "length (drop n s) < length s" using redis_el.frame_size [OF Frame] by auto
      show ?thesis
      proof (cases "reply_add x rd")
        case None
        with assms(4) [OF c Frame] show ?thesis .
      next
        case (Some rd')
        with assms(5) [OF c Frame Some] assms(6) [OF c Frame Some _ less [OF sz]] show ?thesis by blast
      qed
    qed (use assms(2,3) [OF c] in blast)+
  qed
qed

text \<open>What has been used up stays used up: a stream that goes on is continued from where it stopped.\<close>

lemma go_append:
  "redis_go strtod rd (s @ r) =
     (case redis_go strtod rd s of
        RMore rd' s' \<Rightarrow> redis_go strtod rd' (s' @ r)
      | RBad \<Rightarrow> RBad
      | RDone nodes sz s' \<Rightarrow> RDone nodes sz (s' @ r))"
proof (induction rd s rule: go_induct [of _ strtod])
  case (full rd s)
  then show ?case by (simp add: redis_go.simps)
next
  case (more rd s)
  then show ?case by (simp add: redis_go.simps [of strtod rd s])
next
  case (bad rd s)
  with redis_el.bad_extend [OF bad(2), of r] show ?case by (simp add: redis_go.simps)
next
  case (deep rd s x n)
  with redis_el.frame_extend [OF deep(2), of r] show ?case by (simp add: redis_go.simps)
next
  case (complete rd s x n rd')
  have "drop n (s @ r) = drop n s @ r" using redis_el.frame_size [OF complete(2)] by simp
  with complete redis_el.frame_extend [OF complete(2), of r] show ?case
    by (simp add: redis_go.simps del: drop_append)
next
  case (step rd s x n rd')
  have "drop n (s @ r) = drop n s @ r" using redis_el.frame_size [OF step(2)] by simp
  with step redis_el.frame_extend [OF step(2), of r] show ?case
    by (simp add: redis_go.simps [of strtod rd] del: drop_append)
qed

text \<open>The bytes used up lead from one reader to the other, and the reply's bytes to the reply.\<close>

lemma go_used:
  "(redis_go strtod rd s = RMore rd' s' \<longrightarrow> (\<exists>c. s = c @ s' \<and> redis_go strtod rd c = RMore rd' [])) \<and>
   (redis_go strtod rd s = RDone nodes sz s' \<longrightarrow> (\<exists>c. s = c @ s' \<and> 3 \<le> length c \<and> redis_go strtod rd c = RDone nodes sz [])) \<and>
   (redis_go strtod rd s = RMore rd' s' \<longrightarrow> redis_go strtod rd' s' = RMore rd' s')"
proof (induction rd s rule: go_induct [of _ strtod])
  case (full rd s)
  then show ?case by (simp add: redis_go.simps)
next
  case (more rd s)
  have "redis_elem strtod [] = More" by (simp add: redis_elem_def)
  with more show ?case by (auto simp: redis_go.simps)
next
  case (bad rd s)
  then show ?case by (simp add: redis_go.simps)
next
  case (deep rd s x n)
  then show ?case by (simp add: redis_go.simps)
next
  case (complete rd s x n rd1)
  have self: "redis_elem strtod (take n s) = Frame x n" using redis_elem_Frame(3) [OF complete(2), of "[]"] by simp
  have n: "3 \<le> n" "n \<le> length s" using redis_elem_Frame(1,2) [OF complete(2)] by simp_all
  have "redis_go strtod rd (take n s) = RDone (rd_nodes rd1) (rd_bytes rd1) []"
    using complete self n by (simp add: redis_go.simps)
  moreover have "redis_go strtod rd s = RDone (rd_nodes rd1) (rd_bytes rd1) (drop n s)"
    using complete by (simp add: redis_go.simps)
  ultimately show ?case using n by (auto intro!: exI [of _ "take n s"])
next
  case (step rd s x n rd1)
  have self: "redis_elem strtod (take n s @ c) = Frame x n" for c using redis_elem_Frame(3) [OF step(2)] .
  have n: "3 \<le> n" "n \<le> length s" using redis_elem_Frame(1,2) [OF step(2)] by simp_all
  have e: "redis_go strtod rd s = redis_go strtod rd1 (drop n s)" using step(1-4) by (simp add: redis_go.simps [of strtod rd])
  have c: "redis_go strtod rd (take n s @ c) = redis_go strtod rd1 c" for c
    using step(1,3,4) self [of c] n by (simp add: redis_go.simps [of strtod rd])
  show ?case
  proof (intro conjI impI)
    assume "redis_go strtod rd s = RMore rd' s'"
    then obtain c where "drop n s = c @ s'" "redis_go strtod rd1 c = RMore rd' []" using step(5) e by auto
    with c n show "\<exists>c. s = c @ s' \<and> redis_go strtod rd c = RMore rd' []"
      by (intro exI [of _ "take n s @ c"]) (metis append.assoc append_take_drop_id)
  next
    assume "redis_go strtod rd s = RDone nodes sz s'"
    then obtain c where "drop n s = c @ s'" "redis_go strtod rd1 c = RDone nodes sz []" using step(5) e by auto
    with c n show "\<exists>c. s = c @ s' \<and> 3 \<le> length c \<and> redis_go strtod rd c = RDone nodes sz []"
      by (intro exI [of _ "take n s @ c"]) (metis append.assoc append_take_drop_id length_append length_take min.absorb2 trans_le_add1)
  next
    assume "redis_go strtod rd s = RMore rd' s'"
    then show "redis_go strtod rd' s' = RMore rd' s'" using step(5) e by simp
  qed
qed

text \<open>The first reply of a stream as a framing.\<close>

definition reply_frame :: "(bytes \<Rightarrow> 'd option) \<Rightarrow> bytes \<Rightarrow> 'd redis_node list frame_res" where
  "reply_frame strtod s =
     (case redis_go strtod redis_new_reader s of
        RMore rd s' \<Rightarrow> More
      | RBad \<Rightarrow> Bad
      | RDone nodes sz s' \<Rightarrow> Frame nodes (length s - length s'))"

lemma reply_frame_Frame:
  assumes "reply_frame strtod s = Frame m n"
  obtains sz s' where "redis_go strtod redis_new_reader s = RDone m sz s'" "n = length s - length s'" "s' = drop n s" "0 < n" "n \<le> length s"
proof -
  obtain sz s' where g: "redis_go strtod redis_new_reader s = RDone m sz s'" "n = length s - length s'"
    using assms by (auto simp: reply_frame_def split: reply_res.splits)
  obtain c where c: "s = c @ s'" "3 \<le> length c" using go_used [of strtod redis_new_reader s _ s' m sz] g(1) by blast
  with g(2) have "s' = drop n s" "0 < n" "n \<le> length s" by auto
  with g show thesis by (rule that)
qed

interpretation redis_rep: framing "reply_frame strtod" for strtod
proof
  fix s r :: bytes and m :: "'a redis_node list" and n
  show "0 < n \<and> n \<le> length s" if "reply_frame strtod s = Frame m n" by (rule reply_frame_Frame [OF that]) blast
  show "reply_frame strtod (s @ r) = Frame m n" if "reply_frame strtod s = Frame m n"
  proof -
    note fr = that
    obtain sz s' where g: "redis_go strtod redis_new_reader s = RDone m sz s'" "n = length s - length s'" "s' = drop n s"
      "0 < n" "n \<le> length s" by (rule reply_frame_Frame [OF fr]) (rule that)
    have "redis_go strtod redis_new_reader (s @ r) = RDone m sz (s' @ r)" using g(1) by (simp only: go_append [of strtod redis_new_reader s r] reply_res.case)
    moreover have "n = length (s @ r) - length (s' @ r)" using g(2) by simp
    ultimately show ?thesis by (simp add: reply_frame_def)
  qed
  show "reply_frame strtod (s @ r) = Bad" if "reply_frame strtod s = Bad"
    using that go_append [of strtod redis_new_reader s r] by (auto simp: reply_frame_def split: reply_res.splits)
qed

end
