(* ===== verification/Redis_Laws.thy ===== *)
theory Redis_Laws
  imports Redis_Frame
begin

text \<open>
  The readers and the loop of \<open>redis_unpack\<close> against the reference of \<open>Redis_Frame\<close>, and with the
  receive path of \<open>Prots\<close>: the replies a task gets are those of the stream.
\<close>

section \<open>The readers\<close>

text \<open>What a reader has to answer, given the reference element and the reader state.\<close>

definition reader_ok :: "('d redis_node \<times> int \<times> nat) frame_res \<Rightarrow> 'd redis_reader \<Rightarrow> buffer \<Rightarrow> u32 \<Rightarrow> 'd reader_res \<Rightarrow> bool" where
  "reader_ok e rd b st res \<longleftrightarrow>
     (\<exists>b' rd'. binv b' \<and>
        (case e of
           More \<Rightarrow> res = Some (False, rd, bit_set st PROT_MOREDATA, b') \<and> content b' = content b
         | Bad \<Rightarrow> res = Some (False, rd', bit_set st PROT_ERROR, b')
         | Frame x n \<Rightarrow>
             (case reply_add x rd of
                None \<Rightarrow> res = Some (False, rd', bit_set st PROT_ERROR, b')
              | Some rd2 \<Rightarrow> res = Some (True, rd2, st, b') \<and> content b' = drop n (content b))))"

lemma redis_take_ok:
  assumes b: "binv b" "content b = s" and n: "n \<le> length s" and room: "\<not> (0 < open \<and> 18 \<le> length (rd_stack rd))"
  shows "\<exists>b'. binv b' \<and> content b' = drop n s \<and>
    redis_take pk open n (redis_node_new sz rd) b st = Some (True, the (reply_add (pk, open, sz) rd), st, b')"
proof -
  obtain b' where "buffer_drain b n = Some (n, b')" "binv b'" "content b' = drop n s"
    using buf.take_out [OF b(1), of n] b(2) n by blast
  then show ?thesis using room
    by (intro exI [of _ b'])
      (auto simp: redis_take_def redis_add_node_def redis_node_new_def reply_add_def Let_def REDIS_MAX_DEPTH_def)
qed

lemma leaf_ok:
  assumes b: "binv b" "content b = s" and n: "n \<le> length s"
  shows "\<exists>b'. binv b' \<and> content b' = drop n s \<and>
    redis_take pk 0 n (redis_node_new sz rd) b st = Some (True, the (reply_add (pk, 0, sz) rd), st, b')"
  by (rule redis_take_ok [OF b n]) simp

lemma reply_add_leaf: "reply_add (pk, 0, sz) rd = Some (the (reply_add (pk, 0, sz) rd))"
  by (simp add: reply_add_def)

lemma local_crlf: "redis_local_crlf hdr = crlf_at hdr"
  by (simp add: redis_local_crlf_def crlf_at_def)

text \<open>Bytes from the local copy or, if it does not hold them, from the buffer.\<close>

lemma fetch_ok:
  assumes b: "binv b" "content b = s" and n: "k + n \<le> length s" and cnd: "c \<Longrightarrow> k + n \<le> m"
  shows "\<exists>b'. binv b' \<and> content b' = s \<and>
    (if c then Some (take n (drop k (take m s)), b)
     else map_option (\<lambda>(data, n, buf). (data, buf)) (buffer_copyout b k n)) = Some (take n (drop k s), b')"
proof (cases c)
  case True
  then have "take n (drop k (take m s)) = take n (drop k s)" using cnd by (simp add: drop_take min_def)
  with True b show ?thesis by auto
next
  case False
  obtain b' where "buffer_copyout b k n = Some (take n (drop k s), n, b')" "binv b'" "content b' = s"
    using buf.peek_copy [OF b(1), of k n] b(2) n by blast
  with False show ?thesis by auto
qed

lemma find_crlf_ok:
  assumes b: "binv b" "content b = s" and s: "s \<noteq> []" "s ! 0 \<noteq> 13"
  shows "\<exists>b'. binv b' \<and> content b' = s \<and>
    (case crlf_at s of
       None \<Rightarrow> redis_find_crlf b st = Some (None, bit_set st (if 65536 < length s then PROT_ERROR else PROT_MOREDATA), b')
     | Some p \<Rightarrow> if INT32_MAX < p
         then redis_find_crlf b st = Some (None, bit_set st PROT_ERROR, b')
         else redis_find_crlf b st = Some (Some p, st, b'))"
proof -
  obtain b' where b': "buffer_search b False 0 0 FLAG_CRLF = Some (search_spec s False 0 0 FLAG_CRLF, b')" "same_stream b b'"
    using search_ok [OF b(1), of False 0 0 FLAG_CRLF] b(2) by blast
  then have bb: "binv b'" "content b' = s" using b by (simp_all add: same_stream_def)
  have sp: "search_spec s False 0 0 FLAG_CRLF = search_result (crlf_at s)"
    using crlf_search [OF s] by (simp add: search_spec_def search_bound_def FLAG_CRLF_def)
  have len: "buffer_size b' = length s" using buf.len_law [OF bb(1)] bb(2) by simp
  have long: "INT32_MAX < p \<Longrightarrow> 65536 < length s" if "crlf_at s = Some p" for p
    using that by (simp add: crlf_at_Some line_end_def)
  show ?thesis
    using b'(1) bb len long
    by (intro exI [of _ b']) (auto simp: redis_find_crlf_def sp search_result_def REDIS_MAX_LINE_LENS_def split: option.split)
qed

lemma reader_line_ok:
  assumes b: "binv b" "content b = s" and s: "3 \<le> length s" "s ! 0 \<noteq> 13"
  shows "reader_ok (line_elem strtod s) rd b st (redis_reader_line strtod rd (s ! 0) b (take 66 s) st)"
proof -
  have ne: "s \<noteq> []" using s(1) by auto
  let ?n = "\<lambda>p. (redis_node (s ! 0))\<lparr>rp_len := int (p - 1), rp_data := take (p - 1) (drop 1 s)\<rparr>"
  let ?body = "\<lambda>(loc :: nat option) p b. let rd = redis_node_new (PACK_SIZE + p) rd; len = p - 1
                   in Option.bind (if 0 < len then
                         (if loc \<noteq> None then Some (take len (drop 1 (take 66 s)), b)
                          else map_option (\<lambda>(data, n, buf). (data, buf)) (buffer_copyout b 1 len))
                       else Some ([], b))
                     (\<lambda>(data, buf).
                       case redis_line_value strtod ((redis_node (s ! 0))\<lparr>rp_len := int len, rp_data := data\<rparr>) of
                         None \<Rightarrow> Some (False, rd, bit_set st PROT_ERROR, buf)
                       | Some pk \<Rightarrow> redis_take pk 0 (p + 2) rd buf st)"
  have body: "reader_ok (line_elem strtod s) rd b st (?body loc p b1)"
    if p: "crlf_at s = Some p" "p \<le> 65535" "binv b1" "content b1 = s" "loc \<noteq> None \<Longrightarrow> p + 1 < 66" for loc :: "nat option" and p b1
  proof -
    have le: "1 \<le> p" "p + 2 \<le> length s" using p(1) by (auto simp: crlf_at_Some line_end_def)
    obtain b2 where b2: "binv b2" "content b2 = s" "(if loc \<noteq> None then Some (take (p - 1) (drop 1 (take 66 s)), b1)
        else map_option (\<lambda>(data, n, buf). (data, buf)) (buffer_copyout b1 1 (p - 1))) = Some (take (p - 1) (drop 1 s), b2)"
    proof -
      have "1 + (p - 1) \<le> length s" "loc \<noteq> None \<Longrightarrow> 1 + (p - 1) \<le> 66" using le p(5) by simp_all
      from fetch_ok [OF p(3,4) this(1), of "loc \<noteq> None" 66] this(2) that show thesis by blast
    qed
    obtain b3 where b3: "binv b3" "content b3 = s" "(if 0 < p - 1 then
        (if loc \<noteq> None then Some (take (p - 1) (drop 1 (take 66 s)), b1)
        else map_option (\<lambda>(data, n, buf). (data, buf)) (buffer_copyout b1 1 (p - 1))) else Some ([], b1)) = Some (take (p - 1) (drop 1 s), b3)"
      using b2 p(3,4) by (cases "0 < p - 1") auto
    have e: "?body loc p b1 = (case redis_line_value strtod (?n p) of
        None \<Rightarrow> Some (False, redis_node_new (48 + p) rd, bit_set st PROT_ERROR, b3)
      | Some pk \<Rightarrow> redis_take pk 0 (p + 2) (redis_node_new (48 + p) rd) b3 st)"
      unfolding Let_def b3(3) PACK_SIZE_def by simp
    have le_eq: "line_elem strtod s = (case redis_line_value strtod (?n p) of None \<Rightarrow> Bad | Some pk \<Rightarrow> Frame (pk, 0, 48 + p) (p + 2))"
      using p(1,2) by (simp add: line_elem_def)
    show ?thesis
    proof (cases "redis_line_value strtod (?n p)")
      case None
      then show ?thesis unfolding e le_eq reader_ok_def using b3(1) by auto
    next
      case (Some pk)
      from leaf_ok [OF b3(1,2) le(2), of pk "48 + p" rd st] obtain b4 where "binv b4" "content b4 = drop (p + 2) s"
        "redis_take pk 0 (p + 2) (redis_node_new (48 + p) rd) b3 st = Some (True, the (reply_add (pk, 0, 48 + p) rd), st, b4)"
        by blast
      with Some b(2) reply_add_leaf [of pk "48 + p" rd] show ?thesis unfolding e le_eq reader_ok_def
        by (auto intro!: exI [of _ b4] split: option.split)
    qed
  qed
  have loc: "redis_local_crlf (take 66 s) = (case crlf_at s of Some p \<Rightarrow> if Suc p < 66 then Some p else None | None \<Rightarrow> None)"
    by (simp add: local_crlf crlf_at_take)
  show ?thesis
  proof (cases "\<exists>p. crlf_at s = Some p \<and> Suc p < 66")
    case True
    then obtain p where p: "crlf_at s = Some p" "Suc p < 66" by blast
    have "redis_reader_line strtod rd (s ! 0) b (take 66 s) st = ?body (Some p) p b"
      using p by (simp add: redis_reader_line_def loc REDIS_MAX_LINE_LENS_def Let_def)
    with body [OF p(1) _ b, of "Some p"] p(2) show ?thesis by simp
  next
    case False
    then have l: "redis_local_crlf (take 66 s) = None" using loc by (auto split: option.split)
    obtain b1 where b1: "binv b1" "content b1 = s" and f: "case crlf_at s of
       None \<Rightarrow> redis_find_crlf b st = Some (None, bit_set st (if 65536 < length s then PROT_ERROR else PROT_MOREDATA), b1)
     | Some p \<Rightarrow> if INT32_MAX < p
         then redis_find_crlf b st = Some (None, bit_set st PROT_ERROR, b1)
         else redis_find_crlf b st = Some (Some p, st, b1)"
      using find_crlf_ok [OF b ne s(2), of st] by blast
    show ?thesis
    proof (cases "crlf_at s")
      case None
      with l f b1 b show ?thesis
        by (auto simp: redis_reader_line_def reader_ok_def line_elem_def intro!: exI [of _ b1])
    next
      case (Some p)
      show ?thesis
      proof (cases "65535 < p")
        case True
        with Some have "line_elem strtod s = Bad" by (simp add: line_elem_def)
        moreover have "\<exists>rd'. redis_reader_line strtod rd (s ! 0) b (take 66 s) st = Some (False, rd', bit_set st PROT_ERROR, b1)"
          using l f Some True by (auto simp: redis_reader_line_def REDIS_MAX_LINE_LENS_def split: if_splits)
        ultimately show ?thesis using b1(1) by (auto simp: reader_ok_def)
      next
        case False
        then have "redis_find_crlf b st = Some (Some p, st, b1)" using f Some by simp
        then have "redis_reader_line strtod rd (s ! 0) b (take 66 s) st = ?body None p b1"
          using l False by (simp add: redis_reader_line_def REDIS_MAX_LINE_LENS_def Let_def)
        moreover have "reader_ok (line_elem strtod s) rd b st (?body None p b1)"
          by (rule body [OF Some _ b1]) (use False in simp_all)
        ultimately show ?thesis by (simp only:)
      qed
    qed
  qed
qed

text \<open>The length line of the other two.\<close>

lemma head_len_ok:
  assumes "s \<noteq> []"
  shows "redis_head_len (take 66 s) st =
    (case bulk_head s of
       More \<Rightarrow> (None, bit_set st PROT_MOREDATA)
     | Bad \<Rightarrow> (None, bit_set st PROT_ERROR)
     | Frame (p, v) n \<Rightarrow> (Some (p, v), st))"
proof (cases "crlf_at (take 66 s)")
  case None
  then show ?thesis by (simp add: redis_head_len_def local_crlf bulk_head_is REDIS_HDR_PEEK_def REDIS_NUM_CAP_def)
next
  case (Some p)
  then have "p + 2 \<le> 66" "1 \<le> p" by (auto simp: crlf_at_Some line_end_def)
  then have "take (p - 1) (drop 1 (take 66 s)) = take (p - 1) (drop 1 s)" by (simp add: drop_take min_def)
  with Some show ?thesis by (simp add: redis_head_len_def local_crlf bulk_head_is split: option.split)
qed

lemma reader_bulk_ok:
  assumes b: "binv b" "content b = s" and s: "3 \<le> length s"
  shows "reader_ok (bulk_elem s) rd b st (redis_reader_bulk rd (s ! 0) b (take 66 s) st)"
proof -
  have ne: "s \<noteq> []" using s(1) by auto
  have len: "buffer_size b = length s" using buf.len_law [OF b(1)] b(2) by simp
  show ?thesis
  proof (cases "bulk_head s")
    case More
    then show ?thesis using b
      by (auto simp: redis_reader_bulk_def head_len_ok [OF ne] reader_ok_def bulk_elem_def)
  next
    case Bad
    then show ?thesis using b
      by (auto simp: redis_reader_bulk_def head_len_ok [OF ne] reader_ok_def bulk_elem_def)
  next
    case (Frame x k)
    obtain p v where x: "x = (p, v)" by fastforce
    note f = bulk_head_Frame [OF Frame [unfolded x]]
    have h: "redis_head_len (take 66 s) st = (Some (p, v), st)" using Frame x by (simp add: head_len_ok [OF ne])
    consider (null) "v = -1" | (big) "536870912 < v" | (short) "v \<noteq> -1" "v \<le> 536870912" "length s < nat v + p + 4"
      | (full) "v \<noteq> -1" "v \<le> 536870912" "nat v + p + 4 \<le> length s" by linarith
    then show ?thesis
    proof cases
      case null
      let ?pk = "(redis_node (s ! 0))\<lparr>rp_len := -1\<rparr>"
      have e: "bulk_elem s = Frame (?pk, 0, 49) (p + 2)" using null Frame x by (simp add: bulk_elem_def)
      from leaf_ok [OF b f(3), of ?pk 49 rd st] obtain b1 where "binv b1" "content b1 = drop (p + 2) s"
        "redis_take ?pk 0 (p + 2) (redis_node_new 49 rd) b st = Some (True, the (reply_add (?pk, 0, 49) rd), st, b1)" by blast
      moreover from this have "redis_reader_bulk rd (s ! 0) b (take 66 s) st = Some (True, the (reply_add (?pk, 0, 49) rd), st, b1)"
        using null h by (simp add: redis_reader_bulk_def PACK_SIZE_def)
      ultimately show ?thesis unfolding e reader_ok_def using b(2) reply_add_leaf [of ?pk 49 rd]
        by (auto intro!: exI [of _ b1] split: option.split)
    next
      case big
      then show ?thesis using b Frame x h
        by (auto simp: redis_reader_bulk_def reader_ok_def bulk_elem_def REDIS_MAX_BULK_LENS_def)
    next
      case short
      have "redis_reader_bulk rd (s ! 0) b (take 66 s) st =
          Some (False, rd, bit_set st PROT_MOREDATA, buffer_want b (nat v + p + 4 - length s))"
        using short h len by (simp add: redis_reader_bulk_def REDIS_MAX_BULK_LENS_def Let_def)
      moreover have "bulk_elem s = (More :: ('a redis_node \<times> int \<times> nat) frame_res)" using short Frame x by (simp add: bulk_elem_def)
      ultimately show ?thesis using buf.want_law [OF b(1)] by (auto simp: reader_ok_def)
    next
      case full
      let ?t = "nat v + p + 4" and ?d = "take (nat v + 2) (drop (p + 2) s)" and ?rd = "redis_node_new (50 + nat v) rd"
      obtain b1 where b1: "binv b1" "content b1 = s" "(if ?t \<le> length (take 66 s) then Some (take (nat v + 2) (drop (p + 2) (take 66 s)), b)
          else map_option (\<lambda>(data, n, buf). (data, buf)) (buffer_copyout b (p + 2) (nat v + 2))) = Some (?d, b1)"
        using fetch_ok [OF b, of "p + 2" "nat v + 2" "?t \<le> length (take 66 s)" 66] full by auto
      have r: "redis_reader_bulk rd (s ! 0) b (take 66 s) st = (case redis_bulk_value (s ! 0) v ?d of
          None \<Rightarrow> Some (False, ?rd, bit_set st PROT_ERROR, b1)
        | Some pk \<Rightarrow> redis_take pk 0 ?t ?rd b1 st)"
      proof -
        have c: "\<not> REDIS_MAX_BULK_LENS < v" "\<not> buffer_size b < ?t" using full len by (simp_all add: REDIS_MAX_BULK_LENS_def)
        have sz: "PACK_SIZE + (nat v + 2) = 50 + nat v" by (simp add: PACK_SIZE_def)
        show ?thesis
          unfolding redis_reader_bulk_def h prod.case option.case Let_def if_not_P [OF full(1)] if_not_P [OF c(1)] if_not_P [OF c(2)]
            b1(3) bind.bind_lunit sz ..
      qed
      have e: "bulk_elem s = (case redis_bulk_value (s ! 0) v ?d of None \<Rightarrow> Bad | Some pk \<Rightarrow> Frame (pk, 0, 50 + nat v) ?t)"
        using full Frame x by (simp add: bulk_elem_def)
      show ?thesis
      proof (cases "redis_bulk_value (s ! 0) v ?d :: 'a redis_node option")
        case None
        then show ?thesis unfolding r e reader_ok_def using b1(1) by auto
      next
        case (Some pk)
        from leaf_ok [OF b1(1,2) full(3), of pk "50 + nat v" rd st] obtain b2 where "binv b2" "content b2 = drop ?t s"
          "redis_take pk 0 ?t ?rd b1 st = Some (True, the (reply_add (pk, 0, 50 + nat v) rd), st, b2)" by blast
        with Some b(2) reply_add_leaf [of pk "50 + nat v" rd] show ?thesis unfolding r e reader_ok_def
          by (auto intro!: exI [of _ b2] split: option.split)
      qed
    qed
  qed
qed

lemma reader_agg_ok:
  assumes b: "binv b" "content b = s" and s: "3 \<le> length s"
  shows "reader_ok (agg_elem s) rd b st (redis_reader_agg rd (s ! 0) b (take 66 s) st)"
proof -
  have ne: "s \<noteq> []" using s(1) by auto
  show ?thesis
  proof (cases "bulk_head s")
    case More
    then show ?thesis using b
      by (auto simp: redis_reader_agg_def head_len_ok [OF ne] reader_ok_def agg_elem_def)
  next
    case Bad
    then show ?thesis using b
      by (auto simp: redis_reader_agg_def head_len_ok [OF ne] reader_ok_def agg_elem_def)
  next
    case (Frame x k)
    obtain p v where x: "x = (p, v)" by fastforce
    note f = bulk_head_Frame [OF Frame [unfolded x]]
    have h: "redis_head_len (take 66 s) st = (Some (p, v), st)" using Frame x by (simp add: head_len_ok [OF ne])
    show ?thesis
    proof (cases "int INT32_MAX < v")
      case True
      then show ?thesis using b Frame x h by (auto simp: redis_reader_agg_def reader_ok_def agg_elem_def)
    next
      case False
      let ?pk = "(redis_node (s ! 0))\<lparr>rp_nelem := v\<rparr>"
      let ?o = "if 0 < v then (if s ! 0 = RESP_ATTR \<or> s ! 0 = RESP_MAP then v * 2 else v) else 0"
      have e: "agg_elem s = Frame (?pk, ?o, 49) (p + 2)" using False Frame x by (simp add: agg_elem_def)
      have r: "redis_reader_agg rd (s ! 0) b (take 66 s) st =
          (if 0 < ?o \<and> 18 \<le> length (rd_stack rd) then Some (False, rd, bit_set st PROT_ERROR, b)
           else redis_take ?pk ?o (p + 2) (redis_node_new 49 rd) b st)"
        using False h by (simp add: redis_reader_agg_def Let_def PACK_SIZE_def REDIS_MAX_DEPTH_def)
      show ?thesis
      proof (cases "0 < ?o \<and> 18 \<le> length (rd_stack rd)")
        case True
        then have "reply_add (?pk, ?o, 49) rd = None" unfolding reply_add_def prod.case by (rule if_P)
        then show ?thesis unfolding e r if_P [OF True] reader_ok_def using b by auto
      next
        case False
        then obtain rd2 where a: "reply_add (?pk, ?o, 49) rd = Some rd2" unfolding reply_add_def prod.case if_not_P [OF False] by blast
        from redis_take_ok [OF b f(3) False, of ?pk 49 st] obtain b1 where "binv b1" "content b1 = drop (p + 2) s"
          "redis_take ?pk ?o (p + 2) (redis_node_new 49 rd) b st = Some (True, rd2, st, b1)"
          unfolding a option.sel by blast
        then show ?thesis unfolding e r if_not_P [OF False] reader_ok_def frame_res.case a option.case b(2) by blast
      qed
    qed
  qed
qed

section \<open>The loop\<close>

text \<open>What the loop has to answer, given what the stream makes of the reader.\<close>

definition unpack_ok :: "'d reply_res \<Rightarrow> u32 \<Rightarrow> 'd unpack_res \<Rightarrow> bool" where
  "unpack_ok g st res \<longleftrightarrow>
     (\<exists>b' rd' n. binv b' \<and>
        (case g of
           RMore rd s \<Rightarrow> res = Some (None, n, bit_set st PROT_MOREDATA, rd, b') \<and> content b' = s
         | RBad \<Rightarrow> res = Some (None, n, bit_set st PROT_ERROR, rd', b')
         | RDone nodes sz s \<Rightarrow> res = Some (Some nodes, sz, st, redis_new_reader, b') \<and> content b' = s))"

text \<open>The three calls of the \<open>switch\<close> as one.\<close>

definition read_elem :: "(bytes \<Rightarrow> 'd option) \<Rightarrow> 'd redis_reader \<Rightarrow> u8 \<Rightarrow> buffer \<Rightarrow> bytes \<Rightarrow> u32 \<Rightarrow> 'd reader_res" where
  "read_elem strtod rd prot buf hdr status =
     (if is_line prot then redis_reader_line strtod rd prot buf hdr status
      else if is_bulk prot then redis_reader_bulk rd prot buf hdr status
      else redis_reader_agg rd prot buf hdr status)"

lemma kinds_not_cr: "is_line c \<or> is_bulk c \<or> is_agg c \<Longrightarrow> c \<noteq> 13"
  by (auto simp: is_line_def is_bulk_def is_agg_def resp_defs)

lemma read_elem_ok:
  assumes b: "binv b" "content b = s" and s: "3 \<le> length s" "is_line (s ! 0) \<or> is_bulk (s ! 0) \<or> is_agg (s ! 0)"
  shows "reader_ok (redis_elem strtod s) rd b st (read_elem strtod rd (s ! 0) b (take 66 s) st)"
  using reader_line_ok [OF b s(1) kinds_not_cr [OF s(2)], of strtod rd st] reader_bulk_ok [OF b s(1), of rd st]
    reader_agg_ok [OF b s(1), of rd st] s
  by (auto simp: redis_elem_def read_elem_def)

lemma redis_loop_ok:
  assumes "binv b" "length (content b) < 3 * k"
  shows "unpack_ok (redis_go strtod rd (content b)) st (redis_loop strtod k rd b st)"
  using assms
proof (induction k arbitrary: rd b)
  case 0
  then show ?case by simp
next
  case (Suc k)
  let ?s = "content b"
  have len: "buffer_size b = length ?s" using buf.len_law [OF Suc.prems(1)] .
  have elem0: "redis_elem strtod ?s = More" if "length ?s < 3" using that by (simp add: redis_elem_def)
  show ?case
  proof (cases "262144 \<le> rd_count rd")
    case True
    then show ?thesis using Suc.prems(1) by (auto simp: unpack_ok_def redis_go.simps REDIS_MAX_NODES_def)
  next
    case count: False
    show ?thesis
    proof (cases "length ?s < 3")
      case True
      then show ?thesis using Suc.prems(1) count elem0 len
        by (auto simp: unpack_ok_def redis_go.simps [of strtod rd ?s] REDIS_MAX_NODES_def)
    next
      case False
      then have s: "3 \<le> length ?s" by simp
      obtain b1 where b1: "buffer_copyout b 0 (if REDIS_HDR_PEEK < length ?s then REDIS_HDR_PEEK else length ?s) =
          Some (take 66 ?s, min (length ?s) 66, b1)" "binv b1" "content b1 = ?s"
      proof -
        let ?m = "if REDIS_HDR_PEEK < length ?s then REDIS_HDR_PEEK else length ?s"
        have m: "?m = min (length ?s) 66" by (simp add: REDIS_HDR_PEEK_def REDIS_NUM_CAP_def)
        obtain b' where "buffer_copyout b 0 ?m = Some (take ?m (drop 0 ?s), ?m, b')" "binv b'" "content b' = ?s"
          by (rule buf.peek_copy [OF Suc.prems(1), of 0 ?m]) (auto simp: m)
        with that show thesis unfolding m by (simp add: min_def split: if_splits)
      qed
      have h0: "take 66 ?s ! 0 = ?s ! 0" by simp
      have loop: "redis_loop strtod (Suc k) rd b st =
          (if \<not> is_line (?s ! 0) \<and> \<not> is_bulk (?s ! 0) \<and> \<not> is_agg (?s ! 0)
           then Some (None, 0, bit_set st PROT_ERROR, rd, b1)
           else Option.bind (read_elem strtod rd (?s ! 0) b1 (take 66 ?s) st) (\<lambda>(ok, rd, status, buf).
             if \<not> ok then Some (None, 0, status, rd, buf)
             else if rd_stack rd = [] then Some (Some (rd_nodes rd), rd_bytes rd, status, redis_new_reader, buf)
             else redis_loop strtod k rd buf status))"
        using count False by (simp add: REDIS_MAX_NODES_def len b1(1) h0 read_elem_def Let_def)
      show ?thesis
      proof (cases "is_line (?s ! 0) \<or> is_bulk (?s ! 0) \<or> is_agg (?s ! 0)")
        case False
        then have "redis_elem strtod ?s = Bad" using s by (simp add: redis_elem_def)
        with False loop count b1(2) show ?thesis by (auto simp: unpack_ok_def redis_go.simps)
      next
        case True
        then have loop: "redis_loop strtod (Suc k) rd b st =
          Option.bind (read_elem strtod rd (?s ! 0) b1 (take 66 ?s) st) (\<lambda>(ok, rd, status, buf).
             if \<not> ok then Some (None, 0, status, rd, buf)
             else if rd_stack rd = [] then Some (Some (rd_nodes rd), rd_bytes rd, status, redis_new_reader, buf)
             else redis_loop strtod k rd buf status)" using loop by auto
        from read_elem_ok [OF b1(2,3) s True, of strtod rd st] obtain b2 rd' where b2: "binv b2"
          "case redis_elem strtod ?s of
           More \<Rightarrow> read_elem strtod rd (?s ! 0) b1 (take 66 ?s) st = Some (False, rd, bit_set st PROT_MOREDATA, b2) \<and> content b2 = content b1
         | Bad \<Rightarrow> read_elem strtod rd (?s ! 0) b1 (take 66 ?s) st = Some (False, rd', bit_set st PROT_ERROR, b2)
         | Frame x n \<Rightarrow>
             (case reply_add x rd of
                None \<Rightarrow> read_elem strtod rd (?s ! 0) b1 (take 66 ?s) st = Some (False, rd', bit_set st PROT_ERROR, b2)
              | Some rd2 \<Rightarrow> read_elem strtod rd (?s ! 0) b1 (take 66 ?s) st = Some (True, rd2, st, b2) \<and> content b2 = drop n (content b1))"
          unfolding reader_ok_def by blast
        show ?thesis
        proof (cases "redis_elem strtod ?s")
          case More
          with b2 b1(3) loop count show ?thesis
            by (auto simp: unpack_ok_def redis_go.simps [of strtod rd ?s])
        next
          case Bad
          with b2 loop count show ?thesis by (auto simp: unpack_ok_def redis_go.simps [of strtod rd ?s])
        next
          case (Frame x n)
          note sz = redis_elem_Frame(1,2) [OF Frame]
          show ?thesis
          proof (cases "reply_add x rd")
            case None
            with Frame b2 loop count show ?thesis by (auto simp: unpack_ok_def redis_go.simps [of strtod rd ?s])
          next
            case (Some rd2)
            then have r: "read_elem strtod rd (?s ! 0) b1 (take 66 ?s) st = Some (True, rd2, st, b2)" "content b2 = drop n ?s"
              using Frame b2(2) b1(3) by simp_all
            show ?thesis
            proof (cases "rd_stack rd2 = []")
              case True
              with Frame Some count loop r b2(1) show ?thesis by (auto simp: unpack_ok_def redis_go.simps [of strtod rd ?s])
            next
              case False
              have "length (content b2) < 3 * k" using r(2) sz Suc.prems(2) by auto
              from Suc.IH [OF b2(1) this, of rd2] show ?thesis
                using Frame Some count loop r False by (simp add: redis_go.simps [of strtod rd ?s])
            qed
          qed
        qed
      qed
    qed
  qed
qed

section \<open>The receive path\<close>

text \<open>A connection whose context stands for the bytes \<open>p\<close> of a reply that is not complete.\<close>

definition redis_pending :: "(bytes \<Rightarrow> 'd option) \<Rightarrow> 'd redis_reader option ud \<Rightarrow> bytes \<Rightarrow> bool" where
  "redis_pending strtod ud p \<longleftrightarrow>
     redis_go strtod redis_new_reader p = RMore (case ud_context ud of None \<Rightarrow> redis_new_reader | Some rd \<Rightarrow> rd) []"

definition obj_frame :: "(bytes \<Rightarrow> 'm frame_res) \<Rightarrow> bytes \<Rightarrow> 'm pack_data frame_res" where
  "obj_frame frame s = map_frame_res Obj (frame s)"

interpretation redis_unp: session_unpacker "obj_frame (reply_frame strtod)" "redis_vtbl strtod" PACK_REDIS task
    "\<lambda>ud. ud_pktype ud = PACK_REDIS \<and> ud_handle ud = task" "redis_pending strtod" for strtod task
proof
  fix s r :: bytes and m :: "'a redis_node list pack_data" and n
  show "0 < n \<and> n \<le> length s" if "obj_frame (reply_frame strtod) s = Frame m n"
    using that redis_rep.frame_size unfolding obj_frame_def map_frame_res_eq by blast
  show "obj_frame (reply_frame strtod) (s @ r) = Frame m n" if "obj_frame (reply_frame strtod) s = Frame m n"
    using that redis_rep.frame_extend unfolding obj_frame_def map_frame_res_eq by blast
  show "obj_frame (reply_frame strtod) (s @ r) = Bad" if "obj_frame (reply_frame strtod) s = Bad"
    using that redis_rep.bad_extend unfolding obj_frame_def map_frame_res_eq by blast
  show "vt_next_pack (redis_vtbl strtod) = None" by (simp add: redis_vtbl_def)
  show "obj_frame (reply_frame strtod) [] = More"
    by (simp add: obj_frame_def reply_frame_def redis_go.simps redis_elem_def redis_new_reader_def)
next
  fix ud :: "'a redis_reader option ud"
  assume "ud_pktype ud = PACK_REDIS \<and> ud_handle ud = task"
  then show "ud_pktype ud = PACK_REDIS \<and> ud_handle ud = task" .
next
  fix b client and ud :: "'a redis_reader option ud" and p
  assume b: "binv b" and ud: "ud_pktype ud = PACK_REDIS \<and> ud_handle ud = task" and p: "redis_pending strtod ud p"
  let ?rd = "case ud_context ud of None \<Rightarrow> redis_new_reader | Some rd \<Rightarrow> rd"
  have go: "redis_go strtod redis_new_reader (p @ content b) = redis_go strtod ?rd (content b)"
    using p by (simp add: go_append [of strtod redis_new_reader p] redis_pending_def)
  have un: "unpack_ok (redis_go strtod ?rd (content b)) PROT_INIT (redis_unpack strtod b (ud_context ud) PROT_INIT)"
    unfolding redis_unpack_def by (rule redis_loop_ok [OF b]) (simp add: buf.len_law [OF b])
  have v: "prots_unpack_v (redis_vtbl strtod) client b ud =
      map_option (\<lambda>(r, size, status, rd, b). (map_option Obj r, size, status, ud\<lparr>ud_context := Some rd\<rparr>, b))
        (redis_unpack strtod b (ud_context ud) PROT_INIT)"
    by (simp add: prots_unpack_v_def redis_vtbl_def)
  show "\<exists>b' n ud'. binv b' \<and> (ud_pktype ud' = PACK_REDIS \<and> ud_handle ud' = task) \<and>
      (case obj_frame (reply_frame strtod) (p @ content b) of
         Bad \<Rightarrow> prots_unpack_v (redis_vtbl strtod) client b ud = Some (None, n, PROT_ERROR, ud', b')
       | More \<Rightarrow> prots_unpack_v (redis_vtbl strtod) client b ud = Some (None, n, PROT_MOREDATA, ud', b') \<and>
           (\<exists>p'. redis_pending strtod ud' p' \<and> p' @ content b' = p @ content b)
       | Frame m k \<Rightarrow> prots_unpack_v (redis_vtbl strtod) client b ud = Some (Some m, n, PROT_INIT, ud', b') \<and>
           redis_pending strtod ud' [] \<and> length p < k \<and> content b' = drop k (p @ content b))"
  proof (cases "redis_go strtod ?rd (content b)")
    case (RMore rd s')
    with un obtain b' n where b': "binv b'" "content b' = s'"
      "redis_unpack strtod b (ud_context ud) PROT_INIT = Some (None, n, PROT_MOREDATA, rd, b')"
      by (auto simp: unpack_ok_def)
    obtain c where c: "p @ content b = c @ s'" "redis_go strtod redis_new_reader c = RMore rd []"
      using go_used [of strtod redis_new_reader "p @ content b" rd s'] RMore go by auto
    have "obj_frame (reply_frame strtod) (p @ content b) = More" using RMore go by (simp add: obj_frame_def reply_frame_def)
    then show ?thesis using b' c ud
      by (intro exI [of _ b'] exI [of _ n] exI [of _ "ud\<lparr>ud_context := Some rd\<rparr>"]) (auto simp: v redis_pending_def)
  next
    case RBad
    with un obtain b' n rd where "binv b'"
      "redis_unpack strtod b (ud_context ud) PROT_INIT = Some (None, n, PROT_ERROR, rd, b')"
      by (auto simp: unpack_ok_def)
    moreover have "obj_frame (reply_frame strtod) (p @ content b) = Bad" using RBad go by (simp add: obj_frame_def reply_frame_def)
    ultimately show ?thesis using ud
      by (intro exI [of _ b'] exI [of _ n] exI [of _ "ud\<lparr>ud_context := Some rd\<rparr>"]) (simp add: v)
  next
    case (RDone nodes sz s')
    with un obtain b' where b': "binv b'" "content b' = s'"
      "redis_unpack strtod b (ud_context ud) PROT_INIT = Some (Some nodes, sz, PROT_INIT, redis_new_reader, b')"
      by (auto simp: unpack_ok_def)
    let ?k = "length (p @ content b) - length s'"
    have fr: "obj_frame (reply_frame strtod) (p @ content b) = Frame (Obj nodes) ?k"
      using RDone go by (simp add: obj_frame_def reply_frame_def)
    obtain c where c: "content b = c @ s'" "3 \<le> length c"
      using go_used [of strtod ?rd "content b" _ s' nodes sz] RDone by blast
    then have k: "length p < ?k" "drop ?k (p @ content b) = s'" by auto
    have "redis_pending strtod (ud\<lparr>ud_context := Some redis_new_reader\<rparr>) []"
      by (simp add: redis_pending_def redis_go.simps redis_elem_def) (simp add: redis_new_reader_def)
    then show ?thesis unfolding fr frame_res.case using b' k ud
      by (intro exI [of _ b'] exI [of _ sz] exI [of _ "ud\<lparr>ud_context := Some redis_new_reader\<rparr>"]) (simp add: v)
  qed
qed

end
