(* ===== verification/Redis_Reply.thy ===== *)
theory Redis_Reply
  imports Redis_Laws
begin

text \<open>
  What the parser of \<open>redis.c\<close> means for a server's values: the values of RESP as a datatype, the
  bytes a server sends for them, and the nodes the parser makes of these bytes; which reply resumes
  a waiting caller; and that the reader stays well formed whatever arrives.
\<close>

section \<open>Values\<close>

datatype resp =
    VSimple bytes | VError bytes | VInt int | VNil | VBool bool
  | VInf | VNegInf | VNan | VNum bytes | VBig bytes
  | VBulk bytes | VBlobError bytes | VVerb bytes bytes | VNullBulk | VNullArray
  | VAgg u8 "resp list" | VMap "resp list" | VAttr "resp list" resp

definition int_text :: "int \<Rightarrow> bytes" where
  "int_text i = (if i < 0 then 45 # num_text 10 (nat (- i)) else num_text 10 (nat i))"

definition resp_line :: "u8 \<Rightarrow> bytes \<Rightarrow> bytes" where
  "resp_line prot t = prot # t @ [13, 10]"

definition resp_bulk :: "u8 \<Rightarrow> bytes \<Rightarrow> bytes" where
  "resp_bulk prot t = resp_line prot (int_text (int (length t))) @ t @ [13, 10]"

text \<open>The bytes of a value; the elements of a map or of attributes are keys and values in turn.\<close>

primrec resp_print :: "resp \<Rightarrow> bytes" where
  "resp_print (VSimple t) = resp_line RESP_STRING t"
| "resp_print (VError t) = resp_line RESP_ERROR t"
| "resp_print (VInt i) = resp_line RESP_INTEGER (int_text i)"
| "resp_print VNil = resp_line RESP_NIL []"
| "resp_print (VBool b) = resp_line RESP_BOOL [if b then 116 else 102]"
| "resp_print VInf = resp_line RESP_DOUBLE [105, 110, 102]"
| "resp_print VNegInf = resp_line RESP_DOUBLE [45, 105, 110, 102]"
| "resp_print VNan = resp_line RESP_DOUBLE [110, 97, 110]"
| "resp_print (VNum t) = resp_line RESP_DOUBLE t"
| "resp_print (VBig t) = resp_line RESP_BIGNUM t"
| "resp_print (VBulk t) = resp_bulk RESP_BSTRING t"
| "resp_print (VBlobError t) = resp_bulk RESP_BERROR t"
| "resp_print (VVerb enc t) = resp_bulk RESP_VERB (enc @ 58 # t)"
| "resp_print VNullBulk = resp_line RESP_BSTRING (int_text (-1))"
| "resp_print VNullArray = resp_line RESP_ARRAY (int_text (-1))"
| "resp_print (VAgg prot vs) = resp_line prot (int_text (int (length vs))) @ concat (map resp_print vs)"
| "resp_print (VMap vs) = resp_line RESP_MAP (int_text (int (length vs) div 2)) @ concat (map resp_print vs)"
| "resp_print (VAttr vs v) =
     resp_line RESP_ATTR (int_text (int (length vs) div 2)) @ concat (map resp_print vs) @ resp_print v"

definition line_node :: "u8 \<Rightarrow> bytes \<Rightarrow> 'd redis_node" where
  "line_node prot t = (redis_node prot)\<lparr>rp_len := int (length t), rp_data := t\<rparr>"

primrec resp_nodes :: "(bytes \<Rightarrow> 'd option) \<Rightarrow> resp \<Rightarrow> 'd redis_node list" where
  "resp_nodes strtod (VSimple t) = [line_node RESP_STRING t]"
| "resp_nodes strtod (VError t) = [line_node RESP_ERROR t]"
| "resp_nodes strtod (VInt i) = [(line_node RESP_INTEGER (int_text i))\<lparr>rp_ival := i\<rparr>]"
| "resp_nodes strtod VNil = [line_node RESP_NIL []]"
| "resp_nodes strtod (VBool b) = [(line_node RESP_BOOL [if b then 116 else 102])\<lparr>rp_ival := if b then 1 else 0\<rparr>]"
| "resp_nodes strtod VInf = [(line_node RESP_DOUBLE [105, 110, 102])\<lparr>rp_dval := DInf\<rparr>]"
| "resp_nodes strtod VNegInf = [(line_node RESP_DOUBLE [45, 105, 110, 102])\<lparr>rp_dval := DNegInf\<rparr>]"
| "resp_nodes strtod VNan = [(line_node RESP_DOUBLE [110, 97, 110])\<lparr>rp_dval := DNan\<rparr>]"
| "resp_nodes strtod (VNum t) = [(line_node RESP_DOUBLE t)\<lparr>rp_dval := DVal (the (strtod t))\<rparr>]"
| "resp_nodes strtod (VBig t) = [line_node RESP_BIGNUM t]"
| "resp_nodes strtod (VBulk t) = [line_node RESP_BSTRING t]"
| "resp_nodes strtod (VBlobError t) = [line_node RESP_BERROR t]"
| "resp_nodes strtod (VVerb enc t) = [(line_node RESP_VERB t)\<lparr>rp_venc := enc\<rparr>]"
| "resp_nodes strtod VNullBulk = [(redis_node RESP_BSTRING)\<lparr>rp_len := -1\<rparr>]"
| "resp_nodes strtod VNullArray = [(redis_node RESP_ARRAY)\<lparr>rp_nelem := -1\<rparr>]"
| "resp_nodes strtod (VAgg prot vs) =
     (redis_node prot)\<lparr>rp_nelem := int (length vs)\<rparr> # concat (map (resp_nodes strtod) vs)"
| "resp_nodes strtod (VMap vs) =
     (redis_node RESP_MAP)\<lparr>rp_nelem := int (length vs) div 2\<rparr> # concat (map (resp_nodes strtod) vs)"
| "resp_nodes strtod (VAttr vs v) =
     (redis_node RESP_ATTR)\<lparr>rp_nelem := int (length vs) div 2\<rparr> # concat (map (resp_nodes strtod) vs) @ resp_nodes strtod v"

text \<open>The aggregates that are open at once, and the values a server may send within the limits of the parser.\<close>

primrec resp_depth :: "resp \<Rightarrow> nat" where
  "resp_depth (VSimple t) = 0"
| "resp_depth (VError t) = 0"
| "resp_depth (VInt i) = 0"
| "resp_depth VNil = 0"
| "resp_depth (VBool b) = 0"
| "resp_depth VInf = 0"
| "resp_depth VNegInf = 0"
| "resp_depth VNan = 0"
| "resp_depth (VNum t) = 0"
| "resp_depth (VBig t) = 0"
| "resp_depth (VBulk t) = 0"
| "resp_depth (VBlobError t) = 0"
| "resp_depth (VVerb enc t) = 0"
| "resp_depth VNullBulk = 0"
| "resp_depth VNullArray = 0"
| "resp_depth (VAgg prot vs) = foldr max (map (\<lambda>v. Suc (resp_depth v)) vs) 0"
| "resp_depth (VMap vs) = foldr max (map (\<lambda>v. Suc (resp_depth v)) vs) 0"
| "resp_depth (VAttr vs v) = max (foldr max (map (\<lambda>v. Suc (resp_depth v)) vs) 0) (resp_depth v)"

definition line_ok :: "bytes \<Rightarrow> bool" where
  "line_ok t \<longleftrightarrow> length t < 65535 \<and> crlf_from 0 t = None"

definition special_number :: "bytes \<Rightarrow> bool" where
  "special_number t \<longleftrightarrow> (\<exists>p\<in>{[105, 110, 102], [45, 105, 110, 102], [110, 97, 110], [45, 110, 97, 110]}. same_text t p)"

primrec resp_ok :: "(bytes \<Rightarrow> 'd option) \<Rightarrow> resp \<Rightarrow> bool" where
  "resp_ok strtod (VSimple t) = line_ok t"
| "resp_ok strtod (VError t) = line_ok t"
| "resp_ok strtod (VInt i) = (- (2 ^ 63) \<le> i \<and> i < 2 ^ 63)"
| "resp_ok strtod VNil = True"
| "resp_ok strtod (VBool b) = True"
| "resp_ok strtod VInf = True"
| "resp_ok strtod VNegInf = True"
| "resp_ok strtod VNan = True"
| "resp_ok strtod (VNum t) = (line_ok t \<and> t \<noteq> [] \<and> strtod t \<noteq> None \<and> \<not> special_number t)"
| "resp_ok strtod (VBig t) = (line_ok t \<and> t \<noteq> [])"
| "resp_ok strtod (VBulk t) = (length t \<le> 536870912)"
| "resp_ok strtod (VBlobError t) = (length t \<le> 536870912)"
| "resp_ok strtod (VVerb enc t) = (length enc = 3 \<and> length t \<le> 536870908)"
| "resp_ok strtod VNullBulk = True"
| "resp_ok strtod VNullArray = True"
| "resp_ok strtod (VAgg prot vs) = (prot \<in> {RESP_ARRAY, RESP_SET, RESP_PUSHE} \<and> list_all (resp_ok strtod) vs)"
| "resp_ok strtod (VMap vs) = (even (length vs) \<and> list_all (resp_ok strtod) vs)"
| "resp_ok strtod (VAttr vs v) = (even (length vs) \<and> list_all (resp_ok strtod) vs \<and> resp_ok strtod v)"

section \<open>Numbers\<close>

lemma blen_le: "v < 10 ^ k \<Longrightarrow> 0 < k \<Longrightarrow> blen 10 v \<le> k"
proof (induction k arbitrary: v)
  case (Suc k)
  show ?case
  proof (cases "10 \<le> v")
    case True
    with Suc have "v div 10 < 10 ^ k" "0 < k" by (auto simp: less_mult_imp_div_less mult.commute intro: gr0I)
    with Suc.IH True show ?thesis by (subst blen.simps) simp
  next
    case False
    then show ?thesis by (subst blen.simps) simp
  qed
qed simp

lemma num_text_digits: "c \<in> set (num_text 10 v) \<Longrightarrow> is_digit c"
  using dec_num_text [of v] by (auto simp: dec_value_def list_all_iff split: if_splits)

lemma length_num_text: "v \<le> 9223372036854775808 \<Longrightarrow> length (num_text 10 v) \<le> 19"
  using blen_le [of v 19] by (simp add: num_text_def)

lemma int_text_value: "int_value (int_text i) = Some i"
proof (cases "i < 0")
  case True
  then show ?thesis by (simp add: int_text_def int_value_def dec_num_text)
next
  case False
  moreover have "hd (num_text 10 (nat i)) \<noteq> 45" using num_text_first [of "nat i"] by (auto simp: is_digit_def)
  ultimately show ?thesis by (simp add: int_text_def int_value_def dec_num_text)
qed

lemma int_text_bytes: "c \<in> set (int_text i) \<Longrightarrow> c = 45 \<or> is_digit c"
  using num_text_digits by (auto simp: int_text_def split: if_splits)

lemma int_text_some: "int_text i \<noteq> []"
  using num_text_first by (auto simp: int_text_def)

lemma length_int_text: "- (2 ^ 63) \<le> i \<Longrightarrow> i < 2 ^ 63 \<Longrightarrow> length (int_text i) \<le> 20"
  using length_num_text [of "nat (- i)"] length_num_text [of "nat i"] by (cases "i < 0") (auto simp: int_text_def nat_le_iff)

lemma strtoi64_int_text: "- (2 ^ 63) \<le> i \<Longrightarrow> i < 2 ^ 63 \<Longrightarrow> strtoi64 (int_text i) = Some i"
  by (simp add: strtoi64_ok int_text_value)

lemma parse_num_int_text: "-1 \<le> i \<Longrightarrow> i < 2 ^ 63 \<Longrightarrow> redis_parse_num (int_text i) = Some i"
  using length_int_text [of i] strtoi64_int_text [of i] int_text_some [of i]
  by (simp add: redis_parse_num_def REDIS_NUM_CAP_def)

lemma parse_integer_int_text: "- (2 ^ 63) \<le> i \<Longrightarrow> i < 2 ^ 63 \<Longrightarrow> redis_parse_integer (int_text i) = Some i"
proof -
  assume i: "- (2 ^ 63) \<le> i" "i < 2 ^ 63"
  obtain c t where t: "int_text i = c # t" using int_text_some by (cases "int_text i") auto
  then have "c = 45 \<or> is_digit c" using int_text_bytes [of c i] by simp
  then have "\<not> is_space c" "c \<noteq> 43" by (auto simp: is_space_def is_digit_unat word_le_nat_alt)
  with i t strtoi64_int_text [OF i] show ?thesis by (simp add: redis_parse_integer_def)
qed

lemma no_cr_line: "13 \<notin> set t \<Longrightarrow> crlf_from i t = None"
  by (induction i t rule: crlf_from.induct) auto

lemma int_text_line: "crlf_from k (int_text i) = None"
proof (rule no_cr_line)
  show "13 \<notin> set (int_text i)" using int_text_bytes [of 13 i] by (auto simp: is_digit_def)
qed

section \<open>Elements\<close>

lemma crlf_from_text: "crlf_from k t = None \<Longrightarrow> crlf_from k (t @ 13 # 10 # s) = Some (k + length t)"
proof (induction k t rule: crlf_from.induct)
  case (1 i a b t)
  then show ?case by (cases "a = 13 \<and> b = 10") auto
qed auto

lemma crlf_line: "crlf_from 1 t = None \<Longrightarrow> crlf_at (resp_line prot t @ s) = Some (length t + 1)"
  using crlf_from_text [of 1 t s] by (simp add: crlf_at_def resp_line_def)

lemma line_start [simp]:
  "resp_line prot t ! 0 = prot" "(resp_line prot t @ s) ! 0 = prot" "length (resp_line prot t) = length t + 3"
  by (simp_all add: resp_line_def)

lemma line_text:
  "n = length t \<Longrightarrow> take n (drop 1 (resp_line prot t @ s)) = t" "n = length t + 3 \<Longrightarrow> drop n (resp_line prot t @ s) = s"
proof -
  show "n = length t \<Longrightarrow> take n (drop 1 (resp_line prot t @ s)) = t" by (simp add: resp_line_def)
  assume "n = length t + 3"
  then have n: "n = length (resp_line prot t)" by simp
  show "drop n (resp_line prot t @ s) = s" unfolding n by simp
qed

lemma crlf_from_shift: "crlf_from i t = None \<Longrightarrow> crlf_from j t = None"
proof (induction i t arbitrary: j rule: crlf_from.induct)
  case (1 i a b t)
  from 1(2) have ab: "\<not> (a = 13 \<and> b = 10)" "crlf_from (i + 1) (b # t) = None" by (auto split: if_splits)
  with 1(1) [OF ab] show ?case by auto
qed auto

lemma elem_line:
  assumes "is_line prot" "length t < 65535" "crlf_from 0 t = None" "redis_line_value strtod (line_node prot t) = Some pk"
  shows "redis_elem strtod (resp_line prot t @ s) = Frame (pk, 0, 49 + length t) (length t + 3)"
proof -
  let ?s = "resp_line prot t @ s"
  have c: "crlf_at ?s = Some (length t + 1)"
    by (rule crlf_line [OF crlf_from_shift [OF assms(3)]])
  have "line_elem strtod ?s = Frame (pk, 0, 49 + length t) (length t + 3)"
    unfolding line_elem_def c option.case line_start
    using assms(2,4) line_text(1) [OF refl, of t prot s] by (simp add: line_node_def)
  with assms(1) show ?thesis by (simp add: redis_elem_def)
qed

lemma head_text:
  assumes "-1 \<le> i" "i < 2 ^ 63"
  shows "bulk_head (resp_line prot (int_text i) @ s) = Frame (length (int_text i) + 1, i) (length (int_text i) + 3)"
proof -
  let ?s = "resp_line prot (int_text i) @ s"
  have l: "length (int_text i) \<le> 20" using length_int_text [of i] assms by simp
  have "crlf_at ?s = Some (length (int_text i) + 1)" by (rule crlf_line [OF int_text_line])
  then have c: "crlf_at (take 66 ?s) = Some (length (int_text i) + 1)"
    using l by (simp only: crlf_at_take option.case) simp
  have t: "take (length (int_text i) + 1 - 1) (drop 1 ?s) = int_text i" by (rule line_text(1)) simp
  show ?thesis unfolding bulk_head_is(1) [OF c] t parse_num_int_text [OF assms] by simp
qed

lemma elem_bulk:
  assumes prot: "is_bulk prot" "prot \<noteq> RESP_VERB" and t: "length t \<le> 536870912"
  shows "redis_elem strtod (resp_bulk prot t @ s) = Frame (line_node prot t, 0, 50 + length t) (length (resp_bulk prot t))"
proof -
  let ?i = "int_text (int (length t))"
  have h: "bulk_head (resp_bulk prot t @ s) = Frame (length ?i + 1, int (length t)) (length ?i + 3)"
    using head_text [of "int (length t)" prot "t @ [13, 10] @ s"] t by (simp add: resp_bulk_def)
  have d: "take (nat (int (length t)) + 2) (drop (length ?i + 1 + 2) (resp_bulk prot t @ s)) = t @ [13, 10]"
    using line_text(2) [OF refl, of ?i prot "t @ [13, 10] @ s"] by (simp add: resp_bulk_def)
  have first: "(resp_bulk prot t @ s) ! 0 = prot" by (simp add: resp_bulk_def resp_line_def)
  have l: "length (resp_bulk prot t) = length ?i + length t + 5" by (simp add: resp_bulk_def)
  have nl: "\<not> is_line prot" using prot(1) by (auto simp: is_bulk_def is_line_def resp_defs)
  have "redis_bulk_value prot (int (length t)) (t @ [13, 10]) = Some (line_node prot t :: 'a redis_node)"
    using prot(2) by (simp add: redis_bulk_value_def line_node_def nth_append)
  then have "bulk_elem (resp_bulk prot t @ s) = Frame (line_node prot t :: 'a redis_node, 0, 50 + length t) (length (resp_bulk prot t))"
    unfolding bulk_elem_def h frame_res.case prod.case first d using t by (simp add: l)
  with nl prot(1) show ?thesis by (simp add: redis_elem_def first l)
qed

lemma elem_verb:
  assumes "length enc = 3" "length t \<le> 536870908"
  shows "redis_elem strtod (resp_bulk RESP_VERB (enc @ 58 # t) @ s) =
    Frame ((line_node RESP_VERB t)\<lparr>rp_venc := enc\<rparr>, 0, 54 + length t) (length (resp_bulk RESP_VERB (enc @ 58 # t)))"
proof -
  let ?t = "enc @ 58 # t" and ?i = "int_text (int (length t) + 4)"
  have lt: "int (length ?t) = int (length t) + 4" using assms(1) by simp
  have h: "bulk_head (resp_bulk RESP_VERB ?t @ s) = Frame (length ?i + 1, int (length t) + 4) (length ?i + 3)"
    using head_text [of "int (length t) + 4" RESP_VERB "?t @ [13, 10] @ s"] assms(2) unfolding resp_bulk_def lt by simp
  have n: "nat (int (length t) + 4) = length t + 4" by simp
  have d: "take (nat (int (length t) + 4) + 2) (drop (length ?i + 1 + 2) (resp_bulk RESP_VERB ?t @ s)) = ?t @ [13, 10]"
  proof -
    have "drop (length ?i + 1 + 2) (resp_bulk RESP_VERB ?t @ s) = (?t @ [13, 10]) @ s"
      using line_text(2) [OF refl, of ?i RESP_VERB "?t @ [13, 10] @ s"] unfolding resp_bulk_def lt by simp
    moreover have "nat (int (length t) + 4) + 2 = length (?t @ [13, 10])" using assms(1) by simp
    ultimately show ?thesis by (metis append_eq_conv_conj)
  qed
  have first: "(resp_bulk RESP_VERB ?t @ s) ! 0 = RESP_VERB" by (simp add: resp_bulk_def resp_line_def)
  have l: "length (resp_bulk RESP_VERB ?t) = length ?i + length t + 9" using assms(1) unfolding resp_bulk_def lt by simp
  have "redis_bulk_value RESP_VERB (int (length t) + 4) (?t @ [13, 10]) = Some ((line_node RESP_VERB t)\<lparr>rp_venc := enc\<rparr> :: 'a redis_node)"
    using assms(1) by (simp add: redis_bulk_value_def line_node_def redis_node_def n nth_append)
  moreover have "length (resp_bulk RESP_VERB ?t @ s) \<ge> length ?i + length t + 9" using l by simp
  ultimately have "bulk_elem (resp_bulk RESP_VERB ?t @ s) =
      Frame ((line_node RESP_VERB t)\<lparr>rp_venc := enc\<rparr> :: 'a redis_node, 0, 54 + length t) (length (resp_bulk RESP_VERB ?t))"
    unfolding bulk_elem_def h frame_res.case prod.case first d using assms(2) by (simp add: l n)
  moreover have "\<not> is_line RESP_VERB" "is_bulk RESP_VERB" by (simp_all add: is_line_def is_bulk_def resp_defs)
  ultimately show ?thesis using l by (simp add: redis_elem_def first)
qed

lemma elem_null:
  "redis_elem strtod (resp_line RESP_BSTRING (int_text (-1)) @ s) = Frame ((redis_node RESP_BSTRING)\<lparr>rp_len := -1\<rparr>, 0, 49) (length (resp_line RESP_BSTRING (int_text (-1))))"
proof -
  have "\<not> is_line RESP_BSTRING" "is_bulk RESP_BSTRING" by (simp_all add: is_line_def is_bulk_def resp_defs)
  then show ?thesis by (simp add: redis_elem_def bulk_elem_def head_text)
qed

lemma elem_agg:
  assumes "is_agg prot" "-1 \<le> i" "i \<le> 2147483647"
  shows "redis_elem strtod (resp_line prot (int_text i) @ s) =
    Frame ((redis_node prot)\<lparr>rp_nelem := i\<rparr>, if 0 < i then (if prot = RESP_ATTR \<or> prot = RESP_MAP then i * 2 else i) else 0, 49)
      (length (resp_line prot (int_text i)))"
proof -
  have "\<not> is_line prot" "\<not> is_bulk prot" using assms(1) by (auto simp: is_line_def is_bulk_def is_agg_def resp_defs)
  with assms show ?thesis by (simp add: redis_elem_def agg_elem_def head_text)
qed

end
