(* ===== verification/Redis_Value.thy ===== *)
theory Redis_Value
  imports Redis_Reply
begin

text \<open>
  The round trip of RESP values: the elements a value is printed as fill one place of the aggregate
  on top of the reader's stack, so a reader that starts on a printed value ends on its nodes.
\<close>

section \<open>Filling the stack\<close>

text \<open>What \<open>_redis_node_new\<close> counts for a node.\<close>

definition node_bytes :: "'d redis_node \<Rightarrow> nat" where
  "node_bytes pk =
     (if is_line (rp_prot pk) then 49 + nat (rp_len pk)
      else if is_bulk (rp_prot pk) \<and> rp_len pk \<noteq> -1 then (if rp_prot pk = RESP_VERB then 54 else 50) + nat (rp_len pk)
      else 49)"

definition rd_with :: "'d redis_reader \<Rightarrow> 'd redis_node list \<Rightarrow> redis_frame list \<Rightarrow> 'd redis_reader" where
  "rd_with rd ns st = \<lparr>rd_count = rd_count rd + length ns, rd_nodes = rd_nodes rd @ ns,
     rd_bytes = rd_bytes rd + sum_list (map node_bytes ns), rd_stack = st\<rparr>"

lemma rd_with_simps [simp]:
  "rd_stack (rd_with rd ns st) = st" "rd_count (rd_with rd ns st) = rd_count rd + length ns"
  "rd_nodes (rd_with rd ns st) = rd_nodes rd @ ns" "rd_bytes (rd_with rd ns st) = rd_bytes rd + sum_list (map node_bytes ns)"
  "rd_with (rd_with rd ns st) ms st' = rd_with rd (ns @ ms) st'"
  by (simp_all add: rd_with_def)

definition go_on :: "(bytes \<Rightarrow> 'd option) \<Rightarrow> 'd redis_reader \<Rightarrow> bytes \<Rightarrow> 'd reply_res" where
  "go_on strtod rd s = (if rd_stack rd = [] then RDone (rd_nodes rd) (rd_bytes rd) s else redis_go strtod rd s)"

lemma go_elem:
  assumes "redis_elem strtod (e @ s) = Frame (pk, open, node_bytes pk) (length e)" "rd_count rd < 262144"
    "0 < open \<longrightarrow> length (rd_stack rd) < 18"
  shows "redis_go strtod rd (e @ s) = go_on strtod (rd_with rd [pk]
      (if 0 < open then \<lparr>fr_attr = (rp_prot pk = RESP_ATTR), fr_remain = open\<rparr> # rd_stack rd
       else if rp_prot pk = RESP_ATTR then rd_stack rd else redis_consume (rd_stack rd))) s"
proof -
  let ?st = "if 0 < open then \<lparr>fr_attr = (rp_prot pk = RESP_ATTR), fr_remain = open\<rparr> # rd_stack rd
       else if rp_prot pk = RESP_ATTR then rd_stack rd else redis_consume (rd_stack rd)"
  have "\<not> (0 < open \<and> 18 \<le> length (rd_stack rd))" using assms(3) by auto
  then have a: "reply_add (pk, open, node_bytes pk) rd = Some (rd_with rd [pk] ?st)"
    unfolding reply_add_def prod.case rd_with_def by (simp only: if_False) simp
  have c: "\<not> 262144 \<le> rd_count rd" using assms(2) by simp
  have "redis_go strtod rd (e @ s) =
      (if rd_stack (rd_with rd [pk] ?st) = [] then RDone (rd_nodes (rd_with rd [pk] ?st)) (rd_bytes (rd_with rd [pk] ?st)) s
       else redis_go strtod (rd_with rd [pk] ?st) s)"
    unfolding redis_go.simps [of strtod rd "e @ s"] if_not_P [OF c] assms(1) frame_res.case a option.case by simp
  then show ?thesis unfolding go_on_def .
qed

text \<open>A value takes one place of the top frame.\<close>

definition fills :: "(bytes \<Rightarrow> 'd option) \<Rightarrow> resp \<Rightarrow> bool" where
  "fills strtod v \<longleftrightarrow> (\<forall>rd s. rd_stack rd \<noteq> [] \<longrightarrow> rd_count rd + length (resp_nodes strtod v) \<le> 262144 \<longrightarrow>
     length (rd_stack rd) + resp_depth v \<le> 18 \<longrightarrow>
     redis_go strtod rd (resp_print v @ s) = go_on strtod (rd_with rd (resp_nodes strtod v) (redis_consume (rd_stack rd))) s)"

lemma resp_nodes_some [simp]: "resp_nodes strtod v \<noteq> []"
  by (cases v) simp_all

lemma many_nodes: "length vs \<le> length (concat (map (resp_nodes strtod) vs))"
proof (induction vs)
  case (Cons v vs)
  obtain n ns where "resp_nodes strtod v = n # ns" using resp_nodes_some by (cases "resp_nodes strtod v") auto
  with Cons show ?case by simp
qed simp

lemma depth_elem: "v \<in> set vs \<Longrightarrow> Suc (resp_depth v) \<le> foldr max (map (\<lambda>v. Suc (resp_depth v)) vs) 0"
  by (induction vs) auto

lemma fill_frame:
  assumes "\<forall>v\<in>set vs. fills strtod v" "vs \<noteq> []" "rd_stack rd = f # fs" "fr_remain f = int (length vs)"
    "rd_count rd + length (concat (map (resp_nodes strtod) vs)) \<le> 262144" "\<forall>v\<in>set vs. length (f # fs) + resp_depth v \<le> 18"
  shows "redis_go strtod rd (concat (map resp_print vs) @ s) =
    go_on strtod (rd_with rd (concat (map (resp_nodes strtod) vs)) (if fr_attr f then fs else redis_consume fs)) s"
  using assms
proof (induction vs arbitrary: rd f)
  case (Cons v vs)
  let ?ns = "resp_nodes strtod v" and ?f = "f\<lparr>fr_remain := fr_remain f - 1\<rparr>"
  have "redis_go strtod rd (resp_print v @ (concat (map resp_print vs) @ s)) =
      go_on strtod (rd_with rd ?ns (redis_consume (f # fs))) (concat (map resp_print vs) @ s)"
    using Cons.prems by (simp add: fills_def)
  moreover have "go_on strtod (rd_with rd ?ns (redis_consume (f # fs))) (concat (map resp_print vs) @ s) =
      go_on strtod (rd_with rd (?ns @ concat (map (resp_nodes strtod) vs)) (if fr_attr f then fs else redis_consume fs)) s"
  proof (cases "vs = []")
    case True
    with Cons.prems(4) show ?thesis by (simp add: Let_def)
  next
    case False
    then have "0 < length vs" by simp
    then have c: "redis_consume (f # fs) = ?f # fs" using Cons.prems(4) by (simp add: Let_def)
    have "redis_go strtod (rd_with rd ?ns (?f # fs)) (concat (map resp_print vs) @ s) =
        go_on strtod (rd_with (rd_with rd ?ns (?f # fs)) (concat (map (resp_nodes strtod) vs))
          (if fr_attr ?f then fs else redis_consume fs)) s"
      by (rule Cons.IH) (use Cons.prems False in auto)
    then show ?thesis unfolding c go_on_def by simp
  qed
  ultimately show ?case by simp
qed simp

lemma fill_aggregate:
  assumes head: "\<And>s. redis_elem strtod (e @ s) = Frame (pk, int (length vs), node_bytes pk) (length e)"
    and vs: "\<forall>v\<in>set vs. fills strtod v" and rd: "rd_stack rd \<noteq> []"
    and room: "rd_count rd + Suc (length (concat (map (resp_nodes strtod) vs))) \<le> 262144"
    and deep: "length (rd_stack rd) + foldr max (map (\<lambda>v. Suc (resp_depth v)) vs) 0 \<le> 18"
  shows "redis_go strtod rd (e @ concat (map resp_print vs) @ s) =
    go_on strtod (rd_with rd (pk # concat (map (resp_nodes strtod) vs))
      (if rp_prot pk = RESP_ATTR then rd_stack rd else redis_consume (rd_stack rd))) s"
proof (cases "vs = []")
  case True
  then show ?thesis using go_elem [OF head, of rd] room by simp
next
  case False
  let ?f = "\<lparr>fr_attr = (rp_prot pk = RESP_ATTR), fr_remain = int (length vs)\<rparr>"
  obtain v0 where "v0 \<in> set vs" using False by (cases vs) auto
  then have d: "length (rd_stack rd) < 18" using depth_elem [of v0 vs] deep by linarith
  have n: "0 < int (length vs)" using False by simp
  have "redis_go strtod rd (e @ concat (map resp_print vs) @ s) =
      go_on strtod (rd_with rd [pk] (?f # rd_stack rd)) (concat (map resp_print vs) @ s)"
    using go_elem [OF head, of rd] room n d by simp
  also have "\<dots> = redis_go strtod (rd_with rd [pk] (?f # rd_stack rd)) (concat (map resp_print vs) @ s)"
    by (simp add: go_on_def)
  also have "\<dots> = go_on strtod (rd_with (rd_with rd [pk] (?f # rd_stack rd)) (concat (map (resp_nodes strtod) vs))
      (if fr_attr ?f then rd_stack rd else redis_consume (rd_stack rd))) s"
  proof (rule fill_frame [OF vs False])
    show "\<forall>v\<in>set vs. length (?f # rd_stack rd) + resp_depth v \<le> 18"
    proof
      fix v assume "v \<in> set vs"
      then show "length (?f # rd_stack rd) + resp_depth v \<le> 18" using depth_elem [of v vs] deep by simp
    qed
  qed (use room in simp_all)
  finally show ?thesis by simp
qed

section \<open>Every value\<close>

lemma leaf_fills:
  assumes "\<And>s. redis_elem strtod (resp_print v @ s) = Frame (pk, 0, node_bytes pk) (length (resp_print v))"
    "resp_nodes strtod v = [pk]" "rp_prot pk \<noteq> RESP_ATTR"
  shows "fills strtod v"
  using assms by (simp add: fills_def go_elem)

lemma line_kinds [simp]:
  "is_line RESP_STRING" "is_line RESP_ERROR" "is_line RESP_INTEGER" "is_line RESP_NIL" "is_line RESP_BOOL"
  "is_line RESP_DOUBLE" "is_line RESP_BIGNUM" "is_bulk RESP_BSTRING" "is_bulk RESP_BERROR" "is_bulk RESP_VERB"
  "is_agg RESP_ARRAY" "is_agg RESP_SET" "is_agg RESP_PUSHE" "is_agg RESP_MAP" "is_agg RESP_ATTR"
  "\<not> is_line RESP_BSTRING" "\<not> is_line RESP_BERROR" "\<not> is_line RESP_VERB"
  "\<not> is_line RESP_ARRAY" "\<not> is_line RESP_SET" "\<not> is_line RESP_PUSHE" "\<not> is_line RESP_MAP" "\<not> is_line RESP_ATTR"
  "\<not> is_bulk RESP_ARRAY" "\<not> is_bulk RESP_SET" "\<not> is_bulk RESP_PUSHE" "\<not> is_bulk RESP_MAP" "\<not> is_bulk RESP_ATTR"
  by (simp_all add: is_line_def is_bulk_def is_agg_def resp_defs)

lemma kinds_differ [simp]:
  "is_line prot \<Longrightarrow> prot \<noteq> RESP_ATTR" "is_bulk prot \<Longrightarrow> prot \<noteq> RESP_ATTR" "RESP_MAP \<noteq> RESP_ATTR"
  "RESP_BSTRING \<noteq> RESP_VERB" "RESP_BERROR \<noteq> RESP_VERB" "RESP_ARRAY \<noteq> RESP_ATTR" "RESP_ARRAY \<noteq> RESP_MAP"
  "RESP_SET \<noteq> RESP_ATTR" "RESP_SET \<noteq> RESP_MAP" "RESP_PUSHE \<noteq> RESP_ATTR" "RESP_PUSHE \<noteq> RESP_MAP"
  by (auto simp: is_line_def is_bulk_def resp_defs)

lemma node_simps [simp]:
  "rp_prot (redis_node prot) = prot" "rp_prot (line_node prot t) = prot" "rp_len (line_node prot t) = int (length t)"
  "rp_data (line_node prot t) = t"
  by (simp_all add: redis_node_def line_node_def)

text \<open>A line whose value is \<open>pk\<close>.\<close>

lemma line_fills:
  assumes "is_line prot" "line_ok t" "redis_line_value strtod (line_node prot t) = Some pk" "rp_prot pk = prot"
    "rp_len pk = int (length t)" "resp_print v = resp_line prot t" "resp_nodes strtod v = [pk]"
  shows "fills strtod v"
proof (rule leaf_fills [OF _ assms(7)])
  fix s
  show "redis_elem strtod (resp_print v @ s) = Frame (pk, 0, node_bytes pk) (length (resp_print v))"
    using elem_line [OF assms(1) _ _ assms(3)] assms by (simp add: line_ok_def node_bytes_def)
qed (use assms(1,4) in simp)

lemma bulk_fills:
  assumes "is_bulk prot" "prot \<noteq> RESP_VERB" "length t \<le> 536870912" "resp_print v = resp_bulk prot t"
    "resp_nodes strtod v = [line_node prot t]" "\<not> is_line prot"
  shows "fills strtod v"
proof (rule leaf_fills [OF _ assms(5)])
  fix s
  show "redis_elem strtod (resp_print v @ s) = Frame (line_node prot t, 0, node_bytes (line_node prot t :: 'a redis_node)) (length (resp_print v))"
    using assms by (simp add: elem_bulk node_bytes_def)
qed (use assms(1) in simp)

lemma line_ok_simple:
  "13 \<notin> set t \<Longrightarrow> length t < 65535 \<Longrightarrow> line_ok t"
  by (simp add: line_ok_def no_cr_line)

lemma line_ok_int: "- (2 ^ 63) \<le> i \<Longrightarrow> i < 2 ^ 63 \<Longrightarrow> line_ok (int_text i)"
  using length_int_text [of i] int_text_line [of 0 i] by (simp add: line_ok_def)

lemma resp_distinct [simp]:
  "RESP_STRING \<noteq> RESP_INTEGER" "RESP_STRING \<noteq> RESP_BIGNUM" "RESP_STRING \<noteq> RESP_NIL" "RESP_STRING \<noteq> RESP_BOOL" "RESP_STRING \<noteq> RESP_DOUBLE"
  "RESP_ERROR \<noteq> RESP_INTEGER" "RESP_ERROR \<noteq> RESP_BIGNUM" "RESP_ERROR \<noteq> RESP_NIL" "RESP_ERROR \<noteq> RESP_BOOL" "RESP_ERROR \<noteq> RESP_DOUBLE"
  "RESP_BIGNUM \<noteq> RESP_INTEGER" "RESP_NIL \<noteq> RESP_INTEGER" "RESP_NIL \<noteq> RESP_BIGNUM"
  "RESP_BOOL \<noteq> RESP_INTEGER" "RESP_BOOL \<noteq> RESP_BIGNUM" "RESP_BOOL \<noteq> RESP_NIL"
  "RESP_DOUBLE \<noteq> RESP_INTEGER" "RESP_DOUBLE \<noteq> RESP_BIGNUM" "RESP_DOUBLE \<noteq> RESP_NIL" "RESP_DOUBLE \<noteq> RESP_BOOL"
  by (simp_all add: resp_defs)

lemma special_texts:
  "\<not> special_number t \<Longrightarrow> \<not> same_text t [105, 110, 102] \<and> \<not> same_text t [45, 105, 110, 102] \<and> \<not> same_text t [110, 97, 110] \<and>
     \<not> same_text t [45, 110, 97, 110]"
  by (simp add: special_number_def)

lemma even_elem:
  assumes "prot = RESP_MAP \<or> prot = RESP_ATTR" "even (length vs)" "length vs \<le> 262144"
  shows "redis_elem strtod (resp_line prot (int_text (int (length vs) div 2)) @ s) =
    Frame ((redis_node prot)\<lparr>rp_nelem := int (length vs) div 2\<rparr>, int (length vs),
      node_bytes ((redis_node prot)\<lparr>rp_nelem := int (length vs) div 2\<rparr> :: 'a redis_node))
      (length (resp_line prot (int_text (int (length vs) div 2))))"
proof -
  have p: "is_agg prot" "\<not> is_line prot" "\<not> is_bulk prot" using assms(1) by auto
  obtain k where k: "length vs = 2 * k" using assms(2) by blast
  with elem_agg [OF p(1), of "int k" strtod s] assms(1,3) p show ?thesis by (auto simp: node_bytes_def)
qed

lemma fills_all: "resp_ok strtod v \<Longrightarrow> fills strtod v"
proof (induction v)
  case (VSimple t)
  then show ?case by (intro line_fills [where prot = RESP_STRING and t = t and pk = "line_node RESP_STRING t"]) (simp_all add: redis_line_value_def Let_def)
next
  case (VError t)
  then show ?case by (intro line_fills [where prot = RESP_ERROR and t = t and pk = "line_node RESP_ERROR t"]) (simp_all add: redis_line_value_def Let_def)
next
  case (VInt i)
  then have i: "- (2 ^ 63) \<le> i" "i < 2 ^ 63" by simp_all
  show ?case
    by (rule line_fills [where prot = RESP_INTEGER and t = "int_text i" and pk = "(line_node RESP_INTEGER (int_text i))\<lparr>rp_ival := i\<rparr>"])
      (simp_all add: redis_line_value_def Let_def int_text_some line_ok_int [OF i] parse_integer_int_text [OF i])
next
  case VNil
  then show ?case
    by (intro line_fills [where prot = RESP_NIL and t = "[]" and pk = "line_node RESP_NIL []"])
      (simp_all add: redis_line_value_def Let_def line_ok_simple)
next
  case (VBool b)
  have "(line_node RESP_BOOL [102] :: 'a redis_node)\<lparr>rp_ival := 0\<rparr> = line_node RESP_BOOL [102]" by (simp add: line_node_def redis_node_def)
  then show ?case
    by (intro line_fills [where prot = RESP_BOOL and t = "[if b then 116 else 102]" and
        pk = "(line_node RESP_BOOL [if b then 116 else 102])\<lparr>rp_ival := if b then 1 else 0\<rparr>"])
      (simp_all add: redis_line_value_def Let_def line_ok_simple)
next
  case VInf
  then show ?case
    by (intro line_fills [where prot = RESP_DOUBLE and t = "[105, 110, 102]" and pk = "(line_node RESP_DOUBLE [105, 110, 102])\<lparr>rp_dval := DInf\<rparr>"])
      (simp_all add: redis_line_value_def Let_def line_ok_simple same_text_def)
next
  case VNegInf
  then show ?case
    by (intro line_fills [where prot = RESP_DOUBLE and t = "[45, 105, 110, 102]" and pk = "(line_node RESP_DOUBLE [45, 105, 110, 102])\<lparr>rp_dval := DNegInf\<rparr>"])
      (simp_all add: redis_line_value_def Let_def line_ok_simple same_text_def)
next
  case VNan
  then show ?case
    by (intro line_fills [where prot = RESP_DOUBLE and t = "[110, 97, 110]" and pk = "(line_node RESP_DOUBLE [110, 97, 110])\<lparr>rp_dval := DNan\<rparr>"])
      (simp_all add: redis_line_value_def Let_def line_ok_simple same_text_def)
next
  case (VNum t)
  then obtain d where "strtod t = Some d" by auto
  with VNum show ?case
    by (intro line_fills [where prot = RESP_DOUBLE and t = t and pk = "(line_node RESP_DOUBLE t)\<lparr>rp_dval := DVal (the (strtod t))\<rparr>"])
      (simp_all add: redis_line_value_def Let_def special_texts)
next
  case (VBig t)
  then show ?case
    by (intro line_fills [where prot = RESP_BIGNUM and t = t and pk = "line_node RESP_BIGNUM t"])
      (simp_all add: redis_line_value_def Let_def)
next
  case (VBulk t)
  then show ?case by (intro bulk_fills [where prot = RESP_BSTRING and t = t]) simp_all
next
  case (VBlobError t)
  then show ?case by (intro bulk_fills [where prot = RESP_BERROR and t = t]) simp_all
next
  case (VVerb enc t)
  then show ?case
    by (intro leaf_fills [where pk = "(line_node RESP_VERB t)\<lparr>rp_venc := enc\<rparr>"]) (simp_all add: elem_verb node_bytes_def)
next
  case VNullBulk
  show ?case
    by (rule leaf_fills [where pk = "(redis_node RESP_BSTRING)\<lparr>rp_len := -1\<rparr>"]) (simp_all add: elem_null node_bytes_def)
next
  case VNullArray
  show ?case
    by (rule leaf_fills [where pk = "(redis_node RESP_ARRAY)\<lparr>rp_nelem := -1\<rparr>"]) (simp_all add: elem_agg node_bytes_def)
next
  case (VAgg prot vs)
  have vs: "\<forall>v\<in>set vs. fills strtod v" using VAgg by (auto simp: list_all_iff)
  show ?case unfolding fills_def
  proof (intro allI impI)
    fix rd :: "'a redis_reader" and s
    assume rd: "rd_stack rd \<noteq> []" "rd_count rd + length (resp_nodes strtod (VAgg prot vs)) \<le> 262144"
      "length (rd_stack rd) + resp_depth (VAgg prot vs) \<le> 18"
    have n: "int (length vs) \<le> 2147483647" using rd(2) many_nodes [of vs strtod] by (simp del: length_concat)
    have p: "is_agg prot" "prot \<noteq> RESP_ATTR" "prot \<noteq> RESP_MAP" "\<not> is_line prot" "\<not> is_bulk prot"
      using VAgg.prems by (auto simp: is_agg_def is_line_def is_bulk_def resp_defs)
    have e: "redis_elem strtod (resp_line prot (int_text (int (length vs))) @ s) =
      Frame ((redis_node prot)\<lparr>rp_nelem := int (length vs)\<rparr>, int (length vs), node_bytes ((redis_node prot)\<lparr>rp_nelem := int (length vs)\<rparr> :: 'a redis_node))
        (length (resp_line prot (int_text (int (length vs)))))" for s
      using elem_agg [OF p(1), of "int (length vs)" strtod s] n p by (simp add: node_bytes_def)
    have "redis_go strtod rd (resp_line prot (int_text (int (length vs))) @ concat (map resp_print vs) @ s) =
        go_on strtod (rd_with rd ((redis_node prot)\<lparr>rp_nelem := int (length vs)\<rparr> # concat (map (resp_nodes strtod) vs))
          (if rp_prot ((redis_node prot)\<lparr>rp_nelem := int (length vs)\<rparr> :: 'a redis_node) = RESP_ATTR then rd_stack rd
           else redis_consume (rd_stack rd))) s"
      by (rule fill_aggregate [OF e vs rd(1)]) (use rd(2,3) in \<open>simp_all del: length_concat\<close>)
    with p show "redis_go strtod rd (resp_print (VAgg prot vs) @ s) =
        go_on strtod (rd_with rd (resp_nodes strtod (VAgg prot vs)) (redis_consume (rd_stack rd))) s"
      by simp
  qed
next
  case (VMap vs)
  have vs: "\<forall>v\<in>set vs. fills strtod v" "even (length vs)" using VMap by (auto simp: list_all_iff)
  show ?case unfolding fills_def
  proof (intro allI impI)
    fix rd :: "'a redis_reader" and s
    assume rd: "rd_stack rd \<noteq> []" "rd_count rd + length (resp_nodes strtod (VMap vs)) \<le> 262144"
      "length (rd_stack rd) + resp_depth (VMap vs) \<le> 18"
    have n: "length vs \<le> 262144" using rd(2) many_nodes [of vs strtod] by (simp del: length_concat)
    from fill_aggregate [OF even_elem [where prot = RESP_MAP, OF _ vs(2) n] vs(1) rd(1), of s] rd
    show "redis_go strtod rd (resp_print (VMap vs) @ s) =
        go_on strtod (rd_with rd (resp_nodes strtod (VMap vs)) (redis_consume (rd_stack rd))) s"
      by (simp del: length_concat)
  qed
next
  case (VAttr vs v)
  have vs: "\<forall>v\<in>set vs. fills strtod v" "even (length vs)" "fills strtod v" using VAttr by (auto simp: list_all_iff)
  show ?case unfolding fills_def
  proof (intro allI impI)
    fix rd :: "'a redis_reader" and s
    assume rd: "rd_stack rd \<noteq> []" "rd_count rd + length (resp_nodes strtod (VAttr vs v)) \<le> 262144"
      "length (rd_stack rd) + resp_depth (VAttr vs v) \<le> 18"
    have n: "length vs \<le> 262144" using rd(2) many_nodes [of vs strtod] by (simp del: length_concat)
    from fill_aggregate [OF even_elem [where prot = RESP_ATTR, OF _ vs(2) n] vs(1) rd(1), of "resp_print v @ s"] rd
      vs(3) [unfolded fills_def, rule_format]
    show "redis_go strtod rd (resp_print (VAttr vs v) @ s) =
        go_on strtod (rd_with rd (resp_nodes strtod (VAttr vs v)) (redis_consume (rd_stack rd))) s"
      by (simp add: go_on_def del: length_concat)
  qed
qed

end
