(* ===== verification/Redis_Run.thy ===== *)
theory Redis_Run
  imports Redis_Value
begin

text \<open>
  The properties of the redis client's receive side: every call of the parser returns, what it
  returns and keeps is well formed, the replies a task gets do not depend on how the network cuts
  the stream, what a server printed is what the task gets, and which reply resumes a caller.
\<close>

section \<open>Fuel\<close>

lemma redis_loop_Suc:
  "redis_loop strtod (Suc k) rd b st =
     (if REDIS_MAX_NODES \<le> rd_count rd then Some (None, 0, bit_set st PROT_ERROR, rd, b)
      else if buffer_size b < 1 + 2 then Some (None, 0, bit_set st PROT_MOREDATA, rd, b)
      else Option.bind (buffer_copyout b 0 (if REDIS_HDR_PEEK < buffer_size b then REDIS_HDR_PEEK else buffer_size b)) (\<lambda>(hdr, _, b).
        if \<not> is_line (hdr ! 0) \<and> \<not> is_bulk (hdr ! 0) \<and> \<not> is_agg (hdr ! 0)
        then Some (None, 0, bit_set st PROT_ERROR, rd, b)
        else Option.bind (read_elem strtod rd (hdr ! 0) b hdr st) (\<lambda>(ok, rd, st, b).
          if \<not> ok then Some (None, 0, st, rd, b)
          else if rd_stack rd = [] then Some (Some (rd_nodes rd), rd_bytes rd, st, redis_new_reader, b)
          else redis_loop strtod k rd b st)))"
  unfolding redis_loop.simps Let_def read_elem_def ..

declare redis_loop.simps(2) [simp del]

lemma loop_more_fuel:
  "redis_loop strtod k rd b st = Some r \<Longrightarrow> redis_loop strtod (k + j) rd b st = Some r"
proof (induction k arbitrary: rd b st)
  case (Suc k)
  note run = Suc.prems [unfolded redis_loop_Suc]
  show ?case
  proof (cases "REDIS_MAX_NODES \<le> rd_count rd \<or> buffer_size b < 1 + 2")
    case True
    with run show ?thesis by (auto simp: redis_loop_Suc)
  next
    case False
    then have c: "\<not> REDIS_MAX_NODES \<le> rd_count rd" "\<not> buffer_size b < 1 + 2" by simp_all
    let ?n = "if REDIS_HDR_PEEK < buffer_size b then REDIS_HDR_PEEK else buffer_size b"
    obtain hdr n b1 where h: "buffer_copyout b 0 ?n = Some (hdr, n, b1)"
      using run unfolding if_not_P [OF c(1)] if_not_P [OF c(2)] by (auto simp: bind_eq_Some_conv)
    note run = run [unfolded if_not_P [OF c(1)] if_not_P [OF c(2)] h bind.bind_lunit prod.case]
    show ?thesis
    proof (cases "\<not> is_line (hdr ! 0) \<and> \<not> is_bulk (hdr ! 0) \<and> \<not> is_agg (hdr ! 0)")
      case True
      with run c h show ?thesis by (simp add: redis_loop_Suc)
    next
      case kind: False
      obtain ok rd1 st1 b2 where e: "read_elem strtod rd (hdr ! 0) b1 hdr st = Some (ok, rd1, st1, b2)"
        using run unfolding if_not_P [OF kind] by (auto simp: bind_eq_Some_conv)
      note run = run [unfolded if_not_P [OF kind] e bind.bind_lunit prod.case]
      have "redis_loop strtod (Suc (k + j)) rd b st =
          (if \<not> ok then Some (None, 0, st1, rd1, b2)
           else if rd_stack rd1 = [] then Some (Some (rd_nodes rd1), rd_bytes rd1, st1, redis_new_reader, b2)
           else redis_loop strtod (k + j) rd1 b2 st1)"
        unfolding redis_loop_Suc if_not_P [OF c(1)] if_not_P [OF c(2)] h bind.bind_lunit prod.case if_not_P [OF kind] e ..
      with run Suc.IH show ?thesis by (auto split: if_splits)
    qed
  qed
qed simp

lemma loop_fuel:
  assumes "redis_loop strtod k rd b st = Some r" "redis_loop strtod j rd b st = Some r'"
  shows "r = r'"
proof (cases "k \<le> j")
  case True
  then show ?thesis using loop_more_fuel [OF assms(1), of "j - k"] assms(2) by simp
next
  case False
  then show ?thesis using loop_more_fuel [OF assms(2), of "k - j"] assms(1) by simp
qed

lemma loop_returns: "binv b \<Longrightarrow> length (content b) < 3 * k \<Longrightarrow> \<exists>r. redis_loop strtod k rd b st = Some r"
  using redis_loop_ok [of b k strtod rd st]
  by (cases "redis_go strtod rd (content b)") (auto simp: unpack_ok_def)

section \<open>Well-formed readers\<close>

text \<open>A node as its readers of the application expect it.\<close>

definition node_wf :: "'d redis_node \<Rightarrow> bool" where
  "node_wf pk \<longleftrightarrow>
     (is_line (rp_prot pk) \<and> rp_len pk = int (length (rp_data pk)) \<and> rp_len pk < 65535 \<or>
      is_bulk (rp_prot pk) \<and> (rp_len pk = -1 \<and> rp_data pk = [] \<or> rp_len pk = int (length (rp_data pk)) \<and> rp_len pk \<le> 536870912) \<or>
      is_agg (rp_prot pk) \<and> -1 \<le> rp_nelem pk \<and> rp_nelem pk \<le> 2147483647 \<and> rp_data pk = []) \<and>
     (rp_venc pk = [] \<or> rp_prot pk = RESP_VERB \<and> length (rp_venc pk) = 3) \<and>
     (rp_dval pk = DNone \<longleftrightarrow> rp_prot pk \<noteq> RESP_DOUBLE) \<and>
     - (2 ^ 63) \<le> rp_ival pk \<and> rp_ival pk < 2 ^ 63 \<and> (rp_ival pk \<noteq> 0 \<longrightarrow> rp_prot pk = RESP_INTEGER \<or> rp_prot pk = RESP_BOOL)"

definition frame_wf :: "redis_frame \<Rightarrow> bool" where
  "frame_wf f \<longleftrightarrow> 0 < fr_remain f \<and> fr_remain f \<le> 2 * 2147483647"

definition reader_wf :: "'d redis_reader \<Rightarrow> bool" where
  "reader_wf rd \<longleftrightarrow> rd_count rd = length (rd_nodes rd) \<and> rd_count rd \<le> REDIS_MAX_NODES \<and>
     list_all node_wf (rd_nodes rd) \<and> rd_stack rd \<noteq> [] \<and> length (rd_stack rd) \<le> REDIS_MAX_DEPTH \<and>
     last (rd_stack rd) = \<lparr>fr_attr = False, fr_remain = 1\<rparr> \<and> list_all frame_wf (rd_stack rd)"

lemma new_reader_wf: "reader_wf redis_new_reader"
  by (simp add: reader_wf_def redis_new_reader_def REDIS_MAX_NODES_def REDIS_MAX_DEPTH_def frame_wf_def)

lemma strtoi64_range: "strtoi64 t = Some i \<Longrightarrow> - (2 ^ 63) \<le> i \<and> i < 2 ^ 63"
  by (auto simp: strtoi64_ok split: option.splits if_splits)

lemma parse_integer_range: "redis_parse_integer t = Some i \<Longrightarrow> - (2 ^ 63) \<le> i \<and> i < 2 ^ 63"
  unfolding redis_parse_integer_def Let_def by (split if_split_asm, split if_split_asm) (auto dest: strtoi64_range)

lemma line_value_wf:
  assumes "redis_line_value strtod (line_node prot t) = Some pk" "is_line prot" "length t < 65535"
  shows "node_wf pk"
proof -
  have n: "rp_venc (line_node prot t :: 'a redis_node) = []" "rp_dval (line_node prot t :: 'a redis_node) = DNone"
    "rp_ival (line_node prot t :: 'a redis_node) = 0"
    by (simp_all add: line_node_def redis_node_def)
  have "rp_prot pk = prot \<and> rp_data pk = t \<and> rp_len pk = int (length t) \<and> rp_venc pk = [] \<and>
      (rp_dval pk = DNone \<longleftrightarrow> prot \<noteq> RESP_DOUBLE) \<and> - (2 ^ 63) \<le> rp_ival pk \<and> rp_ival pk < 2 ^ 63 \<and>
      (rp_ival pk \<noteq> 0 \<longrightarrow> prot = RESP_INTEGER \<or> prot = RESP_BOOL)"
  proof -
    consider "prot = RESP_INTEGER" | "prot = RESP_DOUBLE" | "prot = RESP_BOOL" | "prot \<noteq> RESP_INTEGER" "prot \<noteq> RESP_DOUBLE" "prot \<noteq> RESP_BOOL" by blast
    then show ?thesis
    proof cases
      case 1
      with assms(1) obtain i where "redis_parse_integer t = Some i" "pk = (line_node prot t)\<lparr>rp_ival := i\<rparr>"
        by (auto simp: redis_line_value_def Let_def split: if_splits)
      with 1 n parse_integer_range [of t i] show ?thesis by (simp add: resp_defs)
    next
      case 2
      have "\<exists>d. d \<noteq> DNone \<and> pk = (line_node prot t)\<lparr>rp_dval := d\<rparr>"
        using assms(1) unfolding 2 redis_line_value_def Let_def node_simps
        by (simp split: if_split_asm) auto
      with 2 n show ?thesis by auto
    next
      case 3
      have "pk = (line_node prot t)\<lparr>rp_ival := 1\<rparr> \<or> pk = line_node prot t"
        using assms(1) unfolding 3 redis_line_value_def Let_def node_simps by (simp split: if_split_asm)
      then show ?thesis using n 3 by (elim disjE) (simp_all add: resp_distinct [symmetric])
    next
      case 4
      then have "pk = line_node prot t"
        using assms(1) unfolding redis_line_value_def Let_def node_simps by (simp split: if_split_asm)
      with 4 n show ?thesis by simp
    qed
  qed
  with assms(2,3) show ?thesis by (simp add: node_wf_def)
qed

lemma bulk_value_wf:
  assumes "redis_bulk_value prot v data = Some pk" "is_bulk prot" "0 \<le> v" "v \<le> 536870912" "length data = nat v + 2"
  shows "node_wf pk"
proof -
  have n: "rp_venc (redis_node prot :: 'a redis_node) = []" "rp_dval (redis_node prot :: 'a redis_node) = DNone"
    "rp_ival (redis_node prot :: 'a redis_node) = 0"
    "prot \<noteq> RESP_DOUBLE" using assms(2) by (auto simp: redis_node_def is_bulk_def resp_defs)
  show ?thesis
  proof (cases "prot = RESP_VERB")
    case True
    with assms(1) have v: "4 \<le> v" "pk = (redis_node prot)\<lparr>rp_data := take (nat v - 4) (drop 4 data), rp_venc := take 3 data, rp_len := v - 4\<rparr>"
      by (auto simp: redis_bulk_value_def Let_def redis_node_def split: if_splits)
    with assms(2-5) n True show ?thesis by (auto simp: node_wf_def min_def)
  next
    case False
    with assms(1) have "pk = (redis_node prot)\<lparr>rp_data := take (nat v) data, rp_len := v\<rparr>"
      by (auto simp: redis_bulk_value_def Let_def split: if_splits)
    with assms(2-5) n show ?thesis by (auto simp: node_wf_def min_def)
  qed
qed

lemma elem_wf:
  assumes "redis_elem strtod s = Frame (pk, open, sz) k"
  shows "node_wf pk \<and> open \<le> 2 * 2147483647"
proof -
  have t: "3 \<le> length s" using assms by (auto simp: redis_elem_def split: if_splits)
  consider (line) "is_line (s ! 0)" "line_elem strtod s = Frame (pk, open, sz) k"
    | (bulk) "is_bulk (s ! 0)" "bulk_elem s = Frame (pk, open, sz) k"
    | (agg) "is_agg (s ! 0)" "agg_elem s = Frame (pk, open, sz) k"
    using assms t by (auto simp: redis_elem_def split: if_splits)
  then show ?thesis
  proof cases
    case line
    then obtain p where p: "crlf_at s = Some p" "p \<le> 65535" "open = 0"
      "redis_line_value strtod ((redis_node (s ! 0))\<lparr>rp_len := int (p - 1), rp_data := take (p - 1) (drop 1 s)\<rparr>) = Some pk"
      by (auto simp: line_elem_def split: option.splits if_splits)
    have le: "1 \<le> p" "p + 1 < length s" using p(1) by (auto simp: crlf_at_Some line_end_def)
    have "(redis_node (s ! 0))\<lparr>rp_len := int (p - 1), rp_data := take (p - 1) (drop 1 s)\<rparr> = line_node (s ! 0) (take (p - 1) (drop 1 s))"
      using le by (simp add: line_node_def)
    from p(4) [unfolded this] have "redis_line_value strtod (line_node (s ! 0) (take (p - 1) (drop 1 s))) = Some pk" .
    then have "node_wf pk" using line(1) by (rule line_value_wf) (use le p(2) in simp)
    with p(3) show ?thesis by simp
  next
    case bulk
    obtain p v where h: "bulk_head s = Frame (p, v) (p + 2)"
      using bulk(2) that bulk_head_Frame(1) by (cases "bulk_head s") (fastforce simp: bulk_elem_def)+
    note f = bulk_head_Frame [OF h]
    show ?thesis
    proof (cases "v = -1")
      case True
      then have "pk = (redis_node (s ! 0))\<lparr>rp_len := -1\<rparr>" "open = 0" using bulk(2) h by (auto simp: bulk_elem_def)
      with bulk(1) show ?thesis by (auto simp: node_wf_def redis_node_def is_bulk_def resp_defs)
    next
      case False
      with bulk(2) h have v: "v \<le> 536870912" "open = 0" "nat v + p + 4 \<le> length s"
        "redis_bulk_value (s ! 0) v (take (nat v + 2) (drop (p + 2) s)) = Some pk"
        by (auto simp: bulk_elem_def split: if_splits option.splits)
      then have "node_wf pk" using bulk_value_wf [OF v(4) bulk(1)] f(5) False by simp
      with v(2) show ?thesis by simp
    qed
  next
    case agg
    obtain p v where h: "bulk_head s = Frame (p, v) (p + 2)"
      using agg(2) that bulk_head_Frame(1) by (cases "bulk_head s") (fastforce simp: agg_elem_def)+
    note f = bulk_head_Frame [OF h]
    from agg(2) h have v: "v \<le> 2147483647" "pk = (redis_node (s ! 0))\<lparr>rp_nelem := v\<rparr>" "open \<le> 2 * max v 0"
      by (auto simp: agg_elem_def split: if_splits)
    from v(2) agg(1) f(5) v(1) have "node_wf pk" by (auto simp: node_wf_def redis_node_def is_agg_def resp_defs)
    with v show ?thesis by auto
  qed
qed

lemma consume_wf:
  assumes "st \<noteq> []" "last st = \<lparr>fr_attr = False, fr_remain = 1\<rparr>" "list_all frame_wf st"
  shows "length (redis_consume st) \<le> length st \<and> list_all frame_wf (redis_consume st) \<and>
    (redis_consume st \<noteq> [] \<longrightarrow> last (redis_consume st) = \<lparr>fr_attr = False, fr_remain = 1\<rparr>)"
  using assms
proof (induction st)
  case (Cons f fs)
  then have f: "frame_wf f" by simp
  show ?case
  proof (cases "fs = []")
    case True
    with Cons.prems show ?thesis by (simp add: Let_def)
  next
    case False
    with Cons show ?thesis by (auto simp: Let_def frame_wf_def)
  qed
qed simp

lemma add_wf:
  assumes "reader_wf rd" "rd_count rd < 262144" "node_wf pk" "open \<le> 2 * 2147483647" "reply_add (pk, open, sz) rd = Some rd'"
  shows "list_all node_wf (rd_nodes rd') \<and> rd_nodes rd' \<noteq> [] \<and> length (rd_nodes rd') \<le> REDIS_MAX_NODES \<and>
    (rd_stack rd' \<noteq> [] \<longrightarrow> reader_wf rd')"
proof -
  have room: "\<not> (0 < open \<and> 18 \<le> length (rd_stack rd))" using assms(5) by (auto simp: reply_add_def)
  have rd': "rd_count rd' = rd_count rd + 1" "rd_nodes rd' = rd_nodes rd @ [pk]"
    "rd_stack rd' = (if 0 < open then \<lparr>fr_attr = (rp_prot pk = RESP_ATTR), fr_remain = open\<rparr> # rd_stack rd
                      else if rp_prot pk = RESP_ATTR then rd_stack rd else redis_consume (rd_stack rd))"
    using assms(5) unfolding reply_add_def prod.case if_not_P [OF room] by auto
  have w: "rd_count rd = length (rd_nodes rd)" "list_all node_wf (rd_nodes rd)" "rd_stack rd \<noteq> []" "length (rd_stack rd) \<le> 18"
    "last (rd_stack rd) = \<lparr>fr_attr = False, fr_remain = 1\<rparr>" "list_all frame_wf (rd_stack rd)"
    using assms(1) by (simp_all add: reader_wf_def REDIS_MAX_DEPTH_def)
  note c = consume_wf [OF w(3,5,6)]
  have "rd_stack rd' \<noteq> [] \<longrightarrow> length (rd_stack rd') \<le> 18 \<and> last (rd_stack rd') = \<lparr>fr_attr = False, fr_remain = 1\<rparr> \<and> list_all frame_wf (rd_stack rd')"
    unfolding rd'(3) using c w room assms(4) by (auto simp: frame_wf_def)
  then show ?thesis using w rd'(1,2) assms(2,3) by (simp add: reader_wf_def REDIS_MAX_DEPTH_def REDIS_MAX_NODES_def)
qed

lemma go_wf:
  "reader_wf rd \<Longrightarrow>
   (case redis_go strtod rd s of
      RMore rd' s' \<Rightarrow> reader_wf rd'
    | RBad \<Rightarrow> True
    | RDone nodes sz s' \<Rightarrow> list_all node_wf nodes \<and> nodes \<noteq> [] \<and> length nodes \<le> REDIS_MAX_NODES)"
proof (induction rd s rule: go_induct [of _ strtod])
  case (full rd s)
  then show ?case by (simp add: redis_go.simps)
next
  case (more rd s)
  then show ?case by (simp add: redis_go.simps)
next
  case (bad rd s)
  then show ?case by (simp add: redis_go.simps)
next
  case (deep rd s x n)
  then show ?case by (simp add: redis_go.simps)
next
  case (complete rd s x n rd')
  obtain pk opn sz where x: "x = (pk, opn, sz)" by (cases x) auto
  note e = elem_wf [OF complete(2) [unfolded x]]
  from add_wf [OF complete(5,1) conjunct1 [OF e] conjunct2 [OF e] complete(3) [unfolded x]] complete(1-4)
  show ?case by (simp add: redis_go.simps)
next
  case (step rd s x n rd')
  obtain pk opn sz where x: "x = (pk, opn, sz)" by (cases x) auto
  note e = elem_wf [OF step(2) [unfolded x]]
  have "reader_wf rd'" using add_wf [OF step(6,1) conjunct1 [OF e] conjunct2 [OF e] step(3) [unfolded x]] step(4) by simp
  with step(1-5) show ?case by (simp add: redis_go.simps [of strtod rd])
qed

section \<open>Who is resumed\<close>

text \<open>The value itself, without the attributes in front.\<close>

fun bare :: "resp \<Rightarrow> resp" where
  "bare (VAttr vs v) = bare v"
| "bare v = v"

definition skips :: "(bytes \<Rightarrow> 'd option) \<Rightarrow> resp \<Rightarrow> bool" where
  "skips strtod v \<longleftrightarrow> (\<forall>r t. 0 \<le> r \<longrightarrow> redis_skip (r + 1) (resp_nodes strtod v @ t) = redis_skip r t)"

lemma skip_all:
  "\<forall>v\<in>set vs. skips strtod v \<Longrightarrow> 0 \<le> r \<Longrightarrow>
   redis_skip (r + int (length vs)) (concat (map (resp_nodes strtod) vs) @ t) = redis_skip r t"
proof (induction vs)
  case (Cons v vs)
  have "redis_skip ((r + int (length vs)) + 1) (resp_nodes strtod v @ (concat (map (resp_nodes strtod) vs) @ t)) =
      redis_skip (r + int (length vs)) (concat (map (resp_nodes strtod) vs) @ t)"
    using Cons.prems unfolding skips_def by (metis add_nonneg_nonneg list.set_intros(1) of_nat_0_le_iff)
  with Cons show ?case by (simp add: add.commute add.left_commute)
qed simp

lemma skips_ok: "resp_ok strtod v \<Longrightarrow> skips strtod v"
proof (induction v)
  case (VAgg prot vs)
  then have vs: "\<forall>v\<in>set vs. skips strtod v" "prot \<in> {RESP_ARRAY, RESP_SET, RESP_PUSHE}" by (auto simp: list_all_iff)
  with skip_all [OF vs(1)] show ?case by (auto simp: skips_def redis_node_def resp_defs)
next
  case (VMap vs)
  then have vs: "\<forall>v\<in>set vs. skips strtod v" "even (length vs)" by (auto simp: list_all_iff)
  then obtain k where k: "length vs = 2 * k" by blast
  have "redis_skip (r + int k * 2) (concat (map (resp_nodes strtod) vs) @ t) = redis_skip r t" if "0 \<le> r" for r t
    using skip_all [OF vs(1), of r t] k that by (simp add: mult.commute)
  with k show ?case by (auto simp: skips_def redis_node_def resp_defs)
next
  case (VAttr vs v)
  then have vs: "\<forall>v\<in>set vs. skips strtod v" "even (length vs)" "skips strtod v" by (auto simp: list_all_iff)
  then obtain k where k: "length vs = 2 * k" by blast
  have "redis_skip (r + 1 + int k * 2) (concat (map (resp_nodes strtod) vs) @ t) = redis_skip (r + 1) t" if "0 \<le> r" for r t
    using skip_all [OF vs(1), of "r + 1" t] k that by (simp add: mult.commute)
  with vs(3) k show ?case by (auto simp: skips_def redis_node_def resp_defs)
qed (simp_all add: skips_def line_node_def redis_node_def resp_defs)

lemma skip_attr_bare: "resp_ok strtod v \<Longrightarrow> redis_skip_attr (resp_nodes strtod v) = resp_nodes strtod (bare v)"
proof (induction v)
  case (VAttr vs v)
  then have vs: "\<forall>v\<in>set vs. skips strtod v" "even (length vs)" by (auto simp: list_all_iff skips_ok)
  then obtain k where k: "length vs = 2 * k" by blast
  have "redis_skip_attr (resp_nodes strtod (VAttr vs v)) = redis_skip (0 + int (length vs)) (concat (map (resp_nodes strtod) vs) @ resp_nodes strtod v)"
    using k by (auto simp: redis_skip_attr_def redis_node_def mult.commute)
  also have "\<dots> = redis_skip_attr (resp_nodes strtod v)" by (simp only: skip_all [OF vs(1)] redis_skip_attr_def)
  finally show ?case using VAttr by simp
qed (auto simp: redis_skip_attr_def line_node_def redis_node_def resp_defs)

text \<open>A push with the confirmation of a subscription, the only pushes that answer a request.\<close>

fun push_ack :: "resp \<Rightarrow> bool" where
  "push_ack (VAgg prot (VBulk t # vs)) = (t \<in> set redis_acks)"
| "push_ack (VAgg prot (VSimple t # vs)) = (t \<in> set redis_acks)"
| "push_ack v = False"

definition is_push :: "resp \<Rightarrow> bool" where
  "is_push v = (case v of VAgg prot vs \<Rightarrow> prot = RESP_PUSHE | _ \<Rightarrow> False)"

lemma ack_match: "list_ex (\<lambda>a. int (length a) = int (length t) \<and> t = a) acks \<longleftrightarrow> t \<in> set acks"
  by (auto simp: list_ex_iff)

lemma acks_not_null: "[] \<notin> set redis_acks"
  by (simp add: redis_acks_def)

lemma may_resume_bare:
  assumes "resp_ok strtod v"
  shows "redis_may_resume (resp_nodes strtod v) \<longleftrightarrow> (is_push (bare v) \<longrightarrow> push_ack (bare v))"
proof -
  have b: "\<And>vs w. bare v \<noteq> VAttr vs w" by (induction v) auto
  note s = redis_may_resume_def skip_attr_bare [OF assms]
  show ?thesis
  proof (cases "bare v")
    case (VAgg prot vs)
    show ?thesis
    proof (cases vs)
      case Nil
      with VAgg show ?thesis by (simp add: s is_push_def)
    next
      case (Cons w ws)
      with VAgg show ?thesis
        by (cases w) (auto simp: s is_push_def ack_match line_node_def redis_node_def resp_defs list_ex_iff acks_not_null)
    qed
  qed (use b in \<open>simp_all add: s is_push_def line_node_def redis_node_def resp_defs\<close>)
qed

section \<open>Streams of replies\<close>

lemma go_value:
  assumes "resp_ok strtod v" "length (resp_nodes strtod v) \<le> 262144" "resp_depth v \<le> 17"
  shows "reply_frame strtod (resp_print v @ s) = Frame (resp_nodes strtod v) (length (resp_print v))"
proof -
  have "redis_go strtod redis_new_reader (resp_print v @ s) =
      go_on strtod (rd_with redis_new_reader (resp_nodes strtod v) (redis_consume (rd_stack (redis_new_reader :: 'a redis_reader)))) s"
    using fills_all [OF assms(1)] assms(2,3) by (simp add: fills_def redis_new_reader_def)
  then show ?thesis by (simp add: reply_frame_def go_on_def redis_new_reader_def Let_def)
qed

lemma parse_values:
  "\<forall>v\<in>set vs. resp_ok strtod v \<and> length (resp_nodes strtod v) \<le> 262144 \<and> resp_depth v \<le> 17 \<Longrightarrow>
   parse (obj_frame (reply_frame strtod)) (concat (map resp_print vs)) = (map (\<lambda>v. Obj (resp_nodes strtod v)) vs, [], False)"
proof (induction vs)
  case Nil
  have "parse (obj_frame (reply_frame strtod)) [] = ([], [], False)"
    by (subst redis_unp.parse_step) (simp add: redis_unp.empty)
  then show ?case by simp
next
  case (Cons v vs)
  then have "obj_frame (reply_frame strtod) (resp_print v @ concat (map resp_print vs)) =
      Frame (Obj (resp_nodes strtod v)) (length (resp_print v))"
    by (simp add: obj_frame_def go_value)
  with Cons show ?case by (subst redis_unp.parse_step) simp
qed

section \<open>Properties\<close>

text \<open>
  C24: Every call of the RESP parser returns, whatever is in the buffer and in the reader: it takes at
  least three bytes a round, so the loop ends after at most a third as many rounds as there are
  bytes (and one), and more fuel changes nothing. It answers a complete reply, an error, or that it needs more;
  no assertion fails.
\<close>

theorem redis_unpack_returns:
  assumes "binv b"
  shows "\<exists>r. redis_unpack strtod b ctx st = Some r \<and>
    (\<forall>k. length (content b) < 3 * k \<longrightarrow>
       redis_loop strtod k (case ctx of None \<Rightarrow> redis_new_reader | Some rd \<Rightarrow> rd) b st = Some r)"
proof -
  let ?rd = "case ctx of None \<Rightarrow> redis_new_reader | Some rd \<Rightarrow> rd"
  have "length (content b) < 3 * Suc (buffer_size b)" by (simp add: buf.len_law [OF assms])
  then obtain r where r: "redis_loop strtod (Suc (buffer_size b)) ?rd b st = Some r" using loop_returns [OF assms] by blast
  have "redis_loop strtod k ?rd b st = Some r" if k: "length (content b) < 3 * k" for k
  proof -
    obtain r' where "redis_loop strtod k ?rd b st = Some r'" using loop_returns [OF assms k] by blast
    with loop_fuel [OF r] show ?thesis by simp
  qed
  with r show ?thesis unfolding redis_unpack_def by blast
qed

theorem redis_unpack_returns_witness:
  "\<exists>r. redis_unpack (\<lambda>_. None :: nat option) buffer_init None PROT_INIT = Some r \<and>
    (\<forall>k. length (content buffer_init) < 3 * k \<longrightarrow>
       redis_loop (\<lambda>_. None) k (case None of None \<Rightarrow> redis_new_reader | Some rd \<Rightarrow> rd) buffer_init PROT_INIT = Some r)"
  by (rule redis_unpack_returns [OF binv_init(1)])

text \<open>
  C26: The parser keeps its reader well typed and hands out well-typed nodes only: a node's text has the
  length the node gives, lengths and counts are within the limits, the double, integer and encoding
  are set in the types that have them; the stack of the reader holds at most \<open>REDIS_MAX_DEPTH\<close> frames,
  each still open with a count that fits, over the virtual frame at the bottom.
\<close>

theorem redis_reader_typed:
  assumes "binv b" "case ctx of None \<Rightarrow> True | Some rd \<Rightarrow> reader_wf rd"
    "redis_unpack strtod b ctx st = Some (res, sz, st', rd', b')"
  shows "binv b' \<and> (case res of
      Some nodes \<Rightarrow> st' = st \<and> rd' = redis_new_reader \<and> nodes \<noteq> [] \<and> length nodes \<le> REDIS_MAX_NODES \<and> list_all node_wf nodes
    | None \<Rightarrow> st' = bit_set st PROT_ERROR \<or> st' = bit_set st PROT_MOREDATA \<and> reader_wf rd')"
proof -
  let ?rd = "case ctx of None \<Rightarrow> redis_new_reader | Some rd \<Rightarrow> rd"
  have "reader_wf ?rd" using assms(2) by (cases ctx) (simp_all add: new_reader_wf)
  note wf = go_wf [OF this, of strtod "content b"]
  have "length (content b) < 3 * Suc (buffer_size b)" by (simp add: buf.len_law [OF assms(1)])
  from redis_loop_ok [OF assms(1) this, of strtod ?rd st] assms(3) have "unpack_ok (redis_go strtod ?rd (content b)) st (Some (res, sz, st', rd', b'))"
    by (simp only: redis_unpack_def)
  with wf show ?thesis by (cases "redis_go strtod ?rd (content b)") (auto simp: unpack_ok_def)
qed

theorem redis_reader_typed_witness:
  "binv buffer_init \<and> (case (None :: nat redis_node list option) of
      Some nodes \<Rightarrow> PROT_MOREDATA = PROT_INIT \<and> redis_new_reader = (redis_new_reader :: nat redis_reader) \<and> nodes \<noteq> [] \<and>
        length nodes \<le> REDIS_MAX_NODES \<and> list_all node_wf nodes
    | None \<Rightarrow> PROT_MOREDATA = bit_set PROT_INIT PROT_ERROR \<or>
        PROT_MOREDATA = bit_set PROT_INIT PROT_MOREDATA \<and> reader_wf (redis_new_reader :: nat redis_reader))"
proof (rule redis_reader_typed [where ctx = None and strtod = "\<lambda>_. None"])
  have "buffer_size buffer_init = 0" using buf.len_law [OF binv_init(1)] binv_init(2) by simp
  then show "redis_unpack (\<lambda>_. None :: nat option) buffer_init None PROT_INIT =
      Some (None, 0, PROT_MOREDATA, redis_new_reader, buffer_init)"
    by (simp add: redis_unpack_def redis_loop_Suc redis_new_reader_def REDIS_MAX_NODES_def bit_set_def PROT_INIT_def)
qed (simp_all add: binv_init)

lemma redis_recv:
  assumes "ud_pktype ud = PACK_REDIS" "ud_context ud = None" "alive (ud_handle ud)" "\<forall>c\<in>set chunks. length c \<le> ALLOC_MAX"
    "length (concat chunks) < fuel" "parse (obj_frame (reply_frame strtod)) (concat chunks) = (ms, rest, bad)"
  shows "\<exists>b es ud' p. deliver alive (\<lambda>m ud. ud) (prots_vtbl h (others(PACK_REDIS := redis_vtbl strtod))) (Suc c) fuel sk client
      chunks buffer_init [] ud = Some (b, es, ud') \<and> emitted es = ms \<and> was_closed es = bad \<and> (\<not> bad \<longrightarrow> p @ content b = rest)"
proof -
  have p: "redis_pending strtod ud []"
    using assms(2) by (simp add: redis_pending_def redis_go.simps redis_elem_def) (simp add: redis_new_reader_def)
  have vt: "prots_vtbl h (others(PACK_REDIS := redis_vtbl strtod)) PACK_REDIS = redis_vtbl strtod"
    by (simp add: prots_vtbl_def is_custz_def)
  have ud: "ud_pktype ud = PACK_REDIS \<and> ud_handle ud = ud_handle ud" using assms(1) by simp
  show ?thesis
    using redis_unp.deliver_stream [OF ud p, where vt = "prots_vtbl h (others(PACK_REDIS := redis_vtbl strtod))" and alive = alive,
        OF vt assms(3-6), of c sk client] by blast
qed

text \<open>
  C18: The receive path of a redis connection is independent of the network: however the stream is cut
  into reads, the replies the task gets are those of the whole stream, in order, and the connection
  is closed exactly if the stream breaks the protocol.
\<close>

theorem redis_delivery:
  assumes "ud_pktype ud = PACK_REDIS" "ud_context ud = None" "alive (ud_handle ud)" "\<forall>c\<in>set chunks. length c \<le> ALLOC_MAX"
    "length (concat chunks) < fuel" "parse (reply_frame strtod) (concat chunks) = (replies, rest, bad)"
  shows "\<exists>b es ud'. deliver alive (\<lambda>m ud. ud) (prots_vtbl h (others(PACK_REDIS := redis_vtbl strtod))) (Suc c) fuel sk client
      chunks buffer_init [] ud = Some (b, es, ud') \<and> emitted es = map Obj replies \<and> was_closed es = bad"
proof -
  have "parse (obj_frame (reply_frame strtod)) (concat chunks) = (map Obj replies, rest, bad)"
    using parse_map [of Obj "reply_frame strtod"] assms(6) by (simp add: obj_frame_def [abs_def])
  from redis_recv [where alive = alive, OF assms(1-5) this, of h others c sk client] show ?thesis by blast
qed

abbreviation redis_peer :: "nat redis_reader option ud" where
  "redis_peer \<equiv> \<lparr>ud_pktype = PACK_REDIS, ud_handle = 7, ud_sess = 0, ud_context = None\<rparr>"

theorem redis_delivery_witness:
  "\<exists>b es ud'. deliver (\<lambda>t. t = 7) (\<lambda>m ud. ud) (prots_vtbl True ((\<lambda>_. vtbl_none)(PACK_REDIS := redis_vtbl (\<lambda>_. None)))) (Suc 0) 100 5 0
      [[43, 79], [75, 13], [10, 64, 13, 10]] buffer_init [] redis_peer = Some (b, es, ud') \<and>
    emitted es = map Obj [[line_node RESP_STRING [79, 75]]] \<and> was_closed es = True"
proof (rule redis_delivery [where strtod = "\<lambda>_. None" and alive = "\<lambda>t. t = 7"])
  let ?f = "reply_frame (\<lambda>_. None :: nat option)"
  have "?f (resp_print (VSimple [79, 75]) @ [64, 13, 10]) = Frame (resp_nodes (\<lambda>_. None) (VSimple [79, 75])) (length (resp_print (VSimple [79, 75])))"
    by (rule go_value) (simp_all add: line_ok_def)
  then have f: "?f [43, 79, 75, 13, 10, 64, 13, 10] = Frame [line_node RESP_STRING [79, 75]] 5"
    by (simp add: resp_line_def RESP_STRING_def)
  have bad: "?f [64, 13, 10] = Bad"
    by (simp add: reply_frame_def redis_go.simps redis_elem_def is_line_def is_bulk_def is_agg_def resp_defs redis_new_reader_def)
  show "parse ?f (concat [[43, 79], [75, 13], [10, 64, 13, 10]]) = ([[line_node RESP_STRING [79, 75]]], [64, 13, 10], True)"
    by (simp add: redis_rep.parse_step f) (simp add: redis_rep.parse_step bad)
qed (simp_all add: ALLOC_MAX_def BUFNODE_SIZE_def)

text \<open>
  C11: What a server sends is what the task gets: RESP2 and RESP3 values of every type, nested up to
  the parser's depth and with attributes, printed one after the other and delivered in reads of any
  size, arrive as the nodes that stand for them, complete and in order; nothing is left over.
\<close>

theorem redis_values_arrive:
  assumes "ud_pktype ud = PACK_REDIS" "ud_context ud = None" "alive (ud_handle ud)" "\<forall>c\<in>set chunks. length c \<le> ALLOC_MAX"
    "length (concat chunks) < fuel" "concat chunks = concat (map resp_print vs)"
    "\<forall>v\<in>set vs. resp_ok strtod v \<and> length (resp_nodes strtod v) \<le> 262144 \<and> resp_depth v \<le> 17"
  shows "\<exists>b es ud'. deliver alive (\<lambda>m ud. ud) (prots_vtbl h (others(PACK_REDIS := redis_vtbl strtod))) (Suc c) fuel sk client
      chunks buffer_init [] ud = Some (b, es, ud') \<and> emitted es = map (\<lambda>v. Obj (resp_nodes strtod v)) vs \<and>
      \<not> was_closed es \<and> content b = []"
  using redis_recv [where alive = alive, OF assms(1-5) parse_values [OF assms(7), folded assms(6)], of h others c sk client] by auto

theorem redis_values_arrive_witness:
  "\<exists>b es ud'. deliver (\<lambda>t. t = 7) (\<lambda>m ud. ud) (prots_vtbl True ((\<lambda>_. vtbl_none)(PACK_REDIS := redis_vtbl (\<lambda>_. None)))) (Suc 0) 100 5 0
      [[42, 50, 13], [10, 58, 45, 53, 13, 10, 36, 49, 13], [10, 65, 13, 10]] buffer_init [] redis_peer = Some (b, es, ud') \<and>
    emitted es = map (\<lambda>v. Obj (resp_nodes (\<lambda>_. None) v)) [VAgg RESP_ARRAY [VInt (-5), VBulk [65]]] \<and>
      \<not> was_closed es \<and> content b = []"
proof (rule redis_values_arrive [where strtod = "\<lambda>_. None" and alive = "\<lambda>t. t = 7"])
  have t: "int_text 2 = [50]" "int_text (-5) = [45, 53]" "int_text 1 = [49]"
    by (simp_all add: int_text_def num_text_def blen.simps hex_digit_def hex_char_lower_def)
  show "concat [[42, 50, 13], [10, 58, 45, 53, 13, 10, 36, 49, 13], [10, 65, 13, 10]] =
      concat (map resp_print [VAgg RESP_ARRAY [VInt (-5), VBulk [65]]])"
    by (simp add: resp_line_def resp_bulk_def t resp_defs)
qed (simp_all add: ALLOC_MAX_def BUFNODE_SIZE_def)

text \<open>
  C33: Out-of-band pushes resume nobody: a reply may resume the caller that waits for an answer unless
  it is, behind any attributes, a push, and then only if the push confirms a subscription.
\<close>

theorem push_resumes_nobody:
  assumes "resp_ok strtod v"
  shows "redis_may_resume (resp_nodes strtod v) \<longleftrightarrow> (is_push (bare v) \<longrightarrow> push_ack (bare v))"
  by (rule may_resume_bare [OF assms])

theorem push_resumes_nobody_witness:
  "redis_may_resume (resp_nodes (\<lambda>_. None :: nat option) (VAttr [VInt 1, VNil] (VAgg RESP_PUSHE [VBulk [109, 101], VNil]))) \<longleftrightarrow>
    (is_push (bare (VAttr [VInt 1, VNil] (VAgg RESP_PUSHE [VBulk [109, 101], VNil]))) \<longrightarrow>
     push_ack (bare (VAttr [VInt 1, VNil] (VAgg RESP_PUSHE [VBulk [109, 101], VNil]))))"
  by (rule push_resumes_nobody) (simp add: numeral_2_eq_2)

end
