(* ===== verification/Mpq.thy ===== *)
theory Mpq
  imports Bits
begin

text \<open>
  Models \<open>lib/containers/mpq.h\<close>, the bounded lock-free queue \<open>MPQ_DECL(name, T)\<close> behind the message
  queues of the tasks, the ready queues of the loader and the command queues of the event loops. Any
  number of threads run its operations; a step is one access to shared memory (an atomic load, a
  compare-and-swap, an atomic store, the copy of one element), in one order all threads agree on.
  The program counters name the points between two such accesses and hold the local variables; the
  back-off between two attempts has no effect on the state. Elements, sequence numbers and the two
  counters are as in the code, \<open>uint32_t\<close> that wrap.
\<close>

section \<open>The queue\<close>

record 'a mpq_cell =
  mc_seq :: u32
  mc_data :: 'a

record 'a mpq =
  mq_cells :: "'a mpq_cell list"
  mq_capacity :: u32
  mq_mask :: u32
  mq_enq :: u32
  mq_deq :: u32

definition MPQ_DEFAULT_CAP :: u32 where "MPQ_DEFAULT_CAP = 1024"

text \<open>\<open>csz\<close> is the size of a cell, \<open>blank\<close> what the fresh memory holds.\<close>

definition mpq_init :: "nat \<Rightarrow> 'a \<Rightarrow> u32 \<Rightarrow> 'a mpq option" where
  "mpq_init csz blank capacity =
     Option.bind (if capacity = 0 then Some MPQ_DEFAULT_CAP else pow2_ceil (if capacity < 2 then 2 else capacity)) (\<lambda>cap.
       assertab (csz \<le> SIZE_MAX div unat cap)
         (Some \<lparr>mq_cells = map (\<lambda>i. \<lparr>mc_seq = of_nat i, mc_data = blank\<rparr>) [0..<unat cap], mq_capacity = cap,
           mq_mask = cap - 1, mq_enq = 0, mq_deq = 0\<rparr>))"

definition cell_at :: "'a mpq \<Rightarrow> u32 \<Rightarrow> nat" where
  "cell_at q pos = unat (pos AND mq_mask q)"

definition cell_seq :: "'a mpq \<Rightarrow> u32 \<Rightarrow> u32" where
  "cell_seq q pos = mc_seq (mq_cells q ! cell_at q pos)"

definition set_seq :: "'a mpq \<Rightarrow> u32 \<Rightarrow> u32 \<Rightarrow> 'a mpq" where
  "set_seq q pos v = q\<lparr>mq_cells := (mq_cells q)[cell_at q pos := (mq_cells q ! cell_at q pos)\<lparr>mc_seq := v\<rparr>]\<rparr>"

definition set_data :: "'a mpq \<Rightarrow> u32 \<Rightarrow> 'a \<Rightarrow> 'a mpq" where
  "set_data q pos d = q\<lparr>mq_cells := (mq_cells q)[cell_at q pos := (mq_cells q ! cell_at q pos)\<lparr>mc_data := d\<rparr>]\<rparr>"

definition get_data :: "'a mpq \<Rightarrow> u32 \<Rightarrow> 'a" where
  "get_data q pos = mc_data (mq_cells q ! cell_at q pos)"

text \<open>\<open>(int32_t)(a - b)\<close>\<close>

definition seq_diff :: "u32 \<Rightarrow> u32 \<Rightarrow> int" where
  "seq_diff a b = sint (a - b)"

section \<open>What the threads can observe\<close>

text \<open>
  The events a step shows: the loads of a counter, the steps that take effect for all threads (an
  element gets its place in the order, elements leave it) and the returns of the operations.
\<close>

datatype 'a mpq_event =
    ELoadEnq nat | ELoadDeq nat
  | EPush nat 'a | EPushed nat | EFull nat
  | ETake nat nat | EPopped nat "'a list" | EInFlight nat | EEmpty nat
  | ESize nat nat | EIsEmpty nat bool

type_synonym ('a, 'p) act = "'a mpq_event list \<times> 'a mpq \<times> 'p option"

section \<open>The operations\<close>

text \<open>\<open>trypush\<close>: \<open>None\<close> as the next counter is the return.\<close>

datatype 'a push_pc = PushEnq 'a | PushLook 'a u32 | PushCas 'a u32 | PushCopy 'a u32 | PushOut u32

fun trypush_act :: "nat \<Rightarrow> 'a mpq \<Rightarrow> 'a push_pc \<Rightarrow> ('a, 'a push_pc) act" where
  "trypush_act t q (PushEnq d) = ([ELoadEnq t], q, Some (PushLook d (mq_enq q)))"
| "trypush_act t q (PushLook d pos) =
     (let diff = seq_diff (cell_seq q pos) pos
      in if diff = 0 then ([], q, Some (PushCas d pos))
         else if diff < 0 then ([EFull t], q, None)
         else ([], q, Some (PushEnq d)))"
| "trypush_act t q (PushCas d pos) =
     (if mq_enq q = pos then ([EPush t d], q\<lparr>mq_enq := pos + 1\<rparr>, Some (PushCopy d pos))
      else ([], q, Some (PushEnq d)))"
| "trypush_act t q (PushCopy d pos) = ([], set_data q pos d, Some (PushOut pos))"
| "trypush_act t q (PushOut pos) = ([EPushed t], set_seq q pos (pos + 1), None)"

text \<open>\<open>pop\<close>\<close>

datatype 'a pop_pc = PopDeq | PopLook u32 | PopCas u32 | PopEnq u32 | PopCopy u32 | PopOut u32 'a

fun pop_act :: "nat \<Rightarrow> 'a mpq \<Rightarrow> 'a pop_pc \<Rightarrow> ('a, 'a pop_pc) act" where
  "pop_act t q PopDeq = ([ELoadDeq t], q, Some (PopLook (mq_deq q)))"
| "pop_act t q (PopLook pos) =
     (let diff = seq_diff (cell_seq q pos) (pos + 1)
      in if diff = 0 then ([], q, Some (PopCas pos))
         else if diff < 0 then ([], q, Some (PopEnq pos))
         else ([], q, Some PopDeq))"
| "pop_act t q (PopCas pos) =
     (if mq_deq q = pos then ([ETake t 1], q\<lparr>mq_deq := pos + 1\<rparr>, Some (PopCopy pos))
      else ([], q, Some PopDeq))"
| "pop_act t q (PopEnq pos) = ([if mq_enq q \<noteq> pos then EInFlight t else EEmpty t], q, None)"
| "pop_act t q (PopCopy pos) = ([], q, Some (PopOut pos (get_data q pos)))"
| "pop_act t q (PopOut pos d) = ([EPopped t [d]], set_seq q pos (pos + mq_capacity q), None)"

text \<open>\<open>pop_sc\<close>\<close>

datatype 'a sc_pc = ScDeq | ScLook u32 | ScEnq u32 | ScCopy u32 | ScNext u32 'a | ScOut u32 'a

fun pop_sc_act :: "nat \<Rightarrow> 'a mpq \<Rightarrow> 'a sc_pc \<Rightarrow> ('a, 'a sc_pc) act" where
  "pop_sc_act t q ScDeq = ([ELoadDeq t], q, Some (ScLook (mq_deq q)))"
| "pop_sc_act t q (ScLook pos) =
     (let diff = seq_diff (cell_seq q pos) (pos + 1)
      in if diff = 0 then ([], q, Some (ScCopy pos))
         else if diff < 0 then ([], q, Some (ScEnq pos))
         else ([EEmpty t], q, None))"
| "pop_sc_act t q (ScEnq pos) = ([if mq_enq q \<noteq> pos then EInFlight t else EEmpty t], q, None)"
| "pop_sc_act t q (ScCopy pos) = ([], q, Some (ScNext pos (get_data q pos)))"
| "pop_sc_act t q (ScNext pos d) = ([ETake t 1], q\<lparr>mq_deq := pos + 1\<rparr>, Some (ScOut pos d))"
| "pop_sc_act t q (ScOut pos d) = ([EPopped t [d]], set_seq q pos (pos + mq_capacity q), None)"

text \<open>
  \<open>pop_sc_batch\<close>: \<open>max\<close> elements at most, \<open>out\<close> the elements copied so far. What it writes to \<open>rtn\<close> follows
  from their number.
\<close>

datatype 'a batch_pc = BatchDeq nat | BatchLook nat u32 "'a list" | BatchCopy nat u32 "'a list"
  | BatchOut nat u32 "'a list" | BatchNext u32 "'a list"

fun pop_sc_batch_act :: "nat \<Rightarrow> 'a mpq \<Rightarrow> 'a batch_pc \<Rightarrow> ('a, 'a batch_pc) act" where
  "pop_sc_batch_act t q (BatchDeq mx) = ([ELoadDeq t], q, Some (BatchLook mx (mq_deq q) []))"
| "pop_sc_batch_act t q (BatchLook mx pos out) =
     (let k = of_nat (length out)
      in if length out < mx \<and> seq_diff (cell_seq q (pos + k)) (pos + k + 1) = 0
         then ([], q, Some (BatchCopy mx pos out))
         else if out = [] then ([EPopped t []], q, None)
         else ([], q, Some (BatchOut 0 pos out)))"
| "pop_sc_batch_act t q (BatchCopy mx pos out) =
     ([], q, Some (BatchLook mx pos (out @ [get_data q (pos + of_nat (length out))])))"
| "pop_sc_batch_act t q (BatchOut i pos out) =
     ([], set_seq q (pos + of_nat i) (pos + of_nat i + mq_capacity q),
      Some (if i + 1 < length out then BatchOut (i + 1) pos out else BatchNext pos out))"
| "pop_sc_batch_act t q (BatchNext pos out) =
     ([ETake t (length out), EPopped t out], q\<lparr>mq_deq := pos + of_nat (length out)\<rparr>, None)"

text \<open>\<open>size\<close> and \<open>empty\<close>\<close>

datatype size_pc = SizeDeq | SizeEnq u32

fun size_act :: "nat \<Rightarrow> 'a mpq \<Rightarrow> size_pc \<Rightarrow> ('a, size_pc) act" where
  "size_act t q SizeDeq = ([ELoadDeq t], q, Some (SizeEnq (mq_deq q)))"
| "size_act t q (SizeEnq deq) =
     (let n = mq_enq q - deq in ([ESize t (unat (if mq_capacity q < n then mq_capacity q else n))], q, None))"

datatype empty_pc = EmptyDeq | EmptyEnq u32

fun empty_act :: "nat \<Rightarrow> 'a mpq \<Rightarrow> empty_pc \<Rightarrow> ('a, empty_pc) act" where
  "empty_act t q EmptyDeq = ([ELoadDeq t], q, Some (EmptyEnq (mq_deq q)))"
| "empty_act t q (EmptyEnq deq) = ([EIsEmpty t (mq_enq q = deq)], q, None)"

section \<open>Threads\<close>

datatype 'a mpq_pc =
    Idle | Push "'a push_pc" | Pop "'a pop_pc" | Sc "'a sc_pc" | Batch "'a batch_pc" | Size size_pc | Empty empty_pc

definition next_pc :: "('p \<Rightarrow> 'a mpq_pc) \<Rightarrow> 'p option \<Rightarrow> 'a mpq_pc" where
  "next_pc f p = (case p of None \<Rightarrow> Idle | Some p \<Rightarrow> f p)"

fun mpq_act :: "nat \<Rightarrow> 'a mpq \<Rightarrow> 'a mpq_pc \<Rightarrow> 'a mpq_event list \<times> 'a mpq \<times> 'a mpq_pc" where
  "mpq_act t q Idle = ([], q, Idle)"
| "mpq_act t q (Push p) = (let (es, q, p) = trypush_act t q p in (es, q, next_pc Push p))"
| "mpq_act t q (Pop p) = (let (es, q, p) = pop_act t q p in (es, q, next_pc Pop p))"
| "mpq_act t q (Sc p) = (let (es, q, p) = pop_sc_act t q p in (es, q, next_pc Sc p))"
| "mpq_act t q (Batch p) = (let (es, q, p) = pop_sc_batch_act t q p in (es, q, next_pc Batch p))"
| "mpq_act t q (Size p) = (let (es, q, p) = size_act t q p in (es, q, next_pc Size p))"
| "mpq_act t q (Empty p) = (let (es, q, p) = empty_act t q p in (es, q, next_pc Empty p))"

text \<open>
  Who may call what: with \<open>None\<close> any thread pushes and pops; with \<open>Some c\<close> any thread pushes, \<open>c\<close> alone
  removes, with the single-consumer operations.
\<close>

definition may_start :: "nat option \<Rightarrow> nat \<Rightarrow> 'a mpq_pc \<Rightarrow> bool" where
  "may_start consumer t p \<longleftrightarrow>
     (\<exists>d. p = Push (PushEnq d)) \<or> p = Size SizeDeq \<or> p = Empty EmptyDeq \<or>
     consumer = None \<and> p = Pop PopDeq \<or>
     consumer = Some t \<and> (p = Sc ScDeq \<or> (\<exists>mx. p = Batch (BatchDeq mx)))"

type_synonym 'a mpq_sys = "'a mpq \<times> (nat \<Rightarrow> 'a mpq_pc)"

inductive mpq_step :: "nat option \<Rightarrow> 'a mpq_sys \<Rightarrow> 'a mpq_event list \<Rightarrow> 'a mpq_sys \<Rightarrow> bool" for consumer where
  call: "pcs t = Idle \<Longrightarrow> may_start consumer t p \<Longrightarrow> mpq_step consumer (q, pcs) [] (q, pcs(t := p))"
| act: "pcs t \<noteq> Idle \<Longrightarrow> mpq_act t q (pcs t) = (es, q', p) \<Longrightarrow> mpq_step consumer (q, pcs) es (q', pcs(t := p))"

inductive_cases mpq_stepE: "mpq_step consumer (q, pcs) es s'"

end
