(* ===== verification/Mpq_Inv.thy ===== *)
theory Mpq_Inv
  imports Mpq
begin

text \<open>
  The invariant of the lock-free queue of \<open>Mpq\<close>. The log collects what the events of a run say: all
  elements in the order in which they got their place, how many have been taken, and what each
  thread has seen or holds. Positions in the log are natural numbers; the invariant ties the wrapping
  words of the code to them.
\<close>

section \<open>The log\<close>

record 'a mpq_log =
  lg_hist :: "'a list"
  lg_taken :: nat
  lg_seen :: "nat \<Rightarrow> nat"
  lg_pend :: "nat \<Rightarrow> 'a list"
  lg_did :: "nat set"

definition log_init :: "'a mpq_log" where
  "log_init = \<lparr>lg_hist = [], lg_taken = 0, lg_seen = (\<lambda>_. 0), lg_pend = (\<lambda>_. []), lg_did = {}\<rparr>"

definition lg_queue :: "'a mpq_log \<Rightarrow> 'a list" where
  "lg_queue a = drop (lg_taken a) (lg_hist a)"

fun log_upd :: "'a mpq_event \<Rightarrow> 'a mpq_log \<Rightarrow> 'a mpq_log" where
  "log_upd (ELoadEnq t) a = a\<lparr>lg_seen := (lg_seen a)(t := length (lg_hist a))\<rparr>"
| "log_upd (ELoadDeq t) a = a\<lparr>lg_seen := (lg_seen a)(t := lg_taken a)\<rparr>"
| "log_upd (EPush t d) a = a\<lparr>lg_hist := lg_hist a @ [d], lg_did := insert t (lg_did a)\<rparr>"
| "log_upd (EPushed t) a = a\<lparr>lg_did := lg_did a - {t}\<rparr>"
| "log_upd (ETake t n) a = a\<lparr>lg_pend := (lg_pend a)(t := take n (lg_queue a)), lg_taken := lg_taken a + n\<rparr>"
| "log_upd (EPopped t ds) a = a\<lparr>lg_pend := (lg_pend a)(t := [])\<rparr>"
| "log_upd e a = a"

text \<open>
  The queue as one atomic object of the given capacity: what may be observed when. An operation
  takes effect once, between its call and its return; a removal returns what it took; \<open>full\<close> is
  answered if the queue holds \<open>cap\<close> elements or some are just being taken out; \<open>empty\<close> only of an
  empty queue; the size is never less than the number of elements.
\<close>

fun fifo_ok :: "nat \<Rightarrow> 'a mpq_event \<Rightarrow> 'a mpq_log \<Rightarrow> bool" where
  "fifo_ok cap (EPush t d) a \<longleftrightarrow> t \<notin> lg_did a"
| "fifo_ok cap (EPushed t) a \<longleftrightarrow> t \<in> lg_did a"
| "fifo_ok cap (EFull t) a \<longleftrightarrow> t \<notin> lg_did a \<and> (cap \<le> length (lg_queue a) \<or> (\<exists>u. lg_pend a u \<noteq> []))"
| "fifo_ok cap (ETake t n) a \<longleftrightarrow> lg_pend a t = [] \<and> n \<le> length (lg_queue a)"
| "fifo_ok cap (EPopped t ds) a \<longleftrightarrow> lg_pend a t = ds"
| "fifo_ok cap (EInFlight t) a \<longleftrightarrow> lg_pend a t = []"
| "fifo_ok cap (EEmpty t) a \<longleftrightarrow> lg_pend a t = [] \<and> lg_queue a = []"
| "fifo_ok cap (ESize t n) a \<longleftrightarrow> min cap (length (lg_queue a)) \<le> n \<and> n \<le> cap"
| "fifo_ok cap (EIsEmpty t b) a \<longleftrightarrow> (b \<longrightarrow> lg_queue a = [])"
| "fifo_ok cap (ELoadEnq t) a \<longleftrightarrow> True"
| "fifo_ok cap (ELoadDeq t) a \<longleftrightarrow> True"

fun fifo_trace :: "nat \<Rightarrow> 'a mpq_event list \<Rightarrow> 'a mpq_log \<Rightarrow> bool" where
  "fifo_trace cap [] a \<longleftrightarrow> True"
| "fifo_trace cap (e # es) a \<longleftrightarrow> fifo_ok cap e a \<and> fifo_trace cap es (log_upd e a)"

definition log_all :: "'a mpq_event list \<Rightarrow> 'a mpq_log \<Rightarrow> 'a mpq_log" where
  "log_all es a = fold log_upd es a"

lemma log_all_simps [simp]:
  "log_all [] a = a" "log_all (e # es) a = log_all es (log_upd e a)" "log_all (es @ fs) a = log_all fs (log_all es a)"
  by (simp_all add: log_all_def)

lemma fifo_trace_append [simp]: "fifo_trace cap (es @ fs) a \<longleftrightarrow> fifo_trace cap es a \<and> fifo_trace cap fs (log_all es a)"
  by (induction es arbitrary: a) auto

section \<open>The invariant\<close>

text \<open>
  A cell has a turn, the position in the log it is free for or holds, and is published in the second
  case. \<open>slot_is\<close>: the cell of position \<open>p\<close> has turn \<open>p\<close> and is published or not.
\<close>

definition slot_is :: "nat \<Rightarrow> (nat \<Rightarrow> nat) \<Rightarrow> (nat \<Rightarrow> bool) \<Rightarrow> nat \<Rightarrow> bool \<Rightarrow> bool" where
  "slot_is cap turn pub p b \<longleftrightarrow> turn (p mod cap) = p \<and> pub (p mod cap) = b"

definition has_out :: "'a mpq_log \<Rightarrow> nat \<Rightarrow> 'a list \<Rightarrow> bool" where
  "has_out a p out \<longleftrightarrow> p + length out \<le> length (lg_hist a) \<and> out = take (length out) (drop p (lg_hist a))"

fun pc_ok :: "nat \<Rightarrow> 'a mpq_cell list \<Rightarrow> 'a mpq_log \<Rightarrow> (nat \<Rightarrow> nat) \<Rightarrow> (nat \<Rightarrow> bool) \<Rightarrow> nat \<Rightarrow> 'a mpq_pc \<Rightarrow> bool" where
  "pc_ok cap cs a turn pub t Idle \<longleftrightarrow> lg_pend a t = [] \<and> t \<notin> lg_did a"
| "pc_ok cap cs a turn pub t (Push p) \<longleftrightarrow> lg_pend a t = [] \<and>
     (case p of
        PushEnq d \<Rightarrow> t \<notin> lg_did a
      | PushLook d pos \<Rightarrow> t \<notin> lg_did a \<and> pos = of_nat (lg_seen a t) \<and> lg_seen a t \<le> length (lg_hist a)
      | PushCas d pos \<Rightarrow> t \<notin> lg_did a \<and> pos = of_nat (lg_seen a t) \<and> lg_seen a t \<le> length (lg_hist a) \<and>
          (lg_seen a t = length (lg_hist a) \<longrightarrow> slot_is cap turn pub (lg_seen a t) False)
      | PushCopy d pos \<Rightarrow> t \<in> lg_did a \<and> pos = of_nat (lg_seen a t) \<and> lg_seen a t < length (lg_hist a) \<and>
          slot_is cap turn pub (lg_seen a t) False \<and> lg_hist a ! lg_seen a t = d
      | PushOut pos \<Rightarrow> t \<in> lg_did a \<and> pos = of_nat (lg_seen a t) \<and> lg_seen a t < length (lg_hist a) \<and>
          slot_is cap turn pub (lg_seen a t) False \<and> lg_hist a ! lg_seen a t = mc_data (cs ! (lg_seen a t mod cap)))"
| "pc_ok cap cs a turn pub t (Pop p) \<longleftrightarrow> t \<notin> lg_did a \<and>
     (case p of
        PopDeq \<Rightarrow> lg_pend a t = []
      | PopLook pos \<Rightarrow> lg_pend a t = [] \<and> pos = of_nat (lg_seen a t) \<and> lg_seen a t \<le> lg_taken a
      | PopEnq pos \<Rightarrow> lg_pend a t = [] \<and> pos = of_nat (lg_seen a t) \<and> lg_seen a t \<le> lg_taken a
      | PopCas pos \<Rightarrow> lg_pend a t = [] \<and> pos = of_nat (lg_seen a t) \<and> lg_seen a t \<le> lg_taken a \<and>
          (lg_seen a t = lg_taken a \<longrightarrow> slot_is cap turn pub (lg_seen a t) True)
      | PopCopy pos \<Rightarrow> pos = of_nat (lg_seen a t) \<and> lg_seen a t < lg_taken a \<and>
          slot_is cap turn pub (lg_seen a t) True \<and> lg_pend a t = [lg_hist a ! lg_seen a t]
      | PopOut pos d \<Rightarrow> pos = of_nat (lg_seen a t) \<and> lg_seen a t < lg_taken a \<and>
          slot_is cap turn pub (lg_seen a t) True \<and> lg_pend a t = [d])"
| "pc_ok cap cs a turn pub t (Sc p) \<longleftrightarrow> t \<notin> lg_did a \<and>
     (case p of
        ScDeq \<Rightarrow> lg_pend a t = []
      | ScLook pos \<Rightarrow> lg_pend a t = [] \<and> pos = of_nat (lg_seen a t) \<and> lg_seen a t = lg_taken a
      | ScEnq pos \<Rightarrow> lg_pend a t = [] \<and> pos = of_nat (lg_seen a t) \<and> lg_seen a t = lg_taken a
      | ScCopy pos \<Rightarrow> lg_pend a t = [] \<and> pos = of_nat (lg_seen a t) \<and> lg_seen a t = lg_taken a \<and>
          slot_is cap turn pub (lg_seen a t) True
      | ScNext pos d \<Rightarrow> lg_pend a t = [] \<and> pos = of_nat (lg_seen a t) \<and> lg_seen a t = lg_taken a \<and>
          slot_is cap turn pub (lg_seen a t) True \<and> lg_hist a ! lg_seen a t = d
      | ScOut pos d \<Rightarrow> pos = of_nat (lg_seen a t) \<and> lg_seen a t < lg_taken a \<and>
          slot_is cap turn pub (lg_seen a t) True \<and> lg_pend a t = [d])"
| "pc_ok cap cs a turn pub t (Batch p) \<longleftrightarrow> t \<notin> lg_did a \<and> lg_pend a t = [] \<and>
     (case p of
        BatchDeq mx \<Rightarrow> True
      | BatchLook mx pos out \<Rightarrow> pos = of_nat (lg_seen a t) \<and> lg_seen a t = lg_taken a \<and> has_out a (lg_seen a t) out \<and>
          (\<forall>j<length out. slot_is cap turn pub (lg_seen a t + j) True)
      | BatchCopy mx pos out \<Rightarrow> pos = of_nat (lg_seen a t) \<and> lg_seen a t = lg_taken a \<and> has_out a (lg_seen a t) out \<and>
          (\<forall>j\<le>length out. slot_is cap turn pub (lg_seen a t + j) True)
      | BatchOut i pos out \<Rightarrow> pos = of_nat (lg_seen a t) \<and> lg_seen a t = lg_taken a \<and> has_out a (lg_seen a t) out \<and>
          i < length out \<and> length out \<le> cap \<and> (\<forall>j<length out. i \<le> j \<longrightarrow> slot_is cap turn pub (lg_seen a t + j) True)
      | BatchNext pos out \<Rightarrow> pos = of_nat (lg_seen a t) \<and> lg_seen a t = lg_taken a \<and> has_out a (lg_seen a t) out \<and> out \<noteq> [] \<and> length out \<le> cap)"
| "pc_ok cap cs a turn pub t (Size p) \<longleftrightarrow> lg_pend a t = [] \<and> t \<notin> lg_did a \<and>
     (case p of SizeDeq \<Rightarrow> True | SizeEnq pos \<Rightarrow> pos = of_nat (lg_seen a t) \<and> lg_seen a t \<le> lg_taken a)"
| "pc_ok cap cs a turn pub t (Empty p) \<longleftrightarrow> lg_pend a t = [] \<and> t \<notin> lg_did a \<and>
     (case p of EmptyDeq \<Rightarrow> True | EmptyEnq pos \<Rightarrow> pos = of_nat (lg_seen a t) \<and> lg_seen a t \<le> lg_taken a)"

text \<open>Who owns a cell: a producer that claimed it and has not published it yet, a consumer that took its element.\<close>

fun filling :: "'a mpq_pc \<Rightarrow> bool" where
  "filling (Push (PushCopy d pos)) = True"
| "filling (Push (PushOut pos)) = True"
| "filling _ = False"

fun emptying :: "'a mpq_pc \<Rightarrow> bool" where
  "emptying (Pop (PopCopy pos)) = True"
| "emptying (Pop (PopOut pos d)) = True"
| "emptying (Sc (ScOut pos d)) = True"
| "emptying _ = False"

text \<open>The cells a batch has given back before it moves the counter.\<close>

fun given_back :: "'a mpq_pc \<Rightarrow> nat" where
  "given_back (Batch (BatchOut i pos out)) = i"
| "given_back (Batch (BatchNext pos out)) = length out"
| "given_back _ = 0"

definition ahead :: "nat option \<Rightarrow> (nat \<Rightarrow> 'a mpq_pc) \<Rightarrow> nat" where
  "ahead consumer pcs = (case consumer of None \<Rightarrow> 0 | Some c \<Rightarrow> given_back (pcs c))"

fun role_ok :: "nat option \<Rightarrow> nat \<Rightarrow> 'a mpq_pc \<Rightarrow> bool" where
  "role_ok consumer t (Pop p) \<longleftrightarrow> consumer = None"
| "role_ok consumer t (Sc p) \<longleftrightarrow> consumer = Some t"
| "role_ok consumer t (Batch p) \<longleftrightarrow> consumer = Some t"
| "role_ok consumer t _ \<longleftrightarrow> True"

definition cell_inv :: "nat \<Rightarrow> nat \<Rightarrow> 'a mpq_log \<Rightarrow> nat \<Rightarrow> 'a mpq_cell \<Rightarrow> nat \<Rightarrow> bool \<Rightarrow> bool" where
  "cell_inv cap n a i c p b \<longleftrightarrow> p mod cap = i \<and> mc_seq c = of_nat (p + (if b then 1 else 0)) \<and> p < lg_taken a + n + cap \<and>
     (if b then p < length (lg_hist a) \<and> mc_data c = lg_hist a ! p \<and> (p < lg_taken a \<or> lg_taken a + n \<le> p)
      else lg_taken a + n \<le> p)"

definition cells_ok :: "nat \<Rightarrow> nat \<Rightarrow> 'a mpq \<Rightarrow> 'a mpq_log \<Rightarrow> (nat \<Rightarrow> nat) \<Rightarrow> (nat \<Rightarrow> bool) \<Rightarrow> bool" where
  "cells_ok cap n q a turn pub \<longleftrightarrow>
     ((\<exists>k. 1 \<le> k \<and> k \<le> 30 \<and> cap = 2 ^ k) \<and> length (mq_cells q) = cap \<and> mq_capacity q = of_nat cap \<and> mq_mask q = of_nat cap - 1 \<and>
      mq_enq q = of_nat (length (lg_hist a)) \<and> mq_deq q = of_nat (lg_taken a) \<and> lg_taken a + n \<le> length (lg_hist a)) \<and>
     (\<forall>i<cap. cell_inv cap n a i (mq_cells q ! i) (turn i) (pub i)) \<and>
     (\<forall>p<length (lg_hist a). p \<le> turn (p mod cap))"

definition owned :: "nat \<Rightarrow> (nat \<Rightarrow> 'a mpq_pc) \<Rightarrow> 'a mpq_log \<Rightarrow> (nat \<Rightarrow> nat) \<Rightarrow> (nat \<Rightarrow> bool) \<Rightarrow> bool" where
  "owned cap pcs a turn pub \<longleftrightarrow>
     (\<forall>i<cap. pub i \<longrightarrow> turn i < lg_taken a \<longrightarrow> (\<exists>t. emptying (pcs t) \<and> lg_seen a t = turn i)) \<and>
     (\<forall>i<cap. \<not> pub i \<longrightarrow> turn i < length (lg_hist a) \<longrightarrow> (\<exists>t. filling (pcs t) \<and> lg_seen a t = turn i)) \<and>
     (\<forall>t u. filling (pcs t) \<longrightarrow> filling (pcs u) \<longrightarrow> lg_seen a t = lg_seen a u \<longrightarrow> t = u) \<and>
     (\<forall>t u. emptying (pcs t) \<longrightarrow> emptying (pcs u) \<longrightarrow> lg_seen a t = lg_seen a u \<longrightarrow> t = u)"

definition mpq_inv :: "nat option \<Rightarrow> nat \<Rightarrow> 'a mpq_sys \<Rightarrow> 'a mpq_log \<Rightarrow> bool" where
  "mpq_inv consumer cap s a \<longleftrightarrow> (case s of (q, pcs) \<Rightarrow> \<exists>turn pub.
     cells_ok cap (ahead consumer pcs) q a turn pub \<and> owned cap pcs a turn pub \<and>
     (\<forall>t. pc_ok cap (mq_cells q) a turn pub t (pcs t) \<and> role_ok consumer t (pcs t)))"

text \<open>
  A run in which no operation is suspended between reading a counter and its next look at the queue
  while that counter moves on by \<open>2 ^ 30\<close>: beyond that the words of the code would be ambiguous.
\<close>

fun calm_pc :: "'a mpq_log \<Rightarrow> nat \<Rightarrow> 'a mpq_pc \<Rightarrow> bool" where
  "calm_pc a t (Push (PushLook d pos)) \<longleftrightarrow> length (lg_hist a) - lg_seen a t < 2 ^ 30"
| "calm_pc a t (Push (PushCas d pos)) \<longleftrightarrow> length (lg_hist a) - lg_seen a t < 2 ^ 30"
| "calm_pc a t (Pop (PopLook pos)) \<longleftrightarrow> lg_taken a - lg_seen a t < 2 ^ 30"
| "calm_pc a t (Pop (PopCas pos)) \<longleftrightarrow> lg_taken a - lg_seen a t < 2 ^ 30"
| "calm_pc a t (Pop (PopEnq pos)) \<longleftrightarrow> lg_taken a - lg_seen a t < 2 ^ 30"
| "calm_pc a t (Size (SizeEnq pos)) \<longleftrightarrow> lg_taken a - lg_seen a t < 2 ^ 30"
| "calm_pc a t (Empty (EmptyEnq pos)) \<longleftrightarrow> lg_taken a - lg_seen a t < 2 ^ 30"
| "calm_pc a t _ \<longleftrightarrow> True"

definition calm :: "'a mpq_sys \<Rightarrow> 'a mpq_log \<Rightarrow> bool" where
  "calm s a \<longleftrightarrow> (\<forall>t. calm_pc a t (snd s t))"

section \<open>Words\<close>

lemma of_nat_u32_eq: "(of_nat x :: u32) = of_nat y \<longleftrightarrow> x mod 4294967296 = y mod 4294967296"
  by (simp add: word_unat_eq_iff unat_of_nat take_bit_eq_mod)

lemma of_nat_u32_near: "x \<le> y \<Longrightarrow> y - x < 4294967296 \<Longrightarrow> (of_nat x :: u32) = of_nat y \<longleftrightarrow> x = y"
proof -
  assume a: "x \<le> y" "y - x < 4294967296"
  have "x mod 4294967296 = y mod 4294967296 \<longleftrightarrow> (y - x) mod 4294967296 = 0"
    using a(1) by (metis mod_eq_dvd_iff_nat mod_0_imp_dvd dvd_imp_mod_0)
  with a show ?thesis by (auto simp: of_nat_u32_eq)
qed

lemma seq_diff_near:
  assumes "\<bar>int x - int y\<bar> < 2147483648"
  shows "seq_diff (of_nat x) (of_nat y) = int x - int y"
proof -
  have "(of_nat x - of_nat y :: u32) = of_int (int x - int y)" by simp
  then have "seq_diff (of_nat x) (of_nat y) = sint (of_int (int x - int y) :: u32)" by (simp only: seq_diff_def)
  also have "\<dots> = int x - int y"
    using assms by (simp only: sint_sbintrunc') (simp add: signed_take_bit_int_eq_self)
  finally show ?thesis .
qed

lemma cell_at_nat:
  assumes "cap = 2 ^ k" "k \<le> 30" "mq_mask q = of_nat cap - 1"
  shows "cell_at q (of_nat p) = p mod cap"
proof -
  have m: "mq_mask q = 2 ^ k - 1" using assms(1,3) by simp
  have "unat ((of_nat p :: u32) AND (2 ^ k - 1)) = unat (of_nat p :: u32) mod 2 ^ k"
    by (rule and_mask_mod [OF refl]) (use assms(2) in simp)
  also have "\<dots> = p mod 4294967296 mod 2 ^ k" by (simp add: unat_of_nat take_bit_eq_mod)
  also have "\<dots> = p mod 2 ^ k"
  proof -
    have "(2::nat) ^ k dvd 2 ^ 32" using assms(2) by (intro le_imp_power_dvd) simp
    then have "(2::nat) ^ k dvd 4294967296" by simp
    then show ?thesis by (rule mod_mod_cancel)
  qed
  finally show ?thesis using assms m by (simp add: cell_at_def)
qed

end
