(* ===== verification/Mpq_Laws.thy ===== *)
theory Mpq_Laws
  imports Mpq_Inv
begin

text \<open>
  The lock-free queue of \<open>Mpq\<close> is a queue: every step of every run keeps the invariant of \<open>Mpq_Inv\<close>,
  and what the threads observe is what one atomic first-in first-out queue would let them observe.
\<close>

section \<open>The steps that change shared memory\<close>

lemma cells_okD:
  assumes "cells_ok cap n q a turn pub"
  shows "2 \<le> cap" "cap \<le> 1073741824" "\<And>p. p mod cap < cap" "\<And>p. cell_at q (of_nat p) = p mod cap"
    "length (mq_cells q) = cap" "mq_capacity q = of_nat cap"
    "mq_enq q = of_nat (length (lg_hist a))" "mq_deq q = of_nat (lg_taken a)" "lg_taken a + n \<le> length (lg_hist a)"
proof -
  obtain k where k: "1 \<le> k" "k \<le> 30" "cap = 2 ^ k" "mq_mask q = of_nat cap - 1" using assms by (auto simp: cells_ok_def)
  have "(2::nat) ^ 1 \<le> 2 ^ k" using k(1) by (intro power_increasing) auto
  then show c: "2 \<le> cap" using k(3) by simp
  then show "\<And>p. p mod cap < cap" by simp
  show "cell_at q (of_nat p) = p mod cap" for p using cell_at_nat k by blast
  have "(2::nat) ^ k \<le> 2 ^ 30" using k(2) by (intro power_increasing) auto
  then show "cap \<le> 1073741824" using k(3) by simp
qed (use assms in \<open>simp_all add: cells_ok_def\<close>)

lemma cell_ok:
  assumes "cells_ok cap n q a turn pub"
  shows "turn (p mod cap) mod cap = p mod cap" "cell_seq q (of_nat p) = of_nat (turn (p mod cap) + (if pub (p mod cap) then 1 else 0))"
    "turn (p mod cap) < lg_taken a + n + cap" "pub (p mod cap) \<Longrightarrow> turn (p mod cap) < length (lg_hist a)"
    "pub (p mod cap) \<Longrightarrow> get_data q (of_nat p) = lg_hist a ! turn (p mod cap)"
    "\<not> pub (p mod cap) \<Longrightarrow> lg_taken a + n \<le> turn (p mod cap)"
    "p < length (lg_hist a) \<Longrightarrow> p \<le> turn (p mod cap)"
proof -
  have "cell_inv cap n a (p mod cap) (mq_cells q ! (p mod cap)) (turn (p mod cap)) (pub (p mod cap))"
    using assms cells_okD(3) [OF assms, of p] by (simp add: cells_ok_def)
  then show "turn (p mod cap) mod cap = p mod cap" "cell_seq q (of_nat p) = of_nat (turn (p mod cap) + (if pub (p mod cap) then 1 else 0))"
    "turn (p mod cap) < lg_taken a + n + cap" "pub (p mod cap) \<Longrightarrow> turn (p mod cap) < length (lg_hist a)"
    "pub (p mod cap) \<Longrightarrow> get_data q (of_nat p) = lg_hist a ! turn (p mod cap)"
    "\<not> pub (p mod cap) \<Longrightarrow> lg_taken a + n \<le> turn (p mod cap)"
    by (simp_all add: cell_inv_def cell_seq_def get_data_def cells_okD(4) [OF assms])
qed (use assms in \<open>simp add: cells_ok_def\<close>)

text \<open>The turn of a cell differs from a position of the cell by whole rounds.\<close>

lemma same_slot:
  assumes "x mod cap = y mod (cap::nat)" "x < y"
  shows "x + cap \<le> y"
proof -
  have "cap dvd y - x" using assms mod_eq_dvd_iff_nat [of x y cap] by simp
  then have "cap \<le> y - x" using assms(2) by (intro dvd_imp_le) auto
  then show ?thesis using assms(2) by simp
qed

text \<open>A producer looks at its cell.\<close>

lemma push_look:
  assumes c: "cells_ok cap n q a turn pub" and s: "s \<le> length (lg_hist a)" "length (lg_hist a) - s < 2 ^ 30"
    and x: "d = seq_diff (cell_seq q (of_nat s)) (of_nat s)"
  shows "d = 0 \<longleftrightarrow> slot_is cap turn pub s False" "d < 0 \<Longrightarrow> turn (s mod cap) + cap \<le> length (lg_hist a)"
proof -
  let ?T = "turn (s mod cap)" and ?b = "if pub (s mod cap) then 1 else 0 :: nat"
  note k = cell_ok [OF c, of s] and cap = cells_okD(1,2,9) [OF c]
  have up: "?T < length (lg_hist a) + cap" using k(3) cap by linarith
  have lo: "s \<le> ?T + cap"
  proof (cases "?T < s")
    case True
    show ?thesis
    proof (cases "s \<le> cap")
      case False
      have "(s - cap) mod cap = s mod cap" using False by (simp add: le_mod_geq)
      moreover have "s - cap < length (lg_hist a)" using False s(1) cap(1) by linarith
      ultimately have "s - cap \<le> ?T" using cell_ok(7) [OF c, of "s - cap"] by simp
      then show ?thesis by linarith
    qed simp
  qed simp
  have r: "\<bar>int (?T + ?b) - int s\<bar> < 2147483648" using up lo s cap by (auto simp: abs_if)
  have d: "d = int (?T + ?b) - int s" unfolding x k(2) by (rule seq_diff_near [OF r])
  show "d < 0 \<Longrightarrow> ?T + cap \<le> length (lg_hist a)"
  proof -
    assume "d < 0"
    then have "?T < s" using d by (auto split: if_splits)
    then have "?T + cap \<le> s" using same_slot [of ?T cap s] k(1) by simp
    then show ?thesis using s(1) by linarith
  qed
  show "d = 0 \<longleftrightarrow> slot_is cap turn pub s False"
  proof
    assume z: "d = 0"
    have "?b = 0"
    proof (rule ccontr)
      assume "?b \<noteq> 0"
      then have "?T + 1 = s" using z d by (auto split: if_splits)
      then have "?T < s" "?T + cap \<le> s" using same_slot [of ?T cap s] k(1) by auto
      then show False using \<open>?T + 1 = s\<close> cap(1) by linarith
    qed
    then show "slot_is cap turn pub s False" using z d by (auto simp: slot_is_def split: if_splits)
  qed (auto simp: d slot_is_def)
qed

text \<open>A consumer looks at its cell.\<close>

lemma pop_look:
  assumes c: "cells_ok cap 0 q a turn pub" and p: "p \<le> length (lg_hist a)" "lg_taken a - p < 2 ^ 30"
  shows "seq_diff (cell_seq q (of_nat p)) (of_nat p + 1) = 0 \<longleftrightarrow> slot_is cap turn pub p True"
proof -
  let ?T = "turn (p mod cap)" and ?b = "if pub (p mod cap) then 1 else 0 :: nat"
  note k = cell_ok [OF c, of p] and cap = cells_okD(1,2,9) [OF c]
  have lo: "p \<le> ?T + cap"
  proof (cases "?T < p \<and> \<not> p \<le> cap")
    case True
    have "(p - cap) mod cap = p mod cap" using True by (simp add: le_mod_geq)
    moreover have "p - cap < length (lg_hist a)" using True p(1) cap(1) by linarith
    ultimately have "p - cap \<le> ?T" using cell_ok(7) [OF c, of "p - cap"] by simp
    then show ?thesis by linarith
  qed auto
  have up: "?T < lg_taken a + cap" using k(3) by simp
  have r: "\<bar>int (?T + ?b) - int (p + 1)\<bar> < 2147483648" using up lo p(2) cap by (auto simp: abs_if)
  have "seq_diff (cell_seq q (of_nat p)) (of_nat (p + 1)) = int (?T + ?b) - int (p + 1)"
    unfolding k(2) by (rule seq_diff_near [OF r])
  then have d: "seq_diff (cell_seq q (of_nat p)) (of_nat p + 1) = int (?T + ?b) - int (p + 1)" by (simp add: add.commute)
  have "?T \<noteq> p + 1"
  proof
    assume t: "?T = p + 1"
    then have "p + cap \<le> ?T" using same_slot [of p cap ?T] k(1) by simp
    with t cap(1) show False by linarith
  qed
  with d show ?thesis by (auto simp: slot_is_def)
qed

lemma log_near:
  assumes c: "cells_ok cap n q a turn pub"
  shows "length (lg_hist a) \<le> lg_taken a + n + cap"
proof (cases "lg_hist a = []")
  case False
  let ?p = "length (lg_hist a) - 1"
  have p: "?p < length (lg_hist a)" using False by simp
  show ?thesis using cell_ok(3) [OF c, of ?p] cell_ok(7) [OF c p] by linarith
qed simp

text \<open>Nobody has claimed the next round of a cell whose turn is \<open>s\<close>.\<close>

lemma next_round_free:
  assumes c: "cells_ok cap n q a turn pub" and s: "slot_is cap turn pub s b"
  shows "length (lg_hist a) \<le> s + cap"
proof (rule ccontr)
  assume "\<not> ?thesis"
  then have "s + cap < length (lg_hist a)" by simp
  then have "s + cap \<le> turn ((s + cap) mod cap)" by (rule cell_ok(7) [OF c])
  then show False using s cells_okD(1) [OF c] by (simp add: slot_is_def)
qed

lemma cells_okI:
  assumes "cells_ok cap n q a turn pub"
    "length (mq_cells q') = cap" "mq_capacity q' = mq_capacity q" "mq_mask q' = mq_mask q"
    "mq_enq q' = of_nat (length (lg_hist a'))" "mq_deq q' = of_nat (lg_taken a')" "lg_taken a' + n' \<le> length (lg_hist a')"
    "\<And>i. i < cap \<Longrightarrow> cell_inv cap n' a' i (mq_cells q' ! i) (turn' i) (pub' i)"
    "\<And>p. p < length (lg_hist a') \<Longrightarrow> p \<le> turn' (p mod cap)"
  shows "cells_ok cap n' q' a' turn' pub'"
  using assms by (simp add: cells_ok_def)

lemma cells_okE:
  assumes "cells_ok cap n q a turn pub" "i < cap"
  shows "cell_inv cap n a i (mq_cells q ! i) (turn i) (pub i)"
  using assms by (simp add: cells_ok_def)

lemma claim_ok:
  assumes c: "cells_ok cap n q a turn pub" and s: "slot_is cap turn pub (length (lg_hist a)) False"
  shows "cells_ok cap n (q\<lparr>mq_enq := of_nat (length (lg_hist a)) + 1\<rparr>) (log_upd (EPush t d) a) turn pub"
proof (rule cells_okI [OF c])
  fix i assume "i < cap"
  from cells_okE [OF c this] show "cell_inv cap n (log_upd (EPush t d) a) i (mq_cells (q\<lparr>mq_enq := of_nat (length (lg_hist a)) + 1\<rparr>) ! i) (turn i) (pub i)"
    by (auto simp: cell_inv_def nth_append)
next
  fix p assume "p < length (lg_hist (log_upd (EPush t d) a))"
  then consider "p < length (lg_hist a)" | "p = length (lg_hist a)" by fastforce
  then show "p \<le> turn (p mod cap)" using cell_ok(7) [OF c] s by cases (auto simp: slot_is_def)
qed (use cells_okD [OF c] in \<open>simp_all add: add.commute\<close>)

lemma set_cell:
  "mq_cells (set_seq q pos v) = (mq_cells q)[cell_at q pos := (mq_cells q ! cell_at q pos)\<lparr>mc_seq := v\<rparr>]"
  "mq_cells (set_data q pos d) = (mq_cells q)[cell_at q pos := (mq_cells q ! cell_at q pos)\<lparr>mc_data := d\<rparr>]"
  "mq_capacity (set_seq q pos v) = mq_capacity q" "mq_mask (set_seq q pos v) = mq_mask q"
  "mq_enq (set_seq q pos v) = mq_enq q" "mq_deq (set_seq q pos v) = mq_deq q"
  "mq_capacity (set_data q pos d) = mq_capacity q" "mq_mask (set_data q pos d) = mq_mask q"
  "mq_enq (set_data q pos d) = mq_enq q" "mq_deq (set_data q pos d) = mq_deq q"
  by (simp_all add: set_seq_def set_data_def)

text \<open>A change of one cell.\<close>

lemma one_cell:
  assumes c: "cells_ok cap n q a turn pub" and i: "cell_at q pos = s mod cap"
    and q': "mq_cells q' = (mq_cells q)[cell_at q pos := cell]" "mq_capacity q' = mq_capacity q" "mq_mask q' = mq_mask q"
      "mq_enq q' = mq_enq q" "mq_deq q' = mq_deq q"
    and n: "lg_taken a + n' \<le> length (lg_hist a)"
    and new: "cell_inv cap n' a (s mod cap) cell p b" and up: "turn (s mod cap) \<le> p"
    and rest: "\<And>j. j < cap \<Longrightarrow> j \<noteq> s mod cap \<Longrightarrow> cell_inv cap n a j (mq_cells q ! j) (turn j) (pub j) \<Longrightarrow>
      cell_inv cap n' a j (mq_cells q ! j) (turn j) (pub j)"
  shows "cells_ok cap n' q' a (turn(s mod cap := p)) (pub(s mod cap := b))"
proof (rule cells_okI [OF c])
  fix j assume "j < cap"
  with rest [OF this _ cells_okE [OF c this]] new cells_okD(3,5) [OF c] q'(1) i
  show "cell_inv cap n' a j (mq_cells q' ! j) ((turn(s mod cap := p)) j) ((pub(s mod cap := b)) j)" by auto
next
  fix r assume "r < length (lg_hist a)"
  with cell_ok(7) [OF c this] up show "r \<le> (turn(s mod cap := p)) (r mod cap)" by (auto intro: order.trans)
qed (use q' n cells_okD [OF c] in simp_all)

lemma slot_same: "turn (s mod cap) = s \<Longrightarrow> turn(s mod cap := s) = turn" "pub (s mod cap) = b \<Longrightarrow> pub(s mod cap := b) = pub"
  by auto

lemma slot_cell:
  assumes "cells_ok cap n q a turn pub" "slot_is cap turn pub s b"
  shows "cell_inv cap n a (s mod cap) (mq_cells q ! (s mod cap)) s b"
  using cells_okE [OF assms(1) cells_okD(3) [OF assms(1), of s]] assms(2) by (simp add: slot_is_def)

lemma fill_ok:
  assumes c: "cells_ok cap n q a turn pub" and s: "slot_is cap turn pub s False"
  shows "cells_ok cap n (set_data q (of_nat s) d) a turn pub"
    "mc_data (mq_cells (set_data q (of_nat s) d) ! (s mod cap)) = d"
proof -
  have "cells_ok cap n (set_data q (of_nat s) d) a (turn(s mod cap := s)) (pub(s mod cap := False))"
    by (rule one_cell [OF c cells_okD(4) [OF c] set_cell(2,7-10)])
      (use s slot_cell [OF c s] cells_okD(9) [OF c] in \<open>simp_all add: cell_inv_def slot_is_def cells_okD(4) [OF c]\<close>)
  then show "cells_ok cap n (set_data q (of_nat s) d) a turn pub" using s by (simp add: slot_same slot_is_def)
  show "mc_data (mq_cells (set_data q (of_nat s) d) ! (s mod cap)) = d"
    using cells_okD(3,5) [OF c] by (simp add: set_cell cells_okD(4) [OF c])
qed

lemma publish_ok:
  assumes c: "cells_ok cap n q a turn pub" and s: "slot_is cap turn pub s False" "s < length (lg_hist a)"
    "lg_hist a ! s = mc_data (mq_cells q ! (s mod cap))"
  shows "cells_ok cap n (set_seq q (of_nat s) (of_nat s + 1)) a turn (pub(s mod cap := True))"
proof -
  have "cells_ok cap n (set_seq q (of_nat s) (of_nat s + 1)) a (turn(s mod cap := s)) (pub(s mod cap := True))"
    by (rule one_cell [OF c cells_okD(4) [OF c] set_cell(1,3-6)])
      (use s slot_cell [OF c s(1)] cells_okD(9) [OF c] in \<open>simp_all add: cell_inv_def slot_is_def cells_okD(4) [OF c] add.commute [of "1 :: u32"]\<close>)
  then show ?thesis using s by (simp add: slot_same slot_is_def)
qed

text \<open>No other cell has the same turn.\<close>

lemma other_turn:
  assumes c: "cells_ok cap n q a turn pub" and s: "slot_is cap turn pub s b" and j: "j < cap" "j \<noteq> s mod cap"
  shows "turn j \<noteq> s"
  using cells_okE [OF c j(1)] j(2) by (auto simp: cell_inv_def)

lemma take_ok:
  assumes c: "cells_ok cap 0 q a turn pub" and s: "slot_is cap turn pub (lg_taken a) True"
  shows "cells_ok cap 0 (q\<lparr>mq_deq := of_nat (lg_taken a) + 1\<rparr>) (log_upd (ETake t 1) a) turn pub"
    "lg_taken a < length (lg_hist a)"
proof -
  show lt: "lg_taken a < length (lg_hist a)" using slot_cell [OF c s] by (simp add: cell_inv_def)
  show "cells_ok cap 0 (q\<lparr>mq_deq := of_nat (lg_taken a) + 1\<rparr>) (log_upd (ETake t 1) a) turn pub"
  proof (rule cells_okI [OF c])
    fix i assume i: "i < cap"
    show "cell_inv cap 0 (log_upd (ETake t 1) a) i (mq_cells (q\<lparr>mq_deq := of_nat (lg_taken a) + 1\<rparr>) ! i) (turn i) (pub i)"
    proof (cases "i = lg_taken a mod cap")
      case True
      with slot_cell [OF c s] s show ?thesis by (simp add: cell_inv_def slot_is_def)
    next
      case False
      with other_turn [OF c s i] cells_okE [OF c i] show ?thesis by (auto simp: cell_inv_def)
    qed
  qed (use cells_okD [OF c] cell_ok(7) [OF c] lt in \<open>simp_all add: add.commute\<close>)
qed

lemma take_batch_ok:
  assumes c: "cells_ok cap n q a turn pub"
  shows "cells_ok cap 0 (q\<lparr>mq_deq := of_nat (lg_taken a) + of_nat n\<rparr>) (log_upd (ETake t n) a) turn pub"
proof (rule cells_okI [OF c])
  fix i assume "i < cap"
  from cells_okE [OF c this]
  show "cell_inv cap 0 (log_upd (ETake t n) a) i (mq_cells (q\<lparr>mq_deq := of_nat (lg_taken a) + of_nat n\<rparr>) ! i) (turn i) (pub i)"
    by (auto simp: cell_inv_def)
qed (use cells_okD [OF c] cell_ok(7) [OF c] in simp_all)

lemma release_ok:
  assumes c: "cells_ok cap n q a turn pub" and s: "slot_is cap turn pub s True" "s < lg_taken a"
  shows "cells_ok cap n (set_seq q (of_nat s) (of_nat s + mq_capacity q)) a (turn(s mod cap := s + cap)) (pub(s mod cap := False))"
proof (rule one_cell [OF c cells_okD(4) [OF c] set_cell(1,3-6)])
  have "lg_taken a + n \<le> s + cap" using next_round_free [OF c s(1)] cells_okD(9) [OF c] by linarith
  then show "cell_inv cap n a (s mod cap) ((mq_cells q ! cell_at q (of_nat s))\<lparr>mc_seq := of_nat s + mq_capacity q\<rparr>) (s + cap) False"
    using s(2) by (simp add: cell_inv_def cells_okD(6) [OF c])
qed (use s cells_okD(9) [OF c] in \<open>simp_all add: slot_is_def\<close>)

lemma release_batch_ok:
  assumes c: "cells_ok cap n q a turn pub" and s: "slot_is cap turn pub s True" "s = lg_taken a + n"
  shows "cells_ok cap (Suc n) (set_seq q (of_nat s) (of_nat s + mq_capacity q)) a (turn(s mod cap := s + cap)) (pub(s mod cap := False))"
proof (rule one_cell [OF c cells_okD(4) [OF c] set_cell(1,3-6)])
  show "lg_taken a + Suc n \<le> length (lg_hist a)" using slot_cell [OF c s(1)] s(2) by (simp add: cell_inv_def)
  show "cell_inv cap (Suc n) a (s mod cap) ((mq_cells q ! cell_at q (of_nat s))\<lparr>mc_seq := of_nat s + mq_capacity q\<rparr>) (s + cap) False"
    using s(2) cells_okD(1) [OF c] by (simp add: cell_inv_def cells_okD(6) [OF c])
  fix j assume "j < cap" "j \<noteq> s mod cap" "cell_inv cap n a j (mq_cells q ! j) (turn j) (pub j)"
  with other_turn [OF c s(1), of j] s(2) show "cell_inv cap (Suc n) a j (mq_cells q ! j) (turn j) (pub j)"
    by (auto simp: cell_inv_def)
qed (use s in \<open>simp_all add: slot_is_def\<close>)

section \<open>The other threads\<close>

text \<open>What a thread relies on when it does not move itself.\<close>

lemma pc_ok_same:
  assumes "lg_hist a' = lg_hist a" "lg_taken a' = lg_taken a" "lg_seen a' u = lg_seen a u" "lg_pend a' u = lg_pend a u"
    "u \<in> lg_did a' \<longleftrightarrow> u \<in> lg_did a"
  shows "pc_ok cap cs a' turn pub u p \<longleftrightarrow> pc_ok cap cs a turn pub u p"
  by (cases p) (simp_all add: assms has_out_def split: push_pc.split pop_pc.split sc_pc.split batch_pc.split size_pc.split empty_pc.split)

lemmas pc_splits = push_pc.splits pop_pc.splits sc_pc.splits batch_pc.splits size_pc.splits empty_pc.splits

lemma slot_published: "cells_ok cap n q a turn pub \<Longrightarrow> slot_is cap turn pub s True \<Longrightarrow> s < length (lg_hist a)"
  using slot_cell [of cap n q a turn pub s True] by (simp add: cell_inv_def)

lemma has_out_claim: "has_out a s out \<Longrightarrow> has_out (log_upd (EPush t d) a) s out"
  by (auto simp: has_out_def)

lemma pc_ok_claim:
  assumes "pc_ok cap cs a turn pub u p" "u \<noteq> t" "cells_ok cap n q a turn pub"
  shows "pc_ok cap cs (log_upd (EPush t d) a) turn pub u p"
  using assms(1,2) slot_published [OF assms(3)] has_out_claim [of a _ _ t d]
  by (cases p) (auto simp: nth_append split: pc_splits)

definition no_consumer :: "'a mpq_pc \<Rightarrow> bool" where
  "no_consumer p \<longleftrightarrow> (\<forall>x. p \<noteq> Sc x) \<and> (\<forall>x. p \<noteq> Batch x)"

lemma pc_ok_take:
  assumes "pc_ok cap cs a turn pub u p" "u \<noteq> t" "no_consumer p" "0 < n"
  shows "pc_ok cap cs (log_upd (ETake t n) a) turn pub u p"
  using assms by (cases p) (auto simp: no_consumer_def split: pc_splits)

lemma pc_ok_fill:
  assumes "pc_ok cap (mq_cells q) a turn pub u p" "cells_ok cap n q a turn pub" "slot_is cap turn pub s False"
    "filling p \<Longrightarrow> lg_seen a u \<noteq> s"
  shows "pc_ok cap (mq_cells (set_data q (of_nat s) d)) a turn pub u p"
proof -
  have d: "mc_data (mq_cells (set_data q (of_nat s) d) ! (x mod cap)) = mc_data (mq_cells q ! (x mod cap))"
    if "slot_is cap turn pub x False" "x \<noteq> s" for x
  proof -
    have "x mod cap \<noteq> s mod cap" using that assms(3) by (auto simp: slot_is_def)
    then show ?thesis by (simp add: set_cell cells_okD(4) [OF assms(2)])
  qed
  show ?thesis using assms(1,4) by (cases p) (auto simp: d split: pc_splits)
qed

lemma pc_ok_seq:
  assumes "pc_ok cap (mq_cells q) a turn pub u p"
  shows "pc_ok cap (mq_cells (set_seq q pos v)) a turn pub u p"
proof -
  have "mc_data (mq_cells (set_seq q pos v) ! i) = mc_data (mq_cells q ! i)" for i
    by (cases "cell_at q pos < length (mq_cells q)") (auto simp: set_cell nth_list_update list_update_beyond)
  with assms show ?thesis by (cases p) (auto split: pc_splits)
qed

lemma pc_ok_publish:
  assumes "pc_ok cap cs a turn pub u p" "slot_is cap turn pub s False" "s < length (lg_hist a)" "filling p \<Longrightarrow> lg_seen a u \<noteq> s"
  shows "pc_ok cap cs a turn (pub(s mod cap := True)) u p"
proof -
  have f: "slot_is cap turn (pub(s mod cap := True)) x False \<longleftrightarrow> slot_is cap turn pub x False" if "x \<noteq> s" for x
    using that assms(2) by (auto simp: slot_is_def)
  have t: "slot_is cap turn pub x True \<Longrightarrow> slot_is cap turn (pub(s mod cap := True)) x True" for x
    by (auto simp: slot_is_def)
  show ?thesis using assms(1,3,4) by (cases p) (auto simp: f t split: pc_splits)
qed

lemma pc_ok_release:
  assumes "pc_ok cap cs a turn pub u p" "slot_is cap turn pub s True" "no_consumer p"
    "emptying p \<Longrightarrow> lg_seen a u \<noteq> s" "s < lg_taken a \<or> (\<forall>x. p \<noteq> Pop x)"
  shows "pc_ok cap cs a (turn(s mod cap := s + cap)) (pub(s mod cap := False)) u p"
proof -
  have r: "slot_is cap (turn(s mod cap := s + cap)) (pub(s mod cap := False)) x b" if "slot_is cap turn pub x b" "x \<noteq> s" for x b
    using that assms(2) by (auto simp: slot_is_def)
  have f: "x \<noteq> s" if "slot_is cap turn pub x False" for x using that assms(2) by (auto simp: slot_is_def)
  show ?thesis using assms(1,3-5)
    by (cases p) (auto simp: no_consumer_def intro: r dest: f split: pc_splits)
qed

section \<open>One step\<close>

definition inv_at :: "nat option \<Rightarrow> nat \<Rightarrow> 'a mpq \<Rightarrow> (nat \<Rightarrow> 'a mpq_pc) \<Rightarrow> 'a mpq_log \<Rightarrow> (nat \<Rightarrow> nat) \<Rightarrow> (nat \<Rightarrow> bool) \<Rightarrow> bool" where
  "inv_at consumer cap q pcs a turn pub \<longleftrightarrow>
     cells_ok cap (ahead consumer pcs) q a turn pub \<and> owned cap pcs a turn pub \<and>
     (\<forall>t. pc_ok cap (mq_cells q) a turn pub t (pcs t) \<and> role_ok consumer t (pcs t))"

lemma inv_atD:
  assumes "inv_at consumer cap q pcs a turn pub"
  shows "cells_ok cap (ahead consumer pcs) q a turn pub" "owned cap pcs a turn pub"
    "pc_ok cap (mq_cells q) a turn pub t (pcs t)" "role_ok consumer t (pcs t)"
  using assms by (simp_all add: inv_at_def)

lemma ahead_same: "given_back p = given_back (pcs t) \<Longrightarrow> ahead consumer (pcs(t := p)) = ahead consumer pcs"
  by (simp add: ahead_def split: option.split)

lemma cells_ok_same:
  "lg_hist a' = lg_hist a \<Longrightarrow> lg_taken a' = lg_taken a \<Longrightarrow> cells_ok cap n q a' turn pub = cells_ok cap n q a turn pub"
  by (simp add: cells_ok_def cell_inv_def)

lemma ownedI:
  assumes "\<And>i. i < cap \<Longrightarrow> pub i \<Longrightarrow> turn i < lg_taken a \<Longrightarrow> \<exists>t. emptying (pcs t) \<and> lg_seen a t = turn i"
    "\<And>i. i < cap \<Longrightarrow> \<not> pub i \<Longrightarrow> turn i < length (lg_hist a) \<Longrightarrow> \<exists>t. filling (pcs t) \<and> lg_seen a t = turn i"
    "\<And>t u. filling (pcs t) \<Longrightarrow> filling (pcs u) \<Longrightarrow> lg_seen a t = lg_seen a u \<Longrightarrow> t = u"
    "\<And>t u. emptying (pcs t) \<Longrightarrow> emptying (pcs u) \<Longrightarrow> lg_seen a t = lg_seen a u \<Longrightarrow> t = u"
  shows "owned cap pcs a turn pub"
  using assms by (simp add: owned_def)

lemma ownedD:
  assumes "owned cap pcs a turn pub"
  shows "i < cap \<Longrightarrow> pub i \<Longrightarrow> turn i < lg_taken a \<Longrightarrow> \<exists>t. emptying (pcs t) \<and> lg_seen a t = turn i"
    "i < cap \<Longrightarrow> \<not> pub i \<Longrightarrow> turn i < length (lg_hist a) \<Longrightarrow> \<exists>t. filling (pcs t) \<and> lg_seen a t = turn i"
    "filling (pcs t) \<Longrightarrow> filling (pcs u) \<Longrightarrow> lg_seen a t = lg_seen a u \<Longrightarrow> t = u"
    "emptying (pcs t) \<Longrightarrow> emptying (pcs u) \<Longrightarrow> lg_seen a t = lg_seen a u \<Longrightarrow> t = u"
  using assms by (simp_all add: owned_def)

lemma owned_step:
  assumes o: "owned cap pcs a turn pub" and seen: "\<And>u. u \<noteq> t \<Longrightarrow> lg_seen a' u = lg_seen a u"
    and e: "\<And>i. i < cap \<Longrightarrow> pub' i \<Longrightarrow> turn' i < lg_taken a' \<Longrightarrow>
        emptying p \<and> lg_seen a' t = turn' i \<or> (\<exists>u. u \<noteq> t \<and> emptying (pcs u) \<and> lg_seen a u = turn' i)"
    and f: "\<And>i. i < cap \<Longrightarrow> \<not> pub' i \<Longrightarrow> turn' i < length (lg_hist a') \<Longrightarrow>
        filling p \<and> lg_seen a' t = turn' i \<or> (\<exists>u. u \<noteq> t \<and> filling (pcs u) \<and> lg_seen a u = turn' i)"
    and uf: "\<And>u. filling p \<Longrightarrow> u \<noteq> t \<Longrightarrow> filling (pcs u) \<Longrightarrow> lg_seen a u \<noteq> lg_seen a' t"
    and ue: "\<And>u. emptying p \<Longrightarrow> u \<noteq> t \<Longrightarrow> emptying (pcs u) \<Longrightarrow> lg_seen a u \<noteq> lg_seen a' t"
  shows "owned cap (pcs(t := p)) a' turn' pub'"
proof (rule ownedI)
  fix i assume "i < cap" "pub' i" "turn' i < lg_taken a'"
  from e [OF this] seen show "\<exists>u. emptying ((pcs(t := p)) u) \<and> lg_seen a' u = turn' i" by (metis fun_upd_apply)
next
  fix i assume "i < cap" "\<not> pub' i" "turn' i < length (lg_hist a')"
  from f [OF this] seen show "\<exists>u. filling ((pcs(t := p)) u) \<and> lg_seen a' u = turn' i" by (metis fun_upd_apply)
next
  fix u v assume a: "filling ((pcs(t := p)) u)" "filling ((pcs(t := p)) v)" "lg_seen a' u = lg_seen a' v"
  show "u = v"
  proof (rule ccontr)
    assume n: "u \<noteq> v"
    then consider "u = t" "v \<noteq> t" | "v = t" "u \<noteq> t" | "u \<noteq> t" "v \<noteq> t" by blast
    then show False
    proof cases
      case 1 then show ?thesis using a uf [of v] seen [of v] by simp
    next
      case 2 then show ?thesis using a uf [of u] seen [of u] by simp
    next
      case 3 then show ?thesis using a n ownedD(3) [OF o, of u v] seen [of u] seen [of v] by simp
    qed
  qed
next
  fix u v assume a: "emptying ((pcs(t := p)) u)" "emptying ((pcs(t := p)) v)" "lg_seen a' u = lg_seen a' v"
  show "u = v"
  proof (rule ccontr)
    assume n: "u \<noteq> v"
    then consider "u = t" "v \<noteq> t" | "v = t" "u \<noteq> t" | "u \<noteq> t" "v \<noteq> t" by blast
    then show False
    proof cases
      case 1 then show ?thesis using a ue [of v] seen [of v] by simp
    next
      case 2 then show ?thesis using a ue [of u] seen [of u] by simp
    next
      case 3 then show ?thesis using a n ownedD(4) [OF o, of u v] seen [of u] seen [of v] by simp
    qed
  qed
qed

lemma owner_cases:
  assumes "owned cap pcs a turn pub" "i < cap"
  shows "pub i \<Longrightarrow> turn i < lg_taken a \<Longrightarrow>
      emptying (pcs t) \<and> lg_seen a t = turn i \<or> (\<exists>u. u \<noteq> t \<and> emptying (pcs u) \<and> lg_seen a u = turn i)"
    "\<not> pub i \<Longrightarrow> turn i < length (lg_hist a) \<Longrightarrow>
      filling (pcs t) \<and> lg_seen a t = turn i \<or> (\<exists>u. u \<noteq> t \<and> filling (pcs u) \<and> lg_seen a u = turn i)"
proof -
  show "emptying (pcs t) \<and> lg_seen a t = turn i \<or> (\<exists>u. u \<noteq> t \<and> emptying (pcs u) \<and> lg_seen a u = turn i)"
    if i: "pub i" "turn i < lg_taken a"
  proof -
    obtain u where "emptying (pcs u)" "lg_seen a u = turn i" using ownedD(1) [OF assms i] by blast
    then show ?thesis by (cases "u = t") auto
  qed
  show "filling (pcs t) \<and> lg_seen a t = turn i \<or> (\<exists>u. u \<noteq> t \<and> filling (pcs u) \<and> lg_seen a u = turn i)"
    if i: "\<not> pub i" "turn i < length (lg_hist a)"
  proof -
    obtain u where "filling (pcs u)" "lg_seen a u = turn i" using ownedD(2) [OF assms i] by blast
    then show ?thesis by (cases "u = t") auto
  qed
qed

lemma owned_same:
  assumes o: "owned cap pcs a turn pub" and a': "lg_hist a' = lg_hist a" "lg_taken a' = lg_taken a" "\<And>u. u \<noteq> t \<Longrightarrow> lg_seen a' u = lg_seen a u"
    and p: "filling p = filling (pcs t)" "emptying p = emptying (pcs t)" "filling p \<or> emptying p \<Longrightarrow> lg_seen a' t = lg_seen a t"
  shows "owned cap (pcs(t := p)) a' turn pub"
proof (rule owned_step [OF o a'(3)])
  fix i assume "i < cap" "pub i" "turn i < lg_taken a'"
  with owner_cases(1) [OF o, of i t] p a'(2)
  show "emptying p \<and> lg_seen a' t = turn i \<or> (\<exists>u. u \<noteq> t \<and> emptying (pcs u) \<and> lg_seen a u = turn i)" by auto
next
  fix i assume "i < cap" "\<not> pub i" "turn i < length (lg_hist a')"
  with owner_cases(2) [OF o, of i t] p a'(1)
  show "filling p \<and> lg_seen a' t = turn i \<or> (\<exists>u. u \<noteq> t \<and> filling (pcs u) \<and> lg_seen a u = turn i)" by auto
next
  fix u assume "filling p" "u \<noteq> t" "filling (pcs u)"
  with p ownedD(3) [OF o, of u t] show "lg_seen a u \<noteq> lg_seen a' t" by auto
next
  fix u assume "emptying p" "u \<noteq> t" "emptying (pcs u)"
  with p ownedD(4) [OF o, of u t] show "lg_seen a u \<noteq> lg_seen a' t" by auto
qed

text \<open>A step that changes nothing shared.\<close>

lemma inv_local:
  assumes I: "inv_at consumer cap q pcs a turn pub"
    and a': "lg_hist a' = lg_hist a" "lg_taken a' = lg_taken a"
      "\<And>u. u \<noteq> t \<Longrightarrow> lg_seen a' u = lg_seen a u \<and> lg_pend a' u = lg_pend a u \<and> (u \<in> lg_did a' \<longleftrightarrow> u \<in> lg_did a)"
    and p: "role_ok consumer t p" "pc_ok cap (mq_cells q) a' turn pub t p"
    and f: "filling p = filling (pcs t)" "emptying p = emptying (pcs t)" "filling p \<or> emptying p \<Longrightarrow> lg_seen a' t = lg_seen a t"
      "given_back p = given_back (pcs t)"
  shows "inv_at consumer cap q (pcs(t := p)) a' turn pub"
proof -
  have "pc_ok cap (mq_cells q) a' turn pub u (pcs u)" if "u \<noteq> t" for u
    using pc_ok_same [OF a'(1,2), of u] a'(3) [OF that] inv_atD(3) [OF I, of u] by blast
  moreover have "owned cap (pcs(t := p)) a' turn pub"
    by (rule owned_same [OF inv_atD(2) [OF I] a'(1,2)]) (use a'(3) f in auto)
  moreover have "cells_ok cap (ahead consumer (pcs(t := p))) q a' turn pub"
    using inv_atD(1) [OF I] by (simp add: ahead_same [of p pcs t, OF f(4)] cells_ok_same [of a' a, OF a'(1,2)])
  ultimately show ?thesis using p inv_atD(4) [OF I] by (auto simp: inv_at_def)
qed

lemma fillers_differ:
  assumes "inv_at consumer cap q pcs a turn pub" "filling (pcs t)" "u \<noteq> t" "filling (pcs u)"
  shows "lg_seen a u \<noteq> lg_seen a t"
  using assms by (auto simp: inv_at_def owned_def)

lemma emptiers_differ:
  assumes "inv_at consumer cap q pcs a turn pub" "emptying (pcs t)" "u \<noteq> t" "emptying (pcs u)"
  shows "lg_seen a u \<noteq> lg_seen a t"
  using assms by (auto simp: inv_at_def owned_def)

lemma filling_seen: "pc_ok cap cs a turn pub u p \<Longrightarrow> filling p \<Longrightarrow> lg_seen a u < length (lg_hist a) \<and> slot_is cap turn pub (lg_seen a u) False"
  by (cases p) (auto split: push_pc.splits)

lemma emptying_seen: "pc_ok cap cs a turn pub u p \<Longrightarrow> emptying p \<Longrightarrow>
    lg_seen a u < lg_taken a \<and> slot_is cap turn pub (lg_seen a u) True \<and> lg_pend a u \<noteq> []"
  by (cases p) (auto split: pop_pc.splits sc_pc.splits)

text \<open>A producer claims the next position.\<close>

lemma inv_claim:
  assumes I: "inv_at consumer cap q pcs a turn pub" and t: "pcs t = Push (PushCas d pos)"
    and s: "lg_seen a t = length (lg_hist a)"
  shows "inv_at consumer cap (q\<lparr>mq_enq := pos + 1\<rparr>) (pcs(t := Push (PushCopy d pos))) (log_upd (EPush t d) a) turn pub"
proof -
  let ?a = "log_upd (EPush t d) a" and ?pcs = "pcs(t := Push (PushCopy d pos))"
  note c = inv_atD(1) [OF I]
  have ok: "t \<notin> lg_did a" "lg_pend a t = []" "pos = of_nat (length (lg_hist a))" "slot_is cap turn pub (length (lg_hist a)) False"
    using inv_atD(3) [OF I, of t] s by (simp_all add: t)
  have "cells_ok cap (ahead consumer ?pcs) (q\<lparr>mq_enq := pos + 1\<rparr>) ?a turn pub"
    using claim_ok [OF c ok(4), of t d] by (simp add: ahead_same t ok(3))
  moreover have "owned cap ?pcs ?a turn pub"
  proof (rule owned_step [OF inv_atD(2) [OF I]])
    note o = inv_atD(2) [OF I]
    fix i assume "i < cap" "pub i" "turn i < lg_taken ?a"
    with owner_cases(1) [OF o, of i t]
    show "emptying (Push (PushCopy d pos)) \<and> lg_seen ?a t = turn i \<or> (\<exists>u. u \<noteq> t \<and> emptying (pcs u) \<and> lg_seen a u = turn i)"
      by (simp add: t)
  next
    note o = inv_atD(2) [OF I]
    fix i assume "i < cap" "\<not> pub i" "turn i < length (lg_hist ?a)"
    with owner_cases(2) [OF o, of i t] s
    show "filling (Push (PushCopy d pos)) \<and> lg_seen ?a t = turn i \<or> (\<exists>u. u \<noteq> t \<and> filling (pcs u) \<and> lg_seen a u = turn i)"
      by (cases "turn i = length (lg_hist a)") (simp_all add: t)
  next
    fix u assume "filling (pcs u)"
    from filling_seen [OF inv_atD(3) [OF I] this] s show "lg_seen a u \<noteq> lg_seen ?a t" by simp
  qed simp_all
  moreover have "pc_ok cap (mq_cells q) ?a turn pub u (pcs u)" if "u \<noteq> t" for u
    by (rule pc_ok_claim [OF inv_atD(3) [OF I] that c])
  ultimately show ?thesis using ok s inv_atD(4) [OF I] by (auto simp: inv_at_def nth_append)
qed

text \<open>It writes its element.\<close>

lemma inv_fill:
  assumes I: "inv_at consumer cap q pcs a turn pub" and t: "pcs t = Push (PushCopy d pos)"
  shows "inv_at consumer cap (set_data q pos d) (pcs(t := Push (PushOut pos))) a turn pub"
proof -
  note c = inv_atD(1) [OF I]
  have ok: "t \<in> lg_did a" "lg_pend a t = []" "pos = of_nat (lg_seen a t)" "lg_seen a t < length (lg_hist a)"
    "slot_is cap turn pub (lg_seen a t) False" "lg_hist a ! lg_seen a t = d"
    using inv_atD(3) [OF I, of t] by (simp_all add: t)
  have "cells_ok cap (ahead consumer (pcs(t := Push (PushOut pos)))) (set_data q pos d) a turn pub"
    using fill_ok(1) [OF c ok(5), of d] by (simp add: ahead_same t ok(3))
  moreover have "owned cap (pcs(t := Push (PushOut pos))) a turn pub"
    by (rule owned_same [OF inv_atD(2) [OF I]]) (simp_all add: t)
  moreover have "pc_ok cap (mq_cells (set_data q pos d)) a turn pub u (pcs u)" if "u \<noteq> t" for u
    unfolding ok(3) using fillers_differ [OF I, of t u] that
    by (intro pc_ok_fill [OF inv_atD(3) [OF I] c ok(5)]) (simp add: t)
  ultimately show ?thesis using ok fill_ok(2) [OF c ok(5), of d] inv_atD(4) [OF I] by (auto simp: inv_at_def)
qed

text \<open>It publishes its element and returns.\<close>

lemma inv_publish:
  assumes I: "inv_at consumer cap q pcs a turn pub" and t: "pcs t = Push (PushOut pos)"
  shows "inv_at consumer cap (set_seq q pos (pos + 1)) (pcs(t := Idle)) (log_upd (EPushed t) a) turn (pub(lg_seen a t mod cap := True))"
proof -
  let ?a = "log_upd (EPushed t) a" and ?s = "lg_seen a t" and ?pub = "pub(lg_seen a t mod cap := True)"
  note c = inv_atD(1) [OF I] and o = inv_atD(2) [OF I]
  have ok: "t \<in> lg_did a" "lg_pend a t = []" "pos = of_nat ?s" "?s < length (lg_hist a)"
    "slot_is cap turn pub ?s False" "lg_hist a ! ?s = mc_data (mq_cells q ! (?s mod cap))"
    using inv_atD(3) [OF I, of t] by (simp_all add: t)
  have late: "lg_taken a \<le> ?s" using cell_ok(6) [OF c, of ?s] ok(5) by (simp add: slot_is_def)
  have "cells_ok cap (ahead consumer (pcs(t := Idle))) (set_seq q pos (pos + 1)) ?a turn ?pub"
    using publish_ok [OF c ok(5,4,6)] cells_ok_same [of ?a a] by (simp add: ahead_same t ok(3))
  moreover have "owned cap (pcs(t := Idle)) ?a turn ?pub"
  proof (rule owned_step [OF o])
    fix i assume i: "i < cap" "?pub i" "turn i < lg_taken ?a"
    then have "i \<noteq> ?s mod cap" using ok(5) late by (auto simp: slot_is_def)
    with i owner_cases(1) [OF o, of i t]
    show "emptying Idle \<and> lg_seen ?a t = turn i \<or> (\<exists>u. u \<noteq> t \<and> emptying (pcs u) \<and> lg_seen a u = turn i)" by (simp add: t)
  next
    fix i assume i: "i < cap" "\<not> ?pub i" "turn i < length (lg_hist ?a)"
    then have "i \<noteq> ?s mod cap" "\<not> pub i" by (auto split: if_splits)
    moreover have "turn i \<noteq> ?s" using other_turn [OF c ok(5) i(1)] calculation(1) by simp
    ultimately show "filling Idle \<and> lg_seen ?a t = turn i \<or> (\<exists>u. u \<noteq> t \<and> filling (pcs u) \<and> lg_seen a u = turn i)"
      using i owner_cases(2) [OF o, of i t] by auto
  qed simp_all
  moreover have "pc_ok cap (mq_cells (set_seq q pos (pos + 1))) ?a turn ?pub u (pcs u)" if "u \<noteq> t" for u
  proof -
    have "filling (pcs u) \<Longrightarrow> lg_seen a u \<noteq> ?s" using fillers_differ [OF I, of t u] that by (simp add: t)
    then have "pc_ok cap (mq_cells q) a turn ?pub u (pcs u)" using pc_ok_publish [OF inv_atD(3) [OF I] ok(5,4)] by blast
    then show ?thesis using pc_ok_seq pc_ok_same [of ?a a u] that by simp
  qed
  ultimately show ?thesis using ok inv_atD(4) [OF I] by (auto simp: inv_at_def)
qed

text \<open>With one consumer only it has a consumer's program counter, with many no one has a single consumer's.\<close>

lemma roles:
  assumes I: "inv_at consumer cap q pcs a turn pub"
  shows "consumer = None \<Longrightarrow> no_consumer (pcs u)" "consumer = Some t \<Longrightarrow> u \<noteq> t \<Longrightarrow> no_consumer (pcs u)"
    "consumer = Some t \<Longrightarrow> pcs u \<noteq> Pop x"
proof -
  have r: "role_ok consumer u (pcs u)" by (rule inv_atD(4) [OF I])
  show "consumer = None \<Longrightarrow> no_consumer (pcs u)" using r by (cases "pcs u") (auto simp: no_consumer_def)
  show "consumer = Some t \<Longrightarrow> u \<noteq> t \<Longrightarrow> no_consumer (pcs u)" using r by (cases "pcs u") (auto simp: no_consumer_def)
  show "consumer = Some t \<Longrightarrow> pcs u \<noteq> Pop x" using r by (cases "pcs u") auto
qed

text \<open>A consumer takes the next element.\<close>

lemma inv_take:
  assumes I: "inv_at consumer cap q pcs a turn pub" and s: "lg_seen a t = lg_taken a" "slot_is cap turn pub (lg_taken a) True"
    and n: "given_back (pcs t) = 0" "ahead consumer pcs = 0" "given_back p = 0" "\<not> filling p" "\<not> filling (pcs t)" "emptying p" "\<not> emptying (pcs t)"
    and others: "\<And>u. u \<noteq> t \<Longrightarrow> no_consumer (pcs u)"
    and p: "role_ok consumer t p" "pc_ok cap (mq_cells q) (log_upd (ETake t 1) a) turn pub t p"
  shows "inv_at consumer cap (q\<lparr>mq_deq := of_nat (lg_taken a) + 1\<rparr>) (pcs(t := p)) (log_upd (ETake t 1) a) turn pub"
proof -
  let ?a = "log_upd (ETake t 1) a"
  have c: "cells_ok cap 0 q a turn pub" using inv_atD(1) [OF I] n(2) by simp
  note o = inv_atD(2) [OF I]
  have "cells_ok cap (ahead consumer (pcs(t := p))) (q\<lparr>mq_deq := of_nat (lg_taken a) + 1\<rparr>) ?a turn pub"
    using take_ok(1) [OF c s(2), of t] n by (simp add: ahead_same)
  moreover have "owned cap (pcs(t := p)) ?a turn pub"
  proof (rule owned_step [OF o])
    fix i assume i: "i < cap" "pub i" "turn i < lg_taken ?a"
    show "emptying p \<and> lg_seen ?a t = turn i \<or> (\<exists>u. u \<noteq> t \<and> emptying (pcs u) \<and> lg_seen a u = turn i)"
    proof (cases "turn i = lg_taken a")
      case True
      with s n show ?thesis by simp
    next
      case False
      with i have "turn i < lg_taken a" by simp
      with owner_cases(1) [OF o i(1,2), of t] n show ?thesis by auto
    qed
  next
    fix i assume i: "i < cap" "\<not> pub i" "turn i < length (lg_hist ?a)"
    with owner_cases(2) [OF o, of i t] n
    show "filling p \<and> lg_seen ?a t = turn i \<or> (\<exists>u. u \<noteq> t \<and> filling (pcs u) \<and> lg_seen a u = turn i)" by auto
  next
    fix u assume "emptying (pcs u)"
    from emptying_seen [OF inv_atD(3) [OF I] this] s show "lg_seen a u \<noteq> lg_seen ?a t" by simp
  qed (use n in simp_all)
  moreover have "pc_ok cap (mq_cells q) ?a turn pub u (pcs u)" if "u \<noteq> t" for u
    by (rule pc_ok_take [OF inv_atD(3) [OF I] that others [OF that]]) simp
  ultimately show ?thesis using p inv_atD(4) [OF I] by (auto simp: inv_at_def)
qed

text \<open>It gives the cell back and returns.\<close>

lemma inv_release:
  assumes I: "inv_at consumer cap q pcs a turn pub" and t: "emptying (pcs t)" "given_back (pcs t) = 0" "\<not> filling (pcs t)"
    and s: "s = lg_seen a t" "t \<notin> lg_did a"
    and others: "\<And>u. u \<noteq> t \<Longrightarrow> no_consumer (pcs u)"
  shows "inv_at consumer cap (set_seq q (of_nat s) (of_nat s + mq_capacity q)) (pcs(t := Idle)) (log_upd (EPopped t ds) a)
    (turn(s mod cap := s + cap)) (pub(s mod cap := False))"
proof -
  let ?a = "log_upd (EPopped t ds) a" and ?turn = "turn(s mod cap := s + cap)" and ?pub = "pub(s mod cap := False)"
  note c = inv_atD(1) [OF I] and o = inv_atD(2) [OF I]
  have ok: "s < lg_taken a" "slot_is cap turn pub s True" using emptying_seen [OF inv_atD(3) [OF I] t(1)] s(1) by simp_all
  have "cells_ok cap (ahead consumer (pcs(t := Idle))) (set_seq q (of_nat s) (of_nat s + mq_capacity q)) ?a ?turn ?pub"
    using release_ok [OF c ok(2,1)] t cells_ok_same [of ?a a] by (simp add: ahead_same)
  moreover have "owned cap (pcs(t := Idle)) ?a ?turn ?pub"
  proof (rule owned_step [OF o])
    fix i assume i: "i < cap" "?pub i" "?turn i < lg_taken ?a"
    then have "i \<noteq> s mod cap" by (auto split: if_splits)
    with i other_turn [OF c ok(2) i(1)] owner_cases(1) [OF o, of i t] s
    show "emptying Idle \<and> lg_seen ?a t = ?turn i \<or> (\<exists>u. u \<noteq> t \<and> emptying (pcs u) \<and> lg_seen a u = ?turn i)" by auto
  next
    fix i assume i: "i < cap" "\<not> ?pub i" "?turn i < length (lg_hist ?a)"
    then have "i \<noteq> s mod cap" using next_round_free [OF c ok(2)] by (auto split: if_splits)
    with i t owner_cases(2) [OF o, of i t]
    show "filling Idle \<and> lg_seen ?a t = ?turn i \<or> (\<exists>u. u \<noteq> t \<and> filling (pcs u) \<and> lg_seen a u = ?turn i)" by auto
  qed simp_all
  moreover have "pc_ok cap (mq_cells (set_seq q (of_nat s) (of_nat s + mq_capacity q))) ?a ?turn ?pub u (pcs u)" if "u \<noteq> t" for u
  proof -
    have "emptying (pcs u) \<Longrightarrow> lg_seen a u \<noteq> s" using emptiers_differ [OF I t(1), of u] that s(1) by simp
    then have "pc_ok cap (mq_cells q) a ?turn ?pub u (pcs u)"
      using pc_ok_release [OF inv_atD(3) [OF I] ok(2) others [OF that]] ok(1) by blast
    then show ?thesis using pc_ok_seq pc_ok_same [of ?a a u] that by simp
  qed
  ultimately show ?thesis using s inv_atD(4) [OF I] by (auto simp: inv_at_def)
qed

text \<open>A batch gives its cells back one by one, then moves the counter.\<close>

lemma inv_batch_out:
  assumes I: "inv_at (Some t) cap q pcs a turn pub" and t: "pcs t = Batch (BatchOut i pos out)"
    and p: "p = (if i + 1 < length out then BatchOut (i + 1) pos out else BatchNext pos out)"
  defines "s \<equiv> lg_taken a + i"
  shows "inv_at (Some t) cap (set_seq q (pos + of_nat i) (pos + of_nat i + mq_capacity q)) (pcs(t := Batch p)) a
    (turn(s mod cap := s + cap)) (pub(s mod cap := False))"
proof -
  let ?turn = "turn(s mod cap := s + cap)" and ?pub = "pub(s mod cap := False)"
  note o = inv_atD(2) [OF I]
  have c: "cells_ok cap i q a turn pub" using inv_atD(1) [OF I] by (simp add: ahead_def t)
  have ok: "t \<notin> lg_did a" "lg_pend a t = []" "pos = of_nat (lg_taken a)" "lg_seen a t = lg_taken a" "has_out a (lg_taken a) out"
    "i < length out" "\<forall>j<length out. i \<le> j \<longrightarrow> slot_is cap turn pub (lg_taken a + j) True" "length out \<le> cap"
    using inv_atD(3) [OF I, of t] by (auto simp: t)
  have sl: "slot_is cap turn pub s True" using ok(6,7) by (simp add: s_def)
  have pos: "pos + of_nat i = of_nat s" by (simp add: ok(3) s_def)
  have "ahead (Some t) (pcs(t := Batch p)) = Suc i" using ok(6) by (simp add: ahead_def p)
  then have "cells_ok cap (ahead (Some t) (pcs(t := Batch p))) (set_seq q (pos + of_nat i) (pos + of_nat i + mq_capacity q)) a ?turn ?pub"
    using release_batch_ok [OF c sl] by (simp add: pos s_def)
  moreover have "owned cap (pcs(t := Batch p)) a ?turn ?pub"
  proof (rule owned_step [OF o])
    fix j assume j: "j < cap" "?pub j" "?turn j < lg_taken a"
    then have "j \<noteq> s mod cap" by (auto split: if_splits)
    with j owner_cases(1) [OF o, of j t]
    show "emptying (Batch p) \<and> lg_seen a t = ?turn j \<or> (\<exists>u. u \<noteq> t \<and> emptying (pcs u) \<and> lg_seen a u = ?turn j)" by (auto simp: t)
  next
    fix j assume j: "j < cap" "\<not> ?pub j" "?turn j < length (lg_hist a)"
    then have "j \<noteq> s mod cap" using next_round_free [OF c sl] by (auto split: if_splits)
    with j owner_cases(2) [OF o, of j t]
    show "filling (Batch p) \<and> lg_seen a t = ?turn j \<or> (\<exists>u. u \<noteq> t \<and> filling (pcs u) \<and> lg_seen a u = ?turn j)" by (auto simp: t)
  qed simp_all
  moreover have "pc_ok cap (mq_cells (set_seq q (pos + of_nat i) (pos + of_nat i + mq_capacity q))) a ?turn ?pub u (pcs u)"
    if u: "u \<noteq> t" for u
  proof -
    have "no_consumer (pcs u)" "\<forall>x. pcs u \<noteq> Pop x" using roles(2,3) [OF I refl] u by blast+
    moreover from this have "\<not> emptying (pcs u)" by (cases "pcs u") (auto simp: no_consumer_def)
    ultimately have "pc_ok cap (mq_cells q) a ?turn ?pub u (pcs u)"
      using pc_ok_release [OF inv_atD(3) [OF I] sl] by blast
    then show ?thesis by (rule pc_ok_seq)
  qed
  moreover have "pc_ok cap cs a ?turn ?pub t (Batch p)" for cs
  proof -
    have "slot_is cap ?turn ?pub (lg_taken a + j) True" if "j < length out" "i + 1 \<le> j" for j
    proof -
      have "slot_is cap turn pub (lg_taken a + j) True" using ok(7) that by simp
      moreover have "(lg_taken a + j) mod cap \<noteq> s mod cap"
      proof
        assume "(lg_taken a + j) mod cap = s mod cap"
        then have "lg_taken a + j = s" using calculation sl by (simp add: slot_is_def)
        with that(2) show False by (simp add: s_def)
      qed
      ultimately show ?thesis by (simp add: slot_is_def)
    qed
    with ok show ?thesis by (auto simp: p)
  qed
  ultimately show ?thesis using inv_atD(4) [OF I] by (auto simp: inv_at_def)
qed

lemma inv_batch_next:
  assumes I: "inv_at (Some t) cap q pcs a turn pub" and t: "pcs t = Batch (BatchNext pos out)"
  shows "inv_at (Some t) cap (q\<lparr>mq_deq := pos + of_nat (length out)\<rparr>) (pcs(t := Idle)) (log_all [ETake t (length out), EPopped t out] a) turn pub"
    "fifo_trace cap [ETake t (length out), EPopped t out] a"
proof -
  let ?n = "length out"
  let ?a = "log_all [ETake t ?n, EPopped t out] a"
  note o = inv_atD(2) [OF I]
  have c: "cells_ok cap ?n q a turn pub" using inv_atD(1) [OF I] by (simp add: ahead_def t)
  have ok: "t \<notin> lg_did a" "lg_pend a t = []" "pos = of_nat (lg_taken a)" "has_out a (lg_taken a) out" "out \<noteq> []"
    using inv_atD(3) [OF I, of t] by (auto simp: t)
  have queue: "?n \<le> length (lg_queue a)" "take ?n (lg_queue a) = out" using ok(4) by (auto simp: has_out_def lg_queue_def)
  then show "fifo_trace cap [ETake t ?n, EPopped t out] a" using ok by simp
  have "cells_ok cap 0 (q\<lparr>mq_deq := pos + of_nat ?n\<rparr>) ?a turn pub"
    using take_batch_ok [OF c, of t] cells_ok_same [of ?a "log_upd (ETake t ?n) a"] ok(3) by simp
  then have "cells_ok cap (ahead (Some t) (pcs(t := Idle))) (q\<lparr>mq_deq := pos + of_nat ?n\<rparr>) ?a turn pub" by (simp add: ahead_def)
  moreover have "owned cap (pcs(t := Idle)) ?a turn pub"
  proof (rule owned_step [OF o])
    fix i assume i: "i < cap" "pub i" "turn i < lg_taken ?a"
    then have "turn i < lg_taken a" using cells_okE [OF c i(1)] by (auto simp: cell_inv_def)
    with i owner_cases(1) [OF o i(1,2), of t]
    show "emptying Idle \<and> lg_seen ?a t = turn i \<or> (\<exists>u. u \<noteq> t \<and> emptying (pcs u) \<and> lg_seen a u = turn i)" by (simp add: t)
  next
    fix i assume i: "i < cap" "\<not> pub i" "turn i < length (lg_hist ?a)"
    with owner_cases(2) [OF o i(1,2), of t]
    show "filling Idle \<and> lg_seen ?a t = turn i \<or> (\<exists>u. u \<noteq> t \<and> filling (pcs u) \<and> lg_seen a u = turn i)" by (simp add: t)
  qed simp_all
  moreover have "pc_ok cap (mq_cells q) ?a turn pub u (pcs u)" if u: "u \<noteq> t" for u
  proof -
    have "pc_ok cap (mq_cells q) (log_upd (ETake t ?n) a) turn pub u (pcs u)"
      using pc_ok_take [OF inv_atD(3) [OF I] u roles(2) [OF I refl u], of ?n] ok(5) by simp
    then show ?thesis using pc_ok_same [of ?a "log_upd (ETake t ?n) a" u] u by simp
  qed
  ultimately show "inv_at (Some t) cap (q\<lparr>mq_deq := pos + of_nat ?n\<rparr>) (pcs(t := Idle)) ?a turn pub"
    using ok inv_atD(4) [OF I] by (auto simp: inv_at_def)
qed

section \<open>The operations\<close>

definition step_ok :: "nat option \<Rightarrow> nat \<Rightarrow> 'a mpq \<Rightarrow> (nat \<Rightarrow> 'a mpq_pc) \<Rightarrow> 'a mpq_log \<Rightarrow> 'a mpq_event list \<Rightarrow> bool" where
  "step_ok consumer cap q' pcs' a es \<longleftrightarrow> fifo_trace cap es a \<and> (\<exists>turn pub. inv_at consumer cap q' pcs' (log_all es a) turn pub)"

lemma step_okI: "fifo_trace cap es a \<Longrightarrow> inv_at consumer cap q' pcs' (log_all es a) turn pub \<Longrightarrow> step_ok consumer cap q' pcs' a es"
  by (auto simp: step_ok_def)

lemma step_local:
  assumes I: "inv_at consumer cap q pcs a turn pub"
    and f: "filling p = filling (pcs t)" "emptying p = emptying (pcs t)" "filling p \<or> emptying p \<Longrightarrow> lg_seen (log_all es a) t = lg_seen a t"
      "given_back p = given_back (pcs t)"
    and es: "fifo_trace cap es a" "lg_hist (log_all es a) = lg_hist a" "lg_taken (log_all es a) = lg_taken a"
      "\<And>u. u \<noteq> t \<Longrightarrow> lg_seen (log_all es a) u = lg_seen a u \<and> lg_pend (log_all es a) u = lg_pend a u \<and>
        (u \<in> lg_did (log_all es a) \<longleftrightarrow> u \<in> lg_did a)"
    and p: "role_ok consumer t p" "pc_ok cap (mq_cells q) (log_all es a) turn pub t p"
  shows "step_ok consumer cap q (pcs(t := p)) a es"
  by (rule step_okI [OF es(1) inv_local [OF I es(2-4) p f]])

lemma trypush_step:
  assumes I: "inv_at consumer cap q pcs a turn pub" and calm: "calm_pc a t (pcs t)"
    and t: "pcs t = Push p" "trypush_act t q p = (es, q', p')"
  shows "step_ok consumer cap q' (pcs(t := next_pc Push p')) a es"
proof (cases p)
  case (PushEnq d)
  then have r: "es = [ELoadEnq t]" "q' = q" "p' = Some (PushLook d (mq_enq q))" using t(2) by auto
  show ?thesis unfolding r using inv_atD(3) [OF I, of t] cells_okD(7) [OF inv_atD(1) [OF I]]
    by (intro step_local [OF I]) (simp_all add: next_pc_def t(1) PushEnq)
next
  case (PushLook d pos)
  note c = inv_atD(1) [OF I]
  have ok: "t \<notin> lg_did a" "lg_pend a t = []" "pos = of_nat (lg_seen a t)" "lg_seen a t \<le> length (lg_hist a)"
    using inv_atD(3) [OF I, of t] by (simp_all add: t(1) PushLook)
  let ?d = "seq_diff (cell_seq q (of_nat (lg_seen a t))) (of_nat (lg_seen a t))"
  have "length (lg_hist a) - lg_seen a t < 2 ^ 30" using calm by (simp add: t(1) PushLook)
  note look = push_look [OF c ok(4) this refl]
  consider (free) "?d = 0" | (full) "?d < 0" | (lost) "0 < ?d" by linarith
  then show ?thesis
  proof cases
    case free
    then have r: "es = []" "q' = q" "p' = Some (PushCas d pos)" using t(2) by (simp_all add: PushLook ok(3))
    have "slot_is cap turn pub (lg_seen a t) False" using free look(1) by simp
    then have "lg_seen a t = length (lg_hist a) \<longrightarrow> slot_is cap turn pub (length (lg_hist a)) False" by metis
    then show ?thesis unfolding r using ok by (intro step_local [OF I]) (simp_all add: next_pc_def t(1) PushLook)
  next
    case full
    then have r: "es = [EFull t]" "q' = q" "p' = None" using t(2) by (simp_all add: PushLook ok(3))
    let ?i = "lg_seen a t mod cap"
    have i: "?i < cap" by (rule cells_okD(3) [OF c])
    have T: "turn ?i + cap \<le> length (lg_hist a)" by (rule look(2) [OF full])
    have "cap \<le> length (lg_queue a) \<or> (\<exists>u. lg_pend a u \<noteq> [])"
    proof (cases "turn ?i < lg_taken a")
      case True
      moreover have "pub ?i" using cells_okE [OF c i] True by (simp add: cell_inv_def split: if_splits)
      ultimately obtain u where "emptying (pcs u)" using ownedD(1) [OF inv_atD(2) [OF I] i] by blast
      then show ?thesis using emptying_seen [OF inv_atD(3) [OF I]] by blast
    next
      case False
      then have "cap \<le> length (lg_hist a) - lg_taken a" using T by linarith
      then show ?thesis by (simp add: lg_queue_def)
    qed
    with ok show ?thesis unfolding r by (intro step_local [OF I]) (simp_all add: next_pc_def t(1) PushLook)
  next
    case lost
    then have r: "es = []" "q' = q" "p' = Some (PushEnq d)" using t(2) by (simp_all add: PushLook ok(3))
    show ?thesis unfolding r using ok by (intro step_local [OF I]) (simp_all add: next_pc_def t(1) PushLook)
  qed
next
  case (PushCas d pos)
  note c = inv_atD(1) [OF I]
  have ok: "t \<notin> lg_did a" "lg_pend a t = []" "pos = of_nat (lg_seen a t)" "lg_seen a t \<le> length (lg_hist a)"
    using inv_atD(3) [OF I, of t] by (simp_all add: t(1) PushCas)
  have "length (lg_hist a) - lg_seen a t < 2 ^ 30" using calm by (simp add: t(1) PushCas)
  then have eq: "mq_enq q = pos \<longleftrightarrow> lg_seen a t = length (lg_hist a)"
    using of_nat_u32_near [OF ok(4)] by (auto simp: cells_okD(7) [OF c] ok(3))
  show ?thesis
  proof (cases "mq_enq q = pos")
    case True
    then have r: "es = [EPush t d]" "q' = q\<lparr>mq_enq := pos + 1\<rparr>" "p' = Some (PushCopy d pos)" using t(2) by (simp_all add: PushCas)
    show ?thesis unfolding r using inv_claim [OF I t(1) [unfolded PushCas]] eq True ok
      by (intro step_okI) (simp_all add: next_pc_def)
  next
    case False
    then have r: "es = []" "q' = q" "p' = Some (PushEnq d)" using t(2) by (simp_all add: PushCas)
    show ?thesis unfolding r using ok by (intro step_local [OF I]) (simp_all add: next_pc_def t(1) PushCas)
  qed
next
  case (PushCopy d pos)
  then have r: "es = []" "q' = set_data q pos d" "p' = Some (PushOut pos)" using t(2) by simp_all
  show ?thesis unfolding r using inv_fill [OF I t(1) [unfolded PushCopy]] by (intro step_okI) (simp_all add: next_pc_def)
next
  case (PushOut pos)
  then have r: "es = [EPushed t]" "q' = set_seq q pos (pos + 1)" "p' = None" using t(2) by simp_all
  have "t \<in> lg_did a" using inv_atD(3) [OF I, of t] by (simp add: t(1) PushOut)
  then show ?thesis unfolding r using inv_publish [OF I t(1) [unfolded PushOut]] by (intro step_okI) (simp_all add: next_pc_def)
qed

lemma pop_step:
  assumes I: "inv_at consumer cap q pcs a turn pub" and calm: "calm_pc a t (pcs t)"
    and t: "pcs t = Pop p" "pop_act t q p = (es, q', p')"
  shows "step_ok consumer cap q' (pcs(t := next_pc Pop p')) a es"
proof -
  have mc: "consumer = None" using inv_atD(4) [OF I, of t] by (simp add: t(1))
  then have ah: "ahead consumer pcs = 0" by (simp add: ahead_def)
  have c: "cells_ok cap 0 q a turn pub" using inv_atD(1) [OF I] ah by simp
  note others = roles(1) [OF I mc]
  show ?thesis
  proof (cases p)
    case PopDeq
    then have r: "es = [ELoadDeq t]" "q' = q" "p' = Some (PopLook (mq_deq q))" using t(2) by auto
    show ?thesis unfolding r using inv_atD(3) [OF I, of t] cells_okD(8) [OF c] mc
      by (intro step_local [OF I]) (simp_all add: next_pc_def t(1) PopDeq)
  next
    case (PopLook pos)
    have ok: "t \<notin> lg_did a" "lg_pend a t = []" "pos = of_nat (lg_seen a t)" "lg_seen a t \<le> lg_taken a"
      using inv_atD(3) [OF I, of t] by (simp_all add: t(1) PopLook)
    have "lg_seen a t \<le> length (lg_hist a)" "lg_taken a - lg_seen a t < 2 ^ 30"
      using ok(4) cells_okD(9) [OF c] calm by (simp_all add: t(1) PopLook)
    note look = pop_look [OF c this]
    let ?d = "seq_diff (cell_seq q (of_nat (lg_seen a t))) (of_nat (lg_seen a t) + 1)"
    consider (ready) "?d = 0" | (none) "?d < 0" | (lost) "0 < ?d" by linarith
    then show ?thesis
    proof cases
      case ready
      then have r: "es = []" "q' = q" "p' = Some (PopCas pos)" using t(2) by (simp_all add: PopLook ok(3))
      have "slot_is cap turn pub (lg_seen a t) True" using ready look by simp
      then have "lg_seen a t = lg_taken a \<longrightarrow> slot_is cap turn pub (lg_taken a) True" by metis
      then show ?thesis unfolding r using ok mc by (intro step_local [OF I]) (simp_all add: next_pc_def t(1) PopLook)
    next
      case none
      then have r: "es = []" "q' = q" "p' = Some (PopEnq pos)" using t(2) by (simp_all add: PopLook ok(3))
      show ?thesis unfolding r using ok mc by (intro step_local [OF I]) (simp_all add: next_pc_def t(1) PopLook)
    next
      case lost
      then have r: "es = []" "q' = q" "p' = Some PopDeq" using t(2) by (simp_all add: PopLook ok(3))
      show ?thesis unfolding r using ok mc by (intro step_local [OF I]) (simp_all add: next_pc_def t(1) PopLook)
    qed
  next
    case (PopCas pos)
    have ok: "t \<notin> lg_did a" "lg_pend a t = []" "pos = of_nat (lg_seen a t)" "lg_seen a t \<le> lg_taken a"
      "lg_seen a t = lg_taken a \<Longrightarrow> slot_is cap turn pub (lg_seen a t) True"
      using inv_atD(3) [OF I, of t] by (simp_all add: t(1) PopCas)
    have "lg_taken a - lg_seen a t < 2 ^ 30" using calm by (simp add: t(1) PopCas)
    then have eq: "mq_deq q = pos \<longleftrightarrow> lg_seen a t = lg_taken a"
      using of_nat_u32_near [OF ok(4)] by (auto simp: cells_okD(8) [OF c] ok(3))
    show ?thesis
    proof (cases "mq_deq q = pos")
      case True
      then have r: "es = [ETake t 1]" "q' = q\<lparr>mq_deq := pos + 1\<rparr>" "p' = Some (PopCopy pos)" using t(2) by (simp_all add: PopCas)
      have s: "lg_seen a t = lg_taken a" "slot_is cap turn pub (lg_taken a) True" using eq True ok(5) by auto
      have lt: "lg_taken a < length (lg_hist a)" by (rule take_ok(2) [OF c s(2)])
      then have q: "take 1 (lg_queue a) = [lg_hist a ! lg_taken a]" "1 \<le> length (lg_queue a)"
        by (simp_all add: lg_queue_def take_Suc_conv_app_nth hd_drop_conv_nth)
      have "inv_at consumer cap (q\<lparr>mq_deq := of_nat (lg_taken a) + 1\<rparr>) (pcs(t := Pop (PopCopy pos))) (log_upd (ETake t 1) a) turn pub"
        by (rule inv_take [OF I s _ ah]) (use others mc s ok q in \<open>simp_all add: t(1) PopCas\<close>)
      then show ?thesis unfolding r using ok(2,3) s(1) q(2) by (intro step_okI) (simp_all add: next_pc_def)
    next
      case False
      then have r: "es = []" "q' = q" "p' = Some PopDeq" using t(2) by (simp_all add: PopCas)
      show ?thesis unfolding r using ok mc by (intro step_local [OF I]) (simp_all add: next_pc_def t(1) PopCas)
    qed
  next
    case (PopEnq pos)
    have ok: "t \<notin> lg_did a" "lg_pend a t = []" "pos = of_nat (lg_seen a t)" "lg_seen a t \<le> lg_taken a"
      using inv_atD(3) [OF I, of t] by (simp_all add: t(1) PopEnq)
    have r: "es = [if mq_enq q \<noteq> pos then EInFlight t else EEmpty t]" "q' = q" "p' = None" using t(2) by (auto simp: PopEnq)
    have "lg_queue a = []" if "mq_enq q = pos"
    proof -
      have "length (lg_hist a) - lg_seen a t < 4294967296" "lg_seen a t \<le> length (lg_hist a)"
        using log_near [OF c] cells_okD(2,9) [OF c] calm ok(4) by (simp_all add: t(1) PopEnq)
      moreover have "(of_nat (lg_seen a t) :: u32) = of_nat (length (lg_hist a))" using that cells_okD(7) [OF c] by (simp add: ok(3))
      ultimately have "length (lg_hist a) = lg_seen a t" using of_nat_u32_near by metis
      then show ?thesis using ok(4) by (simp add: lg_queue_def)
    qed
    then show ?thesis unfolding r using ok mc by (intro step_local [OF I]) (simp_all add: next_pc_def t(1) PopEnq)
  next
    case (PopCopy pos)
    then have r: "es = []" "q' = q" "p' = Some (PopOut pos (get_data q pos))" using t(2) by auto
    have ok: "t \<notin> lg_did a" "pos = of_nat (lg_seen a t)" "slot_is cap turn pub (lg_seen a t) True"
      using inv_atD(3) [OF I, of t] by (simp_all add: t(1) PopCopy)
    have "get_data q pos = lg_hist a ! lg_seen a t" using cell_ok(5) [OF c, of "lg_seen a t"] ok(2,3) by (simp add: slot_is_def)
    then show ?thesis unfolding r using inv_atD(3) [OF I, of t] mc by (intro step_local [OF I]) (simp_all add: next_pc_def t(1) PopCopy)
  next
    case (PopOut pos d)
    then have r: "es = [EPopped t [d]]" "q' = set_seq q pos (pos + mq_capacity q)" "p' = None" using t(2) by simp_all
    have ok: "t \<notin> lg_did a" "pos = of_nat (lg_seen a t)" "lg_pend a t = [d]"
      using inv_atD(3) [OF I, of t] by (simp_all add: t(1) PopOut)
    have "inv_at consumer cap (set_seq q (of_nat (lg_seen a t)) (of_nat (lg_seen a t) + mq_capacity q)) (pcs(t := Idle))
        (log_upd (EPopped t [d]) a) (turn(lg_seen a t mod cap := lg_seen a t + cap)) (pub(lg_seen a t mod cap := False))"
      by (rule inv_release [OF I]) (use others ok in \<open>simp_all add: t(1) PopOut\<close>)
    then show ?thesis unfolding r using ok by (intro step_okI) (simp_all add: next_pc_def)
  qed
qed

lemma pop_sc_step:
  assumes I: "inv_at consumer cap q pcs a turn pub"
    and t: "pcs t = Sc p" "pop_sc_act t q p = (es, q', p')"
  shows "step_ok consumer cap q' (pcs(t := next_pc Sc p')) a es"
proof -
  have sc: "consumer = Some t" using inv_atD(4) [OF I, of t] by (simp add: t(1))
  then have ah: "ahead consumer pcs = 0" by (simp add: ahead_def t(1))
  have c: "cells_ok cap 0 q a turn pub" using inv_atD(1) [OF I] ah by simp
  note others = roles(2) [OF I sc]
  have look: "seq_diff (cell_seq q (of_nat (lg_taken a))) (of_nat (lg_taken a) + 1) = 0 \<longleftrightarrow> slot_is cap turn pub (lg_taken a) True"
    by (rule pop_look [OF c]) (use cells_okD(9) [OF c] in simp_all)
  have emp: "lg_queue a = []" if "mq_enq q = of_nat (lg_taken a)"
  proof -
    have "length (lg_hist a) = lg_taken a"
      using that of_nat_u32_near [of "lg_taken a" "length (lg_hist a)"] cells_okD(2,7,9) [OF c] log_near [OF c] by (simp add: eq_commute)
    then show ?thesis by (simp add: lg_queue_def)
  qed
  show ?thesis
  proof (cases p)
    case ScDeq
    then have r: "es = [ELoadDeq t]" "q' = q" "p' = Some (ScLook (mq_deq q))" using t(2) by auto
    show ?thesis unfolding r using inv_atD(3) [OF I, of t] cells_okD(8) [OF c] sc
      by (intro step_local [OF I]) (simp_all add: next_pc_def t(1) ScDeq)
  next
    case (ScLook pos)
    have ok: "t \<notin> lg_did a" "lg_pend a t = []" "pos = of_nat (lg_taken a)" "lg_seen a t = lg_taken a"
      using inv_atD(3) [OF I, of t] by (simp_all add: t(1) ScLook)
    let ?d = "seq_diff (cell_seq q (of_nat (lg_taken a))) (of_nat (lg_taken a) + 1)"
    consider (ready) "?d = 0" | (none) "?d < 0" | (lost) "0 < ?d" by linarith
    then show ?thesis
    proof cases
      case ready
      then have r: "es = []" "q' = q" "p' = Some (ScCopy pos)" using t(2) by (simp_all add: ScLook ok(3))
      show ?thesis unfolding r using ok ready look sc by (intro step_local [OF I]) (simp_all add: next_pc_def t(1) ScLook)
    next
      case none
      then have r: "es = []" "q' = q" "p' = Some (ScEnq pos)" using t(2) by (simp_all add: ScLook ok(3))
      show ?thesis unfolding r using ok sc by (intro step_local [OF I]) (simp_all add: next_pc_def t(1) ScLook)
    next
      case lost
      let ?i = "lg_taken a mod cap"
      note k = cell_ok [OF c, of "lg_taken a"]
      have "turn ?i < lg_taken a + cap" using k(3) by simp
      then have T: "turn ?i \<le> lg_taken a" using same_slot [of "lg_taken a" cap "turn ?i"] k(1) by fastforce
      have lo: "lg_taken a \<le> turn ?i + cap"
      proof (cases "cap < lg_taken a")
        case True
        have "(lg_taken a - cap) mod cap = ?i" using True by (simp add: le_mod_geq)
        moreover have "lg_taken a - cap < length (lg_hist a)" using True cells_okD(1,9) [OF c] by linarith
        ultimately have "lg_taken a - cap \<le> turn ?i" using cell_ok(7) [OF c, of "lg_taken a - cap"] by simp
        then show ?thesis by linarith
      qed simp
      have "?d = int (turn ?i + (if pub ?i then 1 else 0)) - int (lg_taken a + 1)"
        using seq_diff_near [of "turn ?i + (if pub ?i then 1 else 0)" "lg_taken a + 1"] k(2) T lo cells_okD(2) [OF c]
        by (simp add: add.commute abs_if)
      then have False using lost T by (simp split: if_splits)
      then show ?thesis ..
    qed
  next
    case (ScEnq pos)
    have ok: "t \<notin> lg_did a" "lg_pend a t = []" "pos = of_nat (lg_taken a)"
      using inv_atD(3) [OF I, of t] by (simp_all add: t(1) ScEnq)
    have r: "es = [if mq_enq q \<noteq> pos then EInFlight t else EEmpty t]" "q' = q" "p' = None" using t(2) by (auto simp: ScEnq)
    show ?thesis unfolding r using ok emp sc by (intro step_local [OF I]) (simp_all add: next_pc_def t(1) ScEnq)
  next
    case (ScCopy pos)
    then have r: "es = []" "q' = q" "p' = Some (ScNext pos (get_data q pos))" using t(2) by auto
    have ok: "pos = of_nat (lg_taken a)" "slot_is cap turn pub (lg_taken a) True" "lg_seen a t = lg_taken a"
      "t \<notin> lg_did a" "lg_pend a t = []"
      using inv_atD(3) [OF I, of t] by (auto simp: t(1) ScCopy)
    have "get_data q pos = lg_hist a ! lg_taken a" using cell_ok(5) [OF c, of "lg_taken a"] ok(1,2) by (simp add: slot_is_def)
    then show ?thesis unfolding r using ok sc by (intro step_local [OF I]) (simp_all add: next_pc_def t(1) ScCopy)
  next
    case (ScNext pos d)
    then have r: "es = [ETake t 1]" "q' = q\<lparr>mq_deq := pos + 1\<rparr>" "p' = Some (ScOut pos d)" using t(2) by simp_all
    have ok: "t \<notin> lg_did a" "lg_pend a t = []" "pos = of_nat (lg_taken a)" "lg_seen a t = lg_taken a"
      "slot_is cap turn pub (lg_taken a) True" "lg_hist a ! lg_taken a = d"
      using inv_atD(3) [OF I, of t] by (auto simp: t(1) ScNext)
    have lt: "lg_taken a < length (lg_hist a)" by (rule take_ok(2) [OF c ok(5)])
    then have q: "take 1 (lg_queue a) = [d]" "1 \<le> length (lg_queue a)"
      using ok(6) by (simp_all add: lg_queue_def take_Suc_conv_app_nth hd_drop_conv_nth)
    have "inv_at consumer cap (q\<lparr>mq_deq := of_nat (lg_taken a) + 1\<rparr>) (pcs(t := Sc (ScOut pos d))) (log_upd (ETake t 1) a) turn pub"
      by (rule inv_take [OF I ok(4,5) _ ah]) (use others sc ok q in \<open>simp_all add: t(1) ScNext\<close>)
    then show ?thesis unfolding r using ok(2,3) q(2) by (intro step_okI) (simp_all add: next_pc_def)
  next
    case (ScOut pos d)
    then have r: "es = [EPopped t [d]]" "q' = set_seq q pos (pos + mq_capacity q)" "p' = None" using t(2) by simp_all
    have ok: "t \<notin> lg_did a" "pos = of_nat (lg_seen a t)" "lg_pend a t = [d]"
      using inv_atD(3) [OF I, of t] by (simp_all add: t(1) ScOut)
    have "inv_at consumer cap (set_seq q (of_nat (lg_seen a t)) (of_nat (lg_seen a t) + mq_capacity q)) (pcs(t := Idle))
        (log_upd (EPopped t [d]) a) (turn(lg_seen a t mod cap := lg_seen a t + cap)) (pub(lg_seen a t mod cap := False))"
      by (rule inv_release [OF I]) (use others ok in \<open>simp_all add: t(1) ScOut\<close>)
    then show ?thesis unfolding r using ok by (intro step_okI) (simp_all add: next_pc_def)
  qed
qed

lemma has_out_snoc:
  assumes "has_out a p out" "p + length out < length (lg_hist a)"
  shows "has_out a p (out @ [lg_hist a ! (p + length out)])"
  using assms by (simp add: has_out_def take_Suc_conv_app_nth)

lemma pop_sc_batch_step:
  assumes I: "inv_at consumer cap q pcs a turn pub"
    and t: "pcs t = Batch p" "pop_sc_batch_act t q p = (es, q', p')"
  shows "step_ok consumer cap q' (pcs(t := next_pc Batch p')) a es"
proof -
  have sc: "consumer = Some t" using inv_atD(4) [OF I, of t] by (simp add: t(1))
  note I' = I [unfolded sc]
  show ?thesis
  proof (cases p)
    case (BatchDeq mx)
    then have r: "es = [ELoadDeq t]" "q' = q" "p' = Some (BatchLook mx (mq_deq q) [])" using t(2) by auto
    show ?thesis unfolding r using inv_atD(3) [OF I, of t] cells_okD(8,9) [OF inv_atD(1) [OF I]] sc
      by (intro step_local [OF I]) (simp_all add: next_pc_def t(1) BatchDeq has_out_def)
  next
    case (BatchLook mx pos out)
    have ah: "ahead consumer pcs = 0" by (simp add: sc ahead_def t(1) BatchLook)
    have c: "cells_ok cap 0 q a turn pub" using inv_atD(1) [OF I] ah by simp
    have ok: "t \<notin> lg_did a" "lg_pend a t = []" "pos = of_nat (lg_taken a)" "lg_seen a t = lg_taken a" "has_out a (lg_taken a) out"
      "\<forall>j<length out. slot_is cap turn pub (lg_taken a + j) True"
      using inv_atD(3) [OF I, of t] by (auto simp: t(1) BatchLook)
    let ?p = "lg_taken a + length out"
    have p: "?p \<le> length (lg_hist a)" using ok(5) by (simp add: has_out_def)
    have look: "seq_diff (cell_seq q (of_nat ?p)) (of_nat ?p + 1) = 0 \<longleftrightarrow> slot_is cap turn pub ?p True"
      by (rule pop_look [OF c p]) simp
    have pos: "pos + of_nat (length out) = of_nat ?p" by (simp add: ok(3))
    show ?thesis
    proof (cases "length out < mx \<and> seq_diff (cell_seq q (of_nat ?p)) (of_nat ?p + 1) = 0")
      case True
      then have r: "es = []" "q' = q" "p' = Some (BatchCopy mx pos out)" using t(2) by (simp_all add: BatchLook Let_def pos)
      have "\<forall>j\<le>length out. slot_is cap turn pub (lg_taken a + j) True" using ok(6) True look by (auto simp: le_less)
      then show ?thesis unfolding r using ok sc by (intro step_local [OF I]) (simp_all add: next_pc_def t(1) BatchLook)
    next
      case False
      show ?thesis
      proof (cases "out = []")
        case True
        with False have r: "es = [EPopped t []]" "q' = q" "p' = None" using t(2) by (auto simp: BatchLook Let_def ok(3))
        show ?thesis unfolding r using ok sc by (intro step_local [OF I]) (simp_all add: next_pc_def t(1) BatchLook)
      next
        case ne: False
        with False have r: "es = []" "q' = q" "p' = Some (BatchOut 0 pos out)" using t(2) by (auto simp: BatchLook Let_def pos)
        have "length out \<le> cap"
        proof (rule ccontr)
          assume "\<not> ?thesis"
          then have "slot_is cap turn pub (lg_taken a + cap) True" "slot_is cap turn pub (lg_taken a + 0) True"
            using ok(6) ne by (auto simp del: add_0_right)
          then show False using cells_okD(1) [OF c] by (simp add: slot_is_def)
        qed
        then show ?thesis unfolding r using ok sc ne by (intro step_local [OF I]) (simp_all add: next_pc_def t(1) BatchLook)
      qed
    qed
  next
    case (BatchCopy mx pos out)
    have ah: "ahead consumer pcs = 0" by (simp add: sc ahead_def t(1) BatchCopy)
    have c: "cells_ok cap 0 q a turn pub" using inv_atD(1) [OF I] ah by simp
    have ok: "t \<notin> lg_did a" "lg_pend a t = []" "pos = of_nat (lg_taken a)" "lg_seen a t = lg_taken a" "has_out a (lg_taken a) out"
      "\<forall>j\<le>length out. slot_is cap turn pub (lg_taken a + j) True"
      using inv_atD(3) [OF I, of t] by (auto simp: t(1) BatchCopy)
    let ?p = "lg_taken a + length out"
    have s: "slot_is cap turn pub ?p True" using ok(6) by simp
    have lt: "?p < length (lg_hist a)" by (rule slot_published [OF c s])
    have d: "get_data q (of_nat ?p) = lg_hist a ! ?p" using cell_ok(5) [OF c, of ?p] s by (simp add: slot_is_def)
    have r: "es = []" "q' = q" "p' = Some (BatchLook mx pos (out @ [lg_hist a ! ?p]))"
      using t(2) d by (auto simp: BatchCopy ok(3))
    show ?thesis unfolding r using ok sc has_out_snoc [OF ok(5) lt]
      by (intro step_local [OF I]) (simp_all add: next_pc_def t(1) BatchCopy less_Suc_eq_le)
  next
    case (BatchOut i pos out)
    let ?p = "if i + 1 < length out then BatchOut (i + 1) pos out else BatchNext pos out"
    have r: "es = []" "q' = set_seq q (pos + of_nat i) (pos + of_nat i + mq_capacity q)" "p' = Some ?p"
      using t(2) by (simp_all add: BatchOut)
    show ?thesis unfolding r using inv_batch_out [OF I' t(1) [unfolded BatchOut] refl]
      by (intro step_okI) (simp_all add: next_pc_def sc)
  next
    case (BatchNext pos out)
    then have r: "es = [ETake t (length out), EPopped t out]" "q' = q\<lparr>mq_deq := pos + of_nat (length out)\<rparr>" "p' = None"
      using t(2) by simp_all
    show ?thesis unfolding r using inv_batch_next [OF I' t(1) [unfolded BatchNext]]
      by (intro step_okI) (simp_all add: next_pc_def sc)
  qed
qed

lemma observe:
  assumes I: "inv_at consumer cap q pcs a turn pub" and s: "s \<le> lg_taken a" "lg_taken a - s < 2 ^ 30"
  shows "mq_enq q = of_nat s \<longleftrightarrow> length (lg_hist a) = s"
    "unat (mq_enq q - of_nat s) = length (lg_hist a) - s"
proof -
  note c = inv_atD(1) [OF I]
  have "ahead consumer pcs \<le> cap"
  proof (cases consumer)
    case (Some c)
    have "given_back p \<le> cap" if "pc_ok cap cs a turn pub u p" for cs u and p :: "'a mpq_pc"
    proof (cases "\<exists>x. p = Batch x")
      case True
      then obtain x where "p = Batch x" by blast
      with that show ?thesis by (cases x) auto
    next
      case False
      then show ?thesis by (cases p) auto
    qed
    from this [OF inv_atD(3) [OF I, of c]] show ?thesis using Some by (simp add: ahead_def)
  qed (simp add: ahead_def)
  then have lt: "length (lg_hist a) - s < 4294967296" "s \<le> length (lg_hist a)"
    using log_near [OF c] cells_okD(2,9) [OF c] s by simp_all
  then show "mq_enq q = of_nat s \<longleftrightarrow> length (lg_hist a) = s"
    using of_nat_u32_near [of s "length (lg_hist a)"] cells_okD(7) [OF c] by auto
  have "mq_enq q - of_nat s = of_nat (length (lg_hist a) - s)" using lt(2) cells_okD(7) [OF c] by simp
  then show "unat (mq_enq q - of_nat s) = length (lg_hist a) - s"
    using lt(1) by (simp add: unat_of_nat take_bit_eq_mod del: of_nat_diff)
qed

lemma size_step:
  assumes I: "inv_at consumer cap q pcs a turn pub" and calm: "calm_pc a t (pcs t)"
    and t: "pcs t = Size p" "size_act t q p = (es, q', p')"
  shows "step_ok consumer cap q' (pcs(t := next_pc Size p')) a es"
proof (cases p)
  case SizeDeq
  then have r: "es = [ELoadDeq t]" "q' = q" "p' = Some (SizeEnq (mq_deq q))" using t(2) by auto
  show ?thesis unfolding r using inv_atD(3) [OF I, of t] cells_okD(8) [OF inv_atD(1) [OF I]]
    by (intro step_local [OF I]) (simp_all add: next_pc_def t(1) SizeDeq)
next
  case (SizeEnq deq)
  note c = inv_atD(1) [OF I]
  have ok: "t \<notin> lg_did a" "lg_pend a t = []" "deq = of_nat (lg_seen a t)" "lg_seen a t \<le> lg_taken a"
    using inv_atD(3) [OF I, of t] by (simp_all add: t(1) SizeEnq)
  let ?n = "length (lg_hist a) - lg_seen a t"
  have n: "unat (mq_enq q - deq) = ?n" using observe(2) [OF I ok(4)] calm by (simp add: t(1) SizeEnq ok(3))
  have cap: "unat (mq_capacity q) = cap" using cells_okD(2,6) [OF c] by (simp add: unat_of_nat take_bit_eq_mod)
  let ?m = "if mq_capacity q < mq_enq q - deq then mq_capacity q else mq_enq q - deq"
  have m: "unat ?m = min cap ?n" using n cap by (auto simp: word_less_nat_alt)
  have r: "es = [ESize t (unat ?m)]" "q' = q" "p' = None" using t(2) by (auto simp: SizeEnq Let_def)
  show ?thesis unfolding r m using ok by (intro step_local [OF I]) (auto simp: next_pc_def t(1) SizeEnq lg_queue_def)
qed

lemma empty_step:
  assumes I: "inv_at consumer cap q pcs a turn pub" and calm: "calm_pc a t (pcs t)"
    and t: "pcs t = Empty p" "empty_act t q p = (es, q', p')"
  shows "step_ok consumer cap q' (pcs(t := next_pc Empty p')) a es"
proof (cases p)
  case EmptyDeq
  then have r: "es = [ELoadDeq t]" "q' = q" "p' = Some (EmptyEnq (mq_deq q))" using t(2) by auto
  show ?thesis unfolding r using inv_atD(3) [OF I, of t] cells_okD(8) [OF inv_atD(1) [OF I]]
    by (intro step_local [OF I]) (simp_all add: next_pc_def t(1) EmptyDeq)
next
  case (EmptyEnq deq)
  have ok: "t \<notin> lg_did a" "lg_pend a t = []" "deq = of_nat (lg_seen a t)" "lg_seen a t \<le> lg_taken a"
    using inv_atD(3) [OF I, of t] by (simp_all add: t(1) EmptyEnq)
  have "mq_enq q = deq \<longrightarrow> lg_queue a = []"
    using observe(1) [OF I ok(4)] calm ok(4) by (simp add: t(1) EmptyEnq ok(3) lg_queue_def)
  moreover have r: "es = [EIsEmpty t (mq_enq q = deq)]" "q' = q" "p' = None" using t(2) by (auto simp: EmptyEnq)
  ultimately show ?thesis unfolding r using ok by (intro step_local [OF I]) (simp_all add: next_pc_def t(1) EmptyEnq)
qed

lemma may_start_kind:
  assumes "may_start consumer t p"
  shows "\<not> filling p" "\<not> emptying p" "given_back p = 0" "role_ok consumer t p"
    "lg_pend a t = [] \<Longrightarrow> t \<notin> lg_did a \<Longrightarrow> pc_ok cap cs a turn pub t p"
  using assms by (auto simp: may_start_def)

lemma mpq_step_ok:
  assumes inv: "mpq_inv consumer cap s a" and calm: "calm s a" and step: "mpq_step consumer s es s'"
  shows "fifo_trace cap es a \<and> mpq_inv consumer cap s' (log_all es a)"
proof -
  obtain q pcs where s: "s = (q, pcs)" by fastforce
  obtain turn pub where I: "inv_at consumer cap q pcs a turn pub" using inv s by (auto simp: mpq_inv_def inv_at_def)
  from step s have "\<exists>q' pcs'. s' = (q', pcs') \<and> step_ok consumer cap q' pcs' a es"
  proof (cases rule: mpq_step.cases)
    case (call pcs0 t p q0)
    then have e: "pcs0 = pcs" "q0 = q" using s by simp_all
    have "step_ok consumer cap q (pcs(t := p)) a []"
      by (rule step_local [OF I]) (use call e may_start_kind [where consumer = consumer and t = t and p = p] inv_atD(3) [OF I, of t] in simp_all)
    with call e show ?thesis by simp
  next
    case (act pcs0 t q0 q' p)
    then have e: "pcs0 = pcs" "q0 = q" using s by simp_all
    have cl: "calm_pc a t (pcs t)" using calm s by (simp add: calm_def)
    note run = act(4) [unfolded e]
    have "step_ok consumer cap q' (pcs(t := p)) a es"
    proof (cases "pcs t")
      case Idle
      with act e show ?thesis by simp
    next
      case (Push x)
      with run obtain y where "trypush_act t q x = (es, q', y)" "p = next_pc Push y" by (auto split: prod.splits)
      with trypush_step [OF I cl Push] show ?thesis by simp
    next
      case (Pop x)
      with run obtain y where "pop_act t q x = (es, q', y)" "p = next_pc Pop y" by (auto split: prod.splits)
      with pop_step [OF I cl Pop] show ?thesis by simp
    next
      case (Sc x)
      with run obtain y where "pop_sc_act t q x = (es, q', y)" "p = next_pc Sc y" by (auto split: prod.splits)
      with pop_sc_step [OF I Sc] show ?thesis by simp
    next
      case (Batch x)
      with run obtain y where "pop_sc_batch_act t q x = (es, q', y)" "p = next_pc Batch y" by (auto split: prod.splits)
      with pop_sc_batch_step [OF I Batch] show ?thesis by simp
    next
      case (Size x)
      with run obtain y where "size_act t q x = (es, q', y)" "p = next_pc Size y" by (auto split: prod.splits)
      with size_step [OF I cl Size] show ?thesis by simp
    next
      case (Empty x)
      with run obtain y where "empty_act t q x = (es, q', y)" "p = next_pc Empty y" by (auto split: prod.splits)
      with empty_step [OF I cl Empty] show ?thesis by simp
    qed
    with act e show ?thesis by simp
  qed
  then show ?thesis by (auto simp: step_ok_def mpq_inv_def inv_at_def)
qed

section \<open>Runs\<close>

text \<open>The runs of a set of threads from a state, with all that can be observed on the way.\<close>

inductive mpq_run :: "nat option \<Rightarrow> 'a mpq_sys \<Rightarrow> 'a mpq_event list \<Rightarrow> 'a mpq_sys \<Rightarrow> bool" for consumer s0 where
  start: "mpq_run consumer s0 [] s0"
| step: "mpq_run consumer s0 tr s \<Longrightarrow> calm s (log_all tr log_init) \<Longrightarrow> mpq_step consumer s es s' \<Longrightarrow>
    mpq_run consumer s0 (tr @ es) s'"

lemma mpq_init_inv:
  assumes "mpq_init csz blank n = Some q" "mq_capacity q \<le> 2 ^ 30"
  shows "mpq_inv consumer (unat (mq_capacity q)) (q, \<lambda>_. Idle) log_init"
proof -
  obtain cap where cap: "(if n = 0 then Some MPQ_DEFAULT_CAP else pow2_ceil (if n < 2 then 2 else n)) = Some cap"
    "q = \<lparr>mq_cells = map (\<lambda>i. \<lparr>mc_seq = of_nat i, mc_data = blank\<rparr>) [0..<unat cap], mq_capacity = cap, mq_mask = cap - 1,
           mq_enq = 0, mq_deq = 0\<rparr>"
    using assms(1) by (auto simp: mpq_init_def bind_eq_Some_conv split: if_splits)
  have "\<exists>k. 1 \<le> k \<and> k \<le> 30 \<and> unat cap = 2 ^ k"
  proof (cases "n = 0")
    case True
    then show ?thesis using cap(1) by (intro exI [of _ 10]) (auto simp: MPQ_DEFAULT_CAP_def)
  next
    case False
    define m where "m = (if n < 2 then 2 else n)"
    have p: "pow2_ceil m = Some cap" using cap(1) False by (simp add: m_def)
    have two: "2 \<le> unat m" by (auto simp: m_def word_less_nat_alt)
    have m: "0 < m" using two by (cases "m = 0") (auto simp: word_gt_0)
    have le: "unat m \<le> 2 ^ 31" using p pow2_ceil_overflow [of m] by (cases "2 ^ 31 < unat m") simp_all
    obtain k where k: "k \<le> 31" "pow2_ceil m = Some (2 ^ k)" "unat m \<le> 2 ^ k"
      using pow2_ceil_ok [OF m le] by blast
    have c: "cap = 2 ^ k" using k(2) p by simp
    have u: "unat cap = 2 ^ k" using k(1) by (simp add: c unat_pow2)
    have "(2::nat) ^ k \<le> 2 ^ 30" using assms(2) u by (simp add: cap(2) word_le_nat_alt)
    then have "k \<le> 30" using power_le_imp_le_exp [of "2::nat" k 30] by simp
    moreover have "1 \<le> k" using two k(3) by (cases k) auto
    ultimately show ?thesis using u by blast
  qed
  then have "cells_ok (unat cap) 0 q log_init (\<lambda>i. i) (\<lambda>_. False)"
    by (auto simp: cells_ok_def cell_inv_def cap(2) log_init_def)
  moreover have "owned (unat cap) (\<lambda>_. Idle) log_init (\<lambda>i. i) (\<lambda>_. False)" by (simp add: owned_def log_init_def)
  ultimately show ?thesis
    by (auto simp: mpq_inv_def ahead_def cap(2) log_init_def split: option.split intro!: exI [of _ "\<lambda>i. i"] exI [of _ "\<lambda>_. False"])
qed

end
