(* ===== verification/Mpq_Run.thy ===== *)
theory Mpq_Run
  imports Mpq_Laws
begin

text \<open>
  What a run of the lock-free queue of \<open>Mpq\<close> shows: the observations of every run are those of one
  atomic queue, and the operations do not wait for each other where the code promises it.
\<close>

lemma mpq_run_ok:
  assumes "mpq_run consumer s0 tr s" "mpq_inv consumer cap s0 log_init"
  shows "fifo_trace cap tr log_init \<and> mpq_inv consumer cap s (log_all tr log_init)"
  using assms
proof (induction rule: mpq_run.induct)
  case start
  then show ?case by simp
next
  case (step tr s es s')
  then show ?case using mpq_step_ok by fastforce
qed

section \<open>A thread that runs alone\<close>

text \<open>
  \<open>solo t k\<close>: thread \<open>t\<close> takes \<open>k\<close> steps while all others stand still, wherever they are.
  \<open>solo_steps\<close>: the number of accesses it needs at most. A \<open>trypush\<close> or \<open>pop\<close> may have to read its
  counter once more; a batch looks at, copies and gives back its cells one by one.
\<close>

primrec solo :: "nat \<Rightarrow> nat \<Rightarrow> 'a mpq \<Rightarrow> 'a mpq_pc \<Rightarrow> 'a mpq \<times> 'a mpq_pc" where
  "solo t 0 q p = (q, p)"
| "solo t (Suc k) q p = (case mpq_act t q p of (es, q', p') \<Rightarrow> solo t k q' p')"

fun solo_steps :: "'a mpq_pc \<Rightarrow> nat" where
  "solo_steps Idle = 0"
| "solo_steps (Push p) = 8"
| "solo_steps (Pop p) = 8"
| "solo_steps (Sc p) = 5"
| "solo_steps (Batch (BatchDeq mx)) = 3 * mx + 4"
| "solo_steps (Batch (BatchLook mx pos out)) = 2 * (mx - length out) + max mx (length out) + 3"
| "solo_steps (Batch (BatchCopy mx pos out)) = 2 * (mx - Suc (length out)) + max mx (Suc (length out)) + 4"
| "solo_steps (Batch (BatchOut i pos out)) = length out - i + 2"
| "solo_steps (Batch (BatchNext pos out)) = 1"
| "solo_steps (Size p) = 2"
| "solo_steps (Empty p) = 2"

lemma solo_idle [simp]: "solo t k q Idle = (q, Idle)"
  by (induction k) simp_all

lemma solo_mono: "snd (solo t k q p) = Idle \<Longrightarrow> k \<le> l \<Longrightarrow> snd (solo t l q p) = Idle"
proof (induction k arbitrary: l q p)
  case (Suc k)
  then obtain l' where "l = Suc l'" by (cases l) auto
  with Suc show ?case by (simp split: prod.splits)
qed simp

lemma near_turn:
  assumes c: "cells_ok cap n q a turn pub" and p: "lg_taken a + n \<le> p" "p \<le> length (lg_hist a)"
  shows "turn (p mod cap) \<le> p" "p \<le> turn (p mod cap) + cap"
proof -
  show "turn (p mod cap) \<le> p"
    using cell_ok(1,3) [OF c, of p] same_slot [of p cap "turn (p mod cap)"] p(1) by fastforce
  show "p \<le> turn (p mod cap) + cap"
  proof (cases "cap < p")
    case True
    have "(p - cap) mod cap = p mod cap" using True by (simp add: le_mod_geq)
    moreover have "p - cap < length (lg_hist a)" using True p(2) cells_okD(1) [OF c] by linarith
    ultimately have "p - cap \<le> turn (p mod cap)" using cell_ok(7) [OF c, of "p - cap"] by simp
    then show ?thesis by linarith
  qed simp
qed

lemma push_fresh:
  assumes c: "cells_ok cap n q a turn pub"
  shows "seq_diff (cell_seq q (mq_enq q)) (mq_enq q) \<le> 0"
proof -
  let ?p = "length (lg_hist a)"
  note t = near_turn [OF c cells_okD(9) [OF c] order.refl] and k = cell_ok [OF c, of ?p]
  have "seq_diff (of_nat (turn (?p mod cap) + (if pub (?p mod cap) then 1 else 0))) (of_nat ?p) =
      int (turn (?p mod cap) + (if pub (?p mod cap) then 1 else 0)) - int ?p"
    using t cells_okD(2) [OF c] by (intro seq_diff_near) (auto simp: abs_if split: if_split)
  then show ?thesis using k(4) t(1) by (simp add: cells_okD(7) [OF c] k(2) split: if_split_asm)
qed

lemma pop_fresh:
  assumes c: "cells_ok cap 0 q a turn pub"
  shows "seq_diff (cell_seq q (mq_deq q)) (mq_deq q + 1) \<le> 0"
proof -
  let ?p = "lg_taken a"
  note t = near_turn [OF c _ cells_okD(9) [OF c, simplified]] and k = cell_ok [OF c, of ?p]
  have "seq_diff (of_nat (turn (?p mod cap) + (if pub (?p mod cap) then 1 else 0))) (of_nat (?p + 1)) =
      int (turn (?p mod cap) + (if pub (?p mod cap) then 1 else 0)) - int (?p + 1)"
    using t cells_okD(2) [OF c] by (intro seq_diff_near) (auto simp: abs_if split: if_split)
  then show ?thesis using t(1) by (simp add: cells_okD(8) [OF c] k(2) add.commute split: if_split_asm)
qed

lemma solo_next: "mpq_act t q p = (es, q', p') \<Longrightarrow> snd (solo t k q' p') = Idle \<Longrightarrow> snd (solo t (Suc k) q p) = Idle"
  by simp

lemma solo_push:
  fixes q :: "'a mpq"
  assumes f: "seq_diff (cell_seq q (mq_enq q)) (mq_enq q) \<le> 0"
  shows "snd (solo t 8 q (Push p)) = Idle"
proof -
  have copy: "snd (solo t (Suc (Suc 0)) r (Push (PushCopy d pos))) = Idle" for r :: "'a mpq" and d pos by (simp add: next_pc_def)
  have look: "snd (solo t (Suc (Suc (Suc (Suc 0)))) q (Push (PushLook d (mq_enq q)))) = Idle" for d
    using f by (auto simp: next_pc_def Let_def)
  have enq: "snd (solo t (Suc (Suc (Suc (Suc (Suc 0))))) q (Push (PushEnq d))) = Idle" for d
    by (rule solo_next [OF _ look]) (simp add: next_pc_def)
  have cas: "snd (solo t 6 q (Push (PushCas d pos))) = Idle" for d pos
  proof (cases "mq_enq q = pos")
    case True
    then have "snd (solo t (Suc (Suc (Suc 0))) q (Push (PushCas d pos))) = Idle" by (simp add: next_pc_def)
    then show ?thesis by (rule solo_mono) simp
  next
    case False
    then have "snd (solo t (Suc (Suc (Suc (Suc (Suc (Suc 0)))))) q (Push (PushCas d pos))) = Idle"
      by (intro solo_next [OF _ enq]) (simp add: next_pc_def)
    then show ?thesis by (simp add: eval_nat_numeral)
  qed
  have look': "snd (solo t (Suc 6) q (Push (PushLook d pos))) = Idle" for d pos
  proof -
    have "snd (solo t 6 q (Push (PushEnq d))) = Idle" by (rule solo_mono [OF enq]) simp
    with cas show ?thesis unfolding solo.simps(2) by (simp add: next_pc_def Let_def)
  qed
  show ?thesis
  proof (cases p)
    case (PushEnq d) show ?thesis unfolding PushEnq by (rule solo_mono [OF enq]) simp
  next
    case (PushLook d pos) show ?thesis unfolding PushLook by (rule solo_mono [OF look']) simp
  next
    case (PushCas d pos) show ?thesis unfolding PushCas by (rule solo_mono [OF cas]) simp
  next
    case (PushCopy d pos) show ?thesis unfolding PushCopy by (rule solo_mono [OF copy]) simp
  next
    case (PushOut pos)
    have "snd (solo t (Suc 0) q (Push (PushOut pos))) = Idle" by (simp add: next_pc_def)
    then show ?thesis unfolding PushOut by (rule solo_mono) simp
  qed
qed

lemma solo_pop:
  fixes q :: "'a mpq"
  assumes f: "seq_diff (cell_seq q (mq_deq q)) (mq_deq q + 1) \<le> 0"
  shows "snd (solo t 8 q (Pop p)) = Idle"
proof -
  have copy: "snd (solo t (Suc (Suc 0)) r (Pop (PopCopy pos))) = Idle" for r :: "'a mpq" and pos by (simp add: next_pc_def)
  have look: "snd (solo t (Suc (Suc (Suc (Suc 0)))) q (Pop (PopLook (mq_deq q)))) = Idle"
    using f by (auto simp: next_pc_def Let_def)
  have deq: "snd (solo t (Suc (Suc (Suc (Suc (Suc 0))))) q (Pop PopDeq)) = Idle"
    by (rule solo_next [OF _ look]) (simp add: next_pc_def)
  have cas: "snd (solo t 6 q (Pop (PopCas pos))) = Idle" for pos
  proof (cases "mq_deq q = pos")
    case True
    then have "snd (solo t (Suc (Suc (Suc 0))) q (Pop (PopCas pos))) = Idle" by (simp add: next_pc_def)
    then show ?thesis by (rule solo_mono) simp
  next
    case False
    then have "snd (solo t (Suc (Suc (Suc (Suc (Suc (Suc 0)))))) q (Pop (PopCas pos))) = Idle"
      by (intro solo_next [OF _ deq]) (simp add: next_pc_def)
    then show ?thesis by (simp add: eval_nat_numeral)
  qed
  have enq: "snd (solo t (Suc 0) q (Pop (PopEnq pos))) = Idle" for pos by (simp add: next_pc_def)
  have look': "snd (solo t (Suc 6) q (Pop (PopLook pos))) = Idle" for pos
  proof -
    have "snd (solo t 6 q (Pop PopDeq)) = Idle" by (rule solo_mono [OF deq]) simp
    moreover have "snd (solo t 6 q (Pop (PopEnq pos))) = Idle" by (rule solo_mono [OF enq]) simp
    ultimately show ?thesis using cas unfolding solo.simps(2) by (simp add: next_pc_def Let_def)
  qed
  show ?thesis
  proof (cases p)
    case PopDeq show ?thesis unfolding PopDeq by (rule solo_mono [OF deq]) simp
  next
    case (PopLook pos) show ?thesis unfolding PopLook by (rule solo_mono [OF look']) simp
  next
    case (PopCas pos) show ?thesis unfolding PopCas by (rule solo_mono [OF cas]) simp
  next
    case (PopEnq pos) show ?thesis unfolding PopEnq by (rule solo_mono [OF enq]) simp
  next
    case (PopCopy pos) show ?thesis unfolding PopCopy by (rule solo_mono [OF copy]) simp
  next
    case (PopOut pos d)
    have "snd (solo t (Suc 0) q (Pop (PopOut pos d))) = Idle" by (simp add: next_pc_def)
    then show ?thesis unfolding PopOut by (rule solo_mono) simp
  qed
qed

lemma solo_sc: "snd (solo t 5 q (Sc p)) = Idle"
  by (cases p) (simp_all add: eval_nat_numeral next_pc_def Let_def)

lemma solo_batch_out: "snd (solo t (length out - i + 2) q (Batch (BatchOut i pos out))) = Idle"
proof (induction "length out - i" arbitrary: i q)
  case 0
  then show ?case by (simp add: next_pc_def)
next
  case (Suc n)
  have l: "length out - i + 2 = Suc (length out - Suc i + 2)" "n = length out - Suc i" using Suc(2) by linarith+
  have "snd (solo t (length out - Suc i + 2) r (Batch (BatchNext pos out))) = Idle" for r by (simp add: next_pc_def)
  moreover have "snd (solo t (length out - Suc i + 2) r (Batch (BatchOut (Suc i) pos out))) = Idle" for r
    by (rule Suc(1) [OF l(2)])
  ultimately show ?case unfolding l(1) by (simp add: next_pc_def)
qed

lemma solo_batch_look: "snd (solo t (2 * (mx - length out) + max mx (length out) + 3) q (Batch (BatchLook mx pos out))) = Idle"
proof (induction "mx - length out" arbitrary: out)
  case 0
  have "snd (solo t (length out + 2) q (Batch (BatchOut 0 pos out))) = Idle"
    using solo_batch_out [of t out 0] by simp
  then have "snd (solo t (max mx (length out) + 2) q (Batch (BatchOut 0 pos out))) = Idle" by (rule solo_mono) simp
  then show ?case using 0 by (simp add: next_pc_def Let_def eval_nat_numeral)
next
  case (Suc n)
  define d where "d = get_data q (pos + of_nat (length out))"
  have lt: "length out < mx" using Suc(2) by linarith
  define k where "k = 2 * (mx - length (out @ [d])) + max mx (length (out @ [d])) + 3"
  have l: "2 * (mx - length out) + max mx (length out) + 3 = Suc (Suc k)" using lt by (simp add: k_def)
  have "snd (solo t k q (Batch (BatchLook mx pos (out @ [d])))) = Idle"
    unfolding k_def by (rule Suc(1)) (use Suc(2) in simp)
  moreover have "snd (solo t (Suc k) q (Batch (BatchOut 0 pos out))) = Idle"
    using solo_batch_out [of t out 0] by (rule solo_mono) (simp add: k_def)
  ultimately show ?case unfolding l by (simp add: next_pc_def Let_def flip: d_def)
qed

lemma solo_returns:
  assumes c: "inv_at consumer cap q pcs a turn pub"
  shows "snd (solo t (solo_steps (pcs t)) q (pcs t)) = Idle"
proof (cases "pcs t")
  case (Push p)
  then show ?thesis using solo_push [OF push_fresh [OF inv_atD(1) [OF c]]] by simp
next
  case (Pop p)
  then have "consumer = None" using inv_atD(4) [OF c, of t] by simp
  then have "cells_ok cap 0 q a turn pub" using inv_atD(1) [OF c] by (simp add: ahead_def)
  then show ?thesis using solo_pop [OF pop_fresh] Pop by simp
next
  case (Sc p)
  then show ?thesis using solo_sc by simp
next
  case (Batch p)
  show ?thesis
  proof (cases p)
    case (BatchDeq mx)
    have "snd (solo t (Suc (3 * mx + 3)) q (Batch (BatchDeq mx))) = Idle"
      using solo_batch_look [of t mx "[]" q "mq_deq q"] unfolding solo.simps(2) by (simp add: next_pc_def)
    then show ?thesis by (simp add: Batch BatchDeq add.commute)
  next
    case (BatchLook mx pos out)
    then show ?thesis using solo_batch_look by (simp add: Batch)
  next
    case (BatchCopy mx pos out)
    then show ?thesis
      using solo_batch_look [of t mx "out @ [get_data q (pos + of_nat (length out))]" q pos]
      by (simp add: Batch next_pc_def eval_nat_numeral)
  next
    case (BatchOut i pos out)
    then show ?thesis unfolding Batch BatchOut solo_steps.simps by (intro solo_batch_out)
  next
    case (BatchNext pos out)
    then show ?thesis by (simp add: Batch next_pc_def)
  qed
next
  case (Size p)
  then show ?thesis by (cases p) (simp_all add: eval_nat_numeral next_pc_def Let_def)
next
  case (Empty p)
  then show ?thesis by (cases p) (simp_all add: eval_nat_numeral next_pc_def)
qed simp

section \<open>Properties\<close>

lemma reach_inv:
  assumes "mpq_init csz blank n = Some q0" "mq_capacity q0 \<le> 2 ^ 30" "mpq_run consumer (q0, \<lambda>_. Idle) tr s"
  shows "fifo_trace (unat (mq_capacity q0)) tr log_init"
    "mpq_inv consumer (unat (mq_capacity q0)) s (log_all tr log_init)"
  using mpq_run_ok [OF assms(3) mpq_init_inv [OF assms(1,2)]] by simp_all

text \<open>C7:
  The lock-free queue is linearizable: for every capacity up to \<open>2 ^ 30\<close>, any number of threads and
  any interleaving of their atomic steps, with several consumers (\<open>None\<close>) or one (\<open>Some c\<close>), what the
  threads observe is what they would observe of one atomic queue. Every element that is pushed takes
  its place once; elements are handed out once each, unchanged, in that order; \<open>trypush\<close> fails only
  when the ring is full or elements are just being taken out of it; \<open>pop\<close> reports empty only of an
  empty queue; \<open>size\<close> and \<open>empty\<close> never report less than there is. At no time does it hold more
  elements than its capacity and the cells a running batch has given back. (No operation is suspended
  while its counter moves on by \<open>2 ^ 30\<close>: \<open>calm\<close> in the definition of a run.)
\<close>

theorem mpq_linearizable:
  assumes "mpq_init csz blank n = Some q0" "mq_capacity q0 \<le> 2 ^ 30"
    and "mpq_run consumer (q0, \<lambda>_. Idle) tr (q, pcs)"
  shows "fifo_trace (unat (mq_capacity q0)) tr log_init \<and>
    length (lg_queue (log_all tr log_init)) \<le> unat (mq_capacity q0) + ahead consumer pcs"
proof -
  note r = reach_inv [OF assms]
  obtain turn pub where c: "cells_ok (unat (mq_capacity q0)) (ahead consumer pcs) q (log_all tr log_init) turn pub"
    using r(2) by (auto simp: mpq_inv_def)
  show ?thesis using r(1) log_near [OF c] by (simp add: lg_queue_def)
qed

lemma run_call:
  "mpq_run consumer s0 tr (q, pcs) \<Longrightarrow> calm (q, pcs) (log_all tr log_init) \<Longrightarrow> pcs t = Idle \<Longrightarrow> may_start consumer t p \<Longrightarrow>
   mpq_run consumer s0 tr (q, pcs(t := p))"
  using mpq_run.step [OF _ _ mpq_step.call, of consumer s0 tr q pcs t p] by simp

lemma run_act:
  "mpq_run consumer s0 tr (q, pcs) \<Longrightarrow> calm (q, pcs) (log_all tr log_init) \<Longrightarrow> pcs t \<noteq> Idle \<Longrightarrow> mpq_act t q (pcs t) = (es, q', p) \<Longrightarrow>
   mpq_run consumer s0 (tr @ es) (q', pcs(t := p))"
  by (rule mpq_run.step [OF _ _ mpq_step.act])

text \<open>A concrete queue of two cells: thread 2 pushes 7 while thread 3, its consumer, has read an older counter.\<close>

definition two_cells :: "u32 \<Rightarrow> nat \<Rightarrow> u32 \<Rightarrow> u32 \<Rightarrow> nat mpq" where
  "two_cells s d e f = \<lparr>mq_cells = [\<lparr>mc_seq = s, mc_data = d\<rparr>, \<lparr>mc_seq = 1, mc_data = 0\<rparr>],
     mq_capacity = 2, mq_mask = 1, mq_enq = e, mq_deq = f\<rparr>"

lemma two_cells_init: "mpq_init 16 0 2 = Some (two_cells 0 0 0 0)"
proof -
  have "pow2_ceil 2 = Some 2" by (simp add: pow2_ceil_def)
  then show ?thesis by (simp add: mpq_init_def two_cells_def upt_rec)
qed

lemma two_cells_cell [simp]: "cell_at (two_cells s d e f) 0 = 0"
  by (simp add: cell_at_def two_cells_def)

lemma two_cells_simps [simp]:
  "cell_seq (two_cells s d e f) 0 = s" "get_data (two_cells s d e f) 0 = d"
  "set_seq (two_cells s d e f) 0 v = two_cells v d e f" "set_data (two_cells s d e f) 0 x = two_cells s x e f"
  "mq_enq (two_cells s d e f) = e" "mq_deq (two_cells s d e f) = f" "mq_capacity (two_cells s d e f) = 2"
  "two_cells s d e f \<lparr>mq_enq := g\<rparr> = two_cells s d g f" "two_cells s d e f \<lparr>mq_deq := g\<rparr> = two_cells s d e g"
  by (simp_all add: cell_seq_def get_data_def set_seq_def set_data_def) (simp_all add: two_cells_def)

lemma calm_two: "calm_pc a 2 p \<Longrightarrow> calm_pc a 3 r \<Longrightarrow> calm (q, (\<lambda>_. Idle)(2 := p, 3 := r)) a"
  by (simp add: calm_def)

abbreviation two_pcs :: "nat mpq_pc \<Rightarrow> nat mpq_pc \<Rightarrow> nat \<Rightarrow> nat mpq_pc" where
  "two_pcs p r \<equiv> (\<lambda>_. Idle)(2 := p, 3 := r)"

lemma two_upd: "(two_pcs p r)(2 := p') = two_pcs p' r" "(two_pcs p r)(3 := r') = two_pcs p r'"
  by auto

lemma half_run:
  "mpq_run (Some 3) (two_cells 0 0 0 0, \<lambda>_. Idle)
     [ELoadDeq 3, ELoadEnq 2, EPush 2 7, EInFlight 3] (two_cells 0 0 1 0, two_pcs (Push (PushCopy 7 0)) Idle)"
  (is "mpq_run ?c ?s0 _ _")
proof -
  have pcs: "(\<lambda>_. Idle) = two_pcs Idle Idle" by auto
  have z: "seq_diff 0 0 = 0" "seq_diff 0 1 = - 1" by (simp_all add: seq_diff_def)
  note run = run_act [of ?c ?s0]
  have "mpq_run ?c ?s0 [] (two_cells 0 0 0 0, two_pcs Idle Idle)" unfolding pcs [symmetric] by (rule mpq_run.start)
  from run_call [OF this, of 3 "Sc ScDeq"]
  have "mpq_run ?c ?s0 [] (two_cells 0 0 0 0, two_pcs Idle (Sc ScDeq))" by (simp add: calm_two two_upd may_start_def)
  from run [OF this, of 3] have "mpq_run ?c ?s0 [ELoadDeq 3] (two_cells 0 0 0 0, two_pcs Idle (Sc (ScLook 0)))"
    by (simp add: calm_two two_upd next_pc_def)
  from run_call [OF this, of 2 "Push (PushEnq 7)"]
  have "mpq_run ?c ?s0 [ELoadDeq 3] (two_cells 0 0 0 0, two_pcs (Push (PushEnq 7)) (Sc (ScLook 0)))"
    by (simp add: calm_two two_upd may_start_def)
  from run [OF this, of 2]
  have "mpq_run ?c ?s0 [ELoadDeq 3, ELoadEnq 2] (two_cells 0 0 0 0, two_pcs (Push (PushLook 7 0)) (Sc (ScLook 0)))"
    by (simp add: calm_two two_upd next_pc_def)
  from run [OF this, of 2]
  have "mpq_run ?c ?s0 [ELoadDeq 3, ELoadEnq 2] (two_cells 0 0 0 0, two_pcs (Push (PushCas 7 0)) (Sc (ScLook 0)))"
    by (simp add: calm_two two_upd next_pc_def z log_init_def)
  from run [OF this, of 2]
  have "mpq_run ?c ?s0 [ELoadDeq 3, ELoadEnq 2, EPush 2 7] (two_cells 0 0 1 0, two_pcs (Push (PushCopy 7 0)) (Sc (ScLook 0)))"
    by (simp add: calm_two two_upd next_pc_def log_init_def)
  from run [OF this, of 3]
  have "mpq_run ?c ?s0 [ELoadDeq 3, ELoadEnq 2, EPush 2 7] (two_cells 0 0 1 0, two_pcs (Push (PushCopy 7 0)) (Sc (ScEnq 0)))"
    by (simp add: calm_two two_upd next_pc_def z)
  from run [OF this, of 3]
  show ?thesis by (simp add: calm_two two_upd next_pc_def)
qed

lemma two_run:
  "mpq_run (Some 3) (two_cells 0 0 0 0, \<lambda>_. Idle)
     [ELoadDeq 3, ELoadEnq 2, EPush 2 7, EInFlight 3, EPushed 2] (two_cells 1 7 1 0, two_pcs Idle Idle)"
  (is "mpq_run ?c ?s0 _ _")
proof -
  note run = run_act [of ?c ?s0]
  from run [OF half_run, of 2]
  have "mpq_run ?c ?s0 [ELoadDeq 3, ELoadEnq 2, EPush 2 7, EInFlight 3] (two_cells 0 7 1 0, two_pcs (Push (PushOut 0)) Idle)"
    by (simp add: calm_two two_upd next_pc_def)
  from run [OF this, of 2] show ?thesis by (simp add: calm_two two_upd next_pc_def)
qed

theorem mpq_linearizable_witness:
  "fifo_trace 2 [ELoadDeq 3, ELoadEnq 2, EPush 2 7, EInFlight 3, EPushed 2] (log_init :: nat mpq_log)"
  using mpq_linearizable [OF two_cells_init _ two_run] by simp

text \<open>C34:
  No thread of the lock-free queue waits for another: in every state a run can reach, wherever the
  other threads were stopped (a producer that claimed a cell and did not fill it, a consumer that did
  not give one back), an operation that is under way comes to its return within \<open>solo_steps\<close> of its own
  accesses if the others stand still: 8 for \<open>trypush\<close> and \<open>pop\<close>, 5 for \<open>pop_sc\<close>, \<open>3 * max + 4\<close> for a batch.
\<close>

theorem mpq_solo_returns:
  assumes "mpq_init csz blank n = Some q0" "mq_capacity q0 \<le> 2 ^ 30"
    and "mpq_run consumer (q0, \<lambda>_. Idle) tr (q, pcs)"
  shows "snd (solo t (solo_steps (pcs t)) q (pcs t)) = Idle"
  using reach_inv(2) [OF assms] solo_returns by (fastforce simp: mpq_inv_def inv_at_def)

theorem mpq_solo_returns_witness:
  "snd (solo 2 8 (two_cells 0 0 1 0) (Push (PushCopy 7 0))) = Idle"
  using mpq_solo_returns [OF two_cells_init _ half_run, of 2] by simp

end
