(* ===== verification/Spec2Isabelle.thy ===== *)
theory Spec2Isabelle
  imports Ring_Queue Prots Hmac Crc16 Crc32 Timer_Run Task_Life Chan_Laws Task_Registry Redis_Run Mpq_Run
begin

text \<open>
  A verification development for srey, a C framework for asynchronous services: tasks that exchange
  messages, an event loop per network thread that turns received bytes into messages of a protocol,
  and a pool of workers that runs the tasks. All paths below are under \<open>src/lib/\<close>.

  \<^bold>\<open>The parts and how they work together.\<close> A connection owns a receive buffer (\<open>utils/buffer.c\<close>). When
  bytes arrive, \<open>prots_net_recv\<close> (\<open>protocol/prots.c\<close>) calls the unpacker of the connection's protocol
  until the buffer holds no further message, and posts each message to the task that owns the
  connection. A task (\<open>srey/task.c\<close>) has a message queue; the first message puts the task into the run
  queue of a worker (\<open>srey/loader.c\<close>), which dispatches a quota of messages and either puts it back or
  lets it sleep. Message queues, run queues and the commands to an event loop go through the queues of
  \<open>containers/\<close>; tasks are found through hash maps, identified by \<open>utils/idgen.c\<close>; timeouts come from the
  timer wheel \<open>utils/tw.c\<close>; threads outside talk through \<open>utils/chan.c\<close>. Digests, HMAC, PBKDF2 and CRC
  (\<open>crypt/\<close>) serve the handshakes of the protocols.

  \<^bold>\<open>Theories and sources.\<close>
  \<^item> \<open>Prelude\<close>, \<open>Ops\<close>: machine types, return codes, \<open>memcpy\<close> on byte lists, shared lemmas, sequences of
    operations. \<open>Fifo\<close>, \<open>Byte_Stream\<close>, \<open>Framing\<close>: the contracts (locales) between the components: a
    queue, a buffer of bytes, a coding of messages on a stream of bytes.
  \<^item> \<open>Bits\<close> (\<open>base/bits.c\<close>), \<open>Byte_Order\<close> (\<open>base/sbyteswap.c\<close>), \<open>Byte_Search\<close> (\<open>base/bytes.c\<close>),
    \<open>Strconv\<close> (\<open>base/strconv.c\<close>).
  \<^item> \<open>Ring_Queue\<close> (\<open>containers/queue.h\<close>), which provides \<open>fifo\<close>; \<open>Mpq\<close>, \<open>Mpq_Inv\<close>, \<open>Mpq_Laws\<close>,
    \<open>Mpq_Run\<close> (\<open>containers/mpq.h\<close>); \<open>Hash_Map\<close>, \<open>Hash_Map_Inv\<close>, \<open>Hash_Map_Laws\<close>, \<open>Hash_Map_Run\<close>
    (\<open>containers/hashmap.h\<close>), generic in the hash and the comparison, which \<open>hash_key\<close> relates.
  \<^item> \<open>Buffer_Model\<close> (state and operations of \<open>utils/buffer.c\<close>), \<open>Buffer_Inv\<close>, \<open>Buffer_Read\<close>,
    \<open>Buffer_Write\<close>, \<open>Buffer_Drain\<close>, \<open>Buffer_Search\<close> (the laws), \<open>Buffer\<close>, which provides \<open>byte_stream\<close>.
  \<^item> \<open>Prots_Pub\<close>, \<open>Custz\<close> (\<open>protocol/custz.c\<close>, \<open>custz_head.c\<close>), \<open>Prots\<close> (\<open>protocol/prots.c\<close>): the
    receive path for every unpacker that implements a \<open>framing\<close>, in the locales \<open>unpacker\<close> (no state
    per connection) and \<open>session_unpacker\<close> (with state); \<open>Redis\<close>, \<open>Redis_Frame\<close>, \<open>Redis_Laws\<close>,
    \<open>Redis_Reply\<close>, \<open>Redis_Value\<close>, \<open>Redis_Run\<close> (\<open>protocol/redis.c\<close>), which provides the second.
  \<^item> \<open>Hash_Block\<close>, \<open>Hash_Ctx\<close>, \<open>Md2\<close>, \<open>Md4\<close>, \<open>Md5\<close>, \<open>Sha1\<close>, \<open>Sha256\<close>, \<open>Sha512\<close>, \<open>Xxhash\<close>, \<open>Digest\<close>, \<open>Hmac\<close>,
    \<open>Crc_Bits\<close>, \<open>Crc32_Tables\<close>, \<open>Crc32\<close>, \<open>Crc16_Tables\<close>, \<open>Crc16\<close> (\<open>crypt/\<close>); every engine provides
    \<open>digest_engine\<close>.
  \<^item> \<open>Timer_Wheel\<close>, \<open>Timer_Run\<close> (\<open>utils/tw.c\<close>, \<open>tw.h\<close>), \<open>Chan\<close>, \<open>Chan_Laws\<close> (\<open>utils/chan.c\<close>), \<open>Id_Gen\<close>
    (\<open>utils/idgen.c\<close>), \<open>Task_Registry\<close> (the tables of \<open>srey/task.c\<close>), \<open>Loader\<close> (the scheduling decisions
    of \<open>srey/loader.c\<close>), \<open>Task_Life\<close> (one task under any number of threads, \<open>srey/task.c\<close> and
    \<open>srey/loader.c\<close>).

  \<^bold>\<open>How the code is translated.\<close> A C struct is a record, a pointer into an array is an index, integers
  that may wrap are words of their width; sizes (\<open>size_t\<close>) are naturals, with the limits checked where the
  code checks them. \<open>ASSERTAB\<close> aborts the process: a function that contains one returns an option, and
  \<open>None\<close> is the abort; properties show that it does not happen within the stated limits. Byte order is
  the parameter \<open>h\<close>. A callback is a function on the state of the caller's world.

  \<^bold>\<open>Concurrency.\<close> \<open>Task_Life\<close>, \<open>Chan\<close> and \<open>Mpq\<close> are step relations over any number of threads, one step per
  access to shared memory, in one order all threads agree on (sequential consistency; the release and
  acquire annotations of the code are not modelled). A section under a lock that excludes every other
  access to what it touches is one step. \<open>Task_Life\<close> allows more behaviour than the code in places
  where this costs nothing: the emit window opens without the tests that make it rare. \<open>Mpq\<close> is proved
  linearizable for capacities up to \<open>2 ^ 30\<close> and runs in which no operation sleeps while its counter
  moves on by \<open>2 ^ 30\<close>: sequence numbers are 32 bit words compared through their signed difference.

  \<^bold>\<open>What the lemmas show.\<close> For every component an invariant, kept by every operation; what each operation
  does on every branch; and one or more end-to-end theorems, listed with the properties: refinement of
  an abstract object (ring queue, lock-free queue, buffer, hash map, timer wheel, registry), equality
  with a reference definition (searching, digests, CRC, frames of the protocols), delivery of the
  messages of a stream independent of how the network cuts it, round trips of what is packed and
  unpacked, exclusion, order and progress of tasks and channels, and termination of the RESP parser.

  \<^bold>\<open>Bounds and fuel.\<close> Loops with a structural or decreasing argument are plain recursion. Fuel is used
  where the code's loop has no bound of its own: the probing of a hash map (number of buckets, plus one;
  enough because a bucket is always free), the receive loop (bytes in the buffer, since each message
  takes at least one), \<open>redis_loop\<close> (buffer size plus one; a round takes at least three bytes). The
  theorems that use fuel state that it does not run out.

  \<^bold>\<open>Deviations worth knowing.\<close> A timer further away than the wheel reaches is placed in the last slot of
  the outermost level, so its callback runs when that slot comes, before its time. The load factor of a
  hash map is in whole percent. A capacity of \<open>2 ^ 31\<close> of the lock-free queue, which a comment of
  \<open>containers/bbq.h\<close> allows, is outside its theorem.

  \<^bold>\<open>Not modelled.\<close> System calls and what consists of them (event loop back ends, TLS, threads, files,
  memory, log), third-party code (minicoro, yyjson, ikcp, Lua), floating point, the text formatters that
  go through \<open>printf\<close>, the remaining protocols and containers; the list of components in the manifest
  names each with the reason. Of the modelled files: \<open>buffer_from_sock\<close> and \<open>buffer_appendv\<close>, XXH3,
  \<open>strtod_s\<close>, \<open>redis_pack\<close>, the arena in which redis nodes are allocated, the send side of \<open>prots.c\<close>.
\<close>

end
